(* ===== verification/Prelude.thy ===== *)
theory Prelude
  imports Complex_Main "HOL-Library.Multiset" "HOL-Library.Word"
begin

text \<open>
  The facts every component shares: the collections that carry the component proofs, the loop
  principles for C's counted \<open>for\<close> loops (a \<^const>\<open>fold\<close> over an index range), the
  removal of one position of a list, and C's conversion of a wide integer to \<open>int\<close>.
\<close>

named_theorems frame_simps \<open>fields an operation leaves unchanged\<close>
named_theorems inv_intros \<open>an operation keeps an invariant\<close>

type_synonym u32 = "32 word"
type_synonym u64 = "64 word"
type_synonym byte = "8 word"

subsection \<open>Definitions\<close>

text \<open>A list without its element at position \<open>i\<close>: what shifting the tail of a C array
  down by one leaves in the live prefix.\<close>

definition remove_nth :: "nat \<Rightarrow> 'a list \<Rightarrow> 'a list" where
  "remove_nth i xs = take i xs @ drop (Suc i) xs"

text \<open>The largest \<open>int\<close> of the C code.\<close>

definition INT_MAX :: int where
  "INT_MAX = 2147483647"

text \<open>The conversion of a wider integer to a 32-bit \<open>int\<close>: the low 32 bits, read as two's
  complement.\<close>

definition to_int32 :: "int \<Rightarrow> int" where
  "to_int32 v = (v + 2147483648) mod 4294967296 - 2147483648"

subsection \<open>Counted loops\<close>

text \<open>An invariant of a loop \<open>for (i = 0; i < n; i++)\<close> that may mention the index.\<close>

lemma fold_range_inv:
  assumes "P 0 s" and "\<And>i s. i < n \<Longrightarrow> P i s \<Longrightarrow> P (Suc i) (f i s)"
  shows "P n (fold f [0..<n] s)"
proof -
  have "m \<le> n \<Longrightarrow> P m (fold f [0..<m] s)" for m
    by (induction m) (use assms in auto)
  then show ?thesis by simp
qed

text \<open>The same for an invariant that does not mention the index.\<close>

lemma fold_inv:
  assumes "P s" and "\<And>x s. x \<in> set xs \<Longrightarrow> P s \<Longrightarrow> P (f x s)"
  shows "P (fold f xs s)"
  using assms by (induction xs arbitrary: s) auto

lemma fold_id: "(\<And>x s. x \<in> set xs \<Longrightarrow> f x s = s) \<Longrightarrow> fold f xs s = s"
  by (induction xs arbitrary: s) auto

subsection \<open>Lists\<close>

lemma length_remove_nth [simp]: "i < length xs \<Longrightarrow> length (remove_nth i xs) = length xs - 1"
  by (simp add: remove_nth_def)

lemma mset_remove_nth: "i < length xs \<Longrightarrow> mset xs = add_mset (xs ! i) (mset (remove_nth i xs))"
  by (simp add: remove_nth_def) (metis id_take_nth_drop mset.simps(2) mset_append union_mset_add_mset_right)

lemma set_remove_nth:
  assumes "distinct xs" and "i < length xs"
  shows "set (remove_nth i xs) = set xs - {xs ! i}" and "distinct (remove_nth i xs)"
proof -
  have xs: "xs = take i xs @ xs ! i # drop (Suc i) xs"
    using assms(2) by (simp add: Cons_nth_drop_Suc)
  then have "distinct (take i xs @ xs ! i # drop (Suc i) xs)"
    using assms(1) by simp
  then have "xs ! i \<notin> set (remove_nth i xs)" and "distinct (remove_nth i xs)"
    unfolding remove_nth_def by auto
  moreover have "set xs = insert (xs ! i) (set (remove_nth i xs))"
    unfolding remove_nth_def by (subst xs) auto
  ultimately show "set (remove_nth i xs) = set xs - {xs ! i}" and "distinct (remove_nth i xs)"
    by auto
qed

lemma sum_list_update:
  fixes xs :: "int list"
  shows "i < length xs \<Longrightarrow> sum_list (xs[i := v]) = sum_list xs - xs ! i + v"
proof (induction xs arbitrary: i)
  case (Cons x xs)
  then show ?case by (cases i) auto
qed simp

lemma map_update_nth: "i < length xs \<Longrightarrow> f v = f (xs ! i) \<Longrightarrow> map f (xs[i := v]) = map f xs"
  by (simp add: map_update) (metis list_update_id map_update)

subsection \<open>Conversions\<close>

lemma to_int32_id [simp]: "- 2147483648 \<le> v \<Longrightarrow> v < 2147483648 \<Longrightarrow> to_int32 v = v"
  by (simp add: to_int32_def)

lemma to_int32_range: "- 2147483648 \<le> to_int32 v \<and> to_int32 v < 2147483648"
proof -
  have "0 \<le> (v + 2147483648) mod 4294967296" and "(v + 2147483648) mod 4294967296 < 4294967296"
    by simp_all
  then show ?thesis unfolding to_int32_def by linarith
qed

end
