(* ===== verification/Sim_Types.thy ===== *)
theory Sim_Types
  imports Prelude
begin

text \<open>
  The data model of the scheduling simulator: \<^verbatim>\<open>include/sim.h\<close> and
  \<^verbatim>\<open>include/scheduler.h\<close>. A C \<open>int\<close> is an \<^typ>\<open>int\<close>; a C array is a list of its
  declared length. The field names are the source's, with a prefix where two structs share one.
  The union of \<^verbatim>\<open>SchedulerState\<close> is a record with one field per member: the code only
  ever touches the member its \<open>algorithm\<close> field selects.
\<close>

definition MAX_PROCESSES :: int where "MAX_PROCESSES = 128"
definition MAX_BURSTS :: int where "MAX_BURSTS = 32"
definition MAX_CPUS :: int where "MAX_CPUS = 8"
definition MAX_PATH_LEN :: nat where "MAX_PATH_LEN = 512"

datatype AlgorithmKind = ALGO_MLFQ | ALGO_LOTTERY | ALGO_EDF | ALGO_CUSTOM | ALGO_ALL
datatype BurstType = BURST_CPU | BURST_IO
datatype ProcState = PROC_NEW | PROC_READY | PROC_RUNNING | PROC_BLOCKED | PROC_DONE
datatype EnqueueReason = ENQUEUE_NEW | ENQUEUE_IO_COMPLETE | ENQUEUE_PREEMPT

record Burst =
  btype :: BurstType
  duration :: int

record ProcessSpec =
  pid :: int
  arrival :: int
  base_priority :: int
  tickets :: int
  deadline :: int
  affinity :: int
  burst_count :: int
  bursts :: "Burst list"

record ProcessRuntime =
  spec :: ProcessSpec
  pstate :: ProcState
  burst_index :: int
  remaining_in_burst :: int
  ready_since :: int
  first_run_tick :: int
  completion_tick :: int
  total_waiting :: int
  runtime_ticks :: int
  migrations :: int
  last_cpu :: int
  assigned_cpu :: int
  queue_level :: int

record CpuState =
  running_pid :: int
  slice_used :: int

record Timeline =
  tick_count :: int
  tl_cpu_count :: int
  slots :: "int list"

text \<open>The averages are \<open>double\<close>s in the source. Every sum is of \<open>int\<close>s and exact in a
  \<open>double\<close>; the quotients are kept exact here, before the rounding to 53 bits.\<close>

record SimulationMetrics =
  m_algorithm :: AlgorithmKind
  algorithm_name :: string
  m_cpu_count :: int
  m_seed :: u32
  total_ticks :: int
  completed :: int
  deadline_misses :: int
  busy_ticks :: int
  m_migrations :: int
  throughput :: rat
  cpu_utilization :: rat
  avg_waiting :: rat
  avg_turnaround :: rat
  avg_response :: rat

record SimulationResult =
  metrics :: SimulationMetrics
  timeline :: Timeline

record SimulationConfig =
  c_algorithm :: AlgorithmKind
  c_cpu_count :: int
  c_seed :: u32
  max_ticks :: int
  run_all :: bool
  input_path :: string
  output_dir :: string

record Workload =
  processes :: "ProcessSpec list"
  process_count :: int

record ReadyQueue =
  items :: "int list"
  qcount :: int

record MlfqState =
  mlfq_queues :: "ReadyQueue list"
  boost_interval :: int
  last_boost_tick :: int

record LotteryState =
  lottery_ready :: ReadyQueue
  rng_state :: u32

record EdfState =
  edf_ready :: ReadyQueue

record CustomState =
  custom_queues :: "ReadyQueue list"
  steal_interval :: int
  last_steal_tick :: int
  imbalance_threshold :: int

record SchedulerState =
  algorithm :: AlgorithmKind
  cpu_count :: int
  proc_count :: int
  seed :: u32
  mlfq :: MlfqState
  lottery :: LotteryState
  edf :: EdfState
  custom :: CustomState

text \<open>What \<^verbatim>\<open>memset(.., 0, ..)\<close> leaves in each struct.\<close>

definition zero_burst :: Burst where
  "zero_burst = \<lparr>btype = BURST_CPU, duration = 0\<rparr>"

definition zero_spec :: ProcessSpec where
  "zero_spec = \<lparr>pid = 0, arrival = 0, base_priority = 0, tickets = 0, deadline = 0, affinity = 0,
     burst_count = 0, bursts = replicate (nat MAX_BURSTS) zero_burst\<rparr>"

definition zero_queue :: ReadyQueue where
  "zero_queue = \<lparr>items = replicate (nat MAX_PROCESSES) 0, qcount = 0\<rparr>"

definition zero_scheduler :: SchedulerState where
  "zero_scheduler = \<lparr>algorithm = ALGO_MLFQ, cpu_count = 0, proc_count = 0, seed = 0,
     mlfq = \<lparr>mlfq_queues = replicate 3 zero_queue, boost_interval = 0, last_boost_tick = 0\<rparr>,
     lottery = \<lparr>lottery_ready = zero_queue, rng_state = 0\<rparr>,
     edf = \<lparr>edf_ready = zero_queue\<rparr>,
     custom = \<lparr>custom_queues = replicate (nat MAX_CPUS) zero_queue, steal_interval = 0,
       last_steal_tick = 0, imbalance_threshold = 0\<rparr>\<rparr>"

text \<open>An update of one slot of the process table, \<^verbatim>\<open>procs[pid].field = ...\<close>.\<close>

definition upd_proc :: "int \<Rightarrow> (ProcessRuntime \<Rightarrow> ProcessRuntime) \<Rightarrow> ProcessRuntime list \<Rightarrow> ProcessRuntime list" where
  "upd_proc i f procs = procs[nat i := f (procs ! nat i)]"

text \<open>The same with a list index, for the other arrays.\<close>

definition upd_nth :: "nat \<Rightarrow> ('a \<Rightarrow> 'a) \<Rightarrow> 'a list \<Rightarrow> 'a list" where
  "upd_nth i f xs = xs[i := f (xs ! i)]"

subsection \<open>Updates\<close>

lemma length_upd_proc [simp]: "length (upd_proc i f procs) = length procs"
  by (simp add: upd_proc_def)

lemma nth_upd_proc:
  "j < length procs \<Longrightarrow>
     upd_proc i f procs ! j = (if j = nat i then f (procs ! j) else procs ! j)"
  by (auto simp: upd_proc_def nth_list_update)

lemma length_upd_nth [simp]: "length (upd_nth i f xs) = length xs"
  by (simp add: upd_nth_def)

lemma nth_upd_nth:
  "j < length xs \<Longrightarrow> upd_nth i f xs ! j = (if j = i then f (xs ! j) else xs ! j)"
  by (auto simp: upd_nth_def nth_list_update)

lemma map_upd_proc:
  assumes "\<And>p. g (f p) = g p"
  shows "map g (upd_proc i f procs) = map g procs"
  by (rule nth_equalityI) (auto simp: nth_upd_proc assms)

end
