(* ===== verification/Ready_Queue.thy ===== *)
theory Ready_Queue
  imports Sim_Types
begin

text \<open>
  The ready queue of the schedulers: \<open>queue_push\<close>, \<open>queue_remove_at\<close>, \<open>queue_pop\<close>
  and \<open>queue_clear\<close>, the four helpers that every file of \<^verbatim>\<open>src/schedulers\<close> repeats. A
  queue is an array of 128 slots and a count. The operations are written with the array updates of
  the code, and refine append and removal on the list of its live slots (\<open>queue_list\<close>): the
  locale \<open>ready_queue\<close> states that contract and the array implementation interprets it.
\<close>

subsection \<open>Operations\<close>

definition queue_push :: "ReadyQueue \<Rightarrow> int \<Rightarrow> ReadyQueue" where
  "queue_push queue x =
     (if qcount queue < MAX_PROCESSES
      then queue\<lparr>items := (items queue)[nat (qcount queue) := x], qcount := qcount queue + 1\<rparr>
      else queue)"

text \<open>The shifting loop \<^verbatim>\<open>for (i = ..; i < n; i++) items[i - 1] = items[i];\<close>\<close>

function shift_down :: "nat \<Rightarrow> nat \<Rightarrow> int list \<Rightarrow> int list" where
  "shift_down i n xs = (if i < n then shift_down (Suc i) n (xs[i - 1 := xs ! i]) else xs)"
  by pat_completeness auto
termination
  by (relation "measure (\<lambda>(i, n, xs). n - i)") auto

definition queue_remove_at :: "ReadyQueue \<Rightarrow> int \<Rightarrow> int \<times> ReadyQueue" where
  "queue_remove_at queue index =
     (if index < 0 \<or> index \<ge> qcount queue then (-1, queue)
      else (items queue ! nat index,
            queue\<lparr>items := shift_down (nat index + 1) (nat (qcount queue)) (items queue),
                  qcount := qcount queue - 1\<rparr>))"

definition queue_pop :: "ReadyQueue \<Rightarrow> int \<times> ReadyQueue" where
  "queue_pop queue =
     (if qcount queue = 0 then (-1, queue)
      else (items queue ! 0,
            queue\<lparr>items := shift_down 1 (nat (qcount queue)) (items queue),
                  qcount := qcount queue - 1\<rparr>))"

definition queue_clear :: "ReadyQueue \<Rightarrow> ReadyQueue" where
  "queue_clear queue = zero_queue"

subsection \<open>Abstraction and invariant\<close>

definition queue_list :: "ReadyQueue \<Rightarrow> int list" where
  "queue_list queue = take (nat (qcount queue)) (items queue)"

definition queue_ok :: "ReadyQueue \<Rightarrow> bool" where
  "queue_ok queue \<longleftrightarrow>
     length (items queue) = 128 \<and> 0 \<le> qcount queue \<and> qcount queue \<le> 128"

subsection \<open>The contract of a bounded ready queue\<close>

locale ready_queue =
  fixes empty :: 'q
    and push :: "'q \<Rightarrow> int \<Rightarrow> 'q"
    and remove_at :: "'q \<Rightarrow> int \<Rightarrow> int \<times> 'q"
    and pop :: "'q \<Rightarrow> int \<times> 'q"
    and count :: "'q \<Rightarrow> int"
    and contents :: "'q \<Rightarrow> int list"
    and ok :: "'q \<Rightarrow> bool"
    and cap :: nat
  assumes empty_ok: "ok empty" and empty_contents: "contents empty = []"
    and count: "ok q \<Longrightarrow> count q = int (length (contents q))"
    and cap: "ok q \<Longrightarrow> length (contents q) \<le> cap"
    and push_ok: "ok q \<Longrightarrow> ok (push q x)"
    and push_contents: "ok q \<Longrightarrow> length (contents q) < cap \<Longrightarrow> contents (push q x) = contents q @ [x]"
    and push_full: "ok q \<Longrightarrow> length (contents q) = cap \<Longrightarrow> push q x = q"
    and remove_ok: "ok q \<Longrightarrow> ok (snd (remove_at q i))"
    and remove_in: "ok q \<Longrightarrow> 0 \<le> i \<Longrightarrow> i < int (length (contents q)) \<Longrightarrow>
      fst (remove_at q i) = contents q ! nat i \<and>
      contents (snd (remove_at q i)) = remove_nth (nat i) (contents q)"
    and remove_out: "ok q \<Longrightarrow> i < 0 \<or> int (length (contents q)) \<le> i \<Longrightarrow> remove_at q i = (-1, q)"
    and pop_eq: "ok q \<Longrightarrow> pop q = remove_at q 0"
begin

text \<open>What the schedulers use: a push adds one element, an in-range removal takes one out.\<close>

lemma push_mset:
  "ok q \<Longrightarrow> length (contents q) < cap \<Longrightarrow> mset (contents (push q x)) = add_mset x (mset (contents q))"
  by (simp add: push_contents)

lemma remove_mset:
  assumes "ok q" "0 \<le> i" "i < count q" "remove_at q i = (x, q')"
  shows "mset (contents q) = add_mset x (mset (contents q'))" and "ok q'"
    and "x = contents q ! nat i"
proof -
  have i: "nat i < length (contents q)" using assms(2,3) count [OF assms(1)] by simp
  then show "mset (contents q) = add_mset x (mset (contents q'))" and "x = contents q ! nat i"
    using remove_in [OF assms(1,2)] assms(2-4) count [OF assms(1)] mset_remove_nth [OF i] by auto
  show "ok q'" using remove_ok [OF assms(1), of i] assms(4) by simp
qed

lemma pop_empty: "ok q \<Longrightarrow> contents q = [] \<Longrightarrow> pop q = (-1, q)"
  by (simp add: pop_eq remove_out)

lemma pop_Cons:
  assumes "ok q" and "contents q = x # xs"
  shows "fst (pop q) = x" and "contents (snd (pop q)) = xs" and "ok (snd (pop q))"
  using remove_in [OF assms(1), of 0] remove_ok [OF assms(1), of 0] assms
  by (auto simp: pop_eq remove_nth_def)

text \<open>A push followed by pops of everything before it returns the pushed element: FIFO order.\<close>

lemma push_pop_single:
  assumes "ok q" and "contents q = []" and "0 < cap"
  shows "fst (pop (push q x)) = x" and "contents (snd (pop (push q x))) = []"
  using pop_Cons [OF push_ok [OF assms(1)], of x x "[]"] push_contents [OF assms(1), of x] assms(2,3)
  by auto

end

subsection \<open>The array implementation\<close>

declare shift_down.simps [simp del]

lemma length_shift_down [simp]: "length (shift_down i n xs) = length xs"
proof (induction i n xs rule: shift_down.induct)
  case (1 i n xs)
  then show ?case by (cases "i < n") (auto simp: shift_down.simps [of i n xs])
qed

lemma nth_shift_down:
  "1 \<le> i \<Longrightarrow> n \<le> length xs \<Longrightarrow> j < length xs \<Longrightarrow>
     shift_down i n xs ! j = (if i - 1 \<le> j \<and> j < n - 1 then xs ! Suc j else xs ! j)"
proof (induction i n xs rule: shift_down.induct)
  case (1 i n xs)
  show ?case
  proof (cases "i < n")
    case True
    then have "shift_down i n xs ! j =
        (if Suc i - 1 \<le> j \<and> j < n - 1 then xs[i - 1 := xs ! i] ! Suc j else xs[i - 1 := xs ! i] ! j)"
      using "1.IH" "1.prems" by (simp add: shift_down.simps [of i n xs])
    also have "\<dots> = (if i - 1 \<le> j \<and> j < n - 1 then xs ! Suc j else xs ! j)"
      using True "1.prems" by (auto simp: nth_list_update)
    finally show ?thesis .
  next
    case False
    then show ?thesis using "1.prems" by (auto simp: shift_down.simps [of i n xs])
  qed
qed

lemma take_shift_down:
  assumes "k < n" and "n \<le> length xs"
  shows "take (n - 1) (shift_down (Suc k) n xs) = remove_nth k (take n xs)"
proof (rule nth_equalityI)
  show "length (take (n - 1) (shift_down (Suc k) n xs)) = length (remove_nth k (take n xs))"
    using assms by (simp add: remove_nth_def)
next
  fix j assume "j < length (take (n - 1) (shift_down (Suc k) n xs))"
  then have "j < n - 1" by simp
  then show "take (n - 1) (shift_down (Suc k) n xs) ! j = remove_nth k (take n xs) ! j"
    using assms by (auto simp: nth_shift_down remove_nth_def nth_append min_def)
qed

lemma length_queue_list: "queue_ok q \<Longrightarrow> length (queue_list q) = nat (qcount q)"
  by (auto simp: queue_ok_def queue_list_def)

lemma queue_remove_at_refines:
  assumes "queue_ok q" "0 \<le> i" "i < qcount q"
  shows "fst (queue_remove_at q i) = queue_list q ! nat i"
    and "queue_list (snd (queue_remove_at q i)) = remove_nth (nat i) (queue_list q)"
proof -
  show "fst (queue_remove_at q i) = queue_list q ! nat i"
    using assms by (simp add: queue_remove_at_def queue_list_def)
  have "nat (qcount q - 1) = nat (qcount q) - 1" using assms by simp
  moreover have "nat i < nat (qcount q)" and "nat (qcount q) \<le> length (items q)"
    using assms by (auto simp: queue_ok_def)
  ultimately show "queue_list (snd (queue_remove_at q i)) = remove_nth (nat i) (queue_list q)"
    using assms take_shift_down [of "nat i" "nat (qcount q)" "items q"]
    by (simp add: queue_remove_at_def queue_list_def)
qed

lemma queue_push_refines:
  assumes "queue_ok q" and "qcount q < 128"
  shows "queue_list (queue_push q x) = queue_list q @ [x]"
proof -
  have "nat (qcount q + 1) = Suc (nat (qcount q))" using assms by (simp add: queue_ok_def nat_add_distrib)
  then show ?thesis
    using assms
    by (simp add: queue_push_def queue_list_def MAX_PROCESSES_def queue_ok_def take_Suc_conv_app_nth)
qed

interpretation rq: ready_queue zero_queue queue_push queue_remove_at queue_pop qcount queue_list
  queue_ok 128
proof (unfold_locales, goal_cases)
  case 1 show ?case by (simp add: queue_ok_def zero_queue_def MAX_PROCESSES_def)
next
  case 2 show ?case by (simp add: queue_list_def zero_queue_def)
next
  case (3 q) then show ?case by (simp add: length_queue_list queue_ok_def)
next
  case (4 q) then show ?case by (auto simp: length_queue_list queue_ok_def)
next
  case (5 q x) then show ?case by (auto simp: queue_ok_def queue_push_def MAX_PROCESSES_def)
next
  case (6 q x) then show ?case by (simp add: length_queue_list queue_push_refines)
next
  case (7 q x) then show ?case
    by (auto simp: length_queue_list queue_push_def MAX_PROCESSES_def)
next
  case (8 q i) then show ?case by (auto simp: queue_ok_def queue_remove_at_def)
next
  case (9 q i)
  then have "i < qcount q" by (auto simp: length_queue_list split: if_splits)
  with 9 show ?case by (simp add: queue_remove_at_refines)
next
  case (10 q i)
  then have "i < 0 \<or> qcount q \<le> i" by (auto simp: length_queue_list split: if_splits)
  then show ?case by (auto simp: queue_remove_at_def)
next
  case (11 q) then show ?case by (auto simp: queue_pop_def queue_remove_at_def queue_ok_def)
qed

lemma queue_list_length_le: "queue_ok q \<Longrightarrow> length (queue_list q) \<le> 128"
  by (rule rq.cap)

lemma queue_ok_clear [simp]: "queue_ok (queue_clear q)" "queue_list (queue_clear q) = []"
  by (simp_all add: queue_clear_def rq.empty_ok rq.empty_contents)

lemma queue_ok_zero [simp]: "queue_ok zero_queue" "queue_list zero_queue = []" "qcount zero_queue = 0"
  by (simp_all add: rq.empty_ok rq.empty_contents) (simp add: zero_queue_def)

lemma queue_nonempty: "queue_ok q \<Longrightarrow> (0 < qcount q) = (queue_list q \<noteq> [])"
  by (simp add: rq.count)

end
