(* ===== verification/Sched_Policy.thy ===== *)
theory Sched_Policy
  imports Ready_Queue
begin

text \<open>
  What the simulator relies on when it calls a scheduling policy, as the locale
  \<open>scheduling_policy\<close>: the three entry points of a policy (enqueue a process, pick the next
  one for a CPU, the per-tick hook), the multiset of processes it has queued, and the part of it a
  given CPU can pick from. The four policies of \<^verbatim>\<open>src/schedulers\<close> and the dispatcher of
  \<^verbatim>\<open>src/core/simulator.c\<close> interpret it.
\<close>

text \<open>The part of a process a policy never writes: everything but its MLFQ level and the CPU the
  custom scheduler assigned to it.\<close>

definition sched_view :: "ProcessRuntime \<Rightarrow> ProcessRuntime" where
  "sched_view p = p\<lparr>assigned_cpu := 0, queue_level := 0\<rparr>"

definition same_view :: "ProcessRuntime list \<Rightarrow> ProcessRuntime list \<Rightarrow> bool" where
  "same_view ps qs \<longleftrightarrow> map sched_view ps = map sched_view qs"

text \<open>What a policy needs of the process table: MLFQ levels index one of three queues, and every
  process holds a ticket (the parser replaces a non-positive count by 1).\<close>

definition procs_ok :: "ProcessRuntime list \<Rightarrow> bool" where
  "procs_ok procs \<longleftrightarrow>
     (\<forall>p \<in> set procs. 0 \<le> queue_level p \<and> queue_level p \<le> 2 \<and> 1 \<le> tickets (spec p))"

text \<open>The tickets of all processes. The lottery adds up those of the queued ones in an \<open>int\<close>.\<close>

definition ticket_sum :: "ProcessRuntime list \<Rightarrow> int" where
  "ticket_sum ps = (\<Sum>p \<leftarrow> ps. tickets (spec p))"

text \<open>The fields that identify a scheduler.\<close>

definition same_kind :: "SchedulerState \<Rightarrow> SchedulerState \<Rightarrow> bool" where
  "same_kind s t \<longleftrightarrow> algorithm s = algorithm t \<and> cpu_count s = cpu_count t"

text \<open>The selection loop that the EDF and the custom scheduler share: the slot with the least key,
  ties broken by a second key, then by position.
  \<^verbatim>\<open>if (best_index < 0 || key < best || (key == best && tie < tie_of_best))\<close>\<close>

definition best_index_loop :: "(nat \<Rightarrow> int) \<Rightarrow> (nat \<Rightarrow> int) \<Rightarrow> nat \<Rightarrow> int \<times> int" where
  "best_index_loop key tie n =
     fold (\<lambda>i (best_index, best).
         if best_index < 0 \<or> key i < best \<or> (key i = best \<and> tie i < tie (nat best_index))
         then (int i, key i) else (best_index, best))
       [0..<n] (-1, INT_MAX)"

subsection \<open>The selection loop\<close>

lemma best_index_loop_0 [simp]: "best_index_loop key tie 0 = (-1, INT_MAX)"
  by (simp add: best_index_loop_def)

lemma best_index_loop_Suc:
  "best_index_loop key tie (Suc n) =
     (case best_index_loop key tie n of (b, m) \<Rightarrow>
        if b < 0 \<or> key n < m \<or> (key n = m \<and> tie n < tie (nat b)) then (int n, key n) else (b, m))"
  by (simp add: best_index_loop_def split: prod.splits)

text \<open>The loop finds the first slot that is least in the lexicographic order of the two keys.\<close>

lemma best_index_loop_least:
  assumes "0 < n"
  shows "\<exists>k < n. best_index_loop key tie n = (int k, key k) \<and>
    (\<forall>j < n. key k < key j \<or> key k = key j \<and> tie k \<le> tie j) \<and>
    (\<forall>j < k. key k < key j \<or> key k = key j \<and> tie k < tie j)"
  using assms
proof (induction n)
  case (Suc n)
  show ?case
  proof (cases "n = 0")
    case True
    then show ?thesis by (simp add: best_index_loop_Suc)
  next
    case False
    then obtain k where k: "k < n" "best_index_loop key tie n = (int k, key k)"
      "\<forall>j < n. key k < key j \<or> key k = key j \<and> tie k \<le> tie j"
      "\<forall>j < k. key k < key j \<or> key k = key j \<and> tie k < tie j"
      using Suc.IH by auto
    show ?thesis
    proof (cases "key n < key k \<or> key n = key k \<and> tie n < tie k")
      case True
      then have "best_index_loop key tie (Suc n) = (int n, key n)"
        using k(2) by (simp add: best_index_loop_Suc)
      moreover have lt: "key n < key j \<or> key n = key j \<and> tie n < tie j" if "j < n" for j
        using k(3) True that by fastforce
      moreover have "key n < key j \<or> key n = key j \<and> tie n \<le> tie j" if "j < Suc n" for j
        using lt [of j] that by (cases "j = n") auto
      ultimately show ?thesis by (intro exI [of _ n]) simp
    next
      case False
      then have "best_index_loop key tie (Suc n) = (int k, key k)"
        using k(2) by (auto simp: best_index_loop_Suc)
      with k False show ?thesis by (intro exI [of _ k]) (auto simp: less_Suc_eq)
    qed
  qed
qed simp

subsection \<open>Views\<close>

lemma same_view_refl [simp, intro]: "same_view ps ps"
  by (simp add: same_view_def)

lemma same_view_sym: "same_view ps qs \<Longrightarrow> same_view qs ps"
  by (simp add: same_view_def)

lemma same_view_trans [trans]: "same_view ps qs \<Longrightarrow> same_view qs rs \<Longrightarrow> same_view ps rs"
  by (simp add: same_view_def)

lemma same_view_length: "same_view ps qs \<Longrightarrow> length ps = length qs"
  unfolding same_view_def by (metis length_map)

lemma sched_view_eqD:
  assumes "sched_view p = sched_view q"
  shows "spec p = spec q" "pstate p = pstate q" "burst_index p = burst_index q"
    "remaining_in_burst p = remaining_in_burst q" "ready_since p = ready_since q"
    "first_run_tick p = first_run_tick q" "completion_tick p = completion_tick q"
    "total_waiting p = total_waiting q" "runtime_ticks p = runtime_ticks q"
    "migrations p = migrations q" "last_cpu p = last_cpu q"
  using assms by (cases p; cases q; simp add: sched_view_def)+

lemma same_view_nth: "same_view ps qs \<Longrightarrow> i < length ps \<Longrightarrow> sched_view (ps ! i) = sched_view (qs ! i)"
  unfolding same_view_def by (metis length_map nth_map)

lemma same_view_upd_proc:
  "(\<And>p. sched_view (f p) = sched_view p) \<Longrightarrow> same_view (upd_proc i f ps) ps"
  by (simp add: same_view_def map_upd_proc)

lemma sched_view_upd [simp]:
  "sched_view (p\<lparr>queue_level := l\<rparr>) = sched_view p"
  "sched_view (p\<lparr>assigned_cpu := c\<rparr>) = sched_view p"
  by (simp_all add: sched_view_def)

lemma procs_ok_upd_proc:
  assumes "procs_ok ps"
    and "\<And>p. 0 \<le> queue_level p \<Longrightarrow> queue_level p \<le> 2 \<Longrightarrow> 0 \<le> queue_level (f p) \<and> queue_level (f p) \<le> 2"
    and "\<And>p. spec (f p) = spec p"
  shows "procs_ok (upd_proc i f ps)"
proof (cases "nat i < length ps")
  case True
  then have "set (upd_proc i f ps) \<subseteq> insert (f (ps ! nat i)) (set ps)"
    by (simp add: upd_proc_def set_update_subset_insert)
  with True assms show ?thesis by (fastforce simp: procs_ok_def)
next
  case False
  with assms(1) show ?thesis by (simp add: upd_proc_def list_update_beyond)
qed

lemma procs_ok_nth:
  "procs_ok ps \<Longrightarrow> i < length ps \<Longrightarrow> 0 \<le> queue_level (ps ! i) \<and> queue_level (ps ! i) \<le> 2 \<and> 1 \<le> tickets (spec (ps ! i))"
  by (simp add: procs_ok_def)

lemma same_kind_refl [simp]: "same_kind s s"
  by (simp add: same_kind_def)

lemma same_kind_trans [trans]: "same_kind s t \<Longrightarrow> same_kind t u \<Longrightarrow> same_kind s u"
  by (simp add: same_kind_def)

lemma queued_range: "Q \<subseteq># mset (map int [0..<n]) \<Longrightarrow> \<forall>y \<in># Q. 0 \<le> y \<and> y < int n"
  by (auto dest!: mset_subset_eqD)

subsection \<open>The contract\<close>

text \<open>\<open>fit\<close> says that the sums the policy makes are values of an \<open>int\<close>; without it a pick may find nothing in a
  queue that is not empty, but it still loses no process.\<close>

locale scheduling_policy =
  fixes enq :: "SchedulerState \<Rightarrow> ProcessRuntime list \<Rightarrow> int \<Rightarrow> int \<Rightarrow> int \<Rightarrow> EnqueueReason \<Rightarrow>
      SchedulerState \<times> ProcessRuntime list"
    and pick :: "SchedulerState \<Rightarrow> ProcessRuntime list \<Rightarrow> int \<Rightarrow> int \<Rightarrow> int \<times> SchedulerState"
    and hook :: "SchedulerState \<Rightarrow> ProcessRuntime list \<Rightarrow> int \<Rightarrow> SchedulerState \<times> ProcessRuntime list"
    and queued :: "SchedulerState \<Rightarrow> int multiset"
    and avail :: "SchedulerState \<Rightarrow> int \<Rightarrow> int multiset"
    and ok :: "SchedulerState \<Rightarrow> bool"
    and fit :: "SchedulerState \<Rightarrow> ProcessRuntime list \<Rightarrow> bool"
  assumes enq_ok: "ok s \<Longrightarrow> procs_ok ps \<Longrightarrow> 0 \<le> i \<Longrightarrow> i < int (length ps) \<Longrightarrow>
      size (queued s) < 128 \<Longrightarrow> enq s ps i h now r = (s', ps') \<Longrightarrow> ok s' \<and> same_kind s' s \<and> procs_ok ps' \<and> same_view ps' ps"
    and enq_queued: "ok s \<Longrightarrow> procs_ok ps \<Longrightarrow> 0 \<le> i \<Longrightarrow> i < int (length ps) \<Longrightarrow>
      size (queued s) < 128 \<Longrightarrow> enq s ps i h now r = (s', ps') \<Longrightarrow> queued s' = add_mset i (queued s)"
    and pick_ok: "ok s \<Longrightarrow> pick s ps c now = (x, s') \<Longrightarrow> 0 \<le> c \<Longrightarrow> c < cpu_count s \<Longrightarrow>
      ok s' \<and> same_kind s' s"
    and pick_none: "ok s \<Longrightarrow> procs_ok ps \<Longrightarrow> queued s \<subseteq># mset (map int [0..<length ps]) \<Longrightarrow>
      0 \<le> c \<Longrightarrow> c < cpu_count s \<Longrightarrow>
      pick s ps c now = (x, s') \<Longrightarrow> x < 0 \<Longrightarrow> s' = s \<and> (fit s ps \<longrightarrow> avail s c = {#})"
    and pick_some: "ok s \<Longrightarrow> pick s ps c now = (x, s') \<Longrightarrow> 0 \<le> c \<Longrightarrow> c < cpu_count s \<Longrightarrow>
      0 \<le> x \<Longrightarrow> queued s = add_mset x (queued s')"
    and hook_ok: "ok s \<Longrightarrow> procs_ok ps \<Longrightarrow> size (queued s) \<le> 128 \<Longrightarrow> hook s ps now = (s', ps') \<Longrightarrow>
      ok s' \<and> same_kind s' s \<and> procs_ok ps' \<and> same_view ps' ps \<and> queued s' = queued s"
    and avail_covers: "ok s \<Longrightarrow> x \<in># queued s \<Longrightarrow> \<exists>c. 0 \<le> c \<and> c < cpu_count s \<and> x \<in># avail s c"
begin

text \<open>A pick either leaves the scheduler as it was or takes out exactly one queued process.\<close>

lemma pick_cases:
  assumes "ok s" "procs_ok ps" "queued s \<subseteq># mset (map int [0..<length ps])"
    "0 \<le> c" "c < cpu_count s" "pick s ps c now = (x, s')"
  obtains (none) "x < 0" "s' = s" "fit s ps \<longrightarrow> avail s c = {#}"
  | (some) "0 \<le> x" "x \<in># queued s" "queued s' = queued s - {#x#}"
proof (cases "x < 0")
  case True
  from pick_none [OF assms True] show ?thesis by (intro none [OF True]) simp_all
next
  case False
  then have x: "0 \<le> x" by simp
  from pick_some [OF assms(1,6,4,5) x] show ?thesis by (intro some [OF x]) simp_all
qed

text \<open>No process is lost: a policy with something queued lets some CPU pick, if its sums fit.\<close>

lemma some_cpu_can_pick:
  assumes "ok s" "procs_ok ps" "queued s \<subseteq># mset (map int [0..<length ps])" "fit s ps" "queued s \<noteq> {#}"
  shows "\<exists>c. 0 \<le> c \<and> c < cpu_count s \<and> 0 \<le> fst (pick s ps c now)"
proof -
  from assms(5) obtain y where "y \<in># queued s" by blast
  then obtain c where c: "0 \<le> c" "c < cpu_count s" "y \<in># avail s c"
    using avail_covers [OF assms(1)] by blast
  obtain x s' where p: "pick s ps c now = (x, s')" by (cases "pick s ps c now")
  have "\<not> x < 0" using pick_none [OF assms(1-3) c(1,2) p] c(3) assms(4) by auto
  with c p show ?thesis by force
qed

end

text \<open>A pick for one CPU takes nothing into the reach of another: a CPU that found nothing to run
  is still right when the dispatch loop is done.\<close>

locale conserving_policy = scheduling_policy +
  assumes pick_avail: "ok s \<Longrightarrow> pick s ps c now = (x, s') \<Longrightarrow> 0 \<le> c \<Longrightarrow> c < cpu_count s \<Longrightarrow>
      0 \<le> x \<Longrightarrow> 0 \<le> d \<Longrightarrow> d < cpu_count s \<Longrightarrow> avail s' d \<subseteq># avail s d"
begin

lemma stays_idle:
  assumes "ok s" "procs_ok ps" "queued s \<subseteq># mset (map int [0..<length ps])"
    "0 \<le> c" "c < cpu_count s" "pick s ps c now = (x, s')" "0 \<le> d" "d < cpu_count s" "avail s d = {#}"
  shows "avail s' d = {#}"
proof (cases "x < 0")
  case True
  with pick_none [OF assms(1-6)] assms(9) show ?thesis by simp
next
  case False
  with pick_avail [OF assms(1,6,4,5) _ assms(7,8)] assms(9) show ?thesis by simp
qed

end

end
