(* ===== verification/Sched_Mlfq.thy ===== *)
theory Sched_Mlfq
  imports Sched_Policy
begin

text \<open>
  The multilevel feedback queue of \<^verbatim>\<open>src/schedulers/mlfq.c\<close>: three queues, a new process
  starts at level 0, a preempted one moves down, one that returns from I/O moves up, and every 20
  ticks all queued processes return to level 0. The while loop that drains a level runs with its
  initial count as fuel; \<open>mlfq_drain_empties\<close> shows that this is enough to leave the level
  empty, so the model's loop ends where the code's does.
\<close>

subsection \<open>Operations\<close>

definition mlfq_init :: "SchedulerState \<Rightarrow> SchedulerState" where
  "mlfq_init scheduler =
     scheduler\<lparr>mlfq := (mlfq scheduler)
       \<lparr>boost_interval := 20, last_boost_tick := 0,
        mlfq_queues := fold (\<lambda>i qs. upd_nth i queue_clear qs) [0..<3] (mlfq_queues (mlfq scheduler))\<rparr>\<rparr>"

definition mlfq_level :: "int \<Rightarrow> EnqueueReason \<Rightarrow> int" where
  "mlfq_level level reason =
     (if reason = ENQUEUE_NEW then 0
      else if reason = ENQUEUE_IO_COMPLETE then (if level > 0 then level - 1 else level)
      else if reason = ENQUEUE_PREEMPT then (if level < 2 then level + 1 else level)
      else level)"

definition mlfq_upd_queue :: "int \<Rightarrow> (ReadyQueue \<Rightarrow> ReadyQueue) \<Rightarrow> SchedulerState \<Rightarrow> SchedulerState" where
  "mlfq_upd_queue level f scheduler =
     scheduler\<lparr>mlfq := (mlfq scheduler)\<lparr>mlfq_queues := upd_nth (nat level) f (mlfq_queues (mlfq scheduler))\<rparr>\<rparr>"

definition mlfq_enqueue :: "SchedulerState \<Rightarrow> ProcessRuntime list \<Rightarrow> int \<Rightarrow> int \<Rightarrow> EnqueueReason \<Rightarrow>
    SchedulerState \<times> ProcessRuntime list" where
  "mlfq_enqueue scheduler procs i now reason =
     (let level = mlfq_level (queue_level (procs ! nat i)) reason in
      (mlfq_upd_queue level (\<lambda>q. queue_push q i) scheduler,
       upd_proc i (\<lambda>p. p\<lparr>queue_level := level\<rparr>) procs))"

text \<open>\<^verbatim>\<open>return queue_pop(&scheduler->state.mlfq.queues[level]);\<close>\<close>

definition mlfq_pop :: "nat \<Rightarrow> SchedulerState \<Rightarrow> int \<times> SchedulerState" where
  "mlfq_pop level scheduler =
     (let (x, q) = queue_pop (mlfq_queues (mlfq scheduler) ! level) in
      (x, mlfq_upd_queue (int level) (\<lambda>_. q) scheduler))"

function mlfq_pick_loop :: "nat \<Rightarrow> SchedulerState \<Rightarrow> int \<times> SchedulerState" where
  "mlfq_pick_loop level scheduler =
     (if level < 3 then
        (if qcount (mlfq_queues (mlfq scheduler) ! level) > 0 then mlfq_pop level scheduler
         else mlfq_pick_loop (Suc level) scheduler)
      else (-1, scheduler))"
  by pat_completeness auto
termination
  by (relation "measure (\<lambda>(level, s). 3 - level)") auto

definition mlfq_pick_next :: "SchedulerState \<Rightarrow> int \<times> SchedulerState" where
  "mlfq_pick_next scheduler = mlfq_pick_loop 0 scheduler"

text \<open>The loop \<^verbatim>\<open>while (queues[level].count > 0)\<close> of the boost, with fuel.\<close>

fun mlfq_drain :: "nat \<Rightarrow> nat \<Rightarrow> SchedulerState \<times> ProcessRuntime list \<Rightarrow> SchedulerState \<times> ProcessRuntime list" where
  "mlfq_drain 0 level st = st"
| "mlfq_drain (Suc fuel) level (scheduler, procs) =
     (if qcount (mlfq_queues (mlfq scheduler) ! level) > 0 then
        (let (x, scheduler') = mlfq_pop level scheduler in
         mlfq_drain fuel level
           (mlfq_upd_queue 0 (\<lambda>q. queue_push q x) scheduler',
            upd_proc x (\<lambda>p. p\<lparr>queue_level := 0\<rparr>) procs))
      else (scheduler, procs))"

definition mlfq_drain_level :: "nat \<Rightarrow> SchedulerState \<times> ProcessRuntime list \<Rightarrow> SchedulerState \<times> ProcessRuntime list" where
  "mlfq_drain_level level st =
     mlfq_drain (nat (qcount (mlfq_queues (mlfq (fst st)) ! level))) level st"

definition mlfq_tick :: "SchedulerState \<Rightarrow> ProcessRuntime list \<Rightarrow> int \<Rightarrow> SchedulerState \<times> ProcessRuntime list" where
  "mlfq_tick scheduler procs now =
     (if now = 0 \<or> now - last_boost_tick (mlfq scheduler) < boost_interval (mlfq scheduler)
      then (scheduler, procs)
      else (let (s, ps) = fold mlfq_drain_level [1..<3] (scheduler, procs) in
            (s\<lparr>mlfq := (mlfq s)\<lparr>last_boost_tick := now\<rparr>\<rparr>, ps)))"

subsection \<open>Abstraction and invariant\<close>

definition mlfq_list :: "SchedulerState \<Rightarrow> nat \<Rightarrow> int list" where
  "mlfq_list s level = queue_list (mlfq_queues (mlfq s) ! level)"

definition mlfq_queued :: "SchedulerState \<Rightarrow> int multiset" where
  "mlfq_queued s = mset (mlfq_list s 0) + mset (mlfq_list s 1) + mset (mlfq_list s 2)"

definition mlfq_ok :: "SchedulerState \<Rightarrow> bool" where
  "mlfq_ok s \<longleftrightarrow> length (mlfq_queues (mlfq s)) = 3 \<and> (\<forall>l < 3. queue_ok (mlfq_queues (mlfq s) ! l))
     \<and> 1 \<le> cpu_count s"

subsection \<open>One queue at a time\<close>

lemma mlfq_upd_queue_simps [simp]:
  "algorithm (mlfq_upd_queue l f s) = algorithm s" "cpu_count (mlfq_upd_queue l f s) = cpu_count s"
  "length (mlfq_queues (mlfq (mlfq_upd_queue l f s))) = length (mlfq_queues (mlfq s))"
  "last_boost_tick (mlfq (mlfq_upd_queue l f s)) = last_boost_tick (mlfq s)"
  "boost_interval (mlfq (mlfq_upd_queue l f s)) = boost_interval (mlfq s)"
  by (simp_all add: mlfq_upd_queue_def)

lemma mlfq_upd_queue_nth:
  "k < length (mlfq_queues (mlfq s)) \<Longrightarrow> mlfq_queues (mlfq (mlfq_upd_queue l f s)) ! k =
     (if k = nat l then f (mlfq_queues (mlfq s) ! k) else mlfq_queues (mlfq s) ! k)"
  by (simp add: mlfq_upd_queue_def nth_upd_nth)

lemma mlfq_ok_upd:
  "mlfq_ok s \<Longrightarrow> (\<And>q. queue_ok q \<Longrightarrow> queue_ok (f q)) \<Longrightarrow> mlfq_ok (mlfq_upd_queue l f s)"
  by (auto simp: mlfq_ok_def mlfq_upd_queue_nth)

lemma mlfq_list_upd:
  "mlfq_ok s \<Longrightarrow> k < 3 \<Longrightarrow> mlfq_list (mlfq_upd_queue l f s) k =
     (if k = nat l then queue_list (f (mlfq_queues (mlfq s) ! k)) else mlfq_list s k)"
  by (simp add: mlfq_list_def mlfq_ok_def mlfq_upd_queue_nth)

lemma mlfq_queue_ok: "mlfq_ok s \<Longrightarrow> k < 3 \<Longrightarrow> queue_ok (mlfq_queues (mlfq s) ! k)"
  by (simp add: mlfq_ok_def)

lemma mlfq_list_size: "k < 3 \<Longrightarrow> length (mlfq_list s k) \<le> size (mlfq_queued s)"
proof -
  assume "k < 3"
  then consider "k = 0" | "k = 1" | "k = 2" by linarith
  then show ?thesis by cases (auto simp: mlfq_queued_def)
qed

lemma mlfq_count: "mlfq_ok s \<Longrightarrow> k < 3 \<Longrightarrow> qcount (mlfq_queues (mlfq s) ! k) = int (length (mlfq_list s k))"
  by (simp add: mlfq_list_def mlfq_ok_def rq.count)

text \<open>A push at level \<open>k\<close> appends there and nowhere else.\<close>

lemma mlfq_push_list:
  assumes "mlfq_ok s" "k < 3" "j < 3" "length (mlfq_list s k) < 128"
  shows "mlfq_list (mlfq_upd_queue (int k) (\<lambda>q. queue_push q x) s) j =
    (if j = k then mlfq_list s k @ [x] else mlfq_list s j)"
  using assms rq.push_contents [OF mlfq_queue_ok [OF assms(1,2)], of x]
  by (simp add: mlfq_list_upd) (simp add: mlfq_list_def)

text \<open>A pop at a non-empty level takes the head of its list.\<close>

lemma mlfq_pop_list:
  assumes "mlfq_ok s" "k < 3" "mlfq_list s k = x # xs"
  shows "fst (mlfq_pop k s) = x" and "mlfq_ok (snd (mlfq_pop k s))"
    and "j < 3 \<Longrightarrow> mlfq_list (snd (mlfq_pop k s)) j = (if j = k then xs else mlfq_list s j)"
    and "same_kind (snd (mlfq_pop k s)) s"
proof -
  obtain y q where p: "queue_pop (mlfq_queues (mlfq s) ! k) = (y, q)"
    by (cases "queue_pop (mlfq_queues (mlfq s) ! k)")
  have "queue_list (mlfq_queues (mlfq s) ! k) = x # xs" using assms(3) by (simp add: mlfq_list_def)
  from rq.pop_Cons [OF mlfq_queue_ok [OF assms(1,2)] this] p
  have "y = x" "queue_list q = xs" "queue_ok q" by simp_all
  then show "fst (mlfq_pop k s) = x" and "mlfq_ok (snd (mlfq_pop k s))"
    and "j < 3 \<Longrightarrow> mlfq_list (snd (mlfq_pop k s)) j = (if j = k then xs else mlfq_list s j)"
    and "same_kind (snd (mlfq_pop k s)) s"
    using assms(1) p by (simp_all add: mlfq_pop_def mlfq_ok_upd mlfq_list_upd same_kind_def)
qed

lemma mlfq_init_queues:
  assumes "length (mlfq_queues (mlfq s)) = 3"
  shows "mlfq_queues (mlfq (mlfq_init s)) = replicate 3 zero_queue"
proof -
  obtain a b c where "mlfq_queues (mlfq s) = [a, b, c]"
    using assms by (auto simp: length_Suc_conv numeral_3_eq_3)
  then show ?thesis
    by (simp add: mlfq_init_def upd_nth_def queue_clear_def numeral_3_eq_3 upt_rec)
qed

subsection \<open>Enqueue\<close>

lemma mlfq_level_range: "0 \<le> l \<Longrightarrow> l \<le> 2 \<Longrightarrow> 0 \<le> mlfq_level l r \<and> mlfq_level l r \<le> 2"
  by (auto simp: mlfq_level_def)

lemma mlfq_enqueue_ok:
  assumes "mlfq_ok s" "procs_ok ps" "0 \<le> i" "i < int (length ps)"
    "mlfq_enqueue s ps i now r = (s', ps')"
  shows "mlfq_ok s' \<and> same_kind s' s \<and> procs_ok ps' \<and> same_view ps' ps"
proof -
  have "0 \<le> queue_level (ps ! nat i)" "queue_level (ps ! nat i) \<le> 2"
    using procs_ok_nth [OF assms(2), of "nat i"] assms(3,4) by auto
  then have "procs_ok ps'"
    using assms mlfq_level_range
    by (auto simp: mlfq_enqueue_def Let_def intro!: procs_ok_upd_proc)
  with assms show ?thesis
    by (auto simp: mlfq_enqueue_def Let_def same_kind_def intro!: mlfq_ok_upd rq.push_ok same_view_upd_proc)
qed

lemma mlfq_enqueue_queued:
  assumes "mlfq_ok s" "procs_ok ps" "0 \<le> i" "i < int (length ps)" "size (mlfq_queued s) < 128"
    "mlfq_enqueue s ps i now r = (s', ps')"
  shows "mlfq_queued s' = add_mset i (mlfq_queued s)"
proof -
  let ?l = "mlfq_level (queue_level (ps ! nat i)) r"
  have l: "0 \<le> ?l" "?l \<le> 2"
    using procs_ok_nth [OF assms(2), of "nat i"] assms(3,4) mlfq_level_range by auto
  then have l3: "nat ?l < 3" and li: "int (nat ?l) = ?l" by auto
  have "length (mlfq_list s (nat ?l)) < 128"
    using mlfq_list_size [OF l3, of s] assms(5) by simp
  from mlfq_push_list [OF assms(1) l3 _ this, of _ i]
  have "mlfq_list s' j = (if j = nat ?l then mlfq_list s (nat ?l) @ [i] else mlfq_list s j)" if "j < 3" for j
    using assms(6) that li by (simp add: mlfq_enqueue_def Let_def)
  moreover have "nat ?l = 0 \<or> nat ?l = 1 \<or> nat ?l = 2" using l3 by auto
  ultimately show ?thesis by (auto simp: mlfq_queued_def)
qed

subsection \<open>Pick\<close>

declare mlfq_pick_loop.simps [simp del]

lemma mlfq_pick_next_unfold:
  assumes "mlfq_ok s"
  shows "mlfq_pick_next s =
    (if mlfq_list s 0 \<noteq> [] then mlfq_pop 0 s else if mlfq_list s 1 \<noteq> [] then mlfq_pop 1 s
     else if mlfq_list s 2 \<noteq> [] then mlfq_pop 2 s else (-1, s))"
  using mlfq_count [OF assms, of 0] mlfq_count [OF assms, of 1] mlfq_count [OF assms, of 2]
  by (simp add: mlfq_pick_next_def mlfq_pick_loop.simps [of 0 s] mlfq_pick_loop.simps [of "Suc 0" s]
      mlfq_pick_loop.simps [of "Suc (Suc 0)" s] mlfq_pick_loop.simps [of "Suc (Suc (Suc 0))" s]
      numeral_2_eq_2 numeral_3_eq_3)

lemma mlfq_pick_next_cases:
  assumes "mlfq_ok s"
  obtains (none) "mlfq_pick_next s = (-1, s)" "mlfq_list s 0 = []" "mlfq_list s 1 = []" "mlfq_list s 2 = []"
  | (pop) k x xs where "k < 3" "\<forall>j < k. mlfq_list s j = []" "mlfq_list s k = x # xs"
      "mlfq_pick_next s = mlfq_pop k s"
proof -
  consider "mlfq_list s 0 \<noteq> []" | "mlfq_list s 0 = []" "mlfq_list s 1 \<noteq> []"
    | "mlfq_list s 0 = []" "mlfq_list s 1 = []" "mlfq_list s 2 \<noteq> []"
    | "mlfq_list s 0 = []" "mlfq_list s 1 = []" "mlfq_list s 2 = []" by blast
  then show ?thesis
  proof cases
    case 1
    then show ?thesis using pop [of 0] mlfq_pick_next_unfold [OF assms] by (auto simp: neq_Nil_conv)
  next
    case 2
    then show ?thesis using pop [of 1] mlfq_pick_next_unfold [OF assms] by (auto simp: neq_Nil_conv)
  next
    case 3
    then have "\<forall>j < 2. mlfq_list s j = []" by (auto simp: less_Suc_eq numeral_2_eq_2)
    with 3 show ?thesis using pop [of 2] mlfq_pick_next_unfold [OF assms] by (auto simp: neq_Nil_conv)
  next
    case 4
    then show ?thesis using none mlfq_pick_next_unfold [OF assms] by simp
  qed
qed

lemma mlfq_pick_some:
  assumes "mlfq_ok s" "k < 3" "mlfq_list s k = x # xs"
  shows "mlfq_queued s = add_mset x (mlfq_queued (snd (mlfq_pop k s)))"
proof -
  have "k = 0 \<or> k = 1 \<or> k = 2" using assms(2) by auto
  then show ?thesis using mlfq_pop_list(3) [OF assms] assms(3) by (auto simp: mlfq_queued_def)
qed

subsection \<open>Boost\<close>

text \<open>One turn of the draining loop moves the head of level \<open>k\<close> to the end of level 0.\<close>

lemma mlfq_drain_step:
  assumes "mlfq_ok s" "k = 1 \<or> k = 2" "mlfq_list s k = x # xs" "size (mlfq_queued s) \<le> 128"
  defines "s1 \<equiv> mlfq_upd_queue 0 (\<lambda>q. queue_push q x) (snd (mlfq_pop k s))"
  shows "mlfq_ok s1" and "same_kind s1 s" and "mlfq_list s1 0 = mlfq_list s 0 @ [x]"
    and "mlfq_list s1 k = xs" and "j < 3 \<Longrightarrow> j \<noteq> 0 \<Longrightarrow> j \<noteq> k \<Longrightarrow> mlfq_list s1 j = mlfq_list s j"
    and "size (mlfq_queued s1) \<le> 128"
proof -
  have k3: "k < 3" and k0: "k \<noteq> 0" using assms(2) by auto
  note pop = mlfq_pop_list [OF assms(1) k3 assms(3)]
  show ok: "mlfq_ok s1" unfolding s1_def using pop(2) by (intro mlfq_ok_upd rq.push_ok)
  show "same_kind s1 s" unfolding s1_def using pop(4) by (simp add: same_kind_def)
  have "length (mlfq_list (snd (mlfq_pop k s)) 0) < 128"
    using pop(3) [of 0] assms(3,4) k0 assms(2) by (auto simp: mlfq_queued_def)
  from mlfq_push_list [OF pop(2) _ _ this, of _ x]
  have l: "mlfq_list s1 j = (if j = 0 then mlfq_list s 0 @ [x] else if j = k then xs else mlfq_list s j)"
    if "j < 3" for j
    using that pop(3) [of 0] pop(3) [of j] k0 by (simp add: s1_def)
  show "mlfq_list s1 0 = mlfq_list s 0 @ [x]" and "mlfq_list s1 k = xs"
    using l k0 k3 by auto
  show "j < 3 \<Longrightarrow> j \<noteq> 0 \<Longrightarrow> j \<noteq> k \<Longrightarrow> mlfq_list s1 j = mlfq_list s j" using l by simp
  show "size (mlfq_queued s1) \<le> 128"
    using assms(2-4) l [of 0] l [of 1] l [of 2] by (auto simp: mlfq_queued_def)
qed

lemma mlfq_drain_spec:
  assumes "mlfq_ok s" "k = 1 \<or> k = 2" "size (mlfq_queued s) \<le> 128" "length (mlfq_list s k) = fuel"
    "procs_ok ps" "mlfq_drain fuel k (s, ps) = (s', ps')"
  shows "mlfq_ok s' \<and> same_kind s' s \<and> mlfq_list s' k = [] \<and>
    mlfq_list s' 0 = mlfq_list s 0 @ mlfq_list s k \<and>
    (\<forall>j < 3. j \<noteq> 0 \<and> j \<noteq> k \<longrightarrow> mlfq_list s' j = mlfq_list s j) \<and>
    procs_ok ps' \<and> same_view ps' ps \<and>
    ps' = fold (\<lambda>x. upd_proc x (\<lambda>p. p\<lparr>queue_level := 0\<rparr>)) (mlfq_list s k) ps"
  using assms
proof (induction fuel arbitrary: s ps)
  case 0
  then show ?case by auto
next
  case (Suc fuel)
  then obtain x xs where l: "mlfq_list s k = x # xs" by (cases "mlfq_list s k") auto
  let ?s1 = "mlfq_upd_queue 0 (\<lambda>q. queue_push q x) (snd (mlfq_pop k s))"
  let ?ps1 = "upd_proc x (\<lambda>p. p\<lparr>queue_level := 0\<rparr>) ps"
  note step = mlfq_drain_step [OF Suc.prems(1,2) l Suc.prems(3)]
  have k3: "k < 3" using Suc.prems(2) by auto
  have "qcount (mlfq_queues (mlfq s) ! k) > 0" using mlfq_count [OF Suc.prems(1) k3] l by simp
  then have "mlfq_drain fuel k (?s1, ?ps1) = (s', ps')"
    using Suc.prems(6) mlfq_pop_list(1) [OF Suc.prems(1) k3 l] by (cases "mlfq_pop k s") simp
  moreover have "procs_ok ?ps1" using Suc.prems(5) by (rule procs_ok_upd_proc) auto
  moreover have "length (mlfq_list ?s1 k) = fuel" using step(4) Suc.prems(4) l by simp
  ultimately have IH: "mlfq_ok s' \<and> same_kind s' ?s1 \<and> mlfq_list s' k = [] \<and>
    mlfq_list s' 0 = mlfq_list ?s1 0 @ mlfq_list ?s1 k \<and>
    (\<forall>j < 3. j \<noteq> 0 \<and> j \<noteq> k \<longrightarrow> mlfq_list s' j = mlfq_list ?s1 j) \<and>
    procs_ok ps' \<and> same_view ps' ?ps1 \<and>
    ps' = fold (\<lambda>x. upd_proc x (\<lambda>p. p\<lparr>queue_level := 0\<rparr>)) (mlfq_list ?s1 k) ?ps1"
    using Suc.IH [OF step(1) Suc.prems(2) step(6)] by blast
  have "same_view ?ps1 ps" by (rule same_view_upd_proc) simp
  with IH step(2-5) l show ?case by (auto intro: same_kind_trans same_view_trans)
qed

text \<open>The fuel is enough: draining a level leaves it empty, which is the loop's exit condition.\<close>

lemma mlfq_drain_empties:
  assumes "mlfq_ok s" "k = 1 \<or> k = 2" "size (mlfq_queued s) \<le> 128" "procs_ok ps"
  shows "qcount (mlfq_queues (mlfq (fst (mlfq_drain_level k (s, ps)))) ! k) = 0"
proof -
  obtain s' ps' where d: "mlfq_drain (length (mlfq_list s k)) k (s, ps) = (s', ps')"
    by (cases "mlfq_drain (length (mlfq_list s k)) k (s, ps)")
  have k3: "k < 3" using assms(2) by auto
  have "mlfq_ok s' \<and> mlfq_list s' k = []"
    using mlfq_drain_spec [OF assms(1-3) refl assms(4) d] by blast
  then show ?thesis using d k3 assms(1) by (simp add: mlfq_drain_level_def mlfq_count)
qed

text \<open>A boost moves levels 1 and 2 behind level 0, in order, and records the level.\<close>

lemma mlfq_tick_boost:
  assumes "mlfq_ok s" "size (mlfq_queued s) \<le> 128" "procs_ok ps" "mlfq_tick s ps now = (s', ps')"
    "now \<noteq> 0" "boost_interval (mlfq s) \<le> now - last_boost_tick (mlfq s)"
  shows "mlfq_ok s' \<and> same_kind s' s \<and> procs_ok ps' \<and> same_view ps' ps \<and>
    mlfq_list s' 0 = mlfq_list s 0 @ mlfq_list s 1 @ mlfq_list s 2 \<and>
    mlfq_list s' 1 = [] \<and> mlfq_list s' 2 = [] \<and> last_boost_tick (mlfq s') = now \<and>
    ps' = fold (\<lambda>x. upd_proc x (\<lambda>p. p\<lparr>queue_level := 0\<rparr>)) (mlfq_list s 1 @ mlfq_list s 2) ps"
proof -
  obtain s1 ps1 where d1: "mlfq_drain (length (mlfq_list s 1)) 1 (s, ps) = (s1, ps1)"
    by (cases "mlfq_drain (length (mlfq_list s 1)) 1 (s, ps)")
  note D1 = mlfq_drain_spec [OF assms(1) _ assms(2) refl assms(3) d1, simplified]
  have sz: "size (mlfq_queued s1) \<le> 128"
    using D1 assms(2) by (auto simp: mlfq_queued_def)
  obtain s2 ps2 where d2: "mlfq_drain (length (mlfq_list s1 2)) 2 (s1, ps1) = (s2, ps2)"
    by (cases "mlfq_drain (length (mlfq_list s1 2)) 2 (s1, ps1)")
  have ok1: "mlfq_ok s1" and pok1: "procs_ok ps1" using D1 by auto
  note D2 = mlfq_drain_spec [OF ok1 _ sz refl pok1 d2, simplified]
  have r: "[Suc 0..<3] = [Suc 0, 2]" by (simp add: upt_rec)
  have "fold mlfq_drain_level [1..<3] (s, ps) = (s2, ps2)"
    using d1 d2 assms(1) ok1 by (simp add: r mlfq_drain_level_def mlfq_count)
  then have s': "s' = s2\<lparr>mlfq := (mlfq s2)\<lparr>last_boost_tick := now\<rparr>\<rparr>" and ps': "ps' = ps2"
    using assms(4-6) by (auto simp: mlfq_tick_def)
  have ml: "mlfq_list s' j = mlfq_list s2 j" for j by (simp add: s' mlfq_list_def)
  have "mlfq_ok s'" "same_kind s' s2" using D2 by (auto simp: s' mlfq_ok_def same_kind_def)
  with D1 D2 show ?thesis unfolding ml ps'
    by (auto simp: s' intro: same_kind_trans same_view_trans)
qed

lemma mlfq_tick_idle:
  "now = 0 \<or> now - last_boost_tick (mlfq s) < boost_interval (mlfq s) \<Longrightarrow> mlfq_tick s ps now = (s, ps)"
  by (simp add: mlfq_tick_def)

lemma mlfq_tick_ok:
  assumes "mlfq_ok s" "procs_ok ps" "size (mlfq_queued s) \<le> 128" "mlfq_tick s ps now = (s', ps')"
  shows "mlfq_ok s' \<and> same_kind s' s \<and> procs_ok ps' \<and> same_view ps' ps \<and> mlfq_queued s' = mlfq_queued s"
proof (cases "now = 0 \<or> now - last_boost_tick (mlfq s) < boost_interval (mlfq s)")
  case True
  with assms show ?thesis by (auto simp: mlfq_tick_idle)
next
  case False
  then show ?thesis
    using mlfq_tick_boost [OF assms(1,3,2,4)] by (auto simp: mlfq_queued_def)
qed

subsection \<open>The policy contract\<close>

interpretation mlfq_pol: scheduling_policy
  "\<lambda>s ps i h now r. mlfq_enqueue s ps i now r" "\<lambda>s ps c now. mlfq_pick_next s" mlfq_tick
  mlfq_queued "\<lambda>s c. mlfq_queued s" mlfq_ok "\<lambda>_ _. True"
proof (unfold_locales, goal_cases)
  case 1 then show ?case by (intro mlfq_enqueue_ok)
next
  case 2 then show ?case by (intro mlfq_enqueue_queued) auto
next
  case (3 s ps c now x s')
  from 3(1) show ?case
  proof (cases rule: mlfq_pick_next_cases)
    case none with 3 show ?thesis by simp
  next
    case (pop k y ys)
    with 3 mlfq_pop_list(2,4) [OF 3(1) pop(1,3)] show ?thesis by simp
  qed
next
  case (4 s ps c now x s')
  from 4(1) show ?case
  proof (cases rule: mlfq_pick_next_cases)
    case none with 4 show ?thesis by (simp add: mlfq_queued_def)
  next
    case (pop k y ys)
    have "x = y" using mlfq_pop_list(1) [OF 4(1) pop(1,3)] pop(4) 4(6) by (metis fst_conv)
    moreover have "y \<in># mlfq_queued s" using mlfq_pick_some [OF 4(1) pop(1,3)] by simp
    ultimately show ?thesis using queued_range [OF 4(3)] 4(7) by auto
  qed
next
  case (5 s ps c now x s')
  from 5(1) show ?case
  proof (cases rule: mlfq_pick_next_cases)
    case none with 5 show ?thesis by simp
  next
    case (pop k y ys)
    with 5(2) mlfq_pop_list(1) [OF 5(1) pop(1,3)] mlfq_pick_some [OF 5(1) pop(1,3)] show ?thesis by simp
  qed
next
  case 6 then show ?case by (intro mlfq_tick_ok)
next
  case (7 s x) then show ?case by (intro exI [of _ 0]) (simp add: mlfq_ok_def)
qed

end
