(* ===== verification/Sched_Lottery.thy ===== *)
theory Sched_Lottery
  imports Sched_Policy
begin

text \<open>
  Lottery scheduling, \<^verbatim>\<open>src/schedulers/lottery.c\<close>: a linear congruential generator draws a
  ticket number, and a scan of the ready queue finds its holder. The generator's state is a 32-bit
  word and wraps around as \<open>unsigned int\<close> does; the sums of tickets are \<open>int\<close>s and wrap around too, as
  compiled code does where C leaves it open.
\<close>

subsection \<open>Operations\<close>

definition next_random :: "u32 \<Rightarrow> u32" where
  "next_random state = state * 1103515245 + 12345"

definition lottery_init :: "SchedulerState \<Rightarrow> SchedulerState" where
  "lottery_init scheduler =
     scheduler\<lparr>lottery := (lottery scheduler)
       \<lparr>lottery_ready := zero_queue, rng_state := (if seed scheduler \<noteq> 0 then seed scheduler else 42)\<rparr>\<rparr>"

definition lottery_enqueue :: "SchedulerState \<Rightarrow> int \<Rightarrow> SchedulerState" where
  "lottery_enqueue scheduler i =
     scheduler\<lparr>lottery := (lottery scheduler)
       \<lparr>lottery_ready := queue_push (lottery_ready (lottery scheduler)) i\<rparr>\<rparr>"

text \<open>The live slots of the ready queue, in order.\<close>

definition lottery_list :: "SchedulerState \<Rightarrow> int list" where
  "lottery_list s = queue_list (lottery_ready (lottery s))"

definition tickets_of :: "ProcessRuntime list \<Rightarrow> int \<Rightarrow> int" where
  "tickets_of procs i = tickets (spec (procs ! nat i))"

definition total_tickets :: "ProcessRuntime list \<Rightarrow> int list \<Rightarrow> int" where
  "total_tickets procs xs = fold (\<lambda>i tot. to_int32 (tot + tickets_of procs i)) xs 0"

text \<open>The second loop: the position where the running sum first exceeds the target.\<close>

fun lottery_scan :: "ProcessRuntime list \<Rightarrow> int list \<Rightarrow> int \<Rightarrow> int \<Rightarrow> nat \<Rightarrow> nat option" where
  "lottery_scan procs [] target running k = None"
| "lottery_scan procs (x # xs) target running k =
     (let running' = to_int32 (running + tickets_of procs x) in
      if running' > target then Some k else lottery_scan procs xs target running' (Suc k))"

definition lottery_pick_next :: "SchedulerState \<Rightarrow> ProcessRuntime list \<Rightarrow> int \<times> SchedulerState" where
  "lottery_pick_next scheduler procs =
     (let ready = lottery_ready (lottery scheduler);
          tot = total_tickets procs (queue_list ready) in
      if tot \<le> 0 then (-1, scheduler)
      else
        (let rng = next_random (rng_state (lottery scheduler));
             target = sint (rng mod word_of_int tot);
             index = (case lottery_scan procs (queue_list ready) target 0 0 of
                        Some k \<Rightarrow> int k | None \<Rightarrow> qcount ready - 1);
             (x, ready') = queue_remove_at ready index in
         (x, scheduler\<lparr>lottery := \<lparr>lottery_ready = ready', rng_state = rng\<rparr>\<rparr>)))"

subsection \<open>Abstraction and invariant\<close>

definition lottery_queued :: "SchedulerState \<Rightarrow> int multiset" where
  "lottery_queued s = mset (lottery_list s)"

definition lottery_ok :: "SchedulerState \<Rightarrow> bool" where
  "lottery_ok s \<longleftrightarrow> queue_ok (lottery_ready (lottery s)) \<and> 1 \<le> cpu_count s"

text \<open>The tickets held by the first \<open>k\<close> processes of a queue.\<close>

definition tickets_before :: "ProcessRuntime list \<Rightarrow> int list \<Rightarrow> nat \<Rightarrow> int" where
  "tickets_before procs xs k = sum_list (map (tickets_of procs) (take k xs))"

subsection \<open>Drawing a ticket\<close>

lemma tickets_sum_nonneg: "\<forall>x \<in> set xs. 0 \<le> tickets_of procs x \<Longrightarrow> 0 \<le> sum_list (map (tickets_of procs) xs)"
  by (rule sum_list_nonneg) auto

text \<open>A sum that fits is not cut off on the way.\<close>

lemma total_tickets_sum:
  assumes "\<forall>x \<in> set xs. 0 \<le> tickets_of procs x" "sum_list (map (tickets_of procs) xs) \<le> INT_MAX"
  shows "total_tickets procs xs = sum_list (map (tickets_of procs) xs)"
proof -
  have "fold (\<lambda>i tot. to_int32 (tot + tickets_of procs i)) xs a = a + sum_list (map (tickets_of procs) xs)"
    if "0 \<le> a" "a + sum_list (map (tickets_of procs) xs) \<le> INT_MAX" for a
    using that assms(1)
  proof (induction xs arbitrary: a)
    case (Cons x xs)
    have "0 \<le> sum_list (map (tickets_of procs) xs)" using Cons.prems(3) by (intro tickets_sum_nonneg) simp
    then have "to_int32 (a + tickets_of procs x) = a + tickets_of procs x"
      using Cons.prems by (intro to_int32_id) (auto simp: INT_MAX_def)
    then show ?case using Cons.IH [of "a + tickets_of procs x"] Cons.prems by (simp add: add.assoc)
  qed simp
  from this [of 0] show ?thesis using assms(2) by (simp add: total_tickets_def)
qed

lemma total_tickets_Nil [simp]: "total_tickets procs [] = 0"
  by (simp add: total_tickets_def)

lemma tickets_before_simps [simp]:
  "tickets_before procs xs 0 = 0" "tickets_before procs (x # xs) (Suc k) = tickets_of procs x + tickets_before procs xs k"
  by (simp_all add: tickets_before_def)

lemma tickets_before_Suc:
  "k < length xs \<Longrightarrow> tickets_before procs xs (Suc k) = tickets_before procs xs k + tickets_of procs (xs ! k)"
  by (simp add: tickets_before_def take_Suc_conv_app_nth)

lemma tickets_before_nonneg: "\<forall>x \<in> set xs. 0 \<le> tickets_of procs x \<Longrightarrow> 0 \<le> tickets_before procs xs k"
  unfolding tickets_before_def by (rule sum_list_nonneg) (use set_take_subset [of k xs] in auto)

lemma tickets_before_all: "tickets_before procs xs (length xs) = sum_list (map (tickets_of procs) xs)"
  by (simp add: tickets_before_def)

text \<open>The scan returns position \<open>k\<close> exactly when the target lies in the \<open>k\<close>-th interval.\<close>

lemma lottery_scan_iff:
  assumes "\<forall>x \<in> set xs. 0 \<le> tickets_of procs x" "r \<le> t" "0 \<le> r" "r + sum_list (map (tickets_of procs) xs) \<le> INT_MAX"
  shows "lottery_scan procs xs t r k0 = Some k \<longleftrightarrow>
    k0 \<le> k \<and> k - k0 < length xs \<and> r + tickets_before procs xs (k - k0) \<le> t \<and>
    t < r + tickets_before procs xs (Suc (k - k0))"
  using assms
proof (induction xs arbitrary: r k0)
  case Nil
  then show ?case by simp
next
  case (Cons x xs)
  have "0 \<le> sum_list (map (tickets_of procs) xs)" using Cons.prems(1) by (intro tickets_sum_nonneg) simp
  then have w: "to_int32 (r + tickets_of procs x) = r + tickets_of procs x"
    using Cons.prems by (intro to_int32_id) (auto simp: INT_MAX_def)
  show ?case
  proof (cases "t < r + tickets_of procs x")
    case True
    have "\<not> r + tickets_before procs (x # xs) (Suc j) \<le> t" for j
      using True tickets_before_nonneg [of xs procs j] Cons.prems(1) by simp
    with True Cons.prems(2) show ?thesis by (cases "k - k0") (auto simp: Let_def w)
  next
    case False
    have IH: "lottery_scan procs xs t (r + tickets_of procs x) (Suc k0) = Some k \<longleftrightarrow>
      Suc k0 \<le> k \<and> k - Suc k0 < length xs \<and> r + tickets_of procs x + tickets_before procs xs (k - Suc k0) \<le> t \<and>
      t < r + tickets_of procs x + tickets_before procs xs (Suc (k - Suc k0))"
      using Cons.IH [of "r + tickets_of procs x" "Suc k0"] Cons.prems False by (simp add: add.assoc)
    show ?thesis
    proof (cases "k \<le> k0")
      case True
      then show ?thesis using False IH by (auto simp: Let_def w)
    next
      case gt: False
      then have "k - k0 = Suc (k - Suc k0)" by simp
      then show ?thesis using False IH gt by (auto simp: Let_def add.assoc w)
    qed
  qed
qed

lemma lottery_scan_range:
  "lottery_scan procs xs t r k0 = Some k \<Longrightarrow> k0 \<le> k \<and> k < k0 + length xs"
proof (induction xs arbitrary: r k0)
  case (Cons x xs)
  then show ?case by (fastforce simp: Let_def split: if_splits)
qed simp

text \<open>A target below the total always has a holder, so the fallback of the code is never reached.\<close>

lemma lottery_scan_total:
  assumes "\<forall>x \<in> set xs. 0 \<le> tickets_of procs x" "0 \<le> r" "r + sum_list (map (tickets_of procs) xs) \<le> INT_MAX"
    "t < r + sum_list (map (tickets_of procs) xs)" "r \<le> t"
  shows "\<exists>k. lottery_scan procs xs t r k0 = Some k"
  using assms
proof (induction xs arbitrary: r k0)
  case (Cons x xs)
  have "0 \<le> sum_list (map (tickets_of procs) xs)" using Cons.prems(1) by (intro tickets_sum_nonneg) simp
  then have w: "to_int32 (r + tickets_of procs x) = r + tickets_of procs x"
    using Cons.prems by (intro to_int32_id) (auto simp: INT_MAX_def)
  then show ?case using Cons.IH [of "r + tickets_of procs x" "Suc k0"] Cons.prems by (auto simp: Let_def add.assoc)
qed simp

text \<open>The drawn target lies below the total, whenever the total fits an \<open>int\<close>.\<close>

lemma lottery_target_range:
  assumes "0 < n" "n \<le> INT_MAX"
  shows "0 \<le> sint ((r :: u32) mod word_of_int n)" and "sint (r mod word_of_int n) < n"
    and "sint (r mod word_of_int n) = uint r mod n"
proof -
  have t: "uint (word_of_int n :: u32) = n"
    using assms by (simp add: INT_MAX_def uint_word_of_int_eq take_bit_int_eq_self)
  have u: "uint (r mod word_of_int n) = uint r mod n" by (simp add: uint_mod_distrib t)
  then have lt: "uint (r mod word_of_int n) < 2147483648"
    using assms pos_mod_bound [OF assms(1), of "uint r"] unfolding INT_MAX_def by linarith
  then have s: "sint (r mod word_of_int n) = uint (r mod word_of_int n)"
    using uint_ge_0 [of "r mod word_of_int n"] unfolding sint_uint
    by (intro signed_take_bit_int_eq_self; simp; linarith)
  then show "0 \<le> sint (r mod word_of_int n)" by simp
  show "sint (r mod word_of_int n) < n" using s u assms by simp
  show "sint (r mod word_of_int n) = uint r mod n" using s u by simp
qed

subsection \<open>Pick\<close>

lemma tickets_pos: "procs_ok ps \<Longrightarrow> \<forall>y \<in> set xs. 0 \<le> y \<and> y < int (length ps) \<Longrightarrow> \<forall>y \<in> set xs. 1 \<le> tickets_of ps y"
  using procs_ok_nth by (auto simp: tickets_of_def)

text \<open>The queued processes hold at most the tickets of all.\<close>

lemma queued_ticket_sum:
  assumes "procs_ok ps" "mset xs \<subseteq># mset (map int [0..<length ps])"
  shows "sum_list (map (tickets_of ps) xs) \<le> ticket_sum ps"
proof -
  obtain M where M: "mset (map int [0..<length ps]) = mset xs + M" using assms(2) by (metis mset_subset_eq_exists_conv)
  have "0 \<le> tickets_of ps y" if "y \<in># M" for y
  proof -
    have "y \<in># mset (map int [0..<length ps])" using that M by simp
    then show ?thesis using tickets_pos [OF assms(1), of "map int [0..<length ps]"] by fastforce
  qed
  then have "0 \<le> (\<Sum>y \<in># M. tickets_of ps y)" by (induction M) auto
  moreover have "(\<Sum>y \<in># mset (map int [0..<length ps]). tickets_of ps y) = ticket_sum ps"
  proof -
    have "(\<Sum>y \<in># mset (map int [0..<length ps]). tickets_of ps y) = sum_list (map (tickets_of ps) (map int [0..<length ps]))"
      by (metis mset_map sum_mset_sum_list)
    also have "map (tickets_of ps) (map int [0..<length ps]) = map (\<lambda>p. tickets (spec p)) ps"
      by (rule nth_equalityI) (simp_all add: tickets_of_def)
    finally show ?thesis by (simp add: ticket_sum_def)
  qed
  ultimately show ?thesis unfolding M by (simp add: sum_mset_sum_list flip: mset_map)
qed

lemma total_tickets_pos:
  assumes "procs_ok ps" "mset xs \<subseteq># mset (map int [0..<length ps])" "xs \<noteq> []" "ticket_sum ps \<le> INT_MAX"
  shows "0 < total_tickets ps xs"
proof -
  have p: "\<forall>y \<in> set xs. 1 \<le> tickets_of ps y" using queued_range [OF assms(2)] by (intro tickets_pos [OF assms(1)]) simp
  then have nn: "\<forall>y \<in> set xs. 0 \<le> tickets_of ps y" by force
  obtain x ys where x: "xs = x # ys" using assms(3) by (cases xs) auto
  have "0 \<le> sum_list (map (tickets_of ps) ys)" using nn x by (intro tickets_sum_nonneg) simp
  then have "0 < sum_list (map (tickets_of ps) xs)" using p x by simp
  moreover have "sum_list (map (tickets_of ps) xs) \<le> INT_MAX" using queued_ticket_sum [OF assms(1,2)] assms(4) by simp
  ultimately show ?thesis using total_tickets_sum [OF nn] by simp
qed

lemma lottery_count: "lottery_ok s \<Longrightarrow> qcount (lottery_ready (lottery s)) = int (length (lottery_list s))"
  by (simp add: lottery_ok_def lottery_list_def rq.count)

lemma lottery_pick_draw:
  assumes "lottery_ok s" "0 < total_tickets ps (lottery_list s)"
  shows "\<exists>k < length (lottery_list s).
    fst (lottery_pick_next s ps) = lottery_list s ! k \<and>
    lottery_list (snd (lottery_pick_next s ps)) = remove_nth k (lottery_list s) \<and>
    lottery_ok (snd (lottery_pick_next s ps)) \<and> same_kind (snd (lottery_pick_next s ps)) s \<and>
    (\<forall>j. lottery_scan ps (lottery_list s)
        (sint (next_random (rng_state (lottery s)) mod word_of_int (total_tickets ps (lottery_list s)))) 0 0 = Some j
      \<longrightarrow> j = k)"
proof -
  let ?q = "lottery_ready (lottery s)"
  let ?xs = "lottery_list s"
  let ?scan = "lottery_scan ps ?xs
        (sint (next_random (rng_state (lottery s)) mod word_of_int (total_tickets ps ?xs))) 0 0"
  define k where "k = (case ?scan of Some k \<Rightarrow> k | None \<Rightarrow> length ?xs - 1)"
  have ne: "?xs \<noteq> []" using assms(2) by auto
  have k: "k < length ?xs"
    using ne lottery_scan_range [of ps ?xs _ 0 0] by (auto simp: k_def split: option.splits)
  have idx: "(case ?scan of Some k \<Rightarrow> int k | None \<Rightarrow> qcount ?q - 1) = int k"
    using ne by (cases ?scan) (simp_all add: k_def lottery_count [OF assms(1)] Suc_leI)
  have ok: "queue_ok ?q" using assms(1) by (simp add: lottery_ok_def)
  note rm = rq.remove_in [OF ok, of "int k"] rq.remove_ok [OF ok, of "int k"]
  have eq: "fst (lottery_pick_next s ps) = fst (queue_remove_at ?q (int k))"
    "snd (lottery_pick_next s ps) = s\<lparr>lottery := \<lparr>lottery_ready = snd (queue_remove_at ?q (int k)),
       rng_state = next_random (rng_state (lottery s))\<rparr>\<rparr>"
    using assms(2) idx
    by (simp_all add: lottery_pick_next_def lottery_list_def Let_def split: prod.splits)
  show ?thesis
    by (intro exI [of _ k] conjI)
      (use rm k assms(1) in \<open>auto simp: eq lottery_list_def lottery_ok_def same_kind_def k_def\<close>)
qed

lemma lottery_pick_some:
  assumes "lottery_ok s" "0 < total_tickets ps (lottery_list s)"
  shows "lottery_queued s = add_mset (fst (lottery_pick_next s ps)) (lottery_queued (snd (lottery_pick_next s ps)))"
  using lottery_pick_draw [OF assms] mset_remove_nth [of _ "lottery_list s"]
  by (auto simp: lottery_queued_def)

lemma lottery_pick_none:
  "total_tickets ps (lottery_list s) \<le> 0 \<Longrightarrow> lottery_pick_next s ps = (-1, s)"
  by (simp add: lottery_pick_next_def lottery_list_def)

text \<open>A sum that does not fit: two processes with the largest number of tickets make the total -2, and nothing is ever
  picked while both are queued.\<close>

lemma lottery_overflow:
  assumes "lottery_list s = [0, 1]" "tickets_of ps 0 = INT_MAX" "tickets_of ps 1 = INT_MAX"
  shows "lottery_pick_next s ps = (-1, s)"
  using assms by (intro lottery_pick_none) (simp add: total_tickets_def to_int32_def INT_MAX_def)

subsection \<open>The policy contract\<close>

interpretation lottery_pol: scheduling_policy
  "\<lambda>s ps i h now r. (lottery_enqueue s i, ps)" "\<lambda>s ps c now. lottery_pick_next s ps" "\<lambda>s ps now. (s, ps)"
  lottery_queued "\<lambda>s c. lottery_queued s" lottery_ok "\<lambda>s ps. ticket_sum ps \<le> INT_MAX"
proof (unfold_locales, goal_cases)
  case 1 then show ?case by (auto simp: lottery_enqueue_def lottery_ok_def same_kind_def intro: rq.push_ok)
next
  case 2 then show ?case
    by (auto simp: lottery_enqueue_def lottery_ok_def lottery_queued_def lottery_list_def rq.push_contents)
next
  case (3 s ps c now x s')
  then show ?case
    using lottery_pick_none [of ps s] lottery_pick_draw [OF 3(1), of ps]
    by (cases "total_tickets ps (lottery_list s) \<le> 0") auto
next
  case (4 s ps c now x s')
  show ?case
  proof (cases "total_tickets ps (lottery_list s) \<le> 0")
    case True
    then show ?thesis using 4 lottery_pick_none [OF True] total_tickets_pos [OF 4(2), of "lottery_list s"]
      by (auto simp: lottery_queued_def)
  next
    case False
    then obtain k where "k < length (lottery_list s)" "x = lottery_list s ! k" using lottery_pick_draw [OF 4(1), of ps] 4(6) by auto
    then have "0 \<le> x" using queued_range [OF 4(3)] by (simp add: lottery_queued_def)
    with 4(7) show ?thesis by simp
  qed
next
  case (5 s ps c now x s')
  then show ?case
    using lottery_pick_none [of ps s] lottery_pick_some [OF 5(1), of ps]
    by (cases "total_tickets ps (lottery_list s) \<le> 0") auto
next
  case 6 then show ?case by auto
next
  case (7 s x) then show ?case by (intro exI [of _ 0]) (simp add: lottery_ok_def)
qed

end
