(* ===== verification/Sched_Edf.thy ===== *)
theory Sched_Edf
  imports Sched_Policy
begin

text \<open>
  Earliest deadline first, \<^verbatim>\<open>src/schedulers/edf.c\<close>: one ready queue; the next process is the
  one with the least deadline, ties going to the earlier arrival. A process without a deadline (a
  negative one) counts as \<open>INT_MAX - pid\<close>.
\<close>

subsection \<open>Operations\<close>

definition edf_init :: "SchedulerState \<Rightarrow> SchedulerState" where
  "edf_init scheduler = scheduler\<lparr>edf := (edf scheduler)\<lparr>edf_ready := zero_queue\<rparr>\<rparr>"

definition edf_enqueue :: "SchedulerState \<Rightarrow> int \<Rightarrow> SchedulerState" where
  "edf_enqueue scheduler i =
     scheduler\<lparr>edf := (edf scheduler)\<lparr>edf_ready := queue_push (edf_ready (edf scheduler)) i\<rparr>\<rparr>"

definition edf_deadline :: "ProcessRuntime \<Rightarrow> int" where
  "edf_deadline p = (if deadline (spec p) < 0 then INT_MAX - pid (spec p) else deadline (spec p))"

definition edf_pick_next :: "SchedulerState \<Rightarrow> ProcessRuntime list \<Rightarrow> int \<times> SchedulerState" where
  "edf_pick_next scheduler procs =
     (let ready = edf_ready (edf scheduler);
          proc_at = (\<lambda>k. procs ! nat (items ready ! k));
          best_index = fst (best_index_loop (\<lambda>k. edf_deadline (proc_at k))
                              (\<lambda>k. arrival (spec (proc_at k))) (nat (qcount ready)));
          (x, ready') = queue_remove_at ready best_index in
      (x, scheduler\<lparr>edf := (edf scheduler)\<lparr>edf_ready := ready'\<rparr>\<rparr>))"

subsection \<open>Abstraction and invariant\<close>

definition edf_list :: "SchedulerState \<Rightarrow> int list" where
  "edf_list s = queue_list (edf_ready (edf s))"

definition edf_queued :: "SchedulerState \<Rightarrow> int multiset" where
  "edf_queued s = mset (edf_list s)"

definition edf_ok :: "SchedulerState \<Rightarrow> bool" where
  "edf_ok s \<longleftrightarrow> queue_ok (edf_ready (edf s)) \<and> 1 \<le> cpu_count s"

subsection \<open>Selection\<close>

lemma edf_count: "edf_ok s \<Longrightarrow> qcount (edf_ready (edf s)) = int (length (edf_list s))"
  by (simp add: edf_ok_def edf_list_def rq.count)

lemma edf_item: "edf_ok s \<Longrightarrow> k < length (edf_list s) \<Longrightarrow> items (edf_ready (edf s)) ! k = edf_list s ! k"
  by (simp add: edf_list_def queue_list_def)

lemma edf_pick_empty:
  assumes "edf_ok s" "edf_list s = []"
  shows "edf_pick_next s ps = (-1, s)"
  using assms rq.remove_out [of "edf_ready (edf s)" "-1"]
  by (simp add: edf_pick_next_def edf_count edf_ok_def)

text \<open>From a non-empty queue the pick removes one position whose process has the least deadline,
  the least arrival among those, and the first place among those.\<close>

lemma edf_pick_least:
  assumes "edf_ok s" "edf_list s \<noteq> []"
  shows "\<exists>k < length (edf_list s).
    fst (edf_pick_next s ps) = edf_list s ! k \<and>
    edf_list (snd (edf_pick_next s ps)) = remove_nth k (edf_list s) \<and>
    edf_ok (snd (edf_pick_next s ps)) \<and> same_kind (snd (edf_pick_next s ps)) s \<and>
    (\<forall>j < length (edf_list s).
       edf_deadline (ps ! nat (edf_list s ! k)) < edf_deadline (ps ! nat (edf_list s ! j)) \<or>
       edf_deadline (ps ! nat (edf_list s ! k)) = edf_deadline (ps ! nat (edf_list s ! j)) \<and>
       arrival (spec (ps ! nat (edf_list s ! k))) \<le> arrival (spec (ps ! nat (edf_list s ! j))))"
proof -
  let ?q = "edf_ready (edf s)"
  let ?key = "\<lambda>k. edf_deadline (ps ! nat (items ?q ! k))"
  let ?tie = "\<lambda>k. arrival (spec (ps ! nat (items ?q ! k)))"
  have n: "0 < nat (qcount ?q)" and len: "nat (qcount ?q) = length (edf_list s)"
    using assms by (simp_all add: edf_count)
  from best_index_loop_least [OF n, of ?key ?tie] obtain k where
    k: "k < length (edf_list s)" "best_index_loop ?key ?tie (nat (qcount ?q)) = (int k, ?key k)"
    and least: "\<forall>j < length (edf_list s). ?key k < ?key j \<or> ?key k = ?key j \<and> ?tie k \<le> ?tie j"
    unfolding len by blast
  have eq: "edf_pick_next s ps =
      (fst (queue_remove_at ?q (int k)),
       s\<lparr>edf := (edf s)\<lparr>edf_ready := snd (queue_remove_at ?q (int k))\<rparr>\<rparr>)"
    using k(2) by (simp add: edf_pick_next_def Let_def split: prod.splits)
  have ok: "queue_ok ?q" using assms(1) by (simp add: edf_ok_def)
  note rm = rq.remove_in [OF ok, of "int k"] rq.remove_ok [OF ok, of "int k"]
  show ?thesis
  proof (intro exI [of _ k] conjI)
    show "\<forall>j < length (edf_list s).
       edf_deadline (ps ! nat (edf_list s ! k)) < edf_deadline (ps ! nat (edf_list s ! j)) \<or>
       edf_deadline (ps ! nat (edf_list s ! k)) = edf_deadline (ps ! nat (edf_list s ! j)) \<and>
       arrival (spec (ps ! nat (edf_list s ! k))) \<le> arrival (spec (ps ! nat (edf_list s ! j)))"
      using least k(1) edf_item [OF assms(1)] by auto
  qed (use rm k(1) assms(1) in \<open>auto simp: eq edf_list_def edf_ok_def same_kind_def\<close>)
qed

lemma edf_pick_some:
  assumes "edf_ok s" "edf_list s \<noteq> []"
  shows "edf_queued s = add_mset (fst (edf_pick_next s ps)) (edf_queued (snd (edf_pick_next s ps)))"
  using edf_pick_least [OF assms, of ps] mset_remove_nth [of _ "edf_list s"]
  by (auto simp: edf_queued_def)

subsection \<open>The policy contract\<close>

interpretation edf_pol: scheduling_policy
  "\<lambda>s ps i h now r. (edf_enqueue s i, ps)" "\<lambda>s ps c now. edf_pick_next s ps" "\<lambda>s ps now. (s, ps)"
  edf_queued "\<lambda>s c. edf_queued s" edf_ok "\<lambda>_ _. True"
proof (unfold_locales, goal_cases)
  case 1 then show ?case by (auto simp: edf_enqueue_def edf_ok_def same_kind_def intro: rq.push_ok)
next
  case 2 then show ?case
    by (auto simp: edf_enqueue_def edf_ok_def edf_queued_def edf_list_def rq.push_contents)
next
  case (3 s ps c now x s')
  then show ?case
    using edf_pick_empty [OF 3(1), of ps] edf_pick_least [OF 3(1), of ps] by (cases "edf_list s = []") auto
next
  case (4 s ps c now x s')
  show ?case
  proof (cases "edf_list s = []")
    case True
    with 4 edf_pick_empty [OF 4(1) True, of ps] show ?thesis by (simp add: edf_queued_def)
  next
    case False
    from edf_pick_least [OF 4(1) False, of ps] 4(6) have "x \<in># edf_queued s"
      by (auto simp: edf_queued_def)
    with queued_range [OF 4(3)] 4(7) show ?thesis by auto
  qed
next
  case (5 s ps c now x s')
  then show ?case
    using edf_pick_empty [OF 5(1), of ps] edf_pick_some [OF 5(1), of ps] by (cases "edf_list s = []") auto
next
  case 6 then show ?case by auto
next
  case (7 s x) then show ?case by (intro exI [of _ 0]) (simp add: edf_ok_def)
qed

end
