(* ===== verification/Sched_Custom.thy ===== *)
theory Sched_Custom
  imports Sched_Policy
begin

text \<open>
  The affinity-aware multiprocessor scheduler of \<^verbatim>\<open>src/schedulers/custom.c\<close>: one ready queue
  per CPU, placement by affinity with a load limit, selection by remaining burst minus age, and a
  periodic steal from the most to the least loaded queue.
\<close>

subsection \<open>Operations\<close>

definition custom_count :: "SchedulerState \<Rightarrow> nat \<Rightarrow> int" where
  "custom_count scheduler cpu = qcount (custom_queues (custom scheduler) ! cpu)"

text \<open>The two scans \<^verbatim>\<open>for (cpu = 1; cpu < cpu_count; cpu++)\<close>, as one loop over the test that
  replaces the best CPU.\<close>

definition load_scan :: "(int \<Rightarrow> int \<Rightarrow> bool) \<Rightarrow> SchedulerState \<Rightarrow> nat \<times> int" where
  "load_scan better scheduler =
     fold (\<lambda>cpu (best_cpu, best_count).
         if better (custom_count scheduler cpu) best_count then (cpu, custom_count scheduler cpu)
         else (best_cpu, best_count))
       [1..<nat (cpu_count scheduler)] (0, custom_count scheduler 0)"

definition least_loaded_cpu :: "SchedulerState \<Rightarrow> int" where
  "least_loaded_cpu scheduler = int (fst (load_scan (<) scheduler))"

definition most_loaded_cpu :: "SchedulerState \<Rightarrow> int" where
  "most_loaded_cpu scheduler = int (fst (load_scan (>) scheduler))"

definition custom_init :: "SchedulerState \<Rightarrow> SchedulerState" where
  "custom_init scheduler =
     scheduler\<lparr>custom := (custom scheduler)
       \<lparr>custom_queues := fold (\<lambda>cpu qs. upd_nth cpu (\<lambda>_. zero_queue) qs) [0..<nat MAX_CPUS]
          (custom_queues (custom scheduler)),
        steal_interval := 5, last_steal_tick := 0, imbalance_threshold := 2\<rparr>\<rparr>"

definition custom_upd_queue :: "int \<Rightarrow> (ReadyQueue \<Rightarrow> ReadyQueue) \<Rightarrow> SchedulerState \<Rightarrow> SchedulerState" where
  "custom_upd_queue cpu f scheduler =
     scheduler\<lparr>custom := (custom scheduler)
       \<lparr>custom_queues := upd_nth (nat cpu) f (custom_queues (custom scheduler))\<rparr>\<rparr>"

definition custom_place :: "SchedulerState \<Rightarrow> ProcessRuntime list \<Rightarrow> int \<Rightarrow> int \<Rightarrow> int" where
  "custom_place scheduler procs i cpu_hint =
     (let preferred = least_loaded_cpu scheduler;
          minimum_load = custom_count scheduler (nat preferred);
          aff = affinity (spec (procs ! nat i));
          preferred = (if aff \<ge> 0 \<and> aff < cpu_count scheduler then aff
                       else if cpu_hint \<ge> 0 \<and> cpu_hint < cpu_count scheduler then cpu_hint
                       else preferred) in
      if custom_count scheduler (nat preferred) > minimum_load + 1
      then least_loaded_cpu scheduler else preferred)"

definition custom_enqueue :: "SchedulerState \<Rightarrow> ProcessRuntime list \<Rightarrow> int \<Rightarrow> int \<Rightarrow>
    SchedulerState \<times> ProcessRuntime list" where
  "custom_enqueue scheduler procs i cpu_hint =
     (let preferred = custom_place scheduler procs i cpu_hint in
      (custom_upd_queue preferred (\<lambda>q. queue_push q i) scheduler,
       upd_proc i (\<lambda>p. p\<lparr>assigned_cpu := preferred\<rparr>) procs))"

definition custom_score :: "ProcessRuntime \<Rightarrow> int \<Rightarrow> int \<Rightarrow> int" where
  "custom_score p cpu_id now =
     (let age = now - ready_since p;
          affinity_bonus = (if affinity (spec p) = cpu_id then -2 else 0) in
      remaining_in_burst p - age + affinity_bonus)"

definition custom_pick_next :: "SchedulerState \<Rightarrow> ProcessRuntime list \<Rightarrow> int \<Rightarrow> int \<Rightarrow> int \<times> SchedulerState" where
  "custom_pick_next scheduler procs cpu_id now =
     (let queue = custom_queues (custom scheduler) ! nat cpu_id;
          proc_at = (\<lambda>k. procs ! nat (items queue ! k));
          best_index = fst (best_index_loop (\<lambda>k. custom_score (proc_at k) cpu_id now)
                              (\<lambda>k. pid (spec (proc_at k))) (nat (qcount queue))) in
      if best_index < 0 then (-1, scheduler)
      else (let (x, queue') = queue_remove_at queue best_index in
            (x, custom_upd_queue cpu_id (\<lambda>_. queue') scheduler)))"

definition custom_tick :: "SchedulerState \<Rightarrow> ProcessRuntime list \<Rightarrow> int \<Rightarrow>
    SchedulerState \<times> ProcessRuntime list" where
  "custom_tick scheduler procs now =
     (if now = 0 \<or> now - last_steal_tick (custom scheduler) < steal_interval (custom scheduler)
      then (scheduler, procs)
      else
        (let heavy_cpu = most_loaded_cpu scheduler;
             light_cpu = least_loaded_cpu scheduler;
             heavy_count = custom_count scheduler (nat heavy_cpu);
             light_count = custom_count scheduler (nat light_cpu) in
         if heavy_count - light_count < imbalance_threshold (custom scheduler) then (scheduler, procs)
         else
           (let (x, heavy') = queue_remove_at (custom_queues (custom scheduler) ! nat heavy_cpu) (heavy_count - 1);
                scheduler = custom_upd_queue heavy_cpu (\<lambda>_. heavy') scheduler;
                (scheduler, procs) =
                  (if x \<ge> 0 then
                     (custom_upd_queue light_cpu (\<lambda>q. queue_push q x) scheduler,
                      upd_proc x (\<lambda>p. p\<lparr>assigned_cpu := light_cpu\<rparr>) procs)
                   else (scheduler, procs)) in
            (scheduler\<lparr>custom := (custom scheduler)\<lparr>last_steal_tick := now\<rparr>\<rparr>, procs))))"

subsection \<open>Abstraction and invariant\<close>

definition custom_list :: "SchedulerState \<Rightarrow> nat \<Rightarrow> int list" where
  "custom_list s cpu = queue_list (custom_queues (custom s) ! cpu)"

definition custom_queued :: "SchedulerState \<Rightarrow> int multiset" where
  "custom_queued s = (\<Sum>c \<in> {0..<nat (cpu_count s)}. mset (custom_list s c))"

definition custom_avail :: "SchedulerState \<Rightarrow> int \<Rightarrow> int multiset" where
  "custom_avail s c = mset (custom_list s (nat c))"

text \<open>The last clause keeps every queued slot number non-negative, so that a steal is never taken
  for the -1 of an empty queue.\<close>

definition custom_ok :: "SchedulerState \<Rightarrow> bool" where
  "custom_ok s \<longleftrightarrow> length (custom_queues (custom s)) = 8 \<and> (\<forall>c < 8. queue_ok (custom_queues (custom s) ! c)) \<and>
     1 \<le> cpu_count s \<and> cpu_count s \<le> 8 \<and> 1 \<le> imbalance_threshold (custom s) \<and>
     (\<forall>c < 8. \<forall>x \<in> set (custom_list s c). 0 \<le> x)"

subsection \<open>Load scans\<close>

lemma load_scan_inv:
  assumes "1 \<le> cpu_count s" and "\<And>a b c. better a b \<Longrightarrow> \<not> better c b \<Longrightarrow> \<not> better c a"
    and "\<And>a. \<not> better a a"
  shows "\<exists>k. load_scan better s = (k, custom_count s k) \<and> k < nat (cpu_count s) \<and>
    (\<forall>j < nat (cpu_count s). \<not> better (custom_count s j) (custom_count s k))"
proof -
  let ?f = "\<lambda>cpu (b, m). if better (custom_count s cpu) m then (cpu, custom_count s cpu) else (b, m)"
  have "1 \<le> n \<Longrightarrow> \<exists>k. fold ?f [1..<n] (0, custom_count s 0) = (k, custom_count s k) \<and> k < n \<and>
    (\<forall>j < n. \<not> better (custom_count s j) (custom_count s k))" for n
  proof (induction n)
    case (Suc n)
    show ?case
    proof (cases "n = 0")
      case True
      then show ?thesis using assms(3) by (intro exI [of _ 0]) auto
    next
      case False
      then obtain k where k: "fold ?f [1..<n] (0, custom_count s 0) = (k, custom_count s k)" "k < n"
        "\<forall>j < n. \<not> better (custom_count s j) (custom_count s k)"
        using Suc.IH by auto
      have step: "fold ?f [1..<Suc n] (0, custom_count s 0) = ?f n (k, custom_count s k)"
        using False k(1) by simp
      show ?thesis
      proof (cases "better (custom_count s n) (custom_count s k)")
        case True
        have "\<not> better (custom_count s j) (custom_count s n)" if "j < Suc n" for j
          using assms(2) [OF True] assms(3) k(3) that by (cases "j = n") auto
        with True show ?thesis using step by (intro exI [of _ n]) simp
      next
        case nb: False
        then show ?thesis using step k by (intro exI [of _ k]) (auto simp: less_Suc_eq)
      qed
    qed
  qed simp
  from this [of "nat (cpu_count s)"] show ?thesis using assms(1) by (simp add: load_scan_def)
qed

lemma least_loaded:
  assumes "1 \<le> cpu_count s"
  shows "0 \<le> least_loaded_cpu s" "least_loaded_cpu s < cpu_count s"
    "j < nat (cpu_count s) \<Longrightarrow> custom_count s (nat (least_loaded_cpu s)) \<le> custom_count s j"
  using load_scan_inv [of s "(<)"] assms by (auto simp: least_loaded_cpu_def not_less)

lemma most_loaded:
  assumes "1 \<le> cpu_count s"
  shows "0 \<le> most_loaded_cpu s" "most_loaded_cpu s < cpu_count s"
    "j < nat (cpu_count s) \<Longrightarrow> custom_count s j \<le> custom_count s (nat (most_loaded_cpu s))"
  using load_scan_inv [of s "(>)"] assms by (auto simp: most_loaded_cpu_def not_less)

subsection \<open>One queue at a time\<close>

lemma custom_upd_queue_simps [simp]:
  "algorithm (custom_upd_queue c f s) = algorithm s" "cpu_count (custom_upd_queue c f s) = cpu_count s"
  "length (custom_queues (custom (custom_upd_queue c f s))) = length (custom_queues (custom s))"
  "imbalance_threshold (custom (custom_upd_queue c f s)) = imbalance_threshold (custom s)"
  by (simp_all add: custom_upd_queue_def)

lemma custom_upd_queue_nth:
  "k < length (custom_queues (custom s)) \<Longrightarrow> custom_queues (custom (custom_upd_queue c f s)) ! k =
     (if k = nat c then f (custom_queues (custom s) ! k) else custom_queues (custom s) ! k)"
  by (simp add: custom_upd_queue_def nth_upd_nth)

lemma custom_list_upd:
  "custom_ok s \<Longrightarrow> k < 8 \<Longrightarrow> custom_list (custom_upd_queue c f s) k =
     (if k = nat c then queue_list (f (custom_queues (custom s) ! k)) else custom_list s k)"
  by (simp add: custom_list_def custom_ok_def custom_upd_queue_nth)

lemma custom_queue_ok: "custom_ok s \<Longrightarrow> k < 8 \<Longrightarrow> queue_ok (custom_queues (custom s) ! k)"
  by (simp add: custom_ok_def)

lemma custom_ok_upd:
  assumes "custom_ok s" "nat c < 8 \<Longrightarrow> queue_ok (f (custom_queues (custom s) ! nat c))"
    "nat c < 8 \<Longrightarrow> \<forall>x \<in> set (queue_list (f (custom_queues (custom s) ! nat c))). 0 \<le> x"
  shows "custom_ok (custom_upd_queue c f s)"
  using assms custom_list_upd [OF assms(1)] unfolding custom_ok_def by (auto simp: custom_upd_queue_nth)

lemma custom_count_list: "custom_ok s \<Longrightarrow> k < 8 \<Longrightarrow> custom_count s k = int (length (custom_list s k))"
  by (simp add: custom_count_def custom_list_def custom_ok_def rq.count)

lemma custom_cpu_bounds: "custom_ok s \<Longrightarrow> 0 \<le> c \<Longrightarrow> c < cpu_count s \<Longrightarrow> nat c < 8 \<and> nat c < nat (cpu_count s)"
  by (auto simp: custom_ok_def)

text \<open>The queued processes after one queue changed.\<close>

lemma custom_queued_split:
  "k < nat (cpu_count s) \<Longrightarrow>
     custom_queued s = mset (custom_list s k) + (\<Sum>c \<in> {0..<nat (cpu_count s)} - {k}. mset (custom_list s c))"
  unfolding custom_queued_def by (subst sum.remove [of _ k]) auto

lemma custom_queued_upd:
  assumes "custom_ok s" "k < nat (cpu_count s)"
  shows "custom_queued (custom_upd_queue (int k) f s) =
    mset (queue_list (f (custom_queues (custom s) ! k))) +
      (\<Sum>c \<in> {0..<nat (cpu_count s)} - {k}. mset (custom_list s c))"
proof -
  have k8: "k < 8" using assms by (auto simp: custom_ok_def)
  have "(\<Sum>c \<in> {0..<nat (cpu_count s)} - {k}. mset (custom_list (custom_upd_queue (int k) f s) c)) =
      (\<Sum>c \<in> {0..<nat (cpu_count s)} - {k}. mset (custom_list s c))"
    using assms(1) by (intro sum.cong) (auto simp: custom_list_upd custom_ok_def)
  then show ?thesis
    using custom_queued_split [of k "custom_upd_queue (int k) f s"] assms k8 by (simp add: custom_list_upd)
qed

lemma custom_list_queued:
  assumes "custom_ok s" "k < nat (cpu_count s)"
  shows "mset (custom_list s k) \<subseteq># custom_queued s" and "length (custom_list s k) \<le> size (custom_queued s)"
proof -
  show sub: "mset (custom_list s k) \<subseteq># custom_queued s"
    using custom_queued_split [OF assms(2)] by simp
  show "length (custom_list s k) \<le> size (custom_queued s)"
    using size_mset_mono [OF sub] by simp
qed

text \<open>Pushing a slot number on the queue of a CPU.\<close>

lemma custom_push:
  assumes "custom_ok s" "0 \<le> c" "c < cpu_count s" "0 \<le> x" "length (custom_list s (nat c)) < 128"
  defines "s1 \<equiv> custom_upd_queue c (\<lambda>q. queue_push q x) s"
  shows "custom_ok s1" "same_kind s1 s" "custom_queued s1 = add_mset x (custom_queued s)"
    "k < 8 \<Longrightarrow> custom_list s1 k = (if k = nat c then custom_list s k @ [x] else custom_list s k)"
proof -
  note b = custom_cpu_bounds [OF assms(1-3)]
  let ?q = "custom_queues (custom s) ! nat c"
  have ok: "queue_ok ?q" using assms(1) b by (simp add: custom_queue_ok)
  have push: "queue_list (queue_push ?q x) = custom_list s (nat c) @ [x]"
    using rq.push_contents [OF ok] assms(5) by (simp add: custom_list_def)
  have nonneg: "\<forall>y \<in> set (custom_list s (nat c)). 0 \<le> y" using assms(1) b unfolding custom_ok_def by blast
  show "custom_ok s1" unfolding s1_def
    using ok push nonneg assms(4) by (intro custom_ok_upd [OF assms(1)]) (auto intro: rq.push_ok)
  show "same_kind s1 s" by (simp add: s1_def same_kind_def)
  have "int (nat c) = c" using assms(2) by simp
  with custom_queued_upd [OF assms(1), of "nat c" "\<lambda>q. queue_push q x"] b push
  show "custom_queued s1 = add_mset x (custom_queued s)"
    using custom_queued_split [of "nat c" s] by (simp add: s1_def)
  show "k < 8 \<Longrightarrow> custom_list s1 k = (if k = nat c then custom_list s k @ [x] else custom_list s k)"
    using custom_list_upd [OF assms(1)] push by (simp add: s1_def)
qed

text \<open>Taking position \<open>j\<close> out of the queue of a CPU.\<close>

lemma custom_take:
  assumes "custom_ok s" "0 \<le> c" "c < cpu_count s" "j < length (custom_list s (nat c))"
  defines "r \<equiv> queue_remove_at (custom_queues (custom s) ! nat c) (int j)"
  defines "s1 \<equiv> custom_upd_queue c (\<lambda>_. snd r) s"
  shows "fst r = custom_list s (nat c) ! j" "0 \<le> fst r" "custom_ok s1" "same_kind s1 s"
    "custom_queued s = add_mset (fst r) (custom_queued s1)"
    "k < 8 \<Longrightarrow> custom_list s1 k = (if k = nat c then remove_nth j (custom_list s k) else custom_list s k)"
proof -
  note b = custom_cpu_bounds [OF assms(1-3)]
  let ?q = "custom_queues (custom s) ! nat c"
  have ok: "queue_ok ?q" using assms(1) b by (simp add: custom_queue_ok)
  have rm: "fst r = custom_list s (nat c) ! j" "queue_list (snd r) = remove_nth j (custom_list s (nat c))"
    using rq.remove_in [OF ok, of "int j"] assms(4) by (auto simp: custom_list_def r_def)
  have ok': "queue_ok (snd r)" using rq.remove_ok [OF ok] by (simp add: r_def)
  have nonneg: "\<forall>y \<in> set (custom_list s (nat c)). 0 \<le> y" using assms(1) b unfolding custom_ok_def by blast
  show "fst r = custom_list s (nat c) ! j" "0 \<le> fst r" using rm(1) nonneg assms(4) by auto
  have "set (queue_list (snd r)) \<subseteq> set (custom_list s (nat c))"
    using rm(2) set_take_subset set_drop_subset by (fastforce simp: remove_nth_def)
  with nonneg show "custom_ok s1" unfolding s1_def
    using ok' by (intro custom_ok_upd [OF assms(1)]) auto
  show "same_kind s1 s" by (simp add: s1_def same_kind_def)
  have "int (nat c) = c" using assms(2) by simp
  with custom_queued_upd [OF assms(1), of "nat c" "\<lambda>_. snd r"] b rm
  show "custom_queued s = add_mset (fst r) (custom_queued s1)"
    using custom_queued_split [of "nat c" s] mset_remove_nth [OF assms(4)] by (simp add: s1_def)
  show "k < 8 \<Longrightarrow> custom_list s1 k = (if k = nat c then remove_nth j (custom_list s k) else custom_list s k)"
    using custom_list_upd [OF assms(1)] rm(2) by (simp add: s1_def)
qed

subsection \<open>Enqueue\<close>

lemma custom_place_range:
  "1 \<le> cpu_count s \<Longrightarrow> 0 \<le> custom_place s ps i h \<and> custom_place s ps i h < cpu_count s"
  using least_loaded [of s] by (auto simp: custom_place_def Let_def)

text \<open>The chosen queue is never more than one longer than the shortest.\<close>

lemma custom_place_balanced:
  assumes "1 \<le> cpu_count s" "j < nat (cpu_count s)"
  shows "custom_count s (nat (custom_place s ps i h)) \<le> custom_count s j + 1"
  using least_loaded(3) [OF assms] by (auto simp: custom_place_def Let_def)

lemma custom_enqueue_ok:
  assumes "custom_ok s" "procs_ok ps" "0 \<le> i" "size (custom_queued s) < 128"
    "custom_enqueue s ps i h = (s', ps')"
  shows "custom_ok s' \<and> same_kind s' s \<and> procs_ok ps' \<and> same_view ps' ps \<and>
    custom_queued s' = add_mset i (custom_queued s)"
proof -
  let ?c = "custom_place s ps i h"
  have c: "0 \<le> ?c" "?c < cpu_count s" using custom_place_range assms(1) by (auto simp: custom_ok_def)
  have "length (custom_list s (nat ?c)) < 128"
    using custom_list_queued(2) [OF assms(1), of "nat ?c"] custom_cpu_bounds [OF assms(1) c] assms(4) by linarith
  note p = custom_push [OF assms(1) c assms(3) this]
  have "procs_ok ps'" "same_view ps' ps"
    using assms(2,5) by (auto simp: custom_enqueue_def Let_def intro!: procs_ok_upd_proc same_view_upd_proc)
  with p assms(5) show ?thesis by (auto simp: custom_enqueue_def Let_def)
qed

subsection \<open>Pick\<close>

text \<open>From a non-empty queue the pick removes one position with the least score, the least process
  id among those, and the first place among those.\<close>

lemma custom_pick_least:
  assumes "custom_ok s" "0 \<le> c" "c < cpu_count s" "custom_list s (nat c) \<noteq> []"
  shows "\<exists>k < length (custom_list s (nat c)).
    fst (custom_pick_next s ps c now) = custom_list s (nat c) ! k \<and> 0 \<le> fst (custom_pick_next s ps c now) \<and>
    custom_ok (snd (custom_pick_next s ps c now)) \<and> same_kind (snd (custom_pick_next s ps c now)) s \<and>
    custom_queued s = add_mset (fst (custom_pick_next s ps c now)) (custom_queued (snd (custom_pick_next s ps c now))) \<and>
    (\<forall>d < 8. custom_list (snd (custom_pick_next s ps c now)) d =
       (if d = nat c then remove_nth k (custom_list s d) else custom_list s d)) \<and>
    (\<forall>j < length (custom_list s (nat c)).
       custom_score (ps ! nat (custom_list s (nat c) ! k)) c now
         < custom_score (ps ! nat (custom_list s (nat c) ! j)) c now \<or>
       custom_score (ps ! nat (custom_list s (nat c) ! k)) c now
         = custom_score (ps ! nat (custom_list s (nat c) ! j)) c now \<and>
       pid (spec (ps ! nat (custom_list s (nat c) ! k))) \<le> pid (spec (ps ! nat (custom_list s (nat c) ! j))))"
proof -
  let ?q = "custom_queues (custom s) ! nat c"
  let ?xs = "custom_list s (nat c)"
  let ?key = "\<lambda>k. custom_score (ps ! nat (items ?q ! k)) c now"
  let ?tie = "\<lambda>k. pid (spec (ps ! nat (items ?q ! k)))"
  note b = custom_cpu_bounds [OF assms(1-3)]
  have len: "nat (qcount ?q) = length ?xs"
    using custom_count_list [OF assms(1), of "nat c"] b by (simp add: custom_count_def)
  then have n: "0 < nat (qcount ?q)" using assms(4) by simp
  from best_index_loop_least [OF n, of ?key ?tie] obtain k where
    k: "k < length ?xs" "best_index_loop ?key ?tie (nat (qcount ?q)) = (int k, ?key k)"
    and least: "\<forall>j < length ?xs. ?key k < ?key j \<or> ?key k = ?key j \<and> ?tie k \<le> ?tie j"
    unfolding len by blast
  have item: "items ?q ! j = ?xs ! j" if "j < length ?xs" for j
    using that by (simp add: custom_list_def queue_list_def)
  have eq: "custom_pick_next s ps c now =
      (fst (queue_remove_at ?q (int k)), custom_upd_queue c (\<lambda>_. snd (queue_remove_at ?q (int k))) s)"
    using k(2) by (simp add: custom_pick_next_def Let_def split: prod.splits)
  note t = custom_take [OF assms(1-3) k(1)]
  show ?thesis unfolding eq fst_conv snd_conv
    using k(1) t least item by (intro exI [of _ k]) simp
qed

lemma custom_pick_empty:
  assumes "custom_ok s" "0 \<le> c" "c < cpu_count s" "custom_list s (nat c) = []"
  shows "custom_pick_next s ps c now = (-1, s)"
  using assms custom_count_list [OF assms(1), of "nat c"] custom_cpu_bounds [OF assms(1-3)]
  by (simp add: custom_pick_next_def custom_count_def)

lemma custom_pick_avail:
  assumes "custom_ok s" "0 \<le> c" "c < cpu_count s" "0 \<le> d" "d < cpu_count s"
  shows "custom_avail (snd (custom_pick_next s ps c now)) d \<subseteq># custom_avail s d"
proof (cases "custom_list s (nat c) = []")
  case True
  then show ?thesis using custom_pick_empty [OF assms(1-3)] by simp
next
  case False
  from custom_pick_least [OF assms(1-3) False, of ps now] obtain k where
    "k < length (custom_list s (nat c))"
    "\<forall>d < 8. custom_list (snd (custom_pick_next s ps c now)) d =
       (if d = nat c then remove_nth k (custom_list s d) else custom_list s d)" by blast
  then show ?thesis
    using custom_cpu_bounds [OF assms(1,4,5)] mset_remove_nth [of k "custom_list s (nat c)"]
    by (auto simp: custom_avail_def)
qed

subsection \<open>Steal\<close>

lemma custom_tick_idle:
  "now = 0 \<or> now - last_steal_tick (custom s) < steal_interval (custom s) \<or>
     custom_count s (nat (most_loaded_cpu s)) - custom_count s (nat (least_loaded_cpu s))
       < imbalance_threshold (custom s) \<Longrightarrow> custom_tick s ps now = (s, ps)"
  by (auto simp: custom_tick_def Let_def)

text \<open>A steal moves the last process of the longest queue to the end of the shortest.\<close>

lemma custom_tick_steal:
  assumes "custom_ok s" "procs_ok ps" "size (custom_queued s) \<le> 128" "custom_tick s ps now = (s', ps')"
    and steal: "now \<noteq> 0" "steal_interval (custom s) \<le> now - last_steal_tick (custom s)"
      "imbalance_threshold (custom s) \<le>
         custom_count s (nat (most_loaded_cpu s)) - custom_count s (nat (least_loaded_cpu s))"
  defines "h \<equiv> nat (most_loaded_cpu s)" and "l \<equiv> nat (least_loaded_cpu s)"
  shows "custom_ok s' \<and> same_kind s' s \<and> procs_ok ps' \<and> same_view ps' ps \<and> custom_queued s' = custom_queued s
    \<and> h \<noteq> l \<and> custom_list s h \<noteq> [] \<and> last_steal_tick (custom s') = now
    \<and> custom_list s' h = butlast (custom_list s h)
    \<and> custom_list s' l = custom_list s l @ [last (custom_list s h)]
    \<and> (\<forall>k < 8. k \<noteq> h \<and> k \<noteq> l \<longrightarrow> custom_list s' k = custom_list s k)
    \<and> ps' = upd_proc (last (custom_list s h)) (\<lambda>p. p\<lparr>assigned_cpu := int l\<rparr>) ps"
proof -
  have c1: "1 \<le> cpu_count s" using assms(1) by (simp add: custom_ok_def)
  note H = most_loaded(1,2) [OF c1] and L = least_loaded(1,2) [OF c1]
  note hb = custom_cpu_bounds [OF assms(1) H, folded h_def] and lb = custom_cpu_bounds [OF assms(1) L, folded l_def]
  have cnt: "custom_count s h = int (length (custom_list s h))" "custom_count s l = int (length (custom_list s l))"
    using custom_count_list [OF assms(1)] hb lb by auto
  have gap: "length (custom_list s l) < length (custom_list s h)"
    using steal(3) assms(1) cnt by (simp add: custom_ok_def h_def [symmetric] l_def [symmetric])
  then have hl: "h \<noteq> l" and ne: "custom_list s h \<noteq> []" by auto
  define j where "j = length (custom_list s h) - 1"
  have j: "j < length (custom_list s (nat (most_loaded_cpu s)))" and jc: "custom_count s h - 1 = int j"
    using ne cnt(1) by (auto simp: j_def h_def [symmetric] Suc_leI)
  note t = custom_take [OF assms(1) H j]
  let ?r = "queue_remove_at (custom_queues (custom s) ! nat (most_loaded_cpu s)) (int j)"
  let ?s1 = "custom_upd_queue (most_loaded_cpu s) (\<lambda>_. snd ?r) s"
  have x: "fst ?r = last (custom_list s h)"
    using t(1) ne by (simp add: j_def h_def [symmetric] last_conv_nth)
  have "length (custom_list ?s1 (nat (least_loaded_cpu s))) < 128"
    using t(6) [of l] lb hl gap custom_list_queued(2) [OF assms(1) conjunct2 [OF hb]] assms(3)
    by (auto simp: l_def h_def)
  note p = custom_push [OF t(3) L(1) _ t(2) this]
  let ?s2 = "custom_upd_queue (least_loaded_cpu s) (\<lambda>q. queue_push q (fst ?r)) ?s1"
  have s': "s' = ?s2\<lparr>custom := (custom ?s2)\<lparr>last_steal_tick := now\<rparr>\<rparr>"
    and ps': "ps' = upd_proc (fst ?r) (\<lambda>p. p\<lparr>assigned_cpu := least_loaded_cpu s\<rparr>) ps"
    using assms(4) steal t(2) jc
    by (auto simp: custom_tick_def Let_def h_def split: prod.splits if_splits)
  have rmv: "remove_nth j (custom_list s h) = butlast (custom_list s h)"
    using ne by (simp add: remove_nth_def j_def butlast_conv_take)
  have lst: "custom_list s' k = custom_list ?s2 k" for k by (simp add: s' custom_list_def)
  have lists: "custom_list s' k = (if k = l then custom_list s l @ [last (custom_list s h)]
      else if k = h then butlast (custom_list s h) else custom_list s k)" if "k < 8" for k
    using p(4) [OF _ that] t(6) [OF that] L(2) hl x rmv by (auto simp: lst h_def l_def)
  have "custom_ok s'" "same_kind s' s" "custom_queued s' = custom_queued s"
    using p(1-3) t(4,5) L(2) unfolding s'
    by (auto simp: custom_ok_def same_kind_def custom_queued_def custom_list_def)
  moreover have "procs_ok ps'" "same_view ps' ps"
    using assms(2) by (auto simp: ps' intro!: procs_ok_upd_proc same_view_upd_proc)
  moreover have "int l = least_loaded_cpu s" using L(1) by (simp add: l_def)
  ultimately show ?thesis using lists hb lb hl ne x by (simp add: s' [THEN arg_cong, of "\<lambda>s. last_steal_tick (custom s)"] ps')
qed

lemma custom_tick_ok:
  assumes "custom_ok s" "procs_ok ps" "size (custom_queued s) \<le> 128" "custom_tick s ps now = (s', ps')"
  shows "custom_ok s' \<and> same_kind s' s \<and> procs_ok ps' \<and> same_view ps' ps \<and> custom_queued s' = custom_queued s"
proof (cases "now = 0 \<or> now - last_steal_tick (custom s) < steal_interval (custom s) \<or>
     custom_count s (nat (most_loaded_cpu s)) - custom_count s (nat (least_loaded_cpu s))
       < imbalance_threshold (custom s)")
  case True
  with assms show ?thesis by (auto simp: custom_tick_idle)
next
  case False
  then show ?thesis using custom_tick_steal [OF assms] by auto
qed

subsection \<open>The policy contract\<close>

interpretation custom_pol: scheduling_policy
  "\<lambda>s ps i h now r. custom_enqueue s ps i h" custom_pick_next custom_tick
  custom_queued custom_avail custom_ok "\<lambda>_ _. True"
proof (unfold_locales, goal_cases)
  case 1 then show ?case using custom_enqueue_ok by blast
next
  case 2 then show ?case using custom_enqueue_ok by blast
next
  case (3 s ps c now x s')
  then show ?case
    using custom_pick_empty [OF 3(1,3,4), of ps now] custom_pick_least [OF 3(1,3,4), of ps now]
    by (cases "custom_list s (nat c) = []") auto
next
  case (4 s ps c now x s')
  then show ?case
    using custom_pick_empty [OF 4(1,4,5), of ps now] custom_pick_least [OF 4(1,4,5), of ps now]
    by (cases "custom_list s (nat c) = []") (auto simp: custom_avail_def)
next
  case (5 s ps c now x s')
  then show ?case
    using custom_pick_empty [OF 5(1,3,4), of ps now] custom_pick_least [OF 5(1,3,4), of ps now]
    by (cases "custom_list s (nat c) = []") auto
next
  case 6 then show ?case by (intro custom_tick_ok)
next
  case (7 s x)
  then obtain k where "k < nat (cpu_count s)" "x \<in># mset (custom_list s k)"
    by (auto simp: custom_queued_def set_mset_sum)
  then show ?case by (intro exI [of _ "int k"]) (auto simp: custom_avail_def)
qed

end
