(* ===== verification/Sched_Dispatch.thy ===== *)
theory Sched_Dispatch
  imports Sched_Mlfq Sched_Lottery Sched_Edf Sched_Custom
begin

text \<open>
  The scheduler interface of \<^verbatim>\<open>include/scheduler.h\<close> as \<^verbatim>\<open>src/core/simulator.c\<close>
  implements it: each call is dispatched on the \<open>algorithm\<close> field. The dispatcher satisfies the
  policy contract because each of the four policies does, so the simulator proofs are done once.
\<close>

subsection \<open>Operations\<close>

definition policy_enqueue :: "SchedulerState \<Rightarrow> ProcessRuntime list \<Rightarrow> int \<Rightarrow> int \<Rightarrow> int \<Rightarrow> EnqueueReason \<Rightarrow>
    SchedulerState \<times> ProcessRuntime list" where
  "policy_enqueue scheduler procs i cpu_hint now reason =
     (if algorithm scheduler = ALGO_MLFQ then mlfq_enqueue scheduler procs i now reason
      else if algorithm scheduler = ALGO_LOTTERY then (lottery_enqueue scheduler i, procs)
      else if algorithm scheduler = ALGO_EDF then (edf_enqueue scheduler i, procs)
      else custom_enqueue scheduler procs i cpu_hint)"

definition enqueue_process :: "SchedulerState \<Rightarrow> ProcessRuntime list \<Rightarrow> int \<Rightarrow> int \<Rightarrow> int \<Rightarrow> EnqueueReason \<Rightarrow>
    SchedulerState \<times> ProcessRuntime list" where
  "enqueue_process scheduler procs i cpu_hint now reason =
     policy_enqueue scheduler
       (upd_proc i (\<lambda>p. p\<lparr>pstate := PROC_READY, ready_since := now\<rparr>) procs) i cpu_hint now reason"

definition pick_next_process :: "SchedulerState \<Rightarrow> ProcessRuntime list \<Rightarrow> int \<Rightarrow> int \<Rightarrow> int \<times> SchedulerState" where
  "pick_next_process scheduler procs cpu_id now =
     (if algorithm scheduler = ALGO_MLFQ then mlfq_pick_next scheduler
      else if algorithm scheduler = ALGO_LOTTERY then lottery_pick_next scheduler procs
      else if algorithm scheduler = ALGO_EDF then edf_pick_next scheduler procs
      else custom_pick_next scheduler procs cpu_id now)"

definition time_slice_for :: "SchedulerState \<Rightarrow> ProcessRuntime \<Rightarrow> int" where
  "time_slice_for scheduler p =
     (case algorithm scheduler of
        ALGO_MLFQ \<Rightarrow> (if queue_level p = 0 then 2 else if queue_level p = 1 then 4 else 8)
      | ALGO_LOTTERY \<Rightarrow> 2
      | ALGO_EDF \<Rightarrow> 1
      | ALGO_CUSTOM \<Rightarrow> 4
      | ALGO_ALL \<Rightarrow> 1)"

definition scheduler_init :: "AlgorithmKind \<Rightarrow> int \<Rightarrow> int \<Rightarrow> u32 \<Rightarrow> SchedulerState" where
  "scheduler_init alg cpus nprocs sd =
     (let scheduler = zero_scheduler\<lparr>algorithm := alg, cpu_count := cpus, proc_count := nprocs, seed := sd\<rparr> in
      if alg = ALGO_MLFQ then mlfq_init scheduler
      else if alg = ALGO_LOTTERY then lottery_init scheduler
      else if alg = ALGO_EDF then edf_init scheduler
      else custom_init scheduler)"

definition scheduler_enqueue :: "SchedulerState \<Rightarrow> ProcessRuntime list \<Rightarrow> int \<Rightarrow> int \<Rightarrow> int \<Rightarrow> EnqueueReason \<Rightarrow>
    SchedulerState \<times> ProcessRuntime list" where
  "scheduler_enqueue scheduler procs i cpu_hint now reason =
     enqueue_process scheduler procs i cpu_hint now reason"

definition scheduler_pick_next :: "SchedulerState \<Rightarrow> ProcessRuntime list \<Rightarrow> int \<Rightarrow> int \<Rightarrow> int \<times> SchedulerState" where
  "scheduler_pick_next scheduler procs cpu_id now = pick_next_process scheduler procs cpu_id now"

definition scheduler_tick :: "SchedulerState \<Rightarrow> ProcessRuntime list \<Rightarrow> int \<Rightarrow>
    SchedulerState \<times> ProcessRuntime list" where
  "scheduler_tick scheduler procs now =
     (if algorithm scheduler = ALGO_MLFQ then mlfq_tick scheduler procs now
      else if algorithm scheduler = ALGO_CUSTOM then custom_tick scheduler procs now
      else (scheduler, procs))"

definition scheduler_time_slice :: "SchedulerState \<Rightarrow> ProcessRuntime \<Rightarrow> int" where
  "scheduler_time_slice scheduler p = time_slice_for scheduler p"

subsection \<open>Abstraction and invariant\<close>

definition sched_queued :: "SchedulerState \<Rightarrow> int multiset" where
  "sched_queued s = (case algorithm s of ALGO_MLFQ \<Rightarrow> mlfq_queued s | ALGO_LOTTERY \<Rightarrow> lottery_queued s
     | ALGO_EDF \<Rightarrow> edf_queued s | _ \<Rightarrow> custom_queued s)"

definition sched_avail :: "SchedulerState \<Rightarrow> int \<Rightarrow> int multiset" where
  "sched_avail s c = (case algorithm s of ALGO_MLFQ \<Rightarrow> mlfq_queued s | ALGO_LOTTERY \<Rightarrow> lottery_queued s
     | ALGO_EDF \<Rightarrow> edf_queued s | _ \<Rightarrow> custom_avail s c)"

definition sched_ok :: "SchedulerState \<Rightarrow> bool" where
  "sched_ok s = (case algorithm s of ALGO_MLFQ \<Rightarrow> mlfq_ok s | ALGO_LOTTERY \<Rightarrow> lottery_ok s
     | ALGO_EDF \<Rightarrow> edf_ok s | _ \<Rightarrow> custom_ok s)"

definition sched_fit :: "SchedulerState \<Rightarrow> ProcessRuntime list \<Rightarrow> bool" where
  "sched_fit s ps \<longleftrightarrow> (algorithm s = ALGO_LOTTERY \<longrightarrow> ticket_sum ps \<le> INT_MAX)"

lemma sched_fit_cong:
  assumes "map spec ps = map spec qs" "same_kind s t"
  shows "sched_fit s ps = sched_fit t qs"
proof -
  have "map (\<lambda>p. tickets (spec p)) ps = map (\<lambda>p. tickets (spec p)) qs"
    using arg_cong [OF assms(1), of "map tickets"] by (simp add: o_def)
  then show ?thesis using assms(2) by (simp add: sched_fit_def ticket_sum_def same_kind_def)
qed

lemmas sched_view_defs = sched_queued_def sched_avail_def sched_ok_def

subsection \<open>The dispatcher meets the contract\<close>

lemma policy_enqueue_ok:
  assumes "sched_ok s" "procs_ok ps" "0 \<le> i" "i < int (length ps)" "size (sched_queued s) < 128"
    "policy_enqueue s ps i h now r = (s', ps')"
  shows "sched_ok s' \<and> same_kind s' s \<and> procs_ok ps' \<and> same_view ps' ps \<and>
    sched_queued s' = add_mset i (sched_queued s)"
proof (cases "algorithm s")
  case ALGO_MLFQ
  then show ?thesis using assms mlfq_pol.enq_ok [of s ps i now r s' ps'] mlfq_pol.enq_queued [of s ps i now r s' ps']
    by (simp add: sched_view_defs policy_enqueue_def same_kind_def)
next
  case ALGO_LOTTERY
  then show ?thesis using assms lottery_pol.enq_ok [of s ps i s' ps'] lottery_pol.enq_queued [of s ps i s' ps']
    by (simp add: sched_view_defs policy_enqueue_def same_kind_def)
next
  case ALGO_EDF
  then show ?thesis using assms edf_pol.enq_ok [of s ps i s' ps'] edf_pol.enq_queued [of s ps i s' ps']
    by (simp add: sched_view_defs policy_enqueue_def same_kind_def)
next
  case ALGO_CUSTOM
  then show ?thesis using assms custom_enqueue_ok [of s ps i h s' ps']
    by (simp add: sched_view_defs policy_enqueue_def same_kind_def)
next
  case ALGO_ALL
  then show ?thesis using assms custom_enqueue_ok [of s ps i h s' ps']
    by (simp add: sched_view_defs policy_enqueue_def same_kind_def)
qed

interpretation sched: scheduling_policy policy_enqueue scheduler_pick_next scheduler_tick
  sched_queued sched_avail sched_ok sched_fit
proof (unfold_locales, goal_cases)
  case 1 then show ?case using policy_enqueue_ok by blast
next
  case 2 then show ?case using policy_enqueue_ok by blast
next
  case (3 s ps c now x s')
  show ?case
    by (cases "algorithm s")
      (use 3 mlfq_pol.pick_ok [where s = s and c = c and x = x and s' = s'] lottery_pol.pick_ok [where s = s and ps = ps and c = c and x = x and s' = s']
         edf_pol.pick_ok [where s = s and ps = ps and c = c and x = x and s' = s']
         custom_pol.pick_ok [where s = s and ps = ps and c = c and x = x and s' = s'] in
        \<open>auto simp: scheduler_pick_next_def pick_next_process_def sched_ok_def same_kind_def\<close>)
next
  case (4 s ps c now x s')
  show ?case
    by (cases "algorithm s")
      (use 4 mlfq_pol.pick_none [where s = s and ps = ps and c = c and x = x and s' = s'] lottery_pol.pick_none [where s = s and ps = ps and c = c and x = x and s' = s']
         edf_pol.pick_none [where s = s and ps = ps and c = c and x = x and s' = s']
         custom_pol.pick_none [where s = s and ps = ps and c = c and x = x and s' = s'] in
        \<open>simp_all add: scheduler_pick_next_def pick_next_process_def sched_view_defs sched_fit_def\<close>)
next
  case (5 s ps c now x s')
  show ?case
    by (cases "algorithm s")
      (use 5 mlfq_pol.pick_ok [where s = s and c = c and x = x and s' = s'] lottery_pol.pick_ok [where s = s and ps = ps and c = c and x = x and s' = s']
         edf_pol.pick_ok [where s = s and ps = ps and c = c and x = x and s' = s']
         custom_pol.pick_ok [where s = s and ps = ps and c = c and x = x and s' = s']
         mlfq_pol.pick_some [where s = s and c = c and x = x and s' = s'] lottery_pol.pick_some [where s = s and ps = ps and c = c and x = x and s' = s']
         edf_pol.pick_some [where s = s and ps = ps and c = c and x = x and s' = s']
         custom_pol.pick_some [where s = s and ps = ps and c = c and x = x and s' = s'] in
        \<open>auto simp: scheduler_pick_next_def pick_next_process_def sched_view_defs same_kind_def\<close>)
next
  case (6 s ps now s' ps')
  show ?case
    by (cases "algorithm s")
      (use 6 mlfq_tick_ok [of s ps now s' ps'] custom_tick_ok [of s ps now s' ps'] in
        \<open>auto simp: scheduler_tick_def sched_view_defs same_kind_def\<close>)
next
  case (7 s x)
  show ?case
    by (cases "algorithm s")
      (use 7 mlfq_pol.avail_covers [of s x] lottery_pol.avail_covers [of s x] edf_pol.avail_covers [of s x]
         custom_pol.avail_covers [of s x] in \<open>simp_all add: sched_view_defs\<close>)
qed

text \<open>The shared queues of the first three policies only shrink, and a custom pick touches the queue
  of its own CPU alone.\<close>

lemma sched_pick_avail:
  assumes "sched_ok s" "scheduler_pick_next s ps c now = (x, s')" "0 \<le> c" "c < cpu_count s" "0 \<le> x"
    "0 \<le> d" "d < cpu_count s"
  shows "sched_avail s' d \<subseteq># sched_avail s d"
proof (cases "algorithm s \<in> {ALGO_MLFQ, ALGO_LOTTERY, ALGO_EDF}")
  case True
  then have "sched_avail s d = sched_queued s" "sched_avail s' d = sched_queued s'"
    using sched.pick_ok [OF assms(1-4)] by (auto simp: sched_view_defs same_kind_def)
  then show ?thesis using sched.pick_some [OF assms(1-5)] by simp
next
  case False
  then have a: "sched_ok s = custom_ok s" "algorithm s \<in> {ALGO_CUSTOM, ALGO_ALL}"
    "scheduler_pick_next s ps c now = custom_pick_next s ps c now"
    by (cases "algorithm s"; simp add: sched_view_defs scheduler_pick_next_def pick_next_process_def)+
  then have "sched_avail s d = custom_avail s d" "sched_avail s' d = custom_avail s' d"
    using sched.pick_ok [OF assms(1-4)] by (auto simp: sched_view_defs same_kind_def)
  with custom_pick_avail [of s c d ps now] assms a show ?thesis by simp
qed

interpretation sched_wc: conserving_policy policy_enqueue scheduler_pick_next scheduler_tick
  sched_queued sched_avail sched_ok sched_fit
  by unfold_locales (rule sched_pick_avail)

text \<open>A fresh scheduler is well formed and has nothing queued.\<close>

lemma scheduler_init_ok:
  assumes "1 \<le> n" "n \<le> 8"
  shows "sched_ok (scheduler_init alg n m sd)" and "sched_queued (scheduler_init alg n m sd) = {#}"
    and "algorithm (scheduler_init alg n m sd) = alg" and "cpu_count (scheduler_init alg n m sd) = n"
proof -
  let ?z = "zero_scheduler\<lparr>algorithm := alg, cpu_count := n, proc_count := m, seed := sd\<rparr>"
  have q: "mlfq_queues (mlfq (mlfq_init ?z)) = replicate 3 zero_queue"
    by (rule mlfq_init_queues) (simp add: zero_scheduler_def)
  have m: "mlfq_ok (mlfq_init ?z)" "mlfq_queued (mlfq_init ?z) = {#}"
    "algorithm (mlfq_init ?z) = alg" "cpu_count (mlfq_init ?z) = n"
    using assms q by (simp_all add: mlfq_ok_def mlfq_queued_def mlfq_list_def mlfq_init_def)
  have c8: "custom_queues (custom (custom_init ?z)) = replicate 8 zero_queue"
    by (simp add: custom_init_def zero_scheduler_def MAX_CPUS_def upd_nth_def eval_nat_numeral upt_rec)
  have c: "custom_ok (custom_init ?z)" "custom_queued (custom_init ?z) = {#}"
    "algorithm (custom_init ?z) = alg" "cpu_count (custom_init ?z) = n"
    using assms c8 by (simp_all add: custom_ok_def custom_queued_def custom_list_def custom_init_def)
  have l: "lottery_ok (lottery_init ?z)" "lottery_queued (lottery_init ?z) = {#}"
    "algorithm (lottery_init ?z) = alg" "cpu_count (lottery_init ?z) = n"
    using assms by (simp_all add: lottery_ok_def lottery_queued_def lottery_list_def lottery_init_def)
  have e: "edf_ok (edf_init ?z)" "edf_queued (edf_init ?z) = {#}"
    "algorithm (edf_init ?z) = alg" "cpu_count (edf_init ?z) = n"
    using assms by (simp_all add: edf_ok_def edf_queued_def edf_list_def edf_init_def)
  show "sched_ok (scheduler_init alg n m sd)" "sched_queued (scheduler_init alg n m sd) = {#}"
    "algorithm (scheduler_init alg n m sd) = alg" "cpu_count (scheduler_init alg n m sd) = n"
    using m c l e by (cases alg; simp add: scheduler_init_def sched_view_defs Let_def)+
qed

end
