(* ===== verification/Simulator.thy ===== *)
theory Simulator
  imports Sched_Dispatch
begin

text \<open>
  The simulation engine, \<^verbatim>\<open>run_simulation\<close> of \<^verbatim>\<open>src/core/simulator.c\<close>. Its local
  variables are the record \<open>SimState\<close>; each inner \<open>for\<close> loop is a \<^const>\<open>fold\<close> of its body
  over the index range, in the order of the code: arrivals, I/O, the policy's hook, waiting times,
  dispatch, timeline, execution. The loop over the ticks is a function with the measure
  \<open>max_ticks - tick\<close>, which returns as soon as every process is done.
\<close>

record SimState =
  scheduler :: SchedulerState
  procs :: "ProcessRuntime list"
  cpus :: "CpuState list"
  busy :: int
  slot_array :: "int list"

subsection \<open>Helpers\<close>

definition all_done :: "ProcessRuntime list \<Rightarrow> int \<Rightarrow> bool" where
  "all_done ps n = list_all (\<lambda>p. pstate p = PROC_DONE) (take (nat n) ps)"

text \<open>The index of a slot is an \<open>int\<close>. When its product overflows C leaves the write undefined, and here it is lost.\<close>

definition record_timeline :: "int \<Rightarrow> CpuState list \<Rightarrow> ProcessRuntime list \<Rightarrow> int \<Rightarrow> int list \<Rightarrow> int list" where
  "record_timeline ncpus cs ps tick sl =
     fold (\<lambda>cpu sl.
         let slot = running_pid (cs ! cpu); k = to_int32 (tick * ncpus + int cpu) in
         if 0 \<le> k then sl[nat k := (if slot \<ge> 0 then pid (spec (ps ! nat slot)) else -1)] else sl)
       [0..<nat ncpus] sl"

definition initialize_runtime :: "Workload \<Rightarrow> int \<Rightarrow> ProcessRuntime list" where
  "initialize_runtime workload n =
     map (\<lambda>i. let sp = processes workload ! i in
         \<lparr>spec = sp, pstate = PROC_NEW, burst_index = 0,
          remaining_in_burst = duration (bursts sp ! 0), ready_since = arrival sp,
          first_run_tick = -1, completion_tick = -1, total_waiting = 0, runtime_ticks = 0,
          migrations = 0, last_cpu = -1, assigned_cpu = affinity sp, queue_level = 0\<rparr>)
       [0..<nat n]"

definition initialize_cpus :: "int \<Rightarrow> CpuState list" where
  "initialize_cpus ncpus = map (\<lambda>_. \<lparr>running_pid = -1, slice_used = 0\<rparr>) [0..<nat ncpus]"

definition algorithm_kind_name :: "AlgorithmKind \<Rightarrow> string" where
  "algorithm_kind_name kind =
     (case kind of ALGO_MLFQ \<Rightarrow> ''mlfq'' | ALGO_LOTTERY \<Rightarrow> ''lottery'' | ALGO_EDF \<Rightarrow> ''edf''
      | ALGO_CUSTOM \<Rightarrow> ''custom'' | ALGO_ALL \<Rightarrow> ''all'')"

definition collect_metrics :: "SimulationMetrics \<Rightarrow> ProcessRuntime list \<Rightarrow> int \<Rightarrow> int \<Rightarrow> int \<Rightarrow> int \<Rightarrow> SimulationMetrics" where
  "collect_metrics m ps n ticks ncpus busy_count =
     (let ps = take (nat n) ps;
          waiting = sum_list (map total_waiting ps);
          turnaround = sum_list (map (\<lambda>p. completion_tick p - arrival (spec p)) ps);
          response = sum_list (map (\<lambda>p. first_run_tick p - arrival (spec p)) ps);
          misses = length (filter (\<lambda>p. deadline (spec p) \<ge> 0 \<and> completion_tick p > deadline (spec p)) ps);
          migr = sum_list (map migrations ps);
          ticks1 = (if ticks > 0 then ticks else 1) in
      m\<lparr>total_ticks := ticks, completed := n, deadline_misses := int misses, busy_ticks := busy_count,
        m_migrations := migr,
        avg_waiting := of_int waiting / of_int n,
        avg_turnaround := of_int turnaround / of_int n,
        avg_response := of_int response / of_int n,
        throughput := of_int n / of_int ticks1,
        cpu_utilization := of_int busy_count / of_int (to_int32 (ticks1 * ncpus))\<rparr>)"

subsection \<open>One tick\<close>

text \<open>The body of the arrival loop.\<close>

definition arrive_step :: "int \<Rightarrow> nat \<Rightarrow> SchedulerState \<times> ProcessRuntime list \<Rightarrow> SchedulerState \<times> ProcessRuntime list" where
  "arrive_step tick i st =
     (case st of (s, ps) \<Rightarrow>
        if pstate (ps ! i) = PROC_NEW \<and> arrival (spec (ps ! i)) \<le> tick
        then scheduler_enqueue s ps (int i) (assigned_cpu (ps ! i)) tick ENQUEUE_NEW
        else (s, ps))"

text \<open>The body of the I/O loop.\<close>

definition io_step :: "int \<Rightarrow> nat \<Rightarrow> SchedulerState \<times> ProcessRuntime list \<Rightarrow> SchedulerState \<times> ProcessRuntime list" where
  "io_step tick i st =
     (case st of (s, ps) \<Rightarrow>
        if pstate (ps ! i) = PROC_BLOCKED then
          (let p = (ps ! i)\<lparr>remaining_in_burst := remaining_in_burst (ps ! i) - 1\<rparr> in
           if remaining_in_burst p \<le> 0 then
             (let p = p\<lparr>burst_index := burst_index p + 1\<rparr> in
              if burst_index p \<ge> burst_count (spec p)
              then (s, ps[i := p\<lparr>pstate := PROC_DONE, completion_tick := tick\<rparr>])
              else
                (let p = p\<lparr>remaining_in_burst := duration (bursts (spec p) ! nat (burst_index p))\<rparr> in
                 scheduler_enqueue s (ps[i := p]) (int i) (assigned_cpu p) tick ENQUEUE_IO_COMPLETE))
           else (s, ps[i := p]))
        else (s, ps))"

text \<open>The body of the waiting-time loop.\<close>

definition wait_step :: "nat \<Rightarrow> ProcessRuntime list \<Rightarrow> ProcessRuntime list" where
  "wait_step i ps =
     (if pstate (ps ! i) = PROC_READY
      then ps[i := (ps ! i)\<lparr>total_waiting := total_waiting (ps ! i) + 1\<rparr>] else ps)"

text \<open>The body of the dispatch loop: an idle CPU takes the process its policy picks.\<close>

definition start_running :: "int \<Rightarrow> int \<Rightarrow> ProcessRuntime \<Rightarrow> ProcessRuntime" where
  "start_running tick c p =
     p\<lparr>pstate := PROC_RUNNING,
       first_run_tick := (if first_run_tick p < 0 then tick else first_run_tick p),
       migrations := (if last_cpu p \<ge> 0 \<and> last_cpu p \<noteq> c then migrations p + 1 else migrations p),
       last_cpu := c\<rparr>"

definition dispatch_step :: "int \<Rightarrow> nat \<Rightarrow> SchedulerState \<times> ProcessRuntime list \<times> CpuState list \<Rightarrow>
    SchedulerState \<times> ProcessRuntime list \<times> CpuState list" where
  "dispatch_step tick i st =
     (case st of (s, ps, cs) \<Rightarrow>
        if running_pid (cs ! i) < 0 then
          (let (x, s') = scheduler_pick_next s ps (int i) tick in
           if x \<ge> 0 then
             (s', upd_proc x (start_running tick (int i)) ps, cs[i := \<lparr>running_pid = x, slice_used = 0\<rparr>])
           else (s', ps, cs))
        else (s, ps, cs))"

text \<open>The body of the execution loop.\<close>

definition run_step :: "int \<Rightarrow> nat \<Rightarrow> SchedulerState \<times> ProcessRuntime list \<times> CpuState list \<times> int \<Rightarrow>
    SchedulerState \<times> ProcessRuntime list \<times> CpuState list \<times> int" where
  "run_step tick i st =
     (case st of (s, ps, cs, bsy) \<Rightarrow>
        let x = running_pid (cs ! i) in
        if x < 0 then (s, ps, cs, bsy)
        else
          (let p = (ps ! nat x)\<lparr>runtime_ticks := runtime_ticks (ps ! nat x) + 1,
                                remaining_in_burst := remaining_in_burst (ps ! nat x) - 1\<rparr>;
               used = slice_used (cs ! i) + 1;
               idle = \<lparr>running_pid = -1, slice_used = 0\<rparr> in
           if remaining_in_burst p \<le> 0 then
             (let p = p\<lparr>burst_index := burst_index p + 1\<rparr>;
                  p = (if burst_index p \<ge> burst_count (spec p)
                       then p\<lparr>pstate := PROC_DONE, completion_tick := tick + 1\<rparr>
                       else p\<lparr>pstate := PROC_BLOCKED,
                              remaining_in_burst := duration (bursts (spec p) ! nat (burst_index p))\<rparr>) in
              (s, ps[nat x := p], cs[i := idle], bsy + 1))
           else if used \<ge> scheduler_time_slice s p then
             (let (s', ps') = scheduler_enqueue s (ps[nat x := p]) x (int i) (tick + 1) ENQUEUE_PREEMPT in
              (s', ps', cs[i := idle], bsy + 1))
           else (s, ps[nat x := p], cs[i := (cs ! i)\<lparr>slice_used := used\<rparr>], bsy + 1)))"

text \<open>The body of the tick loop up to the \<open>all_done\<close> test.\<close>

definition sim_tick :: "int \<Rightarrow> int \<Rightarrow> int \<Rightarrow> SimState \<Rightarrow> SimState" where
  "sim_tick nprocs ncpus tick st =
     (let (s, ps) = fold (arrive_step tick) [0..<nat nprocs] (scheduler st, procs st);
          (s, ps) = fold (io_step tick) [0..<nat nprocs] (s, ps);
          (s, ps) = scheduler_tick s ps tick;
          ps = fold wait_step [0..<nat nprocs] ps;
          (s, ps, cs) = fold (dispatch_step tick) [0..<nat ncpus] (s, ps, cpus st);
          sl = record_timeline ncpus cs ps tick (slot_array st);
          (s, ps, cs, bsy) = fold (run_step tick) [0..<nat ncpus] (s, ps, cs, busy st) in
      \<lparr>scheduler = s, procs = ps, cpus = cs, busy = bsy, slot_array = sl\<rparr>)"

text \<open>The tick loop: the number of ticks simulated, and the state it ends in.\<close>

function sim_loop :: "int \<Rightarrow> int \<Rightarrow> int \<Rightarrow> int \<Rightarrow> SimState \<Rightarrow> int \<times> SimState" where
  "sim_loop nprocs ncpus limit tick st =
     (if tick < limit then
        (let st' = sim_tick nprocs ncpus tick st in
         if all_done (procs st') nprocs then (tick + 1, st')
         else sim_loop nprocs ncpus limit (tick + 1) st')
      else (limit, st))"
  by pat_completeness auto
termination
  by (relation "measure (\<lambda>(_, _, limit, tick, _). nat (limit - tick))") auto

text \<open>The timeline: \<open>malloc\<close> returns memory with whatever it holds, and the loop that marks the slots as idle counts to
  the product of two \<open>int\<close>s, which may overflow; the size of the allocation is computed in 64 bits.\<close>

definition timeline_bytes :: "SimulationConfig \<Rightarrow> u64" where
  "timeline_bytes config = 4 * word_of_int (c_cpu_count config) * word_of_int (max_ticks config)"

definition initial_slots :: "(nat \<Rightarrow> int) \<Rightarrow> SimulationConfig \<Rightarrow> int list" where
  "initial_slots mem config =
     map (\<lambda>i. if int i < to_int32 (c_cpu_count config * max_ticks config) then -1 else mem i)
       [0..<nat (c_cpu_count config * max_ticks config)]"

definition initial_state :: "(nat \<Rightarrow> int) \<Rightarrow> Workload \<Rightarrow> SimulationConfig \<Rightarrow> AlgorithmKind \<Rightarrow> SimState" where
  "initial_state mem workload config alg =
     \<lparr>scheduler = scheduler_init alg (c_cpu_count config) (process_count workload) (c_seed config),
      procs = initialize_runtime workload (process_count workload),
      cpus = initialize_cpus (c_cpu_count config),
      busy = 0,
      slot_array = initial_slots mem config\<rparr>"

definition initial_metrics :: "SimulationConfig \<Rightarrow> AlgorithmKind \<Rightarrow> SimulationMetrics" where
  "initial_metrics config alg =
     \<lparr>m_algorithm = alg, algorithm_name = algorithm_kind_name alg, m_cpu_count = c_cpu_count config,
      m_seed = c_seed config, total_ticks = 0, completed = 0, deadline_misses = 0, busy_ticks = 0,
      m_migrations = 0, throughput = 0, cpu_utilization = 0, avg_waiting = 0, avg_turnaround = 0,
      avg_response = 0\<rparr>"

text \<open>\<open>malloc\<close> returns the contents of the memory it gives out for a number of bytes, or fails; \<^const>\<open>None\<close> is the
  return value -1. The final process table is returned beside the result, for the statements about
  it; the code reads its metrics from it and drops it.\<close>

definition run_simulation :: "(u64 \<Rightarrow> (nat \<Rightarrow> int) option) \<Rightarrow> Workload \<Rightarrow> SimulationConfig \<Rightarrow> AlgorithmKind \<Rightarrow>
    (SimulationResult \<times> ProcessRuntime list) option" where
  "run_simulation malloc workload config alg =
     (case malloc (timeline_bytes config) of None \<Rightarrow> None
      | Some mem \<Rightarrow>
        (let n = process_count workload;
             (ticks, st) = sim_loop n (c_cpu_count config) (max_ticks config) 0 (initial_state mem workload config alg) in
         Some (\<lparr>metrics = collect_metrics (initial_metrics config alg) (procs st) n ticks (c_cpu_count config) (busy st),
                timeline = \<lparr>tick_count = ticks, tl_cpu_count = c_cpu_count config, slots = slot_array st\<rparr>\<rparr>,
               procs st)))"

end
