(* ===== verification/Sim_Inv.thy ===== *)
theory Sim_Inv
  imports Simulator
begin

text \<open>
  The invariant of the simulation engine and its preservation by every loop body of a tick.
  \<open>proc_inv\<close> ties a process's state to its position in its burst script and its CPU accounting;
  \<open>time_inv\<close> orders its time stamps; \<open>core_inv\<close> says that the processes queued in the
  scheduler are exactly the READY ones, each once, and the processes on the CPUs exactly the RUNNING
  ones, each once. So no process is lost, queued twice or run on two CPUs.
\<close>

subsection \<open>Well-formed workloads\<close>

definition wf_spec :: "ProcessSpec \<Rightarrow> bool" where
  "wf_spec sp \<longleftrightarrow> 1 \<le> burst_count sp \<and> burst_count sp \<le> 32 \<and> length (bursts sp) = 32 \<and>
     (\<forall>k < nat (burst_count sp). 1 \<le> duration (bursts sp ! k) \<and>
        btype (bursts sp ! k) = (if even k then BURST_CPU else BURST_IO)) \<and>
     1 \<le> tickets sp \<and> 0 \<le> arrival sp \<and> 1 \<le> pid sp"

definition wf_workload :: "Workload \<Rightarrow> bool" where
  "wf_workload w \<longleftrightarrow> 1 \<le> process_count w \<and> process_count w \<le> 128 \<and>
     length (processes w) = 128 \<and> (\<forall>i < nat (process_count w). wf_spec (processes w ! i))"

text \<open>CPU time asked for by the first \<open>k\<close> bursts, and by the whole script.\<close>

definition cpu_work :: "ProcessSpec \<Rightarrow> nat \<Rightarrow> int" where
  "cpu_work sp k = (\<Sum>b \<leftarrow> take k (bursts sp). if btype b = BURST_CPU then duration b else 0)"

definition cpu_demand :: "ProcessSpec \<Rightarrow> int" where
  "cpu_demand sp = cpu_work sp (nat (burst_count sp))"

text \<open>Ticks, CPU and I/O, in the bursts from position \<open>k\<close> on.\<close>

definition work_from :: "ProcessSpec \<Rightarrow> nat \<Rightarrow> int" where
  "work_from sp k = (\<Sum>b \<leftarrow> drop k (take (nat (burst_count sp)) (bursts sp)). duration b)"

subsection \<open>Invariants\<close>

definition proc_inv :: "ProcessRuntime \<Rightarrow> bool" where
  "proc_inv p \<longleftrightarrow> wf_spec (spec p) \<and> 0 \<le> burst_index p \<and>
     (if pstate p = PROC_DONE
      then burst_index p = burst_count (spec p) \<and> runtime_ticks p = cpu_demand (spec p)
      else burst_index p < burst_count (spec p) \<and> 1 \<le> remaining_in_burst p \<and>
        remaining_in_burst p \<le> duration (bursts (spec p) ! nat (burst_index p)) \<and>
        (pstate p = PROC_BLOCKED \<longleftrightarrow> odd (nat (burst_index p))) \<and>
        (pstate p = PROC_NEW \<longrightarrow> burst_index p = 0 \<and> remaining_in_burst p = duration (bursts (spec p) ! 0)) \<and>
        runtime_ticks p = cpu_work (spec p) (nat (burst_index p)) +
          (if even (nat (burst_index p))
           then duration (bursts (spec p) ! nat (burst_index p)) - remaining_in_burst p else 0))"

text \<open>\<open>now\<close> bounds the arrivals seen, \<open>b\<close> the ticks in which a process may have run.\<close>

definition time_inv :: "int \<Rightarrow> int \<Rightarrow> ProcessRuntime \<Rightarrow> bool" where
  "time_inv now b p \<longleftrightarrow>
     (pstate p \<noteq> PROC_NEW \<longrightarrow> arrival (spec p) \<le> now) \<and>
     (first_run_tick p = -1 \<or> arrival (spec p) \<le> first_run_tick p \<and> first_run_tick p < b) \<and>
     (pstate p \<in> {PROC_RUNNING, PROC_BLOCKED, PROC_DONE} \<longrightarrow> 0 \<le> first_run_tick p) \<and>
     (pstate p = PROC_DONE \<longrightarrow> first_run_tick p < completion_tick p \<and> completion_tick p \<le> b) \<and>
     0 \<le> total_waiting p"

definition pinv :: "int \<Rightarrow> int \<Rightarrow> ProcessRuntime \<Rightarrow> bool" where
  "pinv now b p \<longleftrightarrow> proc_inv p \<and> time_inv now b p"

definition idset :: "ProcState \<Rightarrow> ProcessRuntime list \<Rightarrow> nat set" where
  "idset st ps = {i. i < length ps \<and> pstate (ps ! i) = st}"

definition ids :: "ProcState \<Rightarrow> ProcessRuntime list \<Rightarrow> int multiset" where
  "ids st ps = image_mset int (mset_set (idset st ps))"

text \<open>The processes on the CPUs.\<close>

definition cpu_ids :: "CpuState list \<Rightarrow> int multiset" where
  "cpu_ids cs = filter_mset (\<lambda>x. 0 \<le> x) (mset (map running_pid cs))"

definition core_inv :: "int \<Rightarrow> int \<Rightarrow> nat \<Rightarrow> SchedulerState \<Rightarrow> ProcessRuntime list \<Rightarrow> int multiset \<Rightarrow> bool" where
  "core_inv now b n s ps R \<longleftrightarrow> sched_ok s \<and> procs_ok ps \<and> length ps = n \<and> n \<le> 128 \<and>
     (\<forall>p \<in> set ps. pinv now b p) \<and> sched_queued s = ids PROC_READY ps \<and> R = ids PROC_RUNNING ps"

text \<open>Work still to be simulated for a process: the rest of its burst and the later bursts.\<close>

definition work :: "ProcessRuntime \<Rightarrow> int" where
  "work p = (if pstate p = PROC_DONE then 0
     else remaining_in_burst p + work_from (spec p) (Suc (nat (burst_index p))))"

definition total_work :: "ProcessRuntime list \<Rightarrow> int" where
  "total_work ps = sum_list (map work ps)"

text \<open>CPU time used by the processes whose description satisfies \<open>Q\<close>, and by all of them.\<close>

definition runtime_where :: "(ProcessSpec \<Rightarrow> bool) \<Rightarrow> ProcessRuntime list \<Rightarrow> int" where
  "runtime_where Q ps = (\<Sum>p \<leftarrow> ps. if Q (spec p) then runtime_ticks p else 0)"

definition total_runtime :: "ProcessRuntime list \<Rightarrow> int" where
  "total_runtime ps = sum_list (map runtime_ticks ps)"

text \<open>One tick of CPU time.\<close>

definition ran :: "ProcessRuntime \<Rightarrow> ProcessRuntime" where
  "ran p = p\<lparr>runtime_ticks := runtime_ticks p + 1, remaining_in_burst := remaining_in_burst p - 1\<rparr>"

subsection \<open>Burst scripts\<close>

lemma cpu_work_Suc:
  "k < length (bursts sp) \<Longrightarrow> cpu_work sp (Suc k) = cpu_work sp k +
     (if btype (bursts sp ! k) = BURST_CPU then duration (bursts sp ! k) else 0)"
  by (simp add: cpu_work_def take_Suc_conv_app_nth)

lemma work_from_Suc:
  "k < nat (burst_count sp) \<Longrightarrow> nat (burst_count sp) \<le> length (bursts sp) \<Longrightarrow>
     work_from sp k = duration (bursts sp ! k) + work_from sp (Suc k)"
  by (simp add: work_from_def Cons_nth_drop_Suc [symmetric])

lemma work_from_end: "nat (burst_count sp) \<le> k \<Longrightarrow> work_from sp k = 0"
  by (simp add: work_from_def)

lemma work_from_nonneg: "wf_spec sp \<Longrightarrow> 0 \<le> work_from sp k"
  unfolding work_from_def
proof (rule sum_list_nonneg)
  fix x assume wf: "wf_spec sp" and "x \<in> set (map duration (drop k (take (nat (burst_count sp)) (bursts sp))))"
  then obtain b where b: "b \<in> set (take (nat (burst_count sp)) (bursts sp))" "x = duration b"
    using in_set_dropD by fastforce
  then obtain j where "j < nat (burst_count sp)" "b = bursts sp ! j"
    by (auto simp: in_set_conv_nth)
  with wf b show "0 \<le> x" by (auto simp: wf_spec_def)
qed

lemma wf_burst:
  assumes "wf_spec sp" "0 \<le> k" "k < burst_count sp"
  shows "1 \<le> duration (bursts sp ! nat k)"
    and "btype (bursts sp ! nat k) = (if even (nat k) then BURST_CPU else BURST_IO)"
    and "nat k < length (bursts sp)" and "nat k < nat (burst_count sp)"
    and "nat (burst_count sp) \<le> length (bursts sp)"
proof -
  have k: "nat k < nat (burst_count sp)" using assms by simp
  with assms(1) show "1 \<le> duration (bursts sp ! nat k)"
    "btype (bursts sp ! nat k) = (if even (nat k) then BURST_CPU else BURST_IO)" "nat k < nat (burst_count sp)"
    unfolding wf_spec_def by blast+
  show "nat k < length (bursts sp)" "nat (burst_count sp) \<le> length (bursts sp)"
    using assms unfolding wf_spec_def by auto
qed

lemma work_nonneg: "proc_inv p \<Longrightarrow> 0 \<le> work p"
  using work_from_nonneg [of "spec p"] by (auto simp: proc_inv_def work_def)

lemma work_zero: "proc_inv p \<Longrightarrow> (work p = 0) = (pstate p = PROC_DONE)"
  using work_from_nonneg [of "spec p" "Suc (nat (burst_index p))"] by (auto simp: proc_inv_def work_def)

subsection \<open>What a policy cannot change\<close>

lemma pinv_view:
  assumes "sched_view p = sched_view q"
  shows "pinv now b p = pinv now b q" and "work p = work q" and "runtime_ticks p = runtime_ticks q"
  using sched_view_eqD [OF assms]
  by (simp_all add: pinv_def proc_inv_def time_inv_def work_def)

lemma view_all:
  assumes "same_view ps qs"
  shows "(\<forall>p \<in> set ps. pinv now b p) = (\<forall>p \<in> set qs. pinv now b p)"
    and "total_work ps = total_work qs" and "map runtime_ticks ps = map runtime_ticks qs"
    and "map spec ps = map spec qs" and "idset st ps = idset st qs" and "ids st ps = ids st qs"
proof -
  note len = same_view_length [OF assms] and nth = same_view_nth [OF assms]
  show "(\<forall>p \<in> set ps. pinv now b p) = (\<forall>p \<in> set qs. pinv now b p)"
    using len pinv_view(1) [OF nth] by (auto simp: all_set_conv_all_nth)
  show "total_work ps = total_work qs" unfolding total_work_def
    by (rule arg_cong [of _ _ sum_list], rule nth_equalityI) (use len pinv_view(2) [OF nth] in auto)
  show "map runtime_ticks ps = map runtime_ticks qs"
    by (rule nth_equalityI) (use len pinv_view(3) [OF nth] in auto)
  show "map spec ps = map spec qs"
    by (rule nth_equalityI) (use len sched_view_eqD(1) [OF nth] in auto)
  show i: "idset st ps = idset st qs" for st
    using len sched_view_eqD(2) [OF nth] by (auto simp: idset_def)
  show "ids st ps = ids st qs" by (simp add: ids_def i)
qed

subsection \<open>Process identifiers by state\<close>

lemma finite_idset [simp]: "finite (idset st ps)"
  by (simp add: idset_def)

lemma idset_update:
  "i < length ps \<Longrightarrow> idset st (ps[i := p]) =
     (if pstate p = st then insert i (idset st ps) else idset st ps - {i})"
  by (auto simp: idset_def nth_list_update)

lemma ids_same:
  "i < length ps \<Longrightarrow> pstate p = pstate (ps ! i) \<Longrightarrow> ids st (ps[i := p]) = ids st ps"
proof -
  assume "i < length ps" "pstate p = pstate (ps ! i)"
  then have "idset st (ps[i := p]) = idset st ps" by (auto simp: idset_def nth_list_update)
  then show ?thesis by (simp add: ids_def)
qed

lemma ids_enter:
  "i < length ps \<Longrightarrow> pstate (ps ! i) \<noteq> st \<Longrightarrow> pstate p = st \<Longrightarrow>
     ids st (ps[i := p]) = add_mset (int i) (ids st ps)"
  by (simp add: ids_def idset_update) (simp add: idset_def)

lemma ids_leave:
  "i < length ps \<Longrightarrow> pstate (ps ! i) = st \<Longrightarrow> pstate p \<noteq> st \<Longrightarrow>
     ids st ps = add_mset (int i) (ids st (ps[i := p]))"
proof -
  assume a: "i < length ps" "pstate (ps ! i) = st" "pstate p \<noteq> st"
  then have "i \<in> idset st ps" by (simp add: idset_def)
  from mset_set.remove [OF finite_idset this] a show ?thesis by (simp add: ids_def idset_update)
qed

lemma ids_other:
  "i < length ps \<Longrightarrow> pstate (ps ! i) \<noteq> st \<Longrightarrow> pstate p \<noteq> st \<Longrightarrow> ids st (ps[i := p]) = ids st ps"
  by (simp add: ids_def idset_update) (simp add: idset_def)

lemma size_ids: "size (ids st ps) = card (idset st ps)"
  by (simp add: ids_def)

lemma size_ids_le: "size (ids st ps) \<le> length ps"
  unfolding size_ids idset_def by (rule order_trans [OF card_mono [of "{..<length ps}"]]) auto

lemma size_ids_less: "i < length ps \<Longrightarrow> pstate (ps ! i) \<noteq> st \<Longrightarrow> size (ids st ps) < length ps"
proof -
  assume "i < length ps" "pstate (ps ! i) \<noteq> st"
  then have "idset st ps \<subset> {..<length ps}" by (auto simp: idset_def)
  from psubset_card_mono [OF _ this] show ?thesis by (simp add: size_ids)
qed

lemma mem_ids: "x \<in># ids st ps \<longleftrightarrow> 0 \<le> x \<and> x < int (length ps) \<and> pstate (ps ! nat x) = st"
proof -
  have "x \<in># ids st ps \<longleftrightarrow> (\<exists>i \<in> idset st ps. x = int i)" by (auto simp: ids_def)
  also have "\<dots> \<longleftrightarrow> 0 \<le> x \<and> x < int (length ps) \<and> pstate (ps ! nat x) = st"
    by (auto simp: idset_def intro: exI [of _ "nat x"])
  finally show ?thesis .
qed

lemma total_work_update: "i < length ps \<Longrightarrow> total_work (ps[i := p]) = total_work ps - work (ps ! i) + work p"
  by (simp add: total_work_def map_update sum_list_update)

lemma runtime_where_update:
  "i < length ps \<Longrightarrow> runtime_where Q (ps[i := p]) = runtime_where Q ps -
     (if Q (spec (ps ! i)) then runtime_ticks (ps ! i) else 0) + (if Q (spec p) then runtime_ticks p else 0)"
  by (simp add: runtime_where_def map_update sum_list_update)

lemma runtime_where_cong:
  assumes "map spec ps = map spec qs" "map runtime_ticks ps = map runtime_ticks qs"
  shows "runtime_where Q ps = runtime_where Q qs"
proof -
  have "runtime_where Q ps = (\<Sum>(sp, r) \<leftarrow> zip (map spec ps) (map runtime_ticks ps). if Q sp then r else 0)" for ps
    by (simp add: runtime_where_def zip_map_map zip_same_conv_map o_def)
  then show ?thesis using assms by simp
qed

lemma runtime_where_all: "runtime_where (\<lambda>_. True) ps = total_runtime ps"
  by (simp add: runtime_where_def total_runtime_def)

lemma map_runtime_update:
  "i < length ps \<Longrightarrow> runtime_ticks p = runtime_ticks (ps ! i) \<Longrightarrow> map runtime_ticks (ps[i := p]) = map runtime_ticks ps"
  by (rule map_update_nth)

lemma map_spec_update: "i < length ps \<Longrightarrow> spec p = spec (ps ! i) \<Longrightarrow> map spec (ps[i := p]) = map spec ps"
  by (rule map_update_nth)

lemma core_inv_nth: "core_inv now b n s ps R \<Longrightarrow> i < n \<Longrightarrow> pinv now b (ps ! i)"
  by (auto simp: core_inv_def)

lemma procs_ok_update:
  "procs_ok ps \<Longrightarrow> i < length ps \<Longrightarrow> queue_level p = queue_level (ps ! i) \<Longrightarrow> spec p = spec (ps ! i) \<Longrightarrow>
     procs_ok (ps[i := p])"
  unfolding procs_ok_def using set_update_subset_insert [of ps i p] by (metis insertE nth_mem subsetD)

subsection \<open>Enqueueing\<close>

text \<open>Whatever the policy, enqueueing a process that was not READY keeps the invariant; if it was
  running it leaves the set of running processes.\<close>

lemma enqueue_core:
  assumes core: "core_inv now b n s ps R" and i: "i < n" and st: "pstate (ps ! i) \<noteq> PROC_READY"
    and p: "spec p = spec (ps ! i)" "queue_level p = queue_level (ps ! i)"
    and pv: "pinv now b (p\<lparr>pstate := PROC_READY, ready_since := t\<rparr>)"
    and e: "scheduler_enqueue s (ps[i := p]) (int i) h t r = (s', ps')"
  shows "core_inv now b n s' ps' (if pstate (ps ! i) = PROC_RUNNING then R - {#int i#} else R)"
    and "same_kind s' s" and "same_view ps' (ps[i := p\<lparr>pstate := PROC_READY, ready_since := t\<rparr>])"
proof -
  let ?q = "p\<lparr>pstate := PROC_READY, ready_since := t\<rparr>"
  let ?ps = "ps[i := ?q]"
  have c: "sched_ok s" "procs_ok ps" "length ps = n" "n \<le> 128" "\<forall>p \<in> set ps. pinv now b p"
    "sched_queued s = ids PROC_READY ps" "R = ids PROC_RUNNING ps"
    using core by (auto simp: core_inv_def)
  have e': "policy_enqueue s ?ps (int i) h t r = (s', ps')"
    using e i c(3) by (simp add: scheduler_enqueue_def enqueue_process_def upd_proc_def)
  have ok: "procs_ok ?ps" using procs_ok_update [OF c(2), of i ?q] p i c(3) by simp
  have "size (sched_queued s) < 128" using size_ids_less [of i ps PROC_READY] i st c by simp
  from policy_enqueue_ok [OF c(1) ok _ _ this e'] i c(3)
  have E: "sched_ok s'" "same_kind s' s" "procs_ok ps'" "same_view ps' ?ps"
    "sched_queued s' = add_mset (int i) (sched_queued s)" by auto
  show "same_kind s' s" "same_view ps' ?ps" using E by auto
  note V = view_all [OF E(4)]
  have "\<forall>p \<in> set ?ps. pinv now b p"
    using c(5) pv set_update_subset_insert [of ps i ?q] by auto
  moreover have "sched_queued s' = ids PROC_READY ?ps"
    using E(5) c(6) ids_enter [of i ps PROC_READY ?q] i c(3) st by simp
  moreover have "ids PROC_RUNNING ?ps = (if pstate (ps ! i) = PROC_RUNNING then R - {#int i#} else R)"
    using ids_leave [of i ps PROC_RUNNING ?q] ids_other [of i ps PROC_RUNNING ?q] i c(3,7) by auto
  ultimately show "core_inv now b n s' ps' (if pstate (ps ! i) = PROC_RUNNING then R - {#int i#} else R)"
    unfolding core_inv_def using E(1,3) c(3,4) V(1,6) same_view_length [OF E(4)] by auto
qed

text \<open>Replacing a process by one in the same state keeps the invariant.\<close>

lemma core_update_same:
  assumes "core_inv now b n s ps R" "i < n" "pinv now b p" "pstate p = pstate (ps ! i)"
    "spec p = spec (ps ! i)" "queue_level p = queue_level (ps ! i)"
  shows "core_inv now b n s (ps[i := p]) R"
  using assms set_update_subset_insert [of ps i p]
  by (auto simp: core_inv_def ids_same procs_ok_update)

text \<open>So does moving a process out of a state no queue holds into another such state.\<close>

lemma core_update_move:
  assumes "core_inv now b n s ps R" "i < n" "pinv now b p" "pstate (ps ! i) \<noteq> PROC_READY"
    "pstate p \<noteq> PROC_READY" "pstate p \<noteq> PROC_RUNNING"
    "spec p = spec (ps ! i)" "queue_level p = queue_level (ps ! i)"
  shows "core_inv now b n s (ps[i := p]) (if pstate (ps ! i) = PROC_RUNNING then R - {#int i#} else R)"
proof -
  have "ids PROC_READY (ps[i := p]) = ids PROC_READY ps"
    using assms by (intro ids_other) (auto simp: core_inv_def)
  moreover have "ids PROC_RUNNING (ps[i := p]) = (if pstate (ps ! i) = PROC_RUNNING then R - {#int i#} else R)"
    using ids_leave [of i ps PROC_RUNNING p] ids_other [of i ps PROC_RUNNING p] assms
    by (auto simp: core_inv_def)
  ultimately show ?thesis
    using assms set_update_subset_insert [of ps i p] by (auto simp: core_inv_def procs_ok_update)
qed

subsection \<open>One process through the loop bodies\<close>

lemma pinv_mono: "pinv now b p \<Longrightarrow> now \<le> now' \<Longrightarrow> b \<le> b' \<Longrightarrow> pinv now' b' p"
  by (auto simp: pinv_def time_inv_def)

lemma core_mono: "core_inv now b n s ps R \<Longrightarrow> now \<le> now' \<Longrightarrow> b \<le> b' \<Longrightarrow> core_inv now' b' n s ps R"
  by (auto simp: core_inv_def intro: pinv_mono)

lemma pinv_arrive:
  assumes "pinv now b p" "pstate p = PROC_NEW" "arrival (spec p) \<le> now"
  shows "pinv now b (p\<lparr>pstate := PROC_READY, ready_since := t\<rparr>)"
    and "work (p\<lparr>pstate := PROC_READY, ready_since := t\<rparr>) = work p"
  using assms by (auto simp: pinv_def proc_inv_def time_inv_def work_def)

lemma pinv_io_wait:
  assumes "pinv now b p" "pstate p = PROC_BLOCKED" "1 < remaining_in_burst p"
  defines "q \<equiv> p\<lparr>remaining_in_burst := remaining_in_burst p - 1\<rparr>"
  shows "pinv now b q" and "work q = work p - 1"
  using assms by (auto simp: pinv_def proc_inv_def time_inv_def work_def)

lemma pinv_advance:
  assumes "pinv now b p" "pstate p \<noteq> PROC_DONE"
  shows "cpu_work (spec p) (nat (burst_index p + 1)) = cpu_work (spec p) (nat (burst_index p)) +
      (if even (nat (burst_index p)) then duration (bursts (spec p) ! nat (burst_index p)) else 0)"
    and "burst_index p + 1 < burst_count (spec p) \<Longrightarrow>
      work_from (spec p) (Suc (nat (burst_index p))) =
        duration (bursts (spec p) ! nat (burst_index p + 1)) + work_from (spec p) (Suc (nat (burst_index p + 1)))"
    and "burst_count (spec p) \<le> burst_index p + 1 \<Longrightarrow> work_from (spec p) (Suc (nat (burst_index p))) = 0
        \<and> burst_index p + 1 = burst_count (spec p)"
    and "nat (burst_index p + 1) = Suc (nat (burst_index p))"
proof -
  have wf: "wf_spec (spec p)" and k: "0 \<le> burst_index p" "burst_index p < burst_count (spec p)"
    using assms by (auto simp: pinv_def proc_inv_def)
  show S: "nat (burst_index p + 1) = Suc (nat (burst_index p))" using k by simp
  show "cpu_work (spec p) (nat (burst_index p + 1)) = cpu_work (spec p) (nat (burst_index p)) +
      (if even (nat (burst_index p)) then duration (bursts (spec p) ! nat (burst_index p)) else 0)"
    unfolding S using wf_burst(2,3) [OF wf k] by (simp add: cpu_work_Suc)
  show "burst_index p + 1 < burst_count (spec p) \<Longrightarrow>
      work_from (spec p) (Suc (nat (burst_index p))) =
        duration (bursts (spec p) ! nat (burst_index p + 1)) + work_from (spec p) (Suc (nat (burst_index p + 1)))"
    using wf_burst(4,5) [OF wf, of "burst_index p + 1"] k S
      work_from_Suc [of "Suc (nat (burst_index p))" "spec p"] by simp
  show "burst_count (spec p) \<le> burst_index p + 1 \<Longrightarrow> work_from (spec p) (Suc (nat (burst_index p))) = 0
        \<and> burst_index p + 1 = burst_count (spec p)"
    using k by (simp add: work_from_end)
qed

lemma pinv_io_finish:
  assumes "pinv now now p" "pstate p = PROC_BLOCKED" "remaining_in_burst p \<le> 1"
    "burst_count (spec p) \<le> burst_index p + 1"
  defines "q \<equiv> p\<lparr>remaining_in_burst := remaining_in_burst p - 1, burst_index := burst_index p + 1,
    pstate := PROC_DONE, completion_tick := now\<rparr>"
  shows "pinv now now q" and "work q = work p - 1"
proof -
  have nd: "pstate p \<noteq> PROC_DONE" using assms(2) by simp
  note A = pinv_advance [OF assms(1) nd]
  from A(3) [OF assms(4)] A(1,4) assms show "pinv now now q" "work q = work p - 1"
    by (auto simp: pinv_def proc_inv_def time_inv_def work_def cpu_demand_def)
qed

lemma pinv_io_next:
  fixes t :: int
  assumes "pinv now b p" "pstate p = PROC_BLOCKED" "remaining_in_burst p \<le> 1"
    "burst_index p + 1 < burst_count (spec p)"
  defines "q \<equiv> p\<lparr>burst_index := burst_index p + 1,
    remaining_in_burst := duration (bursts (spec p) ! nat (burst_index p + 1)), pstate := PROC_READY, ready_since := t\<rparr>"
  shows "pinv now b q" and "work q = work p - 1"
proof -
  have nd: "pstate p \<noteq> PROC_DONE" using assms(2) by simp
  note A = pinv_advance [OF assms(1) nd]
  have "1 \<le> duration (bursts (spec p) ! nat (burst_index p + 1))"
    using wf_burst(1) [of "spec p" "burst_index p + 1"] assms by (auto simp: pinv_def proc_inv_def)
  with A(1,4) A(2) [OF assms(4)] assms show "pinv now b q" "work q = work p - 1"
    by (auto simp: pinv_def proc_inv_def time_inv_def work_def)
qed

lemma pinv_wait:
  assumes "pinv now b p"
  shows "pinv now b (p\<lparr>total_waiting := total_waiting p + 1\<rparr>)"
    and "work (p\<lparr>total_waiting := total_waiting p + 1\<rparr>) = work p"
  using assms by (auto simp: pinv_def proc_inv_def time_inv_def work_def)

lemma pinv_start:
  assumes "pinv now (now + 1) p" "pstate p = PROC_READY"
  shows "pinv now (now + 1) (start_running now c p)" and "work (start_running now c p) = work p"
  using assms by (auto simp: pinv_def proc_inv_def time_inv_def work_def start_running_def wf_spec_def)

lemma pinv_run:
  assumes "pinv now b p" "pstate p = PROC_RUNNING" "1 < remaining_in_burst p"
  shows "pinv now b (ran p)" and "work (ran p) = work p - 1"
    and "pinv now b ((ran p)\<lparr>pstate := PROC_READY, ready_since := t\<rparr>)"
    and "work ((ran p)\<lparr>pstate := PROC_READY, ready_since := t\<rparr>) = work p - 1"
  using assms by (auto simp: pinv_def proc_inv_def time_inv_def work_def ran_def)

lemma pinv_run_finish:
  assumes "pinv now b p" "b = now + 1" "pstate p = PROC_RUNNING" "remaining_in_burst p \<le> 1"
    "burst_count (spec p) \<le> burst_index p + 1"
  defines "q \<equiv> (ran p)\<lparr>burst_index := burst_index p + 1, pstate := PROC_DONE, completion_tick := now + 1\<rparr>"
  shows "pinv now b q" and "work q = work p - 1"
proof -
  have nd: "pstate p \<noteq> PROC_DONE" using assms(3) by simp
  note A = pinv_advance [OF assms(1) nd]
  from A(3) [OF assms(5)] A(1,4) assms show "pinv now b q" "work q = work p - 1"
    by (auto simp: pinv_def proc_inv_def time_inv_def work_def cpu_demand_def ran_def)
qed

lemma pinv_run_block:
  assumes "pinv now b p" "pstate p = PROC_RUNNING" "remaining_in_burst p \<le> 1"
    "burst_index p + 1 < burst_count (spec p)"
  defines "q \<equiv> (ran p)\<lparr>burst_index := burst_index p + 1, pstate := PROC_BLOCKED,
    remaining_in_burst := duration (bursts (spec p) ! nat (burst_index p + 1))\<rparr>"
  shows "pinv now b q" and "work q = work p - 1"
proof -
  have nd: "pstate p \<noteq> PROC_DONE" using assms(2) by simp
  note A = pinv_advance [OF assms(1) nd]
  have "1 \<le> duration (bursts (spec p) ! nat (burst_index p + 1))"
    using wf_burst(1) [of "spec p" "burst_index p + 1"] assms by (auto simp: pinv_def proc_inv_def)
  with A(1,4) A(2) [OF assms(4)] assms show "pinv now b q" "work q = work p - 1"
    by (auto simp: pinv_def proc_inv_def time_inv_def work_def ran_def)
qed

end
