(* ===== verification/Sim_Tick.thy ===== *)
theory Sim_Tick
  imports Sim_Inv
begin

text \<open>
  One tick of the simulator: each loop body keeps the invariant of \<open>Sim_Inv\<close>, accounts for the
  work it does, and makes progress. The last section puts the loops together.
\<close>

text \<open>The state between two ticks.\<close>

definition sim_inv :: "int \<Rightarrow> int \<Rightarrow> SimState \<Rightarrow> bool" where
  "sim_inv nprocs tick st \<longleftrightarrow>
     core_inv tick tick (nat nprocs) (scheduler st) (procs st) (cpu_ids (cpus st)) \<and>
     int (length (cpus st)) = cpu_count (scheduler st) \<and>
     busy st = total_runtime (procs st) \<and> busy st \<le> tick * int (length (cpus st))"

subsection \<open>Processes on CPUs\<close>

lemma cpu_ids_idle:
  assumes "i < length cs" "0 \<le> running_pid (cs ! i)" "running_pid c < 0"
  shows "cpu_ids (cs[i := c]) = cpu_ids cs - {#running_pid (cs ! i)#}"
  using assms nth_mem_mset [of i "map running_pid cs"]
  by (simp add: cpu_ids_def map_update mset_update filter_mset_add_mset)

lemma cpu_ids_start:
  assumes "i < length cs" "running_pid (cs ! i) < 0" "0 \<le> running_pid c"
  shows "cpu_ids (cs[i := c]) = add_mset (running_pid c) (cpu_ids cs)"
  using assms nth_mem_mset [of i "map running_pid cs"]
  by (simp add: cpu_ids_def map_update mset_update)

lemma cpu_ids_same:
  assumes "i < length cs" "running_pid c = running_pid (cs ! i)"
  shows "cpu_ids (cs[i := c]) = cpu_ids cs"
  using assms by (simp add: cpu_ids_def map_update_nth)

lemma cpu_ids_mem: "i < length cs \<Longrightarrow> 0 \<le> running_pid (cs ! i) \<Longrightarrow> running_pid (cs ! i) \<in># cpu_ids cs"
  by (simp add: cpu_ids_def)

lemma cpu_ids_nonempty: "cpu_ids cs \<noteq> {#} \<Longrightarrow> \<exists>i < length cs. 0 \<le> running_pid (cs ! i)"
  by (auto simp: cpu_ids_def filter_mset_eq_mempty_iff in_set_conv_nth)

subsection \<open>Arrivals\<close>

lemma arrive_step_core:
  assumes c: "core_inv t b n s ps R" and i: "i < n" and e: "arrive_step t i (s, ps) = (s', ps')"
  shows "core_inv t b n s' ps' R \<and> same_kind s' s \<and> map spec ps' = map spec ps \<and>
    total_work ps' = total_work ps \<and> map runtime_ticks ps' = map runtime_ticks ps \<and>
    idset PROC_NEW ps' = idset PROC_NEW ps - (if arrival (spec (ps ! i)) \<le> t then {i} else {})"
proof (cases "pstate (ps ! i) = PROC_NEW \<and> arrival (spec (ps ! i)) \<le> t")
  case True
  let ?p = "ps ! i" and ?q = "(ps ! i)\<lparr>pstate := PROC_READY, ready_since := t\<rparr>"
  have len: "length ps = n" using c by (simp add: core_inv_def)
  note v = pinv_arrive [OF core_inv_nth [OF c i] conjunct1 [OF True] conjunct2 [OF True]]
  have "scheduler_enqueue s (ps[i := ?p]) (int i) (assigned_cpu (ps ! i)) t ENQUEUE_NEW = (s', ps')"
    using e True by (simp add: arrive_step_def)
  from enqueue_core [OF c i _ _ _ v(1) this] True
  have E: "core_inv t b n s' ps' R" "same_kind s' s" "same_view ps' (ps[i := ?q])" by auto
  from view_all [OF E(3)] E(1,2) True v(2) len i show ?thesis
    by (simp add: total_work_update map_runtime_update map_spec_update idset_update)
next
  case False
  then show ?thesis using e c i by (auto simp: arrive_step_def idset_def core_inv_def)
qed

lemma arrivals_core:
  assumes c: "core_inv t b n s ps R" and e: "fold (arrive_step t) [0..<n] (s, ps) = (s', ps')"
  shows "core_inv t b n s' ps' R \<and> same_kind s' s \<and> map spec ps' = map spec ps \<and>
    total_work ps' = total_work ps \<and> map runtime_ticks ps' = map runtime_ticks ps \<and>
    (\<forall>j \<in> idset PROC_NEW ps'. t < arrival (spec (ps ! j)))"
proof -
  let ?P = "\<lambda>i st. core_inv t b n (fst st) (snd st) R \<and> same_kind (fst st) s \<and> map spec (snd st) = map spec ps \<and>
    total_work (snd st) = total_work ps \<and> map runtime_ticks (snd st) = map runtime_ticks ps \<and>
    (\<forall>j \<in> idset PROC_NEW (snd st). j < i \<longrightarrow> t < arrival (spec (ps ! j)))"
  have len: "length ps = n" using c by (simp add: core_inv_def)
  have "?P n (fold (arrive_step t) [0..<n] (s, ps))"
  proof (rule fold_range_inv [where P = ?P])
    show "?P 0 (s, ps)" using c by simp
  next
    fix i st assume i: "i < n" and P: "?P i st"
    obtain s1 ps1 where st: "st = (s1, ps1)" by force
    obtain s2 ps2 where e2: "arrive_step t i (s1, ps1) = (s2, ps2)" by force
    from arrive_step_core [OF _ i e2, of b R] P
    have S: "core_inv t b n s2 ps2 R" "same_kind s2 s1" "map spec ps2 = map spec ps1"
      "total_work ps2 = total_work ps1" "map runtime_ticks ps2 = map runtime_ticks ps1"
      "idset PROC_NEW ps2 = idset PROC_NEW ps1 - (if arrival (spec (ps1 ! i)) \<le> t then {i} else {})"
      by (auto simp: st)
    have "spec (ps1 ! i) = spec (ps ! i)"
      using P i len by (metis st length_map nth_map snd_conv)
    with S P show "?P (Suc i) (arrive_step t i st)"
      by (auto simp: st e2 less_Suc_eq intro: same_kind_trans split: if_splits)
  qed
  then show ?thesis using len by (auto simp: e idset_def core_inv_def)
qed

subsection \<open>Input and output\<close>

lemma io_step_core:
  assumes c: "core_inv t t n s ps R" and i: "i < n" and e: "io_step t i (s, ps) = (s', ps')"
  shows "core_inv t t n s' ps' R \<and> same_kind s' s \<and> map spec ps' = map spec ps \<and>
    total_work ps' = total_work ps - (if pstate (ps ! i) = PROC_BLOCKED then 1 else 0) \<and>
    map runtime_ticks ps' = map runtime_ticks ps \<and> idset PROC_NEW ps' = idset PROC_NEW ps \<and>
    (\<forall>j < n. j \<noteq> i \<longrightarrow> pstate (ps' ! j) = pstate (ps ! j))"
proof (cases "pstate (ps ! i) = PROC_BLOCKED")
  case True
  let ?p = "ps ! i"
  have len: "length ps = n" using c by (simp add: core_inv_def)
  note pv = core_inv_nth [OF c i]
  consider (wait) "1 < remaining_in_burst ?p"
    | (finish) "remaining_in_burst ?p \<le> 1" "burst_count (spec ?p) \<le> burst_index ?p + 1"
    | (next_burst) "remaining_in_burst ?p \<le> 1" "burst_index ?p + 1 < burst_count (spec ?p)" by linarith
  then show ?thesis
  proof cases
    case wait
    let ?q = "?p\<lparr>remaining_in_burst := remaining_in_burst ?p - 1\<rparr>"
    note v = pinv_io_wait [OF pv True wait]
    have eq: "s' = s" "ps' = ps[i := ?q]" using e True wait by (auto simp: io_step_def Let_def)
    show ?thesis unfolding eq using core_update_same [OF c i v(1)] v(2) len i True
      by (simp add: total_work_update map_runtime_update map_spec_update idset_update) (simp add: idset_def)
  next
    case finish
    let ?q = "?p\<lparr>remaining_in_burst := remaining_in_burst ?p - 1, burst_index := burst_index ?p + 1,
      pstate := PROC_DONE, completion_tick := t\<rparr>"
    note v = pinv_io_finish [OF pv True finish]
    have eq: "s' = s" "ps' = ps[i := ?q]" using e True finish by (auto simp: io_step_def Let_def)
    show ?thesis unfolding eq using core_update_move [OF c i v(1)] v(2) len i True
      by (simp add: total_work_update map_runtime_update map_spec_update idset_update) (simp add: idset_def)
  next
    case next_burst
    let ?d = "?p\<lparr>burst_index := burst_index ?p + 1,
      remaining_in_burst := duration (bursts (spec ?p) ! nat (burst_index ?p + 1))\<rparr>"
    note v = pinv_io_next [OF pv True next_burst, of t]
    have "scheduler_enqueue s (ps[i := ?d]) (int i) (assigned_cpu ?p) t ENQUEUE_IO_COMPLETE = (s', ps')"
      using e True next_burst by (simp add: io_step_def Let_def)
    from enqueue_core [OF c i _ _ _ _ this] True v(1)
    have E: "core_inv t t n s' ps' R" "same_kind s' s"
      "same_view ps' (ps[i := ?d\<lparr>pstate := PROC_READY, ready_since := t\<rparr>])" by auto
    have "pstate (ps' ! j) = pstate (ps ! j)" if "j < n" "j \<noteq> i" for j
      using sched_view_eqD(2) [OF same_view_nth [OF E(3), of j]] same_view_length [OF E(3)] that len by simp
    with view_all [OF E(3)] E(1,2) v(2) len i True show ?thesis
      by (simp add: total_work_update map_runtime_update map_spec_update idset_update) (simp add: idset_def)
  qed
next
  case False
  then show ?thesis using e c by (auto simp: io_step_def)
qed

lemma io_step_blocked:
  assumes c: "core_inv t t n s ps R" and i: "i < n" and e: "io_step t i (s, ps) = (s', ps')"
  shows "idset PROC_BLOCKED ps' \<subseteq> idset PROC_BLOCKED ps"
proof (cases "pstate (ps ! i) = PROC_BLOCKED")
  case True
  with io_step_core [OF c i e] i c show ?thesis by (auto simp: idset_def core_inv_def)
next
  case False
  then show ?thesis using e by (simp add: io_step_def)
qed

lemma io_core:
  assumes c: "core_inv t t n s ps R" and e: "fold (io_step t) [0..<n] (s, ps) = (s', ps')"
  shows "core_inv t t n s' ps' R \<and> same_kind s' s \<and> map spec ps' = map spec ps \<and>
    total_work ps' \<le> total_work ps - (if idset PROC_BLOCKED ps \<noteq> {} then 1 else 0) \<and>
    map runtime_ticks ps' = map runtime_ticks ps \<and> idset PROC_NEW ps' = idset PROC_NEW ps \<and>
    idset PROC_BLOCKED ps' \<subseteq> idset PROC_BLOCKED ps"
proof -
  let ?P = "\<lambda>i st. core_inv t t n (fst st) (snd st) R \<and> same_kind (fst st) s \<and> map spec (snd st) = map spec ps \<and>
    total_work (snd st) \<le> total_work ps - (if \<exists>j < i. j \<in> idset PROC_BLOCKED ps then 1 else 0) \<and>
    map runtime_ticks (snd st) = map runtime_ticks ps \<and> idset PROC_NEW (snd st) = idset PROC_NEW ps \<and>
    idset PROC_BLOCKED (snd st) \<subseteq> idset PROC_BLOCKED ps \<and>
    (\<forall>j < n. i \<le> j \<longrightarrow> pstate (snd st ! j) = pstate (ps ! j))"
  have len: "length ps = n" using c by (simp add: core_inv_def)
  have "?P n (fold (io_step t) [0..<n] (s, ps))"
  proof (rule fold_range_inv [where P = ?P])
    show "?P 0 (s, ps)" using c by simp
  next
    fix i st assume i: "i < n" and P: "?P i st"
    obtain s1 ps1 where st: "st = (s1, ps1)" by force
    obtain s2 ps2 where e2: "io_step t i (s1, ps1) = (s2, ps2)" by force
    from io_step_core [OF _ i e2, of R] P
    have S: "core_inv t t n s2 ps2 R" "same_kind s2 s1" "map spec ps2 = map spec ps1"
      "total_work ps2 = total_work ps1 - (if pstate (ps1 ! i) = PROC_BLOCKED then 1 else 0)"
      "map runtime_ticks ps2 = map runtime_ticks ps1" "idset PROC_NEW ps2 = idset PROC_NEW ps1"
      "\<forall>j < n. j \<noteq> i \<longrightarrow> pstate (ps2 ! j) = pstate (ps1 ! j)"
      by (auto simp: st)
    have "pstate (ps1 ! i) = PROC_BLOCKED \<longleftrightarrow> i \<in> idset PROC_BLOCKED ps"
      using P i len by (simp add: st idset_def)
    then have "total_work ps2 \<le> total_work ps - (if \<exists>j < Suc i. j \<in> idset PROC_BLOCKED ps then 1 else 0)"
      using P S(4) by (auto simp: st less_Suc_eq split: if_splits)
    moreover have "idset PROC_BLOCKED ps2 \<subseteq> idset PROC_BLOCKED ps"
      using io_step_blocked [OF _ i e2, of R] P by (auto simp: st)
    ultimately show "?P (Suc i) (io_step t i st)" using S P by (auto simp: st e2 intro: same_kind_trans)
  qed
  then have "?P n (s', ps')" by (simp add: e)
  moreover have "(\<exists>j < n. j \<in> idset PROC_BLOCKED ps) \<longleftrightarrow> idset PROC_BLOCKED ps \<noteq> {}"
    using len by (auto simp: idset_def)
  ultimately show ?thesis by simp
qed

subsection \<open>Waiting times\<close>

lemma wait_core:
  assumes c: "core_inv t b n s ps R"
  defines "ps' \<equiv> fold wait_step [0..<n] ps"
  shows "core_inv t b n s ps' R \<and> map spec ps' = map spec ps \<and> total_work ps' = total_work ps \<and>
    map runtime_ticks ps' = map runtime_ticks ps \<and> map pstate ps' = map pstate ps"
  unfolding ps'_def
proof (rule fold_inv [where P = "\<lambda>qs. core_inv t b n s qs R \<and> map spec qs = map spec ps \<and> total_work qs = total_work ps \<and>
    map runtime_ticks qs = map runtime_ticks ps \<and> map pstate qs = map pstate ps"])
  fix i qs
  assume i: "i \<in> set [0..<n]" and P: "core_inv t b n s qs R \<and> map spec qs = map spec ps \<and>
    total_work qs = total_work ps \<and> map runtime_ticks qs = map runtime_ticks ps \<and> map pstate qs = map pstate ps"
  then have i': "i < n" "i < length qs" by (auto simp: core_inv_def)
  note v = pinv_wait [OF core_inv_nth [OF conjunct1 [OF P] i'(1)]]
  from core_update_same [OF conjunct1 [OF P] i'(1) v(1)] v(2) P i'
  show "core_inv t b n s (wait_step i qs) R \<and> map spec (wait_step i qs) = map spec ps \<and>
    total_work (wait_step i qs) = total_work ps \<and> map runtime_ticks (wait_step i qs) = map runtime_ticks ps \<and>
    map pstate (wait_step i qs) = map pstate ps"
    by (simp add: wait_step_def total_work_update map_update_nth)
qed (use c in simp)

lemma idset_pstate: "map pstate ps' = map pstate ps \<Longrightarrow> idset st ps' = idset st ps"
  unfolding idset_def by (metis (mono_tags, lifting) length_map nth_map)

subsection \<open>Dispatch\<close>

lemma core_queued:
  assumes "core_inv t b n s ps R"
  shows "sched_queued s \<subseteq># mset (map int [0..<length ps])"
proof -
  have "mset_set (idset PROC_READY ps) \<subseteq># mset_set {0..<length ps}"
    by (rule subset_imp_msubset_mset_set) (auto simp: idset_def)
  then have "ids PROC_READY ps \<subseteq># image_mset int (mset_set {0..<length ps})"
    unfolding ids_def by (rule image_mset_subseteq_mono)
  then show ?thesis using assms by (simp add: core_inv_def)
qed

lemma core_start:
  fixes cpu :: int
  assumes c: "core_inv t (t + 1) n s ps R" and x: "x \<in># sched_queued s" "sched_queued s' = sched_queued s - {#x#}"
    and ok: "sched_ok s'"
  defines "ps' \<equiv> upd_proc x (start_running t cpu) ps"
  shows "core_inv t (t + 1) n s' ps' (add_mset x R) \<and> map spec ps' = map spec ps \<and> total_work ps' = total_work ps \<and>
    map runtime_ticks ps' = map runtime_ticks ps \<and>
    (\<forall>st. st \<notin> {PROC_READY, PROC_RUNNING} \<longrightarrow> idset st ps' = idset st ps)"
proof -
  let ?i = "nat x" and ?q = "start_running t cpu (ps ! nat x)"
  have q: "sched_queued s = ids PROC_READY ps" "R = ids PROC_RUNNING ps" "length ps = n" "procs_ok ps" "n \<le> 128"
    "\<forall>p \<in> set ps. pinv t (t + 1) p" using c by (auto simp: core_inv_def)
  have i: "?i < length ps" "int ?i = x" "pstate (ps ! ?i) = PROC_READY"
    using x(1) by (auto simp: q(1) mem_ids)
  have v: "pinv t (t + 1) ?q" "work ?q = work (ps ! ?i)" using pinv_start [OF _ i(3)] q(6) i(1) by auto
  have r: "pstate ?q = PROC_RUNNING" "spec ?q = spec (ps ! ?i)" "queue_level ?q = queue_level (ps ! ?i)"
    "runtime_ticks ?q = runtime_ticks (ps ! ?i)" by (simp_all add: start_running_def)
  have eq: "ps' = ps[?i := ?q]" by (simp add: ps'_def upd_proc_def)
  have "core_inv t (t + 1) n s' ps' (add_mset x R)"
    unfolding core_inv_def eq
    using q ok x(2) ids_leave [OF i(1,3), of ?q] ids_enter [OF i(1), of PROC_RUNNING ?q] i r v(1)
      procs_ok_update [OF q(4) i(1) r(3,2)] set_update_subset_insert [of ps ?i ?q] by auto
  moreover have "idset st ps' = idset st ps" if "st \<notin> {PROC_READY, PROC_RUNNING}" for st
    using that i r(1) by (simp add: eq idset_update) (auto simp: idset_def)
  ultimately show ?thesis
    using i r v(2) by (simp add: eq total_work_update map_spec_update map_runtime_update)
qed

lemma dispatch_step_core:
  assumes c: "core_inv t (t + 1) n s ps (cpu_ids cs)" and len: "int (length cs) = cpu_count s"
    and i: "i < length cs" and e: "dispatch_step t i (s, ps, cs) = (s', ps', cs')"
  shows "core_inv t (t + 1) n s' ps' (cpu_ids cs') \<and> same_kind s' s \<and> length cs' = length cs \<and>
    map spec ps' = map spec ps \<and> total_work ps' = total_work ps \<and> map runtime_ticks ps' = map runtime_ticks ps \<and>
    (\<forall>st. st \<notin> {PROC_READY, PROC_RUNNING} \<longrightarrow> idset st ps' = idset st ps) \<and>
    (\<forall>j. j \<noteq> i \<longrightarrow> cs' ! j = cs ! j) \<and>
    (sched_fit s ps \<longrightarrow> running_pid (cs' ! i) < 0 \<longrightarrow> sched_avail s' (int i) = {#}) \<and>
    (\<forall>j < length cs. sched_avail s (int j) = {#} \<longrightarrow> sched_avail s' (int j) = {#})"
proof (cases "running_pid (cs ! i) < 0")
  case True
  obtain x s1 where p: "scheduler_pick_next s ps (int i) t = (x, s1)" by force
  have ok: "sched_ok s" "procs_ok ps" using c by (auto simp: core_inv_def)
  have ci: "0 \<le> int i" "int i < cpu_count s" using i len by auto
  have idle: "\<forall>j < length cs. sched_avail s (int j) = {#} \<longrightarrow> sched_avail s1 (int j) = {#}"
    using sched_wc.stays_idle [OF ok core_queued [OF c] ci p] len by auto
  from ok core_queued [OF c] ci p show ?thesis
  proof (cases rule: sched.pick_cases)
    case none
    then have "s' = s" "ps' = ps" "cs' = cs" using e True p by (auto simp: dispatch_step_def)
    with none c show ?thesis by simp
  next
    case some
    let ?c = "\<lparr>running_pid = x, slice_used = 0\<rparr>"
    have eq: "s' = s1" "ps' = upd_proc x (start_running t (int i)) ps" "cs' = cs[i := ?c]"
      using e True p some(1) by (auto simp: dispatch_step_def)
    have k: "sched_ok s1" "same_kind s1 s" using sched.pick_ok [OF ok(1) p ci] by auto
    have "cpu_ids cs' = add_mset x (cpu_ids cs)" using cpu_ids_start [OF i True, of ?c] some(1) by (simp add: eq)
    with core_start [OF c some(2,3) k(1), of "int i"] k(2) idle some(1) i show ?thesis
      by (simp add: eq)
  qed
next
  case False
  then show ?thesis using e c by (auto simp: dispatch_step_def)
qed

text \<open>The dispatch loop leaves a CPU idle only if its policy had nothing for it; so if every CPU stays
  idle, nothing is READY.\<close>

lemma dispatch_core:
  assumes c: "core_inv t (t + 1) n s ps (cpu_ids cs)" and len: "int (length cs) = cpu_count s"
    and e: "fold (dispatch_step t) [0..<length cs] (s, ps, cs) = (s', ps', cs')"
  shows "core_inv t (t + 1) n s' ps' (cpu_ids cs') \<and> same_kind s' s \<and> length cs' = length cs \<and>
    map spec ps' = map spec ps \<and> total_work ps' = total_work ps \<and> map runtime_ticks ps' = map runtime_ticks ps \<and>
    (\<forall>st. st \<notin> {PROC_READY, PROC_RUNNING} \<longrightarrow> idset st ps' = idset st ps) \<and>
    (sched_fit s ps \<longrightarrow> (\<forall>j < length cs. running_pid (cs' ! j) < 0 \<longrightarrow> sched_avail s' (int j) = {#}))"
proof -
  let ?P = "\<lambda>i (s', ps', cs'). core_inv t (t + 1) n s' ps' (cpu_ids cs') \<and> same_kind s' s \<and> length cs' = length cs \<and>
    map spec ps' = map spec ps \<and> total_work ps' = total_work ps \<and> map runtime_ticks ps' = map runtime_ticks ps \<and>
    (\<forall>st. st \<notin> {PROC_READY, PROC_RUNNING} \<longrightarrow> idset st ps' = idset st ps) \<and>
    (sched_fit s ps \<longrightarrow> (\<forall>j < i. running_pid (cs' ! j) < 0 \<longrightarrow> sched_avail s' (int j) = {#}))"
  have "?P (length cs) (fold (dispatch_step t) [0..<length cs] (s, ps, cs))"
  proof (rule fold_range_inv [where P = ?P])
    show "?P 0 (s, ps, cs)" using c by simp
  next
    fix i st assume i: "i < length cs" and P: "?P i st"
    obtain s1 ps1 cs1 where st: "st = (s1, ps1, cs1)" by (metis prod_cases3)
    obtain s2 ps2 cs2 where e2: "dispatch_step t i (s1, ps1, cs1) = (s2, ps2, cs2)" by (metis prod_cases3)
    have c1: "core_inv t (t + 1) n s1 ps1 (cpu_ids cs1)" "int (length cs1) = cpu_count s1" "i < length cs1"
      using P len i by (auto simp: st same_kind_def)
    have "sched_fit s1 ps1 = sched_fit s ps" using P by (intro sched_fit_cong) (simp_all add: st)
    with dispatch_step_core [OF c1 e2] P i show "?P (Suc i) (dispatch_step t i st)"
      by (auto simp: st e2 less_Suc_eq intro: same_kind_trans)
  qed
  then show ?thesis by (simp add: e)
qed

lemma idle_nothing_ready:
  assumes "core_inv t b n s ps (cpu_ids cs)" "int (length cs) = cpu_count s" "cpu_ids cs = {#}"
    "\<forall>j < length cs. running_pid (cs ! j) < 0 \<longrightarrow> sched_avail s (int j) = {#}"
  shows "ids PROC_READY ps = {#}" and "ids PROC_RUNNING ps = {#}"
proof -
  have c: "sched_ok s" "sched_queued s = ids PROC_READY ps" "cpu_ids cs = ids PROC_RUNNING ps"
    using assms(1) by (auto simp: core_inv_def)
  show "ids PROC_RUNNING ps = {#}" using assms(3) c(3) by simp
  show "ids PROC_READY ps = {#}"
  proof (rule ccontr)
    assume "ids PROC_READY ps \<noteq> {#}"
    then obtain x where "x \<in># sched_queued s" unfolding c(2) [symmetric] by blast
    then obtain d where d: "0 \<le> d" "d < cpu_count s" "x \<in># sched_avail s d"
      using sched.avail_covers [OF c(1)] by blast
    then have "nat d < length cs" "int (nat d) = d" using assms(2) by auto
    moreover from this have "running_pid (cs ! nat d) < 0"
      using cpu_ids_mem [of "nat d" cs] assms(3) by force
    ultimately show False using assms(4) d(3) by (metis empty_iff set_mset_empty)
  qed
qed

subsection \<open>Execution\<close>

text \<open>The effect of one tick of CPU time on the process table, whatever happens to the process next.\<close>

lemma ran_accounting:
  assumes "i < length ps" "pstate (ps ! i) = PROC_RUNNING" "spec q = spec (ps ! i)"
    "runtime_ticks q = runtime_ticks (ps ! i) + 1" "work q = work (ps ! i) - 1" "pstate q \<noteq> PROC_NEW"
  shows "map spec (ps[i := q]) = map spec ps" "idset PROC_NEW (ps[i := q]) = idset PROC_NEW ps"
    "total_work (ps[i := q]) = total_work ps - 1"
    "runtime_where Q (ps[i := q]) = runtime_where Q ps + (if Q (spec (ps ! i)) then 1 else 0)"
  using assms by (simp_all add: map_spec_update total_work_update runtime_where_update idset_update)
    (simp add: idset_def)

lemma run_step_busy:
  assumes c: "core_inv t (t + 1) n s ps (cpu_ids cs)" and i: "i < length cs" and x: "running_pid (cs ! i) = x" "0 \<le> x"
    and e: "run_step t i (s, ps, cs, bsy) = (s', ps', cs', bsy')"
  shows "core_inv t (t + 1) n s' ps' (cpu_ids cs') \<and> same_kind s' s \<and> length cs' = length cs \<and>
    map spec ps' = map spec ps \<and> (\<forall>j. j \<noteq> i \<longrightarrow> cs' ! j = cs ! j) \<and> idset PROC_NEW ps' = idset PROC_NEW ps \<and>
    bsy' = bsy + 1 \<and> total_work ps' = total_work ps - 1 \<and>
    runtime_where Q ps' = runtime_where Q ps + (if Q (spec (ps ! nat x)) then 1 else 0)"
proof -
  let ?p = "ps ! nat x" and ?idle = "\<lparr>running_pid = -1, slice_used = 0\<rparr>"
  have R: "cpu_ids cs = ids PROC_RUNNING ps" "length ps = n" using c by (auto simp: core_inv_def)
  then have k: "nat x < n" "int (nat x) = x" "pstate ?p = PROC_RUNNING" "nat x < length ps"
    using cpu_ids_mem [OF i] x by (auto simp: mem_ids)
  note pv = core_inv_nth [OF c k(1)]
  have idle: "cpu_ids (cs[i := ?idle]) = cpu_ids cs - {#x#}" using cpu_ids_idle [OF i, of ?idle] x by simp
  consider (finish) "remaining_in_burst ?p \<le> 1" "burst_count (spec ?p) \<le> burst_index ?p + 1"
    | (block) "remaining_in_burst ?p \<le> 1" "burst_index ?p + 1 < burst_count (spec ?p)"
    | (preempt) "1 < remaining_in_burst ?p" "scheduler_time_slice s (ran ?p) \<le> slice_used (cs ! i) + 1"
    | (continue) "1 < remaining_in_burst ?p" "slice_used (cs ! i) + 1 < scheduler_time_slice s (ran ?p)"
    by linarith
  then show ?thesis
  proof cases
    case finish
    let ?q = "(ran ?p)\<lparr>burst_index := burst_index ?p + 1, pstate := PROC_DONE, completion_tick := t + 1\<rparr>"
    note v = pinv_run_finish [OF pv refl k(3) finish]
    have eq: "s' = s" "ps' = ps[nat x := ?q]" "cs' = cs[i := ?idle]" "bsy' = bsy + 1"
      using e x finish by (auto simp: run_step_def Let_def ran_def)
    show ?thesis unfolding eq
      using core_update_move [OF c k(1) v(1)] ran_accounting [OF k(4,3), of ?q] v(2) k i idle
      by (simp add: ran_def)
  next
    case block
    let ?q = "(ran ?p)\<lparr>burst_index := burst_index ?p + 1, pstate := PROC_BLOCKED,
      remaining_in_burst := duration (bursts (spec ?p) ! nat (burst_index ?p + 1))\<rparr>"
    note v = pinv_run_block [OF pv k(3) block]
    have eq: "s' = s" "ps' = ps[nat x := ?q]" "cs' = cs[i := ?idle]" "bsy' = bsy + 1"
      using e x block by (auto simp: run_step_def Let_def ran_def)
    show ?thesis unfolding eq
      using core_update_move [OF c k(1) v(1)] ran_accounting [OF k(4,3), of ?q] v(2) k i idle
      by (simp add: ran_def)
  next
    case preempt
    let ?q = "(ran ?p)\<lparr>pstate := PROC_READY, ready_since := t + 1\<rparr>"
    note v = pinv_run(3,4) [OF pv k(3) preempt(1), of "t + 1"]
    obtain s1 ps1 where q: "scheduler_enqueue s (ps[nat x := ran ?p]) x (int i) (t + 1) ENQUEUE_PREEMPT = (s1, ps1)"
      by force
    then have eq: "s' = s1" "ps' = ps1" "cs' = cs[i := ?idle]" "bsy' = bsy + 1"
      using e x preempt by (auto simp: run_step_def Let_def ran_def)
    have sp: "spec (ran ?p) = spec ?p" "queue_level (ran ?p) = queue_level ?p" by (simp_all add: ran_def)
    from q have q': "scheduler_enqueue s (ps[nat x := ran ?p]) (int (nat x)) (int i) (t + 1) ENQUEUE_PREEMPT = (s1, ps1)"
      unfolding k(2) .
    have nr: "pstate ?p \<noteq> PROC_READY" using k(3) by simp
    note E = enqueue_core [OF c k(1) nr sp v(1) q']
    note W = view_all [OF E(3)]
    have "spec ?q = spec ?p" "runtime_ticks ?q = runtime_ticks ?p + 1" "pstate ?q \<noteq> PROC_NEW"
      by (simp_all add: ran_def)
    note A = ran_accounting [OF k(4,3) this(1,2) v(2) this(3)]
    from W(4) A(1) have "map spec ps1 = map spec ps" by simp
    moreover have "runtime_where Q ps1 = runtime_where Q (ps[nat x := ?q])"
      by (rule runtime_where_cong [OF W(4,3)])
    ultimately show ?thesis unfolding eq using E(1,2) W(2,5) A k i idle by simp
  next
    case continue
    let ?c = "(cs ! i)\<lparr>slice_used := slice_used (cs ! i) + 1\<rparr>"
    note v = pinv_run(1,2) [OF pv k(3) continue(1)]
    have eq: "s' = s" "ps' = ps[nat x := ran ?p]" "cs' = cs[i := ?c]" "bsy' = bsy + 1"
      using e x continue by (auto simp: run_step_def Let_def ran_def)
    show ?thesis unfolding eq
      using core_update_same [OF c k(1) v(1)] ran_accounting [OF k(4,3), of "ran ?p"] v(2) k i
        cpu_ids_same [OF i, of ?c]
      by (simp add: ran_def)
  qed
qed

text \<open>The busy CPUs among the first \<open>i\<close> that run a process described by \<open>Q\<close>.\<close>

definition running_where :: "(ProcessSpec \<Rightarrow> bool) \<Rightarrow> ProcessRuntime list \<Rightarrow> CpuState list \<Rightarrow> int" where
  "running_where Q ps cs =
     int (length (filter (\<lambda>c. 0 \<le> running_pid c \<and> Q (spec (ps ! nat (running_pid c)))) cs))"

lemma running_where_take_Suc:
  "i < length cs \<Longrightarrow> running_where Q ps (take (Suc i) cs) = running_where Q ps (take i cs) +
     (if 0 \<le> running_pid (cs ! i) \<and> Q (spec (ps ! nat (running_pid (cs ! i)))) then 1 else 0)"
  by (simp add: running_where_def take_Suc_conv_app_nth)

lemma run_core:
  assumes c: "core_inv t (t + 1) n s ps (cpu_ids cs)"
    and e: "fold (run_step t) [0..<length cs] (s, ps, cs, bsy) = (s', ps', cs', bsy')"
  shows "core_inv t (t + 1) n s' ps' (cpu_ids cs') \<and> same_kind s' s \<and> length cs' = length cs \<and>
    map spec ps' = map spec ps \<and> idset PROC_NEW ps' = idset PROC_NEW ps \<and>
    bsy' = bsy + running_where (\<lambda>_. True) ps cs \<and> total_work ps' = total_work ps - running_where (\<lambda>_. True) ps cs \<and>
    runtime_where Q ps' = runtime_where Q ps + running_where Q ps cs"
proof -
  let ?P = "\<lambda>i (s', ps', cs', bsy'). core_inv t (t + 1) n s' ps' (cpu_ids cs') \<and> same_kind s' s \<and>
    length cs' = length cs \<and> map spec ps' = map spec ps \<and> (\<forall>j \<ge> i. cs' ! j = cs ! j) \<and>
    idset PROC_NEW ps' = idset PROC_NEW ps \<and> bsy' = bsy + running_where (\<lambda>_. True) ps (take i cs) \<and>
    total_work ps' = total_work ps - running_where (\<lambda>_. True) ps (take i cs) \<and>
    runtime_where Q ps' = runtime_where Q ps + running_where Q ps (take i cs)"
  have "?P (length cs) (fold (run_step t) [0..<length cs] (s, ps, cs, bsy))"
  proof (rule fold_range_inv [where P = ?P])
    show "?P 0 (s, ps, cs, bsy)" using c by (simp add: running_where_def)
  next
    fix i st assume i: "i < length cs" and P: "?P i st"
    obtain s1 ps1 cs1 b1 where st: "st = (s1, ps1, cs1, b1)" by (metis prod_cases4)
    obtain s2 ps2 cs2 b2 where e2: "run_step t i (s1, ps1, cs1, b1) = (s2, ps2, cs2, b2)" by (metis prod_cases4)
    let ?x = "running_pid (cs ! i)"
    have c1: "core_inv t (t + 1) n s1 ps1 (cpu_ids cs1)" "i < length cs1" "cs1 ! i = cs ! i"
      "map spec ps1 = map spec ps" using P i by (auto simp: st)
    show "?P (Suc i) (run_step t i st)"
    proof (cases "0 \<le> ?x")
      case True
      then have "?x \<in># ids PROC_RUNNING ps1" using cpu_ids_mem [OF c1(2)] c1(1,3) by (simp add: core_inv_def)
      then have "spec (ps1 ! nat ?x) = spec (ps ! nat ?x)"
        using arg_cong [OF c1(4), of length] arg_cong [OF c1(4), of "\<lambda>xs. xs ! nat ?x"] by (auto simp: mem_ids)
      moreover have "running_pid (cs1 ! i) = ?x" using c1(3) by simp
      note S = run_step_busy [OF c1(1,2) this True e2, of Q]
      moreover have "same_kind s2 s" using S P by (auto simp: st intro: same_kind_trans)
      ultimately show ?thesis
        unfolding st e2 split using P i True by (simp add: st running_where_take_Suc)
    next
      case False
      then have "run_step t i st = st" using c1(3) by (simp add: st run_step_def Let_def)
      with P False i show ?thesis by (auto simp: st running_where_take_Suc)
    qed
  qed
  then show ?thesis by (simp add: e)
qed

lemma running_nonempty: "cpu_ids cs \<noteq> {#} \<Longrightarrow> 1 \<le> running_where (\<lambda>_. True) ps cs"
  using cpu_ids_nonempty [of cs] by (auto simp: running_where_def Suc_le_eq filter_empty_conv)

lemma running_where_nonneg: "0 \<le> running_where Q ps cs"
  by (simp add: running_where_def)

subsection \<open>Timeline\<close>

text \<open>The row of the timeline a tick writes: the identifier each CPU runs, -1 for an idle CPU.\<close>

definition timeline_row :: "ProcessRuntime list \<Rightarrow> CpuState list \<Rightarrow> int list" where
  "timeline_row ps cs = map (\<lambda>c. if 0 \<le> running_pid c then pid (spec (ps ! nat (running_pid c))) else -1) cs"

lemma record_timeline_row:
  assumes "length cs = nc" "t * nc + nc \<le> length sl" "int (length sl) \<le> INT_MAX"
  shows "record_timeline (int nc) cs ps (int t) sl = take (t * nc) sl @ timeline_row ps cs @ drop (t * nc + nc) sl"
proof -
  let ?f = "\<lambda>cpu sl. let slot = running_pid (cs ! cpu); k = to_int32 (int t * int nc + int cpu) in
    if 0 \<le> k then sl[nat k := (if slot \<ge> 0 then pid (spec (ps ! nat slot)) else -1)] else sl"
  let ?P = "\<lambda>i sl'. length sl' = length sl \<and> (\<forall>k < length sl. sl' ! k =
    (if t * nc \<le> k \<and> k < t * nc + i then timeline_row ps cs ! (k - t * nc) else sl ! k))"
  have idx: "to_int32 (int t * int nc + int i) = int (t * nc + i)" if "i < nc" for i
  proof -
    have "0 \<le> int (t * nc + i) \<and> int (t * nc + i) \<le> INT_MAX" using assms(2,3) that by linarith
    then have "to_int32 (int (t * nc + i)) = int (t * nc + i)" unfolding INT_MAX_def by (intro to_int32_id) linarith+
    then show ?thesis by simp
  qed
  have P: "?P nc (fold ?f [0..<nc] sl)"
  proof (rule fold_range_inv [where P = ?P])
    fix i sl' assume i: "i < nc" and P: "?P i sl'"
    have "?f i sl' = sl'[t * nc + i := (if running_pid (cs ! i) \<ge> 0 then pid (spec (ps ! nat (running_pid (cs ! i)))) else -1)]"
      by (simp only: Let_def idx [OF i] of_nat_0_le_iff if_True nat_int)
    then have f: "?f i sl' = sl'[t * nc + i := timeline_row ps cs ! i]" using i assms(1) by (simp add: timeline_row_def)
    show "?P (Suc i) (?f i sl')" unfolding f using assms(2) i P by (auto simp: nth_list_update)
  qed simp
  show ?thesis
    unfolding record_timeline_def nat_int
    by (rule nth_equalityI) (use P assms in \<open>auto simp: timeline_row_def nth_append min_def\<close>)
qed

lemma count_timeline_row:
  assumes "v \<noteq> -1"
  shows "int (count_list (timeline_row ps cs) v) = running_where (\<lambda>sp. pid sp = v) ps cs"
  using assms by (induction cs) (auto simp: timeline_row_def running_where_def)

text \<open>No process is on two CPUs, so a row names a process identifier no more often than the workload
  has processes of that name.\<close>

lemma running_where_bound:
  assumes "cpu_ids cs = ids PROC_RUNNING ps"
  shows "running_where Q ps cs \<le> int (length (filter (\<lambda>p. Q (spec p)) ps))"
proof -
  have "running_where Q ps cs = int (size (filter_mset (\<lambda>x. Q (spec (ps ! nat x))) (cpu_ids cs)))"
    by (simp add: running_where_def cpu_ids_def filter_filter_mset conj_commute
        flip: mset_filter size_mset mset_map) (simp add: filter_map o_def conj_commute)
  also have "\<dots> = int (card {i \<in> idset PROC_RUNNING ps. Q (spec (ps ! i))})"
    by (simp add: assms ids_def filter_mset_image_mset filter_mset_mset_set)
  also have "\<dots> \<le> int (card {i. i < length ps \<and> Q (spec (ps ! i))})"
    by (simp, rule card_mono) (auto simp: idset_def)
  also have "\<dots> = int (length (filter (\<lambda>p. Q (spec p)) ps))" by (simp add: length_filter_conv_card)
  finally show ?thesis .
qed

subsection \<open>The whole tick\<close>

definition timeline_inv :: "nat \<Rightarrow> nat \<Rightarrow> SimState \<Rightarrow> bool" where
  "timeline_inv nc tick st \<longleftrightarrow>
     (\<forall>k. tick * nc \<le> k \<longrightarrow> k < length (slot_array st) \<longrightarrow> slot_array st ! k = -1) \<and>
     (\<forall>v. v \<noteq> -1 \<longrightarrow> int (count_list (slot_array st) v) = runtime_where (\<lambda>sp. pid sp = v) (procs st)) \<and>
     (\<forall>t v. t < tick \<longrightarrow> v \<noteq> -1 \<longrightarrow> count_list (take nc (drop (t * nc) (slot_array st))) v
        \<le> length (filter (\<lambda>sp. pid sp = v) (map spec (procs st))))"

lemma hook_core:
  assumes c: "core_inv t b n s ps R" and e: "scheduler_tick s ps t = (s', ps')"
  shows "core_inv t b n s' ps' R" "same_kind s' s" "same_view ps' ps"
proof -
  have k: "sched_ok s" "procs_ok ps" "sched_queued s = ids PROC_READY ps" "length ps = n" "n \<le> 128"
    using c by (auto simp: core_inv_def)
  have "size (sched_queued s) \<le> 128" using size_ids_le [of PROC_READY ps] k by simp
  from sched.hook_ok [OF k(1,2) this e]
  have E: "sched_ok s'" "same_kind s' s" "procs_ok ps'" "same_view ps' ps" "sched_queued s' = sched_queued s" by auto
  then show "same_kind s' s" "same_view ps' ps" by auto
  show "core_inv t b n s' ps' R"
    using c E view_all(1,6) [OF E(4)] same_view_length [OF E(4)] unfolding core_inv_def by simp
qed

text \<open>What one tick does: the invariant is kept, the CPU time given out is the number of busy CPUs, and
  once nothing is left to arrive some work is done.\<close>

lemma sim_tick_split:
  assumes inv: "sim_inv np t st" and nc: "length (cpus st) = nat ncpus"
  obtains s ps cs where
    "core_inv t (t + 1) (nat np) s ps (cpu_ids cs)" "length cs = nat ncpus" "int (length cs) = cpu_count s"
    "same_kind (scheduler (sim_tick np ncpus t st)) (scheduler st)"
    "map spec ps = map spec (procs st)" "map runtime_ticks ps = map runtime_ticks (procs st)"
    "slot_array (sim_tick np ncpus t st) = record_timeline ncpus cs ps t (slot_array st)"
    "(scheduler (sim_tick np ncpus t st), procs (sim_tick np ncpus t st), cpus (sim_tick np ncpus t st),
       busy (sim_tick np ncpus t st)) = fold (run_step t) [0..<length cs] (s, ps, cs, busy st)"
    "sched_fit (scheduler st) (procs st) \<longrightarrow> (\<forall>j < length cs. running_pid (cs ! j) < 0 \<longrightarrow> sched_avail s (int j) = {#})"
    "total_work ps \<le> total_work (procs st)" "\<forall>j \<in> idset PROC_NEW ps. t < arrival (spec (procs st ! j))"
    "idset PROC_BLOCKED ps \<noteq> {} \<longrightarrow> total_work ps < total_work (procs st)"
proof -
  let ?n = "nat np"
  have c0: "core_inv t t ?n (scheduler st) (procs st) (cpu_ids (cpus st))"
    and len: "int (length (cpus st)) = cpu_count (scheduler st)" using inv by (auto simp: sim_inv_def)
  obtain s1 ps1 where e1: "fold (arrive_step t) [0..<?n] (scheduler st, procs st) = (s1, ps1)" by force
  obtain s2 ps2 where e2: "fold (io_step t) [0..<?n] (s1, ps1) = (s2, ps2)" by force
  obtain s3 ps3 where e3: "scheduler_tick s2 ps2 t = (s3, ps3)" by force
  define ps4 where "ps4 = fold wait_step [0..<?n] ps3"
  obtain s ps cs where e5: "fold (dispatch_step t) [0..<length (cpus st)] (s3, ps4, cpus st) = (s, ps, cs)"
    by (metis prod_cases3)
  obtain s6 ps6 cs6 b6 where e6: "fold (run_step t) [0..<length cs] (s, ps, cs, busy st) = (s6, ps6, cs6, b6)"
    by (metis prod_cases4)
  from arrivals_core [OF c0 e1] have A: "core_inv t t ?n s1 ps1 (cpu_ids (cpus st))" "same_kind s1 (scheduler st)"
    "map spec ps1 = map spec (procs st)" "total_work ps1 = total_work (procs st)"
    "map runtime_ticks ps1 = map runtime_ticks (procs st)"
    "\<forall>j \<in> idset PROC_NEW ps1. t < arrival (spec (procs st ! j))" by auto
  from io_core [OF A(1) e2] have B: "core_inv t t ?n s2 ps2 (cpu_ids (cpus st))" "same_kind s2 s1"
    "map spec ps2 = map spec ps1" "total_work ps2 \<le> total_work ps1"
    "idset PROC_BLOCKED ps2 \<noteq> {} \<longrightarrow> total_work ps2 < total_work ps1"
    "map runtime_ticks ps2 = map runtime_ticks ps1" "idset PROC_NEW ps2 = idset PROC_NEW ps1"
    by (auto split: if_splits)
  note C = hook_core [OF B(1) e3] and V = view_all [OF hook_core(3) [OF B(1) e3]]
  from wait_core [OF C(1)] have W: "core_inv t t ?n s3 ps4 (cpu_ids (cpus st))" "map spec ps4 = map spec ps3"
    "total_work ps4 = total_work ps3" "map runtime_ticks ps4 = map runtime_ticks ps3"
    "map pstate ps4 = map pstate ps3" unfolding ps4_def by blast+
  note W5 = idset_pstate [OF W(5)]
  have W1: "core_inv t (t + 1) ?n s3 ps4 (cpu_ids (cpus st))" using core_mono [OF W(1)] by simp
  have k3: "same_kind s3 (scheduler st)" using C(2) B(2) A(2) same_kind_trans by blast
  have len3: "int (length (cpus st)) = cpu_count s3" using len k3 by (simp add: same_kind_def)
  from dispatch_core [OF W1 len3 e5] have D: "core_inv t (t + 1) ?n s ps (cpu_ids cs)" "same_kind s s3"
    "length cs = length (cpus st)" "map spec ps = map spec ps4" "total_work ps = total_work ps4"
    "map runtime_ticks ps = map runtime_ticks ps4" "idset PROC_NEW ps = idset PROC_NEW ps4"
    "idset PROC_BLOCKED ps = idset PROC_BLOCKED ps4"
    "sched_fit s3 ps4 \<longrightarrow> (\<forall>j < length cs. running_pid (cs ! j) < 0 \<longrightarrow> sched_avail s (int j) = {#})" by auto
  from run_core [OF D(1) e6] have R: "same_kind s6 s" by blast
  have st': "sim_tick np ncpus t st = \<lparr>scheduler = s6, procs = ps6, cpus = cs6, busy = b6,
      slot_array = record_timeline ncpus cs ps t (slot_array st)\<rparr>"
    using e1 e2 e3 e5 e6 nc D(3) by (simp add: sim_tick_def ps4_def)
  have k6: "same_kind s6 (scheduler st)" using R D(2) k3 same_kind_trans by blast
  have lens: "length cs = nat ncpus" "int (length cs) = cpu_count s"
    using D(2,3) nc len3 by (simp_all add: same_kind_def)
  have sp: "map spec ps = map spec (procs st)" using D(4) W(2) V(4) B(3) A(3) by metis
  have rt: "map runtime_ticks ps = map runtime_ticks (procs st)" using D(6) W(4) V(3) B(6) A(5) by metis
  have w: "total_work ps = total_work ps2" using D(5) W(3) V(2) by metis
  have new: "idset PROC_NEW ps = idset PROC_NEW ps1" using D(7) W5 V(5) B(7) by metis
  have blk: "idset PROC_BLOCKED ps = idset PROC_BLOCKED ps2" using D(8) W5 V(5) by metis
  have "map spec ps4 = map spec (procs st)" using W(2) V(4) B(3) A(3) by metis
  then have fit: "sched_fit s3 ps4 = sched_fit (scheduler st) (procs st)" using k3 by (rule sched_fit_cong)
  show ?thesis
  proof (rule that [OF D(1) lens])
    show "same_kind (scheduler (sim_tick np ncpus t st)) (scheduler st)" using k6 by (simp add: st')
    show "\<forall>j \<in> idset PROC_NEW ps. t < arrival (spec (procs st ! j))" using A(6) by (simp add: new)
    show "total_work ps \<le> total_work (procs st)" using B(4) A(4) by (simp add: w)
    show "idset PROC_BLOCKED ps \<noteq> {} \<longrightarrow> total_work ps < total_work (procs st)"
      using B(5) A(4) by (simp add: w blk)
  qed (use D(9) in \<open>simp_all add: sp rt st' e6 fit\<close>)
qed

lemma all_done_iff:
  assumes "core_inv t b (nat np) s ps R"
  shows "all_done ps np \<longleftrightarrow> total_work ps = 0"
proof -
  have c: "length ps = nat np" "\<forall>p \<in> set ps. proc_inv p" using assms by (auto simp: core_inv_def pinv_def)
  have "total_work ps = 0 \<longleftrightarrow> (\<forall>p \<in> set ps. work p = 0)"
    unfolding total_work_def using c(2) by (subst sum_list_nonneg_eq_0_iff) (auto simp: work_nonneg)
  also have "\<dots> \<longleftrightarrow> (\<forall>p \<in> set ps. pstate p = PROC_DONE)" using c(2) by (auto simp: work_zero)
  finally show ?thesis using c(1) by (simp add: all_done_def list_all_iff)
qed

lemma total_work_nonneg: "core_inv t b n s ps R \<Longrightarrow> 0 \<le> total_work ps"
  unfolding total_work_def by (rule sum_list_nonneg) (auto simp: core_inv_def pinv_def work_nonneg)

lemma total_work_idle:
  assumes "core_inv t b n s ps R" "\<forall>st. st \<noteq> PROC_DONE \<longrightarrow> idset st ps = {}"
  shows "total_work ps = 0"
proof -
  have "work p = 0" if "p \<in> set ps" for p
  proof -
    from that obtain i where "i < length ps" "p = ps ! i" by (auto simp: in_set_conv_nth)
    with assms(2) have "pstate p = PROC_DONE" by (auto simp: idset_def)
    then show ?thesis by (simp add: work_def)
  qed
  then have "map work ps = replicate (length ps) 0" by (intro nth_equalityI) auto
  then show ?thesis by (simp add: total_work_def sum_list_replicate)
qed

lemma sim_tick_inv:
  assumes inv: "sim_inv np t st" and nc: "length (cpus st) = nat ncpus"
  defines "st' \<equiv> sim_tick np ncpus t st"
  shows "sim_inv np (t + 1) st' \<and> length (cpus st') = nat ncpus \<and> map spec (procs st') = map spec (procs st) \<and>
    total_work (procs st') \<le> total_work (procs st) \<and>
    same_kind (scheduler st') (scheduler st) \<and>
    (sched_fit (scheduler st) (procs st) \<longrightarrow> (\<forall>p \<in> set (procs st). arrival (spec p) \<le> t) \<longrightarrow> 0 < total_work (procs st) \<longrightarrow>
       total_work (procs st') < total_work (procs st))"
  using inv nc
proof (rule sim_tick_split)
  fix s ps cs
  assume c: "core_inv t (t + 1) (nat np) s ps (cpu_ids cs)" and len: "length cs = nat ncpus" "int (length cs) = cpu_count s"
    and kind: "same_kind (scheduler (sim_tick np ncpus t st)) (scheduler st)"
    and maps: "map spec ps = map spec (procs st)" "map runtime_ticks ps = map runtime_ticks (procs st)"
    and run: "(scheduler (sim_tick np ncpus t st), procs (sim_tick np ncpus t st), cpus (sim_tick np ncpus t st),
       busy (sim_tick np ncpus t st)) = fold (run_step t) [0..<length cs] (s, ps, cs, busy st)"
    and idle: "sched_fit (scheduler st) (procs st) \<longrightarrow>
      (\<forall>j < length cs. running_pid (cs ! j) < 0 \<longrightarrow> sched_avail s (int j) = {#})"
    and work: "total_work ps \<le> total_work (procs st)" and new: "\<forall>j \<in> idset PROC_NEW ps. t < arrival (spec (procs st ! j))"
    and blk: "idset PROC_BLOCKED ps \<noteq> {} \<longrightarrow> total_work ps < total_work (procs st)"
  let ?r = "running_where (\<lambda>_. True) ps cs"
  from run_core [OF c run [symmetric], of "\<lambda>_. True"]
  have R: "core_inv t (t + 1) (nat np) (scheduler st') (procs st') (cpu_ids (cpus st'))"
    "length (cpus st') = length cs" "map spec (procs st') = map spec ps" "busy st' = busy st + ?r"
    "total_work (procs st') = total_work ps - ?r" "total_runtime (procs st') = total_runtime ps + ?r"
    by (auto simp: st'_def runtime_where_all)
  have I: "int (length (cpus st)) = cpu_count (scheduler st)" "busy st = total_runtime (procs st)"
    "busy st \<le> t * int (length (cpus st))" using inv by (auto simp: sim_inv_def)
  have "?r \<le> int (length cs)" by (simp add: running_where_def)
  then have "busy st' \<le> (t + 1) * int (length cs)"
    using I(3) R(4) len nc by (simp add: algebra_simps)
  then have "sim_inv np (t + 1) st'"
    using core_mono [OF R(1), of "t + 1" "t + 1"] R I maps(2) kind nc len
    by (simp add: sim_inv_def st'_def [symmetric] same_kind_def total_runtime_def)
  moreover have "total_work (procs st') < total_work (procs st)"
    if "sched_fit (scheduler st) (procs st)" "\<forall>p \<in> set (procs st). arrival (spec p) \<le> t" "0 < total_work (procs st)"
  proof (cases "cpu_ids cs = {#}")
    case True
    from idle_nothing_ready [OF c len(2) True] idle that(1)
    have "idset PROC_READY ps = {}" "idset PROC_RUNNING ps = {}" by (simp_all add: ids_def mset_set_empty_iff)
    moreover have "length ps = length (procs st)" using arg_cong [OF maps(1), of length] by simp
    then have "arrival (spec (procs st ! j)) \<le> t" if "j \<in> idset PROC_NEW ps" for j
      using that \<open>\<forall>p \<in> set (procs st). arrival (spec p) \<le> t\<close> by (simp add: idset_def)
    with new have "idset PROC_NEW ps = {}" by force
    ultimately have "idset PROC_BLOCKED ps = {} \<Longrightarrow> total_work ps = 0"
      by (intro total_work_idle [OF c] allI) (rename_tac st, case_tac st, auto)
    with blk R(5) that(3) running_where_nonneg [of "\<lambda>_. True" ps cs] show ?thesis by fastforce
  next
    case False
    with running_nonempty [OF this, of ps] R(5) work show ?thesis by simp
  qed
  ultimately show ?thesis using R work maps(1) len kind [folded st'_def] running_where_nonneg [of "\<lambda>_. True" ps cs] by auto
qed

end
