(* ===== verification/Sim_Run.thy ===== *)
theory Sim_Run
  imports Sim_Tick
begin

text \<open>
  Whole runs of the simulator, \<^verbatim>\<open>run_simulation\<close>: the invariants of a tick carried
  through the tick loop, the bound on the number of ticks, and what they say of the metrics and the
  timeline a run returns.
\<close>

subsection \<open>The timeline through a tick\<close>

lemma sim_tick_timeline:
  assumes inv: "sim_inv np (int t) st" and nc: "length (cpus st) = nc" and tl: "timeline_inv nc t st"
    and room: "t * nc + nc \<le> length (slot_array st)" "int (length (slot_array st)) \<le> INT_MAX"
  defines "st' \<equiv> sim_tick np (int nc) (int t) st"
  shows "timeline_inv nc (Suc t) st'" and "length (slot_array st') = length (slot_array st)"
proof -
  have nc': "length (cpus st) = nat (int nc)" using nc by simp
  obtain s ps cs where c: "core_inv (int t) (int t + 1) (nat np) s ps (cpu_ids cs)" and len: "length cs = nc"
    and maps: "map spec ps = map spec (procs st)" "map runtime_ticks ps = map runtime_ticks (procs st)"
    and sl: "slot_array st' = record_timeline (int nc) cs ps (int t) (slot_array st)"
    and run: "(scheduler st', procs st', cpus st', busy st') = fold (run_step (int t)) [0..<length cs] (s, ps, cs, busy st)"
    using sim_tick_split [OF inv nc'] unfolding st'_def by (metis nat_int)
  let ?sl = "slot_array st" and ?row = "timeline_row ps cs"
  have rowlen: "length ?row = nc" using len by (simp add: timeline_row_def)
  have sl': "slot_array st' = take (t * nc) ?sl @ ?row @ drop (t * nc + nc) ?sl"
    unfolding sl by (rule record_timeline_row [OF len room])
  then show L: "length (slot_array st') = length ?sl" using room rowlen by simp
  have R: "runtime_where Q (procs st') = runtime_where Q ps + running_where Q ps cs"
    "map spec (procs st') = map spec ps" for Q
    using run_core [OF c run [symmetric], of Q] by auto
  have rest: "k < length ?sl \<Longrightarrow> t * nc \<le> k \<Longrightarrow> ?sl ! k = -1" for k using tl by (auto simp: timeline_inv_def)
  have old: "count_list ?sl v = count_list (take (t * nc) ?sl) v + count_list (drop (t * nc + nc) ?sl) v" if "v \<noteq> -1" for v
  proof -
    have "?sl = take (t * nc) ?sl @ take nc (drop (t * nc) ?sl) @ drop (t * nc + nc) ?sl"
      by (metis add.commute append_take_drop_id drop_drop)
    moreover have "take nc (drop (t * nc) ?sl) = replicate nc (-1)"
      using room rest by (intro nth_equalityI) auto
    ultimately have "count_list ?sl v = count_list (take (t * nc) ?sl @ replicate nc (-1) @ drop (t * nc + nc) ?sl) v"
      by simp
    moreover have "count_list (replicate m (-1 :: int)) v = 0" for m
      using that by (induction m) auto
    ultimately show ?thesis by simp
  qed
  show "timeline_inv nc (Suc t) st'"
    unfolding timeline_inv_def
  proof (intro conjI allI impI)
    fix k assume "Suc t * nc \<le> k" "k < length (slot_array st')"
    then show "slot_array st' ! k = -1" using rest [of k] L rowlen room by (auto simp: sl' nth_append)
  next
    fix v :: int assume v: "v \<noteq> -1"
    have "int (count_list ?sl v) = runtime_where (\<lambda>sp. pid sp = v) (procs st)"
      using tl v by (simp add: timeline_inv_def)
    then show "int (count_list (slot_array st') v) = runtime_where (\<lambda>sp. pid sp = v) (procs st')"
      using old [OF v] runtime_where_cong [OF maps, of "\<lambda>sp. pid sp = v"]
      by (simp add: sl' R(1) count_timeline_row [OF v, symmetric])
  next
    fix u v assume u: "u < Suc t" and v: "(v :: int) \<noteq> -1"
    have sp: "map spec (procs st') = map spec (procs st)" using R(2) maps(1) by simp
    show "count_list (take nc (drop (u * nc) (slot_array st'))) v
        \<le> length (filter (\<lambda>sp. pid sp = v) (map spec (procs st')))"
    proof (cases "u = t")
      case True
      have "cpu_ids cs = ids PROC_RUNNING ps" using c by (simp add: core_inv_def)
      from running_where_bound [OF this, of "\<lambda>sp. pid sp = v"] count_timeline_row [OF v, of ps cs]
      have "count_list ?row v \<le> length (filter (\<lambda>sp. pid sp = v) (map spec ps))"
        by (simp add: filter_map o_def)
      then show ?thesis unfolding True sl' using room rowlen by (simp add: R(2))
    next
      case False
      with u have "Suc u * nc \<le> t * nc" by (intro mult_le_mono1) simp
      then have "take nc (drop (u * nc) (slot_array st')) = take nc (drop (u * nc) ?sl)"
        using room by (simp add: sl' drop_take)
      with tl u v False show ?thesis by (simp add: timeline_inv_def sp)
    qed
  qed
qed

subsection \<open>The initial state\<close>

text \<open>The number of slots, a product of two \<open>int\<close>s, is an \<open>int\<close> itself.\<close>

definition slots_fit :: "SimulationConfig \<Rightarrow> bool" where
  "slots_fit cf \<longleftrightarrow> c_cpu_count cf * max_ticks cf \<le> INT_MAX"

lemma initial_slots_fit:
  assumes "slots_fit cf"
  shows "initial_slots mem cf = replicate (nat (c_cpu_count cf * max_ticks cf)) (-1)"
proof (rule nth_equalityI)
  fix i assume "i < length (initial_slots mem cf)"
  then have i: "i < nat (c_cpu_count cf * max_ticks cf)" by (simp add: initial_slots_def)
  then have "to_int32 (c_cpu_count cf * max_ticks cf) = c_cpu_count cf * max_ticks cf"
    using assms by (intro to_int32_id) (auto simp: slots_fit_def INT_MAX_def)
  moreover have "int i < c_cpu_count cf * max_ticks cf" using i by linarith
  ultimately show "initial_slots mem cf ! i = replicate (nat (c_cpu_count cf * max_ticks cf)) (-1) ! i"
    using i by (simp only: initial_slots_def nth_map_upt diff_zero nth_replicate add_0 if_True simp_thms)
qed (simp add: initial_slots_def)

text \<open>Otherwise memory stays as it was allocated: 8 CPUs and 268435456 ticks make the product negative, and no slot is marked.\<close>

lemma initial_slots_overflow:
  assumes "c_cpu_count cf = 8" "max_ticks cf = 268435456" "i < 2147483648"
  shows "initial_slots mem cf ! i = mem i" and "length (initial_slots mem cf) = 2147483648"
  using assms by (simp_all add: initial_slots_def to_int32_def)

lemma initial_state_inv:
  fixes alg :: AlgorithmKind and mem :: "nat \<Rightarrow> int"
  assumes wf: "wf_workload w" and cfg: "1 \<le> c_cpu_count cf" "c_cpu_count cf \<le> 8"
  defines "st \<equiv> initial_state mem w cf alg"
  shows "sim_inv (process_count w) 0 st" and "length (cpus st) = nat (c_cpu_count cf)"
    and "map spec (procs st) = take (nat (process_count w)) (processes w)"
    and "total_work (procs st) = (\<Sum>sp \<leftarrow> take (nat (process_count w)) (processes w). work_from sp 0)"
    and "scheduler st = scheduler_init alg (c_cpu_count cf) (process_count w) (c_seed cf)"
    and "length (slot_array st) = nat (c_cpu_count cf * max_ticks cf)"
    and "slots_fit cf \<Longrightarrow> timeline_inv nc 0 st"
proof -
  let ?n = "nat (process_count w)" and ?ps = "initialize_runtime w (process_count w)"
  have n: "?n \<le> 128" "length (processes w) = 128" "\<forall>i < ?n. wf_spec (processes w ! i)"
    using wf by (auto simp: wf_workload_def)
  have nth: "?ps ! i = \<lparr>spec = processes w ! i, pstate = PROC_NEW, burst_index = 0,
          remaining_in_burst = duration (bursts (processes w ! i) ! 0), ready_since = arrival (processes w ! i),
          first_run_tick = -1, completion_tick = -1, total_waiting = 0, runtime_ticks = 0,
          migrations = 0, last_cpu = -1, assigned_cpu = affinity (processes w ! i), queue_level = 0\<rparr>" if "i < ?n" for i
    using that by (simp add: initialize_runtime_def Let_def)
  have len: "length ?ps = ?n" by (simp add: initialize_runtime_def)
  have new: "pstate (?ps ! i) = PROC_NEW" if "i < ?n" for i using nth [OF that] by simp
  have pv: "pinv 0 0 (?ps ! i)" if "i < ?n" for i
    using nth [OF that] n(3) that by (auto simp: pinv_def proc_inv_def time_inv_def wf_spec_def cpu_work_def)
  have wk: "work (?ps ! i) = work_from (processes w ! i) 0" if "i < ?n" for i
  proof -
    have "wf_spec (processes w ! i)" using n(3) that by simp
    then have "work_from (processes w ! i) 0 = duration (bursts (processes w ! i) ! 0) + work_from (processes w ! i) (Suc 0)"
      by (intro work_from_Suc) (auto simp: wf_spec_def)
    then show ?thesis using nth [OF that] by (simp add: work_def)
  qed
  have ids0: "ids st ?ps = {#}" if "st \<noteq> PROC_NEW" for st
    using new len that by (auto simp: ids_def idset_def mset_set_empty_iff)
  have "procs_ok ?ps" unfolding procs_ok_def all_set_conv_all_nth len
    using nth n(3) by (auto simp: wf_spec_def)
  moreover have "\<forall>p \<in> set ?ps. pinv 0 0 p" unfolding all_set_conv_all_nth len using pv by blast
  moreover have c0: "cpu_ids (initialize_cpus (c_cpu_count cf)) = {#}"
    by (auto simp: cpu_ids_def initialize_cpus_def filter_mset_eq_mempty_iff)
  moreover have rt: "runtime_where Q ?ps = 0" for Q
  proof -
    have "map (\<lambda>p. if Q (spec p) then runtime_ticks p else 0) ?ps = map (\<lambda>_. 0) ?ps"
      by (rule nth_equalityI) (use nth len in auto)
    then show ?thesis unfolding runtime_where_def by (simp only: sum_list_0)
  qed
  ultimately show "sim_inv (process_count w) 0 st"
    using scheduler_init_ok [OF cfg, of alg "process_count w" "c_seed cf"] ids0 len n(1) cfg runtime_where_all [of ?ps]
    by (simp add: sim_inv_def st_def initial_state_def core_inv_def initialize_cpus_def)
  show "length (cpus st) = nat (c_cpu_count cf)" by (simp add: st_def initial_state_def initialize_cpus_def)
  show sp: "map spec (procs st) = take ?n (processes w)"
    by (rule nth_equalityI) (use nth n len in \<open>auto simp: st_def initial_state_def\<close>)
  have "map work ?ps = map (\<lambda>sp. work_from sp 0) (take ?n (processes w))"
    by (rule nth_equalityI) (use wk n len in auto)
  then show "total_work (procs st) = (\<Sum>sp \<leftarrow> take ?n (processes w). work_from sp 0)"
    by (simp add: total_work_def st_def initial_state_def)
  show "scheduler st = scheduler_init alg (c_cpu_count cf) (process_count w) (c_seed cf)" by (simp add: st_def initial_state_def)
  show "length (slot_array st) = nat (c_cpu_count cf * max_ticks cf)" by (simp add: st_def initial_state_def initial_slots_def)
  have "count_list (replicate m (-1 :: int)) v = 0" if "v \<noteq> -1" for m v using that by (induction m) auto
  then show "timeline_inv nc 0 st" if "slots_fit cf"
    by (simp add: rt timeline_inv_def st_def initial_state_def initial_slots_fit [OF that])
qed

lemma initial_work_pos:
  assumes "wf_workload w" "1 \<le> c_cpu_count cf" "c_cpu_count cf \<le> 8"
  shows "0 < total_work (procs (initial_state mem w cf alg))"
proof -
  let ?st = "initial_state mem w cf alg"
  have c: "core_inv 0 0 (nat (process_count w)) (scheduler ?st) (procs ?st) (cpu_ids (cpus ?st))"
    using initial_state_inv(1) [OF assms, where alg = alg and mem = mem] by (simp add: sim_inv_def)
  have "0 < nat (process_count w)" using assms(1) by (simp add: wf_workload_def)
  then have "\<not> all_done (procs ?st) (process_count w)"
    by (auto simp: all_done_def list_all_length initial_state_def initialize_runtime_def Let_def intro: exI [of _ 0])
  then show ?thesis using all_done_iff [OF c] total_work_nonneg [OF c] by simp
qed

subsection \<open>The tick loop\<close>

declare sim_loop.simps [simp del]

lemma sim_loop_step:
  "t < limit \<Longrightarrow> sim_loop np nc limit t st =
     (if all_done (procs (sim_tick np nc t st)) np then (t + 1, sim_tick np nc t st)
      else sim_loop np nc limit (t + 1) (sim_tick np nc t st))"
  by (subst sim_loop.simps) (simp add: Let_def)

lemma sim_loop_end: "limit \<le> t \<Longrightarrow> sim_loop np nc limit t st = (limit, st)"
  by (subst sim_loop.simps) simp

text \<open>The loop ends in a state that satisfies the invariant at the tick it returns, and either every
  process is done or the limit is reached.\<close>

lemma sim_loop_inv:
  assumes "sim_inv np t st" "length (cpus st) = nat nc" "t \<le> limit" "sim_loop np nc limit t st = (t', st')"
  shows "sim_inv np t' st' \<and> length (cpus st') = nat nc \<and> map spec (procs st') = map spec (procs st) \<and>
    t \<le> t' \<and> t' \<le> limit \<and> (all_done (procs st') np \<or> t' = limit)"
  using assms
proof (induction np nc limit t st arbitrary: t' st' rule: sim_loop.induct)
  case (1 np nc limit t st)
  show ?case
  proof (cases "t < limit")
    case True
    let ?st = "sim_tick np nc t st"
    from sim_tick_inv [OF 1(2,3)] have T: "sim_inv np (t + 1) ?st" "length (cpus ?st) = nat nc"
      "map spec (procs ?st) = map spec (procs st)" by auto
    show ?thesis
    proof (cases "all_done (procs ?st) np")
      case True
      with \<open>t < limit\<close> 1(5) T show ?thesis by (auto simp: sim_loop_step)
    next
      case False
      with \<open>t < limit\<close> 1(5) have "sim_loop np nc limit (t + 1) ?st = (t', st')" by (simp add: sim_loop_step)
      with 1(1) [OF True refl False T(1,2)] T(3) True show ?thesis by auto
    qed
  next
    case False
    with 1(2-5) show ?thesis by (auto simp: sim_loop_end)
  qed
qed

text \<open>Progress: once the last process has arrived, every tick does work until there is none.\<close>

lemma sim_loop_finishes:
  assumes "sim_inv np t st" "length (cpus st) = nat nc" "0 < total_work (procs st)" "sched_fit (scheduler st) (procs st)"
    "\<forall>p \<in> set (procs st). arrival (spec p) \<le> latest" "max t latest + total_work (procs st) \<le> limit"
    "sim_loop np nc limit t st = (t', st')"
  shows "all_done (procs st') np \<and> t' \<le> max t latest + total_work (procs st)"
  using assms
proof (induction np nc limit t st arbitrary: t' st' rule: sim_loop.induct)
  case (1 np nc limit t st)
  let ?st = "sim_tick np nc t st"
  have lt: "t < limit" using 1(4,7) by linarith
  from sim_tick_inv [OF 1(2,3)] have T: "sim_inv np (t + 1) ?st" "length (cpus ?st) = nat nc"
    "map spec (procs ?st) = map spec (procs st)" "total_work (procs ?st) \<le> total_work (procs st)"
    "same_kind (scheduler ?st) (scheduler st)"
    "(\<forall>p \<in> set (procs st). arrival (spec p) \<le> t) \<longrightarrow> 0 < total_work (procs st) \<longrightarrow>
       total_work (procs ?st) < total_work (procs st)" using 1(5) by auto
  have fit: "sched_fit (scheduler ?st) (procs ?st)" using sched_fit_cong [OF T(3,5)] 1(5) by simp
  have c: "core_inv (t + 1) (t + 1) (nat np) (scheduler ?st) (procs ?st) (cpu_ids (cpus ?st))"
    using T(1) by (simp add: sim_inv_def)
  have bound: "max (t + 1) latest + total_work (procs ?st) \<le> max t latest + total_work (procs st)"
  proof (cases "latest \<le> t")
    case True
    then have "\<forall>p \<in> set (procs st). arrival (spec p) \<le> t" using 1(6) by force
    then show ?thesis using T(6) 1(4) True by simp
  next
    case False
    then show ?thesis using T(4) by simp
  qed
  show ?case
  proof (cases "all_done (procs ?st) np")
    case True
    then have "st' = ?st" "t' = t + 1" using 1(8) lt by (simp_all add: sim_loop_step)
    with True 1(4) show ?thesis by simp
  next
    case False
    then have "0 < total_work (procs ?st)"
      using all_done_iff [OF c] total_work_nonneg [OF c] by simp
    moreover have "set (map spec (procs ?st)) = set (map spec (procs st))" using T(3) by simp
    then have "\<forall>p \<in> set (procs ?st). arrival (spec p) \<le> latest" using 1(6) by (metis (no_types) imageE imageI set_map)
    moreover have "sim_loop np nc limit (t + 1) ?st = (t', st')" using 1(8) lt False by (simp add: sim_loop_step)
    ultimately show ?thesis using 1(1) [OF lt refl False T(1,2)] fit bound 1(7) by fastforce
  qed
qed

lemma sim_loop_timeline:
  assumes "sim_inv np (int t) st" "length (cpus st) = nc" "timeline_inv nc t st" "t \<le> limit"
    "length (slot_array st) = nc * limit" "int (nc * limit) \<le> INT_MAX" "sim_loop np (int nc) (int limit) (int t) st = (t', st')"
  shows "timeline_inv nc (nat t') st' \<and> length (slot_array st') = nc * limit"
  using assms
proof (induction "limit - t" arbitrary: t st)
  case 0
  then show ?case by (auto simp: sim_loop_end)
next
  case (Suc d)
  let ?st = "sim_tick np (int nc) (int t) st"
  have lt: "t < limit" using Suc(2) by simp
  then have "Suc t * nc \<le> limit * nc" by (intro mult_le_mono1) simp
  then have room: "t * nc + nc \<le> length (slot_array st)" using Suc(7) by (simp add: algebra_simps)
  have "int (length (slot_array st)) \<le> INT_MAX" using Suc(7,8) by simp
  note T = sim_tick_timeline [OF Suc(3,4,5) room this]
  have I: "sim_inv np (int (Suc t)) ?st" "length (cpus ?st) = nc"
    using sim_tick_inv [OF Suc(3), of "int nc"] Suc(4) by (auto simp: add.commute)
  show ?case
  proof (cases "all_done (procs ?st) np")
    case True
    then have "st' = ?st" "t' = int (Suc t)" using Suc(9) lt by (auto simp: sim_loop_step)
    moreover from this have "nat t' = Suc t" by simp
    ultimately show ?thesis using T Suc(7) by simp
  next
    case False
    then have "sim_loop np (int nc) (int limit) (int (Suc t)) ?st = (t', st')"
      using Suc(9) lt by (simp add: sim_loop_step add.commute)
    with Suc(1) [OF _ I T(1)] T(2) Suc(2,7,8) lt show ?thesis by simp
  qed
qed

subsection \<open>Results\<close>

definition workload_specs :: "Workload \<Rightarrow> ProcessSpec list" where
  "workload_specs w = take (nat (process_count w)) (processes w)"

text \<open>Ticks of work in a workload, CPU and I/O.\<close>

definition workload_ticks :: "Workload \<Rightarrow> int" where
  "workload_ticks w = (\<Sum>sp \<leftarrow> workload_specs w. work_from sp 0)"

definition config_ok :: "SimulationConfig \<Rightarrow> bool" where
  "config_ok cf \<longleftrightarrow> 1 \<le> c_cpu_count cf \<and> c_cpu_count cf \<le> 8 \<and> 0 \<le> max_ticks cf"

lemma run_simulation_loop:
  assumes "wf_workload w" "config_ok cf" "run_simulation malloc w cf alg = Some (r, ps)"
  obtains mem t st where "malloc (timeline_bytes cf) = Some mem"
    "sim_loop (process_count w) (c_cpu_count cf) (max_ticks cf) 0 (initial_state mem w cf alg) = (t, st)"
    "procs st = ps" "metrics r = collect_metrics (initial_metrics cf alg) ps (process_count w) t (c_cpu_count cf) (busy st)"
    "timeline r = \<lparr>tick_count = t, tl_cpu_count = c_cpu_count cf, slots = slot_array st\<rparr>"
    "sim_inv (process_count w) t st" "length (cpus st) = nat (c_cpu_count cf)" "map spec ps = workload_specs w"
    "0 \<le> t" "t \<le> max_ticks cf" "all_done ps (process_count w) \<or> t = max_ticks cf"
    "slots_fit cf \<longrightarrow> timeline_inv (nat (c_cpu_count cf)) (nat t) st \<and>
      length (slot_array st) = nat (c_cpu_count cf) * nat (max_ticks cf)"
proof -
  let ?nc = "nat (c_cpu_count cf)" and ?lim = "nat (max_ticks cf)"
  have cf: "1 \<le> c_cpu_count cf" "c_cpu_count cf \<le> 8" "0 \<le> max_ticks cf" using assms(2) by (auto simp: config_ok_def)
  obtain mem where mem: "malloc (timeline_bytes cf) = Some mem" using assms(3) by (auto simp: run_simulation_def split: option.splits)
  obtain t st where l: "sim_loop (process_count w) (c_cpu_count cf) (max_ticks cf) 0 (initial_state mem w cf alg) = (t, st)"
    by force
  note I = initial_state_inv [OF assms(1) cf(1,2), where alg = alg and mem = mem]
  note L = sim_loop_inv [OF I(1,2) cf(3) l]
  have l': "sim_loop (process_count w) (int ?nc) (int ?lim) (int 0) (initial_state mem w cf alg) = (t, st)"
    using l cf by simp
  have I1: "sim_inv (process_count w) (int 0) (initial_state mem w cf alg)" using I(1) by simp
  have sl: "length (slot_array (initial_state mem w cf alg)) = ?nc * ?lim"
    using I(6) cf by (simp add: nat_mult_distrib)
  have T: "timeline_inv ?nc (nat t) st \<and> length (slot_array st) = ?nc * ?lim" if f: "slots_fit cf"
  proof (rule sim_loop_timeline [OF I1 I(2) I(7) [OF f] _ sl _ l'])
    show "int (?nc * ?lim) \<le> INT_MAX" using f cf by (simp add: slots_fit_def)
  qed simp
  have "run_simulation malloc w cf alg = Some (\<lparr>metrics = collect_metrics (initial_metrics cf alg) (procs st)
      (process_count w) t (c_cpu_count cf) (busy st), timeline = \<lparr>tick_count = t, tl_cpu_count = c_cpu_count cf,
      slots = slot_array st\<rparr>\<rparr>, procs st)" by (simp add: run_simulation_def l mem)
  with assms(3) that [OF mem l] L T I(3) show ?thesis by (auto simp: workload_specs_def)
qed

lemma run_simulation_some:
  "malloc (timeline_bytes cf) = Some mem \<Longrightarrow> \<exists>r ps. run_simulation malloc w cf alg = Some (r, ps)"
  by (simp add: run_simulation_def Let_def split: prod.splits)

lemma run_simulation_fails: "run_simulation malloc w cf alg = None \<longleftrightarrow> malloc (timeline_bytes cf) = None"
  by (auto simp: run_simulation_def Let_def split: prod.splits option.splits)

text \<open>A run depends on its allocator only through the memory it is given.\<close>

lemma run_simulation_cong:
  "m1 (timeline_bytes cf) = m2 (timeline_bytes cf) \<Longrightarrow> run_simulation m1 w cf alg = run_simulation m2 w cf alg"
  by (simp add: run_simulation_def)

lemma cpu_work_mono:
  assumes "wf_spec sp" "j \<le> k" "k \<le> nat (burst_count sp)"
  shows "cpu_work sp j \<le> cpu_work sp k"
  using assms(2,3)
proof (induction k rule: dec_induct)
  case (step m)
  then have m: "m < nat (burst_count sp)" by simp
  with assms(1) have "1 \<le> duration (bursts sp ! m)" "m < length (bursts sp)" by (auto simp: wf_spec_def)
  with step m show ?case by (simp add: cpu_work_Suc)
qed simp

lemma proc_inv_runtime: "proc_inv p \<Longrightarrow> 0 \<le> runtime_ticks p \<and> runtime_ticks p \<le> cpu_demand (spec p)"
proof -
  assume p: "proc_inv p"
  then have wf: "wf_spec (spec p)" and k: "0 \<le> burst_index p" by (auto simp: proc_inv_def)
  have zero: "0 \<le> cpu_work (spec p) m" if "m \<le> nat (burst_count (spec p))" for m
    using cpu_work_mono [OF wf _ that, of 0] by (simp add: cpu_work_def)
  show ?thesis
  proof (cases "pstate p = PROC_DONE")
    case True
    then show ?thesis using p zero by (auto simp: proc_inv_def cpu_demand_def)
  next
    case False
    then have b: "burst_index p < burst_count (spec p)" using p by (simp add: proc_inv_def)
    let ?k = "nat (burst_index p)"
    note B = wf_burst [OF wf k b]
    from cpu_work_mono [OF wf, of "Suc ?k" "nat (burst_count (spec p))"] cpu_work_Suc [OF B(3)] B(2,4)
    have "cpu_work (spec p) ?k + (if even ?k then duration (bursts (spec p) ! ?k) else 0) \<le> cpu_demand (spec p)"
      by (simp add: cpu_demand_def split: if_splits)
    with p False zero [of ?k] B(4) show ?thesis by (auto simp: proc_inv_def)
  qed
qed

end
