(* ===== verification/C_String.thy ===== *)
theory C_String
  imports Prelude
begin

text \<open>
  The parts of the C library the simulator's parser and argument scanner use: character classes of the
  C locale, \<open>strtok_r\<close>, \<open>strtol\<close>/\<open>strtoul\<close> in base 10 with the saturation of a 64-bit
  \<open>long\<close>, \<open>fgets\<close> with its buffer size, and truncating \<open>snprintf("%s")\<close>; and those its report
  writer uses: \<open>printf\<close> of an \<open>int\<close> and of a \<open>double\<close> with a fixed number of decimals, which rounds
  twice, to the \<open>double\<close> and to the decimals. A C string is the list of its characters before the terminating NUL.
\<close>

subsection \<open>Characters\<close>

definition c_isspace :: "char \<Rightarrow> bool" where
  "c_isspace c \<longleftrightarrow> c = CHR '' '' \<or> (of_char c :: nat) \<in> {9, 10, 11, 12, 13}"

definition c_isdigit :: "char \<Rightarrow> bool" where
  "c_isdigit c \<longleftrightarrow> (48 :: nat) \<le> of_char c \<and> of_char c \<le> (57 :: nat)"

definition c_toupper :: "char \<Rightarrow> char" where
  "c_toupper c = (if (97 :: nat) \<le> of_char c \<and> of_char c \<le> (122 :: nat) then char_of (of_char c - 32 :: nat) else c)"

text \<open>The bytes of a buffer up to the first NUL.\<close>

definition c_str :: "string \<Rightarrow> string" where
  "c_str s = takeWhile (\<lambda>c. c \<noteq> CHR 0x00) s"

text \<open>\<^verbatim>\<open>snprintf(buf, size, "%s", s)\<close>\<close>

definition c_snprintf_s :: "nat \<Rightarrow> string \<Rightarrow> string" where
  "c_snprintf_s sz s = take (sz - 1) s"

subsection \<open>Numbers\<close>

definition LONG_MAX :: int where "LONG_MAX = 9223372036854775807"

text \<open>The value of a digit string read after \<open>acc\<close>.\<close>

fun digits_value :: "int \<Rightarrow> string \<Rightarrow> int" where
  "digits_value acc [] = acc"
| "digits_value acc (c # cs) = (if c_isdigit c then digits_value (acc * 10 + (of_char c - 48)) cs else acc)"

text \<open>Optional sign and digits after leading white space; no digits give 0.\<close>

definition sign_split :: "string \<Rightarrow> bool \<times> string" where
  "sign_split s =
     (case dropWhile c_isspace s of
        [] \<Rightarrow> (False, [])
      | c # cs \<Rightarrow> if c = CHR ''-'' then (True, cs) else if c = CHR ''+'' then (False, cs) else (False, c # cs))"

definition c_strtol :: "string \<Rightarrow> int" where
  "c_strtol s =
     (let (neg, ds) = sign_split s; v = digits_value 0 ds in
      if neg then max (- v) (- LONG_MAX - 1) else min v LONG_MAX)"

text \<open>\<^verbatim>\<open>atoi\<close> is the conversion of \<open>strtol\<close>'s result to \<open>int\<close>.\<close>

definition c_atoi :: "string \<Rightarrow> int" where
  "c_atoi s = to_int32 (c_strtol s)"

text \<open>\<^verbatim>\<open>strtoul\<close> negates modulo \<open>2 ^ 64\<close> and saturates at the largest value.\<close>

definition c_strtoul :: "string \<Rightarrow> u64" where
  "c_strtoul s =
     (let (neg, ds) = sign_split s; v = digits_value 0 ds in
      if v > 2 * LONG_MAX + 1 then - 1 else if neg then - word_of_int v else word_of_int v)"

subsection \<open>Printing\<close>

text \<open>\<^verbatim>\<open>%d\<close>, and a left-justified field \<^verbatim>\<open>%-wd\<close>.\<close>

fun c_nat :: "nat \<Rightarrow> string" where
  "c_nat n = (if n < 10 then [char_of (48 + n)] else c_nat (n div 10) @ [char_of (48 + n mod 10)])"

declare c_nat.simps [simp del]

definition c_dec :: "int \<Rightarrow> string" where
  "c_dec n = (if n < 0 then CHR ''-'' # c_nat (nat (- n)) else c_nat (nat n))"

definition c_dec_left :: "nat \<Rightarrow> int \<Rightarrow> string" where
  "c_dec_left w n = c_dec n @ replicate (w - length (c_dec n)) CHR '' ''"

text \<open>Rounding to the nearest integer, ties to even.\<close>

definition round_even :: "rat \<Rightarrow> int" where
  "round_even x =
     (let f = \<lfloor>x\<rfloor>; d = x - of_int f in if d < 1 / 2 \<or> d = 1 / 2 \<and> even f then f else f + 1)"

text \<open>The \<open>double\<close> nearest to a quotient: 53 significant bits. The quotients are of machine integers, far from
  the smallest and the largest \<open>double\<close>.\<close>

fun bit_count :: "nat \<Rightarrow> nat" where
  "bit_count n = (if n = 0 then 0 else Suc (bit_count (n div 2)))"

declare bit_count.simps [simp del]

definition two_power :: "int \<Rightarrow> rat" where
  "two_power k = (if k \<ge> 0 then 2 ^ nat k else 1 / 2 ^ nat (- k))"

definition double_exp :: "rat \<Rightarrow> int" where
  "double_exp q =
     (case quotient_of q of (a, b) \<Rightarrow>
        let k = int (bit_count (nat a)) - int (bit_count (nat b)) in if two_power k \<le> q then k else k - 1)"

definition to_double :: "rat \<Rightarrow> rat" where
  "to_double q =
     (if q = 0 then 0
      else (let s = two_power (52 - double_exp \<bar>q\<bar>) in of_int (round_even (q * s)) / s))"

text \<open>\<^verbatim>\<open>%.<p>f\<close> of a \<open>double\<close>: its exact value, rounded to \<open>p\<close> decimals.\<close>

definition c_fixed :: "nat \<Rightarrow> rat \<Rightarrow> string" where
  "c_fixed p x =
     (let n = nat (round_even (\<bar>x\<bar> * 10 ^ p)); frac = c_nat (n mod 10 ^ p) in
      (if x < 0 then ''-'' else '''') @ c_nat (n div 10 ^ p) @ ''.'' @ replicate (p - length frac) CHR ''0'' @ frac)"

subsection \<open>Tokens and lines\<close>

text \<open>One call of \<^verbatim>\<open>strtok_r\<close>: the token and the rest after its delimiter.\<close>

definition c_strtok :: "string \<Rightarrow> string \<Rightarrow> (string \<times> string) option" where
  "c_strtok delims s =
     (case dropWhile (\<lambda>c. c \<in> set delims) s of
        [] \<Rightarrow> None
      | cs \<Rightarrow> Some (takeWhile (\<lambda>c. c \<notin> set delims) cs, drop 1 (dropWhile (\<lambda>c. c \<notin> set delims) cs)))"

lemma c_strtok_shorter: "c_strtok delims s = Some (tok, rest) \<Longrightarrow> length rest < length s"
proof -
  assume "c_strtok delims s = Some (tok, rest)"
  then obtain c cs where cs: "dropWhile (\<lambda>c. c \<in> set delims) s = c # cs"
    and rest: "rest = drop 1 (dropWhile (\<lambda>c. c \<notin> set delims) (c # cs))"
    unfolding c_strtok_def by (auto split: list.splits)
  have c: "c \<notin> set delims" using hd_dropWhile [of "\<lambda>c. c \<in> set delims" s] cs by auto
  have "length (c # cs) \<le> length s" using length_dropWhile_le [of "\<lambda>c. c \<in> set delims" s] cs by simp
  moreover have "length rest \<le> length cs"
    using c rest length_dropWhile_le [of "\<lambda>c. c \<notin> set delims" cs] by (simp add: le_diff_conv)
  ultimately show ?thesis by simp
qed

text \<open>All tokens of a string, the values of the repeated calls.\<close>

function c_tokens :: "string \<Rightarrow> string \<Rightarrow> string list" where
  "c_tokens delims s = (case c_strtok delims s of None \<Rightarrow> [] | Some (tok, rest) \<Rightarrow> tok # c_tokens delims rest)"
  by pat_completeness auto
termination
  by (relation "measure (\<lambda>(delims, s). length s)") (auto simp: c_strtok_shorter)

text \<open>One call of \<^verbatim>\<open>fgets(line, size, file)\<close>: at most \<open>size - 1\<close> characters, up to and
  including a newline; \<^const>\<open>None\<close> at the end of the file.\<close>

definition c_fgets :: "nat \<Rightarrow> string \<Rightarrow> (string \<times> string) option" where
  "c_fgets sz s =
     (if s = [] then None
      else (let line = takeWhile (\<lambda>c. c \<noteq> CHR 0x0A) (take (sz - 1) s);
                n = (if length line < length (take (sz - 1) s) then Suc (length line) else length line) in
            Some (take n s, drop n s)))"

lemma c_fgets_shorter: "1 < sz \<Longrightarrow> c_fgets sz s = Some (line, rest) \<Longrightarrow> length rest < length s"
proof -
  assume sz: "1 < sz" and g: "c_fgets sz s = Some (line, rest)"
  let ?t = "take (sz - 1) s" and ?l = "takeWhile (\<lambda>c. c \<noteq> CHR 0x0A) (take (sz - 1) s)"
  have s: "s \<noteq> []" and rest: "rest = drop (if length ?l < length ?t then Suc (length ?l) else length ?l) s"
    using g by (auto simp: c_fgets_def Let_def split: if_splits)
  have "0 < length ?t" using s sz by (cases s) auto
  moreover have "length ?l \<le> length ?t" by (rule length_takeWhile_le)
  ultimately have "0 < (if length ?l < length ?t then Suc (length ?l) else length ?l)" by auto
  with s show ?thesis unfolding rest by (cases s) auto
qed

subsection \<open>Facts\<close>

declare c_tokens.simps [simp del]

lemma c_tokens_unfold:
  "c_tokens delims s = (case c_strtok delims s of None \<Rightarrow> [] | Some (tok, rest) \<Rightarrow> tok # c_tokens delims rest)"
  by (rule c_tokens.simps)

lemma c_tokens_nonempty: "tok \<in> set (c_tokens delims s) \<Longrightarrow> tok \<noteq> [] \<and> set tok \<inter> set delims = {}"
proof (induction delims s rule: c_tokens.induct)
  case (1 delims s)
  show ?case
  proof (cases "c_strtok delims s")
    case None
    then show ?thesis using 1(2) by (simp add: c_tokens_unfold [of delims s])
  next
    case (Some r)
    obtain t rest where r: "r = (t, rest)" by force
    from Some r obtain c cs where cs: "dropWhile (\<lambda>c. c \<in> set delims) s = c # cs"
      and t: "t = takeWhile (\<lambda>c. c \<notin> set delims) (c # cs)"
      unfolding c_strtok_def by (auto split: list.splits)
    have "c \<notin> set delims" using hd_dropWhile [of "\<lambda>c. c \<in> set delims" s] cs by auto
    then have "t \<noteq> [] \<and> set t \<inter> set delims = {}" using t set_takeWhileD by fastforce
    moreover have "tok = t \<or> tok \<in> set (c_tokens delims rest)"
      using 1(2) Some r by (simp add: c_tokens_unfold [of delims s])
    ultimately show ?thesis using 1(1) [OF Some r [symmetric]] by auto
  qed
qed

lemma digits_value_mono: "0 \<le> acc \<Longrightarrow> acc \<le> digits_value acc ds"
proof (induction ds arbitrary: acc)
  case (Cons c cs)
  have "0 \<le> (of_char c - 48 :: int)" if "c_isdigit c"
    using that unfolding c_isdigit_def by (metis diff_ge_0_iff_ge of_nat_numeral of_nat_of_char of_nat_mono)
  then have "c_isdigit c \<Longrightarrow> 0 \<le> acc * 10 + (of_char c - 48) \<and> acc \<le> acc * 10 + (of_char c - 48)"
    using Cons.prems by linarith
  then have "c_isdigit c \<Longrightarrow> acc \<le> digits_value (acc * 10 + (of_char c - 48)) cs"
    using Cons.IH [of "acc * 10 + (of_char c - 48)"] by (metis order_trans)
  then show ?case by simp
qed simp

lemma c_strtol_range: "- LONG_MAX - 1 \<le> c_strtol s \<and> c_strtol s \<le> LONG_MAX"
proof -
  obtain n ds where s: "sign_split s = (n, ds)" by force
  have "0 \<le> digits_value 0 ds" using digits_value_mono [of 0 ds] by simp
  then show ?thesis by (simp add: c_strtol_def s LONG_MAX_def Let_def)
qed

subsection \<open>Printed numbers\<close>

lemma digit_char: "d < 10 \<Longrightarrow> c_isdigit (char_of (48 + d)) \<and> (of_char (char_of (48 + d :: nat)) :: nat) = 48 + d"
  by (simp add: c_isdigit_def of_char_mod_256)

lemma c_nat_digits: "\<forall>c \<in> set (c_nat n). c_isdigit c"
  by (induction n rule: c_nat.induct) (subst c_nat.simps, auto simp: digit_char)

lemma c_nat_nonempty [simp]: "c_nat n \<noteq> []"
  by (subst c_nat.simps) simp

lemma digits_value_append:
  "\<forall>c \<in> set ds. c_isdigit c \<Longrightarrow> digits_value acc (ds @ es) = digits_value (digits_value acc ds) es"
  by (induction ds arbitrary: acc) auto

lemma digits_value_c_nat: "digits_value 0 (c_nat n) = int n"
proof (induction n rule: c_nat.induct)
  case (1 n)
  have d: "digits_value a [char_of (48 + d :: nat)] = a * 10 + int d" if "d < 10" for a d
  proof -
    have "(of_char (char_of (48 + d :: nat)) :: int) = 48 + int d"
      using arg_cong [OF conjunct2 [OF digit_char [OF that]], of int] by (simp add: of_nat_of_char del: of_char_of)
    then show ?thesis using digit_char [OF that] by (simp del: of_char_of)
  qed
  show ?case
  proof (cases "n < 10")
    case True
    then show ?thesis using d [of n 0] by (subst c_nat.simps) simp
  next
    case False
    then have "c_nat n = c_nat (n div 10) @ [char_of (48 + n mod 10)]" by (subst c_nat.simps) simp
    then show ?thesis
      using 1 [OF False] d [of "n mod 10"] by (simp add: digits_value_append [OF c_nat_digits] del: digits_value.simps) presburger
  qed
qed

lemma digit_not: "c_isdigit c \<Longrightarrow> \<not> c_isspace c \<and> c \<noteq> CHR ''-'' \<and> c \<noteq> CHR ''+'' \<and> c \<noteq> CHR '','' \<and> c \<noteq> CHR ''.'' \<and> c \<noteq> CHR 0x0A"
  by (auto simp: c_isdigit_def c_isspace_def)

lemma sign_split_nat: "sign_split (c_nat n) = (False, c_nat n)"
proof -
  obtain c cs where c: "c_nat n = c # cs" by (cases "c_nat n") auto
  then have "c_isdigit c" using c_nat_digits [of n] by simp
  then show ?thesis using digit_not by (simp add: sign_split_def c)
qed

lemma c_strtol_dec:
  assumes "- LONG_MAX - 1 \<le> n" "n \<le> LONG_MAX"
  shows "c_strtol (c_dec n) = n"
proof (cases "n < 0")
  case True
  have "sign_split (CHR ''-'' # c_nat (nat (- n))) = (True, c_nat (nat (- n)))" by (simp add: sign_split_def c_isspace_def)
  with True assms show ?thesis by (simp add: c_dec_def c_strtol_def digits_value_c_nat)
next
  case False
  with assms show ?thesis by (simp add: c_dec_def c_strtol_def sign_split_nat digits_value_c_nat)
qed

subsection \<open>Rounding\<close>

lemma round_even_close: "\<bar>of_int (round_even x) - x\<bar> \<le> 1 / 2"
proof -
  have "of_int \<lfloor>x\<rfloor> \<le> x" "x < of_int \<lfloor>x\<rfloor> + 1" by linarith+
  then show ?thesis by (simp add: round_even_def Let_def abs_if) linarith
qed

lemma bit_count_bounds: "0 < n \<Longrightarrow> 2 ^ (bit_count n - 1) \<le> n \<and> n < 2 ^ bit_count n"
proof (induction n rule: bit_count.induct)
  case (1 n)
  show ?case
  proof (cases "n div 2 = 0")
    case True
    then have "n = 1" using 1(2) by simp
    then show ?thesis by (simp add: bit_count.simps)
  next
    case False
    then have h: "2 ^ (bit_count (n div 2) - 1) \<le> n div 2" "n div 2 < 2 ^ bit_count (n div 2)" using 1 by auto
    have "0 < bit_count (n div 2)" using False by (subst bit_count.simps) simp
    then have "2 * 2 ^ (bit_count (n div 2) - 1) = (2 :: nat) ^ bit_count (n div 2)" by (metis power_eq_if neq0_conv)
    moreover have "bit_count n = Suc (bit_count (n div 2))" using 1(2) by (subst bit_count.simps) simp
    ultimately show ?thesis using div_mult_mod_eq [of n 2] h by simp linarith
  qed
qed

lemma two_power_pos: "0 < two_power k"
  by (simp add: two_power_def)

lemma two_power_diff: "two_power (int a - int b) = 2 ^ a / 2 ^ b"
proof (cases "b \<le> a")
  case True
  then have "nat (int a - int b) = a - b" by simp
  with True show ?thesis by (simp add: two_power_def power_diff)
next
  case False
  then have "nat (int b - int a) = b - a" by simp
  with False show ?thesis by (simp add: two_power_def power_diff)
qed

lemma two_power_pred: "two_power (k - 1) = two_power k / 2"
  using two_power_diff [of "nat k" "nat (- k)"] two_power_diff [of "nat k" "Suc (nat (- k))"]
  by (cases "0 \<le> k") (auto simp: algebra_simps)

lemma two_power_52: "two_power (52 - k) * two_power k = 2 ^ 52"
  using two_power_diff [of "nat k" "nat (- k)"] two_power_diff [of "52 + nat (- k)" "nat k"]
  by (cases "0 \<le> k") (auto simp: power_add)

lemma double_exp_le:
  assumes "0 < q"
  shows "two_power (double_exp q) \<le> q"
proof -
  obtain a b where ab: "quotient_of q = (a, b)" by force
  have q: "q = of_int a / of_int b" and b: "0 < b" using quotient_of_div [OF ab] quotient_of_denom_pos [OF ab] by auto
  have a: "0 < a" using assms b by (simp add: q zero_less_divide_iff)
  let ?m = "bit_count (nat a)" and ?n = "bit_count (nat b)"
  have "0 < ?m" using a by (subst bit_count.simps) simp
  have A: "(2 :: int) ^ (?m - 1) \<le> a" using bit_count_bounds [of "nat a"] a by (metis zero_less_nat_eq int_nat_eq less_imp_le of_nat_le_iff of_nat_power of_nat_numeral)
  have B: "b < (2 :: int) ^ ?n" using bit_count_bounds [of "nat b"] b by (metis zero_less_nat_eq int_nat_eq less_imp_le of_nat_less_iff of_nat_power of_nat_numeral)
  have "(2 :: rat) ^ (?m - 1) \<le> of_int a" using A by (metis of_int_le_iff of_int_power of_int_numeral)
  moreover have "of_int b \<le> (2 :: rat) ^ ?n" using B by (metis of_int_le_iff of_int_power of_int_numeral less_imp_le)
  ultimately have "2 ^ (?m - 1) / 2 ^ ?n \<le> q" unfolding q using b a by (intro frac_le) auto
  moreover have "int ?m - int ?n - 1 = int (?m - 1) - int ?n" using \<open>0 < ?m\<close> by simp
  ultimately have "two_power (int ?m - int ?n - 1) \<le> q" by (simp only: two_power_diff)
  then show ?thesis by (simp add: double_exp_def ab Let_def)
qed

lemma to_double_close: "\<bar>to_double q - q\<bar> \<le> \<bar>q\<bar> / 2 ^ 53"
proof (cases "q = 0")
  case False
  let ?e = "double_exp \<bar>q\<bar>" and ?s = "two_power (52 - double_exp \<bar>q\<bar>)"
  have s: "0 < ?s" by (rule two_power_pos)
  have "to_double q - q = (of_int (round_even (q * ?s)) - q * ?s) / ?s" using False s by (simp add: to_double_def Let_def field_simps)
  then have "\<bar>to_double q - q\<bar> = \<bar>of_int (round_even (q * ?s)) - q * ?s\<bar> / ?s" using s by (simp add: abs_divide)
  also have "\<dots> \<le> (1 / 2) / ?s" using round_even_close s by (intro divide_right_mono) auto
  also have "\<dots> = two_power ?e / 2 ^ 53" using two_power_52 [of ?e] s by (simp add: field_simps)
  also have "\<dots> \<le> \<bar>q\<bar> / 2 ^ 53" using double_exp_le [of "\<bar>q\<bar>"] False by (intro divide_right_mono) auto
  finally show ?thesis .
qed (simp add: to_double_def)

lemma digits_value_acc: "\<forall>c \<in> set ds. c_isdigit c \<Longrightarrow> digits_value acc ds = acc * 10 ^ length ds + digits_value 0 ds"
proof (induction ds arbitrary: acc)
  case (Cons c cs)
  have "digits_value (acc * 10 + (of_char c - 48)) cs = (acc * 10 + (of_char c - 48)) * 10 ^ length cs + digits_value 0 cs"
    "digits_value (of_char c - 48) cs = (of_char c - 48) * 10 ^ length cs + digits_value 0 cs"
    using Cons.IH [of "acc * 10 + (of_char c - 48)"] Cons.IH [of "of_char c - 48"] Cons.prems by simp_all
  then show ?case using Cons.prems by (simp add: algebra_simps)
qed simp

lemma c_nat_length: "b < 10 ^ p \<Longrightarrow> 1 \<le> p \<Longrightarrow> length (c_nat b) \<le> p"
proof (induction p arbitrary: b)
  case (Suc p)
  show ?case
  proof (cases "b < 10")
    case True
    then show ?thesis by (subst c_nat.simps) simp
  next
    case False
    with Suc.prems have "b div 10 < 10 ^ p" "1 \<le> p" by (cases p; simp add: div_less_iff_less_mult mult.commute)+
    with Suc.IH False show ?thesis by (subst c_nat.simps) simp
  qed
qed simp

text \<open>A decimal number read back.\<close>

definition read_fixed :: "string \<Rightarrow> rat" where
  "read_fixed s =
     (let ds = (if take 1 s = ''-'' then drop 1 s else s); ip = takeWhile c_isdigit ds; fp = drop (Suc (length ip)) ds;
          v = of_int (digits_value 0 (ip @ fp)) / 10 ^ length fp in
      if take 1 s = ''-'' then - v else v)"

lemma read_fixed_parts:
  assumes "\<forall>c \<in> set i. c_isdigit c" "i \<noteq> []"
  shows "read_fixed (i @ CHR ''.'' # z) = of_int (digits_value 0 (i @ z)) / 10 ^ length z"
    "read_fixed (CHR ''-'' # i @ CHR ''.'' # z) = - (of_int (digits_value 0 (i @ z)) / 10 ^ length z)"
proof -
  obtain c cs where c: "i = c # cs" using assms(2) by (cases i) auto
  then have m: "c \<noteq> CHR ''-''" using assms(1) digit_not by auto
  have "takeWhile c_isdigit (i @ CHR ''.'' # z) = i" using assms(1) by (subst takeWhile_append2) (auto simp: c_isdigit_def)
  then have i: "takeWhile c_isdigit (c # cs @ CHR ''.'' # z) = c # cs" by (simp only: c append_Cons)
  show "read_fixed (i @ CHR ''.'' # z) = of_int (digits_value 0 (i @ z)) / 10 ^ length z"
    using m by (simp add: read_fixed_def c i Let_def del: takeWhile.simps digits_value.simps)
  show "read_fixed (CHR ''-'' # i @ CHR ''.'' # z) = - (of_int (digits_value 0 (i @ z)) / 10 ^ length z)"
    by (simp add: read_fixed_def c i Let_def del: takeWhile.simps digits_value.simps)
qed

lemma read_c_fixed:
  assumes "1 \<le> p"
  shows "read_fixed (c_fixed p x) = (if x < 0 then -1 else 1) * of_int (round_even (\<bar>x\<bar> * 10 ^ p)) / 10 ^ p"
proof -
  define n where "n = nat (round_even (\<bar>x\<bar> * 10 ^ p))"
  let ?i = "c_nat (n div 10 ^ p)" and ?f = "c_nat (n mod 10 ^ p)"
  let ?z = "replicate (p - length ?f) CHR ''0'' @ ?f"
  have z: "\<forall>c \<in> set ?z. c_isdigit c" using c_nat_digits by (auto simp: c_isdigit_def)
  have zl: "length ?z = p" using c_nat_length [of "n mod 10 ^ p" p] assms by simp
  have "0 \<le> \<bar>x\<bar> * 10 ^ p" by simp
  then have "0 \<le> round_even (\<bar>x\<bar> * 10 ^ p)" by (simp add: round_even_def Let_def)
  then have n: "int n = round_even (\<bar>x\<bar> * 10 ^ p)" by (simp add: n_def)
  have "digits_value 0 (replicate k CHR ''0'' @ ds) = digits_value 0 ds" for k ds
    by (induction k) (auto simp: c_isdigit_def)
  then have "digits_value 0 ?z = int (n mod 10 ^ p)" by (simp add: digits_value_c_nat)
  then have "digits_value 0 (?i @ ?z) = int (n div 10 ^ p) * 10 ^ p + int (n mod 10 ^ p)"
    using digits_value_acc [OF z, of "int (n div 10 ^ p)"] digits_value_append [OF c_nat_digits, of 0 "n div 10 ^ p" ?z] zl
    by (simp add: digits_value_c_nat)
  also have "\<dots> = int (n div 10 ^ p * 10 ^ p + n mod 10 ^ p)" by simp
  finally have v: "digits_value 0 (?i @ ?z) = int n" by (simp only: div_mult_mod_eq)
  note P = read_fixed_parts [OF c_nat_digits c_nat_nonempty, of "n div 10 ^ p" ?z]
  have "c_fixed p x = (if x < 0 then CHR ''-'' # ?i @ CHR ''.'' # ?z else ?i @ CHR ''.'' # ?z)" by (simp add: c_fixed_def Let_def n_def)
  then show ?thesis using P by (simp only: v zl n [symmetric]) (simp split: if_splits)
qed

text \<open>The error of a printed \<open>double\<close>: half a unit of the last decimal, and the rounding to 53 bits.\<close>

lemma printed_close:
  assumes "1 \<le> p"
  shows "\<bar>read_fixed (c_fixed p (to_double q)) - q\<bar> \<le> 1 / (2 * 10 ^ p) + \<bar>q\<bar> / 2 ^ 53"
proof -
  let ?x = "to_double q" and ?r = "of_int (round_even (\<bar>to_double q\<bar> * 10 ^ p)) :: rat"
  have "\<bar>?r - \<bar>?x\<bar> * 10 ^ p\<bar> \<le> 1 / 2" by (rule round_even_close)
  then have "\<bar>?r - \<bar>?x\<bar> * 10 ^ p\<bar> / 10 ^ p \<le> 1 / 2 / 10 ^ p" by (intro divide_right_mono) auto
  moreover have "?r / 10 ^ p - \<bar>?x\<bar> = (?r - \<bar>?x\<bar> * 10 ^ p) / 10 ^ p" by (simp add: diff_divide_distrib)
  ultimately have "\<bar>?r / 10 ^ p - \<bar>?x\<bar>\<bar> \<le> 1 / (2 * 10 ^ p)" by (simp only: abs_divide) simp
  moreover have "\<bar>read_fixed (c_fixed p ?x) - ?x\<bar> = \<bar>?r / 10 ^ p - \<bar>?x\<bar>\<bar>"
    unfolding read_c_fixed [OF assms] by (simp add: abs_if)
  ultimately show ?thesis using to_double_close [of q] by linarith
qed

subsection \<open>Tokens of a joined line\<close>

lemma c_tokens_Nil [simp]: "c_tokens delims [] = []"
  by (subst c_tokens_unfold) (simp add: c_strtok_def)

lemma c_tokens_Cons:
  assumes "tok \<noteq> []" "set tok \<inter> set delims = {}" "d \<in> set delims"
  shows "c_tokens delims (tok @ d # rest) = tok # c_tokens delims rest"
proof -
  obtain c cs where c: "tok = c # cs" using assms(1) by (cases tok) auto
  with assms(2) have "c \<notin> set delims" "takeWhile (\<lambda>c. c \<notin> set delims) (cs @ d # rest) = cs"
    "dropWhile (\<lambda>c. c \<notin> set delims) (cs @ d # rest) = d # rest"
    using assms(3) by (auto simp: disjoint_iff takeWhile_append2 dropWhile_append2)
  then have "c_strtok delims (tok @ d # rest) = Some (tok, rest)" by (simp add: c_strtok_def c)
  then show ?thesis by (subst c_tokens_unfold) simp
qed

lemma c_tokens_single:
  assumes "tok \<noteq> []" "set tok \<inter> set delims = {}"
  shows "c_tokens delims tok = [tok]"
proof -
  obtain c cs where c: "tok = c # cs" using assms(1) by (cases tok) auto
  with assms(2) have "dropWhile (\<lambda>c. c \<in> set delims) tok = tok" "takeWhile (\<lambda>c. c \<notin> set delims) tok = tok"
    "dropWhile (\<lambda>c. c \<notin> set delims) tok = []" by (auto simp: takeWhile_eq_all_conv disjoint_iff)
  then have "c_strtok delims tok = Some (tok, [])" by (simp add: c_strtok_def c)
  then show ?thesis by (subst c_tokens_unfold) simp
qed

end
