(* ===== verification/Sim_Report.thy ===== *)
theory Sim_Report
  imports Sim_Run C_String
begin

text \<open>
  The report writer, \<^verbatim>\<open>src/core/report.c\<close>: directories, the three files of a run, the comparison
  of several runs, and what is printed. Whether \<^verbatim>\<open>mkdir\<close> makes a directory or finds it there, and
  whether \<^verbatim>\<open>fopen\<close> opens a file, are arguments; the effects are the list of what the program does, and
  a file is its path with the bytes written into it. The code does not look at the results of
  \<^verbatim>\<open>fprintf\<close> and \<^verbatim>\<open>fclose\<close>.
\<close>

datatype out_event =
    Mkdir string
  | WriteFile string string
  | Stdout string
  | Stderr string

type_synonym outcome = "out_event list \<times> bool"

text \<open>\<^verbatim>\<open>if (a < 0 || b < 0) return -1\<close>\<close>

definition and_then :: "outcome \<Rightarrow> outcome \<Rightarrow> outcome" where
  "and_then a b = (if snd a then (fst a @ fst b, snd b) else a)"

subsection \<open>Directories\<close>

definition mkdir_if_needed :: "(string \<Rightarrow> bool) \<Rightarrow> string \<Rightarrow> outcome" where
  "mkdir_if_needed mkdir_ok path = (if mkdir_ok path then ([Mkdir path], True) else ([], False))"

text \<open>The loop over the buffer from the given index; a slash ends a directory that must exist. For the empty
  path, which \<open>main\<close> rejects, the code would read a byte it has not written.\<close>

fun ensure_loop :: "(string \<Rightarrow> bool) \<Rightarrow> string \<Rightarrow> nat list \<Rightarrow> outcome" where
  "ensure_loop mkdir_ok path [] = mkdir_if_needed mkdir_ok path"
| "ensure_loop mkdir_ok path (i # is) =
     (if path ! i = CHR ''/'' then and_then (mkdir_if_needed mkdir_ok (take i path)) (ensure_loop mkdir_ok path is)
      else ensure_loop mkdir_ok path is)"

definition ensure_output_dir :: "(string \<Rightarrow> bool) \<Rightarrow> string \<Rightarrow> outcome" where
  "ensure_output_dir mkdir_ok path =
     (if length path \<ge> MAX_PATH_LEN then ([], False) else ensure_loop mkdir_ok path [1..<length path])"

subsection \<open>The contents of the files\<close>

definition newline :: string where "newline = [CHR 0x0A]"

definition csv_header :: string where
  "csv_header = ''algorithm,cpu_count,total_ticks,completed,avg_waiting,avg_turnaround,avg_response,throughput,cpu_utilization,deadline_misses,migrations'' @ newline"

definition csv_row :: "SimulationMetrics \<Rightarrow> string" where
  "csv_row m = algorithm_name m @ '','' @ c_dec (m_cpu_count m) @ '','' @ c_dec (total_ticks m) @ '','' @
     c_dec (completed m) @ '','' @ c_fixed 2 (to_double (avg_waiting m)) @ '','' @
     c_fixed 2 (to_double (avg_turnaround m)) @ '','' @ c_fixed 2 (to_double (avg_response m)) @ '','' @
     c_fixed 4 (to_double (throughput m)) @ '','' @ c_fixed 4 (to_double (cpu_utilization m)) @ '','' @
     c_dec (deadline_misses m) @ '','' @ c_dec (m_migrations m) @ newline"

definition metrics_csv :: "SimulationResult \<Rightarrow> string" where
  "metrics_csv r = csv_header @ csv_row (metrics r)"

text \<open>The slot of a tick and a CPU.\<close>

definition slot_at :: "Timeline \<Rightarrow> nat \<Rightarrow> nat \<Rightarrow> int" where
  "slot_at tln tick cpu = slots tln ! nat (int tick * tl_cpu_count tln + int cpu)"

definition slot_cell :: "int \<Rightarrow> string" where
  "slot_cell p = (if p \<ge> 0 then ''P'' @ c_dec p else ''idle'')"

definition timeline_row :: "Timeline \<Rightarrow> nat \<Rightarrow> string" where
  "timeline_row tln tick = c_dec (int tick) @
     concat (map (\<lambda>cpu. '','' @ slot_cell (slot_at tln tick cpu)) [0..<nat (tl_cpu_count tln)]) @ newline"

definition timeline_csv :: "Timeline \<Rightarrow> string" where
  "timeline_csv tln =
     ''tick'' @ concat (map (\<lambda>cpu. '',cpu'' @ c_dec (int cpu)) [0..<nat (tl_cpu_count tln)]) @ newline @
     concat (map (timeline_row tln) [0..<nat (tick_count tln)])"

definition summary_text :: "string \<Rightarrow> SimulationMetrics \<Rightarrow> string" where
  "summary_text workload_path m =
     ''Algorithm: '' @ algorithm_name m @ newline @ ''Workload: '' @ workload_path @ newline @
     ''CPUs: '' @ c_dec (m_cpu_count m) @ newline @ ''Ticks: '' @ c_dec (total_ticks m) @ newline @
     ''Completed: '' @ c_dec (completed m) @ newline @
     ''Average waiting time: '' @ c_fixed 2 (to_double (avg_waiting m)) @ newline @
     ''Average turnaround time: '' @ c_fixed 2 (to_double (avg_turnaround m)) @ newline @
     ''Average response time: '' @ c_fixed 2 (to_double (avg_response m)) @ newline @
     ''Throughput: '' @ c_fixed 4 (to_double (throughput m)) @ newline @
     ''CPU utilization: '' @ c_fixed 4 (to_double (cpu_utilization m)) @ newline @
     ''Deadline misses: '' @ c_dec (deadline_misses m) @ newline @
     ''Migrations: '' @ c_dec (m_migrations m) @ newline"

definition comparison_csv :: "SimulationResult list \<Rightarrow> string" where
  "comparison_csv rs = csv_header @ concat (map (\<lambda>r. csv_row (metrics r)) rs)"

subsection \<open>Writing\<close>

definition write_file :: "(string \<Rightarrow> bool) \<Rightarrow> string \<Rightarrow> string \<Rightarrow> outcome" where
  "write_file fopen_ok path content = (if fopen_ok path then ([WriteFile path content], True) else ([], False))"

definition write_metrics_csv_file :: "(string \<Rightarrow> bool) \<Rightarrow> string \<Rightarrow> SimulationResult \<Rightarrow> outcome" where
  "write_metrics_csv_file fopen_ok path r = write_file fopen_ok path (metrics_csv r)"

definition write_timeline_csv_file :: "(string \<Rightarrow> bool) \<Rightarrow> string \<Rightarrow> SimulationResult \<Rightarrow> outcome" where
  "write_timeline_csv_file fopen_ok path r = write_file fopen_ok path (timeline_csv (timeline r))"

definition write_summary_file :: "(string \<Rightarrow> bool) \<Rightarrow> string \<Rightarrow> string \<Rightarrow> SimulationResult \<Rightarrow> outcome" where
  "write_summary_file fopen_ok path workload_path r = write_file fopen_ok path (summary_text workload_path (metrics r))"

text \<open>A path that does not fit is cut off.\<close>

definition result_dir :: "string \<Rightarrow> SimulationResult \<Rightarrow> string" where
  "result_dir base_dir r = c_snprintf_s MAX_PATH_LEN (base_dir @ ''/'' @ algorithm_name (metrics r))"

definition write_result_files :: "(string \<Rightarrow> bool) \<Rightarrow> (string \<Rightarrow> bool) \<Rightarrow> string \<Rightarrow> string \<Rightarrow> SimulationResult \<Rightarrow> outcome" where
  "write_result_files mkdir_ok fopen_ok base_dir workload_path r =
     (let dir = result_dir base_dir r;
          metrics_path = c_snprintf_s MAX_PATH_LEN (dir @ ''/metrics.csv'');
          timeline_path = c_snprintf_s MAX_PATH_LEN (dir @ ''/timeline.csv'');
          summary_path = c_snprintf_s MAX_PATH_LEN (dir @ ''/summary.txt'') in
      and_then (ensure_output_dir mkdir_ok dir)
        (and_then (write_metrics_csv_file fopen_ok metrics_path r)
          (and_then (write_timeline_csv_file fopen_ok timeline_path r)
            (write_summary_file fopen_ok summary_path workload_path r))))"

definition write_comparison_csv :: "(string \<Rightarrow> bool) \<Rightarrow> string \<Rightarrow> SimulationResult list \<Rightarrow> outcome" where
  "write_comparison_csv fopen_ok base_dir rs =
     write_file fopen_ok (c_snprintf_s MAX_PATH_LEN (base_dir @ ''/comparison.csv'')) (comparison_csv rs)"

subsection \<open>Printing\<close>

definition print_metrics :: "string \<Rightarrow> SimulationMetrics \<Rightarrow> string" where
  "print_metrics label m = label @ '': waiting='' @ c_fixed 2 (to_double (avg_waiting m)) @
     '' turnaround='' @ c_fixed 2 (to_double (avg_turnaround m)) @
     '' response='' @ c_fixed 2 (to_double (avg_response m)) @
     '' throughput='' @ c_fixed 4 (to_double (throughput m)) @
     '' util='' @ c_fixed 4 (to_double (cpu_utilization m)) @
     '' misses='' @ c_dec (deadline_misses m) @ '' migrations='' @ c_dec (m_migrations m) @ newline"

definition timeline_line :: "Timeline \<Rightarrow> nat \<Rightarrow> string" where
  "timeline_line tln cpu = ''CPU'' @ c_dec_left 2 (int cpu) @ '' |'' @
     concat (map (\<lambda>tick. let p = slot_at tln tick cpu in if p \<ge> 0 then '' P'' @ c_dec_left 2 p else '' -- '')
       [0..<nat (tick_count tln)]) @ newline"

definition print_timeline :: "Timeline \<Rightarrow> string \<Rightarrow> string" where
  "print_timeline tln label = newline @ ''Schedule view for '' @ label @ newline @
     concat (map (timeline_line tln) [0..<nat (tl_cpu_count tln)]) @
     ''Tick  |'' @ concat (map (\<lambda>tick. '' '' @ c_dec_left 3 (int tick)) [0..<nat (tick_count tln)]) @ newline"

text \<open>The array of a timeline goes back to the allocator; \<open>main\<close> frees its results at the end, when nothing looks at them any more.\<close>

definition free_result :: "SimulationResult \<Rightarrow> SimulationResult" where
  "free_result r = r\<lparr>timeline := \<lparr>tick_count = 0, tl_cpu_count = 0, slots = []\<rparr>\<rparr>"

subsection \<open>Outcomes\<close>

text \<open>The environment grants a directory or a file, or does not. An outcome follows a plan if it does everything up to the
  first thing that is not granted, and reports whether that was all of it.\<close>

fun event_ok :: "(string \<Rightarrow> bool) \<Rightarrow> (string \<Rightarrow> bool) \<Rightarrow> out_event \<Rightarrow> bool" where
  "event_ok mkdir_ok fopen_ok (Mkdir path) = mkdir_ok path"
| "event_ok mkdir_ok fopen_ok (WriteFile path content) = fopen_ok path"
| "event_ok mkdir_ok fopen_ok (Stdout s) = True"
| "event_ok mkdir_ok fopen_ok (Stderr s) = True"

definition follows :: "(string \<Rightarrow> bool) \<Rightarrow> (string \<Rightarrow> bool) \<Rightarrow> outcome \<Rightarrow> out_event list \<Rightarrow> bool" where
  "follows mk op a plan \<longleftrightarrow> a = (takeWhile (event_ok mk op) plan, list_all (event_ok mk op) plan)"

lemma takeWhile_all: "list_all P xs \<Longrightarrow> takeWhile P xs = xs"
  by (simp add: list_all_iff takeWhile_eq_all_conv)

lemma takeWhile_past: "list_all P xs \<Longrightarrow> takeWhile P (xs @ ys) = xs @ takeWhile P ys"
  by (induction xs) auto

lemma takeWhile_stop: "\<not> list_all P xs \<Longrightarrow> takeWhile P (xs @ ys) = takeWhile P xs"
  by (auto simp: list_all_iff)

lemma follows_and_then: "follows mk op a p \<Longrightarrow> follows mk op b q \<Longrightarrow> follows mk op (and_then a b) (p @ q)"
  by (auto simp: follows_def and_then_def takeWhile_all takeWhile_stop takeWhile_append2 list_all_iff)

lemma follows_write_file: "follows mk op (write_file op path c) [WriteFile path c]"
  by (simp add: follows_def write_file_def)

lemma follows_mkdir: "follows mk op (mkdir_if_needed mk path) [Mkdir path]"
  by (simp add: follows_def mkdir_if_needed_def)

text \<open>Every directory on the way is asked for, from the outermost to the path itself.\<close>

definition path_dirs :: "string \<Rightarrow> string list" where
  "path_dirs path = map (\<lambda>i. take i path) (filter (\<lambda>i. path ! i = CHR ''/'') [1..<length path]) @ [path]"

lemma follows_ensure_loop:
  "follows mk op (ensure_loop mk path is) (map Mkdir (map (\<lambda>i. take i path) (filter (\<lambda>i. path ! i = CHR ''/'') is) @ [path]))"
proof (induction "is")
  case Nil
  show ?case using follows_mkdir by simp
next
  case (Cons i "is")
  then show ?case using follows_and_then [OF follows_mkdir [of mk op "take i path"] Cons] by simp
qed

lemma follows_ensure_output_dir:
  "length path < MAX_PATH_LEN \<Longrightarrow> follows mk op (ensure_output_dir mk path) (map Mkdir (path_dirs path))"
  using follows_ensure_loop [of mk op path "[1..<length path]"] by (simp add: ensure_output_dir_def path_dirs_def)

text \<open>What a run leaves behind when all of it is granted.\<close>

definition result_written :: "string \<Rightarrow> string \<Rightarrow> SimulationResult \<Rightarrow> out_event list" where
  "result_written base_dir workload_path r =
     (let dir = result_dir base_dir r in
      map Mkdir (path_dirs dir) @
      [WriteFile (c_snprintf_s MAX_PATH_LEN (dir @ ''/metrics.csv'')) (metrics_csv r),
       WriteFile (c_snprintf_s MAX_PATH_LEN (dir @ ''/timeline.csv'')) (timeline_csv (timeline r)),
       WriteFile (c_snprintf_s MAX_PATH_LEN (dir @ ''/summary.txt'')) (summary_text workload_path (metrics r))])"

lemma result_dir_short: "length (result_dir base_dir r) < MAX_PATH_LEN"
  by (simp add: result_dir_def c_snprintf_s_def MAX_PATH_LEN_def)

lemma follows_write_result_files:
  "follows mk op (write_result_files mk op base_dir workload_path r) (result_written base_dir workload_path r)"
proof -
  let ?d = "result_dir base_dir r"
  let ?m = "c_snprintf_s MAX_PATH_LEN (?d @ ''/metrics.csv'')" and ?t = "c_snprintf_s MAX_PATH_LEN (?d @ ''/timeline.csv'')"
    and ?s = "c_snprintf_s MAX_PATH_LEN (?d @ ''/summary.txt'')"
  note F = follows_write_file [of mk op]
  from follows_and_then [OF follows_ensure_output_dir [OF result_dir_short]
      follows_and_then [OF F [of ?m "metrics_csv r"] follows_and_then [OF F [of ?t "timeline_csv (timeline r)"]
        F [of ?s "summary_text workload_path (metrics r)"]]]]
  show ?thesis
    by (simp add: write_result_files_def result_written_def write_metrics_csv_file_def write_timeline_csv_file_def
        write_summary_file_def Let_def)
qed

lemma follows_write_comparison:
  "follows mk op (write_comparison_csv op base rs)
     [WriteFile (c_snprintf_s MAX_PATH_LEN (base @ ''/comparison.csv'')) (comparison_csv rs)]"
  unfolding write_comparison_csv_def by (rule follows_write_file)

lemma event_ok_granted [simp]: "event_ok (\<lambda>_. True) (\<lambda>_. True) e"
  by (cases e) simp_all

text \<open>A path that does not fit loses its end without an error: below an output directory of 504 characters the files of \<open>mlfq\<close> are
  called \<open>m\<close>, \<open>t\<close> and \<open>s\<close>.\<close>

lemma paths_cut_off:
  assumes "length base = 504" "algorithm_name (metrics r) = ''mlfq''"
  shows "write_result_files (\<lambda>_. True) (\<lambda>_. True) base workload_path r =
    (map Mkdir (path_dirs (base @ ''/mlfq'')) @
     [WriteFile (base @ ''/mlfq/m'') (metrics_csv r), WriteFile (base @ ''/mlfq/t'') (timeline_csv (timeline r)),
      WriteFile (base @ ''/mlfq/s'') (summary_text workload_path (metrics r))], True)"
proof -
  have "result_dir base r = base @ ''/mlfq''" using assms by (simp add: result_dir_def c_snprintf_s_def MAX_PATH_LEN_def)
  then show ?thesis using follows_write_result_files [of "\<lambda>_. True" "\<lambda>_. True" base workload_path r] assms(1)
    by (simp add: follows_def takeWhile_eq_all_conv [THEN iffD2] list_all_iff result_written_def Let_def c_snprintf_s_def MAX_PATH_LEN_def)
qed

subsection \<open>Reading the files back\<close>

text \<open>The rows of a timeline file and the cells of a row, as a spreadsheet sees them.\<close>

definition read_cell :: "string \<Rightarrow> int" where
  "read_cell cell = (if cell = ''idle'' then -1 else c_strtol (tl cell))"

definition read_timeline :: "string \<Rightarrow> int list list" where
  "read_timeline content =
     map (\<lambda>row. map read_cell (tl (c_tokens '','' row))) (tl (c_tokens newline content))"

definition read_row :: "string \<Rightarrow> string list" where
  "read_row row = c_tokens ('','' @ newline) row"

lemma c_dec_chars: "c_dec n \<noteq> [] \<and> set (c_dec n) \<inter> set ('','' @ newline) = {}"
  using c_nat_digits digit_not by (auto simp: c_dec_def newline_def)

lemma c_fixed_chars: "c_fixed p x \<noteq> [] \<and> set (c_fixed p x) \<inter> set ('','' @ newline) = {}"
  using c_nat_digits digit_not by (auto simp: c_fixed_def newline_def Let_def)

lemma slot_cell_chars: "slot_cell p \<noteq> [] \<and> set (slot_cell p) \<inter> set ('','' @ newline) = {}"
  using c_dec_chars [of p] by (auto simp: slot_cell_def newline_def)

lemma read_slot_cell: "- 1 \<le> p \<Longrightarrow> p \<le> LONG_MAX \<Longrightarrow> read_cell (slot_cell p) = p"
  by (auto simp: read_cell_def slot_cell_def c_strtol_dec LONG_MAX_def)

text \<open>Cells behind commas are the tokens of a line.\<close>

lemma c_tokens_cells:
  assumes "t \<noteq> []" "CHR '','' \<notin> set t" "\<forall>s \<in> set cells. s \<noteq> [] \<and> CHR '','' \<notin> set s"
  shows "c_tokens '','' (t @ concat (map (\<lambda>s. '','' @ s) cells)) = t # cells"
  using assms
proof (induction cells arbitrary: t)
  case Nil
  then show ?case by (simp add: c_tokens_single)
next
  case (Cons s cells)
  then show ?case using c_tokens_Cons [of t "'',''" "CHR '',''"] by simp
qed

text \<open>Lines that end with a newline are the tokens of a file.\<close>

lemma c_tokens_lines:
  assumes "\<forall>s \<in> set rows. s \<noteq> [] \<and> CHR 0x0A \<notin> set s"
  shows "c_tokens newline (concat (map (\<lambda>s. s @ newline) rows)) = rows"
  using assms
proof (induction rows)
  case (Cons s rows)
  then show ?case using c_tokens_Cons [of s newline "CHR 0x0A" "concat (map (\<lambda>s. s @ newline) rows)"] by (simp add: newline_def)
qed simp

lemma timeline_rows:
  "timeline_csv t = concat (map (\<lambda>s. s @ newline)
     ((''tick'' @ concat (map (\<lambda>cpu. '',cpu'' @ c_dec (int cpu)) [0..<nat (tl_cpu_count t)])) #
      map (\<lambda>tick. c_dec (int tick) @ concat (map (\<lambda>s. '','' @ s) (map (\<lambda>cpu. slot_cell (slot_at t tick cpu)) [0..<nat (tl_cpu_count t)])))
        [0..<nat (tick_count t)]))"
  by (simp add: timeline_csv_def timeline_row_def [abs_def] comp_def)

text \<open>The rows of an array in row-major order, put together, are the array.\<close>

lemma concat_rows:
  "n * c \<le> length xs \<Longrightarrow> concat (map (\<lambda>i. map (\<lambda>j. xs ! (i * c + j)) [0..<c]) [0..<n]) = take (n * c) xs"
proof (induction n)
  case (Suc n)
  have "map (\<lambda>j. xs ! (n * c + j)) [0..<c] = take c (drop (n * c) xs)"
    using Suc.prems by (intro nth_equalityI) auto
  moreover have "take (n * c) xs @ take c (drop (n * c) xs) = take (n * c + c) xs" by (simp add: take_add)
  ultimately show ?case using Suc by (simp add: add.commute)
qed simp

lemma slot_at_nth: "0 \<le> tl_cpu_count t \<Longrightarrow> slot_at t tick cpu = slots t ! (tick * nat (tl_cpu_count t) + cpu)"
  by (simp add: slot_at_def nat_add_distrib nat_mult_distrib)

lemma timeline_grid:
  assumes "nat (tick_count t) * nat (tl_cpu_count t) \<le> length (slots t)"
  shows "concat (map (\<lambda>tick. map (slot_at t tick) [0..<nat (tl_cpu_count t)]) [0..<nat (tick_count t)]) =
    take (nat (tick_count t) * nat (tl_cpu_count t)) (slots t)"
proof (cases "0 \<le> tl_cpu_count t")
  case True
  then have "slot_at t = (\<lambda>tick cpu. slots t ! (tick * nat (tl_cpu_count t) + cpu))" by (intro ext slot_at_nth)
  then show ?thesis using concat_rows [OF assms] by simp
qed simp

lemma timeline_read:
  assumes "\<forall>tick < nat (tick_count t). \<forall>cpu < nat (tl_cpu_count t). - 1 \<le> slot_at t tick cpu \<and> slot_at t tick cpu \<le> LONG_MAX"
  shows "read_timeline (timeline_csv t) =
    map (\<lambda>tick. map (slot_at t tick) [0..<nat (tl_cpu_count t)]) [0..<nat (tick_count t)]"
proof -
  let ?row = "\<lambda>tick. c_dec (int tick) @ concat (map (\<lambda>s. '','' @ s) (map (\<lambda>cpu. slot_cell (slot_at t tick cpu)) [0..<nat (tl_cpu_count t)]))"
  have D: "c_dec n \<noteq> []" "CHR '','' \<notin> set (c_dec n)" "CHR 0x0A \<notin> set (c_dec n)" for n
    using c_dec_chars [of n] by (auto simp: newline_def)
  have S: "slot_cell p \<noteq> []" "CHR '','' \<notin> set (slot_cell p)" "CHR 0x0A \<notin> set (slot_cell p)" for p
    using slot_cell_chars [of p] by (auto simp: newline_def)
  have "c_tokens newline (timeline_csv t) =
      (''tick'' @ concat (map (\<lambda>cpu. '',cpu'' @ c_dec (int cpu)) [0..<nat (tl_cpu_count t)])) # map ?row [0..<nat (tick_count t)]"
    unfolding timeline_rows by (rule c_tokens_lines) (use D S in auto)
  moreover have "c_tokens '','' (?row tick) = c_dec (int tick) # map (\<lambda>cpu. slot_cell (slot_at t tick cpu)) [0..<nat (tl_cpu_count t)]" for tick
    by (rule c_tokens_cells) (use D S in auto)
  ultimately have "read_timeline (timeline_csv t) =
      map (\<lambda>tick. map (\<lambda>cpu. read_cell (slot_cell (slot_at t tick cpu))) [0..<nat (tl_cpu_count t)]) [0..<nat (tick_count t)]"
    by (simp add: read_timeline_def comp_def)
  then show ?thesis using assms by (simp add: read_slot_cell)
qed

text \<open>C39. The timeline file of a run, split at its newlines and commas, is the schedule: one row for each tick, in each row one number
  for each CPU, and the numbers in order are the slots of the run, -1 standing for an idle CPU.\<close>

theorem timeline_read_back:
  assumes "nat (tick_count t) * nat (tl_cpu_count t) \<le> length (slots t)"
    "\<forall>p \<in> set (take (nat (tick_count t) * nat (tl_cpu_count t)) (slots t)). - 1 \<le> p \<and> p \<le> LONG_MAX"
  shows "concat (read_timeline (timeline_csv t)) = take (nat (tick_count t) * nat (tl_cpu_count t)) (slots t) \<and>
    length (read_timeline (timeline_csv t)) = nat (tick_count t) \<and>
    (\<forall>row \<in> set (read_timeline (timeline_csv t)). length row = nat (tl_cpu_count t))"
proof -
  have "slot_at t tick cpu \<in> set (take (nat (tick_count t) * nat (tl_cpu_count t)) (slots t))"
    if "tick < nat (tick_count t)" "cpu < nat (tl_cpu_count t)" for tick cpu
    unfolding timeline_grid [OF assms(1), symmetric] using that by (auto intro!: bexI [of _ tick])
  with assms(2) have "read_timeline (timeline_csv t) =
      map (\<lambda>tick. map (slot_at t tick) [0..<nat (tl_cpu_count t)]) [0..<nat (tick_count t)]"
    by (intro timeline_read) blast
  then show ?thesis using timeline_grid [OF assms(1)] by auto
qed

theorem timeline_read_back_witness:
  "concat (read_timeline (timeline_csv \<lparr>tick_count = 2, tl_cpu_count = 2, slots = [1, 12, -1, 12, -1, -1]\<rparr>)) = [1, 12, -1, 12]"
  using timeline_read_back [of "\<lparr>tick_count = 2, tl_cpu_count = 2, slots = [1, 12, -1, 12, -1, -1]\<rparr>"]
  by (simp add: LONG_MAX_def)

text \<open>C40. A row of the metrics and comparison files has eleven cells; the integers read back exactly, and each average to within half a
  unit of its last decimal and the rounding of the quotient to a \<^verbatim>\<open>double\<close>.\<close>

theorem metrics_read_back:
  assumes "algorithm_name m \<noteq> []" "set (algorithm_name m) \<inter> set ('','' @ newline) = {}"
    "\<forall>n \<in> {m_cpu_count m, total_ticks m, completed m, deadline_misses m, m_migrations m}. \<bar>n\<bar> \<le> LONG_MAX"
  shows "\<exists>w t r th u. read_row (csv_row m) = [algorithm_name m, c_dec (m_cpu_count m), c_dec (total_ticks m), c_dec (completed m),
      w, t, r, th, u, c_dec (deadline_misses m), c_dec (m_migrations m)] \<and>
    c_strtol (c_dec (m_cpu_count m)) = m_cpu_count m \<and> c_strtol (c_dec (total_ticks m)) = total_ticks m \<and>
    c_strtol (c_dec (completed m)) = completed m \<and> c_strtol (c_dec (deadline_misses m)) = deadline_misses m \<and>
    c_strtol (c_dec (m_migrations m)) = m_migrations m \<and>
    \<bar>read_fixed w - avg_waiting m\<bar> \<le> 1 / 200 + \<bar>avg_waiting m\<bar> / 2 ^ 53 \<and>
    \<bar>read_fixed t - avg_turnaround m\<bar> \<le> 1 / 200 + \<bar>avg_turnaround m\<bar> / 2 ^ 53 \<and>
    \<bar>read_fixed r - avg_response m\<bar> \<le> 1 / 200 + \<bar>avg_response m\<bar> / 2 ^ 53 \<and>
    \<bar>read_fixed th - throughput m\<bar> \<le> 1 / 20000 + \<bar>throughput m\<bar> / 2 ^ 53 \<and>
    \<bar>read_fixed u - cpu_utilization m\<bar> \<le> 1 / 20000 + \<bar>cpu_utilization m\<bar> / 2 ^ 53"
proof -
  let ?f = "\<lambda>p x. c_fixed p (to_double x)"
  note T = c_tokens_Cons [of _ "'','' @ newline" "CHR '',''"] c_tokens_Cons [of _ "'','' @ newline" "CHR 0x0A"]
  have row: "read_row (csv_row m) = [algorithm_name m, c_dec (m_cpu_count m), c_dec (total_ticks m), c_dec (completed m),
      ?f 2 (avg_waiting m), ?f 2 (avg_turnaround m), ?f 2 (avg_response m), ?f 4 (throughput m), ?f 4 (cpu_utilization m),
      c_dec (deadline_misses m), c_dec (m_migrations m)]"
    using c_dec_chars c_fixed_chars assms(1,2) by (simp add: read_row_def csv_row_def newline_def T [unfolded newline_def, simplified])
  have c: "\<bar>read_fixed (?f 2 x) - x\<bar> \<le> 1 / 200 + \<bar>x\<bar> / 2 ^ 53" "\<bar>read_fixed (?f 4 x) - x\<bar> \<le> 1 / 20000 + \<bar>x\<bar> / 2 ^ 53" for x
    using printed_close [of 2 x] printed_close [of 4 x] by simp_all
  have "c_strtol (c_dec n) = n" if "\<bar>n\<bar> \<le> LONG_MAX" for n using that by (intro c_strtol_dec) (auto simp: LONG_MAX_def)
  with assms(3) c show ?thesis unfolding row by (intro exI conjI) (rule refl, auto)
qed

definition sample_metrics :: SimulationMetrics where
  "sample_metrics = \<lparr>m_algorithm = ALGO_EDF, algorithm_name = ''edf'', m_cpu_count = 4, m_seed = 42, total_ticks = 24,
     completed = 8, deadline_misses = 1, busy_ticks = 61, m_migrations = 9, throughput = 1 / 3, cpu_utilization = 61 / 96,
     avg_waiting = 25 / 8, avg_turnaround = 101 / 8, avg_response = 2 / 3\<rparr>"

theorem metrics_read_back_witness:
  "\<exists>w t r th u. read_row (csv_row sample_metrics) =
      [''edf'', c_dec 4, c_dec 24, c_dec 8, w, t, r, th, u, c_dec 1, c_dec 9] \<and>
    \<bar>read_fixed w - 25 / 8\<bar> \<le> 1 / 200 + \<bar>25 / 8\<bar> / 2 ^ 53 \<and> \<bar>read_fixed u - 61 / 96\<bar> \<le> 1 / 20000 + \<bar>61 / 96\<bar> / 2 ^ 53"
proof -
  have "algorithm_name sample_metrics \<noteq> []" "set (algorithm_name sample_metrics) \<inter> set ('','' @ newline) = {}"
    "\<forall>n \<in> {m_cpu_count sample_metrics, total_ticks sample_metrics, completed sample_metrics, deadline_misses sample_metrics,
      m_migrations sample_metrics}. \<bar>n\<bar> \<le> LONG_MAX"
    by (auto simp: sample_metrics_def newline_def LONG_MAX_def)
  from metrics_read_back [OF this] show ?thesis by (simp add: sample_metrics_def) metis
qed

end
