(* ===== verification/Sim_Parser.thy ===== *)
theory Sim_Parser
  imports Sim_Inv C_String
begin

text \<open>
  The workload parser, \<^verbatim>\<open>src/core/parser.c\<close>. The file is its contents (\<^const>\<open>None\<close>
  when \<open>fopen\<close> fails); the result \<^const>\<open>None\<close> is the return value -1. Narrowing a
  \<open>long\<close> to \<open>int\<close> is written out with \<^const>\<open>to_int32\<close>, because the parser checks
  some values before it narrows them.
\<close>

subsection \<open>Operations\<close>

text \<open>The first character after the leading white space is never dropped by the second loop
  (\<open>end > value\<close>).\<close>

definition trim :: "string \<Rightarrow> string" where
  "trim s = (case dropWhile c_isspace s of [] \<Rightarrow> [] | c # cs \<Rightarrow> c # rev (dropWhile c_isspace (rev cs)))"

text \<open>The token loop of \<^verbatim>\<open>parse_bursts\<close>.\<close>

fun burst_loop :: "string list \<Rightarrow> BurstType \<Rightarrow> int \<Rightarrow> ProcessSpec \<Rightarrow> ProcessSpec option" where
  "burst_loop [] expected n proc = (if n > 0 then Some (proc\<lparr>burst_count := n\<rparr>) else None)"
| "burst_loop (tok # toks) expected n proc =
     (let token = trim tok in
      if length token < 2 then None
      else
        (let type_char = c_toupper (token ! 0); dur = c_strtol (drop 1 token) in
         if dur \<le> 0 \<or> n \<ge> MAX_BURSTS then None
         else if expected = BURST_CPU \<and> type_char \<noteq> CHR ''C'' \<or> expected = BURST_IO \<and> type_char \<noteq> CHR ''I'' then None
         else burst_loop toks (if expected = BURST_CPU then BURST_IO else BURST_CPU) (n + 1)
                (proc\<lparr>bursts := (bursts proc)[nat n :=
                   \<lparr>btype = (if type_char = CHR ''C'' then BURST_CPU else BURST_IO), duration = to_int32 dur\<rparr>]\<rparr>)))"

definition parse_bursts :: "string \<Rightarrow> ProcessSpec \<Rightarrow> ProcessSpec option" where
  "parse_bursts text proc =
     (if length text \<ge> 512 then None else burst_loop (c_tokens '':'' text) BURST_CPU 0 proc)"

text \<open>The fields of a line, at most seven.\<close>

definition line_fields :: "string \<Rightarrow> string list" where
  "line_fields line = take 7 (map trim (c_tokens [CHR '','', CHR 0x0A] (c_str line)))"

definition parse_line :: "string \<Rightarrow> ProcessSpec option" where
  "parse_line line =
     (let fields = line_fields line in
      if length fields \<noteq> 7 then None
      else
        (let num = (\<lambda>k. to_int32 (c_strtol (fields ! k)));
             proc = zero_spec\<lparr>pid := num 0, arrival := num 1, base_priority := num 3, tickets := num 4,
                              deadline := num 5, affinity := num 6\<rparr> in
         if pid proc \<le> 0 \<or> arrival proc < 0 then None
         else (case parse_bursts (fields ! 2) proc of
                 None \<Rightarrow> None
               | Some proc \<Rightarrow> Some (if tickets proc \<le> 0 then proc\<lparr>tickets := 1\<rparr> else proc))))"

text \<open>The line loop; \<open>line_number\<close> counts the lines read before.\<close>

function parse_lines :: "int \<Rightarrow> Workload \<Rightarrow> string \<Rightarrow> Workload option" where
  "parse_lines line_number workload content =
     (case c_fgets 1024 content of
        None \<Rightarrow> (if process_count workload > 0 then Some workload else None)
      | Some (line, rest) \<Rightarrow>
          if line_number + 1 = 1 \<and> take 4 (c_str line) = ''pid,'' then parse_lines (line_number + 1) workload rest
          else if process_count workload \<ge> MAX_PROCESSES then None
          else (case parse_line line of
                  None \<Rightarrow> None
                | Some proc \<Rightarrow>
                    parse_lines (line_number + 1)
                      (workload\<lparr>processes := (processes workload)[nat (process_count workload) := proc],
                                process_count := process_count workload + 1\<rparr>) rest))"
  by pat_completeness auto
termination
  by (relation "measure (\<lambda>(m, w, content). length content)") (auto intro: c_fgets_shorter [of 1024])

definition parse_workload :: "string option \<Rightarrow> Workload option" where
  "parse_workload file =
     (case file of
        None \<Rightarrow> None
      | Some content \<Rightarrow>
          parse_lines 0 \<lparr>processes = replicate (nat MAX_PROCESSES) zero_spec, process_count = 0\<rparr> content)"

definition parse_algorithm_kind :: "string \<Rightarrow> AlgorithmKind option" where
  "parse_algorithm_kind value =
     (if value = ''mlfq'' then Some ALGO_MLFQ
      else if value = ''lottery'' then Some ALGO_LOTTERY
      else if value = ''edf'' then Some ALGO_EDF
      else if value = ''custom'' then Some ALGO_CUSTOM
      else if value = ''all'' then Some ALGO_ALL
      else None)"

declare parse_lines.simps [simp del]

text \<open>What \<^verbatim>\<open>perror\<close> prints for a file that cannot be opened; the reason is the library's text for the error.\<close>

definition perror_text :: "string \<Rightarrow> string \<Rightarrow> string" where
  "perror_text path reason = path @ '': '' @ reason @ [CHR 0x0A]"

subsection \<open>What the parser accepts\<close>

text \<open>The lines of a file as \<open>fgets\<close> cuts them, without a header in the first.\<close>

function file_lines :: "string \<Rightarrow> string list" where
  "file_lines content = (case c_fgets 1024 content of None \<Rightarrow> [] | Some (line, rest) \<Rightarrow> line # file_lines rest)"
  by pat_completeness auto
termination
  by (relation "measure length") (auto intro: c_fgets_shorter [of 1024])

declare file_lines.simps [simp del]

definition is_header :: "string \<Rightarrow> bool" where
  "is_header line \<longleftrightarrow> take 4 (c_str line) = ''pid,''"

definition workload_lines :: "string \<Rightarrow> string list" where
  "workload_lines content =
     (case file_lines content of [] \<Rightarrow> [] | l # ls \<Rightarrow> if is_header l then ls else l # ls)"

text \<open>The \<open>k\<close>-th token of a burst field: a letter for CPU or I/O in turn, and a positive number.\<close>

definition burst_kind :: "nat \<Rightarrow> BurstType" where
  "burst_kind k = (if even k then BURST_CPU else BURST_IO)"

definition burst_letter :: "string \<Rightarrow> char" where
  "burst_letter tok = c_toupper (trim tok ! 0)"

definition burst_number :: "string \<Rightarrow> int" where
  "burst_number tok = c_strtol (drop 1 (trim tok))"

definition burst_valid :: "nat \<Rightarrow> string \<Rightarrow> bool" where
  "burst_valid k tok \<longleftrightarrow> 2 \<le> length (trim tok) \<and> 1 \<le> burst_number tok \<and>
     burst_letter tok = (if even k then CHR ''C'' else CHR ''I'')"

text \<open>A line describes a process: seven fields, a positive identifier, an arrival that is not negative, and one to 32 bursts.\<close>

definition line_tokens :: "string \<Rightarrow> string list" where
  "line_tokens line = c_tokens '':'' (line_fields line ! 2)"

definition line_int :: "string \<Rightarrow> nat \<Rightarrow> int" where
  "line_int line k = to_int32 (c_strtol (line_fields line ! k))"

definition line_valid :: "string \<Rightarrow> bool" where
  "line_valid line \<longleftrightarrow> length (line_fields line) = 7 \<and> 1 \<le> line_int line 0 \<and> 0 \<le> line_int line 1 \<and>
     length (line_fields line ! 2) < 512 \<and> 1 \<le> length (line_tokens line) \<and> length (line_tokens line) \<le> 32 \<and>
     (\<forall>k < length (line_tokens line). burst_valid k (line_tokens line ! k))"

definition line_bursts :: "string \<Rightarrow> Burst list" where
  "line_bursts line = map (\<lambda>k. \<lparr>btype = burst_kind k, duration = to_int32 (burst_number (line_tokens line ! k))\<rparr>)
     [0..<length (line_tokens line)]"

definition line_spec :: "string \<Rightarrow> ProcessSpec" where
  "line_spec line = \<lparr>pid = line_int line 0, arrival = line_int line 1, base_priority = line_int line 3,
     tickets = (if line_int line 4 \<le> 0 then 1 else line_int line 4), deadline = line_int line 5,
     affinity = line_int line 6, burst_count = int (length (line_tokens line)),
     bursts = line_bursts line @ replicate (32 - length (line_tokens line)) zero_burst\<rparr>"

lemma replicate_more: "n < m \<Longrightarrow> replicate (m - n) x = x # replicate (m - Suc n) x"
  by (simp add: Suc_diff_Suc flip: replicate_Suc)

text \<open>The token loop, from the \<open>n\<close>-th burst on: it stops at a token that is not valid where it stands.\<close>

lemma burst_loop_eq:
  assumes "length bs = n" "n \<le> 32" "bursts p = bs @ replicate (32 - n) zero_burst"
  shows "burst_loop toks (burst_kind n) (int n) p =
    (if 1 \<le> n + length toks \<and> n + length toks \<le> 32 \<and> (\<forall>k < length toks. burst_valid (n + k) (toks ! k))
     then Some (p\<lparr>burst_count := int (n + length toks), bursts := bs @
       map (\<lambda>k. \<lparr>btype = burst_kind (n + k), duration = to_int32 (burst_number (toks ! k))\<rparr>) [0..<length toks] @
       replicate (32 - (n + length toks)) zero_burst\<rparr>)
     else None)"
  using assms
proof (induction toks arbitrary: n bs p)
  case Nil
  then show ?case by simp
next
  case (Cons tok toks)
  let ?b = "\<lparr>btype = burst_kind n, duration = to_int32 (burst_number tok)\<rparr>"
  let ?p = "p\<lparr>bursts := (bursts p)[n := ?b]\<rparr>"
  have all: "(\<forall>k < length (tok # toks). burst_valid (n + k) ((tok # toks) ! k)) \<longleftrightarrow>
      burst_valid n tok \<and> (\<forall>k < length toks. burst_valid (Suc n + k) (toks ! k))"
    by (auto simp: less_Suc_eq_0_disj)
  show ?case
  proof (cases "burst_valid n tok \<and> n < 32")
    case False
    then have "burst_loop (tok # toks) (burst_kind n) (int n) p = None"
      by (auto simp: burst_valid_def burst_kind_def burst_letter_def burst_number_def MAX_BURSTS_def Let_def)
    moreover have "\<not> (n + length (tok # toks) \<le> 32 \<and> (\<forall>k < length (tok # toks). burst_valid (n + k) ((tok # toks) ! k)))"
      using False unfolding all by auto
    ultimately show ?thesis by simp
  next
    case True
    have "burst_loop (tok # toks) (burst_kind n) (int n) p = burst_loop toks (burst_kind (Suc n)) (int (Suc n)) ?p"
      using True by (simp add: burst_valid_def burst_kind_def burst_letter_def burst_number_def MAX_BURSTS_def Let_def
          not_less not_le add.commute)
    moreover have "bursts ?p = (bs @ [?b]) @ replicate (32 - Suc n) zero_burst"
      using Cons.prems True by (simp add: list_update_append replicate_more)
    then have "burst_loop toks (burst_kind (Suc n)) (int (Suc n)) ?p =
      (if 1 \<le> Suc n + length toks \<and> Suc n + length toks \<le> 32 \<and> (\<forall>k < length toks. burst_valid (Suc n + k) (toks ! k))
       then Some (?p\<lparr>burst_count := int (Suc n + length toks), bursts := (bs @ [?b]) @
         map (\<lambda>k. \<lparr>btype = burst_kind (Suc n + k), duration = to_int32 (burst_number (toks ! k))\<rparr>) [0..<length toks] @
         replicate (32 - (Suc n + length toks)) zero_burst\<rparr>)
       else None)" using Cons.prems True by (intro Cons.IH) simp_all
    moreover have "map (\<lambda>k. \<lparr>btype = burst_kind (n + k), duration = to_int32 (burst_number ((tok # toks) ! k))\<rparr>) [0..<length (tok # toks)] =
      ?b # map (\<lambda>k. \<lparr>btype = burst_kind (Suc n + k), duration = to_int32 (burst_number (toks ! k))\<rparr>) [0..<length toks]"
      by (simp add: upt_conv_Cons map_Suc_upt [symmetric] del: upt_Suc)
    ultimately show ?thesis using True unfolding all by simp
  qed
qed

lemma parse_bursts_eq:
  assumes "bursts p = replicate 32 zero_burst"
  shows "parse_bursts text p = (let toks = c_tokens '':'' text in
    if length text < 512 \<and> 1 \<le> length toks \<and> length toks \<le> 32 \<and> (\<forall>k < length toks. burst_valid k (toks ! k))
    then Some (p\<lparr>burst_count := int (length toks),
      bursts := map (\<lambda>k. \<lparr>btype = burst_kind k, duration = to_int32 (burst_number (toks ! k))\<rparr>) [0..<length toks] @
        replicate (32 - length toks) zero_burst\<rparr>)
    else None)"
  using burst_loop_eq [of "[]" 0 p "c_tokens '':'' text"] assms
  by (simp add: parse_bursts_def burst_kind_def Let_def)

lemma parse_line_eq: "parse_line line = (if line_valid line then Some (line_spec line) else None)"
proof -
  define q where "q = zero_spec\<lparr>pid := line_int line 0, arrival := line_int line 1,
    base_priority := line_int line 3, tickets := line_int line 4,
    deadline := line_int line 5, affinity := line_int line 6\<rparr>"
  have e: "parse_line line = (if length (line_fields line) \<noteq> 7 \<or> pid q \<le> 0 \<or> arrival q < 0 then None
      else (case parse_bursts (line_fields line ! 2) q of None \<Rightarrow> None
        | Some proc \<Rightarrow> Some (if tickets proc \<le> 0 then proc\<lparr>tickets := 1\<rparr> else proc)))"
    by (simp add: parse_line_def q_def line_int_def Let_def)
  have "bursts q = replicate 32 zero_burst" by (simp add: q_def zero_spec_def MAX_BURSTS_def)
  from parse_bursts_eq [OF this, of "line_fields line ! 2"]
  show ?thesis unfolding e
    by (auto simp: line_valid_def line_spec_def line_bursts_def line_tokens_def [symmetric] Let_def q_def zero_spec_def not_le
        split: if_splits)
qed

text \<open>The line loop after the first line, with room for \<open>128 - n\<close> more processes.\<close>

lemma parse_lines_eq:
  assumes "length ps = n" "n \<le> 128" "1 \<le> m"
  shows "parse_lines m \<lparr>processes = ps @ replicate (128 - n) zero_spec, process_count = int n\<rparr> content =
    (let ls = file_lines content in
     if 1 \<le> n + length ls \<and> n + length ls \<le> 128 \<and> (\<forall>l \<in> set ls. line_valid l)
     then Some \<lparr>processes = ps @ map line_spec ls @ replicate (128 - (n + length ls)) zero_spec, process_count = int (n + length ls)\<rparr>
     else None)"
  using assms
proof (induction content arbitrary: m ps n rule: file_lines.induct)
  case (1 content)
  show ?case
  proof (cases "c_fgets 1024 content")
    case None
    then show ?thesis using 1 by (simp add: parse_lines.simps [of m] file_lines.simps [of content])
  next
    case (Some r)
    obtain line rest where r: "r = (line, rest)" by force
    have ls: "file_lines content = line # file_lines rest" using Some r by (simp add: file_lines.simps [of content])
    show ?thesis
    proof (cases "line_valid line \<and> n < 128")
      case False
      then show ?thesis using Some r 1(4)
        by (auto simp: parse_lines.simps [of m] ls parse_line_eq MAX_PROCESSES_def)
    next
      case True
      have "replicate (128 - n) zero_spec = zero_spec # replicate (128 - Suc n) zero_spec"
        using True by (intro replicate_more) simp
      then have "parse_lines m \<lparr>processes = ps @ replicate (128 - n) zero_spec, process_count = int n\<rparr> content =
        parse_lines (m + 1) \<lparr>processes = (ps @ [line_spec line]) @ replicate (128 - Suc n) zero_spec, process_count = int (Suc n)\<rparr> rest"
        using Some r 1(2,4) True
        by (simp add: parse_lines.simps [of m] parse_line_eq MAX_PROCESSES_def list_update_append add.commute)
      with 1(1) [OF Some r [symmetric], of "ps @ [line_spec line]" "Suc n" "m + 1"] 1(2,4) True show ?thesis
        by (simp add: ls Let_def)
    qed
  qed
qed

text \<open>The parser as one equation: it accepts a file of 1 to 128 valid lines, and each line becomes the process it describes.\<close>

lemma parse_workload_eq:
  "parse_workload (Some content) =
    (let ls = workload_lines content in
     if 1 \<le> length ls \<and> length ls \<le> 128 \<and> (\<forall>l \<in> set ls. line_valid l)
     then Some \<lparr>processes = map line_spec ls @ replicate (128 - length ls) zero_spec, process_count = int (length ls)\<rparr>
     else None)"
proof (cases "c_fgets 1024 content")
  case None
  then show ?thesis
    by (simp add: parse_workload_def parse_lines.simps [of 0] workload_lines_def file_lines.simps [of content])
next
  case (Some r)
  obtain line rest where r: "r = (line, rest)" by force
  have ls: "file_lines content = line # file_lines rest" using Some r by (simp add: file_lines.simps [of content])
  let ?w = "\<lparr>processes = replicate 128 zero_spec, process_count = 0\<rparr>"
  show ?thesis
  proof (cases "is_header line")
    case True
    then have "parse_workload (Some content) = parse_lines 1 ?w rest" using Some r
      by (simp add: parse_workload_def parse_lines.simps [of 0] is_header_def MAX_PROCESSES_def)
    then show ?thesis using parse_lines_eq [of "[]" 0 1 rest] True by (simp add: workload_lines_def ls Let_def)
  next
    case False
    have h: "parse_workload (Some content) =
      (if line_valid line then parse_lines 1 \<lparr>processes = [line_spec line] @ replicate (128 - 1) zero_spec, process_count = int 1\<rparr> rest else None)"
    proof -
      have "(replicate 128 zero_spec)[0 := line_spec line] = [line_spec line] @ replicate (128 - 1) zero_spec"
        using replicate_more [of 0 128 zero_spec] by simp
      then show ?thesis using Some r False
        by (simp add: parse_workload_def parse_lines.simps [of 0] is_header_def MAX_PROCESSES_def parse_line_eq)
    qed
    show ?thesis
    proof (cases "line_valid line")
      case True
      with h parse_lines_eq [of "[line_spec line]" 1 1 rest] False show ?thesis
        by (simp add: workload_lines_def ls Let_def)
    qed (use h False in \<open>simp add: workload_lines_def ls\<close>)
  qed
qed

lemma parse_workload_None [simp]: "parse_workload None = None"
  by (simp add: parse_workload_def)

text \<open>A valid line without a number above the largest \<open>int\<close> describes a well-formed process.\<close>

lemma line_spec_wf:
  assumes "line_valid line" "\<forall>tok \<in> set (line_tokens line). burst_number tok \<le> INT_MAX"
  shows "wf_spec (line_spec line)"
proof -
  have "1 \<le> burst_number (line_tokens line ! k) \<and> burst_number (line_tokens line ! k) \<le> INT_MAX" if "k < length (line_tokens line)" for k
    using assms that by (auto simp: line_valid_def burst_valid_def)
  then have "to_int32 (burst_number (line_tokens line ! k)) = burst_number (line_tokens line ! k)" if "k < length (line_tokens line)" for k
    using that by (intro to_int32_id) (fastforce simp: INT_MAX_def)+
  with assms show ?thesis
    by (auto simp: wf_spec_def line_spec_def line_valid_def line_bursts_def burst_valid_def burst_kind_def nth_append)
qed

end
