(* ===== verification/Sim_Main.thy ===== *)
theory Sim_Main
  imports Sim_Report Sim_Parser
begin

text \<open>
  The command line of the simulator, \<^verbatim>\<open>parse_args\<close> of \<^verbatim>\<open>src/main.c\<close>, and
  \<^verbatim>\<open>main\<close>: the simulations, their files, what is printed and the exit status. The file system and the
  allocator are arguments: the contents of a file, which directories can be made or exist, which files can be
  opened for writing, and the memory for the timeline of each algorithm.
\<close>

definition default_config :: SimulationConfig where
  "default_config = \<lparr>c_algorithm = ALGO_MLFQ, c_cpu_count = 4, c_seed = 42, max_ticks = 512, run_all = False,
     input_path = '''', output_dir = ''''\<rparr>"

text \<open>The loop over \<open>argv[1..]\<close>: an option takes the next argument; anything else is an error.\<close>

fun args_loop :: "string list \<Rightarrow> SimulationConfig \<Rightarrow> SimulationConfig option" where
  "args_loop [] config = Some config"
| "args_loop [opt] config = None"
| "args_loop (opt # val # rest) config =
     (if opt = ''--algo'' then
        (case parse_algorithm_kind val of
           None \<Rightarrow> None
         | Some kind \<Rightarrow> args_loop rest (config\<lparr>c_algorithm := kind, run_all := (kind = ALGO_ALL)\<rparr>))
      else if opt = ''--cpus'' then args_loop rest (config\<lparr>c_cpu_count := c_atoi val\<rparr>)
      else if opt = ''--input'' then args_loop rest (config\<lparr>input_path := c_snprintf_s MAX_PATH_LEN val\<rparr>)
      else if opt = ''--output-dir'' then args_loop rest (config\<lparr>output_dir := c_snprintf_s MAX_PATH_LEN val\<rparr>)
      else if opt = ''--seed'' then args_loop rest (config\<lparr>c_seed := ucast (c_strtoul val)\<rparr>)
      else if opt = ''--max-ticks'' then args_loop rest (config\<lparr>max_ticks := c_atoi val\<rparr>)
      else None)"

definition parse_args :: "string list \<Rightarrow> SimulationConfig option" where
  "parse_args args =
     (case args_loop args default_config of
        None \<Rightarrow> None
      | Some config \<Rightarrow>
          if c_cpu_count config \<le> 0 \<or> c_cpu_count config > MAX_CPUS \<or> input_path config = [] \<or> output_dir config = []
          then None else Some config)"

definition print_usage :: "string \<Rightarrow> string" where
  "print_usage argv0 = ''Usage: '' @ argv0 @ '' --algo {mlfq,lottery,edf,custom,all} --cpus N --input <workload.csv> --output-dir <dir> [--seed N] [--max-ticks N]'' @ newline"

text \<open>The simulations of \<^verbatim>\<open>--algo all\<close>, in order, until one fails; each writes its files and is printed.
  \<open>malloc alg\<close> is the allocator as the run of an algorithm finds it.\<close>

definition printed_result :: "SimulationResult \<Rightarrow> out_event list" where
  "printed_result r =
     [Stdout (print_metrics (algorithm_name (metrics r)) (metrics r)),
      Stdout (print_timeline (timeline r) (algorithm_name (metrics r)))]"

fun run_each :: "(string \<Rightarrow> bool) \<Rightarrow> (string \<Rightarrow> bool) \<Rightarrow> (AlgorithmKind \<Rightarrow> u64 \<Rightarrow> (nat \<Rightarrow> int) option) \<Rightarrow> Workload \<Rightarrow>
    SimulationConfig \<Rightarrow> AlgorithmKind list \<Rightarrow> SimulationResult list \<times> outcome" where
  "run_each mkdir_ok fopen_ok malloc workload config [] = ([], [], True)"
| "run_each mkdir_ok fopen_ok malloc workload config (alg # algs) =
     (case run_simulation (malloc alg) workload config alg of
        None \<Rightarrow> ([], [Stderr (''Simulation failed for '' @ algorithm_kind_name alg @ newline)], False)
      | Some (r, _) \<Rightarrow>
          (case write_result_files mkdir_ok fopen_ok (output_dir config) (input_path config) r of (ev, ok) \<Rightarrow>
             if \<not> ok then
               ([r], ev @ [Stderr (''Failed to write result files for '' @ algorithm_name (metrics r) @ newline)], False)
             else (case run_each mkdir_ok fopen_ok malloc workload config algs of (rs, ev', ok') \<Rightarrow>
               (r # rs, ev @ printed_result r @ ev', ok'))))"

definition run_all_algorithms :: "(string \<Rightarrow> bool) \<Rightarrow> (string \<Rightarrow> bool) \<Rightarrow> (AlgorithmKind \<Rightarrow> u64 \<Rightarrow> (nat \<Rightarrow> int) option) \<Rightarrow>
    Workload \<Rightarrow> SimulationConfig \<Rightarrow> int \<times> out_event list" where
  "run_all_algorithms mkdir_ok fopen_ok malloc workload config =
     (case run_each mkdir_ok fopen_ok malloc workload config [ALGO_MLFQ, ALGO_LOTTERY, ALGO_EDF, ALGO_CUSTOM] of
        (rs, ev, ok) \<Rightarrow>
          if \<not> ok then (1, ev)
          else (case write_comparison_csv fopen_ok (output_dir config) rs of (ev', ok') \<Rightarrow>
            if \<not> ok' then (1, ev @ ev' @ [Stderr (''Failed to write comparison CSV'' @ newline)]) else (0, ev @ ev')))"

text \<open>One algorithm: here the comparison is written before anything is printed.\<close>

definition run_one_algorithm :: "(string \<Rightarrow> bool) \<Rightarrow> (string \<Rightarrow> bool) \<Rightarrow> (AlgorithmKind \<Rightarrow> u64 \<Rightarrow> (nat \<Rightarrow> int) option) \<Rightarrow>
    Workload \<Rightarrow> SimulationConfig \<Rightarrow> int \<times> out_event list" where
  "run_one_algorithm mkdir_ok fopen_ok malloc workload config =
     (case run_simulation (malloc (c_algorithm config)) workload config (c_algorithm config) of
        None \<Rightarrow> (1, [Stderr (''Simulation failed for '' @ algorithm_kind_name (c_algorithm config) @ newline)])
      | Some (r, _) \<Rightarrow>
          (case and_then (write_result_files mkdir_ok fopen_ok (output_dir config) (input_path config) r)
                  (write_comparison_csv fopen_ok (output_dir config) [r]) of (ev, ok) \<Rightarrow>
             if \<not> ok then (1, ev @ [Stderr (''Failed to write output files'' @ newline)])
             else (0, ev @ printed_result r)))"

text \<open>The exit status and the effects of the program. A file that cannot be opened is the reason for it; then
  \<^verbatim>\<open>parse_workload\<close> prints it before it fails.\<close>

definition file_contents :: "string + string \<Rightarrow> string option" where
  "file_contents file = (case file of Inl reason \<Rightarrow> None | Inr content \<Rightarrow> Some content)"

definition open_errors :: "string \<Rightarrow> string + string \<Rightarrow> out_event list" where
  "open_errors path file = (case file of Inl reason \<Rightarrow> [Stderr (perror_text path reason)] | Inr content \<Rightarrow> [])"

definition sim_main :: "(string \<Rightarrow> string + string) \<Rightarrow> (string \<Rightarrow> bool) \<Rightarrow> (string \<Rightarrow> bool) \<Rightarrow>
    (AlgorithmKind \<Rightarrow> u64 \<Rightarrow> (nat \<Rightarrow> int) option) \<Rightarrow> string \<Rightarrow> string list \<Rightarrow> int \<times> out_event list" where
  "sim_main read_file mkdir_ok fopen_ok malloc argv0 args =
     (case parse_args args of
        None \<Rightarrow> (1, [Stderr (print_usage argv0)])
      | Some config \<Rightarrow>
          (let file = read_file (input_path config) in
           case parse_workload (file_contents file) of
             None \<Rightarrow> (1, open_errors (input_path config) file @
               [Stderr (''Failed to parse workload: '' @ input_path config @ newline)])
           | Some workload \<Rightarrow>
               (case ensure_output_dir mkdir_ok (output_dir config) of (ev, ok) \<Rightarrow>
                  if \<not> ok then (1, ev @ [Stderr (''Failed to create output directory: '' @ output_dir config @ newline)])
                  else (case (if run_all config then run_all_algorithms mkdir_ok fopen_ok malloc workload config
                              else run_one_algorithm mkdir_ok fopen_ok malloc workload config) of
                          (status, ev') \<Rightarrow> (status, ev @ ev')))))"

subsection \<open>What a run of the program has to do\<close>

definition algorithms_of :: "SimulationConfig \<Rightarrow> AlgorithmKind list" where
  "algorithms_of config = (if run_all config then [ALGO_MLFQ, ALGO_LOTTERY, ALGO_EDF, ALGO_CUSTOM] else [c_algorithm config])"

text \<open>The algorithms whose timeline is allocated, up to the first that gets no memory, and their results.\<close>

definition gets_memory :: "(AlgorithmKind \<Rightarrow> u64 \<Rightarrow> (nat \<Rightarrow> int) option) \<Rightarrow> SimulationConfig \<Rightarrow> AlgorithmKind \<Rightarrow> bool" where
  "gets_memory malloc config alg \<longleftrightarrow> malloc alg (timeline_bytes config) \<noteq> None"

definition result_of :: "(AlgorithmKind \<Rightarrow> u64 \<Rightarrow> (nat \<Rightarrow> int) option) \<Rightarrow> Workload \<Rightarrow> SimulationConfig \<Rightarrow> AlgorithmKind \<Rightarrow> SimulationResult" where
  "result_of malloc workload config alg = fst (the (run_simulation (malloc alg) workload config alg))"

definition results_of :: "(AlgorithmKind \<Rightarrow> u64 \<Rightarrow> (nat \<Rightarrow> int) option) \<Rightarrow> Workload \<Rightarrow> SimulationConfig \<Rightarrow> SimulationResult list" where
  "results_of malloc workload config =
     map (result_of malloc workload config) (takeWhile (gets_memory malloc config) (algorithms_of config))"

text \<open>Everything to do, in order, as far as there is memory.\<close>

definition expected_events :: "(AlgorithmKind \<Rightarrow> u64 \<Rightarrow> (nat \<Rightarrow> int) option) \<Rightarrow> Workload \<Rightarrow> SimulationConfig \<Rightarrow> out_event list" where
  "expected_events malloc workload config =
     (let rs = results_of malloc workload config;
          comparison = WriteFile (c_snprintf_s MAX_PATH_LEN (output_dir config @ ''/comparison.csv'')) (comparison_csv rs) in
      map Mkdir (path_dirs (output_dir config)) @
      (if run_all config
       then concat (map (\<lambda>r. result_written (output_dir config) (input_path config) r @ printed_result r) rs) @
         (if length rs = 4 then [comparison] else [])
       else concat (map (\<lambda>r. result_written (output_dir config) (input_path config) r @ comparison # printed_result r) rs)))"

text \<open>All of it can be done.\<close>

definition all_granted :: "(string \<Rightarrow> bool) \<Rightarrow> (string \<Rightarrow> bool) \<Rightarrow> (AlgorithmKind \<Rightarrow> u64 \<Rightarrow> (nat \<Rightarrow> int) option) \<Rightarrow>
    Workload \<Rightarrow> SimulationConfig \<Rightarrow> bool" where
  "all_granted mkdir_ok fopen_ok malloc workload config \<longleftrightarrow>
     list_all (gets_memory malloc config) (algorithms_of config) \<and>
     list_all (event_ok mkdir_ok fopen_ok) (expected_events malloc workload config)"

subsection \<open>Arguments\<close>

lemma args_loop_all:
  "args_loop args config = Some c \<Longrightarrow> run_all config = (c_algorithm config = ALGO_ALL) \<Longrightarrow>
     run_all c = (c_algorithm c = ALGO_ALL)"
  by (induction args config rule: args_loop.induct) (auto split: if_splits option.splits)

lemma args_loop_short:
  "args_loop args config = Some c \<Longrightarrow> length (output_dir config) < MAX_PATH_LEN \<Longrightarrow> length (output_dir c) < MAX_PATH_LEN"
  by (induction args config rule: args_loop.induct) (auto simp: c_snprintf_s_def MAX_PATH_LEN_def split: if_splits option.splits)

lemma parse_args_ok:
  assumes "parse_args args = Some cf"
  shows "1 \<le> c_cpu_count cf" "c_cpu_count cf \<le> 8" "run_all cf = (c_algorithm cf = ALGO_ALL)" "length (output_dir cf) < MAX_PATH_LEN"
proof -
  obtain c where "args_loop args default_config = Some c" "cf = c" "1 \<le> c_cpu_count cf" "c_cpu_count cf \<le> 8"
    using assms by (auto simp: parse_args_def MAX_CPUS_def split: option.splits if_splits)
  then show "1 \<le> c_cpu_count cf" "c_cpu_count cf \<le> 8" "run_all cf = (c_algorithm cf = ALGO_ALL)"
    "length (output_dir cf) < MAX_PATH_LEN"
    using args_loop_all [of args default_config c] args_loop_short [of args default_config c]
    by (auto simp: default_config_def MAX_PATH_LEN_def)
qed

subsection \<open>Status and effects\<close>

text \<open>A program follows a plan when it either does all of it and returns 0, or, if something is missing, does what comes before
  that and ends with a message and 1. \<open>full\<close> says whether the plan is complete.\<close>

definition program :: "(string \<Rightarrow> bool) \<Rightarrow> (string \<Rightarrow> bool) \<Rightarrow> bool \<Rightarrow> out_event list \<Rightarrow> int \<times> out_event list \<Rightarrow> bool" where
  "program mk op full plan res \<longleftrightarrow>
     (if full \<and> list_all (event_ok mk op) plan then res = (0, plan)
      else \<exists>message. res = (1, takeWhile (event_ok mk op) plan @ [Stderr message]))"

lemma run_simulation_case:
  assumes "gets_memory ma cf a"
  obtains ps where "run_simulation (ma a) w cf a = Some (result_of ma w cf a, ps)"
  using assms run_simulation_fails [of "ma a" w cf a] by (force simp: gets_memory_def result_of_def)

lemma run_simulation_no_memory: "\<not> gets_memory ma cf a \<Longrightarrow> run_simulation (ma a) w cf a = None"
  by (simp add: run_simulation_fails gets_memory_def)

lemma printed_result_ok: "list_all (event_ok mk op) (printed_result r)"
  by (simp add: printed_result_def)

definition each_event :: "SimulationConfig \<Rightarrow> SimulationResult \<Rightarrow> out_event list" where
  "each_event cf r = result_written (output_dir cf) (input_path cf) r @ printed_result r"

lemma run_each_program:
  fixes ma :: "AlgorithmKind \<Rightarrow> u64 \<Rightarrow> (nat \<Rightarrow> int) option" and cf :: SimulationConfig and w :: Workload
  defines "rs \<equiv> \<lambda>algs. map (result_of ma w cf) (takeWhile (gets_memory ma cf) algs)"
  shows "if list_all (gets_memory ma cf) algs \<and> list_all (event_ok mk op) (concat (map (each_event cf) (rs algs)))
    then run_each mk op ma w cf algs = (rs algs, concat (map (each_event cf) (rs algs)), True)
    else \<exists>rs' message. run_each mk op ma w cf algs =
      (rs', takeWhile (event_ok mk op) (concat (map (each_event cf) (rs algs))) @ [Stderr message], False)"
proof (induction algs)
  case Nil
  then show ?case by (simp add: rs_def)
next
  case (Cons a algs)
  let ?r = "result_of ma w cf a" and ?P = "event_ok mk op"
  show ?case
  proof (cases "gets_memory ma cf a")
    case False
    then have "run_each mk op ma w cf (a # algs) = ([], [Stderr (''Simulation failed for '' @ algorithm_kind_name a @ newline)], False)"
      using run_simulation_no_memory [of ma cf a w] by simp
    then show ?thesis using False by (simp add: rs_def)
  next
    case True
    obtain ps where r: "run_simulation (ma a) w cf a = Some (?r, ps)" by (rule run_simulation_case [OF True])
    have W: "write_result_files mk op (output_dir cf) (input_path cf) ?r =
        (takeWhile ?P (result_written (output_dir cf) (input_path cf) ?r), list_all ?P (result_written (output_dir cf) (input_path cf) ?r))"
      using follows_write_result_files by (simp add: follows_def)
    have rs: "rs (a # algs) = ?r # rs algs" using True by (simp add: rs_def)
    show ?thesis
    proof (cases "list_all ?P (result_written (output_dir cf) (input_path cf) ?r)")
      case False
      then show ?thesis by (simp add: r W rs each_event_def takeWhile_stop)
    next
      case ok: True
      have e: "list_all ?P (each_event cf ?r)" using ok printed_result_ok [of mk op ?r] by (simp add: each_event_def)
      have go: "run_each mk op ma w cf (a # algs) = (case run_each mk op ma w cf algs of (rs, ev', ok') \<Rightarrow>
          (?r # rs, each_event cf ?r @ ev', ok'))"
        using ok by (simp add: r W each_event_def takeWhile_all split: prod.splits)
      show ?thesis
      proof (cases "list_all (gets_memory ma cf) algs \<and> list_all ?P (concat (map (each_event cf) (rs algs)))")
        case all: True
        then have "run_each mk op ma w cf algs = (rs algs, concat (map (each_event cf) (rs algs)), True)" using Cons.IH by presburger
        then show ?thesis using all True e unfolding go rs by simp
      next
        case some: False
        then obtain rs' m where "run_each mk op ma w cf algs =
            (rs', takeWhile ?P (concat (map (each_event cf) (rs algs))) @ [Stderr m], False)" using Cons.IH by presburger
        moreover have "takeWhile ?P (concat (map (each_event cf) (?r # rs algs))) =
            each_event cf ?r @ takeWhile ?P (concat (map (each_event cf) (rs algs)))"
          using takeWhile_past [OF e] by simp
        ultimately show ?thesis using some e unfolding go rs by simp
      qed
    qed
  qed
qed

lemma run_all_program:
  assumes "run_all cf"
  shows "program mk op (list_all (gets_memory ma cf) (algorithms_of cf))
    (drop (length (path_dirs (output_dir cf))) (expected_events ma w cf)) (run_all_algorithms mk op ma w cf)"
proof -
  let ?algs = "[ALGO_MLFQ, ALGO_LOTTERY, ALGO_EDF, ALGO_CUSTOM]" and ?P = "event_ok mk op"
  let ?rs = "results_of ma w cf" and ?c = "\<lambda>rs. WriteFile (c_snprintf_s MAX_PATH_LEN (output_dir cf @ ''/comparison.csv'')) (comparison_csv rs)"
  let ?ev = "concat (map (each_event cf) ?rs)"
  have algs: "algorithms_of cf = ?algs" using assms by (simp add: algorithms_of_def)
  have plan: "drop (length (path_dirs (output_dir cf))) (expected_events ma w cf) =
      ?ev @ (if length ?rs = 4 then [?c ?rs] else [])"
    using assms by (simp add: expected_events_def Let_def each_event_def [abs_def])
  have full: "list_all (gets_memory ma cf) ?algs \<Longrightarrow> length ?rs = 4" by (simp add: results_of_def algs takeWhile_all)
  have C: "write_comparison_csv op (output_dir cf) rs = (takeWhile ?P [?c rs], list_all ?P [?c rs])" for rs
    using follows_write_comparison by (simp add: follows_def)
  note E = run_each_program [of ma cf ?algs mk op w, folded algs, folded results_of_def]
  show ?thesis
  proof (cases "list_all (gets_memory ma cf) (algorithms_of cf) \<and> list_all ?P ?ev")
    case True
    then have e: "run_each mk op ma w cf ?algs = (?rs, ?ev, True)" using E by (simp add: algs)
    have "takeWhile ?P (?ev @ xs) = ?ev @ takeWhile ?P xs" for xs using True by (simp add: takeWhile_past)
    moreover have "length ?rs = 4" using True full algs by simp
    ultimately show ?thesis using True
      by (simp add: program_def plan run_all_algorithms_def e C del: run_each.simps)
  next
    case False
    then obtain rs' m where e: "run_each mk op ma w cf ?algs = (rs', takeWhile ?P ?ev @ [Stderr m], False)"
      using E unfolding algs by (simp only: if_False) blast
    have "takeWhile ?P (?ev @ (if length ?rs = 4 then [?c ?rs] else [])) = takeWhile ?P ?ev"
    proof (cases "list_all ?P ?ev")
      case True
      then have "\<not> list_all (gets_memory ma cf) (algorithms_of cf)" using False by simp
      then have "length ?rs < length (algorithms_of cf)"
        unfolding results_of_def length_map by (metis length_takeWhile_le list_all_iff nat_less_le takeWhile_eq_all_conv takeWhile_eq_take take_all_iff order_refl)
      then show ?thesis by (simp add: algs)
    qed (simp add: takeWhile_stop)
    moreover have "\<not> (list_all (gets_memory ma cf) (algorithms_of cf) \<and> list_all ?P (?ev @ xs))" for xs using False by auto
    ultimately show ?thesis by (auto simp: program_def plan run_all_algorithms_def e simp del: run_each.simps)
  qed
qed

lemma run_one_program:
  assumes "\<not> run_all cf"
  shows "program mk op (list_all (gets_memory ma cf) (algorithms_of cf))
    (drop (length (path_dirs (output_dir cf))) (expected_events ma w cf)) (run_one_algorithm mk op ma w cf)"
proof -
  let ?a = "c_algorithm cf" and ?P = "event_ok mk op"
  let ?r = "result_of ma w cf ?a"
  let ?W = "result_written (output_dir cf) (input_path cf) ?r"
  let ?c = "WriteFile (c_snprintf_s MAX_PATH_LEN (output_dir cf @ ''/comparison.csv'')) (comparison_csv [?r])"
  have algs: "algorithms_of cf = [?a]" using assms by (simp add: algorithms_of_def)
  show ?thesis
  proof (cases "gets_memory ma cf ?a")
    case False
    then have "results_of ma w cf = []" "run_simulation (ma ?a) w cf ?a = None"
      using run_simulation_no_memory [of ma cf ?a w] by (simp_all add: results_of_def algs)
    then show ?thesis using False assms by (simp add: program_def run_one_algorithm_def expected_events_def algs)
  next
    case True
    obtain ps where r: "run_simulation (ma ?a) w cf ?a = Some (?r, ps)" by (rule run_simulation_case [OF True])
    have rs: "results_of ma w cf = [?r]" using True by (simp add: results_of_def algs)
    then have plan: "drop (length (path_dirs (output_dir cf))) (expected_events ma w cf) = (?W @ [?c]) @ printed_result ?r"
      using assms by (simp add: expected_events_def)
    have "and_then (write_result_files mk op (output_dir cf) (input_path cf) ?r) (write_comparison_csv op (output_dir cf) [?r]) =
        (takeWhile ?P (?W @ [?c]), list_all ?P (?W @ [?c]))"
      using follows_and_then [OF follows_write_result_files follows_write_comparison] by (simp add: follows_def)
    then have e: "run_one_algorithm mk op ma w cf = (if \<not> list_all ?P (?W @ [?c])
        then (1, takeWhile ?P (?W @ [?c]) @ [Stderr (''Failed to write output files'' @ newline)]) else (0, (?W @ [?c]) @ printed_result ?r))"
      unfolding run_one_algorithm_def r option.case prod.case by (cases "list_all ?P (?W @ [?c])") (simp_all only: prod.case takeWhile_all simp_thms if_True if_False)
    have "takeWhile ?P ((?W @ [?c]) @ printed_result ?r) = takeWhile ?P (?W @ [?c])" if "\<not> list_all ?P (?W @ [?c])"
      by (rule takeWhile_stop [OF that])
    then show ?thesis unfolding program_def plan e algs using True printed_result_ok [of mk op ?r] by auto
  qed
qed

text \<open>The program on arguments and an input that are accepted.\<close>

lemma sim_main_program:
  assumes "parse_args args = Some cf" "parse_workload (file_contents (rf (input_path cf))) = Some w"
  shows "program mk op (list_all (gets_memory ma cf) (algorithms_of cf)) (expected_events ma w cf) (sim_main rf mk op ma argv0 args)"
proof -
  let ?P = "event_ok mk op" and ?D = "map Mkdir (path_dirs (output_dir cf))"
  let ?run = "if run_all cf then run_all_algorithms mk op ma w cf else run_one_algorithm mk op ma w cf"
  define rest where "rest = drop (length (path_dirs (output_dir cf))) (expected_events ma w cf)"
  have plan: "expected_events ma w cf = ?D @ rest" by (simp add: rest_def expected_events_def Let_def)
  have D: "ensure_output_dir mk (output_dir cf) = (takeWhile ?P ?D, list_all ?P ?D)"
    using follows_ensure_output_dir [OF parse_args_ok(4) [OF assms(1)], of mk op] by (simp add: follows_def)
  have run: "program mk op (list_all (gets_memory ma cf) (algorithms_of cf)) rest ?run"
    using run_all_program [of cf mk op ma w] run_one_program [of cf mk op ma w] by (simp add: rest_def)
  show ?thesis
  proof (cases "list_all ?P ?D")
    case False
    then have "takeWhile ?P (?D @ rest) = takeWhile ?P ?D" by (rule takeWhile_stop)
    moreover have "sim_main rf mk op ma argv0 args = (1, takeWhile ?P ?D @ [Stderr (''Failed to create output directory: '' @ output_dir cf @ newline)])"
      using False assms D by (simp add: sim_main_def Let_def)
    moreover have "\<not> list_all ?P (?D @ rest)" using False by simp
    ultimately show ?thesis unfolding plan program_def by auto
  next
    case True
    then have "takeWhile ?P (?D @ rest) = ?D @ takeWhile ?P rest" by (rule takeWhile_past)
    moreover have "sim_main rf mk op ma argv0 args = (fst ?run, ?D @ snd ?run)"
      using True assms D by (simp add: sim_main_def Let_def takeWhile_all split: prod.splits)
    moreover have "list_all ?P (?D @ rest) = list_all ?P rest" using True by simp
    ultimately show ?thesis using run unfolding plan program_def by (auto split: if_splits)
  qed
qed

end
