(* ===== verification/Sim_Props.thy ===== *)
theory Sim_Props
  imports Sim_Main
begin

text \<open>
  The properties of the scheduling simulator: whole runs first, then the policies and the queue
  they share. Each is stated over the definitions of the model and proved from the component
  theories; the witnesses apply it to a small workload of two processes.
\<close>

subsection \<open>A concrete workload\<close>

text \<open>Two processes: CPU for 2 ticks, I/O for 1, CPU for 1; and CPU for 3 ticks, arriving at tick 1.\<close>

definition small_spec :: "int \<Rightarrow> int \<Rightarrow> Burst list \<Rightarrow> ProcessSpec" where
  "small_spec i a bs = \<lparr>pid = i, arrival = a, base_priority = 0, tickets = 2, deadline = 10, affinity = 0,
     burst_count = int (length bs), bursts = bs @ replicate (32 - length bs) zero_burst\<rparr>"

definition small_workload :: Workload where
  "small_workload = \<lparr>processes =
      [small_spec 1 0 [\<lparr>btype = BURST_CPU, duration = 2\<rparr>, \<lparr>btype = BURST_IO, duration = 1\<rparr>, \<lparr>btype = BURST_CPU, duration = 1\<rparr>],
       small_spec 2 1 [\<lparr>btype = BURST_CPU, duration = 3\<rparr>]] @ replicate 126 zero_spec,
     process_count = 2\<rparr>"

definition small_config :: SimulationConfig where
  "small_config = \<lparr>c_algorithm = ALGO_MLFQ, c_cpu_count = 2, c_seed = 42, max_ticks = 16, run_all = True,
     input_path = ''w.csv'', output_dir = ''out''\<rparr>"

lemma small_wf: "wf_workload small_workload" "config_ok small_config"
  by (auto simp: wf_workload_def small_workload_def small_spec_def wf_spec_def config_ok_def small_config_def
      less_Suc_eq numeral_2_eq_2 numeral_3_eq_3)

lemma small_specs: "workload_specs small_workload =
    [small_spec 1 0 [\<lparr>btype = BURST_CPU, duration = 2\<rparr>, \<lparr>btype = BURST_IO, duration = 1\<rparr>, \<lparr>btype = BURST_CPU, duration = 1\<rparr>],
     small_spec 2 1 [\<lparr>btype = BURST_CPU, duration = 3\<rparr>]]"
  by (simp add: workload_specs_def small_workload_def numeral_2_eq_2)

lemma small_ticks: "workload_ticks small_workload = 7"
  by (simp add: workload_ticks_def small_specs work_from_def small_spec_def numeral_3_eq_3)

lemma small_fit: "slots_fit small_config"
  by (simp add: slots_fit_def small_config_def INT_MAX_def)

text \<open>An allocator that gives out at most a megabyte, cleared or not.\<close>

definition small_malloc :: "u64 \<Rightarrow> (nat \<Rightarrow> int) option" where
  "small_malloc n = (if n \<le> 1048576 then Some (\<lambda>i. 7) else None)"

lemma small_memory: "small_malloc (timeline_bytes small_config) = Some (\<lambda>i. 7)"
  by (simp add: small_malloc_def timeline_bytes_def small_config_def)

subsection \<open>Runs\<close>

text \<open>C1. Under every one of the four policies the simulation finishes every process of a well-formed
  workload within (latest arrival + total ticks of work) ticks, if the tick limit allows that many;
  no process starves and the run does not stop on the limit. The memory for the timeline must be there, its size must
  be an \<open>int\<close>, and under the lottery the sum of all tickets too: two processes with 2147483647 tickets each make the
  sum wrap around below 0, and then nothing is ever picked (\<open>lottery_overflow\<close>).\<close>

theorem run_completes:
  assumes "wf_workload w" "config_ok cf" "slots_fit cf" "malloc (timeline_bytes cf) = Some mem"
    and "alg = ALGO_LOTTERY \<longrightarrow> (\<Sum>sp \<leftarrow> workload_specs w. tickets sp) \<le> INT_MAX"
    and "\<forall>sp \<in> set (workload_specs w). arrival sp \<le> a" "a + workload_ticks w \<le> max_ticks cf" "0 \<le> a"
  shows "\<exists>r ps. run_simulation malloc w cf alg = Some (r, ps) \<and> map spec ps = workload_specs w \<and>
    (\<forall>p \<in> set ps. pstate p = PROC_DONE) \<and> total_ticks (metrics r) \<le> a + workload_ticks w"
proof -
  obtain r ps where run: "run_simulation malloc w cf alg = Some (r, ps)" using run_simulation_some [of malloc] assms(4) by blast
  from assms(1,2) run show ?thesis
  proof (rule run_simulation_loop)
    fix mem t st
    assume l: "sim_loop (process_count w) (c_cpu_count cf) (max_ticks cf) 0 (initial_state mem w cf alg) = (t, st)"
      and st: "procs st = ps" "metrics r = collect_metrics (initial_metrics cf alg) ps (process_count w) t (c_cpu_count cf) (busy st)"
      and inv: "sim_inv (process_count w) t st" and sp: "map spec ps = workload_specs w"
    have cf: "1 \<le> c_cpu_count cf" "c_cpu_count cf \<le> 8" using assms(2) by (auto simp: config_ok_def)
    note I = initial_state_inv [OF assms(1) cf, where alg = alg and mem = mem]
    let ?st = "initial_state mem w cf alg"
    have w: "total_work (procs ?st) = workload_ticks w" using I(4) by (simp add: workload_ticks_def workload_specs_def)
    have arr: "\<forall>p \<in> set (procs ?st). arrival (spec p) \<le> a"
      using assms(6) I(3) unfolding workload_specs_def by (metis imageI list.set_map)
    have "map (\<lambda>p. tickets (spec p)) (procs ?st) = map tickets (workload_specs w)"
      using arg_cong [OF I(3), of "map tickets"] by (simp add: workload_specs_def o_def)
    moreover have "algorithm (scheduler ?st) = alg" unfolding I(5) by (rule scheduler_init_ok(3) [OF cf])
    ultimately have fit: "sched_fit (scheduler ?st) (procs ?st)" using assms(5) by (simp only: sched_fit_def ticket_sum_def)
    have pos: "0 < total_work (procs ?st)" by (rule initial_work_pos [OF assms(1) cf])
    have "all_done (procs st) (process_count w) \<and> t \<le> max 0 a + total_work (procs ?st)"
      by (rule sim_loop_finishes [OF I(1,2) pos fit arr _ l]) (use assms(7,8) w in simp)
    moreover have "length ps = nat (process_count w)" using inv st(1) by (auto simp: sim_inv_def core_inv_def)
    ultimately show ?thesis
      using run sp st w assms(8) by (auto simp: all_done_def list_all_iff collect_metrics_def Let_def)
  qed
qed

theorem run_completes_witness:
  "\<exists>r ps. run_simulation small_malloc small_workload small_config ALGO_LOTTERY = Some (r, ps) \<and>
     map spec ps = workload_specs small_workload \<and> (\<forall>p \<in> set ps. pstate p = PROC_DONE) \<and> total_ticks (metrics r) \<le> 8"
  using run_completes [where malloc = small_malloc and alg = ALGO_LOTTERY and a = 1, OF small_wf small_fit small_memory] small_ticks
  by (simp add: small_specs small_spec_def small_config_def INT_MAX_def)

text \<open>C5. On every run, whether it reaches the tick limit or not, the books balance: no process is
  charged more CPU time than its script asks for; a finished process was charged exactly that, it was
  first dispatched no earlier than it arrived and completed strictly later, within the ticks simulated;
  and a run that stops before the limit has finished every process.\<close>

theorem run_accounting:
  assumes "wf_workload w" "config_ok cf" "run_simulation malloc w cf alg = Some (r, ps)"
  shows "map spec ps = workload_specs w \<and>
    (\<forall>p \<in> set ps. 0 \<le> runtime_ticks p \<and> runtime_ticks p \<le> cpu_demand (spec p) \<and>
      (pstate p = PROC_DONE \<longrightarrow> runtime_ticks p = cpu_demand (spec p) \<and> arrival (spec p) \<le> first_run_tick p \<and>
        first_run_tick p < completion_tick p \<and> completion_tick p \<le> total_ticks (metrics r))) \<and>
    (total_ticks (metrics r) < max_ticks cf \<longrightarrow> (\<forall>p \<in> set ps. pstate p = PROC_DONE))"
  using assms
proof (rule run_simulation_loop)
  fix t st
  assume st: "procs st = ps" "metrics r = collect_metrics (initial_metrics cf alg) ps (process_count w) t (c_cpu_count cf) (busy st)"
    and inv: "sim_inv (process_count w) t st" and sp: "map spec ps = workload_specs w"
    and stop: "all_done ps (process_count w) \<or> t = max_ticks cf"
  have P: "\<forall>p \<in> set ps. pinv t t p" "length ps = nat (process_count w)"
    using inv st(1) by (auto simp: sim_inv_def core_inv_def)
  have t: "total_ticks (metrics r) = t" by (simp add: st(2) collect_metrics_def Let_def)
  have "0 \<le> runtime_ticks p \<and> runtime_ticks p \<le> cpu_demand (spec p) \<and>
      (pstate p = PROC_DONE \<longrightarrow> runtime_ticks p = cpu_demand (spec p) \<and> arrival (spec p) \<le> first_run_tick p \<and>
        first_run_tick p < completion_tick p \<and> completion_tick p \<le> t)" if "p \<in> set ps" for p
    using P(1) that proc_inv_runtime [of p] by (auto simp: pinv_def proc_inv_def time_inv_def)
  with sp stop P(2) show ?thesis by (auto simp: t all_done_def list_all_iff)
qed

theorem run_accounting_witness:
  "\<exists>r ps. run_simulation small_malloc small_workload small_config ALGO_EDF = Some (r, ps) \<and> length ps = 2 \<and>
     (\<forall>p \<in> set ps. runtime_ticks p \<le> cpu_demand (spec p))"
proof -
  obtain r ps where run: "run_simulation small_malloc small_workload small_config ALGO_EDF = Some (r, ps)"
    using run_simulation_some [of small_malloc, OF small_memory] by blast
  note A = run_accounting [OF small_wf run]
  then have "map spec ps = workload_specs small_workload" by blast
  then have "length ps = 2" by (metis length_map small_specs length_Cons list.size(3) One_nat_def Suc_1)
  with A run show ?thesis by blast
qed

text \<open>The states of a run between two ticks; the memory of the timeline may hold anything at first.\<close>

inductive sim_reach :: "Workload \<Rightarrow> SimulationConfig \<Rightarrow> AlgorithmKind \<Rightarrow> int \<Rightarrow> SimState \<Rightarrow> bool"
  for w :: Workload and cf :: SimulationConfig and alg :: AlgorithmKind where
  start: "sim_reach w cf alg 0 (initial_state mem w cf alg)"
| tick: "sim_reach w cf alg t st \<Longrightarrow> t < max_ticks cf \<Longrightarrow>
    sim_reach w cf alg (t + 1) (sim_tick (process_count w) (c_cpu_count cf) t st)"

lemma sim_reach_inv:
  assumes "sim_reach w cf alg t st" "wf_workload w" "config_ok cf"
  shows "sim_inv (process_count w) t st \<and> length (cpus st) = nat (c_cpu_count cf)"
  using assms
proof (induction rule: sim_reach.induct)
  case (start mem)
  then show ?case using initial_state_inv(1,2) [where alg = alg and mem = mem] by (simp add: config_ok_def)
next
  case (tick t st)
  then show ?case using sim_tick_inv by blast
qed

text \<open>C12. In every state between two ticks, under every policy: a process is READY exactly when the
  scheduler holds it, and it holds no process twice; a process is RUNNING exactly when some CPU runs it,
  and no two CPUs run the same process. No process is ever lost or duplicated.\<close>

theorem no_process_lost_or_duplicated:
  assumes "wf_workload w" "config_ok cf" "sim_reach w cf alg t st"
  shows "(\<forall>x. count (sched_queued (scheduler st)) x =
      (if 0 \<le> x \<and> x < process_count w \<and> pstate (procs st ! nat x) = PROC_READY then 1 else 0)) \<and>
    (\<forall>x \<ge> 0. length (filter (\<lambda>c. running_pid c = x) (cpus st)) =
      (if x < process_count w \<and> pstate (procs st ! nat x) = PROC_RUNNING then 1 else 0))"
proof -
  have c: "sched_queued (scheduler st) = ids PROC_READY (procs st)" "cpu_ids (cpus st) = ids PROC_RUNNING (procs st)"
    "length (procs st) = nat (process_count w)"
    using sim_reach_inv [OF assms(3,1,2)] by (auto simp: sim_inv_def core_inv_def)
  have n: "0 \<le> process_count w" using assms(1) by (simp add: wf_workload_def)
  have cnt: "count (ids s ps) x = (if x \<in># ids s ps then 1 else 0)" for s ps x
  proof -
    have "count (ids s ps) x = card {i \<in> idset s ps. int i = x}"
      unfolding ids_def by (subst count_image_mset) (simp add: vimage_def Int_def conj_commute)
    also have "{i \<in> idset s ps. int i = x} = (if x \<in># ids s ps then {nat x} else {})" by (auto simp: ids_def)
    finally show ?thesis by simp
  qed
  have q: "count (sched_queued (scheduler st)) x =
      (if 0 \<le> x \<and> x < process_count w \<and> pstate (procs st ! nat x) = PROC_READY then 1 else 0)" for x
    unfolding c(1) cnt using c(3) n by (simp add: mem_ids)
  have "length (filter (\<lambda>c. running_pid c = x) cs) = count (cpu_ids cs) x" if "0 \<le> x" for x cs
    using that by (induction cs) (auto simp: cpu_ids_def)
  moreover have "count (cpu_ids (cpus st)) x =
      (if x < process_count w \<and> pstate (procs st ! nat x) = PROC_RUNNING then 1 else 0)" if "0 \<le> x" for x
    unfolding c(2) cnt using that c(3) n by (simp add: mem_ids)
  ultimately show ?thesis using q by simp
qed

theorem no_process_lost_or_duplicated_witness:
  "(\<forall>x. count (sched_queued (scheduler (sim_tick 2 2 0 (initial_state (\<lambda>_. 7) small_workload small_config ALGO_CUSTOM)))) x =
      (if 0 \<le> x \<and> x < 2 \<and> pstate (procs (sim_tick 2 2 0 (initial_state (\<lambda>_. 7) small_workload small_config ALGO_CUSTOM)) ! nat x)
         = PROC_READY then 1 else 0))"
proof -
  have "sim_reach small_workload small_config ALGO_CUSTOM (0 + 1)
      (sim_tick (process_count small_workload) (c_cpu_count small_config) 0 (initial_state (\<lambda>_. 7) small_workload small_config ALGO_CUSTOM))"
    by (rule sim_reach.tick [OF sim_reach.start]) (simp add: small_config_def)
  from no_process_lost_or_duplicated [OF small_wf this]
  show ?thesis by (simp add: small_workload_def small_config_def)
qed

text \<open>C13. If the number of slots, CPUs times ticks, is an \<open>int\<close>, the timeline a run returns is its CPU accounting: a process identifier occurs in it exactly
  as often as the processes of that identifier were charged; within one tick it occurs at most once per
  process of that identifier, so no process is shown on two CPUs at once; and no slot after the last
  tick is used.\<close>

theorem timeline_accounts:
  assumes "wf_workload w" "config_ok cf" "slots_fit cf" "run_simulation malloc w cf alg = Some (r, ps)"
  shows "length (slots (timeline r)) = nat (c_cpu_count cf) * nat (max_ticks cf) \<and>
    (\<forall>v \<ge> 0. int (count_list (slots (timeline r)) v) = (\<Sum>p \<leftarrow> ps. if pid (spec p) = v then runtime_ticks p else 0)) \<and>
    (\<forall>v t. 0 \<le> v \<longrightarrow> t < nat (tick_count (timeline r)) \<longrightarrow>
       count_list (take (nat (c_cpu_count cf)) (drop (t * nat (c_cpu_count cf)) (slots (timeline r)))) v
         \<le> length (filter (\<lambda>sp. pid sp = v) (workload_specs w))) \<and>
    (\<forall>k < length (slots (timeline r)). nat (tick_count (timeline r)) * nat (c_cpu_count cf) \<le> k \<longrightarrow>
       slots (timeline r) ! k = -1)"
  using assms(1,2,4)
proof (rule run_simulation_loop)
  fix t st
  assume tl: "timeline r = \<lparr>tick_count = t, tl_cpu_count = c_cpu_count cf, slots = slot_array st\<rparr>"
    and st: "procs st = ps" "map spec ps = workload_specs w"
    and "slots_fit cf \<longrightarrow> timeline_inv (nat (c_cpu_count cf)) (nat t) st \<and>
      length (slot_array st) = nat (c_cpu_count cf) * nat (max_ticks cf)"
  then have inv: "timeline_inv (nat (c_cpu_count cf)) (nat t) st"
      "length (slot_array st) = nat (c_cpu_count cf) * nat (max_ticks cf)" using assms(3) by simp_all
  from inv show ?thesis unfolding timeline_inv_def st by (auto simp: tl runtime_where_def)
qed

theorem timeline_accounts_witness:
  "\<exists>r ps. run_simulation small_malloc small_workload small_config ALGO_MLFQ = Some (r, ps) \<and>
     length (slots (timeline r)) = 32 \<and>
     (\<forall>v \<ge> 0. int (count_list (slots (timeline r)) v) = (\<Sum>p \<leftarrow> ps. if pid (spec p) = v then runtime_ticks p else 0))"
proof -
  obtain r ps where run: "run_simulation small_malloc small_workload small_config ALGO_MLFQ = Some (r, ps)"
    using run_simulation_some [of small_malloc, OF small_memory] by blast
  from timeline_accounts [OF small_wf small_fit run] run show ?thesis by (auto simp: small_config_def)
qed

text \<open>The busy count of the metrics is the CPU time charged to the processes; it is at most one per
  CPU and tick, so the reported utilisation lies between 0 and 1.\<close>

theorem utilization_bounds:
  assumes "wf_workload w" "config_ok cf" "slots_fit cf" "run_simulation malloc w cf alg = Some (r, ps)"
  shows "busy_ticks (metrics r) = sum_list (map runtime_ticks ps) \<and>
    busy_ticks (metrics r) \<le> total_ticks (metrics r) * c_cpu_count cf \<and>
    0 \<le> cpu_utilization (metrics r) \<and> cpu_utilization (metrics r) \<le> 1"
  using assms(1,2,4)
proof (rule run_simulation_loop)
  fix t st
  assume st: "procs st = ps" "metrics r = collect_metrics (initial_metrics cf alg) ps (process_count w) t (c_cpu_count cf) (busy st)"
    and inv: "sim_inv (process_count w) t st" "length (cpus st) = nat (c_cpu_count cf)" and t: "0 \<le> t" "t \<le> max_ticks cf"
  have c: "1 \<le> c_cpu_count cf" using assms(2) by (simp add: config_ok_def)
  have b: "busy st = sum_list (map runtime_ticks ps)" "busy st \<le> t * c_cpu_count cf" "\<forall>p \<in> set ps. proc_inv p"
    using inv c st(1) by (auto simp: sim_inv_def total_runtime_def core_inv_def pinv_def)
  have nn: "0 \<le> busy st" unfolding b(1) by (rule sum_list_nonneg) (use b(3) proc_inv_runtime in auto)
  let ?d = "(if t > 0 then t else 1) * c_cpu_count cf"
  have d: "0 < ?d" "busy st \<le> ?d" using t(1) c b(2) nn by (auto simp: mult_le_0_iff)
  have "t * c_cpu_count cf \<le> max_ticks cf * c_cpu_count cf" using t(2) c by (intro mult_right_mono) auto
  then have "t * c_cpu_count cf \<le> INT_MAX" using assms(3) by (simp add: slots_fit_def mult.commute)
  then have "?d \<le> INT_MAX" using assms(2) by (auto simp: config_ok_def INT_MAX_def)
  then have w: "to_int32 ?d = ?d" using d(1) by (intro to_int32_id) (auto simp: INT_MAX_def)
  have m: "busy_ticks (metrics r) = busy st" "total_ticks (metrics r) = t"
    "cpu_utilization (metrics r) = of_int (busy st) / of_int ?d"
    using w by (simp_all add: st(2) collect_metrics_def Let_def)
  have "(of_int (busy st) :: rat) \<le> of_int ?d" using d(2) by (simp only: of_int_le_iff)
  then have "(of_int (busy st) :: rat) / of_int ?d \<le> 1" using d(1) by (simp only: divide_le_eq_1 of_int_0_less_iff) auto
  moreover have "0 \<le> (of_int (busy st) :: rat) / of_int ?d"
    using nn d(1) by (simp only: zero_le_divide_iff of_int_0_le_iff) auto
  ultimately show ?thesis using b m by simp
qed

theorem utilization_bounds_witness:
  "\<exists>r ps. run_simulation small_malloc small_workload small_config ALGO_CUSTOM = Some (r, ps) \<and>
     0 \<le> cpu_utilization (metrics r) \<and> cpu_utilization (metrics r) \<le> 1"
proof -
  obtain r ps where run: "run_simulation small_malloc small_workload small_config ALGO_CUSTOM = Some (r, ps)"
    using run_simulation_some [of small_malloc, OF small_memory] by blast
  from utilization_bounds [OF small_wf small_fit run] run show ?thesis by blast
qed

text \<open>C27. The dispatch loop is work conserving: after it, a CPU is idle only if its policy has nothing
  left that this CPU may run. For the three policies with one shared structure that means that no CPU
  idles while any process is READY. Under the lottery the sum of all tickets must be an \<open>int\<close> (\<open>sched_fit\<close>).\<close>

theorem dispatch_work_conserving:
  assumes "core_inv t (t + 1) n s ps (cpu_ids cs)" "int (length cs) = cpu_count s" "sched_fit s ps"
    and "fold (dispatch_step t) [0..<length cs] (s, ps, cs) = (s', ps', cs')"
  shows "(\<forall>j < length cs. running_pid (cs' ! j) < 0 \<longrightarrow> sched_avail s' (int j) = {#}) \<and>
    (algorithm s \<in> {ALGO_MLFQ, ALGO_LOTTERY, ALGO_EDF} \<longrightarrow> (\<exists>j < length cs. running_pid (cs' ! j) < 0) \<longrightarrow>
       (\<forall>p \<in> set ps'. pstate p \<noteq> PROC_READY))"
proof (intro conjI impI)
  note D = dispatch_core [OF assms(1,2,4)]
  from D assms(3) show "\<forall>j < length cs. running_pid (cs' ! j) < 0 \<longrightarrow> sched_avail s' (int j) = {#}" by blast
  assume a: "algorithm s \<in> {ALGO_MLFQ, ALGO_LOTTERY, ALGO_EDF}" and "\<exists>j < length cs. running_pid (cs' ! j) < 0"
  then obtain j where "sched_avail s' (int j) = {#}" using D assms(3) by blast
  moreover have "algorithm s' = algorithm s" using D by (simp add: same_kind_def)
  ultimately have "sched_queued s' = {#}" using a by (auto simp: sched_avail_def sched_queued_def)
  then have "ids PROC_READY ps' = {#}" using D by (simp add: core_inv_def)
  then have "idset PROC_READY ps' = {}" by (simp add: ids_def mset_set_empty_iff)
  then show "\<forall>p \<in> set ps'. pstate p \<noteq> PROC_READY" by (auto simp: idset_def in_set_conv_nth)
qed

theorem dispatch_work_conserving_witness:
  defines "st \<equiv> initial_state (\<lambda>_. 7) small_workload small_config ALGO_CUSTOM"
  shows "\<exists>s' ps' cs'. fold (dispatch_step 0) [0..<length (cpus st)] (scheduler st, procs st, cpus st) = (s', ps', cs') \<and>
    (\<forall>j < length (cpus st). running_pid (cs' ! j) < 0 \<longrightarrow> sched_avail s' (int j) = {#})"
proof -
  have c: "1 \<le> c_cpu_count small_config" "c_cpu_count small_config \<le> 8" by (simp_all add: small_config_def)
  have "core_inv 0 0 (nat (process_count small_workload)) (scheduler st) (procs st) (cpu_ids (cpus st))"
    and len: "int (length (cpus st)) = cpu_count (scheduler st)"
    using initial_state_inv(1) [OF small_wf(1) c, of "\<lambda>_. 7" ALGO_CUSTOM] by (simp_all add: sim_inv_def st_def)
  from core_mono [OF this(1), of 0 "0 + 1"]
  have "core_inv 0 (0 + 1) (nat (process_count small_workload)) (scheduler st) (procs st) (cpu_ids (cpus st))" by simp
  moreover have "sched_fit (scheduler st) (procs st)"
    using scheduler_init_ok(3) [OF c, of ALGO_CUSTOM] by (simp add: st_def initial_state_def sched_fit_def)
  ultimately show ?thesis using dispatch_work_conserving [OF _ len] by (metis prod_cases3)
qed

subsection \<open>Policies\<close>

text \<open>MLFQ picks the oldest process of the highest non-empty level, and takes nothing else.\<close>

theorem mlfq_picks_highest_level:
  assumes "mlfq_ok s" "k < 3" "\<forall>j < k. mlfq_list s j = []" "mlfq_list s k = x # xs"
  shows "fst (mlfq_pick_next s) = x \<and> mlfq_list (snd (mlfq_pick_next s)) k = xs \<and>
    (\<forall>j < 3. j \<noteq> k \<longrightarrow> mlfq_list (snd (mlfq_pick_next s)) j = mlfq_list s j)"
proof -
  from assms(1) have "mlfq_pick_next s = mlfq_pop k s"
  proof (cases rule: mlfq_pick_next_cases)
    case none
    moreover have "k = 0 \<or> k = 1 \<or> k = 2" using assms(2) by auto
    ultimately show ?thesis using assms(4) by auto
  next
    case (pop k' y ys)
    then have "k = k'" using assms(3,4) by (metis linorder_neqE_nat list.distinct(1))
    with pop show ?thesis by simp
  qed
  with mlfq_pop_list [OF assms(1,2,4)] assms(2) show ?thesis by simp
qed

text \<open>Concrete queues and schedulers.\<close>

definition queue_of :: "int list \<Rightarrow> ReadyQueue" where
  "queue_of xs = \<lparr>items = xs @ replicate (128 - length xs) 0, qcount = int (length xs)\<rparr>"

lemma queue_of_ok [simp]: "length xs \<le> 128 \<Longrightarrow> queue_ok (queue_of xs)" "queue_list (queue_of xs) = xs"
  by (auto simp: queue_of_def queue_ok_def queue_list_def)

definition small_mlfq :: SchedulerState where
  "small_mlfq = zero_scheduler\<lparr>cpu_count := 2, mlfq := \<lparr>mlfq_queues = [queue_of [], queue_of [1], queue_of [0]],
     boost_interval = 20, last_boost_tick = 0\<rparr>\<rparr>"

definition small_procs :: "ProcessRuntime list" where
  "small_procs = initialize_runtime small_workload 2"

lemma small_mlfq_ok: "mlfq_ok small_mlfq" "mlfq_list small_mlfq 0 = []" "mlfq_list small_mlfq 1 = [1]"
  "mlfq_list small_mlfq 2 = [0]"
  by (auto simp: small_mlfq_def mlfq_ok_def mlfq_list_def less_Suc_eq numeral_3_eq_3)

lemma small_procs_ok: "procs_ok small_procs" "length small_procs = 2"
  by (auto simp: small_procs_def procs_ok_def initialize_runtime_def Let_def small_workload_def small_spec_def nth_Cons'
      less_Suc_eq numeral_2_eq_2)

theorem mlfq_picks_highest_level_witness: "fst (mlfq_pick_next small_mlfq) = 1 \<and> mlfq_list (snd (mlfq_pick_next small_mlfq)) 1 = []"
  using mlfq_picks_highest_level [OF small_mlfq_ok(1), of 1 1 "[]"] small_mlfq_ok by simp

text \<open>The MLFQ boost: when the interval has passed, every process queued below the top level is
  appended to the top level in order, gets level 0, and no other field of any process changes; the loop
  that drains a level ends with the level empty.\<close>

theorem mlfq_boost:
  assumes "mlfq_ok s" "size (mlfq_queued s) \<le> 128" "procs_ok ps" "now \<noteq> 0"
    "boost_interval (mlfq s) \<le> now - last_boost_tick (mlfq s)"
  shows "\<exists>s'. mlfq_tick s ps now =
      (s', fold (\<lambda>x. upd_proc x (\<lambda>p. p\<lparr>queue_level := 0\<rparr>)) (mlfq_list s 1 @ mlfq_list s 2) ps) \<and>
    mlfq_list s' 0 = mlfq_list s 0 @ mlfq_list s 1 @ mlfq_list s 2 \<and> mlfq_list s' 1 = [] \<and> mlfq_list s' 2 = [] \<and>
    last_boost_tick (mlfq s') = now \<and> mlfq_ok s'"
proof -
  obtain s' ps' where e: "mlfq_tick s ps now = (s', ps')" by force
  from mlfq_tick_boost [OF assms(1,2,3) e assms(4,5)] e show ?thesis by auto
qed

theorem mlfq_boost_witness: "\<exists>s' ps'. mlfq_tick small_mlfq small_procs 20 = (s', ps') \<and> mlfq_list s' 0 = [1, 0]"
proof -
  have "size (mlfq_queued small_mlfq) \<le> 128" using small_mlfq_ok by (simp add: mlfq_queued_def)
  from mlfq_boost [OF small_mlfq_ok(1) this small_procs_ok(1), of 20] show ?thesis
    using small_mlfq_ok by (auto simp: small_mlfq_def)
qed

text \<open>C34. The lottery is fair: among the equally many targets below the total, each queued process is
  selected by exactly as many as it holds tickets; the target of a pick is the next random number modulo
  the total, it lies below the total whenever the total fits an \<open>int\<close>, and the process removed is
  the one whose ticket interval holds it, so the fallback to the last process is never taken.\<close>

theorem lottery_fair:
  assumes "lottery_ok s" "\<forall>x \<in> set (lottery_list s). 1 \<le> tickets_of ps x" "lottery_list s \<noteq> []"
    "(\<Sum>x \<leftarrow> lottery_list s. tickets_of ps x) \<le> INT_MAX"
  defines "xs \<equiv> lottery_list s" and "target \<equiv> uint (next_random (rng_state (lottery s))) mod total_tickets ps (lottery_list s)"
  shows "(\<forall>k < length xs. card {v \<in> {0..<total_tickets ps xs}. lottery_scan ps xs v 0 0 = Some k} = nat (tickets_of ps (xs ! k))) \<and>
    (\<exists>k < length xs. tickets_before ps xs k \<le> target \<and> target < tickets_before ps xs (Suc k) \<and>
       fst (lottery_pick_next s ps) = xs ! k \<and> lottery_list (snd (lottery_pick_next s ps)) = remove_nth k xs)"
proof
  have nn: "\<forall>x \<in> set xs. 0 \<le> tickets_of ps x" using assms(2) by (auto simp: xs_def)
  have sum: "total_tickets ps xs = sum_list (map (tickets_of ps) xs)" "sum_list (map (tickets_of ps) xs) \<le> INT_MAX"
    using total_tickets_sum [OF nn] assms(4) by (simp_all add: xs_def)
  have tot: "0 < total_tickets ps xs" unfolding sum(1)
    using assms(2,3) nn by (cases xs) (auto simp: xs_def intro!: add_pos_nonneg sum_list_nonneg)
  have mono: "tickets_before ps xs (Suc k) \<le> total_tickets ps xs" for k
  proof -
    have "sum_list (map (tickets_of ps) (take (Suc k) xs @ drop (Suc k) xs)) =
        tickets_before ps xs (Suc k) + sum_list (map (tickets_of ps) (drop (Suc k) xs))"
      by (simp only: tickets_before_def map_append sum_list_append)
    moreover have "0 \<le> sum_list (map (tickets_of ps) (drop (Suc k) xs))"
      by (rule sum_list_nonneg) (use nn in_set_dropD in fastforce)
    ultimately show ?thesis by (simp add: sum(1))
  qed
  show "\<forall>k < length xs. card {v \<in> {0..<total_tickets ps xs}. lottery_scan ps xs v 0 0 = Some k} = nat (tickets_of ps (xs ! k))"
  proof (intro allI impI)
    fix k assume k: "k < length xs"
    have "{v \<in> {0..<total_tickets ps xs}. lottery_scan ps xs v 0 0 = Some k} =
        {tickets_before ps xs k..<tickets_before ps xs (Suc k)}"
      using lottery_scan_iff [OF nn, of 0] sum(2) k mono [of k] tickets_before_nonneg [OF nn, of k]
      by (auto intro: order_trans less_le_trans)
    then show "card {v \<in> {0..<total_tickets ps xs}. lottery_scan ps xs v 0 0 = Some k} = nat (tickets_of ps (xs ! k))"
      using tickets_before_Suc [OF k, of ps] by simp
  qed
  have t: "0 \<le> target" "target < total_tickets ps xs" using tot by (auto simp: target_def xs_def)
  obtain k where scan: "lottery_scan ps xs target 0 0 = Some k"
    using lottery_scan_total [OF nn, of 0 target 0] t sum by auto
  note I = lottery_scan_iff [OF nn t(1), of 0 k, THEN iffD1, OF _ _ scan]
  have eq: "sint (next_random (rng_state (lottery s)) mod word_of_int (total_tickets ps (lottery_list s))) = target"
    using lottery_target_range(3) [of "total_tickets ps (lottery_list s)"] tot sum by (simp add: target_def xs_def)
  from lottery_pick_draw [OF assms(1), of ps, unfolded eq, folded xs_def] tot scan I sum(2)
  show "\<exists>k < length xs. tickets_before ps xs k \<le> target \<and> target < tickets_before ps xs (Suc k) \<and>
       fst (lottery_pick_next s ps) = xs ! k \<and> lottery_list (snd (lottery_pick_next s ps)) = remove_nth k xs" by auto
qed

definition small_lottery :: SchedulerState where
  "small_lottery = zero_scheduler\<lparr>algorithm := ALGO_LOTTERY, cpu_count := 2,
     lottery := \<lparr>lottery_ready = queue_of [1, 0], rng_state = 42\<rparr>\<rparr>"

theorem lottery_fair_witness:
  "card {v \<in> {0..<4}. lottery_scan small_procs [1, 0] v 0 0 = Some 0} = 2 \<and>
   card {v \<in> {0..<4}. lottery_scan small_procs [1, 0] v 0 0 = Some 1} = 2"
proof -
  have l: "lottery_ok small_lottery" "lottery_list small_lottery = [1, 0]"
    by (simp_all add: small_lottery_def lottery_ok_def lottery_list_def)
  have t: "tickets_of small_procs 1 = 2" "tickets_of small_procs 0 = 2"
    by (simp_all add: tickets_of_def small_procs_def initialize_runtime_def small_workload_def small_spec_def Let_def)
  from lottery_fair [OF l(1), of small_procs] t
  have "\<forall>k < 2. card {v \<in> {0..<4}. lottery_scan small_procs [1, 0] v 0 0 = Some k} = nat (tickets_of small_procs ([1, 0] ! k))"
    by (simp add: l(2) total_tickets_def INT_MAX_def numeral_2_eq_2 conj_commute)
  then show ?thesis using t by auto
qed

text \<open>EDF picks a process whose deadline is least among the queued ones, and whose arrival is
  least among those with that deadline; the rest of the queue keeps its order.\<close>

theorem edf_picks_earliest_deadline:
  assumes "edf_ok s" "edf_list s \<noteq> []"
  shows "\<exists>k < length (edf_list s). fst (edf_pick_next s ps) = edf_list s ! k \<and>
    edf_list (snd (edf_pick_next s ps)) = remove_nth k (edf_list s) \<and>
    (\<forall>x \<in> set (edf_list s). edf_deadline (ps ! nat (edf_list s ! k)) < edf_deadline (ps ! nat x) \<or>
       edf_deadline (ps ! nat (edf_list s ! k)) = edf_deadline (ps ! nat x) \<and>
       arrival (spec (ps ! nat (edf_list s ! k))) \<le> arrival (spec (ps ! nat x)))"
proof -
  from edf_pick_least [OF assms, of ps] obtain k where "k < length (edf_list s)"
    "fst (edf_pick_next s ps) = edf_list s ! k" "edf_list (snd (edf_pick_next s ps)) = remove_nth k (edf_list s)"
    "\<forall>j < length (edf_list s).
       edf_deadline (ps ! nat (edf_list s ! k)) < edf_deadline (ps ! nat (edf_list s ! j)) \<or>
       edf_deadline (ps ! nat (edf_list s ! k)) = edf_deadline (ps ! nat (edf_list s ! j)) \<and>
       arrival (spec (ps ! nat (edf_list s ! k))) \<le> arrival (spec (ps ! nat (edf_list s ! j)))" by blast
  then show ?thesis by (intro exI [of _ k]) (simp add: all_set_conv_all_nth)
qed

definition small_edf :: SchedulerState where
  "small_edf = zero_scheduler\<lparr>algorithm := ALGO_EDF, cpu_count := 2, edf := \<lparr>edf_ready = queue_of [1, 0]\<rparr>\<rparr>"

theorem edf_picks_earliest_deadline_witness: "fst (edf_pick_next small_edf small_procs) \<in> {0, 1}"
proof -
  have l: "edf_ok small_edf" "edf_list small_edf = [1, 0]" by (simp_all add: small_edf_def edf_ok_def edf_list_def)
  then have "edf_list small_edf \<noteq> []" by simp
  from edf_picks_earliest_deadline [OF l(1) this, of small_procs] show ?thesis
    by (auto simp: l(2) less_Suc_eq numeral_2_eq_2)
qed

text \<open>The custom scheduler picks, from the queue of the asking CPU alone, a process with the least
  score (remaining burst minus age, minus 2 on its preferred CPU), the least identifier among those; the
  other queues are untouched.\<close>

theorem custom_picks_least_score:
  assumes "custom_ok s" "0 \<le> c" "c < cpu_count s" "custom_list s (nat c) \<noteq> []"
  shows "\<exists>k < length (custom_list s (nat c)). fst (custom_pick_next s ps c now) = custom_list s (nat c) ! k \<and>
    (\<forall>d < 8. custom_list (snd (custom_pick_next s ps c now)) d =
       (if d = nat c then remove_nth k (custom_list s d) else custom_list s d)) \<and>
    (\<forall>x \<in> set (custom_list s (nat c)).
       custom_score (ps ! nat (custom_list s (nat c) ! k)) c now < custom_score (ps ! nat x) c now \<or>
       custom_score (ps ! nat (custom_list s (nat c) ! k)) c now = custom_score (ps ! nat x) c now \<and>
       pid (spec (ps ! nat (custom_list s (nat c) ! k))) \<le> pid (spec (ps ! nat x)))"
proof -
  from custom_pick_least [OF assms, of ps now] obtain k where "k < length (custom_list s (nat c))"
    "fst (custom_pick_next s ps c now) = custom_list s (nat c) ! k"
    "\<forall>d < 8. custom_list (snd (custom_pick_next s ps c now)) d =
       (if d = nat c then remove_nth k (custom_list s d) else custom_list s d)"
    "\<forall>j < length (custom_list s (nat c)).
       custom_score (ps ! nat (custom_list s (nat c) ! k)) c now
         < custom_score (ps ! nat (custom_list s (nat c) ! j)) c now \<or>
       custom_score (ps ! nat (custom_list s (nat c) ! k)) c now
         = custom_score (ps ! nat (custom_list s (nat c) ! j)) c now \<and>
       pid (spec (ps ! nat (custom_list s (nat c) ! k))) \<le> pid (spec (ps ! nat (custom_list s (nat c) ! j)))"
    by blast
  then show ?thesis by (intro exI [of _ k]) (simp add: all_set_conv_all_nth)
qed

definition small_custom :: SchedulerState where
  "small_custom = zero_scheduler\<lparr>algorithm := ALGO_CUSTOM, cpu_count := 2,
     custom := \<lparr>custom_queues = queue_of [1, 0] # replicate 7 zero_queue, steal_interval = 5,
       last_steal_tick = 0, imbalance_threshold = 2\<rparr>\<rparr>"

lemma small_custom_ok: "custom_ok small_custom" "custom_list small_custom 0 = [1, 0]" "cpu_count small_custom = 2"
  "custom_list small_custom (Suc 0) = []"
  by (auto simp: small_custom_def custom_ok_def custom_list_def nth_Cons' split: if_splits)

theorem custom_picks_least_score_witness: "fst (custom_pick_next small_custom small_procs 0 3) \<in> {0, 1}"
proof -
  have "custom_list small_custom (nat 0) \<noteq> []" using small_custom_ok by simp
  from custom_picks_least_score [OF small_custom_ok(1) _ _ this, of small_procs 3] show ?thesis
    by (auto simp: small_custom_ok less_Suc_eq numeral_2_eq_2)
qed

text \<open>The custom scheduler places a process on its preferred CPU, or else on the CPU it ran on,
  unless that queue is two or more longer than the shortest; so the queue a process joins is never more
  than one longer than any other before it joins. With no valid preference it joins the shortest queue.\<close>

theorem custom_placement:
  fixes h i :: int and ps :: "ProcessRuntime list"
  assumes "1 \<le> cpu_count s"
  defines "place \<equiv> custom_place s ps i h" and "a \<equiv> affinity (spec (ps ! nat i))"
  shows "0 \<le> place \<and> place < cpu_count s \<and>
    (\<forall>j < nat (cpu_count s). custom_count s (nat place) \<le> custom_count s j + 1) \<and>
    (0 \<le> a \<and> a < cpu_count s \<longrightarrow> place = a \<or>
       (\<exists>j < nat (cpu_count s). custom_count s j + 1 < custom_count s (nat a)))"
proof -
  have "place = a \<or> (\<exists>j < nat (cpu_count s). custom_count s j + 1 < custom_count s (nat a))"
    if "0 \<le> a" "a < cpu_count s"
    using that least_loaded(1,2) [OF assms(1)]
    by (auto simp: place_def custom_place_def a_def Let_def intro!: exI [of _ "nat (least_loaded_cpu s)"])
  then show ?thesis
    using custom_place_range [OF assms(1), of ps i h] custom_place_balanced [OF assms(1), of _ ps i h]
    by (auto simp: place_def)
qed

theorem custom_placement_witness: "custom_place small_custom small_procs 1 1 < 2"
  using custom_placement [of small_custom small_procs 1 1] by (simp add: small_custom_ok)

text \<open>A steal moves exactly one process, the last of the longest queue to the end of the shortest,
  and records the new CPU in the process; it happens only when the interval has passed and the difference
  reaches the threshold, and otherwise nothing changes.\<close>

theorem custom_steals_one:
  assumes "custom_ok s" "procs_ok ps" "size (custom_queued s) \<le> 128" "custom_tick s ps now = (s', ps')"
  defines "h \<equiv> nat (most_loaded_cpu s)" and "l \<equiv> nat (least_loaded_cpu s)"
  shows "if now = 0 \<or> now - last_steal_tick (custom s) < steal_interval (custom s) \<or>
        custom_count s h - custom_count s l < imbalance_threshold (custom s)
    then s' = s \<and> ps' = ps
    else h \<noteq> l \<and> custom_list s' h = butlast (custom_list s h) \<and>
      custom_list s' l = custom_list s l @ [last (custom_list s h)] \<and>
      (\<forall>k < 8. k \<noteq> h \<and> k \<noteq> l \<longrightarrow> custom_list s' k = custom_list s k) \<and> custom_queued s' = custom_queued s \<and>
      ps' = upd_proc (last (custom_list s h)) (\<lambda>p. p\<lparr>assigned_cpu := int l\<rparr>) ps"
proof (cases "now = 0 \<or> now - last_steal_tick (custom s) < steal_interval (custom s) \<or>
        custom_count s h - custom_count s l < imbalance_threshold (custom s)")
  case True
  then have "custom_tick s ps now = (s, ps)" unfolding h_def l_def by (rule custom_tick_idle)
  with True assms(4) show ?thesis by simp
next
  case False
  then have "now \<noteq> 0" "steal_interval (custom s) \<le> now - last_steal_tick (custom s)"
    "imbalance_threshold (custom s) \<le> custom_count s (nat (most_loaded_cpu s)) - custom_count s (nat (least_loaded_cpu s))"
    by (auto simp: h_def l_def)
  from custom_tick_steal [OF assms(1-4) this] False show ?thesis by (simp add: h_def l_def)
qed

theorem custom_steals_one_witness:
  "\<exists>s' ps'. custom_tick small_custom small_procs 5 = (s', ps') \<and> custom_list s' 0 = [1] \<and> custom_list s' 1 = [0]"
proof -
  obtain s' ps' where e: "custom_tick small_custom small_procs 5 = (s', ps')" by force
  have r: "[Suc 0..<2] = [Suc 0]" by (simp add: upt_rec)
  have c: "custom_count small_custom 0 = 2" "custom_count small_custom (Suc 0) = 0"
    by (simp_all add: small_custom_def custom_count_def queue_of_def zero_queue_def)
  have hl: "most_loaded_cpu small_custom = 0" "least_loaded_cpu small_custom = 1"
    by (simp_all add: most_loaded_cpu_def least_loaded_cpu_def load_scan_def small_custom_ok r c)
  have f: "last_steal_tick (custom small_custom) = 0" "steal_interval (custom small_custom) = 5"
    "imbalance_threshold (custom small_custom) = 2" by (simp_all add: small_custom_def)
  have r2: "{0..<2} = {0, Suc 0}" by auto
  have "size (custom_queued small_custom) \<le> 128" by (simp add: custom_queued_def small_custom_ok r2)
  from custom_steals_one [OF small_custom_ok(1) small_procs_ok(1) this e]
  show ?thesis by (simp add: e hl f c small_custom_ok)
qed

text \<open>The array queue that all policies share refines a bounded list: a push appends, and is dropped
  when the 128 slots are full; a removal at a live position returns that element and keeps the order of
  the others; outside the live positions it returns -1 and changes nothing; a pop is a removal at 0. Every
  operation keeps the representation invariant.\<close>

theorem ready_queue_refines_list:
  assumes "queue_ok q"
  shows "queue_ok (queue_push q x) \<and> queue_ok (snd (queue_remove_at q i)) \<and> queue_ok (snd (queue_pop q)) \<and>
    queue_list (queue_push q x) = (if length (queue_list q) < 128 then queue_list q @ [x] else queue_list q) \<and>
    (if 0 \<le> i \<and> i < int (length (queue_list q))
     then fst (queue_remove_at q i) = queue_list q ! nat i \<and>
       queue_list (snd (queue_remove_at q i)) = remove_nth (nat i) (queue_list q)
     else queue_remove_at q i = (-1, q)) \<and>
    (case queue_list q of [] \<Rightarrow> queue_pop q = (-1, q)
     | y # ys \<Rightarrow> fst (queue_pop q) = y \<and> queue_list (snd (queue_pop q)) = ys)"
proof (intro conjI)
  show "queue_ok (queue_push q x)" "queue_ok (snd (queue_remove_at q i))" "queue_ok (snd (queue_pop q))"
    using rq.push_ok rq.remove_ok rq.pop_eq assms by auto
  show "queue_list (queue_push q x) = (if length (queue_list q) < 128 then queue_list q @ [x] else queue_list q)"
    using rq.push_contents [OF assms, of x] rq.push_full [OF assms, of x] queue_list_length_le [OF assms] by auto
  show "if 0 \<le> i \<and> i < int (length (queue_list q))
     then fst (queue_remove_at q i) = queue_list q ! nat i \<and>
       queue_list (snd (queue_remove_at q i)) = remove_nth (nat i) (queue_list q)
     else queue_remove_at q i = (-1, q)"
    using rq.remove_in [OF assms, of i] rq.remove_out [OF assms, of i] by auto
  show "case queue_list q of [] \<Rightarrow> queue_pop q = (-1, q)
     | y # ys \<Rightarrow> fst (queue_pop q) = y \<and> queue_list (snd (queue_pop q)) = ys"
    using rq.pop_empty [OF assms] rq.pop_Cons [OF assms] by (auto split: list.splits)
qed

theorem ready_queue_refines_list_witness:
  "queue_list (queue_push (queue_of [3, 4]) 5) = [3, 4, 5] \<and> fst (queue_pop (queue_of [3, 4])) = 3"
  using ready_queue_refines_list [of "queue_of [3, 4]" 5 0] by simp

subsection \<open>Input\<close>

text \<open>C36. The parser accepts exactly the files of 1 to 128 lines, after a header if there is one, each of which has
  seven fields, a positive identifier, an arrival that is not negative and one to 32 bursts, in turn for the CPU and for
  I/O, each with a positive number; and what it returns are the processes these lines describe, in their order, with at
  least one ticket each. The workload is well formed as the simulator needs it when no burst number exceeds the largest
  \<open>int\<close>: a larger one passes the check for a positive number and is narrowed afterwards.\<close>

theorem parsed_workload_well_formed:
  "(parse_workload file = Some w \<longleftrightarrow>
     (\<exists>content. file = Some content \<and>
       (let ls = workload_lines content in
        1 \<le> length ls \<and> length ls \<le> 128 \<and>
        (\<forall>l \<in> set ls. length (line_fields l) = 7 \<and> 1 \<le> line_int l 0 \<and> 0 \<le> line_int l 1 \<and> length (line_fields l ! 2) < 512 \<and>
           1 \<le> length (line_tokens l) \<and> length (line_tokens l) \<le> 32 \<and>
           (\<forall>k < length (line_tokens l). 2 \<le> length (trim (line_tokens l ! k)) \<and> 1 \<le> burst_number (line_tokens l ! k) \<and>
              burst_letter (line_tokens l ! k) = (if even k then CHR ''C'' else CHR ''I''))) \<and>
        w = \<lparr>processes = map line_spec ls @ replicate (128 - length ls) zero_spec, process_count = int (length ls)\<rparr>))) \<and>
   (parse_workload (Some content) = Some w \<longrightarrow>
      (\<forall>l \<in> set (workload_lines content). \<forall>tok \<in> set (line_tokens l). burst_number tok \<le> INT_MAX) \<longrightarrow> wf_workload w)"
proof (intro conjI impI)
  show "parse_workload file = Some w \<longleftrightarrow>
     (\<exists>content. file = Some content \<and>
       (let ls = workload_lines content in
        1 \<le> length ls \<and> length ls \<le> 128 \<and>
        (\<forall>l \<in> set ls. length (line_fields l) = 7 \<and> 1 \<le> line_int l 0 \<and> 0 \<le> line_int l 1 \<and> length (line_fields l ! 2) < 512 \<and>
           1 \<le> length (line_tokens l) \<and> length (line_tokens l) \<le> 32 \<and>
           (\<forall>k < length (line_tokens l). 2 \<le> length (trim (line_tokens l ! k)) \<and> 1 \<le> burst_number (line_tokens l ! k) \<and>
              burst_letter (line_tokens l ! k) = (if even k then CHR ''C'' else CHR ''I''))) \<and>
        w = \<lparr>processes = map line_spec ls @ replicate (128 - length ls) zero_spec, process_count = int (length ls)\<rparr>))"
    unfolding burst_valid_def [symmetric] line_valid_def [symmetric]
    by (cases "file") (auto simp: parse_workload_eq Let_def)
next
  assume w: "parse_workload (Some content) = Some w"
    and b: "\<forall>l \<in> set (workload_lines content). \<forall>tok \<in> set (line_tokens l). burst_number tok \<le> INT_MAX"
  let ?ls = "workload_lines content"
  have v: "\<forall>l \<in> set ?ls. line_valid l" "1 \<le> length ?ls" "length ?ls \<le> 128"
    and eq: "w = \<lparr>processes = map line_spec ?ls @ replicate (128 - length ?ls) zero_spec, process_count = int (length ?ls)\<rparr>"
    using w by (simp_all add: parse_workload_eq Let_def split: if_splits)
  have "wf_spec (line_spec (?ls ! i))" if "i < length ?ls" for i using v(1) b nth_mem [OF that] by (intro line_spec_wf) blast+
  with v eq show "wf_workload w" by (simp add: wf_workload_def nth_append)
qed

lemma burst_length_narrowed:
  "map_option (\<lambda>p. duration (bursts p ! 0)) (parse_bursts ''C4294967296'' zero_spec) = Some 0"
  by code_simp

theorem parsed_workload_well_formed_witness:
  "\<exists>w. parse_workload (Some ''1,0,C2:I1:C1,0,2,10,0'') = Some w \<and> wf_workload w"
proof -
  let ?file = "''1,0,C2:I1:C1,0,2,10,0''"
  have "parse_workload (Some ?file) \<noteq> None" by code_simp
  then obtain w where w: "parse_workload (Some ?file) = Some w" by blast
  have "list_all (\<lambda>l. list_all (\<lambda>tok. burst_number tok \<le> INT_MAX) (line_tokens l)) (workload_lines ?file)" by code_simp
  then have "\<forall>l \<in> set (workload_lines ?file). \<forall>tok \<in> set (line_tokens l). burst_number tok \<le> INT_MAX"
    by (simp only: list_all_iff)
  with parsed_workload_well_formed [of "Some ?file" w ?file] w show ?thesis by blast
qed

text \<open>The names of the algorithms and their parser are inverse: a name parses to its algorithm, and
  nothing else parses to it.\<close>

theorem algorithm_name_roundtrip: "parse_algorithm_kind s = Some k \<longleftrightarrow> s = algorithm_kind_name k"
  by (cases k) (auto simp: parse_algorithm_kind_def algorithm_kind_name_def)

text \<open>C37. The program end to end, on whatever arguments, input file, allocator, directories and files it finds. Arguments it
  does not accept end it with 1 and the usage; an input that is missing or rejected with 1, the reason if it could not be
  opened, and a message. Otherwise there is a list of things to do: make the output directory, run the requested
  algorithms (all four, or the one named) on 1 to 8 CPUs, for each make its directory, write its metrics, timeline and summary
  and print them, and write the comparison. If memory is found for every timeline, every directory can be made and every
  file opened, the program does all of it in this order and returns 0; if not, it does everything before the first thing that
  is missing, writes a message and returns 1. What \<open>fprintf\<close> and \<open>fclose\<close> return the code does not look at.\<close>

theorem main_runs_requested:
  "(parse_args args = None \<longrightarrow> sim_main read_file mkdir_ok fopen_ok malloc argv0 args = (1, [Stderr (print_usage argv0)])) \<and>
   (\<forall>cf. parse_args args = Some cf \<longrightarrow>
      1 \<le> c_cpu_count cf \<and> c_cpu_count cf \<le> 8 \<and> run_all cf = (c_algorithm cf = ALGO_ALL) \<and>
      (parse_workload (file_contents (read_file (input_path cf))) = None \<longrightarrow>
        sim_main read_file mkdir_ok fopen_ok malloc argv0 args =
          (1, open_errors (input_path cf) (read_file (input_path cf)) @ [Stderr (''Failed to parse workload: '' @ input_path cf @ newline)])) \<and>
      (\<forall>w. parse_workload (file_contents (read_file (input_path cf))) = Some w \<longrightarrow>
        (if (\<forall>alg \<in> set (algorithms_of cf). malloc alg (timeline_bytes cf) \<noteq> None) \<and>
            (\<forall>e \<in> set (expected_events malloc w cf). event_ok mkdir_ok fopen_ok e)
         then sim_main read_file mkdir_ok fopen_ok malloc argv0 args = (0, expected_events malloc w cf)
         else \<exists>message. sim_main read_file mkdir_ok fopen_ok malloc argv0 args =
           (1, takeWhile (event_ok mkdir_ok fopen_ok) (expected_events malloc w cf) @ [Stderr message]))))"
proof (intro conjI allI impI)
  assume "parse_args args = None"
  then show "sim_main read_file mkdir_ok fopen_ok malloc argv0 args = (1, [Stderr (print_usage argv0)])" by (simp add: sim_main_def)
next
  fix cf assume a: "parse_args args = Some cf"
  show "1 \<le> c_cpu_count cf" "c_cpu_count cf \<le> 8" "run_all cf = (c_algorithm cf = ALGO_ALL)" using parse_args_ok [OF a] by auto
  assume "parse_workload (file_contents (read_file (input_path cf))) = None"
  with a show "sim_main read_file mkdir_ok fopen_ok malloc argv0 args =
      (1, open_errors (input_path cf) (read_file (input_path cf)) @ [Stderr (''Failed to parse workload: '' @ input_path cf @ newline)])"
    by (simp add: sim_main_def Let_def)
next
  fix cf w assume a: "parse_args args = Some cf" and w: "parse_workload (file_contents (read_file (input_path cf))) = Some w"
  show "if (\<forall>alg \<in> set (algorithms_of cf). malloc alg (timeline_bytes cf) \<noteq> None) \<and>
            (\<forall>e \<in> set (expected_events malloc w cf). event_ok mkdir_ok fopen_ok e)
         then sim_main read_file mkdir_ok fopen_ok malloc argv0 args = (0, expected_events malloc w cf)
         else \<exists>message. sim_main read_file mkdir_ok fopen_ok malloc argv0 args =
           (1, takeWhile (event_ok mkdir_ok fopen_ok) (expected_events malloc w cf) @ [Stderr message])"
    using sim_main_program [of args cf read_file w mkdir_ok fopen_ok malloc argv0, OF a w]
    unfolding program_def list_all_iff gets_memory_def .
qed

theorem main_runs_requested_witness:
  "sim_main (\<lambda>_. Inl ''No such file'') (\<lambda>_. True) (\<lambda>_. True) (\<lambda>_. small_malloc) ''sim''
      [''--input'', ''w.csv'', ''--output-dir'', ''out'', ''--cpus'', ''9''] = (1, [Stderr (print_usage ''sim'')]) \<and>
   (\<exists>cf w. sim_main (\<lambda>_. Inr ''1,0,C2:I1:C1,0,2,10,0'') (\<lambda>_. True) (\<lambda>_. True) (\<lambda>_. small_malloc) ''sim''
      [''--input'', ''w.csv'', ''--output-dir'', ''out'', ''--algo'', ''all''] = (0, expected_events (\<lambda>_. small_malloc) w cf))"
proof -
  let ?bad = "[''--input'', ''w.csv'', ''--output-dir'', ''out'', ''--cpus'', ''9'']"
  let ?good = "[''--input'', ''w.csv'', ''--output-dir'', ''out'', ''--algo'', ''all'']"
  let ?text = "\<lambda>_ :: string. Inr ''1,0,C2:I1:C1,0,2,10,0'' :: string + string"
  let ?T = "\<lambda>_ :: string. True" and ?M = "\<lambda>_ :: AlgorithmKind. small_malloc"
  have bad: "parse_args ?bad = None" by code_simp
  have good: "map_option (\<lambda>cf. (c_cpu_count cf, max_ticks cf)) (parse_args ?good) = Some (4, 512)" by code_simp
  then obtain cf where cf: "parse_args ?good = Some cf" "c_cpu_count cf = 4" "max_ticks cf = 512" by auto
  have "parse_workload (Some ''1,0,C2:I1:C1,0,2,10,0'') \<noteq> None" by code_simp
  then obtain w where w: "parse_workload (file_contents (?text (input_path cf))) = Some w" by (auto simp: file_contents_def)
  have "timeline_bytes cf = 8192" by (simp add: timeline_bytes_def cf)
  then have m: "small_malloc (timeline_bytes cf) \<noteq> None" by (simp add: small_malloc_def)
  from main_runs_requested [of ?good ?text ?T ?T ?M "''sim''"] cf(1) w m
  have "sim_main ?text ?T ?T ?M ''sim'' ?good = (0, expected_events ?M w cf)" by simp
  moreover have "sim_main (\<lambda>_. Inl ''No such file'') ?T ?T ?M ''sim'' ?bad = (1, [Stderr (print_usage ''sim'')])"
    using main_runs_requested [of ?bad "\<lambda>_. Inl ''No such file''" ?T ?T ?M "''sim''"] bad by blast
  ultimately show ?thesis by blast
qed

subsection \<open>Two effects of the order of the loops\<close>

text \<open>A process alone on one CPU is charged waiting time: the waiting loop runs before the dispatch loop
  of the same tick and counts a process that is about to be dispatched. Under EDF, whose slice is one
  tick, a process that never waits for anybody reports as much waiting as its whole turnaround.\<close>

definition solo_workload :: "Burst list \<Rightarrow> Workload" where
  "solo_workload bs = \<lparr>processes = small_spec 1 0 bs # replicate 127 zero_spec, process_count = 1\<rparr>"

lemma waiting_counts_running_ticks:
  "map_option (\<lambda>(r, ps). (total_waiting (ps ! 0), runtime_ticks (ps ! 0), completion_tick (ps ! 0)))
     (run_simulation small_malloc (solo_workload [\<lparr>btype = BURST_CPU, duration = 3\<rparr>]) (small_config\<lparr>c_cpu_count := 1, max_ticks := 5\<rparr>) ALGO_EDF)
   = Some (3, 3, 3)"
  by code_simp

text \<open>An I/O burst of one tick costs no time: it is counted down at the start of the next tick, before
  the dispatch of that tick.\<close>

lemma io_burst_one_tick_short:
  "map_option (\<lambda>(r, ps). completion_tick (ps ! 0))
     (run_simulation small_malloc (solo_workload [\<lparr>btype = BURST_CPU, duration = 1\<rparr>, \<lparr>btype = BURST_IO, duration = 1\<rparr>,
        \<lparr>btype = BURST_CPU, duration = 1\<rparr>]) (small_config\<lparr>c_cpu_count := 1, max_ticks := 5\<rparr>) ALGO_EDF)
   = Some 2"
  by code_simp

text \<open>A run that stops on the tick limit reports every process as completed, and averages over the
  completion tick -1 of the unfinished ones.\<close>

lemma limit_reports_unfinished:
  "map_option (\<lambda>(r, ps). (pstate (ps ! 0), completed (metrics r), avg_turnaround (metrics r)))
     (run_simulation small_malloc (solo_workload [\<lparr>btype = BURST_CPU, duration = 3\<rparr>]) (small_config\<lparr>c_cpu_count := 1, max_ticks := 2\<rparr>) ALGO_EDF)
   = Some (PROC_READY, 1, -1)"
  by code_simp

end
