(* ===== verification/Kern_Mem.thy ===== *)
theory Kern_Mem
  imports Prelude
begin

unbundle bit_operations_syntax

text \<open>
  Physical memory and its allocator, \<^verbatim>\<open>kernel/kalloc.c\<close>. Memory is a map from page addresses to the
  bytes of the page; the free list is the code's own, linked through the first word of each free page.
  \<open>end_addr\<close> is the linker symbol \<^verbatim>\<open>end\<close>. A panic is the result \<^const>\<open>None\<close>. The
  spinlock of the allocator is taken and released inside each operation and is not part of the state.
\<close>

definition PGSIZE :: u64 where "PGSIZE = 4096"
definition KERNBASE :: u64 where "KERNBASE = 0x80000000"
definition PHYSTOP :: u64 where "PHYSTOP = KERNBASE + 128 * 1024 * 1024"

definition PGROUNDUP :: "u64 \<Rightarrow> u64" where
  "PGROUNDUP sz = (sz + PGSIZE - 1) AND NOT (PGSIZE - 1)"

definition PGROUNDDOWN :: "u64 \<Rightarrow> u64" where
  "PGROUNDDOWN a = a AND NOT (PGSIZE - 1)"

type_synonym page = "nat \<Rightarrow> byte"

record pmem =
  end_addr :: u64
  freelist :: u64
  pages :: "u64 \<Rightarrow> page"

text \<open>The 64-bit word at index \<open>i\<close> of a page, little endian.\<close>

definition load64 :: "page \<Rightarrow> nat \<Rightarrow> u64" where
  "load64 pg i =
     ucast (pg (8 * i)) OR push_bit 8 (ucast (pg (8 * i + 1))) OR push_bit 16 (ucast (pg (8 * i + 2))) OR
     push_bit 24 (ucast (pg (8 * i + 3))) OR push_bit 32 (ucast (pg (8 * i + 4))) OR
     push_bit 40 (ucast (pg (8 * i + 5))) OR push_bit 48 (ucast (pg (8 * i + 6))) OR
     push_bit 56 (ucast (pg (8 * i + 7)))"

definition byte_of :: "u64 \<Rightarrow> nat \<Rightarrow> byte" where
  "byte_of v k = ucast (drop_bit (8 * k) v)"

definition store64 :: "page \<Rightarrow> nat \<Rightarrow> u64 \<Rightarrow> page" where
  "store64 pg i v = (\<lambda>a. if 8 * i \<le> a \<and> a < 8 * i + 8 then byte_of v (a - 8 * i) else pg a)"

subsection \<open>Operations\<close>

definition kfree :: "u64 \<Rightarrow> pmem \<Rightarrow> pmem option" where
  "kfree pa m =
     (if pa mod PGSIZE \<noteq> 0 \<or> pa < end_addr m \<or> pa \<ge> PHYSTOP then None
      else Some (m\<lparr>pages := (pages m)(pa := store64 (\<lambda>_. 1) 0 (freelist m)), freelist := pa\<rparr>))"

definition kalloc :: "pmem \<Rightarrow> u64 \<times> pmem" where
  "kalloc m =
     (let r = freelist m in
      if r \<noteq> 0 then (r, m\<lparr>freelist := load64 (pages m r) 0, pages := (pages m)(r := (\<lambda>_. 5))\<rparr>)
      else (0, m))"

partial_function (option) freerange_loop :: "u64 \<Rightarrow> u64 \<Rightarrow> pmem \<Rightarrow> pmem option" where
  "freerange_loop p pa_end m =
     (if p + PGSIZE \<le> pa_end then Option.bind (kfree p m) (freerange_loop (p + PGSIZE) pa_end) else Some m)"

definition freerange :: "u64 \<Rightarrow> u64 \<Rightarrow> pmem \<Rightarrow> pmem option" where
  "freerange pa_start pa_end m = freerange_loop (PGROUNDUP pa_start) pa_end m"

definition kinit :: "pmem \<Rightarrow> pmem option" where
  "kinit m = freerange (end_addr m) PHYSTOP m"

subsection \<open>Words in pages\<close>

lemma bit_byte_of: "bit (byte_of v k) n \<longleftrightarrow> n < 8 \<and> bit v (8 * k + n)"
  by (simp add: byte_of_def bit_ucast_iff bit_drop_bit_eq)

lemma load64_bytes:
  assumes "\<And>k. k < 8 \<Longrightarrow> pg (8 * i + k) = byte_of v k"
  shows "load64 pg i = v"
proof (rule bit_word_eqI)
  fix n assume "n < LENGTH(64)"
  then have n: "n < 64" by simp
  have p: "pg (8 * i) = byte_of v 0" "pg (8 * i + 1) = byte_of v 1" "pg (8 * i + 2) = byte_of v 2"
    "pg (8 * i + 3) = byte_of v 3" "pg (8 * i + 4) = byte_of v 4" "pg (8 * i + 5) = byte_of v 5"
    "pg (8 * i + 6) = byte_of v 6" "pg (8 * i + 7) = byte_of v 7"
    using assms [of 0] assms [of 1] assms [of 2] assms [of 3] assms [of 4] assms [of 5] assms [of 6] assms [of 7] by simp_all
  consider "n < 8" | "8 \<le> n" "n < 16" | "16 \<le> n" "n < 24" | "24 \<le> n" "n < 32" | "32 \<le> n" "n < 40"
    | "40 \<le> n" "n < 48" | "48 \<le> n" "n < 56" | "56 \<le> n" "n < 64" using n by linarith
  then show "bit (load64 pg i) n = bit v n"
    unfolding load64_def p by cases (simp_all add: bit_or_iff bit_push_bit_iff bit_ucast_iff bit_byte_of less_diff_conv2)
qed

lemma load64_store64: "load64 (store64 pg i v) i = v"
  by (rule load64_bytes) (simp add: store64_def)

lemma load64_store64_other: "i \<noteq> j \<Longrightarrow> load64 (store64 pg i v) j = load64 pg j"
proof -
  assume "i \<noteq> j"
  then have "store64 pg i v (8 * j + k) = pg (8 * j + k)" if "k < 8" for k
    using that by (auto simp: store64_def)
  from this [of 0] this [of 1] this [of 2] this [of 3] this [of 4] this [of 5] this [of 6] this [of 7]
  show ?thesis by (simp add: load64_def)
qed

lemma load64_zero [simp]: "load64 (\<lambda>_. 0) i = 0"
  by (simp add: load64_def)

subsection \<open>The free list\<close>

text \<open>The pages reached from \<open>p\<close> through the links in memory.\<close>

fun linked :: "(u64 \<Rightarrow> page) \<Rightarrow> u64 \<Rightarrow> u64 list \<Rightarrow> bool" where
  "linked pg p [] \<longleftrightarrow> p = 0"
| "linked pg p (x # xs) \<longleftrightarrow> p = x \<and> x \<noteq> 0 \<and> linked pg (load64 (pg x) 0) xs"

definition page_ok :: "pmem \<Rightarrow> u64 \<Rightarrow> bool" where
  "page_ok m pa \<longleftrightarrow> pa mod PGSIZE = 0 \<and> end_addr m \<le> pa \<and> pa < PHYSTOP"

text \<open>\<open>xs\<close> are the free pages: linked in this order, no page twice, all of them allocatable.\<close>

definition free_pages :: "pmem \<Rightarrow> u64 list \<Rightarrow> bool" where
  "free_pages m xs \<longleftrightarrow> linked (pages m) (freelist m) xs \<and> distinct xs \<and> (\<forall>x \<in> set xs. page_ok m x) \<and> 0 < end_addr m"

lemma linked_update: "x \<notin> set xs \<Longrightarrow> linked (pg(x := v)) p xs = linked pg p xs"
  by (induction xs arbitrary: p) auto

lemma linked_unique: "linked pg p xs \<Longrightarrow> linked pg p ys \<Longrightarrow> xs = ys"
proof (induction xs arbitrary: p ys)
  case Nil
  then show ?case by (cases ys) auto
next
  case (Cons x xs)
  then show ?case by (cases ys) auto
qed

lemma kalloc_empty: "free_pages m [] \<Longrightarrow> kalloc m = (0, m)"
  by (simp add: free_pages_def kalloc_def)

lemma kalloc_Cons:
  assumes "free_pages m (x # xs)"
  obtains m' where "kalloc m = (x, m')" "free_pages m' xs" "x \<noteq> 0" "page_ok m x" "end_addr m' = end_addr m"
    "pages m' = (pages m)(x := (\<lambda>_. 5))" "x \<notin> set xs"
proof -
  have f: "freelist m = x" "x \<noteq> 0" "linked (pages m) (load64 (pages m x) 0) xs" "distinct (x # xs)"
    "\<forall>y \<in> set (x # xs). page_ok m y" "0 < end_addr m" using assms by (auto simp: free_pages_def)
  let ?m = "m\<lparr>freelist := load64 (pages m x) 0, pages := (pages m)(x := (\<lambda>_. 5))\<rparr>"
  have "free_pages ?m xs" using f by (auto simp: free_pages_def linked_update page_ok_def)
  with that [of ?m] f show ?thesis by (simp add: kalloc_def)
qed

lemma kfree_free:
  assumes "free_pages m xs" "page_ok m pa" "pa \<notin> set xs"
  obtains m' where "kfree pa m = Some m'" "free_pages m' (pa # xs)" "end_addr m' = end_addr m"
    "\<And>q. q \<noteq> pa \<Longrightarrow> pages m' q = pages m q"
proof -
  let ?m = "m\<lparr>pages := (pages m)(pa := store64 (\<lambda>_. 1) 0 (freelist m)), freelist := pa\<rparr>"
  have "pa \<noteq> 0" using assms(1,2) by (auto simp: free_pages_def page_ok_def)
  then have "free_pages ?m (pa # xs)"
    using assms by (auto simp: free_pages_def linked_update page_ok_def load64_store64)
  moreover have "kfree pa m = Some ?m" using assms(2) by (auto simp: kfree_def page_ok_def)
  ultimately show ?thesis using that [of ?m] by simp
qed

lemma kfree_panics: "\<not> page_ok m pa \<longleftrightarrow> kfree pa m = None"
  by (auto simp: kfree_def page_ok_def)

subsection \<open>Initialisation\<close>

lemma freerange_loop_end: "\<not> p + PGSIZE \<le> pa_end \<Longrightarrow> freerange_loop p pa_end m = Some m"
  by (subst freerange_loop.simps) simp

lemma freerange_loop_step:
  "p + PGSIZE \<le> pa_end \<Longrightarrow> freerange_loop p pa_end m = Option.bind (kfree p m) (freerange_loop (p + PGSIZE) pa_end)"
  by (subst freerange_loop.simps) simp

lemma unat_PHYSTOP: "unat PHYSTOP = 2281701376" "unat PGSIZE = 4096"
  by (simp_all add: PHYSTOP_def KERNBASE_def PGSIZE_def)

lemma page_aligned: "(pa :: u64) mod PGSIZE = 0 \<longleftrightarrow> 4096 dvd unat pa"
proof -
  have "(pa mod PGSIZE = 0) = (unat (pa mod PGSIZE) = 0)" by (simp add: unat_eq_0)
  then show ?thesis by (simp add: unat_mod_distrib unat_PHYSTOP dvd_eq_mod_eq_0)
qed

lemma unat_add_page:
  assumes "unat (p :: u64) < 2281701376"
  shows "unat (p + PGSIZE) = unat p + 4096"
proof -
  have "unat p + unat PGSIZE < 2 ^ LENGTH(64)" using assms by (simp add: unat_PHYSTOP)
  then have "unat (p + PGSIZE) = unat p + unat PGSIZE" by (simp add: unat_add_lem [THEN iffD1])
  then show ?thesis by (simp add: unat_PHYSTOP)
qed

text \<open>Freeing a range of \<open>n\<close> pages pushes them all on the free list, the last one first.\<close>

lemma freerange_loop_frees:
  assumes "free_pages m xs" "unat p = 4096 * k" "4096 * (k + n) \<le> unat pa_end" "unat pa_end < 4096 * (k + n + 1)"
    "pa_end \<le> PHYSTOP" "end_addr m \<le> p" "\<forall>x \<in> set xs. x < p"
  shows "\<exists>m'. freerange_loop p pa_end m = Some m' \<and>
    free_pages m' (rev (map (\<lambda>i. word_of_nat (4096 * (k + i))) [0..<n]) @ xs)"
  using assms
proof (induction n arbitrary: m xs p k)
  case 0
  have "unat pa_end \<le> 2281701376" using 0(5) by (simp add: word_le_nat_alt unat_PHYSTOP)
  then have "unat p < 2281701376 \<or> unat p = 2281701376" using 0(2,3) by auto
  then have "unat (p + PGSIZE) = unat p + 4096"
    using unat_add_page [of p] by (auto simp: unat_word_ariths unat_PHYSTOP)
  then have "\<not> p + PGSIZE \<le> pa_end" using 0(2,4) by (simp add: word_le_nat_alt)
  then show ?case using 0(1) by (simp add: freerange_loop_end)
next
  case (Suc n)
  have le: "unat pa_end \<le> 2281701376" using Suc(6) by (simp add: word_le_nat_alt unat_PHYSTOP)
  then have lt: "unat p < 2281701376" using Suc(3,4) by simp
  note up = unat_add_page [OF lt]
  have go: "p + PGSIZE \<le> pa_end" using Suc(3,4) by (simp add: word_le_nat_alt up)
  have "4096 dvd unat p" using Suc(3) by simp
  then have ok: "page_ok m p" using Suc(7) lt by (simp add: page_ok_def page_aligned word_less_nat_alt unat_PHYSTOP)
  have pn: "p = word_of_nat (4096 * k)" unfolding Suc(3) [symmetric] by simp
  have "p \<notin> set xs" using Suc(8) by auto
  from kfree_free [OF Suc(2) ok this] obtain m1 where m1: "kfree p m = Some m1" "free_pages m1 (p # xs)"
    "end_addr m1 = end_addr m" by blast
  have pl: "p < p + PGSIZE" by (simp add: word_less_nat_alt up)
  have k1: "unat (p + PGSIZE) = 4096 * (k + 1)" "4096 * (k + 1 + n) \<le> unat pa_end" "unat pa_end < 4096 * (k + 1 + n + 1)"
    using Suc(3-5) up by simp_all
  have e1: "end_addr m1 \<le> p + PGSIZE" using m1(3) Suc(7) pl by simp
  have x1: "\<forall>x \<in> set (p # xs). x < p + PGSIZE" using Suc(8) pl by auto
  from Suc.IH [OF m1(2) k1 Suc(6) e1 x1]
  obtain m' where m': "freerange_loop (p + PGSIZE) pa_end m1 = Some m'"
    "free_pages m' (rev (map (\<lambda>i. word_of_nat (4096 * (k + 1 + i))) [0..<n]) @ p # xs)" by blast
  have "map (\<lambda>i. word_of_nat (4096 * (k + i)) :: u64) [0..<Suc n] =
      p # map (\<lambda>i. word_of_nat (4096 * (k + 1 + i))) [0..<n]"
    by (subst upt_conv_Cons) (auto simp: pn map_Suc_upt [symmetric] simp del: upt_Suc)
  then have "rev (map (\<lambda>i. word_of_nat (4096 * (k + i)) :: u64) [0..<Suc n]) @ xs =
      rev (map (\<lambda>i. word_of_nat (4096 * (k + 1 + i))) [0..<n]) @ p # xs" by (simp only: rev.simps append.simps append_assoc)
  with m' m1(1) go show ?case by (simp only: freerange_loop_step) auto
qed

end
