(* ===== verification/Kern_Vm.thy ===== *)
theory Kern_Vm
  imports Kern_Mem "HOL-Library.Monad_Syntax"
begin

unbundle bit_operations_syntax

text \<open>
  Page tables and copying between kernel and user memory, \<^verbatim>\<open>kernel/vm.c\<close>. A page-table page is a
  page of physical memory read as 512 words; a pointer to an entry is the page and the index. The loops
  over addresses keep the code's 64-bit comparison, so they are partial functions: \<^const>\<open>None\<close> is a
  panic or a loop that does not end. A C result of 0 or -1 is an \<^typ>\<open>int\<close>.
\<close>

definition PTE_V :: u64 where "PTE_V = 1"
definition PTE_R :: u64 where "PTE_R = 2"
definition PTE_W :: u64 where "PTE_W = 4"
definition PTE_X :: u64 where "PTE_X = 8"
definition PTE_U :: u64 where "PTE_U = 16"

definition PA2PTE :: "u64 \<Rightarrow> u64" where "PA2PTE pa = push_bit 10 (drop_bit 12 pa)"
definition PTE2PA :: "u64 \<Rightarrow> u64" where "PTE2PA pte = push_bit 12 (drop_bit 10 pte)"
definition PTE_FLAGS :: "u64 \<Rightarrow> u64" where "PTE_FLAGS pte = pte AND 0x3FF"
definition PX :: "nat \<Rightarrow> u64 \<Rightarrow> nat" where "PX level va = unat (drop_bit (12 + 9 * level) va AND 0x1FF)"

definition MAXVA :: u64 where "MAXVA = push_bit 38 1"
definition TRAMPOLINE :: u64 where "TRAMPOLINE = MAXVA - PGSIZE"
definition TRAPFRAME :: u64 where "TRAPFRAME = TRAMPOLINE - PGSIZE"
definition KSTACK :: "nat \<Rightarrow> u64" where "KSTACK p = TRAMPOLINE - (word_of_nat p + 1) * 2 * PGSIZE"
definition UART0 :: u64 where "UART0 = 0x10000000"
definition VIRTIO0 :: u64 where "VIRTIO0 = 0x10001000"
definition PLIC :: u64 where "PLIC = 0x0c000000"

type_synonym pteref = "u64 \<times> nat"

definition get_pte :: "pmem \<Rightarrow> pteref \<Rightarrow> u64" where
  "get_pte m r = load64 (pages m (fst r)) (snd r)"

definition set_pte :: "pteref \<Rightarrow> u64 \<Rightarrow> pmem \<Rightarrow> pmem" where
  "set_pte r v m = m\<lparr>pages := (pages m)(fst r := store64 (pages m (fst r)) (snd r) v)\<rparr>"

text \<open>\<^verbatim>\<open>memset(p, 0, PGSIZE)\<close>\<close>

definition zero_page :: "u64 \<Rightarrow> pmem \<Rightarrow> pmem" where
  "zero_page p m = m\<lparr>pages := (pages m)(p := (\<lambda>_. 0))\<rparr>"

definition write_page :: "u64 \<Rightarrow> nat \<Rightarrow> byte list \<Rightarrow> pmem \<Rightarrow> pmem" where
  "write_page p off bs m =
     m\<lparr>pages := (pages m)(p := (\<lambda>a. if off \<le> a \<and> a < off + length bs then bs ! (a - off) else pages m p a))\<rparr>"

definition read_page :: "u64 \<Rightarrow> nat \<Rightarrow> nat \<Rightarrow> pmem \<Rightarrow> byte list" where
  "read_page p off n m = map (\<lambda>k. pages m p (off + k)) [0..<n]"

subsection \<open>Walking a page table\<close>

text \<open>The loop over the levels; \<open>level\<close> is the number of levels still to descend.\<close>

fun walk_loop :: "u64 \<Rightarrow> u64 \<Rightarrow> bool \<Rightarrow> nat \<Rightarrow> pmem \<Rightarrow> pteref option \<times> pmem" where
  "walk_loop pagetable va alloc 0 m = (Some (pagetable, PX 0 va), m)"
| "walk_loop pagetable va alloc (Suc level) m =
     (let r = (pagetable, PX (Suc level) va); pte = get_pte m r in
      if pte AND PTE_V \<noteq> 0 then walk_loop (PTE2PA pte) va alloc level m
      else if \<not> alloc then (None, m)
      else (let (pg, m) = kalloc m in
            if pg = 0 then (None, m)
            else walk_loop pg va alloc level (set_pte r (PA2PTE pg OR PTE_V) (zero_page pg m))))"

definition walk :: "u64 \<Rightarrow> u64 \<Rightarrow> bool \<Rightarrow> pmem \<Rightarrow> (pteref option \<times> pmem) option" where
  "walk pagetable va alloc m = (if va \<ge> MAXVA then None else Some (walk_loop pagetable va alloc 2 m))"

definition walkaddr :: "u64 \<Rightarrow> u64 \<Rightarrow> pmem \<Rightarrow> u64" where
  "walkaddr pagetable va m =
     (if va \<ge> MAXVA then 0
      else (case fst (walk_loop pagetable va False 2 m) of
              None \<Rightarrow> 0
            | Some r \<Rightarrow>
                (let pte = get_pte m r in
                 if pte AND PTE_V = 0 then 0 else if pte AND PTE_U = 0 then 0 else PTE2PA pte)))"

definition ismapped :: "u64 \<Rightarrow> u64 \<Rightarrow> pmem \<Rightarrow> bool option" where
  "ismapped pagetable va m = do {
     (r, _) \<leftarrow> walk pagetable va False m;
     Some (case r of None \<Rightarrow> False | Some r \<Rightarrow> get_pte m r AND PTE_V \<noteq> 0)
   }"

subsection \<open>Mapping\<close>

partial_function (option) mappages_loop :: "u64 \<Rightarrow> u64 \<Rightarrow> u64 \<Rightarrow> u64 \<Rightarrow> u64 \<Rightarrow> pmem \<Rightarrow> (int \<times> pmem) option" where
  "mappages_loop pagetable a lst pa perm m =
     do {
       (r, m) \<leftarrow> walk pagetable a True m;
       (case r of
          None \<Rightarrow> Some (-1, m)
        | Some r \<Rightarrow>
            if get_pte m r AND PTE_V \<noteq> 0 then None
            else (let m = set_pte r (PA2PTE pa OR perm OR PTE_V) m in
                  if a = lst then Some (0, m)
                  else mappages_loop pagetable (a + PGSIZE) lst (pa + PGSIZE) perm m))
     }"

definition mappages :: "u64 \<Rightarrow> u64 \<Rightarrow> u64 \<Rightarrow> u64 \<Rightarrow> u64 \<Rightarrow> pmem \<Rightarrow> (int \<times> pmem) option" where
  "mappages pagetable va sz pa perm m =
     (if va mod PGSIZE \<noteq> 0 then None
      else if sz mod PGSIZE \<noteq> 0 then None
      else if sz = 0 then None
      else mappages_loop pagetable va (va + sz - PGSIZE) pa perm m)"

definition kvmmap :: "u64 \<Rightarrow> u64 \<Rightarrow> u64 \<Rightarrow> u64 \<Rightarrow> u64 \<Rightarrow> pmem \<Rightarrow> pmem option" where
  "kvmmap kpgtbl va pa sz perm m = do {
     (r, m) \<leftarrow> mappages kpgtbl va sz pa perm m;
     if r \<noteq> 0 then None else Some m
   }"

text \<open>\<open>proc_mapstacks\<close> of \<^verbatim>\<open>kernel/proc.c\<close>, the stack of process \<open>p\<close>.\<close>

definition map_stack :: "u64 \<Rightarrow> nat \<Rightarrow> pmem \<Rightarrow> pmem option" where
  "map_stack kpgtbl p m =
     (let (pa, m) = kalloc m in
      if pa = 0 then None else kvmmap kpgtbl (KSTACK p) pa PGSIZE (PTE_R OR PTE_W) m)"

fun proc_mapstacks_from :: "u64 \<Rightarrow> nat list \<Rightarrow> pmem \<Rightarrow> pmem option" where
  "proc_mapstacks_from kpgtbl [] m = Some m"
| "proc_mapstacks_from kpgtbl (p # ps) m = do { m \<leftarrow> map_stack kpgtbl p m; proc_mapstacks_from kpgtbl ps m }"

definition proc_mapstacks :: "u64 \<Rightarrow> pmem \<Rightarrow> pmem option" where
  "proc_mapstacks kpgtbl m = proc_mapstacks_from kpgtbl [0..<64] m"

text \<open>\<open>etext\<close> and \<open>trampoline\<close> are linker symbols.\<close>

definition kvmmake :: "u64 \<Rightarrow> u64 \<Rightarrow> pmem \<Rightarrow> (u64 \<times> pmem) option" where
  "kvmmake etext trampoline m = do {
     let (kpgtbl, m) = kalloc m;
     let m = zero_page kpgtbl m;
     m \<leftarrow> kvmmap kpgtbl UART0 UART0 PGSIZE (PTE_R OR PTE_W) m;
     m \<leftarrow> kvmmap kpgtbl VIRTIO0 VIRTIO0 PGSIZE (PTE_R OR PTE_W) m;
     m \<leftarrow> kvmmap kpgtbl PLIC PLIC 0x4000000 (PTE_R OR PTE_W) m;
     m \<leftarrow> kvmmap kpgtbl KERNBASE KERNBASE (etext - KERNBASE) (PTE_R OR PTE_X) m;
     m \<leftarrow> kvmmap kpgtbl etext etext (PHYSTOP - etext) (PTE_R OR PTE_W) m;
     m \<leftarrow> kvmmap kpgtbl TRAMPOLINE trampoline PGSIZE (PTE_R OR PTE_X) m;
     m \<leftarrow> proc_mapstacks kpgtbl m;
     Some (kpgtbl, m)
   }"

definition uvmcreate :: "pmem \<Rightarrow> u64 \<times> pmem" where
  "uvmcreate m = (let (pt, m) = kalloc m in if pt = 0 then (0, m) else (pt, zero_page pt m))"

subsection \<open>Unmapping\<close>

partial_function (option) uvmunmap_loop :: "u64 \<Rightarrow> u64 \<Rightarrow> u64 \<Rightarrow> bool \<Rightarrow> pmem \<Rightarrow> pmem option" where
  "uvmunmap_loop pagetable a stop do_free m =
     (if a < stop then
        do {
          (r, m) \<leftarrow> walk pagetable a False m;
          (case r of
             None \<Rightarrow> uvmunmap_loop pagetable (a + PGSIZE) stop do_free m
           | Some r \<Rightarrow>
               if get_pte m r AND PTE_V = 0 then uvmunmap_loop pagetable (a + PGSIZE) stop do_free m
               else do {
                 m \<leftarrow> (if do_free then kfree (PTE2PA (get_pte m r)) m else Some m);
                 uvmunmap_loop pagetable (a + PGSIZE) stop do_free (set_pte r 0 m)
               })
        }
      else Some m)"

definition uvmunmap :: "u64 \<Rightarrow> u64 \<Rightarrow> u64 \<Rightarrow> bool \<Rightarrow> pmem \<Rightarrow> pmem option" where
  "uvmunmap pagetable va npages do_free m =
     (if va mod PGSIZE \<noteq> 0 then None else uvmunmap_loop pagetable va (va + npages * PGSIZE) do_free m)"

definition uvmdealloc :: "u64 \<Rightarrow> u64 \<Rightarrow> u64 \<Rightarrow> pmem \<Rightarrow> (u64 \<times> pmem) option" where
  "uvmdealloc pagetable oldsz newsz m =
     (if newsz \<ge> oldsz then Some (oldsz, m)
      else if PGROUNDUP newsz < PGROUNDUP oldsz then do {
        m \<leftarrow> uvmunmap pagetable (PGROUNDUP newsz)
               (scast (ucast ((PGROUNDUP oldsz - PGROUNDUP newsz) div PGSIZE) :: u32)) True m;
        Some (newsz, m)
      }
      else Some (newsz, m))"

partial_function (option) uvmalloc_loop :: "u64 \<Rightarrow> u64 \<Rightarrow> u64 \<Rightarrow> u64 \<Rightarrow> u64 \<Rightarrow> pmem \<Rightarrow> (u64 \<times> pmem) option" where
  "uvmalloc_loop pagetable a oldsz newsz xperm m =
     (if a < newsz then
        (let (mem, m) = kalloc m in
         if mem = 0 then do { (_, m) \<leftarrow> uvmdealloc pagetable a oldsz m; Some (0, m) }
         else do {
           (r, m) \<leftarrow> mappages pagetable a PGSIZE mem (PTE_R OR PTE_U OR xperm) (zero_page mem m);
           if r \<noteq> 0 then do {
             m \<leftarrow> kfree mem m;
             (_, m) \<leftarrow> uvmdealloc pagetable a oldsz m;
             Some (0, m)
           }
           else uvmalloc_loop pagetable (a + PGSIZE) oldsz newsz xperm m
         })
      else Some (newsz, m))"

definition uvmalloc :: "u64 \<Rightarrow> u64 \<Rightarrow> u64 \<Rightarrow> u64 \<Rightarrow> pmem \<Rightarrow> (u64 \<times> pmem) option" where
  "uvmalloc pagetable oldsz newsz xperm m =
     (if newsz < oldsz then Some (oldsz, m)
      else (let oldsz = PGROUNDUP oldsz in uvmalloc_loop pagetable oldsz oldsz newsz xperm m))"

text \<open>The recursion of \<open>freewalk\<close> with the remaining depth as fuel; a page table has three levels.
  The inner function is the loop over the 512 entries.\<close>

fun freewalk_entries :: "(u64 \<Rightarrow> pmem \<Rightarrow> pmem option) \<Rightarrow> u64 \<Rightarrow> nat list \<Rightarrow> pmem \<Rightarrow> pmem option" where
  "freewalk_entries child_walk pagetable [] m = Some m"
| "freewalk_entries child_walk pagetable (i # is) m =
     (let pte = get_pte m (pagetable, i) in
      if pte AND PTE_V \<noteq> 0 \<and> pte AND (PTE_R OR PTE_W OR PTE_X) = 0 then do {
        m \<leftarrow> child_walk (PTE2PA pte) m;
        freewalk_entries child_walk pagetable is (set_pte (pagetable, i) 0 m)
      }
      else if pte AND PTE_V \<noteq> 0 then None
      else freewalk_entries child_walk pagetable is m)"

fun freewalk :: "nat \<Rightarrow> u64 \<Rightarrow> pmem \<Rightarrow> pmem option" where
  "freewalk 0 pagetable m = None"
| "freewalk (Suc depth) pagetable m = do {
     m \<leftarrow> freewalk_entries (freewalk depth) pagetable [0..<512] m;
     kfree pagetable m
   }"

definition uvmfree :: "u64 \<Rightarrow> u64 \<Rightarrow> pmem \<Rightarrow> pmem option" where
  "uvmfree pagetable sz m = do {
     m \<leftarrow> (if sz > 0 then uvmunmap pagetable 0 (PGROUNDUP sz div PGSIZE) True m else Some m);
     freewalk 3 pagetable m
   }"

subsection \<open>Copying an address space\<close>

text \<open>Copies page \<open>i\<close>; the flag is false on the jump to \<open>err\<close>.\<close>

definition uvmcopy_page :: "u64 \<Rightarrow> u64 \<Rightarrow> u64 \<Rightarrow> pmem \<Rightarrow> (bool \<times> pmem) option" where
  "uvmcopy_page old new i m = do {
     (r, m) \<leftarrow> walk old i False m;
     (case r of
        None \<Rightarrow> Some (True, m)
      | Some r \<Rightarrow>
          (let pte = get_pte m r in
           if pte AND PTE_V = 0 then Some (True, m)
           else
             (let (mem, m) = kalloc m in
              if mem = 0 then Some (False, m)
              else do {
                (e, m) \<leftarrow> mappages new i PGSIZE mem (PTE_FLAGS pte)
                            (m\<lparr>pages := (pages m)(mem := pages m (PTE2PA pte))\<rparr>);
                if e \<noteq> 0 then do { m \<leftarrow> kfree mem m; Some (False, m) } else Some (True, m)
              })))
   }"

partial_function (option) uvmcopy_loop :: "u64 \<Rightarrow> u64 \<Rightarrow> u64 \<Rightarrow> u64 \<Rightarrow> pmem \<Rightarrow> (int \<times> pmem) option" where
  "uvmcopy_loop old new i sz m =
     (if i < sz then
        do {
          (ok, m) \<leftarrow> uvmcopy_page old new i m;
          if ok then uvmcopy_loop old new (i + PGSIZE) sz m
          else do { m \<leftarrow> uvmunmap new 0 (i div PGSIZE) True m; Some (-1, m) }
        }
      else Some (0, m))"

definition uvmcopy :: "u64 \<Rightarrow> u64 \<Rightarrow> u64 \<Rightarrow> pmem \<Rightarrow> (int \<times> pmem) option" where
  "uvmcopy old new sz m = uvmcopy_loop old new 0 sz m"

definition uvmclear :: "u64 \<Rightarrow> u64 \<Rightarrow> pmem \<Rightarrow> pmem option" where
  "uvmclear pagetable va m = do {
     (r, m) \<leftarrow> walk pagetable va False m;
     (case r of None \<Rightarrow> None | Some r \<Rightarrow> Some (set_pte r (get_pte m r AND NOT PTE_U) m))
   }"

subsection \<open>Copying to and from user memory\<close>

text \<open>\<open>psz\<close> and \<open>ppt\<close> are the size and page table of the current process, which \<open>vmfault\<close>
  reads through \<open>myproc\<close>.\<close>

definition vmfault :: "u64 \<Rightarrow> u64 \<Rightarrow> u64 \<Rightarrow> u64 \<Rightarrow> pmem \<Rightarrow> (u64 \<times> pmem) option" where
  "vmfault psz ppt pagetable va m =
     (if va \<ge> psz then Some (0, m)
      else do {
        let va = PGROUNDDOWN va;
        mapped \<leftarrow> ismapped pagetable va m;
        if mapped then Some (0, m)
        else (let (mem, m) = kalloc m in
              if mem = 0 then Some (0, m)
              else do {
                (e, m) \<leftarrow> mappages ppt va PGSIZE mem (PTE_W OR PTE_U OR PTE_R) (zero_page mem m);
                if e \<noteq> 0 then do { m \<leftarrow> kfree mem m; Some (0, m) } else Some (mem, m)
              })
      })"

text \<open>The physical page behind a user page, faulting it in if it is missing; 0 when that fails.\<close>

definition user_page :: "u64 \<Rightarrow> u64 \<Rightarrow> u64 \<Rightarrow> u64 \<Rightarrow> pmem \<Rightarrow> (u64 \<times> pmem) option" where
  "user_page psz ppt pagetable va0 m =
     (let pa0 = walkaddr pagetable va0 m in if pa0 \<noteq> 0 then Some (pa0, m) else vmfault psz ppt pagetable va0 m)"

partial_function (option) copyout :: "u64 \<Rightarrow> u64 \<Rightarrow> u64 \<Rightarrow> u64 \<Rightarrow> byte list \<Rightarrow> pmem \<Rightarrow> (int \<times> pmem) option" where
  "copyout psz ppt pagetable dstva src m =
     (if src = [] then Some (0, m)
      else (let va0 = PGROUNDDOWN dstva in
        if va0 \<ge> MAXVA then Some (-1, m)
        else do {
          (pa0, m) \<leftarrow> user_page psz ppt pagetable va0 m;
          if pa0 = 0 then Some (-1, m)
          else do {
            (r, m) \<leftarrow> walk pagetable va0 False m;
            (case r of
               None \<Rightarrow> None
             | Some r \<Rightarrow>
                 if get_pte m r AND PTE_W = 0 then Some (-1, m)
                 else (let off = unat (dstva - va0); n = min (4096 - off) (length src) in
                       copyout psz ppt pagetable (va0 + PGSIZE) (drop n src) (write_page pa0 off (take n src) m)))
          }
        }))"

text \<open>\<open>len\<close> bytes are still to be read; the bytes read so far are kept in \<open>acc\<close>. The result is
  the bytes written to the destination, even on failure, and whether all were read.\<close>

partial_function (option) copyin_loop :: "u64 \<Rightarrow> u64 \<Rightarrow> u64 \<Rightarrow> u64 \<Rightarrow> nat \<Rightarrow> byte list \<Rightarrow> pmem \<Rightarrow> ((byte list \<times> bool) \<times> pmem) option" where
  "copyin_loop psz ppt pagetable srcva len acc m =
     (if len = 0 then Some ((acc, True), m)
      else (let va0 = PGROUNDDOWN srcva in
        do {
          (pa0, m) \<leftarrow> user_page psz ppt pagetable va0 m;
          if pa0 = 0 then Some ((acc, False), m)
          else (let off = unat (srcva - va0); n = min (4096 - off) len in
                copyin_loop psz ppt pagetable (va0 + PGSIZE) (len - n) (acc @ read_page pa0 off n m) m)
        }))"

text \<open>The call as its users that discard the destination on failure see it: \<^const>\<open>None\<close> is the result -1.\<close>

definition copyin :: "u64 \<Rightarrow> u64 \<Rightarrow> u64 \<Rightarrow> u64 \<Rightarrow> nat \<Rightarrow> pmem \<Rightarrow> (byte list option \<times> pmem) option" where
  "copyin psz ppt pagetable srcva len m =
     map_option (\<lambda>((bs, ok), m). (if ok then Some bs else None, m)) (copyin_loop psz ppt pagetable srcva len [] m)"

text \<open>The bytes a chunk contributes up to and including a NUL, and whether there was one.\<close>

definition string_chunk :: "byte list \<Rightarrow> byte list \<times> bool" where
  "string_chunk bs = (let pre = takeWhile (\<lambda>b. b \<noteq> 0) bs in if length pre < length bs then (pre @ [0], True) else (bs, False))"

text \<open>The result is the bytes written to the destination, even on failure, and whether it succeeded.\<close>

partial_function (option) copyinstr_loop :: "u64 \<Rightarrow> u64 \<Rightarrow> nat \<Rightarrow> byte list \<Rightarrow> pmem \<Rightarrow> (byte list \<times> bool) option" where
  "copyinstr_loop pagetable srcva mx acc m =
     (if mx = 0 then Some (acc, False)
      else (let va0 = PGROUNDDOWN srcva; pa0 = walkaddr pagetable va0 m in
        if pa0 = 0 then Some (acc, False)
        else (let off = unat (srcva - va0); n = min (4096 - off) mx;
                  (w, got_null) = string_chunk (read_page pa0 off n m) in
              if got_null then Some (acc @ w, True)
              else copyinstr_loop pagetable (va0 + PGSIZE) (mx - n) (acc @ w) m)))"

definition copyinstr :: "u64 \<Rightarrow> u64 \<Rightarrow> nat \<Rightarrow> pmem \<Rightarrow> (byte list \<times> bool) option" where
  "copyinstr pagetable srcva mx m = copyinstr_loop pagetable srcva mx [] m"

end
