(* ===== verification/Kern_State.thy ===== *)
theory Kern_State
  imports Kern_Vm
begin

text \<open>
  The state of the process subsystem: \<^verbatim>\<open>kernel/proc.h\<close> and the globals of
  \<^verbatim>\<open>kernel/proc.c\<close>. A pointer into the process table is an index; a sleep channel, which the code
  uses only as an address to compare, is the object it is the address of. The contents of the trapframe
  page are kept in the process, because the kernel reads and writes them only through
  \<^verbatim>\<open>p->trapframe\<close>; \<open>trapframe_pa\<close> is that pointer. The file and inode tables are the
  parameter type of the state.
\<close>

definition NPROC :: nat where "NPROC = 64"
definition NOFILE :: nat where "NOFILE = 16"
definition NSEM :: nat where "NSEM = 64"
definition DEFAULT_PRIORITY :: int where "DEFAULT_PRIORITY = 50"
definition MIN_PRIORITY :: int where "MIN_PRIORITY = 0"
definition MAX_PRIORITY :: int where "MAX_PRIORITY = 100"
definition SIGALRM :: int where "SIGALRM = 14"

datatype procstate = UNUSED | USED | SLEEPING | RUNNABLE | RUNNING | ZOMBIE

datatype channel = ChProc nat | ChSem nat | ChMsg nat | ChTicks | ChOther nat

datatype lockid = PidLock | WaitLock | TicksLock | ProcLock nat | SemLock nat | OtherLock nat

record trapframe =
  kernel_satp :: u64
  kernel_sp :: u64
  kernel_trap :: u64
  epc :: u64
  kernel_hartid :: u64
  ra :: u64
  sp :: u64
  gp :: u64
  tp :: u64
  t0 :: u64
  t1 :: u64
  t2 :: u64
  s0 :: u64
  s1 :: u64
  a0 :: u64
  a1 :: u64
  a2 :: u64
  a3 :: u64
  a4 :: u64
  a5 :: u64
  a6 :: u64
  a7 :: u64
  s2 :: u64
  s3 :: u64
  s4 :: u64
  s5 :: u64
  s6 :: u64
  s7 :: u64
  s8 :: u64
  s9 :: u64
  s10 :: u64
  s11 :: u64
  t3 :: u64
  t4 :: u64
  t5 :: u64
  t6 :: u64

text \<open>The two fields of \<^verbatim>\<open>struct context\<close> the C code sets; the others are zeroed with them and
  belong to \<^verbatim>\<open>swtch\<close>.\<close>

record kcontext =
  ctx_ra :: u64
  ctx_sp :: u64

record proc =
  rtime :: u32
  stime :: u32
  retime :: u32
  state :: procstate
  chan :: "channel option"
  killed :: int
  priority :: int
  xstate :: int
  pid :: int
  parent :: "nat option"
  kstack :: u64
  sz :: u64
  pagetable :: u64
  trapframe_pa :: u64
  tf :: trapframe
  ctxt :: kcontext
  ofile :: "nat option list"
  cwd :: "nat option"
  pname :: string
  signal_handler :: u64
  signal_registered :: int
  alarm_interval :: int
  alarm_elapsed :: int
  pending_signal :: int
  active_signal :: int
  signal_inflight :: int
  signal_tf :: trapframe
  msg_buf :: "byte list"
  msg_flag :: int
  is_thread :: int
  thread_stack :: u64

record ksem =
  used :: int
  sem_value :: int

record pinfo =
  pi_pid :: "int list"
  pi_state :: "procstate list"
  pi_runtime :: "u32 list"
  pi_waittime :: "u32 list"

text \<open>Addresses the linker provides.\<close>

record ksyms =
  trampoline :: u64
  uservec :: u64
  forkret_addr :: u64
  usertrap_addr :: u64

record 'f kstate =
  syms :: ksyms
  proc :: "proc list"
  nextpid :: int
  initproc :: "nat option"
  semtable :: "ksem list"
  ticks :: u32
  held :: "lockid set"
  pm :: pmem
  fs :: 'f

definition zero_trapframe :: trapframe where
  "zero_trapframe = \<lparr>kernel_satp = 0, kernel_sp = 0, kernel_trap = 0, epc = 0, kernel_hartid = 0, ra = 0, sp = 0,
     gp = 0, tp = 0, t0 = 0, t1 = 0, t2 = 0, s0 = 0, s1 = 0, a0 = 0, a1 = 0, a2 = 0, a3 = 0, a4 = 0, a5 = 0,
     a6 = 0, a7 = 0, s2 = 0, s3 = 0, s4 = 0, s5 = 0, s6 = 0, s7 = 0, s8 = 0, s9 = 0, s10 = 0, s11 = 0,
     t3 = 0, t4 = 0, t5 = 0, t6 = 0\<rparr>"

definition empty_msg :: "byte list" where
  "empty_msg = replicate 64 0"

subsection \<open>Access to the process table\<close>

definition upd_p :: "nat \<Rightarrow> (proc \<Rightarrow> proc) \<Rightarrow> 'f kstate \<Rightarrow> 'f kstate" where
  "upd_p i f s = s\<lparr>proc := (proc s)[i := f (proc s ! i)]\<rparr>"

definition upd_sem :: "nat \<Rightarrow> (ksem \<Rightarrow> ksem) \<Rightarrow> 'f kstate \<Rightarrow> 'f kstate" where
  "upd_sem i f s = s\<lparr>semtable := (semtable s)[i := f (semtable s ! i)]\<rparr>"

subsection \<open>Locks of the current hart\<close>

text \<open>The kernel's functions see the locks this hart holds; \<open>Spinlock\<close> shows that
  \<^verbatim>\<open>acquire\<close> and \<^verbatim>\<open>release\<close> act on that set in this way.\<close>

definition k_acquire :: "lockid \<Rightarrow> 'f kstate \<Rightarrow> 'f kstate option" where
  "k_acquire l s = (if l \<in> held s then None else Some (s\<lparr>held := insert l (held s)\<rparr>))"

definition k_release :: "lockid \<Rightarrow> 'f kstate \<Rightarrow> 'f kstate option" where
  "k_release l s = (if l \<notin> held s then None else Some (s\<lparr>held := held s - {l}\<rparr>))"

lemma upd_p_simps [simp]:
  "nextpid (upd_p i f s) = nextpid s" "initproc (upd_p i f s) = initproc s" "semtable (upd_p i f s) = semtable s"
  "ticks (upd_p i f s) = ticks s" "held (upd_p i f s) = held s" "pm (upd_p i f s) = pm s" "fs (upd_p i f s) = fs s"
  "length (proc (upd_p i f s)) = length (proc s)" "syms (upd_p i f s) = syms s"
  by (simp_all add: upd_p_def)

lemma upd_p_nth: "j < length (proc s) \<Longrightarrow> proc (upd_p i f s) ! j = (if j = i then f (proc s ! j) else proc s ! j)"
  by (auto simp: upd_p_def nth_list_update)

lemma upd_p_same [simp]: "i < length (proc s) \<Longrightarrow> proc (upd_p i f s) ! i = f (proc s ! i)"
  by (simp add: upd_p_def)

lemma upd_p_other [simp]: "j \<noteq> i \<Longrightarrow> proc (upd_p i f s) ! j = proc s ! j"
  by (simp add: upd_p_def)

lemma upd_p_id: "f (proc s ! i) = proc s ! i \<Longrightarrow> upd_p i f s = s"
  by (simp add: upd_p_def)

lemma upd_p_upd_p [simp]: "upd_p i g (upd_p i f s) = upd_p i (\<lambda>p. g (f p)) s"
  by (cases "i < length (proc s)") (simp_all add: upd_p_def list_update_beyond)

lemma upd_p_held [simp]: "upd_p i f (s\<lparr>held := H\<rparr>) = (upd_p i f s)\<lparr>held := H\<rparr>"
  by (simp add: upd_p_def)

lemma upd_sem_simps [simp]:
  "nextpid (upd_sem i f s) = nextpid s" "initproc (upd_sem i f s) = initproc s" "proc (upd_sem i f s) = proc s"
  "ticks (upd_sem i f s) = ticks s" "held (upd_sem i f s) = held s" "pm (upd_sem i f s) = pm s" "fs (upd_sem i f s) = fs s"
  "length (semtable (upd_sem i f s)) = length (semtable s)" "syms (upd_sem i f s) = syms s"
  by (simp_all add: upd_sem_def)

lemma upd_sem_nth: "j < length (semtable s) \<Longrightarrow> semtable (upd_sem i f s) ! j = (if j = i then f (semtable s ! j) else semtable s ! j)"
  by (auto simp: upd_sem_def nth_list_update)

lemma upd_sem_held [simp]: "upd_sem i f (s\<lparr>held := H\<rparr>) = (upd_sem i f s)\<lparr>held := H\<rparr>"
  by (simp add: upd_sem_def)

lemma k_acquire_ok [simp]: "l \<notin> held s \<Longrightarrow> k_acquire l s = Some (s\<lparr>held := insert l (held s)\<rparr>)"
  by (simp add: k_acquire_def)

lemma k_release_ok [simp]: "l \<in> held s \<Longrightarrow> k_release l s = Some (s\<lparr>held := held s - {l}\<rparr>)"
  by (simp add: k_release_def)

lemma held_cancel [simp]: "s\<lparr>held := held s\<rparr> = s"
  by simp

lemma upd_held_cancel [simp]:
  "(upd_p i f s)\<lparr>held := held s\<rparr> = upd_p i f s" "(upd_sem j g s)\<lparr>held := held s\<rparr> = upd_sem j g s"
  by (simp_all add: upd_p_def upd_sem_def)

lemma upd_p_pm [simp]: "upd_p i f (s\<lparr>pm := m\<rparr>) = (upd_p i f s)\<lparr>pm := m\<rparr>"
  by (simp add: upd_p_def)

subsection \<open>Loops over the table\<close>

text \<open>The search loop of the kernel: each process in turn is locked and tested; at the first that passes,
  the loop is left with its lock held, otherwise the lock is released.\<close>

fun scan_procs :: "(proc \<Rightarrow> bool) \<Rightarrow> nat list \<Rightarrow> 'f kstate \<Rightarrow> (nat option \<times> 'f kstate) option" where
  "scan_procs test [] s = Some (None, s)"
| "scan_procs test (i # is) s = do {
     s \<leftarrow> k_acquire (ProcLock i) s;
     if test (proc s ! i) then Some (Some i, s)
     else do { s \<leftarrow> k_release (ProcLock i) s; scan_procs test is s }
   }"

text \<open>The loop that locks, updates and unlocks every process.\<close>

fun each_proc :: "(proc \<Rightarrow> proc) \<Rightarrow> nat list \<Rightarrow> 'f kstate \<Rightarrow> 'f kstate option" where
  "each_proc f [] s = Some s"
| "each_proc f (i # is) s = do {
     s \<leftarrow> k_acquire (ProcLock i) s;
     let s = upd_p i f s;
     s \<leftarrow> k_release (ProcLock i) s;
     each_proc f is s
   }"

lemma scan_procs_spec:
  assumes "\<forall>i \<in> set is. ProcLock i \<notin> held s"
  shows "scan_procs test is s =
    (case find (\<lambda>i. test (proc s ! i)) is of
       None \<Rightarrow> Some (None, s)
     | Some i \<Rightarrow> Some (Some i, s\<lparr>held := insert (ProcLock i) (held s)\<rparr>))"
  using assms by (induction "is") (auto simp: Diff_insert_absorb)

lemma each_proc_spec:
  assumes "\<forall>i \<in> set is. ProcLock i \<notin> held s" "distinct is" "\<forall>i \<in> set is. i < length (proc s)"
  shows "\<exists>s'. each_proc f is s = Some s' \<and> s' = s\<lparr>proc := proc s'\<rparr> \<and> length (proc s') = length (proc s) \<and>
    (\<forall>j < length (proc s). proc s' ! j = (if j \<in> set is then f (proc s ! j) else proc s ! j))"
  using assms
proof (induction "is" arbitrary: s)
  case (Cons i "is")
  let ?s = "upd_p i f s"
  have e: "each_proc f (i # is) s = each_proc f is ?s" using Cons.prems(1) by simp
  have "\<exists>s'. each_proc f is ?s = Some s' \<and> s' = ?s\<lparr>proc := proc s'\<rparr> \<and> length (proc s') = length (proc ?s) \<and>
    (\<forall>j < length (proc ?s). proc s' ! j = (if j \<in> set is then f (proc ?s ! j) else proc ?s ! j))"
    by (rule Cons.IH) (use Cons.prems in auto)
  then obtain s' where s': "each_proc f is ?s = Some s'" "s' = ?s\<lparr>proc := proc s'\<rparr>" "length (proc s') = length (proc ?s)"
    "\<forall>j < length (proc ?s). proc s' ! j = (if j \<in> set is then f (proc ?s ! j) else proc ?s ! j)" by blast
  have "s' = s\<lparr>proc := proc s'\<rparr>" by (subst s'(2)) (simp add: upd_p_def)
  moreover have "proc s' ! j = (if j \<in> set (i # is) then f (proc s ! j) else proc s ! j)" if "j < length (proc s)" for j
    using s'(4) that Cons.prems(2) by (auto simp: upd_p_nth)
  ultimately show ?case unfolding e using s'(1,3) by auto
qed simp

text \<open>The first live process with a given property.\<close>

definition find_proc :: "(proc \<Rightarrow> bool) \<Rightarrow> 'f kstate \<Rightarrow> nat option" where
  "find_proc test s = find (\<lambda>i. test (proc s ! i)) [0..<NPROC]"

lemma find_proc_Some: "find_proc test s = Some i \<Longrightarrow> i < NPROC \<and> test (proc s ! i)"
  by (auto simp: find_proc_def find_Some_iff)

lemma find_proc_None: "find_proc test s = None \<longleftrightarrow> (\<forall>i < NPROC. \<not> test (proc s ! i))"
  by (auto simp: find_proc_def find_None_iff)

end
