(* ===== verification/Kern_Proc.thy ===== *)
theory Kern_Proc
  imports Kern_State
begin

unbundle bit_operations_syntax

text \<open>
  The process life cycle of \<^verbatim>\<open>kernel/proc.c\<close>: the table, sleeping and waking, creation, exit and
  the three ways to wait for a child. \<open>cur\<close> is the index of the current process
  (\<^verbatim>\<open>myproc()\<close>). \<^const>\<open>None\<close> is a panic. A function that may sleep is split where it sleeps:
  its first part ends with \<open>Blocked\<close> in the state after the switch to the scheduler, and the
  \<open>resume\<close> function continues from there, so that any number of other steps can happen in between.
\<close>

datatype 'a outcome = Return 'a | Blocked

text \<open>The entry points of the file system that process creation and exit call, which are parameters of
  this model: duplicating and closing a file, duplicating an inode, and dropping one inside a
  transaction. \<^const>\<open>None\<close> is a panic.\<close>

record 'f fsops =
  op_filedup :: "nat \<Rightarrow> 'f \<Rightarrow> 'f option"
  op_fileclose :: "nat \<Rightarrow> 'f \<Rightarrow> 'f option"
  op_idup :: "nat \<Rightarrow> 'f \<Rightarrow> 'f option"
  op_iput :: "nat \<Rightarrow> 'f \<Rightarrow> 'f option"

subsection \<open>Small helpers\<close>

definition priority_valid :: "int \<Rightarrow> bool" where
  "priority_valid p \<longleftrightarrow> p \<ge> MIN_PRIORITY \<and> p \<le> MAX_PRIORITY"

text \<open>The bytes of a 32-bit value in memory.\<close>

definition word_bytes :: "u32 \<Rightarrow> byte list" where
  "word_bytes w = map (\<lambda>k. ucast (drop_bit (8 * k) w)) [0..<4]"

definition int_bytes :: "int \<Rightarrow> byte list" where
  "int_bytes v = word_bytes (word_of_int v)"

definition procinit_proc :: "nat \<Rightarrow> proc \<Rightarrow> proc" where
  "procinit_proc i p = p\<lparr>rtime := 0, stime := 0, retime := 0, state := UNUSED, kstack := KSTACK i,
     priority := DEFAULT_PRIORITY, signal_handler := 0, signal_registered := 0, alarm_interval := 0,
     alarm_elapsed := 0, pending_signal := 0, active_signal := 0, signal_inflight := 0, msg_buf := empty_msg,
     msg_flag := 0, is_thread := 0, thread_stack := 0, signal_tf := zero_trapframe\<rparr>"

definition procinit :: "'f kstate \<Rightarrow> 'f kstate" where
  "procinit s = s\<lparr>proc := map (\<lambda>i. procinit_proc i (proc s ! i)) [0..<NPROC],
     semtable := map (\<lambda>i. (semtable s ! i)\<lparr>used := 0, sem_value := 0\<rparr>) [0..<NSEM]\<rparr>"

definition allocpid :: "'f kstate \<Rightarrow> (int \<times> 'f kstate) option" where
  "allocpid s = do {
     s \<leftarrow> k_acquire PidLock s;
     let pd = nextpid s;
     let s = s\<lparr>nextpid := to_int32 (nextpid s + 1)\<rparr>;
     s \<leftarrow> k_release PidLock s;
     Some (pd, s)
   }"

subsection \<open>Page tables of processes\<close>

definition proc_pagetable :: "u64 \<Rightarrow> u64 \<Rightarrow> pmem \<Rightarrow> (u64 \<times> pmem) option" where
  "proc_pagetable tramp tfpa m =
     (let (pt, m) = uvmcreate m in
      if pt = 0 then Some (0, m)
      else do {
        (e, m) \<leftarrow> mappages pt TRAMPOLINE PGSIZE tramp (PTE_R OR PTE_X) m;
        if e < 0 then do { m \<leftarrow> uvmfree pt 0 m; Some (0, m) }
        else do {
          (e, m) \<leftarrow> mappages pt TRAPFRAME PGSIZE tfpa (PTE_R OR PTE_W) m;
          if e < 0 then do {
            m \<leftarrow> uvmunmap pt TRAMPOLINE 1 False m;
            m \<leftarrow> uvmfree pt 0 m;
            Some (0, m)
          }
          else Some (pt, m)
        }
      })"

definition proc_freepagetable :: "u64 \<Rightarrow> u64 \<Rightarrow> pmem \<Rightarrow> pmem option" where
  "proc_freepagetable pt n m = do {
     m \<leftarrow> uvmunmap pt TRAMPOLINE 1 False m;
     m \<leftarrow> uvmunmap pt TRAPFRAME 1 False m;
     uvmfree pt n m
   }"

subsection \<open>Allocating and freeing processes\<close>

definition freeproc_fields :: "proc \<Rightarrow> proc" where
  "freeproc_fields p = p\<lparr>trapframe_pa := 0, pagetable := 0, sz := 0, pid := 0, parent := None, pname := [], chan := None,
     killed := 0, priority := DEFAULT_PRIORITY, xstate := 0, rtime := 0, stime := 0, retime := 0, signal_handler := 0,
     signal_registered := 0, alarm_interval := 0, alarm_elapsed := 0, pending_signal := 0, active_signal := 0,
     signal_inflight := 0, msg_buf := empty_msg, msg_flag := 0, is_thread := 0, thread_stack := 0,
     signal_tf := zero_trapframe, state := UNUSED\<rparr>"

text \<open>The memory a process gives back.\<close>

definition freeproc_mem :: "proc \<Rightarrow> pmem \<Rightarrow> pmem option" where
  "freeproc_mem p m = do {
     m \<leftarrow> (if trapframe_pa p \<noteq> 0 then kfree (trapframe_pa p) m else Some m);
     (if pagetable p \<noteq> 0 then proc_freepagetable (pagetable p) (sz p) m else Some m)
   }"

definition freeproc :: "nat \<Rightarrow> 'f kstate \<Rightarrow> 'f kstate option" where
  "freeproc i s = do {
     m \<leftarrow> freeproc_mem (proc s ! i) (pm s);
     Some (upd_p i freeproc_fields (s\<lparr>pm := m\<rparr>))
   }"

definition allocproc_fields :: "int \<Rightarrow> proc \<Rightarrow> proc" where
  "allocproc_fields pd p = p\<lparr>pid := pd, rtime := 0, stime := 0, retime := 0, state := USED, priority := DEFAULT_PRIORITY,
     signal_handler := 0, signal_registered := 0, alarm_interval := 0, alarm_elapsed := 0, pending_signal := 0,
     active_signal := 0, signal_inflight := 0, msg_buf := empty_msg, msg_flag := 0, is_thread := 0, thread_stack := 0,
     signal_tf := zero_trapframe\<rparr>"

definition allocproc_fail :: "nat \<Rightarrow> 'f kstate \<Rightarrow> (nat option \<times> 'f kstate) option" where
  "allocproc_fail i s = do {
     s \<leftarrow> freeproc i s;
     s \<leftarrow> k_release (ProcLock i) s;
     Some (None, s)
   }"

text \<open>On success the lock of the new process is held.\<close>

definition allocproc :: "'f kstate \<Rightarrow> (nat option \<times> 'f kstate) option" where
  "allocproc s = do {
     (r, s) \<leftarrow> scan_procs (\<lambda>p. state p = UNUSED) [0..<NPROC] s;
     (case r of
        None \<Rightarrow> Some (None, s)
      | Some i \<Rightarrow> do {
          (pd, s) \<leftarrow> allocpid s;
          let s = upd_p i (allocproc_fields pd) s;
          let (t, m) = kalloc (pm s);
          let s = upd_p i (\<lambda>p. p\<lparr>trapframe_pa := t\<rparr>) (s\<lparr>pm := m\<rparr>);
          if t = 0 then allocproc_fail i s
          else do {
            (pt, m) \<leftarrow> proc_pagetable (trampoline (syms s)) t (pm s);
            let s = upd_p i (\<lambda>p. p\<lparr>pagetable := pt\<rparr>) (s\<lparr>pm := m\<rparr>);
            if pt = 0 then allocproc_fail i s
            else Some (Some i, upd_p i (\<lambda>p. p\<lparr>ctxt := \<lparr>ctx_ra = forkret_addr (syms s), ctx_sp = kstack p + PGSIZE\<rparr>\<rparr>) s)
          }
        })
   }"

subsection \<open>Sleeping and waking\<close>

text \<open>The checks of \<open>sched\<close>, the switch, and the release of the process lock by the scheduler.\<close>

definition sched_checks :: "nat \<Rightarrow> 'f kstate \<Rightarrow> bool" where
  "sched_checks cur s \<longleftrightarrow> held s = {ProcLock cur} \<and> state (proc s ! cur) \<noteq> RUNNING"

definition sched :: "nat \<Rightarrow> 'f kstate \<Rightarrow> 'f kstate option" where
  "sched cur s = (if \<not> sched_checks cur s then None else k_release (ProcLock cur) s)"

text \<open>The scheduler's loop body for process \<open>i\<close>: the flag says whether it switches to it, with the
  lock of the process held.\<close>

definition scheduler_body :: "nat \<Rightarrow> 'f kstate \<Rightarrow> (bool \<times> 'f kstate) option" where
  "scheduler_body i s = do {
     s \<leftarrow> k_acquire (ProcLock i) s;
     if state (proc s ! i) = RUNNABLE then Some (True, upd_p i (\<lambda>p. p\<lparr>state := RUNNING\<rparr>) s)
     else do { s \<leftarrow> k_release (ProcLock i) s; Some (False, s) }
   }"

definition yield_cpu :: "nat \<Rightarrow> 'f kstate \<Rightarrow> 'f kstate option" where
  "yield_cpu cur s = do {
     s \<leftarrow> k_acquire (ProcLock cur) s;
     sched cur (upd_p cur (\<lambda>p. p\<lparr>state := RUNNABLE\<rparr>) s)
   }"

text \<open>What \<open>yield\<close> does when the scheduler comes back to it.\<close>

definition yield_resume :: "nat \<Rightarrow> 'f kstate \<Rightarrow> 'f kstate option" where
  "yield_resume cur s = k_release (ProcLock cur) s"

definition sleep :: "nat \<Rightarrow> channel \<Rightarrow> lockid \<Rightarrow> 'f kstate \<Rightarrow> 'f kstate option" where
  "sleep cur ch lk s = do {
     s \<leftarrow> k_acquire (ProcLock cur) s;
     s \<leftarrow> k_release lk s;
     sched cur (upd_p cur (\<lambda>p. p\<lparr>chan := Some ch, state := SLEEPING\<rparr>) s)
   }"

text \<open>The end of \<open>sleep\<close>, entered with the process lock held by the scheduler.\<close>

definition sleep_resume :: "nat \<Rightarrow> lockid \<Rightarrow> 'f kstate \<Rightarrow> 'f kstate option" where
  "sleep_resume cur lk s = do {
     s \<leftarrow> k_release (ProcLock cur) (upd_p cur (\<lambda>p. p\<lparr>chan := None\<rparr>) s);
     k_acquire lk s
   }"

definition wakeup_proc :: "channel \<Rightarrow> proc \<Rightarrow> proc" where
  "wakeup_proc ch p = (if state p = SLEEPING \<and> chan p = Some ch then p\<lparr>state := RUNNABLE\<rparr> else p)"

definition wakeup :: "nat option \<Rightarrow> channel \<Rightarrow> 'f kstate \<Rightarrow> 'f kstate option" where
  "wakeup cur ch s = each_proc (wakeup_proc ch) (filter (\<lambda>i. Some i \<noteq> cur) [0..<NPROC]) s"

definition setkilled :: "nat \<Rightarrow> 'f kstate \<Rightarrow> 'f kstate option" where
  "setkilled i s = do {
     s \<leftarrow> k_acquire (ProcLock i) s;
     k_release (ProcLock i) (upd_p i (\<lambda>p. p\<lparr>killed := 1\<rparr>) s)
   }"

definition is_killed :: "nat \<Rightarrow> 'f kstate \<Rightarrow> (int \<times> 'f kstate) option" where
  "is_killed i s = do {
     s \<leftarrow> k_acquire (ProcLock i) s;
     let k = killed (proc s ! i);
     s \<leftarrow> k_release (ProcLock i) s;
     Some (k, s)
   }"

subsection \<open>Creation\<close>

text \<open>\<^verbatim>\<open>for(i = 0; i < NOFILE; i++) if(p->ofile[i]) np->ofile[i] = filedup(p->ofile[i]);\<close>\<close>

fun dup_files :: "'f fsops \<Rightarrow> nat \<Rightarrow> nat \<Rightarrow> nat list \<Rightarrow> 'f kstate \<Rightarrow> 'f kstate option" where
  "dup_files ops p np [] s = Some s"
| "dup_files ops p np (i # is) s =
     (case ofile (proc s ! p) ! i of
        None \<Rightarrow> dup_files ops p np is s
      | Some f \<Rightarrow> do {
          g \<leftarrow> op_filedup ops f (fs s);
          dup_files ops p np is (upd_p np (\<lambda>q. q\<lparr>ofile := (ofile q)[i := Some f]\<rparr>) (s\<lparr>fs := g\<rparr>))
        })"

definition dup_cwd :: "'f fsops \<Rightarrow> nat \<Rightarrow> nat \<Rightarrow> 'f kstate \<Rightarrow> 'f kstate option" where
  "dup_cwd ops p np s =
     (case cwd (proc s ! p) of
        None \<Rightarrow> None
      | Some ip \<Rightarrow> do {
          g \<leftarrow> op_idup ops ip (fs s);
          Some (upd_p np (\<lambda>q. q\<lparr>cwd := Some ip\<rparr>) (s\<lparr>fs := g\<rparr>))
        })"

definition inherit_fields :: "proc \<Rightarrow> trapframe \<Rightarrow> int \<Rightarrow> int \<Rightarrow> u64 \<Rightarrow> proc \<Rightarrow> proc" where
  "inherit_fields p f prio thr stk np = np\<lparr>sz := sz p, tf := f, priority := prio, signal_handler := signal_handler p,
     signal_registered := signal_registered p, alarm_interval := alarm_interval p, alarm_elapsed := 0, pending_signal := 0,
     active_signal := 0, signal_inflight := 0, msg_buf := empty_msg, msg_flag := 0, is_thread := thr, thread_stack := stk,
     signal_tf := zero_trapframe\<rparr>"

text \<open>The common part of \<open>fork_with_priority\<close> and \<open>kclone\<close> after the allocation: the two functions
  differ in the trapframe, the priority and the thread fields of the child.\<close>

definition spawn :: "'f fsops \<Rightarrow> nat \<Rightarrow> nat \<Rightarrow> trapframe \<Rightarrow> int \<Rightarrow> int \<Rightarrow> u64 \<Rightarrow> 'f kstate \<Rightarrow> (int \<times> 'f kstate) option" where
  "spawn ops cur i f prio thr stk s = do {
     (e, m) \<leftarrow> uvmcopy (pagetable (proc s ! cur)) (pagetable (proc s ! i)) (sz (proc s ! cur)) (pm s);
     let s = s\<lparr>pm := m\<rparr>;
     if e < 0 then do {
       s \<leftarrow> freeproc i s;
       s \<leftarrow> k_release (ProcLock i) s;
       Some (-1, s)
     }
     else do {
       let s = upd_p i (inherit_fields (proc s ! cur) f prio thr stk) s;
       s \<leftarrow> dup_files ops cur i [0..<NOFILE] s;
       s \<leftarrow> dup_cwd ops cur i s;
       let s = upd_p i (\<lambda>q. q\<lparr>pname := take 15 (pname (proc s ! cur))\<rparr>) s;
       let pd = pid (proc s ! i);
       s \<leftarrow> k_release (ProcLock i) s;
       s \<leftarrow> k_acquire WaitLock s;
       let s = upd_p i (\<lambda>q. q\<lparr>parent := Some cur\<rparr>) s;
       s \<leftarrow> k_release WaitLock s;
       s \<leftarrow> k_acquire (ProcLock i) s;
       let s = upd_p i (\<lambda>q. q\<lparr>state := RUNNABLE\<rparr>) s;
       s \<leftarrow> k_release (ProcLock i) s;
       Some (pd, s)
     }
   }"

definition fork_with_priority :: "'f fsops \<Rightarrow> nat \<Rightarrow> int \<Rightarrow> 'f kstate \<Rightarrow> (int \<times> 'f kstate) option" where
  "fork_with_priority ops cur prio s = do {
     (r, s) \<leftarrow> allocproc s;
     (case r of
        None \<Rightarrow> Some (-1, s)
      | Some i \<Rightarrow> spawn ops cur i ((tf (proc s ! cur))\<lparr>a0 := 0\<rparr>) prio 0 0 s)
   }"

definition kfork :: "'f fsops \<Rightarrow> nat \<Rightarrow> 'f kstate \<Rightarrow> (int \<times> 'f kstate) option" where
  "kfork ops cur s = fork_with_priority ops cur (priority (proc s ! cur)) s"

definition kforkprio :: "'f fsops \<Rightarrow> nat \<Rightarrow> int \<Rightarrow> 'f kstate \<Rightarrow> (int \<times> 'f kstate) option" where
  "kforkprio ops cur prio s = (if \<not> priority_valid prio then Some (-1, s) else fork_with_priority ops cur prio s)"

definition kclone :: "'f fsops \<Rightarrow> nat \<Rightarrow> u64 \<Rightarrow> u64 \<Rightarrow> u64 \<Rightarrow> 'f kstate \<Rightarrow> (int \<times> 'f kstate) option" where
  "kclone ops cur fn stack arg s =
     (if fn \<ge> sz (proc s ! cur) \<or> stack = 0 \<or> stack \<ge> sz (proc s ! cur) then Some (-1, s)
      else do {
        (r, s) \<leftarrow> allocproc s;
        (case r of
           None \<Rightarrow> Some (-1, s)
         | Some i \<Rightarrow>
             spawn ops cur i ((tf (proc s ! cur))\<lparr>epc := fn, sp := stack, a0 := arg\<rparr>) (priority (proc s ! cur)) 1 stack s)
      })"

definition userinit :: "nat \<Rightarrow> 'f kstate \<Rightarrow> 'f kstate option" where
  "userinit rootdir s = do {
     (r, s) \<leftarrow> allocproc s;
     (case r of
        None \<Rightarrow> None
      | Some i \<Rightarrow>
          k_release (ProcLock i)
            (upd_p i (\<lambda>p. p\<lparr>cwd := Some rootdir, state := RUNNABLE\<rparr>) (s\<lparr>initproc := Some i\<rparr>)))
   }"

definition growproc :: "nat \<Rightarrow> int \<Rightarrow> 'f kstate \<Rightarrow> (int \<times> 'f kstate) option" where
  "growproc cur n s =
     (let p = proc s ! cur; n64 = word_of_int n :: u64 in
      if n > 0 then
        (if sz p + n64 > TRAPFRAME then Some (-1, s)
         else do {
           (sz', m) \<leftarrow> uvmalloc (pagetable p) (sz p) (sz p + n64) PTE_W (pm s);
           let s = s\<lparr>pm := m\<rparr>;
           if sz' = 0 then Some (-1, s) else Some (0, upd_p cur (\<lambda>p. p\<lparr>sz := sz'\<rparr>) s)
         })
      else if n < 0 then do {
        (sz', m) \<leftarrow> uvmdealloc (pagetable p) (sz p) (sz p + n64) (pm s);
        Some (0, upd_p cur (\<lambda>p. p\<lparr>sz := sz'\<rparr>) (s\<lparr>pm := m\<rparr>))
      }
      else Some (0, s))"

subsection \<open>Exit\<close>

fun reparent_loop :: "nat \<Rightarrow> nat list \<Rightarrow> 'f kstate \<Rightarrow> 'f kstate option" where
  "reparent_loop cur [] s = Some s"
| "reparent_loop cur (i # is) s =
     (if parent (proc s ! i) = Some cur then
        (case initproc s of
           None \<Rightarrow> None
         | Some ini \<Rightarrow> do {
             s \<leftarrow> wakeup (Some cur) (ChProc ini) (upd_p i (\<lambda>p. p\<lparr>parent := Some ini\<rparr>) s);
             reparent_loop cur is s
           })
      else reparent_loop cur is s)"

definition reparent :: "nat \<Rightarrow> 'f kstate \<Rightarrow> 'f kstate option" where
  "reparent cur s = reparent_loop cur [0..<NPROC] s"

fun close_files :: "'f fsops \<Rightarrow> nat \<Rightarrow> nat list \<Rightarrow> 'f kstate \<Rightarrow> 'f kstate option" where
  "close_files ops cur [] s = Some s"
| "close_files ops cur (fd # fds) s =
     (case ofile (proc s ! cur) ! fd of
        None \<Rightarrow> close_files ops cur fds s
      | Some f \<Rightarrow> do {
          g \<leftarrow> op_fileclose ops f (fs s);
          close_files ops cur fds (upd_p cur (\<lambda>p. p\<lparr>ofile := (ofile p)[fd := None]\<rparr>) (s\<lparr>fs := g\<rparr>))
        })"

definition drop_cwd :: "'f fsops \<Rightarrow> nat \<Rightarrow> 'f kstate \<Rightarrow> 'f kstate option" where
  "drop_cwd ops cur s =
     (case cwd (proc s ! cur) of
        None \<Rightarrow> None
      | Some ip \<Rightarrow> do {
          g \<leftarrow> op_iput ops ip (fs s);
          Some (upd_p cur (\<lambda>p. p\<lparr>cwd := None\<rparr>) (s\<lparr>fs := g\<rparr>))
        })"

definition wakeup_parent :: "nat \<Rightarrow> 'f kstate \<Rightarrow> 'f kstate option" where
  "wakeup_parent cur s = (case parent (proc s ! cur) of None \<Rightarrow> Some s | Some pp \<Rightarrow> wakeup (Some cur) (ChProc pp) s)"

text \<open>\<open>kexit\<close> ends in the scheduler and does not return; the result is the state after the switch.\<close>

definition kexit :: "'f fsops \<Rightarrow> nat \<Rightarrow> int \<Rightarrow> 'f kstate \<Rightarrow> 'f kstate option" where
  "kexit ops cur status s =
     (if initproc s = Some cur then None
      else do {
        s \<leftarrow> close_files ops cur [0..<NOFILE] s;
        s \<leftarrow> drop_cwd ops cur s;
        s \<leftarrow> k_acquire WaitLock s;
        s \<leftarrow> reparent cur s;
        s \<leftarrow> wakeup_parent cur s;
        s \<leftarrow> k_acquire (ProcLock cur) s;
        let s = upd_p cur (\<lambda>p. p\<lparr>xstate := status, state := ZOMBIE\<rparr>) s;
        s \<leftarrow> k_release WaitLock s;
        sched cur s
      })"

subsection \<open>Waiting for children\<close>

text \<open>The scan that \<open>kwait\<close> and \<open>waitx\<close> share; they differ in what they copy out of the child before
  it is freed (\<open>report\<close>, a failure being negative). The first result is the value returned, with the
  locks released, if a zombie was found; the second is \<open>havekids\<close>.\<close>

fun wait_scan :: "(proc \<Rightarrow> pmem \<Rightarrow> (int \<times> pmem) option) \<Rightarrow> nat \<Rightarrow> nat list \<Rightarrow> bool \<Rightarrow> 'f kstate \<Rightarrow>
    (int option \<times> bool \<times> 'f kstate) option" where
  "wait_scan report cur [] havekids s = Some (None, havekids, s)"
| "wait_scan report cur (i # is) havekids s =
     (if parent (proc s ! i) = Some cur \<and> is_thread (proc s ! i) = 0 then do {
        s \<leftarrow> k_acquire (ProcLock i) s;
        if state (proc s ! i) = ZOMBIE then do {
          let pd = pid (proc s ! i);
          (e, m) \<leftarrow> report (proc s ! i) (pm s);
          let s = s\<lparr>pm := m\<rparr>;
          if e < 0 then do {
            s \<leftarrow> k_release (ProcLock i) s;
            s \<leftarrow> k_release WaitLock s;
            Some (Some (-1), True, s)
          }
          else do {
            s \<leftarrow> freeproc i s;
            s \<leftarrow> k_release (ProcLock i) s;
            s \<leftarrow> k_release WaitLock s;
            Some (Some pd, True, s)
          }
        }
        else do { s \<leftarrow> k_release (ProcLock i) s; wait_scan report cur is True s }
      }
      else wait_scan report cur is havekids s)"

text \<open>The rest of one turn of the loop: give up, or sleep.\<close>

definition wait_or_sleep :: "nat \<Rightarrow> bool \<Rightarrow> 'f kstate \<Rightarrow> (int outcome \<times> 'f kstate) option" where
  "wait_or_sleep cur havekids s =
     (if \<not> havekids then do { s \<leftarrow> k_release WaitLock s; Some (Return (-1), s) }
      else do {
        (k, s) \<leftarrow> is_killed cur s;
        if k \<noteq> 0 then do { s \<leftarrow> k_release WaitLock s; Some (Return (-1), s) }
        else do { s \<leftarrow> sleep cur (ChProc cur) WaitLock s; Some (Blocked, s) }
      })"

definition wait_turn :: "(proc \<Rightarrow> pmem \<Rightarrow> (int \<times> pmem) option) \<Rightarrow> nat \<Rightarrow> 'f kstate \<Rightarrow> (int outcome \<times> 'f kstate) option" where
  "wait_turn report cur s = do {
     (r, havekids, s) \<leftarrow> wait_scan report cur [0..<NPROC] False s;
     (case r of Some v \<Rightarrow> Some (Return v, s) | None \<Rightarrow> wait_or_sleep cur havekids s)
   }"

definition wait_report :: "proc \<Rightarrow> u64 \<Rightarrow> proc \<Rightarrow> pmem \<Rightarrow> (int \<times> pmem) option" where
  "wait_report p addr pp m =
     (if addr \<noteq> 0 then copyout (sz p) (pagetable p) (pagetable p) addr (int_bytes (xstate pp)) m else Some (0, m))"

definition waitx_report :: "proc \<Rightarrow> u64 \<Rightarrow> u64 \<Rightarrow> proc \<Rightarrow> pmem \<Rightarrow> (int \<times> pmem) option" where
  "waitx_report p addr_rtime addr_wtime pp m = do {
     (e, m) \<leftarrow> copyout (sz p) (pagetable p) (pagetable p) addr_rtime (word_bytes (rtime pp)) m;
     if e < 0 then Some (e, m)
     else copyout (sz p) (pagetable p) (pagetable p) addr_wtime (word_bytes (retime pp)) m
   }"

definition kwait :: "nat \<Rightarrow> u64 \<Rightarrow> 'f kstate \<Rightarrow> (int outcome \<times> 'f kstate) option" where
  "kwait cur addr s = do { s \<leftarrow> k_acquire WaitLock s; wait_turn (wait_report (proc s ! cur) addr) cur s }"

definition kwait_resume :: "nat \<Rightarrow> u64 \<Rightarrow> 'f kstate \<Rightarrow> (int outcome \<times> 'f kstate) option" where
  "kwait_resume cur addr s = do { s \<leftarrow> sleep_resume cur WaitLock s; wait_turn (wait_report (proc s ! cur) addr) cur s }"

definition waitx :: "nat \<Rightarrow> u64 \<Rightarrow> u64 \<Rightarrow> 'f kstate \<Rightarrow> (int outcome \<times> 'f kstate) option" where
  "waitx cur ar aw s = do { s \<leftarrow> k_acquire WaitLock s; wait_turn (waitx_report (proc s ! cur) ar aw) cur s }"

definition waitx_resume :: "nat \<Rightarrow> u64 \<Rightarrow> u64 \<Rightarrow> 'f kstate \<Rightarrow> (int outcome \<times> 'f kstate) option" where
  "waitx_resume cur ar aw s = do { s \<leftarrow> sleep_resume cur WaitLock s; wait_turn (waitx_report (proc s ! cur) ar aw) cur s }"

fun join_scan :: "nat \<Rightarrow> int \<Rightarrow> nat list \<Rightarrow> bool \<Rightarrow> 'f kstate \<Rightarrow> (int option \<times> bool \<times> 'f kstate) option" where
  "join_scan cur tid [] found s = Some (None, found, s)"
| "join_scan cur tid (i # is) found s =
     (if parent (proc s ! i) = Some cur \<and> pid (proc s ! i) = tid \<and> is_thread (proc s ! i) \<noteq> 0 then do {
        s \<leftarrow> k_acquire (ProcLock i) s;
        if state (proc s ! i) = ZOMBIE then do {
          s \<leftarrow> freeproc i s;
          s \<leftarrow> k_release (ProcLock i) s;
          s \<leftarrow> k_release WaitLock s;
          Some (Some tid, True, s)
        }
        else do { s \<leftarrow> k_release (ProcLock i) s; join_scan cur tid is True s }
      }
      else join_scan cur tid is found s)"

definition join_turn :: "nat \<Rightarrow> int \<Rightarrow> 'f kstate \<Rightarrow> (int outcome \<times> 'f kstate) option" where
  "join_turn cur tid s = do {
     (r, found, s) \<leftarrow> join_scan cur tid [0..<NPROC] False s;
     (case r of Some v \<Rightarrow> Some (Return v, s) | None \<Rightarrow> wait_or_sleep cur found s)
   }"

definition kjoin :: "nat \<Rightarrow> int \<Rightarrow> 'f kstate \<Rightarrow> (int outcome \<times> 'f kstate) option" where
  "kjoin cur tid s = do { s \<leftarrow> k_acquire WaitLock s; join_turn cur tid s }"

definition kjoin_resume :: "nat \<Rightarrow> int \<Rightarrow> 'f kstate \<Rightarrow> (int outcome \<times> 'f kstate) option" where
  "kjoin_resume cur tid s = do { s \<leftarrow> sleep_resume cur WaitLock s; join_turn cur tid s }"

end
