(* ===== verification/Kern_Ipc.thy ===== *)
theory Kern_Ipc
  imports Kern_Proc
begin

text \<open>
  The custom system calls of \<^verbatim>\<open>kernel/proc.c\<close> beyond the life cycle: kill and priorities, counting
  semaphores, alarms and signals, the one-message mailbox of each process, and the accounting of time.
\<close>

subsection \<open>Kill and priorities\<close>

definition kkill :: "int \<Rightarrow> 'f kstate \<Rightarrow> (int \<times> 'f kstate) option" where
  "kkill pd s = do {
     (r, s) \<leftarrow> scan_procs (\<lambda>p. pid p = pd) [0..<NPROC] s;
     (case r of
        None \<Rightarrow> Some (-1, s)
      | Some i \<Rightarrow> do {
          let s = upd_p i (\<lambda>p. p\<lparr>killed := 1\<rparr>) s;
          let s = (if state (proc s ! i) = SLEEPING then upd_p i (\<lambda>p. p\<lparr>state := RUNNABLE\<rparr>) s else s);
          s \<leftarrow> k_release (ProcLock i) s;
          Some (0, s)
        })
   }"

definition setpriority :: "int \<Rightarrow> int \<Rightarrow> 'f kstate \<Rightarrow> (int \<times> 'f kstate) option" where
  "setpriority pd prio s =
     (if \<not> priority_valid prio then Some (-1, s)
      else do {
        (r, s) \<leftarrow> scan_procs (\<lambda>p. pid p = pd \<and> state p \<noteq> UNUSED) [0..<NPROC] s;
        (case r of
           None \<Rightarrow> Some (-1, s)
         | Some i \<Rightarrow> do {
             s \<leftarrow> k_release (ProcLock i) (upd_p i (\<lambda>p. p\<lparr>priority := prio\<rparr>) s);
             Some (0, s)
           })
      })"

definition getpriority :: "int \<Rightarrow> 'f kstate \<Rightarrow> (int \<times> 'f kstate) option" where
  "getpriority pd s = do {
     (r, s) \<leftarrow> scan_procs (\<lambda>p. pid p = pd \<and> state p \<noteq> UNUSED) [0..<NPROC] s;
     (case r of
        None \<Rightarrow> Some (-1, s)
      | Some i \<Rightarrow> do {
          let prio = priority (proc s ! i);
          s \<leftarrow> k_release (ProcLock i) s;
          Some (prio, s)
        })
   }"

subsection \<open>Semaphores\<close>

definition semid_ok :: "int \<Rightarrow> bool" where
  "semid_ok semid \<longleftrightarrow> \<not> (semid < 0 \<or> semid \<ge> int NSEM)"

definition ksem_init :: "nat \<Rightarrow> int \<Rightarrow> int \<Rightarrow> 'f kstate \<Rightarrow> (int \<times> 'f kstate) option" where
  "ksem_init cur semid v s =
     (if \<not> semid_ok semid \<or> v < 0 then Some (-1, s)
      else do {
        let k = nat semid;
        s \<leftarrow> k_acquire (SemLock k) s;
        s \<leftarrow> wakeup (Some cur) (ChSem k) (upd_sem k (\<lambda>q. q\<lparr>used := 1, sem_value := v\<rparr>) s);
        s \<leftarrow> k_release (SemLock k) s;
        Some (0, s)
      })"

text \<open>One turn of the loop \<^verbatim>\<open>while(s->value == 0)\<close>, with the semaphore's lock held.\<close>

definition sem_wait_turn :: "nat \<Rightarrow> nat \<Rightarrow> 'f kstate \<Rightarrow> (int outcome \<times> 'f kstate) option" where
  "sem_wait_turn cur k s =
     (if sem_value (semtable s ! k) = 0 then do {
        s \<leftarrow> sleep cur (ChSem k) (SemLock k) s;
        Some (Blocked, s)
      }
      else do {
        s \<leftarrow> k_release (SemLock k) (upd_sem k (\<lambda>q. q\<lparr>sem_value := to_int32 (sem_value q - 1)\<rparr>) s);
        Some (Return 0, s)
      })"

definition sem_check_turn :: "nat \<Rightarrow> nat \<Rightarrow> 'f kstate \<Rightarrow> (int outcome \<times> 'f kstate) option" where
  "sem_check_turn cur k s =
     (if used (semtable s ! k) = 0 then do { s \<leftarrow> k_release (SemLock k) s; Some (Return (-1), s) }
      else sem_wait_turn cur k s)"

definition ksem_wait :: "nat \<Rightarrow> int \<Rightarrow> 'f kstate \<Rightarrow> (int outcome \<times> 'f kstate) option" where
  "ksem_wait cur semid s =
     (if \<not> semid_ok semid then Some (Return (-1), s)
      else do { s \<leftarrow> k_acquire (SemLock (nat semid)) s; sem_check_turn cur (nat semid) s })"

definition ksem_wait_resume :: "nat \<Rightarrow> nat \<Rightarrow> 'f kstate \<Rightarrow> (int outcome \<times> 'f kstate) option" where
  "ksem_wait_resume cur k s = do { s \<leftarrow> sleep_resume cur (SemLock k) s; sem_check_turn cur k s }"

definition ksem_post :: "nat \<Rightarrow> int \<Rightarrow> 'f kstate \<Rightarrow> (int \<times> 'f kstate) option" where
  "ksem_post cur semid s =
     (if \<not> semid_ok semid then Some (-1, s)
      else do {
        let k = nat semid;
        s \<leftarrow> k_acquire (SemLock k) s;
        if used (semtable s ! k) = 0 then do { s \<leftarrow> k_release (SemLock k) s; Some (-1, s) }
        else do {
          s \<leftarrow> wakeup (Some cur) (ChSem k) (upd_sem k (\<lambda>q. q\<lparr>sem_value := to_int32 (sem_value q + 1)\<rparr>) s);
          s \<leftarrow> k_release (SemLock k) s;
          Some (0, s)
        }
      })"

subsection \<open>Signals\<close>

text \<open>The result is false for the return value -1.\<close>

definition setupsignal :: "int \<Rightarrow> proc \<Rightarrow> bool \<times> proc" where
  "setupsignal signum p =
     (if signal_registered p = 0 \<or> signal_inflight p \<noteq> 0 \<or> signum \<le> 0 then (False, p)
      else (True, p\<lparr>signal_tf := tf p, signal_inflight := 1, active_signal := signum, pending_signal := 0,
                    tf := (tf p)\<lparr>epc := signal_handler p, a0 := word_of_int signum\<rparr>\<rparr>))"

definition sigalarm_fields :: "int \<Rightarrow> u64 \<Rightarrow> proc \<Rightarrow> proc" where
  "sigalarm_fields n handler p =
     (let p = p\<lparr>alarm_interval := n, alarm_elapsed := 0, signal_handler := handler,
                signal_registered := (if n = 0 \<and> handler = 0 then 0 else 1)\<rparr> in
      if signal_registered p = 0 then
        (let p = p\<lparr>pending_signal := 0\<rparr> in
         if signal_inflight p = 0 then p\<lparr>active_signal := 0, signal_tf := zero_trapframe\<rparr> else p)
      else p)"

definition sigalarm :: "nat \<Rightarrow> int \<Rightarrow> u64 \<Rightarrow> 'f kstate \<Rightarrow> (int \<times> 'f kstate) option" where
  "sigalarm cur n handler s =
     (if n < 0 then Some (-1, s)
      else do {
        s \<leftarrow> k_acquire (ProcLock cur) s;
        if handler \<noteq> 0 \<and> handler \<ge> sz (proc s ! cur) then do {
          s \<leftarrow> k_release (ProcLock cur) s;
          Some (-1, s)
        }
        else do {
          s \<leftarrow> k_release (ProcLock cur) (upd_p cur (sigalarm_fields n handler) s);
          Some (0, s)
        }
      })"

text \<open>The return value is \<^verbatim>\<open>(int)saved_a0\<close>.\<close>

definition sigreturn :: "nat \<Rightarrow> 'f kstate \<Rightarrow> (int \<times> 'f kstate) option" where
  "sigreturn cur s = do {
     s \<leftarrow> k_acquire (ProcLock cur) s;
     if signal_inflight (proc s ! cur) = 0 then do {
       s \<leftarrow> k_release (ProcLock cur) s;
       Some (-1, s)
     }
     else do {
       let saved = a0 (signal_tf (proc s ! cur));
       let s = upd_p cur (\<lambda>p. p\<lparr>tf := signal_tf p, signal_inflight := 0, active_signal := 0,
                                signal_tf := zero_trapframe\<rparr>) s;
       s \<leftarrow> k_release (ProcLock cur) s;
       Some (sint (ucast saved :: u32), s)
     }
   }"

definition sigsend :: "int \<Rightarrow> int \<Rightarrow> 'f kstate \<Rightarrow> (int \<times> 'f kstate) option" where
  "sigsend pd signum s =
     (if signum \<le> 0 then Some (-1, s)
      else do {
        (r, s) \<leftarrow> scan_procs (\<lambda>p. pid p = pd \<and> state p \<noteq> UNUSED) [0..<NPROC] s;
        (case r of
           None \<Rightarrow> Some (-1, s)
         | Some i \<Rightarrow>
             if signal_registered (proc s ! i) = 0 \<or> pending_signal (proc s ! i) \<noteq> 0 then do {
               s \<leftarrow> k_release (ProcLock i) s;
               Some (-1, s)
             }
             else do {
               let s = upd_p i (\<lambda>p. p\<lparr>pending_signal := signum\<rparr>) s;
               let s = (if state (proc s ! i) = SLEEPING then upd_p i (\<lambda>p. p\<lparr>state := RUNNABLE\<rparr>) s else s);
               s \<leftarrow> k_release (ProcLock i) s;
               Some (0, s)
             })
      })"

definition signaltick_fields :: "proc \<Rightarrow> proc" where
  "signaltick_fields p =
     (if alarm_interval p > 0 \<and> signal_registered p \<noteq> 0 \<and> signal_inflight p = 0 then
        (let p = p\<lparr>alarm_elapsed := alarm_elapsed p + 1\<rparr> in
         if alarm_elapsed p \<ge> alarm_interval p then
           (if pending_signal p = 0 then p\<lparr>pending_signal := SIGALRM, alarm_elapsed := 0\<rparr> else p\<lparr>alarm_elapsed := 0\<rparr>)
         else p)
      else p)"

definition signaltick :: "nat \<Rightarrow> 'f kstate \<Rightarrow> 'f kstate option" where
  "signaltick i s = do {
     s \<leftarrow> k_acquire (ProcLock i) s;
     k_release (ProcLock i) (upd_p i signaltick_fields s)
   }"

definition signalcheck_fields :: "proc \<Rightarrow> proc" where
  "signalcheck_fields p =
     (if pending_signal p \<noteq> 0 \<and> signal_registered p \<noteq> 0 \<and> signal_inflight p = 0 then
        (let (ok, q) = setupsignal (pending_signal p) p in if ok then q else q\<lparr>killed := 1\<rparr>)
      else p)"

definition signalcheck :: "nat \<Rightarrow> 'f kstate \<Rightarrow> 'f kstate option" where
  "signalcheck i s = do {
     s \<leftarrow> k_acquire (ProcLock i) s;
     k_release (ProcLock i) (upd_p i signalcheck_fields s)
   }"

subsection \<open>Mailboxes\<close>

text \<open>Bytes written at the start of a buffer.\<close>

definition overwrite :: "byte list \<Rightarrow> byte list \<Rightarrow> byte list" where
  "overwrite w buf = w @ drop (length w) buf"

definition msgsend :: "nat \<Rightarrow> int \<Rightarrow> u64 \<Rightarrow> 'f kstate \<Rightarrow> (int \<times> 'f kstate) option" where
  "msgsend cur pd msg s = do {
     s \<leftarrow> k_acquire WaitLock s;
     (r, s) \<leftarrow> scan_procs (\<lambda>p. state p \<noteq> UNUSED \<and> pid p = pd) [0..<NPROC] s;
     (case r of
        None \<Rightarrow> do { s \<leftarrow> k_release WaitLock s; Some (-1, s) }
      | Some i \<Rightarrow>
          if msg_flag (proc s ! i) \<noteq> 0 then do {
            s \<leftarrow> k_release (ProcLock i) s;
            s \<leftarrow> k_release WaitLock s;
            Some (-1, s)
          }
          else do {
            (w, ok) \<leftarrow> copyinstr (pagetable (proc s ! cur)) msg 64 (pm s);
            let s = upd_p i (\<lambda>p. p\<lparr>msg_buf := overwrite w (msg_buf p)\<rparr>) s;
            if \<not> ok then do {
              s \<leftarrow> k_release (ProcLock i) s;
              s \<leftarrow> k_release WaitLock s;
              Some (-1, s)
            }
            else do {
              s \<leftarrow> k_release (ProcLock i) (upd_p i (\<lambda>p. p\<lparr>msg_flag := 1\<rparr>) s);
              s \<leftarrow> wakeup (Some cur) (ChMsg i) s;
              s \<leftarrow> k_release WaitLock s;
              Some (0, s)
            }
          })
   }"

text \<open>One turn of \<open>msgrecv\<close>, with \<open>wait_lock\<close> and the process lock held.\<close>

definition msgrecv_turn :: "nat \<Rightarrow> u64 \<Rightarrow> 'f kstate \<Rightarrow> (int outcome \<times> 'f kstate) option" where
  "msgrecv_turn cur buf s =
     (if msg_flag (proc s ! cur) = 0 then do {
        s \<leftarrow> k_release (ProcLock cur) s;
        s \<leftarrow> sleep cur (ChMsg cur) WaitLock s;
        Some (Blocked, s)
      }
      else do {
        (e, m) \<leftarrow> copyout (sz (proc s ! cur)) (pagetable (proc s ! cur)) (pagetable (proc s ! cur)) buf
                     (msg_buf (proc s ! cur)) (pm s);
        let s = s\<lparr>pm := m\<rparr>;
        if e < 0 then do {
          s \<leftarrow> k_release (ProcLock cur) s;
          s \<leftarrow> k_release WaitLock s;
          Some (Return (-1), s)
        }
        else do {
          s \<leftarrow> k_release (ProcLock cur) (upd_p cur (\<lambda>p. p\<lparr>msg_flag := 0, msg_buf := empty_msg\<rparr>) s);
          s \<leftarrow> k_release WaitLock s;
          Some (Return 0, s)
        }
      })"

definition msgrecv :: "nat \<Rightarrow> u64 \<Rightarrow> 'f kstate \<Rightarrow> (int outcome \<times> 'f kstate) option" where
  "msgrecv cur buf s = do {
     s \<leftarrow> k_acquire WaitLock s;
     s \<leftarrow> k_acquire (ProcLock cur) s;
     msgrecv_turn cur buf s
   }"

definition msgrecv_resume :: "nat \<Rightarrow> u64 \<Rightarrow> 'f kstate \<Rightarrow> (int outcome \<times> 'f kstate) option" where
  "msgrecv_resume cur buf s = do {
     s \<leftarrow> sleep_resume cur WaitLock s;
     s \<leftarrow> k_acquire (ProcLock cur) s;
     msgrecv_turn cur buf s
   }"

subsection \<open>Accounting\<close>

definition update_time_proc :: "proc \<Rightarrow> proc" where
  "update_time_proc p =
     (if state p = RUNNING then p\<lparr>rtime := rtime p + 1\<rparr>
      else if state p = SLEEPING then p\<lparr>stime := stime p + 1\<rparr>
      else if state p = RUNNABLE then p\<lparr>retime := retime p + 1\<rparr>
      else p)"

definition update_time :: "'f kstate \<Rightarrow> 'f kstate option" where
  "update_time s = each_proc update_time_proc [0..<NPROC] s"

fun getpinfo_loop :: "nat list \<Rightarrow> pinfo \<Rightarrow> 'f kstate \<Rightarrow> (pinfo \<times> 'f kstate) option" where
  "getpinfo_loop [] info s = Some (info, s)"
| "getpinfo_loop (i # is) info s = do {
     s \<leftarrow> k_acquire (ProcLock i) s;
     let p = proc s ! i;
     let info = info\<lparr>pi_pid := (pi_pid info)[i := pid p], pi_state := (pi_state info)[i := state p],
                     pi_runtime := (pi_runtime info)[i := rtime p], pi_waittime := (pi_waittime info)[i := retime p]\<rparr>;
     s \<leftarrow> k_release (ProcLock i) s;
     getpinfo_loop is info s
   }"

definition getpinfo :: "pinfo \<Rightarrow> 'f kstate \<Rightarrow> (pinfo \<times> 'f kstate) option" where
  "getpinfo info s = getpinfo_loop [0..<NPROC] info s"

text \<open>\<open>clockintr\<close> of \<^verbatim>\<open>kernel/trap.c\<close> on hart 0; the other harts only rearm their timer.\<close>

definition clockintr :: "nat option \<Rightarrow> bool \<Rightarrow> 'f kstate \<Rightarrow> 'f kstate option" where
  "clockintr cur hart0 s =
     (if hart0 then do {
        s \<leftarrow> k_acquire TicksLock s;
        let s = s\<lparr>ticks := ticks s + 1\<rparr>;
        s \<leftarrow> update_time s;
        s \<leftarrow> wakeup cur ChTicks s;
        k_release TicksLock s
      }
      else Some s)"

end
