(* ===== verification/Kern_String.thy ===== *)
theory Kern_String
  imports Prelude
begin

text \<open>
  \<^verbatim>\<open>kernel/string.c\<close>. Memory is a map from addresses to bytes; each loop is the recursion
  over its remaining count, with the pointers it advances as arguments. \<open>strlen\<close> scans until a NUL
  byte and is partial, so that not finding one is the value \<^const>\<open>None\<close>.
\<close>

type_synonym cmem = "nat \<Rightarrow> byte"

subsection \<open>Operations\<close>

fun memset_loop :: "cmem \<Rightarrow> nat \<Rightarrow> byte \<Rightarrow> nat \<Rightarrow> nat \<Rightarrow> cmem" where
  "memset_loop m dst c i 0 = m"
| "memset_loop m dst c i (Suc k) = memset_loop (m(dst + i := c)) dst c (Suc i) k"

definition memset :: "cmem \<Rightarrow> nat \<Rightarrow> int \<Rightarrow> nat \<Rightarrow> cmem" where
  "memset m dst c n = memset_loop m dst (word_of_int c) 0 n"

fun memcmp :: "cmem \<Rightarrow> nat \<Rightarrow> nat \<Rightarrow> nat \<Rightarrow> int" where
  "memcmp m s1 s2 0 = 0"
| "memcmp m s1 s2 (Suc n) = (if m s1 \<noteq> m s2 then uint (m s1) - uint (m s2) else memcmp m (Suc s1) (Suc s2) n)"

text \<open>The two copying loops of \<open>memmove\<close>: from the end when the regions overlap with the
  destination above the source, from the start otherwise.\<close>

fun copy_backward :: "cmem \<Rightarrow> nat \<Rightarrow> nat \<Rightarrow> nat \<Rightarrow> cmem" where
  "copy_backward m d s 0 = m"
| "copy_backward m d s (Suc n) = copy_backward (m(d + n := m (s + n))) d s n"

fun copy_forward :: "cmem \<Rightarrow> nat \<Rightarrow> nat \<Rightarrow> nat \<Rightarrow> cmem" where
  "copy_forward m d s 0 = m"
| "copy_forward m d s (Suc n) = copy_forward (m(d := m s)) (Suc d) (Suc s) n"

definition memmove :: "cmem \<Rightarrow> nat \<Rightarrow> nat \<Rightarrow> nat \<Rightarrow> cmem" where
  "memmove m dst src n =
     (if n = 0 then m
      else if src < dst \<and> src + n > dst then copy_backward m dst src n
      else copy_forward m dst src n)"

definition memcpy :: "cmem \<Rightarrow> nat \<Rightarrow> nat \<Rightarrow> nat \<Rightarrow> cmem" where
  "memcpy m dst src n = memmove m dst src n"

fun strncmp :: "cmem \<Rightarrow> nat \<Rightarrow> nat \<Rightarrow> nat \<Rightarrow> int" where
  "strncmp m p q 0 = 0"
| "strncmp m p q (Suc n) =
     (if m p \<noteq> 0 \<and> m p = m q then strncmp m (Suc p) (Suc q) n else uint (m p) - uint (m q))"

fun zero_fill :: "cmem \<Rightarrow> nat \<Rightarrow> nat \<Rightarrow> cmem" where
  "zero_fill m s 0 = m"
| "zero_fill m s (Suc n) = zero_fill (m(s := 0)) (Suc s) n"

fun strncpy_loop :: "cmem \<Rightarrow> nat \<Rightarrow> nat \<Rightarrow> nat \<Rightarrow> cmem" where
  "strncpy_loop m s t 0 = m"
| "strncpy_loop m s t (Suc n) =
     (let m' = m(s := m t) in if m t \<noteq> 0 then strncpy_loop m' (Suc s) (Suc t) n else zero_fill m' (Suc s) n)"

definition strncpy :: "cmem \<Rightarrow> nat \<Rightarrow> nat \<Rightarrow> int \<Rightarrow> cmem" where
  "strncpy m s t n = strncpy_loop m s t (nat n)"

text \<open>The loop of \<open>safestrcpy\<close> with \<open>k\<close> copies left, then the final NUL.\<close>

fun safestrcpy_loop :: "cmem \<Rightarrow> nat \<Rightarrow> nat \<Rightarrow> nat \<Rightarrow> cmem" where
  "safestrcpy_loop m s t 0 = m(s := 0)"
| "safestrcpy_loop m s t (Suc k) =
     (let m' = m(s := m t) in if m t \<noteq> 0 then safestrcpy_loop m' (Suc s) (Suc t) k else m'(Suc s := 0))"

definition safestrcpy :: "cmem \<Rightarrow> nat \<Rightarrow> nat \<Rightarrow> int \<Rightarrow> cmem" where
  "safestrcpy m s t n = (if n \<le> 0 then m else safestrcpy_loop m s t (nat (n - 1)))"

partial_function (option) strlen_loop :: "cmem \<Rightarrow> nat \<Rightarrow> nat \<Rightarrow> nat option" where
  "strlen_loop m s n = (if m (s + n) \<noteq> 0 then strlen_loop m s (Suc n) else Some n)"

definition strlen :: "cmem \<Rightarrow> nat \<Rightarrow> nat option" where
  "strlen m s = strlen_loop m s 0"

subsection \<open>What they compute\<close>

lemma memset_loop_eq: "memset_loop m d c i k = (\<lambda>a. if d + i \<le> a \<and> a < d + i + k then c else m a)"
  by (induction k arbitrary: m i) (auto simp: fun_eq_iff)

lemma memset_eq: "memset m d c n = (\<lambda>a. if d \<le> a \<and> a < d + n then word_of_int c else m a)"
  by (simp add: memset_def memset_loop_eq)

lemma memcmp_zero: "memcmp m s1 s2 n = 0 \<longleftrightarrow> (\<forall>i < n. m (s1 + i) = m (s2 + i))"
proof (induction m s1 s2 n rule: memcmp.induct)
  case (2 m s1 s2 n)
  have "(\<forall>i < Suc n. m (s1 + i) = m (s2 + i)) \<longleftrightarrow> m s1 = m s2 \<and> (\<forall>i < n. m (Suc s1 + i) = m (Suc s2 + i))"
    by (auto simp: less_Suc_eq_0_disj)
  with 2 show ?case by (simp add: word_uint_eq_iff)
qed simp

lemma copy_backward_eq:
  "s \<le> d \<Longrightarrow> copy_backward m d s n = (\<lambda>a. if d \<le> a \<and> a < d + n then m (s + (a - d)) else m a)"
proof (induction n arbitrary: m)
  case (Suc n)
  show ?case unfolding copy_backward.simps Suc.IH [OF Suc.prems]
    using Suc.prems by (auto simp: fun_eq_iff less_Suc_eq)
qed (auto simp: fun_eq_iff)

lemma copy_forward_eq:
  "d \<le> s \<or> s + n \<le> d \<Longrightarrow> copy_forward m d s n = (\<lambda>a. if d \<le> a \<and> a < d + n then m (s + (a - d)) else m a)"
proof (induction n arbitrary: m d s)
  case (Suc n)
  have "Suc d \<le> Suc s \<or> Suc s + n \<le> Suc d" using Suc.prems by auto
  note IH = Suc.IH [OF this]
  show ?case
  proof
    fix a
    consider "a = d" | "d < a" "a < d + Suc n" | "a < d \<or> d + Suc n \<le> a" by linarith
    then show "copy_forward m d s (Suc n) a = (if d \<le> a \<and> a < d + Suc n then m (s + (a - d)) else m a)"
    proof cases
      case 2
      then have "Suc s + (a - Suc d) = s + (a - d)" "s + (a - d) \<noteq> d"
        using Suc.prems by auto
      with 2 show ?thesis by (simp add: IH)
    qed (auto simp: IH)
  qed
qed (auto simp: fun_eq_iff)

text \<open>Whatever the overlap, \<open>memmove\<close> copies the source as it was before the call.\<close>

lemma memmove_eq: "memmove m d s n = (\<lambda>a. if d \<le> a \<and> a < d + n then m (s + (a - d)) else m a)"
proof -
  consider "n = 0" | "n \<noteq> 0" "s < d \<and> s + n > d" | "n \<noteq> 0" "\<not> (s < d \<and> s + n > d)" by blast
  then show ?thesis
  proof cases
    case 2 then show ?thesis by (simp add: memmove_def copy_backward_eq)
  next
    case 3
    then have "d \<le> s \<or> s + n \<le> d" by auto
    then have "copy_forward m d s n = (\<lambda>a. if d \<le> a \<and> a < d + n then m (s + (a - d)) else m a)"
      by (rule copy_forward_eq)
    with 3 show ?thesis unfolding memmove_def by (simp only: if_False)
  qed (auto simp: memmove_def fun_eq_iff)
qed

lemma zero_fill_eq: "zero_fill m s n = (\<lambda>a. if s \<le> a \<and> a < s + n then 0 else m a)"
  by (induction n arbitrary: m s) (auto simp: fun_eq_iff)

text \<open>\<open>len\<close> is the length of the string at \<open>t\<close>.\<close>

definition string_at :: "cmem \<Rightarrow> nat \<Rightarrow> nat \<Rightarrow> bool" where
  "string_at m t len \<longleftrightarrow> m (t + len) = 0 \<and> (\<forall>i < len. m (t + i) \<noteq> 0)"

lemma strlen_loop_found:
  "string_at m s len \<Longrightarrow> n \<le> len \<Longrightarrow> strlen_loop m s n = Some len"
proof (induction "len - n" arbitrary: n)
  case 0
  then show ?case by (subst strlen_loop.simps) (simp add: string_at_def)
next
  case (Suc d)
  then have "n < len" by simp
  then have "m (s + n) \<noteq> 0" using Suc.prems by (simp add: string_at_def)
  with Suc show ?case by (subst strlen_loop.simps) simp
qed

lemma strlen_found: "string_at m s len \<Longrightarrow> strlen m s = Some len"
  by (simp add: strlen_def strlen_loop_found)

text \<open>Copies between regions that do not overlap: the source string up to its NUL, the rest zero.\<close>

lemma strncpy_loop_eq:
  assumes "string_at m t len" "s + n \<le> t \<or> t + len < s"
  shows "strncpy_loop m s t n =
    (\<lambda>a. if s \<le> a \<and> a < s + n then (if a - s < len then m (t + (a - s)) else 0) else m a)"
  using assms
proof (induction n arbitrary: m s t len)
  case (Suc n)
  show ?case
  proof (cases "m t = 0")
    case True
    then have "len = 0" using Suc.prems(1) by (cases len) (auto simp: string_at_def)
    with True show ?thesis by (auto simp: Let_def zero_fill_eq fun_eq_iff)
  next
    case False
    then obtain l where len: "len = Suc l" using Suc.prems(1) by (cases len) (auto simp: string_at_def)
    let ?m = "m(s := m t)"
    have "string_at ?m (Suc t) l"
      using Suc.prems len unfolding string_at_def by (auto simp: less_Suc_eq_0_disj)
    moreover have "Suc s + n \<le> Suc t \<or> Suc t + l < Suc s" using Suc.prems(2) len by auto
    ultimately have IH: "strncpy_loop ?m (Suc s) (Suc t) n =
        (\<lambda>a. if Suc s \<le> a \<and> a < Suc s + n then (if a - Suc s < l then ?m (Suc t + (a - Suc s)) else 0) else ?m a)"
      by (rule Suc.IH)
    show ?thesis
    proof
      fix a
      consider "a = s" | "s < a" "a < s + Suc n" | "a < s \<or> s + Suc n \<le> a" by linarith
      then show "strncpy_loop m s t (Suc n) a =
        (if s \<le> a \<and> a < s + Suc n then if a - s < len then m (t + (a - s)) else 0 else m a)"
      proof cases
        case 2
        then have "a - Suc s < l \<longleftrightarrow> a - s < len" "Suc t + (a - Suc s) = t + (a - s)"
          and "a - s < len \<Longrightarrow> t + (a - s) \<noteq> s" using len Suc.prems(2) by auto
        with 2 False show ?thesis by (simp add: IH Let_def)
      qed (use False len in \<open>auto simp: IH Let_def\<close>)
    qed
  qed
qed (auto simp: fun_eq_iff)

text \<open>\<open>safestrcpy\<close> leaves a string of at most \<open>n - 1\<close> bytes that is a prefix of the source, and
  writes nothing outside the destination.\<close>

lemma safestrcpy_loop_eq:
  assumes "string_at m t len" "s + k < t \<or> t + len < s"
  shows "string_at (safestrcpy_loop m s t k) s (min k len) \<and>
    (\<forall>i < min k len. safestrcpy_loop m s t k (s + i) = m (t + i)) \<and>
    (\<forall>a. a < s \<or> s + k < a \<longrightarrow> safestrcpy_loop m s t k a = m a)"
  using assms
proof (induction k arbitrary: m s t len)
  case 0
  then show ?case by (auto simp: string_at_def)
next
  case (Suc k)
  show ?case
  proof (cases "m t = 0")
    case True
    then have "len = 0" using Suc.prems(1) by (cases len) (auto simp: string_at_def)
    with True show ?thesis by (auto simp: Let_def string_at_def)
  next
    case False
    then obtain l where len: "len = Suc l" using Suc.prems(1) by (cases len) (auto simp: string_at_def)
    let ?m = "m(s := m t)" and ?r = "safestrcpy_loop (m(s := m t)) (Suc s) (Suc t) k"
    have "string_at ?m (Suc t) l"
      using Suc.prems len unfolding string_at_def by (auto simp: less_Suc_eq_0_disj)
    moreover have "Suc s + k < Suc t \<or> Suc t + l < Suc s" using Suc.prems(2) len by auto
    ultimately have IH: "string_at ?r (Suc s) (min k l)" "\<forall>i < min k l. ?r (Suc s + i) = ?m (Suc t + i)"
      "\<forall>a. a < Suc s \<or> Suc s + k < a \<longrightarrow> ?r a = ?m a" using Suc.IH by blast+
    have eq: "safestrcpy_loop m s t (Suc k) = ?r" using False by (simp add: Let_def)
    have r0: "?r s = m t" using IH(3) by simp
    have cp: "?r (s + i) = m (t + i)" if i: "i < min (Suc k) len" for i
    proof (cases i)
      case (Suc j)
      then have "j < min k l" using i len by simp
      then have "?r (Suc s + j) = ?m (Suc t + j)" using IH(2) by blast
      moreover have "Suc t + j \<noteq> s" using Suc.prems(2) i len Suc by auto
      ultimately show ?thesis by (simp add: Suc)
    qed (simp add: r0)
    have "string_at ?r s (min (Suc k) len)"
      unfolding string_at_def
    proof (intro conjI allI impI)
      show "?r (s + min (Suc k) len) = 0" using IH(1) by (simp add: len string_at_def)
      fix i assume i: "i < min (Suc k) len"
      then show "?r (s + i) \<noteq> 0" using cp [OF i] Suc.prems(1) by (simp add: string_at_def)
    qed
    moreover have "\<forall>a. a < s \<or> s + Suc k < a \<longrightarrow> ?r a = m a" using IH(3) by auto
    ultimately show ?thesis unfolding eq using cp by blast
  qed
qed

end
