(* ===== verification/Kern_Syscall.thy ===== *)
theory Kern_Syscall
  imports Kern_Ipc Kern_String
begin

unbundle bit_operations_syntax

text \<open>
  System calls: the argument fetching and the dispatch table of \<^verbatim>\<open>kernel/syscall.c\<close> and the
  handlers of \<^verbatim>\<open>kernel/sysproc.c\<close>. A handler that goes to sleep yields the point where its kernel
  thread is suspended, a \<open>cont\<close>, from which \<open>resume_syscall\<close> continues. The handlers of
  \<^verbatim>\<open>kernel/sysfile.c\<close> are a parameter of the dispatch.
\<close>

datatype cont =
    InWait u64
  | InWaitx u64 u64
  | InJoin int
  | InSemWait nat
  | InMsgRecv u64
  | InPause u32 u32
  | InFile nat

datatype sysresult = Done u64 | Sleeps cont | Exited

text \<open>A C \<^verbatim>\<open>int\<close> result widened to the handler's \<^verbatim>\<open>uint64\<close>.\<close>

definition ret :: "(int \<times> 'f kstate) option \<Rightarrow> (sysresult \<times> 'f kstate) option" where
  "ret r = map_option (\<lambda>(v, s). (Done (word_of_int v), s)) r"

definition ret_or_sleep :: "cont \<Rightarrow> (int outcome \<times> 'f kstate) option \<Rightarrow> (sysresult \<times> 'f kstate) option" where
  "ret_or_sleep k r =
     map_option (\<lambda>(v, s). (case v of Return x \<Rightarrow> Done (word_of_int x) | Blocked \<Rightarrow> Sleeps k, s)) r"

subsection \<open>Arguments\<close>

definition argraw :: "nat \<Rightarrow> int \<Rightarrow> 'f kstate \<Rightarrow> u64 option" where
  "argraw cur n s =
     (let f = tf (proc s ! cur) in
      if n = 0 then Some (a0 f) else if n = 1 then Some (a1 f) else if n = 2 then Some (a2 f)
      else if n = 3 then Some (a3 f) else if n = 4 then Some (a4 f) else if n = 5 then Some (a5 f)
      else None)"

definition argint :: "nat \<Rightarrow> int \<Rightarrow> 'f kstate \<Rightarrow> int option" where
  "argint cur n s = do { w \<leftarrow> argraw cur n s; Some (sint (ucast w :: u32)) }"

definition argaddr :: "nat \<Rightarrow> int \<Rightarrow> 'f kstate \<Rightarrow> u64 option" where
  "argaddr cur n s = argraw cur n s"

text \<open>The word read is \<^const>\<open>None\<close> for the result -1.\<close>

definition bytes_word :: "byte list \<Rightarrow> u64" where
  "bytes_word bs = load64 (\<lambda>a. if a < length bs then bs ! a else 0) 0"

definition fetchaddr :: "nat \<Rightarrow> u64 \<Rightarrow> 'f kstate \<Rightarrow> (u64 option \<times> 'f kstate) option" where
  "fetchaddr cur addr s =
     (let p = proc s ! cur in
      if addr \<ge> sz p \<or> addr + 8 > sz p then Some (None, s)
      else do {
        (r, m) \<leftarrow> copyin (sz p) (pagetable p) (pagetable p) addr 8 (pm s);
        Some (map_option bytes_word r, s\<lparr>pm := m\<rparr>)
      })"

text \<open>The result and the bytes written to \<open>buf\<close>; the length is taken from the buffer by \<open>strlen\<close>.\<close>

definition fetchstr :: "nat \<Rightarrow> u64 \<Rightarrow> nat \<Rightarrow> 'f kstate \<Rightarrow> (int \<times> byte list) option" where
  "fetchstr cur addr mx s = do {
     (w, ok) \<leftarrow> copyinstr (pagetable (proc s ! cur)) addr mx (pm s);
     if \<not> ok then Some (-1, w)
     else do { n \<leftarrow> strlen (\<lambda>a. w ! a) 0; Some (int n, w) }
   }"

definition argstr :: "nat \<Rightarrow> int \<Rightarrow> nat \<Rightarrow> 'f kstate \<Rightarrow> (int \<times> byte list) option" where
  "argstr cur n mx s = do { addr \<leftarrow> argaddr cur n s; fetchstr cur addr mx s }"

subsection \<open>Handlers\<close>

definition sys_exit :: "'f fsops \<Rightarrow> nat \<Rightarrow> 'f kstate \<Rightarrow> (sysresult \<times> 'f kstate) option" where
  "sys_exit ops cur s = do { n \<leftarrow> argint cur 0 s; s \<leftarrow> kexit ops cur n s; Some (Exited, s) }"

definition sys_getpid :: "nat \<Rightarrow> 'f kstate \<Rightarrow> (sysresult \<times> 'f kstate) option" where
  "sys_getpid cur s = ret (Some (pid (proc s ! cur), s))"

definition sys_fork :: "'f fsops \<Rightarrow> nat \<Rightarrow> 'f kstate \<Rightarrow> (sysresult \<times> 'f kstate) option" where
  "sys_fork ops cur s = ret (kfork ops cur s)"

definition sys_forkprio :: "'f fsops \<Rightarrow> nat \<Rightarrow> 'f kstate \<Rightarrow> (sysresult \<times> 'f kstate) option" where
  "sys_forkprio ops cur s = do { prio \<leftarrow> argint cur 0 s; ret (kforkprio ops cur prio s) }"

definition sys_wait :: "nat \<Rightarrow> 'f kstate \<Rightarrow> (sysresult \<times> 'f kstate) option" where
  "sys_wait cur s = do { p \<leftarrow> argaddr cur 0 s; ret_or_sleep (InWait p) (kwait cur p s) }"

definition SBRK_EAGER :: int where "SBRK_EAGER = 1"

definition sys_sbrk :: "nat \<Rightarrow> 'f kstate \<Rightarrow> (sysresult \<times> 'f kstate) option" where
  "sys_sbrk cur s = do {
     n \<leftarrow> argint cur 0 s;
     t \<leftarrow> argint cur 1 s;
     let addr = sz (proc s ! cur);
     let n64 = word_of_int n;
     if t = SBRK_EAGER \<or> n < 0 then do {
       (e, s) \<leftarrow> growproc cur n s;
       Some (Done (if e < 0 then -1 else addr), s)
     }
     else if addr + n64 < addr then Some (Done (-1), s)
     else if addr + n64 > TRAPFRAME then Some (Done (-1), s)
     else Some (Done addr, upd_p cur (\<lambda>p. p\<lparr>sz := sz p + n64\<rparr>) s)
   }"

text \<open>One turn of the loop of \<open>sys_pause\<close>, with \<open>tickslock\<close> held; the comparison is unsigned.\<close>

definition pause_turn :: "nat \<Rightarrow> u32 \<Rightarrow> u32 \<Rightarrow> 'f kstate \<Rightarrow> (sysresult \<times> 'f kstate) option" where
  "pause_turn cur n ticks0 s =
     (if ticks s - ticks0 < n then do {
        (k, s) \<leftarrow> is_killed cur s;
        if k \<noteq> 0 then do { s \<leftarrow> k_release TicksLock s; Some (Done (-1), s) }
        else do { s \<leftarrow> sleep cur ChTicks TicksLock s; Some (Sleeps (InPause n ticks0), s) }
      }
      else do { s \<leftarrow> k_release TicksLock s; Some (Done 0, s) })"

definition sys_pause :: "nat \<Rightarrow> 'f kstate \<Rightarrow> (sysresult \<times> 'f kstate) option" where
  "sys_pause cur s = do {
     n \<leftarrow> argint cur 0 s;
     let n = (if n < 0 then 0 else n);
     s \<leftarrow> k_acquire TicksLock s;
     pause_turn cur (word_of_int n) (ticks s) s
   }"

definition sys_kill :: "nat \<Rightarrow> 'f kstate \<Rightarrow> (sysresult \<times> 'f kstate) option" where
  "sys_kill cur s = do { pd \<leftarrow> argint cur 0 s; ret (kkill pd s) }"

definition sys_uptime :: "nat \<Rightarrow> 'f kstate \<Rightarrow> (sysresult \<times> 'f kstate) option" where
  "sys_uptime cur s = do {
     s \<leftarrow> k_acquire TicksLock s;
     let xticks = ticks s;
     s \<leftarrow> k_release TicksLock s;
     Some (Done (ucast xticks), s)
   }"

definition sys_sigalarm :: "nat \<Rightarrow> 'f kstate \<Rightarrow> (sysresult \<times> 'f kstate) option" where
  "sys_sigalarm cur s = do { n \<leftarrow> argint cur 0 s; h \<leftarrow> argaddr cur 1 s; ret (sigalarm cur n h s) }"

definition sys_sigreturn :: "nat \<Rightarrow> 'f kstate \<Rightarrow> (sysresult \<times> 'f kstate) option" where
  "sys_sigreturn cur s = ret (sigreturn cur s)"

definition sys_sigsend :: "nat \<Rightarrow> 'f kstate \<Rightarrow> (sysresult \<times> 'f kstate) option" where
  "sys_sigsend cur s = do { pd \<leftarrow> argint cur 0 s; signum \<leftarrow> argint cur 1 s; ret (sigsend pd signum s) }"

definition sys_clone :: "'f fsops \<Rightarrow> nat \<Rightarrow> 'f kstate \<Rightarrow> (sysresult \<times> 'f kstate) option" where
  "sys_clone ops cur s = do {
     fn \<leftarrow> argaddr cur 0 s; stack \<leftarrow> argaddr cur 1 s; arg \<leftarrow> argaddr cur 2 s;
     ret (kclone ops cur fn stack arg s)
   }"

definition sys_join :: "nat \<Rightarrow> 'f kstate \<Rightarrow> (sysresult \<times> 'f kstate) option" where
  "sys_join cur s = do { tid \<leftarrow> argint cur 0 s; ret_or_sleep (InJoin tid) (kjoin cur tid s) }"

definition sys_msgsend :: "nat \<Rightarrow> 'f kstate \<Rightarrow> (sysresult \<times> 'f kstate) option" where
  "sys_msgsend cur s = do { pd \<leftarrow> argint cur 0 s; msg \<leftarrow> argaddr cur 1 s; ret (msgsend cur pd msg s) }"

definition sys_msgrecv :: "nat \<Rightarrow> 'f kstate \<Rightarrow> (sysresult \<times> 'f kstate) option" where
  "sys_msgrecv cur s = do { buf \<leftarrow> argaddr cur 0 s; ret_or_sleep (InMsgRecv buf) (msgrecv cur buf s) }"

definition sys_sem_init :: "nat \<Rightarrow> 'f kstate \<Rightarrow> (sysresult \<times> 'f kstate) option" where
  "sys_sem_init cur s = do { semid \<leftarrow> argint cur 0 s; v \<leftarrow> argint cur 1 s; ret (ksem_init cur semid v s) }"

definition sys_sem_wait :: "nat \<Rightarrow> 'f kstate \<Rightarrow> (sysresult \<times> 'f kstate) option" where
  "sys_sem_wait cur s = do { semid \<leftarrow> argint cur 0 s; ret_or_sleep (InSemWait (nat semid)) (ksem_wait cur semid s) }"

definition sys_sem_post :: "nat \<Rightarrow> 'f kstate \<Rightarrow> (sysresult \<times> 'f kstate) option" where
  "sys_sem_post cur s = do { semid \<leftarrow> argint cur 0 s; ret (ksem_post cur semid s) }"

definition sys_setpriority :: "nat \<Rightarrow> 'f kstate \<Rightarrow> (sysresult \<times> 'f kstate) option" where
  "sys_setpriority cur s = do { pd \<leftarrow> argint cur 0 s; prio \<leftarrow> argint cur 1 s; ret (setpriority pd prio s) }"

definition sys_getpriority :: "nat \<Rightarrow> 'f kstate \<Rightarrow> (sysresult \<times> 'f kstate) option" where
  "sys_getpriority cur s = do { pd \<leftarrow> argint cur 0 s; ret (getpriority pd s) }"

definition sys_waitx :: "nat \<Rightarrow> 'f kstate \<Rightarrow> (sysresult \<times> 'f kstate) option" where
  "sys_waitx cur s = do {
     ar \<leftarrow> argaddr cur 0 s; aw \<leftarrow> argaddr cur 1 s;
     ret_or_sleep (InWaitx ar aw) (waitx cur ar aw s)
   }"

text \<open>The layout of \<^verbatim>\<open>struct pinfo\<close>: four arrays of 32-bit values. The local variable is not
  initialised; every element is set by \<open>getpinfo\<close>.\<close>

fun state_code :: "procstate \<Rightarrow> int" where
  "state_code UNUSED = 0"
| "state_code USED = 1"
| "state_code SLEEPING = 2"
| "state_code RUNNABLE = 3"
| "state_code RUNNING = 4"
| "state_code ZOMBIE = 5"

definition pinfo_bytes :: "pinfo \<Rightarrow> byte list" where
  "pinfo_bytes info = concat (map int_bytes (pi_pid info) @ map (\<lambda>st. int_bytes (state_code st)) (pi_state info) @
     map word_bytes (pi_runtime info) @ map word_bytes (pi_waittime info))"

definition sys_getpinfo :: "pinfo \<Rightarrow> nat \<Rightarrow> 'f kstate \<Rightarrow> (sysresult \<times> 'f kstate) option" where
  "sys_getpinfo stack cur s = do {
     addr \<leftarrow> argaddr cur 0 s;
     (info, s) \<leftarrow> getpinfo stack s;
     let p = proc s ! cur;
     (e, m) \<leftarrow> copyout (sz p) (pagetable p) (pagetable p) addr (pinfo_bytes info) (pm s);
     Some (Done (if e < 0 then -1 else 0), s\<lparr>pm := m\<rparr>)
   }"

subsection \<open>Dispatch\<close>

text \<open>What the table's handlers outside this model do: the file system calls and \<open>exec\<close>.\<close>

record 'f filecalls =
  file_call :: "int \<Rightarrow> nat \<Rightarrow> 'f kstate \<Rightarrow> (sysresult \<times> 'f kstate) option"
  file_resume :: "nat \<Rightarrow> nat \<Rightarrow> 'f kstate \<Rightarrow> (sysresult \<times> 'f kstate) option"
  stack_pinfo :: pinfo

definition syscalls :: "'f fsops \<Rightarrow> 'f filecalls \<Rightarrow> int \<Rightarrow> (nat \<Rightarrow> 'f kstate \<Rightarrow> (sysresult \<times> 'f kstate) option) option" where
  "syscalls ops fc num =
     (if num = 1 then Some (sys_fork ops)
      else if num = 2 then Some (sys_exit ops)
      else if num = 3 then Some sys_wait
      else if num = 6 then Some sys_kill
      else if num = 11 then Some sys_getpid
      else if num = 12 then Some sys_sbrk
      else if num = 13 then Some sys_pause
      else if num = 14 then Some sys_uptime
      else if num \<in> {4, 5, 7, 8, 9, 10, 15, 16, 17, 18, 19, 20, 21} then Some (file_call fc num)
      else if num = 22 then Some sys_sigalarm
      else if num = 23 then Some sys_sigreturn
      else if num = 24 then Some sys_sigsend
      else if num = 25 then Some (sys_clone ops)
      else if num = 26 then Some sys_join
      else if num = 27 then Some sys_msgsend
      else if num = 28 then Some sys_msgrecv
      else if num = 29 then Some sys_sem_init
      else if num = 30 then Some sys_sem_wait
      else if num = 31 then Some sys_sem_post
      else if num = 32 then Some (sys_forkprio ops)
      else if num = 33 then Some sys_setpriority
      else if num = 34 then Some sys_getpriority
      else if num = 35 then Some sys_waitx
      else if num = 36 then Some (sys_getpinfo (stack_pinfo fc))
      else None)"

text \<open>\<^verbatim>\<open>p->trapframe->a0 = ...\<close> once the handler has returned.\<close>

definition set_a0 :: "nat \<Rightarrow> sysresult \<times> 'f kstate \<Rightarrow> sysresult \<times> 'f kstate" where
  "set_a0 cur r =
     (case r of (Done v, s) \<Rightarrow> (Done v, upd_p cur (\<lambda>p. p\<lparr>tf := (tf p)\<lparr>a0 := v\<rparr>\<rparr>) s) | (x, s) \<Rightarrow> (x, s))"

definition syscall_num :: "proc \<Rightarrow> int" where
  "syscall_num p = sint (ucast (a7 (tf p)) :: u32)"

definition syscall :: "'f fsops \<Rightarrow> 'f filecalls \<Rightarrow> nat \<Rightarrow> 'f kstate \<Rightarrow> (sysresult \<times> 'f kstate) option" where
  "syscall ops fc cur s =
     (let num = syscall_num (proc s ! cur) in
      case (if num > 0 \<and> num < 37 then syscalls ops fc num else None) of
        Some h \<Rightarrow> map_option (set_a0 cur) (h cur s)
      | None \<Rightarrow> Some (set_a0 cur (Done (-1), s)))"

text \<open>The rest of a system call whose kernel thread was suspended at \<open>k\<close>; the scheduler has just
  switched to it, with the lock of the process held.\<close>

fun resume_handler :: "'f filecalls \<Rightarrow> cont \<Rightarrow> nat \<Rightarrow> 'f kstate \<Rightarrow> (sysresult \<times> 'f kstate) option" where
  "resume_handler fc (InWait p) cur s = ret_or_sleep (InWait p) (kwait_resume cur p s)"
| "resume_handler fc (InWaitx ar aw) cur s = ret_or_sleep (InWaitx ar aw) (waitx_resume cur ar aw s)"
| "resume_handler fc (InJoin tid) cur s = ret_or_sleep (InJoin tid) (kjoin_resume cur tid s)"
| "resume_handler fc (InSemWait k) cur s = ret_or_sleep (InSemWait k) (ksem_wait_resume cur k s)"
| "resume_handler fc (InMsgRecv buf) cur s = ret_or_sleep (InMsgRecv buf) (msgrecv_resume cur buf s)"
| "resume_handler fc (InPause n ticks0) cur s = do { s \<leftarrow> sleep_resume cur TicksLock s; pause_turn cur n ticks0 s }"
| "resume_handler fc (InFile k) cur s = file_resume fc k cur s"

definition resume_syscall :: "'f filecalls \<Rightarrow> cont \<Rightarrow> nat \<Rightarrow> 'f kstate \<Rightarrow> (sysresult \<times> 'f kstate) option" where
  "resume_syscall fc k cur s = map_option (set_a0 cur) (resume_handler fc k cur s)"

end
