(* ===== verification/Kern_Trap.thy ===== *)
theory Kern_Trap
  imports Kern_Syscall
begin

unbundle bit_operations_syntax

text \<open>
  Traps, \<^verbatim>\<open>kernel/trap.c\<close>, with \<open>forkret\<close> and \<open>procdump\<close> of \<^verbatim>\<open>kernel/proc.c\<close>. The
  supervisor registers of the hart that runs the trap are a record; the device drivers are a parameter.
  A trap that gives up the processor ends in \<open>Suspended\<close> with the place to go on from.
\<close>

definition SSTATUS_SPP :: u64 where "SSTATUS_SPP = push_bit 8 1"
definition SSTATUS_SPIE :: u64 where "SSTATUS_SPIE = push_bit 5 1"
definition SSTATUS_SIE :: u64 where "SSTATUS_SIE = push_bit 1 1"
definition SATP_SV39 :: u64 where "SATP_SV39 = push_bit 60 8"
definition MAKE_SATP :: "u64 \<Rightarrow> u64" where "MAKE_SATP pt = SATP_SV39 OR drop_bit 12 pt"

definition UART0_IRQ :: int where "UART0_IRQ = 10"
definition VIRTIO0_IRQ :: int where "VIRTIO0_IRQ = 1"

text \<open>\<open>claimed\<close> is what \<^verbatim>\<open>plic_claim\<close> returns, \<open>completed\<close> the arguments of \<^verbatim>\<open>plic_complete\<close>,
  \<open>mtime\<close> and \<open>stimecmp\<close> the timer.\<close>

record hart =
  sstatus :: u64
  sepc :: u64
  scause :: u64
  stval :: u64
  stvec :: u64
  satp :: u64
  hartid :: u64
  mtime :: u64
  stimecmp :: u64
  claimed :: int
  completed :: "int list"

record 'f devops =
  uartintr :: "'f kstate \<Rightarrow> 'f kstate option"
  virtio_disk_intr :: "'f kstate \<Rightarrow> 'f kstate option"

datatype kcont = InSyscall cont | InYield

datatype trapresult = ToUser u64 | Suspended kcont | Gone

subsection \<open>Interrupts\<close>

definition timerintr :: "nat option \<Rightarrow> hart \<Rightarrow> 'f kstate \<Rightarrow> (hart \<times> 'f kstate) option" where
  "timerintr cur h s = do {
     s \<leftarrow> clockintr cur (hartid h = 0) s;
     Some (h\<lparr>stimecmp := mtime h + 1000000\<rparr>, s)
   }"

definition devintr :: "'f devops \<Rightarrow> nat option \<Rightarrow> hart \<Rightarrow> 'f kstate \<Rightarrow> (int \<times> hart \<times> 'f kstate) option" where
  "devintr dev cur h s =
     (if scause h = 0x8000000000000009 then do {
        let irq = claimed h;
        s \<leftarrow> (if irq = UART0_IRQ then uartintr dev s else if irq = VIRTIO0_IRQ then virtio_disk_intr dev s else Some s);
        Some (1, if irq \<noteq> 0 then h\<lparr>completed := completed h @ [irq]\<rparr> else h, s)
      }
      else if scause h = 0x8000000000000005 then do { (h, s) \<leftarrow> timerintr cur h s; Some (2, h, s) }
      else Some (0, h, s))"

subsection \<open>Traps from user space\<close>

definition usertrapret :: "nat \<Rightarrow> hart \<Rightarrow> 'f kstate \<Rightarrow> hart \<times> 'f kstate" where
  "usertrapret cur h s =
     (let h = h\<lparr>sstatus := sstatus h AND NOT SSTATUS_SIE, stvec := TRAMPOLINE + (uservec (syms s) - trampoline (syms s))\<rparr>;
          s = upd_p cur (\<lambda>p. p\<lparr>tf := (tf p)\<lparr>kernel_satp := satp h, kernel_sp := kstack p + PGSIZE,
                                 kernel_trap := usertrap_addr (syms s), kernel_hartid := hartid h\<rparr>\<rparr>) s;
          h = h\<lparr>sstatus := (sstatus h AND NOT SSTATUS_SPP) OR SSTATUS_SPIE, sepc := epc (tf (proc s ! cur))\<rparr>
      in (h, s))"

text \<open>The end of \<open>usertrap\<close> after the possible yield.\<close>

definition trap_return :: "nat \<Rightarrow> hart \<Rightarrow> 'f kstate \<Rightarrow> (trapresult \<times> hart \<times> 'f kstate) option" where
  "trap_return cur h s = do {
     s \<leftarrow> signalcheck cur s;
     let (h, s) = usertrapret cur h s;
     Some (ToUser (MAKE_SATP (pagetable (proc s ! cur))), h, s)
   }"

text \<open>The part of \<open>usertrap\<close> after the trap has been dispatched.\<close>

definition trap_finish :: "'f fsops \<Rightarrow> nat \<Rightarrow> int \<Rightarrow> hart \<Rightarrow> 'f kstate \<Rightarrow> (trapresult \<times> hart \<times> 'f kstate) option" where
  "trap_finish ops cur which_dev h s = do {
     (k, s) \<leftarrow> is_killed cur s;
     if k \<noteq> 0 then do { s \<leftarrow> kexit ops cur (-1) s; Some (Gone, h, s) }
     else if which_dev = 2 then do { s \<leftarrow> yield_cpu cur s; Some (Suspended InYield, h, s) }
     else trap_return cur h s
   }"

definition after_syscall :: "'f fsops \<Rightarrow> nat \<Rightarrow> hart \<Rightarrow> sysresult \<times> 'f kstate \<Rightarrow> (trapresult \<times> hart \<times> 'f kstate) option" where
  "after_syscall ops cur h r =
     (case r of
        (Done v, s) \<Rightarrow> trap_finish ops cur 0 h s
      | (Sleeps k, s) \<Rightarrow> Some (Suspended (InSyscall k), h, s)
      | (Exited, s) \<Rightarrow> Some (Gone, h, s))"

definition usertrap :: "u64 \<Rightarrow> 'f fsops \<Rightarrow> 'f filecalls \<Rightarrow> 'f devops \<Rightarrow> nat \<Rightarrow> hart \<Rightarrow> 'f kstate \<Rightarrow>
    (trapresult \<times> hart \<times> 'f kstate) option" where
  "usertrap kernelvec ops fc dev cur h s =
     (if sstatus h AND SSTATUS_SPP \<noteq> 0 then None
      else do {
        let h = h\<lparr>stvec := kernelvec\<rparr>;
        let s = upd_p cur (\<lambda>p. p\<lparr>tf := (tf p)\<lparr>epc := sepc h\<rparr>\<rparr>) s;
        if scause h = 8 then do {
          (k, s) \<leftarrow> is_killed cur s;
          if k \<noteq> 0 then do { s \<leftarrow> kexit ops cur (-1) s; Some (Gone, h, s) }
          else do {
            let s = upd_p cur (\<lambda>p. p\<lparr>tf := (tf p)\<lparr>epc := epc (tf p) + 4\<rparr>\<rparr>) s;
            let h = h\<lparr>sstatus := sstatus h OR SSTATUS_SIE\<rparr>;
            r \<leftarrow> syscall ops fc cur s;
            after_syscall ops cur h r
          }
        }
        else do {
          (which_dev, h, s) \<leftarrow> devintr dev (Some cur) h s;
          if which_dev \<noteq> 0 then do {
            s \<leftarrow> (if which_dev = 2 then signaltick cur s else Some s);
            trap_finish ops cur which_dev h s
          }
          else do {
            let p = proc s ! cur;
            (pa, m) \<leftarrow> (if scause h = 15 \<or> scause h = 13 then vmfault (sz p) (pagetable p) (pagetable p) (stval h) (pm s)
                         else Some (0, pm s));
            let s = s\<lparr>pm := m\<rparr>;
            s \<leftarrow> (if pa \<noteq> 0 then Some s else setkilled cur s);
            trap_finish ops cur 0 h s
          }
        }
      })"

text \<open>The rest of \<open>usertrap\<close> on the hart that runs the process again.\<close>

fun resume_trap :: "'f fsops \<Rightarrow> 'f filecalls \<Rightarrow> kcont \<Rightarrow> nat \<Rightarrow> hart \<Rightarrow> 'f kstate \<Rightarrow> (trapresult \<times> hart \<times> 'f kstate) option" where
  "resume_trap ops fc (InSyscall k) cur h s = do { r \<leftarrow> resume_syscall fc k cur s; after_syscall ops cur h r }"
| "resume_trap ops fc InYield cur h s = do { s \<leftarrow> yield_resume cur s; trap_return cur h s }"

subsection \<open>Traps from the kernel\<close>

text \<open>The flag is true when the interrupted kernel thread has yielded; it goes on in
  \<open>kerneltrap_resume\<close>.\<close>

definition kerneltrap :: "'f devops \<Rightarrow> nat option \<Rightarrow> hart \<Rightarrow> 'f kstate \<Rightarrow> (bool \<times> hart \<times> 'f kstate) option" where
  "kerneltrap dev cur h s =
     (if sstatus h AND SSTATUS_SPP = 0 then None
      else if sstatus h AND SSTATUS_SIE \<noteq> 0 then None
      else do {
        (which_dev, h', s) \<leftarrow> devintr dev cur h s;
        if which_dev = 0 then None
        else (case cur of
                Some i \<Rightarrow>
                  if which_dev = 2 then do { s \<leftarrow> yield_cpu i s; Some (True, h', s) }
                  else Some (False, h'\<lparr>sepc := sepc h, sstatus := sstatus h\<rparr>, s)
              | None \<Rightarrow> Some (False, h'\<lparr>sepc := sepc h, sstatus := sstatus h\<rparr>, s))
      })"

definition kerneltrap_resume :: "nat \<Rightarrow> u64 \<Rightarrow> u64 \<Rightarrow> hart \<Rightarrow> 'f kstate \<Rightarrow> (hart \<times> 'f kstate) option" where
  "kerneltrap_resume cur sepc0 sstatus0 h s = do {
     s \<leftarrow> yield_resume cur s;
     Some (h\<lparr>sepc := sepc0, sstatus := sstatus0\<rparr>, s)
   }"

subsection \<open>A new process\<close>

text \<open>\<open>init_exec\<close> stands for \<^verbatim>\<open>fsinit\<close> followed by \<^verbatim>\<open>kexec("/init", ...)\<close>, which run only for the
  first process; its result is the return value of the latter.\<close>

definition forkret :: "(nat \<Rightarrow> 'f kstate \<Rightarrow> (u64 \<times> 'f kstate) option) \<Rightarrow> bool \<Rightarrow> nat \<Rightarrow> hart \<Rightarrow> 'f kstate \<Rightarrow>
    (trapresult \<times> hart \<times> 'f kstate) option" where
  "forkret init_exec first cur h s = do {
     s \<leftarrow> k_release (ProcLock cur) s;
     s \<leftarrow> (if first then do {
              (r, s) \<leftarrow> init_exec cur s;
              let s = upd_p cur (\<lambda>p. p\<lparr>tf := (tf p)\<lparr>a0 := r\<rparr>\<rparr>) s;
              if r = -1 then None else Some s
            }
            else Some s);
     let (h, s) = usertrapret cur h s;
     Some (ToUser (MAKE_SATP (pagetable (proc s ! cur))), h, s)
   }"

subsection \<open>The process listing\<close>

fun state_name :: "procstate \<Rightarrow> string" where
  "state_name UNUSED = ''unused''"
| "state_name USED = ''used''"
| "state_name SLEEPING = ''sleep ''"
| "state_name RUNNABLE = ''runble''"
| "state_name RUNNING = ''run   ''"
| "state_name ZOMBIE = ''zombie''"

text \<open>The arguments of the \<^verbatim>\<open>printf\<close> of each line.\<close>

definition procdump :: "'f kstate \<Rightarrow> (int \<times> string \<times> string) list" where
  "procdump s = map (\<lambda>p. (pid p, state_name (state p), pname p)) (filter (\<lambda>p. state p \<noteq> UNUSED) (proc s))"

end
