(* ===== verification/Kern_Ops.thy ===== *)
theory Kern_Ops
  imports Kern_Trap
begin

text \<open>
  What the operations of the process subsystem do when they are entered with the right locks: each
  lemma runs an operation to its result, so that the panics of \<open>acquire\<close>, \<open>release\<close> and
  \<open>sched\<close> are seen not to happen, and gives the state it leaves with every lock released.
\<close>

subsection \<open>The table as a whole\<close>

definition map_at :: "nat set \<Rightarrow> ('a \<Rightarrow> 'a) \<Rightarrow> 'a list \<Rightarrow> 'a list" where
  "map_at A f xs = map (\<lambda>j. if j \<in> A then f (xs ! j) else xs ! j) [0..<length xs]"

lemma length_map_at [simp]: "length (map_at A f xs) = length xs"
  by (simp add: map_at_def)

lemma map_at_nth [simp]: "j < length xs \<Longrightarrow> map_at A f xs ! j = (if j \<in> A then f (xs ! j) else xs ! j)"
  by (simp add: map_at_def)

lemma each_proc_eq:
  assumes "\<forall>i \<in> set is. ProcLock i \<notin> held s" "distinct is" "\<forall>i \<in> set is. i < length (proc s)"
  shows "each_proc f is s = Some (s\<lparr>proc := map_at (set is) f (proc s)\<rparr>)"
proof -
  obtain s' where s': "each_proc f is s = Some s'" "s' = s\<lparr>proc := proc s'\<rparr>" "length (proc s') = length (proc s)"
    "\<forall>j < length (proc s). proc s' ! j = (if j \<in> set is then f (proc s ! j) else proc s ! j)"
    using each_proc_spec [OF assms] by blast
  have "proc s' = map_at (set is) f (proc s)" by (rule nth_equalityI) (simp_all add: s'(3,4))
  with s'(1,2) show ?thesis by simp
qed

definition wake :: "nat option \<Rightarrow> channel \<Rightarrow> 'f kstate \<Rightarrow> 'f kstate" where
  "wake cur ch s = s\<lparr>proc := map_at {i. i < NPROC \<and> Some i \<noteq> cur} (wakeup_proc ch) (proc s)\<rparr>"

lemma wake_simps [simp]:
  "nextpid (wake c ch s) = nextpid s" "initproc (wake c ch s) = initproc s" "semtable (wake c ch s) = semtable s"
  "ticks (wake c ch s) = ticks s" "held (wake c ch s) = held s" "pm (wake c ch s) = pm s" "fs (wake c ch s) = fs s"
  "length (proc (wake c ch s)) = length (proc s)" "syms (wake c ch s) = syms s"
  by (simp_all add: wake_def)

lemma wake_nth:
  "j < length (proc s) \<Longrightarrow> proc (wake c ch s) ! j = (if j < NPROC \<and> Some j \<noteq> c then wakeup_proc ch (proc s ! j) else proc s ! j)"
  by (simp add: wake_def)

lemma wake_held [simp]: "wake c ch (s\<lparr>held := H\<rparr>) = (wake c ch s)\<lparr>held := H\<rparr>"
  by (simp add: wake_def)

lemma wakeup_eq:
  assumes "\<And>i. ProcLock i \<notin> held s" "length (proc s) = NPROC"
  shows "wakeup c ch s = Some (wake c ch s)"
proof -
  have "set (filter (\<lambda>i. Some i \<noteq> c) [0..<NPROC]) = {i. i < NPROC \<and> Some i \<noteq> c}" by auto
  then show ?thesis using assms by (simp add: wakeup_def wake_def each_proc_eq)
qed

lemma scan_procs_eq:
  assumes "\<And>i. ProcLock i \<notin> held s"
  shows "scan_procs test [0..<NPROC] s =
    (case find_proc test s of
       None \<Rightarrow> Some (None, s)
     | Some i \<Rightarrow> Some (Some i, s\<lparr>held := insert (ProcLock i) (held s)\<rparr>))"
  unfolding find_proc_def by (rule scan_procs_spec) (use assms in simp)

lemma held_empty [simp]: "held s = {} \<Longrightarrow> s\<lparr>held := {}\<rparr> = s"
  by (metis held_cancel)

lemma held_held [simp]: "s\<lparr>held := H, held := H'\<rparr> = s\<lparr>held := H'\<rparr>"
  by simp

subsection \<open>Sleeping\<close>

lemma sleep_eq:
  assumes "held s = {lk}" "lk \<noteq> ProcLock cur" "cur < length (proc s)"
  shows "sleep cur ch lk s = Some ((upd_p cur (\<lambda>p. p\<lparr>chan := Some ch, state := SLEEPING\<rparr>) s)\<lparr>held := {}\<rparr>)"
proof -
  have "insert (ProcLock cur) {lk} - {lk} = {ProcLock cur}" using assms(2) by auto
  then show ?thesis using assms by (simp add: sleep_def sched_def sched_checks_def)
qed

lemma sleep_resume_eq:
  assumes "held s = {ProcLock cur}"
  shows "sleep_resume cur lk s = Some ((upd_p cur (\<lambda>p. p\<lparr>chan := None\<rparr>) s)\<lparr>held := {lk}\<rparr>)"
  using assms by (simp add: sleep_resume_def)

lemma is_killed_eq: "ProcLock i \<notin> held s \<Longrightarrow> is_killed i s = Some (killed (proc s ! i), s)"
  by (simp add: is_killed_def Diff_insert_absorb)

lemma setkilled_eq: "held s = {} \<Longrightarrow> setkilled i s = Some (upd_p i (\<lambda>p. p\<lparr>killed := 1\<rparr>) s)"
  by (simp add: setkilled_def)

lemma yield_cpu_eq:
  "held s = {} \<Longrightarrow> i < length (proc s) \<Longrightarrow> yield_cpu i s = Some (upd_p i (\<lambda>p. p\<lparr>state := RUNNABLE\<rparr>) s)"
  by (simp add: yield_cpu_def sched_def sched_checks_def)

lemma scheduler_body_eq:
  "held s = {} \<Longrightarrow> scheduler_body i s =
    Some (if state (proc s ! i) = RUNNABLE
          then (True, (upd_p i (\<lambda>p. p\<lparr>state := RUNNING\<rparr>) s)\<lparr>held := {ProcLock i}\<rparr>) else (False, s))"
  by (simp add: scheduler_body_def)

subsection \<open>Kill and priorities\<close>

definition kill_proc :: "proc \<Rightarrow> proc" where
  "kill_proc p = p\<lparr>killed := 1, state := (if state p = SLEEPING then RUNNABLE else state p)\<rparr>"

lemma upd_p_cong: "f (proc s ! i) = g (proc s ! i) \<Longrightarrow> upd_p i f s = upd_p i g s"
  by (simp add: upd_p_def)

lemma kkill_eq:
  assumes "held s = {}" "length (proc s) = NPROC"
  shows "kkill pd s = Some (case find_proc (\<lambda>p. pid p = pd) s of None \<Rightarrow> (-1, s) | Some i \<Rightarrow> (0, upd_p i kill_proc s))"
proof (cases "find_proc (\<lambda>p. pid p = pd) s")
  case (Some i)
  then have "i < length (proc s)" using find_proc_Some assms(2) by fastforce
  with Some assms show ?thesis
    by (auto simp: kkill_def Let_def scan_procs_eq kill_proc_def intro!: upd_p_cong)
qed (use assms in \<open>simp add: kkill_def Let_def scan_procs_eq\<close>)

definition live :: "int \<Rightarrow> proc \<Rightarrow> bool" where
  "live pd p \<longleftrightarrow> pid p = pd \<and> state p \<noteq> UNUSED"

lemma setpriority_eq:
  assumes "held s = {}"
  shows "setpriority pd prio s =
    Some (if \<not> priority_valid prio then (-1, s)
          else case find_proc (live pd) s of None \<Rightarrow> (-1, s) | Some i \<Rightarrow> (0, upd_p i (\<lambda>p. p\<lparr>priority := prio\<rparr>) s))"
  using assms by (auto simp: setpriority_def Let_def scan_procs_eq live_def [abs_def] split: option.splits)

lemma getpriority_eq:
  assumes "held s = {}"
  shows "getpriority pd s = Some (case find_proc (live pd) s of None \<Rightarrow> (-1, s) | Some i \<Rightarrow> (priority (proc s ! i), s))"
  using assms by (auto simp: getpriority_def Let_def scan_procs_eq live_def [abs_def] split: option.splits)

subsection \<open>Semaphores\<close>

lemma ksem_init_eq:
  assumes "held s = {}" "length (proc s) = NPROC"
  shows "ksem_init cur semid v s =
    Some (if \<not> semid_ok semid \<or> v < 0 then (-1, s)
          else (0, wake (Some cur) (ChSem (nat semid)) (upd_sem (nat semid) (\<lambda>q. q\<lparr>used := 1, sem_value := v\<rparr>) s)))"
  using assms by (simp add: ksem_init_def Let_def wakeup_eq)

lemma ksem_post_eq:
  assumes "held s = {}" "length (proc s) = NPROC"
  shows "ksem_post cur semid s =
    Some (if \<not> semid_ok semid \<or> used (semtable s ! nat semid) = 0 then (-1, s)
          else (0, wake (Some cur) (ChSem (nat semid))
                     (upd_sem (nat semid) (\<lambda>q. q\<lparr>sem_value := to_int32 (sem_value q + 1)\<rparr>) s)))"
  using assms by (simp add: ksem_post_def Let_def wakeup_eq)

text \<open>What a turn of \<open>ksem_wait\<close> does, from a state in which only the semaphore's lock is held.\<close>

definition sem_wait_effect :: "nat \<Rightarrow> nat \<Rightarrow> 'f kstate \<Rightarrow> int outcome \<times> 'f kstate" where
  "sem_wait_effect cur k s =
     (if used (semtable s ! k) = 0 then (Return (-1), s)
      else if sem_value (semtable s ! k) = 0
        then (Blocked, upd_p cur (\<lambda>p. p\<lparr>chan := Some (ChSem k), state := SLEEPING\<rparr>) s)
      else (Return 0, upd_sem k (\<lambda>q. q\<lparr>sem_value := to_int32 (sem_value q - 1)\<rparr>) s))"

lemma sem_check_turn_eq:
  assumes "held s = {}" "cur < length (proc s)"
  shows "sem_check_turn cur k (s\<lparr>held := {SemLock k}\<rparr>) = Some (sem_wait_effect cur k s)"
  using assms by (simp add: sem_check_turn_def sem_wait_turn_def sleep_eq sem_wait_effect_def)

lemma ksem_wait_eq:
  assumes "held s = {}" "cur < length (proc s)"
  shows "ksem_wait cur semid s = Some (if semid_ok semid then sem_wait_effect cur (nat semid) s else (Return (-1), s))"
  using assms by (simp add: ksem_wait_def sem_check_turn_eq)

subsection \<open>Signals\<close>

lemma sigalarm_eq:
  assumes "held s = {}"
  shows "sigalarm cur n handler s =
    Some (if n < 0 \<or> handler \<noteq> 0 \<and> handler \<ge> sz (proc s ! cur) then (-1, s)
          else (0, upd_p cur (sigalarm_fields n handler) s))"
  using assms by (auto simp: sigalarm_def)

lemma sigreturn_eq:
  assumes "held s = {}"
  shows "sigreturn cur s =
    Some (if signal_inflight (proc s ! cur) = 0 then (-1, s)
          else (sint (ucast (a0 (signal_tf (proc s ! cur))) :: u32),
                upd_p cur (\<lambda>p. p\<lparr>tf := signal_tf p, signal_inflight := 0, active_signal := 0, signal_tf := zero_trapframe\<rparr>) s))"
  using assms by (simp add: sigreturn_def Let_def)

definition signal_proc :: "int \<Rightarrow> proc \<Rightarrow> proc" where
  "signal_proc signum p = p\<lparr>pending_signal := signum, state := (if state p = SLEEPING then RUNNABLE else state p)\<rparr>"

lemma sigsend_eq:
  assumes "held s = {}" "length (proc s) = NPROC"
  shows "sigsend pd signum s =
    Some (if signum \<le> 0 then (-1, s)
          else case find_proc (live pd) s of
            None \<Rightarrow> (-1, s)
          | Some i \<Rightarrow> if signal_registered (proc s ! i) = 0 \<or> pending_signal (proc s ! i) \<noteq> 0 then (-1, s)
                      else (0, upd_p i (signal_proc signum) s))"
proof (cases "find_proc (live pd) s")
  case (Some i)
  then have "i < length (proc s)" using find_proc_Some assms(2) by fastforce
  with Some assms show ?thesis
    by (auto simp: sigsend_def Let_def scan_procs_eq live_def [abs_def] signal_proc_def intro!: upd_p_cong)
qed (use assms in \<open>simp add: sigsend_def Let_def scan_procs_eq live_def [abs_def]\<close>)

lemma signaltick_eq: "held s = {} \<Longrightarrow> signaltick i s = Some (upd_p i signaltick_fields s)"
  by (simp add: signaltick_def)

lemma signalcheck_eq: "held s = {} \<Longrightarrow> signalcheck i s = Some (upd_p i signalcheck_fields s)"
  by (simp add: signalcheck_def)

subsection \<open>Mailboxes\<close>

lemma msgsend_eq:
  assumes "held s = {}" "length (proc s) = NPROC"
  shows "msgsend cur pd msg s =
    (case find_proc (live pd) s of
       None \<Rightarrow> Some (-1, s)
     | Some j \<Rightarrow>
         if msg_flag (proc s ! j) \<noteq> 0 then Some (-1, s)
         else do {
           (w, ok) \<leftarrow> copyinstr (pagetable (proc s ! cur)) msg 64 (pm s);
           Some (if ok then (0, wake (Some cur) (ChMsg j)
                                  (upd_p j (\<lambda>p. p\<lparr>msg_buf := overwrite w (msg_buf p), msg_flag := 1\<rparr>) s))
                 else (-1, upd_p j (\<lambda>p. p\<lparr>msg_buf := overwrite w (msg_buf p)\<rparr>) s))
         })"
proof -
  have l: "(\<lambda>p. state p \<noteq> UNUSED \<and> pid p = pd) = live pd" by (auto simp: live_def)
  have d: "insert (ProcLock j) {WaitLock} - {ProcLock j} = {WaitLock}" for j by auto
  show ?thesis
  proof (cases "find_proc (live pd) s")
    case None
    with assms show ?thesis by (simp add: msgsend_def scan_procs_eq l find_proc_def)
  next
    case (Some j)
    then have scan: "scan_procs (live pd) [0..<NPROC] (s\<lparr>held := {WaitLock}\<rparr>) = Some (Some j, s\<lparr>held := {ProcLock j, WaitLock}\<rparr>)"
      by (simp add: scan_procs_eq find_proc_def)
    show ?thesis
    proof (cases "copyinstr (pagetable (proc s ! cur)) msg 64 (pm s)")
      case None
      with Some scan assms d show ?thesis by (simp add: msgsend_def l)
    next
      case (Some r)
      obtain w ok where r: "r = (w, ok)" by (cases r)
      show ?thesis using \<open>find_proc (live pd) s = Some j\<close> scan Some assms d
        by (cases ok) (simp_all add: msgsend_def l r wakeup_eq Let_def)
    qed
  qed
qed

definition recv_effect :: "nat \<Rightarrow> u64 \<Rightarrow> 'f kstate \<Rightarrow> (int outcome \<times> 'f kstate) option" where
  "recv_effect cur buf s =
     (let p = proc s ! cur in
      if msg_flag p = 0 then Some (Blocked, upd_p cur (\<lambda>p. p\<lparr>chan := Some (ChMsg cur), state := SLEEPING\<rparr>) s)
      else do {
        (e, m) \<leftarrow> copyout (sz p) (pagetable p) (pagetable p) buf (msg_buf p) (pm s);
        Some (if e < 0 then (Return (-1), s\<lparr>pm := m\<rparr>)
              else (Return 0, upd_p cur (\<lambda>p. p\<lparr>msg_flag := 0, msg_buf := empty_msg\<rparr>) (s\<lparr>pm := m\<rparr>)))
      })"

lemma msgrecv_turn_eq:
  assumes "held s = {}" "cur < length (proc s)"
  shows "msgrecv_turn cur buf (s\<lparr>held := {ProcLock cur, WaitLock}\<rparr>) = recv_effect cur buf s"
proof -
  have d: "{ProcLock cur, WaitLock} - {ProcLock cur} = {WaitLock}" by auto
  show ?thesis
  proof (cases "msg_flag (proc s ! cur) = 0")
    case True
    with assms d show ?thesis by (simp add: msgrecv_turn_def recv_effect_def sleep_eq Let_def)
  next
    case False
    show ?thesis
    proof (cases "copyout (sz (proc s ! cur)) (pagetable (proc s ! cur)) (pagetable (proc s ! cur)) buf (msg_buf (proc s ! cur)) (pm s)")
      case None
      with False assms d show ?thesis by (simp add: msgrecv_turn_def recv_effect_def Let_def)
    next
      case (Some em)
      with False assms d show ?thesis by (cases em) (auto simp: msgrecv_turn_def recv_effect_def Let_def)
    qed
  qed
qed

lemma msgrecv_eq:
  assumes "held s = {}" "cur < length (proc s)"
  shows "msgrecv cur buf s = recv_effect cur buf s"
  using assms by (simp add: msgrecv_def msgrecv_turn_eq)

subsection \<open>Time\<close>

lemma update_time_eq:
  assumes "\<And>i. ProcLock i \<notin> held s" "length (proc s) = NPROC"
  shows "update_time s = Some (s\<lparr>proc := map update_time_proc (proc s)\<rparr>)"
proof -
  have "map_at (set [0..<NPROC]) update_time_proc (proc s) = map update_time_proc (proc s)"
    by (rule nth_equalityI) (simp_all add: assms(2))
  then show ?thesis using assms by (simp add: update_time_def each_proc_eq)
qed

definition tick :: "nat option \<Rightarrow> 'f kstate \<Rightarrow> 'f kstate" where
  "tick cur s = wake cur ChTicks (s\<lparr>ticks := ticks s + 1, proc := map update_time_proc (proc s)\<rparr>)"

lemma clockintr_eq:
  assumes "held s = {}" "length (proc s) = NPROC"
  shows "clockintr cur hart0 s = Some (if hart0 then tick cur s else s)"
  using assms by (simp add: clockintr_def Let_def update_time_eq wakeup_eq tick_def wake_def)

lemma getpinfo_loop_state:
  "held s = {} \<Longrightarrow> getpinfo_loop is info s = Some (info', s') \<Longrightarrow> s' = s"
  by (induction "is" arbitrary: info) (auto simp: Let_def)

lemma getpinfo_loop_total: "held s = {} \<Longrightarrow> \<exists>info'. getpinfo_loop is info s = Some (info', s)"
  by (induction "is" arbitrary: info) (auto simp: Let_def)

subsection \<open>Exit\<close>

lemma wake_idem [simp]: "wake c ch (wake c ch s) = wake c ch s"
proof -
  have "wakeup_proc ch (wakeup_proc ch p) = wakeup_proc ch p" for p by (simp add: wakeup_proc_def)
  then show ?thesis unfolding wake_def by (auto intro!: arg_cong [where f = "\<lambda>x. s\<lparr>proc := x\<rparr>"] nth_equalityI)
qed

definition adopt :: "nat \<Rightarrow> nat \<Rightarrow> proc \<Rightarrow> proc" where
  "adopt cur ini p = (if parent p = Some cur then p\<lparr>parent := Some ini\<rparr> else p)"

definition children :: "nat \<Rightarrow> 'f kstate \<Rightarrow> nat set" where
  "children cur s = {i. i < length (proc s) \<and> parent (proc s ! i) = Some cur}"

definition adopt_all :: "nat \<Rightarrow> nat \<Rightarrow> nat set \<Rightarrow> 'f kstate \<Rightarrow> 'f kstate" where
  "adopt_all cur ini A s =
     (if A \<inter> children cur s = {} then s
      else wake (Some cur) (ChProc ini) (s\<lparr>proc := map_at A (adopt cur ini) (proc s)\<rparr>))"

lemma proc_eqI:
  assumes "s = r\<lparr>proc := proc s\<rparr>" "s' = r\<lparr>proc := proc s'\<rparr>" "length (proc s) = length (proc s')"
    "\<And>j. j < length (proc s) \<Longrightarrow> proc s ! j = proc s' ! j"
  shows "s = s'"
proof -
  have "proc s = proc s'" using assms(3,4) by (rule nth_equalityI)
  with assms(1,2) show ?thesis by metis
qed

lemma adopt_all_nth:
  assumes "j < length (proc s)"
  shows "proc (adopt_all cur ini A s) ! j =
    (let p = (if j \<in> A then adopt cur ini (proc s ! j) else proc s ! j) in
     if A \<inter> children cur s \<noteq> {} \<and> j < NPROC \<and> j \<noteq> cur then wakeup_proc (ChProc ini) p else p)"
proof -
  have "j \<in> A \<Longrightarrow> A \<inter> children cur s = {} \<Longrightarrow> adopt cur ini (proc s ! j) = proc s ! j"
    using assms by (auto simp: children_def adopt_def)
  then show ?thesis using assms by (auto simp: adopt_all_def wake_nth Let_def)
qed

lemma wakeup_adopt: "adopt c ini (wakeup_proc ch p) = wakeup_proc ch (adopt c ini p)"
  "wakeup_proc ch (wakeup_proc ch p) = wakeup_proc ch p"
  "wakeup_proc ch (p\<lparr>parent := x\<rparr>) = (wakeup_proc ch p)\<lparr>parent := x\<rparr>"
  by (simp_all add: wakeup_proc_def adopt_def)

lemma adopt_all_step:
  assumes "i < length (proc s)" "parent (proc s ! i) = Some cur" "ini \<noteq> cur"
  shows "adopt_all cur ini A (wake (Some cur) (ChProc ini) (upd_p i (\<lambda>p. p\<lparr>parent := Some ini\<rparr>) s)) = adopt_all cur ini (insert i A) s"
    (is "adopt_all cur ini A ?s = _")
proof (rule proc_eqI)
  have ne: "insert i A \<inter> children cur s \<noteq> {}" using assms by (auto simp: children_def)
  show "adopt_all cur ini A ?s = s\<lparr>proc := proc (adopt_all cur ini A ?s)\<rparr>"
    by (simp add: adopt_all_def wake_def upd_p_def)
  show "adopt_all cur ini (insert i A) s = s\<lparr>proc := proc (adopt_all cur ini (insert i A) s)\<rparr>"
    by (simp add: adopt_all_def wake_def)
  show "length (proc (adopt_all cur ini A ?s)) = length (proc (adopt_all cur ini (insert i A) s))"
    by (simp add: adopt_all_def)
  fix j assume "j < length (proc (adopt_all cur ini A ?s))"
  then have j: "j < length (proc s)" by (simp add: adopt_all_def split: if_splits)
  have ad: "adopt cur ini (proc s ! i) = (proc s ! i)\<lparr>parent := Some ini\<rparr>"
    "adopt cur ini ((proc s ! i)\<lparr>parent := Some ini\<rparr>) = (proc s ! i)\<lparr>parent := Some ini\<rparr>"
    using assms by (simp_all add: adopt_def)
  show "proc (adopt_all cur ini A ?s) ! j = proc (adopt_all cur ini (insert i A) s) ! j"
  proof (cases "j = i")
    case True
    then show ?thesis using ne j by (simp add: adopt_all_nth wake_nth Let_def ad wakeup_adopt(1,2))
  next
    case False
    then show ?thesis using ne j by (simp add: adopt_all_nth wake_nth Let_def wakeup_adopt(1,2))
  qed
qed

lemma reparent_loop_eq:
  assumes "\<And>i. ProcLock i \<notin> held s" "length (proc s) = NPROC" "initproc s = Some ini" "ini \<noteq> cur"
    "\<forall>i \<in> set is. i < NPROC"
  shows "reparent_loop cur is s = Some (adopt_all cur ini (set is) s)"
  using assms
proof (induction "is" arbitrary: s)
  case Nil
  then show ?case by (simp add: adopt_all_def)
next
  case (Cons i "is")
  let ?s = "wake (Some cur) (ChProc ini) (upd_p i (\<lambda>p. p\<lparr>parent := Some ini\<rparr>) s)"
  show ?case
  proof (cases "parent (proc s ! i) = Some cur")
    case True
    have "reparent_loop cur (i # is) s = reparent_loop cur is ?s" using True Cons.prems by (simp add: wakeup_eq)
    also have "\<dots> = Some (adopt_all cur ini (set is) ?s)" by (rule Cons.IH) (use Cons.prems in simp_all)
    finally show ?thesis using True Cons.prems by (simp add: adopt_all_step)
  next
    case False
    have "adopt_all cur ini (insert i (set is)) s = adopt_all cur ini (set is) s"
    proof -
      have "insert i (set is) \<inter> children cur s = set is \<inter> children cur s" using False by (auto simp: children_def)
      moreover have "map_at (insert i (set is)) (adopt cur ini) (proc s) = map_at (set is) (adopt cur ini) (proc s)"
        using False by (intro nth_equalityI) (auto simp: adopt_def)
      ultimately show ?thesis by (simp add: adopt_all_def)
    qed
    then show ?thesis using False Cons by simp
  qed
qed

lemma reparent_eq:
  assumes "\<And>i. ProcLock i \<notin> held s" "length (proc s) = NPROC" "initproc s = Some ini" "ini \<noteq> cur"
  shows "reparent cur s = Some (adopt_all cur ini {0..<NPROC} s)"
  using reparent_loop_eq [OF assms, of "[0..<NPROC]"] by (simp add: reparent_def)

end
