(* ===== verification/Fs_State.thy ===== *)
theory Fs_State
  imports Kern_Ops
begin

text \<open>
  The state of the file system and of the sleep locks: \<^verbatim>\<open>kernel/buf.h\<close>, \<^verbatim>\<open>kernel/file.h\<close>,
  \<^verbatim>\<open>kernel/fs.h\<close>, \<^verbatim>\<open>kernel/sleeplock.c\<close> and the globals of \<^verbatim>\<open>kernel/bio.c\<close>,
  \<^verbatim>\<open>kernel/log.c\<close>, \<^verbatim>\<open>kernel/fs.c\<close>, \<^verbatim>\<open>kernel/file.c\<close> and \<^verbatim>\<open>kernel/pipe.c\<close>. It is the
  parameter type of the kernel state, so the operations run on the process table, the locks and the memory
  of the rest of the model. A pointer into a table is an index; a pipe is addressed by the page it lives in.

  \<open>cons\<close> and \<open>tx_busy\<close> are the globals of \<^verbatim>\<open>kernel/console.c\<close> and \<^verbatim>\<open>kernel/uart.c\<close>, and \<open>tx_out\<close> lists the
  bytes the serial port has been given. The disk is a map from block numbers to blocks; \<open>written\<close> lists the block writes the driver has done,
  the latest first, so that a crash between two writes can be stated.
\<close>

definition BSIZE :: nat where "BSIZE = 1024"
definition NBUF :: nat where "NBUF = 30"
definition MAXOPBLOCKS :: nat where "MAXOPBLOCKS = 10"
definition LOGBLOCKS :: nat where "LOGBLOCKS = 30"
definition PIPESIZE :: nat where "PIPESIZE = 512"

type_synonym block = "byte list"

record sleeplock =
  sl_locked :: u32
  sl_pid :: int

record buf =
  bvalid :: int
  bdev :: u32
  blockno :: u32
  block :: sleeplock
  refcnt :: u32
  bprev :: nat
  bnext :: nat
  bdata :: block

record logheader =
  lh_n :: int
  lh_block :: "u32 list"

record log =
  log_start :: u32
  outstanding :: int
  committing :: int
  log_dev :: u32
  lh :: logheader

record pipe =
  pdata :: "byte list"
  nread :: u32
  nwrite :: u32
  readopen :: int
  writeopen :: int

text \<open>\<^verbatim>\<open>struct inode\<close>; the C type \<^verbatim>\<open>short\<close> is an \<open>int\<close> in its range.\<close>

record inode =
  idev :: u32
  inum :: u32
  iref :: int
  ilk :: sleeplock
  ivalid :: int
  itype :: int
  imajor :: int
  iminor :: int
  inlink :: int
  isize :: u32
  addrs :: "u32 list"

datatype ftype = FD_NONE | FD_PIPE | FD_INODE | FD_DEVICE

record kfile =
  fd_type :: ftype
  fref :: int
  readable :: int
  fwritable :: int
  fpipe :: u64
  fip :: nat
  foff :: u32
  fmajor :: int

record superblock =
  sb_magic :: u32
  sb_size :: u32
  sb_nblocks :: u32
  sb_ninodes :: u32
  sb_nlog :: u32
  sb_logstart :: u32
  sb_inodestart :: u32
  sb_bmapstart :: u32

text \<open>The input buffer of the console and its read, write and edit indices, \<^verbatim>\<open>cons\<close> of \<^verbatim>\<open>kernel/console.c\<close>.\<close>

record console =
  cbuf :: "byte list"
  c_r :: u32
  c_w :: u32
  c_e :: u32

record fsys =
  bufs :: "buf list"
  flog :: log
  sb :: superblock
  itable :: "inode list"
  ftable :: "kfile list"
  pipes :: "u64 \<Rightarrow> pipe"
  disk :: "u32 \<Rightarrow> block"
  written :: "(u32 \<times> block) list"
  cons :: console
  tx_busy :: int
  tx_out :: "byte list"

type_synonym fkstate = "fsys kstate"

subsection \<open>Locks, channels and access\<close>

text \<open>The locks and sleep channels of this part, by number; each sleep lock has a spinlock of its own.\<close>

datatype slref = BufSl nat | InodeSl nat

fun sl_code :: "slref \<Rightarrow> nat" where
  "sl_code (BufSl i) = 4 * i"
| "sl_code (InodeSl i) = 4 * i + 1"

definition sl_lock :: "slref \<Rightarrow> lockid" where "sl_lock r = OtherLock (sl_code r)"
definition sl_chan :: "slref \<Rightarrow> channel" where "sl_chan r = ChOther (sl_code r)"
definition BCacheLock :: lockid where "BCacheLock = OtherLock 2"
definition LogLock :: lockid where "LogLock = OtherLock 6"
definition ChLog :: channel where "ChLog = ChOther 2"

definition upd_fs :: "(fsys \<Rightarrow> fsys) \<Rightarrow> fkstate \<Rightarrow> fkstate" where
  "upd_fs f s = s\<lparr>fs := f (fs s)\<rparr>"

definition upd_buf :: "nat \<Rightarrow> (buf \<Rightarrow> buf) \<Rightarrow> fkstate \<Rightarrow> fkstate" where
  "upd_buf b f = upd_fs (\<lambda>v. v\<lparr>bufs := (bufs v)[b := f (bufs v ! b)]\<rparr>)"

definition upd_log :: "(log \<Rightarrow> log) \<Rightarrow> fkstate \<Rightarrow> fkstate" where
  "upd_log f = upd_fs (\<lambda>v. v\<lparr>flog := f (flog v)\<rparr>)"

definition upd_inode :: "nat \<Rightarrow> (inode \<Rightarrow> inode) \<Rightarrow> fkstate \<Rightarrow> fkstate" where
  "upd_inode i f = upd_fs (\<lambda>v. v\<lparr>itable := (itable v)[i := f (itable v ! i)]\<rparr>)"

definition upd_pipe :: "u64 \<Rightarrow> (pipe \<Rightarrow> pipe) \<Rightarrow> fkstate \<Rightarrow> fkstate" where
  "upd_pipe a f = upd_fs (\<lambda>v. v\<lparr>pipes := (pipes v)(a := f (pipes v a))\<rparr>)"

fun get_sl :: "slref \<Rightarrow> fkstate \<Rightarrow> sleeplock" where
  "get_sl (BufSl b) s = block (bufs (fs s) ! b)"
| "get_sl (InodeSl i) s = ilk (itable (fs s) ! i)"

fun upd_sl :: "slref \<Rightarrow> (sleeplock \<Rightarrow> sleeplock) \<Rightarrow> fkstate \<Rightarrow> fkstate" where
  "upd_sl (BufSl b) f s = upd_buf b (\<lambda>x. x\<lparr>block := f (block x)\<rparr>) s"
| "upd_sl (InodeSl i) f s = upd_inode i (\<lambda>x. x\<lparr>ilk := f (ilk x)\<rparr>) s"

abbreviation buf_of :: "fkstate \<Rightarrow> nat \<Rightarrow> buf" where
  "buf_of s b \<equiv> bufs (fs s) ! b"

subsection \<open>Sleep locks\<close>

definition initsleeplock :: sleeplock where
  "initsleeplock = \<lparr>sl_locked = 0, sl_pid = 0\<rparr>"

text \<open>One turn of the loop of \<open>acquiresleep\<close>, with the inner spinlock held.\<close>

definition acquiresleep_turn :: "nat \<Rightarrow> slref \<Rightarrow> fkstate \<Rightarrow> (unit outcome \<times> fkstate) option" where
  "acquiresleep_turn cur r s =
     (if sl_locked (get_sl r s) \<noteq> 0 then do {
        s \<leftarrow> sleep cur (sl_chan r) (sl_lock r) s;
        Some (Blocked, s)
      }
      else do {
        let s = upd_sl r (\<lambda>l. l\<lparr>sl_locked := 1, sl_pid := pid (proc s ! cur)\<rparr>) s;
        s \<leftarrow> k_release (sl_lock r) s;
        Some (Return (), s)
      })"

definition acquiresleep :: "nat \<Rightarrow> slref \<Rightarrow> fkstate \<Rightarrow> (unit outcome \<times> fkstate) option" where
  "acquiresleep cur r s = Option.bind (k_acquire (sl_lock r) s) (acquiresleep_turn cur r)"

definition acquiresleep_resume :: "nat \<Rightarrow> slref \<Rightarrow> fkstate \<Rightarrow> (unit outcome \<times> fkstate) option" where
  "acquiresleep_resume cur r s = Option.bind (sleep_resume cur (sl_lock r) s) (acquiresleep_turn cur r)"

definition releasesleep :: "nat \<Rightarrow> slref \<Rightarrow> fkstate \<Rightarrow> fkstate option" where
  "releasesleep cur r s = do {
     s \<leftarrow> k_acquire (sl_lock r) s;
     let s = upd_sl r (\<lambda>l. l\<lparr>sl_locked := 0, sl_pid := 0\<rparr>) s;
     s \<leftarrow> wakeup (Some cur) (sl_chan r) s;
     k_release (sl_lock r) s
   }"

definition holdingsleep :: "nat \<Rightarrow> slref \<Rightarrow> fkstate \<Rightarrow> (bool \<times> fkstate) option" where
  "holdingsleep cur r s = do {
     s \<leftarrow> k_acquire (sl_lock r) s;
     let h = (sl_locked (get_sl r s) \<noteq> 0 \<and> sl_pid (get_sl r s) = pid (proc s ! cur));
     s \<leftarrow> k_release (sl_lock r) s;
     Some (h, s)
   }"

text \<open>A call inside a longer operation that goes on only when the lock is free: \<^const>\<open>None\<close> when the
  process would have to sleep first.\<close>

definition take_sleeplock :: "nat \<Rightarrow> slref \<Rightarrow> fkstate \<Rightarrow> fkstate option" where
  "take_sleeplock cur r s = do {
     (o1, s) \<leftarrow> acquiresleep cur r s;
     (case o1 of Return _ \<Rightarrow> Some s | Blocked \<Rightarrow> None)
   }"

subsection \<open>Field access\<close>

lemma upd_fs_simps [simp]:
  "fs (upd_fs f s) = f (fs s)" "proc (upd_fs f s) = proc s" "held (upd_fs f s) = held s" "pm (upd_fs f s) = pm s"
  "nextpid (upd_fs f s) = nextpid s" "initproc (upd_fs f s) = initproc s" "semtable (upd_fs f s) = semtable s"
  "ticks (upd_fs f s) = ticks s" "syms (upd_fs f s) = syms s"
  by (simp_all add: upd_fs_def)

lemma upd_fs_upd_fs [simp]: "upd_fs f (upd_fs g s) = upd_fs (\<lambda>v. f (g v)) s"
  by (simp add: upd_fs_def)

lemma upd_fs_held [simp]: "upd_fs f (s\<lparr>held := H\<rparr>) = (upd_fs f s)\<lparr>held := H\<rparr>"
  by (simp add: upd_fs_def)

lemma upd_fs_proc: "upd_fs f (s\<lparr>proc := P\<rparr>) = (upd_fs f s)\<lparr>proc := P\<rparr>"
  by (simp add: upd_fs_def)

lemma upd_fs_id: "f (fs s) = fs s \<Longrightarrow> upd_fs f s = s"
  by (simp add: upd_fs_def)

lemma upd_buf_simps [simp]:
  "proc (upd_buf b f s) = proc s" "held (upd_buf b f s) = held s" "pm (upd_buf b f s) = pm s"
  "bufs (fs (upd_buf b f s)) = (bufs (fs s))[b := f (buf_of s b)]" "flog (fs (upd_buf b f s)) = flog (fs s)"
  "disk (fs (upd_buf b f s)) = disk (fs s)" "written (fs (upd_buf b f s)) = written (fs s)"
  "pipes (fs (upd_buf b f s)) = pipes (fs s)" "itable (fs (upd_buf b f s)) = itable (fs s)" "sb (fs (upd_buf b f s)) = sb (fs s)"
  by (simp_all add: upd_buf_def)

lemma upd_buf_held [simp]: "upd_buf b f (s\<lparr>held := H\<rparr>) = (upd_buf b f s)\<lparr>held := H\<rparr>"
  by (simp add: upd_buf_def)

lemma wake_upd_fs [simp]: "wake c ch (upd_fs f s) = upd_fs f (wake c ch s)"
  by (simp add: wake_def upd_fs_def)

lemma wake_upd_buf [simp]: "wake c ch (upd_buf b f s) = upd_buf b f (wake c ch s)"
  by (simp add: upd_buf_def)

lemma sl_lock_neq [simp]: "sl_lock r \<noteq> ProcLock i" "ProcLock i \<noteq> sl_lock r" "sl_lock r \<noteq> WaitLock"
  "BCacheLock \<noteq> ProcLock i" "LogLock \<noteq> ProcLock i" "ProcLock i \<noteq> BCacheLock" "ProcLock i \<noteq> LogLock"
  "BCacheLock \<noteq> LogLock" "LogLock \<noteq> BCacheLock"
  by (simp_all add: sl_lock_def BCacheLock_def LogLock_def)

end
