(* ===== verification/Fs_Bio.thy ===== *)
theory Fs_Bio
  imports Fs_State "HOL-Library.Monad_Syntax"
begin

text \<open>
  The buffer cache, \<^verbatim>\<open>kernel/bio.c\<close>: thirty buffers on a doubly linked list, in the order of their last
  use. The list is the code's own, through the \<open>prev\<close> and \<open>next\<close> fields; index \<open>NBUF\<close> is
  its head. The disk driver is its contract: a call of \<^verbatim>\<open>virtio_disk_rw\<close> reads or writes the whole block
  and returns when the device is done. A panic is \<^const>\<open>None\<close>, and so is a call that would have to wait
  for a buffer another process has locked.

  The lemmas relate the array of buffers to what its users see: the contents of a block (\<open>bview\<close>), the
  references held on it (\<open>refs\<close>) and its lock (\<open>owner\<close>); which buffer holds the block, and which
  unused buffers are recycled, disappear.
\<close>

subsection \<open>The list\<close>

definition link_front :: "nat \<Rightarrow> buf list \<Rightarrow> buf list" where
  "link_front b bs =
     (let bs = bs[b := (bs ! b)\<lparr>bnext := bnext (bs ! NBUF), bprev := NBUF\<rparr>];
          n = bnext (bs ! NBUF);
          bs = bs[n := (bs ! n)\<lparr>bprev := b\<rparr>] in
      bs[NBUF := (bs ! NBUF)\<lparr>bnext := b\<rparr>])"

definition unlink :: "nat \<Rightarrow> buf list \<Rightarrow> buf list" where
  "unlink b bs =
     (let n = bnext (bs ! b);
          bs = bs[n := (bs ! n)\<lparr>bprev := bprev (bs ! b)\<rparr>];
          p = bprev (bs ! b) in
      bs[p := (bs ! p)\<lparr>bnext := bnext (bs ! b)\<rparr>])"

definition zero_buf :: buf where
  "zero_buf = \<lparr>bvalid = 0, bdev = 0, blockno = 0, block = initsleeplock, refcnt = 0, bprev = 0, bnext = 0, bdata = replicate BSIZE 0\<rparr>"

definition binit :: "buf list \<Rightarrow> buf list" where
  "binit bs =
     (let bs = bs[NBUF := (bs ! NBUF)\<lparr>bprev := NBUF, bnext := NBUF\<rparr>] in
      fold (\<lambda>b bs. link_front b (bs[b := (bs ! b)\<lparr>block := initsleeplock\<rparr>])) [0..<NBUF] bs)"

text \<open>The loops of \<open>bget\<close>: follow a link until the head, or to the first buffer that satisfies the test.\<close>

partial_function (option) bscan :: "(buf \<Rightarrow> nat) \<Rightarrow> (buf \<Rightarrow> bool) \<Rightarrow> nat \<Rightarrow> buf list \<Rightarrow> nat option option" where
  "bscan step test b bs =
     (if b = NBUF then Some None
      else if test (bs ! b) then Some (Some b)
      else bscan step test (step (bs ! b)) bs)"

subsection \<open>Operations\<close>

definition bget :: "nat \<Rightarrow> u32 \<Rightarrow> u32 \<Rightarrow> fkstate \<Rightarrow> (nat \<times> fkstate) option" where
  "bget cur dev bn s = do {
     s \<leftarrow> k_acquire BCacheLock s;
     hit \<leftarrow> bscan bnext (\<lambda>b. bdev b = dev \<and> blockno b = bn) (bnext (buf_of s NBUF)) (bufs (fs s));
     (case hit of
        Some b \<Rightarrow> do {
          s \<leftarrow> k_release BCacheLock (upd_buf b (\<lambda>x. x\<lparr>refcnt := refcnt x + 1\<rparr>) s);
          s \<leftarrow> take_sleeplock cur (BufSl b) s;
          Some (b, s)
        }
      | None \<Rightarrow> do {
          lru \<leftarrow> bscan bprev (\<lambda>b. refcnt b = 0) (bprev (buf_of s NBUF)) (bufs (fs s));
          (case lru of
             Some b \<Rightarrow> do {
               s \<leftarrow> k_release BCacheLock (upd_buf b (\<lambda>x. x\<lparr>bdev := dev, blockno := bn, bvalid := 0, refcnt := 1\<rparr>) s);
               s \<leftarrow> take_sleeplock cur (BufSl b) s;
               Some (b, s)
             }
           | None \<Rightarrow> None)
        })
   }"

definition disk_read :: "nat \<Rightarrow> fkstate \<Rightarrow> fkstate" where
  "disk_read b s = upd_buf b (\<lambda>x. x\<lparr>bdata := disk (fs s) (blockno x)\<rparr>) s"

definition disk_write :: "nat \<Rightarrow> fkstate \<Rightarrow> fkstate" where
  "disk_write b s = upd_fs (\<lambda>v. let x = bufs v ! b in
     v\<lparr>disk := (disk v)(blockno x := bdata x), written := (blockno x, bdata x) # written v\<rparr>) s"

definition bread :: "nat \<Rightarrow> u32 \<Rightarrow> u32 \<Rightarrow> fkstate \<Rightarrow> (nat \<times> fkstate) option" where
  "bread cur dev bn s = do {
     (b, s) \<leftarrow> bget cur dev bn s;
     if bvalid (buf_of s b) = 0 then Some (b, upd_buf b (\<lambda>x. x\<lparr>bvalid := 1\<rparr>) (disk_read b s))
     else Some (b, s)
   }"

definition bwrite :: "nat \<Rightarrow> nat \<Rightarrow> fkstate \<Rightarrow> fkstate option" where
  "bwrite cur b s = do {
     (h, s) \<leftarrow> holdingsleep cur (BufSl b) s;
     if \<not> h then None else Some (disk_write b s)
   }"

text \<open>The holder of a buffer changes its contents.\<close>

definition set_data :: "nat \<Rightarrow> (block \<Rightarrow> block) \<Rightarrow> fkstate \<Rightarrow> fkstate" where
  "set_data b f = upd_buf b (\<lambda>x. x\<lparr>bdata := f (bdata x)\<rparr>)"

definition brelse :: "nat \<Rightarrow> nat \<Rightarrow> fkstate \<Rightarrow> fkstate option" where
  "brelse cur b s = do {
     (h, s) \<leftarrow> holdingsleep cur (BufSl b) s;
     if \<not> h then None
     else do {
       s \<leftarrow> releasesleep cur (BufSl b) s;
       s \<leftarrow> k_acquire BCacheLock s;
       let s = upd_buf b (\<lambda>x. x\<lparr>refcnt := refcnt x - 1\<rparr>) s;
       k_release BCacheLock
         (if refcnt (buf_of s b) = 0 then upd_fs (\<lambda>v. v\<lparr>bufs := link_front b (unlink b (bufs v))\<rparr>) s else s)
     }
   }"

definition bpin :: "nat \<Rightarrow> fkstate \<Rightarrow> fkstate option" where
  "bpin b s = do {
     s \<leftarrow> k_acquire BCacheLock s;
     k_release BCacheLock (upd_buf b (\<lambda>x. x\<lparr>refcnt := refcnt x + 1\<rparr>) s)
   }"

definition bunpin :: "nat \<Rightarrow> fkstate \<Rightarrow> fkstate option" where
  "bunpin b s = do {
     s \<leftarrow> k_acquire BCacheLock s;
     k_release BCacheLock (upd_buf b (\<lambda>x. x\<lparr>refcnt := refcnt x - 1\<rparr>) s)
   }"

subsection \<open>The links represent a list\<close>

definition seg :: "(nat \<Rightarrow> nat) \<Rightarrow> (nat \<Rightarrow> nat) \<Rightarrow> nat \<Rightarrow> nat list \<Rightarrow> nat \<Rightarrow> bool" where
  "seg nx pv a xs z \<longleftrightarrow> map nx (a # xs) = xs @ [z] \<and> map pv (xs @ [z]) = a # xs"

lemma seg_split:
  assumes "seg nx pv a (ys @ b # zs) z"
  shows "map nx (a # ys) = ys @ [b]" "nx b # map nx zs = zs @ [z]" "map pv (ys @ [b]) = a # ys" "map pv (zs @ [z]) = b # zs"
proof -
  have "map nx (a # ys) @ nx b # map nx zs = (ys @ [b]) @ zs @ [z]" using assms by (simp add: seg_def)
  then show "map nx (a # ys) = ys @ [b]" "nx b # map nx zs = zs @ [z]"
    using append_eq_append_conv [of "map nx (a # ys)" "ys @ [b]"] by simp_all
  have "map pv (ys @ [b]) @ map pv (zs @ [z]) = (a # ys) @ b # zs" using assms by (simp add: seg_def)
  then show "map pv (ys @ [b]) = a # ys" "map pv (zs @ [z]) = b # zs"
    using append_eq_append_conv [of "map pv (ys @ [b])" "a # ys"] by simp_all
qed

lemma seg_unlink:
  assumes "seg nx pv a (ys @ b # zs) z" "distinct (ys @ b # zs)" "a \<notin> set (ys @ b # zs)" "z \<notin> set (ys @ b # zs)"
  shows "seg (nx(pv b := nx b)) (pv(nx b := pv b)) a (ys @ zs) z"
proof -
  obtain us u where au: "a # ys = us @ [u]" by (metis rev_exhaust list.distinct(1))
  obtain w ws where zw: "zs @ [z] = w # ws" by (cases zs) auto
  note n = seg_split(1,2) [OF assms(1)] and p = seg_split(3,4) [OF assms(1)]
  have wu: "nx b = w" "map pv ys = us" "pv b = u" "map pv ws = zs" "map nx us = ys"
    using n p zw au by auto
  have du: "u \<notin> set us" "u \<notin> set zs"
  proof -
    have "distinct (a # ys)" "set (a # ys) \<inter> set zs = {}" using assms(2,3) by auto
    then show "u \<notin> set us" "u \<notin> set zs" unfolding au by auto
  qed
  have dw: "w \<notin> set ws" "w \<notin> set ys"
  proof -
    have "distinct (zs @ [z])" "set (zs @ [z]) \<inter> set ys = {}" using assms(2,4) by auto
    then show "w \<notin> set ws" "w \<notin> set ys" unfolding zw by auto
  qed
  have "map (nx(u := w)) (a # ys @ zs) = map (nx(u := w)) (us @ u # zs)" using au by (metis append.assoc append_Cons append_Nil)
  also have "\<dots> = (ys @ zs) @ [z]" using du wu n(2) by simp
  finally have 1: "map (nx(u := w)) (a # ys @ zs) = (ys @ zs) @ [z]" .
  have "map (pv(w := u)) ((ys @ zs) @ [z]) = map (pv(w := u)) (ys @ w # ws)" using zw by simp
  also have "\<dots> = us @ u # zs" using dw wu by simp
  also have "\<dots> = a # ys @ zs" using au by (metis append.assoc append_Cons append_Nil)
  finally show ?thesis using 1 by (simp only: seg_def wu)
qed

lemma seg_insert:
  assumes "seg nx pv h xs h" "b \<notin> set xs" "b \<noteq> h" "distinct xs" "h \<notin> set xs"
  shows "seg (nx(b := nx h, h := b)) (pv(b := h, nx h := b)) h (b # xs) h"
proof -
  obtain w ws where xw: "xs @ [h] = w # ws" by (cases xs) auto
  have n: "nx h = w" "map nx xs = ws" and p: "map pv ws = xs" using assms(1) xw by (auto simp: seg_def)
  have dw: "w \<notin> set ws" "b \<notin> set (w # ws)"
  proof -
    have "distinct (xs @ [h])" "b \<notin> set (xs @ [h])" using assms by auto
    then show "w \<notin> set ws" "b \<notin> set (w # ws)" unfolding xw by auto
  qed
  have 1: "map (nx(b := nx h, h := b)) (h # b # xs) = (b # xs) @ [h]" using assms n xw by simp
  have "map (pv(b := h, w := b)) ((b # xs) @ [h]) = map (pv(b := h, w := b)) (b # w # ws)" using xw by simp
  also have "\<dots> = h # b # xs" using dw p by simp
  finally show ?thesis using 1 by (simp only: seg_def n)
qed

text \<open>The buffers in the order of their last use.\<close>

definition lru :: "buf list \<Rightarrow> nat list \<Rightarrow> bool" where
  "lru bs xs \<longleftrightarrow> length bs = Suc NBUF \<and> seg (\<lambda>i. bnext (bs ! i)) (\<lambda>i. bprev (bs ! i)) NBUF xs NBUF \<and>
     distinct xs \<and> set xs \<subseteq> {..<NBUF}"

lemma lruD:
  assumes "lru bs xs"
  shows "length bs = Suc NBUF" "distinct xs" "NBUF \<notin> set xs" "\<And>x. x \<in> set xs \<Longrightarrow> x < NBUF"
  using assms by (auto simp: lru_def)

lemma lru_cong:
  assumes "lru bs xs" "length bs' = length bs" "\<And>i. i \<le> NBUF \<Longrightarrow> bnext (bs' ! i) = bnext (bs ! i) \<and> bprev (bs' ! i) = bprev (bs ! i)"
  shows "lru bs' xs"
proof -
  have "x \<le> NBUF" if "x \<in> set (NBUF # xs)" for x using that lruD(4) [OF assms(1), of x] by auto
  then have "map (\<lambda>i. bnext (bs' ! i)) (NBUF # xs) = map (\<lambda>i. bnext (bs ! i)) (NBUF # xs)"
    "map (\<lambda>i. bprev (bs' ! i)) (xs @ [NBUF]) = map (\<lambda>i. bprev (bs ! i)) (xs @ [NBUF])" using assms(3) by simp_all
  then show ?thesis using assms(1,2) unfolding lru_def seg_def by metis
qed

lemma seg_next_in:
  assumes "seg nx pv a xs z" "x \<in> set (a # xs)"
  shows "nx x \<in> set xs \<union> {z}"
proof -
  have "nx x \<in> set (map nx (a # xs))" using assms(2) by auto
  then show ?thesis using assms(1) unfolding seg_def by (metis set_append list.simps(15) set_empty2 empty_set)
qed

lemma seg_prev_in:
  assumes "seg nx pv a xs z" "x \<in> set (xs @ [z])"
  shows "pv x \<in> set (a # xs)"
proof -
  have "pv x \<in> set (map pv (xs @ [z]))" using assms(2) by auto
  then show ?thesis using assms(1) unfolding seg_def by metis
qed

lemma lru_unlink:
  assumes "lru bs xs" "b \<in> set xs"
  shows "lru (unlink b bs) (remove1 b xs)"
proof -
  note D = lruD [OF assms(1)]
  let ?nx = "\<lambda>i. bnext (bs ! i)" and ?pv = "\<lambda>i. bprev (bs ! i)"
  have sg: "seg ?nx ?pv NBUF xs NBUF" using assms(1) by (simp add: lru_def)
  obtain ys zs where xs: "xs = ys @ b # zs" "b \<notin> set ys" using assms(2) by (metis split_list_first)
  have r: "remove1 b xs = ys @ zs" using xs by (simp add: remove1_append)
  have b: "b < NBUF" using D(4) assms(2) by simp
  have n: "?nx b \<le> NBUF" "?pv b \<le> NBUF"
    using seg_next_in [OF sg, of b] seg_prev_in [OF sg, of b] assms(2) D(4) by (auto intro: less_imp_le)
  have nb: "?nx b \<noteq> b" "?pv b \<noteq> b"
  proof -
    note S = seg_split [OF sg [unfolded xs(1)]]
    have "?nx b \<in> set (zs @ [NBUF])" unfolding S(2) [symmetric] by simp
    then show "?nx b \<noteq> b" using D(2) xs b by auto
    have "?pv b \<in> set (NBUF # ys)" unfolding S(3) [symmetric] by simp
    then show "?pv b \<noteq> b" using xs(2) b by auto
  qed
  have e: "(\<lambda>i. bnext (unlink b bs ! i)) = ?nx(?pv b := ?nx b)" "(\<lambda>i. bprev (unlink b bs ! i)) = ?pv(?nx b := ?pv b)"
    using D(1) n nb b by (auto simp: unlink_def Let_def fun_eq_iff nth_list_update)
  have "seg (?nx(?pv b := ?nx b)) (?pv(?nx b := ?pv b)) NBUF (ys @ zs) NBUF"
    by (rule seg_unlink) (use sg D(2,3) xs in auto)
  moreover have "distinct (ys @ zs)" "set (ys @ zs) \<subseteq> {..<NBUF}" using D(2,4) xs by auto
  ultimately show ?thesis using D(1) unfolding lru_def r e by (simp add: unlink_def Let_def)
qed

lemma lru_link_front:
  assumes "lru bs xs" "b \<notin> set xs" "b < NBUF"
  shows "lru (link_front b bs) (b # xs)"
proof -
  note D = lruD [OF assms(1)]
  let ?nx = "\<lambda>i. bnext (bs ! i)" and ?pv = "\<lambda>i. bprev (bs ! i)"
  have sg: "seg ?nx ?pv NBUF xs NBUF" using assms(1) by (simp add: lru_def)
  have n: "?nx NBUF \<le> NBUF" using seg_next_in [OF sg, of NBUF] D(4) by (auto intro: less_imp_le)
  have nb: "?nx NBUF \<noteq> b" using seg_next_in [OF sg, of NBUF] assms by auto
  have e: "(\<lambda>i. bnext (link_front b bs ! i)) = ?nx(b := ?nx NBUF, NBUF := b)"
    "(\<lambda>i. bprev (link_front b bs ! i)) = ?pv(b := NBUF, ?nx NBUF := b)"
    using D(1) n nb assms(3) by (auto simp: link_front_def Let_def fun_eq_iff nth_list_update)
  have "seg (?nx(b := ?nx NBUF, NBUF := b)) (?pv(b := NBUF, ?nx NBUF := b)) NBUF (b # xs) NBUF"
    by (rule seg_insert) (use sg D assms in auto)
  moreover have "set (b # xs) \<subseteq> {..<NBUF}" using D(4) assms(3) by auto
  ultimately show ?thesis using D assms(2) unfolding lru_def e by (simp add: link_front_def Let_def)
qed

lemma bscan_chain:
  assumes "map (\<lambda>i. step (bs ! i)) (a # xs) = xs @ [NBUF]" "NBUF \<notin> set xs"
  shows "bscan step test (step (bs ! a)) bs = Some (find (\<lambda>b. test (bs ! b)) xs)"
  using assms
proof (induction xs arbitrary: a)
  case Nil
  then show ?case by (simp add: bscan.simps)
next
  case (Cons x xs)
  then have a: "step (bs ! a) = x" "x \<noteq> NBUF" "map (\<lambda>i. step (bs ! i)) (x # xs) = xs @ [NBUF]" by auto
  show ?case using Cons.IH [OF a(3)] Cons.prems(2) a by (subst bscan.simps) simp
qed

lemma bscan_next:
  assumes "lru bs xs"
  shows "bscan bnext test (bnext (bs ! NBUF)) bs = Some (find (\<lambda>b. test (bs ! b)) xs)"
  by (rule bscan_chain) (use assms in \<open>auto simp: lru_def seg_def\<close>)

lemma bscan_prev:
  assumes "lru bs xs"
  shows "bscan bprev test (bprev (bs ! NBUF)) bs = Some (find (\<lambda>b. test (bs ! b)) (rev xs))"
proof (rule bscan_chain)
  have "map (\<lambda>i. bprev (bs ! i)) (xs @ [NBUF]) = NBUF # xs" using assms by (simp add: lru_def seg_def)
  from arg_cong [OF this, of rev] show "map (\<lambda>i. bprev (bs ! i)) (NBUF # rev xs) = rev xs @ [NBUF]" by (simp flip: rev_map)
qed (use assms in \<open>auto simp: lru_def\<close>)

lemma upd_field: "(\<And>x. f (g x) = f x) \<Longrightarrow> f (cs[j := g (cs ! j)] ! i) = f (cs ! i)"
  by (cases "j < length cs"; cases "i = j") (simp_all add: list_update_beyond)

text \<open>Changing links changes nothing else.\<close>

lemma links_field:
  assumes "\<And>x v w. f (x\<lparr>bnext := v\<rparr>) = f x" "\<And>x v. f (x\<lparr>bprev := v\<rparr>) = f x"
  shows "f (unlink b bs ! i) = f (bs ! i)" "f (link_front b bs ! i) = f (bs ! i)"
proof -
  show "f (unlink b bs ! i) = f (bs ! i)" by (simp add: unlink_def Let_def upd_field [where f = f] assms)
  have "f (bs[b := (bs ! b)\<lparr>bnext := v, bprev := w\<rparr>] ! i) = f (bs ! i)" for v w
    by (rule upd_field [where f = f]) (simp add: assms)
  then show "f (link_front b bs ! i) = f (bs ! i)" by (simp add: link_front_def Let_def upd_field [where f = f] assms)
qed

lemma length_links [simp]: "length (unlink b bs) = length bs" "length (link_front b bs) = length bs"
  by (simp_all add: unlink_def link_front_def Let_def)

definition move_front :: "nat \<Rightarrow> buf list \<Rightarrow> buf list" where
  "move_front b bs = link_front b (unlink b bs)"

lemma move_front_simps [simp]:
  "length (move_front b bs) = length bs" "bvalid (move_front b bs ! i) = bvalid (bs ! i)" "bdev (move_front b bs ! i) = bdev (bs ! i)"
  "blockno (move_front b bs ! i) = blockno (bs ! i)" "block (move_front b bs ! i) = block (bs ! i)"
  "refcnt (move_front b bs ! i) = refcnt (bs ! i)" "bdata (move_front b bs ! i) = bdata (bs ! i)"
  by (simp_all add: move_front_def links_field)

lemma lru_move_front:
  assumes "lru bs xs" "b \<in> set xs"
  shows "lru (move_front b bs) (b # remove1 b xs)"
  unfolding move_front_def by (rule lru_link_front [OF lru_unlink [OF assms]]) (use lruD [OF assms(1)] assms(2) in auto)

lemma lru_binit: "lru (binit (replicate (Suc NBUF) zero_buf)) (rev [0..<NBUF])"
proof -
  define bs0 where "bs0 = (replicate (Suc NBUF) zero_buf)[NBUF := (replicate (Suc NBUF) zero_buf ! NBUF)\<lparr>bprev := NBUF, bnext := NBUF\<rparr>]"
  have "lru bs0 []" by (simp add: lru_def seg_def bs0_def del: replicate_Suc)
  then have "n \<le> NBUF \<Longrightarrow> lru (fold (\<lambda>b bs. link_front b (bs[b := (bs ! b)\<lparr>block := initsleeplock\<rparr>])) [0..<n] bs0) (rev [0..<n])" for n
  proof (induction n)
    case (Suc n)
    let ?bs = "fold (\<lambda>b bs. link_front b (bs[b := (bs ! b)\<lparr>block := initsleeplock\<rparr>])) [0..<n] bs0"
    have l: "lru ?bs (rev [0..<n])" using Suc by simp
    have "lru (?bs[n := (?bs ! n)\<lparr>block := initsleeplock\<rparr>]) (rev [0..<n])"
      by (rule lru_cong [OF l]) (simp_all add: upd_field [where f = bnext] upd_field [where f = bprev])
    from lru_link_front [OF this] Suc.prems show ?case by simp
  qed simp
  then show ?thesis by (simp add: binit_def bs0_def Let_def del: replicate_Suc)
qed

end
