(* ===== verification/Fs_Cache.thy ===== *)
theory Fs_Cache
  imports Fs_Bio
begin

text \<open>
  What the users of the buffer cache see. A cache of device \<open>d\<close> gives every block its contents
  (\<open>bview\<close>), its reference count (\<open>refs\<close>) and the process that has it locked
  (\<open>owner\<close>); a block without a buffer has the contents of the disk, no reference and no lock. The
  lemmas give each operation of \<open>Fs_Bio\<close> as a change of these three maps and of the disk.
\<close>

subsection \<open>Abstraction\<close>

definition slot :: "u32 \<Rightarrow> buf list \<Rightarrow> u32 \<Rightarrow> nat option" where
  "slot d bs n = find (\<lambda>b. bdev (bs ! b) = d \<and> blockno (bs ! b) = n) [0..<NBUF]"

definition lock_owner :: "sleeplock \<Rightarrow> int option" where
  "lock_owner l = (if sl_locked l = 0 then None else Some (sl_pid l))"

definition bview :: "u32 \<Rightarrow> fsys \<Rightarrow> u32 \<Rightarrow> block" where
  "bview d v n = (case slot d (bufs v) n of Some b \<Rightarrow> bdata (bufs v ! b) | None \<Rightarrow> disk v n)"

definition refs :: "u32 \<Rightarrow> fsys \<Rightarrow> u32 \<Rightarrow> nat" where
  "refs d v n = (case slot d (bufs v) n of Some b \<Rightarrow> unat (refcnt (bufs v ! b)) | None \<Rightarrow> 0)"

definition owner :: "u32 \<Rightarrow> fsys \<Rightarrow> u32 \<Rightarrow> int option" where
  "owner d v n = (case slot d (bufs v) n of Some b \<Rightarrow> lock_owner (block (bufs v ! b)) | None \<Rightarrow> None)"

definition buf_ok :: "u32 \<Rightarrow> (u32 \<Rightarrow> block) \<Rightarrow> buf \<Rightarrow> bool" where
  "buf_ok d dk x \<longleftrightarrow> (bdev x = d \<and> bvalid x \<noteq> 0 \<and> (refcnt x = 0 \<longrightarrow> bdata x = dk (blockno x)) \<or> bdev x = 0 \<and> refcnt x = 0) \<and>
     (refcnt x = 0 \<longrightarrow> sl_locked (block x) = 0)"

definition uniq :: "buf list \<Rightarrow> bool" where
  "uniq bs \<longleftrightarrow> (\<forall>i < NBUF. \<forall>j < NBUF. bdev (bs ! i) \<noteq> 0 \<and> bdev (bs ! i) = bdev (bs ! j) \<and> blockno (bs ! i) = blockno (bs ! j) \<longrightarrow> i = j)"

definition cache_inv :: "u32 \<Rightarrow> fsys \<Rightarrow> bool" where
  "cache_inv d v \<longleftrightarrow> d \<noteq> 0 \<and> (\<exists>xs. lru (bufs v) xs \<and> set xs = {..<NBUF}) \<and> uniq (bufs v) \<and>
     (\<forall>i < NBUF. buf_ok d (disk v) (bufs v ! i))"

definition holds :: "u32 \<Rightarrow> fsys \<Rightarrow> nat \<Rightarrow> u32 \<Rightarrow> bool" where
  "holds d v b n \<longleftrightarrow> b < NBUF \<and> bdev (bufs v ! b) = d \<and> blockno (bufs v ! b) = n"

lemma cache_invD:
  assumes "cache_inv d v"
  shows "d \<noteq> 0" "length (bufs v) = Suc NBUF" "uniq (bufs v)" "\<And>i. i < NBUF \<Longrightarrow> buf_ok d (disk v) (bufs v ! i)"
  using assms by (auto simp: cache_inv_def lru_def)

lemma find_range: "find P [0..<n] = Some b \<Longrightarrow> b < n \<and> P b" "find P [0..<n] = None \<longleftrightarrow> (\<forall>b < n. \<not> P b)"
  by (auto simp: find_Some_iff find_None_iff)

lemma slot_holds: "slot d (bufs v) n = Some b \<Longrightarrow> holds d v b n"
  unfolding slot_def holds_def by (drule find_range(1)) simp

lemma slot_iff:
  assumes "cache_inv d v"
  shows "slot d (bufs v) n = Some b \<longleftrightarrow> holds d v b n"
proof
  assume "slot d (bufs v) n = Some b"
  then show "holds d v b n" by (rule slot_holds)
next
  assume h: "holds d v b n"
  then have "slot d (bufs v) n \<noteq> None" unfolding slot_def holds_def find_range(2) by blast
  then obtain c where c: "slot d (bufs v) n = Some c" by blast
  then have "holds d v c n" by (rule slot_holds)
  then have "c = b" using h cache_invD(1,3) [OF assms] by (auto simp: uniq_def holds_def)
  with c show "slot d (bufs v) n = Some b" by simp
qed

lemma slot_None: "slot d (bufs v) n = None \<longleftrightarrow> (\<forall>b. \<not> holds d v b n)"
  unfolding slot_def find_range(2) holds_def by blast

lemma holds_inj: "cache_inv d v \<Longrightarrow> holds d v b n \<Longrightarrow> holds d v c n \<Longrightarrow> c = b"
  by (metis slot_iff option.inject)

lemma holds_fields:
  assumes "cache_inv d v" "holds d v b n"
  shows "bview d v n = bdata (bufs v ! b)" "refs d v n = unat (refcnt (bufs v ! b))" "owner d v n = lock_owner (block (bufs v ! b))"
proof -
  have "slot d (bufs v) n = Some b" using slot_iff [OF assms(1)] assms(2) by blast
  then show "bview d v n = bdata (bufs v ! b)" "refs d v n = unat (refcnt (bufs v ! b))" "owner d v n = lock_owner (block (bufs v ! b))"
    by (simp_all add: bview_def refs_def owner_def)
qed

text \<open>Two states agree on a block, or differ by the data of its buffer.\<close>

lemma block_fields_cong:
  assumes "slot d (bufs v') n = slot d (bufs v) n" "disk v' n = disk v n"
    and "\<And>b. slot d (bufs v) n = Some b \<Longrightarrow> bufs v' ! b = bufs v ! b"
  shows "bview d v' n = bview d v n" "refs d v' n = refs d v n" "owner d v' n = owner d v n"
  using assms by (auto simp: bview_def refs_def owner_def split: option.split)

text \<open>An update of one buffer that leaves its identity alone.\<close>

lemma upd_one:
  assumes inv: "cache_inv d v" and h: "holds d v b n" and g: "bdev (g (bufs v ! b)) = d" "blockno (g (bufs v ! b)) = n"
    and v': "bufs v' = (bufs v)[b := g (bufs v ! b)]" "\<And>m. m \<noteq> n \<Longrightarrow> disk v' m = disk v m"
  shows "slot d (bufs v') = slot d (bufs v)" "bview d v' = (bview d v)(n := bdata (g (bufs v ! b)))"
    "refs d v' = (refs d v)(n := unat (refcnt (g (bufs v ! b))))" "owner d v' = (owner d v)(n := lock_owner (block (g (bufs v ! b))))"
    "holds d v' = holds d v"
proof -
  have b: "b < NBUF" "b < length (bufs v)" using h cache_invD(2) [OF inv] by (auto simp: holds_def)
  have "bdev (bufs v' ! i) = bdev (bufs v ! i)" "blockno (bufs v' ! i) = blockno (bufs v ! i)" for i
    using g h b v'(1) by (cases "i = b", auto simp: holds_def)+
  note id = this
  show "holds d v' = holds d v" by (auto simp: holds_def fun_eq_iff id)
  show sl: "slot d (bufs v') = slot d (bufs v)" by (simp add: slot_def fun_eq_iff id)
  have sn: "slot d (bufs v) n = Some b" using slot_iff [OF inv] h by simp
  have o: "bview d v' m = bview d v m" "refs d v' m = refs d v m" "owner d v' m = owner d v m" if "m \<noteq> n" for m
  proof -
    have "bufs v' ! c = bufs v ! c" if "slot d (bufs v) m = Some c" for c
      using slot_holds [OF that] h \<open>m \<noteq> n\<close> by (cases "c = b") (auto simp: holds_def v')
    from block_fields_cong [OF fun_cong [OF sl] v'(2) [OF that] this]
    show "bview d v' m = bview d v m" "refs d v' m = refs d v m" "owner d v' m = owner d v m" by blast+
  qed
  have e: "bufs v' ! b = g (bufs v ! b)" using b v'(1) by simp
  show "bview d v' = (bview d v)(n := bdata (g (bufs v ! b)))"
    "refs d v' = (refs d v)(n := unat (refcnt (g (bufs v ! b))))" "owner d v' = (owner d v)(n := lock_owner (block (g (bufs v ! b))))"
    using o by (auto simp: fun_eq_iff bview_def refs_def owner_def sl sn e)
qed

lemma upd_one_inv:
  assumes inv: "cache_inv d v" and h: "holds d v b n" and g: "bdev (g (bufs v ! b)) = d" "blockno (g (bufs v ! b)) = n"
    and l: "bnext (g (bufs v ! b)) = bnext (bufs v ! b)" "bprev (g (bufs v ! b)) = bprev (bufs v ! b)"
    and v': "bufs v' = (bufs v)[b := g (bufs v ! b)]" "\<And>m. m \<noteq> n \<Longrightarrow> disk v' m = disk v m"
    and ok: "buf_ok d (disk v') (g (bufs v ! b))"
  shows "cache_inv d v'"
proof -
  note D = cache_invD [OF inv]
  have b: "b < NBUF" "b < length (bufs v)" using h D(2) by (auto simp: holds_def)
  obtain xs where xs: "lru (bufs v) xs" "set xs = {..<NBUF}" using inv by (auto simp: cache_inv_def)
  have id: "bdev (bufs v' ! i) = bdev (bufs v ! i)" "blockno (bufs v' ! i) = blockno (bufs v ! i)"
    "bnext (bufs v' ! i) = bnext (bufs v ! i)" "bprev (bufs v' ! i) = bprev (bufs v ! i)" for i
    using g h b l v'(1) by (cases "i = b", auto simp: holds_def)+
  have "lru (bufs v') xs" by (rule lru_cong [OF xs(1)]) (simp_all add: id, simp add: v')
  moreover have "uniq (bufs v')" using D(3) by (simp add: uniq_def id)
  moreover have "buf_ok d (disk v') (bufs v' ! i)" if i: "i < NBUF" for i
  proof (cases "i = b")
    case True
    then show ?thesis using ok b v'(1) by simp
  next
    case False
    have "blockno (bufs v ! i) \<noteq> n" if "bdev (bufs v ! i) = d"
      using that False h D(1,3) i unfolding uniq_def holds_def by metis
    then show ?thesis using D(4) [OF i] False v' by (auto simp: buf_ok_def)
  qed
  ultimately show ?thesis using D(1) xs(2) by (auto simp: cache_inv_def)
qed

text \<open>An unused buffer is given to a block that has none.\<close>

lemma recycle:
  assumes inv: "cache_inv d v" and none: "slot d (bufs v) n = None" and b: "b < NBUF" "refcnt (bufs v ! b) = 0"
    and x: "bdev x = d" "blockno x = n" "bdata x = disk v n" "bvalid x \<noteq> 0" "refcnt x \<noteq> 0" "bnext x = bnext (bufs v ! b)" "bprev x = bprev (bufs v ! b)"
    and v': "bufs v' = (bufs v)[b := x]" "disk v' = disk v"
  shows "cache_inv d v'" "bview d v' = bview d v" "refs d v' = (refs d v)(n := unat (refcnt x))"
    "owner d v' = (owner d v)(n := lock_owner (block x))" "holds d v' b n" "\<And>c m. holds d v c m \<Longrightarrow> 0 < refs d v m \<Longrightarrow> holds d v' c m"
proof -
  note D = cache_invD [OF inv]
  have bl: "b < length (bufs v)" using b D(2) by simp
  have e: "bufs v' ! i = (if i = b then x else bufs v ! i)" for i using bl by (simp add: v')
  have nh: "\<not> holds d v c n" for c using none by (simp add: slot_None)
  obtain xs where xs: "lru (bufs v) xs" "set xs = {..<NBUF}" using inv by (auto simp: cache_inv_def)
  have "lru (bufs v') xs" by (rule lru_cong [OF xs(1)]) (simp_all add: e x(6,7), simp add: v')
  moreover have "uniq (bufs v')"
    unfolding uniq_def
  proof (intro allI impI)
    fix i j assume ij: "i < NBUF" "j < NBUF"
      "bdev (bufs v' ! i) \<noteq> 0 \<and> bdev (bufs v' ! i) = bdev (bufs v' ! j) \<and> blockno (bufs v' ! i) = blockno (bufs v' ! j)"
    show "i = j"
      using ij nh [of i] nh [of j] x(1,2) D(3) by (cases "i = b"; cases "j = b") (auto simp: e holds_def uniq_def)
  qed
  moreover have "buf_ok d (disk v') (bufs v' ! i)" if "i < NBUF" for i
    using D(4) [OF that] x by (auto simp: e v'(2) buf_ok_def)
  ultimately show inv': "cache_inv d v'" using D(1) xs(2) by (auto simp: cache_inv_def)
  have h: "holds d v' c m \<longleftrightarrow> (if c = b then m = n else holds d v c m)" for c m
    using b x by (auto simp: holds_def e)
  show hb: "holds d v' b n" by (simp add: h)
  note F = holds_fields [OF inv] and F' = holds_fields [OF inv']
  note Fb = F' [OF hb, unfolded e, simplified]
  have vn: "bview d v n = disk v n" "refs d v n = 0" "owner d v n = None" by (simp_all add: bview_def refs_def owner_def none)
  have clean: "bview d v m = disk v m \<and> refs d v m = 0 \<and> owner d v m = None" if "holds d v b m" for m
    using F [OF that] D(1) D(4) [OF b(1)] that b(2) by (auto simp: buf_ok_def holds_def lock_owner_def)
  have o: "bview d v' m = bview d v m \<and> refs d v' m = refs d v m \<and> owner d v' m = owner d v m" if m: "m \<noteq> n" for m
  proof (cases "slot d (bufs v') m")
    case None
    then have nh': "\<not> holds d v' c m" for c by (simp add: slot_None)
    have c: "holds d v c m \<Longrightarrow> c = b" for c using nh' [of c] h [of c m] by (auto split: if_splits)
    have "bview d v m = disk v m \<and> refs d v m = 0 \<and> owner d v m = None"
      using clean c by (cases "slot d (bufs v) m") (auto simp: slot_iff [OF inv] bview_def refs_def owner_def)
    then show ?thesis using None by (simp add: bview_def refs_def owner_def v'(2))
  next
    case (Some c)
    then have c': "holds d v' c m" by (simp add: slot_iff [OF inv'])
    then have c: "c \<noteq> b" "holds d v c m" using m by (auto simp: h split: if_splits)
    then show ?thesis using F [OF c(2)] F' [OF c'] by (simp add: e)
  qed
  show "bview d v' = bview d v" "refs d v' = (refs d v)(n := unat (refcnt x))" "owner d v' = (owner d v)(n := lock_owner (block x))"
    using o Fb vn x(3) by (simp_all add: fun_eq_iff) metis+
  show "holds d v' c m" if "holds d v c m" "0 < refs d v m" for c m
    using that clean [of m] by (cases "c = b") (auto simp: h)
qed

subsection \<open>Operations\<close>

text \<open>The effect of a call on the rest of the state: processes may be woken; apart from that only the
  buffers and the disk change.\<close>

definition strip :: "proc \<Rightarrow> proc" where
  "strip p = p\<lparr>state := UNUSED\<rparr>"

definition quiet :: "fkstate \<Rightarrow> fkstate \<Rightarrow> bool" where
  "quiet s t \<longleftrightarrow> held t = held s \<and> pm t = pm s \<and> map strip (proc t) = map strip (proc s) \<and>
     flog (fs t) = flog (fs s) \<and> sb (fs t) = sb (fs s) \<and> itable (fs t) = itable (fs s) \<and> ftable (fs t) = ftable (fs s) \<and>
     pipes (fs t) = pipes (fs s)"

lemma quiet_refl [simp]: "quiet s s"
  by (simp add: quiet_def)

lemma quiet_trans [trans]: "quiet s t \<Longrightarrow> quiet t u \<Longrightarrow> quiet s u"
  by (simp add: quiet_def)

definition caller :: "nat \<Rightarrow> u32 \<Rightarrow> fkstate \<Rightarrow> bool" where
  "caller cur d s \<longleftrightarrow> held s = {} \<and> length (proc s) = NPROC \<and> cur < NPROC \<and> cache_inv d (fs s)"

abbreviation mypid :: "nat \<Rightarrow> fkstate \<Rightarrow> int" where
  "mypid cur s \<equiv> pid (proc s ! cur)"

lemma quiet_proc:
  assumes "quiet s t"
  shows "length (proc t) = length (proc s)" "i < length (proc s) \<Longrightarrow> mypid i t = mypid i s"
proof -
  have e: "map strip (proc t) = map strip (proc s)" using assms by (simp add: quiet_def)
  from arg_cong [OF e, of length] show l: "length (proc t) = length (proc s)" by simp
  assume "i < length (proc s)"
  with arg_cong [OF e, of "\<lambda>xs. pid (xs ! i)"] l show "mypid i t = mypid i s" by (simp add: strip_def)
qed

lemma quiet_upd_buf [simp]: "quiet s (upd_buf b f s)"
  by (simp add: quiet_def upd_buf_def)

lemma strip_wake: "map strip (proc (wake c ch s)) = map strip (proc s)"
  by (rule nth_equalityI) (auto simp: wake_nth strip_def wakeup_proc_def)

lemma quiet_wake [simp]: "quiet s (wake c ch s)"
  by (simp add: quiet_def strip_wake)

lemma quiet_disk_write: "quiet s (disk_write b s)"
  by (simp add: quiet_def disk_write_def Let_def)

lemma take_sleeplock_eq:
  assumes "held s = {}" "sl_locked (get_sl r s) = 0"
  shows "take_sleeplock cur r s = Some (upd_sl r (\<lambda>l. l\<lparr>sl_locked := 1, sl_pid := mypid cur s\<rparr>) s)"
  using assms by (cases r) (simp_all add: take_sleeplock_def acquiresleep_def acquiresleep_turn_def upd_buf_def upd_inode_def)

lemma holdingsleep_eq:
  assumes "held s = {}"
  shows "holdingsleep cur r s = Some (sl_locked (get_sl r s) \<noteq> 0 \<and> sl_pid (get_sl r s) = mypid cur s, s)"
  using assms by (cases r) (simp_all add: holdingsleep_def Let_def)

lemma releasesleep_eq:
  assumes "held s = {}" "length (proc s) = NPROC"
  shows "releasesleep cur r s = Some (wake (Some cur) (sl_chan r) (upd_sl r (\<lambda>l. l\<lparr>sl_locked := 0, sl_pid := 0\<rparr>) s))"
  using assms by (cases r) (simp_all add: releasesleep_def wakeup_eq upd_buf_def upd_inode_def)

lemma upd_buf_upd_buf: "b < length (bufs (fs s)) \<Longrightarrow> upd_buf b f (upd_buf b g s) = upd_buf b (\<lambda>x. f (g x)) s"
  by (simp add: upd_buf_def)

lemma free_buf:
  assumes "cache_inv d v" "card {n. 0 < refs d v n} < NBUF"
  shows "\<exists>b < NBUF. refcnt (bufs v ! b) = 0"
proof (rule ccontr)
  assume n: "\<not> (\<exists>b < NBUF. refcnt (bufs v ! b) = 0)"
  note D = cache_invD [OF assms(1)]
  have dev: "bdev (bufs v ! b) = d" if "b < NBUF" for b using D(4) [OF that] n that by (auto simp: buf_ok_def)
  have "inj_on (\<lambda>b. blockno (bufs v ! b)) {..<NBUF}"
    using D(1,3) dev by (intro inj_onI) (auto simp: uniq_def)
  moreover have "(\<lambda>b. blockno (bufs v ! b)) ` {..<NBUF} \<subseteq> {n. 0 < refs d v n}"
  proof (rule image_subsetI)
    fix b assume b: "b \<in> {..<NBUF}"
    then have "holds d v b (blockno (bufs v ! b))" using dev by (simp add: holds_def)
    from holds_fields(2) [OF assms(1) this] n b show "blockno (bufs v ! b) \<in> {n. 0 < refs d v n}" by (simp add: unat_gt_0)
  qed
  ultimately have "NBUF \<le> card {n. 0 < refs d v n}"
    using card_mono [OF finite [of "{n. 0 < refs d v n}"]] by (metis card_image card_lessThan)
  then show False using assms(2) by simp
qed

lemma bread_ok:
  assumes c: "caller cur d s" and o: "owner d (fs s) n = None" and r: "0 < refs d (fs s) n \<or> card {m. 0 < refs d (fs s) m} < NBUF"
    and m: "Suc (refs d (fs s) n) < 2 ^ 32"
  shows "\<exists>b t. bread cur d n s = Some (b, t) \<and> quiet s t \<and> caller cur d t \<and> holds d (fs t) b n \<and> bview d (fs t) = bview d (fs s) \<and>
    refs d (fs t) = (refs d (fs s))(n := Suc (refs d (fs s) n)) \<and> owner d (fs t) = (owner d (fs s))(n := Some (mypid cur s)) \<and>
    disk (fs t) = disk (fs s) \<and> written (fs t) = written (fs s) \<and>
    (\<forall>c m. holds d (fs s) c m \<and> 0 < refs d (fs s) m \<longrightarrow> holds d (fs t) c m)"
proof -
  have H: "held s = {}" "length (proc s) = NPROC" "cur < NPROC" and inv: "cache_inv d (fs s)" using c by (auto simp: caller_def)
  note D = cache_invD [OF inv]
  obtain xs where xs: "lru (bufs (fs s)) xs" "set xs = {..<NBUF}" using inv by (auto simp: cache_inv_def)
  let ?own = "\<lambda>x. x\<lparr>block := (block x)\<lparr>sl_locked := 1, sl_pid := mypid cur s\<rparr>\<rparr>"
  let ?hit = "find (\<lambda>b. bdev (buf_of s b) = d \<and> blockno (buf_of s b) = n) xs"
  have sc: "bscan bnext (\<lambda>b. bdev b = d \<and> blockno b = n) (bnext (buf_of s NBUF)) (bufs (fs s)) = Some ?hit"
    using bscan_next [OF xs(1)] by simp
  show ?thesis
  proof (cases ?hit)
    case (Some b)
    then have h: "holds d (fs s) b n" using xs(2) by (auto simp: find_Some_iff holds_def)
    have bl: "b < length (bufs (fs s))" "b < NBUF" using h D(2) by (auto simp: holds_def)
    note F = holds_fields [OF inv h]
    have u: "sl_locked (block (buf_of s b)) = 0" using o F(3) by (simp add: lock_owner_def split: if_splits)
    have v: "bvalid (buf_of s b) \<noteq> 0" using D(1) D(4) [OF bl(2)] h by (auto simp: buf_ok_def holds_def)
    define g :: "buf \<Rightarrow> buf" where "g = (\<lambda>x. ?own (x\<lparr>refcnt := refcnt x + 1\<rparr>))"
    define t where "t = upd_buf b g s"
    have ts: "take_sleeplock cur (BufSl b) (upd_buf b (\<lambda>x. x\<lparr>refcnt := refcnt x + 1\<rparr>) s) = Some t"
      using H(1) u bl by (simp add: take_sleeplock_eq upd_buf_upd_buf t_def g_def)
    then have "bget cur d n s = Some (b, t)" using H(1) sc Some by (simp add: bget_def)
    then have 1: "bread cur d n s = Some (b, t)" using v bl by (simp add: bread_def t_def g_def)
    have e: "bufs (fs t) = (bufs (fs s))[b := g (buf_of s b)]" "disk (fs t) = disk (fs s)" by (simp_all add: t_def)
    have rc: "unat (refcnt (buf_of s b) + 1) = Suc (refs d (fs s) n)"
      using m F(2) by (simp add: unat_word_ariths)
    have g: "bdev (g (buf_of s b)) = d" "blockno (g (buf_of s b)) = n" "bnext (g (buf_of s b)) = bnext (buf_of s b)"
        "bprev (g (buf_of s b)) = bprev (buf_of s b)" using h by (simp_all add: g_def holds_def)
    have "refcnt (buf_of s b) + 1 \<noteq> 0" using rc by auto
    then have "buf_ok d (disk (fs s)) (g (buf_of s b))" using D(1) D(4) [OF bl(2)] h by (simp add: buf_ok_def g_def holds_def)
    then have "cache_inv d (fs t)" using upd_one_inv [where g = g and v' = "fs t", OF inv h g e(1) fun_cong [OF e(2)]] e(2) by simp
    moreover note U = upd_one [where g = g and v' = "fs t", OF inv h g(1,2) e(1) fun_cong [OF e(2)]]
    ultimately show ?thesis
      using 1 H F rc h by (intro exI [of _ b] exI [of _ t]) (simp add: caller_def U g_def lock_owner_def fun_upd_idem, simp add: t_def)
  next
    case None
    then have sn: "slot d (bufs (fs s)) n = None" using xs(2) by (auto simp: find_None_iff slot_None holds_def)
    have r0: "refs d (fs s) n = 0" using sn by (simp add: refs_def)
    obtain b0 where b0: "b0 < NBUF" "refcnt (buf_of s b0) = 0" using free_buf [OF inv] r r0 by auto
    then have "find (\<lambda>b. refcnt (buf_of s b) = 0) (rev xs) \<noteq> None" using xs(2) by (auto simp: find_None_iff)
    then obtain b where fb: "find (\<lambda>b. refcnt (buf_of s b) = 0) (rev xs) = Some b" by blast
    then have b: "b < NBUF" "refcnt (buf_of s b) = 0" using xs(2) by (auto simp: find_Some_iff) (metis lessThan_iff nth_mem rev_rev_ident set_rev length_rev)
    have sc2: "bscan bprev (\<lambda>b. refcnt b = 0) (bprev (buf_of s NBUF)) (bufs (fs s)) = Some (Some b)"
      using bscan_prev [OF xs(1)] fb by simp
    have bl: "b < length (bufs (fs s))" using b D(2) by simp
    have u: "sl_locked (block (buf_of s b)) = 0" using D(4) [OF b(1)] b(2) by (simp add: buf_ok_def)
    define x where "x = (?own ((buf_of s b)\<lparr>bdev := d, blockno := n, bvalid := 0, refcnt := 1\<rparr>))\<lparr>bdata := disk (fs s) n, bvalid := 1\<rparr>"
    define t where "t = upd_buf b (\<lambda>_. x) s"
    have ts: "take_sleeplock cur (BufSl b) (upd_buf b (\<lambda>x. x\<lparr>bdev := d, blockno := n, bvalid := 0, refcnt := 1\<rparr>) s) =
        Some (upd_buf b (\<lambda>_. ?own ((buf_of s b)\<lparr>bdev := d, blockno := n, bvalid := 0, refcnt := 1\<rparr>)) s)"
      using H(1) u bl by (simp add: take_sleeplock_eq upd_buf_def)
    then have "bget cur d n s = Some (b, upd_buf b (\<lambda>_. ?own ((buf_of s b)\<lparr>bdev := d, blockno := n, bvalid := 0, refcnt := 1\<rparr>)) s)"
      using H(1) sc sc2 None by (simp add: bget_def)
    then have 1: "bread cur d n s = Some (b, t)" using bl by (simp add: bread_def disk_read_def t_def x_def upd_buf_def)
    have e: "bufs (fs t) = (bufs (fs s))[b := x]" "disk (fs t) = disk (fs s)" by (simp_all add: t_def)
    note R = recycle [OF inv sn b _ _ _ _ _ _ _ e]
    have x: "bdev x = d" "blockno x = n" "bdata x = disk (fs s) n" "bvalid x \<noteq> 0" "refcnt x \<noteq> 0"
      "bnext x = bnext (buf_of s b)" "bprev x = bprev (buf_of s b)" by (simp_all add: x_def)
    have "unat (refcnt x) = 1" "lock_owner (block x) = Some (mypid cur s)" by (simp_all add: x_def lock_owner_def)
    then show ?thesis
      using 1 H R [OF x] r0 by (intro exI [of _ b] exI [of _ t]) (simp add: caller_def, simp add: t_def)
  qed
qed

text \<open>The state of the cache in one predicate; \<open>keeps\<close> says that a referenced block stays where it is.\<close>

definition cache_is :: "nat \<Rightarrow> u32 \<Rightarrow> fkstate \<Rightarrow> (u32 \<Rightarrow> block) \<Rightarrow> (u32 \<Rightarrow> nat) \<Rightarrow> (u32 \<Rightarrow> int option) \<Rightarrow> (u32 \<Rightarrow> block) \<Rightarrow>
    (u32 \<times> block) list \<Rightarrow> bool" where
  "cache_is cur d s V R O' D W \<longleftrightarrow> caller cur d s \<and> bview d (fs s) = V \<and> refs d (fs s) = R \<and> owner d (fs s) = O' \<and>
     disk (fs s) = D \<and> written (fs s) = W"

definition keeps :: "u32 \<Rightarrow> fkstate \<Rightarrow> fkstate \<Rightarrow> bool" where
  "keeps d s t \<longleftrightarrow> quiet s t \<and> (\<forall>c m. holds d (fs s) c m \<and> 0 < refs d (fs s) m \<longrightarrow> holds d (fs t) c m)"

lemma keepsD: "keeps d s t \<Longrightarrow> holds d (fs s) c m \<Longrightarrow> cache_is cur d s V R O' D W \<Longrightarrow> 0 < R m \<Longrightarrow> holds d (fs t) c m"
  by (auto simp: keeps_def cache_is_def)

lemma keeps_quiet: "keeps d s t \<Longrightarrow> quiet s t"
  by (simp add: keeps_def)

lemma keeps_mypid: "keeps d s t \<Longrightarrow> cache_is cur d s V R O' D W \<Longrightarrow> mypid cur t = mypid cur s"
  using quiet_proc(2) by (simp add: keeps_def cache_is_def caller_def)

lemma bread_is:
  assumes "cache_is cur d s V R O' D W" "O' n = None" "0 < R n \<or> card {m. 0 < R m} < NBUF" "Suc (R n) < 2 ^ 32"
  obtains b t where "bread cur d n s = Some (b, t)" "keeps d s t" "holds d (fs t) b n"
    "cache_is cur d t V (R(n := Suc (R n))) (O'(n := Some (mypid cur s))) D W"
  using bread_ok [of cur d s n] assms by (auto simp: cache_is_def keeps_def)

lemma upd_is:
  assumes c: "cache_is cur d s V R O' D W" and h: "holds d (fs s) b n"
    and t: "t = upd_buf b g s" and g: "\<And>x. bdev (g x) = bdev x" "\<And>x. blockno (g x) = blockno x" "\<And>x. bnext (g x) = bnext x" "\<And>x. bprev (g x) = bprev x"
    and v: "bvalid (g (buf_of s b)) \<noteq> 0" "refcnt (g (buf_of s b)) = 0 \<Longrightarrow> bdata (g (buf_of s b)) = D n \<and> sl_locked (block (g (buf_of s b))) = 0"
  shows "cache_is cur d t (V(n := bdata (g (buf_of s b)))) (R(n := unat (refcnt (g (buf_of s b)))))
      (O'(n := lock_owner (block (g (buf_of s b))))) D W" "quiet s t" "holds d (fs t) = holds d (fs s)"
proof -
  have C: "caller cur d s" "bview d (fs s) = V" "refs d (fs s) = R" "owner d (fs s) = O'" "disk (fs s) = D" "written (fs s) = W"
    using c by (auto simp: cache_is_def)
  then have H: "held s = {}" "length (proc s) = NPROC" "cur < NPROC" and inv: "cache_inv d (fs s)" by (auto simp: caller_def)
  have e: "bufs (fs t) = (bufs (fs s))[b := g (buf_of s b)]" "disk (fs t) = disk (fs s)" by (simp_all add: t)
  have gb: "bdev (g (buf_of s b)) = d" "blockno (g (buf_of s b)) = n" using g h by (simp_all add: holds_def)
  note U = upd_one [where g = g and v' = "fs t", OF inv h gb e(1) fun_cong [OF e(2)]]
  have "buf_ok d (disk (fs t)) (g (buf_of s b))" using v gb by (auto simp: buf_ok_def C e(2))
  from upd_one_inv [where g = g and v' = "fs t", OF inv h gb g(3,4) e(1) fun_cong [OF e(2)] this]
  show "cache_is cur d t (V(n := bdata (g (buf_of s b)))) (R(n := unat (refcnt (g (buf_of s b)))))
      (O'(n := lock_owner (block (g (buf_of s b))))) D W"
    using H C U e(2) by (simp add: cache_is_def caller_def) (simp add: t)
  show "quiet s t" "holds d (fs t) = holds d (fs s)" using U by (simp_all add: t)
qed

lemma holds_is:
  assumes "cache_is cur d s V R O' D W" "holds d (fs s) b n"
  shows "V n = bdata (buf_of s b)" "R n = unat (refcnt (buf_of s b))" "O' n = lock_owner (block (buf_of s b))" "bvalid (buf_of s b) \<noteq> 0"
    "blockno (buf_of s b) = n" "b < length (bufs (fs s))" "b < NBUF"
proof -
  have inv: "cache_inv d (fs s)" using assms(1) by (simp add: cache_is_def caller_def)
  note D = cache_invD [OF inv]
  show "V n = bdata (buf_of s b)" "R n = unat (refcnt (buf_of s b))" "O' n = lock_owner (block (buf_of s b))"
    using holds_fields [OF inv assms(2)] assms(1) by (auto simp: cache_is_def)
  show b: "b < NBUF" "blockno (buf_of s b) = n" "b < length (bufs (fs s))" using assms(2) D(2) by (auto simp: holds_def)
  show "bvalid (buf_of s b) \<noteq> 0" using D(1) D(4) [OF b(1)] assms(2) by (auto simp: buf_ok_def holds_def)
qed

lemma set_data_is:
  assumes "cache_is cur d s V R O' D W" "holds d (fs s) b n" "0 < R n"
  shows "cache_is cur d (set_data b f s) (V(n := f (V n))) R O' D W" "keeps d s (set_data b f s)"
    "holds d (fs (set_data b f s)) = holds d (fs s)"
proof -
  note I = holds_is [OF assms(1,2)]
  have rc: "refcnt (buf_of s b) \<noteq> 0" using I(2) assms(3) by auto
  note U = upd_is [OF assms(1,2) set_data_def [of b f, THEN fun_cong, of s]]
  show "cache_is cur d (set_data b f s) (V(n := f (V n))) R O' D W"
    using U(1) I rc by (simp add: fun_upd_idem)
  show "keeps d s (set_data b f s)" "holds d (fs (set_data b f s)) = holds d (fs s)"
    using U(2,3) I rc by (auto simp: keeps_def)
qed

lemma disk_write_is:
  assumes "cache_is cur d s V R O' D W" "holds d (fs s) b n"
  shows "cache_is cur d (disk_write b s) V R O' (D(n := V n)) ((n, V n) # W)" "keeps d s (disk_write b s)"
proof -
  let ?t = "disk_write b s"
  note I = holds_is [OF assms(1,2)]
  have C: "caller cur d s" "bview d (fs s) = V" "refs d (fs s) = R" "owner d (fs s) = O'" "disk (fs s) = D" "written (fs s) = W"
    using assms(1) by (auto simp: cache_is_def)
  then have H: "held s = {}" "length (proc s) = NPROC" "cur < NPROC" and inv: "cache_inv d (fs s)" by (auto simp: caller_def)
  have f: "bufs (fs ?t) = bufs (fs s)" "disk (fs ?t) = D(n := V n)" "written (fs ?t) = (n, V n) # W" "held ?t = {}" "proc ?t = proc s"
    using C I H by (simp_all add: disk_write_def Let_def)
  have e: "bufs (fs ?t) = (bufs (fs s))[b := id (buf_of s b)]" "\<And>m. m \<noteq> n \<Longrightarrow> disk (fs ?t) m = disk (fs s) m" by (simp_all add: f C)
  have gb: "bdev (id (buf_of s b)) = d" "blockno (id (buf_of s b)) = n" using assms(2) by (simp_all add: holds_def)
  note D = cache_invD [OF inv]
  have "buf_ok d (disk (fs ?t)) (id (buf_of s b))" using D(4) [OF I(7)] I(1,5) by (auto simp: buf_ok_def f)
  from upd_one_inv [where g = id and v' = "fs ?t", OF inv assms(2) gb _ _ e this]
  have "cache_inv d (fs ?t)" by simp
  then show "cache_is cur d ?t V R O' (D(n := V n)) ((n, V n) # W)"
    using H C I upd_one [where g = id and v' = "fs ?t", OF inv assms(2) gb e] f by (simp add: cache_is_def caller_def fun_upd_idem)
  show "keeps d s ?t" by (simp add: keeps_def quiet_disk_write holds_def f(1))
qed

lemma bwrite_is:
  assumes "cache_is cur d s V R O' D W" "holds d (fs s) b n" "O' n = Some (mypid cur s)"
  shows "bwrite cur b s = Some (disk_write b s)"
    "cache_is cur d (disk_write b s) V R O' (D(n := V n)) ((n, V n) # W)" "keeps d s (disk_write b s)"
proof -
  have "held s = {}" using assms(1) by (simp add: cache_is_def caller_def)
  moreover have "sl_locked (block (buf_of s b)) \<noteq> 0 \<and> sl_pid (block (buf_of s b)) = mypid cur s"
    using holds_is(3) [OF assms(1,2)] assms(3) by (auto simp: lock_owner_def split: if_splits)
  ultimately show "bwrite cur b s = Some (disk_write b s)" by (simp add: bwrite_def holdingsleep_eq)
qed (rule disk_write_is [OF assms(1,2)])+

text \<open>Waking processes, and moving a buffer to the front of the list, change nothing its users see.\<close>

lemma wake_is:
  assumes "cache_is cur d s V R O' D W"
  shows "cache_is cur d (wake c ch s) V R O' D W"
  using assms by (simp add: cache_is_def caller_def)

lemma move_front_is:
  assumes c: "cache_is cur d s V R O' D W" and h: "holds d (fs s) b n"
    and t: "t = upd_fs (\<lambda>v. v\<lparr>bufs := move_front b (bufs v)\<rparr>) s"
  shows "cache_is cur d t V R O' D W" "quiet s t" "holds d (fs t) = holds d (fs s)"
proof -
  have inv: "cache_inv d (fs s)" using c by (simp add: cache_is_def caller_def)
  have b: "b < NBUF" using h by (simp add: holds_def)
  obtain xs where xs: "lru (bufs (fs s)) xs" "set xs = {..<NBUF}" using inv by (auto simp: cache_inv_def)
  have "lru (move_front b (bufs (fs s))) (b # remove1 b xs)" by (rule lru_move_front [OF xs(1)]) (simp add: xs(2) b)
  moreover have "set (b # remove1 b xs) = {..<NBUF}" using xs b lruD(2) [OF xs(1)] by (auto simp: set_remove1_eq)
  ultimately have "cache_inv d (fs t)"
    using inv by (auto simp: t cache_inv_def uniq_def buf_ok_def)
  moreover have sl: "slot d (bufs (fs t)) = slot d (bufs (fs s))" by (simp add: t slot_def fun_eq_iff)
  then have "bview d (fs t) = bview d (fs s)" "refs d (fs t) = refs d (fs s)" "owner d (fs t) = owner d (fs s)"
    by (auto simp: fun_eq_iff bview_def refs_def owner_def t split: option.splits)
  ultimately show "cache_is cur d t V R O' D W" using c by (simp add: cache_is_def caller_def) (simp add: t)
  show "quiet s t" "holds d (fs t) = holds d (fs s)" by (simp_all add: t quiet_def holds_def fun_eq_iff)
qed

lemma drop_ref:
  assumes "N = unat (x :: u32)" "0 < N"
  shows "unat (x - 1) = N - 1" "x - 1 = 0 \<longleftrightarrow> N = 1"
proof -
  have "x \<noteq> 0" using assms by auto
  then show e: "unat (x - 1) = N - 1" using assms(1) by (simp add: unat_minus_one)
  show "x - 1 = 0 \<longleftrightarrow> N = 1" using e assms(2) unat_eq_zero [of "x - 1"] by auto
qed

lemma brelse_is:
  assumes c: "cache_is cur d s V R O' D W" and h: "holds d (fs s) b n" and o: "O' n = Some (mypid cur s)" and r: "0 < R n"
    and clean: "R n = 1 \<Longrightarrow> V n = D n"
  obtains t where "brelse cur b s = Some t" "keeps d s t" "cache_is cur d t V (R(n := R n - 1)) (O'(n := None)) D W"
    "holds d (fs t) = holds d (fs s)"
proof -
  note I = holds_is [OF c h]
  have H: "held s = {}" "length (proc s) = NPROC" "cur < NPROC" using c by (auto simp: cache_is_def caller_def)
  have l: "sl_locked (block (buf_of s b)) \<noteq> 0 \<and> sl_pid (block (buf_of s b)) = mypid cur s"
    using I(3) o by (auto simp: lock_owner_def split: if_splits)
  define g1 :: "buf \<Rightarrow> buf" where "g1 = (\<lambda>x. x\<lparr>block := (block x)\<lparr>sl_locked := 0, sl_pid := 0\<rparr>\<rparr>)"
  define g2 :: "buf \<Rightarrow> buf" where "g2 = (\<lambda>x. (g1 x)\<lparr>refcnt := refcnt (g1 x) - 1\<rparr>)"
  define s1 where "s1 = upd_buf b g2 (wake (Some cur) (sl_chan (BufSl b)) s)"
  define s0 where "s0 = upd_buf b g1 (wake (Some cur) (sl_chan (BufSl b)) s)"
  have rs: "releasesleep cur (BufSl b) s = Some s0" "held s0 = {}" using H by (simp_all add: releasesleep_eq g1_def s0_def)
  have s1: "upd_buf b (\<lambda>x. x\<lparr>refcnt := refcnt x - 1\<rparr>) s0 = s1"
    using I(6) by (simp add: upd_buf_upd_buf s0_def s1_def g2_def)
  let ?t = "if refcnt (buf_of s1 b) = 0 then upd_fs (\<lambda>v. v\<lparr>bufs := move_front b (bufs v)\<rparr>) s1 else s1"
  have rf: "refcnt ((bufs (fs s0))[b := (buf_of s0 b)\<lparr>refcnt := refcnt (buf_of s0 b) - 1\<rparr>] ! b) = refcnt (buf_of s1 b)"
    by (simp add: s1 [symmetric])
  have "held s1 = {}" using rs(2) by (simp add: s1 [symmetric])
  then have b: "brelse cur b s = Some ?t"
    using H(1) l rs rf by (simp add: brelse_def holdingsleep_eq move_front_def s1 Let_def)
  note cw = wake_is [OF c, of "Some cur" "sl_chan (BufSl b)"]
  have rc: "unat (refcnt (g2 (buf_of s b))) = R n - 1" "refcnt (g2 (buf_of s b)) = 0 \<longleftrightarrow> R n = 1"
    using drop_ref [OF I(2) r] by (simp_all add: g2_def g1_def)
  have hw: "holds d (fs (wake (Some cur) (sl_chan (BufSl b)) s)) b n" using h by simp
  have u: "cache_is cur d s1 V (R(n := R n - 1)) (O'(n := None)) D W" "quiet (wake (Some cur) (sl_chan (BufSl b)) s) s1"
    "holds d (fs s1) = holds d (fs s)"
    using upd_is [OF cw hw s1_def] I(1,4) rc clean by (simp_all add: g2_def g1_def lock_owner_def fun_upd_idem)
  have q: "quiet s s1" by (rule quiet_trans [OF quiet_wake u(2)])
  have h1: "holds d (fs s1) b n" using h u(3) by simp
  note m = move_front_is [OF u(1) h1 refl]
  have t: "cache_is cur d ?t V (R(n := R n - 1)) (O'(n := None)) D W" "quiet s ?t" "holds d (fs ?t) = holds d (fs s)"
    using m(1,3) u(1,3) q quiet_trans [OF q m(2)] by auto
  show thesis by (rule that [OF b _ t(1,3)]) (simp only: keeps_def t(2,3), simp)
qed

lemma bunpin_is:
  assumes c: "cache_is cur d s V R O' D W" and h: "holds d (fs s) b n" and r: "0 < R n"
    and clean: "R n = 1 \<Longrightarrow> V n = D n \<and> O' n = None"
  obtains t where "bunpin b s = Some t" "keeps d s t" "cache_is cur d t V (R(n := R n - 1)) O' D W" "holds d (fs t) = holds d (fs s)"
proof -
  note I = holds_is [OF c h]
  have H: "held s = {}" using c by (auto simp: cache_is_def caller_def)
  define t where "t = upd_buf b (\<lambda>x. x\<lparr>refcnt := refcnt x - 1\<rparr>) s"
  have "bunpin b s = Some t" using H by (simp add: bunpin_def t_def)
  moreover note U = upd_is [OF c h t_def] and rc = drop_ref [OF I(2) r]
  have "cache_is cur d t V (R(n := R n - 1)) O' D W" "quiet s t" "holds d (fs t) = holds d (fs s)"
    using U I rc clean by (auto simp: fun_upd_idem lock_owner_def split: if_splits)
  ultimately show thesis using that by (simp add: keeps_def)
qed

lemma bpin_is:
  assumes c: "cache_is cur d s V R O' D W" and h: "holds d (fs s) b n" and r: "Suc (R n) < 2 ^ 32"
  obtains t where "bpin b s = Some t" "keeps d s t" "cache_is cur d t V (R(n := Suc (R n))) O' D W" "holds d (fs t) = holds d (fs s)"
proof -
  note I = holds_is [OF c h]
  have H: "held s = {}" using c by (auto simp: cache_is_def caller_def)
  define t where "t = upd_buf b (\<lambda>x. x\<lparr>refcnt := refcnt x + 1\<rparr>) s"
  have "bpin b s = Some t" using H by (simp add: bpin_def t_def)
  moreover have rc: "unat (refcnt (buf_of s b) + 1) = Suc (R n)" using r I(2) by (simp add: unat_word_ariths)
  then have nz: "refcnt (buf_of s b) + 1 \<noteq> 0" by auto
  note U = upd_is [OF c h t_def]
  have "cache_is cur d t V (R(n := Suc (R n))) O' D W" "quiet s t" "holds d (fs t) = holds d (fs s)"
    using U I rc nz by (simp_all add: fun_upd_idem)
  ultimately show thesis using that by (simp add: keeps_def)
qed

end
