(* ===== verification/Fs_Wal.thy ===== *)
theory Fs_Wal
  imports Prelude
begin

text \<open>
  The argument for crash safety of a redo log, over any encoding of its header block. A disk is a map from
  addresses to blocks; a header names the home addresses of the blocks saved in the slots of the log, and the
  \<open>logical\<close> disk is what the reader of a disk sees after the blocks of a committed log have been copied
  home. The locale states what the argument needs of the header and of the place of the log; the
  interpretation is in \<open>Fs_Log\<close>.
\<close>

definition apply_writes :: "('a \<times> 'b) list \<Rightarrow> ('a \<Rightarrow> 'b) \<Rightarrow> 'a \<Rightarrow> 'b" where
  "apply_writes ws D = fold (\<lambda>(a, v) D. D(a := v)) ws D"

lemma apply_writes_simps [simp]:
  "apply_writes [] D = D" "apply_writes (w # ws) D = apply_writes ws (D(fst w := snd w))"
  "apply_writes (ws @ ws') D = apply_writes ws' (apply_writes ws D)"
  by (simp_all add: apply_writes_def case_prod_beta)

lemma apply_writes_other: "m \<notin> fst ` set ws \<Longrightarrow> apply_writes ws D m = D m"
  by (induction ws arbitrary: D) auto

lemma apply_writes_distinct: "distinct (map fst ws) \<Longrightarrow> (a, v) \<in> set ws \<Longrightarrow> apply_writes ws D a = v"
  by (induction ws arbitrary: D) (auto simp: apply_writes_other)

text \<open>The same list of values written to the addresses \<open>f 0\<close>, \<open>f 1\<close> and so on.\<close>

definition seq_writes :: "(nat \<Rightarrow> 'a) \<Rightarrow> (nat \<Rightarrow> 'b) \<Rightarrow> nat \<Rightarrow> ('a \<times> 'b) list" where
  "seq_writes f g n = map (\<lambda>i. (f i, g i)) [0..<n]"

lemma length_seq_writes [simp]: "length (seq_writes f g n) = n"
  by (simp add: seq_writes_def)

lemma take_seq_writes: "take k (seq_writes f g n) = seq_writes f g (min k n)"
  by (simp add: seq_writes_def take_map take_upt min_def)

lemma seq_writes_Suc: "seq_writes f g (Suc n) = seq_writes f g n @ [(f n, g n)]"
  by (simp add: seq_writes_def)

lemma seq_writes_at:
  assumes "\<And>i j. i < n \<Longrightarrow> j < n \<Longrightarrow> f i = f j \<Longrightarrow> i = j" "i < n"
  shows "apply_writes (seq_writes f g n) D (f i) = g i"
proof (rule apply_writes_distinct)
  show "distinct (map fst (seq_writes f g n))"
    using assms(1) by (auto simp: seq_writes_def comp_def distinct_map inj_on_def)
qed (use assms(2) in \<open>auto simp: seq_writes_def\<close>)

lemma not_image: "(\<And>i. i < n \<Longrightarrow> f i \<noteq> a) \<Longrightarrow> a \<notin> f ` {..<(n :: nat)}"
  by auto

lemma seq_writes_other: "m \<notin> f ` {..<n} \<Longrightarrow> apply_writes (seq_writes f g n) D m = D m"
  by (rule apply_writes_other) (auto simp: seq_writes_def)

definition logical :: "('b \<Rightarrow> 'a list) \<Rightarrow> 'a \<Rightarrow> (nat \<Rightarrow> 'a) \<Rightarrow> ('a \<Rightarrow> 'b) \<Rightarrow> 'a \<Rightarrow> 'b" where
  "logical dec hda slot D m =
     (case find (\<lambda>i. dec (D hda) ! i = m) [0..<length (dec (D hda))] of Some i \<Rightarrow> D (slot i) | None \<Rightarrow> D m)"

locale redo_log =
  fixes dec :: "'b \<Rightarrow> 'a list" and hda :: 'a and slot :: "nat \<Rightarrow> 'a" and cap :: nat
  assumes slot_inj: "i < cap \<Longrightarrow> j < cap \<Longrightarrow> slot i = slot j \<Longrightarrow> i = j"
    and slot_hd: "i < cap \<Longrightarrow> slot i \<noteq> hda"
begin

lemma logical_empty: "dec (D hda) = [] \<Longrightarrow> logical dec hda slot D m = D m"
  by (simp add: logical_def)

lemma logical_entry:
  assumes "distinct (dec (D hda))" "i < length (dec (D hda))"
  shows "logical dec hda slot D (dec (D hda) ! i) = D (slot i)"
proof -
  have "find (\<lambda>j. dec (D hda) ! j = dec (D hda) ! i) [0..<length (dec (D hda))] = Some i"
    using assms by (auto simp: find_Some_iff nth_eq_iff_index_eq intro!: exI [of _ i])
  then show ?thesis by (simp add: logical_def)
qed

lemma logical_other: "m \<notin> set (dec (D hda)) \<Longrightarrow> logical dec hda slot D m = D m"
  by (auto simp: logical_def find_Some_iff split: option.split)

text \<open>The homes named by a header are outside the log.\<close>

lemma commit_trace:
  assumes h: "dec (D hda) = []" "dec h1 = L" "dec h0 = []"
    and L: "distinct L" "length L = n" "n \<le> cap" "\<And>i. i < n \<Longrightarrow> L ! i \<noteq> hda" "\<And>i j. i < n \<Longrightarrow> j < cap \<Longrightarrow> L ! i \<noteq> slot j"
    and ws: "ws = seq_writes slot g n @ [(hda, h1)] @ seq_writes (nth L) g n @ [(hda, h0)]"
    and m: "m \<noteq> hda" "\<And>j. j < cap \<Longrightarrow> m \<noteq> slot j"
    and E: "E = apply_writes (take k ws) D"
  shows "dec (E hda) = (if Suc n \<le> k \<and> k < length ws then L else [])"
    "logical dec hda slot E m = (if Suc n \<le> k then apply_writes (seq_writes (nth L) g n) D m else D m)"
proof -
  have inj: "\<And>i j. i < n \<Longrightarrow> j < n \<Longrightarrow> slot i = slot j \<Longrightarrow> i = j" using slot_inj L(3) by simp
  have injL: "\<And>i j. i < n \<Longrightarrow> j < n \<Longrightarrow> L ! i = L ! j \<Longrightarrow> i = j" using L(1,2) by (simp add: nth_eq_iff_index_eq)
  have len: "length ws = 2 * n + 2" by (simp add: ws)
  have "dec (E hda) = (if Suc n \<le> k \<and> k < length ws then L else []) \<and>
      logical dec hda slot E m = (if Suc n \<le> k then apply_writes (seq_writes (nth L) g n) D m else D m)"
  proof (cases "k \<le> n")
    case True
    then have e: "E = apply_writes (seq_writes slot g k) D" by (simp add: E ws take_seq_writes min_def)
    have "E hda = D hda" unfolding e by (rule seq_writes_other, rule not_image) (use slot_hd True L(3) in simp)
    moreover have "E m = D m" unfolding e by (rule seq_writes_other, rule not_image) (use m(2) [symmetric] True L(3) in simp)
    ultimately show ?thesis using True h(1) by (simp add: logical_empty)
  next
    case False
    define j where "j = min (k - Suc n) n"
    let ?C = "(apply_writes (seq_writes slot g n) D)(hda := h1)"
    define F where "F = apply_writes (seq_writes (nth L) g j) ?C"
    have jn: "j \<le> n" by (simp add: j_def)
    have "F hda = ?C hda" unfolding F_def by (rule seq_writes_other, rule not_image) (use L(4) jn in simp)
    then have Fhd: "F hda = h1" by simp
    have Fs: "F (slot i) = g i" if "i < n" for i
    proof -
      have "F (slot i) = ?C (slot i)" unfolding F_def
        by (rule seq_writes_other, rule not_image) (use L(3,5) jn that in simp)
      also have "\<dots> = g i" using slot_hd [of i] L(3) that seq_writes_at [OF inj that] by simp
      finally show ?thesis .
    qed
    have "apply_writes (seq_writes slot g n) D m = D m"
      by (rule seq_writes_other, rule not_image) (use m(2) [symmetric] L(3) in simp)
    then have Cm: "?C m = D m" using m(1) by simp
    have Fm: "logical dec hda slot F m = apply_writes (seq_writes (nth L) g n) D m"
    proof (cases "m \<in> set L")
      case True
      then obtain i where i: "i < n" "m = L ! i" using L(2) by (auto simp: in_set_conv_nth)
      have "logical dec hda slot F m = g i" using logical_entry [of F i] i Fhd h(2) L(1,2) Fs by simp
      moreover have "apply_writes (seq_writes ((!) L) g n) D (L ! i) = g i" by (rule seq_writes_at [OF _ i(1)]) (rule injL)
      ultimately show ?thesis using i(2) by simp
    next
      case False
      then have nm: "m \<notin> (!) L ` {..<n}" using L(2) by auto
      have "logical dec hda slot F m = F m" using False Fhd h(2) by (simp add: logical_other)
      also have "\<dots> = ?C m" unfolding F_def by (rule seq_writes_other) (use nm jn in auto)
      finally show ?thesis using Cm seq_writes_other [OF nm, where g = g and D = D] by simp
    qed
    show ?thesis
    proof (cases "k < length ws")
      case True
      have kk: "k - n = Suc (k - Suc n)" using False by simp
      have "k - (n + Suc n) = 0" using True len by simp
      then have "E = F" using False by (simp add: E ws F_def kk take_seq_writes j_def)
      then show ?thesis using Fm Fhd h(2) True False by simp
    next
      case k: False
      then have "j = n" using len by (simp add: j_def)
      moreover have "E = apply_writes ws D" using k by (simp add: E)
      ultimately have e: "E = F(hda := h0)" by (simp add: ws F_def)
      have Ehd: "dec (E hda) = []" by (simp add: e h(3))
      have "logical dec hda slot E m = F m" using m(1) by (simp add: logical_empty [of E, OF Ehd]) (simp add: e)
      also have "\<dots> = apply_writes (seq_writes (nth L) g n) D m"
      proof (cases "m \<in> (!) L ` {..<n}")
        case True
        then obtain i where i: "i < n" "m = L ! i" by auto
        have "apply_writes (seq_writes ((!) L) g n) X (L ! i) = g i" for X by (rule seq_writes_at [OF _ i(1)]) (rule injL)
        then show ?thesis by (simp add: F_def \<open>j = n\<close> i(2))
      next
        case False
        then show ?thesis using Cm by (simp add: F_def \<open>j = n\<close> seq_writes_other)
      qed
      finally show ?thesis using Ehd k False len by simp
    qed
  qed
  then show "dec (E hda) = (if Suc n \<le> k \<and> k < length ws then L else [])"
    "logical dec hda slot E m = (if Suc n \<le> k then apply_writes (seq_writes (nth L) g n) D m else D m)" by blast+
qed

lemma recovery_trace:
  assumes h: "dec (D hda) = L" "dec h0 = []"
    and L: "distinct L" "length L = n" "n \<le> cap" "\<And>i. i < n \<Longrightarrow> L ! i \<noteq> hda" "\<And>i j. i < n \<Longrightarrow> j < cap \<Longrightarrow> L ! i \<noteq> slot j"
    and ws: "ws = seq_writes (nth L) (\<lambda>i. D (slot i)) n @ [(hda, h0)]"
    and m: "m \<noteq> hda" and E: "E = apply_writes (take k ws) D"
  shows "dec (E hda) = (if k \<le> n then L else [])" "logical dec hda slot E m = logical dec hda slot D m"
    "i < cap \<Longrightarrow> E (slot i) = D (slot i)"
proof -
  have injL: "\<And>i j. i < n \<Longrightarrow> j < n \<Longrightarrow> L ! i = L ! j \<Longrightarrow> i = j" using L(1,2) by (simp add: nth_eq_iff_index_eq)
  define j where "j = min k n"
  define F where "F = apply_writes (seq_writes (nth L) (\<lambda>i. D (slot i)) j) D"
  have jn: "j \<le> n" by (simp add: j_def)
  have Fhd: "F hda = D hda" unfolding F_def by (rule seq_writes_other, rule not_image) (use L(4) jn in simp)
  have Fs: "F (slot i) = D (slot i)" if "i < cap" for i
    unfolding F_def by (rule seq_writes_other, rule not_image) (use L(5) jn that in simp)
  have Dm: "logical dec hda slot D m = (if m \<in> set L then apply_writes (seq_writes (nth L) (\<lambda>i. D (slot i)) n) D m else D m)"
  proof (cases "m \<in> set L")
    case True
    then obtain i where i: "i < n" "m = L ! i" using L(2) by (auto simp: in_set_conv_nth)
    then have "logical dec hda slot D m = D (slot i)" using logical_entry [of D i] h(1) L(1,2) by simp
    moreover have "apply_writes (seq_writes ((!) L) (\<lambda>i. D (slot i)) n) D (L ! i) = D (slot i)"
      by (rule seq_writes_at [OF _ i(1)]) (rule injL)
    ultimately show ?thesis using True i(2) by simp
  qed (simp add: logical_other h(1))
  have Fm: "logical dec hda slot F m = logical dec hda slot D m"
  proof (cases "m \<in> set L")
    case True
    then obtain i where i: "i < n" "m = L ! i" using L(2) by (auto simp: in_set_conv_nth)
    then show ?thesis using logical_entry [of F i] logical_entry [of D i] Fhd h(1) L(1-3) Fs [of i] by simp
  next
    case False
    then have "m \<notin> (!) L ` {..<j}" using L(2) jn by auto
    then have "F m = D m" by (simp add: F_def seq_writes_other)
    then show ?thesis using False Fhd h(1) by (simp add: logical_other)
  qed
  have "dec (E hda) = (if k \<le> n then L else []) \<and> logical dec hda slot E m = logical dec hda slot D m \<and>
      (\<forall>i < cap. E (slot i) = D (slot i))"
  proof (cases "k \<le> n")
    case True
    then have "E = F" by (simp add: E ws F_def take_seq_writes j_def)
    then show ?thesis using True Fm Fhd Fs h(1) by simp
  next
    case False
    then have e: "E = F(hda := h0)" "j = n" by (simp_all add: E ws F_def j_def)
    then have Ehd: "dec (E hda) = []" by (simp add: h(2))
    have "m \<notin> (!) L ` {..<n}" if "m \<notin> set L" using that L(2) by auto
    then have "F m = logical dec hda slot D m" unfolding Dm by (auto simp: F_def e(2) seq_writes_other)
    then have "logical dec hda slot E m = logical dec hda slot D m"
      unfolding logical_empty [of E, OF Ehd] using m by (simp add: e(1))
    moreover have "E (slot i) = D (slot i)" if "i < cap" for i using Fs [OF that] slot_hd [OF that] by (simp add: e(1))
    ultimately show ?thesis using False Ehd by simp
  qed
  then show "dec (E hda) = (if k \<le> n then L else [])" "logical dec hda slot E m = logical dec hda slot D m"
    "i < cap \<Longrightarrow> E (slot i) = D (slot i)" by blast+
qed

end

end
