(* ===== verification/Fs_Log.thy ===== *)
theory Fs_Log
  imports Fs_Cache Fs_Wal
begin

text \<open>
  The log, \<^verbatim>\<open>kernel/log.c\<close>. A block of the disk holds the header: a count and the home addresses of
  the logged blocks, 32-bit words. \<open>begin_op\<close> sleeps while a commit runs or space may run out, so a call
  of it is one turn of its loop; \<open>end_op\<close> commits when the last operation ends. Writing past the array of
  block numbers is \<^const>\<open>None\<close>.
\<close>

subsection \<open>Words of a block\<close>

definition get32 :: "nat \<Rightarrow> block \<Rightarrow> u32" where
  "get32 i bs = ucast (bs ! (4 * i)) OR push_bit 8 (ucast (bs ! (4 * i + 1))) OR push_bit 16 (ucast (bs ! (4 * i + 2))) OR
     push_bit 24 (ucast (bs ! (4 * i + 3)))"

definition put32 :: "nat \<Rightarrow> u32 \<Rightarrow> block \<Rightarrow> block" where
  "put32 i v bs = bs[4 * i := ucast v, 4 * i + 1 := ucast (drop_bit 8 v), 4 * i + 2 := ucast (drop_bit 16 v),
     4 * i + 3 := ucast (drop_bit 24 v)]"

text \<open>The header as the code writes it into the block: the count, then that many block numbers.\<close>

definition enc_head :: "int \<Rightarrow> u32 list \<Rightarrow> block \<Rightarrow> block" where
  "enc_head n blocks bs = fold (\<lambda>i bs. put32 (Suc i) (blocks ! i) bs) [0..<nat n] (put32 0 (word_of_int n) bs)"

definition dec_head :: "block \<Rightarrow> u32 list" where
  "dec_head bs = map (\<lambda>i. get32 (Suc i) bs) [0..<nat (sint (get32 0 bs))]"

subsection \<open>Operations\<close>

definition log_slot :: "u32 \<Rightarrow> nat \<Rightarrow> u32" where
  "log_slot start tail = start + of_nat tail + 1"

fun install_trans :: "nat \<Rightarrow> bool \<Rightarrow> nat list \<Rightarrow> fkstate \<Rightarrow> fkstate option" where
  "install_trans cur recovering [] s = Some s"
| "install_trans cur recovering (tail # ts) s = do {
     let l = flog (fs s);
     (lbuf, s) \<leftarrow> bread cur (log_dev l) (log_slot (log_start l) tail) s;
     (dbuf, s) \<leftarrow> bread cur (log_dev l) (lh_block (lh l) ! tail) s;
     let s = set_data dbuf (\<lambda>_. bdata (buf_of s lbuf)) s;
     s \<leftarrow> bwrite cur dbuf s;
     s \<leftarrow> (if recovering then Some s else bunpin dbuf s);
     s \<leftarrow> brelse cur lbuf s;
     s \<leftarrow> brelse cur dbuf s;
     install_trans cur recovering ts s
   }"

definition log_tails :: "fkstate \<Rightarrow> nat list" where
  "log_tails s = [0..<nat (lh_n (lh (flog (fs s))))]"

definition set_head :: "(logheader \<Rightarrow> logheader) \<Rightarrow> fkstate \<Rightarrow> fkstate" where
  "set_head f = upd_log (\<lambda>l. l\<lparr>lh := f (lh l)\<rparr>)"

definition read_head :: "nat \<Rightarrow> fkstate \<Rightarrow> fkstate option" where
  "read_head cur s = do {
     (b, s) \<leftarrow> bread cur (log_dev (flog (fs s))) (log_start (flog (fs s))) s;
     let bs = bdata (buf_of s b);
     let n = sint (get32 0 bs);
     if n > int LOGBLOCKS then None
     else brelse cur b (set_head (\<lambda>h. \<lparr>lh_n = n, lh_block = fold (\<lambda>i xs. xs[i := get32 (Suc i) bs]) [0..<nat n] (lh_block h)\<rparr>) s)
   }"

definition write_head :: "nat \<Rightarrow> fkstate \<Rightarrow> fkstate option" where
  "write_head cur s = do {
     let l = flog (fs s);
     (b, s) \<leftarrow> bread cur (log_dev l) (log_start l) s;
     let s = set_data b (enc_head (lh_n (lh l)) (lh_block (lh l))) s;
     s \<leftarrow> bwrite cur b s;
     brelse cur b s
   }"

definition recover_from_log :: "nat \<Rightarrow> fkstate \<Rightarrow> fkstate option" where
  "recover_from_log cur s = do {
     s \<leftarrow> read_head cur s;
     s \<leftarrow> install_trans cur True (log_tails s) s;
     write_head cur (set_head (\<lambda>h. h\<lparr>lh_n := 0\<rparr>) s)
   }"

definition initlog :: "nat \<Rightarrow> u32 \<Rightarrow> superblock \<Rightarrow> fkstate \<Rightarrow> fkstate option" where
  "initlog cur dev sb0 s = recover_from_log cur (upd_log (\<lambda>l. l\<lparr>log_start := sb_logstart sb0, log_dev := dev\<rparr>) s)"

fun write_log :: "nat \<Rightarrow> nat list \<Rightarrow> fkstate \<Rightarrow> fkstate option" where
  "write_log cur [] s = Some s"
| "write_log cur (tail # ts) s = do {
     let l = flog (fs s);
     (to, s) \<leftarrow> bread cur (log_dev l) (log_slot (log_start l) tail) s;
     (from, s) \<leftarrow> bread cur (log_dev l) (lh_block (lh l) ! tail) s;
     let s = set_data to (\<lambda>_. bdata (buf_of s from)) s;
     s \<leftarrow> bwrite cur to s;
     s \<leftarrow> brelse cur from s;
     s \<leftarrow> brelse cur to s;
     write_log cur ts s
   }"

definition commit :: "nat \<Rightarrow> fkstate \<Rightarrow> fkstate option" where
  "commit cur s =
     (if lh_n (lh (flog (fs s))) > 0 then do {
        s \<leftarrow> write_log cur (log_tails s) s;
        s \<leftarrow> write_head cur s;
        s \<leftarrow> install_trans cur False (log_tails s) s;
        write_head cur (set_head (\<lambda>h. h\<lparr>lh_n := 0\<rparr>) s)
      }
      else Some s)"

text \<open>One turn of the loop of \<open>begin_op\<close>, with the lock of the log held.\<close>

definition begin_op_turn :: "nat \<Rightarrow> fkstate \<Rightarrow> (unit outcome \<times> fkstate) option" where
  "begin_op_turn cur s =
     (let l = flog (fs s) in
      if committing l \<noteq> 0 then do { s \<leftarrow> sleep cur ChLog LogLock s; Some (Blocked, s) }
      else if lh_n (lh l) + (outstanding l + 1) * int MAXOPBLOCKS > int LOGBLOCKS then do {
        s \<leftarrow> sleep cur ChLog LogLock s;
        Some (Blocked, s)
      }
      else do {
        s \<leftarrow> k_release LogLock (upd_log (\<lambda>l. l\<lparr>outstanding := outstanding l + 1\<rparr>) s);
        Some (Return (), s)
      })"

definition begin_op :: "nat \<Rightarrow> fkstate \<Rightarrow> (unit outcome \<times> fkstate) option" where
  "begin_op cur s = Option.bind (k_acquire LogLock s) (begin_op_turn cur)"

definition begin_op_resume :: "nat \<Rightarrow> fkstate \<Rightarrow> (unit outcome \<times> fkstate) option" where
  "begin_op_resume cur s = Option.bind (sleep_resume cur LogLock s) (begin_op_turn cur)"

text \<open>\<open>end_op\<close> up to the release of the lock, with \<open>do_commit\<close>; then the whole call.\<close>

definition end_op_start :: "nat \<Rightarrow> fkstate \<Rightarrow> (bool \<times> fkstate) option" where
  "end_op_start cur s = do {
     s \<leftarrow> k_acquire LogLock s;
     let s = upd_log (\<lambda>l. l\<lparr>outstanding := outstanding l - 1\<rparr>) s;
     let l = flog (fs s);
     if committing l \<noteq> 0 then None
     else if outstanding l = 0 then do {
       s \<leftarrow> k_release LogLock (upd_log (\<lambda>l. l\<lparr>committing := 1\<rparr>) s);
       Some (True, s)
     }
     else do {
       s \<leftarrow> wakeup (Some cur) ChLog s;
       s \<leftarrow> k_release LogLock s;
       Some (False, s)
     }
   }"

definition end_op_finish :: "nat \<Rightarrow> fkstate \<Rightarrow> fkstate option" where
  "end_op_finish cur s = do {
     s \<leftarrow> k_acquire LogLock s;
     s \<leftarrow> wakeup (Some cur) ChLog (upd_log (\<lambda>l. l\<lparr>committing := 0\<rparr>) s);
     k_release LogLock s
   }"

definition end_op :: "nat \<Rightarrow> fkstate \<Rightarrow> fkstate option" where
  "end_op cur s = do {
     (do_commit, s) \<leftarrow> end_op_start cur s;
     if do_commit then do { s \<leftarrow> commit cur s; end_op_finish cur s } else Some s
   }"

text \<open>The position of the block in the header, or the count.\<close>

definition log_find :: "u32 \<Rightarrow> logheader \<Rightarrow> nat" where
  "log_find n h = (case find (\<lambda>i. lh_block h ! i = n) [0..<nat (lh_n h)] of Some i \<Rightarrow> i | None \<Rightarrow> nat (lh_n h))"

definition log_write :: "nat \<Rightarrow> fkstate \<Rightarrow> fkstate option" where
  "log_write b s = do {
     s \<leftarrow> k_acquire LogLock s;
     let l = flog (fs s);
     if lh_n (lh l) \<ge> int LOGBLOCKS \<or> outstanding l < 1 then None
     else do {
       let i = log_find (blockno (buf_of s b)) (lh l);
       let s = set_head (\<lambda>h. h\<lparr>lh_block := (lh_block h)[i := blockno (buf_of s b)]\<rparr>) s;
       s \<leftarrow> (if int i = lh_n (lh l) then do {
              s \<leftarrow> bpin b s;
              Some (set_head (\<lambda>h. h\<lparr>lh_n := lh_n h + 1\<rparr>) s)
            }
            else Some s);
       k_release LogLock s
     }
   }"

subsection \<open>The header block\<close>

lemma length_put32 [simp]: "length (put32 i v bs) = length bs"
  by (simp add: put32_def)

lemma get_put32:
  assumes "4 * i + 3 < length bs"
  shows "get32 i (put32 i v bs) = v"
proof (rule bit_word_eqI)
  let ?w = "put32 i v bs"
  have p: "?w ! (4 * i) = ucast v" "?w ! (4 * i + 1) = ucast (drop_bit 8 v)" "?w ! (4 * i + 2) = ucast (drop_bit 16 v)"
    "?w ! (4 * i + 3) = ucast (drop_bit 24 v)" using assms by (simp_all add: put32_def nth_list_update)
  fix n assume "n < LENGTH(32)"
  then have n: "n < 32" by simp
  consider "n < 8" | "8 \<le> n" "n < 16" | "16 \<le> n" "n < 24" | "24 \<le> n" "n < 32" using n by linarith
  then show "bit (get32 i ?w) n = bit v n"
    unfolding get32_def p
    by cases (simp_all add: bit_or_iff bit_push_bit_iff bit_ucast_iff bit_drop_bit_eq less_diff_conv2)
qed

lemma get_put32_other: "i \<noteq> j \<Longrightarrow> get32 j (put32 i v bs) = get32 j bs"
proof -
  assume ij: "i \<noteq> j"
  have "put32 i v bs ! (4 * j + k) = bs ! (4 * j + k)" if "k < 4" for k
  proof -
    have "4 * i + a \<noteq> 4 * j + k" if "a < 4" for a using ij that \<open>k < 4\<close> by presburger
    from this [of 0] this [of 1] this [of 2] this [of 3] show ?thesis by (simp add: put32_def)
  qed
  from this [of 0] this [of 1] this [of 2] this [of 3] show ?thesis by (simp add: get32_def)
qed

lemma enc_head_get:
  assumes "n \<le> LOGBLOCKS" "length bs = BSIZE"
  shows "length (enc_head (int n) L bs) = BSIZE \<and> get32 0 (enc_head (int n) L bs) = word_of_int (int n) \<and>
    (\<forall>i < n. get32 (Suc i) (enc_head (int n) L bs) = L ! i)"
proof -
  let ?f = "\<lambda>k. fold (\<lambda>i bs. put32 (Suc i) (L ! i) bs) [0..<k] (put32 0 (word_of_int (int n)) bs)"
  have "length (?f k) = BSIZE \<and> get32 0 (?f k) = word_of_int (int n) \<and> (\<forall>i < k. get32 (Suc i) (?f k) = L ! i)" if "k \<le> n" for k
    using that
  proof (induction k)
    case 0
    then show ?case using assms(2) by (simp add: get_put32 BSIZE_def)
  next
    case (Suc k)
    then have l: "4 * Suc k + 3 < length (?f k)" using assms by (simp add: LOGBLOCKS_def BSIZE_def)
    then show ?case using Suc by (auto simp: get_put32 get_put32_other less_Suc_eq)
  qed
  then show ?thesis by (simp add: enc_head_def)
qed

lemma sint_small: "n \<le> LOGBLOCKS \<Longrightarrow> sint (word_of_int (int n) :: u32) = int n"
  by (simp only: signed_of_int) (simp add: LOGBLOCKS_def signed_take_bit_int_eq_self)

lemma dec_enc_head:
  assumes "n \<le> LOGBLOCKS" "length bs = BSIZE" "n \<le> length L"
  shows "dec_head (enc_head (int n) L bs) = take n L"
proof (rule nth_equalityI)
  note E = enc_head_get [OF assms(1,2), of L]
  have s: "sint (get32 0 (enc_head (int n) L bs)) = int n" using E sint_small [OF assms(1)] by simp
  show "length (dec_head (enc_head (int n) L bs)) = length (take n L)" using s assms(3) by (simp add: dec_head_def)
  fix i assume "i < length (dec_head (enc_head (int n) L bs))"
  then show "dec_head (enc_head (int n) L bs) ! i = take n L ! i" using s E by (simp add: dec_head_def)
qed

text \<open>The log's place on the disk satisfies the contract of \<open>redo_log\<close>, wherever it starts.\<close>

interpretation wal: redo_log dec_head start "log_slot start" LOGBLOCKS for start :: u32
proof
  fix i j assume ij: "i < LOGBLOCKS" "j < LOGBLOCKS"
  have u: "unat (of_nat k :: u32) = k" if "k < LOGBLOCKS" for k
    using that by (simp add: unat_of_nat LOGBLOCKS_def take_bit_nat_eq_self)
  show "i = j" if "log_slot start i = log_slot start j"
  proof -
    have "of_nat i = (of_nat j :: u32)" using that unfolding log_slot_def by (simp only: add_right_cancel add_left_cancel)
    from arg_cong [OF this, of unat] show ?thesis unfolding u [OF ij(1)] u [OF ij(2)] .
  qed
  have "of_nat i + 1 \<noteq> (0 :: u32)"
  proof
    assume "of_nat i + 1 = (0 :: u32)"
    then have "of_nat (Suc i) = (0 :: u32)" by (simp add: add.commute)
    then have "unat (of_nat (Suc i) :: u32) = 0" by simp
    then show False using ij(1) by (simp only: unat_of_nat) (simp add: LOGBLOCKS_def take_bit_nat_eq_self)
  qed
  then show "log_slot start i \<noteq> start" by (simp add: log_slot_def add.assoc)
qed

end
