(* ===== verification/Fs_Commit.thy ===== *)
theory Fs_Commit
  imports Fs_Log
begin

text \<open>
  What a commit and a recovery do: the state of the cache and the sequence of block writes after each loop,
  step by step from the lemmas of \<open>Fs_Cache\<close>.
\<close>

lemma cache_is_clean: "cache_is cur d s V R O' D W \<Longrightarrow> R n = 0 \<Longrightarrow> V n = D n"
proof -
  assume c: "cache_is cur d s V R O' D W" and r: "R n = 0"
  then have inv: "cache_inv d (fs s)" and f: "bview d (fs s) = V" "refs d (fs s) = R" "disk (fs s) = D"
    by (auto simp: cache_is_def caller_def)
  show "V n = D n"
  proof (cases "slot d (bufs (fs s)) n")
    case None
    then have "bview d (fs s) n = disk (fs s) n" by (simp add: bview_def)
    then show ?thesis by (simp only: f)
  next
    case (Some b)
    then have h: "holds d (fs s) b n" by (rule slot_holds)
    note I = holds_is [OF c h]
    have "refcnt (buf_of s b) = 0" using I(2) r by (simp add: unat_eq_zero)
    then show ?thesis using cache_invD(1) [OF inv] cache_invD(4) [OF inv I(7)] h I(1) f by (auto simp: buf_ok_def holds_def)
  qed
qed

lemma cache_is_cong:
  assumes "bufs (fs t) = bufs (fs s)" "disk (fs t) = disk (fs s)" "written (fs t) = written (fs s)" "held t = held s" "proc t = proc s"
  shows "cache_is cur d t V R O' D W \<longleftrightarrow> cache_is cur d s V R O' D W"
proof -
  have "bview d (fs t) = bview d (fs s)" "refs d (fs t) = refs d (fs s)" "owner d (fs t) = owner d (fs s)" "cache_inv d (fs t) = cache_inv d (fs s)"
    unfolding bview_def [abs_def] refs_def [abs_def] owner_def [abs_def] cache_inv_def assms by (rule refl)+
  then show ?thesis using assms by (simp add: cache_is_def caller_def)
qed

lemma set_head_is: "cache_is cur d (set_head f s) V R O' D W \<longleftrightarrow> cache_is cur d s V R O' D W"
  by (rule cache_is_cong) (simp_all add: set_head_def upd_log_def)

lemma quiet_log: "quiet s t \<Longrightarrow> flog (fs t) = flog (fs s)"
  by (simp add: quiet_def)

lemma write_log_one:
  assumes c: "cache_is cur d s V R O' D W" and o: "O' a = None" "O' c = None" and ac: "a \<noteq> c" and r: "0 < R c" "card {m. 0 < R m} < NBUF"
    and m: "Suc (R a) < 2 ^ 32" "Suc (R c) < 2 ^ 32"
    and l: "log_dev (flog (fs s)) = d" "log_slot (log_start (flog (fs s))) tail = a" "lh_block (lh (flog (fs s))) ! tail = c"
  obtains t where "write_log cur (tail # ts) s = write_log cur ts t" "quiet s t"
    "cache_is cur d t (V(a := V c)) R O' (D(a := V c)) ((a, V c) # W)"
proof -
  obtain b1 s1 where 1: "bread cur d a s = Some (b1, s1)" "keeps d s s1" "holds d (fs s1) b1 a"
    "cache_is cur d s1 V (R(a := Suc (R a))) (O'(a := Some (mypid cur s))) D W"
    using bread_is [OF c o(1)] r(2) m(1) by blast
  obtain b2 s2 where 2: "bread cur d c s1 = Some (b2, s2)" "keeps d s1 s2" "holds d (fs s2) b2 c"
    "cache_is cur d s2 V (R(a := Suc (R a), c := Suc (R c))) (O'(a := Some (mypid cur s), c := Some (mypid cur s))) D W"
    using bread_is [OF 1(4), of c] o(2) ac r(1) m(2) keeps_mypid [OF 1(2) c] by auto
  have h1: "holds d (fs s2) b1 a" using keepsD [OF 2(2) 1(3,4)] by simp
  have bd: "bdata (buf_of s2 b2) = V c" using holds_is(1) [OF 2(4,3)] by simp
  let ?s3 = "set_data b1 (\<lambda>_. V c) s2"
  have 3: "cache_is cur d ?s3 (V(a := V c)) (R(a := Suc (R a), c := Suc (R c))) (O'(a := Some (mypid cur s), c := Some (mypid cur s))) D W"
    "keeps d s2 ?s3" "holds d (fs ?s3) b1 a" "holds d (fs ?s3) b2 c"
    using set_data_is [OF 2(4) h1, of "\<lambda>_. V c"] ac h1 2(3) by auto
  have k13: "mypid cur s2 = mypid cur s" "mypid cur ?s3 = mypid cur s"
    using keeps_mypid [OF 1(2) c] keeps_mypid [OF 2(2) 1(4)] keeps_mypid [OF 3(2) 2(4)] by simp_all
  let ?s4 = "disk_write b1 ?s3"
  have 4: "bwrite cur b1 ?s3 = Some ?s4" "keeps d ?s3 ?s4" "holds d (fs ?s4) b1 a" "holds d (fs ?s4) b2 c"
    "cache_is cur d ?s4 (V(a := V c)) (R(a := Suc (R a), c := Suc (R c))) (O'(a := Some (mypid cur s), c := Some (mypid cur s))) (D(a := V c)) ((a, V c) # W)"
    using bwrite_is [OF 3(1,3)] ac k13 keepsD [OF _ 3(3,1)] keepsD [OF _ 3(4,1)] by auto
  have k4: "mypid cur ?s4 = mypid cur s" using keeps_mypid [OF 4(2) 3(1)] k13 by simp
  have o4: "(O'(a := Some (mypid cur s), c := Some (mypid cur s))) c = Some (mypid cur ?s4)" using k4 by simp
  obtain s5 where 5: "brelse cur b2 ?s4 = Some s5" "keeps d ?s4 s5" "holds d (fs s5) b1 a"
    "cache_is cur d s5 (V(a := V c)) (R(a := Suc (R a), c := R c)) (O'(a := Some (mypid cur s), c := None)) (D(a := V c)) ((a, V c) # W)"
  proof (rule brelse_is [OF 4(5,4) o4])
    fix t assume "brelse cur b2 ?s4 = Some t" "keeps d ?s4 t" "holds d (fs t) = holds d (fs ?s4)"
      "cache_is cur d t (V(a := V c)) ((R(a := Suc (R a), c := Suc (R c)))(c := (R(a := Suc (R a), c := Suc (R c))) c - 1))
         ((O'(a := Some (mypid cur s), c := Some (mypid cur s)))(c := None)) (D(a := V c)) ((a, V c) # W)"
    then show thesis using that [of t] 4(3) by simp
  qed (use r(1) in simp_all)
  have k5: "mypid cur s5 = mypid cur s" using keeps_mypid [OF 5(2) 4(5)] k4 by simp
  have o5: "(O'(a := Some (mypid cur s), c := None)) a = Some (mypid cur s5)" using k5 ac by simp
  obtain s6 where 6: "brelse cur b1 s5 = Some s6" "keeps d s5 s6"
    "cache_is cur d s6 (V(a := V c)) ((R(a := Suc (R a), c := R c))(a := R a)) ((O'(a := Some (mypid cur s), c := None))(a := None)) (D(a := V c)) ((a, V c) # W)"
  proof (rule brelse_is [OF 5(4,3) o5])
    fix t assume "brelse cur b1 s5 = Some t" "keeps d s5 t"
      "cache_is cur d t (V(a := V c)) ((R(a := Suc (R a), c := R c))(a := (R(a := Suc (R a), c := R c)) a - 1))
         ((O'(a := Some (mypid cur s), c := None))(a := None)) (D(a := V c)) ((a, V c) # W)"
    then show thesis using that [of t] ac by simp
  qed (use ac in simp_all)
  have "(R(a := Suc (R a), c := R c))(a := R a) = R" "(O'(a := Some (mypid cur s), c := None))(a := None) = O'"
    using o ac by (auto simp: fun_eq_iff)
  with 6(3) have "cache_is cur d s6 (V(a := V c)) R O' (D(a := V c)) ((a, V c) # W)" by simp
  moreover have "quiet s s6"
    using 1(2) 2(2) 3(2) 4(2) 5(2) 6(2) by (meson keeps_quiet quiet_trans)
  moreover have "write_log cur (tail # ts) s = write_log cur ts s6"
    using 1(1) 2(1) 4(1) 5(1) 6(1) bd l quiet_log [OF keeps_quiet [OF 1(2)]] by simp
  ultimately show thesis using that by blast
qed

text \<open>One block copied from the log to its home; a recovery has no pin to remove.\<close>

lemma install_one:
  assumes c: "cache_is cur d s V R O' D W" and o: "O' a = None" "O' c = None" and ac: "a \<noteq> c"
    and r: "\<not> rec \<Longrightarrow> 0 < R c" "card {m. 0 < R m} < NBUF" "R c = 0 \<Longrightarrow> Suc (card {m. 0 < R m}) < NBUF" and m: "Suc (R a) < 2 ^ 32" "Suc (R c) < 2 ^ 32" and clean: "V a = D a"
    and l: "log_dev (flog (fs s)) = d" "log_slot (log_start (flog (fs s))) tail = a" "lh_block (lh (flog (fs s))) ! tail = c"
  obtains t where "install_trans cur rec (tail # ts) s = install_trans cur rec ts t" "quiet s t"
    "cache_is cur d t (V(c := V a)) (if rec then R else R(c := R c - 1)) O' (D(c := V a)) ((c, V a) # W)"
proof -
  let ?me = "Some (mypid cur s)"
  obtain b1 s1 where 1: "bread cur d a s = Some (b1, s1)" "keeps d s s1" "holds d (fs s1) b1 a"
    "cache_is cur d s1 V (R(a := Suc (R a))) (O'(a := ?me)) D W"
    using bread_is [OF c o(1)] r(2) m(1) by blast
  have "{m. 0 < (R(a := Suc (R a))) m} = insert a {m. 0 < R m}" by auto
  then have "0 < R c \<or> card {m. 0 < (R(a := Suc (R a))) m} < NBUF"
    using r(3) card_insert_le_m1 [of "Suc (card {m. 0 < R m})" "{m. 0 < R m}" a] by fastforce
  then obtain b2 s2 where 2: "bread cur d c s1 = Some (b2, s2)" "keeps d s1 s2" "holds d (fs s2) b2 c"
    "cache_is cur d s2 V (R(a := Suc (R a), c := Suc (R c))) (O'(a := ?me, c := ?me)) D W"
    using bread_is [OF 1(4), of c] o(2) ac m(2) keeps_mypid [OF 1(2) c] by auto
  have h1: "holds d (fs s2) b1 a" using keepsD [OF 2(2) 1(3,4)] by simp
  have bd: "bdata (buf_of s2 b1) = V a" using holds_is(1) [OF 2(4) h1] by simp
  let ?s3 = "set_data b2 (\<lambda>_. V a) s2"
  have 3: "cache_is cur d ?s3 (V(c := V a)) (R(a := Suc (R a), c := Suc (R c))) (O'(a := ?me, c := ?me)) D W"
    "keeps d s2 ?s3" "holds d (fs ?s3) b1 a" "holds d (fs ?s3) b2 c"
    using set_data_is [OF 2(4,3), of "\<lambda>_. V a"] ac h1 2(3) by auto
  have k13: "mypid cur s2 = mypid cur s" "mypid cur ?s3 = mypid cur s"
    using keeps_mypid [OF 1(2) c] keeps_mypid [OF 2(2) 1(4)] keeps_mypid [OF 3(2) 2(4)] by simp_all
  let ?s4 = "disk_write b2 ?s3"
  have 4: "bwrite cur b2 ?s3 = Some ?s4" "keeps d ?s3 ?s4" "holds d (fs ?s4) b1 a" "holds d (fs ?s4) b2 c"
    "cache_is cur d ?s4 (V(c := V a)) (R(a := Suc (R a), c := Suc (R c))) (O'(a := ?me, c := ?me)) (D(c := V a)) ((c, V a) # W)"
    using bwrite_is [OF 3(1,4)] ac k13 keepsD [OF _ 3(3,1)] keepsD [OF _ 3(4,1)] by auto
  have k4: "mypid cur ?s4 = mypid cur s" using keeps_mypid [OF 4(2) 3(1)] k13 by simp
  define rc where "rc = (if rec then Suc (R c) else R c)"
  obtain s5 where 5: "(if rec then Some ?s4 else bunpin b2 ?s4) = Some s5" "keeps d ?s4 s5" "holds d (fs s5) b1 a" "holds d (fs s5) b2 c"
    "cache_is cur d s5 (V(c := V a)) (R(a := Suc (R a), c := rc)) (O'(a := ?me, c := ?me)) (D(c := V a)) ((c, V a) # W)"
  proof (cases rec)
    case True
    show thesis by (rule that [of ?s4]) (use 4 True in \<open>simp_all add: rc_def keeps_def\<close>)
  next
    case False
    show thesis
    proof (rule bunpin_is [OF 4(5,4)])
      fix t assume "bunpin b2 ?s4 = Some t" "keeps d ?s4 t" "holds d (fs t) = holds d (fs ?s4)"
        "cache_is cur d t (V(c := V a)) ((R(a := Suc (R a), c := Suc (R c)))(c := (R(a := Suc (R a), c := Suc (R c))) c - 1))
           (O'(a := ?me, c := ?me)) (D(c := V a)) ((c, V a) # W)"
      then show thesis using that [of t] False 4(3,4) by (simp add: rc_def)
    qed (use r(1) False in simp_all)
  qed
  have k5: "mypid cur s5 = mypid cur s" using keeps_mypid [OF 5(2) 4(5)] k4 by simp
  have rc: "0 < rc" using r(1) by (simp add: rc_def)
  have o5: "(O'(a := ?me, c := ?me)) a = Some (mypid cur s5)" using k5 by simp
  obtain s6 where 6: "brelse cur b1 s5 = Some s6" "keeps d s5 s6" "holds d (fs s6) b2 c"
    "cache_is cur d s6 (V(c := V a)) (R(a := R a, c := rc)) (O'(a := None, c := ?me)) (D(c := V a)) ((c, V a) # W)"
  proof (rule brelse_is [OF 5(5,3) o5])
    fix t assume t: "brelse cur b1 s5 = Some t" "keeps d s5 t" "holds d (fs t) = holds d (fs s5)"
      "cache_is cur d t (V(c := V a)) ((R(a := Suc (R a), c := rc))(a := (R(a := Suc (R a), c := rc)) a - 1))
         ((O'(a := ?me, c := ?me))(a := None)) (D(c := V a)) ((c, V a) # W)"
    have "(R(a := Suc (R a), c := rc))(a := (R(a := Suc (R a), c := rc)) a - 1) = R(a := R a, c := rc)"
      "(O'(a := ?me, c := ?me))(a := None) = O'(a := None, c := ?me)" using ac by auto
    then show thesis using that [of t] t 5(4) by simp
  qed (use ac clean in simp_all)
  have k6: "mypid cur s6 = mypid cur s" using keeps_mypid [OF 6(2) 5(5)] k5 by simp
  have o6: "(O'(a := None, c := ?me)) c = Some (mypid cur s6)" using k6 by simp
  obtain s7 where 7: "brelse cur b2 s6 = Some s7" "keeps d s6 s7"
    "cache_is cur d s7 (V(c := V a)) (if rec then R else R(c := R c - 1)) O' (D(c := V a)) ((c, V a) # W)"
  proof (rule brelse_is [OF 6(4,3) o6])
    fix t assume t: "brelse cur b2 s6 = Some t" "keeps d s6 t"
      "cache_is cur d t (V(c := V a)) ((R(a := R a, c := rc))(c := (R(a := R a, c := rc)) c - 1))
         ((O'(a := None, c := ?me))(c := None)) (D(c := V a)) ((c, V a) # W)"
    have "(R(a := R a, c := rc))(c := (R(a := R a, c := rc)) c - 1) = (if rec then R else R(c := R c - 1))"
      "(O'(a := None, c := ?me))(c := None) = O'" using o ac by (auto simp: rc_def)
    then show thesis using that [of t] t by simp
  qed (use rc in simp_all)
  have "quiet s s7"
    using 1(2) 2(2) 3(2) 4(2) 5(2) 6(2) 7(2) by (meson keeps_quiet quiet_trans)
  moreover have "install_trans cur rec (tail # ts) s = install_trans cur rec ts s7"
    using 1(1) 2(1) 4(1) 5(1) 6(1) 7(1) bd l quiet_log [OF keeps_quiet [OF 1(2)]] by simp
  ultimately show thesis using that 7(3) by blast
qed

lemma write_head_ok:
  assumes c: "cache_is cur d s V R O' D W" and o: "O' a = None" and r: "card {m. 0 < R m} < NBUF" and m: "Suc (R a) < 2 ^ 32"
    and l: "log_dev (flog (fs s)) = d" "log_start (flog (fs s)) = a" "lh (flog (fs s)) = h"
    and e: "e = enc_head (lh_n h) (lh_block h) (V a)"
  obtains t where "write_head cur s = Some t" "quiet s t" "cache_is cur d t (V(a := e)) R O' (D(a := e)) ((a, e) # W)"
proof -
  let ?me = "Some (mypid cur s)"
  obtain b1 s1 where 1: "bread cur d a s = Some (b1, s1)" "keeps d s s1" "holds d (fs s1) b1 a"
    "cache_is cur d s1 V (R(a := Suc (R a))) (O'(a := ?me)) D W"
    using bread_is [OF c o] r m by blast
  let ?s3 = "set_data b1 (enc_head (lh_n h) (lh_block h)) s1"
  have 3: "cache_is cur d ?s3 (V(a := e)) (R(a := Suc (R a))) (O'(a := ?me)) D W" "keeps d s1 ?s3" "holds d (fs ?s3) b1 a"
    using set_data_is [OF 1(4,3), of "enc_head (lh_n h) (lh_block h)"] 1(3) e by auto
  have k3: "mypid cur ?s3 = mypid cur s" using keeps_mypid [OF 1(2) c] keeps_mypid [OF 3(2) 1(4)] by simp
  let ?s4 = "disk_write b1 ?s3"
  have 4: "bwrite cur b1 ?s3 = Some ?s4" "keeps d ?s3 ?s4" "holds d (fs ?s4) b1 a"
    "cache_is cur d ?s4 (V(a := e)) (R(a := Suc (R a))) (O'(a := ?me)) (D(a := e)) ((a, e) # W)"
    using bwrite_is [OF 3(1,3)] k3 keepsD [OF _ 3(3,1)] by auto
  have k4: "mypid cur ?s4 = mypid cur s" using keeps_mypid [OF 4(2) 3(1)] k3 by simp
  have o4: "(O'(a := ?me)) a = Some (mypid cur ?s4)" using k4 by simp
  obtain s5 where 5: "brelse cur b1 ?s4 = Some s5" "keeps d ?s4 s5" "cache_is cur d s5 (V(a := e)) R O' (D(a := e)) ((a, e) # W)"
  proof (rule brelse_is [OF 4(4,3) o4])
    fix t assume t: "brelse cur b1 ?s4 = Some t" "keeps d ?s4 t"
      "cache_is cur d t (V(a := e)) ((R(a := Suc (R a)))(a := (R(a := Suc (R a))) a - 1)) ((O'(a := ?me))(a := None)) (D(a := e)) ((a, e) # W)"
    have "(R(a := Suc (R a)))(a := (R(a := Suc (R a))) a - 1) = R" "(O'(a := ?me))(a := None) = O'" using o by auto
    then show thesis using that [of t] t by simp
  qed simp_all
  have "quiet s s5" using 1(2) 3(2) 4(2) 5(2) by (meson keeps_quiet quiet_trans)
  moreover have "write_head cur s = Some s5" using 1(1) 4(1) 5(1) l by (simp add: write_head_def Let_def)
  ultimately show thesis using that 5(3) by blast
qed

subsection \<open>The loops\<close>

definition log_is :: "u32 \<Rightarrow> u32 \<Rightarrow> u32 list \<Rightarrow> fkstate \<Rightarrow> bool" where
  "log_is d start L s \<longleftrightarrow> log_dev (flog (fs s)) = d \<and> log_start (flog (fs s)) = start \<and> lh_n (lh (flog (fs s))) = int (length L) \<and>
     length L \<le> LOGBLOCKS \<and> length (lh_block (lh (flog (fs s)))) = LOGBLOCKS \<and> take (length L) (lh_block (lh (flog (fs s)))) = L"

text \<open>The homes are distinct and lie outside the log.\<close>

definition homes_ok :: "u32 \<Rightarrow> u32 list \<Rightarrow> bool" where
  "homes_ok start L \<longleftrightarrow> distinct L \<and> length L \<le> LOGBLOCKS \<and>
     (\<forall>i < length L. L ! i \<noteq> start \<and> (\<forall>j < LOGBLOCKS. L ! i \<noteq> log_slot start j))"

lemma homes_okD:
  assumes "homes_ok start L" "i < length L"
  shows "L ! i \<noteq> start" "j < LOGBLOCKS \<Longrightarrow> L ! i \<noteq> log_slot start j" "i < LOGBLOCKS" "j < length L \<Longrightarrow> L ! i = L ! j \<longleftrightarrow> i = j"
  using assms by (auto simp: homes_ok_def nth_eq_iff_index_eq)

lemma log_is_quiet: "quiet s t \<Longrightarrow> log_is d start L t \<longleftrightarrow> log_is d start L s"
  by (simp add: log_is_def quiet_log)

lemma log_isD:
  assumes "log_is d start L s"
  shows "log_dev (flog (fs s)) = d" "log_start (flog (fs s)) = start" "lh_n (lh (flog (fs s))) = int (length L)"
    "log_tails s = [0..<length L]" "i < length L \<Longrightarrow> lh_block (lh (flog (fs s))) ! i = L ! i"
proof -
  show "log_dev (flog (fs s)) = d" "log_start (flog (fs s)) = start" "lh_n (lh (flog (fs s))) = int (length L)" "log_tails s = [0..<length L]"
    using assms by (simp_all add: log_is_def log_tails_def)
  assume "i < length L"
  then have "take (length L) (lh_block (lh (flog (fs s)))) ! i = lh_block (lh (flog (fs s))) ! i" by simp
  then show "lh_block (lh (flog (fs s))) ! i = L ! i" using assms by (simp add: log_is_def)
qed

lemma write_log_loop:
  assumes "cache_is cur d s V R O' D W" "log_is d start L s" "homes_ok start L" "set ts \<subseteq> {..<length L}"
    and "\<And>i. i < length L \<Longrightarrow> O' (log_slot start i) = None \<and> O' (L ! i) = None \<and> 0 < R (L ! i) \<and>
      Suc (R (log_slot start i)) < 2 ^ 32 \<and> Suc (R (L ! i)) < 2 ^ 32 \<and> V (L ! i) = g i"
    and "card {m. 0 < R m} < NBUF"
  obtains t where "write_log cur ts s = Some t" "quiet s t"
    "cache_is cur d t (apply_writes (map (\<lambda>i. (log_slot start i, g i)) ts) V) R O' (apply_writes (map (\<lambda>i. (log_slot start i, g i)) ts) D)
       (rev (map (\<lambda>i. (log_slot start i, g i)) ts) @ W)"
  using assms
proof (induction ts arbitrary: s V D W thesis)
  case Nil
  then show ?case by simp
next
  case (Cons i ts)
  note P = Cons.prems
  have i: "i < length L" using P(5) by simp
  note H = homes_okD [OF P(4) i] and F = P(6) [OF i] and l = log_isD [OF P(3)]
  obtain t where t: "write_log cur (i # ts) s = write_log cur ts t" "quiet s t"
    "cache_is cur d t (V(log_slot start i := V (L ! i))) R O' (D(log_slot start i := V (L ! i))) ((log_slot start i, V (L ! i)) # W)"
    by (rule write_log_one [OF P(2), of "log_slot start i" "L ! i" i ts]) (use F H(2) [OF H(3)] P(7) l(1,2) l(5) [OF i] in auto)
  have g: "\<And>j. j < length L \<Longrightarrow> (V(log_slot start i := V (L ! i))) (L ! j) = g j"
    using homes_okD(2) [OF P(4) _ H(3)] P(6) by simp
  obtain u where u: "write_log cur ts t = Some u" "quiet t u"
    "cache_is cur d u (apply_writes (map (\<lambda>i. (log_slot start i, g i)) ts) (V(log_slot start i := V (L ! i)))) R O'
       (apply_writes (map (\<lambda>i. (log_slot start i, g i)) ts) (D(log_slot start i := V (L ! i))))
       (rev (map (\<lambda>i. (log_slot start i, g i)) ts) @ (log_slot start i, V (L ! i)) # W)"
    by (rule Cons.IH [OF _ t(3)]) (use P log_is_quiet [OF t(2)] g in auto)
  show ?case by (rule P(1) [of u]) (use t(1) u F quiet_trans [OF t(2) u(2)] in simp_all)
qed

lemma install_loop:
  assumes "cache_is cur d s V R O' D W" "log_is d start L s" "homes_ok start L" "set ts \<subseteq> {..<length L}" "distinct ts"
    and "\<And>i. i < length L \<Longrightarrow> O' (log_slot start i) = None \<and> O' (L ! i) = None \<and>
      Suc (R (log_slot start i)) < 2 ^ 32 \<and> Suc (R (L ! i)) < 2 ^ 32 \<and> V (log_slot start i) = g i \<and> D (log_slot start i) = g i"
    and "\<And>i. i \<in> set ts \<Longrightarrow> \<not> rec \<Longrightarrow> 0 < R (L ! i)" "card {m. 0 < R m} < NBUF" "rec \<Longrightarrow> Suc (card {m. 0 < R m}) < NBUF"
  obtains t where "install_trans cur rec ts s = Some t" "quiet s t"
    "cache_is cur d t (apply_writes (map (\<lambda>i. (L ! i, g i)) ts) V) (\<lambda>m. if \<not> rec \<and> m \<in> nth L ` set ts then R m - 1 else R m) O'
       (apply_writes (map (\<lambda>i. (L ! i, g i)) ts) D) (rev (map (\<lambda>i. (L ! i, g i)) ts) @ W)"
  using assms
proof (induction ts arbitrary: s V R D W thesis)
  case Nil
  then show ?case by simp
next
  case (Cons i ts)
  note P = Cons.prems
  have i: "i < length L" using P(5) by simp
  note H = homes_okD [OF P(4) i] and F = P(7) [OF i] and l = log_isD [OF P(3)]
  have rm: "R (L ! i) = 0 \<Longrightarrow> Suc (card {m. 0 < R m}) < NBUF" using P(8) [of i] P(10) by (cases rec) auto
  let ?R = "if rec then R else R(L ! i := R (L ! i) - 1)"
  obtain t where t: "install_trans cur rec (i # ts) s = install_trans cur rec ts t" "quiet s t"
    "cache_is cur d t (V(L ! i := V (log_slot start i))) ?R O' (D(L ! i := V (log_slot start i))) ((L ! i, V (log_slot start i)) # W)"
    by (rule install_one [OF P(2), of "log_slot start i" "L ! i" rec i ts]) (use F H(2) [OF H(3)] P(8,9) rm l(1,2) l(5) [OF i] in auto)
  have g: "\<And>j. j < length L \<Longrightarrow> (V(L ! i := V (log_slot start i))) (log_slot start j) = g j \<and> (D(L ! i := V (log_slot start i))) (log_slot start j) = g j"
    using P(7) H(2) [symmetric] homes_okD(3) [OF P(4)] by simp
  have "{m. 0 < ?R m} \<subseteq> {m. 0 < R m}" by auto
  then have cd: "card {m. 0 < ?R m} \<le> card {m. 0 < R m}" by (rule card_mono [OF finite])
  have Lj: "L ! j \<noteq> L ! i" if "j \<in> set ts" for j using that P(5,6) H(4) [of j] by auto
  have R1: "\<And>j. j < length L \<Longrightarrow> Suc (?R (log_slot start j)) < 2 ^ 32 \<and> Suc (?R (L ! j)) < 2 ^ 32" using P(7) by fastforce
  obtain u where u: "install_trans cur rec ts t = Some u" "quiet t u"
    "cache_is cur d u (apply_writes (map (\<lambda>i. (L ! i, g i)) ts) (V(L ! i := V (log_slot start i))))
       (\<lambda>m. if \<not> rec \<and> m \<in> nth L ` set ts then ?R m - 1 else ?R m) O'
       (apply_writes (map (\<lambda>i. (L ! i, g i)) ts) (D(L ! i := V (log_slot start i)))) (rev (map (\<lambda>i. (L ! i, g i)) ts) @ (L ! i, V (log_slot start i)) # W)"
    by (rule Cons.IH [OF _ t(3)]) (use P(3-10) log_is_quiet [OF t(2)] g R1 cd Lj in \<open>auto split: if_splits\<close>)
  have r: "(\<lambda>m. if \<not> rec \<and> m \<in> nth L ` set ts then ?R m - 1 else ?R m) = (\<lambda>m. if \<not> rec \<and> m \<in> nth L ` set (i # ts) then R m - 1 else R m)"
  proof -
    have "L ! i \<notin> nth L ` set ts" using Lj by (metis imageE)
    then show ?thesis by (auto simp: fun_eq_iff)
  qed
  show ?case by (rule P(1) [of u]) (use t(1) u(1,2) u(3) [unfolded r] F quiet_trans [OF t(2) u(2)] in simp_all)
qed

subsection \<open>Commit\<close>

definition copies :: "(nat \<Rightarrow> u32) \<Rightarrow> (nat \<Rightarrow> block) \<Rightarrow> nat \<Rightarrow> (u32 \<times> block) list" where
  "copies f g n = map (\<lambda>i. (f i, g i)) [0..<n]"

text \<open>The writes of a commit of the blocks \<open>L\<close> with contents \<open>g\<close>, in order: the log, the header, the
  homes, the empty header.\<close>

definition commit_writes :: "u32 \<Rightarrow> u32 list \<Rightarrow> (nat \<Rightarrow> block) \<Rightarrow> block \<Rightarrow> block \<Rightarrow> (u32 \<times> block) list" where
  "commit_writes start L g h1 h0 =
     copies (log_slot start) g (length L) @ [(start, h1)] @ copies (nth L) g (length L) @ [(start, h0)]"

lemma slot_start: "i < LOGBLOCKS \<Longrightarrow> log_slot start i \<noteq> start"
  by (rule wal.slot_hd)

lemma copies_other: "m \<notin> f ` {..<n} \<Longrightarrow> apply_writes (copies f g n) D m = D m"
  using seq_writes_other [of m f n g D] by (simp add: copies_def seq_writes_def)

lemma copies_at:
  assumes "\<And>i j. i < n \<Longrightarrow> j < n \<Longrightarrow> f i = f j \<Longrightarrow> i = j" "i < n"
  shows "apply_writes (copies f g n) D (f i) = g i"
  using seq_writes_at [of n f i g D] assms by (simp add: copies_def seq_writes_def)

lemma set_head_simps [simp]:
  "flog (fs (set_head f s)) = (flog (fs s))\<lparr>lh := f (lh (flog (fs s)))\<rparr>" "mypid i (set_head f s) = mypid i s"
  by (simp_all add: set_head_def upd_log_def)

lemma commit_ok:
  assumes c: "cache_is cur d s V R O' D W" and l: "log_is d start L s" and h: "homes_ok start L" and ne: "L \<noteq> []"
    and o: "O' start = None" "\<And>i. i < length L \<Longrightarrow> O' (log_slot start i) = None \<and> O' (L ! i) = None"
    and r: "\<And>i. i < length L \<Longrightarrow> 0 < R (L ! i)" "\<And>m. Suc (R m) < 2 ^ 32" "card {m. 0 < R m} < NBUF"
    and g: "g = (\<lambda>i. V (L ! i))" and h1: "h1 = enc_head (int (length L)) (lh_block (lh (flog (fs s)))) (V start)"
    and h0: "h0 = enc_head 0 (lh_block (lh (flog (fs s)))) h1" and ws: "ws = commit_writes start L g h1 h0"
  obtains t where "commit cur s = Some t" "lh_n (lh (flog (fs t))) = 0"
    "cache_is cur d t (apply_writes ws V) (\<lambda>m. if m \<in> set L then R m - 1 else R m) O' (apply_writes ws D) (rev ws @ W)"
proof -
  let ?n = "length L" and ?lb = "lh_block (lh (flog (fs s)))"
  note LD = log_isD [OF l] and H = homes_okD [OF h]
  let ?V1 = "apply_writes (copies (log_slot start) g ?n) V" and ?D1 = "apply_writes (copies (log_slot start) g ?n) D"
  obtain s1 where 1: "write_log cur [0..<?n] s = Some s1" "quiet s s1"
    "cache_is cur d s1 ?V1 R O' ?D1 (rev (copies (log_slot start) g ?n) @ W)"
    unfolding copies_def by (rule write_log_loop [OF c l h, of "[0..<?n]" g]) (use o r g in auto)
  have "start \<notin> log_slot start ` {..<?n}" using slot_start H(3) by (metis imageE lessThan_iff)
  then have v1: "?V1 start = V start" by (rule copies_other)
  obtain s2 where 2: "write_head cur s1 = Some s2" "quiet s1 s2"
    "cache_is cur d s2 (?V1(start := h1)) R O' (?D1(start := h1)) ((start, h1) # rev (copies (log_slot start) g ?n) @ W)"
  proof (rule write_head_ok [OF 1(3) o(1) r(3) r(2)])
    show "h1 = enc_head (lh_n (lh (flog (fs s1)))) (lh_block (lh (flog (fs s1)))) (?V1 start)"
      using LD(3) by (simp add: h1 quiet_log [OF 1(2)] v1)
  qed (use LD(1,2) quiet_log [OF 1(2)] in auto)
  have l2: "log_is d start L s2" using l log_is_quiet [OF 1(2)] log_is_quiet [OF 2(2)] by simp
  have inj: "log_slot start i = log_slot start j \<Longrightarrow> i = j" if "i < ?n" "j < ?n" for i j
    using wal.slot_inj that H(3) by blast
  have sl: "(?V1(start := h1)) (log_slot start i) = g i" "(?D1(start := h1)) (log_slot start i) = g i" if "i < ?n" for i
    using copies_at [of ?n "log_slot start" i g] inj that slot_start H(3) [OF that] by simp_all
  let ?V3 = "apply_writes (copies (nth L) g ?n) (?V1(start := h1))" and ?D3 = "apply_writes (copies (nth L) g ?n) (?D1(start := h1))"
  let ?R = "\<lambda>m. if m \<in> set L then R m - 1 else R m"
  obtain s3 where 3: "install_trans cur False [0..<?n] s2 = Some s3" "quiet s2 s3"
    "cache_is cur d s3 ?V3 ?R O' ?D3 (rev (copies (nth L) g ?n) @ (start, h1) # rev (copies (log_slot start) g ?n) @ W)"
  proof (rule install_loop [OF 2(3) l2 h, of "[0..<?n]" g False])
    fix t assume t: "install_trans cur False [0..<?n] s2 = Some t" "quiet s2 t"
      "cache_is cur d t (apply_writes (map (\<lambda>i. (L ! i, g i)) [0..<?n]) (?V1(start := h1)))
         (\<lambda>m. if \<not> False \<and> m \<in> nth L ` set [0..<?n] then R m - 1 else R m) O'
         (apply_writes (map (\<lambda>i. (L ! i, g i)) [0..<?n]) (?D1(start := h1)))
         (rev (map (\<lambda>i. (L ! i, g i)) [0..<?n]) @ (start, h1) # rev (copies (log_slot start) g ?n) @ W)"
    have "nth L ` set [0..<?n] = set L" by (metis list.set_map map_nth)
    then show thesis using that [OF t(1,2)] t(3) by (simp add: copies_def)
  qed (use o r sl in auto)
  have "start \<notin> nth L ` {..<?n}" using H(1) by (metis imageE lessThan_iff)
  then have v3: "?V3 start = h1" by (simp add: copies_other)
  let ?s4 = "set_head (\<lambda>h. h\<lparr>lh_n := 0\<rparr>) s3"
  have f3: "flog (fs s3) = flog (fs s)" using quiet_log [OF 1(2)] quiet_log [OF 2(2)] quiet_log [OF 3(2)] by simp
  have "{m. 0 < ?R m} \<subseteq> {m. 0 < R m}" by auto
  then have cd: "card {m. 0 < ?R m} < NBUF" using r(3) card_mono [OF finite, of "{m. 0 < ?R m}" "{m. 0 < R m}"] by linarith
  have 4: "cache_is cur d ?s4 ?V3 ?R O' ?D3 (rev (copies (nth L) g ?n) @ (start, h1) # rev (copies (log_slot start) g ?n) @ W)"
    using 3(3) by (simp add: set_head_is)
  have sR: "Suc (?R start) < 2 ^ 32" using r(2) [of start] by auto
  obtain s5 where 5: "write_head cur ?s4 = Some s5" "quiet ?s4 s5"
    "cache_is cur d s5 (?V3(start := h0)) ?R O' (?D3(start := h0)) ((start, h0) # rev (copies (nth L) g ?n) @ (start, h1) # rev (copies (log_slot start) g ?n) @ W)"
    by (rule write_head_ok [OF 4 o(1) cd sR, where e = h0]) (use LD(1,2) f3 v3 h0 in auto)
  have tails: "log_tails s = [0..<?n]" "log_tails s2 = [0..<?n]" using LD(4) log_isD(4) [OF l2] by simp_all
  have "commit cur s = Some s5" using 1(1) 2(1) 3(1) 5(1) tails LD(3) ne by (simp add: commit_def)
  moreover have "lh_n (lh (flog (fs s5))) = 0" using quiet_log [OF 5(2)] by simp
  moreover have "cache_is cur d s5 (apply_writes ws V) ?R O' (apply_writes ws D) (rev ws @ W)"
    using 5(3) by (simp add: ws commit_writes_def)
  ultimately show thesis by (rule that)
qed

subsection \<open>Recovery\<close>

text \<open>A header that a recovery can follow.\<close>

definition header_ok :: "u32 \<Rightarrow> block \<Rightarrow> bool" where
  "header_ok start bs \<longleftrightarrow> length bs = BSIZE \<and> 0 \<le> sint (get32 0 bs) \<and> homes_ok start (dec_head bs)"

lemma enc_head_0: "enc_head 0 lb bs = put32 0 0 bs"
  by (simp add: enc_head_def)

lemma header_ok_empty: "length bs = BSIZE \<Longrightarrow> header_ok start (put32 0 0 bs) \<and> dec_head (put32 0 0 bs) = []"
  by (simp add: header_ok_def dec_head_def homes_ok_def get_put32 BSIZE_def)

lemma header_ok_enc:
  assumes "homes_ok start L" "length bs = BSIZE" "take (length L) lb = L"
  shows "header_ok start (enc_head (int (length L)) lb bs)" "dec_head (enc_head (int (length L)) lb bs) = L"
proof -
  have n: "length L \<le> LOGBLOCKS" "length L \<le> length lb" using assms(1) arg_cong [OF assms(3), of length] by (simp_all add: homes_ok_def)
  show d: "dec_head (enc_head (int (length L)) lb bs) = L" using dec_enc_head [OF n(1) assms(2) n(2)] assms(3) by simp
  show "header_ok start (enc_head (int (length L)) lb bs)"
    using enc_head_get [OF n(1) assms(2), of lb] sint_small [OF n(1)] assms(1) by (simp add: header_ok_def d)
qed

lemma read_blocks:
  assumes "n \<le> length lb"
  shows "take n (fold (\<lambda>i xs. xs[i := f i]) [0..<n] lb) = map f [0..<n]" "length (fold (\<lambda>i xs. xs[i := f i]) [0..<n] lb) = length lb"
proof -
  have "n \<le> length lb \<Longrightarrow> length (fold (\<lambda>i xs. xs[i := f i]) [0..<n] lb) = length lb \<and>
      take n (fold (\<lambda>i xs. xs[i := f i]) [0..<n] lb) = map f [0..<n]" for n
    by (induction n) (auto simp: take_Suc_conv_app_nth take_update_cancel)
  then show "take n (fold (\<lambda>i xs. xs[i := f i]) [0..<n] lb) = map f [0..<n]"
    "length (fold (\<lambda>i xs. xs[i := f i]) [0..<n] lb) = length lb" using assms by blast+
qed

lemma read_head_ok:
  assumes c: "cache_is cur d s V R O' D W" and o: "O' a = None" and r: "card {m. 0 < R m} < NBUF" "Suc (R a) < 2 ^ 32" "R a = 0"
    and l: "log_dev (flog (fs s)) = d" "log_start (flog (fs s)) = a" "length (lh_block (lh (flog (fs s)))) = LOGBLOCKS" and h: "header_ok a (V a)"
  obtains t where "read_head cur s = Some t" "log_is d a (dec_head (V a)) t" "cache_is cur d t V R O' D W"
proof -
  let ?me = "Some (mypid cur s)" and ?n = "length (dec_head (V a))" and ?lb = "lh_block (lh (flog (fs s)))"
  obtain b1 s1 where 1: "bread cur d a s = Some (b1, s1)" "keeps d s s1" "holds d (fs s1) b1 a"
    "cache_is cur d s1 V (R(a := Suc (R a))) (O'(a := ?me)) D W"
    using bread_is [OF c o] r by blast
  have bd: "bdata (buf_of s1 b1) = V a" using holds_is(1) [OF 1(4,3)] by simp
  have n: "sint (get32 0 (V a)) = int ?n" "?n \<le> LOGBLOCKS" using h by (simp_all add: header_ok_def dec_head_def homes_ok_def)
  define f :: "logheader \<Rightarrow> logheader" where "f = (\<lambda>h. \<lparr>lh_n = int ?n, lh_block = fold (\<lambda>i xs. xs[i := get32 (Suc i) (V a)]) [0..<?n] (lh_block h)\<rparr> :: logheader)"
  let ?s2 = "set_head f s1"
  have 2: "cache_is cur d ?s2 V (R(a := Suc (R a))) (O'(a := ?me)) D W" using 1(4) by (simp add: set_head_is)
  have h2: "holds d (fs ?s2) b1 a" using 1(3) by (simp add: holds_def set_head_def upd_log_def)
  have k2: "mypid cur ?s2 = mypid cur s" using keeps_mypid [OF 1(2) c] by simp
  have q1: "flog (fs s1) = flog (fs s)" using quiet_log [OF keeps_quiet [OF 1(2)]] .
  have o2: "(O'(a := ?me)) a = Some (mypid cur ?s2)" using k2 by simp
  obtain s5 where 5: "brelse cur b1 ?s2 = Some s5" "keeps d ?s2 s5" "cache_is cur d s5 V R O' D W"
  proof (rule brelse_is [OF 2 h2 o2])
    fix t assume t: "brelse cur b1 ?s2 = Some t" "keeps d ?s2 t"
      "cache_is cur d t V ((R(a := Suc (R a)))(a := (R(a := Suc (R a))) a - 1)) ((O'(a := ?me))(a := None)) D W"
    have "(R(a := Suc (R a)))(a := (R(a := Suc (R a))) a - 1) = R" "(O'(a := ?me))(a := None) = O'" using o by auto
    then show thesis using that [of t] t by simp
  qed (use r(3) cache_is_clean [OF c] in simp_all)
  have "log_is d a (dec_head (V a)) ?s2"
    using l n read_blocks [of ?n ?lb "\<lambda>i. get32 (Suc i) (V a)"] by (simp add: log_is_def q1 f_def) (simp add: dec_head_def)
  then have "log_is d a (dec_head (V a)) s5" using log_is_quiet [OF keeps_quiet [OF 5(2)]] by simp
  moreover have "read_head cur s = Some s5"
    using 1(1) 5(1) l n bd by (simp add: read_head_def Let_def f_def q1)
  ultimately show thesis using that 5(3) by blast
qed

definition recovery_writes :: "u32 \<Rightarrow> (u32 \<Rightarrow> block) \<Rightarrow> (u32 \<times> block) list" where
  "recovery_writes start D =
     (let L = dec_head (D start) in copies (nth L) (\<lambda>i. D (log_slot start i)) (length L) @ [(start, put32 0 0 (D start))])"

lemma recover_ok:
  assumes c: "cache_is cur d s V (\<lambda>_. 0) (\<lambda>_. None) D W"
    and l: "log_dev (flog (fs s)) = d" "log_start (flog (fs s)) = start" "length (lh_block (lh (flog (fs s)))) = LOGBLOCKS"
    and h: "header_ok start (D start)"
  obtains t where "recover_from_log cur s = Some t" "lh_n (lh (flog (fs t))) = 0"
    "cache_is cur d t (apply_writes (recovery_writes start D) D) (\<lambda>_. 0) (\<lambda>_. None) (apply_writes (recovery_writes start D) D)
       (rev (recovery_writes start D) @ W)"
proof -
  have V: "V = D" using cache_is_clean [OF c] by auto
  let ?L = "dec_head (D start)" and ?g = "\<lambda>i. D (log_slot start i)"
  let ?n = "length ?L"
  have nb: "0 < NBUF" "Suc 0 < NBUF" by (simp_all add: NBUF_def)
  obtain s1 where 1: "read_head cur s = Some s1" "log_is d start ?L s1" "cache_is cur d s1 D (\<lambda>_. 0) (\<lambda>_. None) D W"
    by (rule read_head_ok [OF c [unfolded V], of start]) (use l h nb in auto)
  have hm: "homes_ok start ?L" using h by (simp add: header_ok_def)
  note H = homes_okD [OF hm]
  let ?E = "apply_writes (copies (nth ?L) ?g ?n) D"
  obtain s3 where 3: "install_trans cur True [0..<?n] s1 = Some s3" "quiet s1 s3"
    "cache_is cur d s3 ?E (\<lambda>_. 0) (\<lambda>_. None) ?E (rev (copies (nth ?L) ?g ?n) @ W)"
    unfolding copies_def by (rule install_loop [OF 1(3,2) hm, of "[0..<?n]" ?g True]) (use nb in auto)
  have "start \<notin> nth ?L ` {..<?n}" using H(1) by (metis imageE lessThan_iff)
  then have v3: "?E start = D start" by (simp add: copies_other)
  let ?s4 = "set_head (\<lambda>h. h\<lparr>lh_n := 0\<rparr>) s3"
  have 4: "cache_is cur d ?s4 ?E (\<lambda>_. 0) (\<lambda>_. None) ?E (rev (copies (nth ?L) ?g ?n) @ W)" using 3(3) by (simp add: set_head_is)
  have f3: "flog (fs s3) = flog (fs s1)" using quiet_log [OF 3(2)] .
  let ?h0 = "put32 0 0 (D start)"
  obtain s5 where 5: "write_head cur ?s4 = Some s5" "quiet ?s4 s5"
    "cache_is cur d s5 (?E(start := ?h0)) (\<lambda>_. 0) (\<lambda>_. None) (?E(start := ?h0)) ((start, ?h0) # rev (copies (nth ?L) ?g ?n) @ W)"
    by (rule write_head_ok [OF 4, where a = start and e = ?h0]) (use log_isD(1,2) [OF 1(2)] f3 v3 nb in \<open>auto simp: enc_head_0\<close>)
  have "recover_from_log cur s = Some s5" using 1(1) 3(1) 5(1) log_isD(4) [OF 1(2)] by (simp add: recover_from_log_def)
  moreover have "lh_n (lh (flog (fs s5))) = 0" using quiet_log [OF 5(2)] by simp
  ultimately show thesis using that 5(3) by (simp add: recovery_writes_def Let_def)
qed

end
