(* ===== verification/Fs_Crash.thy ===== *)
theory Fs_Crash
  imports Fs_Commit
begin

text \<open>
  Crashes. \<open>crashed\<close> holds of the disks a machine may be found with after losing power at any point of a
  commit, and then at any point of any number of recoveries: after any number of the block writes that \<open>initlog\<close>
  makes on the machine that boots. Each block write is taken to be atomic. The argument is that of the locale
  \<open>redo_log\<close>.
\<close>

text \<open>The blocks outside the log.\<close>

definition home :: "u32 \<Rightarrow> u32 \<Rightarrow> bool" where
  "home start m \<longleftrightarrow> m \<noteq> start \<and> (\<forall>j < LOGBLOCKS. m \<noteq> log_slot start j)"

lemma copies_seq: "copies f g n = seq_writes f g n"
  by (simp add: copies_def seq_writes_def)

lemma copies_in: "(a, v) \<in> set (copies f g n) \<longleftrightarrow> (\<exists>i < n. a = f i \<and> v = g i)"
  by (auto simp: copies_def)

lemma apply_writes_value:
  "apply_writes ws D a = D a \<or> (\<exists>v. (a, v) \<in> set ws \<and> apply_writes ws D a = v)"
proof (induction ws arbitrary: D)
  case (Cons w ws)
  show ?case using Cons.IH [of "D(fst w := snd w)"] by (cases w, cases "fst w = a") (auto simp: fun_upd_def)
qed simp

lemma homes_home: "homes_ok start L \<Longrightarrow> i < length L \<Longrightarrow> home start (L ! i)"
  using homes_okD(1,2) by (simp add: home_def)

lemma commit_crash:
  assumes h: "homes_ok start L" and d: "header_ok start (D start)" "dec_head (D start) = []"
    and h1: "header_ok start h1" "dec_head h1 = L" and h0: "header_ok start h0" "dec_head h0 = []"
    and ws: "ws = commit_writes start L g h1 h0" and E: "E = apply_writes (take k ws) D"
  shows "header_ok start (E start)"
    "home start m \<Longrightarrow> logical dec_head start (log_slot start) E m = (if length L < k then apply_writes (copies (nth L) g (length L)) D m else D m)"
proof -
  note H = homes_okD [OF h]
  have n: "length L \<le> LOGBLOCKS" "distinct L" using h by (simp_all add: homes_ok_def)
  show "home start m \<Longrightarrow> logical dec_head start (log_slot start) E m = (if length L < k then apply_writes (copies (nth L) g (length L)) D m else D m)"
    using wal.commit_trace(2) [where D = D and n = "length L", OF d(2) h1(2) h0(2) n(2) refl n(1) H(1,2), where ws = ws and g = g and m = m and E = E and k = k]
    by (simp add: ws E commit_writes_def copies_seq home_def Suc_le_eq)
  have "v = h1 \<or> v = h0" if "(start, v) \<in> set (take k ws)" for v
  proof -
    have "(start, v) \<in> set ws" using that set_take_subset by fast
    then show ?thesis
      using slot_start [OF H(3)] H(1) by (simp add: ws commit_writes_def copies_in) metis
  qed
  then show "header_ok start (E start)"
    using apply_writes_value [of "take k ws" D start] d(1) h1(1) h0(1) unfolding E by metis
qed

lemma recovery_crash:
  assumes h: "header_ok start (D start)" and E: "E = apply_writes (take k (recovery_writes start D)) D"
  shows "header_ok start (E start)" "home start m \<Longrightarrow> logical dec_head start (log_slot start) E m = logical dec_head start (log_slot start) D m"
proof -
  let ?L = "dec_head (D start)" and ?h0 = "put32 0 0 (D start)"
  have hm: "homes_ok start ?L" and len: "length (D start) = BSIZE" using h by (simp_all add: header_ok_def)
  note H = homes_okD [OF hm] and e = header_ok_empty [OF len, of start]
  have n: "length ?L \<le> LOGBLOCKS" "distinct ?L" using hm by (simp_all add: homes_ok_def)
  show "home start m \<Longrightarrow> logical dec_head start (log_slot start) E m = logical dec_head start (log_slot start) D m"
    using wal.recovery_trace(2) [where D = D and start = start and n = "length ?L", OF refl conjunct2 [OF e] n(2) refl n(1) H(1,2), where m = m and E = E and k = k]
    by (simp add: E recovery_writes_def copies_seq home_def Let_def)
  have "v = ?h0" if "(start, v) \<in> set (take k (recovery_writes start D))" for v
  proof -
    have "(start, v) \<in> set (recovery_writes start D)" using that set_take_subset by fast
    then show ?thesis using H(1) by (simp add: recovery_writes_def Let_def copies_in) metis
  qed
  then show "header_ok start (E start)"
    using apply_writes_value [of "take k (recovery_writes start D)" D start] h e unfolding E by metis
qed

text \<open>What a completed recovery leaves at home is the logical disk.\<close>

lemma recovery_home:
  assumes h: "header_ok start (D start)" and m: "home start m"
  shows "apply_writes (recovery_writes start D) D m = logical dec_head start (log_slot start) D m"
proof -
  let ?ws = "recovery_writes start D" and ?L = "dec_head (D start)"
  have hm: "homes_ok start ?L" and len: "length (D start) = BSIZE" using h by (simp_all add: header_ok_def)
  note H = homes_okD [OF hm] and e = header_ok_empty [OF len, of start]
  have n: "length ?L \<le> LOGBLOCKS" "distinct ?L" using hm by (simp_all add: homes_ok_def)
  let ?E = "apply_writes (take (length ?ws) ?ws) D"
  have "dec_head (?E start) = []"
    using wal.recovery_trace(1) [where D = D and start = start and n = "length ?L", OF refl conjunct2 [OF e] n(2) refl n(1) H(1,2), where m = m and E = ?E and k = "length ?ws"] m
    by (simp add: recovery_writes_def copies_seq Let_def home_def)
  then have "logical dec_head start (log_slot start) ?E m = ?E m" by (rule wal.logical_empty)
  then show ?thesis using recovery_crash(2) [where D = D and start = start and k = "length ?ws", OF h refl m] by simp
qed

text \<open>A machine that boots with disk \<open>E\<close>: the cache is empty, no lock is held.\<close>

definition boot_state :: "nat \<Rightarrow> u32 \<Rightarrow> (u32 \<Rightarrow> block) \<Rightarrow> fkstate \<Rightarrow> bool" where
  "boot_state cur d E s \<longleftrightarrow> (\<exists>V W. cache_is cur d s V (\<lambda>_. 0) (\<lambda>_. None) E W) \<and> length (lh_block (lh (flog (fs s)))) = LOGBLOCKS"

lemma quiet_initlog:
  "cache_is cur d (upd_log f s) V R O' D W \<longleftrightarrow> cache_is cur d s V R O' D W"
  by (rule cache_is_cong) (simp_all add: upd_log_def)

lemma initlog_ok:
  assumes b: "boot_state cur d E s" and h: "header_ok start (E start)" and sb: "sb_logstart sb0 = start"
  obtains t where "initlog cur d sb0 s = Some t" "lh_n (lh (flog (fs t))) = 0"
    "written (fs t) = rev (recovery_writes start E) @ written (fs s)"
    "\<And>m. home start m \<Longrightarrow> disk (fs t) m = logical dec_head start (log_slot start) E m"
proof -
  let ?s = "upd_log (\<lambda>l. l\<lparr>log_start := sb_logstart sb0, log_dev := d\<rparr>) s"
  obtain V W where c: "cache_is cur d ?s V (\<lambda>_. 0) (\<lambda>_. None) E W" and l: "length (lh_block (lh (flog (fs s)))) = LOGBLOCKS"
    using b by (auto simp: boot_state_def quiet_initlog)
  obtain t where t: "recover_from_log cur ?s = Some t" "lh_n (lh (flog (fs t))) = 0"
    "cache_is cur d t (apply_writes (recovery_writes start E) E) (\<lambda>_. 0) (\<lambda>_. None) (apply_writes (recovery_writes start E) E)
       (rev (recovery_writes start E) @ W)"
    by (rule recover_ok [OF c]) (use l h sb in \<open>auto simp: upd_log_def\<close>)
  have "disk (fs t) = apply_writes (recovery_writes start E) E" "written (fs t) = rev (recovery_writes start E) @ written (fs s)"
    using t(3) c by (simp_all add: cache_is_def upd_log_def)
  then show thesis using that [of t] t(1,2) recovery_home [where D = E and start = start, OF h] by (simp add: initlog_def)
qed

text \<open>Losing power: \<open>ws\<close> are the block writes of a commit that started on disk \<open>D\<close>; a later recovery is a run of
  \<open>initlog\<close> on a machine that boots with the disk as it is, and its block writes are those the disk driver was given.\<close>

inductive crashed :: "u32 \<Rightarrow> u32 \<Rightarrow> (u32 \<times> block) list \<Rightarrow> (u32 \<Rightarrow> block) \<Rightarrow> (u32 \<Rightarrow> block) \<Rightarrow> bool" for d start ws D where
  first: "crashed d start ws D (apply_writes (take k ws) D)"
| again: "crashed d start ws D E \<Longrightarrow> boot_state cur d E b \<Longrightarrow> sb_logstart sb0 = start \<Longrightarrow> initlog cur d sb0 b = Some u \<Longrightarrow>
    written (fs u) = rev vs @ written (fs b) \<Longrightarrow> crashed d start ws D (apply_writes (take k vs) E)"

lemma crashed_inv:
  assumes "crashed d start ws D E" and h: "homes_ok start L" and d: "header_ok start (D start)" "dec_head (D start) = []"
    and h1: "header_ok start h1" "dec_head h1 = L" and h0: "header_ok start h0" "dec_head h0 = []"
    and ws: "ws = commit_writes start L g h1 h0"
  shows "header_ok start (E start) \<and>
    ((\<forall>m. home start m \<longrightarrow> logical dec_head start (log_slot start) E m = D m) \<or>
     (\<forall>m. home start m \<longrightarrow> logical dec_head start (log_slot start) E m = apply_writes (copies (nth L) g (length L)) D m))"
  using assms(1)
proof (induction rule: crashed.induct)
  case (first k)
  show ?case using commit_crash [where D = D and start = start and k = k, OF h d h1 h0 ws refl] by (cases "length L < k") simp_all
next
  case (again E cur b sb0 u vs k)
  have e: "header_ok start (E start)" using again.IH by blast
  have "written (fs u) = rev (recovery_writes start E) @ written (fs b)"
    by (rule initlog_ok [OF again.hyps(2) e again.hyps(3)]) (use again.hyps(4) in simp)
  then have vs: "vs = recovery_writes start E" using again.hyps(5) by simp
  show ?case using again.IH recovery_crash [where D = E and start = start and k = k, OF e refl] unfolding vs by auto
qed

text \<open>There is such a machine: \<open>binit\<close> leaves the cache empty.\<close>

lemma binit_fields:
  assumes "n \<le> NBUF" "i \<le> NBUF"
  shows "bdev (fold (\<lambda>b bs. link_front b (bs[b := (bs ! b)\<lparr>block := initsleeplock\<rparr>])) [0..<n] bs ! i) = bdev (bs ! i) \<and>
    refcnt (fold (\<lambda>b bs. link_front b (bs[b := (bs ! b)\<lparr>block := initsleeplock\<rparr>])) [0..<n] bs ! i) = refcnt (bs ! i) \<and>
    (sl_locked (block (bs ! i)) = 0 \<longrightarrow>
      sl_locked (block (fold (\<lambda>b bs. link_front b (bs[b := (bs ! b)\<lparr>block := initsleeplock\<rparr>])) [0..<n] bs ! i)) = 0)"
  using assms(1)
proof (induction n)
  case (Suc n)
  let ?bs = "fold (\<lambda>b bs. link_front b (bs[b := (bs ! b)\<lparr>block := initsleeplock\<rparr>])) [0..<n] bs"
  have f: "bdev (link_front n cs ! i) = bdev (cs ! i)" "refcnt (link_front n cs ! i) = refcnt (cs ! i)" "block (link_front n cs ! i) = block (cs ! i)" for cs
    by (simp_all add: links_field)
  have "sl_locked (block (?bs[n := (?bs ! n)\<lparr>block := initsleeplock\<rparr>] ! i)) = 0" if "sl_locked (block (?bs ! i)) = 0"
    using that by (cases "n < length ?bs"; cases "i = n") (simp_all add: initsleeplock_def list_update_beyond)
  then show ?case using Suc by (simp add: f upd_field [where f = bdev] upd_field [where f = refcnt])
qed simp

lemma boot_cache:
  assumes "bufs (fs s) = binit (replicate (Suc NBUF) zero_buf)" "disk (fs s) = E" "d \<noteq> 0" "held s = {}" "length (proc s) = NPROC" "cur < NPROC"
    and "length (lh_block (lh (flog (fs s)))) = LOGBLOCKS"
  shows "boot_state cur d E s"
proof -
  define bs0 where "bs0 = (replicate (Suc NBUF) zero_buf)[NBUF := (replicate (Suc NBUF) zero_buf ! NBUF)\<lparr>bprev := NBUF, bnext := NBUF\<rparr>]"
  have b0: "bdev (bs0 ! i) = 0 \<and> refcnt (bs0 ! i) = 0 \<and> sl_locked (block (bs0 ! i)) = 0" if "i < NBUF" for i
    using that by (simp add: bs0_def zero_buf_def initsleeplock_def del: replicate_Suc)
  have bi: "bufs (fs s) = fold (\<lambda>b bs. link_front b (bs[b := (bs ! b)\<lparr>block := initsleeplock\<rparr>])) [0..<NBUF] bs0"
    by (simp add: assms(1) binit_def bs0_def Let_def del: replicate_Suc)
  have z: "bdev (buf_of s i) = 0 \<and> refcnt (buf_of s i) = 0 \<and> sl_locked (block (buf_of s i)) = 0" if "i < NBUF" for i
    using binit_fields [of NBUF i bs0] b0 [OF that] that unfolding bi by simp
  have "cache_inv d (fs s)"
    using lru_binit z assms(1,3) by (auto simp: cache_inv_def uniq_def buf_ok_def intro!: exI [of _ "rev [0..<NBUF]"])
  moreover have "slot d (bufs (fs s)) n = None" for n using z assms(3) by (auto simp: slot_None holds_def)
  ultimately show ?thesis using assms
    by (auto simp: boot_state_def cache_is_def caller_def bview_def [abs_def] refs_def [abs_def] owner_def [abs_def])
qed

end
