(* ===== verification/Fs_Trans.thy ===== *)
theory Fs_Trans
  imports Fs_Crash
begin

text \<open>
  Transactions: \<open>log_write\<close> in terms of the list of logged blocks, the space \<open>begin_op\<close> reserves,
  and the state in which a commit is safe.
\<close>

subsection \<open>Logging a block\<close>

lemma log_find_eq:
  assumes "log_is d start L s"
  shows "log_find n (lh (flog (fs s))) = (case find (\<lambda>i. L ! i = n) [0..<length L] of Some i \<Rightarrow> i | None \<Rightarrow> length L)"
proof -
  have "find (\<lambda>i. lh_block (lh (flog (fs s))) ! i = n) [0..<length L] = find (\<lambda>i. L ! i = n) [0..<length L]"
    using log_isD(5) [OF assms] by (intro find_cong) auto
  then show ?thesis using log_isD(3) [OF assms] by (simp add: log_find_def split: option.split)
qed

lemma log_find_in: "log_is d start L s \<Longrightarrow> n \<in> set L \<Longrightarrow>
    log_find n (lh (flog (fs s))) < length L \<and> L ! log_find n (lh (flog (fs s))) = n"
  by (auto simp: log_find_eq find_Some_iff find_None_iff in_set_conv_nth split: option.split)

lemma log_find_notin: "log_is d start L s \<Longrightarrow> n \<notin> set L \<Longrightarrow> log_find n (lh (flog (fs s))) = length L"
  by (auto simp: log_find_eq find_Some_iff in_set_conv_nth split: option.split)

definition logged :: "u32 \<Rightarrow> u32 list \<Rightarrow> u32 list" where
  "logged n L = (if n \<in> set L then L else L @ [n])"

lemma log_write_ok:
  assumes c: "cache_is cur d s V R O' D W" and l: "log_is d start L s" and h: "holds d (fs s) b n"
    and sp: "length L < LOGBLOCKS" "1 \<le> outstanding (flog (fs s))" and r: "Suc (R n) < 2 ^ 32"
  obtains t where "log_write b s = Some t" "log_is d start (logged n L) t" "outstanding (flog (fs t)) = outstanding (flog (fs s))"
    "cache_is cur d t V (if n \<in> set L then R else R(n := Suc (R n))) O' D W" "holds d (fs t) = holds d (fs s)" "mypid cur t = mypid cur s"
proof -
  note I = holds_is [OF c h] and LD = log_isD [OF l]
  have H: "held s = {}" using c by (simp add: cache_is_def caller_def)
  have ll: "length (lh_block (lh (flog (fs s)))) = LOGBLOCKS" "take (length L) (lh_block (lh (flog (fs s)))) = L" using l by (simp_all add: log_is_def)
  let ?i = "log_find n (lh (flog (fs s)))"
  show thesis
  proof (cases "n \<in> set L")
    case True
    note i = log_find_in [OF l True]
    have same: "(lh_block (lh (flog (fs s))))[?i := n] = lh_block (lh (flog (fs s)))"
      using i LD(5) by (metis list_update_id)
    have "set_head (\<lambda>h. h\<lparr>lh_block := (lh_block h)[?i := n]\<rparr>) s = s"
      unfolding set_head_def upd_log_def by (rule upd_fs_id) (simp add: same)
    then have "log_write b s = Some s"
      using H sp LD(3) I(5) i by (simp add: log_write_def Let_def set_head_def upd_log_def)
    then show thesis using that [of s] True c l by (simp add: logged_def)
  next
    case False
    note i = log_find_notin [OF l False]
    define s1 where "s1 = upd_buf b (\<lambda>x. x\<lparr>refcnt := refcnt x + 1\<rparr>) s"
    define t where "t = set_head (\<lambda>h. h\<lparr>lh_block := (lh_block h)[length L := n], lh_n := lh_n h + 1\<rparr>) s1"
    have "log_write b s = Some t"
      using H sp LD(3) I(5) i
      by (simp add: log_write_def Let_def set_head_def upd_log_def bpin_def upd_buf_def insert_Diff_if t_def s1_def)
    moreover have rc: "unat (refcnt (buf_of s b) + 1) = Suc (R n)" using r I(2) by (simp add: unat_word_ariths)
    then have nz: "refcnt (buf_of s b) + 1 \<noteq> 0" by auto
    note U = upd_is [OF c h s1_def]
    have "cache_is cur d s1 V (R(n := Suc (R n))) O' D W" "holds d (fs s1) = holds d (fs s)" using U I rc nz by (simp_all add: fun_upd_idem)
    then have "cache_is cur d t V (R(n := Suc (R n))) O' D W" "holds d (fs t) = holds d (fs s)"
      by (simp_all add: t_def set_head_is) (simp add: holds_def fun_eq_iff set_head_def upd_log_def)
    moreover have "log_is d start (logged n L) t" "outstanding (flog (fs t)) = outstanding (flog (fs s))" "mypid cur t = mypid cur s"
      using l sp False ll by (simp_all add: log_is_def t_def s1_def logged_def take_Suc_conv_app_nth)
    ultimately show thesis using that False by simp
  qed
qed

subsection \<open>Space\<close>

text \<open>The calls of the cache leave the log alone.\<close>

lemma k_lock_fs: "k_acquire l s = Some t \<Longrightarrow> fs t = fs s" "k_release l s = Some t \<Longrightarrow> fs t = fs s"
  by (auto simp: k_acquire_def k_release_def split: if_splits)

lemma each_proc_fs: "each_proc f is s = Some t \<Longrightarrow> fs t = fs s"
  by (induction "is" arbitrary: s) (auto split: Option.bind_splits dest!: k_lock_fs)

lemma wakeup_fs: "wakeup c ch s = Some t \<Longrightarrow> fs t = fs s"
  by (simp add: wakeup_def each_proc_fs)

lemma flog_upd_sl [simp]: "flog (fs (upd_sl r f s)) = flog (fs s)"
  by (cases r) (simp_all add: upd_buf_def upd_inode_def)

lemma take_sleeplock_log: "take_sleeplock cur r s = Some t \<Longrightarrow> flog (fs t) = flog (fs s)"
  by (auto simp: take_sleeplock_def acquiresleep_def acquiresleep_turn_def Let_def dest!: k_lock_fs
      split: Option.bind_splits if_splits outcome.splits)

lemma bget_log: "bget cur d n s = Some (b, t) \<Longrightarrow> flog (fs t) = flog (fs s)"
  by (auto simp: bget_def dest!: k_lock_fs take_sleeplock_log split: Option.bind_splits option.splits)

lemma bread_log: "bread cur d n s = Some (b, t) \<Longrightarrow> flog (fs t) = flog (fs s)"
  by (auto simp: bread_def disk_read_def dest!: bget_log split: Option.bind_splits if_splits)

lemma holdingsleep_log: "holdingsleep cur r s = Some (h, t) \<Longrightarrow> flog (fs t) = flog (fs s)"
  by (auto simp: holdingsleep_def Let_def dest!: k_lock_fs split: Option.bind_splits)

lemma bwrite_log: "bwrite cur b s = Some t \<Longrightarrow> flog (fs t) = flog (fs s)"
  by (auto simp: bwrite_def disk_write_def Let_def dest!: holdingsleep_log split: Option.bind_splits if_splits)

lemma brelse_log: "brelse cur b s = Some t \<Longrightarrow> flog (fs t) = flog (fs s)"
  by (auto simp: brelse_def releasesleep_def Let_def dest!: holdingsleep_log k_lock_fs wakeup_fs split: Option.bind_splits if_splits)

lemma bunpin_log: "bunpin b s = Some t \<Longrightarrow> flog (fs t) = flog (fs s)"
  by (auto simp: bunpin_def dest!: k_lock_fs split: Option.bind_splits)

lemma set_data_log [simp]: "flog (fs (set_data b f s)) = flog (fs s)"
  by (simp add: set_data_def)

lemmas log_frames = bread_log bwrite_log brelse_log bunpin_log

lemma write_head_log: "write_head cur s = Some t \<Longrightarrow> flog (fs t) = flog (fs s)"
  by (auto simp: write_head_def Let_def dest!: log_frames split: Option.bind_splits)

lemma write_log_log: "write_log cur ts s = Some t \<Longrightarrow> flog (fs t) = flog (fs s)"
  by (induction cur ts s rule: write_log.induct) (auto simp: Let_def dest!: log_frames split: Option.bind_splits)

lemma install_trans_log: "install_trans cur rec ts s = Some t \<Longrightarrow> flog (fs t) = flog (fs s)"
  by (induction cur rec ts s rule: install_trans.induct) (auto simp: Let_def dest!: log_frames split: Option.bind_splits if_splits)

lemma commit_log:
  assumes "commit cur s = Some t" "0 \<le> lh_n (lh (flog (fs s)))"
  shows "flog (fs t) = (flog (fs s))\<lparr>lh := (lh (flog (fs s)))\<lparr>lh_n := 0\<rparr>\<rparr>"
  using assms by (auto simp: commit_def dest!: write_head_log write_log_log install_trans_log split: Option.bind_splits if_splits)

text \<open>The state of the log and, for each operation in progress, the number of blocks it may still add.\<close>

inductive log_step :: "fkstate \<times> nat list \<Rightarrow> fkstate \<times> nat list \<Rightarrow> bool" where
  enter: "begin_op cur s = Some (Return (), t) \<Longrightarrow> log_step (s, ops) (t, ops @ [MAXOPBLOCKS])"
| sleep: "begin_op cur s = Some (Blocked, t) \<Longrightarrow> log_step (s, ops) (t, ops)"
| add: "log_write b s = Some t \<Longrightarrow> i < length ops \<Longrightarrow> 0 < ops ! i \<Longrightarrow> lh_n (lh (flog (fs t))) = lh_n (lh (flog (fs s))) + 1 \<Longrightarrow>
    log_step (s, ops) (t, ops[i := ops ! i - 1])"
| again: "log_write b s = Some t \<Longrightarrow> i < length ops \<Longrightarrow> lh_n (lh (flog (fs t))) = lh_n (lh (flog (fs s))) \<Longrightarrow> log_step (s, ops) (t, ops)"
| leave: "end_op cur s = Some t \<Longrightarrow> i < length ops \<Longrightarrow> log_step (s, ops) (t, remove_nth i ops)"
| other: "flog (fs t) = flog (fs s) \<Longrightarrow> log_step (s, ops) (t, ops)"

definition log_inv :: "fkstate \<times> nat list \<Rightarrow> bool" where
  "log_inv = (\<lambda>(s, ops). let l = flog (fs s) in 0 \<le> lh_n (lh l) \<and> outstanding l = int (length ops) \<and>
     (\<forall>x \<in> set ops. x \<le> MAXOPBLOCKS) \<and> lh_n (lh l) + int (sum_list ops) \<le> int LOGBLOCKS)"

lemma sum_list_bound: "\<forall>x \<in> set xs. x \<le> (m :: nat) \<Longrightarrow> sum_list xs \<le> length xs * m"
  by (induction xs) auto

lemma sum_list_upd: "i < length xs \<Longrightarrow> sum_list (xs[i := v]) + xs ! i = sum_list xs + (v :: nat)"
  by (induction xs arbitrary: i) (auto split: nat.split)

lemma begin_op_log:
  assumes "begin_op cur s = Some (r, t)"
  shows "r = Return () \<Longrightarrow> flog (fs t) = (flog (fs s))\<lparr>outstanding := outstanding (flog (fs s)) + 1\<rparr> \<and>
      lh_n (lh (flog (fs s))) + (outstanding (flog (fs s)) + 1) * int MAXOPBLOCKS \<le> int LOGBLOCKS"
    "r = Blocked \<Longrightarrow> flog (fs t) = flog (fs s)"
  using assms
  by (auto simp: begin_op_def begin_op_turn_def Let_def sleep_def sched_def upd_log_def dest!: k_lock_fs split: Option.bind_splits if_splits)

lemma end_op_log:
  assumes "end_op cur s = Some t" "0 \<le> lh_n (lh (flog (fs s)))"
  shows "outstanding (flog (fs t)) = outstanding (flog (fs s)) - 1 \<and>
    lh_n (lh (flog (fs t))) = (if outstanding (flog (fs s)) = 1 then 0 else lh_n (lh (flog (fs s))))"
  using assms
  by (auto simp: end_op_def end_op_start_def end_op_finish_def Let_def upd_log_def dest!: k_lock_fs wakeup_fs commit_log
      split: Option.bind_splits if_splits)

lemma log_step_inv:
  assumes "log_step x y" "log_inv x"
  shows "log_inv y"
  using assms
proof (induction rule: log_step.induct)
  case (enter cur s t ops)
  note b = begin_op_log(1) [OF enter.hyps refl]
  have "int (sum_list ops) \<le> int (length ops) * int MAXOPBLOCKS"
    using sum_list_bound [of ops MAXOPBLOCKS] enter.prems by (simp add: log_inv_def Let_def flip: of_nat_mult)
  then show ?case using b enter.prems by (auto simp: log_inv_def Let_def algebra_simps)
next
  case (sleep cur s t ops)
  then show ?case using begin_op_log(2) [OF sleep.hyps refl] by (simp add: log_inv_def)
next
  case (add b s t i ops)
  have o: "outstanding (flog (fs t)) = outstanding (flog (fs s))"
    using add.hyps(1) by (auto simp: log_write_def Let_def set_head_def upd_log_def bpin_def dest!: k_lock_fs split: Option.bind_splits if_splits)
  have "sum_list (ops[i := ops ! i - 1]) + 1 = sum_list ops"
    using add.hyps(3) sum_list_upd [OF add.hyps(2), of "ops ! i - 1"] by simp
  then have "int (sum_list (ops[i := ops ! i - 1])) = int (sum_list ops) - 1" by linarith
  moreover have "\<forall>x \<in> set (ops[i := ops ! i - 1]). x \<le> MAXOPBLOCKS"
  proof
    fix x assume "x \<in> set (ops[i := ops ! i - 1])"
    then have "x = ops ! i - 1 \<or> x \<in> set ops" using set_update_subset_insert [of ops i "ops ! i - 1"] by blast
    moreover have "\<forall>x \<in> set ops. x \<le> MAXOPBLOCKS" using add.prems by (simp add: log_inv_def Let_def)
    ultimately show "x \<le> MAXOPBLOCKS" using nth_mem [OF add.hyps(2)] by (metis diff_le_self le_trans)
  qed
  ultimately show ?case using add.prems add.hyps(4) o by (simp add: log_inv_def Let_def)
next
  case (again b s t i ops)
  have "outstanding (flog (fs t)) = outstanding (flog (fs s))"
    using again.hyps(1) by (auto simp: log_write_def Let_def set_head_def upd_log_def bpin_def dest!: k_lock_fs split: Option.bind_splits if_splits)
  then show ?case using again by (simp add: log_inv_def Let_def)
next
  case (leave cur s t i ops)
  have e: "outstanding (flog (fs t)) = outstanding (flog (fs s)) - 1 \<and>
    lh_n (lh (flog (fs t))) = (if outstanding (flog (fs s)) = 1 then 0 else lh_n (lh (flog (fs s))))"
    using end_op_log [OF leave.hyps(1)] leave.prems by (simp add: log_inv_def Let_def)
  have m: "mset ops = add_mset (ops ! i) (mset (remove_nth i ops))" by (rule mset_remove_nth [OF leave.hyps(2)])
  have l: "sum_list ops = ops ! i + sum_list (remove_nth i ops)"
    using arg_cong [OF m, of sum_mset] by (simp add: sum_mset_sum_list)
  have "set (remove_nth i ops) \<subseteq> set ops" using arg_cong [OF m, of set_mset] by auto
  moreover have "int (length (remove_nth i ops)) = int (length ops) - 1" using leave.hyps(2) by simp
  ultimately show ?case using e l leave.prems by (auto simp: log_inv_def Let_def simp del: length_remove_nth)
qed (simp add: log_inv_def)

lemma log_reach_inv: "log_step\<^sup>*\<^sup>* x y \<Longrightarrow> log_inv x \<Longrightarrow> log_inv y"
  by (induction rule: rtranclp_induct) (auto intro: log_step_inv)

text \<open>The cache has as many buffers as the log has blocks. If a batch of operations fills the log, every
  buffer is pinned and \<open>write_log\<close> finds none for the first block of the log.\<close>

lemma commit_full_log_panics:
  assumes "caller cur d s" "log_is d start L s" "L \<noteq> []" "\<And>b. b < NBUF \<Longrightarrow> refcnt (buf_of s b) \<noteq> 0"
    and "slot d (bufs (fs s)) (log_slot start 0) = None"
  shows "commit cur s = None"
proof -
  have inv: "cache_inv d (fs s)" and h: "held s = {}" using assms(1) by (simp_all add: caller_def)
  obtain xs where xs: "lru (bufs (fs s)) xs" "set xs = {..<NBUF}" using inv by (auto simp: cache_inv_def)
  note LD = log_isD [OF assms(2)]
  have "find (\<lambda>b. bdev (buf_of s b) = d \<and> blockno (buf_of s b) = log_slot start 0) xs = None"
    using assms(5) xs(2) by (auto simp: find_None_iff slot_None holds_def)
  moreover have "find (\<lambda>b. refcnt (buf_of s b) = 0) (rev xs) = None" using assms(4) xs(2) by (auto simp: find_None_iff)
  ultimately have "bget cur d (log_slot start 0) s = None"
    using h bscan_next [OF xs(1)] bscan_prev [OF xs(1)] by (simp add: bget_def)
  then have "bread cur d (log_slot start 0) s = None" by (simp add: bread_def)
  moreover obtain k where "length L = Suc k" using assms(3) by (cases L) auto
  then have "log_tails s = 0 # [Suc 0..<length L]" using LD(4) by (simp add: upt_rec)
  ultimately show ?thesis using LD(1-3) assms(3) by (simp add: commit_def Let_def)
qed

subsection \<open>Commits\<close>

text \<open>A state in which a commit may run: the logged blocks \<open>L\<close> are in the cache, pinned and not locked, a
  buffer is free, and the log on the disk is empty.\<close>

definition committable :: "nat \<Rightarrow> u32 \<Rightarrow> u32 \<Rightarrow> u32 list \<Rightarrow> fkstate \<Rightarrow> bool" where
  "committable cur d start L s \<longleftrightarrow> caller cur d s \<and> log_is d start L s \<and> homes_ok start L \<and> L \<noteq> [] \<and>
     owner d (fs s) start = None \<and>
     (\<forall>i < length L. owner d (fs s) (log_slot start i) = None \<and> owner d (fs s) (L ! i) = None \<and> 0 < refs d (fs s) (L ! i)) \<and>
     (\<forall>m. Suc (refs d (fs s) m) < 2 ^ 32) \<and> card {m. 0 < refs d (fs s) m} < NBUF \<and>
     length (bview d (fs s) start) = BSIZE \<and> header_ok start (disk (fs s) start) \<and> dec_head (disk (fs s) start) = []"

lemma commit_atomic:
  assumes "committable cur d start L s"
  shows "\<exists>t ws. commit cur s = Some t \<and> lh_n (lh (flog (fs t))) = 0 \<and> written (fs t) = rev ws @ written (fs s) \<and>
    (\<forall>m. home start m \<longrightarrow> disk (fs t) m = (if m \<in> set L then bview d (fs s) m else disk (fs s) m)) \<and>
    (\<forall>E cur' b sb0. crashed d start ws (disk (fs s)) E \<and> boot_state cur' d E b \<and> sb_logstart sb0 = start \<longrightarrow>
      (\<exists>u. initlog cur' d sb0 b = Some u \<and> lh_n (lh (flog (fs u))) = 0 \<and>
        ((\<forall>m. home start m \<longrightarrow> disk (fs u) m = disk (fs s) m) \<or>
         (\<forall>m. home start m \<longrightarrow> disk (fs u) m = (if m \<in> set L then bview d (fs s) m else disk (fs s) m)))))"
proof -
  let ?V = "bview d (fs s)" and ?D = "disk (fs s)" and ?lb = "lh_block (lh (flog (fs s)))"
  define g where "g = (\<lambda>i. ?V (L ! i))"
  define h1 where "h1 = enc_head (int (length L)) ?lb (?V start)"
  define h0 where "h0 = enc_head 0 ?lb h1"
  define ws where "ws = commit_writes start L g h1 h0"
  note C = assms [unfolded committable_def]
  have c: "cache_is cur d s ?V (refs d (fs s)) (owner d (fs s)) ?D (written (fs s))" using C by (simp add: cache_is_def)
  have hm: "homes_ok start L" and l: "log_is d start L s" using C by simp_all
  have n: "length L \<le> LOGBLOCKS" "take (length L) ?lb = L" using l by (simp_all add: log_is_def)
  obtain t where t: "commit cur s = Some t" "lh_n (lh (flog (fs t))) = 0"
    "cache_is cur d t (apply_writes ws ?V) (\<lambda>m. if m \<in> set L then refs d (fs s) m - 1 else refs d (fs s) m) (owner d (fs s))
       (apply_writes ws ?D) (rev ws @ written (fs s))"
    by (rule commit_ok [OF c l hm _ _ _ _ _ _ g_def h1_def h0_def ws_def]) (use C in auto)
  have hd: "header_ok start (?D start)" "dec_head (?D start) = []" and vl: "length (?V start) = BSIZE" using C by simp_all
  have H1: "header_ok start h1" "dec_head h1 = L" unfolding h1_def using header_ok_enc [OF hm vl n(2)] by simp_all
  have "length h1 = BSIZE" using H1(1) by (simp add: header_ok_def)
  then have H0: "header_ok start h0" "dec_head h0 = []" using header_ok_empty by (simp_all add: h0_def enc_head_0)
  have new: "apply_writes (copies (nth L) g (length L)) ?D m = (if m \<in> set L then ?V m else ?D m)" for m
  proof (cases "m \<in> set L")
    case True
    then obtain i where i: "i < length L" "m = L ! i" by (auto simp: in_set_conv_nth)
    have "apply_writes (copies (nth L) g (length L)) ?D (L ! i) = g i" by (rule copies_at) (use homes_okD(4) [OF hm] i in auto)
    then show ?thesis using True i by (simp add: g_def)
  next
    case False
    then have "m \<notin> nth L ` {..<length L}" by auto
    then show ?thesis using False by (simp add: copies_other)
  qed
  have "disk (fs t) m = (if m \<in> set L then ?V m else ?D m)" if m: "home start m" for m
  proof -
    have E: "disk (fs t) = apply_writes (take (length ws) ws) ?D" using t(3) by (simp add: cache_is_def)
    note K = commit_crash [where start = start and D = ?D and k = "length ws", OF hm hd H1 H0 ws_def E]
    have "dec_head (disk (fs t) start) = []"
      using t(3) H0(2) by (simp add: cache_is_def ws_def commit_writes_def)
    then show ?thesis using K(2) [OF m] new [of m] by (simp add: wal.logical_empty) (simp add: ws_def commit_writes_def copies_def)
  qed
  moreover have "\<exists>u. initlog cur' d sb0 b = Some u \<and> lh_n (lh (flog (fs u))) = 0 \<and>
      ((\<forall>m. home start m \<longrightarrow> disk (fs u) m = ?D m) \<or> (\<forall>m. home start m \<longrightarrow> disk (fs u) m = (if m \<in> set L then ?V m else ?D m)))"
    if K: "crashed d start ws ?D E" "boot_state cur' d E b" "sb_logstart sb0 = start" for E cur' b sb0
  proof -
    note I = crashed_inv [OF K(1) hm hd H1 H0 ws_def]
    obtain u where u: "initlog cur' d sb0 b = Some u" "lh_n (lh (flog (fs u))) = 0"
      "\<And>m. home start m \<Longrightarrow> disk (fs u) m = logical dec_head start (log_slot start) E m"
      using initlog_ok [OF K(2) _ K(3)] I by blast
    then show ?thesis using I by (simp add: new)
  qed
  moreover have "written (fs t) = rev ws @ written (fs s)" using t(3) by (simp add: cache_is_def)
  ultimately show ?thesis using t(1,2) by blast
qed

end
