(* ===== verification/Fs_Inode.thy ===== *)
theory Fs_Inode
  imports Fs_Log
begin

unbundle bit_operations_syntax

text \<open>
  The lower half of \<^verbatim>\<open>kernel/fs.c\<close>: the super block, the free map, the inodes on disk and the table of
  inodes in memory. An inode pointer is an index of the table; the null pointer of a failed search is
  \<^const>\<open>None\<close> inside the result. A transaction that \<open>begin_op\<close> cannot start at once and an inode
  another process has locked are \<^const>\<open>None\<close>, as for the buffers.
\<close>

definition NINODE :: nat where "NINODE = 50"
definition ROOTDEV :: u32 where "ROOTDEV = 1"
definition ROOTINO :: u32 where "ROOTINO = 1"
definition FSMAGIC :: u32 where "FSMAGIC = 0x10203040"
definition NDIRECT :: nat where "NDIRECT = 12"
definition NINDIRECT :: nat where "NINDIRECT = BSIZE div 4"
definition MAXFILE :: nat where "MAXFILE = NDIRECT + NINDIRECT"
definition IPB :: nat where "IPB = BSIZE div 64"
definition BPB :: nat where "BPB = BSIZE * 8"
definition T_DIR :: int where "T_DIR = 1"
definition T_FILE :: int where "T_FILE = 2"
definition T_DEVICE :: int where "T_DEVICE = 3"

definition ItableLock :: lockid where "ItableLock = OtherLock 10"

definition IBLOCK :: "nat \<Rightarrow> superblock \<Rightarrow> u32" where
  "IBLOCK i v = word_of_nat (i div IPB) + sb_inodestart v"

definition BBLOCK :: "nat \<Rightarrow> superblock \<Rightarrow> u32" where
  "BBLOCK b v = word_of_nat (b div BPB) + sb_bmapstart v"

abbreviation inode_of :: "fkstate \<Rightarrow> nat \<Rightarrow> inode" where
  "inode_of s i \<equiv> itable (fs s) ! i"

abbreviation super :: "fkstate \<Rightarrow> superblock" where
  "super s \<equiv> sb (fs s)"

subsection \<open>Fields of blocks\<close>

text \<open>A C \<^verbatim>\<open>short\<close> of an \<open>int\<close>.\<close>

definition short_of :: "int \<Rightarrow> int" where
  "short_of i = sint (word_of_int i :: 16 word)"

definition get16 :: "nat \<Rightarrow> block \<Rightarrow> 16 word" where
  "get16 i bs = ucast (bs ! (2 * i)) OR push_bit 8 (ucast (bs ! (2 * i + 1)))"

definition put16 :: "nat \<Rightarrow> 16 word \<Rightarrow> block \<Rightarrow> block" where
  "put16 i v bs = bs[2 * i := ucast v, 2 * i + 1 := ucast (drop_bit 8 v)]"

definition dec_super :: "block \<Rightarrow> superblock" where
  "dec_super bs = \<lparr>sb_magic = get32 0 bs, sb_size = get32 1 bs, sb_nblocks = get32 2 bs, sb_ninodes = get32 3 bs,
     sb_nlog = get32 4 bs, sb_logstart = get32 5 bs, sb_inodestart = get32 6 bs, sb_bmapstart = get32 7 bs\<rparr>"

text \<open>The \<open>k\<close>-th \<^verbatim>\<open>struct dinode\<close> of a block, 64 bytes.\<close>

record dinode =
  di_type :: int
  di_major :: int
  di_minor :: int
  di_nlink :: int
  di_size :: u32
  di_addrs :: "u32 list"

definition dec_dinode :: "nat \<Rightarrow> block \<Rightarrow> dinode" where
  "dec_dinode k bs = \<lparr>di_type = sint (get16 (32 * k) bs), di_major = sint (get16 (32 * k + 1) bs), di_minor = sint (get16 (32 * k + 2) bs),
     di_nlink = sint (get16 (32 * k + 3) bs), di_size = get32 (16 * k + 2) bs,
     di_addrs = map (\<lambda>j. get32 (16 * k + 3 + j) bs) [0..<Suc NDIRECT]\<rparr>"

definition enc_dinode :: "nat \<Rightarrow> dinode \<Rightarrow> block \<Rightarrow> block" where
  "enc_dinode k d bs =
     (let bs = put16 (32 * k) (word_of_int (di_type d)) bs;
          bs = put16 (32 * k + 1) (word_of_int (di_major d)) bs;
          bs = put16 (32 * k + 2) (word_of_int (di_minor d)) bs;
          bs = put16 (32 * k + 3) (word_of_int (di_nlink d)) bs;
          bs = put32 (16 * k + 2) (di_size d) bs in
      fold (\<lambda>j bs. put32 (16 * k + 3 + j) (di_addrs d ! j) bs) [0..<Suc NDIRECT] bs)"

definition zero_dinode :: "nat \<Rightarrow> block \<Rightarrow> block" where
  "zero_dinode k bs = take (64 * k) bs @ replicate 64 0 @ drop (64 * k + 64) bs"

definition of_inode :: "inode \<Rightarrow> dinode" where
  "of_inode ip = \<lparr>di_type = itype ip, di_major = imajor ip, di_minor = iminor ip, di_nlink = inlink ip, di_size = isize ip, di_addrs = addrs ip\<rparr>"

definition load_inode :: "dinode \<Rightarrow> inode \<Rightarrow> inode" where
  "load_inode d ip = ip\<lparr>itype := di_type d, imajor := di_major d, iminor := di_minor d, inlink := di_nlink d, isize := di_size d, addrs := di_addrs d\<rparr>"

subsection \<open>Super block and free map\<close>

definition readsb :: "nat \<Rightarrow> u32 \<Rightarrow> fkstate \<Rightarrow> fkstate option" where
  "readsb cur dev s = do {
     (bp, s) \<leftarrow> bread cur dev 1 s;
     brelse cur bp (upd_fs (\<lambda>v. v\<lparr>sb := dec_super (bdata (bufs v ! bp))\<rparr>) s)
   }"

definition bzero :: "nat \<Rightarrow> u32 \<Rightarrow> u32 \<Rightarrow> fkstate \<Rightarrow> fkstate option" where
  "bzero cur dev bno s = do {
     (bp, s) \<leftarrow> bread cur dev bno s;
     s \<leftarrow> log_write bp (set_data bp (\<lambda>_. replicate BSIZE 0) s);
     brelse cur bp s
   }"

text \<open>\<^verbatim>\<open>m = 1 << (bi % 8)\<close>, the test and the two updates of \<^verbatim>\<open>bp->data[bi/8]\<close>.\<close>

definition bmask :: "nat \<Rightarrow> byte" where "bmask bi = push_bit (bi mod 8) 1"

definition bit_free :: "nat \<Rightarrow> block \<Rightarrow> bool" where
  "bit_free bi bs \<longleftrightarrow> bs ! (bi div 8) AND bmask bi = 0"

definition bit_mark :: "nat \<Rightarrow> block \<Rightarrow> block" where
  "bit_mark bi bs = bs[bi div 8 := bs ! (bi div 8) OR bmask bi]"

definition bit_clear :: "nat \<Rightarrow> block \<Rightarrow> block" where
  "bit_clear bi bs = bs[bi div 8 := bs ! (bi div 8) AND NOT (bmask bi)]"

text \<open>The outer loop of \<open>balloc\<close> over the blocks of the map that start at the numbers of the list; the
  inner loop stops at the first free bit.\<close>

fun balloc_from :: "nat \<Rightarrow> u32 \<Rightarrow> nat list \<Rightarrow> fkstate \<Rightarrow> (u32 \<times> fkstate) option" where
  "balloc_from cur dev [] s = Some (0, s)"
| "balloc_from cur dev (b # bs) s = do {
     (bp, s) \<leftarrow> bread cur dev (BBLOCK b (super s)) s;
     (case find (\<lambda>bi. bit_free bi (bdata (buf_of s bp))) [0..<min BPB (unat (sb_size (super s)) - b)] of
        Some bi \<Rightarrow> do {
          s \<leftarrow> log_write bp (set_data bp (bit_mark bi) s);
          s \<leftarrow> brelse cur bp s;
          s \<leftarrow> bzero cur dev (word_of_nat (b + bi)) s;
          Some (word_of_nat (b + bi), s)
        }
      | None \<Rightarrow> do {
          s \<leftarrow> brelse cur bp s;
          balloc_from cur dev bs s
        })
   }"

definition map_starts :: "nat \<Rightarrow> nat list" where
  "map_starts nb = map (\<lambda>k. k * BPB) [0..<(nb + BPB - 1) div BPB]"

definition balloc :: "nat \<Rightarrow> u32 \<Rightarrow> fkstate \<Rightarrow> (u32 \<times> fkstate) option" where
  "balloc cur dev s = balloc_from cur dev (map_starts (unat (sb_size (super s)))) s"

definition bfree :: "nat \<Rightarrow> u32 \<Rightarrow> u32 \<Rightarrow> fkstate \<Rightarrow> fkstate option" where
  "bfree cur dev b s = do {
     (bp, s) \<leftarrow> bread cur dev (BBLOCK (unat b) (super s)) s;
     let bi = unat b mod BPB;
     if bit_free bi (bdata (buf_of s bp)) then None
     else do {
       s \<leftarrow> log_write bp (set_data bp (bit_clear bi) s);
       brelse cur bp s
     }
   }"

subsection \<open>Inodes\<close>

definition zero_inode :: inode where
  "zero_inode = \<lparr>idev = 0, inum = 0, iref = 0, ilk = initsleeplock, ivalid = 0, itype = 0, imajor = 0, iminor = 0, inlink = 0, isize = 0,
     addrs = replicate (Suc NDIRECT) 0\<rparr>"

definition iinit :: "inode list \<Rightarrow> inode list" where
  "iinit t = map (\<lambda>ip. ip\<lparr>ilk := initsleeplock\<rparr>) t"

text \<open>The scan for an inode that is in the table, and the first empty entry it passes.\<close>

definition iget :: "u32 \<Rightarrow> u32 \<Rightarrow> fkstate \<Rightarrow> (nat \<times> fkstate) option" where
  "iget dev n s = do {
     s \<leftarrow> k_acquire ItableLock s;
     (case find (\<lambda>i. iref (inode_of s i) > 0 \<and> idev (inode_of s i) = dev \<and> inum (inode_of s i) = n) [0..<NINODE] of
        Some i \<Rightarrow> do {
          s \<leftarrow> k_release ItableLock (upd_inode i (\<lambda>ip. ip\<lparr>iref := iref ip + 1\<rparr>) s);
          Some (i, s)
        }
      | None \<Rightarrow>
          (case find (\<lambda>i. iref (inode_of s i) = 0) [0..<NINODE] of
             None \<Rightarrow> None
           | Some i \<Rightarrow> do {
               s \<leftarrow> k_release ItableLock (upd_inode i (\<lambda>ip. ip\<lparr>idev := dev, inum := n, iref := 1, ivalid := 0\<rparr>) s);
               Some (i, s)
             }))
   }"

definition idup :: "nat \<Rightarrow> fkstate \<Rightarrow> (nat \<times> fkstate) option" where
  "idup i s = do {
     s \<leftarrow> k_acquire ItableLock s;
     s \<leftarrow> k_release ItableLock (upd_inode i (\<lambda>ip. ip\<lparr>iref := iref ip + 1\<rparr>) s);
     Some (i, s)
   }"

fun ialloc_from :: "nat \<Rightarrow> u32 \<Rightarrow> int \<Rightarrow> nat list \<Rightarrow> fkstate \<Rightarrow> (nat option \<times> fkstate) option" where
  "ialloc_from cur dev ty [] s = Some (None, s)"
| "ialloc_from cur dev ty (n # ns) s = do {
     (bp, s) \<leftarrow> bread cur dev (IBLOCK n (super s)) s;
     if di_type (dec_dinode (n mod IPB) (bdata (buf_of s bp))) = 0 then do {
       s \<leftarrow> log_write bp (set_data bp (\<lambda>bs. put16 (32 * (n mod IPB)) (word_of_int ty) (zero_dinode (n mod IPB) bs)) s);
       s \<leftarrow> brelse cur bp s;
       (i, s) \<leftarrow> iget dev (word_of_nat n) s;
       Some (Some i, s)
     }
     else do {
       s \<leftarrow> brelse cur bp s;
       ialloc_from cur dev ty ns s
     }
   }"

definition ialloc :: "nat \<Rightarrow> u32 \<Rightarrow> int \<Rightarrow> fkstate \<Rightarrow> (nat option \<times> fkstate) option" where
  "ialloc cur dev ty s = ialloc_from cur dev ty [1..<unat (sb_ninodes (super s))] s"

definition iupdate :: "nat \<Rightarrow> nat \<Rightarrow> fkstate \<Rightarrow> fkstate option" where
  "iupdate cur i s = do {
     let ip = inode_of s i;
     (bp, s) \<leftarrow> bread cur (idev ip) (IBLOCK (unat (inum ip)) (super s)) s;
     s \<leftarrow> log_write bp (set_data bp (enc_dinode (unat (inum ip) mod IPB) (of_inode ip)) s);
     brelse cur bp s
   }"

definition ilock :: "nat \<Rightarrow> nat \<Rightarrow> fkstate \<Rightarrow> fkstate option" where
  "ilock cur i s =
     (if iref (inode_of s i) < 1 then None
      else do {
        s \<leftarrow> take_sleeplock cur (InodeSl i) s;
        if ivalid (inode_of s i) = 0 then do {
          let ip = inode_of s i;
          (bp, s) \<leftarrow> bread cur (idev ip) (IBLOCK (unat (inum ip)) (super s)) s;
          let s = upd_inode i (load_inode (dec_dinode (unat (inum ip) mod IPB) (bdata (buf_of s bp)))) s;
          s \<leftarrow> brelse cur bp s;
          let s = upd_inode i (\<lambda>ip. ip\<lparr>ivalid := 1\<rparr>) s;
          if itype (inode_of s i) = 0 then None else Some s
        }
        else Some s
      })"

definition iunlock :: "nat \<Rightarrow> nat \<Rightarrow> fkstate \<Rightarrow> fkstate option" where
  "iunlock cur i s = do {
     (h, s) \<leftarrow> holdingsleep cur (InodeSl i) s;
     if \<not> h \<or> iref (inode_of s i) < 1 then None else releasesleep cur (InodeSl i) s
   }"

text \<open>\<open>itrunc\<close>: the direct blocks, then the blocks the indirect block lists, whose buffer is held.\<close>

fun itrunc_direct :: "nat \<Rightarrow> nat \<Rightarrow> nat list \<Rightarrow> fkstate \<Rightarrow> fkstate option" where
  "itrunc_direct cur i [] s = Some s"
| "itrunc_direct cur i (j # js) s = do {
     let a = addrs (inode_of s i) ! j;
     s \<leftarrow> (if a \<noteq> 0 then do {
            s \<leftarrow> bfree cur (idev (inode_of s i)) a s;
            Some (upd_inode i (\<lambda>ip. ip\<lparr>addrs := (addrs ip)[j := 0]\<rparr>) s)
          }
          else Some s);
     itrunc_direct cur i js s
   }"

fun itrunc_indirect :: "nat \<Rightarrow> nat \<Rightarrow> nat \<Rightarrow> nat list \<Rightarrow> fkstate \<Rightarrow> fkstate option" where
  "itrunc_indirect cur i bp [] s = Some s"
| "itrunc_indirect cur i bp (j # js) s = do {
     let a = get32 j (bdata (buf_of s bp));
     s \<leftarrow> (if a \<noteq> 0 then bfree cur (idev (inode_of s i)) a s else Some s);
     itrunc_indirect cur i bp js s
   }"

definition itrunc :: "nat \<Rightarrow> nat \<Rightarrow> fkstate \<Rightarrow> fkstate option" where
  "itrunc cur i s = do {
     s \<leftarrow> itrunc_direct cur i [0..<NDIRECT] s;
     let a = addrs (inode_of s i) ! NDIRECT;
     s \<leftarrow> (if a \<noteq> 0 then do {
            (bp, s) \<leftarrow> bread cur (idev (inode_of s i)) a s;
            s \<leftarrow> itrunc_indirect cur i bp [0..<NINDIRECT] s;
            s \<leftarrow> brelse cur bp s;
            s \<leftarrow> bfree cur (idev (inode_of s i)) a s;
            Some (upd_inode i (\<lambda>ip. ip\<lparr>addrs := (addrs ip)[NDIRECT := 0]\<rparr>) s)
          }
          else Some s);
     iupdate cur i (upd_inode i (\<lambda>ip. ip\<lparr>isize := 0\<rparr>) s)
   }"

definition iput :: "nat \<Rightarrow> nat \<Rightarrow> fkstate \<Rightarrow> fkstate option" where
  "iput cur i s = do {
     s \<leftarrow> k_acquire ItableLock s;
     s \<leftarrow> (if iref (inode_of s i) = 1 \<and> ivalid (inode_of s i) \<noteq> 0 \<and> inlink (inode_of s i) = 0 then do {
            s \<leftarrow> take_sleeplock cur (InodeSl i) s;
            s \<leftarrow> k_release ItableLock s;
            s \<leftarrow> itrunc cur i s;
            s \<leftarrow> iupdate cur i (upd_inode i (\<lambda>ip. ip\<lparr>itype := 0\<rparr>) s);
            s \<leftarrow> releasesleep cur (InodeSl i) (upd_inode i (\<lambda>ip. ip\<lparr>ivalid := 0\<rparr>) s);
            k_acquire ItableLock s
          }
          else Some s);
     k_release ItableLock (upd_inode i (\<lambda>ip. ip\<lparr>iref := iref ip - 1\<rparr>) s)
   }"

definition iunlockput :: "nat \<Rightarrow> nat \<Rightarrow> fkstate \<Rightarrow> fkstate option" where
  "iunlockput cur i s = Option.bind (iunlock cur i s) (iput cur i)"

subsection \<open>Start\<close>

text \<open>\<open>begin_op\<close> where it need not wait.\<close>

definition take_op :: "nat \<Rightarrow> fkstate \<Rightarrow> fkstate option" where
  "take_op cur s = do {
     (r, s) \<leftarrow> begin_op cur s;
     (case r of Return _ \<Rightarrow> Some s | Blocked \<Rightarrow> None)
   }"

fun ireclaim_from :: "nat \<Rightarrow> u32 \<Rightarrow> nat list \<Rightarrow> fkstate \<Rightarrow> fkstate option" where
  "ireclaim_from cur dev [] s = Some s"
| "ireclaim_from cur dev (n # ns) s = do {
     (bp, s) \<leftarrow> bread cur dev (IBLOCK n (super s)) s;
     let d = dec_dinode (n mod IPB) (bdata (buf_of s bp));
     (ip, s) \<leftarrow> (if di_type d \<noteq> 0 \<and> di_nlink d = 0 then map_option (apfst Some) (iget dev (word_of_nat n) s) else Some (None, s));
     s \<leftarrow> brelse cur bp s;
     s \<leftarrow> (case ip of
            Some i \<Rightarrow> do {
              s \<leftarrow> take_op cur s;
              s \<leftarrow> ilock cur i s;
              s \<leftarrow> iunlock cur i s;
              s \<leftarrow> iput cur i s;
              end_op cur s
            }
          | None \<Rightarrow> Some s);
     ireclaim_from cur dev ns s
   }"

definition ireclaim :: "nat \<Rightarrow> u32 \<Rightarrow> fkstate \<Rightarrow> fkstate option" where
  "ireclaim cur dev s = ireclaim_from cur dev [1..<unat (sb_ninodes (super s))] s"

definition fsinit :: "nat \<Rightarrow> u32 \<Rightarrow> fkstate \<Rightarrow> fkstate option" where
  "fsinit cur dev s = do {
     s \<leftarrow> readsb cur dev s;
     if sb_magic (super s) \<noteq> FSMAGIC then None
     else do {
       s \<leftarrow> initlog cur dev (super s) s;
       ireclaim cur dev s
     }
   }"

end
