(* ===== verification/Fs_Txn.thy ===== *)
theory Fs_Txn
  imports Fs_Trans Fs_Inode
begin

text \<open>
  What a file system operation sees between \<open>begin_op\<close> and \<open>end_op\<close>: the contents \<open>V\<close> of the
  blocks, the list \<open>L\<close> of the blocks logged so far and the set \<open>H\<close> of the blocks it has locked. The
  reference counts follow from the two, so that the operations of \<open>fs.c\<close> become changes of \<open>V\<close> and
  \<open>L\<close>.
\<close>

definition txn_refs :: "u32 list \<Rightarrow> u32 set \<Rightarrow> u32 \<Rightarrow> nat" where
  "txn_refs L H n = (if n \<in> set L then 1 else 0) + (if n \<in> H then 1 else 0)"

definition txn_owner :: "int \<Rightarrow> u32 set \<Rightarrow> u32 \<Rightarrow> int option" where
  "txn_owner p H n = (if n \<in> H then Some p else None)"

definition txn :: "nat \<Rightarrow> u32 \<Rightarrow> u32 \<Rightarrow> (u32 \<Rightarrow> block) \<Rightarrow> u32 list \<Rightarrow> u32 set \<Rightarrow> (u32 \<Rightarrow> block) \<Rightarrow> fkstate \<Rightarrow> bool" where
  "txn cur d start D L H V s \<longleftrightarrow>
     (\<exists>W. cache_is cur d s V (txn_refs L H) (txn_owner (mypid cur s) H) D W) \<and> log_is d start L s \<and> distinct L \<and>
     (\<forall>n \<in> set L. home start n)"

text \<open>What stays the same: the rest of the state, and where the locked blocks are.\<close>

definition frame :: "u32 \<Rightarrow> u32 set \<Rightarrow> fkstate \<Rightarrow> fkstate \<Rightarrow> bool" where
  "frame d H s t \<longleftrightarrow> held t = held s \<and> pm t = pm s \<and> map strip (proc t) = map strip (proc s) \<and>
     sb (fs t) = sb (fs s) \<and> itable (fs t) = itable (fs s) \<and> ftable (fs t) = ftable (fs s) \<and> pipes (fs t) = pipes (fs s) \<and>
     outstanding (flog (fs t)) = outstanding (flog (fs s)) \<and>
     (\<forall>n \<in> H. \<forall>b. holds d (fs s) b n \<longrightarrow> holds d (fs t) b n)"

lemma frame_refl [simp]: "frame d H s s"
  by (simp add: frame_def)

lemma frame_trans [trans]: "frame d H s t \<Longrightarrow> frame d H t u \<Longrightarrow> frame d H s u"
  by (simp add: frame_def)

lemma frame_subset: "frame d H s t \<Longrightarrow> H' \<subseteq> H \<Longrightarrow> frame d H' s t"
  by (auto simp: frame_def)

lemma frame_fields:
  assumes "frame d H s t"
  shows "held t = held s" "pm t = pm s" "sb (fs t) = sb (fs s)" "itable (fs t) = itable (fs s)" "ftable (fs t) = ftable (fs s)"
    "pipes (fs t) = pipes (fs s)" "outstanding (flog (fs t)) = outstanding (flog (fs s))"
  using assms by (auto simp: frame_def)

lemma frame_holds: "frame d H s t \<Longrightarrow> n \<in> H \<Longrightarrow> holds d (fs s) b n \<Longrightarrow> holds d (fs t) b n"
  by (auto simp: frame_def)

lemma keeps_frame:
  assumes "keeps d s t" "cache_is cur d s V R O' D W" "\<And>n. n \<in> H \<Longrightarrow> 0 < R n"
  shows "frame d H s t"
proof -
  have "\<forall>n \<in> H. \<forall>b. holds d (fs s) b n \<longrightarrow> holds d (fs t) b n" using keepsD [OF assms(1) _ assms(2)] assms(3) by blast
  then show ?thesis using keeps_quiet [OF assms(1)] by (simp add: frame_def quiet_def)
qed

lemma txn_length: "txn cur d start D L H V s \<Longrightarrow> length L \<le> LOGBLOCKS"
  by (simp add: txn_def log_is_def)

lemma txn_held: "txn cur d start D L H V s \<Longrightarrow> held s = {}"
  by (auto simp: txn_def cache_is_def caller_def)

text \<open>A block that is neither logged nor locked is as on disk.\<close>

lemma txn_clean: "txn cur d start D L H V s \<Longrightarrow> n \<notin> set L \<Longrightarrow> n \<notin> H \<Longrightarrow> V n = D n"
proof -
  assume "txn cur d start D L H V s" and n: "n \<notin> set L" "n \<notin> H"
  then obtain W where c: "cache_is cur d s V (txn_refs L H) (txn_owner (mypid cur s) H) D W" by (auto simp: txn_def)
  show "V n = D n" by (rule cache_is_clean [OF c]) (simp add: txn_refs_def n)
qed

text \<open>The bound on the buffers in use.\<close>

lemma txn_room:
  assumes "length L + card H < NBUF" "finite H"
  shows "card {m. 0 < txn_refs L H m} < NBUF"
proof -
  have "{m. 0 < txn_refs L H m} = set L \<union> H" by (auto simp: txn_refs_def)
  moreover have "card (set L \<union> H) \<le> length L + card H"
    using card_Un_le [of "set L" H] card_length [of L] by linarith
  ultimately show ?thesis using assms(1) by simp
qed

subsection \<open>Locking, changing and unlocking a block\<close>

lemma txn_bread:
  assumes t: "txn cur d start D L H V s" and n: "n \<notin> H" and r: "length L + card H < NBUF" "finite H"
  obtains b t where "bread cur d n s = Some (b, t)" "txn cur d start D L (insert n H) V t" "frame d H s t" "holds d (fs t) b n"
    "bdata (buf_of t b) = V n"
proof -
  obtain W where c: "cache_is cur d s V (txn_refs L H) (txn_owner (mypid cur s) H) D W" and l: "log_is d start L s" "distinct L" "\<forall>n \<in> set L. home start n"
    using t by (auto simp: txn_def)
  obtain b u where b: "bread cur d n s = Some (b, u)" "keeps d s u" "holds d (fs u) b n"
    "cache_is cur d u V ((txn_refs L H)(n := Suc (txn_refs L H n))) ((txn_owner (mypid cur s) H)(n := Some (mypid cur s))) D W"
    by (rule bread_is [OF c, of n]) (use n txn_room [OF r] in \<open>auto simp: txn_owner_def txn_refs_def\<close>)
  have e: "(txn_refs L H)(n := Suc (txn_refs L H n)) = txn_refs L (insert n H)"
    "(txn_owner (mypid cur s) H)(n := Some (mypid cur s)) = txn_owner (mypid cur u) (insert n H)"
    using n keeps_mypid [OF b(2) c] by (auto simp: fun_eq_iff txn_refs_def txn_owner_def)
  have "txn cur d start D L (insert n H) V u"
    using b(4) l log_is_quiet [OF keeps_quiet [OF b(2)]] unfolding e by (auto simp: txn_def)
  moreover have "frame d H s u" by (rule keeps_frame [OF b(2) c]) (simp add: txn_refs_def)
  moreover have "bdata (buf_of u b) = V n" using holds_is(1) [OF b(4,3)] by simp
  ultimately show thesis using that b(1,3) by blast
qed

lemma txn_brelse:
  assumes t: "txn cur d start D L (insert n H) V s" and n: "n \<notin> H" and h: "holds d (fs s) b n" and k: "n \<in> set L \<or> V n = D n"
  obtains t where "brelse cur b s = Some t" "txn cur d start D L H V t" "frame d (insert n H) s t"
proof -
  obtain W where c: "cache_is cur d s V (txn_refs L (insert n H)) (txn_owner (mypid cur s) (insert n H)) D W" and l: "log_is d start L s" "distinct L" "\<forall>n \<in> set L. home start n"
    using t by (auto simp: txn_def)
  show thesis
  proof (rule brelse_is [OF c h])
    fix u assume u: "brelse cur b s = Some u" "keeps d s u" "holds d (fs u) = holds d (fs s)"
      "cache_is cur d u V ((txn_refs L (insert n H))(n := txn_refs L (insert n H) n - 1)) ((txn_owner (mypid cur s) (insert n H))(n := None)) D W"
    have e: "(txn_refs L (insert n H))(n := txn_refs L (insert n H) n - 1) = txn_refs L H"
      "(txn_owner (mypid cur s) (insert n H))(n := None) = txn_owner (mypid cur u) H"
      using n keeps_mypid [OF u(2) c] by (auto simp: fun_eq_iff txn_refs_def txn_owner_def)
    have "txn cur d start D L H V u" using u(4) l log_is_quiet [OF keeps_quiet [OF u(2)]] unfolding e by (auto simp: txn_def)
    moreover have "frame d (insert n H) s u" using keeps_quiet [OF u(2)] u(3) by (simp add: frame_def quiet_def)
    ultimately show thesis using that u(1) by blast
  qed (use k in \<open>auto simp: txn_refs_def txn_owner_def\<close>)
qed

lemma txn_set_data:
  assumes t: "txn cur d start D L H V s" and n: "n \<in> H" and h: "holds d (fs s) b n"
  shows "txn cur d start D L H (V(n := f (V n))) (set_data b f s)" "frame d H s (set_data b f s)"
proof -
  obtain W where c: "cache_is cur d s V (txn_refs L H) (txn_owner (mypid cur s) H) D W" and l: "log_is d start L s" "distinct L" "\<forall>n \<in> set L. home start n"
    using t by (auto simp: txn_def)
  have r: "0 < txn_refs L H n" using n by (simp add: txn_refs_def)
  note S = set_data_is [OF c h r, of f]
  show "txn cur d start D L H (V(n := f (V n))) (set_data b f s)"
    using S(1) l log_is_quiet [OF keeps_quiet [OF S(2)]] keeps_mypid [OF S(2) c] by (auto simp: txn_def)
  show "frame d H s (set_data b f s)" by (rule keeps_frame [OF S(2) c]) (simp add: txn_refs_def)
qed

lemma k_ops_frame: "k_acquire l s = Some t \<Longrightarrow> t = s\<lparr>held := insert l (held s)\<rparr>" "k_release l s = Some t \<Longrightarrow> t = s\<lparr>held := held s - {l}\<rparr>"
  by (auto simp: k_acquire_def k_release_def split: if_splits)

lemma log_write_rest:
  assumes "log_write b s = Some t" "held s = {}"
  shows "held t = {}" "pm t = pm s" "proc t = proc s" "sb (fs t) = sb (fs s)" "itable (fs t) = itable (fs s)" "ftable (fs t) = ftable (fs s)" "pipes (fs t) = pipes (fs s)"
  using assms by (auto simp: log_write_def Let_def bpin_def set_head_def upd_log_def upd_buf_def upd_fs_def insert_Diff_if bind_eq_Some_conv dest!: k_ops_frame split: if_splits)

lemma txn_log_write:
  assumes t: "txn cur d start D L H V s" and h: "holds d (fs s) b n" and l: "length L < LOGBLOCKS" and o: "1 \<le> outstanding (flog (fs s))"
    and hm: "home start n"
  obtains t where "log_write b s = Some t" "txn cur d start D (logged n L) H V t" "frame d H s t" "holds d (fs t) b n"
proof -
  obtain W where c: "cache_is cur d s V (txn_refs L H) (txn_owner (mypid cur s) H) D W" and li: "log_is d start L s" "distinct L" "\<forall>n \<in> set L. home start n"
    using t by (auto simp: txn_def)
  have small: "Suc (txn_refs L H n) < 2 ^ 32" by (simp add: txn_refs_def)
  obtain u where u: "log_write b s = Some u" "log_is d start (logged n L) u" "outstanding (flog (fs u)) = outstanding (flog (fs s))"
    "cache_is cur d u V (if n \<in> set L then txn_refs L H else (txn_refs L H)(n := Suc (txn_refs L H n))) (txn_owner (mypid cur s) H) D W"
    "holds d (fs u) = holds d (fs s)" "mypid cur u = mypid cur s"
    using log_write_ok [OF c li(1) h l o small] by blast
  have e: "(if n \<in> set L then txn_refs L H else (txn_refs L H)(n := Suc (txn_refs L H n))) = txn_refs (logged n L) H"
    by (auto simp: fun_eq_iff txn_refs_def logged_def)
  have "txn cur d start D (logged n L) H V u" using u(2,4,6) li(2,3) hm unfolding e by (auto simp: txn_def logged_def)
  moreover have "held s = {}" by (rule txn_held [OF t])
  then have "frame d H s u" using log_write_rest [OF u(1)] u(3,5) by (simp add: frame_def)
  ultimately show thesis using that u(1,5) h by simp
qed

lemma length_logged: "length (logged n L) \<le> Suc (length L)"
  by (simp add: logged_def)

lemma set_logged [simp]: "set (logged n L) = insert n (set L)"
  by (auto simp: logged_def)

text \<open>A locked block changed and logged.\<close>

lemma txn_change:
  assumes t: "txn cur d start D L H V s" and n: "n \<in> H" and h: "holds d (fs s) b n" and l: "length L < LOGBLOCKS" and o: "1 \<le> outstanding (flog (fs s))"
    and hm: "home start n"
  obtains t where "log_write b (set_data b f s) = Some t" "txn cur d start D (logged n L) H (V(n := f (V n))) t" "frame d H s t" "holds d (fs t) b n"
proof -
  note S = txn_set_data [OF t n h, of f]
  have h1: "holds d (fs (set_data b f s)) b n" by (rule frame_holds [OF S(2) n h])
  have o1: "1 \<le> outstanding (flog (fs (set_data b f s)))" using frame_fields(7) [OF S(2)] o by simp
  obtain u where "log_write b (set_data b f s) = Some u" "txn cur d start D (logged n L) H (V(n := f (V n))) u" "frame d H (set_data b f s) u" "holds d (fs u) b n"
    by (rule txn_log_write [OF S(1) h1 l o1 hm])
  then show thesis using that frame_trans [OF S(2)] by blast
qed

text \<open>A block read and given back, and a block read, changed, logged and given back.\<close>

lemma txn_look:
  assumes t: "txn cur d start D L H V s" and n: "n \<notin> H" and r: "length L + card H < NBUF" "finite H"
  obtains b t u where "bread cur d n s = Some (b, t)" "txn cur d start D L (insert n H) V t" "frame d H s t" "holds d (fs t) b n" "bdata (buf_of t b) = V n"
    "brelse cur b t = Some u" "txn cur d start D L H V u" "frame d H s u"
proof -
  obtain b u where b: "bread cur d n s = Some (b, u)" "txn cur d start D L (insert n H) V u" "frame d H s u" "holds d (fs u) b n" "bdata (buf_of u b) = V n"
    by (rule txn_bread [OF t n r])
  have "n \<in> set L \<or> V n = D n" using txn_clean [OF t _ n] by blast
  then obtain w where w: "brelse cur b u = Some w" "txn cur d start D L H V w" "frame d (insert n H) u w"
    by (rule txn_brelse [OF b(2) n b(4)])
  have "frame d H s w" using frame_trans [OF b(3) frame_subset [OF w(3)]] by blast
  then show thesis using that b w by blast
qed

lemma txn_update:
  assumes t: "txn cur d start D L H V s" and n: "n \<notin> H" and r: "length L + card H < NBUF" "finite H"
    and l: "length L < LOGBLOCKS" and o: "1 \<le> outstanding (flog (fs s))" and hm: "home start n"
  obtains b t u w where "bread cur d n s = Some (b, t)" "txn cur d start D L (insert n H) V t" "frame d H s t" "bdata (buf_of t b) = V n"
    "log_write b (set_data b f t) = Some u" "brelse cur b u = Some w"
    "txn cur d start D (logged n L) H (V(n := f (V n))) w" "frame d H s w"
proof -
  obtain b u where b: "bread cur d n s = Some (b, u)" "txn cur d start D L (insert n H) V u" "frame d H s u" "holds d (fs u) b n" "bdata (buf_of u b) = V n"
    by (rule txn_bread [OF t n r])
  have o1: "1 \<le> outstanding (flog (fs u))" using frame_fields(7) [OF b(3)] o by simp
  obtain v where v: "log_write b (set_data b f u) = Some v" "txn cur d start D (logged n L) (insert n H) (V(n := f (V n))) v"
    "frame d (insert n H) u v" "holds d (fs v) b n"
    by (rule txn_change [OF b(2) insertI1 b(4) l o1 hm])
  have "n \<in> set (logged n L) \<or> (V(n := f (V n))) n = D n" by simp
  then obtain w where w: "brelse cur b v = Some w" "txn cur d start D (logged n L) H (V(n := f (V n))) w" "frame d (insert n H) v w"
    by (rule txn_brelse [OF v(2) n v(4)])
  have "frame d (insert n H) u w" by (rule frame_trans [OF v(3) w(3)])
  then have "frame d H s w" using frame_trans [OF b(3) frame_subset] by blast
  then show thesis using that b v w by blast
qed

text \<open>Updates of the rest of the state.\<close>

lemma txn_cong:
  assumes "bufs (fs t) = bufs (fs s)" "disk (fs t) = disk (fs s)" "written (fs t) = written (fs s)" "flog (fs t) = flog (fs s)" "held t = held s" "proc t = proc s"
  shows "txn cur d start D L H V t \<longleftrightarrow> txn cur d start D L H V s"
  using cache_is_cong [OF assms(1-3,5,6)] assms by (simp add: txn_def log_is_def)

lemma txn_upd_inode [simp]: "txn cur d start D L H V (upd_inode i f s) \<longleftrightarrow> txn cur d start D L H V s"
  by (rule txn_cong) (simp_all add: upd_inode_def)

lemma txn_pm [simp]: "txn cur d start D L H V (s\<lparr>pm := m\<rparr>) \<longleftrightarrow> txn cur d start D L H V s"
  by (rule txn_cong) simp_all

end
