(* ===== verification/Fs_Alloc.thy ===== *)
theory Fs_Alloc
  imports Fs_Txn
begin

unbundle bit_operations_syntax

text \<open>
  The free map: \<open>blk_used\<close> is the set it represents. \<open>balloc\<close> takes the first free block, marks it and
  zeroes it; \<open>bfree\<close> takes a block out of the set.
\<close>

subsection \<open>Bits of a block\<close>

lemma bit_free_iff: "bit_free bi bs \<longleftrightarrow> \<not> bit (bs ! (bi div 8)) (bi mod 8)"
  by (simp add: bit_free_def bmask_def bit_iff_and_push_bit_not_eq_0)

lemma same_bit: "bi div 8 = bj div 8 \<Longrightarrow> bi mod 8 = bj mod 8 \<longleftrightarrow> bi = (bj :: nat)"
  by (metis mult_div_mod_eq)

lemma bit_free_mark:
  assumes "bi < 8 * length bs"
  shows "bit_free bj (bit_mark bi bs) \<longleftrightarrow> bj \<noteq> bi \<and> bit_free bj bs"
proof (cases "bi div 8 = bj div 8")
  case True
  have "bi div 8 < length bs" "bj mod 8 < 8" using assms by auto
  then show ?thesis using True same_bit [OF True]
    by (auto simp: bit_free_iff bit_mark_def bmask_def bit_simps)
next
  case False
  then show ?thesis by (auto simp: bit_free_iff bit_mark_def)
qed

lemma bit_free_clear:
  assumes "bi < 8 * length bs"
  shows "bit_free bj (bit_clear bi bs) \<longleftrightarrow> bj = bi \<or> bit_free bj bs"
proof (cases "bi div 8 = bj div 8")
  case True
  have "bi div 8 < length bs" "bj mod 8 < 8" using assms by auto
  then show ?thesis using True same_bit [OF True]
    by (auto simp: bit_free_iff bit_clear_def bmask_def bit_simps)
next
  case False
  then show ?thesis by (auto simp: bit_free_iff bit_clear_def)
qed

lemma length_bit_ops [simp]: "length (bit_mark bi bs) = length bs" "length (bit_clear bi bs) = length bs"
  by (simp_all add: bit_mark_def bit_clear_def)

subsection \<open>The map\<close>

definition blk_used :: "superblock \<Rightarrow> (u32 \<Rightarrow> block) \<Rightarrow> nat \<Rightarrow> bool" where
  "blk_used v V b \<longleftrightarrow> \<not> bit_free (b mod BPB) (V (BBLOCK b v))"

text \<open>The first data block; the blocks before it hold the boot block, the super block, the log, the inodes
  and the map.\<close>

definition data_start :: "superblock \<Rightarrow> nat" where
  "data_start v = unat (sb_bmapstart v) + unat (sb_size v) div BPB + 1"

definition layout_ok :: "superblock \<Rightarrow> bool" where
  "layout_ok v \<longleftrightarrow> unat (sb_logstart v) + LOGBLOCKS < unat (sb_inodestart v) \<and> data_start v \<le> unat (sb_size v) \<and> unat (sb_inodestart v) + unat (sb_ninodes v) div IPB < unat (sb_bmapstart v)"

definition map_ok :: "superblock \<Rightarrow> (u32 \<Rightarrow> block) \<Rightarrow> bool" where
  "map_ok v V \<longleftrightarrow> (\<forall>n. length (V n) = BSIZE) \<and> (\<forall>b < data_start v. blk_used v V b)"

lemma unat_bound: "unat (n :: u32) < 2 ^ 32"
  using unsigned_less [of n, where ?'a = nat] by simp

lemma unat_BBLOCK:
  assumes "layout_ok v" "b < unat (sb_size v)"
  shows "unat (BBLOCK b v) = unat (sb_bmapstart v) + b div BPB" "unat (BBLOCK b v) < data_start v"
proof -
  have "b div BPB \<le> unat (sb_size v) div BPB" using assms(2) by (simp add: div_le_mono)
  then have l: "unat (sb_bmapstart v) + b div BPB < data_start v" by (simp add: data_start_def)
  also have "data_start v \<le> unat (sb_size v)" using assms(1) by (simp add: layout_ok_def)
  also have "\<dots> < 2 ^ 32" by (rule unat_bound)
  finally have s: "unat (sb_bmapstart v) + b div BPB < 2 ^ 32" .
  have "unat (BBLOCK b v) = (b div BPB + unat (sb_bmapstart v)) mod 2 ^ 32"
    unfolding BBLOCK_def unat_word_ariths by (simp add: unat_of_nat mod_add_left_eq take_bit_eq_mod)
  then show e: "unat (BBLOCK b v) = unat (sb_bmapstart v) + b div BPB" using s by simp
  show "unat (BBLOCK b v) < data_start v" using l by (simp add: e)
qed

lemma BBLOCK_eq:
  assumes "layout_ok v" "b < unat (sb_size v)" "c < unat (sb_size v)"
  shows "BBLOCK b v = BBLOCK c v \<longleftrightarrow> b div BPB = c div BPB"
  using unat_BBLOCK(1) [OF assms(1,2)] unat_BBLOCK(1) [OF assms(1,3)] by (metis BBLOCK_def add_left_cancel)

text \<open>Only the blocks behind the log are written in transactions.\<close>

lemma home_behind:
  assumes "layout_ok v" "unat (sb_inodestart v) \<le> unat n"
  shows "home (sb_logstart v) n"
proof -
  have l: "unat (sb_logstart v) + LOGBLOCKS < unat n" using assms by (simp add: layout_ok_def)
  have "log_slot (sb_logstart v) j \<noteq> n" if "j < LOGBLOCKS" for j
  proof -
    have "unat (sb_logstart v) + (j + 1) < 2 ^ 32" using l that unat_bound [of n] by linarith
    then have "unat (sb_logstart v + word_of_nat (j + 1)) = unat (sb_logstart v) + (j + 1)"
      by (simp add: unat_word_ariths unat_of_nat take_bit_eq_mod del: of_nat_add)
    then have "unat (log_slot (sb_logstart v) j) = unat (sb_logstart v) + j + 1" by (simp add: log_slot_def ac_simps)
    then show ?thesis using l that by auto
  qed
  moreover have "n \<noteq> sb_logstart v" using l by auto
  ultimately show ?thesis by (auto simp: home_def)
qed

lemma home_data: "layout_ok v \<Longrightarrow> data_start v \<le> unat n \<Longrightarrow> home (sb_logstart v) n"
  by (rule home_behind) (auto simp: layout_ok_def data_start_def)

lemma home_map: "layout_ok v \<Longrightarrow> b < unat (sb_size v) \<Longrightarrow> home (sb_logstart v) (BBLOCK b v)"
  by (rule home_behind) (auto simp: unat_BBLOCK layout_ok_def)

text \<open>Changes of the map.\<close>

lemma used_upd:
  assumes l: "layout_ok v" and a: "a < unat (sb_size v)" "b < unat (sb_size v)" and len: "length (V (BBLOCK a v)) = BSIZE"
  shows "blk_used v (V(BBLOCK a v := bit_mark (a mod BPB) (V (BBLOCK a v)))) b \<longleftrightarrow> b = a \<or> blk_used v V b"
    "blk_used v (V(BBLOCK a v := bit_clear (a mod BPB) (V (BBLOCK a v)))) b \<longleftrightarrow> b \<noteq> a \<and> blk_used v V b"
proof -
  have m: "a mod BPB < 8 * length (V (BBLOCK a v))" using len by (simp add: BPB_def BSIZE_def)
  have e: "b mod BPB = a mod BPB \<longleftrightarrow> b = a" if "b div BPB = a div BPB"
    using that by (metis mult_div_mod_eq)
  show "blk_used v (V(BBLOCK a v := bit_mark (a mod BPB) (V (BBLOCK a v)))) b \<longleftrightarrow> b = a \<or> blk_used v V b"
    "blk_used v (V(BBLOCK a v := bit_clear (a mod BPB) (V (BBLOCK a v)))) b \<longleftrightarrow> b \<noteq> a \<and> blk_used v V b"
    using BBLOCK_eq [OF l a(2,1)] e by (auto simp: blk_used_def bit_free_mark [OF m] bit_free_clear [OF m])
qed

lemma used_data:
  assumes "layout_ok v" "b < unat (sb_size v)" "data_start v \<le> unat n"
  shows "blk_used v (V(n := x)) b \<longleftrightarrow> blk_used v V b"
  using unat_BBLOCK(2) [OF assms(1,2)] assms(3) by (auto simp: blk_used_def)

subsection \<open>Allocation\<close>

lemma bzero_ok:
  assumes t: "txn cur d start D L H V s" and n: "n \<notin> H" and r: "length L + card H < NBUF" "finite H" and o: "1 \<le> outstanding (flog (fs s))" and hm: "home start n"
  obtains t where "bzero cur d n s = Some t" "txn cur d start D (logged n L) H (V(n := replicate BSIZE 0)) t" "frame d H s t"
proof -
  have l: "length L < LOGBLOCKS" using r(1) by (simp add: NBUF_def LOGBLOCKS_def)
  obtain b t u w where "bread cur d n s = Some (b, t)" "log_write b (set_data b (\<lambda>_. replicate BSIZE 0) t) = Some u" "brelse cur b u = Some w"
    "txn cur d start D (logged n L) H (V(n := replicate BSIZE 0)) w" "frame d H s w"
    by (rule txn_update [where f = "\<lambda>_. replicate BSIZE 0", OF t n r l o hm])
  then show thesis using that by (simp add: bzero_def)
qed

text \<open>The blocks a map holds when the caller's locked blocks are data blocks in use.\<close>

definition locks_ok :: "superblock \<Rightarrow> (u32 \<Rightarrow> block) \<Rightarrow> u32 set \<Rightarrow> bool" where
  "locks_ok v V H \<longleftrightarrow> finite H \<and> (\<forall>n \<in> H. data_start v \<le> unat n \<and> unat n < unat (sb_size v) \<and> blk_used v V (unat n))"

definition after_balloc :: "superblock \<Rightarrow> nat \<Rightarrow> (u32 \<Rightarrow> block) \<Rightarrow> u32 \<Rightarrow> block" where
  "after_balloc v a V = V(BBLOCK a v := bit_mark (a mod BPB) (V (BBLOCK a v)), word_of_nat a := replicate BSIZE 0)"

lemma unat_blk:
  assumes "a < unat (sb_size v)"
  shows "unat (word_of_nat a :: u32) = a"
  using assms unat_bound [of "sb_size v"] by (simp add: unat_of_nat take_bit_nat_eq_self)

lemma balloc_from_ok:
  assumes st: "start = sb_logstart v" and v: "layout_ok v" "map_ok v V" "locks_ok v V H" and r: "length L + card H + 1 < NBUF" and nb: "unat (sb_size v) = nb"
    and m: "\<And>k. k < m \<Longrightarrow> k * BPB < nb"
    and s: "txn cur d start D L H V s" "super s = v" "1 \<le> outstanding (flog (fs s))" "\<And>b. b < nb \<Longrightarrow> b div BPB < j \<Longrightarrow> blk_used v V b" "j \<le> m"
  shows "(\<exists>t. balloc_from cur d (map (\<lambda>k. k * BPB) [j..<m]) s = Some (0, t) \<and> txn cur d start D L H V t \<and> frame d H s t \<and>
      (\<forall>b < nb. b div BPB < m \<longrightarrow> blk_used v V b)) \<or>
    (\<exists>a t. balloc_from cur d (map (\<lambda>k. k * BPB) [j..<m]) s = Some (word_of_nat a, t) \<and> data_start v \<le> a \<and> a < nb \<and>
      \<not> blk_used v V a \<and> (\<forall>b < a. blk_used v V b) \<and>
      txn cur d start D (logged (word_of_nat a) (logged (BBLOCK a v) L)) H (after_balloc v a V) t \<and> frame d H s t)"
  using s
proof (induction "m - j" arbitrary: j s)
  case 0
  then show ?case by auto
next
  case (Suc n)
  let ?b = "j * BPB"
  let ?MB = "BBLOCK ?b v"
  have B: "0 < BPB" by (simp add: BPB_def BSIZE_def)
  have j: "j < m" "n = m - Suc j" using Suc.hyps(2) by simp_all
  have bl: "?b < nb" by (rule m [OF j(1)])
  have ls: "map (\<lambda>k. k * BPB) [j..<m] = ?b # map (\<lambda>k. k * BPB) [Suc j..<m]" using j(1) by (simp add: upt_conv_Cons)
  have mb: "unat ?MB < data_start v" using unat_BBLOCK(2) [OF v(1)] bl nb by simp
  have fin: "finite H" using v(3) by (simp add: locks_ok_def)
  have nH: "?MB \<notin> H" using v(3) mb by (auto simp: locks_ok_def)
  have r1: "length L + card H < NBUF" "length L < LOGBLOCKS" using r by (simp_all add: NBUF_def LOGBLOCKS_def)
  have at: "BBLOCK (?b + bi) v = ?MB" "(?b + bi) mod BPB = bi" "(?b + bi) div BPB = j" if "bi < BPB" for bi
    using that by (simp_all add: BBLOCK_def)
  have us: "blk_used v V (?b + bi) \<longleftrightarrow> \<not> bit_free bi (V ?MB)" if "bi < BPB" for bi using at [OF that] by (simp add: blk_used_def)
  have here: "blk_used v V b \<longleftrightarrow> \<not> bit_free (b - ?b) (V ?MB)" "b - ?b < min BPB (nb - ?b)" if "b < nb" "b div BPB = j" for b
  proof -
    have e: "b = ?b + b mod BPB" using that(2) by (metis div_mult_mod_eq)
    have l: "b mod BPB < BPB" using B by simp
    have d: "b - ?b = b mod BPB" using e by linarith
    show "blk_used v V b \<longleftrightarrow> \<not> bit_free (b - ?b) (V ?MB)" unfolding d using us [OF l] e by simp
    show "b - ?b < min BPB (nb - ?b)" using l d that(1) bl e by linarith
  qed
  let ?find = "find (\<lambda>bi. bit_free bi (V ?MB)) [0..<min BPB (nb - ?b)]"
  show ?case
  proof (cases ?find)
    case None
    obtain bp t u where b: "bread cur d ?MB s = Some (bp, t)" "bdata (buf_of t bp) = V ?MB" "brelse cur bp t = Some u"
      "frame d H s t" "txn cur d start D L H V u" "frame d H s u"
      by (rule txn_look [OF Suc.prems(1) nH r1(1) fin])
    have su: "super u = v" "super t = v" "outstanding (flog (fs u)) = outstanding (flog (fs s))"
      using frame_fields [OF b(4)] frame_fields [OF b(6)] Suc.prems(2) by simp_all
    have step: "balloc_from cur d (map (\<lambda>k. k * BPB) [j..<m]) s = balloc_from cur d (map (\<lambda>k. k * BPB) [Suc j..<m]) u"
      unfolding ls using b(1-3) su None Suc.prems(2) nb by simp
    have full: "blk_used v V b" if "b < nb" "b div BPB < Suc j" for b
    proof (cases "b div BPB = j")
      case True
      then show ?thesis using here [OF that(1) True] None by (auto simp: find_None_iff)
    next
      case False
      then show ?thesis using Suc.prems(4) [OF that(1)] that(2) by simp
    qed
    have o: "1 \<le> outstanding (flog (fs u))" and sj: "Suc j \<le> m" using su Suc.prems(3) j(1) by simp_all
    note IH = Suc.hyps(1) [OF j(2) b(5) su(1) o full sj]
    show ?thesis unfolding step using IH frame_trans [OF b(6)] by blast
  next
    case (Some bi)
    then have bi: "bi < BPB" "bi < nb - ?b" "bit_free bi (V ?MB)" "\<And>c. c < bi \<Longrightarrow> \<not> bit_free c (V ?MB)"
      by (auto simp: find_Some_iff)
    define a where "a = ?b + bi"
    have a: "a < nb" "\<not> blk_used v V a" "BBLOCK a v = ?MB" "a mod BPB = bi" using bi us [OF bi(1)] at [OF bi(1)] by (simp_all add: a_def)
    have ad: "data_start v \<le> a" using v(2) a(2) by (meson map_ok_def not_le)
    have first: "blk_used v V c" if "c < a" for c
    proof (cases "c div BPB = j")
      case True
      have "c < nb" using that a(1) by simp
      moreover have "?b \<le> c" using True by (metis div_times_less_eq_dividend)
      ultimately show ?thesis using here(1) [OF _ True] bi(4) [of "c - ?b"] that by (simp add: a_def)
    next
      case False
      have "a div BPB = j" unfolding a_def by (rule at(3) [OF bi(1)])
      then have "c div BPB < j" using False that div_le_mono [of c a BPB] by simp
      then show ?thesis using Suc.prems(4) that a(1) by simp
    qed
    have hm: "home start ?MB" "home start (word_of_nat a)"
      using home_map [OF v(1)] bl nb home_data [OF v(1)] ad unat_blk [of a v] a(1) st by simp_all
    obtain bp t u w where b: "bread cur d ?MB s = Some (bp, t)" "frame d H s t" "bdata (buf_of t bp) = V ?MB"
      "log_write bp (set_data bp (bit_mark bi) t) = Some u" "brelse cur bp u = Some w"
      "txn cur d start D (logged ?MB L) H (V(?MB := bit_mark bi (V ?MB))) w" "frame d H s w"
      by (rule txn_update [where f = "bit_mark bi", OF Suc.prems(1) nH r1(1) fin r1(2) Suc.prems(3) hm(1)])
    have st: "super t = v" "super w = v" "outstanding (flog (fs w)) = outstanding (flog (fs s))"
      using frame_fields [OF b(2)] frame_fields [OF b(7)] Suc.prems(2) by simp_all
    have ua: "unat (word_of_nat a :: u32) = a"
      using a(1) nb unat_bound [of "sb_size v"] by (simp add: unat_of_nat take_bit_nat_eq_self)
    then have aH: "word_of_nat a \<notin> H" using v(3) a(2) by (auto simp: locks_ok_def)
    have r2: "length (logged ?MB L) + card H < NBUF" using length_logged [of ?MB L] r by linarith
    have o: "1 \<le> outstanding (flog (fs w))" using st Suc.prems(3) by simp
    obtain x where x: "bzero cur d (word_of_nat a) w = Some x"
      "txn cur d start D (logged (word_of_nat a) (logged ?MB L)) H ((V(?MB := bit_mark bi (V ?MB)))(word_of_nat a := replicate BSIZE 0)) x" "frame d H w x"
      by (rule bzero_ok [OF b(6) aH r2 fin o hm(2)])
    have "balloc_from cur d (map (\<lambda>k. k * BPB) [j..<m]) s = Some (word_of_nat a, x)"
      unfolding ls using b(1,3-5) st x(1) Some Suc.prems(2) nb by (simp add: a_def)
    moreover have "txn cur d start D (logged (word_of_nat a) (logged (BBLOCK a v) L)) H (after_balloc v a V) x"
      using x(2) by (simp add: after_balloc_def a)
    moreover have "frame d H s x" by (rule frame_trans [OF b(7) x(3)])
    ultimately show ?thesis using ad a(1,2) first by blast
  qed
qed

lemma map_starts_cover:
  assumes "b < n"
  shows "b div BPB < (n + BPB - 1) div BPB"
proof -
  have B: "BPB = 8192" by (simp add: BPB_def BSIZE_def)
  show ?thesis using assms unfolding B by linarith
qed

lemma map_starts_below: "k < (n + BPB - 1) div BPB \<Longrightarrow> k * BPB < n"
proof -
  have B: "BPB = 8192" by (simp add: BPB_def BSIZE_def)
  show "k < (n + BPB - 1) div BPB \<Longrightarrow> k * BPB < n" unfolding B by linarith
qed

lemma balloc_cases:
  assumes st: "start = sb_logstart v" and v: "layout_ok v" "map_ok v V" "locks_ok v V H" and r: "length L + card H + 1 < NBUF"
    and s: "txn cur d start D L H V s" "super s = v" "1 \<le> outstanding (flog (fs s))"
  shows "(\<exists>t. balloc cur d s = Some (0, t) \<and> txn cur d start D L H V t \<and> frame d H s t \<and> (\<forall>b < unat (sb_size v). blk_used v V b)) \<or>
    (\<exists>a t. balloc cur d s = Some (word_of_nat a, t) \<and> data_start v \<le> a \<and> a < unat (sb_size v) \<and> \<not> blk_used v V a \<and> (\<forall>b < a. blk_used v V b) \<and>
      txn cur d start D (logged (word_of_nat a) (logged (BBLOCK a v) L)) H (after_balloc v a V) t \<and> frame d H s t)"
  using balloc_from_ok [OF st v r refl map_starts_below s, of "(unat (sb_size v) + BPB - 1) div BPB" 0] map_starts_cover
  unfolding balloc_def map_starts_def s(2) by simp

definition fresh :: "superblock \<Rightarrow> (u32 \<Rightarrow> block) \<Rightarrow> u32 \<Rightarrow> bool" where
  "fresh v V a \<longleftrightarrow> data_start v \<le> unat a \<and> unat a < unat (sb_size v) \<and> \<not> blk_used v V (unat a)"

lemma balloc_is:
  assumes "start = sb_logstart v" "layout_ok v" "map_ok v V" "locks_ok v V H" "length L + card H + 1 < NBUF"
    "txn cur d start D L H V s" "super s = v" "1 \<le> outstanding (flog (fs s))"
  obtains (full) t where "balloc cur d s = Some (0, t)" "txn cur d start D L H V t" "frame d H s t" "\<And>b. b < unat (sb_size v) \<Longrightarrow> blk_used v V b"
  | (got) a t L' where "balloc cur d s = Some (a, t)" "fresh v V a" "\<And>b. b < unat a \<Longrightarrow> blk_used v V b" "length L' \<le> length L + 2" "set L \<subseteq> set L'"
      "txn cur d start D L' H (after_balloc v (unat a) V) t" "frame d H s t"
proof (cases rule: disjE [OF balloc_cases [OF assms]])
  case 1
  then show thesis using full by blast
next
  case 2
  then obtain a t where a: "balloc cur d s = Some (word_of_nat a, t)" "data_start v \<le> a" "a < unat (sb_size v)" "\<not> blk_used v V a" "\<And>b. b < a \<Longrightarrow> blk_used v V b"
      "txn cur d start D (logged (word_of_nat a) (logged (BBLOCK a v) L)) H (after_balloc v a V) t" "frame d H s t" by blast
  note u = unat_blk [OF a(3)]
  have "length (logged (word_of_nat a) (logged (BBLOCK a v) L)) \<le> length L + 2"
    using length_logged [of "word_of_nat a" "logged (BBLOCK a v) L"] length_logged [of "BBLOCK a v" L] by linarith
  then show thesis using got [of "word_of_nat a" t] a by (simp add: fresh_def u subset_insertI2)
qed

text \<open>The map after an allocation.\<close>

lemma after_balloc_map:
  assumes v: "layout_ok v" "map_ok v V" and a: "data_start v \<le> a" "a < unat (sb_size v)"
  shows "b < unat (sb_size v) \<Longrightarrow> blk_used v (after_balloc v a V) b \<longleftrightarrow> b = a \<or> blk_used v V b" "map_ok v (after_balloc v a V)"
    "after_balloc v a V (word_of_nat a) = replicate BSIZE 0"
    "data_start v \<le> unat n \<Longrightarrow> unat n \<noteq> a \<Longrightarrow> after_balloc v a V n = V n"
proof -
  have ua: "unat (word_of_nat a :: u32) = a"
    using a(2) unat_bound [of "sb_size v"] by (simp add: unat_of_nat take_bit_nat_eq_self)
  have len: "length (V (BBLOCK a v)) = BSIZE" using v(2) by (simp add: map_ok_def)
  show u: "blk_used v (after_balloc v a V) b \<longleftrightarrow> b = a \<or> blk_used v V b" if "b < unat (sb_size v)" for b
    using used_data [OF v(1) that, of "word_of_nat a"] used_upd(1) [of v a b V, OF v(1) a(2) that len] a(1) ua by (simp add: after_balloc_def)
  have "data_start v \<le> unat (sb_size v)" using v(1) by (simp add: layout_ok_def)
  then show "map_ok v (after_balloc v a V)" using v(2) u by (auto simp: map_ok_def after_balloc_def)
  show "after_balloc v a V (word_of_nat a) = replicate BSIZE 0" by (simp add: after_balloc_def)
  show "after_balloc v a V n = V n" if "data_start v \<le> unat n" "unat n \<noteq> a"
    using that unat_BBLOCK(2) [OF v(1) a(2)] ua by (auto simp: after_balloc_def)
qed

subsection \<open>Freeing\<close>

definition after_bfree :: "superblock \<Rightarrow> nat \<Rightarrow> (u32 \<Rightarrow> block) \<Rightarrow> u32 \<Rightarrow> block" where
  "after_bfree v a V = V(BBLOCK a v := bit_clear (a mod BPB) (V (BBLOCK a v)))"

lemma bfree_ok:
  assumes st: "start = sb_logstart v" and v: "layout_ok v" "map_ok v V" and H: "finite H" "BBLOCK (unat b) v \<notin> H" and r: "length L + card H < NBUF"
    and s: "txn cur d start D L H V s" "super s = v" "1 \<le> outstanding (flog (fs s))" and b: "blk_used v V (unat b)" "unat b < unat (sb_size v)"
  obtains t where "bfree cur d b s = Some t" "txn cur d start D (logged (BBLOCK (unat b) v) L) H (after_bfree v (unat b) V) t" "frame d H s t"
proof -
  have l: "length L < LOGBLOCKS" using r by (simp add: NBUF_def LOGBLOCKS_def)
  have hm: "home start (BBLOCK (unat b) v)" using home_map [OF v(1) b(2)] st by simp
  obtain bp t u w where "bread cur d (BBLOCK (unat b) v) s = Some (bp, t)" "bdata (buf_of t bp) = V (BBLOCK (unat b) v)"
    "log_write bp (set_data bp (bit_clear (unat b mod BPB)) t) = Some u" "brelse cur bp u = Some w"
    "txn cur d start D (logged (BBLOCK (unat b) v) L) H (after_bfree v (unat b) V) w" "frame d H s w"
    unfolding after_bfree_def by (rule txn_update [where f = "bit_clear (unat b mod BPB)", OF s(1) H(2) r H(1) l s(3) hm])
  then show thesis using that b s(2) by (simp add: bfree_def blk_used_def)
qed

lemma bfree_free_panics:
  assumes v: "map_ok v V" and H: "finite H" "BBLOCK (unat b) v \<notin> H" and r: "length L + card H < NBUF"
    and s: "txn cur d start D L H V s" "super s = v" and b: "\<not> blk_used v V (unat b)"
  shows "bfree cur d b s = None"
proof -
  obtain bp t u where "bread cur d (BBLOCK (unat b) v) s = Some (bp, t)" "bdata (buf_of t bp) = V (BBLOCK (unat b) v)"
    by (rule txn_look [OF s(1) H(2) r H(1)])
  then show ?thesis using b s(2) by (simp add: bfree_def blk_used_def)
qed

end
