(* ===== verification/Kern_Pt.thy ===== *)
theory Kern_Pt
  imports Kern_Vm
begin

unbundle bit_operations_syntax

text \<open>
  The three-level page tables of \<^verbatim>\<open>kernel/vm.c\<close> as maps. \<open>pt_entry\<close> is the entry a table holds
  for an address, \<open>subtree\<close> the pages a table is made of and \<open>pt_wf\<close> says that it is a tree: no page is
  used twice. Walking with allocation changes no entry, takes its pages from the free list and nothing
  else; setting the entry it returns changes the map at the pages with the same indices only. From
  this, mapping a range and unmapping it are updates of the map.
\<close>

subsection \<open>Entries\<close>

lemma get_set_pte: "get_pte (set_pte r v m) r' = (if r = r' then v else get_pte m r')"
  by (cases r; cases r') (auto simp: get_pte_def set_pte_def load64_store64 load64_store64_other)

lemma get_zero_page: "get_pte (zero_page p m) (q, i) = (if q = p then 0 else get_pte m (q, i))"
  by (simp add: get_pte_def zero_page_def)

lemma set_pte_frame [simp]: "end_addr (set_pte r v m) = end_addr m" "freelist (set_pte r v m) = freelist m"
  "q \<noteq> fst r \<Longrightarrow> pages (set_pte r v m) q = pages m q"
  by (simp_all add: set_pte_def)

lemma zero_page_frame [simp]: "end_addr (zero_page p m) = end_addr m" "freelist (zero_page p m) = freelist m"
  "q \<noteq> p \<Longrightarrow> pages (zero_page p m) q = pages m q"
  by (simp_all add: zero_page_def)

lemma free_pages_frame:
  assumes "free_pages m xs" "end_addr m' = end_addr m" "freelist m' = freelist m" "\<And>q. q \<in> set xs \<Longrightarrow> pages m' q = pages m q"
  shows "free_pages m' xs"
proof -
  have "linked (pages m') p ys = linked (pages m) p ys" if "\<And>q. q \<in> set ys \<Longrightarrow> pages m' q = pages m q" for p ys
    using that by (induction ys arbitrary: p) auto
  then show ?thesis using assms by (simp add: free_pages_def page_ok_def)
qed

text \<open>An entry gives back the page it was made from, whatever the flags.\<close>

lemma aligned_bit: "(pa :: u64) mod PGSIZE = 0 \<Longrightarrow> n < 12 \<Longrightarrow> \<not> bit pa n"
proof -
  assume a: "pa mod PGSIZE = 0" and n: "n < 12"
  have "pa mod PGSIZE = take_bit 12 pa" by (simp add: PGSIZE_def take_bit_eq_mod)
  with a have "take_bit 12 pa = 0" by simp
  with n show ?thesis by (metis bit_take_bit_iff bit_0_eq bot_apply bot_bool_def)
qed

lemma flag_bit: "(f :: u64) AND 0x3FF = f \<Longrightarrow> 10 \<le> n \<Longrightarrow> \<not> bit f n"
proof -
  assume f: "f AND 0x3FF = f" and n: "10 \<le> n"
  have "(0x3FF :: u64) = mask 10" by (simp add: mask_eq_exp_minus_1)
  with f have "bit f n \<Longrightarrow> bit (mask 10 :: u64) n" by (metis bit_and_iff)
  with n show ?thesis by (auto simp: bit_mask_iff)
qed

lemma PTE2PA_PA2PTE:
  assumes "pa mod PGSIZE = 0" "f AND 0x3FF = f"
  shows "PTE2PA (PA2PTE pa OR f) = pa"
proof (rule bit_word_eqI)
  fix n assume n: "n < LENGTH(64)"
  show "bit (PTE2PA (PA2PTE pa OR f)) n = bit pa n"
  proof (cases "n < 12")
    case True
    then show ?thesis using aligned_bit [OF assms(1)] by (simp add: PTE2PA_def bit_push_bit_iff bit_or_iff)
  next
    case False
    then have "\<not> bit f (10 + (n - 12))" "12 + (n - 12) = n" using flag_bit [OF assms(2)] by simp_all
    moreover have "10 \<le> n - 2" "n - 2 < 64" using False n by simp_all
    ultimately show ?thesis using False n by (simp add: PTE2PA_def PA2PTE_def bit_push_bit_iff bit_drop_bit_eq bit_or_iff)
  qed
qed

lemma PTE_V_set: "(e OR PTE_V) AND PTE_V \<noteq> 0"
proof -
  have "bit ((e OR PTE_V) AND PTE_V) 0" by (simp add: PTE_V_def bit_and_iff bit_or_iff bit_1_iff)
  then show ?thesis by (metis bit_0_eq bot_apply bot_bool_def)
qed

subsection \<open>Tables as trees\<close>

definition child :: "pmem \<Rightarrow> u64 \<Rightarrow> nat \<Rightarrow> u64 option" where
  "child m p i = (if get_pte m (p, i) AND PTE_V \<noteq> 0 then Some (PTE2PA (get_pte m (p, i))) else None)"

fun pt_entry :: "pmem \<Rightarrow> nat \<Rightarrow> u64 \<Rightarrow> u64 \<Rightarrow> u64" where
  "pt_entry m 0 p va = get_pte m (p, PX 0 va)"
| "pt_entry m (Suc n) p va = (case child m p (PX (Suc n) va) of None \<Rightarrow> 0 | Some q \<Rightarrow> pt_entry m n q va)"

text \<open>The last-level page for an address.\<close>

fun pt_leaf :: "pmem \<Rightarrow> nat \<Rightarrow> u64 \<Rightarrow> u64 \<Rightarrow> u64 option" where
  "pt_leaf m 0 p va = Some p"
| "pt_leaf m (Suc n) p va = (case child m p (PX (Suc n) va) of None \<Rightarrow> None | Some q \<Rightarrow> pt_leaf m n q va)"

fun subtree :: "pmem \<Rightarrow> nat \<Rightarrow> u64 \<Rightarrow> u64 set" where
  "subtree m 0 p = {p}"
| "subtree m (Suc n) p = insert p (\<Union>i \<in> {i. i < 512 \<and> child m p i \<noteq> None}. subtree m n (the (child m p i)))"

fun pt_wf :: "pmem \<Rightarrow> nat \<Rightarrow> u64 \<Rightarrow> bool" where
  "pt_wf m 0 p \<longleftrightarrow> True"
| "pt_wf m (Suc n) p \<longleftrightarrow>
     (\<forall>i < 512. \<forall>q. child m p i = Some q \<longrightarrow> pt_wf m n q \<and> p \<notin> subtree m n q) \<and>
     (\<forall>i < 512. \<forall>j < 512. \<forall>q r. i \<noteq> j \<longrightarrow> child m p i = Some q \<longrightarrow> child m p j = Some r \<longrightarrow>
        subtree m n q \<inter> subtree m n r = {})"

lemma pt_wf_disjoint:
  "pt_wf m (Suc n) p \<Longrightarrow> child m p i = Some q \<Longrightarrow> i < 512 \<Longrightarrow> child m p j = Some r \<Longrightarrow> j < 512 \<Longrightarrow> i \<noteq> j \<Longrightarrow>
    subtree m n q \<inter> subtree m n r = {}"
  by simp

lemma pt_wf_child: "pt_wf m (Suc n) p \<Longrightarrow> child m p i = Some q \<Longrightarrow> i < 512 \<Longrightarrow> pt_wf m n q \<and> p \<notin> subtree m n q"
  by simp

lemma PX_less: "PX k va < 512"
proof -
  have "(drop_bit (12 + 9 * k) va AND 0x1FF :: u64) = take_bit 9 (drop_bit (12 + 9 * k) va)"
    by (simp add: take_bit_eq_mask mask_eq_exp_minus_1)
  then have "PX k va = unat (take_bit 9 (drop_bit (12 + 9 * k) va))" by (simp add: PX_def)
  also have "\<dots> = take_bit 9 (unat (drop_bit (12 + 9 * k) va))" by (simp add: unsigned_take_bit_eq)
  also have "\<dots> < 2 ^ 9" by (rule take_bit_nat_less_exp)
  finally show ?thesis by simp
qed

lemma root_in_subtree [simp]: "p \<in> subtree m n p"
  by (cases n) simp_all

lemma subtree_child: "child m p i = Some q \<Longrightarrow> i < 512 \<Longrightarrow> subtree m n q \<subseteq> subtree m (Suc n) p"
  by force

lemma subtree_cases:
  assumes "x \<in> subtree m (Suc n) p"
  obtains "x = p" | i q where "i < 512" "child m p i = Some q" "x \<in> subtree m n q"
  using assms by force

lemma child_frame: "pages m' p = pages m p \<Longrightarrow> child m' p i = child m p i"
  by (simp add: child_def get_pte_def)

lemma tree_frame_all:
  "(\<And>q. q \<in> subtree m n p \<Longrightarrow> pages m' q = pages m q) \<Longrightarrow>
    subtree m' n p = subtree m n p \<and> pt_wf m' n p = pt_wf m n p \<and>
    (\<forall>va. pt_entry m' n p va = pt_entry m n p va \<and> pt_leaf m' n p va = pt_leaf m n p va)"
proof (induction n arbitrary: p)
  case 0
  then show ?case by (simp add: get_pte_def)
next
  case (Suc n)
  have c: "child m' p i = child m p i" for i by (rule child_frame) (use Suc.prems in simp)
  have d: "subtree m' n q = subtree m n q \<and> pt_wf m' n q = pt_wf m n q \<and>
      (\<forall>va. pt_entry m' n q va = pt_entry m n q va \<and> pt_leaf m' n q va = pt_leaf m n q va)"
    if "child m p i = Some q" "i < 512" for i q
    by (rule Suc.IH, rule Suc.prems) (use subtree_child [OF that] in blast)
  have "subtree m' (Suc n) p = subtree m (Suc n) p" by (auto simp: c d)
  moreover have "pt_wf m' (Suc n) p = pt_wf m (Suc n) p" by (auto simp: c d)
  moreover have "pt_entry m' (Suc n) p va = pt_entry m (Suc n) p va \<and> pt_leaf m' (Suc n) p va = pt_leaf m (Suc n) p va" for va
    using d [OF _ PX_less] by (auto simp: c split: option.splits)
  ultimately show ?case by blast
qed

lemma tree_frame:
  assumes "\<And>q. q \<in> subtree m n p \<Longrightarrow> pages m' q = pages m q"
  shows "subtree m' n p = subtree m n p" "pt_wf m' n p = pt_wf m n p" "pt_entry m' n p va = pt_entry m n p va"
    "pt_leaf m' n p va = pt_leaf m n p va"
  using tree_frame_all [OF assms] by simp_all

lemma pt_entry_leaf: "pt_entry m n p va = (case pt_leaf m n p va of None \<Rightarrow> 0 | Some q \<Rightarrow> get_pte m (q, PX 0 va))"
  by (induction n arbitrary: p) (auto split: option.splits)

lemma pt_leaf_in: "pt_leaf m n p va = Some q \<Longrightarrow> q \<in> subtree m n p"
proof (induction n arbitrary: p)
  case (Suc n)
  then obtain c where c: "child m p (PX (Suc n) va) = Some c" "pt_leaf m n c va = Some q" by (auto split: option.splits)
  from Suc.IH [OF c(2)] show ?case using subtree_child [OF c(1) PX_less] by blast
qed simp

lemma walk_find: "walk_loop p va False n m = (map_option (\<lambda>q. (q, PX 0 va)) (pt_leaf m n p va), m)"
  by (induction n arbitrary: p) (auto simp: child_def Let_def)

subsection \<open>Walking with allocation\<close>

text \<open>What a walk leaves: the tree is still one, apart from the free pages, every entry is as before, and
  pages outside the tree and the free list are untouched.\<close>

definition walked :: "pmem \<Rightarrow> nat \<Rightarrow> u64 \<Rightarrow> u64 list \<Rightarrow> pmem \<Rightarrow> u64 list \<Rightarrow> bool" where
  "walked m n p xs m' xs' \<longleftrightarrow> pt_wf m' n p \<and> free_pages m' xs' \<and> (\<exists>ys. xs = ys @ xs') \<and>
     subtree m n p \<subseteq> subtree m' n p \<and> subtree m' n p \<subseteq> subtree m n p \<union> set xs \<and> subtree m' n p \<inter> set xs' = {} \<and>
     (\<forall>q. q \<notin> subtree m n p \<and> q \<notin> set xs \<longrightarrow> pages m' q = pages m q) \<and> end_addr m' = end_addr m \<and>
     (\<forall>va. pt_entry m' n p va = pt_entry m n p va)"

lemma walked_refl: "pt_wf m n p \<Longrightarrow> free_pages m xs \<Longrightarrow> subtree m n p \<inter> set xs = {} \<Longrightarrow> walked m n p xs m xs"
  by (simp add: walked_def)

text \<open>A walk below an entry of the root is a walk of the whole.\<close>

lemma walked_child:
  assumes w: "walked m n q xs m' xs'" and wf: "pt_wf m (Suc n) p" and c: "child m p i = Some q" "i < 512"
    and sep: "subtree m (Suc n) p \<inter> set xs = {}"
  shows "walked m (Suc n) p xs m' xs' \<and> child m' p i = Some q"
proof -
  note W = w [unfolded walked_def]
  have pq: "p \<notin> subtree m n q" using wf c by simp
  have pp: "pages m' p = pages m p" using W pq sep by auto
  have ch: "child m' p j = child m p j" for j by (rule child_frame [OF pp])
  have other: "\<And>x. x \<in> subtree m n r \<Longrightarrow> pages m' x = pages m x" if r: "child m p j = Some r" "j < 512" "j \<noteq> i" for j r
  proof -
    fix x assume x: "x \<in> subtree m n r"
    have "x \<notin> subtree m n q" using pt_wf_disjoint [OF wf r(1,2) c r(3)] x by blast
    moreover have "x \<notin> set xs" using sep subtree_child [OF r(1,2)] x by blast
    ultimately show "pages m' x = pages m x" using W by blast
  qed
  have fr: "subtree m' n r = subtree m n r" "pt_wf m' n r = pt_wf m n r" "pt_entry m' n r va = pt_entry m n r va"
    if "child m p j = Some r" "j < 512" "j \<noteq> i" for j r va
    using tree_frame_all [of m n r m'] other [OF that] by blast+
  have sub': "subtree m' (Suc n) p \<subseteq> subtree m (Suc n) p \<union> set xs"
  proof
    fix x assume "x \<in> subtree m' (Suc n) p"
    then show "x \<in> subtree m (Suc n) p \<union> set xs"
    proof (cases rule: subtree_cases)
      case (2 j r)
      show ?thesis
      proof (cases "j = i")
        case True
        then have "x \<in> subtree m n q \<union> set xs" using 2 c W by (auto simp: ch)
        then show ?thesis using subtree_child [OF c] by blast
      next
        case False
        then have "x \<in> subtree m n r" using 2 fr(1) [of j r] by (simp add: ch)
        then show ?thesis using subtree_child [of m p j r n] 2 by (auto simp: ch)
      qed
    qed simp
  qed
  have sup: "subtree m (Suc n) p \<subseteq> subtree m' (Suc n) p"
  proof
    fix x assume "x \<in> subtree m (Suc n) p"
    then show "x \<in> subtree m' (Suc n) p"
    proof (cases rule: subtree_cases)
      case (2 j r)
      have "x \<in> subtree m' n r"
      proof (cases "j = i")
        case True
        then show ?thesis using 2 c W by auto
      next
        case False
        then show ?thesis using 2 fr(1) [of j r] by simp
      qed
      then show ?thesis using subtree_child [of m' p j r n] 2 by (auto simp: ch)
    qed simp
  qed
  have dis: "subtree m' (Suc n) p \<inter> set xs' = {}"
  proof -
    have "x \<notin> set xs'" if "x \<in> subtree m' (Suc n) p" for x
      using that
    proof (cases rule: subtree_cases)
      case 1
      then show ?thesis using sep W by auto
    next
      case (2 j r)
      show ?thesis
      proof (cases "j = i")
        case True
        then show ?thesis using 2 c W by (auto simp: ch)
      next
        case False
        then have "x \<in> subtree m n r" using 2 fr(1) [of j r] by (simp add: ch)
        then have "x \<in> subtree m (Suc n) p" using subtree_child [of m p j r n] 2 by (auto simp: ch)
        then have "x \<notin> set xs" using sep by blast
        then show ?thesis using W by auto
      qed
    qed
    then show ?thesis by blast
  qed
  have wf': "pt_wf m' (Suc n) p"
    unfolding pt_wf.simps
  proof (intro conjI allI impI)
    fix j r assume j: "j < 512" "child m' p j = Some r"
    show "pt_wf m' n r" using j c W wf fr(2) [of j r] by (cases "j = i") (auto simp: ch)
    show "p \<notin> subtree m' n r"
    proof (cases "j = i")
      case True
      then have "subtree m' n r \<subseteq> subtree m n q \<union> set xs" using j c W by (auto simp: ch)
      then show ?thesis using pq sep by auto
    next
      case False
      then show ?thesis using j wf fr(1) [of j r] by (auto simp: ch)
    qed
  next
    fix j k r t assume jk: "j < 512" "k < 512" "j \<noteq> k" "child m' p j = Some r" "child m' p k = Some t"
    have key: "subtree m' n q \<inter> subtree m' n t = {}" if "k \<noteq> i" "k < 512" "child m p k = Some t" for k t
    proof -
      have "subtree m' n t = subtree m n t" using fr(1) that by simp
      moreover have "subtree m' n q \<subseteq> subtree m n q \<union> set xs" using W by simp
      moreover have "subtree m n q \<inter> subtree m n t = {}" using pt_wf_disjoint [OF wf c that(3,2)] that(1) by blast
      moreover have "subtree m n t \<inter> set xs = {}" using sep subtree_child [OF that(3,2)] by blast
      ultimately show ?thesis by auto
    qed
    consider "j = i" | "k = i" | "j \<noteq> i" "k \<noteq> i" by blast
    then show "subtree m' n r \<inter> subtree m' n t = {}"
    proof cases
      case 1
      then show ?thesis using jk c key [of k t] by (auto simp: ch)
    next
      case 2
      then show ?thesis using jk c key [of j r] by (auto simp: ch)
    next
      case 3
      then show ?thesis using jk pt_wf_disjoint [OF wf, of j r k t] fr(1) [of j r] fr(1) [of k t] by (simp add: ch)
    qed
  qed
  have ent: "pt_entry m' (Suc n) p va = pt_entry m (Suc n) p va" for va
  proof (cases "child m p (PX (Suc n) va)")
    case (Some r)
    then show ?thesis using c W fr(3) [OF Some PX_less] by (cases "PX (Suc n) va = i") (auto simp: ch)
  qed (simp add: ch)
  have out: "\<forall>x. x \<notin> subtree m (Suc n) p \<and> x \<notin> set xs \<longrightarrow> pages m' x = pages m x"
    using W subtree_child [OF c, of n] by blast
  show ?thesis using W wf' sup sub' dis ent out c(1) by (simp only: walked_def ch) blast
qed

lemma walked_trans:
  assumes "walked m n p xs m1 xs1" "walked m1 n p xs1 m2 xs2"
  shows "walked m n p xs m2 xs2"
proof -
  note A = assms(1) [unfolded walked_def] and B = assms(2) [unfolded walked_def]
  obtain ys zs where x: "xs = ys @ xs1" "xs1 = zs @ xs2" using A B by blast
  have "\<exists>ys. xs = ys @ xs2" using x by auto
  moreover have "\<forall>q. q \<notin> subtree m n p \<and> q \<notin> set xs \<longrightarrow> pages m2 q = pages m q"
  proof (intro allI impI)
    fix q assume q: "q \<notin> subtree m n p \<and> q \<notin> set xs"
    then have "q \<notin> subtree m1 n p" "q \<notin> set xs1" using A x by auto
    then show "pages m2 q = pages m q" using A B q by metis
  qed
  ultimately show ?thesis unfolding walked_def using A B x by auto
qed

lemma empty_tree:
  assumes "\<And>i. get_pte m (x, i) = 0"
  shows "subtree m n x = {x}" "pt_wf m n x" "pt_entry m n x va = 0"
proof -
  have "child m x i = None" for i using assms by (simp add: child_def)
  then show "subtree m n x = {x}" "pt_wf m n x" "pt_entry m n x va = 0" by (cases n; simp add: assms)+
qed

lemma flags_V: "PTE_V AND 0x3FF = PTE_V"
  by (simp add: PTE_V_def)

text \<open>A new page table page below an entry that was not valid.\<close>

lemma walked_grow:
  assumes wf: "pt_wf m (Suc n) p" and c: "child m p i = None" "i < 512" and f: "free_pages m (x # xs)"
    and sep: "subtree m (Suc n) p \<inter> set (x # xs) = {}"
    and m2: "m2 = set_pte (p, i) (PA2PTE x OR PTE_V) (zero_page x (snd (kalloc m)))"
  shows "walked m (Suc n) p (x # xs) m2 xs \<and> child m2 p i = Some x \<and> fst (kalloc m) = x \<and> x \<noteq> 0"
proof -
  obtain m1 where m1: "kalloc m = (x, m1)" "free_pages m1 xs" "x \<noteq> 0" "page_ok m x" "end_addr m1 = end_addr m"
    "pages m1 = (pages m)(x := (\<lambda>_. 5))" "x \<notin> set xs" using kalloc_Cons [OF f] by blast
  have m2': "m2 = set_pte (p, i) (PA2PTE x OR PTE_V) (zero_page x m1)" using m2 m1(1) by simp
  have px: "p \<noteq> x" "p \<notin> set xs" using sep by auto
  have pg: "pages m2 q = pages m q" if "q \<noteq> p" "q \<noteq> x" for q using that m1(6) by (simp add: m2')
  have fr2: "free_pages m2 xs"
    by (rule free_pages_frame [OF m1(2)]) (use px m1(7) in \<open>auto simp: m2' set_pte_def zero_page_def\<close>)
  have ex: "get_pte m2 (x, j) = 0" for j using px by (auto simp: m2' get_set_pte get_zero_page)
  have ep: "get_pte m2 (p, j) = (if j = i then PA2PTE x OR PTE_V else get_pte m (p, j))" for j
    using px m1(6) by (simp add: m2' get_set_pte get_zero_page) (simp add: get_pte_def)
  have al: "x mod PGSIZE = 0" using m1(4) by (simp add: page_ok_def)
  have ci: "child m2 p i = Some x" using PTE_V_set PTE2PA_PA2PTE [OF al flags_V] by (simp add: child_def ep)
  have cj: "child m2 p j = child m p j" if "j \<noteq> i" for j using that by (simp add: child_def ep)
  have other: "subtree m2 n r = subtree m n r" "pt_wf m2 n r = pt_wf m n r" "pt_entry m2 n r va = pt_entry m n r va"
    if r: "child m p j = Some r" "j < 512" for j r va
  proof -
    have "pages m2 q = pages m q" if "q \<in> subtree m n r" for q
      by (rule pg) (use that wf r sep subtree_child [OF r] in auto)
    then show "subtree m2 n r = subtree m n r" "pt_wf m2 n r = pt_wf m n r" "pt_entry m2 n r va = pt_entry m n r va"
      using tree_frame_all [of m n r m2] by blast+
  qed
  have xr: "x \<notin> subtree m n r" if "child m p j = Some r" "j < 512" for j r
  proof -
    have "x \<notin> subtree m (Suc n) p" using sep by (simp del: subtree.simps)
    then show ?thesis using subtree_child [OF that] by blast
  qed
  note E = empty_tree [OF ex]
  have st: "subtree m2 (Suc n) p = insert x (subtree m (Suc n) p)"
  proof (intro equalityI subsetI)
    fix y assume "y \<in> subtree m2 (Suc n) p"
    then show "y \<in> insert x (subtree m (Suc n) p)"
    proof (cases rule: subtree_cases)
      case (2 j r)
      show ?thesis
      proof (cases "j = i")
        case False
        then have "y \<in> subtree m n r" using 2 other(1) [of j r] cj by simp
        then show ?thesis using subtree_child [of m p j r n] 2 cj [OF False] by auto
      qed (use 2 ci E(1) in simp)
    qed simp
  next
    fix y assume "y \<in> insert x (subtree m (Suc n) p)"
    then consider "y = x" | "y \<in> subtree m (Suc n) p" by blast
    then show "y \<in> subtree m2 (Suc n) p"
    proof cases
      case 1
      then show ?thesis using subtree_child [OF ci c(2), of n] root_in_subtree [of x m2 n] by blast
    next
      case 2
      then show ?thesis
      proof (cases rule: subtree_cases)
        case (2 j r)
        then have "j \<noteq> i" using c(1) by auto
        then show ?thesis using 2 other(1) [of j r] subtree_child [of m2 p j r n] cj [of j] by auto
      qed simp
    qed
  qed
  have wf2: "pt_wf m2 (Suc n) p"
    unfolding pt_wf.simps
  proof (intro conjI allI impI)
    fix j r assume j: "j < 512" "child m2 p j = Some r"
    show "pt_wf m2 n r" using j ci E(2) other(2) [of j r] cj [of j] wf by (cases "j = i") auto
    show "p \<notin> subtree m2 n r" using j ci E(1) px other(1) [of j r] cj [of j] wf by (cases "j = i") auto
  next
    fix j k r t assume jk: "j < 512" "k < 512" "j \<noteq> k" "child m2 p j = Some r" "child m2 p k = Some t"
    consider "j = i" | "k = i" | "j \<noteq> i" "k \<noteq> i" by blast
    then show "subtree m2 n r \<inter> subtree m2 n t = {}"
    proof cases
      case 1
      then show ?thesis using jk ci E(1) other(1) [of k t] cj [of k] xr [of k t] by auto
    next
      case 2
      then show ?thesis using jk ci E(1) other(1) [of j r] cj [of j] xr [of j r] by auto
    next
      case 3
      then show ?thesis using jk pt_wf_disjoint [OF wf, of j r k t] other(1) [of j r] other(1) [of k t] cj by simp
    qed
  qed
  have ent: "pt_entry m2 (Suc n) p va = pt_entry m (Suc n) p va" for va
  proof (cases "PX (Suc n) va = i")
    case True
    then show ?thesis using ci c(1) E(3) by simp
  next
    case False
    then show ?thesis using cj [OF False] other(3) [OF _ PX_less] by (auto split: option.splits)
  qed
  have "subtree m2 (Suc n) p \<inter> set xs = {}" using st sep m1(7) by auto
  moreover have "\<forall>q. q \<notin> subtree m (Suc n) p \<and> q \<notin> set (x # xs) \<longrightarrow> pages m2 q = pages m q" using pg by auto
  ultimately have "walked m (Suc n) p (x # xs) m2 xs"
    unfolding walked_def using wf2 fr2 st ent m1(5) by (auto simp: m2' simp del: subtree.simps pt_wf.simps)
  then show ?thesis using ci m1(1,3) by simp
qed

lemma walk_alloc:
  assumes "walk_loop p va True n m = (r, m')" "pt_wf m n p" "free_pages m xs" "subtree m n p \<inter> set xs = {}"
  shows "\<exists>xs'. walked m n p xs m' xs' \<and>
    (case r of None \<Rightarrow> length xs < n
     | Some (q, k) \<Rightarrow> pt_leaf m' n p va = Some q \<and> k = PX 0 va \<and> length xs \<le> length xs' + n)"
  using assms
proof (induction n arbitrary: p m xs)
  case 0
  then show ?case using walked_refl [of m 0 p xs] by auto
next
  case (Suc n)
  let ?i = "PX (Suc n) va"
  show ?case
  proof (cases "child m p ?i")
    case (Some q)
    then have "walk_loop q va True n m = (r, m')" using Suc.prems(1) by (auto simp: child_def Let_def split: if_splits)
    moreover have "pt_wf m n q" using pt_wf_child [OF Suc.prems(2) Some PX_less] by simp
    moreover have sub: "subtree m n q \<inter> set xs = {}" using Suc.prems(4) subtree_child [OF Some PX_less, of n] by blast
    ultimately obtain xs' where w: "walked m n q xs m' xs'"
      "case r of None \<Rightarrow> length xs < n | Some (q', k) \<Rightarrow> pt_leaf m' n q va = Some q' \<and> k = PX 0 va \<and> length xs \<le> length xs' + n"
      using Suc.IH Suc.prems(3) by blast
    from walked_child [OF w(1) Suc.prems(2) Some PX_less Suc.prems(4)] w(2) show ?thesis
      by (intro exI [of _ xs']) (auto split: option.splits)
  next
    case None
    then have go: "(let (pg, m1) = kalloc m in
        if pg = 0 then (None, m1) else walk_loop pg va True n (set_pte (p, ?i) (PA2PTE pg OR PTE_V) (zero_page pg m1))) = (r, m')"
      using Suc.prems(1) by (simp add: child_def Let_def split: if_splits)
    show ?thesis
    proof (cases xs)
      case Nil
      then have "r = None" "m' = m" using go kalloc_empty Suc.prems(3) by auto
      then show ?thesis using Nil walked_refl [OF Suc.prems(2,3,4)] by auto
    next
      case (Cons x ys)
      let ?m2 = "set_pte (p, ?i) (PA2PTE x OR PTE_V) (zero_page x (snd (kalloc m)))"
      have g: "walked m (Suc n) p xs ?m2 ys" "child ?m2 p ?i = Some x" "fst (kalloc m) = x" "x \<noteq> 0"
        using walked_grow [OF Suc.prems(2) None PX_less _ _ refl, of x ys] Suc.prems(3,4) Cons by auto
      have run: "walk_loop x va True n ?m2 = (r, m')" using go g(3,4) by (cases "kalloc m") auto
      note G = g(1) [unfolded walked_def]
      have x1: "pt_wf ?m2 n x" using pt_wf_child [OF _ g(2) PX_less] G by blast
      have x2: "subtree ?m2 n x \<inter> set ys = {}" using G subtree_child [OF g(2) PX_less, of n] by blast
      have x3: "free_pages ?m2 ys" using G by blast
      from Suc.IH [OF run x1 x3 x2] obtain xs' where w: "walked ?m2 n x ys m' xs'"
        "case r of None \<Rightarrow> length ys < n | Some (q', k) \<Rightarrow> pt_leaf m' n x va = Some q' \<and> k = PX 0 va \<and> length ys \<le> length xs' + n"
        by blast
      have wf2: "pt_wf ?m2 (Suc n) p" and sep2: "subtree ?m2 (Suc n) p \<inter> set ys = {}" using G by simp_all
      have "walked ?m2 (Suc n) p ys m' xs' \<and> child m' p ?i = Some x"
        by (rule walked_child [OF w(1) wf2 g(2) PX_less sep2])
      then show ?thesis using walked_trans [OF g(1)] w(2) Cons
        by (intro exI [of _ xs']) (auto split: option.splits)
    qed
  qed
qed

end
