(* ===== verification/Kern_Map.thy ===== *)
theory Kern_Map
  imports Kern_Pt
begin

unbundle bit_operations_syntax

text \<open>
  Page tables as maps from page numbers to entries: setting the entry of a page, and from it the
  mapping and unmapping of ranges, the lookup of user addresses and the copies to and from user memory.
\<close>

subsection \<open>Page numbers\<close>

definition vpn :: "u64 \<Rightarrow> nat" where
  "vpn va = unat va div 4096"

definition page_addr :: "nat \<Rightarrow> u64" where
  "page_addr k = word_of_nat (4096 * k)"

definition same_idx :: "nat \<Rightarrow> u64 \<Rightarrow> u64 \<Rightarrow> bool" where
  "same_idx n va va' \<longleftrightarrow> (\<forall>k \<le> n. PX k va = PX k va')"

lemma PX_nat: "PX k va = (unat va div 2 ^ (12 + 9 * k)) mod 512"
proof -
  have "(drop_bit (12 + 9 * k) va AND 0x1FF :: u64) = take_bit 9 (drop_bit (12 + 9 * k) va)"
    by (simp add: take_bit_eq_mask mask_eq_exp_minus_1)
  moreover have "unat (drop_bit (12 + 9 * k) va) = drop_bit (12 + 9 * k) (unat va)" by (simp add: unat_drop_bit_eq)
  ultimately have "PX k va = take_bit 9 (drop_bit (12 + 9 * k) (unat va))"
    by (simp add: PX_def unsigned_take_bit_eq)
  then show ?thesis by (simp add: take_bit_eq_mod drop_bit_eq_div)
qed

lemma unat_MAXVA: "unat MAXVA = 2 ^ 38"
  by (simp add: MAXVA_def)

lemma vpn_PX:
  assumes "va < MAXVA"
  shows "vpn va = PX 0 va + 512 * PX 1 va + 512 * 512 * PX 2 va"
proof -
  have lt: "unat va < 2 ^ 38" using assms by (simp add: word_less_nat_alt unat_MAXVA)
  let ?b = "unat va div 4096"
  have b: "?b < 512 * 512 * 512" using lt by (simp add: less_mult_imp_div_less)
  have p0: "PX 0 va = ?b mod 512" by (simp add: PX_nat)
  have p1: "PX 1 va = (?b div 512) mod 512" by (simp add: PX_nat div_mult2_eq [symmetric])
  have p2: "PX 2 va = (?b div 512 div 512) mod 512" by (simp add: PX_nat div_mult2_eq [symmetric])
  have "?b div 512 div 512 < 512" using b by (simp add: less_mult_imp_div_less)
  then have "PX 2 va = ?b div 512 div 512" using p2 by simp
  moreover have "?b = ?b mod 512 + 512 * (?b div 512)" "?b div 512 = ?b div 512 mod 512 + 512 * (?b div 512 div 512)" by simp_all
  ultimately show ?thesis unfolding vpn_def p0 p1 by linarith
qed

lemma same_idx_vpn:
  assumes "va < MAXVA" "va' < MAXVA"
  shows "same_idx 2 va va' \<longleftrightarrow> vpn va = vpn va'"
proof
  assume "same_idx 2 va va'"
  then have "PX 0 va = PX 0 va'" "PX 1 va = PX 1 va'" "PX 2 va = PX 2 va'" by (simp_all add: same_idx_def)
  then show "vpn va = vpn va'" using vpn_PX [OF assms(1)] vpn_PX [OF assms(2)] by simp
next
  assume e: "vpn va = vpn va'"
  have "PX k v = (vpn v div 2 ^ (9 * k)) mod 512" for k v
    by (simp add: PX_nat vpn_def div_mult2_eq [symmetric] power_add)
  with e show "same_idx 2 va va'" by (simp add: same_idx_def)
qed

lemma vpn_page_addr:
  assumes "4096 * k < 2 ^ 38"
  shows "unat (page_addr k) = 4096 * k" "vpn (page_addr k) = k" "page_addr k < MAXVA" "page_addr k mod PGSIZE = 0"
proof -
  have "4096 * k < 2 ^ LENGTH(64)" using assms by simp
  then show u: "unat (page_addr k) = 4096 * k"
    unfolding page_addr_def unat_of_nat by (simp add: take_bit_nat_eq_self)
  then show "vpn (page_addr k) = k" "page_addr k < MAXVA" "page_addr k mod PGSIZE = 0"
    using assms by (simp_all add: vpn_def word_less_nat_alt unat_MAXVA page_aligned)
qed

lemma page_addr_Suc: "page_addr (Suc k) = page_addr k + PGSIZE"
  by (simp add: page_addr_def PGSIZE_def)

lemma page_addr_add: "page_addr (k + n) = page_addr k + of_nat n * PGSIZE"
  by (simp add: page_addr_def PGSIZE_def distrib_left)

subsection \<open>Setting an entry\<close>

lemma set_leaf:
  assumes "pt_wf m n p" "pt_leaf m n p va = Some q"
  shows "subtree (set_pte (q, PX 0 va) v m) n p = subtree m n p \<and> pt_wf (set_pte (q, PX 0 va) v m) n p \<and>
    (\<forall>va'. pt_leaf (set_pte (q, PX 0 va) v m) n p va' = pt_leaf m n p va' \<and>
       pt_entry (set_pte (q, PX 0 va) v m) n p va' = (if same_idx n va va' then v else pt_entry m n p va'))"
  using assms
proof (induction n arbitrary: p)
  case 0
  then show ?case by (auto simp: get_set_pte same_idx_def)
next
  case (Suc n)
  let ?m = "set_pte (q, PX 0 va) v m" and ?i = "PX (Suc n) va"
  obtain c where c: "child m p ?i = Some c" "pt_leaf m n c va = Some q" using Suc.prems(2) by (auto split: option.splits)
  have wc: "pt_wf m n c" "p \<notin> subtree m n c" using pt_wf_child [OF Suc.prems(1) c(1) PX_less] by simp_all
  note IH = Suc.IH [OF wc(1) c(2)]
  have qc: "q \<in> subtree m n c" by (rule pt_leaf_in [OF c(2)])
  then have "q \<noteq> p" using wc(2) by auto
  then have ch: "child ?m p j = child m p j" for j by (intro child_frame) simp
  have other: "subtree ?m n r = subtree m n r \<and> pt_wf ?m n r = pt_wf m n r \<and>
      (\<forall>va. pt_entry ?m n r va = pt_entry m n r va \<and> pt_leaf ?m n r va = pt_leaf m n r va)"
    if r: "child m p j = Some r" "j < 512" "j \<noteq> ?i" for j r
  proof (rule tree_frame_all)
    fix x assume "x \<in> subtree m n r"
    then have "x \<noteq> q" using pt_wf_disjoint [OF Suc.prems(1) c(1) PX_less r(1,2)] r(3) qc by blast
    then show "pages ?m x = pages m x" by simp
  qed
  have st: "subtree ?m n r = subtree m n r" if "child m p j = Some r" "j < 512" for j r
    using that other [of j r] IH c(1) by (cases "j = ?i") auto
  have wf: "pt_wf ?m n r" if "child m p j = Some r" "j < 512" for j r
    using that other [of j r] IH c(1) pt_wf_child [OF Suc.prems(1) that] by (cases "j = ?i") auto
  have "subtree ?m (Suc n) p = subtree m (Suc n) p" by (auto simp: ch st)
  moreover have "pt_wf ?m (Suc n) p" using Suc.prems(1) by (auto simp: ch st wf)
  moreover have "pt_leaf ?m (Suc n) p va' = pt_leaf m (Suc n) p va' \<and>
      pt_entry ?m (Suc n) p va' = (if same_idx (Suc n) va va' then v else pt_entry m (Suc n) p va')" for va'
  proof (cases "PX (Suc n) va' = ?i")
    case True
    then have "same_idx (Suc n) va va' = same_idx n va va'" by (auto simp: same_idx_def le_Suc_eq)
    then show ?thesis using True IH c(1) by (simp add: ch)
  next
    case False
    then have "\<not> same_idx (Suc n) va va'" by (force simp: same_idx_def)
    then show ?thesis using False other [OF _ PX_less] by (auto simp: ch split: option.splits)
  qed
  ultimately show ?case by blast
qed

text \<open>A user page table and the free pages beside it.\<close>

definition pt_ok :: "pmem \<Rightarrow> u64 \<Rightarrow> u64 list \<Rightarrow> bool" where
  "pt_ok m pt xs \<longleftrightarrow> pt_wf m 2 pt \<and> free_pages m xs \<and> subtree m 2 pt \<inter> set xs = {}"

text \<open>The entry of a page, and the change of one.\<close>

abbreviation entry :: "pmem \<Rightarrow> u64 \<Rightarrow> u64 \<Rightarrow> u64" where
  "entry m pt va \<equiv> pt_entry m 2 pt va"

lemma set_entry:
  assumes ok: "pt_ok m pt xs" and va: "va < MAXVA" and lf: "pt_leaf m 2 pt va = Some q"
  shows "pt_ok (set_pte (q, PX 0 va) v m) pt xs" "subtree (set_pte (q, PX 0 va) v m) 2 pt = subtree m 2 pt"
    "x \<notin> subtree m 2 pt \<Longrightarrow> pages (set_pte (q, PX 0 va) v m) x = pages m x"
    "va' < MAXVA \<Longrightarrow> entry (set_pte (q, PX 0 va) v m) pt va' = (if vpn va' = vpn va then v else entry m pt va')"
proof -
  have a: "pt_wf m 2 pt" "free_pages m xs" "subtree m 2 pt \<inter> set xs = {}" using ok by (simp_all add: pt_ok_def)
  let ?m = "set_pte (q, PX 0 va) v m"
  have S: "subtree ?m 2 pt = subtree m 2 pt" "pt_wf ?m 2 pt"
    "\<And>va'. entry ?m pt va' = (if same_idx 2 va va' then v else entry m pt va')"
    using set_leaf [OF a(1) lf, of v] by blast+
  have qt: "q \<in> subtree m 2 pt" by (rule pt_leaf_in [OF lf])
  then have "q \<notin> set xs" using a(3) by blast
  then have "x \<in> set xs \<Longrightarrow> pages ?m x = pages m x" for x by (intro set_pte_frame(3)) auto
  then have "free_pages ?m xs" by (intro free_pages_frame [OF a(2)]) simp_all
  then show "pt_ok ?m pt xs" using S(1,2) a(3) unfolding pt_ok_def by simp
  show "subtree ?m 2 pt = subtree m 2 pt" by (rule S(1))
  show "x \<notin> subtree m 2 pt \<Longrightarrow> pages ?m x = pages m x" using qt by (intro set_pte_frame(3)) auto
  show "va' < MAXVA \<Longrightarrow> entry ?m pt va' = (if vpn va' = vpn va then v else entry m pt va')"
    using same_idx_vpn [OF va] unfolding S(3) by auto
qed

lemma walk_set:
  assumes ok: "pt_ok m pt xs" and va: "va < MAXVA" and w: "walk_loop pt va True 2 m = (Some r, m1)"
  shows "\<exists>xs'. pt_ok (set_pte r v m1) pt xs' \<and> (\<exists>ys. xs = ys @ xs') \<and> length xs \<le> length xs' + 2 \<and>
    get_pte m1 r = entry m pt va \<and> end_addr (set_pte r v m1) = end_addr m \<and>
    subtree m 2 pt \<subseteq> subtree (set_pte r v m1) 2 pt \<and> subtree (set_pte r v m1) 2 pt \<subseteq> subtree m 2 pt \<union> set xs \<and>
    (\<forall>q. q \<notin> subtree m 2 pt \<and> q \<notin> set xs \<longrightarrow> pages (set_pte r v m1) q = pages m q) \<and>
    (\<forall>va' < MAXVA. entry (set_pte r v m1) pt va' = (if vpn va' = vpn va then v else entry m pt va'))"
proof -
  have a: "pt_wf m 2 pt" "free_pages m xs" "subtree m 2 pt \<inter> set xs = {}" using ok by (simp_all add: pt_ok_def)
  from walk_alloc [OF w a] obtain q xs' where wd: "walked m 2 pt xs m1 xs'" and r: "r = (q, PX 0 va)"
    and lf: "pt_leaf m1 2 pt va = Some q" "length xs \<le> length xs' + 2" by (cases r) auto
  have W: "pt_ok m1 pt xs'" "\<exists>ys. xs = ys @ xs'" "subtree m 2 pt \<subseteq> subtree m1 2 pt"
    "subtree m1 2 pt \<subseteq> subtree m 2 pt \<union> set xs" "end_addr m1 = end_addr m" "\<And>va. entry m1 pt va = entry m pt va"
    "\<And>x. x \<notin> subtree m 2 pt \<Longrightarrow> x \<notin> set xs \<Longrightarrow> pages m1 x = pages m x"
    using wd by (simp_all add: walked_def pt_ok_def)
  note S = set_entry [OF W(1) va lf(1), where v = v, folded r]
  have "get_pte m1 r = entry m pt va" using W(6) [of va] lf(1) pt_entry_leaf [of m1 2 pt va] by (simp add: r)
  moreover have "pages (set_pte r v m1) x = pages m x" if x: "x \<notin> subtree m 2 pt" "x \<notin> set xs" for x
  proof -
    have "x \<notin> subtree m1 2 pt" using W(4) x by blast
    then show ?thesis using W(7) [OF x] S(3) by simp
  qed
  ultimately show ?thesis using W(2-6) S(1,2,4) lf(2) by (intro exI [of _ xs']) simp
qed

lemma walk_none:
  assumes ok: "pt_ok m pt xs" and w: "walk_loop pt va True 2 m = (None, m1)"
  shows "\<exists>xs'. length xs < 2 \<and> pt_ok m1 pt xs' \<and> (\<exists>ys. xs = ys @ xs') \<and> end_addr m1 = end_addr m \<and>
    subtree m 2 pt \<subseteq> subtree m1 2 pt \<and> subtree m1 2 pt \<subseteq> subtree m 2 pt \<union> set xs \<and>
    (\<forall>q. q \<notin> subtree m 2 pt \<and> q \<notin> set xs \<longrightarrow> pages m1 q = pages m q) \<and> (\<forall>va'. entry m1 pt va' = entry m pt va')"
proof -
  have "pt_wf m 2 pt" "free_pages m xs" "subtree m 2 pt \<inter> set xs = {}" using ok by (simp_all add: pt_ok_def)
  from walk_alloc [OF w this] show ?thesis unfolding walked_def pt_ok_def by auto
qed

subsection \<open>Mapping a range\<close>

text \<open>What a mapping operation leaves, whatever the entries: the table is still a tree beside a free list
  that lost some of its pages, and only table pages and formerly free pages changed.\<close>

definition pt_step :: "u64 \<Rightarrow> pmem \<Rightarrow> u64 list \<Rightarrow> pmem \<Rightarrow> u64 list \<Rightarrow> bool" where
  "pt_step pt m xs m' xs' \<longleftrightarrow> pt_ok m' pt xs' \<and> (\<exists>ys. xs = ys @ xs') \<and> end_addr m' = end_addr m \<and>
     subtree m 2 pt \<subseteq> subtree m' 2 pt \<and> subtree m' 2 pt \<subseteq> subtree m 2 pt \<union> set xs \<and>
     (\<forall>q. q \<notin> subtree m 2 pt \<and> q \<notin> set xs \<longrightarrow> pages m' q = pages m q)"

lemma pt_step_trans:
  assumes "pt_step pt m xs m1 xs1" "pt_step pt m1 xs1 m2 xs2"
  shows "pt_step pt m xs m2 xs2"
proof -
  note A = assms(1) [unfolded pt_step_def] and B = assms(2) [unfolded pt_step_def]
  obtain ys zs where x: "xs = ys @ xs1" "xs1 = zs @ xs2" using A B by blast
  have "\<exists>ys. xs = ys @ xs2" using x by auto
  moreover have "\<forall>q. q \<notin> subtree m 2 pt \<and> q \<notin> set xs \<longrightarrow> pages m2 q = pages m q"
  proof (intro allI impI)
    fix q assume q: "q \<notin> subtree m 2 pt \<and> q \<notin> set xs"
    then have "q \<notin> subtree m1 2 pt" "q \<notin> set xs1" using A x by auto
    then show "pages m2 q = pages m q" using A B q by metis
  qed
  ultimately show ?thesis unfolding pt_step_def using A B x by auto
qed

definition new_pte :: "u64 \<Rightarrow> u64 \<Rightarrow> u64" where
  "new_pte pa perm = PA2PTE pa OR perm OR PTE_V"

lemma mappages_step:
  assumes ok: "pt_ok m pt xs" and k: "4096 * k < 2 ^ 38" and free: "entry m pt (page_addr k) AND PTE_V = 0"
  shows "\<exists>m1 xs1. pt_step pt m xs m1 xs1 \<and>
    (length xs < 2 \<and> mappages_loop pt (page_addr k) lst pa perm m = Some (-1, m1) \<and> (\<forall>va'. entry m1 pt va' = entry m pt va') \<or>
     length xs \<le> length xs1 + 2 \<and>
     mappages_loop pt (page_addr k) lst pa perm m =
       (if page_addr k = lst then Some (0, m1) else mappages_loop pt (page_addr k + PGSIZE) lst (pa + PGSIZE) perm m1) \<and>
     (\<forall>va' < MAXVA. entry m1 pt va' = (if vpn va' = k then new_pte pa perm else entry m pt va')))"
proof -
  have va: "page_addr k < MAXVA" "vpn (page_addr k) = k" using vpn_page_addr [OF k] by simp_all
  obtain ro m1 where w: "walk_loop pt (page_addr k) True 2 m = (ro, m1)" by (cases "walk_loop pt (page_addr k) True 2 m")
  have walk: "walk pt (page_addr k) True m = Some (ro, m1)" using va(1) w by (simp add: walk_def)
  show ?thesis
  proof (cases ro)
    case None
    have run: "mappages_loop pt (page_addr k) lst pa perm m = Some (-1, m1)"
      by (subst mappages_loop.simps) (simp add: walk None)
    from walk_none [OF ok w [unfolded None]] obtain xs1 where "pt_step pt m xs m1 xs1" "length xs < 2"
      "\<forall>va'. entry m1 pt va' = entry m pt va'" unfolding pt_step_def by auto
    with run show ?thesis by blast
  next
    case (Some r)
    note W = walk_set [OF ok va(1) w [unfolded Some], of "new_pte pa perm"]
    then have "get_pte m1 r AND PTE_V = 0" using free by auto
    then have run: "mappages_loop pt (page_addr k) lst pa perm m =
       (if page_addr k = lst then Some (0, set_pte r (new_pte pa perm) m1)
        else mappages_loop pt (page_addr k + PGSIZE) lst (pa + PGSIZE) perm (set_pte r (new_pte pa perm) m1))"
      by (subst mappages_loop.simps) (simp add: walk Some new_pte_def Let_def)
    from W obtain xs1 where "pt_step pt m xs (set_pte r (new_pte pa perm) m1) xs1" "length xs \<le> length xs1 + 2"
      "\<forall>va' < MAXVA. entry (set_pte r (new_pte pa perm) m1) pt va' = (if vpn va' = k then new_pte pa perm else entry m pt va')"
      unfolding pt_step_def va(2) by auto
    with run show ?thesis by blast
  qed
qed

text \<open>The pages of a range are mapped in order, \<open>c\<close> of them: all when the call succeeds. It fails
  only when the free list runs out: two pages for each page of the range are enough.\<close>

lemma mappages_loop_ok:
  assumes "pt_ok m pt xs" "4096 * (k + n) < 2 ^ 38" "\<And>j. j \<le> n \<Longrightarrow> entry m pt (page_addr (k + j)) AND PTE_V = 0"
  shows "\<exists>e m' xs' c. mappages_loop pt (page_addr k) (page_addr (k + n)) pa perm m = Some (e, m') \<and>
    pt_step pt m xs m' xs' \<and> c \<le> Suc n \<and> (if c = Suc n then e = 0 else e = -1) \<and>
    (2 * Suc n \<le> length xs \<longrightarrow> e = 0 \<and> length xs \<le> length xs' + 2 * Suc n) \<and>
    (\<forall>va' < MAXVA. entry m' pt va' =
       (if k \<le> vpn va' \<and> vpn va' < k + c then new_pte (pa + of_nat (vpn va' - k) * PGSIZE) perm else entry m pt va'))"
  using assms
proof (induction n arbitrary: k pa m xs)
  case 0
  from mappages_step [OF 0(1), of k "page_addr k" pa perm] 0(2,3) obtain m1 xs1 where
    s: "pt_step pt m xs m1 xs1" and c:
    "length xs < 2 \<and> mappages_loop pt (page_addr k) (page_addr k) pa perm m = Some (-1, m1) \<and> (\<forall>va'. entry m1 pt va' = entry m pt va') \<or>
     length xs \<le> length xs1 + 2 \<and> mappages_loop pt (page_addr k) (page_addr k) pa perm m = Some (0, m1) \<and>
     (\<forall>va' < MAXVA. entry m1 pt va' = (if vpn va' = k then new_pte pa perm else entry m pt va'))" by auto
  from c show ?case
  proof (elim disjE conjE)
    assume "length xs < 2" "mappages_loop pt (page_addr k) (page_addr k) pa perm m = Some (-1, m1)" "\<forall>va'. entry m1 pt va' = entry m pt va'"
    with s show ?thesis by (intro exI [of _ "-1"] exI [of _ m1] exI [of _ xs1] exI [of _ "0 :: nat"]) auto
  next
    assume "length xs \<le> length xs1 + 2" "mappages_loop pt (page_addr k) (page_addr k) pa perm m = Some (0, m1)"
      "\<forall>va' < MAXVA. entry m1 pt va' = (if vpn va' = k then new_pte pa perm else entry m pt va')"
    with s show ?thesis by (intro exI [of _ 0] exI [of _ m1] exI [of _ xs1] exI [of _ "1 :: nat"]) auto
  qed
next
  case (Suc n)
  have ne: "page_addr k \<noteq> page_addr (k + Suc n)"
  proof
    assume "page_addr k = page_addr (k + Suc n)"
    then have "unat (page_addr k) = unat (page_addr (k + Suc n))" by simp
    then show False using vpn_page_addr(1) [of k] vpn_page_addr(1) [of "k + Suc n"] Suc.prems(2) by simp
  qed
  from mappages_step [OF Suc.prems(1), of k "page_addr (k + Suc n)" pa perm] Suc.prems(2) Suc.prems(3) [of 0] ne
  obtain m1 xs1 where s: "pt_step pt m xs m1 xs1" and c:
    "length xs < 2 \<and> mappages_loop pt (page_addr k) (page_addr (k + Suc n)) pa perm m = Some (-1, m1) \<and> (\<forall>va'. entry m1 pt va' = entry m pt va') \<or>
     length xs \<le> length xs1 + 2 \<and> mappages_loop pt (page_addr k) (page_addr (k + Suc n)) pa perm m =
       mappages_loop pt (page_addr (Suc k)) (page_addr (Suc k + n)) (pa + PGSIZE) perm m1 \<and>
     (\<forall>va' < MAXVA. entry m1 pt va' = (if vpn va' = k then new_pte pa perm else entry m pt va'))"
    by (auto simp: page_addr_Suc)
  from c show ?case
  proof (elim disjE conjE)
    assume "length xs < 2" "mappages_loop pt (page_addr k) (page_addr (k + Suc n)) pa perm m = Some (-1, m1)"
      "\<forall>va'. entry m1 pt va' = entry m pt va'"
    with s show ?thesis by (intro exI [of _ "-1"] exI [of _ m1] exI [of _ xs1] exI [of _ "0 :: nat"]) auto
  next
    assume l: "length xs \<le> length xs1 + 2" and run: "mappages_loop pt (page_addr k) (page_addr (k + Suc n)) pa perm m =
        mappages_loop pt (page_addr (Suc k)) (page_addr (Suc k + n)) (pa + PGSIZE) perm m1"
      and ent: "\<forall>va' < MAXVA. entry m1 pt va' = (if vpn va' = k then new_pte pa perm else entry m pt va')"
    have ok1: "pt_ok m1 pt xs1" using s by (simp add: pt_step_def)
    have fr: "entry m1 pt (page_addr (Suc k + j)) AND PTE_V = 0" if "j \<le> n" for j
    proof -
      have "4096 * (Suc k + j) < 2 ^ 38" using that Suc.prems(2) by simp
      from vpn_page_addr [OF this] have "entry m1 pt (page_addr (Suc k + j)) = entry m pt (page_addr (Suc k + j))"
        using ent by simp
      then show ?thesis using Suc.prems(3) [of "Suc j"] that by simp
    qed
    from Suc.IH [OF ok1 _ fr, of "pa + PGSIZE"] Suc.prems(2)
    obtain e m' xs' c where r: "mappages_loop pt (page_addr (Suc k)) (page_addr (Suc k + n)) (pa + PGSIZE) perm m1 = Some (e, m')"
      "pt_step pt m1 xs1 m' xs'" "c \<le> Suc n" "if c = Suc n then e = 0 else e = -1"
      "2 * Suc n \<le> length xs1 \<longrightarrow> e = 0 \<and> length xs1 \<le> length xs' + 2 * Suc n"
      "\<forall>va' < MAXVA. entry m' pt va' =
         (if Suc k \<le> vpn va' \<and> vpn va' < Suc k + c then new_pte (pa + PGSIZE + of_nat (vpn va' - Suc k) * PGSIZE) perm else entry m1 pt va')"
      by auto
    have pg: "pa + PGSIZE + of_nat (v - Suc k) * PGSIZE = pa + of_nat (v - k) * PGSIZE" if "Suc k \<le> v" for v
    proof -
      have "v - k = Suc (v - Suc k)" using that by simp
      then show ?thesis by (simp add: algebra_simps)
    qed
    have "entry m' pt va' = (if k \<le> vpn va' \<and> vpn va' < k + Suc c then new_pte (pa + of_nat (vpn va' - k) * PGSIZE) perm
        else entry m pt va')" if "va' < MAXVA" for va'
      using that r(6) ent pg [of "vpn va'"] by (cases "vpn va' = k") (auto simp: add.assoc)
    with r(1-5) l run pt_step_trans [OF s r(2)] show ?thesis
      by (intro exI [of _ e] exI [of _ m'] exI [of _ xs'] exI [of _ "Suc c"]) auto
  qed
qed

lemma mappages_range:
  assumes "4096 * (k + n) < 2 ^ 38"
  shows "mappages pt (page_addr k) (page_addr (Suc n)) pa perm m = mappages_loop pt (page_addr k) (page_addr (k + n)) pa perm m"
proof -
  have u: "unat (page_addr (Suc n)) = 4096 * Suc n"
    unfolding page_addr_def unat_of_nat using assms by (simp add: take_bit_nat_eq_self)
  then have "page_addr (Suc n) \<noteq> 0" "page_addr (Suc n) mod PGSIZE = 0" by (auto simp: page_aligned)
  moreover have "page_addr k + page_addr (Suc n) - PGSIZE = page_addr (k + n)"
    by (simp add: page_addr_def PGSIZE_def algebra_simps)
  moreover have "page_addr k mod PGSIZE = 0" using assms by (intro vpn_page_addr(4)) simp
  ultimately show ?thesis by (simp add: mappages_def)
qed

subsection \<open>Looking an address up\<close>

lemma walkaddr_entry:
  "walkaddr pt va m =
     (if va < MAXVA \<and> entry m pt va AND PTE_V \<noteq> 0 \<and> entry m pt va AND PTE_U \<noteq> 0 then PTE2PA (entry m pt va) else 0)"
  by (auto simp: walkaddr_def walk_find pt_entry_leaf Let_def not_less split: option.splits)

lemma ismapped_entry: "va < MAXVA \<Longrightarrow> ismapped pt va m = Some (entry m pt va AND PTE_V \<noteq> 0)"
  by (auto simp: ismapped_def walk_def walk_find pt_entry_leaf split: option.splits)

subsection \<open>Unmapping a range\<close>

lemma kfree_ok:
  assumes ok: "pt_ok m pt xs" and pa: "page_ok m pa" "pa \<notin> set xs" "pa \<notin> subtree m 2 pt"
  obtains m' where "kfree pa m = Some m'" "pt_ok m' pt (pa # xs)" "subtree m' 2 pt = subtree m 2 pt"
    "end_addr m' = end_addr m" "\<And>va. entry m' pt va = entry m pt va" "\<And>va. pt_leaf m' 2 pt va = pt_leaf m 2 pt va"
    "\<And>q. q \<noteq> pa \<Longrightarrow> pages m' q = pages m q"
proof -
  have a: "pt_wf m 2 pt" "free_pages m xs" "subtree m 2 pt \<inter> set xs = {}" using ok by (simp_all add: pt_ok_def)
  from kfree_free [OF a(2) pa(1,2)] obtain m' where m': "kfree pa m = Some m'" "free_pages m' (pa # xs)"
    "end_addr m' = end_addr m" "\<And>q. q \<noteq> pa \<Longrightarrow> pages m' q = pages m q" by blast
  have "pages m' q = pages m q" if "q \<in> subtree m 2 pt" for q using that pa(3) m'(4) by metis
  note F = tree_frame [OF this]
  have "pt_ok m' pt (pa # xs)" unfolding pt_ok_def using a m'(2) pa(3) F(1,2) by auto
  with that m' F show ?thesis by blast
qed

text \<open>The pages that the valid entries of \<open>n\<close> pages from \<open>k\<close> on point to.\<close>

definition owned :: "pmem \<Rightarrow> u64 \<Rightarrow> nat \<Rightarrow> nat \<Rightarrow> u64 list" where
  "owned m pt k n = map (\<lambda>j. PTE2PA (entry m pt (page_addr j)))
     (filter (\<lambda>j. entry m pt (page_addr j) AND PTE_V \<noteq> 0) [k..<k + n])"

lemma owned_0 [simp]: "owned m pt k 0 = []"
  by (simp add: owned_def)

lemma owned_Suc: "owned m pt k (Suc n) =
  (if entry m pt (page_addr k) AND PTE_V \<noteq> 0 then [PTE2PA (entry m pt (page_addr k))] else []) @ owned m pt (Suc k) n"
proof -
  have "[k..<k + Suc n] = k # [Suc k..<Suc k + n]" by (simp add: upt_conv_Cons del: upt_Suc)
  then show ?thesis by (simp add: owned_def)
qed

lemma owned_cong: "(\<And>j. k \<le> j \<Longrightarrow> j < k + n \<Longrightarrow> entry m' pt (page_addr j) = entry m pt (page_addr j)) \<Longrightarrow> owned m' pt k n = owned m pt k n"
  by (auto simp: owned_def intro!: map_cong filter_cong)

text \<open>They can be given back: allocatable, no page twice, none free already and none a page of the table.\<close>

definition owns :: "pmem \<Rightarrow> u64 \<Rightarrow> u64 list \<Rightarrow> u64 list \<Rightarrow> bool" where
  "owns m pt xs os \<longleftrightarrow> distinct os \<and> (\<forall>x \<in> set os. page_ok m x \<and> x \<notin> set xs \<and> x \<notin> subtree m 2 pt)"

lemma unmap_step:
  assumes ok: "pt_ok m pt xs" and k: "4096 * k < 2 ^ 38" and stop: "page_addr k < stop"
    and own: "do_free \<Longrightarrow> owns m pt xs (owned m pt k 1)"
  obtains m1 where "uvmunmap_loop pt (page_addr k) stop do_free m = uvmunmap_loop pt (page_addr (Suc k)) stop do_free m1"
    "pt_ok m1 pt ((if do_free then owned m pt k 1 else []) @ xs)" "subtree m1 2 pt = subtree m 2 pt" "end_addr m1 = end_addr m"
    "\<And>va. va < MAXVA \<Longrightarrow> entry m1 pt va = (if vpn va = k \<and> entry m pt (page_addr k) AND PTE_V \<noteq> 0 then 0 else entry m pt va)"
    "\<And>q. q \<notin> subtree m 2 pt \<Longrightarrow> q \<notin> set (owned m pt k 1) \<Longrightarrow> pages m1 q = pages m q"
proof -
  note va = vpn_page_addr [OF k]
  have ow: "owned m pt k 1 = (if entry m pt (page_addr k) AND PTE_V \<noteq> 0 then [PTE2PA (entry m pt (page_addr k))] else [])"
    using owned_Suc [of m pt k 0] by simp
  have walk: "walk pt (page_addr k) False m = Some (map_option (\<lambda>q. (q, PX 0 (page_addr k))) (pt_leaf m 2 pt (page_addr k)), m)"
    using va(3) by (simp add: walk_def walk_find)
  show ?thesis
  proof (cases "entry m pt (page_addr k) AND PTE_V = 0")
    case True
    have "uvmunmap_loop pt (page_addr k) stop do_free m = uvmunmap_loop pt (page_addr (Suc k)) stop do_free m"
      using True stop by (subst uvmunmap_loop.simps)
        (auto simp: walk pt_entry_leaf page_addr_Suc split: option.splits)
    then show ?thesis using True ok ow by (intro that [of m]) auto
  next
    case False
    then obtain q where q: "pt_leaf m 2 pt (page_addr k) = Some q" "get_pte m (q, PX 0 (page_addr k)) = entry m pt (page_addr k)"
      by (auto simp: pt_entry_leaf split: option.splits)
    let ?r = "(q, PX 0 (page_addr k))" and ?pa = "PTE2PA (entry m pt (page_addr k))"
    obtain m0 where m0: "(if do_free then kfree ?pa m else Some m) = Some m0"
      "pt_ok m0 pt ((if do_free then [?pa] else []) @ xs)" "subtree m0 2 pt = subtree m 2 pt" "end_addr m0 = end_addr m"
      "\<And>va. entry m0 pt va = entry m pt va" "pt_leaf m0 2 pt (page_addr k) = Some q" "\<And>q. q \<noteq> ?pa \<Longrightarrow> pages m0 q = pages m q"
    proof (cases do_free)
      case True
      have "page_ok m ?pa" "?pa \<notin> set xs" "?pa \<notin> subtree m 2 pt" using own [OF True, unfolded ow owns_def] False by simp_all
      from kfree_ok [OF ok this] obtain m0 where "kfree ?pa m = Some m0" "pt_ok m0 pt (?pa # xs)" "subtree m0 2 pt = subtree m 2 pt"
        "end_addr m0 = end_addr m" "\<And>va. entry m0 pt va = entry m pt va" "\<And>va. pt_leaf m0 2 pt va = pt_leaf m 2 pt va"
        "\<And>q. q \<noteq> ?pa \<Longrightarrow> pages m0 q = pages m q" by blast
      with that [of m0] True q(1) show ?thesis by simp
    next
      case False
      with that [of m] ok q(1) show ?thesis by simp
    qed
    note S = set_entry [OF m0(2) va(3) m0(6), where v = 0]
    have "uvmunmap_loop pt (page_addr k) stop do_free m = uvmunmap_loop pt (page_addr (Suc k)) stop do_free (set_pte ?r 0 m0)"
      using stop False m0(1) by (subst uvmunmap_loop.simps) (auto simp: walk q page_addr_Suc split: if_splits)
    then show ?thesis using False S m0 ow va(2) by (intro that [of "set_pte ?r 0 m0"]) auto
  qed
qed

text \<open>Unmapping clears the valid entries of the range and, when asked to, gives their pages back.\<close>

lemma uvmunmap_loop_ok:
  assumes "pt_ok m pt xs" "4096 * (k + n) \<le> 2 ^ 38" "do_free \<Longrightarrow> owns m pt xs (owned m pt k n)"
  shows "\<exists>m'. uvmunmap_loop pt (page_addr k) (page_addr (k + n)) do_free m = Some m' \<and>
    pt_ok m' pt ((if do_free then rev (owned m pt k n) else []) @ xs) \<and> subtree m' 2 pt = subtree m 2 pt \<and> end_addr m' = end_addr m \<and>
    (\<forall>va < MAXVA. entry m' pt va =
       (if k \<le> vpn va \<and> vpn va < k + n \<and> entry m pt (page_addr (vpn va)) AND PTE_V \<noteq> 0 then 0 else entry m pt va)) \<and>
    (\<forall>q. q \<notin> subtree m 2 pt \<and> q \<notin> set (owned m pt k n) \<longrightarrow> pages m' q = pages m q)"
  using assms
proof (induction n arbitrary: k m xs)
  case 0
  have "uvmunmap_loop pt (page_addr k) (page_addr (k + 0)) do_free m = Some m" by (subst uvmunmap_loop.simps) simp
  then show ?case using 0 by auto
next
  case (Suc n)
  have k: "4096 * k < 2 ^ 38" using Suc.prems(2) by simp
  have uk: "unat (page_addr (k + Suc n)) = 4096 * (k + Suc n)"
    unfolding page_addr_def unat_of_nat using Suc.prems(2) by (simp add: take_bit_nat_eq_self)
  then have stop: "page_addr k < page_addr (k + Suc n)" using vpn_page_addr(1) [OF k] by (simp add: word_less_nat_alt)
  have split: "owned m pt k (Suc n) = owned m pt k 1 @ owned m pt (Suc k) n" using owned_Suc [of m pt k 0] by (simp add: owned_Suc)
  have own1: "do_free \<Longrightarrow> owns m pt xs (owned m pt k 1)" using Suc.prems(3) by (simp add: owns_def split)
  from unmap_step [OF Suc.prems(1) k stop own1] obtain m1 where
    m1: "uvmunmap_loop pt (page_addr k) (page_addr (k + Suc n)) do_free m = uvmunmap_loop pt (page_addr (Suc k)) (page_addr (k + Suc n)) do_free m1"
    "pt_ok m1 pt ((if do_free then owned m pt k 1 else []) @ xs)" "subtree m1 2 pt = subtree m 2 pt" "end_addr m1 = end_addr m"
    "\<And>va. va < MAXVA \<Longrightarrow> entry m1 pt va = (if vpn va = k \<and> entry m pt (page_addr k) AND PTE_V \<noteq> 0 then 0 else entry m pt va)"
    "\<And>q. q \<notin> subtree m 2 pt \<Longrightarrow> q \<notin> set (owned m pt k 1) \<Longrightarrow> pages m1 q = pages m q" by blast
  have later: "entry m1 pt (page_addr j) = entry m pt (page_addr j)" if "Suc k \<le> j" "j < Suc k + n" for j
    using m1(5) [of "page_addr j"] vpn_page_addr [of j] that Suc.prems(2) by simp
  then have oc: "owned m1 pt (Suc k) n = owned m pt (Suc k) n" by (rule owned_cong)
  have ow1: "set (owned m pt k 1) \<inter> set (owned m pt (Suc k) n) = {}" if do_free using Suc.prems(3) [OF that] by (auto simp: owns_def split)
  have "owns m1 pt ((if do_free then owned m pt k 1 else []) @ xs) (owned m1 pt (Suc k) n)" if do_free
    using Suc.prems(3) [OF that] ow1 [OF that] that unfolding owns_def oc split m1(3) page_ok_def m1(4) by auto
  from Suc.IH [OF m1(2) _ this] Suc.prems(2) obtain m' where m':
    "uvmunmap_loop pt (page_addr (Suc k)) (page_addr (Suc k + n)) do_free m1 = Some m'"
    "pt_ok m' pt ((if do_free then rev (owned m1 pt (Suc k) n) else []) @ (if do_free then owned m pt k 1 else []) @ xs)"
    "subtree m' 2 pt = subtree m1 2 pt" "end_addr m' = end_addr m1"
    "\<And>va. va < MAXVA \<Longrightarrow> entry m' pt va =
       (if Suc k \<le> vpn va \<and> vpn va < Suc k + n \<and> entry m1 pt (page_addr (vpn va)) AND PTE_V \<noteq> 0 then 0 else entry m1 pt va)"
    "\<And>q. q \<notin> subtree m1 2 pt \<Longrightarrow> q \<notin> set (owned m1 pt (Suc k) n) \<Longrightarrow> pages m' q = pages m1 q" by auto
  have "entry m' pt va = (if k \<le> vpn va \<and> vpn va < k + Suc n \<and> entry m pt (page_addr (vpn va)) AND PTE_V \<noteq> 0 then 0 else entry m pt va)"
    if va: "va < MAXVA" for va
  proof (cases "Suc k \<le> vpn va \<and> vpn va < Suc k + n")
    case True
    then have "vpn va \<noteq> k" by simp
    then show ?thesis using m'(5) [OF va] m1(5) [OF va] True later [of "vpn va"] by auto
  next
    case False
    then have "vpn va = k \<or> \<not> (k \<le> vpn va \<and> vpn va < k + Suc n)" by auto
    then show ?thesis using m'(5) [OF va] m1(5) [OF va] False by auto
  qed
  moreover have "rev (owned m pt k 1) = owned m pt k 1" using owned_Suc [of m pt k 0] by simp
  then have "pt_ok m' pt ((if do_free then rev (owned m pt k (Suc n)) else []) @ xs)" using m'(2) oc by (simp add: split split: if_splits)
  moreover have "pages m' q = pages m q" if "q \<notin> subtree m 2 pt" "q \<notin> set (owned m pt k (Suc n))" for q
    using that m'(6) [of q] m1(6) [of q] by (simp add: m1(3) oc split)
  ultimately show ?case using m1(1,3,4) m'(1,3,4) by auto
qed

end
