(* ===== verification/Kern_Copy.thy ===== *)
theory Kern_Copy
  imports Kern_Map
begin

unbundle bit_operations_syntax

text \<open>
  The copies between kernel and user memory of \<^verbatim>\<open>kernel/vm.c\<close>, over user addresses as natural
  numbers: \<open>ubyte\<close> is the byte a process sees at an address. Where the pages are mapped the copies read
  and write exactly these bytes, page by page; \<open>copyinstr\<close> ends on every input.
\<close>

subsection \<open>User addresses\<close>

definition upage :: "pmem \<Rightarrow> u64 \<Rightarrow> nat \<Rightarrow> u64" where
  "upage m pt k = walkaddr pt (page_addr k) m"

definition ubyte :: "pmem \<Rightarrow> u64 \<Rightarrow> nat \<Rightarrow> byte" where
  "ubyte m pt a = pages m (upage m pt (a div 4096)) (a mod 4096)"

lemma PGROUNDDOWN_mod: "PGROUNDDOWN va = va - take_bit 12 va"
proof -
  have "NOT (PGSIZE - 1) = (NOT (mask 12) :: u64)" by (simp add: PGSIZE_def mask_eq_exp_minus_1)
  moreover have "(va AND NOT (mask 12)) + take_bit 12 va = (va AND NOT (mask 12)) OR take_bit 12 va"
    by (rule disjunctive_add_eq_or) (simp add: bit_eq_iff bit_simps)
  moreover have "(va AND NOT (mask 12)) OR take_bit 12 va = va"
    by (rule bit_word_eqI) (auto simp: bit_simps)
  ultimately show ?thesis unfolding PGROUNDDOWN_def by (metis add_diff_cancel_right')
qed

lemma unat_low: "unat (take_bit 12 (va :: u64)) = unat va mod 4096"
proof -
  have "unat (take_bit 12 va) = take_bit 12 (unat va)" by (rule unsigned_take_bit_eq)
  then show ?thesis by (simp add: take_bit_eq_mod)
qed

lemma PGROUNDDOWN_page: "PGROUNDDOWN va = page_addr (vpn va)"
proof -
  have "take_bit 12 va = word_of_nat (unat va mod 4096)" by (simp add: unat_low [symmetric])
  moreover have "va = word_of_nat (unat va)" by simp
  ultimately have "PGROUNDDOWN va = word_of_nat (unat va) - word_of_nat (unat va mod 4096)"
    unfolding PGROUNDDOWN_mod by simp
  also have "\<dots> = word_of_nat (unat va - unat va mod 4096)" by (simp add: of_nat_diff)
  also have "unat va - unat va mod 4096 = 4096 * vpn va" by (simp add: vpn_def minus_mod_eq_mult_div)
  finally show ?thesis by (simp add: page_addr_def)
qed

lemma page_offset: "unat (va - PGROUNDDOWN va) = unat va mod 4096"
proof -
  have "va - PGROUNDDOWN va = take_bit 12 va" by (simp add: PGROUNDDOWN_mod)
  then show ?thesis by (simp only: unat_low)
qed

lemma next_page: "page_addr k + PGSIZE = word_of_nat (4096 * Suc k)"
  by (simp add: page_addr_def PGSIZE_def)

lemma addr_nat:
  assumes "a \<le> 2 ^ 38"
  shows "PGROUNDDOWN (word_of_nat a) = page_addr (a div 4096)"
    "unat (word_of_nat a - PGROUNDDOWN (word_of_nat a)) = a mod 4096"
    "unat (word_of_nat a - page_addr (a div 4096)) = a mod 4096"
proof -
  have "unat (word_of_nat a :: u64) = a" unfolding unat_of_nat using assms by (simp add: take_bit_nat_eq_self)
  then show p: "PGROUNDDOWN (word_of_nat a) = page_addr (a div 4096)"
    and o: "unat (word_of_nat a - PGROUNDDOWN (word_of_nat a)) = a mod 4096"
    using PGROUNDDOWN_page [of "word_of_nat a"] page_offset [of "word_of_nat a"] by (simp_all only: vpn_def)
  show "unat (word_of_nat a - page_addr (a div 4096)) = a mod 4096" using o unfolding p .
qed

lemma page_split:
  fixes a :: nat
  obtains q r where "a = 4096 * q + r" "r < 4096" "a div 4096 = q" "a mod 4096 = r"
  by (metis mod_less_divisor mult_div_mod_eq zero_less_numeral)

lemma in_page:
  fixes a i :: nat
  assumes "i < 4096 - a mod 4096"
  shows "(a + i) div 4096 = a div 4096" "(a + i) mod 4096 = a mod 4096 + i"
proof -
  obtain q r where a: "a = 4096 * q + r" "r < 4096" "a div 4096 = q" "a mod 4096 = r" by (rule page_split)
  have s: "a + i = (r + i) + 4096 * q" "r + i < 4096" using a assms by simp_all
  show "(a + i) div 4096 = a div 4096" "(a + i) mod 4096 = a mod 4096 + i"
    unfolding a(3,4) unfolding s(1) using s(2) by (simp_all del: add.assoc)
qed

text \<open>The bytes a process sees from an address on.\<close>

definition ubytes :: "pmem \<Rightarrow> u64 \<Rightarrow> nat \<Rightarrow> nat \<Rightarrow> byte list" where
  "ubytes m pt a n = map (\<lambda>i. ubyte m pt (a + i)) [0..<n]"

lemma length_ubytes [simp]: "length (ubytes m pt a n) = n"
  by (simp add: ubytes_def)

lemma ubytes_split: "ubytes m pt a (n + k) = ubytes m pt a n @ ubytes m pt (a + n) k"
  by (rule nth_equalityI) (auto simp: ubytes_def nth_append)

lemma read_page_ubytes:
  assumes "n \<le> 4096 - a mod 4096"
  shows "read_page (upage m pt (a div 4096)) (a mod 4096) n m = ubytes m pt a n"
proof -
  have "pages m (upage m pt (a div 4096)) (a mod 4096 + i) = ubyte m pt (a + i)" if "i < n" for i
    using in_page [of i a] assms that by (simp add: ubyte_def)
  then show ?thesis by (auto simp: read_page_def ubytes_def)
qed

lemma next_addr:
  assumes "n = 4096 - a mod 4096"
  shows "page_addr (a div 4096) + PGSIZE = word_of_nat (a + n)"
proof -
  obtain q r where a: "a = 4096 * q + r" "r < 4096" "a div 4096 = q" "a mod 4096 = r" by (rule page_split)
  then have "4096 * Suc q = a + n" using assms by simp
  then show ?thesis unfolding a(3) by (simp only: next_page)
qed

subsection \<open>Reading\<close>

lemma copyin_loop_ok:
  assumes "a + len \<le> 2 ^ 38" "\<And>i. i < len \<Longrightarrow> upage m pt ((a + i) div 4096) \<noteq> 0"
  shows "copyin_loop psz ppt pt (word_of_nat a) len acc m = Some ((acc @ ubytes m pt a len, True), m)"
  using assms
proof (induction len arbitrary: a acc rule: less_induct)
  case (less len)
  show ?case
  proof (cases "len = 0")
    case True
    then show ?thesis by (subst copyin_loop.simps) (simp add: ubytes_def)
  next
    case False
    define n where "n = min (4096 - a mod 4096) len"
    have a: "a \<le> 2 ^ 38" using less.prems(1) by simp
    have n: "0 < n" "n \<le> len" "n \<le> 4096 - a mod 4096" using False by (simp_all add: n_def)
    have pa: "walkaddr pt (page_addr (a div 4096)) m = upage m pt (a div 4096)" "upage m pt (a div 4096) \<noteq> 0"
      using less.prems(2) [of 0] False by (simp_all add: upage_def)
    have step: "copyin_loop psz ppt pt (word_of_nat a) len acc m =
        copyin_loop psz ppt pt (page_addr (a div 4096) + PGSIZE) (len - n) (acc @ ubytes m pt a n) m"
      using False by (subst copyin_loop.simps)
        (simp add: user_page_def pa addr_nat(1,3) [OF a] Let_def n_def read_page_ubytes del: of_nat_add)
    show ?thesis
    proof (cases "n = len")
      case True
      then show ?thesis unfolding step by (subst copyin_loop.simps) simp
    next
      case False
      then have nx: "n = 4096 - a mod 4096" by (simp add: n_def min_def split: if_splits)
      have "copyin_loop psz ppt pt (word_of_nat (a + n)) (len - n) (acc @ ubytes m pt a n) m =
          Some (((acc @ ubytes m pt a n) @ ubytes m pt (a + n) (len - n), True), m)"
      proof (rule less.IH)
        show "len - n < len" "a + n + (len - n) \<le> 2 ^ 38" using n less.prems(1) by simp_all
        show "upage m pt ((a + n + i) div 4096) \<noteq> 0" if "i < len - n" for i
          using less.prems(2) [of "n + i"] that by (simp add: add.assoc)
      qed
      then show ?thesis unfolding step next_addr [OF nx] using ubytes_split [of m pt a n "len - n"] n(2) by simp
    qed
  qed
qed

text \<open>A missing page that cannot be faulted in, the first of the range, stops the copy.\<close>

lemma copyin_unmapped:
  assumes "0 < len" "walkaddr pt (PGROUNDDOWN va) m = 0" "PGROUNDDOWN va \<ge> psz"
  shows "copyin psz ppt pt va len m = Some (None, m)"
  using assms unfolding copyin_def by (subst copyin_loop.simps) (simp add: user_page_def vmfault_def Let_def)

subsection \<open>Writing\<close>

text \<open>An address space whose user pages lie outside its table and are mapped once each.\<close>

definition uspace :: "pmem \<Rightarrow> u64 \<Rightarrow> bool" where
  "uspace m pt \<longleftrightarrow> (\<forall>k < 2 ^ 26. upage m pt k \<noteq> 0 \<longrightarrow> upage m pt k \<notin> subtree m 2 pt \<and>
     (\<forall>j < 2 ^ 26. upage m pt j = upage m pt k \<longrightarrow> j = k))"

definition writable :: "pmem \<Rightarrow> u64 \<Rightarrow> nat \<Rightarrow> bool" where
  "writable m pt k \<longleftrightarrow> upage m pt k \<noteq> 0 \<and> entry m pt (page_addr k) AND PTE_W \<noteq> 0"

lemma write_page_frame [simp]: "end_addr (write_page p off bs m) = end_addr m" "freelist (write_page p off bs m) = freelist m"
  "q \<noteq> p \<Longrightarrow> pages (write_page p off bs m) q = pages m q"
  by (simp_all add: write_page_def)

lemma write_page_tree:
  assumes "p \<notin> subtree m 2 pt"
  shows "subtree (write_page p off bs m) 2 pt = subtree m 2 pt" "entry (write_page p off bs m) pt va = entry m pt va"
    "pt_leaf (write_page p off bs m) 2 pt va = pt_leaf m 2 pt va" "upage (write_page p off bs m) pt k = upage m pt k"
proof -
  have "pages (write_page p off bs m) q = pages m q" if "q \<in> subtree m 2 pt" for q using assms that by (intro write_page_frame(3)) auto
  from tree_frame_all [OF this]
  have F: "subtree (write_page p off bs m) 2 pt = subtree m 2 pt" "\<And>va. entry (write_page p off bs m) pt va = entry m pt va"
    "\<And>va. pt_leaf (write_page p off bs m) 2 pt va = pt_leaf m 2 pt va" by blast+
  show "subtree (write_page p off bs m) 2 pt = subtree m 2 pt" "entry (write_page p off bs m) pt va = entry m pt va"
    "pt_leaf (write_page p off bs m) 2 pt va = pt_leaf m 2 pt va" by (rule F)+
  show "upage (write_page p off bs m) pt k = upage m pt k" by (simp add: upage_def walkaddr_entry F(2))
qed

lemma write_page_ubyte:
  assumes us: "uspace m pt" and k: "a div 4096 < 2 ^ 26" "upage m pt (a div 4096) \<noteq> 0" and n: "length bs \<le> 4096 - a mod 4096"
    and b: "b < 2 ^ 38" "upage m pt (b div 4096) \<noteq> 0"
  shows "ubyte (write_page (upage m pt (a div 4096)) (a mod 4096) bs m) pt b = (if a \<le> b \<and> b < a + length bs then bs ! (b - a) else ubyte m pt b)"
proof -
  let ?p = "upage m pt (a div 4096)"
  have nt: "?p \<notin> subtree m 2 pt" using us k by (simp add: uspace_def)
  have bk: "b div 4096 < 2 ^ 26" using b(1) by (simp add: less_mult_imp_div_less)
  have ub: "ubyte (write_page ?p (a mod 4096) bs m) pt b = pages (write_page ?p (a mod 4096) bs m) (upage m pt (b div 4096)) (b mod 4096)"
    by (simp add: ubyte_def write_page_tree(4) [OF nt])
  obtain q r where a: "a = 4096 * q + r" "r < 4096" "a div 4096 = q" "a mod 4096 = r" by (rule page_split)
  obtain q' r' where b': "b = 4096 * q' + r'" "r' < 4096" "b div 4096 = q'" "b mod 4096 = r'" by (rule page_split)
  show ?thesis
  proof (cases "q' = q")
    case True
    have "(r \<le> r' \<and> r' < r + length bs) = (a \<le> b \<and> b < a + length bs)" "r' - r = b - a" using True a(1) b'(1) by auto
    then show ?thesis unfolding ub unfolding a(3,4) b'(3,4) True ubyte_def by (simp add: write_page_def True)
  next
    case False
    then have "upage m pt q' \<noteq> upage m pt q" using us k bk a(3) b'(3) by (metis uspace_def)
    moreover have "\<not> (a \<le> b \<and> b < a + length bs)"
    proof
      assume ab: "a \<le> b \<and> b < a + length bs"
      then have "(a + (b - a)) div 4096 = a div 4096" using n by (intro in_page(1)) linarith
      then show False using False ab a(3) b'(3) by simp
    qed
    ultimately show ?thesis unfolding ub unfolding a(3) b'(3) by (auto simp: ubyte_def b'(3))
  qed
qed

text \<open>What a copy leaves: the address space is as before except for the bytes written.\<close>

definition wrote :: "pmem \<Rightarrow> u64 \<Rightarrow> nat \<Rightarrow> byte list \<Rightarrow> pmem \<Rightarrow> bool" where
  "wrote m pt a bs m' \<longleftrightarrow> subtree m' 2 pt = subtree m 2 pt \<and> (\<forall>va. entry m' pt va = entry m pt va) \<and> end_addr m' = end_addr m \<and>
     freelist m' = freelist m \<and>
     (\<forall>b < 2 ^ 38. upage m pt (b div 4096) \<noteq> 0 \<longrightarrow>
        ubyte m' pt b = (if a \<le> b \<and> b < a + length bs then bs ! (b - a) else ubyte m pt b))"

lemma wrote_upage: "wrote m pt a bs m' \<Longrightarrow> upage m' pt k = upage m pt k"
  by (simp add: wrote_def upage_def walkaddr_entry)

lemma wrote_Nil: "wrote m pt a [] m"
  by (auto simp: wrote_def)

lemma wrote_append:
  assumes "wrote m pt a bs m1" "wrote m1 pt (a + length bs) cs m2"
  shows "wrote m pt a (bs @ cs) m2"
proof -
  note A = assms(1) [unfolded wrote_def] and B = assms(2) [unfolded wrote_def wrote_upage [OF assms(1)]]
  have "ubyte m2 pt b = (if a \<le> b \<and> b < a + length (bs @ cs) then (bs @ cs) ! (b - a) else ubyte m pt b)"
    if b: "b < 2 ^ 38" "upage m pt (b div 4096) \<noteq> 0" for b
  proof -
    have 1: "ubyte m1 pt b = (if a \<le> b \<and> b < a + length bs then bs ! (b - a) else ubyte m pt b)" using A b by blast
    have 2: "ubyte m2 pt b = (if a + length bs \<le> b \<and> b < a + length bs + length cs then cs ! (b - (a + length bs)) else ubyte m1 pt b)"
      using B b by blast
    show ?thesis unfolding 1 2 by (auto simp: nth_append)
  qed
  then show ?thesis using A B unfolding wrote_def by simp
qed

lemma copyout_ok:
  assumes "uspace m pt" "a + length src \<le> 2 ^ 38" "\<And>i. i < length src \<Longrightarrow> writable m pt ((a + i) div 4096)"
  shows "\<exists>m'. copyout psz ppt pt (word_of_nat a) src m = Some (0, m') \<and> wrote m pt a src m'"
  using assms
proof (induction "length src" arbitrary: a src m rule: less_induct)
  case less
  show ?case
  proof (cases "src = []")
    case True
    then show ?thesis by (subst copyout.simps) (simp add: wrote_Nil)
  next
    case False
    define n where "n = min (4096 - a mod 4096) (length src)"
    have a: "a \<le> 2 ^ 38" "a < 2 ^ 38" using less.prems(2) False by (auto simp flip: length_greater_0_conv)
    have n: "0 < n" "n \<le> length src" "n \<le> 4096 - a mod 4096" using False by (simp_all add: n_def)
    let ?p = "upage m pt (a div 4096)"
    have w: "writable m pt (a div 4096)" using less.prems(3) [of 0] False by simp
    have pa: "walkaddr pt (page_addr (a div 4096)) m = ?p" "?p \<noteq> 0" using w by (simp_all add: upage_def writable_def)
    have ak: "a div 4096 < 2 ^ 26" using a(2) by (simp add: less_mult_imp_div_less)
    have va: "page_addr (a div 4096) < MAXVA" by (rule vpn_page_addr(3)) (use ak in simp)
    obtain q where q: "pt_leaf m 2 pt (page_addr (a div 4096)) = Some q"
      "get_pte m (q, PX 0 (page_addr (a div 4096))) AND PTE_W \<noteq> 0"
      using w by (auto simp: writable_def pt_entry_leaf split: option.splits)
    let ?m1 = "write_page ?p (a mod 4096) (take n src) m"
    note A = addr_nat(1,3) [OF a(1)]
    have nv: "\<not> MAXVA \<le> page_addr (a div 4096)" using va by simp
    have step: "copyout psz ppt pt (word_of_nat a) src m = copyout psz ppt pt (page_addr (a div 4096) + PGSIZE) (drop n src) ?m1"
      apply (subst copyout.simps)
      apply (simp only: False if_False A nv user_page_def pa Let_def walk_def walk_find q option.map bind.bind_lunit
        split_conv prod.case option.case pa(2) if_True n_def simp_thms)
      done
    have nt: "?p \<notin> subtree m 2 pt" using less.prems(1) ak pa(2) by (simp add: uspace_def)
    note T = write_page_tree [OF nt]
    have w1: "wrote m pt a (take n src) ?m1"
      unfolding wrote_def using T write_page_ubyte [OF less.prems(1) ak pa(2), of "take n src"] n by simp
    show ?thesis
    proof (cases "n = length src")
      case True
      then show ?thesis unfolding step using w1 by (subst copyout.simps) simp
    next
      case False
      then have nx: "n = 4096 - a mod 4096" by (simp add: n_def min_def split: if_splits)
      have len: "length (drop n src) < length src" using n by simp
      have "uspace ?m1 pt" using less.prems(1) by (simp add: uspace_def T)
      moreover have "a + n + length (drop n src) \<le> 2 ^ 38" using less.prems(2) n by simp
      moreover have "writable ?m1 pt ((a + n + i) div 4096)" if "i < length (drop n src)" for i
        using less.prems(3) [of "n + i"] that by (simp add: writable_def T add.assoc)
      ultimately obtain m' where m': "copyout psz ppt pt (word_of_nat (a + n)) (drop n src) ?m1 = Some (0, m')"
        "wrote ?m1 pt (a + n) (drop n src) m'" using less.hyps [OF len, of ?m1 "a + n"] by blast
      from wrote_append [OF w1, of "drop n src" m'] m'(2) n have "wrote m pt a src m'" by (simp add: min_absorb2)
      then show ?thesis using m'(1) unfolding step next_addr [OF nx] by blast
    qed
  qed
qed

lemma wrote_ubytes:
  assumes "wrote m pt a bs m'" "a + length bs \<le> 2 ^ 38" "\<And>i. i < length bs \<Longrightarrow> upage m pt ((a + i) div 4096) \<noteq> 0"
  shows "ubytes m' pt a (length bs) = bs"
  by (rule nth_equalityI) (use assms in \<open>auto simp: ubytes_def wrote_def\<close>)

subsection \<open>Strings\<close>

lemma string_chunk_length: "length (fst (string_chunk bs)) \<le> length bs"
  by (auto simp: string_chunk_def Let_def)

lemma copyinstr_total: "\<exists>w ok. copyinstr_loop pt va mx acc m = Some (acc @ w, ok) \<and> length w \<le> mx \<and> (ok \<longrightarrow> w \<noteq> [] \<and> last w = 0)"
proof (induction mx arbitrary: va acc rule: less_induct)
  case (less mx)
  let ?p = "walkaddr pt (PGROUNDDOWN va) m" and ?off = "unat (va - PGROUNDDOWN va)"
  show ?case
  proof (cases "mx = 0 \<or> ?p = 0")
    case True
    then show ?thesis by (subst copyinstr_loop.simps) (auto simp: Let_def)
  next
    case False
    define n where "n = min (4096 - ?off) mx"
    obtain w nul where c: "string_chunk (read_page ?p ?off n m) = (w, nul)" by fastforce
    have "?off < 4096" by (simp add: page_offset)
    then have n: "0 < n" "n \<le> mx" using False by (auto simp: n_def)
    have wl: "length w \<le> n" using string_chunk_length [of "read_page ?p ?off n m"] c by (simp add: read_page_def)
    have step: "copyinstr_loop pt va mx acc m =
        (if nul then Some (acc @ w, True) else copyinstr_loop pt (PGROUNDDOWN va + PGSIZE) (mx - n) (acc @ w) m)"
      using False c by (subst copyinstr_loop.simps) (simp add: Let_def n_def)
    have nl: "nul \<Longrightarrow> w \<noteq> [] \<and> last w = 0" using c by (auto simp: string_chunk_def Let_def split: if_splits)
    show ?thesis
    proof (cases nul)
      case True
      then show ?thesis unfolding step using wl n nl by auto
    next
      case False
      have "mx - n < mx" using n by simp
      from less.IH [OF this, of "PGROUNDDOWN va + PGSIZE" "acc @ w"] obtain w2 ok where
        "copyinstr_loop pt (PGROUNDDOWN va + PGSIZE) (mx - n) (acc @ w) m = Some ((acc @ w) @ w2, ok)" "length w2 \<le> mx - n"
        "ok \<longrightarrow> w2 \<noteq> [] \<and> last w2 = 0" by blast
      then show ?thesis unfolding step using False wl n by (intro exI [of _ "w @ w2"] exI [of _ ok]) auto
    qed
  qed
qed

text \<open>The string at an address: the bytes up to and with the first zero byte, at most \<open>mx\<close> of them.\<close>

lemma string_chunk_split:
  "string_chunk (bs @ cs) = (if snd (string_chunk bs) then string_chunk bs
     else (fst (string_chunk bs) @ fst (string_chunk cs), snd (string_chunk cs)))"
proof (cases "\<forall>b \<in> set bs. b \<noteq> 0")
  case True
  then have t: "takeWhile (\<lambda>b. b \<noteq> 0) bs = bs" "takeWhile (\<lambda>b. b \<noteq> 0) (bs @ cs) = bs @ takeWhile (\<lambda>b. b \<noteq> 0) cs"
    by (simp_all add: takeWhile_eq_all_conv takeWhile_append2)
  show ?thesis by (simp add: string_chunk_def Let_def t)
next
  case False
  then obtain us vs where b: "bs = us @ 0 # vs" "\<forall>b \<in> set us. b \<noteq> 0"
    using split_list_first_prop [of bs "\<lambda>b. b = 0"] by auto
  then show ?thesis by (simp add: string_chunk_def Let_def takeWhile_append2)
qed

lemma copyinstr_loop_ok:
  assumes "a + mx \<le> 2 ^ 38" "\<And>i. i < mx \<Longrightarrow> upage m pt ((a + i) div 4096) \<noteq> 0"
  shows "copyinstr_loop pt (word_of_nat a) mx acc m =
    Some (acc @ fst (string_chunk (ubytes m pt a mx)), snd (string_chunk (ubytes m pt a mx)))"
  using assms
proof (induction mx arbitrary: a acc rule: less_induct)
  case (less mx)
  show ?case
  proof (cases "mx = 0")
    case True
    then show ?thesis by (subst copyinstr_loop.simps) (simp add: ubytes_def string_chunk_def)
  next
    case False
    define n where "n = min (4096 - a mod 4096) mx"
    have a: "a \<le> 2 ^ 38" using less.prems(1) by simp
    have n: "0 < n" "n \<le> mx" "n \<le> 4096 - a mod 4096" using False by (simp_all add: n_def)
    have pa: "walkaddr pt (page_addr (a div 4096)) m = upage m pt (a div 4096)" "upage m pt (a div 4096) \<noteq> 0"
      using less.prems(2) [of 0] False by (simp_all add: upage_def)
    obtain w nul where c: "string_chunk (ubytes m pt a n) = (w, nul)" by fastforce
    have step: "copyinstr_loop pt (word_of_nat a) mx acc m =
        (if nul then Some (acc @ w, True) else copyinstr_loop pt (page_addr (a div 4096) + PGSIZE) (mx - n) (acc @ w) m)"
      using False c by (subst copyinstr_loop.simps)
        (simp add: pa addr_nat(1,3) [OF a] Let_def n_def read_page_ubytes del: of_nat_add)
    have sp: "string_chunk (ubytes m pt a mx) =
        (if nul then (w, nul) else (w @ fst (string_chunk (ubytes m pt (a + n) (mx - n))), snd (string_chunk (ubytes m pt (a + n) (mx - n)))))"
      using string_chunk_split [of "ubytes m pt a n" "ubytes m pt (a + n) (mx - n)"] ubytes_split [of m pt a n "mx - n"] n(2) c by simp
    show ?thesis
    proof (cases "nul \<or> n = mx")
      case True
      then show ?thesis unfolding step sp
        by (subst copyinstr_loop.simps) (auto simp: ubytes_def string_chunk_def)
    next
      case False
      then have nx: "n = 4096 - a mod 4096" by (simp add: n_def min_def split: if_splits)
      have "copyinstr_loop pt (word_of_nat (a + n)) (mx - n) (acc @ w) m =
          Some ((acc @ w) @ fst (string_chunk (ubytes m pt (a + n) (mx - n))), snd (string_chunk (ubytes m pt (a + n) (mx - n))))"
      proof (rule less.IH)
        show "mx - n < mx" "a + n + (mx - n) \<le> 2 ^ 38" using n less.prems(1) by simp_all
        show "upage m pt ((a + n + i) div 4096) \<noteq> 0" if "i < mx - n" for i
          using less.prems(2) [of "n + i"] that by (simp add: add.assoc)
      qed
      then show ?thesis unfolding step sp next_addr [OF nx] using False by simp
    qed
  qed
qed

end
