(* ===== verification/Fs_Name.thy ===== *)
theory Fs_Name
  imports Fs_Inode Kern_String Kern_Copy
begin

text \<open>
  The upper half of \<^verbatim>\<open>kernel/fs.c\<close>: the contents of inodes, directories and path names. The target of
  \<open>readi\<close> is a user address, a variable of the kernel (the bytes written to it so far) or a place in a
  physical page; the source of \<open>writei\<close> is a user address or a variable (the bytes that are left). A path
  is the list of its characters without the final NUL.
\<close>

definition DIRSIZ :: nat where "DIRSIZ = 14"

subsection \<open>Blocks of an inode\<close>

text \<open>The entry \<open>bn\<close> of the indirect block \<open>addr\<close>, allocated if it is missing.\<close>

definition bmap_entry :: "nat \<Rightarrow> nat \<Rightarrow> nat \<Rightarrow> u32 \<Rightarrow> fkstate \<Rightarrow> (u32 \<times> fkstate) option" where
  "bmap_entry cur i bn addr s = do {
     (bp, s) \<leftarrow> bread cur (idev (inode_of s i)) addr s;
     let addr = get32 bn (bdata (buf_of s bp));
     (addr, s) \<leftarrow> (if addr = 0 then do {
                      (addr, s) \<leftarrow> balloc cur (idev (inode_of s i)) s;
                      if addr \<noteq> 0 then do {
                        s \<leftarrow> log_write bp (set_data bp (put32 bn addr) s);
                        Some (addr, s)
                      }
                      else Some (addr, s)
                    }
                    else Some (addr, s));
     s \<leftarrow> brelse cur bp s;
     Some (addr, s)
   }"

text \<open>The block at a position of \<open>addrs\<close>, allocated if it is missing.\<close>

definition bmap_slot :: "nat \<Rightarrow> nat \<Rightarrow> nat \<Rightarrow> fkstate \<Rightarrow> (u32 \<times> fkstate) option" where
  "bmap_slot cur i k s =
     (let addr = addrs (inode_of s i) ! k in
      if addr = 0 then do {
        (addr, s) \<leftarrow> balloc cur (idev (inode_of s i)) s;
        if addr = 0 then Some (0, s)
        else Some (addr, upd_inode i (\<lambda>ip. ip\<lparr>addrs := (addrs ip)[k := addr]\<rparr>) s)
      }
      else Some (addr, s))"

definition bmap :: "nat \<Rightarrow> nat \<Rightarrow> nat \<Rightarrow> fkstate \<Rightarrow> (u32 \<times> fkstate) option" where
  "bmap cur i bn s =
     (if bn < NDIRECT then bmap_slot cur i bn s
      else if bn - NDIRECT < NINDIRECT then do {
        (addr, s) \<leftarrow> bmap_slot cur i NDIRECT s;
        if addr = 0 then Some (0, s) else bmap_entry cur i (bn - NDIRECT) addr s
      }
      else None)"

subsection \<open>Reading and writing\<close>

datatype kdest = UserDst u64 | VarDst "byte list" | PageDst u64 nat

datatype ksrc = UserSrc u64 | VarSrc "byte list"

text \<open>The copy, and the target \<open>m\<close> bytes further.\<close>

fun either_copyout :: "nat \<Rightarrow> kdest \<Rightarrow> byte list \<Rightarrow> fkstate \<Rightarrow> (int \<times> kdest \<times> fkstate) option" where
  "either_copyout cur (UserDst a) bs s = do {
     (e, m) \<leftarrow> copyout (sz (proc s ! cur)) (pagetable (proc s ! cur)) (pagetable (proc s ! cur)) a bs (pm s);
     Some (e, UserDst (a + word_of_nat (length bs)), s\<lparr>pm := m\<rparr>)
   }"
| "either_copyout cur (VarDst acc) bs s = Some (0, VarDst (acc @ bs), s)"
| "either_copyout cur (PageDst pa j) bs s = Some (0, PageDst pa (j + length bs), s\<lparr>pm := write_page pa j bs (pm s)\<rparr>)"

text \<open>The bytes that reach the destination, even on failure, and the result.\<close>

fun either_copyin :: "nat \<Rightarrow> ksrc \<Rightarrow> nat \<Rightarrow> fkstate \<Rightarrow> (byte list \<times> int \<times> ksrc \<times> fkstate) option" where
  "either_copyin cur (UserSrc a) n s = do {
     ((bs, ok), m) \<leftarrow> copyin_loop (sz (proc s ! cur)) (pagetable (proc s ! cur)) (pagetable (proc s ! cur)) a n [] (pm s);
     Some (bs, if ok then 0 else -1, UserSrc (a + word_of_nat n), s\<lparr>pm := m\<rparr>)
   }"
| "either_copyin cur (VarSrc xs) n s = Some (take n xs, 0, VarSrc (drop n xs), s)"

text \<open>\<^verbatim>\<open>min(n - tot, BSIZE - off % BSIZE)\<close>\<close>

definition chunk :: "nat \<Rightarrow> nat \<Rightarrow> nat" where
  "chunk off left = min left (BSIZE - off mod BSIZE)"

lemma chunk_pos: "0 < left \<Longrightarrow> 0 < chunk off left"
  by (simp add: chunk_def BSIZE_def)

text \<open>The loop of \<open>readi\<close> with \<open>left\<close> bytes to go; \<open>tot\<close> bytes are done.\<close>

function readi_loop :: "nat \<Rightarrow> nat \<Rightarrow> kdest \<Rightarrow> nat \<Rightarrow> nat \<Rightarrow> nat \<Rightarrow> fkstate \<Rightarrow> (int \<times> kdest \<times> fkstate) option" where
  "readi_loop cur i dst off tot left s =
     (if left = 0 then Some (int tot, dst, s)
      else do {
        (addr, s) \<leftarrow> bmap cur i (off div BSIZE) s;
        if addr = 0 then Some (int tot, dst, s)
        else do {
          (bp, s) \<leftarrow> bread cur (idev (inode_of s i)) addr s;
          let m = chunk off left;
          (e, dst, s) \<leftarrow> either_copyout cur dst (take m (drop (off mod BSIZE) (bdata (buf_of s bp)))) s;
          s \<leftarrow> brelse cur bp s;
          if e = -1 then Some (-1, dst, s)
          else readi_loop cur i dst (off + m) (tot + m) (left - m) s
        }
      })"
  by pat_completeness auto
termination
  by (relation "measure (\<lambda>(_, _, _, _, _, left, _). left)") (use chunk_pos in auto)

definition readi :: "nat \<Rightarrow> nat \<Rightarrow> kdest \<Rightarrow> u32 \<Rightarrow> u32 \<Rightarrow> fkstate \<Rightarrow> (int \<times> kdest \<times> fkstate) option" where
  "readi cur i dst off n s =
     (let len = isize (inode_of s i) in
      if off > len \<or> off + n < off then Some (0, dst, s)
      else readi_loop cur i dst (unat off) 0 (unat (if off + n > len then len - off else n)) s)"

definition poke :: "nat \<Rightarrow> byte list \<Rightarrow> block \<Rightarrow> block" where
  "poke k xs bs = take k bs @ xs @ drop (k + length xs) bs"

text \<open>The loop of \<open>writei\<close>: the offset it ends at, the bytes done and the source.\<close>

function writei_loop :: "nat \<Rightarrow> nat \<Rightarrow> ksrc \<Rightarrow> nat \<Rightarrow> nat \<Rightarrow> nat \<Rightarrow> fkstate \<Rightarrow> (nat \<times> nat \<times> fkstate) option" where
  "writei_loop cur i src off tot left s =
     (if left = 0 then Some (off, tot, s)
      else do {
        (addr, s) \<leftarrow> bmap cur i (off div BSIZE) s;
        if addr = 0 then Some (off, tot, s)
        else do {
          (bp, s) \<leftarrow> bread cur (idev (inode_of s i)) addr s;
          let m = chunk off left;
          (xs, e, src, s) \<leftarrow> either_copyin cur src m s;
          let s = set_data bp (poke (off mod BSIZE) xs) s;
          if e = -1 then do {
            s \<leftarrow> brelse cur bp s;
            Some (off, tot, s)
          }
          else do {
            s \<leftarrow> log_write bp s;
            s \<leftarrow> brelse cur bp s;
            writei_loop cur i src (off + m) (tot + m) (left - m) s
          }
        }
      })"
  by pat_completeness auto
termination
  by (relation "measure (\<lambda>(_, _, _, _, _, left, _). left)") (use chunk_pos in auto)

declare readi_loop.simps [simp del] writei_loop.simps [simp del]

definition writei :: "nat \<Rightarrow> nat \<Rightarrow> ksrc \<Rightarrow> u32 \<Rightarrow> u32 \<Rightarrow> fkstate \<Rightarrow> (int \<times> fkstate) option" where
  "writei cur i src off n s =
     (if off > isize (inode_of s i) \<or> off + n < off then Some (-1, s)
      else if off + n > word_of_nat (MAXFILE * BSIZE) then Some (-1, s)
      else do {
        (e, tot, s) \<leftarrow> writei_loop cur i src (unat off) 0 (unat n) s;
        let s = (if e > unat (isize (inode_of s i)) then upd_inode i (\<lambda>ip. ip\<lparr>isize := word_of_nat e\<rparr>) s else s);
        s \<leftarrow> iupdate cur i s;
        Some (int tot, s)
      })"

text \<open>\<^verbatim>\<open>struct stat\<close>; \<open>pad\<close> is what the four bytes of its padding hold.\<close>

record kstat =
  st_dev :: u32
  st_ino :: u32
  st_type :: int
  st_nlink :: int
  st_size :: u64

definition stati :: "nat \<Rightarrow> fkstate \<Rightarrow> kstat" where
  "stati i s = (let ip = inode_of s i in
     \<lparr>st_dev = idev ip, st_ino = inum ip, st_type = itype ip, st_nlink = inlink ip, st_size = ucast (isize ip)\<rparr>)"

subsection \<open>Directories\<close>

text \<open>Two strings in memory, for the functions of \<^verbatim>\<open>string.c\<close>; past its end a string has NULs.\<close>

definition two_strings :: "byte list \<Rightarrow> byte list \<Rightarrow> cmem" where
  "two_strings xs ys a = (if a < 256 then (if a < length xs then xs ! a else 0)
     else (if a - 256 < length ys then ys ! (a - 256) else 0))"

definition namecmp :: "byte list \<Rightarrow> byte list \<Rightarrow> int" where
  "namecmp xs ys = strncmp (two_strings xs ys) 0 256 DIRSIZ"

text \<open>\<^verbatim>\<open>struct dirent\<close>: the inode number and the name field.\<close>

definition de_inum :: "byte list \<Rightarrow> 16 word" where "de_inum de = get16 0 de"
definition de_name :: "byte list \<Rightarrow> byte list" where "de_name de = take DIRSIZ (drop 2 de)"

text \<open>The directory entry at an offset, read as the code does, with a panic if it is cut short.\<close>

definition read_dirent :: "nat \<Rightarrow> nat \<Rightarrow> nat \<Rightarrow> fkstate \<Rightarrow> (byte list \<times> fkstate) option" where
  "read_dirent cur dp off s = do {
     (r, dst, s) \<leftarrow> readi cur dp (VarDst []) (word_of_nat off) 16 s;
     if r \<noteq> 16 then None
     else (case dst of VarDst de \<Rightarrow> Some (de, s) | _ \<Rightarrow> None)
   }"

text \<open>The offsets of the loops \<^verbatim>\<open>for(off = ...; off < dp->size; off += sizeof(de))\<close>.\<close>

definition dirent_offs :: "nat \<Rightarrow> nat list" where
  "dirent_offs n = map (\<lambda>k. 16 * k) [0..<(n + 15) div 16]"

fun dirlookup_from :: "nat \<Rightarrow> nat \<Rightarrow> byte list \<Rightarrow> nat list \<Rightarrow> fkstate \<Rightarrow> ((nat \<times> nat) option \<times> fkstate) option" where
  "dirlookup_from cur dp name [] s = Some (None, s)"
| "dirlookup_from cur dp name (off # offs) s = do {
     (de, s) \<leftarrow> read_dirent cur dp off s;
     if de_inum de = 0 then dirlookup_from cur dp name offs s
     else if namecmp name (de_name de) = 0 then do {
       (i, s) \<leftarrow> iget (idev (inode_of s dp)) (ucast (de_inum de)) s;
       Some (Some (i, off), s)
     }
     else dirlookup_from cur dp name offs s
   }"

text \<open>The inode found, with the offset of its entry.\<close>

definition dirlookup :: "nat \<Rightarrow> nat \<Rightarrow> byte list \<Rightarrow> fkstate \<Rightarrow> ((nat \<times> nat) option \<times> fkstate) option" where
  "dirlookup cur dp name s =
     (if itype (inode_of s dp) \<noteq> T_DIR then None
      else dirlookup_from cur dp name (dirent_offs (unat (isize (inode_of s dp)))) s)"

text \<open>The search of \<open>dirlink\<close> for an unused entry, or the end of the directory.\<close>

fun empty_dirent :: "nat \<Rightarrow> nat \<Rightarrow> nat list \<Rightarrow> fkstate \<Rightarrow> (nat option \<times> fkstate) option" where
  "empty_dirent cur dp [] s = Some (None, s)"
| "empty_dirent cur dp (off # offs) s = do {
     (de, s) \<leftarrow> read_dirent cur dp off s;
     if de_inum de = 0 then Some (Some off, s) else empty_dirent cur dp offs s
   }"

definition name_field :: "byte list \<Rightarrow> byte list" where
  "name_field name = map (strncpy (two_strings [] name) 0 256 (int DIRSIZ)) [0..<DIRSIZ]"

definition dirent_bytes :: "u32 \<Rightarrow> byte list \<Rightarrow> byte list" where
  "dirent_bytes n name = put16 0 (ucast n) [0, 0] @ name_field name"

definition dirlink :: "nat \<Rightarrow> nat \<Rightarrow> byte list \<Rightarrow> u32 \<Rightarrow> fkstate \<Rightarrow> (int \<times> fkstate) option" where
  "dirlink cur dp name n s = do {
     (r, s) \<leftarrow> dirlookup cur dp name s;
     (case r of
        Some (ip, _) \<Rightarrow> do {
          s \<leftarrow> iput cur ip s;
          Some (-1, s)
        }
      | None \<Rightarrow> do {
          let offs = dirent_offs (unat (isize (inode_of s dp)));
          (e, s) \<leftarrow> empty_dirent cur dp offs s;
          let off = (case e of Some off \<Rightarrow> off | None \<Rightarrow> 16 * length offs);
          (w, s) \<leftarrow> writei cur dp (VarSrc (dirent_bytes n name)) (word_of_nat off) 16 s;
          Some (if w \<noteq> 16 then -1 else 0, s)
        })
   }"

subsection \<open>Paths\<close>

abbreviation slash :: byte where "slash \<equiv> 47"

text \<open>The rest of the path and the element, cut to \<open>DIRSIZ\<close> characters.\<close>

definition skipelem :: "byte list \<Rightarrow> (byte list \<times> byte list) option" where
  "skipelem path =
     (let p = dropWhile (\<lambda>c. c = slash) path in
      if p = [] then None
      else Some (dropWhile (\<lambda>c. c = slash) (dropWhile (\<lambda>c. c \<noteq> slash) p),
                 let e = takeWhile (\<lambda>c. c \<noteq> slash) p in if length e \<ge> DIRSIZ then take DIRSIZ e else e))"

lemma skipelem_shorter: "skipelem path = Some (rest, name) \<Longrightarrow> length rest < length path"
proof -
  assume a: "skipelem path = Some (rest, name)"
  let ?p = "dropWhile (\<lambda>c. c = slash) path"
  have p: "?p \<noteq> []" and r: "rest = dropWhile (\<lambda>c. c = slash) (dropWhile (\<lambda>c. c \<noteq> slash) ?p)"
    using a by (auto simp: skipelem_def Let_def split: if_splits)
  obtain c q where q: "?p = c # q" using p by (cases ?p) auto
  have "c \<noteq> slash" using q hd_dropWhile [OF p] by simp
  then have "length rest \<le> length (dropWhile (\<lambda>c. c \<noteq> slash) q)" unfolding r q by (simp add: length_dropWhile_le)
  also have "\<dots> \<le> length q" by (rule length_dropWhile_le)
  also have "\<dots> < length ?p" by (simp add: q)
  also have "\<dots> \<le> length path" by (rule length_dropWhile_le)
  finally show ?thesis .
qed

text \<open>The loop of \<open>namex\<close> at the inode \<open>ip\<close>: the inode found and the last element.\<close>

function namex_from :: "nat \<Rightarrow> bool \<Rightarrow> nat \<Rightarrow> byte list \<Rightarrow> byte list \<Rightarrow> fkstate \<Rightarrow> ((nat option \<times> byte list) \<times> fkstate) option" where
  "namex_from cur want_parent ip path elem s =
     (case skipelem path of
        None \<Rightarrow>
          if want_parent then do { s \<leftarrow> iput cur ip s; Some ((None, elem), s) }
          else Some ((Some ip, elem), s)
      | Some (rest, name) \<Rightarrow> do {
          s \<leftarrow> ilock cur ip s;
          if itype (inode_of s ip) \<noteq> T_DIR then do {
            s \<leftarrow> iunlockput cur ip s;
            Some ((None, name), s)
          }
          else if want_parent \<and> rest = [] then do {
            s \<leftarrow> iunlock cur ip s;
            Some ((Some ip, name), s)
          }
          else do {
            (r, s) \<leftarrow> dirlookup cur ip name s;
            s \<leftarrow> iunlockput cur ip s;
            (case r of
               None \<Rightarrow> Some ((None, name), s)
             | Some (nx, _) \<Rightarrow> namex_from cur want_parent nx rest name s)
          }
        })"
  by pat_completeness auto
termination
  by (relation "measure (\<lambda>(_, _, _, path, _, _). length path)") (auto dest: skipelem_shorter)

declare namex_from.simps [simp del]

definition namex :: "nat \<Rightarrow> byte list \<Rightarrow> bool \<Rightarrow> fkstate \<Rightarrow> ((nat option \<times> byte list) \<times> fkstate) option" where
  "namex cur path want_parent s = do {
     (ip, s) \<leftarrow> (if path \<noteq> [] \<and> hd path = slash then iget ROOTDEV ROOTINO s
                else (case cwd (proc s ! cur) of None \<Rightarrow> None | Some c \<Rightarrow> idup c s));
     namex_from cur want_parent ip path [] s
   }"

definition namei :: "nat \<Rightarrow> byte list \<Rightarrow> fkstate \<Rightarrow> (nat option \<times> fkstate) option" where
  "namei cur path s = map_option (\<lambda>((r, _), s). (r, s)) (namex cur path False s)"

definition nameiparent :: "nat \<Rightarrow> byte list \<Rightarrow> fkstate \<Rightarrow> ((nat option \<times> byte list) \<times> fkstate) option" where
  "nameiparent cur path s = namex cur path True s"

end
