(* ===== verification/Fs_Content.thy ===== *)
theory Fs_Content
  imports Fs_Alloc Fs_Name
begin

text \<open>
  The contents of a file: \<open>baddr\<close> is the block at a position, \<open>fblock\<close> its bytes, where a position
  without a block has zeros. \<open>bmap\<close> may add blocks and leaves these bytes alone; \<open>readi\<close> and
  \<open>writei\<close> read and overwrite them.
\<close>

subsection \<open>The blocks of an inode\<close>

definition baddr :: "(u32 \<Rightarrow> block) \<Rightarrow> inode \<Rightarrow> nat \<Rightarrow> u32" where
  "baddr V ip k =
     (if k < NDIRECT then addrs ip ! k
      else if addrs ip ! NDIRECT = 0 then 0 else get32 (k - NDIRECT) (V (addrs ip ! NDIRECT)))"

definition fblock :: "(u32 \<Rightarrow> block) \<Rightarrow> inode \<Rightarrow> nat \<Rightarrow> block" where
  "fblock V ip k = (if baddr V ip k = 0 then replicate BSIZE 0 else V (baddr V ip k))"

definition own :: "(u32 \<Rightarrow> block) \<Rightarrow> inode \<Rightarrow> u32 set" where
  "own V ip = {a. a \<noteq> 0 \<and> (a = addrs ip ! NDIRECT \<or> (\<exists>k < MAXFILE. a = baddr V ip k))}"

definition ino_ok :: "superblock \<Rightarrow> (u32 \<Rightarrow> block) \<Rightarrow> inode \<Rightarrow> bool" where
  "ino_ok v V ip \<longleftrightarrow> length (addrs ip) = Suc NDIRECT \<and>
     (\<forall>a \<in> own V ip. data_start v \<le> unat a \<and> unat a < unat (sb_size v) \<and> blk_used v V (unat a)) \<and>
     (\<forall>k < MAXFILE. \<forall>j < MAXFILE. baddr V ip k \<noteq> 0 \<and> baddr V ip k = baddr V ip j \<longrightarrow> k = j) \<and>
     (\<forall>k < MAXFILE. baddr V ip k \<noteq> 0 \<longrightarrow> baddr V ip k \<noteq> addrs ip ! NDIRECT)"

lemma ino_okD:
  assumes "ino_ok v V ip"
  shows "length (addrs ip) = Suc NDIRECT" "a \<in> own V ip \<Longrightarrow> data_start v \<le> unat a \<and> unat a < unat (sb_size v) \<and> blk_used v V (unat a)"
    "k < MAXFILE \<Longrightarrow> j < MAXFILE \<Longrightarrow> baddr V ip k \<noteq> 0 \<Longrightarrow> baddr V ip k = baddr V ip j \<Longrightarrow> k = j"
    "k < MAXFILE \<Longrightarrow> baddr V ip k \<noteq> 0 \<Longrightarrow> baddr V ip k \<noteq> addrs ip ! NDIRECT"
  using assms by (auto simp: ino_ok_def)

lemma own_baddr: "k < MAXFILE \<Longrightarrow> baddr V ip k \<noteq> 0 \<Longrightarrow> baddr V ip k \<in> own V ip"
  by (auto simp: own_def)

lemma own_indirect: "addrs ip ! NDIRECT \<noteq> 0 \<Longrightarrow> addrs ip ! NDIRECT \<in> own V ip"
  by (auto simp: own_def)

lemma fresh_not_own: "ino_ok v V ip \<Longrightarrow> fresh v V a \<Longrightarrow> a \<notin> own V ip"
  by (auto simp: ino_ok_def fresh_def)

lemma fresh_nonzero: "fresh v V a \<Longrightarrow> a \<noteq> 0"
  by (auto simp: fresh_def data_start_def)

text \<open>How a file may change: its blocks may be added to; blocks in use that are not its own, and those
  before the map, keep their contents.\<close>

definition evolves :: "superblock \<Rightarrow> inode \<Rightarrow> (u32 \<Rightarrow> block) \<Rightarrow> inode \<Rightarrow> (u32 \<Rightarrow> block) \<Rightarrow> bool" where
  "evolves v ip V ip' V' \<longleftrightarrow> ino_ok v V' ip' \<and> map_ok v V' \<and> ip' = ip\<lparr>addrs := addrs ip'\<rparr> \<and>
     (\<forall>b < unat (sb_size v). blk_used v V b \<longrightarrow> blk_used v V' b) \<and>
     (\<forall>j < MAXFILE. baddr V ip j \<noteq> 0 \<longrightarrow> baddr V' ip' j = baddr V ip j) \<and>
     (\<forall>n. unat n < unat (sb_bmapstart v) \<longrightarrow> V' n = V n) \<and>
     (\<forall>n. data_start v \<le> unat n \<and> unat n < unat (sb_size v) \<and> blk_used v V (unat n) \<and> n \<notin> own V ip \<longrightarrow> V' n = V n \<and> n \<notin> own V' ip')"

lemma evolves_refl: "ino_ok v V ip \<Longrightarrow> map_ok v V \<Longrightarrow> evolves v ip V ip V"
  by (simp add: evolves_def)

lemma evolves_trans:
  assumes "evolves v ip V ip1 V1" "evolves v ip1 V1 ip2 V2"
  shows "evolves v ip V ip2 V2"
proof -
  have "ip2 = ip\<lparr>addrs := addrs ip2\<rparr>"
  proof -
    have "ip1 = ip\<lparr>addrs := addrs ip1\<rparr>" "ip2 = ip1\<lparr>addrs := addrs ip2\<rparr>" using assms by (simp_all add: evolves_def)
    then show ?thesis by (metis inode.surjective inode.update_convs(11))
  qed
  then show ?thesis using assms unfolding evolves_def by auto
qed

text \<open>A block is put at one position, or becomes the indirect block.\<close>

lemma attach:
  assumes ok: "ino_ok v V ip" "map_ok v V'" and f: "fresh v V a" and len: "length (addrs ip') = Suc NDIRECT" "ip' = ip\<lparr>addrs := addrs ip'\<rparr>"
    and us: "\<And>b. b < unat (sb_size v) \<Longrightarrow> blk_used v V' b \<longleftrightarrow> b = unat a \<or> blk_used v V b"
    and b: "\<And>j. j < MAXFILE \<Longrightarrow> baddr V' ip' j = (if P j then a else baddr V ip j)" and P: "\<And>j. P j \<Longrightarrow> j = k \<and> baddr V ip j = 0"
    and ind: "addrs ip' ! NDIRECT = addrs ip ! NDIRECT \<or> addrs ip' ! NDIRECT = a \<and> addrs ip ! NDIRECT = 0 \<and> (\<forall>j. \<not> P j)"
    and V: "V' a = replicate BSIZE 0" "\<And>n. data_start v \<le> unat n \<Longrightarrow> unat n < unat (sb_size v) \<Longrightarrow> n \<noteq> a \<Longrightarrow> n \<noteq> addrs ip ! NDIRECT \<Longrightarrow> V' n = V n"
      "\<And>n. unat n < unat (sb_bmapstart v) \<Longrightarrow> V' n = V n"
  shows "evolves v ip V ip' V' \<and> (\<forall>j < MAXFILE. fblock V' ip' j = fblock V ip j)"
proof -
  note O = ino_okD [OF ok(1)]
  have na: "a \<notin> own V ip" "a \<noteq> 0" using fresh_not_own [OF ok(1) f] fresh_nonzero [OF f] by blast+
  have own: "own V' ip' \<subseteq> insert a (own V ip)"
  proof
    fix x assume "x \<in> own V' ip'"
    then consider "x \<noteq> 0" "x = addrs ip' ! NDIRECT" | j where "x \<noteq> 0" "j < MAXFILE" "x = baddr V' ip' j" by (auto simp: own_def)
    then show "x \<in> insert a (own V ip)"
    proof cases
      case 1
      then show ?thesis using ind own_indirect by (metis insertCI)
    next
      case (2 j)
      then show ?thesis using b [OF 2(2)] own_baddr [OF 2(2), of V ip] by (auto split: if_splits)
    qed
  qed
  have nb: "baddr V ip j \<noteq> a" if "j < MAXFILE" for j using own_baddr [OF that] na by metis
  have ni: "addrs ip ! NDIRECT \<noteq> a" using own_indirect na by metis
  have A: "data_start v \<le> unat a" "unat a < unat (sb_size v)" using f by (simp_all add: fresh_def)
  have 1: "\<forall>x \<in> own V' ip'. data_start v \<le> unat x \<and> unat x < unat (sb_size v) \<and> blk_used v V' (unat x)"
    using own O(2) A us by blast
  have 2: "\<forall>k < MAXFILE. \<forall>j < MAXFILE. baddr V' ip' k \<noteq> 0 \<and> baddr V' ip' k = baddr V' ip' j \<longrightarrow> k = j"
    using b O(3) P nb by (metis (full_types))
  have 3: "\<forall>k < MAXFILE. baddr V' ip' k \<noteq> 0 \<longrightarrow> baddr V' ip' k \<noteq> addrs ip' ! NDIRECT"
    using b ind O(4) ni nb by (metis (full_types))
  have "ino_ok v V' ip'" using len(1) 1 2 3 by (simp add: ino_ok_def)
  moreover have "V' n = V n \<and> n \<notin> own V' ip'" if "data_start v \<le> unat n" "unat n < unat (sb_size v)" "blk_used v V (unat n)" "n \<notin> own V ip" for n
  proof -
    have "n \<noteq> a" using that(3) f by (auto simp: fresh_def)
    moreover have "n \<noteq> 0" using that(1) by (auto simp: data_start_def)
    then have "n \<noteq> addrs ip ! NDIRECT" using that(4) own_indirect by metis
    ultimately show ?thesis using V(2) that own by blast
  qed
  moreover have "\<forall>j < MAXFILE. baddr V ip j \<noteq> 0 \<longrightarrow> baddr V' ip' j = baddr V ip j" using b P by auto
  ultimately have "evolves v ip V ip' V'" using ok(2) len(2) us V(3) by (simp add: evolves_def)
  moreover have "fblock V' ip' j = fblock V ip j" if j: "j < MAXFILE" for j
  proof (cases "P j")
    case True
    then show ?thesis using b [OF j] P [OF True, THEN conjunct2] V(1) na(2) by (simp add: fblock_def)
  next
    case False
    show ?thesis
    proof (cases "baddr V ip j = 0")
      case True
      then show ?thesis using b [OF j] False by (simp add: fblock_def)
    next
      case nz: False
      have "V' (baddr V ip j) = V (baddr V ip j)"
        using O(2) [OF own_baddr [OF j nz]] nb [OF j] O(4) [OF j nz] by (intro V(2)) auto
      then show ?thesis using b [OF j] False nz by (simp add: fblock_def)
    qed
  qed
  ultimately show ?thesis by blast
qed

subsection \<open>Attaching a new block\<close>

lemma after_balloc_low:
  assumes "layout_ok v" "fresh v V a" "unat n < unat (sb_bmapstart v)"
  shows "after_balloc v (unat a) V n = V n"
proof -
  have "unat a < unat (sb_size v)" "data_start v \<le> unat a" using assms(2) by (simp_all add: fresh_def)
  then have "n \<noteq> BBLOCK (unat a) v" "n \<noteq> a"
    using unat_BBLOCK(1) [OF assms(1)] assms(3) by (auto simp: data_start_def)
  then show ?thesis by (simp add: after_balloc_def)
qed

lemma after_balloc_is:
  assumes v: "layout_ok v" "map_ok v V" and a: "fresh v V a"
  shows "map_ok v (after_balloc v (unat a) V)" "b < unat (sb_size v) \<Longrightarrow> blk_used v (after_balloc v (unat a) V) b \<longleftrightarrow> b = unat a \<or> blk_used v V b"
    "after_balloc v (unat a) V a = replicate BSIZE 0" "data_start v \<le> unat n \<Longrightarrow> n \<noteq> a \<Longrightarrow> after_balloc v (unat a) V n = V n"
  using after_balloc_map [OF v, of "unat a"] a by (simp_all add: fresh_def word_unat_eq_iff)

lemma get32_zeros: "k < NINDIRECT \<Longrightarrow> get32 k (replicate BSIZE 0) = 0"
  by (simp add: get32_def NINDIRECT_def BSIZE_def)

lemma get_put32_block:
  assumes "length bs = BSIZE" "k < NINDIRECT"
  shows "get32 j (put32 k x bs) = (if j = k then x else get32 j bs)"
  using get_put32 [of k bs x] get_put32_other [of k j x bs] assms by (simp add: NINDIRECT_def BSIZE_def)

lemma indirect_kept:
  assumes v: "layout_ok v" "map_ok v V" and ok: "ino_ok v V ip" and a: "fresh v V a" and i: "addrs ip ! NDIRECT \<noteq> 0"
  shows "after_balloc v (unat a) V (addrs ip ! NDIRECT) = V (addrs ip ! NDIRECT)" "addrs ip ! NDIRECT \<noteq> a"
proof -
  have o: "addrs ip ! NDIRECT \<in> own V ip" by (rule own_indirect [OF i])
  then show "addrs ip ! NDIRECT \<noteq> a" using fresh_not_own [OF ok a] by auto
  then show "after_balloc v (unat a) V (addrs ip ! NDIRECT) = V (addrs ip ! NDIRECT)"
    using after_balloc_is(4) [OF v a] ino_okD(2) [OF ok o] by blast
qed

lemma attach_slot:
  assumes v: "layout_ok v" "map_ok v V" and ok: "ino_ok v V ip" and a: "fresh v V a" and k: "k \<le> NDIRECT" "addrs ip ! k = 0"
    and ip': "ip' = ip\<lparr>addrs := (addrs ip)[k := a]\<rparr>" and V': "V' = after_balloc v (unat a) V"
  shows "evolves v ip V ip' V'" "j < MAXFILE \<Longrightarrow> fblock V' ip' j = fblock V ip j" "addrs ip' ! k = a"
    "j < MAXFILE \<Longrightarrow> baddr V' ip' j = (if j = k \<and> k < NDIRECT then a else baddr V ip j)"
proof -
  note A = after_balloc_is [OF v a] and l = ino_okD(1) [OF ok]
  note K = indirect_kept [OF v ok a]
  show ak: "addrs ip' ! k = a" using k(1) l by (simp add: ip')
  show b: "baddr V' ip' j = (if j = k \<and> k < NDIRECT then a else baddr V ip j)" if j: "j < MAXFILE" for j
  proof (cases "j < NDIRECT")
    case True
    then show ?thesis using k(1) l by (auto simp: baddr_def ip' nth_list_update)
  next
    case False
    then have jj: "j - NDIRECT < NINDIRECT" using j by (simp add: MAXFILE_def)
    show ?thesis
    proof (cases "k = NDIRECT")
      case True
      then show ?thesis using False k(2) l A(3) fresh_nonzero [OF a] get32_zeros [OF jj] by (simp add: baddr_def ip' V')
    next
      case nk: False
      then show ?thesis using False k(1) l K(1) by (auto simp: baddr_def ip' V')
    qed
  qed
  have len: "length (addrs ip') = Suc NDIRECT" "ip' = ip\<lparr>addrs := addrs ip'\<rparr>" using l by (simp_all add: ip')
  have P: "j = k \<and> baddr V ip j = 0" if "j = k \<and> k < NDIRECT" for j using that k(2) by (simp add: baddr_def)
  have ind: "addrs ip' ! NDIRECT = addrs ip ! NDIRECT \<or> addrs ip' ! NDIRECT = a \<and> addrs ip ! NDIRECT = 0 \<and> (\<forall>j. \<not> (j = k \<and> k < NDIRECT))"
    using k ak by (cases "k = NDIRECT") (auto simp: ip')
  have m: "map_ok v V'" "V' a = replicate BSIZE 0" "\<And>b. b < unat (sb_size v) \<Longrightarrow> blk_used v V' b \<longleftrightarrow> b = unat a \<or> blk_used v V b"
    using A by (simp_all add: V')
  have V1: "V' n = V n" if "data_start v \<le> unat n" "unat n < unat (sb_size v)" "n \<noteq> a" "n \<noteq> addrs ip ! NDIRECT" for n
    using A(4) that by (simp add: V')
  have V2: "V' n = V n" if "unat n < unat (sb_bmapstart v)" for n using after_balloc_low [OF v(1) a that] by (simp add: V')
  have "evolves v ip V ip' V' \<and> (\<forall>j < MAXFILE. fblock V' ip' j = fblock V ip j)"
    by (rule attach [where P = "\<lambda>j. j = k \<and> k < NDIRECT" and k = k, OF ok m(1) a len]) (fact m(3) b P ind m(2) V1 V2)+
  then show "evolves v ip V ip' V'" "j < MAXFILE \<Longrightarrow> fblock V' ip' j = fblock V ip j" by blast+
qed

lemma attach_entry:
  assumes v: "layout_ok v" "map_ok v V" and ok: "ino_ok v V ip" and a: "fresh v V a" and k: "k < NINDIRECT" "addrs ip ! NDIRECT \<noteq> 0"
      "get32 k (V (addrs ip ! NDIRECT)) = 0"
    and V': "V' = (after_balloc v (unat a) V)(addrs ip ! NDIRECT := put32 k a (V (addrs ip ! NDIRECT)))"
  shows "evolves v ip V ip V'" "j < MAXFILE \<Longrightarrow> fblock V' ip j = fblock V ip j"
    "j < MAXFILE \<Longrightarrow> baddr V' ip j = (if j = NDIRECT + k then a else baddr V ip j)"
proof -
  note A = after_balloc_is [OF v a] and l = ino_okD(1) [OF ok]
  note K = indirect_kept [OF v ok a k(2)]
  let ?i = "addrs ip ! NDIRECT"
  have d: "data_start v \<le> unat ?i" using ino_okD(2) [OF ok own_indirect [OF k(2)]] by simp
  have len: "length (V ?i) = BSIZE" using v(2) by (simp add: map_ok_def)
  show b: "baddr V' ip j = (if j = NDIRECT + k then a else baddr V ip j)" if j: "j < MAXFILE" for j
    using get_put32_block [OF len k(1), of "j - NDIRECT" a] k(2) by (auto simp: baddr_def V')
  have P: "j = NDIRECT + k \<and> baddr V ip j = 0" if "j = NDIRECT + k" for j using that k by (simp add: baddr_def)
  have us: "blk_used v V' b \<longleftrightarrow> b = unat a \<or> blk_used v V b" if "b < unat (sb_size v)" for b
    using used_data [OF v(1) that d] A(2) [OF that] by (simp add: V')
  have ds: "data_start v \<le> unat (sb_size v)" using v(1) by (simp add: layout_ok_def)
  have m: "map_ok v V'" using v(2) A(1) us ds len by (auto simp: map_ok_def V')
  have Va: "V' a = replicate BSIZE 0" using A(3) K(2) by (simp add: V')
  have V1: "V' n = V n" if "data_start v \<le> unat n" "unat n < unat (sb_size v)" "n \<noteq> a" "n \<noteq> ?i" for n
    using A(4) that by (simp add: V')
  have V2: "V' n = V n" if n: "unat n < unat (sb_bmapstart v)" for n
  proof -
    have "n \<noteq> ?i" using n d by (auto simp: data_start_def)
    then show ?thesis using after_balloc_low [OF v(1) a n] by (simp add: V')
  qed
  have i: "ip = ip\<lparr>addrs := addrs ip\<rparr>" by simp
  have "evolves v ip V ip V' \<and> (\<forall>j < MAXFILE. fblock V' ip j = fblock V ip j)"
    by (rule attach [where P = "\<lambda>j. j = NDIRECT + k" and k = "NDIRECT + k", OF ok m a l i]) (fact us b P disjI1 [OF refl] Va V1 V2)+
  then show "evolves v ip V ip V'" "j < MAXFILE \<Longrightarrow> fblock V' ip j = fblock V ip j" by blast+
qed

subsection \<open>The block at a position\<close>

definition file_state :: "nat \<Rightarrow> u32 \<Rightarrow> u32 \<Rightarrow> (u32 \<Rightarrow> block) \<Rightarrow> superblock \<Rightarrow> u32 list \<Rightarrow> (u32 \<Rightarrow> block) \<Rightarrow> nat \<Rightarrow> inode \<Rightarrow> fkstate \<Rightarrow> bool" where
  "file_state cur d start D v L V i ip s \<longleftrightarrow> txn cur d start D L {} V s \<and> super s = v \<and> layout_ok v \<and> map_ok v V \<and> ino_ok v V ip \<and>
     i < length (itable (fs s)) \<and> inode_of s i = ip \<and> idev ip = d \<and> start = sb_logstart v"

lemma file_stateD:
  assumes "file_state cur d start D v L V i ip s"
  shows "txn cur d start D L {} V s" "super s = v" "layout_ok v" "map_ok v V" "ino_ok v V ip" "i < length (itable (fs s))" "inode_of s i = ip" "idev ip = d" "start = sb_logstart v"
  using assms unfolding file_state_def by blast+

lemma upd_inode_simps [simp]:
  "itable (fs (upd_inode i f s)) = (itable (fs s))[i := f (inode_of s i)]" "super (upd_inode i f s) = super s" "held (upd_inode i f s) = held s"
  "pm (upd_inode i f s) = pm s" "proc (upd_inode i f s) = proc s" "ftable (fs (upd_inode i f s)) = ftable (fs s)"
  "pipes (fs (upd_inode i f s)) = pipes (fs s)" "flog (fs (upd_inode i f s)) = flog (fs s)" "bufs (fs (upd_inode i f s)) = bufs (fs s)"
  by (simp_all add: upd_inode_def)

lemma upd_inode_const: "upd_inode i f s = upd_inode i (\<lambda>_. f (inode_of s i)) s"
  by (simp add: upd_inode_def)

lemma upd_inode_same: "inode_of s i = ip \<Longrightarrow> upd_inode i (\<lambda>_. ip) s = s"
  unfolding upd_inode_def by (rule upd_fs_id) auto

lemma upd_inode_upd [simp]: "upd_inode i (\<lambda>_. y) (upd_inode i (\<lambda>_. x) s) = upd_inode i (\<lambda>_. y) s"
  by (simp add: upd_inode_def)

lemma holds_upd_inode [simp]: "holds d (fs (upd_inode i f s)) = holds d (fs s)"
  by (simp add: holds_def fun_eq_iff)

lemma frame_upd_inode: "frame d H s t \<Longrightarrow> frame d H (upd_inode i (\<lambda>_. x) s) (upd_inode i (\<lambda>_. x) t)"
  by (simp add: frame_def)

text \<open>The steps of an operation on one inode compose.\<close>

lemma iframe_trans:
  assumes "frame d {} (upd_inode i (\<lambda>_. x) s) t" "frame d {} (upd_inode i (\<lambda>_. y) t) u"
  shows "frame d {} (upd_inode i (\<lambda>_. y) s) u"
  using frame_trans [OF frame_upd_inode [OF assms(1), of i y, simplified] assms(2)] .

lemma file_state_next:
  assumes f: "file_state cur d start D v L V i ip s" and t: "txn cur d start D L' {} V' t" and fr: "frame d {} (upd_inode i (\<lambda>_. ip') s) t"
    and e: "evolves v ip V ip' V'"
  shows "file_state cur d start D v L' V' i ip' t"
proof -
  note F = file_stateD [OF f]
  have "ip' = ip\<lparr>addrs := addrs ip'\<rparr>" using e by (simp add: evolves_def)
  from arg_cong [OF this, of idev] have "idev ip' = idev ip" by simp
  then show ?thesis using F t e frame_fields(3,4) [OF fr] by (simp add: file_state_def evolves_def)
qed

text \<open>The result of asking for a block: its number, or 0 when the disk is full.\<close>

definition full :: "superblock \<Rightarrow> (u32 \<Rightarrow> block) \<Rightarrow> bool" where
  "full v V \<longleftrightarrow> (\<forall>b < unat (sb_size v). blk_used v V b)"

lemma slot_ok:
  assumes f: "file_state cur d start D v L V i ip s" and o: "1 \<le> outstanding (flog (fs s))" and k: "k \<le> NDIRECT" and r: "length L + 1 < NBUF"
  obtains a t L' V' ip' where "bmap_slot cur i k s = Some (a, t)" "file_state cur d start D v L' V' i ip' t" "length L' \<le> length L + 2" "set L \<subseteq> set L'"
    "frame d {} (upd_inode i (\<lambda>_. ip') s) t" "evolves v ip V ip' V'" "\<forall>j < MAXFILE. fblock V' ip' j = fblock V ip j"
    "a = addrs ip' ! k" "a = 0 \<longrightarrow> full v V'"
proof -
  note F = file_stateD [OF f]
  have rf: "evolves v ip V ip V" by (rule evolves_refl [OF F(5,4)])
  show thesis
  proof (cases "addrs ip ! k = 0")
    case False
    show thesis
      by (rule that [of "addrs ip ! k" s L V ip]) (use False F rf f in \<open>simp_all add: bmap_slot_def upd_inode_same\<close>)
  next
    case True
    have lk: "locks_ok v V {}" by (simp add: locks_ok_def)
    have rr: "length L + card {} + 1 < NBUF" using r by simp
    show thesis
    proof (rule balloc_is [OF F(9,3,4) lk rr F(1,2) o])
      fix t assume full: "balloc cur d s = Some (0, t)" "txn cur d start D L {} V t" "frame d {} s t" "\<And>b. b < unat (sb_size v) \<Longrightarrow> blk_used v V b"
      have e: "frame d {} (upd_inode i (\<lambda>_. ip) s) t" using full(3) F(7) by (simp add: upd_inode_same)
      show thesis
        by (rule that [of 0 t L V ip]) (use full True F rf e file_state_next [OF f full(2) e rf] in \<open>simp_all add: bmap_slot_def full_def\<close>)
    next
      fix a t L'
      assume got: "balloc cur d s = Some (a, t)" "fresh v V a" "\<And>b. b < unat a \<Longrightarrow> blk_used v V b" "length L' \<le> length L + 2" "set L \<subseteq> set L'"
        "txn cur d start D L' {} (after_balloc v (unat a) V) t" "frame d {} s t"
      define ip' where "ip' = ip\<lparr>addrs := (addrs ip)[k := a]\<rparr>"
      define V' where "V' = after_balloc v (unat a) V"
      define u where "u = upd_inode i (\<lambda>ip. ip\<lparr>addrs := (addrs ip)[k := a]\<rparr>) t"
      have "inode_of t i = ip" using frame_fields(4) [OF got(7)] F(7) by simp
      then have u: "u = upd_inode i (\<lambda>_. ip') t" unfolding u_def ip'_def by (subst upd_inode_const) simp
      have fr: "frame d {} (upd_inode i (\<lambda>_. ip') s) u" unfolding u by (rule frame_upd_inode [OF got(7)])
      note A = attach_slot [OF F(3,4,5) got(2) k True ip'_def V'_def]
      have t: "txn cur d start D L' {} V' u" using got(6) by (simp add: u V'_def)
      have "bmap_slot cur i k s = Some (a, u)" using got(1) True F fresh_nonzero [OF got(2)] by (simp add: bmap_slot_def u_def)
      then show thesis
        by (rule that [OF _ file_state_next [OF f t fr A(1)] got(4,5) fr A(1)]) (use A(2,3) fresh_nonzero [OF got(2)] in simp_all)
    qed
  qed
qed

text \<open>Reading an entry of the indirect block, and adding one.\<close>

lemma entry_ok:
  assumes f: "file_state cur d start D v L V i ip s" and o: "1 \<le> outstanding (flog (fs s))" and k: "k < NINDIRECT" "addrs ip ! NDIRECT = ib" "ib \<noteq> 0"
    and r: "length L + 3 < NBUF"
  obtains a t L' V' where "bmap_entry cur i k ib s = Some (a, t)" "file_state cur d start D v L' V' i ip t" "length L' \<le> length L + 3" "set L \<subseteq> set L'"
    "frame d {} s t" "evolves v ip V ip V'" "\<forall>j < MAXFILE. fblock V' ip j = fblock V ip j"
    "a = get32 k (V' ib)" "a = 0 \<longrightarrow> full v V'"
proof -
  note F = file_stateD [OF f]
  have rf: "evolves v ip V ip V" by (rule evolves_refl [OF F(5,4)])
  have r0: "length L + card ({} :: u32 set) < NBUF" "finite ({} :: u32 set)" using r by simp_all
  have same: "upd_inode i (\<lambda>_. ip) s = s" by (rule upd_inode_same [OF F(7)])
  show thesis
  proof (cases "get32 k (V ib) = 0")
    case False
    obtain bp t u where b: "bread cur d ib s = Some (bp, t)" "bdata (buf_of t bp) = V ib" "brelse cur bp t = Some u" "txn cur d start D L {} V u" "frame d {} s u"
      by (rule txn_look [OF F(1) _ r0]) auto
    have "bmap_entry cur i k ib s = Some (get32 k (V ib), u)" using b(1-3) False F by (simp add: bmap_entry_def)
    moreover have "file_state cur d start D v L V i ip u" using file_state_next [OF f b(4) _ rf] b(5) same by simp
    ultimately show thesis
      by (rule that [OF _ _ _ _ b(5) rf]) (use False in simp_all)
  next
    case True
    obtain bp t where b: "bread cur d ib s = Some (bp, t)" "txn cur d start D L {ib} V t" "frame d {} s t" "holds d (fs t) bp ib" "bdata (buf_of t bp) = V ib"
      by (rule txn_bread [OF F(1) _ r0]) auto
    have it: "inode_of t i = ip" "super t = v" "1 \<le> outstanding (flog (fs t))" using frame_fields [OF b(3)] F o by simp_all
    have own: "ib \<in> own V ip" using own_indirect [of ip V] k(2,3) by simp
    have lk: "locks_ok v V {ib}" using ino_okD(2) [OF F(5) own] by (simp add: locks_ok_def)
    have rr: "length L + card {ib} + 1 < NBUF" using r by simp
    show thesis
    proof (rule balloc_is [OF F(9,3,4) lk rr b(2) it(2,3)])
      fix u assume full: "balloc cur d t = Some (0, u)" "txn cur d start D L {ib} V u" "frame d {ib} t u" "\<And>b. b < unat (sb_size v) \<Longrightarrow> blk_used v V b"
      have h: "holds d (fs u) bp ib" by (rule frame_holds [OF full(3) _ b(4)]) simp
      have cl: "ib \<in> set L \<or> V ib = D ib" using txn_clean [OF F(1), of ib] by auto
      obtain w where w: "brelse cur bp u = Some w" "txn cur d start D L {} V w" "frame d {ib} u w"
        using txn_brelse [OF full(2) _ h cl] by auto
      have fr: "frame d {} s w" using frame_trans [OF b(3) frame_subset [OF frame_trans [OF full(3) w(3)]]] by simp
      have "bmap_entry cur i k ib s = Some (0, w)" using b(1,5) True F it full(1) w(1) by (simp add: bmap_entry_def)
      moreover have "file_state cur d start D v L V i ip w" using file_state_next [OF f w(2) _ rf] fr same by simp
      ultimately show thesis by (rule that [OF _ _ _ _ fr rf]) (use True full(4) in \<open>simp_all add: full_def\<close>)
    next
      fix a u L'
      assume got: "balloc cur d t = Some (a, u)" "fresh v V a" "\<And>b. b < unat a \<Longrightarrow> blk_used v V b" "length L' \<le> length L + 2" "set L \<subseteq> set L'"
        "txn cur d start D L' {ib} (after_balloc v (unat a) V) u" "frame d {ib} t u"
      define V' where "V' = (after_balloc v (unat a) V)(addrs ip ! NDIRECT := put32 k a (V (addrs ip ! NDIRECT)))"
      have h: "holds d (fs u) bp ib" by (rule frame_holds [OF got(7) _ b(4)]) simp
      have keep: "after_balloc v (unat a) V ib = V ib" using indirect_kept(1) [OF F(3,4,5) got(2)] k by simp
      have l: "length L' < LOGBLOCKS" using got(4) r by (simp add: LOGBLOCKS_def NBUF_def)
      have o2: "1 \<le> outstanding (flog (fs u))" using frame_fields(7) [OF got(7)] it(3) by simp
      have hm: "home start ib" using home_data [OF F(3)] ino_okD(2) [OF F(5) own] F(9) by simp
      obtain w where w: "log_write bp (set_data bp (put32 k a) u) = Some w"
        "txn cur d start D (logged ib L') {ib} V' w" "frame d {ib} u w" "holds d (fs w) bp ib"
        by (rule txn_change [where f = "put32 k a", OF got(6) _ h l o2 hm]) (use keep k(2) in \<open>auto simp: V'_def\<close>)
      have "txn cur d start D (logged ib L') (insert ib {}) V' w" using w(2) by simp
      then obtain x where x: "brelse cur bp w = Some x" "txn cur d start D (logged ib L') {} V' x" "frame d {ib} w x"
        by (rule txn_brelse [OF _ _ w(4)]) auto
      have fr: "frame d {} s x"
        using frame_trans [OF b(3) frame_subset [OF frame_trans [OF got(7) frame_trans [OF w(3) x(3)]]]] by simp
      have kk: "addrs ip ! NDIRECT \<noteq> 0" "get32 k (V (addrs ip ! NDIRECT)) = 0" using k True by simp_all
      note A = attach_entry [OF F(3,4,5) got(2) k(1) kk V'_def]
      have "bmap_entry cur i k ib s = Some (a, x)"
        using b(1,5) True F it got(1) w(1) x(1) fresh_nonzero [OF got(2)] by (simp add: bmap_entry_def)
      moreover have "file_state cur d start D v (logged ib L') V' i ip x" using file_state_next [OF f x(2) _ A(1)] fr same by simp
      moreover have "length (logged ib L') \<le> length L + 3" using length_logged [of ib L'] got(4) by linarith
      moreover have "set L \<subseteq> set (logged ib L')" using got(5) by auto
      ultimately show thesis
      proof (rule that [OF _ _ _ _ fr A(1)])
        have "length (V ib) = BSIZE" using F(4) by (simp add: map_ok_def)
        then show "a = get32 k (V' ib)" using get_put32_block [OF _ k(1)] k(2) by (simp add: V'_def)
      qed (use A(2) fresh_nonzero [OF got(2)] in simp_all)
    qed
  qed
qed

lemma bmap_ok:
  assumes f: "file_state cur d start D v L V i ip s" and o: "1 \<le> outstanding (flog (fs s))" and k: "k < MAXFILE" and r: "length L + 5 < NBUF"
  obtains a t L' V' ip' where "bmap cur i k s = Some (a, t)" "file_state cur d start D v L' V' i ip' t" "length L' \<le> length L + 5" "set L \<subseteq> set L'"
    "frame d {} (upd_inode i (\<lambda>_. ip') s) t" "evolves v ip V ip' V'" "\<forall>j < MAXFILE. fblock V' ip' j = fblock V ip j"
    "a = baddr V' ip' k" "a = 0 \<longrightarrow> full v V'"
proof (cases "k < NDIRECT")
  case True
  have kd: "k \<le> NDIRECT" and r1: "length L + 1 < NBUF" using True r by simp_all
  obtain a t L' V' ip' where S: "bmap_slot cur i k s = Some (a, t)" "file_state cur d start D v L' V' i ip' t" "length L' \<le> length L + 2" "set L \<subseteq> set L'"
    "frame d {} (upd_inode i (\<lambda>_. ip') s) t" "evolves v ip V ip' V'" "\<forall>j < MAXFILE. fblock V' ip' j = fblock V ip j"
    "a = addrs ip' ! k" "a = 0 \<longrightarrow> full v V'"
    by (rule slot_ok [OF f o kd r1])
  show thesis by (rule that [OF _ S(2) _ S(4-7)]) (use S True in \<open>simp_all add: bmap_def baddr_def\<close>)
next
  case False
  have kd: "NDIRECT \<le> NDIRECT" and r1: "length L + 1 < NBUF" and kn: "k - NDIRECT < NINDIRECT" using False r k by (simp_all add: MAXFILE_def)
  obtain a t L' V' ip' where S: "bmap_slot cur i NDIRECT s = Some (a, t)" "file_state cur d start D v L' V' i ip' t" "length L' \<le> length L + 2" "set L \<subseteq> set L'"
    "frame d {} (upd_inode i (\<lambda>_. ip') s) t" "evolves v ip V ip' V'" "\<forall>j < MAXFILE. fblock V' ip' j = fblock V ip j"
    "a = addrs ip' ! NDIRECT" "a = 0 \<longrightarrow> full v V'"
    by (rule slot_ok [OF f o kd r1])
  show thesis
  proof (cases "a = 0")
    case True
    show thesis by (rule that [OF _ S(2) _ S(4-7)]) (use S True False kn in \<open>simp_all add: bmap_def baddr_def\<close>)
  next
    case nz: False
    have o1: "1 \<le> outstanding (flog (fs t))" using frame_fields(7) [OF S(5)] o by simp
    have r2: "length L' + 3 < NBUF" using S(3) r by simp
    obtain b u L2 V2 where E: "bmap_entry cur i (k - NDIRECT) a t = Some (b, u)" "file_state cur d start D v L2 V2 i ip' u" "length L2 \<le> length L' + 3" "set L' \<subseteq> set L2"
      "frame d {} t u" "evolves v ip' V' ip' V2" "\<forall>j < MAXFILE. fblock V2 ip' j = fblock V' ip' j"
      "b = get32 (k - NDIRECT) (V2 a)" "b = 0 \<longrightarrow> full v V2"
      by (rule entry_ok [OF S(2) o1 kn S(8) [symmetric] nz r2])
    have "bmap cur i k s = Some (b, u)" using False kn S(1) nz E(1) by (simp add: bmap_def)
    moreover note E(2)
    moreover have "length L2 \<le> length L + 5" "set L \<subseteq> set L2" using S(3,4) E(3,4) by auto
    moreover have "frame d {} (upd_inode i (\<lambda>_. ip') s) u" by (rule frame_trans [OF S(5) E(5)])
    moreover have "evolves v ip V ip' V2" by (rule evolves_trans [OF S(6) E(6)])
    ultimately show thesis
      by (rule that) (use S(7) E(7-9) False nz S(8) in \<open>simp_all add: baddr_def\<close>)
  qed
qed

text \<open>A block that is there is found without a change.\<close>

lemma bmap_mapped:
  assumes f: "file_state cur d start D v L V i ip s" and k: "k < MAXFILE" "baddr V ip k \<noteq> 0" and r: "length L < NBUF"
  obtains t where "bmap cur i k s = Some (baddr V ip k, t)" "file_state cur d start D v L V i ip t" "frame d {} s t"
proof -
  note F = file_stateD [OF f]
  have rf: "evolves v ip V ip V" by (rule evolves_refl [OF F(5,4)])
  have r0: "length L + card ({} :: u32 set) < NBUF" "finite ({} :: u32 set)" using r by simp_all
  show thesis
  proof (cases "k < NDIRECT")
    case True
    then show thesis using that [of s] k f F by (simp add: bmap_def bmap_slot_def baddr_def)
  next
    case False
    then have kk: "k - NDIRECT < NINDIRECT" "addrs ip ! NDIRECT \<noteq> 0" "baddr V ip k = get32 (k - NDIRECT) (V (addrs ip ! NDIRECT))"
      using k by (auto simp: MAXFILE_def baddr_def split: if_splits)
    obtain bp t u where b: "bread cur d (addrs ip ! NDIRECT) s = Some (bp, t)" "bdata (buf_of t bp) = V (addrs ip ! NDIRECT)" "brelse cur bp t = Some u"
      "txn cur d start D L {} V u" "frame d {} s u"
      by (rule txn_look [OF F(1) _ r0]) auto
    have "bmap cur i k s = Some (baddr V ip k, u)"
      using b(1-3) False kk k F by (simp add: bmap_def bmap_slot_def bmap_entry_def)
    moreover have "file_state cur d start D v L V i ip u" using file_state_next [OF f b(4) _ rf] b(5) upd_inode_same [OF F(7)] by simp
    ultimately show thesis using that b(5) by blast
  qed
qed

end
