(* ===== verification/Fs_Rw.thy ===== *)
theory Fs_Rw
  imports Fs_Content
begin

text \<open>
  \<open>readi\<close> and \<open>writei\<close> as operations on the bytes of a file. The source and the target of a copy are
  related to the bytes they give and get; a write ends early only when the disk is full.
\<close>

subsection \<open>Bytes of a file\<close>

definition fbyte :: "(u32 \<Rightarrow> block) \<Rightarrow> inode \<Rightarrow> nat \<Rightarrow> byte" where
  "fbyte V ip p = fblock V ip (p div BSIZE) ! (p mod BSIZE)"

definition fbytes :: "(u32 \<Rightarrow> block) \<Rightarrow> inode \<Rightarrow> nat \<Rightarrow> nat \<Rightarrow> byte list" where
  "fbytes V ip off n = map (fbyte V ip) [off..<off + n]"

definition contents :: "(u32 \<Rightarrow> block) \<Rightarrow> inode \<Rightarrow> byte list" where
  "contents V ip = fbytes V ip 0 (unat (isize ip))"

lemma length_fbytes [simp]: "length (fbytes V ip off n) = n"
  by (simp add: fbytes_def)

lemma fbytes_split: "fbytes V ip off (m + n) = fbytes V ip off m @ fbytes V ip (off + m) n"
  using upt_add_eq_append [of off "off + m" n] unfolding fbytes_def add.assoc [symmetric] by simp

lemma length_fblock: "map_ok v V \<Longrightarrow> length (fblock V ip k) = BSIZE"
  by (simp add: fblock_def map_ok_def)

lemma in_block:
  assumes "q < BSIZE - off mod BSIZE"
  shows "(off + q) div BSIZE = off div BSIZE" "(off + q) mod BSIZE = off mod BSIZE + q"
proof -
  have q: "off mod BSIZE + q < BSIZE" using assms by simp
  have "off + q = (off mod BSIZE + q) + BSIZE * (off div BSIZE)" by simp
  then show "(off + q) div BSIZE = off div BSIZE" "(off + q) mod BSIZE = off mod BSIZE + q"
    using q by (metis add.right_neutral add.commute div_less div_mult_self2 gr_implies_not0, metis mod_less mod_mult_self2)
qed

lemma chunk_le: "chunk off left \<le> left" "chunk off left \<le> BSIZE - off mod BSIZE" "chunk off left \<le> BSIZE"
  by (auto simp: chunk_def)

lemma block_bytes:
  assumes "map_ok v V" "m \<le> BSIZE - off mod BSIZE"
  shows "take m (drop (off mod BSIZE) (fblock V ip (off div BSIZE))) = fbytes V ip off m"
proof (rule nth_equalityI)
  have l: "length (fblock V ip (off div BSIZE)) = BSIZE" by (rule length_fblock [OF assms(1)])
  show len: "length (take m (drop (off mod BSIZE) (fblock V ip (off div BSIZE)))) = length (fbytes V ip off m)" using l assms(2) by simp
  fix q assume "q < length (take m (drop (off mod BSIZE) (fblock V ip (off div BSIZE))))"
  then have q: "q < m" using l by simp
  then show "take m (drop (off mod BSIZE) (fblock V ip (off div BSIZE))) ! q = fbytes V ip off m ! q"
    using in_block [of q off] l assms(2) by (simp add: fbytes_def fbyte_def)
qed

lemma length_poke: "k + length xs \<le> length bs \<Longrightarrow> length (poke k xs bs) = length bs"
  by (simp add: poke_def)

lemma nth_poke:
  assumes "k + length xs \<le> length bs" "p < length bs"
  shows "poke k xs bs ! p = (if k \<le> p \<and> p < k + length xs then xs ! (p - k) else bs ! p)"
  using assms by (auto simp: poke_def nth_append min_def)

text \<open>A block of the file is replaced.\<close>

lemma set_block:
  assumes v: "layout_ok v" "map_ok v V" and ok: "ino_ok v V ip" and k: "k < MAXFILE" "baddr V ip k \<noteq> 0" and x: "length x = BSIZE"
    and V': "V' = V(baddr V ip k := x)"
  shows "evolves v ip V ip V'" "j < MAXFILE \<Longrightarrow> baddr V' ip j = baddr V ip j"
    "j < MAXFILE \<Longrightarrow> fblock V' ip j = (if j = k then x else fblock V ip j)"
proof -
  note O = ino_okD [OF ok]
  have o: "baddr V ip k \<in> own V ip" by (rule own_baddr [OF k])
  have d: "data_start v \<le> unat (baddr V ip k)" using O(2) [OF o] by simp
  have ni: "baddr V ip k \<noteq> addrs ip ! NDIRECT" by (rule O(4) [OF k])
  show b: "baddr V' ip j = baddr V ip j" for j using ni by (simp add: baddr_def V')
  have own: "own V' ip = own V ip" by (simp add: own_def b)
  have us: "blk_used v V' c = blk_used v V c" if "c < unat (sb_size v)" for c using used_data [OF v(1) that d] by (simp add: V')
  have ds: "data_start v \<le> unat (sb_size v)" using v(1) by (simp add: layout_ok_def)
  have "map_ok v V'" using v(2) us ds x by (auto simp: map_ok_def V')
  moreover have "ino_ok v V' ip" using ok us by (auto simp: ino_ok_def own b)
  moreover have "V' n = V n" if "unat n < unat (sb_bmapstart v)" for n using that d by (auto simp: V' data_start_def)
  moreover have "V' n = V n" if "n \<notin> own V ip" for n using that o by (auto simp: V')
  ultimately show "evolves v ip V ip V'" by (simp add: evolves_def us b own)
  show "fblock V' ip j = (if j = k then x else fblock V ip j)" if j: "j < MAXFILE"
  proof (cases "j = k")
    case True
    then show ?thesis using k(2) b [of k] by (simp add: fblock_def) (simp add: V')
  next
    case False
    then have "baddr V ip j = 0 \<or> baddr V ip j \<noteq> baddr V ip k" using O(3) [OF j k(1)] by blast
    then show ?thesis using False b [of j] by (auto simp: fblock_def V')
  qed
qed

subsection \<open>Sources\<close>

text \<open>The bytes a copy takes from its source; a user source is mapped.\<close>

fun src_ok :: "nat \<Rightarrow> ksrc \<Rightarrow> byte list \<Rightarrow> fkstate \<Rightarrow> bool" where
  "src_ok cur (UserSrc w) xs s \<longleftrightarrow> unat w + length xs \<le> 2 ^ 38 \<and>
     (\<forall>j < length xs. upage (pm s) (pagetable (proc s ! cur)) ((unat w + j) div 4096) \<noteq> 0) \<and>
     xs = ubytes (pm s) (pagetable (proc s ! cur)) (unat w) (length xs)"
| "src_ok cur (VarSrc ys) xs s \<longleftrightarrow> ys = xs"

lemma unat_user_add:
  assumes "unat (w :: u64) + n \<le> 2 ^ 38"
  shows "unat (w + word_of_nat n) = unat w + n"
proof -
  have "unat w + n < 2 ^ 64" using assms by simp
  then show ?thesis by (simp add: unat_word_ariths unat_of_nat take_bit_eq_mod)
qed

lemma copyin_src:
  assumes "src_ok cur src xs s" "m \<le> length xs"
  obtains src' where "either_copyin cur src m s = Some (take m xs, 0, src', s)" "src_ok cur src' (drop m xs) s"
proof (cases src)
  case (UserSrc w)
  let ?pt = "pagetable (proc s ! cur)" and ?a = "unat w"
  have a: "?a + m \<le> 2 ^ 38" "\<And>j. j < length xs \<Longrightarrow> upage (pm s) ?pt ((?a + j) div 4096) \<noteq> 0" "xs = ubytes (pm s) ?pt ?a (length xs)" "?a + length xs \<le> 2 ^ 38"
    using assms UserSrc by auto
  have "copyin_loop (sz (proc s ! cur)) ?pt ?pt (word_of_nat ?a) m [] (pm s) = Some (([] @ ubytes (pm s) ?pt ?a m, True), pm s)"
    by (rule copyin_loop_ok) (use a assms(2) in auto)
  moreover have sp: "ubytes (pm s) ?pt ?a (m + (length xs - m)) = ubytes (pm s) ?pt ?a m @ ubytes (pm s) ?pt (?a + m) (length xs - m)"
    by (rule ubytes_split)
  have tk: "take m xs = ubytes (pm s) ?pt ?a m" "drop m xs = ubytes (pm s) ?pt (?a + m) (length xs - m)"
    using sp a(3) assms(2) by (metis append_eq_conv_conj le_add_diff_inverse length_ubytes)+
  ultimately have "either_copyin cur src m s = Some (take m xs, 0, UserSrc (w + word_of_nat m), s)"
    using UserSrc tk(1) by simp
  moreover have "src_ok cur (UserSrc (w + word_of_nat m)) (drop m xs) s"
    using a tk(2) assms(2) unat_user_add [OF a(1)] by (auto simp: add.assoc)
  ultimately show thesis using that by blast
next
  case (VarSrc ys)
  then show thesis using that [of "VarSrc (drop m xs)"] assms by simp
qed

lemma pagetable_frame:
  assumes "frame d H s t" "i < length (proc s)"
  shows "pagetable (proc t ! i) = pagetable (proc s ! i)" "length (proc t) = length (proc s)"
proof -
  have e: "map strip (proc t) = map strip (proc s)" using assms(1) by (simp add: frame_def)
  from arg_cong [OF e, of length] show l: "length (proc t) = length (proc s)" by simp
  with arg_cong [OF e, of "\<lambda>xs. pagetable (xs ! i)"] assms(2) show "pagetable (proc t ! i) = pagetable (proc s ! i)" by (simp add: strip_def)
qed

lemma txn_cur: "txn cur d start D L H V s \<Longrightarrow> cur < length (proc s)"
  by (auto simp: txn_def cache_is_def caller_def)

lemma src_ok_frame:
  assumes "frame d H s t" "cur < length (proc s)"
  shows "src_ok cur src xs t \<longleftrightarrow> src_ok cur src xs s"
  using pagetable_frame(1) [OF assms] frame_fields(2) [OF assms(1)] by (cases src) simp_all

lemma src_ok_upd_inode [simp]: "src_ok cur src xs (upd_inode i f s) \<longleftrightarrow> src_ok cur src xs s"
  by (cases src) simp_all

subsection \<open>Writing\<close>

text \<open>The number of blocks a range touches.\<close>

definition blocks_of :: "nat \<Rightarrow> nat \<Rightarrow> nat" where
  "blocks_of off n = (if n = 0 then 0 else (off mod BSIZE + n + BSIZE - 1) div BSIZE)"

lemma blocks_step: "0 < left \<Longrightarrow> Suc (blocks_of (off + chunk off left) (left - chunk off left)) \<le> blocks_of off left"
proof (cases "left \<le> BSIZE - off mod BSIZE")
  case True
  assume l: "0 < left"
  have "1 * BSIZE \<le> off mod BSIZE + left + BSIZE - 1" using l by simp
  then have "1 \<le> (off mod BSIZE + left + BSIZE - 1) div BSIZE" by (subst less_eq_div_iff_mult_less_eq) (simp_all add: BSIZE_def)
  then show "Suc (blocks_of (off + chunk off left) (left - chunk off left)) \<le> blocks_of off left"
    using True l by (simp add: blocks_of_def chunk_def min_def)
next
  case False
  assume l: "0 < left"
  let ?r = "off mod BSIZE"
  have r: "?r < BSIZE" by (simp add: BSIZE_def)
  have c: "chunk off left = BSIZE - ?r" using False by (simp add: chunk_def)
  have z: "(off + (BSIZE - ?r)) mod BSIZE = 0"
  proof -
    have "off + (BSIZE - ?r) = BSIZE + BSIZE * (off div BSIZE)" using r mult_div_mod_eq [of BSIZE off] by linarith
    then show ?thesis by simp
  qed
  have "?r + left + BSIZE - 1 = (left - (BSIZE - ?r) + BSIZE - 1) + BSIZE" using False r by linarith
  then have "(?r + left + BSIZE - 1) div BSIZE = Suc ((left - (BSIZE - ?r) + BSIZE - 1) div BSIZE)"
    using div_add_self2 [of BSIZE "left - (BSIZE - ?r) + BSIZE - 1"] r by (metis Suc_eq_plus1 gr_implies_not0)
  then show "Suc (blocks_of (off + chunk off left) (left - chunk off left)) \<le> blocks_of off left"
    using l unfolding c by (simp add: blocks_of_def z)
qed

text \<open>One block of the loop: the block is found or made and the chunk put into it.\<close>

lemma write_chunk:
  assumes f: "file_state cur d start D v L V i ip s" and o: "1 \<le> outstanding (flog (fs s))" and k: "k < MAXFILE" and r: "length L + 6 < NBUF"
  obtains a t L' V' ip' where "bmap cur i k s = Some (a, t)" "idev (inode_of t i) = d" "frame d {} (upd_inode i (\<lambda>_. ip') s) t" "a = 0 \<longrightarrow> full v V'"
    "file_state cur d start D v L' V' i ip' t" "length L' \<le> length L + 5" "evolves v ip V ip' V'" "\<forall>j < MAXFILE. fblock V' ip' j = fblock V ip j"
    "a \<noteq> 0 \<longrightarrow> (\<exists>b u. bread cur d a t = Some (b, u) \<and> frame d {} t u \<and> (\<forall>x. length (poke qo x (V' a)) = BSIZE \<longrightarrow> (\<exists>w y.
       log_write b (set_data b (poke qo x) u) = Some w \<and> brelse cur b w = Some y \<and>
       file_state cur d start D v (logged a L') (V'(a := poke qo x (V' a))) i ip' y \<and> frame d {} t y)))" "a = baddr V' ip' k"
proof -
  have r5: "length L + 5 < NBUF" using r by simp
  obtain a t L' V' ip' where B: "bmap cur i k s = Some (a, t)" "file_state cur d start D v L' V' i ip' t" "length L' \<le> length L + 5" "set L \<subseteq> set L'"
    "frame d {} (upd_inode i (\<lambda>_. ip') s) t" "evolves v ip V ip' V'" "\<forall>j < MAXFILE. fblock V' ip' j = fblock V ip j"
    "a = baddr V' ip' k" "a = 0 \<longrightarrow> full v V'"
    by (rule bmap_ok [OF f o k r5])
  note F = file_stateD [OF B(2)]
  have o1: "1 \<le> outstanding (flog (fs t))" using frame_fields(7) [OF B(5)] o by simp
  have r0: "length L' + card ({} :: u32 set) < NBUF" "finite ({} :: u32 set)" "length L' < LOGBLOCKS" using B(3) r by (simp_all add: NBUF_def LOGBLOCKS_def)
  have "\<exists>b u. bread cur d a t = Some (b, u) \<and> frame d {} t u \<and> (\<forall>x. length (poke qo x (V' a)) = BSIZE \<longrightarrow> (\<exists>w y.
       log_write b (set_data b (poke qo x) u) = Some w \<and> brelse cur b w = Some y \<and>
       file_state cur d start D v (logged a L') (V'(a := poke qo x (V' a))) i ip' y \<and> frame d {} t y))" if nz: "a \<noteq> 0"
  proof -
    obtain b u where b: "bread cur d a t = Some (b, u)" "frame d {} t u" "txn cur d start D L' {a} V' u" "holds d (fs u) b a"
      by (rule txn_bread [OF F(1) _ r0(1,2)]) auto
    have o2: "1 \<le> outstanding (flog (fs u))" using frame_fields(7) [OF b(2)] o1 by simp
    have hm: "home start a" using home_data [OF F(3)] ino_okD(2) [OF F(5) own_baddr [OF k]] nz B(8) F(9) by simp
    have "\<exists>w y. log_write b (set_data b (poke qo x) u) = Some w \<and> brelse cur b w = Some y \<and>
        file_state cur d start D v (logged a L') (V'(a := poke qo x (V' a))) i ip' y \<and> frame d {} t y" if x: "length (poke qo x (V' a)) = BSIZE" for x
    proof -
      obtain w where w: "log_write b (set_data b (poke qo x) u) = Some w" "txn cur d start D (logged a L') (insert a {}) (V'(a := poke qo x (V' a))) w"
          "frame d {a} u w" "holds d (fs w) b a"
        by (rule txn_change [OF b(3) _ b(4) r0(3) o2 hm]) auto
      obtain y where y: "brelse cur b w = Some y" "txn cur d start D (logged a L') {} (V'(a := poke qo x (V' a))) y" "frame d {a} w y"
        by (rule txn_brelse [OF w(2) _ w(4)]) auto
      have fr: "frame d {} t y" using frame_trans [OF b(2) frame_subset [OF frame_trans [OF w(3) y(3)]]] by simp
      have nz': "baddr V' ip' k \<noteq> 0" using nz B(8) by simp
      have "V'(a := poke qo x (V' a)) = V'(baddr V' ip' k := poke qo x (V' a))" using B(8) by simp
      note S = set_block(1) [OF F(3,4,5) k nz' x this]
      have "file_state cur d start D v (logged a L') (V'(a := poke qo x (V' a))) i ip' y"
        using file_state_next [OF B(2) y(2) _ S] fr upd_inode_same [OF F(7)] by simp
      then show ?thesis using w(1) y(1) fr by blast
    qed
    then show ?thesis using b(1,2) by blast
  qed
  then show thesis using that [of a t ip' V' L'] B F by blast
qed

text \<open>The bytes after the chunk.\<close>

lemma same_block:
  assumes "p div BSIZE = off div BSIZE"
  shows "off mod BSIZE \<le> p mod BSIZE \<longleftrightarrow> off \<le> p" "p mod BSIZE < off mod BSIZE + m \<longleftrightarrow> p < off + m"
    "off \<le> p \<Longrightarrow> p mod BSIZE - off mod BSIZE = p - off"
proof -
  have "p = BSIZE * (off div BSIZE) + p mod BSIZE" "off = BSIZE * (off div BSIZE) + off mod BSIZE"
    using mult_div_mod_eq [of BSIZE p] assms by simp_all
  then show "off mod BSIZE \<le> p mod BSIZE \<longleftrightarrow> off \<le> p" "p mod BSIZE < off mod BSIZE + m \<longleftrightarrow> p < off + m"
    "off \<le> p \<Longrightarrow> p mod BSIZE - off mod BSIZE = p - off" by linarith+
qed

lemma poked_byte:
  assumes m: "map_ok v V" and xs: "length xs \<le> BSIZE - off mod BSIZE"
    and b: "\<And>j. j < MAXFILE \<Longrightarrow> fblock V' ip j = (if j = off div BSIZE then poke (off mod BSIZE) xs (fblock V ip j) else fblock V ip j)"
    and p: "p < MAXFILE * BSIZE"
  shows "fbyte V' ip p = (if off \<le> p \<and> p < off + length xs then xs ! (p - off) else fbyte V ip p)"
proof -
  have B: "0 < BSIZE" by (simp add: BSIZE_def)
  have j: "p div BSIZE < MAXFILE" using p by (simp add: less_mult_imp_div_less)
  show ?thesis
  proof (cases "p div BSIZE = off div BSIZE")
    case True
    have l: "length (fblock V ip (off div BSIZE)) = BSIZE" by (rule length_fblock [OF m])
    have "off mod BSIZE + length xs \<le> BSIZE" using xs mod_less_divisor [OF B, of off] by linarith
    then have "off mod BSIZE + length xs \<le> length (fblock V ip (off div BSIZE))" "p mod BSIZE < length (fblock V ip (off div BSIZE))"
      using xs B by (simp_all add: l)
    from nth_poke [OF this] show ?thesis using b [OF j] same_block [OF True] True by (auto simp: fbyte_def)
  next
    case False
    have "\<not> (off \<le> p \<and> p < off + length xs)"
    proof
      assume a: "off \<le> p \<and> p < off + length xs"
      then have "(off + (p - off)) div BSIZE = off div BSIZE" using xs by (intro in_block(1)) linarith
      then show False using False a by simp
    qed
    then show ?thesis using b [OF j] False by (auto simp: fbyte_def)
  qed
qed

lemma writei_loop_ok:
  assumes "file_state cur d start D v L V i ip s" "1 \<le> outstanding (flog (fs s))" "src_ok cur src xs s" "off + length xs \<le> MAXFILE * BSIZE"
    "length L + 6 * blocks_of off (length xs) < NBUF"
  shows "\<exists>n t L' V' ip'. writei_loop cur i src off tot (length xs) s = Some (off + n, tot + n, t) \<and> n \<le> length xs \<and>
    file_state cur d start D v L' V' i ip' t \<and> length L' \<le> length L + 6 * blocks_of off (length xs) \<and>
    frame d {} (upd_inode i (\<lambda>_. ip') s) t \<and> evolves v ip V ip' V' \<and>
    (\<forall>p < MAXFILE * BSIZE. fbyte V' ip' p = (if off \<le> p \<and> p < off + n then xs ! (p - off) else fbyte V ip p)) \<and>
    (\<forall>p. off \<le> p \<and> p < off + n \<longrightarrow> baddr V' ip' (p div BSIZE) \<noteq> 0) \<and> (n < length xs \<longrightarrow> full v V')"
  using assms
proof (induction "length xs" arbitrary: xs src off tot s L V ip rule: less_induct)
  case less
  note F = file_stateD [OF less.prems(1)]
  show ?case
  proof (cases "xs = []")
    case True
    have "frame d {} (upd_inode i (\<lambda>_. ip) s) s" by (simp add: upd_inode_same [OF F(7)])
    then show ?thesis
      using less.prems(1) evolves_refl [OF F(5,4)] True
      by (intro exI [of _ 0] exI [of _ s] exI [of _ L] exI [of _ V] exI [of _ ip]) (auto simp: writei_loop.simps)
  next
    case False
    let ?k = "off div BSIZE" and ?m = "chunk off (length xs)"
    have pos: "0 < length xs" using False by simp
    have m: "0 < ?m" "?m \<le> length xs" "?m \<le> BSIZE - off mod BSIZE" using chunk_pos [OF pos] chunk_le by auto
    have bs: "Suc (blocks_of (off + ?m) (length xs - ?m)) \<le> blocks_of off (length xs)" by (rule blocks_step [OF pos])
    have k: "?k < MAXFILE" using less.prems(4) pos by (intro less_mult_imp_div_less) linarith
    have r6: "length L + 6 < NBUF" using less.prems(5) bs by linarith
    obtain a t L' V' ip' where C: "bmap cur i ?k s = Some (a, t)" "idev (inode_of t i) = d" "frame d {} (upd_inode i (\<lambda>_. ip') s) t" "a = 0 \<longrightarrow> full v V'"
      "file_state cur d start D v L' V' i ip' t" "length L' \<le> length L + 5" "evolves v ip V ip' V'" "\<forall>j < MAXFILE. fblock V' ip' j = fblock V ip j"
      "a \<noteq> 0 \<longrightarrow> (\<exists>b u. bread cur d a t = Some (b, u) \<and> frame d {} t u \<and> (\<forall>x. length (poke (off mod BSIZE) x (V' a)) = BSIZE \<longrightarrow> (\<exists>w y.
         log_write b (set_data b (poke (off mod BSIZE) x) u) = Some w \<and> brelse cur b w = Some y \<and>
         file_state cur d start D v (logged a L') (V'(a := poke (off mod BSIZE) x (V' a))) i ip' y \<and> frame d {} t y)))" "a = baddr V' ip' ?k"
      by (rule write_chunk [where k = ?k and qo = "off mod BSIZE", OF less.prems(1,2) k r6])
    note F' = file_stateD [OF C(5)]
    have same: "fbyte V' ip' p = fbyte V ip p" if "p < MAXFILE * BSIZE" for p
      using C(8) that by (simp add: fbyte_def less_mult_imp_div_less)
    show ?thesis
    proof (cases "a = 0")
      case True
      then have "writei_loop cur i src off tot (length xs) s = Some (off, tot, t)" using C(1) False by (simp add: writei_loop.simps)
      then show ?thesis
        using C(3-7) True same by (intro exI [of _ 0] exI [of _ t] exI [of _ L'] exI [of _ V'] exI [of _ ip']) (use bs in auto)
    next
      case nz: False
      obtain b u where b: "bread cur d a t = Some (b, u)" "frame d {} t u"
        "\<And>x. length (poke (off mod BSIZE) x (V' a)) = BSIZE \<Longrightarrow> \<exists>w y.
         log_write b (set_data b (poke (off mod BSIZE) x) u) = Some w \<and> brelse cur b w = Some y \<and>
         file_state cur d start D v (logged a L') (V'(a := poke (off mod BSIZE) x (V' a))) i ip' y \<and> frame d {} t y" using C(9) nz by blast
      have ct: "cur < length (proc t)" "cur < length (proc (upd_inode i (\<lambda>_. ip') s))" using txn_cur [OF F'(1)] txn_cur [OF F(1)] by simp_all
      have su: "src_ok cur src xs u" using less.prems(3) src_ok_frame [OF C(3) ct(2)] src_ok_frame [OF b(2) ct(1)] by simp
      obtain src' where src': "either_copyin cur src ?m u = Some (take ?m xs, 0, src', u)" "src_ok cur src' (drop ?m xs) u"
        by (rule copyin_src [OF su m(2)])
      have lv: "length (V' a) = BSIZE" using F'(4) by (simp add: map_ok_def)
      have om: "off mod BSIZE < BSIZE" by (simp add: BSIZE_def)
      have lp: "length (poke (off mod BSIZE) (take ?m xs) (V' a)) = BSIZE" using m om lv by (subst length_poke) simp_all
      let ?V3 = "V'(a := poke (off mod BSIZE) (take ?m xs) (V' a))"
      obtain w y where y: "log_write b (set_data b (poke (off mod BSIZE) (take ?m xs)) u) = Some w" "brelse cur b w = Some y"
        "file_state cur d start D v (logged a L') ?V3 i ip' y" "frame d {} t y" using b(3) [OF lp] by blast
      have step: "writei_loop cur i src off tot (length xs) s = writei_loop cur i src' (off + ?m) (tot + ?m) (length (drop ?m xs)) y"
        by (subst writei_loop.simps) (use C(1,2) nz b(1) src'(1) y(1,2) False in \<open>simp add: Let_def\<close>)
      have nz': "baddr V' ip' ?k \<noteq> 0" using nz C(10) by simp
      have "?V3 = V'(baddr V' ip' ?k := poke (off mod BSIZE) (take ?m xs) (V' a))" using C(10) by simp
      note S = set_block [OF F'(3,4,5) k nz' lp this]
      have o': "1 \<le> outstanding (flog (fs y))" using frame_fields(7) [OF C(3)] frame_fields(7) [OF y(4)] less.prems(2) by simp
      have sy: "src_ok cur src' (drop ?m xs) y" using src'(2) src_ok_frame [OF y(4) ct(1)] src_ok_frame [OF b(2) ct(1)] by simp
      have L6: "length (logged a L') \<le> length L + 6" using length_logged [of a L'] C(6) by linarith
      have room: "length (logged a L') + 6 * blocks_of (off + ?m) (length (drop ?m xs)) < NBUF" using L6 bs less.prems(5) by simp
      have top: "off + ?m + length (drop ?m xs) \<le> MAXFILE * BSIZE" using less.prems(4) m(2) by simp
      have dec: "length (drop ?m xs) < length xs" using m by simp
      obtain n t2 L2 V2 ip2 where I: "writei_loop cur i src' (off + ?m) (tot + ?m) (length (drop ?m xs)) y = Some (off + ?m + n, tot + ?m + n, t2)"
        "n \<le> length (drop ?m xs)" "file_state cur d start D v L2 V2 i ip2 t2" "length L2 \<le> length (logged a L') + 6 * blocks_of (off + ?m) (length (drop ?m xs))"
        "frame d {} (upd_inode i (\<lambda>_. ip2) y) t2" "evolves v ip' ?V3 ip2 V2"
        "\<forall>p < MAXFILE * BSIZE. fbyte V2 ip2 p = (if off + ?m \<le> p \<and> p < off + ?m + n then drop ?m xs ! (p - (off + ?m)) else fbyte ?V3 ip' p)"
        "\<forall>p. off + ?m \<le> p \<and> p < off + ?m + n \<longrightarrow> baddr V2 ip2 (p div BSIZE) \<noteq> 0" "n < length (drop ?m xs) \<longrightarrow> full v V2"
        using less.hyps [OF dec y(3) o' sy top room, of "tot + ?m"] by blast
      have fb: "fblock ?V3 ip' j = (if j = ?k then poke (off mod BSIZE) (take ?m xs) (fblock V' ip' j) else fblock V' ip' j)" if "j < MAXFILE" for j
        using S(3) [OF that] nz' C(10) by (simp add: fblock_def)
      have lt: "length (take ?m xs) = ?m" using m(2) by simp
      have tk: "length (take ?m xs) \<le> BSIZE - off mod BSIZE" using m(3) lt by simp
      have bytes: "fbyte ?V3 ip' p = (if off \<le> p \<and> p < off + ?m then take ?m xs ! (p - off) else fbyte V ip p)" if "p < MAXFILE * BSIZE" for p
        using poked_byte [OF F'(4) tk fb that] same [OF that] unfolding lt by simp
      have all: "\<forall>p < MAXFILE * BSIZE. fbyte V2 ip2 p = (if off \<le> p \<and> p < off + (?m + n) then xs ! (p - off) else fbyte V ip p)"
        using I(7) bytes m(2) by (auto simp: add.assoc)
      have mp: "baddr V2 ip2 (p div BSIZE) \<noteq> 0" if p: "off \<le> p \<and> p < off + (?m + n)" for p
      proof (cases "p < off + ?m")
        case True
        then have "(off + (p - off)) div BSIZE = ?k" using m(3) p by (intro in_block(1)) linarith
        then have "p div BSIZE = ?k" using p by simp
        then show ?thesis using I(6) S(2) [OF k] nz' k by (simp add: evolves_def)
      qed (use I(8) p in simp)
      have fr: "frame d {} (upd_inode i (\<lambda>_. ip2) s) t2" by (rule iframe_trans [OF frame_trans [OF C(3) y(4)] I(5)])
      have ev: "evolves v ip V ip2 V2" by (rule evolves_trans [OF C(7) evolves_trans [OF S(1) I(6)]])
      have "length L2 \<le> length L + 6 * blocks_of off (length xs)" using I(4) L6 bs by simp
      then show ?thesis
        using I(1-3,9) all mp fr ev m(2) unfolding step
        by (intro exI [of _ "?m + n"] exI [of _ t2] exI [of _ L2] exI [of _ V2] exI [of _ ip2]) (simp add: add.assoc)
    qed
  qed
qed

end
