(* ===== verification/Fs_Dinode.thy ===== *)
theory Fs_Dinode
  imports Fs_Inode
begin

unbundle bit_operations_syntax

text \<open>
  The inodes of a disk block as records: writing one and reading it back leaves the others untouched.
\<close>

subsection \<open>Fields of a block\<close>

lemma length_put16 [simp]: "length (put16 i v bs) = length bs"
  by (simp add: put16_def)

lemma get_put16:
  assumes "2 * i + 1 < length bs"
  shows "get16 i (put16 i v bs) = v"
proof (rule bit_word_eqI)
  fix n assume n: "n < LENGTH(16)"
  have g: "get16 i (put16 i v bs) = ucast (ucast v :: byte) OR push_bit 8 (ucast (ucast (drop_bit 8 v) :: byte))"
    using assms by (simp add: get16_def put16_def)
  show "bit (get16 i (put16 i v bs)) n \<longleftrightarrow> bit v n"
    using n by (cases "n < 8") (auto simp: g bit_simps)
qed

lemma get_put16_other: "i \<noteq> j \<Longrightarrow> get16 j (put16 i v bs) = get16 j bs"
proof -
  assume "i \<noteq> j"
  then have "2 * i \<noteq> 2 * j" "2 * i + 1 \<noteq> 2 * j" "2 * i \<noteq> 2 * j + 1" "2 * i + 1 \<noteq> 2 * j + 1" by presburger+
  then show ?thesis by (simp add: get16_def put16_def)
qed

lemma get16_put32: "j div 2 \<noteq> i \<Longrightarrow> get16 j (put32 i v bs) = get16 j bs"
proof -
  assume "j div 2 \<noteq> i"
  then have "4 * i + c \<noteq> 2 * j" "4 * i + c \<noteq> 2 * j + 1" if "c < 4" for c using that by presburger+
  from this [of 0] this [of 1] this [of 2] this [of 3] show ?thesis by (simp add: get16_def put32_def)
qed

lemma get32_put16: "j div 2 \<noteq> i \<Longrightarrow> get32 i (put16 j v bs) = get32 i bs"
proof -
  assume "j div 2 \<noteq> i"
  then have "2 * j \<noteq> 4 * i + c" "2 * j + 1 \<noteq> 4 * i + c" if "c < 4" for c using that by presburger+
  from this [of 0] this [of 1] this [of 2] this [of 3] show ?thesis by (simp add: get32_def put16_def)
qed

lemma length_fold_put32 [simp]: "length (fold (\<lambda>j. put32 (a + j) (f j)) [0..<n] bs) = length bs"
  by (induction n) simp_all

lemma get32_fold_put32:
  "4 * (a + n) \<le> length bs \<Longrightarrow>
    get32 j (fold (\<lambda>j. put32 (a + j) (f j)) [0..<n] bs) = (if a \<le> j \<and> j < a + n then f (j - a) else get32 j bs)"
proof (induction n)
  case (Suc n)
  let ?bs = "fold (\<lambda>j. put32 (a + j) (f j)) [0..<n] bs"
  have "get32 j (put32 (a + n) (f n) ?bs) = (if j = a + n then f n else get32 j ?bs)"
    using get_put32 [of "a + n" ?bs] get_put32_other [of "a + n" j] Suc.prems by simp
  then show ?case using Suc by auto
qed auto

lemma get16_fold_put32: "j div 2 \<notin> {a..<a + n} \<Longrightarrow> get16 j (fold (\<lambda>j. put32 (a + j) (f j)) [0..<n] bs) = get16 j bs"
proof (induction n)
  case (Suc n)
  have "j div 2 \<noteq> a + n" "j div 2 \<notin> {a..<a + n}" using Suc.prems by auto
  then show ?case using Suc.IH get16_put32 by simp
qed simp

text \<open>The fields of one inode.\<close>

definition shorts_ok :: "dinode \<Rightarrow> bool" where
  "shorts_ok d \<longleftrightarrow> short_of (di_type d) = di_type d \<and> short_of (di_major d) = di_major d \<and> short_of (di_minor d) = di_minor d \<and>
     short_of (di_nlink d) = di_nlink d \<and> length (di_addrs d) = Suc NDIRECT"

lemma enc_get:
  assumes l: "length bs = BSIZE" and k: "k < IPB" and d: "shorts_ok d" and j: "j < IPB"
  shows "c < 4 \<Longrightarrow> get16 (32 * j + c) (enc_dinode k d bs) =
      (if j = k then word_of_int ([di_type d, di_major d, di_minor d, di_nlink d] ! c) else get16 (32 * j + c) bs)"
    "2 \<le> c \<Longrightarrow> c < 16 \<Longrightarrow> get32 (16 * j + c) (enc_dinode k d bs) =
      (if j = k then (if c = 2 then di_size d else di_addrs d ! (c - 3)) else get32 (16 * j + c) bs)"
    "length (enc_dinode k d bs) = BSIZE"
proof -
  have kb: "k < 16" "j < 16" using k j by (simp_all add: IPB_def BSIZE_def)
  let ?h = "put16 (32 * k + 3) (word_of_int (di_nlink d)) (put16 (32 * k + 2) (word_of_int (di_minor d))
    (put16 (32 * k + 1) (word_of_int (di_major d)) (put16 (32 * k) (word_of_int (di_type d)) bs)))"
  let ?s = "put32 (16 * k + 2) (di_size d) ?h"
  have e: "enc_dinode k d bs = fold (\<lambda>j. put32 (16 * k + 3 + j) (di_addrs d ! j)) [0..<Suc NDIRECT] ?s"
    by (simp add: enc_dinode_def Let_def)
  have ls: "length ?s = 1024" "length ?h = 1024" using l by (simp_all add: BSIZE_def)
  have bd: "4 * (16 * k + 3 + Suc NDIRECT) \<le> length ?s" using kb ls by (simp add: NDIRECT_def)
  note f = get32_fold_put32 [OF bd, where f = "\<lambda>j. di_addrs d ! j", folded e]
  have half: "(32 * j + c) div 2 < 16 * k \<or> (32 * j + c) div 2 < 16 * k + 2 \<or> 16 * k + 16 \<le> (32 * j + c) div 2" if c: "c < 4" for c
  proof -
    have "(32 * j + c) div 2 = 16 * j + c div 2" "c div 2 < 2" using c by simp_all
    moreover have "j = k \<or> Suc j \<le> k \<or> Suc k \<le> j" by linarith
    ultimately show ?thesis by auto
  qed
  show "length (enc_dinode k d bs) = BSIZE" using l unfolding e by simp
  show "get16 (32 * j + c) (enc_dinode k d bs) =
      (if j = k then word_of_int ([di_type d, di_major d, di_minor d, di_nlink d] ! c) else get16 (32 * j + c) bs)" if c: "c < 4"
  proof -
    have "(32 * j + c) div 2 \<notin> {16 * k + 3..<16 * k + 3 + Suc NDIRECT}" "(32 * j + c) div 2 \<noteq> 16 * k + 2"
      using half [OF c] by (auto simp: NDIRECT_def)
    then have g: "get16 (32 * j + c) (enc_dinode k d bs) = get16 (32 * j + c) ?h"
      unfolding e by (rule trans [OF get16_fold_put32 get16_put32])
    show ?thesis
    proof (cases "j = k")
      case True
      have "c = 0 \<or> c = 1 \<or> c = 2 \<or> c = 3" using c by presburger
      then show ?thesis using g True kb l by (elim disjE) (simp_all add: get_put16 get_put16_other BSIZE_def)
    next
      case False
      then consider "Suc j \<le> k" | "Suc k \<le> j" by linarith
      then have "32 * j + c \<noteq> 32 * k \<and> 32 * j + c \<noteq> 32 * k + 1 \<and> 32 * j + c \<noteq> 32 * k + 2 \<and> 32 * j + c \<noteq> 32 * k + 3" using c by cases auto
      then show ?thesis using False by (simp add: g get_put16_other)
    qed
  qed
  show "get32 (16 * j + c) (enc_dinode k d bs) =
      (if j = k then (if c = 2 then di_size d else di_addrs d ! (c - 3)) else get32 (16 * j + c) bs)" if c: "2 \<le> c" "c < 16"
  proof -
    have ne: "16 * k + q \<noteq> 16 * j + c" if "q < 2" for q
    proof -
      consider "j = k" | "Suc j \<le> k" | "Suc k \<le> j" by linarith
      then show ?thesis using c that by cases linarith+
    qed
    have h: "(32 * k + r) div 2 \<noteq> 16 * j + c" if "r < 4" for r
    proof -
      have "(32 * k + r) div 2 = 16 * k + r div 2" "r div 2 < 2" using that by simp_all
      then show ?thesis using ne by simp
    qed
    have "get32 (16 * j + c) ?h = get32 (16 * j + c) bs" using h [of 0] h [of 1] h [of 2] h [of 3] by (simp add: get32_put16)
    moreover have "get32 (16 * j + c) ?s = (if 16 * j + c = 16 * k + 2 then di_size d else get32 (16 * j + c) ?h)"
      using get_put32 [of "16 * k + 2" ?h] get_put32_other [of "16 * k + 2" "16 * j + c"] kb ls by simp
    moreover have "16 * j + c = 16 * k + 2 \<longleftrightarrow> j = k \<and> c = 2"
    proof -
      consider "j = k" | "Suc j \<le> k" | "Suc k \<le> j" by linarith
      then show ?thesis using c by cases linarith+
    qed
    moreover have "16 * k + 3 \<le> 16 * j + c \<and> 16 * j + c < 16 * k + 3 + Suc NDIRECT \<longleftrightarrow> j = k \<and> c \<noteq> 2"
    proof -
      consider "j = k" | "Suc j \<le> k" | "Suc k \<le> j" by linarith
      then show ?thesis
      proof cases
        case 1
        then show ?thesis using c by (auto simp: NDIRECT_def)
      next
        case 2
        then have "\<not> 16 * k + 3 \<le> 16 * j + c" "j \<noteq> k" using c by linarith+
        then show ?thesis by simp
      next
        case 3
        then have "\<not> 16 * j + c < 16 * k + 3 + Suc NDIRECT" "j \<noteq> k" using c by (simp_all add: NDIRECT_def)
        then show ?thesis by simp
      qed
    qed
    ultimately show ?thesis using f [of "16 * j + c"] by auto
  qed
qed

lemma dec_enc_dinode:
  assumes "length bs = BSIZE" "k < IPB" "shorts_ok d" "j < IPB"
  shows "dec_dinode j (enc_dinode k d bs) = (if j = k then d else dec_dinode j bs)"
proof -
  note h = enc_get(1) [OF assms] and w = enc_get(2) [OF assms]
  have "map (\<lambda>i. get32 (16 * j + 3 + i) (enc_dinode k d bs)) [0..<Suc NDIRECT] =
      (if j = k then di_addrs d else map (\<lambda>i. get32 (16 * j + 3 + i) bs) [0..<Suc NDIRECT])"
  proof (rule nth_equalityI)
    fix i assume "i < length (map (\<lambda>i. get32 (16 * j + 3 + i) (enc_dinode k d bs)) [0..<Suc NDIRECT])"
    then have "i < 13" by (simp add: NDIRECT_def)
    then show "map (\<lambda>i. get32 (16 * j + 3 + i) (enc_dinode k d bs)) [0..<Suc NDIRECT] ! i =
      (if j = k then di_addrs d else map (\<lambda>i. get32 (16 * j + 3 + i) bs) [0..<Suc NDIRECT]) ! i"
      using w [of "3 + i"] by (simp add: NDIRECT_def add.assoc del: upt_Suc)
  qed (use assms(3) in \<open>simp add: shorts_ok_def del: upt_Suc\<close>)
  then show ?thesis
    using h [of 0] h [of 1] h [of 2] h [of 3] w [of 2] assms(3)
    by (simp add: dec_dinode_def shorts_ok_def short_of_def del: upt_Suc)
qed

end
