(* ===== verification/Fs_Calls.thy ===== *)
theory Fs_Calls
  imports Fs_Rw Fs_Dinode
begin

text \<open>
  Whole calls of \<open>iupdate\<close>, \<open>writei\<close> and \<open>readi\<close> on a locked inode in a transaction: a write
  overwrites or extends the contents and stores the inode, a read gets a slice of them.
\<close>

subsection \<open>Changes outside the data\<close>

lemma low_block:
  assumes v: "layout_ok v" "map_ok v V" and ok: "ino_ok v V ip" and n: "unat n < unat (sb_bmapstart v)" "length x = BSIZE" and V': "V' = V(n := x)"
  shows "map_ok v V'" "ino_ok v V' ip" "baddr V' ip j = baddr V ip j" "j < MAXFILE \<Longrightarrow> fblock V' ip j = fblock V ip j"
    "full v V \<Longrightarrow> full v V'"
proof -
  note O = ino_okD [OF ok]
  have us: "blk_used v V' b = blk_used v V b" if "b < unat (sb_size v)" for b
    using unat_BBLOCK(1) [OF v(1) that] n(1) by (auto simp: blk_used_def V')
  have ne: "a \<noteq> n" if "a \<in> own V ip" for a using O(2) [OF that] n(1) by (auto simp: data_start_def)
  have i: "addrs ip ! NDIRECT = 0 \<or> addrs ip ! NDIRECT \<noteq> n" using ne own_indirect by metis
  show b: "baddr V' ip j = baddr V ip j" for j using i by (auto simp: baddr_def V')
  have own: "own V' ip = own V ip" by (simp add: own_def b)
  have "data_start v \<le> unat (sb_size v)" using v(1) by (simp add: layout_ok_def)
  then show "map_ok v V'" using v(2) us n(2) by (auto simp: map_ok_def V')
  show "ino_ok v V' ip" using ok us by (auto simp: ino_ok_def own b)
  show "fblock V' ip j = fblock V ip j" if j: "j < MAXFILE"
    using ne [OF own_baddr [OF j]] b [of j] by (auto simp: fblock_def V')
  show "full v V'" if "full v V" using that us by (simp add: full_def)
qed

lemma addrs_only:
  assumes "addrs ip' = addrs ip"
  shows "baddr V ip' = baddr V ip" "fblock V ip' = fblock V ip" "fbyte V ip' = fbyte V ip" "ino_ok v V ip' = ino_ok v V ip"
proof -
  show b: "baddr V ip' = baddr V ip" by (simp add: fun_eq_iff baddr_def assms)
  then show f: "fblock V ip' = fblock V ip" by (simp add: fun_eq_iff fblock_def)
  then show "fbyte V ip' = fbyte V ip" by (simp add: fun_eq_iff fbyte_def)
  show "ino_ok v V ip' = ino_ok v V ip" by (simp add: ino_ok_def own_def b assms)
qed

lemma unat_IBLOCK:
  assumes "layout_ok v" "n < unat (sb_ninodes v)"
  shows "unat (IBLOCK n v) = unat (sb_inodestart v) + n div IPB" "unat (IBLOCK n v) < unat (sb_bmapstart v)"
proof -
  have "n div IPB \<le> unat (sb_ninodes v) div IPB" using assms(2) by (simp add: div_le_mono)
  then have l: "unat (sb_inodestart v) + n div IPB < unat (sb_bmapstart v)" using assms(1) by (simp add: layout_ok_def)
  also have "\<dots> < 2 ^ 32" by (rule unat_bound)
  finally have s: "unat (sb_inodestart v) + n div IPB < 2 ^ 32" .
  have "unat (IBLOCK n v) = (n div IPB + unat (sb_inodestart v)) mod 2 ^ 32"
    unfolding IBLOCK_def unat_word_ariths by (simp add: unat_of_nat mod_add_left_eq take_bit_eq_mod)
  then show e: "unat (IBLOCK n v) = unat (sb_inodestart v) + n div IPB" using s by simp
  show "unat (IBLOCK n v) < unat (sb_bmapstart v)" using l by (simp add: e)
qed

text \<open>A file as the calls keep it: no holes below its size, and an inode of the disk.\<close>

definition file_ok :: "superblock \<Rightarrow> (u32 \<Rightarrow> block) \<Rightarrow> inode \<Rightarrow> bool" where
  "file_ok v V ip \<longleftrightarrow> unat (isize ip) \<le> MAXFILE * BSIZE \<and> (\<forall>p < unat (isize ip). baddr V ip (p div BSIZE) \<noteq> 0) \<and>
     unat (inum ip) < unat (sb_ninodes v) \<and> shorts_ok (of_inode ip)"

definition inode_block :: "superblock \<Rightarrow> inode \<Rightarrow> u32" where
  "inode_block v ip = IBLOCK (unat (inum ip)) v"

definition stored :: "superblock \<Rightarrow> (u32 \<Rightarrow> block) \<Rightarrow> inode \<Rightarrow> bool" where
  "stored v V ip \<longleftrightarrow> dec_dinode (unat (inum ip) mod IPB) (V (inode_block v ip)) = of_inode ip"

lemma iupdate_ok:
  assumes f: "file_state cur d start D v L V i ip s" and o: "1 \<le> outstanding (flog (fs s))" and r: "length L < NBUF"
    and n: "unat (inum ip) < unat (sb_ninodes v)" "shorts_ok (of_inode ip)"
  obtains t V' where "iupdate cur i s = Some t" "file_state cur d start D v (logged (inode_block v ip) L) V' i ip t" "frame d {} s t"
    "V' = V(inode_block v ip := enc_dinode (unat (inum ip) mod IPB) (of_inode ip) (V (inode_block v ip)))" "stored v V' ip"
    "\<And>j. baddr V' ip j = baddr V ip j" "\<And>p. p < MAXFILE * BSIZE \<Longrightarrow> fbyte V' ip p = fbyte V ip p" "full v V \<Longrightarrow> full v V'"
proof -
  note F = file_stateD [OF f]
  let ?B = "inode_block v ip" and ?k = "unat (inum ip) mod IPB"
  let ?f = "enc_dinode ?k (of_inode ip)"
  have r0: "length L + card ({} :: u32 set) < NBUF" "finite ({} :: u32 set)" "length L < LOGBLOCKS" using r by (simp_all add: NBUF_def LOGBLOCKS_def)
  have hm: "home start ?B"
    unfolding F(9) inode_block_def using unat_IBLOCK(1) [OF F(3) n(1)] by (intro home_behind [OF F(3)]) simp
  obtain b t u w where b: "bread cur d ?B s = Some (b, t)" "log_write b (set_data b ?f t) = Some u" "brelse cur b u = Some w"
    "txn cur d start D (logged ?B L) {} (V(?B := ?f (V ?B))) w" "frame d {} s w"
    by (rule txn_update [where f = ?f, OF F(1) _ r0 o hm]) auto
  have k: "?k < IPB" by (simp add: IPB_def BSIZE_def)
  have l: "length (V ?B) = BSIZE" using F(4) by (simp add: map_ok_def)
  have bl: "unat ?B < unat (sb_bmapstart v)" unfolding inode_block_def by (rule unat_IBLOCK(2) [OF F(3) n(1)])
  have le: "length (?f (V ?B)) = BSIZE" by (rule enc_get(3) [OF l k n(2) k])
  note A = low_block [OF F(3,4,5) bl le refl]
  have "iupdate cur i s = Some w" using b(1-3) F by (simp add: iupdate_def Let_def inode_block_def)
  moreover have "file_state cur d start D v (logged ?B L) (V(?B := ?f (V ?B))) i ip w"
    using F b(4) A(1,2) frame_fields(3,4) [OF b(5)] by (simp add: file_state_def)
  moreover have "stored v (V(?B := ?f (V ?B))) ip" using dec_enc_dinode [OF l k n(2) k] by (simp add: stored_def)
  moreover have "fbyte (V(?B := ?f (V ?B))) ip p = fbyte V ip p" if "p < MAXFILE * BSIZE" for p
    using A(4) that by (simp add: fbyte_def less_mult_imp_div_less)
  ultimately show thesis using that b(5) A(3,5) by blast
qed

subsection \<open>A write\<close>

lemma file_state_size:
  assumes "file_state cur d start D v L V i ip s" "ip' = ip\<lparr>isize := n\<rparr>"
  shows "file_state cur d start D v L V i ip' (upd_inode i (\<lambda>_. ip') s)"
  using assms addrs_only(4) [of ip' ip v V] by (auto simp: file_state_def)

lemma poke_contents:
  assumes size: "off \<le> n" "n' = max n (off + length ys)"
    and b: "\<And>p. p < n' \<Longrightarrow> fbyte V' ip' p = (if off \<le> p \<and> p < off + length ys then ys ! (p - off) else fbyte V ip p)"
  shows "fbytes V' ip' 0 n' = poke off ys (fbytes V ip 0 n)"
proof (rule nth_equalityI)
  show l: "length (fbytes V' ip' 0 n') = length (poke off ys (fbytes V ip 0 n))" using size by (simp add: poke_def)
  fix p assume "p < length (fbytes V' ip' 0 n')"
  then have p: "p < n'" by simp
  show "fbytes V' ip' 0 n' ! p = poke off ys (fbytes V ip 0 n) ! p"
    using b [OF p] p size by (auto simp: fbytes_def poke_def nth_append min_def)
qed

lemma word_le_nat: "(a :: u32) \<le> b \<longleftrightarrow> unat a \<le> unat b"
  by (rule word_le_nat_alt)

lemma writei_ok:
  assumes f: "file_state cur d start D v L V i ip s" and ok: "file_ok v V ip" and o: "1 \<le> outstanding (flog (fs s))" and src: "src_ok cur src xs s"
    and off: "off \<le> isize ip" and n: "unat n = length xs" "unat off + length xs \<le> MAXFILE * BSIZE"
    and r: "length L + 6 * blocks_of (unat off) (length xs) + 1 < NBUF"
  obtains k t L' V' ip' where "writei cur i src off n s = Some (int k, t)" "k \<le> length xs" "k < length xs \<longrightarrow> full v V'"
    "file_state cur d start D v L' V' i ip' t" "file_ok v V' ip'" "stored v V' ip'" "contents V' ip' = poke (unat off) (take k xs) (contents V ip)"
    "length L' \<le> length L + 6 * blocks_of (unat off) (length xs) + 1" "frame d {} (upd_inode i (\<lambda>_. ip') s) t" "L' \<noteq> []"
    "\<forall>m. data_start v \<le> unat m \<and> unat m < unat (sb_size v) \<and> blk_used v V (unat m) \<and> m \<notin> own V ip \<longrightarrow> V' m = V m" "ip' = ip\<lparr>addrs := addrs ip', isize := isize ip'\<rparr>"
proof -
  let ?o = "unat off" and ?size = "unat (isize ip)"
  note F = file_stateD [OF f]
  have os: "?o \<le> ?size" using off by (simp add: word_le_nat)
  have M: "MAXFILE * BSIZE = 274432" by (simp add: MAXFILE_def NDIRECT_def NINDIRECT_def BSIZE_def)
  have sum: "unat (off + n) = ?o + length xs" using n M by (simp add: unat_word_ariths)
  have g: "\<not> off > isize ip" "\<not> off + n < off" "\<not> off + n > word_of_nat (MAXFILE * BSIZE)"
    using off sum n(2) by (simp_all add: not_less word_le_nat M unat_of_nat)
  have r1: "length L + 6 * blocks_of ?o (length xs) < NBUF" using r by simp
  obtain k t L1 V1 ip1 where W: "writei_loop cur i src ?o 0 (length xs) s = Some (?o + k, k, t)" "k \<le> length xs"
    "file_state cur d start D v L1 V1 i ip1 t" "length L1 \<le> length L + 6 * blocks_of ?o (length xs)"
    "frame d {} (upd_inode i (\<lambda>_. ip1) s) t" "evolves v ip V ip1 V1"
    "\<forall>p < MAXFILE * BSIZE. fbyte V1 ip1 p = (if ?o \<le> p \<and> p < ?o + k then xs ! (p - ?o) else fbyte V ip p)"
    "\<forall>p. ?o \<le> p \<and> p < ?o + k \<longrightarrow> baddr V1 ip1 (p div BSIZE) \<noteq> 0" "k < length xs \<longrightarrow> full v V1"
    using writei_loop_ok [OF f o src n(2) r1, of 0] by auto
  note F1 = file_stateD [OF W(3)]
  have i1: "isize ip1 = isize ip" "inum ip1 = inum ip" "of_inode ip1 = (of_inode ip)\<lparr>di_addrs := addrs ip1\<rparr>" "length (addrs ip1) = Suc NDIRECT"
  proof -
    have "ip1 = ip\<lparr>addrs := addrs ip1\<rparr>" using W(6) by (simp add: evolves_def)
    from arg_cong [OF this, of isize] arg_cong [OF this, of inum] arg_cong [OF this, of of_inode]
    show "isize ip1 = isize ip" "inum ip1 = inum ip" "of_inode ip1 = (of_inode ip)\<lparr>di_addrs := addrs ip1\<rparr>" by (simp_all add: of_inode_def)
    show "length (addrs ip1) = Suc NDIRECT" by (rule ino_okD(1) [OF F1(5)])
  qed
  define ip' where "ip' = ip1\<lparr>isize := if ?o + k > ?size then word_of_nat (?o + k) else isize ip1\<rparr>"
  define u where "u = (if ?o + k > ?size then upd_inode i (\<lambda>x. x\<lparr>isize := word_of_nat (?o + k)\<rparr>) t else t)"
  have small: "?o + k \<le> MAXFILE * BSIZE" using W(2) n(2) by simp
  have sz: "unat (isize ip') = max ?size (?o + k)" 
  proof -
    have "unat (word_of_nat (?o + k) :: u32) = ?o + k"
      using small M by (simp add: unat_of_nat take_bit_nat_eq_self del: of_nat_add)
    then show ?thesis using i1(1) by (simp add: ip'_def max_def del: of_nat_add)
  qed
  have u: "u = upd_inode i (\<lambda>_. ip') t"
    using F1(7) i1(1) unfolding u_def ip'_def by (subst (1) upd_inode_const) (auto simp: upd_inode_same)
  have fu: "file_state cur d start D v L1 V1 i ip' u" unfolding u by (rule file_state_size [OF W(3) ip'_def])
  have o1: "1 \<le> outstanding (flog (fs u))" using frame_fields(7) [OF W(5)] o by (simp add: u)
  have rl: "length L1 < NBUF" using W(4) r by simp
  have nn: "unat (inum ip') < unat (sb_ninodes v)" using ok i1(2) by (simp add: file_ok_def ip'_def)
  have sh: "shorts_ok (of_inode ip')" using ok i1(3,4) by (simp add: file_ok_def ip'_def shorts_ok_def of_inode_def)
  obtain w V2 where I: "iupdate cur i u = Some w" "file_state cur d start D v (logged (inode_block v ip') L1) V2 i ip' w" "frame d {} u w"
    "stored v V2 ip'" "\<And>j. baddr V2 ip' j = baddr V1 ip' j" "\<And>p. p < MAXFILE * BSIZE \<Longrightarrow> fbyte V2 ip' p = fbyte V1 ip' p" "full v V1 \<Longrightarrow> full v V2"
    "\<And>m. m \<noteq> inode_block v ip' \<Longrightarrow> V2 m = V1 m"
  proof (rule iupdate_ok [OF fu o1 rl nn sh])
    fix w V2
    assume a: "iupdate cur i u = Some w" "file_state cur d start D v (logged (inode_block v ip') L1) V2 i ip' w" "frame d {} u w"
      "V2 = V1(inode_block v ip' := enc_dinode (unat (inum ip') mod IPB) (of_inode ip') (V1 (inode_block v ip')))" "stored v V2 ip'"
      "\<And>j. baddr V2 ip' j = baddr V1 ip' j" "\<And>p. p < MAXFILE * BSIZE \<Longrightarrow> fbyte V2 ip' p = fbyte V1 ip' p" "full v V1 \<Longrightarrow> full v V2"
    show thesis by (rule that [OF a(1-3,5-8)]) (simp_all add: a(4))
  qed
  have ad: "addrs ip' = addrs ip1" by (simp add: ip'_def)
  note A = addrs_only(1,3) [OF ad]
  have bb: "baddr V2 ip' j = baddr V1 ip1 j" for j using I(5) [of j] A(1) [of V1] by simp
  have "writei cur i src off n s = Some (int k, w)"
    unfolding writei_def using g W(1) n(1) F(7) F1(7) i1(1) I(1) by (simp add: u_def Let_def)
  moreover have "file_ok v V2 ip'"
  proof -
    have "baddr V2 ip' (p div BSIZE) \<noteq> 0" if p: "p < unat (isize ip')" for p
    proof (cases "?o \<le> p \<and> p < ?o + k")
      case True
      then show ?thesis using W(8) by (simp add: bb)
    next
      case False
      then have q: "p < ?size" using p sz os by (auto simp: max_def split: if_splits)
      then have "p div BSIZE < MAXFILE" using ok by (intro less_mult_imp_div_less) (simp add: file_ok_def)
      then show ?thesis using q ok W(6) by (simp add: file_ok_def evolves_def bb)
    qed
    moreover have "unat (isize ip') \<le> MAXFILE * BSIZE" using sz small ok by (simp add: file_ok_def)
    ultimately show ?thesis using nn sh by (simp add: file_ok_def)
  qed
  moreover have "contents V2 ip' = poke ?o (take k xs) (contents V ip)"
    unfolding contents_def
  proof (rule poke_contents [OF os])
    show "unat (isize ip') = max ?size (?o + length (take k xs))" using sz W(2) by simp
    fix p assume "p < unat (isize ip')"
    then have "p < MAXFILE * BSIZE" using sz small ok unfolding file_ok_def by linarith
    then show "fbyte V2 ip' p = (if ?o \<le> p \<and> p < ?o + length (take k xs) then take k xs ! (p - ?o) else fbyte V ip p)"
      using I(6) W(2,7) by (auto simp: A(2))
  qed
  moreover have "length (logged (inode_block v ip') L1) \<le> length L + 6 * blocks_of ?o (length xs) + 1"
    using length_logged [of "inode_block v ip'" L1] W(4) by simp
  moreover have "frame d {} (upd_inode i (\<lambda>_. ip') s) w"
    using iframe_trans [OF W(5), of ip' w] I(3) by (simp add: u)
  moreover have "V2 m = V m" if "data_start v \<le> unat m" "unat m < unat (sb_size v)" "blk_used v V (unat m)" "m \<notin> own V ip" for m
  proof -
    have "unat (inode_block v ip') < unat (sb_bmapstart v)" unfolding inode_block_def by (rule unat_IBLOCK(2) [OF F(3) nn])
    then have "m \<noteq> inode_block v ip'" using that(1) by (auto simp: data_start_def)
    then show ?thesis using I(8) W(6) that by (simp add: evolves_def)
  qed
  moreover have "logged (inode_block v ip') L1 \<noteq> []" by (auto simp: logged_def)
  moreover have "ip' = ip\<lparr>addrs := addrs ip', isize := isize ip'\<rparr>"
  proof -
    obtain a where a: "ip1 = ip\<lparr>addrs := a\<rparr>" using W(6) by (auto simp: evolves_def)
    show ?thesis by (simp add: ip'_def a)
  qed
  ultimately show thesis using that [of k w V2] I(2,4,7) W(2,9) by blast
qed

subsection \<open>A read\<close>

text \<open>What a target must allow and what it gets: the bytes are appended to a variable, or stored in user
  memory.\<close>

fun dst_ok :: "nat \<Rightarrow> kdest \<Rightarrow> nat \<Rightarrow> fkstate \<Rightarrow> bool" where
  "dst_ok cur (UserDst w) n s \<longleftrightarrow> unat w + n \<le> 2 ^ 38 \<and> uspace (pm s) (pagetable (proc s ! cur)) \<and>
     (\<forall>j < n. writable (pm s) (pagetable (proc s ! cur)) ((unat w + j) div 4096))"
| "dst_ok cur (VarDst acc) n s \<longleftrightarrow> True"
| "dst_ok cur (PageDst pa j) n s \<longleftrightarrow> False"

fun gets :: "pmem \<Rightarrow> u64 \<Rightarrow> kdest \<Rightarrow> byte list \<Rightarrow> kdest \<Rightarrow> pmem \<Rightarrow> bool" where
  "gets m pt (UserDst w) xs dst m' \<longleftrightarrow> dst = UserDst (w + word_of_nat (length xs)) \<and> wrote m pt (unat w) xs m'"
| "gets m pt (VarDst acc) xs dst m' \<longleftrightarrow> dst = VarDst (acc @ xs) \<and> m' = m"
| "gets m pt (PageDst pa j) xs dst m' \<longleftrightarrow> False"

lemma copyout_dst:
  assumes "dst_ok cur dst n s" "length xs \<le> n"
  obtains dst' m' where "either_copyout cur dst xs s = Some (0, dst', s\<lparr>pm := m'\<rparr>)" "gets (pm s) (pagetable (proc s ! cur)) dst xs dst' m'"
    "dst_ok cur dst' (n - length xs) (s\<lparr>pm := m'\<rparr>)"
proof (cases dst)
  case (UserDst w)
  let ?pt = "pagetable (proc s ! cur)"
  have d: "unat w + n \<le> 2 ^ 38" "uspace (pm s) ?pt" "\<And>j. j < n \<Longrightarrow> writable (pm s) ?pt ((unat w + j) div 4096)" using assms(1) UserDst by auto
  obtain m' where m': "copyout (sz (proc s ! cur)) ?pt ?pt (word_of_nat (unat w)) xs (pm s) = Some (0, m')" "wrote (pm s) ?pt (unat w) xs m'"
    using copyout_ok [OF d(2), of "unat w" xs] d assms(2) by force
  have W: "upage m' ?pt k = upage (pm s) ?pt k" "entry m' ?pt va = entry (pm s) ?pt va" "subtree m' 2 ?pt = subtree (pm s) 2 ?pt" for k va
    using m'(2) wrote_upage [OF m'(2)] by (simp_all add: wrote_def)
  have u: "unat (w + word_of_nat (length xs)) = unat w + length xs" using d(1) assms(2) by (intro unat_user_add) simp
  have "dst_ok cur (UserDst (w + word_of_nat (length xs))) (n - length xs) (s\<lparr>pm := m'\<rparr>)"
    using d assms(2) by (auto simp: u W uspace_def writable_def add.assoc)
  then show thesis using that [of "UserDst (w + word_of_nat (length xs))" m'] UserDst m' by simp
next
  case (VarDst acc)
  then show thesis using that [of "VarDst (acc @ xs)" "pm s"] by simp
next
  case (PageDst pa j)
  then show thesis using assms by simp
qed

lemma gets_append:
  assumes "gets m pt dst xs dst1 m1" "gets m1 pt dst1 ys dst2 m2" "\<And>w. dst = UserDst w \<Longrightarrow> unat w + length xs \<le> 2 ^ 38"
  shows "gets m pt dst (xs @ ys) dst2 m2"
proof (cases dst)
  case (UserDst w)
  then have u: "unat (w + word_of_nat (length xs)) = unat w + length xs" using assms(3) by (intro unat_user_add) simp
  show ?thesis using assms(1,2) UserDst wrote_append [of m pt "unat w" xs m1 ys m2] by (auto simp: u)
qed (use assms in auto)

lemma dst_ok_frame:
  assumes "frame d H s t" "cur < length (proc s)"
  shows "dst_ok cur dst n t \<longleftrightarrow> dst_ok cur dst n s"
  using pagetable_frame(1) [OF assms] frame_fields(2) [OF assms(1)] by (cases dst) simp_all

lemma frame_pm: "frame d H s t \<Longrightarrow> frame d H (s\<lparr>pm := m\<rparr>) (t\<lparr>pm := m\<rparr>)"
  by (simp add: frame_def)

lemma file_state_pm [simp]: "file_state cur d start D v L V i ip (s\<lparr>pm := m\<rparr>) \<longleftrightarrow> file_state cur d start D v L V i ip s"
  by (simp add: file_state_def)

lemma pm_pm [simp]: "s\<lparr>pm := m, pm := m'\<rparr> = s\<lparr>pm := m'\<rparr>"
  by simp

lemma readi_loop_ok:
  assumes "file_state cur d start D v L V i ip s" "length L < NBUF" "dst_ok cur dst left s" "off + left \<le> MAXFILE * BSIZE"
    "\<And>p. off \<le> p \<Longrightarrow> p < off + left \<Longrightarrow> baddr V ip (p div BSIZE) \<noteq> 0"
  shows "\<exists>dst' t m'. readi_loop cur i dst off tot left s = Some (int (tot + left), dst', t) \<and> file_state cur d start D v L V i ip t \<and>
    frame d {} (s\<lparr>pm := m'\<rparr>) t \<and> gets (pm s) (pagetable (proc s ! cur)) dst (fbytes V ip off left) dst' m'"
  using assms
proof (induction left arbitrary: dst off tot s rule: less_induct)
  case (less left)
  note F = file_stateD [OF less.prems(1)]
  have B: "0 < BSIZE" by (simp add: BSIZE_def)
  show ?case
  proof (cases "left = 0")
    case True
    have "gets (pm s) (pagetable (proc s ! cur)) dst [] dst (pm s)" using less.prems(3) by (cases dst) (simp_all add: wrote_Nil)
    then show ?thesis using less.prems(1) True
      by (intro exI [of _ dst] exI [of _ s] exI [of _ "pm s"]) (simp add: readi_loop.simps fbytes_def)
  next
    case False
    let ?k = "off div BSIZE" and ?m = "chunk off left" and ?pt = "pagetable (proc s ! cur)"
    have pos: "0 < left" using False by simp
    have m: "0 < ?m" "?m \<le> left" "?m \<le> BSIZE - off mod BSIZE" using chunk_pos [OF pos] chunk_le by auto
    have k: "?k < MAXFILE" using less.prems(4) pos by (intro less_mult_imp_div_less) linarith
    have nz: "baddr V ip ?k \<noteq> 0" by (rule less.prems(5)) (use pos in simp_all)
    obtain t where t: "bmap cur i ?k s = Some (baddr V ip ?k, t)" "file_state cur d start D v L V i ip t" "frame d {} s t"
      by (rule bmap_mapped [OF less.prems(1) k nz less.prems(2)])
    note Ft = file_stateD [OF t(2)]
    have r0: "length L + card ({} :: u32 set) < NBUF" "finite ({} :: u32 set)" using less.prems(2) by simp_all
    obtain bp u where b: "bread cur d (baddr V ip ?k) t = Some (bp, u)" "txn cur d start D L {baddr V ip ?k} V u" "frame d {} t u"
      "holds d (fs u) bp (baddr V ip ?k)" "bdata (buf_of u bp) = V (baddr V ip ?k)"
      by (rule txn_bread [OF Ft(1) _ r0]) auto
    have fsu: "frame d {} s u" by (rule frame_trans [OF t(3) b(3)])
    have cs: "cur < length (proc s)" by (rule txn_cur [OF F(1)])
    let ?xs = "take ?m (drop (off mod BSIZE) (bdata (buf_of u bp)))"
    have xs: "?xs = fbytes V ip off ?m" using block_bytes [OF F(4) m(3), of ip] nz b(5) by (simp add: fblock_def)
    have lx: "length ?xs = ?m" by (simp add: xs)
    have pu: "pm u = pm s" "pagetable (proc u ! cur) = ?pt" using frame_fields(2) [OF fsu] pagetable_frame(1) [OF fsu cs] by simp_all
    have du: "dst_ok cur dst left u" using dst_ok_frame [OF fsu cs] less.prems(3) by simp
    have lm: "length ?xs \<le> left" using lx m(2) by simp
    obtain dst1 m1 where c: "either_copyout cur dst ?xs u = Some (0, dst1, u\<lparr>pm := m1\<rparr>)" "gets (pm s) ?pt dst ?xs dst1 m1"
      "dst_ok cur dst1 (left - ?m) (u\<lparr>pm := m1\<rparr>)"
      using copyout_dst [OF du lm] unfolding pu lx by metis
    have tx: "txn cur d start D L (insert (baddr V ip ?k) {}) V (u\<lparr>pm := m1\<rparr>)" using b(2) by simp
    have hx: "holds d (fs (u\<lparr>pm := m1\<rparr>)) bp (baddr V ip ?k)" using b(4) by simp
    have cl: "baddr V ip ?k \<in> set L \<or> V (baddr V ip ?k) = D (baddr V ip ?k)" using txn_clean [OF F(1), of "baddr V ip ?k"] by auto
    obtain y where y: "brelse cur bp (u\<lparr>pm := m1\<rparr>) = Some y" "txn cur d start D L {} V y" "frame d {baddr V ip ?k} (u\<lparr>pm := m1\<rparr>) y"
      by (rule txn_brelse [OF tx _ hx cl]) auto
    have fy: "frame d {} (s\<lparr>pm := m1\<rparr>) y" using frame_trans [OF frame_pm [OF fsu] frame_subset [OF y(3)]] by simp
    have fs: "file_state cur d start D v L V i ip (s\<lparr>pm := m1\<rparr>)" using less.prems(1) by simp
    have sy: "file_state cur d start D v L V i ip y"
      using file_state_next [OF fs y(2) _ evolves_refl [OF F(5,4)]] fy upd_inode_same [of "s\<lparr>pm := m1\<rparr>" i ip] F(7) by simp
    have step: "readi_loop cur i dst off tot left s = readi_loop cur i dst1 (off + ?m) (tot + ?m) (left - ?m) y"
      by (subst readi_loop.simps) (use t(1) nz Ft(7,8) b(1) c(1) y(1) False in \<open>simp add: Let_def\<close>)
    have cu: "cur < length (proc (u\<lparr>pm := m1\<rparr>))" using pagetable_frame(2) [OF fsu cs] cs by simp
    have dy: "dst_ok cur dst1 (left - ?m) y" using dst_ok_frame [OF y(3) cu] c(3) by simp
    have top: "off + ?m + (left - ?m) \<le> MAXFILE * BSIZE" using less.prems(4) m(2) by simp
    have mp: "baddr V ip (p div BSIZE) \<noteq> 0" if "off + ?m \<le> p" "p < off + ?m + (left - ?m)" for p
      using less.prems(5) [of p] that m(2) by simp
    have dec: "left - ?m < left" using m by simp
    obtain dst2 t2 m2 where I: "readi_loop cur i dst1 (off + ?m) (tot + ?m) (left - ?m) y = Some (int (tot + ?m + (left - ?m)), dst2, t2)"
      "file_state cur d start D v L V i ip t2" "frame d {} (y\<lparr>pm := m2\<rparr>) t2"
      "gets (pm y) (pagetable (proc y ! cur)) dst1 (fbytes V ip (off + ?m) (left - ?m)) dst2 m2"
      using less.IH [OF dec sy less.prems(2) dy top mp, of "tot + ?m"] by blast
    have py: "pm y = m1" "pagetable (proc y ! cur) = ?pt" using frame_fields(2) [OF fy] pagetable_frame(1) [OF fy] cs by simp_all
    have "gets (pm s) ?pt dst (fbytes V ip off ?m @ fbytes V ip (off + ?m) (left - ?m)) dst2 m2"
      by (rule gets_append [OF c(2) [unfolded xs] I(4) [unfolded py]]) (use less.prems(3) m(2) in auto)
    moreover have "fbytes V ip off ?m @ fbytes V ip (off + ?m) (left - ?m) = fbytes V ip off left"
      using fbytes_split [of V ip off ?m "left - ?m"] m(2) by simp
    moreover have "frame d {} (s\<lparr>pm := m2\<rparr>) t2" using frame_trans [OF frame_pm [OF fy, of m2] I(3)] by simp
    ultimately show ?thesis using I(1,2) m(2) unfolding step
      by (intro exI [of _ dst2] exI [of _ t2] exI [of _ m2]) simp
  qed
qed

lemma readi_ok:
  assumes f: "file_state cur d start D v L V i ip s" and ok: "file_ok v V ip" and r: "length L < NBUF" and n: "unat off + unat n \<le> unat (isize ip)"
    and dst: "dst_ok cur dst (unat n) s"
  obtains dst' t m' where "readi cur i dst off n s = Some (int (unat n), dst', t)" "file_state cur d start D v L V i ip t" "frame d {} (s\<lparr>pm := m'\<rparr>) t"
    "gets (pm s) (pagetable (proc s ! cur)) dst (take (unat n) (drop (unat off) (contents V ip))) dst' m'"
proof -
  note F = file_stateD [OF f]
  have M: "MAXFILE * BSIZE = 274432" by (simp add: MAXFILE_def NDIRECT_def NINDIRECT_def BSIZE_def)
  have sz: "unat (isize ip) \<le> MAXFILE * BSIZE" "\<And>p. p < unat (isize ip) \<Longrightarrow> baddr V ip (p div BSIZE) \<noteq> 0" using ok by (simp_all add: file_ok_def)
  have sum: "unat (off + n) = unat off + unat n" using n sz(1) M by (simp add: unat_word_ariths)
  have g: "\<not> off > isize ip" "\<not> off + n < off" "\<not> off + n > isize ip" using n sum by (simp_all add: not_less word_le_nat)
  have top: "unat off + unat n \<le> MAXFILE * BSIZE" using n sz(1) by simp
  have mp: "baddr V ip (p div BSIZE) \<noteq> 0" if "unat off \<le> p" "p < unat off + unat n" for p using sz(2) that n by simp
  have b: "take (unat n) (drop (unat off) (contents V ip)) = fbytes V ip (unat off) (unat n)"
    by (rule nth_equalityI) (use n in \<open>auto simp: contents_def fbytes_def\<close>)
  have "readi cur i dst off n s = readi_loop cur i dst (unat off) 0 (unat n) s" using g F(7) by (simp add: readi_def Let_def)
  then show thesis using readi_loop_ok [OF f r dst top mp, of 0] that unfolding b by auto
qed

end
