(* ===== verification/Fs_Pipe.thy ===== *)
theory Fs_Pipe
  imports Fs_State Kern_Copy "HOL-Library.Monad_Syntax"
begin

text \<open>
  Pipes, \<^verbatim>\<open>kernel/pipe.c\<close>: a ring of 512 bytes between two free-running 32-bit counters. A call that
  has to sleep stops there and is continued by its \<open>resume\<close> function. The ring is an instance of a
  bounded queue, whose contract is the locale \<open>bounded_fifo\<close>; the lemmas on whole calls rest on it.
\<close>

subsection \<open>Operations\<close>

definition pi_lock :: "u64 \<Rightarrow> lockid" where "pi_lock a = OtherLock (4 * unat a + 3)"
definition ChRead :: "u64 \<Rightarrow> channel" where "ChRead a = ChOther (8 * unat a + 3)"
definition ChWrite :: "u64 \<Rightarrow> channel" where "ChWrite a = ChOther (8 * unat a + 7)"

abbreviation pipe_of :: "fkstate \<Rightarrow> u64 \<Rightarrow> pipe" where
  "pipe_of s a \<equiv> pipes (fs s) a"

text \<open>The initialisation of the page \<open>pipealloc\<close> gets; \<open>d\<close> is what the page held.\<close>

definition pipe_init :: "byte list \<Rightarrow> pipe" where
  "pipe_init d = \<lparr>pdata = d, nread = 0, nwrite = 0, readopen = 1, writeopen = 1\<rparr>"

definition pipeclose :: "nat \<Rightarrow> u64 \<Rightarrow> bool \<Rightarrow> fkstate \<Rightarrow> fkstate option" where
  "pipeclose cur pa wr s = do {
     s \<leftarrow> k_acquire (pi_lock pa) s;
     s \<leftarrow> (if wr then wakeup (Some cur) (ChRead pa) (upd_pipe pa (\<lambda>p. p\<lparr>writeopen := 0\<rparr>) s)
          else wakeup (Some cur) (ChWrite pa) (upd_pipe pa (\<lambda>p. p\<lparr>readopen := 0\<rparr>) s));
     if readopen (pipe_of s pa) = 0 \<and> writeopen (pipe_of s pa) = 0 then do {
       s \<leftarrow> k_release (pi_lock pa) s;
       m \<leftarrow> kfree pa (pm s);
       Some (s\<lparr>pm := m\<rparr>)
     }
     else k_release (pi_lock pa) s
   }"

definition pipe_full :: "pipe \<Rightarrow> bool" where
  "pipe_full p \<longleftrightarrow> nwrite p = nread p + of_nat PIPESIZE"

definition pipe_empty :: "pipe \<Rightarrow> bool" where
  "pipe_empty p \<longleftrightarrow> nread p = nwrite p"

text \<open>\<^verbatim>\<open>pi->data[pi->nwrite++ % PIPESIZE] = ch\<close>\<close>

definition pipe_put :: "byte \<Rightarrow> pipe \<Rightarrow> pipe" where
  "pipe_put ch p = p\<lparr>pdata := (pdata p)[unat (nwrite p) mod PIPESIZE := ch], nwrite := nwrite p + 1\<rparr>"

text \<open>\<^verbatim>\<open>ch = pi->data[pi->nread % PIPESIZE]\<close>\<close>

definition pipe_peek :: "pipe \<Rightarrow> byte" where
  "pipe_peek p = pdata p ! (unat (nread p) mod PIPESIZE)"

definition pipe_next :: "pipe \<Rightarrow> pipe" where
  "pipe_next p = p\<lparr>nread := nread p + 1\<rparr>"

text \<open>Where a \<open>pipewrite\<close> stands after a turn: done with its result, or asleep after so many bytes.\<close>

datatype pwrite = PwDone int | PwSleep int

definition pipewrite_end :: "nat \<Rightarrow> u64 \<Rightarrow> int \<Rightarrow> fkstate \<Rightarrow> (pwrite \<times> fkstate) option" where
  "pipewrite_end cur pa i s = do {
     s \<leftarrow> wakeup (Some cur) (ChRead pa) s;
     s \<leftarrow> k_release (pi_lock pa) s;
     Some (PwDone i, s)
   }"

function pipewrite_loop :: "nat \<Rightarrow> u64 \<Rightarrow> u64 \<Rightarrow> int \<Rightarrow> int \<Rightarrow> fkstate \<Rightarrow> (pwrite \<times> fkstate) option" where
  "pipewrite_loop cur pa addr n i s =
     (if i < n then do {
        (k, s) \<leftarrow> (if readopen (pipe_of s pa) = 0 then Some (1, s) else is_killed cur s);
        if k \<noteq> 0 then do { s \<leftarrow> k_release (pi_lock pa) s; Some (PwDone (-1), s) }
        else if pipe_full (pipe_of s pa) then do {
          s \<leftarrow> wakeup (Some cur) (ChRead pa) s;
          s \<leftarrow> sleep cur (ChWrite pa) (pi_lock pa) s;
          Some (PwSleep i, s)
        }
        else do {
          (c, m) \<leftarrow> copyin (sz (proc s ! cur)) (pagetable (proc s ! cur)) (pagetable (proc s ! cur)) (addr + word_of_int i) 1 (pm s);
          (case c of
             None \<Rightarrow> pipewrite_end cur pa i (s\<lparr>pm := m\<rparr>)
           | Some bs \<Rightarrow> pipewrite_loop cur pa addr n (i + 1) (upd_pipe pa (pipe_put (hd bs)) (s\<lparr>pm := m\<rparr>)))
        }
      }
      else pipewrite_end cur pa i s)"
  by pat_completeness auto
termination
  by (relation "measure (\<lambda>(_, _, _, n, i, _). nat (n - i))") auto

definition pipewrite :: "nat \<Rightarrow> u64 \<Rightarrow> u64 \<Rightarrow> int \<Rightarrow> fkstate \<Rightarrow> (pwrite \<times> fkstate) option" where
  "pipewrite cur pa addr n s = Option.bind (k_acquire (pi_lock pa) s) (pipewrite_loop cur pa addr n 0)"

definition pipewrite_resume :: "nat \<Rightarrow> u64 \<Rightarrow> u64 \<Rightarrow> int \<Rightarrow> int \<Rightarrow> fkstate \<Rightarrow> (pwrite \<times> fkstate) option" where
  "pipewrite_resume cur pa addr n i s = Option.bind (sleep_resume cur (pi_lock pa) s) (pipewrite_loop cur pa addr n i)"

text \<open>The copying loop of \<open>piperead\<close>: the value of \<open>i\<close> it ends with.\<close>

function piperead_copy :: "nat \<Rightarrow> u64 \<Rightarrow> u64 \<Rightarrow> int \<Rightarrow> int \<Rightarrow> fkstate \<Rightarrow> (int \<times> fkstate) option" where
  "piperead_copy cur pa addr n i s =
     (if i < n \<and> \<not> pipe_empty (pipe_of s pa) then do {
        (e, m) \<leftarrow> copyout (sz (proc s ! cur)) (pagetable (proc s ! cur)) (pagetable (proc s ! cur)) (addr + word_of_int i)
                    [pipe_peek (pipe_of s pa)] (pm s);
        let s = s\<lparr>pm := m\<rparr>;
        if e = -1 then Some (if i = 0 then -1 else i, s)
        else piperead_copy cur pa addr n (i + 1) (upd_pipe pa pipe_next s)
      }
      else Some (i, s))"
  by pat_completeness auto
termination
  by (relation "measure (\<lambda>(_, _, _, n, i, _). nat (n - i))") auto

definition piperead_turn :: "nat \<Rightarrow> u64 \<Rightarrow> u64 \<Rightarrow> int \<Rightarrow> fkstate \<Rightarrow> (int outcome \<times> fkstate) option" where
  "piperead_turn cur pa addr n s =
     (if pipe_empty (pipe_of s pa) \<and> writeopen (pipe_of s pa) \<noteq> 0 then do {
        (k, s) \<leftarrow> is_killed cur s;
        if k \<noteq> 0 then do { s \<leftarrow> k_release (pi_lock pa) s; Some (Return (-1), s) }
        else do { s \<leftarrow> sleep cur (ChRead pa) (pi_lock pa) s; Some (Blocked, s) }
      }
      else do {
        (i, s) \<leftarrow> piperead_copy cur pa addr n 0 s;
        s \<leftarrow> wakeup (Some cur) (ChWrite pa) s;
        s \<leftarrow> k_release (pi_lock pa) s;
        Some (Return i, s)
      })"

definition piperead :: "nat \<Rightarrow> u64 \<Rightarrow> u64 \<Rightarrow> int \<Rightarrow> fkstate \<Rightarrow> (int outcome \<times> fkstate) option" where
  "piperead cur pa addr n s = Option.bind (k_acquire (pi_lock pa) s) (piperead_turn cur pa addr n)"

definition piperead_resume :: "nat \<Rightarrow> u64 \<Rightarrow> u64 \<Rightarrow> int \<Rightarrow> fkstate \<Rightarrow> (int outcome \<times> fkstate) option" where
  "piperead_resume cur pa addr n s = Option.bind (sleep_resume cur (pi_lock pa) s) (piperead_turn cur pa addr n)"

declare pipewrite_loop.simps [simp del] piperead_copy.simps [simp del]

subsection \<open>The ring as a bounded queue\<close>

text \<open>What the calls rely on: a queue of at most \<open>cap\<close> elements, with tests for full and empty.\<close>

locale bounded_fifo =
  fixes ok :: "'p \<Rightarrow> bool" and content :: "'p \<Rightarrow> 'b list" and cap :: nat
    and put :: "'b \<Rightarrow> 'p \<Rightarrow> 'p" and front :: "'p \<Rightarrow> 'b" and rest :: "'p \<Rightarrow> 'p"
    and is_full :: "'p \<Rightarrow> bool" and is_empty :: "'p \<Rightarrow> bool"
  assumes content_cap: "ok p \<Longrightarrow> length (content p) \<le> cap"
    and full_iff: "ok p \<Longrightarrow> is_full p \<longleftrightarrow> length (content p) = cap"
    and empty_iff: "ok p \<Longrightarrow> is_empty p \<longleftrightarrow> content p = []"
    and ok_put: "ok p \<Longrightarrow> \<not> is_full p \<Longrightarrow> ok (put b p)"
    and content_put: "ok p \<Longrightarrow> \<not> is_full p \<Longrightarrow> content (put b p) = content p @ [b]"
    and ok_rest: "ok p \<Longrightarrow> \<not> is_empty p \<Longrightarrow> ok (rest p)"
    and content_rest: "ok p \<Longrightarrow> \<not> is_empty p \<Longrightarrow> content p = front p # content (rest p)"
begin

lemma puts:
  assumes "ok p" "length (content p) + length bs \<le> cap"
  shows "ok (fold put bs p)" "content (fold put bs p) = content p @ bs"
proof -
  have "ok (fold put bs p) \<and> content (fold put bs p) = content p @ bs"
    using assms
  proof (induction bs arbitrary: p)
    case (Cons b bs)
    then have nf: "\<not> is_full p" using full_iff [of p] by simp
    show ?case using Cons.IH [of "put b p"] Cons.prems ok_put [OF Cons.prems(1) nf] content_put [OF Cons.prems(1) nf]
      by simp
  qed simp
  then show "ok (fold put bs p)" "content (fold put bs p) = content p @ bs" by simp_all
qed

lemma rests:
  assumes "ok p" "k \<le> length (content p)"
  shows "ok ((rest ^^ k) p)" "content ((rest ^^ k) p) = drop k (content p)"
proof -
  have "ok ((rest ^^ k) p) \<and> content ((rest ^^ k) p) = drop k (content p)"
    using assms(2)
  proof (induction k)
    case (Suc k)
    let ?q = "(rest ^^ k) p"
    have q: "ok ?q" "content ?q = drop k (content p)" using Suc by simp_all
    then have ne: "\<not> is_empty ?q" using empty_iff [of ?q] Suc.prems by simp
    have "drop (Suc k) (content p) = content (rest ?q)"
      using content_rest [OF q(1) ne] q(2) by (metis drop_Suc list.sel(3) tl_drop)
    then show ?case using ok_rest [OF q(1) ne] by simp
  qed (use assms(1) in simp)
  then show "ok ((rest ^^ k) p)" "content ((rest ^^ k) p) = drop k (content p)" by simp_all
qed

lemma front_hd: "ok p \<Longrightarrow> content p \<noteq> [] \<Longrightarrow> front p = hd (content p)"
  using content_rest [of p] empty_iff [of p] by simp

end

definition pipe_content :: "pipe \<Rightarrow> byte list" where
  "pipe_content p = map (\<lambda>k. pdata p ! ((unat (nread p) + k) mod PIPESIZE)) [0..<unat (nwrite p - nread p)]"

definition pipe_ok :: "pipe \<Rightarrow> bool" where
  "pipe_ok p \<longleftrightarrow> length (pdata p) = PIPESIZE \<and> unat (nwrite p - nread p) \<le> PIPESIZE"

lemma ring_index: "unat (x + of_nat k :: u32) mod PIPESIZE = (unat x + k) mod PIPESIZE"
proof -
  have "unat (x + of_nat k) = (unat x + k) mod 2 ^ 32"
    by (simp add: unat_word_ariths unat_of_nat take_bit_eq_mod mod_add_right_eq)
  then show ?thesis by (simp add: PIPESIZE_def mod_mod_cancel)
qed

lemma pipe_put_ok:
  assumes "pipe_ok p" "\<not> pipe_full p"
  shows "pipe_ok (pipe_put b p)" "pipe_content (pipe_put b p) = pipe_content p @ [b]"
proof -
  define d where "d = unat (nwrite p - nread p)"
  have d: "d < PIPESIZE" "nwrite p = nread p + of_nat d"
  proof -
    show w: "nwrite p = nread p + of_nat d" by (simp add: d_def)
    have "d \<noteq> PIPESIZE" using assms(2) w by (auto simp: pipe_full_def)
    then show "d < PIPESIZE" using assms(1) by (simp add: pipe_ok_def d_def)
  qed
  have s: "unat (nwrite p + 1 - nread p) = Suc d"
  proof -
    have "nwrite p + 1 - nread p = of_nat (Suc d)" by (simp add: d(2))
    then show ?thesis using d(1) by (simp only: unat_of_nat) (simp add: PIPESIZE_def take_bit_nat_eq_self)
  qed
  show "pipe_ok (pipe_put b p)" using assms(1) d(1) s by (simp add: pipe_ok_def pipe_put_def)
  have l: "length (pdata p) = PIPESIZE" using assms(1) by (simp add: pipe_ok_def)
  have ix: "unat (nwrite p) mod PIPESIZE = (unat (nread p) + d) mod PIPESIZE"
    unfolding d(2) by (rule ring_index)
  have ne: "(unat (nread p) + k) mod PIPESIZE \<noteq> (unat (nread p) + d) mod PIPESIZE" if "k < d" for k
  proof
    assume "(unat (nread p) + k) mod PIPESIZE = (unat (nread p) + d) mod PIPESIZE"
    then have "(unat (nread p) + k) mod PIPESIZE = (unat (nread p) + k + (d - k)) mod PIPESIZE" using that by simp
    then have "PIPESIZE dvd (d - k)" using mod_eq_dvd_iff_nat [of "unat (nread p) + k" "unat (nread p) + k + (d - k)" PIPESIZE]
      by (metis add_diff_cancel_left' le_add1)
    then show False using that d(1) by (simp add: nat_dvd_not_less)
  qed
  show "pipe_content (pipe_put b p) = pipe_content p @ [b]"
    using ne l s d(1) by (auto simp: pipe_content_def pipe_put_def ix d_def [symmetric] nth_list_update) (metis ne)
qed

lemma pipe_next_ok:
  assumes "pipe_ok p" "\<not> pipe_empty p"
  shows "pipe_ok (pipe_next p)" "pipe_content p = pipe_peek p # pipe_content (pipe_next p)"
proof -
  define d where "d = unat (nwrite p - nread p)"
  have nz: "nwrite p - nread p \<noteq> 0" using assms(2) by (simp add: pipe_empty_def)
  have s: "unat (nwrite p - (nread p + 1)) = d - 1"
    using nz unat_minus_one [of "nwrite p - nread p"] by (simp add: d_def diff_diff_eq)
  have d: "0 < d" using nz by (simp add: d_def unat_gt_0)
  show "pipe_ok (pipe_next p)" using assms(1) s unfolding pipe_ok_def pipe_next_def d_def by simp linarith
  have n: "unat (nread p + 1) mod PIPESIZE = (unat (nread p) + 1) mod PIPESIZE" using ring_index [of "nread p" 1] by simp
  have ix: "(unat (nread p + 1) + k) mod PIPESIZE = (unat (nread p) + Suc k) mod PIPESIZE" for k
    by (metis add.commute add_Suc_right n mod_add_cong Suc_eq_plus1 add_Suc_shift)
  have "[0..<d] = 0 # map Suc [0..<d - 1]" using d by (simp add: map_Suc_upt upt_conv_Cons)
  then show "pipe_content p = pipe_peek p # pipe_content (pipe_next p)"
    by (simp add: pipe_content_def pipe_peek_def pipe_next_def d_def [symmetric] s ix)
qed

interpretation pipes: bounded_fifo pipe_ok pipe_content PIPESIZE pipe_put pipe_peek pipe_next pipe_full pipe_empty
proof
  fix p b assume ok: "pipe_ok p"
  have l: "length (pipe_content p) = unat (nwrite p - nread p)" by (simp add: pipe_content_def)
  show "length (pipe_content p) \<le> PIPESIZE" using ok l by (simp add: pipe_ok_def)
  have "pipe_full p \<longleftrightarrow> nwrite p - nread p = of_nat PIPESIZE" by (auto simp: pipe_full_def algebra_simps)
  also have "\<dots> \<longleftrightarrow> unat (nwrite p - nread p) = PIPESIZE" by (auto simp: word_unat_eq_iff PIPESIZE_def)
  finally show "pipe_full p \<longleftrightarrow> length (pipe_content p) = PIPESIZE" using l by simp
  show "pipe_empty p \<longleftrightarrow> pipe_content p = []"
    using l unat_eq_zero [of "nwrite p - nread p"] by (auto simp: pipe_empty_def simp flip: length_0_conv)
  show "pipe_ok (pipe_put b p)" "pipe_content (pipe_put b p) = pipe_content p @ [b]" if "\<not> pipe_full p"
    using pipe_put_ok [OF ok that] by simp_all
  show "pipe_ok (pipe_next p)" "pipe_content p = pipe_peek p # pipe_content (pipe_next p)" if "\<not> pipe_empty p"
    using pipe_next_ok [OF ok that] by simp_all
qed

subsection \<open>Whole calls\<close>

lemma upd_pipe_simps [simp]:
  "proc (upd_pipe a f s) = proc s" "held (upd_pipe a f s) = held s" "pm (upd_pipe a f s) = pm s"
  "pipes (fs (upd_pipe a f s)) = (pipes (fs s))(a := f (pipe_of s a))"
  by (simp_all add: upd_pipe_def)

lemma upd_pipe_upd_pipe: "upd_pipe a f (upd_pipe a g s) = upd_pipe a (\<lambda>p. f (g p)) s"
  by (simp add: upd_pipe_def)

lemma upd_pipe_held [simp]: "upd_pipe a f (s\<lparr>held := H\<rparr>) = (upd_pipe a f s)\<lparr>held := H\<rparr>"
  by (simp add: upd_pipe_def)

lemma upd_pipe_pm: "upd_pipe a f (s\<lparr>pm := m\<rparr>) = (upd_pipe a f s)\<lparr>pm := m\<rparr>"
  by (simp add: upd_pipe_def upd_fs_def)

lemma upd_pipe_id: "f (pipe_of s a) = pipe_of s a \<Longrightarrow> upd_pipe a f s = s"
  by (simp add: upd_pipe_def upd_fs_def)

lemma wake_upd_pipe: "wake c ch (upd_pipe a f s) = upd_pipe a f (wake c ch s)"
  by (simp add: upd_pipe_def)

lemma pi_lock_neq [simp]: "pi_lock a \<noteq> ProcLock i" "ProcLock i \<noteq> pi_lock a"
  by (simp_all add: pi_lock_def)

lemma copyin_byte:
  assumes "a < 2 ^ 38" "upage m pt (a div 4096) \<noteq> 0"
  shows "copyin z pt pt (word_of_nat a) 1 m = Some (Some [ubyte m pt a], m)"
  using copyin_loop_ok [of a 1 m pt z pt "[]"] assms by (simp add: copyin_def ubytes_def)

text \<open>The state in which the bytes \<open>bs\<close> have been put, the readers woken, and the call has ended or
  has gone to sleep because the ring is full.\<close>

definition put_state :: "nat \<Rightarrow> u64 \<Rightarrow> byte list \<Rightarrow> bool \<Rightarrow> fkstate \<Rightarrow> fkstate" where
  "put_state cur pa bs done s =
     (let t = (wake (Some cur) (ChRead pa) (upd_pipe pa (fold pipe_put bs) s))\<lparr>held := {}\<rparr> in
      if done then t else upd_p cur (\<lambda>p. p\<lparr>chan := Some (ChWrite pa), state := SLEEPING\<rparr>) t)"

lemma put_state_pipe: "pipe_of (put_state cur pa bs done s) pa = fold pipe_put bs (pipe_of s pa)"
  by (simp add: put_state_def Let_def)

lemma put_state_frame [simp]: "pm (put_state cur pa bs done s) = pm s" "held (put_state cur pa bs done s) = {}"
  "length (proc (put_state cur pa bs done s)) = length (proc s)"
  by (simp_all add: put_state_def Let_def)

lemma put_state_step: "put_state cur pa bs done (upd_pipe pa (pipe_put b) s) = put_state cur pa (b # bs) done s"
  by (simp add: put_state_def upd_pipe_upd_pipe comp_def)

definition writer_ok :: "nat \<Rightarrow> u64 \<Rightarrow> nat \<Rightarrow> nat \<Rightarrow> fkstate \<Rightarrow> bool" where
  "writer_ok cur pa a n s \<longleftrightarrow> pipe_ok (pipe_of s pa) \<and> readopen (pipe_of s pa) \<noteq> 0 \<and> killed (proc s ! cur) = 0 \<and>
     length (proc s) = NPROC \<and> cur < NPROC \<and> a + n \<le> 2 ^ 38 \<and>
     (\<forall>i < n. upage (pm s) (pagetable (proc s ! cur)) ((a + i) div 4096) \<noteq> 0)"

lemma readopen_put [simp]: "readopen (pipe_put b p) = readopen p"
  by (simp add: pipe_put_def)

lemma pipewrite_loop_ok:
  assumes "writer_ok cur pa a n s" "held s = {pi_lock pa}" "j \<le> n"
    and "k = min (n - j) (PIPESIZE - length (pipe_content (pipe_of s pa)))"
  shows "pipewrite_loop cur pa (word_of_nat a) (int n) (int j) s =
    Some (if j + k = n then PwDone (int n) else PwSleep (int (j + k)),
          put_state cur pa (ubytes (pm s) (pagetable (proc s ! cur)) (a + j) k) (j + k = n) s)"
  using assms
proof (induction "n - j" arbitrary: j k s)
  case 0
  then have j: "j = n" "k = 0" by simp_all
  have w: "wakeup (Some cur) (ChRead pa) s = Some (wake (Some cur) (ChRead pa) s)"
    using "0.prems"(1,2) by (intro wakeup_eq) (auto simp: writer_ok_def)
  show ?case using "0.prems"(2) by (simp add: j pipewrite_loop.simps pipewrite_end_def w put_state_def Let_def upd_pipe_id ubytes_def)
next
  case (Suc x)
  note W = Suc.prems(1) [unfolded writer_ok_def]
  let ?pt = "pagetable (proc s ! cur)" and ?p = "pipe_of s pa"
  have jn: "j < n" using Suc.hyps(2) by simp
  have kl: "is_killed cur s = Some (0, s)" using W Suc.prems(2) by (simp add: is_killed_eq)
  show ?case
  proof (cases "pipe_full ?p")
    case True
    then have k: "k = 0" using Suc.prems(4) pipes.full_iff [of ?p] W by simp
    have w: "wakeup (Some cur) (ChRead pa) s = Some (wake (Some cur) (ChRead pa) s)"
      using W Suc.prems(2) by (intro wakeup_eq) auto
    have "sleep cur (ChWrite pa) (pi_lock pa) (wake (Some cur) (ChRead pa) s) =
        Some ((upd_p cur (\<lambda>p. p\<lparr>chan := Some (ChWrite pa), state := SLEEPING\<rparr>) (wake (Some cur) (ChRead pa) s))\<lparr>held := {}\<rparr>)"
      using W Suc.prems(2) by (intro sleep_eq) auto
    then show ?thesis using True W jn
      by (simp add: pipewrite_loop.simps k kl w put_state_def Let_def upd_pipe_id ubytes_def)
  next
    case False
    let ?b = "ubyte (pm s) ?pt (a + j)" and ?t = "upd_pipe pa (pipe_put (ubyte (pm s) ?pt (a + j))) s"
    have c: "copyin (sz (proc s ! cur)) ?pt ?pt (word_of_nat a + word_of_int (int j)) 1 (pm s) = Some (Some [?b], pm s)"
      using copyin_byte [of "a + j" "pm s" ?pt "sz (proc s ! cur)"] W jn by simp
    have pc: "pipe_ok (pipe_put ?b ?p)" "length (pipe_content (pipe_put ?b ?p)) = Suc (length (pipe_content ?p))"
      using pipe_put_ok [OF _ False, of ?b] W by simp_all
    have room: "length (pipe_content ?p) < PIPESIZE" using pipes.full_iff [of ?p] pipes.content_cap [of ?p] W False by simp
    define k' where "k' = min (n - Suc j) (PIPESIZE - length (pipe_content (pipe_of ?t pa)))"
    have k: "k = Suc k'" using Suc.prems(4) jn room pc(2) by (simp add: k'_def)
    have "writer_ok cur pa a n ?t" using W pc(1) by (simp add: writer_ok_def)
    from Suc.hyps(1) [OF _ this _ _ k'_def] Suc.hyps(2) Suc.prems(2) jn
    have IH: "pipewrite_loop cur pa (word_of_nat a) (int n) (int (Suc j)) ?t =
      Some (if Suc j + k' = n then PwDone (int n) else PwSleep (int (Suc j + k')),
            put_state cur pa (ubytes (pm ?t) (pagetable (proc ?t ! cur)) (a + Suc j) k') (Suc j + k' = n) ?t)" by simp
    have u: "ubytes (pm s) ?pt (a + j) (Suc k') = ?b # ubytes (pm s) ?pt (a + Suc j) k'"
      using ubytes_split [of "pm s" ?pt "a + j" 1 k'] by (simp add: ubytes_def)
    have one: "int (Suc j) = int j + 1" by simp
    have "pipewrite_loop cur pa (word_of_nat a) (int n) (int j) s = pipewrite_loop cur pa (word_of_nat a) (int n) (int j + 1) ?t"
      using False W jn c [simplified] by (subst pipewrite_loop.simps) (simp add: kl)
    then show ?thesis unfolding one [symmetric] IH by (simp add: k u put_state_step)
  qed
qed

text \<open>The state in which the reader has taken \<open>k\<close> bytes; \<open>m\<close> is the memory they were copied into.\<close>

definition get_state :: "nat \<Rightarrow> u64 \<Rightarrow> nat \<Rightarrow> pmem \<Rightarrow> fkstate \<Rightarrow> fkstate" where
  "get_state cur pa k m s = (wake (Some cur) (ChWrite pa) (upd_pipe pa (pipe_next ^^ k) s))\<lparr>held := {}, pm := m\<rparr>"

lemma get_state_simps [simp]:
  "pm (get_state cur pa k m s) = m" "held (get_state cur pa k m s) = {}" "pipe_of (get_state cur pa k m s) pa = (pipe_next ^^ k) (pipe_of s pa)"
  by (simp_all add: get_state_def)

definition reader_ok :: "nat \<Rightarrow> u64 \<Rightarrow> nat \<Rightarrow> nat \<Rightarrow> fkstate \<Rightarrow> bool" where
  "reader_ok cur pa a n s \<longleftrightarrow> pipe_ok (pipe_of s pa) \<and> length (proc s) = NPROC \<and> a + n \<le> 2 ^ 38 \<and>
     uspace (pm s) (pagetable (proc s ! cur)) \<and> (\<forall>i < n. writable (pm s) (pagetable (proc s ! cur)) ((a + i) div 4096))"

lemma wrote_ok:
  assumes "wrote m pt a bs m'"
  shows "uspace m' pt = uspace m pt" "writable m' pt k = writable m pt k"
  using assms by (simp_all add: uspace_def writable_def wrote_upage [OF assms] wrote_def)

lemma piperead_copy_ok:
  assumes "reader_ok cur pa a n s" "j \<le> n" "k = min (n - j) (length (pipe_content (pipe_of s pa)))"
  shows "\<exists>m. piperead_copy cur pa (word_of_nat a) (int n) (int j) s =
      Some (int (j + k), (upd_pipe pa (pipe_next ^^ k) s)\<lparr>pm := m\<rparr>) \<and>
    wrote (pm s) (pagetable (proc s ! cur)) (a + j) (take k (pipe_content (pipe_of s pa))) m"
  using assms
proof (induction "n - j" arbitrary: j k s)
  case 0
  then have j: "j = n" "k = 0" by simp_all
  show ?case by (intro exI [of _ "pm s"]) (simp add: piperead_copy.simps j upd_pipe_id wrote_Nil)
next
  case (Suc x)
  note R = Suc.prems(1) [unfolded reader_ok_def]
  let ?pt = "pagetable (proc s ! cur)" and ?p = "pipe_of s pa"
  have jn: "j < n" using Suc.hyps(2) by simp
  show ?case
  proof (cases "pipe_empty ?p")
    case True
    then have k: "k = 0" using Suc.prems(3) pipes.empty_iff [of ?p] R by simp
    show ?thesis by (intro exI [of _ "pm s"]) (simp add: piperead_copy.simps k True upd_pipe_id wrote_Nil)
  next
    case False
    note nx = pipe_next_ok [OF _ False]
    obtain m1 where m1: "copyout (sz (proc s ! cur)) ?pt ?pt (word_of_nat (a + j)) [pipe_peek ?p] (pm s) = Some (0, m1)"
      "wrote (pm s) ?pt (a + j) [pipe_peek ?p] m1"
      using copyout_ok [of "pm s" ?pt "a + j" "[pipe_peek ?p]" "sz (proc s ! cur)" ?pt] R jn by auto
    let ?t = "upd_pipe pa pipe_next (s\<lparr>pm := m1\<rparr>)"
    define k' where "k' = min (n - Suc j) (length (pipe_content (pipe_of ?t pa)))"
    have k: "k = Suc k'" using Suc.prems(3) jn nx R by (simp add: k'_def)
    have "reader_ok cur pa a n ?t" using R nx by (simp add: reader_ok_def wrote_ok [OF m1(2)])
    moreover have "x = n - Suc j" using Suc.hyps(2) by simp
    ultimately obtain m where IH: "piperead_copy cur pa (word_of_nat a) (int n) (int (Suc j)) ?t =
        Some (int (Suc j + k'), (upd_pipe pa (pipe_next ^^ k') ?t)\<lparr>pm := m\<rparr>)"
      "wrote m1 ?pt (a + Suc j) (take k' (pipe_content (pipe_next ?p))) m"
      using Suc.hyps(1) [of "Suc j" ?t k'] jn by (auto simp: k'_def)
    have "piperead_copy cur pa (word_of_nat a) (int n) (int j) s = piperead_copy cur pa (word_of_nat a) (int n) (int (Suc j)) ?t"
      using False jn m1(1) by (subst piperead_copy.simps) (simp add: add.commute)
    also have "\<dots> = Some (int (j + k), (upd_pipe pa (pipe_next ^^ k) s)\<lparr>pm := m\<rparr>)"
      unfolding IH(1) by (simp add: k upd_pipe_pm upd_pipe_upd_pipe comp_def funpow_swap1)
    finally have 1: "piperead_copy cur pa (word_of_nat a) (int n) (int j) s = Some (int (j + k), (upd_pipe pa (pipe_next ^^ k) s)\<lparr>pm := m\<rparr>)" .
    have "take k (pipe_content ?p) = [pipe_peek ?p] @ take k' (pipe_content (pipe_next ?p))" using nx R by (simp add: k)
    then have "wrote (pm s) ?pt (a + j) (take k (pipe_content ?p)) m"
      using wrote_append [OF m1(2), of "take k' (pipe_content (pipe_next ?p))" m] IH(2) by simp
    with 1 show ?thesis by blast
  qed
qed

lemma pipewrite_ok:
  assumes "writer_ok cur pa a n s" "held s = {}" "k = min n (PIPESIZE - length (pipe_content (pipe_of s pa)))"
  shows "pipewrite cur pa (word_of_nat a) (int n) s =
    Some (if k = n then PwDone (int n) else PwSleep (int k),
          put_state cur pa (ubytes (pm s) (pagetable (proc s ! cur)) a k) (k = n) s)"
proof -
  have "writer_ok cur pa a n (s\<lparr>held := {pi_lock pa}\<rparr>)" using assms(1) by (simp add: writer_ok_def)
  from pipewrite_loop_ok [OF this, of 0 k] assms(2,3) show ?thesis
    by (simp add: pipewrite_def put_state_def Let_def)
qed

lemma piperead_ok:
  assumes "reader_ok cur pa a n s" "held s = {}" "k = min n (length (pipe_content (pipe_of s pa)))"
    and "pipe_content (pipe_of s pa) \<noteq> [] \<or> writeopen (pipe_of s pa) = 0"
  shows "\<exists>m. piperead cur pa (word_of_nat a) (int n) s = Some (Return (int k), get_state cur pa k m s) \<and>
    wrote (pm s) (pagetable (proc s ! cur)) a (take k (pipe_content (pipe_of s pa))) m"
proof -
  let ?s = "s\<lparr>held := {pi_lock pa}\<rparr>"
  have r: "reader_ok cur pa a n ?s" using assms(1) by (simp add: reader_ok_def)
  from piperead_copy_ok [OF r, of 0 k] assms(3)
  obtain m where m: "piperead_copy cur pa (word_of_nat a) (int n) 0 ?s = Some (int k, (upd_pipe pa (pipe_next ^^ k) ?s)\<lparr>pm := m\<rparr>)"
    "wrote (pm s) (pagetable (proc s ! cur)) a (take k (pipe_content (pipe_of s pa))) m" by auto
  let ?t = "(upd_pipe pa (pipe_next ^^ k) ?s)\<lparr>pm := m\<rparr>"
  have w: "wakeup (Some cur) (ChWrite pa) ?t = Some (wake (Some cur) (ChWrite pa) ?t)"
    using assms(1) by (intro wakeup_eq) (auto simp: reader_ok_def)
  have e: "\<not> (pipe_empty (pipe_of ?s pa) \<and> writeopen (pipe_of ?s pa) \<noteq> 0)"
    using assms(1,4) pipes.empty_iff [of "pipe_of s pa"] by (auto simp: reader_ok_def)
  have "piperead_turn cur pa (word_of_nat a) (int n) ?s = Some (Return (int k), get_state cur pa k m s)"
    unfolding piperead_turn_def if_not_P [OF e] using m(1) w by (simp add: get_state_def wake_def upd_pipe_def upd_fs_def)
  then have "piperead cur pa (word_of_nat a) (int n) s = Some (Return (int k), get_state cur pa k m s)"
    using assms(2) by (simp add: piperead_def)
  with m(2) show ?thesis by blast
qed

end
