(* ===== verification/Kern_Life.thy ===== *)
theory Kern_Life
  imports Kern_Ops
begin

text \<open>
  The effects of exit, of the waiting functions and of process creation on the state, run to their
  results like those of \<open>Kern_Ops\<close>.
\<close>

subsection \<open>Exit\<close>

text \<open>\<open>s'\<close> differs from \<open>s\<close> only in the files and the private memory-image fields named.\<close>

definition files_of :: "nat \<Rightarrow> 'f kstate \<Rightarrow> 'f kstate \<Rightarrow> bool" where
  "files_of i s s' \<longleftrightarrow>
     (\<exists>g fl cw. s' = upd_p i (\<lambda>p. p\<lparr>ofile := fl, cwd := cw\<rparr>) (s\<lparr>fs := g\<rparr>))"

lemma upd_p_fs [simp]: "upd_p i f (s\<lparr>fs := g\<rparr>) = (upd_p i f s)\<lparr>fs := g\<rparr>"
  by (simp add: upd_p_def)

lemma files_of_refl: "files_of i s s"
  unfolding files_of_def
  by (rule exI [of _ "fs s"], rule exI [of _ "ofile (proc s ! i)"], rule exI [of _ "cwd (proc s ! i)"]) (simp add: upd_p_def)

lemma files_of_trans: "files_of i s s' \<Longrightarrow> files_of i s' s'' \<Longrightarrow> files_of i s s''"
  unfolding files_of_def by force

lemma close_files_of: "close_files ops cur fds s = Some s' \<Longrightarrow> files_of cur s s'"
proof (induction fds arbitrary: s)
  case (Cons fd fds)
  show ?case
  proof (cases "ofile (proc s ! cur) ! fd")
    case (Some f)
    with Cons.prems obtain g where g: "close_files ops cur fds (upd_p cur (\<lambda>p. p\<lparr>ofile := (ofile p)[fd := None]\<rparr>) (s\<lparr>fs := g\<rparr>)) = Some s'"
      by (auto split: Option.bind_splits)
    have "files_of cur s (upd_p cur (\<lambda>p. p\<lparr>ofile := (ofile p)[fd := None]\<rparr>) (s\<lparr>fs := g\<rparr>))"
      unfolding files_of_def
      by (rule exI [of _ g], rule exI [of _ "(ofile (proc s ! cur))[fd := None]"], rule exI [of _ "cwd (proc s ! cur)"])
        (simp add: upd_p_def)
    then show ?thesis using Cons.IH [OF g] by (rule files_of_trans)
  qed (use Cons in simp)
qed (simp add: files_of_refl)

lemma drop_cwd_of: "drop_cwd ops cur s = Some s' \<Longrightarrow> files_of cur s s'"
proof -
  assume "drop_cwd ops cur s = Some s'"
  then obtain g where g: "s' = upd_p cur (\<lambda>p. p\<lparr>cwd := None\<rparr>) (s\<lparr>fs := g\<rparr>)"
    by (auto simp: drop_cwd_def split: option.splits Option.bind_splits)
  show ?thesis unfolding files_of_def
    by (rule exI [of _ g], rule exI [of _ "ofile (proc s ! cur)"], rule exI [of _ None]) (simp add: g upd_p_def)
qed

lemma files_of_simps:
  assumes "files_of i s s'"
  shows "held s' = held s" "length (proc s') = length (proc s)" "initproc s' = initproc s" "semtable s' = semtable s"
    "nextpid s' = nextpid s" "ticks s' = ticks s" "j \<noteq> i \<Longrightarrow> proc s' ! j = proc s ! j"
    "i < length (proc s) \<Longrightarrow> proc s' ! i = (proc s ! i)\<lparr>ofile := ofile (proc s' ! i), cwd := cwd (proc s' ! i)\<rparr>"
    "pm s' = pm s"
  using assms unfolding files_of_def by (auto simp: upd_p_nth)

definition wake_parent :: "nat \<Rightarrow> 'f kstate \<Rightarrow> 'f kstate" where
  "wake_parent cur s = (case parent (proc s ! cur) of None \<Rightarrow> s | Some pp \<Rightarrow> wake (Some cur) (ChProc pp) s)"

definition exit_state :: "nat \<Rightarrow> nat \<Rightarrow> int \<Rightarrow> 'f kstate \<Rightarrow> 'f kstate" where
  "exit_state cur ini st s =
     upd_p cur (\<lambda>p. p\<lparr>xstate := st, state := ZOMBIE\<rparr>) (wake_parent cur (adopt_all cur ini {0..<NPROC} s))"

text \<open>The part of \<open>kexit\<close> after the files are closed.\<close>

lemma kexit_tail:
  assumes "held s = {}" "length (proc s) = NPROC" "cur < NPROC" "initproc s = Some ini" "ini \<noteq> cur"
  shows "do { s \<leftarrow> k_acquire WaitLock s; s \<leftarrow> reparent cur s; s \<leftarrow> wakeup_parent cur s; s \<leftarrow> k_acquire (ProcLock cur) s;
      let s = upd_p cur (\<lambda>p. p\<lparr>xstate := st, state := ZOMBIE\<rparr>) s; s \<leftarrow> k_release WaitLock s; sched cur s } =
    Some (exit_state cur ini st s)"
proof -
  let ?a = "adopt_all cur ini {0..<NPROC} s"
  have ah: "adopt_all cur ini {0..<NPROC} (s\<lparr>held := H\<rparr>) = ?a\<lparr>held := H\<rparr>" for H
    by (simp add: adopt_all_def children_def wake_def)
  have lena: "length (proc ?a) = NPROC" using assms by (simp add: adopt_all_def)
  have rp: "reparent cur (s\<lparr>held := {WaitLock}\<rparr>) = Some (?a\<lparr>held := {WaitLock}\<rparr>)"
    unfolding ah [symmetric] by (rule reparent_eq) (use assms in simp_all)
  have wp: "wakeup_parent cur (?a\<lparr>held := {WaitLock}\<rparr>) = Some ((wake_parent cur ?a)\<lparr>held := {WaitLock}\<rparr>)"
    using lena by (simp add: wakeup_parent_def wake_parent_def wakeup_eq split: option.splits)
  have "held (wake_parent cur ?a) = {}" using assms by (simp add: wake_parent_def adopt_all_def split: option.splits)
  moreover have "length (proc (wake_parent cur ?a)) = NPROC" using lena by (simp add: wake_parent_def split: option.splits)
  moreover have "insert (ProcLock cur) {WaitLock} - {WaitLock} = {ProcLock cur}" by auto
  ultimately show ?thesis using rp wp assms by (simp add: sched_def sched_checks_def Let_def exit_state_def)
qed

lemma kexit_eq:
  assumes "kexit ops cur st s = Some s'" "held s = {}" "length (proc s) = NPROC" "cur < NPROC" "initproc s = Some ini"
  shows "ini \<noteq> cur \<and> (\<exists>s1. files_of cur s s1 \<and> s' = exit_state cur ini st s1)"
proof -
  have ne: "ini \<noteq> cur" using assms(1,5) by (auto simp: kexit_def split: if_splits)
  obtain s0 s1 where s0: "close_files ops cur [0..<NOFILE] s = Some s0" and s1: "drop_cwd ops cur s0 = Some s1"
    and rest: "do { s \<leftarrow> k_acquire WaitLock s1; s \<leftarrow> reparent cur s; s \<leftarrow> wakeup_parent cur s; s \<leftarrow> k_acquire (ProcLock cur) s;
        let s = upd_p cur (\<lambda>p. p\<lparr>xstate := st, state := ZOMBIE\<rparr>) s; s \<leftarrow> k_release WaitLock s; sched cur s } = Some s'"
    using assms(1,5) ne by (auto simp: kexit_def split: Option.bind_splits)
  have f: "files_of cur s s1" using close_files_of [OF s0] drop_cwd_of [OF s1] by (rule files_of_trans)
  have "s' = exit_state cur ini st s1"
    using rest kexit_tail [of s1 cur ini st] files_of_simps [OF f] assms ne by simp
  with ne f show ?thesis by blast
qed

text \<open>It does not panic if the file system does not.\<close>

lemma close_files_total:
  assumes "\<And>f g. op_fileclose ops f g \<noteq> None"
  shows "\<exists>s'. close_files ops cur fds s = Some s' \<and> cwd (proc s' ! cur) = cwd (proc s ! cur)"
proof (induction fds arbitrary: s)
  case (Cons fd fds)
  show ?case
  proof (cases "ofile (proc s ! cur) ! fd")
    case (Some f)
    obtain g where g: "op_fileclose ops f (fs s) = Some g" using assms by blast
    let ?s = "upd_p cur (\<lambda>p. p\<lparr>ofile := (ofile p)[fd := None]\<rparr>) (s\<lparr>fs := g\<rparr>)"
    obtain s' where "close_files ops cur fds ?s = Some s'" "cwd (proc s' ! cur) = cwd (proc ?s ! cur)" using Cons.IH by blast
    moreover have "cwd (proc ?s ! cur) = cwd (proc s ! cur)"
      by (cases "cur < length (proc s)") (simp_all add: upd_p_def list_update_beyond)
    ultimately show ?thesis using Some g by simp
  qed (use Cons.IH in simp)
qed simp

lemma kexit_total:
  assumes "\<And>f g. op_fileclose ops f g \<noteq> None" "\<And>f g. op_iput ops f g \<noteq> None" "cwd (proc s ! cur) \<noteq> None"
    "held s = {}" "length (proc s) = NPROC" "cur < NPROC" "initproc s = Some ini" "ini \<noteq> cur"
  shows "\<exists>s'. kexit ops cur st s = Some s'"
proof -
  obtain s0 where s0: "close_files ops cur [0..<NOFILE] s = Some s0" "cwd (proc s0 ! cur) = cwd (proc s ! cur)"
    using close_files_total [OF assms(1)] by blast
  obtain ip where ip: "cwd (proc s0 ! cur) = Some ip" using s0(2) assms(3) by auto
  obtain g where "op_iput ops ip (fs s0) = Some g" using assms(2) by blast
  then obtain s1 where s1: "drop_cwd ops cur s0 = Some s1" using ip by (simp add: drop_cwd_def)
  have "files_of cur s s1" using close_files_of [OF s0(1)] drop_cwd_of [OF s1] by (rule files_of_trans)
  then show ?thesis using kexit_tail [of s1 cur ini st] files_of_simps [of cur s s1] assms s0(1) s1 by (simp add: kexit_def)
qed

subsection \<open>Waiting\<close>

lemma held_same: "held s = H \<Longrightarrow> s\<lparr>held := H\<rparr> = s"
  by auto

definition wait_child :: "nat \<Rightarrow> proc \<Rightarrow> bool" where
  "wait_child cur p \<longleftrightarrow> parent p = Some cur \<and> is_thread p = 0"

definition join_child :: "nat \<Rightarrow> int \<Rightarrow> proc \<Rightarrow> bool" where
  "join_child cur tid p \<longleftrightarrow> parent p = Some cur \<and> pid p = tid \<and> is_thread p \<noteq> 0"

definition reap :: "nat \<Rightarrow> pmem \<Rightarrow> 'f kstate \<Rightarrow> 'f kstate" where
  "reap i m s = upd_p i freeproc_fields (s\<lparr>pm := m\<rparr>)"

lemma freeproc_eq: "freeproc i s = map_option (\<lambda>m. reap i m s) (freeproc_mem (proc s ! i) (pm s))"
  by (auto simp: freeproc_def reap_def map_option_case split: option.splits)

text \<open>What a scan finds: the first zombie among the children it looks for.\<close>

lemma wait_scan_eq:
  assumes "held s = {WaitLock}"
  shows "wait_scan report cur is hk s =
    (case find (\<lambda>i. wait_child cur (proc s ! i) \<and> state (proc s ! i) = ZOMBIE) is of
       None \<Rightarrow> Some (None, hk \<or> (\<exists>i \<in> set is. wait_child cur (proc s ! i)), s)
     | Some i \<Rightarrow> do {
         (e, m) \<leftarrow> report (proc s ! i) (pm s);
         if e < 0 then Some (Some (-1), True, s\<lparr>pm := m, held := {}\<rparr>)
         else do {
           m \<leftarrow> freeproc_mem (proc s ! i) m;
           Some (Some (pid (proc s ! i)), True, (reap i m s)\<lparr>held := {}\<rparr>)
         }
       })"
proof (induction "is" arbitrary: hk)
  case (Cons i "is")
  have d: "insert (ProcLock i) {WaitLock} - {ProcLock i} = {WaitLock}" by auto
  consider (skip) "\<not> wait_child cur (proc s ! i)"
    | (zombie) "wait_child cur (proc s ! i)" "state (proc s ! i) = ZOMBIE"
    | (alive) "wait_child cur (proc s ! i)" "state (proc s ! i) \<noteq> ZOMBIE" by blast
  then show ?case
  proof cases
    case zombie
    then show ?thesis using assms d
      by (auto simp: wait_child_def freeproc_def reap_def Let_def split: Option.bind_splits prod.splits)
  next
    case alive
    have "wait_scan report cur (i # is) hk s = wait_scan report cur is True s" using alive assms d by (simp add: wait_child_def held_same)
    then show ?thesis using alive by (simp add: Cons.IH split: option.split)
  next
    case skip
    then have "wait_scan report cur (i # is) hk s = wait_scan report cur is hk s" by (auto simp: wait_child_def)
    then show ?thesis using skip Cons.IH [of hk] by (auto split: option.splits)
  qed
qed simp

lemma join_scan_eq:
  assumes "held s = {WaitLock}"
  shows "join_scan cur tid is fd s =
    (case find (\<lambda>i. join_child cur tid (proc s ! i) \<and> state (proc s ! i) = ZOMBIE) is of
       None \<Rightarrow> Some (None, fd \<or> (\<exists>i \<in> set is. join_child cur tid (proc s ! i)), s)
     | Some i \<Rightarrow> do {
         m \<leftarrow> freeproc_mem (proc s ! i) (pm s);
         Some (Some tid, True, (reap i m s)\<lparr>held := {}\<rparr>)
       })"
proof (induction "is" arbitrary: fd)
  case (Cons i "is")
  have d: "insert (ProcLock i) {WaitLock} - {ProcLock i} = {WaitLock}" by auto
  consider (skip) "\<not> join_child cur tid (proc s ! i)"
    | (zombie) "join_child cur tid (proc s ! i)" "state (proc s ! i) = ZOMBIE"
    | (alive) "join_child cur tid (proc s ! i)" "state (proc s ! i) \<noteq> ZOMBIE" by blast
  then show ?case
  proof cases
    case zombie
    then show ?thesis using assms d
      by (auto simp: join_child_def freeproc_def reap_def Let_def split: Option.bind_splits prod.splits)
  next
    case alive
    have "join_scan cur tid (i # is) fd s = join_scan cur tid is True s" using alive assms d by (simp add: join_child_def held_same)
    then show ?thesis using alive by (simp add: Cons.IH split: option.split)
  next
    case skip
    then have "join_scan cur tid (i # is) fd s = join_scan cur tid is fd s" by (auto simp: join_child_def)
    then show ?thesis using skip Cons.IH [of fd] by (auto split: option.splits)
  qed
qed simp

text \<open>The end of a turn without a zombie.\<close>

lemma wait_or_sleep_eq:
  assumes "held s = {}" "cur < length (proc s)"
  shows "wait_or_sleep cur havekids (s\<lparr>held := {WaitLock}\<rparr>) =
    Some (if \<not> havekids \<or> killed (proc s ! cur) \<noteq> 0 then (Return (-1), s)
          else (Blocked, upd_p cur (\<lambda>p. p\<lparr>chan := Some (ChProc cur), state := SLEEPING\<rparr>) s))"
  using assms by (simp add: wait_or_sleep_def is_killed_eq sleep_eq)

definition wait_effect :: "(proc \<Rightarrow> pmem \<Rightarrow> (int \<times> pmem) option) \<Rightarrow> nat \<Rightarrow> 'f kstate \<Rightarrow> (int outcome \<times> 'f kstate) option" where
  "wait_effect report cur s =
     (case find_proc (\<lambda>p. wait_child cur p \<and> state p = ZOMBIE) s of
        Some i \<Rightarrow> do {
          (e, m) \<leftarrow> report (proc s ! i) (pm s);
          if e < 0 then Some (Return (-1), s\<lparr>pm := m\<rparr>)
          else do { m \<leftarrow> freeproc_mem (proc s ! i) m; Some (Return (pid (proc s ! i)), reap i m s) }
        }
      | None \<Rightarrow>
          if (\<forall>i < NPROC. \<not> wait_child cur (proc s ! i)) \<or> killed (proc s ! cur) \<noteq> 0 then Some (Return (-1), s)
          else Some (Blocked, upd_p cur (\<lambda>p. p\<lparr>chan := Some (ChProc cur), state := SLEEPING\<rparr>) s))"

lemma reap_held [simp]: "held (reap i m s) = held s" "(reap i m (s\<lparr>held := H\<rparr>)) = (reap i m s)\<lparr>held := H\<rparr>"
  by (simp_all add: reap_def upd_p_def)

lemma wait_turn_eq:
  assumes "held s = {}" "cur < length (proc s)"
  shows "wait_turn report cur (s\<lparr>held := {WaitLock}\<rparr>) = wait_effect report cur s"
proof (cases "find_proc (\<lambda>p. wait_child cur p \<and> state p = ZOMBIE) s")
  case None
  have "(\<exists>i \<in> set [0..<NPROC]. wait_child cur (proc s ! i)) = (\<not> (\<forall>i < NPROC. \<not> wait_child cur (proc s ! i)))" by auto
  with None assms show ?thesis
    by (simp add: wait_turn_def wait_scan_eq wait_effect_def wait_or_sleep_eq find_proc_def)
next
  case (Some i)
  with assms show ?thesis
    by (auto simp: wait_turn_def wait_scan_eq wait_effect_def find_proc_def split: Option.bind_splits)
qed

definition join_effect :: "nat \<Rightarrow> int \<Rightarrow> 'f kstate \<Rightarrow> (int outcome \<times> 'f kstate) option" where
  "join_effect cur tid s =
     (case find_proc (\<lambda>p. join_child cur tid p \<and> state p = ZOMBIE) s of
        Some i \<Rightarrow> do { m \<leftarrow> freeproc_mem (proc s ! i) (pm s); Some (Return tid, reap i m s) }
      | None \<Rightarrow>
          if (\<forall>i < NPROC. \<not> join_child cur tid (proc s ! i)) \<or> killed (proc s ! cur) \<noteq> 0 then Some (Return (-1), s)
          else Some (Blocked, upd_p cur (\<lambda>p. p\<lparr>chan := Some (ChProc cur), state := SLEEPING\<rparr>) s))"

lemma join_turn_eq:
  assumes "held s = {}" "cur < length (proc s)"
  shows "join_turn cur tid (s\<lparr>held := {WaitLock}\<rparr>) = join_effect cur tid s"
proof (cases "find_proc (\<lambda>p. join_child cur tid p \<and> state p = ZOMBIE) s")
  case None
  have "(\<exists>i \<in> set [0..<NPROC]. join_child cur tid (proc s ! i)) = (\<not> (\<forall>i < NPROC. \<not> join_child cur tid (proc s ! i)))" by auto
  with None assms show ?thesis
    by (simp add: join_turn_def join_scan_eq join_effect_def wait_or_sleep_eq find_proc_def)
next
  case (Some i)
  with assms show ?thesis
    by (auto simp: join_turn_def join_scan_eq join_effect_def find_proc_def split: Option.bind_splits)
qed

subsection \<open>Creation\<close>

lemma allocpid_eq: "PidLock \<notin> held s \<Longrightarrow> allocpid s = Some (nextpid s, s\<lparr>nextpid := to_int32 (nextpid s + 1)\<rparr>)"
  by (simp add: allocpid_def Let_def Diff_insert_absorb)

lemma upd_p_nextpid [simp]: "upd_p i f (s\<lparr>nextpid := n\<rparr>) = (upd_p i f s)\<lparr>nextpid := n\<rparr>"
  by (simp add: upd_p_def)

text \<open>A slot that was claimed and given back: the process number is spent and memory may have moved.\<close>

definition slot_returned :: "nat \<Rightarrow> 'f kstate \<Rightarrow> 'f kstate \<Rightarrow> bool" where
  "slot_returned i s s' \<longleftrightarrow> i < NPROC \<and> state (proc s ! i) = UNUSED \<and>
     (\<exists>f m. s' = (upd_p i (\<lambda>p. freeproc_fields (f p)) s)\<lparr>pm := m, nextpid := to_int32 (nextpid s + 1)\<rparr>)"

text \<open>A claimed slot, its lock held.\<close>

definition slot_claimed :: "nat \<Rightarrow> 'f kstate \<Rightarrow> 'f kstate \<Rightarrow> bool" where
  "slot_claimed i s s' \<longleftrightarrow> i < NPROC \<and> state (proc s ! i) = UNUSED \<and>
     (\<exists>t pt m. t \<noteq> 0 \<and> pt \<noteq> 0 \<and>
        s' = (upd_p i (\<lambda>p. (allocproc_fields (nextpid s) p)\<lparr>trapframe_pa := t, pagetable := pt,
                 ctxt := \<lparr>ctx_ra = forkret_addr (syms s), ctx_sp = kstack p + PGSIZE\<rparr>\<rparr>) s)
              \<lparr>pm := m, nextpid := to_int32 (nextpid s + 1), held := {ProcLock i}\<rparr>)"

lemma allocproc_fail_eq:
  assumes "allocproc_fail i s = Some (r, s')" "held s = {ProcLock i}"
  shows "r = None \<and> (\<exists>m. s' = (upd_p i freeproc_fields s)\<lparr>pm := m, held := {}\<rparr>)"
  using assms by (auto simp: allocproc_fail_def freeproc_def split: Option.bind_splits)

lemma allocproc_eq:
  assumes "allocproc s = Some (r, s')" "held s = {}" "length (proc s) = NPROC"
  shows "case r of
      None \<Rightarrow> s' = s \<and> (\<forall>i < NPROC. state (proc s ! i) \<noteq> UNUSED) \<or> (\<exists>i. slot_returned i s s')
    | Some i \<Rightarrow> slot_claimed i s s'"
proof (cases "find_proc (\<lambda>p. state p = UNUSED) s")
  case None
  then have "allocproc s = Some (None, s)" using assms by (simp add: allocproc_def scan_procs_eq)
  with None show ?thesis using assms(1) by (simp add: find_proc_None)
next
  case (Some i)
  have i: "i < NPROC" "state (proc s ! i) = UNUSED" using find_proc_Some [OF Some] by simp_all
  define t where "t = fst (kalloc (pm s))"
  define m where "m = snd (kalloc (pm s))"
  have k: "kalloc (pm s) = (t, m)" by (simp add: t_def m_def)
  let ?n = "to_int32 (nextpid s + 1)"
  let ?s = "(upd_p i (\<lambda>p. (allocproc_fields (nextpid s) p)\<lparr>trapframe_pa := t\<rparr>) s)\<lparr>held := {ProcLock i}, nextpid := ?n, pm := m\<rparr>"
  have run: "allocproc s = (if t = 0 then allocproc_fail i ?s
      else do {
        (pt, m) \<leftarrow> proc_pagetable (trampoline (syms s)) t m;
        let s = (upd_p i (\<lambda>p. p\<lparr>pagetable := pt\<rparr>) ?s)\<lparr>pm := m\<rparr>;
        if pt = 0 then allocproc_fail i s
        else Some (Some i, upd_p i (\<lambda>p. p\<lparr>ctxt := \<lparr>ctx_ra = forkret_addr (syms s), ctx_sp = kstack p + PGSIZE\<rparr>\<rparr>) s)
      })"
    using Some assms(2,3) k by (simp add: allocproc_def scan_procs_eq allocpid_eq Let_def)
  have giveback: "slot_returned i s ((upd_p i freeproc_fields (upd_p i f s))\<lparr>nextpid := ?n, pm := m', held := {}\<rparr>)" for f m'
    using i assms(2) unfolding slot_returned_def by (intro conjI exI [of _ f] exI [of _ m']) simp_all
  show ?thesis
  proof (cases "t = 0")
    case True
    then have fl: "allocproc_fail i ?s = Some (r, s')" using assms(1) unfolding run by simp
    from allocproc_fail_eq [OF this] obtain m' where m': "r = None" "s' = (upd_p i freeproc_fields ?s)\<lparr>pm := m', held := {}\<rparr>"
      by auto
    then have "slot_returned i s s'" using giveback [of m' "\<lambda>p. (allocproc_fields (nextpid s) p)\<lparr>trapframe_pa := t\<rparr>"] by simp
    with m'(1) show ?thesis by auto
  next
    case False
    then obtain pt m1 where pt: "proc_pagetable (trampoline (syms s)) t m = Some (pt, m1)"
      using assms(1) unfolding run by (auto split: Option.bind_splits)
    show ?thesis
    proof (cases "pt = 0")
      case True
      let ?s1 = "(upd_p i (\<lambda>p. p\<lparr>pagetable := pt\<rparr>) ?s)\<lparr>pm := m1\<rparr>"
      have "allocproc_fail i ?s1 = Some (r, s')" using True assms(1) False pt unfolding run by (simp add: Let_def)
      from allocproc_fail_eq [OF this] obtain m' where m': "r = None" "s' = (upd_p i freeproc_fields ?s1)\<lparr>pm := m', held := {}\<rparr>"
        by auto
      then have "slot_returned i s s'"
        using giveback [of m' "\<lambda>p. (allocproc_fields (nextpid s) p)\<lparr>trapframe_pa := t, pagetable := pt\<rparr>"] by simp
      with m'(1) show ?thesis by auto
    next
      case pt0: False
      have "r = Some i" "s' = (upd_p i (\<lambda>p. (allocproc_fields (nextpid s) p)\<lparr>trapframe_pa := t, pagetable := pt,
               ctxt := \<lparr>ctx_ra = forkret_addr (syms s), ctx_sp = kstack p + PGSIZE\<rparr>\<rparr>) s)
            \<lparr>pm := m1, nextpid := ?n, held := {ProcLock i}\<rparr>"
        using assms(1) False pt0 pt unfolding run by (auto simp: Let_def allocproc_fields_def)
      then show ?thesis using i False pt0 unfolding slot_claimed_def by auto
    qed
  qed
qed

lemma dup_files_of: "dup_files ops p np is s = Some s' \<Longrightarrow> files_of np s s'"
proof (induction "is" arbitrary: s)
  case (Cons i "is")
  show ?case
  proof (cases "ofile (proc s ! p) ! i")
    case (Some f)
    with Cons.prems obtain g where g: "dup_files ops p np is (upd_p np (\<lambda>q. q\<lparr>ofile := (ofile q)[i := Some f]\<rparr>) (s\<lparr>fs := g\<rparr>)) = Some s'"
      by (auto split: Option.bind_splits)
    have "files_of np s (upd_p np (\<lambda>q. q\<lparr>ofile := (ofile q)[i := Some f]\<rparr>) (s\<lparr>fs := g\<rparr>))"
      unfolding files_of_def
      by (rule exI [of _ g], rule exI [of _ "(ofile (proc s ! np))[i := Some f]"], rule exI [of _ "cwd (proc s ! np)"])
        (simp add: upd_p_def)
    then show ?thesis using Cons.IH [OF g] by (rule files_of_trans)
  qed (use Cons in simp)
qed (simp add: files_of_refl)

lemma dup_cwd_of: "dup_cwd ops p np s = Some s' \<Longrightarrow> files_of np s s'"
proof -
  assume "dup_cwd ops p np s = Some s'"
  then obtain g ip where g: "s' = upd_p np (\<lambda>q. q\<lparr>cwd := Some ip\<rparr>) (s\<lparr>fs := g\<rparr>)"
    by (auto simp: dup_cwd_def split: option.splits Option.bind_splits)
  show ?thesis unfolding files_of_def
    by (rule exI [of _ g], rule exI [of _ "ofile (proc s ! np)"], rule exI [of _ "Some ip"]) (simp add: g upd_p_def)
qed

text \<open>The finished child.\<close>

definition child_of :: "nat \<Rightarrow> proc \<Rightarrow> trapframe \<Rightarrow> int \<Rightarrow> int \<Rightarrow> u64 \<Rightarrow> proc \<Rightarrow> proc \<Rightarrow> bool" where
  "child_of cur p f prio thr stk np q \<longleftrightarrow>
     (\<exists>fl cw. q = (inherit_fields p f prio thr stk np)\<lparr>ofile := fl, cwd := cw, pname := take 15 (pname p),
                  parent := Some cur, state := RUNNABLE\<rparr>)"

lemma spawn_eq:
  assumes "spawn ops cur i f prio thr stk s = Some (r, s')" "held s = {ProcLock i}" "i < length (proc s)" "cur \<noteq> i"
  shows "r = -1 \<and> (\<exists>m. s' = (upd_p i freeproc_fields s)\<lparr>pm := m, held := {}\<rparr>) \<or>
    r = pid (proc s ! i) \<and> (\<exists>q m g. child_of cur (proc s ! cur) f prio thr stk (proc s ! i) q \<and>
       s' = (upd_p i (\<lambda>_. q) s)\<lparr>pm := m, fs := g, held := {}\<rparr>)"
proof -
  obtain e m where em: "uvmcopy (pagetable (proc s ! cur)) (pagetable (proc s ! i)) (sz (proc s ! cur)) (pm s) = Some (e, m)"
    using assms(1) by (auto simp: spawn_def split: Option.bind_splits)
  show ?thesis
  proof (cases "e < 0")
    case True
    then show ?thesis using assms em by (auto simp: spawn_def freeproc_def split: Option.bind_splits)
  next
    case False
    let ?s = "upd_p i (inherit_fields (proc s ! cur) f prio thr stk) (s\<lparr>pm := m\<rparr>)"
    obtain s1 s2 where s1: "dup_files ops cur i [0..<NOFILE] ?s = Some s1" and s2: "dup_cwd ops cur i s1 = Some s2"
      and rest: "do {
         let s = upd_p i (\<lambda>q. q\<lparr>pname := take 15 (pname (proc s2 ! cur))\<rparr>) s2;
         let pd = pid (proc s ! i);
         s \<leftarrow> k_release (ProcLock i) s;
         s \<leftarrow> k_acquire WaitLock s;
         let s = upd_p i (\<lambda>q. q\<lparr>parent := Some cur\<rparr>) s;
         s \<leftarrow> k_release WaitLock s;
         s \<leftarrow> k_acquire (ProcLock i) s;
         let s = upd_p i (\<lambda>q. q\<lparr>state := RUNNABLE\<rparr>) s;
         s \<leftarrow> k_release (ProcLock i) s;
         Some (pd, s)
       } = Some (r, s')"
      using assms(1) em False by (auto simp: spawn_def Let_def split: Option.bind_splits)
    have "files_of i ?s s2" using dup_files_of [OF s1] dup_cwd_of [OF s2] by (rule files_of_trans)
    then obtain g fl cw where f2: "s2 = upd_p i (\<lambda>p. p\<lparr>ofile := fl, cwd := cw\<rparr>) (?s\<lparr>fs := g\<rparr>)"
      by (auto simp: files_of_def)
    let ?q = "(inherit_fields (proc s ! cur) f prio thr stk (proc s ! i))\<lparr>ofile := fl, cwd := cw,
      pname := take 15 (pname (proc s ! cur)), parent := Some cur, state := RUNNABLE\<rparr>"
    have pn: "pname (proc s2 ! cur) = pname (proc s ! cur)" using assms(4) by (simp add: f2)
    have pd: "pid (proc (upd_p i (\<lambda>q. q\<lparr>pname := x\<rparr>) s2) ! i) = pid (proc s ! i)" for x
      using assms(3) by (simp add: f2 inherit_fields_def)
    have h2: "held s2 = {ProcLock i}" using assms(2) by (simp add: f2)
    have "r = pid (proc s ! i)" and s': "s' = (upd_p i (\<lambda>q. q\<lparr>pname := take 15 (pname (proc s ! cur)), parent := Some cur, state := RUNNABLE\<rparr>) s2)\<lparr>held := {}\<rparr>"
      using rest h2 pd by (simp_all add: Let_def pn)
    moreover have "s' = (upd_p i (\<lambda>_. ?q) s)\<lparr>pm := m, fs := g, held := {}\<rparr>"
      unfolding s' f2 by (simp cong: upd_p_cong)
    moreover have "child_of cur (proc s ! cur) f prio thr stk (proc s ! i) ?q" unfolding child_of_def by blast
    ultimately show ?thesis by blast
  qed
qed

text \<open>Together: a creation that does not panic either fails, or makes one process in a free slot.\<close>

definition newborn :: "nat \<Rightarrow> nat \<Rightarrow> trapframe \<Rightarrow> int \<Rightarrow> int \<Rightarrow> u64 \<Rightarrow> 'f kstate \<Rightarrow> 'f kstate \<Rightarrow> bool" where
  "newborn cur i f prio thr stk s s' \<longleftrightarrow> i < NPROC \<and> state (proc s ! i) = UNUSED \<and>
     (\<exists>q np m g. child_of cur (proc s ! cur) f prio thr stk np q \<and> pid np = nextpid s \<and> chan np = chan (proc s ! i) \<and>
        s' = (upd_p i (\<lambda>_. q) s)\<lparr>pm := m, fs := g, nextpid := to_int32 (nextpid s + 1)\<rparr>)"

lemma alloc_spawn:
  fixes s s1 s' :: "'f kstate"
  assumes "allocproc s = Some (Some i, s1)" "spawn ops cur i f prio thr stk s1 = Some (r, s')"
    "held s = {}" "length (proc s) = NPROC" "state (proc s ! cur) \<noteq> UNUSED"
  shows "r = -1 \<and> slot_returned i s s' \<or> r = nextpid s \<and> newborn cur i f prio thr stk s s'"
proof -
  have "slot_claimed i s s1" using allocproc_eq [OF assms(1,3,4)] by simp
  then obtain t pt m1 where i: "i < NPROC" "state (proc s ! i) = UNUSED"
    and s1: "s1 = (upd_p i (\<lambda>p. (allocproc_fields (nextpid s) p)\<lparr>trapframe_pa := t, pagetable := pt,
                 ctxt := \<lparr>ctx_ra = forkret_addr (syms s), ctx_sp = kstack p + PGSIZE\<rparr>\<rparr>) s)
              \<lparr>pm := m1, nextpid := to_int32 (nextpid s + 1), held := {ProcLock i}\<rparr>"
    by (auto simp: slot_claimed_def)
  have ne: "cur \<noteq> i" using i assms(5) by auto
  have p1: "proc s1 ! cur = proc s ! cur" using ne by (simp add: s1)
  have q1: "pid (proc s1 ! i) = nextpid s" "chan (proc s1 ! i) = chan (proc s ! i)"
    using i assms(4) by (simp_all add: s1 allocproc_fields_def)
  have "held s1 = {ProcLock i}" "i < length (proc s1)" using i assms(4) by (simp_all add: s1)
  from spawn_eq [OF assms(2) this ne] show ?thesis
  proof (elim disjE conjE exE)
    fix m assume "r = -1" and s': "s' = (upd_p i freeproc_fields s1)\<lparr>pm := m, held := {}\<rparr>"
    have "slot_returned i s s'" unfolding slot_returned_def s' s1 using i assms(3)
      by (intro conjI exI [of _ "\<lambda>p. (allocproc_fields (nextpid s) p)\<lparr>trapframe_pa := t, pagetable := pt,
                 ctxt := \<lparr>ctx_ra = forkret_addr (syms s), ctx_sp = kstack p + PGSIZE\<rparr>\<rparr>"] exI [of _ m]) simp_all
    with \<open>r = -1\<close> show ?thesis by simp
  next
    fix q m g assume r: "r = pid (proc s1 ! i)"
      and q: "child_of cur (proc s1 ! cur) f prio thr stk (proc s1 ! i) q"
      and s': "s' = (upd_p i (\<lambda>_. q) s1)\<lparr>pm := m, fs := g, held := {}\<rparr>"
    have "s' = (upd_p i (\<lambda>_. q) s)\<lparr>pm := m, fs := g, nextpid := to_int32 (nextpid s + 1)\<rparr>"
      unfolding s' s1 using assms(3) by simp
    then have "newborn cur i f prio thr stk s s'" unfolding newborn_def using i q q1 p1 by auto
    with r q1 show ?thesis by simp
  qed
qed

end
