(* ===== verification/Kern_Inv.thy ===== *)
theory Kern_Inv
  imports Kern_Life
begin

text \<open>
  The invariant of the process table. Beside the kernel state it speaks of the place every process has
  reached: in user mode, suspended in the kernel at a \<open>kcont\<close>, created but not yet run, or nowhere (its
  slot is free or a zombie). Its central part is that a process asleep in the kernel sleeps on the
  channel of the condition it waits for, and that this condition does not hold: no wakeup was lost.
  The invariant is indexed by a set of channels whose sleepers are exempt, which is how the
  critical sections between the change of a condition and its \<open>wakeup\<close> are handled.
\<close>

datatype place = User | At kcont | Fresh | Nowhere

fun chan_of :: "nat \<Rightarrow> cont \<Rightarrow> channel" where
  "chan_of i (InWait a) = ChProc i"
| "chan_of i (InWaitx a b) = ChProc i"
| "chan_of i (InJoin tid) = ChProc i"
| "chan_of i (InSemWait k) = ChSem k"
| "chan_of i (InMsgRecv b) = ChMsg i"
| "chan_of i (InPause n t) = ChTicks"
| "chan_of i (InFile n) = ChOther n"

text \<open>The condition a suspended process waits for.\<close>

fun ready :: "'f kstate \<Rightarrow> nat \<Rightarrow> cont \<Rightarrow> bool" where
  "ready s i (InWait a) \<longleftrightarrow> (\<exists>j < NPROC. wait_child i (proc s ! j) \<and> state (proc s ! j) = ZOMBIE)"
| "ready s i (InWaitx a b) \<longleftrightarrow> (\<exists>j < NPROC. wait_child i (proc s ! j) \<and> state (proc s ! j) = ZOMBIE)"
| "ready s i (InJoin tid) \<longleftrightarrow> (\<exists>j < NPROC. join_child i tid (proc s ! j) \<and> state (proc s ! j) = ZOMBIE)"
| "ready s i (InSemWait k) \<longleftrightarrow> used (semtable s ! k) = 0 \<or> sem_value (semtable s ! k) \<noteq> 0"
| "ready s i (InMsgRecv b) \<longleftrightarrow> msg_flag (proc s ! i) \<noteq> 0"
| "ready s i (InPause n t) \<longleftrightarrow> ticks s - t \<ge> n"
| "ready s i (InFile n) \<longleftrightarrow> False"

fun own_cont :: "cont \<Rightarrow> bool" where
  "own_cont (InFile n) \<longleftrightarrow> False"
| "own_cont k \<longleftrightarrow> True"

definition asleep_ok :: "channel set \<Rightarrow> 'f kstate \<Rightarrow> nat \<Rightarrow> cont \<Rightarrow> bool" where
  "asleep_ok X s i k \<longleftrightarrow> chan (proc s ! i) = Some (chan_of i k) \<and> (chan_of i k \<in> X \<or> \<not> ready s i k)"

definition place_ok :: "channel set \<Rightarrow> 'f kstate \<Rightarrow> place \<Rightarrow> nat \<Rightarrow> bool" where
  "place_ok X s pl i \<longleftrightarrow>
     (case pl of
        User \<Rightarrow> state (proc s ! i) = RUNNING
      | At (InSyscall k) \<Rightarrow> own_cont k \<and>
          (state (proc s ! i) = RUNNABLE \<or> state (proc s ! i) = SLEEPING \<and> asleep_ok X s i k)
      | At InYield \<Rightarrow> state (proc s ! i) = RUNNABLE
      | Fresh \<Rightarrow> state (proc s ! i) = RUNNABLE
      | Nowhere \<Rightarrow> state (proc s ! i) = UNUSED \<or> state (proc s ! i) = ZOMBIE)"

definition places :: "channel set \<Rightarrow> 'f kstate \<Rightarrow> (nat \<Rightarrow> place) \<Rightarrow> bool" where
  "places X s pl \<longleftrightarrow> (\<forall>i < NPROC. place_ok X s (pl i) i)"

definition pids_ok :: "'f kstate \<Rightarrow> bool" where
  "pids_ok s \<longleftrightarrow> 0 < nextpid s \<and>
     (\<forall>i < NPROC. if state (proc s ! i) = UNUSED then pid (proc s ! i) = 0
                  else 0 < pid (proc s ! i) \<and> pid (proc s ! i) < nextpid s) \<and>
     (\<forall>i < NPROC. \<forall>j < NPROC. pid (proc s ! i) = pid (proc s ! j) \<and> pid (proc s ! i) \<noteq> 0 \<longrightarrow> i = j)"

definition alive :: "proc \<Rightarrow> bool" where
  "alive p \<longleftrightarrow> state p \<noteq> UNUSED \<and> state p \<noteq> ZOMBIE"

definition family_ok :: "'f kstate \<Rightarrow> bool" where
  "family_ok s \<longleftrightarrow>
     (case initproc s of
        None \<Rightarrow> False
      | Some ini \<Rightarrow> ini < NPROC \<and> alive (proc s ! ini) \<and>
          (\<forall>i < NPROC. state (proc s ! i) \<noteq> UNUSED \<and> i \<noteq> ini \<longrightarrow> parent (proc s ! i) \<noteq> None)) \<and>
     (\<forall>i < NPROC. case parent (proc s ! i) of None \<Rightarrow> True | Some j \<Rightarrow> j < NPROC \<and> alive (proc s ! j))"

definition prios_ok :: "'f kstate \<Rightarrow> bool" where
  "prios_ok s \<longleftrightarrow> (\<forall>i < NPROC. priority_valid (priority (proc s ! i)))"

definition kinv :: "channel set \<Rightarrow> 'f kstate \<Rightarrow> (nat \<Rightarrow> place) \<Rightarrow> bool" where
  "kinv X s pl \<longleftrightarrow> length (proc s) = NPROC \<and> length (semtable s) = NSEM \<and> places X s pl \<and> pids_ok s \<and> family_ok s \<and> prios_ok s"

lemma kinvI [intro]:
  "length (proc s) = NPROC \<Longrightarrow> length (semtable s) = NSEM \<Longrightarrow> places X s pl \<Longrightarrow> pids_ok s \<Longrightarrow> family_ok s \<Longrightarrow> prios_ok s \<Longrightarrow>
    kinv X s pl"
  by (simp add: kinv_def)

lemma kinvD:
  assumes "kinv X s pl"
  shows "length (proc s) = NPROC" "length (semtable s) = NSEM" "places X s pl" "pids_ok s" "family_ok s" "prios_ok s"
  using assms by (simp_all add: kinv_def)

subsection \<open>Readiness\<close>

lemma ready_le:
  assumes "semtable s' = semtable s" "ticks s' = ticks s" "ready s' i k" "i < NPROC"
    "msg_flag (proc s' ! i) \<noteq> 0 \<Longrightarrow> msg_flag (proc s ! i) \<noteq> 0"
    "\<And>j. j < NPROC \<Longrightarrow> state (proc s' ! j) = ZOMBIE \<Longrightarrow>
       state (proc s ! j) = ZOMBIE \<and> parent (proc s ! j) = parent (proc s' ! j) \<and> is_thread (proc s ! j) = is_thread (proc s' ! j) \<and>
       pid (proc s ! j) = pid (proc s' ! j)"
  shows "ready s i k"
  using assms by (cases k) (fastforce simp: wait_child_def join_child_def)+

text \<open>The general step: every process but \<open>i\<close> stays where it is or is woken, and what makes a sleeper
  ready exempts its channel.\<close>

lemma places_step:
  assumes "places X s pl" "i < NPROC \<Longrightarrow> place_ok X' s' (pl' i) i" "\<And>j. j \<noteq> i \<Longrightarrow> pl' j = pl j"
    "\<And>j. j < NPROC \<Longrightarrow> j \<noteq> i \<Longrightarrow>
       state (proc s' ! j) = state (proc s ! j) \<or> state (proc s ! j) = SLEEPING \<and> state (proc s' ! j) = RUNNABLE"
    "\<And>j. j < NPROC \<Longrightarrow> j \<noteq> i \<Longrightarrow> state (proc s' ! j) = SLEEPING \<Longrightarrow> chan (proc s' ! j) = chan (proc s ! j)"
    "\<And>j k. j < NPROC \<Longrightarrow> j \<noteq> i \<Longrightarrow> state (proc s' ! j) = SLEEPING \<Longrightarrow> chan (proc s' ! j) = Some (chan_of j k) \<Longrightarrow>
       chan_of j k \<in> X \<or> ready s' j k \<Longrightarrow> chan_of j k \<in> X' \<or> (chan_of j k \<notin> X \<and> ready s j k)"
  shows "places X' s' pl'"
  unfolding places_def
proof (intro allI impI)
  fix j assume j: "j < NPROC"
  show "place_ok X' s' (pl' j) j"
  proof (cases "j = i")
    case False
    have p: "place_ok X s (pl j) j" using assms(1) j by (simp add: places_def)
    note a = assms(4) [OF j False] and c = assms(5) [OF j False] and r = assms(6) [OF j False]
    show ?thesis
    proof (cases "pl j")
      case (At kc)
      show ?thesis
      proof (cases kc)
        case (InSyscall k)
        have "state (proc s' ! j) = SLEEPING \<Longrightarrow> asleep_ok X' s' j k"
        proof -
          assume sl: "state (proc s' ! j) = SLEEPING"
          then have "asleep_ok X s j k" using p a At InSyscall by (auto simp: place_ok_def)
          then show ?thesis using c [OF sl] r [OF sl, of k] by (auto simp: asleep_ok_def)
        qed
        then show ?thesis using p a At InSyscall assms(3) [OF False] by (auto simp: place_ok_def)
      next
        case InYield
        then show ?thesis using p a At assms(3) [OF False] by (auto simp: place_ok_def)
      qed
    qed (use p a assms(3) [OF False] in \<open>auto simp: place_ok_def\<close>)
  qed (use assms(2) j in simp)
qed

subsection \<open>Changes the invariant does not see\<close>

definition view :: "proc \<Rightarrow> procstate \<times> channel option \<times> int \<times> nat option \<times> int \<times> int \<times> int" where
  "view p = (state p, chan p, pid p, parent p, is_thread p, msg_flag p, priority p)"

definition alike :: "'f kstate \<Rightarrow> 'f kstate \<Rightarrow> bool" where
  "alike s s' \<longleftrightarrow> length (proc s') = length (proc s) \<and> (\<forall>i < NPROC. view (proc s' ! i) = view (proc s ! i)) \<and>
     semtable s' = semtable s \<and> nextpid s' = nextpid s \<and> initproc s' = initproc s \<and> ticks s' = ticks s"

lemma alike_at:
  assumes "alike s s'" "i < NPROC"
  shows "state (proc s' ! i) = state (proc s ! i)" "chan (proc s' ! i) = chan (proc s ! i)" "pid (proc s' ! i) = pid (proc s ! i)"
    "parent (proc s' ! i) = parent (proc s ! i)" "is_thread (proc s' ! i) = is_thread (proc s ! i)"
    "msg_flag (proc s' ! i) = msg_flag (proc s ! i)" "priority (proc s' ! i) = priority (proc s ! i)"
  using assms by (auto simp: alike_def view_def)

lemma alike_ready: "alike s s' \<Longrightarrow> i < NPROC \<Longrightarrow> ready s' i k \<Longrightarrow> ready s i k"
  by (rule ready_le [of s' s i k]) (auto simp: alike_at, auto simp: alike_def)

text \<open>Changes that keep the processes, their numbers and parents.\<close>

definition same_tree :: "'f kstate \<Rightarrow> 'f kstate \<Rightarrow> bool" where
  "same_tree s s' \<longleftrightarrow> length (proc s') = length (proc s) \<and> length (semtable s') = length (semtable s) \<and>
     nextpid s' = nextpid s \<and> initproc s' = initproc s \<and>
     (\<forall>i < NPROC. (state (proc s' ! i) = UNUSED \<longleftrightarrow> state (proc s ! i) = UNUSED) \<and>
        (state (proc s' ! i) = ZOMBIE \<longleftrightarrow> state (proc s ! i) = ZOMBIE) \<and> pid (proc s' ! i) = pid (proc s ! i) \<and>
        parent (proc s' ! i) = parent (proc s ! i) \<and>
        (priority_valid (priority (proc s ! i)) \<longrightarrow> priority_valid (priority (proc s' ! i))))"

lemma same_treeI:
  assumes "length (proc s') = length (proc s)" "length (semtable s') = length (semtable s)" "nextpid s' = nextpid s" "initproc s' = initproc s"
    "\<And>i. i < NPROC \<Longrightarrow> state (proc s' ! i) = UNUSED \<longleftrightarrow> state (proc s ! i) = UNUSED"
    "\<And>i. i < NPROC \<Longrightarrow> state (proc s' ! i) = ZOMBIE \<longleftrightarrow> state (proc s ! i) = ZOMBIE"
    "\<And>i. i < NPROC \<Longrightarrow> pid (proc s' ! i) = pid (proc s ! i)" "\<And>i. i < NPROC \<Longrightarrow> parent (proc s' ! i) = parent (proc s ! i)"
    "\<And>i. i < NPROC \<Longrightarrow> priority_valid (priority (proc s ! i)) \<Longrightarrow> priority_valid (priority (proc s' ! i))"
  shows "same_tree s s'"
  using assms by (simp add: same_tree_def)

lemma family_okE:
  assumes "family_ok s"
  obtains ini where "initproc s = Some ini" "ini < NPROC" "alive (proc s ! ini)"
    "\<And>i. i < NPROC \<Longrightarrow> state (proc s ! i) \<noteq> UNUSED \<Longrightarrow> i \<noteq> ini \<Longrightarrow> parent (proc s ! i) \<noteq> None"
    "\<And>i j. i < NPROC \<Longrightarrow> parent (proc s ! i) = Some j \<Longrightarrow> j < NPROC \<and> alive (proc s ! j)"
  using assms by (fastforce simp: family_ok_def split: option.splits)

lemma family_okI:
  assumes "initproc s = Some ini" "ini < NPROC" "alive (proc s ! ini)"
    "\<And>i. i < NPROC \<Longrightarrow> state (proc s ! i) \<noteq> UNUSED \<Longrightarrow> i \<noteq> ini \<Longrightarrow> parent (proc s ! i) \<noteq> None"
    "\<And>i j. i < NPROC \<Longrightarrow> parent (proc s ! i) = Some j \<Longrightarrow> j < NPROC \<and> alive (proc s ! j)"
  shows "family_ok s"
  using assms by (auto simp: family_ok_def split: option.splits)

lemma kinv_tree:
  assumes "kinv X s pl" "same_tree s s'" "places X' s' pl'"
  shows "kinv X' s' pl'"
proof
  note k = kinvD [OF assms(1)]
  have t: "length (proc s') = length (proc s)" "length (semtable s') = length (semtable s)" "nextpid s' = nextpid s" "initproc s' = initproc s"
    and p: "\<And>i. i < NPROC \<Longrightarrow> (state (proc s' ! i) = UNUSED \<longleftrightarrow> state (proc s ! i) = UNUSED) \<and>
        (state (proc s' ! i) = ZOMBIE \<longleftrightarrow> state (proc s ! i) = ZOMBIE) \<and> pid (proc s' ! i) = pid (proc s ! i) \<and>
        parent (proc s' ! i) = parent (proc s ! i) \<and>
        (priority_valid (priority (proc s ! i)) \<longrightarrow> priority_valid (priority (proc s' ! i)))"
    using assms(2) by (simp_all add: same_tree_def)
  show "length (proc s') = NPROC" "length (semtable s') = NSEM" using t k(1,2) by simp_all
  show "places X' s' pl'" by (fact assms(3))
  show "pids_ok s'" using k(4) t p by (simp add: pids_ok_def)
  have al: "i < NPROC \<Longrightarrow> alive (proc s' ! i) = alive (proc s ! i)" for i using p by (simp add: alive_def)
  from k(5) show "family_ok s'"
  proof (rule family_okE)
    fix ini assume ini: "initproc s = Some ini" "ini < NPROC" "alive (proc s ! ini)"
      "\<And>i. i < NPROC \<Longrightarrow> state (proc s ! i) \<noteq> UNUSED \<Longrightarrow> i \<noteq> ini \<Longrightarrow> parent (proc s ! i) \<noteq> None"
      "\<And>i j. i < NPROC \<Longrightarrow> parent (proc s ! i) = Some j \<Longrightarrow> j < NPROC \<and> alive (proc s ! j)"
    show ?thesis by (rule family_okI [of _ ini]) (use ini t p al in auto)
  qed
  show "prios_ok s'" using k(6) p by (simp add: prios_ok_def)
qed

lemma kinv_view:
  assumes "kinv X s pl" "alike s s'"
  shows "kinv X s' pl"
proof (rule kinv_tree [OF assms(1)])
  note v = alike_at [OF assms(2)]
  show "same_tree s s'" by (rule same_treeI) (use v assms(2) in \<open>auto simp: alike_def\<close>)
  show "places X s' pl"
    by (rule places_step [OF kinvD(3) [OF assms(1)], where i = NPROC]) (use v alike_ready [OF assms(2)] in auto)
qed

text \<open>A change of one process outside its view.\<close>

lemma alike_upd: "(\<And>p. view (f p) = view p) \<Longrightarrow> alike s (upd_p i f s)"
  by (cases "i < length (proc s)") (auto simp: alike_def upd_p_def nth_list_update list_update_beyond)

lemma alike_trans: "alike s s' \<Longrightarrow> alike s' s'' \<Longrightarrow> alike s s''"
  by (simp add: alike_def)

lemma alike_pm: "alike s (s\<lparr>pm := m\<rparr>)" "alike s (s\<lparr>held := H\<rparr>)" "alike s (s\<lparr>fs := g\<rparr>)"
  by (simp_all add: alike_def)

lemma kinv_held [simp]: "kinv X (s\<lparr>held := H\<rparr>) pl = kinv X s pl"
  using kinv_view [OF _ alike_pm(2), of X s pl H] kinv_view [OF _ alike_pm(2), of X "s\<lparr>held := H\<rparr>" pl "held s"] by auto

subsection \<open>Waking\<close>

lemma parent_wake: "j < length (proc s) \<Longrightarrow> parent (proc (wake c ch s) ! j) = parent (proc s ! j)"
  by (simp add: wake_nth wakeup_proc_def)

lemma pids_cong:
  assumes "pids_ok s" "nextpid s' = nextpid s"
    "\<And>j. j < NPROC \<Longrightarrow> pid (proc s' ! j) = pid (proc s ! j) \<and> (state (proc s' ! j) = UNUSED \<longleftrightarrow> state (proc s ! j) = UNUSED)"
  shows "pids_ok s'"
  using assms by (simp add: pids_ok_def)

lemma kinv_wake:
  assumes "kinv X s pl" "\<And>i. c = Some i \<Longrightarrow> i < NPROC \<Longrightarrow> state (proc s ! i) \<noteq> SLEEPING"
  shows "kinv (X - {ch}) (wake c ch s) pl"
proof (rule kinv_tree [OF assms(1)])
  note len = kinvD(1) [OF assms(1)]
  show "same_tree s (wake c ch s)" by (rule same_treeI) (auto simp: wake_nth len wakeup_proc_def)
  show "places (X - {ch}) (wake c ch s) pl"
  proof (rule places_step [OF kinvD(3) [OF assms(1)], where i = NPROC])
    fix j k assume j: "j < NPROC" "state (proc (wake c ch s) ! j) = SLEEPING" "chan (proc (wake c ch s) ! j) = Some (chan_of j k)"
      and x: "chan_of j k \<in> X \<or> ready (wake c ch s) j k"
    have "chan_of j k \<noteq> ch" using j assms(2) by (auto simp: wake_nth len wakeup_proc_def split: if_splits)
    moreover have "ready (wake c ch s) j k \<Longrightarrow> ready s j k"
      by (rule ready_le [of "wake c ch s"]) (use j in \<open>auto simp: wake_nth len wakeup_proc_def split: if_splits\<close>)
    ultimately show "chan_of j k \<in> X - {ch} \<or> (chan_of j k \<notin> X \<and> ready s j k)" using x by auto
  qed (auto simp: wake_nth len wakeup_proc_def)
qed

text \<open>One process made runnable, as \<open>kkill\<close> and \<open>sigsend\<close> do.\<close>

lemma kinv_upd:
  assumes "kinv X s pl"
    "\<And>p. state (f p) = state p \<or> state p = SLEEPING \<and> state (f p) = RUNNABLE"
    "\<And>p. chan (f p) = chan p \<and> pid (f p) = pid p \<and> parent (f p) = parent p \<and> is_thread (f p) = is_thread p \<and> priority (f p) = priority p"
    "\<And>p. msg_flag (f p) = msg_flag p \<or> msg_flag (f p) = 0"
  shows "kinv X (upd_p i f s) pl"
proof (cases "i < length (proc s)")
  case True
  note len = kinvD(1) [OF assms(1)]
  have st: "state (f p) = SLEEPING \<Longrightarrow> state p = SLEEPING" "state (f p) = ZOMBIE \<longleftrightarrow> state p = ZOMBIE"
    "state (f p) = UNUSED \<longleftrightarrow> state p = UNUSED" for p using assms(2) [of p] by auto
  show ?thesis
  proof (rule kinv_tree [OF assms(1)])
    show "same_tree s (upd_p i f s)" by (rule same_treeI) (auto simp: upd_p_nth len assms(3) st)
    show "places X (upd_p i f s) pl"
    proof (rule places_step [OF kinvD(3) [OF assms(1)], where i = NPROC])
      fix j k assume j: "j < NPROC" and x: "chan_of j k \<in> X \<or> ready (upd_p i f s) j k"
      have "ready (upd_p i f s) j k \<Longrightarrow> ready s j k"
        by (rule ready_le [of "upd_p i f s"]) (use j assms(4) [of "proc s ! i"] in \<open>auto simp: upd_p_nth len assms(3) st split: if_splits\<close>)
      then show "chan_of j k \<in> X \<or> (chan_of j k \<notin> X \<and> ready s j k)" using x by auto
    qed (use assms(2,3) st in \<open>auto simp: upd_p_nth len\<close>)
  qed
qed (simp add: upd_p_def list_update_beyond assms(1))

subsection \<open>Conditions\<close>

lemma kinv_sem:
  assumes "kinv X s pl"
  shows "kinv (insert (ChSem n) X) (upd_sem n f s) pl"
proof (rule kinv_tree [OF assms])
  show "same_tree s (upd_sem n f s)" by (rule same_treeI) simp_all
  show "places (insert (ChSem n) X) (upd_sem n f s) pl"
  proof (rule places_step [OF kinvD(3) [OF assms], where i = NPROC])
    fix j k assume "chan_of j k \<in> X \<or> ready (upd_sem n f s) j k"
    then show "chan_of j k \<in> insert (ChSem n) X \<or> (chan_of j k \<notin> X \<and> ready s j k)"
      by (cases k) (auto simp: upd_sem_def nth_list_update_neq)
  qed auto
qed

text \<open>Taking a unit of a semaphore that has one: nobody can be asleep on it.\<close>

lemma kinv_sem_take:
  assumes "kinv X s pl" "sem_value (semtable s ! n) \<noteq> 0"
  shows "kinv X (upd_sem n f s) pl"
proof (rule kinv_tree [OF assms(1)])
  show "same_tree s (upd_sem n f s)" by (rule same_treeI) simp_all
  show "places X (upd_sem n f s) pl"
  proof (rule places_step [OF kinvD(3) [OF assms(1)], where i = NPROC])
    fix j k assume r: "chan_of j k \<in> X \<or> ready (upd_sem n f s) j k"
    show "chan_of j k \<in> X \<or> (chan_of j k \<notin> X \<and> ready s j k)"
    proof (cases "k = InSemWait n")
      case False
      then have "ready (upd_sem n f s) j k = ready s j k" by (cases k) (auto simp: upd_sem_def nth_list_update_neq)
      with r show ?thesis by auto
    qed (use assms(2) in auto)
  qed auto
qed

lemma kinv_tick:
  assumes "kinv X s pl" "\<And>i. c = Some i \<Longrightarrow> i < NPROC \<Longrightarrow> state (proc s ! i) \<noteq> SLEEPING"
  shows "kinv (X - {ChTicks}) (tick c s) pl"
proof -
  let ?s = "s\<lparr>ticks := ticks s + 1, proc := map update_time_proc (proc s)\<rparr>"
  note len = kinvD(1) [OF assms(1)]
  have v: "view (update_time_proc p) = view p" for p by (simp add: update_time_proc_def view_def)
  then have v': "state (update_time_proc p) = state p" "chan (update_time_proc p) = chan p" "pid (update_time_proc p) = pid p"
    "parent (update_time_proc p) = parent p" "is_thread (update_time_proc p) = is_thread p"
    "msg_flag (update_time_proc p) = msg_flag p" "priority (update_time_proc p) = priority p" for p
    by (simp_all add: view_def)
  have "kinv (insert ChTicks X) ?s pl"
  proof (rule kinv_tree [OF assms(1)])
    show "same_tree s ?s" by (rule same_treeI) (simp_all add: len v')
    show "places (insert ChTicks X) ?s pl"
    proof (rule places_step [OF kinvD(3) [OF assms(1)], where i = NPROC])
      fix j k assume "j < NPROC" "chan_of j k \<in> X \<or> ready ?s j k"
      then show "chan_of j k \<in> insert ChTicks X \<or> (chan_of j k \<notin> X \<and> ready s j k)"
        by (cases k) (auto simp: len v' wait_child_def join_child_def)
    qed (auto simp: len v')
  qed
  from kinv_wake [OF this, of c ChTicks] assms(2) show ?thesis by (simp add: tick_def len v')
qed

subsection \<open>Moves of one process\<close>

text \<open>\<open>f\<close> moves process \<open>i\<close> to the place \<open>q\<close> without making a sleeper ready.\<close>

lemma places_move:
  assumes "kinv X s pl" "i < NPROC" "place_ok X (upd_p i f s) q i"
    "msg_flag (f (proc s ! i)) \<noteq> 0 \<Longrightarrow> msg_flag (proc s ! i) \<noteq> 0"
    "state (f (proc s ! i)) = ZOMBIE \<Longrightarrow> state (proc s ! i) = ZOMBIE \<and> parent (proc s ! i) = parent (f (proc s ! i)) \<and>
       is_thread (proc s ! i) = is_thread (f (proc s ! i)) \<and> pid (proc s ! i) = pid (f (proc s ! i))"
  shows "places X (upd_p i f s) (pl(i := q))"
proof (rule places_step [OF kinvD(3) [OF assms(1)], where i = i])
  note len = kinvD(1) [OF assms(1)]
  fix j k assume j: "j < NPROC" "j \<noteq> i" and x: "chan_of j k \<in> X \<or> ready (upd_p i f s) j k"
  have "ready (upd_p i f s) j k \<Longrightarrow> ready s j k"
    by (rule ready_le [of "upd_p i f s"]) (use j assms(4,5) in \<open>auto simp: upd_p_nth len split: if_splits\<close>)
  then show "chan_of j k \<in> X \<or> (chan_of j k \<notin> X \<and> ready s j k)" using x by auto
qed (use assms(3) in auto)

lemma place_User: "kinv X s pl \<Longrightarrow> i < NPROC \<Longrightarrow> pl i = User \<Longrightarrow> state (proc s ! i) = RUNNING"
  using kinvD(3) [of X s pl] by (auto simp: places_def place_ok_def)

lemma kinv_sleep:
  assumes "kinv X s pl" "i < NPROC" "pl i = User" "own_cont k" "\<not> ready s i k"
  shows "kinv X (upd_p i (\<lambda>p. p\<lparr>chan := Some (chan_of i k), state := SLEEPING\<rparr>) s) (pl(i := At (InSyscall k)))"
    (is "kinv X (upd_p i ?f s) _")
proof (rule kinv_tree [OF assms(1)])
  note len = kinvD(1) [OF assms(1)] and run = place_User [OF assms(1-3)]
  show "same_tree s (upd_p i ?f s)" by (rule same_treeI) (use run in \<open>auto simp: upd_p_nth len\<close>)
  have "\<not> ready (upd_p i ?f s) i k"
  proof
    assume "ready (upd_p i ?f s) i k"
    then have "ready s i k" by (rule ready_le [rotated 2]) (use assms(2) in \<open>auto simp: upd_p_nth len split: if_splits\<close>)
    with assms(5) show False by simp
  qed
  then have "place_ok X (upd_p i ?f s) (At (InSyscall k)) i"
    using assms(2,4) by (simp add: place_ok_def asleep_ok_def len)
  then show "places X (upd_p i ?f s) (pl(i := At (InSyscall k)))"
    by (rule places_move [OF assms(1,2)]) simp_all
qed

lemma kinv_yield:
  assumes "kinv X s pl" "i < NPROC" "pl i = User"
  shows "kinv X (upd_p i (\<lambda>p. p\<lparr>state := RUNNABLE\<rparr>) s) (pl(i := At InYield))"
proof (rule kinv_tree [OF assms(1)])
  note len = kinvD(1) [OF assms(1)] and run = place_User [OF assms]
  show "same_tree s (upd_p i (\<lambda>p. p\<lparr>state := RUNNABLE\<rparr>) s)" by (rule same_treeI) (use run in \<open>auto simp: upd_p_nth len\<close>)
  show "places X (upd_p i (\<lambda>p. p\<lparr>state := RUNNABLE\<rparr>) s) (pl(i := At InYield))"
    by (rule places_move [OF assms(1,2)]) (use assms(2) in \<open>simp_all add: place_ok_def len\<close>)
qed

lemma kinv_run:
  assumes "kinv X s pl" "i < NPROC" "state (proc s ! i) = RUNNABLE"
  shows "kinv X (upd_p i (\<lambda>p. p\<lparr>state := RUNNING\<rparr>) s) (pl(i := User))"
proof (rule kinv_tree [OF assms(1)])
  note len = kinvD(1) [OF assms(1)]
  show "same_tree s (upd_p i (\<lambda>p. p\<lparr>state := RUNNING\<rparr>) s)" by (rule same_treeI) (use assms in \<open>auto simp: upd_p_nth len\<close>)
  show "places X (upd_p i (\<lambda>p. p\<lparr>state := RUNNING\<rparr>) s) (pl(i := User))"
    by (rule places_move [OF assms(1,2)]) (use assms(2) in \<open>simp_all add: place_ok_def len\<close>)
qed

lemma kinv_unchan:
  assumes "kinv X s pl" "i < NPROC" "pl i = User"
  shows "kinv X (upd_p i (\<lambda>p. p\<lparr>chan := None\<rparr>) s) pl"
proof (rule kinv_tree [OF assms(1)])
  note len = kinvD(1) [OF assms(1)] and run = place_User [OF assms]
  show "same_tree s (upd_p i (\<lambda>p. p\<lparr>chan := None\<rparr>) s)" by (rule same_treeI) (auto simp: upd_p_nth len)
  have "places X (upd_p i (\<lambda>p. p\<lparr>chan := None\<rparr>) s) (pl(i := User))"
    by (rule places_move [OF assms(1,2)]) (use assms(2) run in \<open>simp_all add: place_ok_def len\<close>)
  then show "places X (upd_p i (\<lambda>p. p\<lparr>chan := None\<rparr>) s) pl" using assms(3) by (metis fun_upd_triv)
qed

lemma kinv_prio:
  assumes "kinv X s pl" "priority_valid v"
  shows "kinv X (upd_p i (\<lambda>p. p\<lparr>priority := v\<rparr>) s) pl"
proof (cases "i < NPROC")
  case True
  note len = kinvD(1) [OF assms(1)]
  show ?thesis
  proof (rule kinv_tree [OF assms(1)])
    show "same_tree s (upd_p i (\<lambda>p. p\<lparr>priority := v\<rparr>) s)" by (rule same_treeI) (use assms(2) in \<open>auto simp: upd_p_nth len\<close>)
    show "places X (upd_p i (\<lambda>p. p\<lparr>priority := v\<rparr>) s) pl"
    proof (rule places_step [OF kinvD(3) [OF assms(1)], where i = NPROC])
      fix j k assume j: "j < NPROC" and x: "chan_of j k \<in> X \<or> ready (upd_p i (\<lambda>p. p\<lparr>priority := v\<rparr>) s) j k"
      have "ready (upd_p i (\<lambda>p. p\<lparr>priority := v\<rparr>) s) j k \<Longrightarrow> ready s j k"
        by (rule ready_le [of "upd_p i (\<lambda>p. p\<lparr>priority := v\<rparr>) s"]) (use j in \<open>auto simp: upd_p_nth len split: if_splits\<close>)
      then show "chan_of j k \<in> X \<or> (chan_of j k \<notin> X \<and> ready s j k)" using x by auto
    qed (auto simp: upd_p_nth len)
  qed
qed (use kinvD(1) [OF assms(1)] in \<open>simp add: upd_p_def list_update_beyond assms(1)\<close>)

subsection \<open>Messages\<close>

lemma kinv_msg:
  assumes "kinv X s pl" "\<And>p. view (f p) = view (p\<lparr>msg_flag := msg_flag (f p)\<rparr>)"
  shows "kinv (insert (ChMsg i) X) (upd_p i f s) pl"
proof (cases "i < NPROC")
  case True
  note len = kinvD(1) [OF assms(1)]
  have v: "state (f p) = state p" "chan (f p) = chan p" "pid (f p) = pid p" "parent (f p) = parent p" "is_thread (f p) = is_thread p"
    "priority (f p) = priority p" for p using assms(2) [of p] by (auto simp: view_def)
  show ?thesis
  proof (rule kinv_tree [OF assms(1)])
    show "same_tree s (upd_p i f s)" by (rule same_treeI) (auto simp: upd_p_nth len v)
    show "places (insert (ChMsg i) X) (upd_p i f s) pl"
    proof (rule places_step [OF kinvD(3) [OF assms(1)], where i = NPROC])
      fix j k assume j: "j < NPROC" and x: "chan_of j k \<in> X \<or> ready (upd_p i f s) j k"
      show "chan_of j k \<in> insert (ChMsg i) X \<or> (chan_of j k \<notin> X \<and> ready s j k)"
        using x j by (cases k) (auto simp: upd_p_nth len v wait_child_def join_child_def split: if_splits)
    qed (auto simp: upd_p_nth len v)
  qed
qed (use kinvD(1) [OF assms(1)] kinvD(3) [OF assms(1)] assms(1) in
  \<open>auto simp: upd_p_def list_update_beyond kinv_def places_def place_ok_def asleep_ok_def split: place.splits kcont.splits\<close>)

subsection \<open>Birth and death\<close>

lemma kinv_nextpid:
  assumes "kinv X s pl" "nextpid s \<le> n"
  shows "kinv X (s\<lparr>nextpid := n\<rparr>) pl"
proof
  note k = kinvD [OF assms(1)]
  show "length (proc (s\<lparr>nextpid := n\<rparr>)) = NPROC" "length (semtable (s\<lparr>nextpid := n\<rparr>)) = NSEM" using k by simp_all
  show "places X (s\<lparr>nextpid := n\<rparr>) pl"
  proof (rule places_step [OF k(3), where i = NPROC])
    fix j k assume "chan_of j k \<in> X \<or> ready (s\<lparr>nextpid := n\<rparr>) j k"
    then show "chan_of j k \<in> X \<or> (chan_of j k \<notin> X \<and> ready s j k)" by (cases k) auto
  qed auto
  show "pids_ok (s\<lparr>nextpid := n\<rparr>)" using k(4) assms(2) by (fastforce simp: pids_ok_def split: if_splits)
  show "family_ok (s\<lparr>nextpid := n\<rparr>)" using k(5) by (simp add: family_ok_def split: option.splits)
  show "prios_ok (s\<lparr>nextpid := n\<rparr>)" using k(6) by (simp add: prios_ok_def)
qed

lemma place_dead:
  assumes "kinv X s pl" "i < NPROC" "\<not> alive (proc s ! i)"
  shows "pl i = Nowhere"
proof -
  have "place_ok X s (pl i) i" using kinvD(3) [OF assms(1)] assms(2) by (simp add: places_def)
  then show ?thesis using assms(3) by (auto simp: place_ok_def alive_def split: place.splits kcont.splits)
qed

lemma kinv_free:
  assumes "kinv X s pl" "i < NPROC" "\<not> alive (proc s ! i)"
    and q: "state q = UNUSED" "pid q = 0" "parent q = None" "msg_flag q = 0" "priority_valid (priority q)"
  shows "kinv X (upd_p i (\<lambda>_. q) s) pl" (is "kinv X ?s pl")
proof
  note k = kinvD [OF assms(1)]
  note nth = upd_p_nth [of _ s i "\<lambda>_. q"]
  show "length (proc ?s) = NPROC" "length (semtable ?s) = NSEM" using k by simp_all
  have "places X ?s (pl(i := Nowhere))"
    by (rule places_move [OF assms(1,2)]) (use assms(2) q k(1) in \<open>simp_all add: place_ok_def\<close>)
  then show "places X ?s pl" using place_dead [OF assms(1-3)] by (metis fun_upd_triv)
  show "pids_ok ?s" using k(4) q k(1) by (auto simp: pids_ok_def nth split: if_splits)
  from k(5) show "family_ok ?s"
  proof (rule family_okE)
    fix ini assume ini: "initproc s = Some ini" "ini < NPROC" "alive (proc s ! ini)"
      "\<And>i. i < NPROC \<Longrightarrow> state (proc s ! i) \<noteq> UNUSED \<Longrightarrow> i \<noteq> ini \<Longrightarrow> parent (proc s ! i) \<noteq> None"
      "\<And>i j. i < NPROC \<Longrightarrow> parent (proc s ! i) = Some j \<Longrightarrow> j < NPROC \<and> alive (proc s ! j)"
    show ?thesis by (rule family_okI [of _ ini]) (use ini q k(1) assms(3) in \<open>auto simp: nth split: if_splits\<close>)
  qed
  show "prios_ok ?s" using k(6) q k(1) by (simp add: prios_ok_def nth)
qed

lemma priority_default [simp]: "priority_valid DEFAULT_PRIORITY"
  by (simp add: priority_valid_def DEFAULT_PRIORITY_def MIN_PRIORITY_def MAX_PRIORITY_def)

lemma freed_fields: "state (freeproc_fields p) = UNUSED" "pid (freeproc_fields p) = 0" "parent (freeproc_fields p) = None"
  "msg_flag (freeproc_fields p) = 0" "priority_valid (priority (freeproc_fields p))"
  by (simp_all add: freeproc_fields_def)

lemma kinv_pm [simp]: "kinv X (s\<lparr>pm := m\<rparr>) pl = kinv X s pl"
  using kinv_view [OF _ alike_pm(1), of X s pl m] kinv_view [OF _ alike_pm(1), of X "s\<lparr>pm := m\<rparr>" pl "pm s"] by auto

lemma kinv_fs [simp]: "kinv X (s\<lparr>fs := g\<rparr>) pl = kinv X s pl"
  using kinv_view [OF _ alike_pm(3), of X s pl g] kinv_view [OF _ alike_pm(3), of X "s\<lparr>fs := g\<rparr>" pl "fs s"] by auto

lemma upd_p_const: "upd_p i f s = upd_p i (\<lambda>_. f (proc s ! i)) s"
  by (simp add: upd_p_def)

lemma kinv_reap:
  assumes "kinv X s pl" "i < NPROC" "state (proc s ! i) = ZOMBIE"
  shows "kinv X (reap i m s) pl"
proof -
  have "\<not> alive (proc s ! i)" using assms(3) by (simp add: alive_def)
  from kinv_free [OF assms(1,2) this freed_fields, of "proc s ! i"] show ?thesis
    by (simp add: reap_def upd_p_const [of i freeproc_fields])
qed

lemma next_fits: "0 \<le> n \<Longrightarrow> n < INT_MAX \<Longrightarrow> to_int32 (n + 1) = n + 1"
  by (simp add: to_int32_def INT_MAX_def)

lemma kinv_returned:
  assumes "kinv X s pl" "slot_returned i s s'" "nextpid s < INT_MAX"
  shows "kinv X s' pl"
proof -
  obtain f m where i: "i < NPROC" "state (proc s ! i) = UNUSED"
    and s': "s' = (upd_p i (\<lambda>p. freeproc_fields (f p)) s)\<lparr>pm := m, nextpid := to_int32 (nextpid s + 1)\<rparr>"
    using assms(2) by (auto simp: slot_returned_def)
  have n: "nextpid s \<le> to_int32 (nextpid s + 1)" using kinvD(4) [OF assms(1)] assms(3) by (simp add: next_fits pids_ok_def)
  have "\<not> alive (proc s ! i)" using i(2) by (simp add: alive_def)
  from kinv_free [OF assms(1) i(1) this freed_fields, of "f (proc s ! i)"]
  have "kinv X (upd_p i (\<lambda>p. freeproc_fields (f p)) s) pl" by (simp add: upd_p_const [of i "\<lambda>p. freeproc_fields (f p)"])
  then have "kinv X (upd_p i (\<lambda>p. freeproc_fields (f p)) s\<lparr>pm := m\<rparr>) pl" by simp
  then show ?thesis unfolding s' by (rule kinv_nextpid) (use n in simp)
qed

lemma kinv_newborn:
  assumes "kinv X s pl" "newborn cur i f prio thr stk s s'" "nextpid s < INT_MAX" "cur < NPROC" "pl cur = User" "priority_valid prio"
  shows "kinv X s' (pl(i := Fresh))"
proof -
  obtain q np m g where i: "i < NPROC" "state (proc s ! i) = UNUSED"
    and q: "child_of cur (proc s ! cur) f prio thr stk np q" and np: "pid np = nextpid s"
    and s': "s' = (upd_p i (\<lambda>_. q) s)\<lparr>pm := m, fs := g, nextpid := to_int32 (nextpid s + 1)\<rparr>"
    using assms(2) by (auto simp: newborn_def)
  have q': "state q = RUNNABLE" "pid q = nextpid s" "parent q = Some cur" "msg_flag q = 0" "priority q = prio"
    using q np by (auto simp: child_of_def inherit_fields_def)
  note k = kinvD [OF assms(1)]
  have n: "to_int32 (nextpid s + 1) = nextpid s + 1" "0 < nextpid s" using k(4) assms(3) by (simp_all add: next_fits pids_ok_def)
  have run: "alive (proc s ! cur)" using place_User [OF assms(1,4,5)] by (simp add: alive_def)
  let ?s = "(upd_p i (\<lambda>_. q) s)\<lparr>nextpid := nextpid s + 1\<rparr>"
  note nth = upd_p_nth [of _ s i "\<lambda>_. q"]
  have "kinv X ?s (pl(i := Fresh))"
  proof
    show "length (proc ?s) = NPROC" "length (semtable ?s) = NSEM" using k by simp_all
    have "places X (upd_p i (\<lambda>_. q) s) (pl(i := Fresh))"
      by (rule places_move [OF assms(1) i(1)]) (use i q' k(1) in \<open>simp_all add: place_ok_def\<close>)
    then show "places X ?s (pl(i := Fresh))"
    proof (rule places_step [where i = NPROC])
      fix j k assume "chan_of j k \<in> X \<or> ready ?s j k"
      then show "chan_of j k \<in> X \<or> (chan_of j k \<notin> X \<and> ready (upd_p i (\<lambda>_. q) s) j k)" by (cases k) auto
    qed auto
    have old: "j < NPROC \<Longrightarrow> pid (proc s ! j) < nextpid s" for j
      using k(4) n(2) by (cases "state (proc s ! j) = UNUSED") (auto simp: pids_ok_def split: if_splits)
    have pos: "j < NPROC \<Longrightarrow> state (proc s ! j) \<noteq> UNUSED \<Longrightarrow> 0 < pid (proc s ! j)" for j using k(4) by (simp add: pids_ok_def)
    have zero: "j < NPROC \<Longrightarrow> state (proc s ! j) = UNUSED \<Longrightarrow> pid (proc s ! j) = 0" for j using k(4) by (simp add: pids_ok_def)
    have inj: "j < NPROC \<Longrightarrow> j' < NPROC \<Longrightarrow> pid (proc s ! j) = pid (proc s ! j') \<Longrightarrow> pid (proc s ! j) \<noteq> 0 \<Longrightarrow> j = j'" for j j'
      using k(4) by (simp add: pids_ok_def)
    show "pids_ok ?s"
      unfolding pids_ok_def
    proof (intro conjI allI impI)
      show "0 < nextpid ?s" using n by simp
      fix j assume j: "j < NPROC"
      show "if state (proc ?s ! j) = UNUSED then pid (proc ?s ! j) = 0 else 0 < pid (proc ?s ! j) \<and> pid (proc ?s ! j) < nextpid ?s"
        using j q' n(2) old [OF j] pos [OF j] zero [OF j] k(1) by (auto simp: nth)
      fix j' assume j': "j' < NPROC" and e: "pid (proc ?s ! j) = pid (proc ?s ! j') \<and> pid (proc ?s ! j) \<noteq> 0"
      show "j = j'" using e j j' q'(2) old [OF j] old [OF j'] inj [OF j j'] k(1) by (auto simp: nth split: if_splits)
    qed
    from k(5) show "family_ok ?s"
    proof (rule family_okE)
      fix ini assume ini: "initproc s = Some ini" "ini < NPROC" "alive (proc s ! ini)"
        "\<And>i. i < NPROC \<Longrightarrow> state (proc s ! i) \<noteq> UNUSED \<Longrightarrow> i \<noteq> ini \<Longrightarrow> parent (proc s ! i) \<noteq> None"
        "\<And>i j. i < NPROC \<Longrightarrow> parent (proc s ! i) = Some j \<Longrightarrow> j < NPROC \<and> alive (proc s ! j)"
      have "alive q" using q' by (simp add: alive_def)
      then show ?thesis
        by (intro family_okI [of _ ini]) (use ini q' k(1) assms(4) run in \<open>auto simp: nth split: if_splits\<close>)
    qed
    show "prios_ok ?s" using k(6) q' assms(6) k(1) by (simp add: prios_ok_def nth)
  qed
  then have "kinv X (?s\<lparr>pm := m, fs := g\<rparr>) (pl(i := Fresh))" by simp
  moreover have "?s\<lparr>pm := m, fs := g\<rparr> = s'" unfolding s' n(1) by simp
  ultimately show ?thesis by simp
qed

end
