(* ===== verification/Kern_Exit.thy ===== *)
theory Kern_Exit
  imports Kern_Inv
begin

text \<open>
  Exit keeps the invariant: its children are adopted by the first process, which is woken for them, its
  parent is woken, and only then does it become a zombie.
\<close>

lemma kinv_adopt:
  assumes "kinv X s pl" "initproc s = Some ini" "cur < NPROC" "pl cur = User" "ChProc ini \<notin> X"
  shows "kinv X (adopt_all cur ini A s) pl"
proof (cases "A \<inter> children cur s = {}")
  case True
  then show ?thesis using assms(1) by (simp add: adopt_all_def)
next
  case False
  let ?s = "s\<lparr>proc := map_at A (adopt cur ini) (proc s)\<rparr>"
  note k = kinvD [OF assms(1)]
  note len = k(1)
  have nth: "j < NPROC \<Longrightarrow> proc ?s ! j = (if j \<in> A then adopt cur ini (proc s ! j) else proc s ! j)" for j using k(1) by simp
  have f: "state (adopt cur ini p) = state p" "chan (adopt cur ini p) = chan p" "pid (adopt cur ini p) = pid p"
    "is_thread (adopt cur ini p) = is_thread p" "msg_flag (adopt cur ini p) = msg_flag p" "priority (adopt cur ini p) = priority p"
    "parent (adopt cur ini p) = (if parent p = Some cur then Some ini else parent p)" for p by (simp_all add: adopt_def)
  have "kinv (insert (ChProc ini) X) ?s pl"
  proof
    show "length (proc ?s) = NPROC" "length (semtable ?s) = NSEM" using k by simp_all
    show "places (insert (ChProc ini) X) ?s pl"
    proof (rule places_step [OF k(3), where i = NPROC])
      fix j k assume j: "j < NPROC" and x: "chan_of j k \<in> X \<or> ready ?s j k"
      show "chan_of j k \<in> insert (ChProc ini) X \<or> (chan_of j k \<notin> X \<and> ready s j k)"
      proof (cases "j = ini")
        case True
        then show ?thesis using x j by (cases k) (auto simp: f len split: if_splits)
      next
        case False
        have "parent (adopt cur ini p) = Some j \<Longrightarrow> parent p = Some j" for p using False by (auto simp: f split: if_splits)
        then have w: "wait_child j (proc ?s ! i) \<Longrightarrow> wait_child j (proc s ! i)"
          "join_child j t (proc ?s ! i) \<Longrightarrow> join_child j t (proc s ! i)" if "i < NPROC" for i t
          using that by (auto simp: len f(1-6) wait_child_def join_child_def split: if_splits)
        have e: "state (proc ?s ! i) = state (proc s ! i)" "msg_flag (proc ?s ! i) = msg_flag (proc s ! i)" if "i < NPROC" for i
          using that by (simp_all add: len f)
        have "ready ?s j k \<Longrightarrow> ready s j k" using w e j by (cases k) auto
        then show ?thesis using x by auto
      qed
    qed (simp_all add: len f)
    show "pids_ok ?s" by (rule pids_cong [OF k(4)]) (simp_all add: len f)
    from k(5) show "family_ok ?s"
    proof (rule family_okE)
      fix ini' assume ini: "initproc s = Some ini'" "ini' < NPROC" "alive (proc s ! ini')"
        "\<And>i. i < NPROC \<Longrightarrow> state (proc s ! i) \<noteq> UNUSED \<Longrightarrow> i \<noteq> ini' \<Longrightarrow> parent (proc s ! i) \<noteq> None"
        "\<And>i j. i < NPROC \<Longrightarrow> parent (proc s ! i) = Some j \<Longrightarrow> j < NPROC \<and> alive (proc s ! j)"
      have e: "ini' = ini" using ini(1) assms(2) by simp
      have al: "j < NPROC \<Longrightarrow> alive (proc ?s ! j) = alive (proc s ! j)" for j by (simp add: len alive_def f)
      show ?thesis
      proof (rule family_okI [of _ ini'])
        show "initproc ?s = Some ini'" "ini' < NPROC" "alive (proc ?s ! ini')" using ini al by simp_all
        fix i assume i: "i < NPROC"
        show "state (proc ?s ! i) \<noteq> UNUSED \<Longrightarrow> i \<noteq> ini' \<Longrightarrow> parent (proc ?s ! i) \<noteq> None" using ini(4) [OF i] i by (auto simp: len f split: if_splits)
        fix j assume "parent (proc ?s ! i) = Some j"
        then have "j = ini' \<or> parent (proc s ! i) = Some j" using i e by (auto simp: len f split: if_splits)
        then show "j < NPROC \<and> alive (proc ?s ! j)" using ini(2,3) ini(5) [OF i] al by auto
      qed
    qed
    show "prios_ok ?s" using k(6) by (simp add: prios_ok_def len f)
  qed
  from kinv_wake [OF this, of "Some cur" "ChProc ini"]
  have "kinv (insert (ChProc ini) X - {ChProc ini}) (wake (Some cur) (ChProc ini) ?s) pl"
    using place_User [OF assms(1,3,4)] assms(3) by (simp add: len f)
  moreover have "insert (ChProc ini) X - {ChProc ini} = X" using assms(5) by auto
  ultimately show ?thesis using False by (simp add: adopt_all_def)
qed

lemma adopt_all_orphans:
  assumes "ini \<noteq> cur" "length (proc s) = NPROC" "j < NPROC"
  shows "parent (proc (adopt_all cur ini {0..<NPROC} s) ! j) \<noteq> Some cur"
  using assms by (auto simp: adopt_all_nth Let_def wakeup_proc_def adopt_def)

text \<open>The last step of exit, when nobody sleeps on the parent's channel any more.\<close>

lemma kinv_zombie:
  assumes "kinv X s pl" "cur < NPROC" "initproc s \<noteq> Some cur"
    "\<And>j. j < NPROC \<Longrightarrow> parent (proc s ! j) \<noteq> Some cur"
    "\<And>j. j < NPROC \<Longrightarrow> parent (proc s ! cur) = Some j \<Longrightarrow> state (proc s ! j) = SLEEPING \<Longrightarrow> chan (proc s ! j) \<noteq> Some (ChProc j)"
    "pl cur = User"
  shows "kinv X (upd_p cur (\<lambda>p. p\<lparr>xstate := st, state := ZOMBIE\<rparr>) s) (pl(cur := Nowhere))" (is "kinv X ?s _")
proof
  note k = kinvD [OF assms(1)]
  have nth: "j < NPROC \<Longrightarrow> proc ?s ! j = (if j = cur then (proc s ! j)\<lparr>xstate := st, state := ZOMBIE\<rparr> else proc s ! j)" for j
    using k(1) by (simp add: upd_p_nth)
  have run: "state (proc s ! cur) = RUNNING" using place_User [OF assms(1,2,6)] .
  show "length (proc ?s) = NPROC" "length (semtable ?s) = NSEM" using k by simp_all
  show "places X ?s (pl(cur := Nowhere))"
  proof (rule places_step [OF k(3), where i = cur])
    fix j k assume j: "j < NPROC" "j \<noteq> cur" "state (proc ?s ! j) = SLEEPING" "chan (proc ?s ! j) = Some (chan_of j k)"
      and x: "chan_of j k \<in> X \<or> ready ?s j k"
    have "parent (proc s ! cur) = Some j \<Longrightarrow> chan_of j k \<noteq> ChProc j" using assms(5) [OF j(1)] j by (auto simp: nth)
    then show "chan_of j k \<in> X \<or> (chan_of j k \<notin> X \<and> ready s j k)"
      using x j by (cases k) (auto simp: nth wait_child_def join_child_def split: if_splits)
  qed (use assms(2) in \<open>auto simp: nth place_ok_def\<close>)
  show "pids_ok ?s" by (rule pids_cong [OF k(4)]) (use run in \<open>auto simp: nth\<close>)
  from k(5) show "family_ok ?s"
  proof (rule family_okE)
    fix ini assume ini: "initproc s = Some ini" "ini < NPROC" "alive (proc s ! ini)"
      "\<And>i. i < NPROC \<Longrightarrow> state (proc s ! i) \<noteq> UNUSED \<Longrightarrow> i \<noteq> ini \<Longrightarrow> parent (proc s ! i) \<noteq> None"
      "\<And>i j. i < NPROC \<Longrightarrow> parent (proc s ! i) = Some j \<Longrightarrow> j < NPROC \<and> alive (proc s ! j)"
    show ?thesis
    proof (rule family_okI [of _ ini])
      show "initproc ?s = Some ini" "ini < NPROC" "alive (proc ?s ! ini)" using ini assms(3) by (auto simp: nth)
      fix i assume i: "i < NPROC"
      show "state (proc ?s ! i) \<noteq> UNUSED \<Longrightarrow> i \<noteq> ini \<Longrightarrow> parent (proc ?s ! i) \<noteq> None"
        using ini(4) [OF i] i run by (auto simp: nth split: if_splits)
      fix j assume "parent (proc ?s ! i) = Some j"
      then have "parent (proc s ! i) = Some j" using i by (auto simp: nth split: if_splits)
      then show "j < NPROC \<and> alive (proc ?s ! j)" using ini(5) [OF i, of j] assms(4) [OF i] by (auto simp: nth)
    qed
  qed
  show "prios_ok ?s" using k(6) by (simp add: prios_ok_def nth)
qed

lemma files_of_view: "files_of i s s' \<Longrightarrow> alike s s'"
  unfolding files_of_def
  by (elim exE, simp only:, rule alike_trans [OF alike_pm(3) alike_upd]) (simp add: view_def)

lemma kinv_kexit:
  assumes "kinv {} s pl" "cur < NPROC" "pl cur = User" "held s = {}" "kexit ops cur st s = Some s'"
  shows "kinv {} s' (pl(cur := Nowhere)) \<and> held s' = {}"
proof -
  note k = kinvD [OF assms(1)]
  obtain ini where ini: "initproc s = Some ini" using k(5) by (rule family_okE)
  from kexit_eq [OF assms(5,4) k(1) assms(2) ini] obtain s1 where ne: "ini \<noteq> cur" and f: "files_of cur s s1"
    and s': "s' = upd_p cur (\<lambda>p. p\<lparr>xstate := st, state := ZOMBIE\<rparr>) (wake_parent cur (adopt_all cur ini {0..<NPROC} s1))"
    unfolding exit_state_def by blast
  note fs = files_of_simps [OF f]
  let ?a = "adopt_all cur ini {0..<NPROC} s1" and ?w = "wake_parent cur (adopt_all cur ini {0..<NPROC} s1)"
  have i1: "kinv {} s1 pl" using assms(1) files_of_view [OF f] by (rule kinv_view)
  have i2: "kinv {} ?a pl" by (rule kinv_adopt [OF i1 _ assms(2,3)]) (use fs ini in auto)
  have run: "state (proc ?a ! cur) = RUNNING" using place_User [OF i2 assms(2,3)] .
  have len: "length (proc ?a) = NPROC" using kinvD(1) [OF i2] .
  have i3: "kinv {} ?w pl"
    using kinv_wake [OF i2, of "Some cur"] run i2 by (auto simp: wake_parent_def split: option.splits)
  have orphans: "parent (proc ?w ! j) \<noteq> Some cur" if "j < NPROC" for j
    using adopt_all_orphans [OF ne, of s1 j] fs(2) k(1) that len
    by (auto simp: wake_parent_def parent_wake split: option.splits)
  have woken: "chan (proc ?w ! j) \<noteq> Some (ChProc j)"
    if j: "j < NPROC" "parent (proc ?w ! cur) = Some j" "state (proc ?w ! j) = SLEEPING" for j
  proof -
    have "parent (proc ?a ! cur) = Some j" using j(1,2) assms(2) len by (auto simp: wake_parent_def parent_wake split: option.splits)
    then have w: "?w = wake (Some cur) (ChProc j) ?a" by (simp add: wake_parent_def)
    have "j \<noteq> cur" using run j(3) len assms(2) unfolding w by (auto simp: wake_nth)
    then show ?thesis using j(1,3) len unfolding w by (auto simp: wake_nth wakeup_proc_def split: if_splits)
  qed
  have "initproc ?w \<noteq> Some cur" using ini ne fs by (simp add: wake_parent_def adopt_all_def split: option.splits)
  from kinv_zombie [OF i3 assms(2) this orphans woken assms(3)] have "kinv {} s' (pl(cur := Nowhere))" unfolding s' by blast
  moreover have "held s' = {}" using assms(4) fs by (simp add: s' wake_parent_def adopt_all_def split: option.splits)
  ultimately show ?thesis by simp
qed

end
