(* ===== verification/Kern_Calls.thy ===== *)
theory Kern_Calls
  imports Kern_Exit
begin

text \<open>
  Every system call of \<^verbatim>\<open>kernel/sysproc.c\<close>, entered with no lock held by a process in user mode,
  keeps the invariant and releases all locks, whether it returns, goes to sleep or exits; so does the
  resumption of one that was asleep.
\<close>

subsection \<open>Places after a step\<close>

definition births :: "'f kstate \<Rightarrow> 'f kstate \<Rightarrow> (nat \<Rightarrow> place) \<Rightarrow> nat \<Rightarrow> place" where
  "births s s' pl j = (if \<not> alive (proc s ! j) \<and> alive (proc s' ! j) then Fresh else pl j)"

fun after :: "cont \<Rightarrow> 'a outcome \<Rightarrow> place" where
  "after k (Return v) = User"
| "after k Blocked = At (InSyscall k)"

fun place_after :: "sysresult \<Rightarrow> place" where
  "place_after (Done v) = User"
| "place_after (Sleeps k) = At (InSyscall k)"
| "place_after Exited = Nowhere"

lemma kinv_cong: "kinv X s pl \<Longrightarrow> (\<And>j. j < NPROC \<Longrightarrow> pl' j = pl j) \<Longrightarrow> kinv X s pl'"
  by (simp add: kinv_def places_def)

lemma kinv_births:
  assumes "kinv X s pl" "kinv X s' pl'" "\<And>j. j < NPROC \<Longrightarrow> j \<noteq> i \<Longrightarrow> pl' j = pl j \<or> pl' j = Fresh \<and> \<not> alive (proc s ! j)"
  shows "kinv X s' ((births s s' pl)(i := pl' i))"
proof (rule kinv_cong [OF assms(2)])
  fix j assume j: "j < NPROC"
  have dead: "pl j = Nowhere" if "\<not> alive (proc s ! j)" using place_dead [OF assms(1) j that] .
  have p': "place_ok X s' (pl' j) j" using kinvD(3) [OF assms(2)] j by (simp add: places_def)
  have "pl' j = Nowhere \<Longrightarrow> \<not> alive (proc s' ! j)" "pl' j = Fresh \<Longrightarrow> alive (proc s' ! j)"
    using p' by (auto simp: place_ok_def alive_def)
  then show "((births s s' pl)(i := pl' i)) j = pl' j"
    using assms(3) [OF j] dead by (auto simp: births_def)
qed

lemma kinv_no_births:
  assumes "kinv X s pl" "kinv X s' (pl(i := q))"
  shows "kinv X s' ((births s s' pl)(i := q))"
  using kinv_births [OF assms, of i] by simp

text \<open>What a handler has to do for process \<open>i\<close>.\<close>

definition good :: "nat \<Rightarrow> 'f kstate \<Rightarrow> (nat \<Rightarrow> place) \<Rightarrow> (sysresult \<times> 'f kstate) option \<Rightarrow> bool" where
  "good i s pl x \<longleftrightarrow>
     (case x of None \<Rightarrow> True | Some (r, s') \<Rightarrow> held s' = {} \<and> kinv {} s' ((births s s' pl)(i := place_after r)))"

lemma goodI:
  "(\<And>r s'. x = Some (r, s') \<Longrightarrow> held s' = {} \<and> kinv {} s' ((births s s' pl)(i := place_after r))) \<Longrightarrow> good i s pl x"
  by (cases x) (auto simp: good_def)

lemma good_ret:
  assumes "kinv {} s pl" "pl i = User" "\<And>v s'. x = Some (v, s') \<Longrightarrow> held s' = {} \<and> kinv {} s' pl"
  shows "good i s pl (ret x)"
proof (rule goodI)
  fix r s' assume "ret x = Some (r, s')"
  then obtain v where x: "x = Some (v, s')" "place_after r = User" by (auto simp: ret_def)
  have "kinv {} s' (pl(i := User))" using assms(3) [OF x(1)] assms(2) by (metis fun_upd_triv)
  then show "held s' = {} \<and> kinv {} s' ((births s s' pl)(i := place_after r))"
    using kinv_no_births [OF assms(1)] assms(3) [OF x(1)] x(2) by simp
qed

lemma good_sleep:
  assumes "kinv {} s pl" "\<And>v s'. x = Some (v, s') \<Longrightarrow> held s' = {} \<and> kinv {} s' (pl(i := after k v))"
  shows "good i s pl (ret_or_sleep k x)"
proof (rule goodI)
  fix r s' assume "ret_or_sleep k x = Some (r, s')"
  then obtain v where x: "x = Some (v, s')" and v: "r = (case v of Return y \<Rightarrow> Done (word_of_int y) | Blocked \<Rightarrow> Sleeps k)"
    by (auto simp: ret_or_sleep_def)
  have "place_after r = after k v" unfolding v by (cases v) simp_all
  then show "held s' = {} \<and> kinv {} s' ((births s s' pl)(i := place_after r))"
    using kinv_no_births [OF assms(1)] assms(2) [OF x] by simp
qed

subsection \<open>Calls that return\<close>

lemma kinv_views: "kinv X s pl \<Longrightarrow> (\<And>p. view (f p) = view p) \<Longrightarrow> kinv X (upd_p i f s) pl"
  using kinv_view alike_upd by blast

text \<open>A process in the kernel on behalf of its own system call.\<close>

definition entered :: "'f kstate \<Rightarrow> (nat \<Rightarrow> place) \<Rightarrow> nat \<Rightarrow> bool" where
  "entered s pl i \<longleftrightarrow> kinv {} s pl \<and> i < NPROC \<and> pl i = User \<and> held s = {}"

lemma enteredD:
  assumes "entered s pl i"
  shows "kinv {} s pl" "i < NPROC" "pl i = User" "held s = {}" "length (proc s) = NPROC"
    "state (proc s ! i) = RUNNING"
  using assms place_User kinvD(1) by (auto simp: entered_def)

lemma kkill_good:
  assumes e: "entered s pl i" and r: "kkill pd s = Some (v, s')"
  shows "held s' = {} \<and> kinv {} s' pl"
  using r enteredD [OF e] by (auto simp: kkill_eq kill_proc_def split: option.splits if_splits intro!: kinv_upd)

lemma setpriority_good:
  assumes e: "entered s pl i" and r: "setpriority pd prio s = Some (v, s')"
  shows "held s' = {} \<and> kinv {} s' pl"
  using r enteredD [OF e] by (auto simp: setpriority_eq split: option.splits if_splits intro!: kinv_prio)

lemma getpriority_good:
  assumes e: "entered s pl i" and r: "getpriority pd s = Some (v, s')"
  shows "held s' = {} \<and> kinv {} s' pl"
  using r enteredD [OF e] by (auto simp: getpriority_eq split: option.splits)

lemma kinv_sem_wake:
  assumes "entered s pl i"
  shows "kinv {} (wake (Some i) (ChSem n) (upd_sem n f s)) pl"
  using kinv_wake [OF kinv_sem [OF enteredD(1) [OF assms], where n = n and f = f], where c = "Some i" and ch = "ChSem n"] enteredD(6) [OF assms] by simp

lemma ksem_init_good:
  assumes e: "entered s pl i" and r: "ksem_init i semid x s = Some (v, s')"
  shows "held s' = {} \<and> kinv {} s' pl"
  using r enteredD [OF e] kinv_sem_wake [OF e] by (auto simp: ksem_init_eq split: if_splits)

lemma ksem_post_good:
  assumes e: "entered s pl i" and r: "ksem_post i semid s = Some (v, s')"
  shows "held s' = {} \<and> kinv {} s' pl"
  using r enteredD [OF e] kinv_sem_wake [OF e] by (auto simp: ksem_post_eq split: if_splits)

lemma sigalarm_good:
  assumes e: "entered s pl i" and r: "sigalarm i n h s = Some (v, s')"
  shows "held s' = {} \<and> kinv {} s' pl"
  using r enteredD [OF e]
  by (auto simp: sigalarm_eq split: if_splits intro!: kinv_views simp: sigalarm_fields_def view_def Let_def)

lemma sigreturn_good:
  assumes e: "entered s pl i" and r: "sigreturn i s = Some (v, s')"
  shows "held s' = {} \<and> kinv {} s' pl"
  using r enteredD [OF e] by (auto simp: sigreturn_eq split: if_splits intro!: kinv_views simp: view_def)

lemma sigsend_good:
  assumes e: "entered s pl i" and r: "sigsend pd n s = Some (v, s')"
  shows "held s' = {} \<and> kinv {} s' pl"
  using r enteredD [OF e]
  by (auto simp: sigsend_eq signal_proc_def split: option.splits if_splits intro!: kinv_upd)

lemma msgsend_good:
  assumes e: "entered s pl i" and r: "msgsend i pd msg s = Some (v, s')"
  shows "held s' = {} \<and> kinv {} s' pl"
proof (cases "s' = s")
  case False
  then obtain j w where "s' = upd_p j (\<lambda>p. p\<lparr>msg_buf := overwrite w (msg_buf p)\<rparr>) s \<or>
      s' = wake (Some i) (ChMsg j) (upd_p j (\<lambda>p. p\<lparr>msg_buf := overwrite w (msg_buf p), msg_flag := 1\<rparr>) s)"
    using r enteredD [OF e] by (auto simp: msgsend_eq split: option.splits if_splits Option.bind_splits) blast+
  then show ?thesis
  proof
    assume s': "s' = upd_p j (\<lambda>p. p\<lparr>msg_buf := overwrite w (msg_buf p)\<rparr>) s"
    show ?thesis unfolding s' using enteredD [OF e] by (auto intro!: kinv_views simp: view_def)
  next
    let ?f = "\<lambda>p. p\<lparr>msg_buf := overwrite w (msg_buf p), msg_flag := 1\<rparr>"
    assume s': "s' = wake (Some i) (ChMsg j) (upd_p j ?f s)"
    have "kinv {ChMsg j} (upd_p j ?f s) pl" using kinv_msg [OF enteredD(1) [OF e], of ?f j] by (simp add: view_def)
    moreover have "state (proc (upd_p j ?f s) ! i) = RUNNING" using enteredD [OF e] by (cases "i = j") (simp_all add: upd_p_nth)
    ultimately have "kinv {} s' pl" unfolding s' using kinv_wake [where c = "Some i" and ch = "ChMsg j"] by fastforce
    then show ?thesis using enteredD [OF e] by (simp add: s')
  qed
qed (use enteredD [OF e] in simp)

lemma growproc_good:
  assumes e: "entered s pl i" and r: "growproc i n s = Some (v, s')"
  shows "held s' = {} \<and> kinv {} s' pl"
proof -
  obtain m x where "s' = s\<lparr>pm := m\<rparr> \<or> s' = upd_p i (\<lambda>p. p\<lparr>sz := x\<rparr>) (s\<lparr>pm := m\<rparr>) \<or> s' = s"
    using r by (auto simp: growproc_def Let_def split: if_splits Option.bind_splits) blast+
  then show ?thesis
  proof (elim disjE)
    assume s': "s' = upd_p i (\<lambda>p. p\<lparr>sz := x\<rparr>) (s\<lparr>pm := m\<rparr>)"
    have "kinv {} (upd_p i (\<lambda>p. p\<lparr>sz := x\<rparr>) (s\<lparr>pm := m\<rparr>)) pl"
      by (rule kinv_views) (use enteredD(1) [OF e] in \<open>simp_all add: view_def\<close>)
    then show ?thesis using enteredD(4) [OF e] by (simp add: s')
  qed (use enteredD [OF e] in simp_all)
qed

subsection \<open>Calls that may sleep\<close>

lemma sem_wait_good:
  assumes e: "entered s pl i" and r: "sem_wait_effect i k s = (v, s')"
  shows "held s' = {} \<and> kinv {} s' (pl(i := after (InSemWait k) v))"
proof -
  note d = enteredD [OF e]
  have same: "pl(i := User) = pl" using d(3) by auto
  consider (none) "used (semtable s ! k) = 0" | (zero) "used (semtable s ! k) \<noteq> 0" "sem_value (semtable s ! k) = 0"
    | (some) "used (semtable s ! k) \<noteq> 0" "sem_value (semtable s ! k) \<noteq> 0" by blast
  then show ?thesis
  proof cases
    case none
    then show ?thesis using r d same by (auto simp: sem_wait_effect_def)
  next
    case zero
    have "kinv {} (upd_p i (\<lambda>p. p\<lparr>chan := Some (chan_of i (InSemWait k)), state := SLEEPING\<rparr>) s) (pl(i := At (InSyscall (InSemWait k))))"
      by (rule kinv_sleep) (use d zero in simp_all)
    then show ?thesis using r zero d by (auto simp: sem_wait_effect_def)
  next
    case some
    then show ?thesis using r d same kinv_sem_take [OF d(1) some(2)] by (auto simp: sem_wait_effect_def)
  qed
qed

lemma wait_good:
  assumes e: "entered s pl i" and r: "wait_effect report i s = Some (v, s')" and k: "k = InWait a \<or> k = InWaitx a b"
  shows "held s' = {} \<and> kinv {} s' (pl(i := after k v))"
proof -
  note d = enteredD [OF e]
  have same: "pl(i := User) = pl" using d(3) by auto
  show ?thesis
  proof (cases "find_proc (\<lambda>p. wait_child i p \<and> state p = ZOMBIE) s")
    case None
    then have nz: "\<not> ready s i k" using k by (auto simp: find_proc_None)
    have "kinv {} (upd_p i (\<lambda>p. p\<lparr>chan := Some (chan_of i k), state := SLEEPING\<rparr>) s) (pl(i := At (InSyscall k)))"
      by (rule kinv_sleep) (use d nz k in auto)
    then show ?thesis using r None d same k by (auto simp: wait_effect_def split: if_splits)
  next
    case (Some j)
    then have "j < NPROC" "state (proc s ! j) = ZOMBIE" using find_proc_Some [OF Some] by auto
    then have "kinv {} (reap j m s) pl" for m using kinv_reap [OF d(1)] by blast
    then show ?thesis using r Some d same by (auto simp: wait_effect_def split: if_splits Option.bind_splits)
  qed
qed

lemma join_good:
  assumes e: "entered s pl i" and r: "join_effect i tid s = Some (v, s')"
  shows "held s' = {} \<and> kinv {} s' (pl(i := after (InJoin tid) v))"
proof -
  note d = enteredD [OF e]
  have same: "pl(i := User) = pl" using d(3) by auto
  show ?thesis
  proof (cases "find_proc (\<lambda>p. join_child i tid p \<and> state p = ZOMBIE) s")
    case None
    then have nz: "\<not> ready s i (InJoin tid)" by (auto simp: find_proc_None)
    have "kinv {} (upd_p i (\<lambda>p. p\<lparr>chan := Some (chan_of i (InJoin tid)), state := SLEEPING\<rparr>) s) (pl(i := At (InSyscall (InJoin tid))))"
      by (rule kinv_sleep) (use d nz in auto)
    then show ?thesis using r None d same by (auto simp: join_effect_def split: if_splits)
  next
    case (Some j)
    then have "j < NPROC" "state (proc s ! j) = ZOMBIE" using find_proc_Some [OF Some] by auto
    then have "kinv {} (reap j m s) pl" for m using kinv_reap [OF d(1)] by blast
    then show ?thesis using r Some d same by (auto simp: join_effect_def split: if_splits Option.bind_splits)
  qed
qed

lemma recv_good:
  assumes e: "entered s pl i" and r: "recv_effect i buf s = Some (v, s')"
  shows "held s' = {} \<and> kinv {} s' (pl(i := after (InMsgRecv buf) v))"
proof -
  note d = enteredD [OF e]
  have same: "pl(i := User) = pl" using d(3) by auto
  show ?thesis
  proof (cases "msg_flag (proc s ! i) = 0")
    case True
    have "kinv {} (upd_p i (\<lambda>p. p\<lparr>chan := Some (chan_of i (InMsgRecv buf)), state := SLEEPING\<rparr>) s) (pl(i := At (InSyscall (InMsgRecv buf))))"
      by (rule kinv_sleep) (use d True in auto)
    then show ?thesis using r True d by (auto simp: recv_effect_def Let_def)
  next
    case False
    have "kinv {} (upd_p i (\<lambda>p. p\<lparr>msg_flag := 0, msg_buf := empty_msg\<rparr>) (s\<lparr>pm := m\<rparr>)) pl" for m
      by (rule kinv_upd) (use d in simp_all)
    then show ?thesis using r False d same by (auto simp: recv_effect_def Let_def split: if_splits Option.bind_splits)
  qed
qed

lemma pause_good:
  assumes e: "entered s pl i" and r: "pause_turn i n t (s\<lparr>held := {TicksLock}\<rparr>) = Some (x, s')"
  shows "held s' = {} \<and> kinv {} s' (pl(i := place_after x))"
proof -
  note d = enteredD [OF e]
  have same: "pl(i := User) = pl" using d(3) by auto
  show ?thesis
  proof (cases "ticks s - t < n \<and> killed (proc s ! i) = 0")
    case True
    have "kinv {} (upd_p i (\<lambda>p. p\<lparr>chan := Some (chan_of i (InPause n t)), state := SLEEPING\<rparr>) s) (pl(i := At (InSyscall (InPause n t))))"
      by (rule kinv_sleep) (use d True in auto)
    then show ?thesis using r True d by (auto simp: pause_turn_def is_killed_eq sleep_eq)
  next
    case False
    then show ?thesis using r d same by (auto simp: pause_turn_def is_killed_eq split: if_splits)
  qed
qed

subsection \<open>Creation\<close>

lemma create_good:
  fixes s s1 s' :: "'f kstate"
  assumes e: "entered s pl i" and a: "allocproc s = Some (r, s1)"
    and sp: "case r of None \<Rightarrow> s' = s1 | Some n \<Rightarrow> spawn ops i n f prio thr stk s1 = Some (v, s')"
    and n: "nextpid s < INT_MAX" and p: "priority_valid prio"
  shows "held s' = {} \<and> kinv {} s' ((births s s' pl)(i := User))"
proof -
  note d = enteredD [OF e]
  have stay: "kinv {} t pl \<Longrightarrow> kinv {} t ((births s t pl)(i := User))" for t
    using kinv_no_births [OF d(1), of t i User] d(3) by (metis fun_upd_triv)
  have giveback: "held t = {} \<and> kinv {} t ((births s t pl)(i := User))" if "slot_returned k s t" for k t
    using stay [OF kinv_returned [OF d(1) that n]] that d(4) by (auto simp: slot_returned_def)
  show ?thesis
  proof (cases r)
    case None
    then have "s' = s \<or> (\<exists>k. slot_returned k s s')" using allocproc_eq [OF a d(4,5)] sp by auto
    then show ?thesis using giveback stay [OF d(1)] d(4) by auto
  next
    case (Some k)
    have "state (proc s ! i) \<noteq> UNUSED" using d(6) by simp
    have "spawn ops i k f prio thr stk s1 = Some (v, s')" using sp Some by simp
    from alloc_spawn [OF a [unfolded Some] this d(4,5) \<open>state (proc s ! i) \<noteq> UNUSED\<close>]
    have "slot_returned k s s' \<or> newborn i k f prio thr stk s s'" by auto
    then show ?thesis
    proof
      assume nb: "newborn i k f prio thr stk s s'"
      have k: "kinv {} s' (pl(k := Fresh))" by (rule kinv_newborn [OF d(1) nb n d(2,3) p])
      have st: "state (proc s ! k) = UNUSED" "held s' = {}" using nb d(4) by (auto simp: newborn_def)
      have "k \<noteq> i" using st d(6) by auto
      then have "kinv {} s' ((births s s' pl)(i := (pl(k := Fresh)) i))"
        by (intro kinv_births [OF d(1) k]) (auto simp: alive_def st)
      with \<open>k \<noteq> i\<close> d(3) st show ?thesis by simp
    qed (rule giveback)
  qed
qed

lemma good_new:
  assumes "\<And>v s'. x = Some (v, s') \<Longrightarrow> held s' = {} \<and> kinv {} s' ((births s s' pl)(i := User))"
  shows "good i s pl (ret x)"
  by (rule goodI) (use assms in \<open>auto simp: ret_def\<close>)

lemma fork_good:
  assumes e: "entered s pl i" and n: "nextpid s < INT_MAX" and p: "priority_valid prio"
    and r: "fork_with_priority ops i prio s = Some (v, s')"
  shows "held s' = {} \<and> kinv {} s' ((births s s' pl)(i := User))"
proof -
  obtain x s1 where a: "allocproc s = Some (x, s1)" using r by (auto simp: fork_with_priority_def split: Option.bind_splits)
  show ?thesis
    by (rule create_good [OF e a _ n p, where f = "(tf (proc s1 ! i))\<lparr>a0 := 0\<rparr>" and thr = 0 and stk = 0 and v = v])
      (use r a in \<open>auto simp: fork_with_priority_def split: option.splits\<close>)
qed

lemma clone_good:
  assumes e: "entered s pl i" and n: "nextpid s < INT_MAX" and r: "kclone ops i fn stack arg s = Some (v, s')"
  shows "held s' = {} \<and> kinv {} s' ((births s s' pl)(i := User))"
proof (cases "fn \<ge> sz (proc s ! i) \<or> stack = 0 \<or> stack \<ge> sz (proc s ! i)")
  case True
  then have "s' = s" using r by (auto simp: kclone_def)
  then show ?thesis using enteredD [OF e] kinv_no_births [of "{}" s pl s i User] by (metis fun_upd_triv)
next
  case False
  then obtain x s1 where a: "allocproc s = Some (x, s1)" using r by (auto simp: kclone_def split: Option.bind_splits if_splits)
  have pr: "priority (proc s1 ! i) = priority (proc s ! i)" if "x = Some k" for k
    using allocproc_eq [OF a] enteredD [OF e] that by (auto simp: slot_claimed_def upd_p_nth)
  have p: "priority_valid (priority (proc s ! i))" using kinvD(6) enteredD [OF e] by (auto simp: prios_ok_def)
  show ?thesis
    by (rule create_good [OF e a _ n p, where f = "(tf (proc s1 ! i))\<lparr>epc := fn, sp := stack, a0 := arg\<rparr>" and thr = 1 and stk = stack and v = v])
      (use r a False pr in \<open>auto simp: kclone_def split: option.splits\<close>)
qed

end
