(* ===== verification/Kern_System.thy ===== *)
theory Kern_System
  imports Kern_Calls
begin

text \<open>
  The process subsystem as a transition system. A step is one stretch of kernel execution: a trap from
  user mode run until it returns to user mode or gives up the processor, a suspended process run
  again by the scheduler, the first run of a new process, or a timer interrupt on an idle hart. The
  order of steps is arbitrary. Every step keeps the invariant of \<^verbatim>\<open>Kern_Inv\<close> and releases all locks.
\<close>

subsection \<open>System calls\<close>

lemma good_bind: "(\<And>y. x = Some y \<Longrightarrow> good i s pl (f y)) \<Longrightarrow> good i s pl (x \<bind> f)"
  by (cases x) (simp_all add: good_def)

lemma good_done:
  assumes "entered s pl i" "held s' = {}" "kinv {} s' pl"
  shows "good i s pl (Some (Done v, s'))"
proof -
  have "pl(i := User) = pl" using enteredD(3) [OF assms(1)] by auto
  then show ?thesis using kinv_no_births [OF enteredD(1) [OF assms(1)], of s' i User] assms(2,3) by (simp add: good_def)
qed

lemma good_rets: "entered s pl i \<Longrightarrow> (\<And>v s'. x = Some (v, s') \<Longrightarrow> held s' = {} \<and> kinv {} s' pl) \<Longrightarrow> good i s pl (ret x)"
  using good_ret [of s pl i x] enteredD by blast

lemma good_sleeps:
  "entered s pl i \<Longrightarrow> (\<And>v s'. x = Some (v, s') \<Longrightarrow> held s' = {} \<and> kinv {} s' (pl(i := after k v))) \<Longrightarrow>
    good i s pl (ret_or_sleep k x)"
  using good_sleep [of s pl x i k] enteredD by blast

lemma own_priority: "entered s pl i \<Longrightarrow> priority_valid (priority (proc s ! i))"
  using kinvD(6) enteredD by (fastforce simp: prios_ok_def)

text \<open>Entering a function with its condition lock.\<close>

lemma kwait_eq: "entered s pl i \<Longrightarrow> kwait i a s = wait_effect (wait_report (proc s ! i) a) i s"
  by (frule enteredD(4), frule enteredD(5), frule enteredD(2)) (simp add: kwait_def wait_turn_eq)

lemma waitx_eq: "entered s pl i \<Longrightarrow> waitx i a b s = wait_effect (waitx_report (proc s ! i) a b) i s"
  by (frule enteredD(4), frule enteredD(5), frule enteredD(2)) (simp add: waitx_def wait_turn_eq)

lemma kjoin_eq: "entered s pl i \<Longrightarrow> kjoin i t s = join_effect i t s"
  by (frule enteredD(4), frule enteredD(5), frule enteredD(2)) (simp add: kjoin_def join_turn_eq)

lemma recv_eq: "entered s pl i \<Longrightarrow> msgrecv i b s = recv_effect i b s"
  by (frule enteredD(4), frule enteredD(5), frule enteredD(2)) (simp add: msgrecv_eq)

lemma semwait_eq: "entered s pl i \<Longrightarrow> ksem_wait i n s = Some (if semid_ok n then sem_wait_effect i (nat n) s else (Return (-1), s))"
  by (frule enteredD(4), frule enteredD(5), frule enteredD(2)) (simp add: ksem_wait_eq)

lemma own_place: "entered s pl i \<Longrightarrow> pl(i := User) = pl"
  by (drule enteredD(3)) auto

lemma sys_sem_wait_good: "entered s pl i \<Longrightarrow> good i s pl (sys_sem_wait i s)"
  unfolding sys_sem_wait_def
  by (intro good_bind good_sleeps) (auto simp: semwait_eq own_place enteredD(1,4) dest: sem_wait_good split: if_splits)

lemma sys_sbrk_good: "entered s pl i \<Longrightarrow> good i s pl (sys_sbrk i s)"
  unfolding sys_sbrk_def Let_def
  by (intro good_bind) (auto intro!: good_bind good_done kinv_views simp: enteredD(1,4) view_def dest: growproc_good split: prod.split)

lemma sys_pause_good:
  assumes e: "entered s pl i"
  shows "good i s pl (sys_pause i s)"
  unfolding sys_pause_def Let_def
proof (intro good_bind goodI)
  fix n t r s' assume "k_acquire TicksLock s = Some t" and r: "pause_turn i (word_of_int (if n < 0 then 0 else n)) (ticks t) t = Some (r, s')"
  then have t: "t = s\<lparr>held := {TicksLock}\<rparr>" using enteredD(4) [OF e] by simp
  from pause_good [OF e r [unfolded t]] show "held s' = {} \<and> kinv {} s' ((births s s' pl)(i := place_after r))"
    using kinv_no_births [OF enteredD(1) [OF e]] by blast
qed

lemma sys_exit_good:
  assumes e: "entered s pl i"
  shows "good i s pl (sys_exit ops i s)"
  unfolding sys_exit_def
proof (intro good_bind goodI)
  fix n t r s' assume k: "kexit ops i n s = Some t" and r: "Some (Exited, t) = Some (r, s')"
  note d = enteredD [OF e]
  from kinv_kexit [OF d(1-4) k] r show "held s' = {} \<and> kinv {} s' ((births s s' pl)(i := place_after r))"
    using kinv_no_births [OF d(1)] by auto
qed

lemma sys_getpinfo_good:
  assumes e: "entered s pl i"
  shows "good i s pl (sys_getpinfo st i s)"
  unfolding sys_getpinfo_def getpinfo_def
proof (intro good_bind, clarsimp simp: Let_def, intro good_bind, clarsimp)
  fix info s' ev m assume "getpinfo_loop [0..<NPROC] st s = Some (info, s')"
  then have "s' = s" using getpinfo_loop_state enteredD(4) [OF e] by blast
  then show "(ev < 0 \<longrightarrow> good i s pl (Some (Done (-1), s'\<lparr>pm := m\<rparr>))) \<and> (\<not> ev < 0 \<longrightarrow> good i s pl (Some (Done 0, s'\<lparr>pm := m\<rparr>)))"
    using good_done [OF e, of "s\<lparr>pm := m\<rparr>"] enteredD(1,4) [OF e] by simp
qed

definition file_calls :: "int set" where
  "file_calls = {4, 5, 7, 8, 9, 10, 15, 16, 17, 18, 19, 20, 21}"

lemma handler_good:
  assumes e: "entered s pl i" and n: "nextpid s < INT_MAX" and h: "syscalls ops fc num = Some h" and f: "num \<notin> file_calls"
  shows "good i s pl (h i s)"
proof -
  note d = enteredD [OF e]
  have "good i s pl (sys_fork ops i s)" unfolding sys_fork_def kfork_def
    by (rule good_new) (rule fork_good [OF e n own_priority [OF e]])
  moreover have "good i s pl (sys_forkprio ops i s)" unfolding sys_forkprio_def kforkprio_def
    by (intro good_bind good_new) (use fork_good [OF e n] d kinv_no_births [OF d(1), of s i User] own_place [OF e] in \<open>auto split: if_splits\<close>)
  moreover have "good i s pl (sys_clone ops i s)" unfolding sys_clone_def
    by (intro good_bind good_new) (rule clone_good [OF e n])
  moreover have "good i s pl (sys_wait i s)" unfolding sys_wait_def
    by (intro good_bind good_sleeps [OF e]) (simp only: kwait_eq [OF e], erule wait_good [OF e], simp)
  moreover have "good i s pl (sys_waitx i s)" unfolding sys_waitx_def
    by (intro good_bind good_sleeps [OF e]) (simp only: waitx_eq [OF e], erule wait_good [OF e], simp)
  moreover have "good i s pl (sys_join i s)" unfolding sys_join_def
    by (intro good_bind good_sleeps [OF e]) (use join_good [OF e] kjoin_eq [OF e] in auto)
  moreover have "good i s pl (sys_msgrecv i s)" unfolding sys_msgrecv_def
    by (intro good_bind good_sleeps [OF e]) (use recv_good [OF e] recv_eq [OF e] in auto)
  moreover have "good i s pl (sys_getpid i s)" unfolding sys_getpid_def
    by (intro good_rets [OF e]) (use d in auto)
  moreover have "good i s pl (sys_uptime i s)" unfolding sys_uptime_def Let_def
    by (intro good_bind) (use good_done [OF e] d in auto)
  moreover have "good i s pl (sys_kill i s)" unfolding sys_kill_def
    by (intro good_bind good_rets [OF e]) (rule kkill_good [OF e])
  moreover have "good i s pl (sys_sigalarm i s)" unfolding sys_sigalarm_def
    by (intro good_bind good_rets [OF e]) (rule sigalarm_good [OF e])
  moreover have "good i s pl (sys_sigreturn i s)" unfolding sys_sigreturn_def
    by (intro good_rets [OF e]) (rule sigreturn_good [OF e])
  moreover have "good i s pl (sys_sigsend i s)" unfolding sys_sigsend_def
    by (intro good_bind good_rets [OF e]) (rule sigsend_good [OF e])
  moreover have "good i s pl (sys_msgsend i s)" unfolding sys_msgsend_def
    by (intro good_bind good_rets [OF e]) (rule msgsend_good [OF e])
  moreover have "good i s pl (sys_sem_init i s)" unfolding sys_sem_init_def
    by (intro good_bind good_rets [OF e]) (rule ksem_init_good [OF e])
  moreover have "good i s pl (sys_sem_post i s)" unfolding sys_sem_post_def
    by (intro good_bind good_rets [OF e]) (rule ksem_post_good [OF e])
  moreover have "good i s pl (sys_setpriority i s)" unfolding sys_setpriority_def
    by (intro good_bind good_rets [OF e]) (rule setpriority_good [OF e])
  moreover have "good i s pl (sys_getpriority i s)" unfolding sys_getpriority_def
    by (intro good_bind good_rets [OF e]) (rule getpriority_good [OF e])
  ultimately show ?thesis
    using h f sys_sem_wait_good [OF e] sys_sbrk_good [OF e] sys_pause_good [OF e] sys_exit_good [OF e] sys_getpinfo_good [OF e]
    unfolding syscalls_def file_calls_def by (auto split: if_splits)
qed

lemma good_set_a0:
  assumes "good i s pl x" "kinv {} s pl" "i < NPROC"
  shows "good i s pl (map_option (set_a0 i) x)"
proof (cases x)
  case (Some rs)
  obtain r s' where rs: "rs = (r, s')" by (cases rs)
  have g: "held s' = {}" "kinv {} s' ((births s s' pl)(i := place_after r))" using assms(1) by (simp_all add: good_def Some rs)
  show ?thesis
  proof (cases r)
    case (Done v)
    let ?t = "upd_p i (\<lambda>p. p\<lparr>tf := (tf p)\<lparr>a0 := v\<rparr>\<rparr>) s'"
    have "kinv {} ?t ((births s s' pl)(i := User))" using g(2) Done by (intro kinv_views) (simp_all add: view_def)
    from kinv_births [OF assms(2) this, of i] have "kinv {} ?t ((births s ?t pl)(i := User))"
      by (simp add: births_def)
    then show ?thesis using g(1) by (simp add: good_def Some rs Done set_a0_def)
  qed (use assms(1) in \<open>simp_all add: good_def Some rs set_a0_def\<close>)
qed (simp add: good_def)

lemma syscall_good:
  assumes e: "entered s pl i" and n: "nextpid s < INT_MAX" and f: "syscall_num (proc s ! i) \<notin> file_calls"
  shows "good i s pl (syscall ops fc i s)"
proof -
  note d = enteredD [OF e]
  have "good i s pl (map_option (set_a0 i) (Some (Done (-1), s)))"
    by (rule good_set_a0 [OF good_done [OF e d(4,1)] d(1,2)])
  moreover have "good i s pl (map_option (set_a0 i) (h i s))" if "syscalls ops fc (syscall_num (proc s ! i)) = Some h" for h
    by (rule good_set_a0 [OF handler_good [OF e n that f] d(1,2)])
  ultimately show ?thesis unfolding syscall_def Let_def by (auto split: option.splits)
qed

subsection \<open>Resumption\<close>

text \<open>The state in which a suspended process goes on after the scheduler has chosen it and
  \<open>sleep\<close> has tidied up.\<close>

definition rescheduled :: "nat \<Rightarrow> 'f kstate \<Rightarrow> 'f kstate" where
  "rescheduled i s = upd_p i (\<lambda>p. p\<lparr>state := RUNNING, chan := None\<rparr>) s"

definition suspended :: "'f kstate \<Rightarrow> (nat \<Rightarrow> place) \<Rightarrow> nat \<Rightarrow> kcont \<Rightarrow> bool" where
  "suspended s pl i k \<longleftrightarrow> kinv {} s pl \<and> i < NPROC \<and> pl i = At k \<and> state (proc s ! i) = RUNNABLE \<and> held s = {}"

lemma rescheduled_entered:
  assumes "suspended s pl i k"
  shows "entered (rescheduled i s) (pl(i := User)) i"
proof -
  have "kinv {} (upd_p i (\<lambda>p. p\<lparr>state := RUNNING\<rparr>) s) (pl(i := User))" using assms kinv_run by (auto simp: suspended_def)
  from kinv_unchan [OF this, of i] show ?thesis using assms by (simp add: entered_def suspended_def rescheduled_def)
qed

lemma good_moved:
  assumes g: "good i (upd_p i f s) (pl(i := User)) x" and k: "kinv {} s pl" "i < length (proc s)"
  shows "good i s pl x"
proof (rule goodI)
  fix r s' assume x: "x = Some (r, s')"
  have "kinv {} s' ((births (upd_p i f s) s' (pl(i := User)))(i := place_after r))" "held s' = {}"
    using g by (simp_all add: good_def x)
  moreover have "(births (upd_p i f s) s' (pl(i := User)))(i := place_after r) = (births s s' pl)(i := place_after r)"
    by (auto simp: births_def fun_eq_iff)
  ultimately show "held s' = {} \<and> kinv {} s' ((births s s' pl)(i := place_after r))" by simp
qed

lemma resume_good:
  assumes q: "suspended s pl i (InSyscall k)" and run: "scheduler_body i s = Some (True, t)"
  shows "good i s pl (resume_syscall fc k i t)"
proof -
  have d: "kinv {} s pl" "i < NPROC" "pl i = At (InSyscall k)" "held s = {}" "state (proc s ! i) = RUNNABLE"
    using q by (auto simp: suspended_def)
  have len: "length (proc s) = NPROC" using kinvD(1) [OF d(1)] .
  have own: "own_cont k" using kinvD(3) [OF d(1)] d(2,3) by (force simp: places_def place_ok_def)
  have t: "t = (upd_p i (\<lambda>p. p\<lparr>state := RUNNING\<rparr>) s)\<lparr>held := {ProcLock i}\<rparr>" using run d by (simp add: scheduler_body_eq)
  let ?r = "rescheduled i s"
  have sl: "sleep_resume i lk t = Some (?r\<lparr>held := {lk}\<rparr>)" for lk
    unfolding t by (subst sleep_resume_eq) (simp_all add: rescheduled_def)
  have e: "entered ?r (pl(i := User)) i" by (rule rescheduled_entered [OF q])
  have h: "held ?r = {}" "i < length (proc ?r)" using d len by (simp_all add: rescheduled_def)
  have "good i ?r (pl(i := User)) (resume_handler fc k i t)"
  proof (cases k)
    case (InWait a)
    then show ?thesis using h sl
      by (simp add: kwait_resume_def wait_turn_eq) (intro good_sleeps [OF e], erule wait_good [OF e], simp)
  next
    case (InWaitx a b)
    then show ?thesis using h sl
      by (simp add: waitx_resume_def wait_turn_eq) (intro good_sleeps [OF e], erule wait_good [OF e], simp)
  next
    case (InJoin tid)
    then show ?thesis using h sl
      by (simp add: kjoin_resume_def join_turn_eq) (intro good_sleeps [OF e], erule join_good [OF e])
  next
    case (InSemWait n)
    then show ?thesis using h sl
      by (simp add: ksem_wait_resume_def sem_check_turn_eq) (intro good_sleeps [OF e], rule sem_wait_good [OF e], simp)
  next
    case (InMsgRecv b)
    then show ?thesis using h sl
      by (simp add: msgrecv_resume_def msgrecv_turn_eq) (intro good_sleeps [OF e], erule recv_good [OF e])
  next
    case (InPause n t0)
    show ?thesis
    proof (rule goodI)
      fix r s' assume "resume_handler fc k i t = Some (r, s')"
      then have "pause_turn i n t0 (?r\<lparr>held := {TicksLock}\<rparr>) = Some (r, s')" using InPause sl by simp
      from pause_good [OF e this] show "held s' = {} \<and> kinv {} s' ((births ?r s' (pl(i := User)))(i := place_after r))"
        using kinv_no_births [OF enteredD(1) [OF e]] by blast
    qed
  qed (use own in simp)
  from good_set_a0 [OF this enteredD(1) [OF e] d(2)] show ?thesis
    unfolding resume_syscall_def rescheduled_def by (rule good_moved) (use d len in simp_all)
qed

subsection \<open>Traps\<close>

fun trap_place :: "trapresult \<Rightarrow> place" where
  "trap_place (ToUser x) = User"
| "trap_place (Suspended k) = At k"
| "trap_place Gone = Nowhere"

lemma trap_return_good:
  assumes e: "entered s pl i" and r: "trap_return i h s = Some (r, h', s')"
  shows "held s' = {} \<and> kinv {} s' (pl(i := trap_place r))"
proof -
  note d = enteredD [OF e]
  have "kinv {} (upd_p i signalcheck_fields s) pl"
    by (rule kinv_views [OF d(1)]) (simp add: signalcheck_fields_def setupsignal_def view_def Let_def)
  then have "kinv {} (snd (usertrapret i h (upd_p i signalcheck_fields s))) pl"
    unfolding usertrapret_def Let_def snd_conv by (rule kinv_views) (simp add: view_def)
  then show ?thesis using r d own_place [OF e]
    by (auto simp: trap_return_def signalcheck_eq usertrapret_def Let_def split: prod.splits)
qed

lemma trap_finish_good:
  assumes e: "entered s pl i" and r: "trap_finish ops i wd h s = Some (r, h', s')"
  shows "held s' = {} \<and> kinv {} s' (pl(i := trap_place r))"
proof -
  note d = enteredD [OF e]
  have k: "is_killed i s = Some (killed (proc s ! i), s)" using d(4) by (simp add: is_killed_eq)
  consider "killed (proc s ! i) \<noteq> 0" | "killed (proc s ! i) = 0" "wd = 2" | "killed (proc s ! i) = 0" "wd \<noteq> 2" by blast
  then show ?thesis
  proof cases
    case 1
    then have "kexit ops i (-1) s = Some s'" "r = Gone" using r k by (auto simp: trap_finish_def split: Option.bind_splits)
    then show ?thesis using kinv_kexit [OF d(1-4)] by simp
  next
    case 2
    then show ?thesis using r k d kinv_yield [OF d(1-3)] by (auto simp: trap_finish_def yield_cpu_eq)
  next
    case 3
    then show ?thesis using r k trap_return_good [OF e] by (auto simp: trap_finish_def)
  qed
qed

lemma good_entered:
  assumes "good i s pl (Some (Done v, s'))" "i < NPROC"
  shows "entered s' ((births s s' pl)(i := User)) i"
  using assms by (simp add: good_def entered_def)

lemma after_syscall_good:
  assumes g: "good i s pl x" "x = Some y" and k: "kinv {} s pl" "i < NPROC"
    and r: "after_syscall ops i h y = Some (r, h', s')"
  shows "held s' = {} \<and> kinv {} s' ((births s s' pl)(i := trap_place r))"
proof -
  obtain c t where y: "y = (c, t)" by (cases y)
  show ?thesis
  proof (cases c)
    case (Done v)
    have e: "entered t ((births s t pl)(i := User)) i" using good_entered [of i s pl v t] g k(2) y Done by simp
    have "trap_finish ops i 0 h t = Some (r, h', s')" using r by (simp add: after_syscall_def y Done)
    from trap_finish_good [OF e this] have f: "held s' = {}" "kinv {} s' ((births s t pl)(i := trap_place r))" by simp_all
    from kinv_births [OF k(1) f(2), of i] f(1) show ?thesis by (simp add: births_def)
  qed (use g r y in \<open>auto simp: after_syscall_def good_def\<close>)
qed

lemma births_upd: "(births (upd_p i f s) s' pl)(i := q) = (births s s' pl)(i := q)"
  by (auto simp: births_def fun_eq_iff)

lemma births_stay:
  assumes "kinv {} s pl" "i < NPROC" "kinv {} s' (pl(i := q))"
  shows "kinv {} s' ((births s s' pl)(i := q))"
  using kinv_births [OF assms(1,3), of i] by simp

lemma usertrap_good:
  assumes e: "entered s pl i" and n: "nextpid s < INT_MAX" and x: "scause h \<noteq> 0x8000000000000009"
    and f: "scause h = 8 \<Longrightarrow> syscall_num (proc s ! i) \<notin> file_calls"
    and r: "usertrap kv ops fc dev i h s = Some (r, h', s')"
  shows "held s' = {} \<and> kinv {} s' ((births s s' pl)(i := trap_place r))"
proof -
  note d = enteredD [OF e]
  let ?t = "upd_p i (\<lambda>p. p\<lparr>tf := (tf p)\<lparr>epc := sepc h\<rparr>\<rparr>) s"
  have tf_upd: "entered (upd_p i (\<lambda>p. p\<lparr>tf := g p\<rparr>) t) pl i" if "entered t pl i" for g t
    using kinv_views [of "{}" t pl "\<lambda>p. p\<lparr>tf := g p\<rparr>" i] that by (simp add: entered_def view_def)
  have et: "entered ?t pl i" by (rule tf_upd [OF e])
  note dt = enteredD [OF et]
  have kt: "is_killed i ?t = Some (killed (proc ?t ! i), ?t)" using dt(4) by (simp add: is_killed_eq)
  have fin: "held s' = {} \<and> kinv {} s' ((births s s' pl)(i := trap_place r))"
    if "trap_finish ops i wd g t = Some (r, h', s')" "entered t pl i" for wd g t
    using trap_finish_good [OF that(2,1)] births_stay [OF d(1,2)] by blast
  show ?thesis
  proof (cases "scause h = 8")
    case True
    show ?thesis
    proof (cases "killed (proc ?t ! i) = 0")
      case False
      then have "kexit ops i (-1) ?t = Some s'" "r = Gone"
        using r kt True by (auto simp: usertrap_def Let_def split: if_splits Option.bind_splits)
      then show ?thesis using kinv_kexit [OF dt(1-4)] births_stay [OF d(1,2)] by auto
    next
      case alive: True
      let ?u = "upd_p i (\<lambda>p. p\<lparr>tf := (tf p)\<lparr>epc := epc (tf p) + 4\<rparr>\<rparr>) ?t"
      have eu: "entered ?u pl i" by (rule tf_upd [OF et])
      have "syscall_num (proc ?u ! i) = syscall_num (proc s ! i)" using d(2,5) by (simp add: syscall_num_def)
      then have g: "good i ?u pl (syscall ops fc i ?u)" using n f True by (intro syscall_good [OF eu]) simp_all
      obtain y g' where y: "syscall ops fc i ?u = Some y" "after_syscall ops i g' y = Some (r, h', s')"
        using r kt True alive by (auto simp: usertrap_def Let_def split: if_splits Option.bind_splits)
      from after_syscall_good [OF g y(1) enteredD(1,2) [OF eu] y(2)] show ?thesis by (simp add: births_upd)
    qed
  next
    case False
    show ?thesis
    proof (cases "scause h = 0x8000000000000005")
      case True
      let ?c = "if hartid h = 0 then tick (Some i) ?t else ?t"
      have c: "clockintr (Some i) (hartid h = 0) ?t = Some ?c" using dt by (simp add: clockintr_eq)
      have kc: "kinv {} ?c pl" using kinv_tick [OF dt(1), of "Some i"] dt by simp
      have hc: "held ?c = {}" using dt(4) by (simp add: tick_def)
      have "entered (upd_p i signaltick_fields ?c) pl i"
        using kinv_views [OF kc, of signaltick_fields i] hc dt(2,3)
        by (simp add: entered_def signaltick_fields_def view_def Let_def)
      then show ?thesis using r False True x c hc
        by (intro fin) (auto simp: usertrap_def devintr_def timerintr_def Let_def signaltick_eq split: if_splits)
    next
      case nt: False
      let ?p = "proc ?t ! i"
      have dv: "devintr dev (Some i) (h\<lparr>stvec := kv\<rparr>) ?t = Some (0, h\<lparr>stvec := kv\<rparr>, ?t)" using x nt by (simp add: devintr_def)
      obtain m t where t: "t = ?t\<lparr>pm := m\<rparr> \<or> setkilled i (?t\<lparr>pm := m\<rparr>) = Some t"
        and fi: "trap_finish ops i 0 (h\<lparr>stvec := kv\<rparr>) t = Some (r, h', s')"
        using r False dv by (auto simp: usertrap_def Let_def split: if_splits Option.bind_splits) blast+
      have "entered (?t\<lparr>pm := m\<rparr>) pl i" using et by (simp add: entered_def)
      moreover have "entered (upd_p i (\<lambda>p. p\<lparr>killed := 1\<rparr>) (?t\<lparr>pm := m\<rparr>)) pl i"
        using kinv_views [of "{}" "?t\<lparr>pm := m\<rparr>" pl "\<lambda>p. p\<lparr>killed := 1\<rparr>" i] dt by (simp add: entered_def view_def)
      ultimately have "entered t pl i" using t dt(4) by (auto simp: setkilled_eq split: if_splits)
      then show ?thesis by (rule fin [OF fi])
    qed
  qed
qed

lemma resume_trap_good:
  assumes q: "suspended s pl i k" and run: "scheduler_body i s = Some (True, t)"
    and r: "resume_trap ops fc k i h t = Some (r, h', s')"
  shows "held s' = {} \<and> kinv {} s' ((births s s' pl)(i := trap_place r))"
proof (cases k)
  case (InSyscall c)
  then obtain y where y: "resume_syscall fc c i t = Some y" "after_syscall ops i h y = Some (r, h', s')"
    using r by (auto split: Option.bind_splits)
  have "kinv {} s pl" "i < NPROC" using q by (auto simp: suspended_def)
  then show ?thesis using after_syscall_good [OF resume_good [OF q [unfolded InSyscall] run] y(1) _ _ y(2)] by simp
next
  case InYield
  have d: "kinv {} s pl" "i < NPROC" "held s = {}" "state (proc s ! i) = RUNNABLE" using q by (auto simp: suspended_def)
  let ?u = "upd_p i (\<lambda>p. p\<lparr>state := RUNNING\<rparr>) s"
  have "t = ?u\<lparr>held := {ProcLock i}\<rparr>" using run d by (simp add: scheduler_body_eq)
  then have tr: "trap_return i h ?u = Some (r, h', s')" using r d by (simp add: InYield yield_resume_def)
  have "entered ?u (pl(i := User)) i" using kinv_run [OF d(1,2,4)] d by (simp add: entered_def)
  from trap_return_good [OF this tr] show ?thesis using births_stay [OF d(1,2)] by simp
qed

lemma forkret_good:
  assumes k: "kinv {} s pl" "i < NPROC" "held s = {}" and run: "scheduler_body i s = Some (True, t)"
    and r: "forkret ie False i h t = Some (r, h', s')"
  shows "held s' = {} \<and> kinv {} s' ((births s s' pl)(i := trap_place r))"
proof -
  have rn: "state (proc s ! i) = RUNNABLE" using run k(3) by (auto simp: scheduler_body_eq split: if_splits)
  let ?u = "upd_p i (\<lambda>p. p\<lparr>state := RUNNING\<rparr>) s"
  have "t = ?u\<lparr>held := {ProcLock i}\<rparr>" using run k(3) rn by (simp add: scheduler_body_eq)
  then have s': "s' = snd (usertrapret i h ?u)" and p: "trap_place r = User"
    using r k(3) by (auto simp: forkret_def Let_def split: prod.splits)
  have "kinv {} (snd (usertrapret i h ?u)) (pl(i := User))"
    unfolding usertrapret_def Let_def snd_conv by (rule kinv_views [OF kinv_run [OF k(1,2) rn]]) (simp add: view_def)
  moreover have "held (snd (usertrapret i h ?u)) = {}" using k(3) by (simp add: usertrapret_def Let_def)
  ultimately show ?thesis using births_stay [OF k(1,2)] p unfolding s' by simp
qed

subsection \<open>The transition system\<close>

text \<open>The registers \<open>f\<close> in the trapframe at a trap are those of the user program, any values. Traps
  of the steps are system calls other than the file system's, timer interrupts, page faults and other
  exceptions; the guard on \<open>nextpid\<close> excludes the runs in which that \<^verbatim>\<open>int\<close> overflows.\<close>

inductive kstep :: "u64 \<Rightarrow> 'f fsops \<Rightarrow> 'f filecalls \<Rightarrow> 'f devops \<Rightarrow> 'f kstate \<times> (nat \<Rightarrow> place) \<Rightarrow> 'f kstate \<times> (nat \<Rightarrow> place) \<Rightarrow> bool"
  for kv ops fc dev where
  kstep_trap: "i < NPROC \<Longrightarrow> pl i = User \<Longrightarrow> nextpid s < INT_MAX \<Longrightarrow> t = upd_p i (\<lambda>p. p\<lparr>tf := f\<rparr>) s \<Longrightarrow>
    scause h \<noteq> 0x8000000000000009 \<Longrightarrow> (scause h = 8 \<longrightarrow> syscall_num (proc t ! i) \<notin> file_calls) \<Longrightarrow>
    usertrap kv ops fc dev i h t = Some (r, h', s') \<Longrightarrow>
    kstep kv ops fc dev (s, pl) (s', (births s s' pl)(i := trap_place r))"
| kstep_resume: "i < NPROC \<Longrightarrow> pl i = At k \<Longrightarrow> scheduler_body i s = Some (True, t) \<Longrightarrow>
    resume_trap ops fc k i h t = Some (r, h', s') \<Longrightarrow>
    kstep kv ops fc dev (s, pl) (s', (births s s' pl)(i := trap_place r))"
| kstep_start: "i < NPROC \<Longrightarrow> pl i = Fresh \<Longrightarrow> scheduler_body i s = Some (True, t) \<Longrightarrow>
    forkret init_exec False i h t = Some (r, h', s') \<Longrightarrow>
    kstep kv ops fc dev (s, pl) (s', (births s s' pl)(i := trap_place r))"
| kstep_idle: "clockintr None hart0 s = Some s' \<Longrightarrow> kstep kv ops fc dev (s, pl) (s', pl)"

text \<open>The tables as the linker leaves them, all zero, and the state after \<open>procinit\<close> and
  \<open>userinit\<close>.\<close>

definition zero_proc :: proc where
  "zero_proc = \<lparr>rtime = 0, stime = 0, retime = 0, state = UNUSED, chan = None, killed = 0, priority = 0, xstate = 0,
     pid = 0, parent = None, kstack = 0, sz = 0, pagetable = 0, trapframe_pa = 0, tf = zero_trapframe,
     ctxt = \<lparr>ctx_ra = 0, ctx_sp = 0\<rparr>, ofile = replicate NOFILE None, cwd = None, pname = [], signal_handler = 0,
     signal_registered = 0, alarm_interval = 0, alarm_elapsed = 0, pending_signal = 0, active_signal = 0,
     signal_inflight = 0, signal_tf = zero_trapframe, msg_buf = empty_msg, msg_flag = 0, is_thread = 0, thread_stack = 0\<rparr>"

definition bss_state :: "ksyms \<Rightarrow> pmem \<Rightarrow> 'f \<Rightarrow> 'f kstate" where
  "bss_state y m g = \<lparr>syms = y, proc = replicate NPROC zero_proc, nextpid = 1, initproc = None,
     semtable = replicate NSEM \<lparr>used = 0, sem_value = 0\<rparr>, ticks = 0, held = {}, pm = m, fs = g\<rparr>"

definition booted :: "nat \<Rightarrow> ksyms \<Rightarrow> pmem \<Rightarrow> 'f \<Rightarrow> 'f kstate option" where
  "booted rootdir y m g = userinit rootdir (procinit (bss_state y m g))"

definition boot_places :: "nat \<Rightarrow> place" where
  "boot_places j = (if j = 0 then Fresh else Nowhere)"

definition reachable :: "u64 \<Rightarrow> 'f fsops \<Rightarrow> 'f filecalls \<Rightarrow> 'f devops \<Rightarrow> 'f kstate \<Rightarrow> (nat \<Rightarrow> place) \<Rightarrow> bool" where
  "reachable kv ops fc dev s pl \<longleftrightarrow>
     (\<exists>rootdir y m g b. booted rootdir y m g = Some b \<and> (kstep kv ops fc dev)\<^sup>*\<^sup>* (b, boot_places) (s, pl))"

lemma kstep_good:
  assumes "kstep kv ops fc dev (s, pl) (s', pl')" "kinv {} s pl" "held s = {}"
  shows "kinv {} s' pl' \<and> held s' = {}"
  using assms(1)
proof cases
  case (kstep_trap i t f h r h')
  have "entered t pl i"
    using kinv_views [OF assms(2), of "\<lambda>p. p\<lparr>tf := f\<rparr>" i] kstep_trap assms(3) by (simp add: entered_def view_def)
  from usertrap_good [OF this _ _ _ kstep_trap(8)] kstep_trap show ?thesis by (simp add: births_upd)
next
  case (kstep_resume i k t h r h')
  then have "suspended s pl i k" using assms(2,3) by (auto simp: suspended_def scheduler_body_eq split: if_splits)
  from resume_trap_good [OF this kstep_resume(4,5)] kstep_resume show ?thesis by simp
next
  case (kstep_start i t init_exec h r h')
  from forkret_good [OF assms(2) kstep_start(2) assms(3) kstep_start(4,5)] kstep_start show ?thesis by simp
next
  case (kstep_idle hart0)
  then have "s' = (if hart0 then tick None s else s)" using assms(3) kinvD(1) [OF assms(2)] by (simp add: clockintr_eq)
  then show ?thesis using kinv_tick [OF assms(2), of None] assms kstep_idle by (auto simp: tick_def)
qed

lemma find_first: "P (xs ! 0) \<Longrightarrow> 0 < n \<Longrightarrow> find (\<lambda>i. P (xs ! i)) [0..<n] = Some 0"
  by (cases n) (simp_all add: upt_conv_Cons del: upt_Suc)

lemma booted_inv:
  assumes "booted rootdir y m g = Some b"
  shows "kinv {} b boot_places \<and> held b = {}"
proof -
  let ?s = "procinit (bss_state y m g)"
  have nth: "proc ?s ! j = procinit_proc j zero_proc" if "j < NPROC" for j using that by (simp add: procinit_def bss_state_def)
  have s: "held ?s = {}" "length (proc ?s) = NPROC" "length (semtable ?s) = NSEM" "nextpid ?s = 1"
    by (simp_all add: procinit_def bss_state_def)
  obtain r t where a: "allocproc ?s = Some (r, t)" using assms by (auto simp: booted_def userinit_def split: Option.bind_splits)
  then obtain i where r: "r = Some i" and b: "k_release (ProcLock i)
      (upd_p i (\<lambda>p. p\<lparr>cwd := Some rootdir, state := RUNNABLE\<rparr>) (t\<lparr>initproc := Some i\<rparr>)) = Some b"
    using assms by (auto simp: booted_def userinit_def split: option.splits)
  have z: "state (procinit_proc j zero_proc) = UNUSED" "pid (procinit_proc j zero_proc) = 0" "parent (procinit_proc j zero_proc) = None"
    "priority (procinit_proc j zero_proc) = DEFAULT_PRIORITY" for j by (simp_all add: procinit_proc_def zero_proc_def)
  have "find_proc (\<lambda>p. state p = UNUSED) ?s = Some 0" unfolding find_proc_def
    by (rule find_first) (simp_all add: nth z NPROC_def)
  then have i: "i = 0" using a r s by (auto simp: allocproc_def scan_procs_eq Let_def allocproc_fail_def split: Option.bind_splits prod.splits if_splits)
  from allocproc_eq [OF a s(1,2)] r obtain tfp pt m1 where
    t: "t = (upd_p i (\<lambda>p. (allocproc_fields 1 p)\<lparr>trapframe_pa := tfp, pagetable := pt,
          ctxt := \<lparr>ctx_ra = forkret_addr (syms ?s), ctx_sp = kstack p + PGSIZE\<rparr>\<rparr>) ?s)\<lparr>pm := m1, nextpid := 2, held := {ProcLock i}\<rparr>"
    by (auto simp: slot_claimed_def s to_int32_def)
  let ?q = "(allocproc_fields 1 (proc ?s ! i))\<lparr>trapframe_pa := tfp, pagetable := pt,
          ctxt := \<lparr>ctx_ra = forkret_addr (syms ?s), ctx_sp = kstack (proc ?s ! i) + PGSIZE\<rparr>, cwd := Some rootdir, state := RUNNABLE\<rparr>"
  have il: "i < length (proc ?s)" using s i by (simp add: NPROC_def)
  have beq: "b = (upd_p i (\<lambda>_. ?q) ?s)\<lparr>pm := m1, nextpid := 2, initproc := Some i, held := {}\<rparr>"
    using b il unfolding t by (auto simp: upd_p_def)
  have q: "state ?q = RUNNABLE" "pid ?q = 1" "parent ?q = None" "priority ?q = DEFAULT_PRIORITY"
    using i by (simp_all add: allocproc_fields_def nth z NPROC_def)
  have bn: "proc b ! j = (if j = 0 then ?q else procinit_proc j zero_proc)" if "j < NPROC" for j
    using that s i by (simp add: beq upd_p_nth nth)
  have bs: "nextpid b = 2" "initproc b = Some 0" "held b = {}" "length (proc b) = NPROC" "length (semtable b) = NSEM"
    using s i by (simp_all add: beq)
  define q where "q = ?q"
  have q': "state q = RUNNABLE" "pid q = 1" "parent q = None" "priority q = DEFAULT_PRIORITY" using q by (simp_all add: q_def)
  have bn': "proc b ! j = (if j = 0 then q else procinit_proc j zero_proc)" if "j < NPROC" for j using bn [OF that] by (simp add: q_def)
  have "kinv {} b boot_places"
  proof
    show "length (proc b) = NPROC" "length (semtable b) = NSEM" using bs by simp_all
    show "places {} b boot_places" using q' by (simp add: places_def bn' place_ok_def boot_places_def z)
    show "pids_ok b" using q' by (auto simp: pids_ok_def bn' z bs split: if_splits)
    show "family_ok b" by (rule family_okI [of _ 0]) (use bs q' in \<open>auto simp: bn' z alive_def NPROC_def split: if_splits\<close>)
    show "prios_ok b" using q' by (simp add: prios_ok_def bn' z)
  qed
  then show ?thesis using bs by simp
qed

lemma reachable_inv:
  assumes "reachable kv ops fc dev s pl"
  shows "kinv {} s pl \<and> held s = {}"
proof -
  obtain rootdir y m g b where b: "booted rootdir y m g = Some b" and st: "(kstep kv ops fc dev)\<^sup>*\<^sup>* (b, boot_places) (s, pl)"
    using assms by (auto simp: reachable_def)
  from st booted_inv [OF b] show ?thesis
    by (induction rule: rtranclp_induct2) (use kstep_good in blast)+
qed

end
