(* ===== verification/Kern_Boot.thy ===== *)
theory Kern_Boot
  imports Kern_System Kern_Copy
begin

unbundle bit_operations_syntax

text \<open>
  Start-up: the free list after \<open>kinit\<close>, the page table of a new process and the first process. A
  machine with a handful of free pages boots, and its first process runs into its first system call.
\<close>

subsection \<open>The page table of a process\<close>

lemma page_consts: "TRAMPOLINE = page_addr (2 ^ 26 - 1)" "TRAPFRAME = page_addr (2 ^ 26 - 2)" "PGSIZE = page_addr (Suc 0)"
  by (simp_all add: TRAMPOLINE_def TRAPFRAME_def MAXVA_def PGSIZE_def page_addr_def)

lemma new_pte_valid: "new_pte pa perm AND PTE_V \<noteq> 0"
  unfolding new_pte_def by (metis PTE_V_set or.assoc)

text \<open>Mapping one page with enough pages left.\<close>

lemma mappages_one:
  assumes "pt_ok m pt xs" "4096 * k < 2 ^ 38" "entry m pt (page_addr k) AND PTE_V = 0" "2 \<le> length xs"
  obtains m' xs' where "mappages pt (page_addr k) PGSIZE pa perm m = Some (0, m')" "pt_step pt m xs m' xs'"
    "length xs \<le> length xs' + 2" "\<And>va. va < MAXVA \<Longrightarrow> entry m' pt va = (if vpn va = k then new_pte pa perm else entry m pt va)"
proof -
  have "4096 * (k + 0) < 2 ^ 38" using assms(2) by simp
  note r = mappages_range [OF this, of pt pa perm m]
  have "entry m pt (page_addr (k + j)) AND PTE_V = 0" if "j \<le> 0" for j using assms(3) that by simp
  from mappages_loop_ok [OF assms(1) \<open>4096 * (k + 0) < 2 ^ 38\<close> this, of pa perm] obtain e m' xs' c where
    x: "mappages_loop pt (page_addr k) (page_addr (k + 0)) pa perm m = Some (e, m')" "pt_step pt m xs m' xs'" "c \<le> Suc 0"
    "if c = Suc 0 then e = 0 else e = -1" "2 * Suc 0 \<le> length xs \<longrightarrow> e = 0 \<and> length xs \<le> length xs' + 2 * Suc 0"
    "\<forall>va' < MAXVA. entry m' pt va' =
       (if k \<le> vpn va' \<and> vpn va' < k + c then new_pte (pa + of_nat (vpn va' - k) * PGSIZE) perm else entry m pt va')"
    by blast
  have e: "e = 0" "c = 1" using x(3-5) assms(4) by (auto split: if_splits)
  show ?thesis
  proof (rule that)
    show "mappages pt (page_addr k) PGSIZE pa perm m = Some (0, m')" using r x(1) e(1) by (simp add: page_consts(3))
    show "pt_step pt m xs m' xs'" "length xs \<le> length xs' + 2" using x(2,5) assms(4) by simp_all
    show "entry m' pt va = (if vpn va = k then new_pte pa perm else entry m pt va)" if "va < MAXVA" for va
      using x(6) that e(2) by (auto simp: le_less_Suc_eq)
  qed
qed

lemma uvmcreate_ok:
  assumes "free_pages m (x # xs)"
  obtains m' where "uvmcreate m = (x, m')" "pt_ok m' x xs" "x \<noteq> 0" "\<And>va. entry m' x va = 0" "end_addr m' = end_addr m"
    "subtree m' 2 x = {x}"
proof -
  from kalloc_Cons [OF assms] obtain m1 where m1: "kalloc m = (x, m1)" "free_pages m1 xs" "x \<noteq> 0" "end_addr m1 = end_addr m" "x \<notin> set xs"
    by metis
  let ?m = "zero_page x m1"
  have z: "get_pte ?m (x, i) = 0" for i by (simp add: get_zero_page)
  note E = empty_tree [OF z]
  have "free_pages ?m xs" by (rule free_pages_frame [OF m1(2)]) (use m1(5) in \<open>auto intro!: zero_page_frame(3)\<close>)
  then have "pt_ok ?m x xs" using E m1(5) by (simp add: pt_ok_def)
  with that [of ?m] m1 E show ?thesis by (simp add: uvmcreate_def)
qed

text \<open>With five free pages the table of a new process exists; it maps the trampoline and the trapframe,
  and nothing else.\<close>

lemma proc_pagetable_ok:
  assumes f: "free_pages m xs" and n: "5 \<le> length xs"
  shows "\<exists>pt m' xs'. proc_pagetable tramp tfpa m = Some (pt, m') \<and> pt \<noteq> 0 \<and> pt_ok m' pt xs' \<and> length xs \<le> length xs' + 5 \<and>
    (\<forall>va < MAXVA. entry m' pt va =
       (if vpn va = vpn TRAMPOLINE then new_pte tramp (PTE_R OR PTE_X)
        else if vpn va = vpn TRAPFRAME then new_pte tfpa (PTE_R OR PTE_W) else 0))"
proof -
  obtain x ys where xs: "xs = x # ys" using n by (cases xs) auto
  obtain m1 where m1: "uvmcreate m = (x, m1)" "pt_ok m1 x ys" "x \<noteq> 0" "\<And>va. entry m1 x va = 0"
    using uvmcreate_ok [OF f [unfolded xs]] by metis
  let ?t = "2 ^ 26 - 1 :: nat" and ?f = "2 ^ 26 - 2 :: nat"
  obtain m2 ys2 where m2: "mappages x (page_addr ?t) PGSIZE tramp (PTE_R OR PTE_X) m1 = Some (0, m2)" "pt_step x m1 ys m2 ys2"
    "length ys \<le> length ys2 + 2" "\<And>va. va < MAXVA \<Longrightarrow> entry m2 x va = (if vpn va = ?t then new_pte tramp (PTE_R OR PTE_X) else entry m1 x va)"
    by (rule mappages_one [OF m1(2), of ?t tramp "PTE_R OR PTE_X"]) (use m1(4) n xs in auto)
  have va: "page_addr ?f < MAXVA" "vpn (page_addr ?f) = ?f" "vpn (page_addr ?t) = ?t" by (rule vpn_page_addr; simp)+
  have ok2: "pt_ok m2 x ys2" using m2(2) by (simp add: pt_step_def)
  obtain m3 ys3 where m3: "mappages x (page_addr ?f) PGSIZE tfpa (PTE_R OR PTE_W) m2 = Some (0, m3)" "pt_step x m2 ys2 m3 ys3"
    "length ys2 \<le> length ys3 + 2" "\<And>va. va < MAXVA \<Longrightarrow> entry m3 x va = (if vpn va = ?f then new_pte tfpa (PTE_R OR PTE_W) else entry m2 x va)"
    by (rule mappages_one [OF ok2, of ?f tfpa "PTE_R OR PTE_W"]) (use m2(3,4) m1(4) va n xs in auto)
  have "proc_pagetable tramp tfpa m = Some (x, m3)"
    using m1(1,3) m2(1) m3(1) by (simp add: proc_pagetable_def page_consts(1,2))
  moreover have "pt_ok m3 x ys3" using m3(2) by (simp add: pt_step_def)
  ultimately show ?thesis using m1(3,4) m2(3,4) m3(3,4) xs va unfolding page_consts(1,2)
    by (intro exI [of _ x] exI [of _ m3] exI [of _ ys3]) auto
qed

subsection \<open>The first process\<close>

lemma allocproc_ok:
  assumes s: "held s = {}" "length (proc s) = NPROC" "find_proc (\<lambda>p. state p = UNUSED) s = Some i" and f: "free_pages (pm s) xs" "6 \<le> length xs"
  shows "\<exists>t pt m. allocproc s = Some (Some i, (upd_p i (\<lambda>p. (allocproc_fields (nextpid s) p)\<lparr>trapframe_pa := t, pagetable := pt,
      ctxt := \<lparr>ctx_ra = forkret_addr (syms s), ctx_sp = kstack p + PGSIZE\<rparr>\<rparr>) s)
    \<lparr>pm := m, nextpid := to_int32 (nextpid s + 1), held := {ProcLock i}\<rparr>)"
proof -
  obtain x ys where xs: "xs = x # ys" using f(2) by (cases xs) auto
  from kalloc_Cons [OF f(1) [unfolded xs]] obtain m1 where m1: "kalloc (pm s) = (x, m1)" "free_pages m1 ys" "x \<noteq> 0" by metis
  from proc_pagetable_ok [OF m1(2), of "trampoline (syms s)" x] f(2) xs obtain pt m2
    where m2: "proc_pagetable (trampoline (syms s)) x m1 = Some (pt, m2)" "pt \<noteq> 0" by auto
  have "i < length (proc s)" using find_proc_Some [OF s(3)] s(2) by simp
  then have "allocproc s = Some (Some i, (upd_p i (\<lambda>p. (allocproc_fields (nextpid s) p)\<lparr>trapframe_pa := x, pagetable := pt,
      ctxt := \<lparr>ctx_ra = forkret_addr (syms s), ctx_sp = kstack p + PGSIZE\<rparr>\<rparr>) s)
    \<lparr>pm := m2, nextpid := to_int32 (nextpid s + 1), held := {ProcLock i}\<rparr>)"
    using s m1(1,3) m2 by (simp add: allocproc_def scan_procs_eq allocpid_eq Let_def allocproc_fields_def)
  then show ?thesis by blast
qed

lemma booted_ok:
  assumes "free_pages m xs" "6 \<le> length xs"
  shows "\<exists>b. booted rootdir y m g = Some b \<and> state (proc b ! 0) = RUNNABLE \<and> killed (proc b ! 0) = 0 \<and>
    signal_registered (proc b ! 0) = 0 \<and> pending_signal (proc b ! 0) = 0 \<and> ticks b = 0 \<and> nextpid b = 2"
proof -
  let ?s = "procinit (bss_state y m g)"
  have s: "held ?s = {}" "length (proc ?s) = NPROC" "state (proc ?s ! 0) = UNUSED" "pm ?s = m" "nextpid ?s = 1" "ticks ?s = 0"
    "killed (proc ?s ! 0) = 0"
    by (simp_all add: procinit_def bss_state_def NPROC_def procinit_proc_def zero_proc_def nth_append del: upt_Suc)
  have "find_proc (\<lambda>p. state p = UNUSED) ?s = Some 0" unfolding find_proc_def
    by (rule find_first) (simp_all add: s NPROC_def)
  from allocproc_ok [OF s(1,2) this] assms s(4) show ?thesis
    using s by (fastforce simp: booted_def userinit_def NPROC_def allocproc_fields_def to_int32_def)
qed

text \<open>Memory with eight free pages at its end.\<close>

definition small_mem :: pmem where
  "small_mem = \<lparr>end_addr = PHYSTOP - 0x8000, freelist = 0, pages = (\<lambda>_ _. 0)\<rparr>"

lemma small_mem_init: "\<exists>m xs. kinit small_mem = Some m \<and> free_pages m xs \<and> length xs = 8"
proof -
  have e: "end_addr small_mem = 2281668608" "PHYSTOP = 2281701376" by (simp_all add: small_mem_def PHYSTOP_def KERNBASE_def)
  have up: "PGROUNDUP (end_addr small_mem) = end_addr small_mem" by (simp add: e PGROUNDUP_def PGSIZE_def)
  have "free_pages small_mem []" by (simp add: free_pages_def e) (simp add: small_mem_def)
  from freerange_loop_frees [OF this, of "end_addr small_mem" 557048 8 PHYSTOP]
  obtain m where m: "freerange_loop (end_addr small_mem) PHYSTOP small_mem = Some m"
    "free_pages m (rev (map (\<lambda>i. word_of_nat (4096 * (557048 + i))) [0..<8]))" by (auto simp: e)
  then show ?thesis
    by (intro exI [of _ m] exI [of _ "rev (map (\<lambda>i. word_of_nat (4096 * (557048 + i))) [0..<8])"])
      (simp_all add: kinit_def freerange_def up)
qed

subsection \<open>A run into the first system call\<close>

text \<open>The first process starts and calls \<^verbatim>\<open>pause(5)\<close>.\<close>

definition pause_regs :: trapframe where
  "pause_regs = zero_trapframe\<lparr>a7 := 13, a0 := 5\<rparr>"

definition small_hart :: hart where
  "small_hart = \<lparr>sstatus = 0, sepc = 0, scause = 8, stval = 0, stvec = 0, satp = 0, hartid = 0, mtime = 0, stimecmp = 0,
     claimed = 0, completed = []\<rparr>"

definition asleep_places :: "nat \<Rightarrow> place" where
  "asleep_places j = (if j = 0 then At (InSyscall (InPause 5 0)) else Nowhere)"

lemma start_step:
  assumes b: "kinv {} b pl" "held b = {}" "state (proc b ! 0) = RUNNABLE" "pl 0 = Fresh"
  shows "\<exists>s. kstep kv ops fc dev (b, pl) (s, (births b s pl)(0 := User)) \<and>
    s = upd_p 0 (\<lambda>p. p\<lparr>state := RUNNING, tf := tf (proc s ! 0)\<rparr>) b"
proof -
  have len: "0 < length (proc b)" using kinvD(1) [OF b(1)] by (simp add: NPROC_def)
  have run: "scheduler_body 0 b = Some (True, (upd_p 0 (\<lambda>p. p\<lparr>state := RUNNING\<rparr>) b)\<lparr>held := {ProcLock 0}\<rparr>)"
    using b by (simp add: scheduler_body_eq)
  obtain x h s where r: "forkret (\<lambda>i t. None) False 0 small_hart ((upd_p 0 (\<lambda>p. p\<lparr>state := RUNNING\<rparr>) b)\<lparr>held := {ProcLock 0}\<rparr>) =
      Some (ToUser x, h, s)" and s: "s = upd_p 0 (\<lambda>p. p\<lparr>state := RUNNING, tf := tf (proc s ! 0)\<rparr>) b"
    using b(2) len by (auto simp: forkret_def usertrapret_def Let_def upd_p_def)
  have "kstep kv ops fc dev (b, pl) (s, (births b s pl)(0 := trap_place (ToUser x)))"
    by (rule kstep_start [where i = 0 and pl = pl, OF _ b(4) run r]) (simp add: NPROC_def)
  with s show ?thesis by auto
qed

lemma pause_step:
  assumes s: "kinv {} s pl" "held s = {}" "pl 0 = User" "killed (proc s ! 0) = 0" "ticks s = 0" "nextpid s = 2"
  shows "\<exists>s'. kstep kv ops fc dev (s, pl) (s', (births s s' pl)(0 := At (InSyscall (InPause 5 0)))) \<and> state (proc s' ! 0) = SLEEPING"
proof -
  have len: "0 < length (proc s)" using kinvD(1) [OF s(1)] by (simp add: NPROC_def)
  let ?t = "upd_p 0 (\<lambda>p. p\<lparr>tf := pause_regs\<rparr>) s"
  have num: "syscall_num (proc ?t ! 0) = 13" using len by (simp add: syscall_num_def pause_regs_def zero_trapframe_def)
  obtain h s' where r: "usertrap kv ops fc dev 0 small_hart ?t = Some (Suspended (InSyscall (InPause 5 0)), h, s')"
    and s': "state (proc s' ! 0) = SLEEPING"
    using s(2,4,5) len
    by (auto simp: usertrap_def small_hart_def is_killed_eq Let_def syscall_def syscall_num_def pause_regs_def zero_trapframe_def
        syscalls_def sys_pause_def argint_def argraw_def pause_turn_def sleep_eq set_a0_def after_syscall_def)
  have "kstep kv ops fc dev (s, pl) (s', (births s s' pl)(0 := trap_place (Suspended (InSyscall (InPause 5 0)))))"
    by (rule kstep_trap [where t = ?t and f = pause_regs and h = small_hart, OF _ _ _ _ _ _ r])
      (use s(3,6) num in \<open>simp_all add: NPROC_def small_hart_def file_calls_def INT_MAX_def\<close>)
  with s' show ?thesis by auto
qed

lemma sleeper_reachable:
  fixes ops :: "'f fsops" and dev :: "'f devops"
  shows "\<exists>s pl. reachable kv ops fc dev s pl \<and> state (proc s ! 0) = SLEEPING"
proof -
  fix y :: ksyms and g :: 'f
  obtain m xs where m: "kinit small_mem = Some m" "free_pages m xs" "length xs = 8" using small_mem_init by blast
  obtain b where b: "booted 1 y m g = Some b" "state (proc b ! 0) = RUNNABLE" "killed (proc b ! 0) = 0" "ticks b = 0" "nextpid b = 2"
    using booted_ok [OF m(2), of 1 y g] m(3) by auto
  note I = booted_inv [OF b(1)]
  obtain s where s: "kstep kv ops fc dev (b, boot_places) (s, (births b s boot_places)(0 := User))"
    "s = upd_p 0 (\<lambda>p. p\<lparr>state := RUNNING, tf := tf (proc s ! 0)\<rparr>) b"
    using start_step [of b boot_places kv ops fc dev] I b(2) by (auto simp: boot_places_def)
  have J: "kinv {} s ((births b s boot_places)(0 := User))" "held s = {}" using kstep_good [OF s(1)] I by simp_all
  have len: "0 < length (proc b)" using kinvD(1) [OF conjunct1 [OF I]] by (simp add: NPROC_def)
  have "killed (proc s ! 0) = 0" "ticks s = 0" "nextpid s = 2" using len b(3-5) by (subst s(2), simp)+
  from pause_step [OF J _ this, of kv ops fc dev] obtain s' pl' where
    "kstep kv ops fc dev (s, (births b s boot_places)(0 := User)) (s', pl')" "state (proc s' ! 0) = SLEEPING" by auto
  with s(1) b(1) show ?thesis unfolding reachable_def by (meson rtranclp.rtrancl_into_rtrancl rtranclp.rtrancl_refl)
qed

end
