(* ===== verification/Spinlock.thy ===== *)
theory Spinlock
  imports Prelude
begin

text \<open>
  \<^verbatim>\<open>kernel/spinlock.c\<close> on a machine with several harts. Each hart has the fields of
  \<^verbatim>\<open>struct cpu\<close> the locks use (\<open>noff\<close>, \<open>intena\<close>) and its interrupt-enable bit; a lock has
  the fields of \<^verbatim>\<open>struct spinlock\<close>. \<open>acquire\<close> and \<open>release\<close> are composed of the steps at
  which other harts can interleave: entering, the atomic swap, recording the owner; and in reverse.
  The step relation \<open>lock_step\<close> interleaves the harts, and mutual exclusion is an invariant of it.
\<close>

record cpu_lock =
  noff :: int
  intena :: bool
  sie :: bool

record spinlock =
  locked :: bool
  name :: string
  lk_cpu :: "nat option"

record 'l machine =
  harts :: "nat \<Rightarrow> cpu_lock"
  locks :: "'l \<Rightarrow> spinlock"

subsection \<open>Operations\<close>

definition initlock :: "'l \<Rightarrow> string \<Rightarrow> 'l machine \<Rightarrow> 'l machine" where
  "initlock lk nm m = m\<lparr>locks := (locks m)(lk := \<lparr>locked = False, name = nm, lk_cpu = None\<rparr>)\<rparr>"

definition push_off_hart :: "cpu_lock \<Rightarrow> cpu_lock" where
  "push_off_hart c =
     (let old = sie c; c = c\<lparr>sie := False\<rparr>; c = (if noff c = 0 then c\<lparr>intena := old\<rparr> else c) in
      c\<lparr>noff := noff c + 1\<rparr>)"

definition pop_off_hart :: "cpu_lock \<Rightarrow> cpu_lock option" where
  "pop_off_hart c =
     (if sie c then None
      else if noff c < 1 then None
      else (let c = c\<lparr>noff := noff c - 1\<rparr> in Some (if noff c = 0 \<and> intena c then c\<lparr>sie := True\<rparr> else c)))"

definition push_off :: "nat \<Rightarrow> 'l machine \<Rightarrow> 'l machine" where
  "push_off h m = m\<lparr>harts := (harts m)(h := push_off_hart (harts m h))\<rparr>"

definition pop_off :: "nat \<Rightarrow> 'l machine \<Rightarrow> 'l machine option" where
  "pop_off h m =
     (case pop_off_hart (harts m h) of None \<Rightarrow> None | Some c \<Rightarrow> Some (m\<lparr>harts := (harts m)(h := c)\<rparr>))"

definition holding :: "nat \<Rightarrow> 'l \<Rightarrow> 'l machine \<Rightarrow> bool" where
  "holding h lk m \<longleftrightarrow> locked (locks m lk) \<and> lk_cpu (locks m lk) = Some h"

text \<open>\<open>acquire\<close>: entering (a panic if already held), one turn of the swap loop (\<^const>\<open>None\<close> while
  another hart has the lock), and the assignment of the owner.\<close>

definition acquire_enter :: "nat \<Rightarrow> 'l \<Rightarrow> 'l machine \<Rightarrow> 'l machine option" where
  "acquire_enter h lk m = (let m = push_off h m in if holding h lk m then None else Some m)"

definition acquire_swap :: "'l \<Rightarrow> 'l machine \<Rightarrow> 'l machine option" where
  "acquire_swap lk m =
     (if locked (locks m lk) then None else Some (m\<lparr>locks := (locks m)(lk := (locks m lk)\<lparr>locked := True\<rparr>)\<rparr>))"

definition acquire_own :: "nat \<Rightarrow> 'l \<Rightarrow> 'l machine \<Rightarrow> 'l machine" where
  "acquire_own h lk m = m\<lparr>locks := (locks m)(lk := (locks m lk)\<lparr>lk_cpu := Some h\<rparr>)\<rparr>"

datatype 'm acquired = Acquired 'm | Spinning 'm | Lock_Panic

definition acquire :: "nat \<Rightarrow> 'l \<Rightarrow> 'l machine \<Rightarrow> 'l machine acquired" where
  "acquire h lk m =
     (case acquire_enter h lk m of
        None \<Rightarrow> Lock_Panic
      | Some m \<Rightarrow> (case acquire_swap lk m of None \<Rightarrow> Spinning m | Some m \<Rightarrow> Acquired (acquire_own h lk m)))"

text \<open>\<open>release\<close>: the owner is cleared, the lock word is cleared, and interrupts are popped.\<close>

definition release_disown :: "nat \<Rightarrow> 'l \<Rightarrow> 'l machine \<Rightarrow> 'l machine option" where
  "release_disown h lk m =
     (if \<not> holding h lk m then None else Some (m\<lparr>locks := (locks m)(lk := (locks m lk)\<lparr>lk_cpu := None\<rparr>)\<rparr>))"

definition release_clear :: "'l \<Rightarrow> 'l machine \<Rightarrow> 'l machine" where
  "release_clear lk m = m\<lparr>locks := (locks m)(lk := (locks m lk)\<lparr>locked := False\<rparr>)\<rparr>"

definition release :: "nat \<Rightarrow> 'l \<Rightarrow> 'l machine \<Rightarrow> 'l machine option" where
  "release h lk m = (case release_disown h lk m of None \<Rightarrow> None | Some m \<Rightarrow> pop_off h (release_clear lk m))"

subsection \<open>Interrupt nesting\<close>

fun pops :: "nat \<Rightarrow> cpu_lock \<Rightarrow> cpu_lock option" where
  "pops 0 c = Some c"
| "pops (Suc n) c = Option.bind (pop_off_hart c) (pops n)"

text \<open>While nested, the saved state is the state before the outermost call.\<close>

lemma push_off_nested:
  assumes "noff c = 0"
  shows "(push_off_hart ^^ Suc n) c = \<lparr>noff = int (Suc n), intena = sie c, sie = False\<rparr>"
  using assms by (induction n) (auto simp: push_off_hart_def Let_def)

lemma pops_nested:
  "pops (Suc n) \<lparr>noff = int (Suc n), intena = i, sie = False\<rparr> = Some \<lparr>noff = 0, intena = i, sie = i\<rparr>"
  by (induction n) (auto simp: pop_off_hart_def Let_def)

lemma push_pop_hart:
  assumes "0 \<le> noff c" "noff c = 0 \<longrightarrow> intena c = sie c" "0 < noff c \<longrightarrow> \<not> sie c"
  shows "pop_off_hart (push_off_hart c) = Some c"
  using assms by (cases "noff c = 0") (simp_all add: push_off_hart_def pop_off_hart_def Let_def)

subsection \<open>Interleaved harts\<close>

datatype 'l pc = Running | Spin 'l | Got 'l | Disowned 'l | Popping

record 'l lock_state =
  mach :: "'l machine"
  pcs :: "nat \<Rightarrow> 'l pc"
  crit :: "nat \<Rightarrow> 'l set"

inductive lock_step :: "'l lock_state \<Rightarrow> 'l lock_state \<Rightarrow> bool" where
  enter: "pcs s h = Running \<Longrightarrow> acquire_enter h lk (mach s) = Some m \<Longrightarrow>
    lock_step s (s\<lparr>mach := m, pcs := (pcs s)(h := Spin lk)\<rparr>)"
| swap: "pcs s h = Spin lk \<Longrightarrow> acquire_swap lk (mach s) = Some m \<Longrightarrow>
    lock_step s (s\<lparr>mach := m, pcs := (pcs s)(h := Got lk), crit := (crit s)(h := insert lk (crit s h))\<rparr>)"
| own: "pcs s h = Got lk \<Longrightarrow>
    lock_step s (s\<lparr>mach := acquire_own h lk (mach s), pcs := (pcs s)(h := Running)\<rparr>)"
| disown: "pcs s h = Running \<Longrightarrow> release_disown h lk (mach s) = Some m \<Longrightarrow>
    lock_step s (s\<lparr>mach := m, pcs := (pcs s)(h := Disowned lk)\<rparr>)"
| clear: "pcs s h = Disowned lk \<Longrightarrow>
    lock_step s (s\<lparr>mach := release_clear lk (mach s), pcs := (pcs s)(h := Popping),
      crit := (crit s)(h := crit s h - {lk})\<rparr>)"
| pop: "pcs s h = Popping \<Longrightarrow> pop_off h (mach s) = Some m \<Longrightarrow>
    lock_step s (s\<lparr>mach := m, pcs := (pcs s)(h := Running)\<rparr>)"
| interrupts: "pcs s h = Running \<Longrightarrow> noff (harts (mach s) h) = 0 \<Longrightarrow>
    lock_step s (s\<lparr>mach := (mach s)\<lparr>harts := (harts (mach s))(h := (harts (mach s) h)\<lparr>sie := b\<rparr>)\<rparr>\<rparr>)"

inductive_cases lock_stepE: "lock_step s s'"

text \<open>A machine at rest: every lock free and no hart in a critical section.\<close>

definition lock_init :: "'l lock_state \<Rightarrow> bool" where
  "lock_init s \<longleftrightarrow> (\<forall>h. pcs s h = Running \<and> crit s h = {} \<and> noff (harts (mach s) h) = 0) \<and>
     (\<forall>lk. \<not> locked (locks (mach s) lk) \<and> lk_cpu (locks (mach s) lk) = None)"

text \<open>The pending push of a hart that has not yet entered, or not yet popped.\<close>

definition pending :: "'l pc \<Rightarrow> int" where
  "pending p = (case p of Running \<Rightarrow> 0 | Spin _ \<Rightarrow> 1 | Got _ \<Rightarrow> 0 | Disowned _ \<Rightarrow> 0 | Popping \<Rightarrow> 1)"

definition hart_inv :: "cpu_lock \<Rightarrow> 'l pc \<Rightarrow> 'l set \<Rightarrow> bool" where
  "hart_inv c p cs \<longleftrightarrow> finite cs \<and> noff c = int (card cs) + pending p \<and> (0 < noff c \<longrightarrow> \<not> sie c) \<and>
     (case p of Got lk \<Rightarrow> lk \<in> cs | Disowned lk \<Rightarrow> lk \<in> cs | Spin lk \<Rightarrow> lk \<notin> cs | _ \<Rightarrow> True)"

definition lock_inv :: "'l lock_state \<Rightarrow> bool" where
  "lock_inv s \<longleftrightarrow> (\<forall>h. hart_inv (harts (mach s) h) (pcs s h) (crit s h)) \<and>
     (\<forall>lk. locked (locks (mach s) lk) \<longleftrightarrow> (\<exists>h. lk \<in> crit s h)) \<and>
     (\<forall>lk h h'. lk \<in> crit s h \<longrightarrow> lk \<in> crit s h' \<longrightarrow> h = h') \<and>
     (\<forall>lk h. lk_cpu (locks (mach s) lk) = Some h \<longleftrightarrow> lk \<in> crit s h \<and> pcs s h \<noteq> Got lk \<and> pcs s h \<noteq> Disowned lk)"

lemma lock_init_inv: "lock_init s \<Longrightarrow> lock_inv s"
  by (simp add: lock_init_def lock_inv_def hart_inv_def pending_def)

lemma lock_inv_hart: "lock_inv s \<Longrightarrow> hart_inv (harts (mach s) h) (pcs s h) (crit s h)"
  by (simp add: lock_inv_def)

lemma lock_inv_step:
  assumes "lock_step s s'" "lock_inv s"
  shows "lock_inv s'"
  using assms
proof (induction rule: lock_step.induct)
  case (enter s h lk m)
  have m: "m = push_off h (mach s)" "\<not> holding h lk (push_off h (mach s))"
    using enter(2) by (auto simp: acquire_enter_def Let_def split: if_splits)
  have "lk \<notin> crit s h"
    using enter(1,3) m(2) unfolding lock_inv_def holding_def by (auto simp: push_off_def)
  moreover have "hart_inv (push_off_hart (harts (mach s) h)) (Spin lk) (crit s h)"
    using lock_inv_hart [OF enter(3), of h] enter(1) calculation
    by (auto simp: hart_inv_def pending_def push_off_hart_def Let_def)
  ultimately show ?case using enter(1,3) unfolding lock_inv_def by (auto simp: m(1) push_off_def)
next
  case (swap s h lk m)
  have m: "m = (mach s)\<lparr>locks := (locks (mach s))(lk := (locks (mach s) lk)\<lparr>locked := True\<rparr>)\<rparr>" "\<not> locked (locks (mach s) lk)"
    using swap(2) by (auto simp: acquire_swap_def split: if_splits)
  have free: "\<forall>h. lk \<notin> crit s h" using m(2) swap(3) by (auto simp: lock_inv_def)
  moreover have "lk_cpu (locks (mach s) lk) = None"
    using free swap(3) unfolding lock_inv_def by (metis not_None_eq)
  moreover have "hart_inv (harts (mach s) h) (Got lk) (insert lk (crit s h))"
    using lock_inv_hart [OF swap(3), of h] swap(1) free by (auto simp: hart_inv_def pending_def)
  ultimately show ?case using swap(1,3) unfolding lock_inv_def by (auto simp: m(1))
next
  case (own s h lk)
  have "hart_inv (harts (mach s) h) Running (crit s h)" "lk \<in> crit s h"
    using lock_inv_hart [OF own(2), of h] own(1) by (auto simp: hart_inv_def pending_def)
  then show ?case using own unfolding lock_inv_def by (auto simp: acquire_own_def)
next
  case (disown s h lk m)
  have m: "m = (mach s)\<lparr>locks := (locks (mach s))(lk := (locks (mach s) lk)\<lparr>lk_cpu := None\<rparr>)\<rparr>" "holding h lk (mach s)"
    using disown(2) by (auto simp: release_disown_def split: if_splits)
  have "lk \<in> crit s h" using m(2) disown(3) by (simp add: holding_def lock_inv_def)
  moreover from this have "hart_inv (harts (mach s) h) (Disowned lk) (crit s h)"
    using lock_inv_hart [OF disown(3), of h] disown(1) by (auto simp: hart_inv_def pending_def)
  ultimately show ?case using disown(1,3) unfolding lock_inv_def by (auto simp: m(1))
next
  case (clear s h lk)
  have l: "lk \<in> crit s h" "finite (crit s h)" using lock_inv_hart [OF clear(2), of h] clear(1) by (auto simp: hart_inv_def)
  have "hart_inv (harts (mach s) h) Popping (crit s h - {lk})"
    using lock_inv_hart [OF clear(2), of h] clear(1) l card_Suc_Diff1 [OF l(2,1)] by (auto simp: hart_inv_def pending_def)
  moreover have "lk_cpu (locks (mach s) lk) \<noteq> Some h'" for h'
    using clear l(1) unfolding lock_inv_def by metis
  ultimately show ?case using clear l(1) unfolding lock_inv_def release_clear_def by (auto split: if_splits) metis
next
  case (pop s h m)
  obtain c where c: "pop_off_hart (harts (mach s) h) = Some c" "m = (mach s)\<lparr>harts := (harts (mach s))(h := c)\<rparr>"
    using pop(2) by (auto simp: pop_off_def split: option.splits)
  have "hart_inv c Running (crit s h)"
    using lock_inv_hart [OF pop(3), of h] pop(1) c(1)
    by (auto simp: hart_inv_def pending_def pop_off_hart_def Let_def split: if_splits)
  then show ?case using pop(1,3) unfolding lock_inv_def by (auto simp: c(2))
next
  case (interrupts s h b)
  have "hart_inv ((harts (mach s) h)\<lparr>sie := b\<rparr>) (pcs s h) (crit s h)"
    using lock_inv_hart [OF interrupts(3), of h] interrupts(2) by (simp add: hart_inv_def)
  then show ?case using interrupts(3) unfolding lock_inv_def by auto
qed

lemma lock_inv_reach: "lock_step\<^sup>*\<^sup>* s s' \<Longrightarrow> lock_inv s \<Longrightarrow> lock_inv s'"
  by (induction rule: rtranclp_induct) (auto intro: lock_inv_step)

subsection \<open>The view of one hart\<close>

text \<open>What a kernel function sees of the locks when no other hart interferes: the set of locks the hart
  holds. Acquiring adds to it and releasing removes from it; acquiring a held lock and releasing one that
  is not held are panics.\<close>

definition held_by :: "nat \<Rightarrow> 'l machine \<Rightarrow> 'l set" where
  "held_by h m = {lk. holding h lk m}"

lemma acquire_held:
  assumes "\<forall>lk. locked (locks m lk) \<longrightarrow> lk_cpu (locks m lk) = Some h"
  shows "lk \<in> held_by h m \<Longrightarrow> acquire h lk m = Lock_Panic"
    and "lk \<notin> held_by h m \<Longrightarrow> \<exists>m'. acquire h lk m = Acquired m' \<and> held_by h m' = insert lk (held_by h m) \<and>
      harts m' = (harts m)(h := push_off_hart (harts m h)) \<and>
      (\<forall>lk. locked (locks m' lk) \<longrightarrow> lk_cpu (locks m' lk) = Some h)"
  using assms by (auto simp: acquire_def acquire_enter_def acquire_swap_def acquire_own_def held_by_def holding_def
      push_off_def Let_def split: if_splits)

lemma release_held:
  assumes "\<forall>lk. locked (locks m lk) \<longrightarrow> lk_cpu (locks m lk) = Some h"
    and c: "pop_off_hart (harts m h) = Some c"
  shows "lk \<notin> held_by h m \<Longrightarrow> release h lk m = None"
    and "lk \<in> held_by h m \<Longrightarrow> \<exists>m'. release h lk m = Some m' \<and> held_by h m' = held_by h m - {lk} \<and>
      harts m' = (harts m)(h := c)"
  using assms by (auto simp: release_def release_disown_def release_clear_def held_by_def holding_def pop_off_def
      split: if_splits)

end
