(* ===== verification/Kern_Lock.thy ===== *)
theory Kern_Lock
  imports Kern_State Spinlock
begin

text \<open>
  The lock interface of the kernel as a locale: a set of held locks, which acquiring adds to and
  releasing removes from, both panicking on misuse. The lock operations of the process subsystem are
  one instance; \<^verbatim>\<open>acquire\<close> and \<^verbatim>\<open>release\<close> of \<^verbatim>\<open>kernel/spinlock.c\<close>, as one hart sees
  them, are the other. So what the process subsystem relies on is what the spinlocks provide.
\<close>

locale lock_api =
  fixes acq :: "'l \<Rightarrow> 's \<Rightarrow> 's option" and rel :: "'l \<Rightarrow> 's \<Rightarrow> 's option" and lset :: "'s \<Rightarrow> 'l set" and ok :: "'s \<Rightarrow> bool"
  assumes acq_free: "ok s \<Longrightarrow> l \<notin> lset s \<Longrightarrow> \<exists>s'. acq l s = Some s' \<and> ok s' \<and> lset s' = insert l (lset s)"
    and acq_twice: "ok s \<Longrightarrow> l \<in> lset s \<Longrightarrow> acq l s = None"
    and rel_held: "ok s \<Longrightarrow> l \<in> lset s \<Longrightarrow> \<exists>s'. rel l s = Some s' \<and> ok s' \<and> lset s' = lset s - {l}"
    and rel_free: "ok s \<Longrightarrow> l \<notin> lset s \<Longrightarrow> rel l s = None"
begin

text \<open>A list of locks taken in order.\<close>

primrec acq_all :: "'l list \<Rightarrow> 's \<Rightarrow> 's option" where
  "acq_all [] s = Some s"
| "acq_all (l # ls) s = Option.bind (acq l s) (acq_all ls)"

primrec rel_all :: "'l list \<Rightarrow> 's \<Rightarrow> 's option" where
  "rel_all [] s = Some s"
| "rel_all (l # ls) s = Option.bind (rel l s) (rel_all ls)"

lemma acq_all_ok:
  assumes "ok s" "distinct ls" "set ls \<inter> lset s = {}"
  shows "\<exists>s'. acq_all ls s = Some s' \<and> ok s' \<and> lset s' = lset s \<union> set ls"
  using assms
proof (induction ls arbitrary: s)
  case (Cons l ls)
  then obtain s1 where s1: "acq l s = Some s1" "ok s1" "lset s1 = insert l (lset s)" using acq_free [of s l] by auto
  have "\<exists>s'. acq_all ls s1 = Some s' \<and> ok s' \<and> lset s' = lset s1 \<union> set ls"
    by (rule Cons.IH) (use Cons.prems s1 in auto)
  with s1 show ?case by auto
qed simp

lemma rel_all_ok:
  assumes "ok s" "distinct ls" "set ls \<subseteq> lset s"
  shows "\<exists>s'. rel_all ls s = Some s' \<and> ok s' \<and> lset s' = lset s - set ls"
  using assms
proof (induction ls arbitrary: s)
  case (Cons l ls)
  then obtain s1 where s1: "rel l s = Some s1" "ok s1" "lset s1 = lset s - {l}" using rel_held [of s l] by auto
  have "\<exists>s'. rel_all ls s1 = Some s' \<and> ok s' \<and> lset s' = lset s1 - set ls"
    by (rule Cons.IH) (use Cons.prems s1 in auto)
  with s1 show ?case by auto
qed simp

text \<open>A second acquisition anywhere in the list is the panic of \<^verbatim>\<open>acquire\<close>.\<close>

lemma acq_all_panics:
  assumes "ok s" "\<not> distinct ls \<or> set ls \<inter> lset s \<noteq> {}"
  shows "acq_all ls s = None"
  using assms
proof (induction ls arbitrary: s)
  case (Cons l ls)
  show ?case
  proof (cases "l \<in> lset s")
    case False
    then obtain s1 where s1: "acq l s = Some s1" "ok s1" "lset s1 = insert l (lset s)" using acq_free [OF Cons.prems(1)] by blast
    have "acq_all ls s1 = None" by (rule Cons.IH) (use Cons.prems False s1 in auto)
    with s1(1) show ?thesis by simp
  qed (use Cons.prems acq_twice in simp)
qed simp

text \<open>A critical section whose body keeps the locks leaves them as they were.\<close>

lemma critical_section:
  assumes "ok s" "distinct ls" "set ls \<inter> lset s = {}"
    and body: "\<And>t. ok t \<Longrightarrow> lset t = lset s \<union> set ls \<Longrightarrow> \<exists>t'. body t = Some t' \<and> ok t' \<and> lset t' = lset t"
  shows "\<exists>s'. Option.bind (acq_all ls s) (\<lambda>t. Option.bind (body t) (rel_all (rev ls))) = Some s' \<and> ok s' \<and> lset s' = lset s"
proof -
  obtain t where t: "acq_all ls s = Some t" "ok t" "lset t = lset s \<union> set ls" using acq_all_ok [OF assms(1-3)] by blast
  obtain t' where t': "body t = Some t'" "ok t'" "lset t' = lset t" using body [OF t(2,3)] by blast
  have "set (rev ls) \<subseteq> lset t'" "distinct (rev ls)" using t(3) t'(3) assms(2) by auto
  from rel_all_ok [OF t'(2) this(2,1)] obtain s' where "rel_all (rev ls) t' = Some s'" "ok s'" "lset s' = lset t' - set ls" by auto
  then show ?thesis using t t' assms(3) by (auto simp: Int_commute Un_Diff)
qed

end

subsection \<open>The locks of the process subsystem\<close>

interpretation klocks: lock_api k_acquire k_release held "\<lambda>_. True"
  by unfold_locales (auto simp: k_acquire_def k_release_def)

subsection \<open>Spinlocks\<close>

text \<open>\<open>acquire\<close> as the hart sees it when it returns.\<close>

definition acq_hart :: "nat \<Rightarrow> 'l \<Rightarrow> 'l machine \<Rightarrow> 'l machine option" where
  "acq_hart h lk m = (case acquire h lk m of Acquired m' \<Rightarrow> Some m' | _ \<Rightarrow> None)"

text \<open>A hart that runs alone: every lock taken is its own, and interrupts are nested as deep as it holds
  locks.\<close>

definition hart_ok :: "nat \<Rightarrow> 'l machine \<Rightarrow> bool" where
  "hart_ok h m \<longleftrightarrow> (\<forall>lk. locked (locks m lk) \<longrightarrow> lk_cpu (locks m lk) = Some h) \<and> finite (held_by h m) \<and>
     noff (harts m h) = int (card (held_by h m)) \<and> (held_by h m \<noteq> {} \<longrightarrow> \<not> sie (harts m h))"

lemma acq_hart_free:
  assumes "hart_ok h m" "lk \<notin> held_by h m"
  shows "\<exists>m'. acq_hart h lk m = Some m' \<and> hart_ok h m' \<and> held_by h m' = insert lk (held_by h m)"
proof -
  have own: "\<forall>lk. locked (locks m lk) \<longrightarrow> lk_cpu (locks m lk) = Some h" using assms(1) by (simp add: hart_ok_def)
  from acquire_held(2) [OF own assms(2)] obtain m' where m': "acquire h lk m = Acquired m'" "held_by h m' = insert lk (held_by h m)"
    "harts m' = (harts m)(h := push_off_hart (harts m h))" "\<forall>lk. locked (locks m' lk) \<longrightarrow> lk_cpu (locks m' lk) = Some h" by blast
  then have "hart_ok h m'" using assms by (auto simp: hart_ok_def push_off_hart_def Let_def)
  with m' show ?thesis by (simp add: acq_hart_def)
qed

lemma release_hart:
  assumes "hart_ok h m" "lk \<in> held_by h m"
  shows "\<exists>m'. release h lk m = Some m' \<and> hart_ok h m' \<and> held_by h m' = held_by h m - {lk}"
proof -
  have own: "\<forall>lk. locked (locks m lk) \<longrightarrow> lk_cpu (locks m lk) = Some h" and fin: "finite (held_by h m)"
    and n: "noff (harts m h) = int (card (held_by h m))" and off: "\<not> sie (harts m h)"
    using assms by (auto simp: hart_ok_def)
  have pos: "0 < card (held_by h m)" using assms(2) fin by (auto simp: card_gt_0_iff)
  obtain c where c: "pop_off_hart (harts m h) = Some c" "noff c = noff (harts m h) - 1" "noff c \<noteq> 0 \<Longrightarrow> \<not> sie c"
    using n off pos by (auto simp: pop_off_hart_def Let_def)
  from release_held(2) [OF own c(1) assms(2)] obtain m' where m': "release h lk m = Some m'"
    "held_by h m' = held_by h m - {lk}" "harts m' = (harts m)(h := c)" by blast
  have "\<forall>lk. locked (locks m' lk) \<longrightarrow> lk_cpu (locks m' lk) = Some h"
    using m'(1) own by (auto simp: release_def release_disown_def release_clear_def pop_off_def split: if_splits option.splits)
  moreover have fin': "finite (held_by h m')" and cd: "card (held_by h m') = card (held_by h m) - 1" using m'(2) fin assms(2) by simp_all
  moreover have "noff c \<noteq> 0" if "held_by h m' \<noteq> {}"
  proof -
    have "0 < card (held_by h m')" using that fin' by (simp only: card_gt_0_iff) simp
    then show ?thesis using cd c(2) n by linarith
  qed
  ultimately have "hart_ok h m'" using m'(3) c(2,3) n pos by (simp add: hart_ok_def of_nat_diff)
  with m' show ?thesis by blast
qed

interpretation hart: lock_api "acq_hart h" "release h" "held_by h" "hart_ok h" for h
proof unfold_locales
  fix m :: "'b machine" and lk assume ok: "hart_ok h m"
  have own: "\<forall>lk. locked (locks m lk) \<longrightarrow> lk_cpu (locks m lk) = Some h" using ok by (simp add: hart_ok_def)
  show "lk \<in> held_by h m \<Longrightarrow> acq_hart h lk m = None" using acquire_held(1) [OF own] by (simp add: acq_hart_def)
  show "lk \<notin> held_by h m \<Longrightarrow> release h lk m = None"
    by (simp add: release_def release_disown_def held_by_def)
  show "lk \<notin> held_by h m \<Longrightarrow> \<exists>m'. acq_hart h lk m = Some m' \<and> hart_ok h m' \<and> held_by h m' = insert lk (held_by h m)"
    by (rule acq_hart_free [OF ok])
  show "lk \<in> held_by h m \<Longrightarrow> \<exists>m'. release h lk m = Some m' \<and> hart_ok h m' \<and> held_by h m' = held_by h m - {lk}"
    by (rule release_hart [OF ok])
qed

end
