(* ===== verification/Kern_Vm_Props.thy ===== *)
theory Kern_Vm_Props
  imports Kern_Boot Kern_Lock Kern_String
begin

unbundle bit_operations_syntax

text \<open>
  Properties of the memory side of the kernel and of its locks: the page allocator, page tables and the
  copies to and from user memory, the string functions, and the spinlocks. The witnesses use the
  memory of \<^const>\<open>small_mem\<close> after \<^const>\<open>kinit\<close>.
\<close>

subsection \<open>A small address space\<close>

lemma and_bit: "bit x n \<Longrightarrow> bit y n \<Longrightarrow> x AND y \<noteq> (0 :: u64)"
  by (metis bit_0_eq bit_and_iff bot_apply bot_bool_def)

abbreviation user_rw :: u64 where
  "user_rw \<equiv> PTE_R OR PTE_W OR PTE_U"

lemma new_pte_user:
  assumes "q mod PGSIZE = 0"
  shows "PTE2PA (new_pte q user_rw) = q" "new_pte q user_rw AND PTE_V \<noteq> 0" "new_pte q user_rw AND PTE_U \<noteq> 0"
    "new_pte q user_rw AND PTE_W \<noteq> 0"
proof -
  have n: "new_pte q user_rw = PA2PTE q OR 0x17" by (simp add: new_pte_def or.assoc PTE_R_def PTE_W_def PTE_U_def PTE_V_def)
  have b: "bit (0x17 :: u64) 4" "bit (0x17 :: u64) 2" by (simp_all add: bit_numeral_rec)
  show "PTE2PA (new_pte q user_rw) = q" unfolding n by (rule PTE2PA_PA2PTE [OF assms]) simp
  show "new_pte q user_rw AND PTE_V \<noteq> 0" by (rule new_pte_valid)
  show "new_pte q user_rw AND PTE_U \<noteq> 0" unfolding n by (rule and_bit [of _ 4]) (simp_all add: bit_or_iff b PTE_U_def bit_numeral_rec)
  show "new_pte q user_rw AND PTE_W \<noteq> 0" unfolding n by (rule and_bit [of _ 2]) (simp_all add: bit_or_iff b PTE_W_def bit_numeral_rec)
qed

text \<open>A user page table with one page, at address 0.\<close>

lemma small_space:
  "\<exists>m pt xs. pt_ok m pt xs \<and> uspace m pt \<and> writable m pt 0 \<and> 2 \<le> length xs \<and> (\<forall>va < MAXVA. vpn va \<noteq> 0 \<longrightarrow> entry m pt va = 0)"
proof -
  obtain m0 xs0 where m0: "free_pages m0 xs0" "length xs0 = 8" using small_mem_init by blast
  obtain q x zs where xs0: "xs0 = q # x # zs" "length zs = 6" using m0(2) by (auto simp: length_Suc_conv numeral_eq_Suc)
  from kalloc_Cons [OF m0(1) [unfolded xs0(1)]] obtain m1 where m1: "free_pages m1 (x # zs)" "q \<noteq> 0" "page_ok m0 q" "q \<notin> set (x # zs)" by metis
  obtain m2 where m2: "pt_ok m2 x zs" "\<And>va. entry m2 x va = 0" "subtree m2 2 x = {x}" using uvmcreate_ok [OF m1(1)] by metis
  obtain m3 xs where m3: "pt_step x m2 zs m3 xs" "length zs \<le> length xs + 2"
    "\<And>va. va < MAXVA \<Longrightarrow> entry m3 x va = (if vpn va = 0 then new_pte q user_rw else entry m2 x va)"
    by (rule mappages_one [OF m2(1), of 0 q user_rw]) (use m2(2) xs0(2) in auto)
  have al: "q mod PGSIZE = 0" using m1(3) by (simp add: page_ok_def)
  note N = new_pte_user [OF al]
  have u: "upage m3 x k = (if k = 0 then q else 0)" if "k < 2 ^ 26" for k
  proof -
    have va: "page_addr k < MAXVA" "vpn (page_addr k) = k" using that by (intro vpn_page_addr; simp)+
    have "entry m3 x (page_addr k) = (if k = 0 then new_pte q user_rw else 0)" using m3(3) [OF va(1)] m2(2) va(2) by simp
    then show ?thesis using N va(1) by (cases "k = 0") (simp_all add: upage_def walkaddr_entry)
  qed
  have "subtree m3 2 x \<subseteq> insert x (set zs)" using m3(1) m2(3) by (auto simp: pt_step_def)
  then have "q \<notin> subtree m3 2 x" using m1(4) by auto
  then have "uspace m3 x" using u by (auto simp: uspace_def)
  moreover have "writable m3 x 0" using u [of 0] m1(2) N(4) m3(3) [of "page_addr 0"] vpn_page_addr [of 0] by (simp add: writable_def)
  moreover have "pt_ok m3 x xs" using m3(1) by (simp add: pt_step_def)
  ultimately show ?thesis using m3(2,3) m2(2) xs0(2) by (intro exI [of _ m3] exI [of _ x] exI [of _ xs]) auto
qed

subsection \<open>The page allocator\<close>

text \<open>C35. The free list is a stack of pages: \<open>kfree\<close> pushes an allocatable page that is not free and
  \<open>kalloc\<close> pops it, or returns 0 when nothing is free; a page below \<^verbatim>\<open>end\<close>, at or above
  \<^verbatim>\<open>PHYSTOP\<close> or not aligned is a panic. No page outside the operation is touched, apart from the
  one allocated or freed.\<close>

theorem allocator_refines_stack:
  assumes "free_pages m xs"
  shows "(case xs of
      [] \<Rightarrow> kalloc m = (0, m)
    | x # ys \<Rightarrow> \<exists>m'. kalloc m = (x, m') \<and> free_pages m' ys \<and> page_ok m x \<and> x \<notin> set ys \<and> (\<forall>q. q \<noteq> x \<longrightarrow> pages m' q = pages m q)) \<and>
    (\<forall>pa. if page_ok m pa then pa \<notin> set xs \<longrightarrow> (\<exists>m'. kfree pa m = Some m' \<and> free_pages m' (pa # xs) \<and>
             (\<forall>q. q \<noteq> pa \<longrightarrow> pages m' q = pages m q))
          else kfree pa m = None)"
proof -
  have "case xs of [] \<Rightarrow> kalloc m = (0, m)
    | x # ys \<Rightarrow> \<exists>m'. kalloc m = (x, m') \<and> free_pages m' ys \<and> page_ok m x \<and> x \<notin> set ys \<and> (\<forall>q. q \<noteq> x \<longrightarrow> pages m' q = pages m q)"
  proof (cases xs)
    case (Cons x ys)
    from kalloc_Cons [OF assms [unfolded Cons]] obtain m' where "kalloc m = (x, m')" "free_pages m' ys" "page_ok m x" "x \<notin> set ys"
      "pages m' = (pages m)(x := (\<lambda>_. 5))" by metis
    then show ?thesis unfolding Cons by simp
  qed (use assms kalloc_empty in simp)
  moreover have "\<exists>m'. kfree pa m = Some m' \<and> free_pages m' (pa # xs) \<and> (\<forall>q. q \<noteq> pa \<longrightarrow> pages m' q = pages m q)"
    if "page_ok m pa" "pa \<notin> set xs" for pa using kfree_free [OF assms that] by metis
  ultimately show ?thesis using kfree_panics by auto
qed

theorem allocator_refines_stack_witness:
  "\<exists>m xs. kinit small_mem = Some m \<and> length xs = 8 \<and> free_pages m xs \<and>
     (\<exists>m'. kalloc m = (hd xs, m') \<and> free_pages m' (tl xs) \<and> page_ok m (hd xs) \<and> hd xs \<notin> set (tl xs))"
proof -
  obtain m xs where m: "kinit small_mem = Some m" "free_pages m xs" "length xs = 8" using small_mem_init by blast
  then obtain x ys where "xs = x # ys" by (cases xs) auto
  with allocator_refines_stack [OF m(2)] m show ?thesis by (intro exI [of _ m] exI [of _ xs]) auto
qed

subsection \<open>Page tables\<close>

text \<open>C31. A page table is a map from pages to entries, and \<open>mappages\<close> updates it: over \<open>n + 1\<close> unmapped
  pages from page \<open>k\<close> on it installs the entries of consecutive physical pages and leaves every other
  entry as it was, with \<open>walkaddr\<close> and \<open>ismapped\<close> reading the map. It fails with -1 only when
  fewer than two free pages per page of the range are left, and then a prefix of the range is mapped.
  Only table pages and pages taken from the free list are written.\<close>

theorem mappages_updates_map:
  assumes "pt_ok m pt xs" "4096 * (k + n) < 2 ^ 38" "\<And>j. j \<le> n \<Longrightarrow> entry m pt (page_addr (k + j)) AND PTE_V = 0"
  shows "\<exists>e m' xs' c. mappages pt (page_addr k) (page_addr (Suc n)) pa perm m = Some (e, m') \<and> pt_ok m' pt xs' \<and>
    c \<le> Suc n \<and> (if c = Suc n then e = 0 else e = -1) \<and> (2 * Suc n \<le> length xs \<longrightarrow> e = 0) \<and>
    (\<forall>va < MAXVA. entry m' pt va =
       (if k \<le> vpn va \<and> vpn va < k + c then PA2PTE (pa + of_nat (vpn va - k) * PGSIZE) OR perm OR PTE_V else entry m pt va)) \<and>
    (\<forall>va. walkaddr pt va m' =
       (if va < MAXVA \<and> entry m' pt va AND PTE_V \<noteq> 0 \<and> entry m' pt va AND PTE_U \<noteq> 0 then PTE2PA (entry m' pt va) else 0)) \<and>
    (\<forall>va < MAXVA. ismapped pt va m' = Some (entry m' pt va AND PTE_V \<noteq> 0)) \<and>
    (\<forall>q. q \<notin> subtree m 2 pt \<and> q \<notin> set xs \<longrightarrow> pages m' q = pages m q)"
proof -
  from mappages_loop_ok [OF assms, of pa perm] obtain e m' xs' c where
    r: "mappages_loop pt (page_addr k) (page_addr (k + n)) pa perm m = Some (e, m')" "pt_step pt m xs m' xs'"
    "c \<le> Suc n" "if c = Suc n then e = 0 else e = -1" "2 * Suc n \<le> length xs \<longrightarrow> e = 0 \<and> length xs \<le> length xs' + 2 * Suc n"
    "\<forall>va < MAXVA. entry m' pt va =
       (if k \<le> vpn va \<and> vpn va < k + c then new_pte (pa + of_nat (vpn va - k) * PGSIZE) perm else entry m pt va)" by blast
  have "mappages pt (page_addr k) (page_addr (Suc n)) pa perm m = Some (e, m')" using r(1) by (simp only: mappages_range [OF assms(2)])
  moreover have "pt_ok m' pt xs'" "\<forall>q. q \<notin> subtree m 2 pt \<and> q \<notin> set xs \<longrightarrow> pages m' q = pages m q"
    using r(2) unfolding pt_step_def by blast+
  ultimately show ?thesis using r(3-6) walkaddr_entry ismapped_entry unfolding new_pte_def
    by (intro exI [of _ e] exI [of _ m'] exI [of _ xs'] exI [of _ c]) simp
qed

theorem mappages_updates_map_witness:
  "\<exists>m pt m'. mappages pt (page_addr 3) (page_addr 1) 0x80000000 user_rw m = Some (0, m') \<and>
     walkaddr pt (page_addr 3) m = 0 \<and> walkaddr pt (page_addr 3) m' = 0x80000000"
proof -
  obtain m pt xs where m: "pt_ok m pt xs" "2 \<le> length xs" "\<And>va. va < MAXVA \<Longrightarrow> vpn va \<noteq> 0 \<Longrightarrow> entry m pt va = 0"
    using small_space by metis
  have va: "page_addr 3 < MAXVA" "vpn (page_addr 3) = 3" by (rule vpn_page_addr; simp)+
  have e0: "entry m pt (page_addr 3) = 0" using m(3) [OF va(1)] va(2) by simp
  have pre: "entry m pt (page_addr (3 + j)) AND PTE_V = 0" if "j \<le> 0" for j using that e0 by simp
  from mappages_updates_map [where n = 0 and k = 3 and pa = "0x80000000" and perm = user_rw, OF m(1) _ pre] m(2) obtain e m' c
    where r: "mappages pt (page_addr 3) (page_addr (Suc 0)) 0x80000000 user_rw m = Some (e, m')" "e = 0" "c \<le> Suc 0"
      "if c = Suc 0 then e = 0 else e = -1"
      "\<forall>va < MAXVA. entry m' pt va =
         (if 3 \<le> vpn va \<and> vpn va < 3 + c then PA2PTE (0x80000000 + of_nat (vpn va - 3) * PGSIZE) OR user_rw OR PTE_V else entry m pt va)"
      "\<forall>va. walkaddr pt va m' =
         (if va < MAXVA \<and> entry m' pt va AND PTE_V \<noteq> 0 \<and> entry m' pt va AND PTE_U \<noteq> 0 then PTE2PA (entry m' pt va) else 0)"
    by auto
  have "c = 1" using r(2-4) by (auto split: if_splits)
  then have "entry m' pt (page_addr 3) = new_pte 0x80000000 user_rw" using r(5) va by (simp add: new_pte_def)
  then have "walkaddr pt (page_addr 3) m' = 0x80000000" using r(6) va(1) new_pte_user [of "0x80000000"] by (simp add: PGSIZE_def)
  then show ?thesis using r(1,2) e0 by (intro exI [of _ m] exI [of _ pt] exI [of _ m']) (simp add: walkaddr_entry)
qed

text \<open>\<open>uvmunmap\<close> clears exactly the valid entries of its range. With \<^verbatim>\<open>do_free\<close> every page they
  point to goes back to the free list, once, provided the pages are owned by the range (allocatable,
  mapped once, outside the table and not free); no other page outside the table changes.\<close>

theorem uvmunmap_clears_and_frees:
  assumes "pt_ok m pt xs" "4096 * (k + n) \<le> 2 ^ 38" "0 < n" "do_free \<Longrightarrow> owns m pt xs (owned m pt k n)"
  shows "\<exists>m'. uvmunmap pt (page_addr k) (of_nat n) do_free m = Some m' \<and>
    pt_ok m' pt ((if do_free then rev (owned m pt k n) else []) @ xs) \<and>
    (\<forall>va < MAXVA. entry m' pt va =
       (if k \<le> vpn va \<and> vpn va < k + n \<and> entry m pt (page_addr (vpn va)) AND PTE_V \<noteq> 0 then 0 else entry m pt va)) \<and>
    (\<forall>q. q \<notin> subtree m 2 pt \<and> q \<notin> set (owned m pt k n) \<longrightarrow> pages m' q = pages m q)"
proof -
  have al: "page_addr k mod PGSIZE = 0" by (rule vpn_page_addr(4)) (use assms(2,3) in simp)
  have "uvmunmap pt (page_addr k) (of_nat n) do_free m = uvmunmap_loop pt (page_addr k) (page_addr (k + n)) do_free m"
    using al by (simp add: uvmunmap_def page_addr_add)
  then show ?thesis using uvmunmap_loop_ok [OF assms(1,2,4)] by (simp only:) blast
qed

theorem uvmunmap_clears_and_frees_witness:
  "\<exists>m pt m'. uvmunmap pt (page_addr 0) (of_nat 1) False m = Some m' \<and>
     entry m pt (page_addr 0) AND PTE_V \<noteq> 0 \<and> entry m' pt (page_addr 0) = 0"
proof -
  obtain m pt xs where m: "pt_ok m pt xs" "writable m pt 0" using small_space by metis
  have va: "page_addr 0 < MAXVA" "vpn (page_addr 0) = 0" by (rule vpn_page_addr; simp)+
  have v: "entry m pt (page_addr 0) AND PTE_V \<noteq> 0"
    using m(2) by (auto simp: writable_def upage_def walkaddr_entry split: if_splits)
  from uvmunmap_clears_and_frees [OF m(1), of 0 1 False] obtain m' where
    "uvmunmap pt (page_addr 0) (of_nat 1) False m = Some m'"
    "\<forall>va < MAXVA. entry m' pt va = (if vpn va = 0 \<and> entry m pt (page_addr (vpn va)) AND PTE_V \<noteq> 0 then 0 else entry m pt va)" by auto
  then show ?thesis using v va by (intro exI [of _ m] exI [of _ pt] exI [of _ m']) simp
qed

subsection \<open>User memory\<close>

text \<open>C32. Copying out and back in: where the pages are mapped writable for the user, \<open>copyout\<close> succeeds,
  \<open>copyin\<close> of the same range gives the bytes back, and every other byte of the address space, the page
  table and the free list are as before, across any number of page boundaries.\<close>

theorem copyout_copyin_roundtrip:
  assumes "uspace m pt" "a + length src \<le> 2 ^ 38" "\<And>i. i < length src \<Longrightarrow> writable m pt ((a + i) div 4096)"
  shows "\<exists>m'. copyout psz ppt pt (word_of_nat a) src m = Some (0, m') \<and>
    copyin psz' ppt' pt (word_of_nat a) (length src) m' = Some (Some src, m') \<and>
    (\<forall>b < 2 ^ 38. upage m pt (b div 4096) \<noteq> 0 \<and> (b < a \<or> a + length src \<le> b) \<longrightarrow> ubyte m' pt b = ubyte m pt b) \<and>
    (\<forall>va. entry m' pt va = entry m pt va) \<and> freelist m' = freelist m"
proof -
  from copyout_ok [OF assms] obtain m' where m': "copyout psz ppt pt (word_of_nat a) src m = Some (0, m')" "wrote m pt a src m'" by blast
  have up: "upage m' pt k = upage m pt k" for k by (rule wrote_upage [OF m'(2)])
  have w: "upage m pt ((a + i) div 4096) \<noteq> 0" if "i < length src" for i using assms(3) [OF that] by (simp add: writable_def)
  have "copyin psz' ppt' pt (word_of_nat a) (length src) m' = Some (Some (ubytes m' pt a (length src)), m')"
    using copyin_loop_ok [OF assms(2), of m' pt] w up by (simp add: copyin_def)
  moreover have "ubytes m' pt a (length src) = src" by (rule wrote_ubytes [OF m'(2) assms(2) w])
  ultimately show ?thesis using m' unfolding wrote_def by auto
qed

theorem copyout_copyin_roundtrip_witness:
  "\<exists>m pt m'. copyout 0 pt pt (word_of_nat 10) [104, 105, 0] m = Some (0, m') \<and>
     copyin 0 pt pt (word_of_nat 10) 3 m' = Some (Some [104, 105, 0], m')"
proof -
  obtain m pt where m: "uspace m pt" "writable m pt 0" using small_space by metis
  have "writable m pt ((10 + i) div 4096)" if "i < length [104, 105, 0 :: byte]" for i using m(2) that by simp
  from copyout_copyin_roundtrip [where a = 10 and src = "[104, 105, 0]" and psz = 0 and ppt = pt and psz' = 0 and ppt' = pt, OF m(1) _ this]
  obtain m' where "copyout 0 pt pt (word_of_nat 10) [104, 105, 0] m = Some (0, m')"
    "copyin 0 pt pt (word_of_nat 10) (length [104, 105, 0 :: byte]) m' = Some (Some [104, 105, 0], m')" by auto
  then have "copyout 0 pt pt (word_of_nat 10) [104, 105, 0] m = Some (0, m') \<and>
      copyin 0 pt pt (word_of_nat 10) 3 m' = Some (Some [104, 105, 0], m')" by (simp add: numeral_3_eq_3)
  then show ?thesis by blast
qed

text \<open>\<open>copyinstr\<close> ends on every input, whatever the address and the page table, and writes at most
  \<^verbatim>\<open>max\<close> bytes; when it reports success the last byte written is the NUL.\<close>

theorem copyinstr_ends: "\<exists>w ok. copyinstr pt va mx m = Some (w, ok) \<and> length w \<le> mx \<and> (ok \<longrightarrow> w \<noteq> [] \<and> last w = 0)"
  using copyinstr_total [of pt va mx "[]" m] by (auto simp: copyinstr_def)

theorem copyinstr_ends_witness: "\<exists>w ok. copyinstr 0 MAXVA 64 small_mem = Some (w, ok) \<and> length w \<le> 64 \<and> (ok \<longrightarrow> w \<noteq> [] \<and> last w = 0)"
  using copyinstr_ends [of 0 MAXVA 64 small_mem] .

subsection \<open>Strings\<close>

text \<open>\<open>memmove\<close> is the simultaneous copy, whichever way the regions overlap: each destination byte is the
  source byte as it was before the call, and nothing else changes.\<close>

theorem memmove_is_copy: "memmove m dst src n = (\<lambda>a. if dst \<le> a \<and> a < dst + n then m (src + (a - dst)) else m a)"
  by (rule memmove_eq)

subsection \<open>Spinlocks\<close>

text \<open>C33. Mutual exclusion: from a machine at rest, whatever the interleaving of the harts, no lock is in two
  critical sections at once, a hart in a critical section has interrupts off, and the owner recorded in
  a lock is in its critical section.\<close>

theorem spinlock_mutual_exclusion:
  assumes "lock_init i" "lock_step\<^sup>*\<^sup>* i s"
  shows "(\<forall>lk h h'. lk \<in> crit s h \<and> lk \<in> crit s h' \<longrightarrow> h = h') \<and>
    (\<forall>h. crit s h \<noteq> {} \<longrightarrow> \<not> sie (harts (mach s) h)) \<and>
    (\<forall>lk h. holding h lk (mach s) \<longrightarrow> lk \<in> crit s h)"
proof -
  have inv: "lock_inv s" using lock_inv_reach [OF assms(2) lock_init_inv [OF assms(1)]] .
  have "\<not> sie (harts (mach s) h)" if "crit s h \<noteq> {}" for h
  proof -
    have h: "finite (crit s h)" "noff (harts (mach s) h) = int (card (crit s h)) + pending (pcs s h)"
      "0 < noff (harts (mach s) h) \<longrightarrow> \<not> sie (harts (mach s) h)" using lock_inv_hart [OF inv, of h] by (auto simp: hart_inv_def)
    have "0 < card (crit s h)" using that h(1) by (simp add: card_gt_0_iff)
    moreover have "0 \<le> pending (pcs s h)" by (simp add: pending_def split: pc.splits)
    ultimately show ?thesis using h by simp
  qed
  then show ?thesis using inv unfolding lock_inv_def holding_def by blast
qed

definition idle_locks :: "nat lock_state" where
  "idle_locks = \<lparr>mach = \<lparr>harts = (\<lambda>_. \<lparr>noff = 0, intena = False, sie = True\<rparr>),
     locks = (\<lambda>_. \<lparr>locked = False, name = [], lk_cpu = None\<rparr>)\<rparr>, pcs = (\<lambda>_. Running), crit = (\<lambda>_. {})\<rparr>"

theorem spinlock_mutual_exclusion_witness:
  "\<exists>s. lock_step\<^sup>*\<^sup>* idle_locks s \<and> crit s 0 = {7} \<and> \<not> sie (harts (mach s) 0)"
proof -
  let ?m1 = "push_off 0 (mach idle_locks)"
  let ?s1 = "idle_locks\<lparr>mach := ?m1, pcs := (pcs idle_locks)(0 := Spin 7)\<rparr>"
  let ?m2 = "?m1\<lparr>locks := (locks ?m1)(7 := (locks ?m1 7)\<lparr>locked := True\<rparr>)\<rparr>"
  let ?s2 = "?s1\<lparr>mach := ?m2, pcs := (pcs ?s1)(0 := Got 7), crit := (crit ?s1)(0 := insert 7 (crit ?s1 0))\<rparr>"
  have "lock_step idle_locks ?s1"
    by (rule enter) (simp_all add: idle_locks_def acquire_enter_def Let_def holding_def push_off_def)
  moreover have "lock_step ?s1 ?s2"
    by (rule swap) (simp_all add: idle_locks_def acquire_swap_def push_off_def)
  ultimately have run: "lock_step\<^sup>*\<^sup>* idle_locks ?s2" by simp
  have "lock_init idle_locks" by (simp add: lock_init_def idle_locks_def)
  from spinlock_mutual_exclusion [OF this run] have "crit ?s2 0 \<noteq> {} \<longrightarrow> \<not> sie (harts (mach ?s2) 0)" by blast
  moreover have "crit ?s2 0 = {7}" by (simp add: idle_locks_def)
  ultimately show ?thesis using run by (intro exI [of _ ?s2]) simp
qed

text \<open>The lock operations of the process subsystem are what the spinlocks provide to a hart that is not
  interfered with: taking a list of different free locks succeeds and adds them, taking a lock twice is a
  panic, and releasing them in reverse restores the set of locks held and the interrupt state.\<close>

theorem spinlock_refines_lock_set:
  assumes "hart_ok h m" "lk \<notin> held_by h m"
  shows "\<exists>m1 m2. acquire h lk m = Acquired m1 \<and> hart_ok h m1 \<and> held_by h m1 = insert lk (held_by h m) \<and>
    acquire h lk m1 = Lock_Panic \<and> release h lk m1 = Some m2 \<and> hart_ok h m2 \<and> held_by h m2 = held_by h m \<and>
    (held_by h m = {} \<longrightarrow> sie (harts m2 h) = sie (harts m h)) \<and> release h lk m = None"
proof -
  obtain m1 where m1: "acq_hart h lk m = Some m1" "hart_ok h m1" "held_by h m1 = insert lk (held_by h m)" using hart.acq_free [OF assms] by blast
  then obtain m2 where m2: "release h lk m1 = Some m2" "hart_ok h m2" "held_by h m2 = held_by h m" using hart.rel_held [of h m1 lk] assms(2) by auto
  have a: "acquire h lk m = Acquired m1" using m1(1) by (auto simp: acq_hart_def split: acquired.splits)
  have own: "\<forall>lk. locked (locks m lk) \<longrightarrow> lk_cpu (locks m lk) = Some h" "\<forall>lk. locked (locks m1 lk) \<longrightarrow> lk_cpu (locks m1 lk) = Some h"
    using assms(1) m1(2) by (simp_all add: hart_ok_def)
  have h1: "harts m1 h = push_off_hart (harts m h)" using acquire_held(2) [OF own(1) assms(2)] a by auto
  have p: "acquire h lk m1 = Lock_Panic" using acquire_held(1) [OF own(2)] m1(3) by auto
  have "sie (harts m2 h) = sie (harts m h)" if "held_by h m = {}"
  proof -
    have z: "noff (harts m h) = 0" using assms(1) that by (simp add: hart_ok_def)
    obtain c where c: "pop_off_hart (harts m1 h) = Some c" "harts m2 h = c"
      using m2(1) by (auto simp: release_def pop_off_def release_disown_def release_clear_def split: if_splits option.splits)
    have "sie c = sie (harts m h)" using z c(1) by (cases "sie (harts m h)") (auto simp: h1 push_off_hart_def pop_off_hart_def Let_def)
    then show ?thesis by (simp add: c(2))
  qed
  then show ?thesis using a m1 m2 p hart.rel_free [OF assms] by blast
qed

theorem spinlock_refines_lock_set_witness:
  "\<exists>m1 m2. acquire 0 (7 :: nat) (mach idle_locks) = Acquired m1 \<and> release 0 7 m1 = Some m2 \<and> sie (harts m2 0)"
proof -
  have "held_by 0 (mach idle_locks) = {}" by (simp add: held_by_def holding_def idle_locks_def)
  moreover from this have "hart_ok 0 (mach idle_locks)" unfolding hart_ok_def by (simp add: idle_locks_def)
  ultimately show ?thesis using spinlock_refines_lock_set [of 0 "mach idle_locks" 7] by (auto simp: idle_locks_def)
qed

end
