(* ===== verification/Kern_Sem.thy ===== *)
theory Kern_Sem
  imports Kern_System
begin

text \<open>
  The semaphores of \<^verbatim>\<open>kernel/proc.c\<close> against their abstract specification: a partial map from
  identifiers to values. The locale \<open>counting_semaphore\<close> states what a client relies on (each post
  adds one, each completed wait takes one from a positive value, a wait on zero blocks) and derives
  the conservation of units along any sequence of calls; the kernel's semaphores interpret it.
\<close>

subsection \<open>Specification\<close>

definition sem_abs :: "'f kstate \<Rightarrow> int \<Rightarrow> int option" where
  "sem_abs s sid = (if semid_ok sid \<and> used (semtable s ! nat sid) \<noteq> 0 then Some (sem_value (semtable s ! nat sid)) else None)"

definition spec_init :: "int \<Rightarrow> int \<Rightarrow> (int \<Rightarrow> int option) \<Rightarrow> int \<times> (int \<Rightarrow> int option)" where
  "spec_init sid v A = (if semid_ok sid \<and> 0 \<le> v then (0, A(sid \<mapsto> v)) else (-1, A))"

definition spec_post :: "int \<Rightarrow> (int \<Rightarrow> int option) \<Rightarrow> int \<times> (int \<Rightarrow> int option)" where
  "spec_post sid A = (case A sid of None \<Rightarrow> (-1, A) | Some v \<Rightarrow> (0, A(sid \<mapsto> to_int32 (v + 1))))"

definition spec_wait :: "int \<Rightarrow> (int \<Rightarrow> int option) \<Rightarrow> int outcome \<times> (int \<Rightarrow> int option)" where
  "spec_wait sid A =
     (case A sid of
        None \<Rightarrow> (Return (-1), A)
      | Some v \<Rightarrow> if v = 0 then (Blocked, A) else (Return 0, A(sid \<mapsto> to_int32 (v - 1))))"

lemma sem_abs_wake [simp]: "sem_abs (wake c ch s) = sem_abs s"
  by (simp add: sem_abs_def fun_eq_iff)

lemma sem_abs_upd_p [simp]: "sem_abs (upd_p i f s) = sem_abs s"
  by (simp add: sem_abs_def fun_eq_iff)

lemma semid_less: "semid_ok x \<Longrightarrow> nat x < NSEM"
  by (auto simp: semid_ok_def nat_less_iff)

lemma sem_abs_upd:
  assumes "length (semtable s) = NSEM" "semid_ok sid" "used (f (semtable s ! nat sid)) \<noteq> 0"
  shows "sem_abs (upd_sem (nat sid) f s) = (sem_abs s)(sid \<mapsto> sem_value (f (semtable s ! nat sid)))"
proof
  fix x
  have "nat sid < NSEM" using assms(2) by (rule semid_less)
  moreover have "semid_ok x \<Longrightarrow> (nat x = nat sid) = (x = sid)" using assms(2) by (auto simp: semid_ok_def)
  moreover have "semid_ok x \<Longrightarrow> nat x < NSEM" by (rule semid_less)
  ultimately show "sem_abs (upd_sem (nat sid) f s) x = ((sem_abs s)(sid \<mapsto> sem_value (f (semtable s ! nat sid)))) x"
    using assms by (auto simp: sem_abs_def upd_sem_nth)
qed

definition sems_ready :: "'f kstate \<Rightarrow> bool" where
  "sems_ready s \<longleftrightarrow> held s = {} \<and> length (proc s) = NPROC \<and> length (semtable s) = NSEM"

lemma ksem_init_refines:
  assumes "sems_ready s"
  shows "map_option (\<lambda>(r, s'). (r, sem_abs s')) (ksem_init cur sid v s) = Some (spec_init sid v (sem_abs s))"
  using assms by (auto simp: sems_ready_def ksem_init_eq spec_init_def sem_abs_upd)

lemma ksem_post_refines:
  assumes "sems_ready s"
  shows "map_option (\<lambda>(r, s'). (r, sem_abs s')) (ksem_post cur sid s) = Some (spec_post sid (sem_abs s))"
  using assms by (auto simp: sems_ready_def ksem_post_eq spec_post_def sem_abs_upd) (simp_all add: sem_abs_def)

lemma ksem_wait_refines:
  assumes "sems_ready s" "cur < NPROC"
  shows "map_option (\<lambda>(r, s'). (r, sem_abs s')) (ksem_wait cur sid s) = Some (spec_wait sid (sem_abs s))"
  using assms by (auto simp: sems_ready_def ksem_wait_eq sem_wait_effect_def spec_wait_def sem_abs_upd) (simp_all add: sem_abs_def)

subsection \<open>Conservation\<close>

text \<open>A sequence of calls: \<^const>\<open>True\<close> is a post, \<^const>\<open>False\<close> a wait. The results in order.\<close>

primrec sem_calls :: "('p \<Rightarrow> 's \<Rightarrow> (int outcome \<times> 's) option) \<Rightarrow> ('p \<Rightarrow> 's \<Rightarrow> (int outcome \<times> 's) option) \<Rightarrow>
    ('p \<times> bool) list \<Rightarrow> 's \<Rightarrow> (int outcome list \<times> 's) option" where
  "sem_calls post wait [] s = Some ([], s)"
| "sem_calls post wait (c # cs) s =
     (case (if snd c then post (fst c) s else wait (fst c) s) of
        None \<Rightarrow> None
      | Some (r, s') \<Rightarrow> map_option (\<lambda>(rs, t). (r # rs, t)) (sem_calls post wait cs s'))"

definition posts :: "('p \<times> bool) list \<Rightarrow> nat" where
  "posts cs = length (filter snd cs)"

definition taken :: "('p \<times> bool) list \<Rightarrow> int outcome list \<Rightarrow> nat" where
  "taken cs rs = length (filter (\<lambda>(c, r). \<not> snd c \<and> r = Return 0) (zip cs rs))"

locale counting_semaphore =
  fixes units :: "'s \<Rightarrow> int" and ok :: "'s \<Rightarrow> bool"
    and post :: "'p \<Rightarrow> 's \<Rightarrow> (int outcome \<times> 's) option" and wait :: "'p \<Rightarrow> 's \<Rightarrow> (int outcome \<times> 's) option"
    and bound :: int and caller :: "'p \<Rightarrow> bool"
  assumes units_pos: "ok s \<Longrightarrow> 0 \<le> units s"
    and post: "ok s \<Longrightarrow> units s < bound \<Longrightarrow> \<exists>s'. post p s = Some (Return 0, s') \<and> ok s' \<and> units s' = units s + 1"
    and wait_takes: "ok s \<Longrightarrow> caller p \<Longrightarrow> 0 < units s \<Longrightarrow> \<exists>s'. wait p s = Some (Return 0, s') \<and> ok s' \<and> units s' = units s - 1"
    and wait_blocks: "ok s \<Longrightarrow> caller p \<Longrightarrow> units s = 0 \<Longrightarrow> \<exists>s'. wait p s = Some (Blocked, s') \<and> ok s' \<and> units s' = 0"
begin

lemma calls_conserve:
  assumes "ok s" "units s + int (posts cs) \<le> bound" "\<forall>c \<in> set cs. caller (fst c)"
  shows "\<exists>rs t. sem_calls post wait cs s = Some (rs, t) \<and> ok t \<and> length rs = length cs \<and> units t + int (taken cs rs) = units s + int (posts cs)"
  using assms
proof (induction cs arbitrary: s)
  case Nil
  then show ?case by (simp add: posts_def taken_def)
next
  case (Cons c cs)
  consider (post) "snd c" | (takes) "\<not> snd c" "0 < units s" | (blocks) "\<not> snd c" "units s = 0"
    using units_pos [OF Cons.prems(1)] by linarith
  then obtain r s1 where s1: "(if snd c then post (fst c) s else wait (fst c) s) = Some (r, s1)" "ok s1"
    "units s1 + (if \<not> snd c \<and> r = Return 0 then 1 else 0) = units s + (if snd c then 1 else 0)"
  proof cases
    case post
    then have "units s < bound" using Cons.prems(2) by (simp add: posts_def)
    with post that Cons.prems(1) counting_semaphore.post [OF counting_semaphore_axioms] show ?thesis by fastforce
  next
    case takes
    with that wait_takes [OF Cons.prems(1) _ takes(2), of "fst c"] Cons.prems(3) show ?thesis by fastforce
  next
    case blocks
    with that wait_blocks [OF Cons.prems(1) _ blocks(2), of "fst c"] Cons.prems(3) show ?thesis by fastforce
  qed
  have "units s1 + int (posts cs) \<le> bound" using s1(3) Cons.prems(2) by (auto simp: posts_def split: if_splits)
  from Cons.IH [OF s1(2) this] Cons.prems(3) obtain rs t where t: "sem_calls post wait cs s1 = Some (rs, t)" "ok t" "length rs = length cs"
    "units t + int (taken cs rs) = units s1 + int (posts cs)" by auto
  show ?case
    by (rule exI [of _ "r # rs"], rule exI [of _ t]) (use s1 t in \<open>auto simp: posts_def taken_def split: if_splits\<close>)
qed

end

definition sem_state :: "int \<Rightarrow> 'f kstate \<Rightarrow> bool" where
  "sem_state sid s \<longleftrightarrow> sems_ready s \<and> semid_ok sid \<and> used (semtable s ! nat sid) \<noteq> 0 \<and>
     0 \<le> sem_value (semtable s ! nat sid) \<and> sem_value (semtable s ! nat sid) \<le> INT_MAX"

definition sem_units :: "int \<Rightarrow> 'f kstate \<Rightarrow> int" where
  "sem_units sid s = sem_value (semtable s ! nat sid)"

definition sem_post_call :: "int \<Rightarrow> nat \<Rightarrow> 'f kstate \<Rightarrow> (int outcome \<times> 'f kstate) option" where
  "sem_post_call sid p s = map_option (\<lambda>(r, s). (Return r, s)) (ksem_post p sid s)"

lemma to_int32_small: "- 1 \<le> v \<Longrightarrow> v \<le> INT_MAX \<Longrightarrow> to_int32 v = v"
  by (simp add: to_int32_def INT_MAX_def)

lemma sem_state_upd:
  assumes "sem_state sid s" "used (f (semtable s ! nat sid)) \<noteq> 0" "0 \<le> sem_value (f (semtable s ! nat sid))"
    "sem_value (f (semtable s ! nat sid)) \<le> INT_MAX"
  shows "sem_state sid (upd_sem (nat sid) f s) \<and> sem_units sid (upd_sem (nat sid) f s) = sem_value (f (semtable s ! nat sid))"
proof -
  have "nat sid < NSEM" using assms(1) by (simp add: sem_state_def semid_less)
  then show ?thesis using assms by (simp add: sem_state_def sems_ready_def sem_units_def upd_sem_nth)
qed

lemma sem_state_wake: "sem_state sid (wake c ch s) = sem_state sid s" "sem_units sid (wake c ch s) = sem_units sid s"
  by (simp_all add: sem_state_def sems_ready_def sem_units_def)

lemma sem_state_upd_p: "sem_state sid (upd_p i f s) = sem_state sid s" "sem_units sid (upd_p i f s) = sem_units sid s"
  by (simp_all add: sem_state_def sems_ready_def sem_units_def)

interpretation ksem_units: counting_semaphore "sem_units sid" "sem_state sid" "sem_post_call sid" "\<lambda>p. ksem_wait p sid" INT_MAX "\<lambda>p. p < NPROC"
  for sid :: int
proof unfold_locales
  fix s :: "'b kstate" and p assume ok: "sem_state sid s"
  note d = ok [unfolded sem_state_def sems_ready_def]
  show "0 \<le> sem_units sid s" using d by (simp add: sem_units_def)
  show "\<exists>s'. sem_post_call sid p s = Some (Return 0, s') \<and> sem_state sid s' \<and> sem_units sid s' = sem_units sid s + 1"
    if "sem_units sid s < INT_MAX"
    using d that sem_state_upd [OF ok, of "\<lambda>q. q\<lparr>sem_value := to_int32 (sem_value q + 1)\<rparr>"]
    by (simp add: sem_post_call_def ksem_post_eq sem_state_wake sem_units_def to_int32_small)
  show "\<exists>s'. ksem_wait p sid s = Some (Return 0, s') \<and> sem_state sid s' \<and> sem_units sid s' = sem_units sid s - 1"
    if "p < NPROC" "0 < sem_units sid s"
    using d that sem_state_upd [OF ok, of "\<lambda>q. q\<lparr>sem_value := to_int32 (sem_value q - 1)\<rparr>"]
    by (simp add: ksem_wait_eq sem_wait_effect_def sem_units_def to_int32_small)
  show "\<exists>s'. ksem_wait p sid s = Some (Blocked, s') \<and> sem_state sid s' \<and> sem_units sid s' = 0"
    if "p < NPROC" "sem_units sid s = 0"
    using d that ok sem_state_upd_p [of sid p _ s]
    by (simp add: ksem_wait_eq sem_wait_effect_def sem_units_def)
qed

end
