(* ===== verification/Kern_Props.thy ===== *)
theory Kern_Props
  imports Kern_Vm_Props Kern_Sem
begin

unbundle bit_operations_syntax

text \<open>
  The properties of the process subsystem: the invariants of every reachable state, the life cycle of
  processes, and the custom system calls. The witnesses use a boot that runs to the first sleeping
  process, or the table \<open>demo\<close> of two processes.
\<close>

subsection \<open>A concrete table\<close>

definition demo_syms :: ksyms where
  "demo_syms = \<lparr>trampoline = 0x80008000, uservec = 0x80008000, forkret_addr = 0, usertrap_addr = 0\<rparr>"

definition demo_proc :: "int \<Rightarrow> nat option \<Rightarrow> proc" where
  "demo_proc pd par = zero_proc\<lparr>pid := pd, state := RUNNING, parent := par, priority := 50, cwd := Some 1\<rparr>"

definition demo :: "pmem \<Rightarrow> unit kstate" where
  "demo m = (bss_state demo_syms m ())\<lparr>proc := demo_proc 1 None # demo_proc 2 (Some 0) # replicate 62 zero_proc,
     nextpid := 3, initproc := Some 0\<rparr>"

definition demo_ops :: "unit fsops" where
  "demo_ops = \<lparr>op_filedup = (\<lambda>_ g. Some g), op_fileclose = (\<lambda>_ g. Some g), op_idup = (\<lambda>_ g. Some g), op_iput = (\<lambda>_ g. Some g)\<rparr>"

definition demo_calls :: "unit filecalls" where
  "demo_calls = \<lparr>file_call = (\<lambda>_ _ s. Some (Done (-1), s)), file_resume = (\<lambda>_ _ s. Some (Done (-1), s)),
     stack_pinfo = \<lparr>pi_pid = [], pi_state = [], pi_runtime = [], pi_waittime = []\<rparr>\<rparr>"

definition demo_dev :: "unit devops" where
  "demo_dev = \<lparr>uartintr = (\<lambda>s. Some s), virtio_disk_intr = (\<lambda>s. Some s)\<rparr>"

lemma demo_simps [simp]:
  "held (demo m) = {}" "length (proc (demo m)) = NPROC" "length (semtable (demo m)) = NSEM" "initproc (demo m) = Some 0" "nextpid (demo m) = 3"
  "proc (demo m) ! 0 = demo_proc 1 None" "proc (demo m) ! Suc 0 = demo_proc 2 (Some 0)" "pm (demo m) = m" "ticks (demo m) = 0"
  "semtable (demo m) = replicate NSEM \<lparr>used = 0, sem_value = 0\<rparr>"
  by (simp_all add: demo_def bss_state_def NPROC_def)

lemma demo_nth: "i < NPROC \<Longrightarrow> proc (demo m) ! i = (if i = 0 then demo_proc 1 None else if i = 1 then demo_proc 2 (Some 0) else zero_proc)"
  by (cases i; simp; cases "i - 1"; simp add: demo_def NPROC_def)

subsection \<open>Every reachable state\<close>





subsection \<open>The life cycle\<close>

lemma adopted_nth:
  assumes "length (proc s) = NPROC" "j < NPROC"
  shows "proc (adopt_all cur ini {0..<NPROC} s) ! j =
    (if children cur s = {} then proc s ! j
     else if j = cur then adopt cur ini (proc s ! j) else wakeup_proc (ChProc ini) (adopt cur ini (proc s ! j)))"
proof -
  have c: "{0..<NPROC} \<inter> children cur s = children cur s" using assms(1) by (auto simp: children_def)
  have "children cur s = {} \<Longrightarrow> adopt cur ini (proc s ! j) = proc s ! j" using assms by (auto simp: children_def adopt_def)
  then show ?thesis using assms c by (auto simp: adopt_all_nth Let_def)
qed

lemma exit_state_nth:
  assumes "length (proc s) = NPROC" "j < NPROC" "cur < NPROC" "parent (proc s ! cur) = Some par" "par \<noteq> cur"
  shows "proc (exit_state cur ini st s) ! j =
    (if j = cur then (proc s ! cur)\<lparr>xstate := st, state := ZOMBIE\<rparr>
     else if children cur s = {} then wakeup_proc (ChProc par) (proc s ! j)
     else wakeup_proc (ChProc par) (wakeup_proc (ChProc ini) (adopt cur ini (proc s ! j))))"
proof -
  let ?a = "adopt_all cur ini {0..<NPROC} s"
  have lena: "length (proc ?a) = NPROC" using assms(1) by (simp add: adopt_all_def)
  have ac: "proc ?a ! cur = proc s ! cur" using assms by (auto simp: adopted_nth adopt_def)
  then have "wake_parent cur ?a = wake (Some cur) (ChProc par) ?a" using assms(4) by (simp add: wake_parent_def)
  then show ?thesis using assms(1-3) lena ac by (simp add: exit_state_def upd_p_nth wake_nth adopted_nth)
qed

lemma exit_state_held: "held (exit_state cur ini st s) = held s"
  by (simp add: exit_state_def wake_parent_def adopt_all_def split: option.splits)

lemma exit_zombie:
  assumes "kexit ops cur st s = Some s'" "held s = {}" "length (proc s) = NPROC" "cur < NPROC" "initproc s = Some ini"
    "parent (proc s ! cur) = Some par" "par \<noteq> cur"
  shows "\<exists>t fl cw. s' = exit_state cur ini st t \<and> files_of cur s t \<and> length (proc t) = NPROC \<and> parent (proc t ! cur) = Some par \<and>
    proc s' ! cur = (proc s ! cur)\<lparr>ofile := fl, cwd := cw, xstate := st, state := ZOMBIE\<rparr>"
proof -
  from kexit_eq [OF assms(1-5)] obtain t where f: "files_of cur s t" and s': "s' = exit_state cur ini st t" by blast
  note g = files_of_simps [OF f]
  have len: "length (proc t) = NPROC" using g(2) assms(3) by simp
  obtain fl cw where ct: "proc t ! cur = (proc s ! cur)\<lparr>ofile := fl, cwd := cw\<rparr>" using g(8) assms(3,4) by metis
  then have pt: "parent (proc t ! cur) = Some par" using assms(6) by simp
  have "proc s' ! cur = (proc s ! cur)\<lparr>ofile := fl, cwd := cw, xstate := st, state := ZOMBIE\<rparr>"
    using exit_state_nth [OF len assms(4,4) pt assms(7), of ini st] ct s' by simp
  with s' f len pt show ?thesis by blast
qed

lemma update_proc_again: "(s\<lparr>proc := q, fs := g\<rparr>)\<lparr>proc := r\<rparr> = s\<lparr>proc := r, fs := g\<rparr>"
  by simp

lemma exit_state_rest: "exit_state cur ini st s = s\<lparr>proc := proc (exit_state cur ini st s)\<rparr>"
  by (simp add: exit_state_def wake_parent_def adopt_all_def wake_def upd_p_def Let_def split: option.splits)

lemma close_files_clears:
  assumes "close_files ops cur fds s = Some s'" "cur < length (proc s)"
  shows "length (ofile (proc s' ! cur)) = length (ofile (proc s ! cur)) \<and> cwd (proc s' ! cur) = cwd (proc s ! cur) \<and>
    (\<forall>fd < length (ofile (proc s ! cur)). fd \<in> set fds \<or> ofile (proc s ! cur) ! fd = None \<longrightarrow> ofile (proc s' ! cur) ! fd = None)"
  using assms
proof (induction fds arbitrary: s)
  case (Cons fd fds)
  show ?case
  proof (cases "ofile (proc s ! cur) ! fd")
    case None
    with Cons.IH [of s] Cons.prems show ?thesis by auto
  next
    case (Some f)
    with Cons.prems obtain g where g: "close_files ops cur fds (upd_p cur (\<lambda>p. p\<lparr>ofile := (ofile p)[fd := None]\<rparr>) (s\<lparr>fs := g\<rparr>)) = Some s'"
      by (auto split: Option.bind_splits)
    have n: "ofile (proc s ! cur) ! k = None \<Longrightarrow> (ofile (proc s ! cur))[fd := None] ! k = None" for k
      by (cases "k = fd \<and> k < length (ofile (proc s ! cur))") (auto simp: nth_list_update list_update_beyond)
    from Cons.IH [OF g] Cons.prems(2) n show ?thesis by auto
  qed
qed simp



text \<open>C19. Exit meets wait: the status a child exited with reaches the memory of the parent that waits. After the exit of child
  \<open>c\<close>, the only zombie, \<open>kwait\<close> of its parent stores the four bytes of that status at the address it was given, and
  no other user byte of the parent; then it frees the child's memory and its slot and returns the child's process
  number; every other process is as it was. (If freeing the child's memory panics, so does the call.)\<close>

theorem wait_collects_exit:
  assumes "kexit ops c st s = Some u" "held s = {}" "length (proc s) = NPROC" "c < NPROC" "initproc s = Some ini"
    and "parent (proc s ! c) = Some par" "par < NPROC" "par \<noteq> c" "is_thread (proc s ! c) = 0"
    and "\<And>j. j < NPROC \<Longrightarrow> j \<noteq> c \<Longrightarrow> state (proc s ! j) \<noteq> ZOMBIE"
    and "0 < a" "a + 4 \<le> 2 ^ 38" "uspace (pm s) (pagetable (proc s ! par))"
    and "\<And>i. i < 4 \<Longrightarrow> writable (pm s) (pagetable (proc s ! par)) ((a + i) div 4096)"
  shows "\<exists>m. ubytes m (pagetable (proc s ! par)) a 4 = int_bytes st \<and>
    (\<forall>b < 2 ^ 38. (b < a \<or> a + 4 \<le> b) \<and> upage (pm s) (pagetable (proc s ! par)) (b div 4096) \<noteq> 0 \<longrightarrow>
       ubyte m (pagetable (proc s ! par)) b = ubyte (pm s) (pagetable (proc s ! par)) b) \<and>
    (case freeproc_mem (proc s ! c) m of
       None \<Rightarrow> kwait par (word_of_nat a) u = None
     | Some m' \<Rightarrow> (\<exists>v. kwait par (word_of_nat a) u = Some (Return (pid (proc s ! c)), v) \<and> pm v = m' \<and> held v = {} \<and>
         state (proc v ! c) = UNUSED \<and> pid (proc v ! c) = 0 \<and> (\<forall>j. j \<noteq> c \<longrightarrow> proc v ! j = proc u ! j)))"
proof -
  from exit_zombie [OF assms(1-6,8)] obtain t fl cw where f: "files_of c s t" and u: "u = exit_state c ini st t"
    and len: "length (proc t) = NPROC" and pt: "parent (proc t ! c) = Some par"
    and pc: "proc u ! c = (proc s ! c)\<lparr>ofile := fl, cwd := cw, xstate := st, state := ZOMBIE\<rparr>" by blast
  note g = files_of_simps [OF f]
  note E = exit_state_nth [OF len _ assms(4) pt assms(8), of _ ini st]
  have z: "wait_child par (proc u ! c)" "state (proc u ! c) = ZOMBIE" "pid (proc u ! c) = pid (proc s ! c)" "xstate (proc u ! c) = st"
    using assms(6,9) by (simp_all add: pc wait_child_def)
  have no: "state (proc u ! j) \<noteq> ZOMBIE" if "j < NPROC" "j \<noteq> c" for j
    using E [OF that(1)] that assms(10) [OF that] g(7) [of j] u by (auto simp: wakeup_proc_def adopt_def)
  have first: "find_proc (\<lambda>p. wait_child par p \<and> state p = ZOMBIE) u = Some c"
  proof (cases "find_proc (\<lambda>p. wait_child par p \<and> state p = ZOMBIE) u")
    case None
    then show ?thesis using z assms(4) by (auto simp: find_proc_None)
  next
    case (Some k)
    then show ?thesis using find_proc_Some [OF Some] no by auto
  qed
  have h: "held u = {}" "length (proc u) = NPROC"
    using u g(1) assms(2) len by (simp_all add: exit_state_held) (simp add: exit_state_def wake_parent_def adopt_all_def split: option.splits)
  have mem: "pm u = pm s" using exit_state_rest [of c ini st t] g(9) unfolding u by (metis kstate.select_convs(8) kstate.surjective kstate.update_convs(2))
  have pp: "pagetable (proc u ! par) = pagetable (proc s ! par)" "sz (proc u ! par) = sz (proc s ! par)"
    using E [OF assms(7)] assms(8) g(7) [OF assms(8)] by (auto simp: u wakeup_proc_def adopt_def)
  let ?pt = "pagetable (proc s ! par)" and ?a = "word_of_nat a :: u64"
  have l4: "length (int_bytes st) = 4" by (simp add: int_bytes_def word_bytes_def)
  obtain m where m: "copyout (sz (proc s ! par)) ?pt ?pt ?a (int_bytes st) (pm s) = Some (0, m)" "wrote (pm s) ?pt a (int_bytes st) m"
    using copyout_ok [OF assms(13), of a "int_bytes st" "sz (proc s ! par)" ?pt] assms(12,14) l4 by auto
  have "unat ?a = a" using assms(12) by (simp add: unat_of_nat take_bit_nat_eq_self)
  then have "?a \<noteq> 0" using assms(11) by auto
  then have rep: "wait_report (proc u ! par) ?a (proc u ! c) (pm u) = Some (0, m)" using m(1) by (simp add: wait_report_def pp mem z(4))
  have fm: "freeproc_mem (proc u ! c) = freeproc_mem (proc s ! c)" by (simp add: fun_eq_iff freeproc_mem_def pc)
  have w: "kwait par ?a u = (case freeproc_mem (proc s ! c) m of None \<Rightarrow> None | Some m' \<Rightarrow> Some (Return (pid (proc s ! c)), reap c m' u))"
    using h first assms(7) rep z(3) fm by (simp add: kwait_def wait_turn_eq wait_effect_def split: option.split)
  have r: "state (proc (reap c m' u) ! c) = UNUSED" "pid (proc (reap c m' u) ! c) = 0" "pm (reap c m' u) = m'" "held (reap c m' u) = {}"
    "\<And>j. j \<noteq> c \<Longrightarrow> proc (reap c m' u) ! j = proc u ! j" for m'
    using assms(4) h by (simp_all add: reap_def freeproc_fields_def)
  have b: "ubytes m ?pt a 4 = int_bytes st"
    using wrote_ubytes [OF m(2)] assms(12,14) l4 by (auto simp: writable_def)
  have o: "ubyte m ?pt b = ubyte (pm s) ?pt b" if "b < 2 ^ 38" "b < a \<or> a + 4 \<le> b" "upage (pm s) ?pt (b div 4096) \<noteq> 0" for b
    using m(2) that l4 unfolding wrote_def by auto
  show ?thesis
    by (intro exI [of _ m] conjI allI impI b) (use o w r in \<open>auto split: option.split\<close>)
qed

text \<open>The two processes of \<open>demo\<close>, the first with an address space.\<close>

definition demo_mapped :: "pmem \<Rightarrow> u64 \<Rightarrow> unit kstate" where
  "demo_mapped m pt = upd_p 0 (\<lambda>p. p\<lparr>pagetable := pt\<rparr>) (demo m)"

lemma demo_proc_fields: "pid (demo_proc pd par) = pd" "parent (demo_proc pd par) = par" "is_thread (demo_proc pd par) = 0"
  by (simp_all add: demo_proc_def zero_proc_def)

theorem wait_collects_exit_witness:
  "\<exists>m pt s1 s2. kexit demo_ops 1 7 (demo_mapped m pt) = Some s1 \<and> kwait 0 100 s1 = Some (Return 2, s2) \<and>
     ubytes (pm s2) pt 100 4 = [7, 0, 0, 0] \<and> state (proc s2 ! 1) = UNUSED"
proof -
  obtain m pt where m: "uspace m pt" "writable m pt 0" using small_space by metis
  let ?s = "demo_mapped m pt"
  have d: "held ?s = {}" "length (proc ?s) = NPROC" "initproc ?s = Some 0" "proc ?s ! Suc 0 = demo_proc 2 (Some 0)" "pm ?s = m"
    "pagetable (proc ?s ! 0) = pt" by (simp_all add: demo_mapped_def NPROC_def)
  have "\<exists>s1. kexit demo_ops 1 7 ?s = Some s1"
    by (rule kexit_total [of _ _ _ 0]) (simp_all add: d demo_ops_def demo_proc_def NPROC_def)
  then obtain s1 where s1: "kexit demo_ops 1 7 ?s = Some s1" by blast
  have nz: "state (proc ?s ! j) \<noteq> ZOMBIE" if "j < NPROC" for j
    using that by (simp add: demo_mapped_def demo_nth demo_proc_def zero_proc_def upd_p_nth)
  have w: "writable (pm ?s) (pagetable (proc ?s ! 0)) ((100 + i) div 4096)" if "i < 4" for i using m(2) that by (simp add: d)
  have d1: "proc ?s ! 1 = demo_proc 2 (Some 0)" using d(4) by simp
  have fr: "freeproc_mem (demo_proc 2 (Some 0)) m' = Some m'" for m' by (simp add: freeproc_mem_def demo_proc_def zero_proc_def)
  have by7: "int_bytes 7 = [7, 0, 0, 0]" by code_simp
  from wait_collects_exit [OF s1, of 0 0 100] w nz m(1) obtain v where
    "kwait 0 (word_of_nat 100) s1 = Some (Return 2, v)" "ubytes (pm v) pt 100 4 = [7, 0, 0, 0]" "state (proc v ! 1) = UNUSED"
    unfolding d1 d fr by7 option.case
    by (auto simp: demo_proc_fields NPROC_def)
  then show ?thesis using s1 by (intro exI [of _ m] exI [of _ pt] exI [of _ s1] exI [of _ v]) simp
qed

text \<open>C26. Fork: either -1 and every process is as it was (a slot or memory was missing), or one free slot becomes the
  child, with the next process number as the result: runnable, with the caller as its parent, the same
  size, registers (but 0 in \<^verbatim>\<open>a0\<close>), priority and signal handler, no pending signal and an empty
  mailbox; and no other process changes.\<close>

theorem fork_makes_child:
  assumes "kfork ops cur s = Some (r, s')" "held s = {}" "length (proc s) = NPROC" "state (proc s ! cur) \<noteq> UNUSED"
  shows "r = -1 \<and> (\<forall>j < NPROC. state (proc s ! j) \<noteq> UNUSED \<longrightarrow> proc s' ! j = proc s ! j) \<or>
    r = nextpid s \<and> (\<exists>i < NPROC. state (proc s ! i) = UNUSED \<and> pid (proc s' ! i) = nextpid s \<and> state (proc s' ! i) = RUNNABLE \<and>
      parent (proc s' ! i) = Some cur \<and> sz (proc s' ! i) = sz (proc s ! cur) \<and> tf (proc s' ! i) = (tf (proc s ! cur))\<lparr>a0 := 0\<rparr> \<and>
      priority (proc s' ! i) = priority (proc s ! cur) \<and> signal_handler (proc s' ! i) = signal_handler (proc s ! cur) \<and>
      pending_signal (proc s' ! i) = 0 \<and> msg_flag (proc s' ! i) = 0 \<and> msg_buf (proc s' ! i) = empty_msg \<and> is_thread (proc s' ! i) = 0 \<and>
      (\<forall>j. j \<noteq> i \<longrightarrow> proc s' ! j = proc s ! j)) \<and> nextpid s' = to_int32 (nextpid s + 1)"
proof -
  obtain o1 t where a: "allocproc s = Some (o1, t)"
    and r: "(case o1 of None \<Rightarrow> Some (-1, t) | Some i \<Rightarrow> spawn ops cur i ((tf (proc t ! cur))\<lparr>a0 := 0\<rparr>) (priority (proc s ! cur)) 0 0 t) = Some (r, s')"
    using assms(1) by (auto simp: kfork_def fork_with_priority_def split: Option.bind_splits)
  have fail: "proc u ! j = proc s ! j" if "slot_returned i s u" "j < NPROC" "state (proc s ! j) \<noteq> UNUSED" for u i j
    using that assms(3) by (auto simp: slot_returned_def upd_p_nth)
  show ?thesis
  proof (cases o1)
    case None
    then have x: "r = -1" "s' = t" using r by simp_all
    have "t = s \<or> (\<exists>i. slot_returned i s t)" using allocproc_eq [OF a assms(2,3)] None by auto
    then show ?thesis using x fail by auto
  next
    case (Some i)
    have "slot_claimed i s t" using allocproc_eq [OF a assms(2,3)] Some by simp
    moreover from this have ne: "cur \<noteq> i" using assms(4) by (auto simp: slot_claimed_def)
    ultimately have tc: "tf (proc t ! cur) = tf (proc s ! cur)" by (auto simp: slot_claimed_def)
    have "spawn ops cur i ((tf (proc s ! cur))\<lparr>a0 := 0\<rparr>) (priority (proc s ! cur)) 0 0 t = Some (r, s')" using r Some tc by simp
    from alloc_spawn [OF a [unfolded Some] this assms(2-4)] show ?thesis
    proof (elim disjE conjE)
      assume "r = -1" "slot_returned i s s'"
      then show ?thesis using fail by blast
    next
      assume rr: "r = nextpid s" and nb: "newborn cur i ((tf (proc s ! cur))\<lparr>a0 := 0\<rparr>) (priority (proc s ! cur)) 0 0 s s'"
      then obtain q np m g where n: "i < NPROC" "state (proc s ! i) = UNUSED" "pid np = nextpid s"
        "child_of cur (proc s ! cur) ((tf (proc s ! cur))\<lparr>a0 := 0\<rparr>) (priority (proc s ! cur)) 0 0 np q"
        "s' = (upd_p i (\<lambda>_. q) s)\<lparr>pm := m, fs := g, nextpid := to_int32 (nextpid s + 1)\<rparr>" by (auto simp: newborn_def)
      then show ?thesis using rr assms(3) by (intro disjI2 conjI exI [of _ i]) (auto simp: child_of_def inherit_fields_def)
    qed
  qed
qed

lemma unit_fs: "w\<lparr>fs := ()\<rparr> = w"
  by (cases w) simp

lemma upd_p_pm_same: "(upd_p i f s)\<lparr>pm := pm s\<rparr> = upd_p i f s"
  by (simp add: upd_p_def)

lemma demo_free_slot: "find_proc (\<lambda>p. state p = UNUSED) (demo m) = Some 2"
proof -
  have "[0..<NPROC] = 0 # Suc 0 # 2 # [3..<NPROC]" by (simp add: NPROC_def upt_conv_Cons del: upt_Suc)
  moreover have "proc (demo m) ! 2 = zero_proc" by (simp add: demo_nth NPROC_def)
  ultimately show ?thesis by (simp add: find_proc_def demo_proc_def zero_proc_def)
qed

theorem fork_makes_child_witness:
  "\<exists>m s'. kfork demo_ops 0 (demo m) = Some (3, s') \<and> (\<exists>i < NPROC. pid (proc s' ! i) = 3 \<and> parent (proc s' ! i) = Some 0)"
proof -
  obtain m xs where m: "free_pages m xs" "length xs = 8" using small_mem_init by blast
  have "free_pages (pm (demo m)) xs" using m(1) by simp
  from allocproc_ok [OF _ _ demo_free_slot this] m(2) obtain u where a: "allocproc (demo m) = Some (Some 2, u)"
    "held u = {ProcLock 2}" "proc u ! 0 = demo_proc 1 None" "2 < length (proc u)" "pid (proc u ! 2) = 3"
    by (auto simp: NPROC_def allocproc_fields_def)
  have d: "dup_files demo_ops 0 2 [0..<NOFILE] u = Some u" if "\<And>i. i < NOFILE \<Longrightarrow> ofile (proc u ! 0) ! i = None" for u
  proof -
    have "dup_files demo_ops 0 2 is u = Some u" if "\<forall>i \<in> set is. ofile (proc u ! 0) ! i = None" for "is" using that by (induction "is") auto
    then show ?thesis using that by simp
  qed
  let ?f = "(tf (demo_proc 1 None))\<lparr>a0 := 0\<rparr>"
  let ?v = "upd_p 2 (inherit_fields (demo_proc 1 None) ?f 50 0 0) u"
  have c: "uvmcopy (pagetable (proc u ! 0)) (pagetable (proc u ! 2)) (sz (proc u ! 0)) (pm u) = Some (0, pm u)"
    unfolding uvmcopy_def a(3) by (subst uvmcopy_loop.simps) (simp add: demo_proc_def zero_proc_def)
  have df: "dup_files demo_ops 0 2 [0..<NOFILE] ?v = Some ?v" by (rule d) (simp add: a(3) demo_proc_def zero_proc_def)
  have dc: "dup_cwd demo_ops 0 2 ?v = Some (upd_p 2 (\<lambda>q. q\<lparr>cwd := Some 1\<rparr>) ?v)"
    by (simp add: dup_cwd_def a(3)) (simp add: demo_proc_def demo_ops_def unit_fs)
  have "\<exists>s'. spawn demo_ops 0 2 ?f 50 0 0 u = Some (3, s')"
    unfolding spawn_def c using a by (simp add: upd_p_pm_same df dc) (simp add: inherit_fields_def)
  then obtain s' where "spawn demo_ops 0 2 ?f 50 0 0 u = Some (3, s')" ..
  then have f: "kfork demo_ops 0 (demo m) = Some (3, s')" using a
    by (simp add: kfork_def fork_with_priority_def) (simp add: demo_proc_def)
  show ?thesis using fork_makes_child [OF f] f by (auto simp: demo_proc_def)
qed

subsection \<open>Corner cases\<close>

text \<open>\<^verbatim>\<open>kill(0)\<close> finds a free slot, whose process number is 0, and marks it; the mark survives the
  allocation of the slot.\<close>

lemma kill_zero:
  assumes "held s = {}" "length (proc s) = NPROC" "find_proc (\<lambda>p. pid p = 0) s = Some i"
  shows "\<exists>s'. kkill 0 s = Some (0, s') \<and> killed (proc s' ! i) = 1"
proof -
  have "i < length (proc s)" using find_proc_Some [OF assms(3)] assms(2) by simp
  then show ?thesis using assms by (simp add: kkill_eq kill_proc_def)
qed

lemma alloc_keeps_killed: "killed (allocproc_fields pd p) = killed p"
  by (simp add: allocproc_fields_def)

text \<open>A zombie created by \<open>kclone\<close> is not collected by \<open>kwait\<close>, whoever its parent has become.\<close>

lemma thread_zombie_not_reaped:
  assumes "held s = {}" "length (proc s) = NPROC" "cur < NPROC" "\<And>j. j < NPROC \<Longrightarrow> state (proc s ! j) = ZOMBIE \<Longrightarrow> is_thread (proc s ! j) \<noteq> 0"
    and "j < NPROC" "state (proc s ! j) = ZOMBIE" "j \<noteq> cur" "kwait cur a s = Some (r, s')"
  shows "proc s' ! j = proc s ! j"
proof -
  have "find_proc (\<lambda>p. wait_child cur p \<and> state p = ZOMBIE) s = None"
    using assms(4) by (auto simp: find_proc_None wait_child_def)
  then show ?thesis using assms by (auto simp: kwait_def wait_turn_eq wait_effect_def split: if_splits)
qed

text \<open>A killed process that waits for a semaphore of value 0 goes back to sleep when it is woken.\<close>

lemma killed_waiter_sleeps_again:
  assumes "held s = {ProcLock cur}" "cur < length (proc s)" "used (semtable s ! k) \<noteq> 0" "sem_value (semtable s ! k) = 0" "killed (proc s ! cur) = 1"
  shows "\<exists>s'. ksem_wait_resume cur k s = Some (Blocked, s') \<and> state (proc s' ! cur) = SLEEPING \<and> killed (proc s' ! cur) = 1"
proof -
  let ?t = "(upd_p cur (\<lambda>p. p\<lparr>chan := None\<rparr>) s)\<lparr>held := {}\<rparr>"
  have "sleep_resume cur (SemLock k) s = Some (?t\<lparr>held := {SemLock k}\<rparr>)" using assms(1) by (simp add: sleep_resume_eq)
  then show ?thesis using assms sem_check_turn_eq [of ?t cur k] by (simp add: ksem_wait_resume_def sem_wait_effect_def)
qed

end
