(* ===== verification/Kern_Ipc_Props.thy ===== *)
theory Kern_Ipc_Props
  imports Kern_Props
begin

unbundle bit_operations_syntax

text \<open>
  Properties of the custom system calls: messages, signals and alarms, semaphores, and the accounting of
  time at a clock tick.
\<close>

subsection \<open>Messages\<close>

lemma string_chunk_fits: "string_chunk bs = (w, nul) \<Longrightarrow> length w \<le> length bs"
  using string_chunk_length [of bs] by simp

text \<open>C20. A message arrives: if the mailbox of the addressee is empty, \<open>msgsend\<close> of a terminated string of at
  most 64 bytes succeeds, and the addressee's next \<open>msgrecv\<close> returns 0 with that string, up to and with
  its NUL, in the receiver's memory. Until then a second send is refused and changes nothing; afterwards
  the mailbox is empty again, so that another receive would sleep on it.\<close>

theorem message_delivered:
  assumes "held s = {}" "length (proc s) = NPROC" "find_proc (live pd) s = Some j" "msg_flag (proc s ! j) = 0" "length (msg_buf (proc s ! j)) = 64"
    and "a + 64 \<le> 2 ^ 38" "\<And>i. i < 64 \<Longrightarrow> upage (pm s) (pagetable (proc s ! cur)) ((a + i) div 4096) \<noteq> 0"
    and "string_chunk (ubytes (pm s) (pagetable (proc s ! cur)) a 64) = (w, True)"
    and "uspace (pm s) (pagetable (proc s ! j))" "b + 64 \<le> 2 ^ 38" "\<And>i. i < 64 \<Longrightarrow> writable (pm s) (pagetable (proc s ! j)) ((b + i) div 4096)"
  shows "\<exists>u v. msgsend cur pd (word_of_nat a) s = Some (0, u) \<and> msgsend cur pd (word_of_nat a) u = Some (-1, u) \<and>
    msgrecv j (word_of_nat b) u = Some (Return 0, v) \<and> ubytes (pm v) (pagetable (proc v ! j)) b (length w) = w \<and>
    (\<exists>x. msgrecv j (word_of_nat b) v = Some (Blocked, x) \<and> state (proc x ! j) = SLEEPING \<and> chan (proc x ! j) = Some (ChMsg j))"
proof -
  let ?pc = "pagetable (proc s ! cur)" and ?pj = "pagetable (proc s ! j)"
  have j: "j < NPROC" "live pd (proc s ! j)" using find_proc_Some [OF assms(3)] by simp_all
  have cs: "copyinstr ?pc (word_of_nat a) 64 (pm s) = Some (w, True)"
    using copyinstr_loop_ok [OF assms(6,7), of "[]"] assms(8) by (simp add: copyinstr_def)
  have wl: "length w \<le> 64" using string_chunk_fits [OF assms(8)] by simp
  let ?buf = "overwrite w (msg_buf (proc s ! j))"
  have bl: "length ?buf = 64" "take (length w) ?buf = w" using assms(5) wl by (simp_all add: overwrite_def)
  let ?u = "wake (Some cur) (ChMsg j) (upd_p j (\<lambda>p. p\<lparr>msg_buf := overwrite w (msg_buf p), msg_flag := 1\<rparr>) s)"
  have send: "msgsend cur pd (word_of_nat a) s = Some (0, ?u)" using assms(1-4) cs by (simp add: msgsend_eq)
  have hu: "held ?u = {}" "length (proc ?u) = NPROC" using assms(1,2) by simp_all
  have uj: "msg_flag (proc ?u ! j) = 1" "msg_buf (proc ?u ! j) = ?buf" "pagetable (proc ?u ! j) = ?pj" "sz (proc ?u ! j) = sz (proc s ! j)"
    using j(1) assms(2) by (simp_all add: wake_nth wakeup_proc_def)
  have lu: "live pd (proc ?u ! i) = live pd (proc s ! i)" if "i < NPROC" for i
    using that assms(2) by (auto simp: wake_nth wakeup_proc_def live_def upd_p_nth)
  then have "find_proc (live pd) ?u = find_proc (live pd) s"
    unfolding find_proc_def by (intro find_cong) auto
  then have again: "msgsend cur pd (word_of_nat a) ?u = Some (-1, ?u)" using hu uj(1) assms(3) by (simp add: msgsend_eq)
  obtain m' where m': "copyout (sz (proc s ! j)) ?pj ?pj (word_of_nat b) ?buf (pm s) = Some (0, m')" "wrote (pm s) ?pj b ?buf m'"
    using copyout_ok [OF assms(9), of b ?buf "sz (proc s ! j)" ?pj] assms(10,11) bl(1) by auto
  let ?v = "upd_p j (\<lambda>p. p\<lparr>msg_flag := 0, msg_buf := empty_msg\<rparr>) (?u\<lparr>pm := m'\<rparr>)"
  have recv: "msgrecv j (word_of_nat b) ?u = Some (Return 0, ?v)"
    using hu j(1) uj m'(1) by (simp add: msgrecv_eq recv_effect_def Let_def)
  have "ubytes m' ?pj b (length ?buf) = ?buf"
    by (rule wrote_ubytes [OF m'(2)]) (use assms(10,11) bl(1) in \<open>auto simp: writable_def\<close>)
  then have "take (length w) (ubytes m' ?pj b 64) = w" using bl by simp
  moreover have "take (length w) (ubytes m' ?pj b 64) = ubytes m' ?pj b (length w)"
    using ubytes_split [of m' ?pj b "length w" "64 - length w"] wl by simp
  ultimately have "ubytes (pm ?v) (pagetable (proc ?v ! j)) b (length w) = w" using j(1) hu(2) uj(3) by simp
  moreover have "\<exists>x. msgrecv j (word_of_nat b) ?v = Some (Blocked, x) \<and> state (proc x ! j) = SLEEPING \<and> chan (proc x ! j) = Some (ChMsg j)"
    using hu j(1) by (simp add: msgrecv_eq recv_effect_def Let_def)
  ultimately show ?thesis using send again recv by blast
qed

text \<open>The two processes of \<open>demo\<close> sharing one address space, with a string at address 0.\<close>

definition demo_shared :: "pmem \<Rightarrow> u64 \<Rightarrow> unit kstate" where
  "demo_shared m pt = upd_p 0 (\<lambda>p. p\<lparr>pagetable := pt\<rparr>) (upd_p (Suc 0) (\<lambda>p. p\<lparr>pagetable := pt\<rparr>) (demo m))"

lemma demo_shared_simps [simp]:
  "held (demo_shared m pt) = {}" "length (proc (demo_shared m pt)) = NPROC" "length (semtable (demo_shared m pt)) = NSEM" "pm (demo_shared m pt) = m"
  "proc (demo_shared m pt) ! 0 = (demo_proc 1 None)\<lparr>pagetable := pt\<rparr>" "proc (demo_shared m pt) ! Suc 0 = (demo_proc 2 (Some 0))\<lparr>pagetable := pt\<rparr>"
  "semtable (demo_shared m pt) = replicate NSEM \<lparr>used = 0, sem_value = 0\<rparr>"
  by (simp_all add: demo_shared_def NPROC_def)

lemma demo_shared_live: "find_proc (live 2) (demo_shared m pt) = Some (Suc 0)"
proof -
  have "[0..<NPROC] = 0 # Suc 0 # [2..<NPROC]" by (simp add: NPROC_def upt_conv_Cons numeral_2_eq_2 del: upt_Suc)
  then show ?thesis by (simp add: find_proc_def live_def demo_proc_def)
qed

lemma small_string: "\<exists>m pt. uspace m pt \<and> writable m pt 0 \<and> string_chunk (ubytes m pt 0 64) = ([104, 105, 0], True)"
proof -
  obtain m pt where m: "uspace m pt" "writable m pt 0" using small_space by metis
  let ?w = "[104, 105, 0] :: byte list"
  obtain m' where w: "wrote m pt 0 ?w m'" using copyout_ok [OF m(1), of 0 ?w] m(2) by auto
  note W = w [unfolded wrote_def]
  have up: "upage m' pt k = upage m pt k" for k by (rule wrote_upage [OF w])
  have us: "uspace m' pt" using m(1) W by (simp add: uspace_def up)
  have wr: "writable m' pt 0" using m(2) W by (simp add: writable_def up)
  have "ubytes m' pt 0 (length ?w) = ?w" by (rule wrote_ubytes [OF w]) (use m(2) in \<open>auto simp: writable_def\<close>)
  then have u: "ubytes m' pt 0 64 = ?w @ ubytes m' pt 3 61" using ubytes_split [of m' pt 0 3 61] by (simp add: numeral_3_eq_3)
  have "string_chunk (ubytes m' pt 0 64) = ([104, 105, 0], True)" unfolding u by (simp add: string_chunk_def Let_def)
  with us wr show ?thesis by blast
qed

theorem message_delivered_witness:
  "\<exists>m pt u v. msgsend 0 2 0 (demo_shared m pt) = Some (0, u) \<and> msgrecv 1 100 u = Some (Return 0, v) \<and>
     ubytes (pm v) (pagetable (proc v ! 1)) 100 3 = [104, 105, 0]"
proof -
  obtain m pt where m: "uspace m pt" "writable m pt 0" "string_chunk (ubytes m pt 0 64) = ([104, 105, 0], True)" using small_string by blast
  have w: "writable m pt ((x + i) div 4096)" "upage m pt ((x + i) div 4096) \<noteq> 0" if "i < 64" "x \<le> 100" for i x
    using m(2) that by (simp_all add: writable_def)
  from message_delivered [where s = "demo_shared m pt" and pd = 2 and j = "Suc 0" and cur = 0 and a = 0 and b = 100 and w = "[104, 105, 0]",
      OF _ _ demo_shared_live]
  have "\<exists>u v. msgsend 0 2 (word_of_nat 0) (demo_shared m pt) = Some (0, u) \<and> msgrecv (Suc 0) (word_of_nat 100) u = Some (Return 0, v) \<and>
      ubytes (pm v) (pagetable (proc v ! Suc 0)) 100 (length [104, 105, 0 :: byte]) = [104, 105, 0]"
    using m w by (simp add: demo_proc_def zero_proc_def empty_msg_def) blast
  then obtain u v where uv: "msgsend 0 2 (word_of_nat 0) (demo_shared m pt) = Some (0, u)" "msgrecv (Suc 0) (word_of_nat 100) u = Some (Return 0, v)"
      "ubytes (pm v) (pagetable (proc v ! Suc 0)) 100 3 = [104, 105, 0]" by (auto simp: numeral_3_eq_3)
  then have "msgsend 0 2 0 (demo_shared m pt) = Some (0, u) \<and> msgrecv 1 100 u = Some (Return 0, v) \<and>
      ubytes (pm v) (pagetable (proc v ! 1)) 100 3 = [104, 105, 0]" by simp
  then show ?thesis by blast
qed

subsection \<open>Signals and alarms\<close>

text \<open>C30. A signal interrupts a process and is undone by \<open>sigreturn\<close>: at the return to user mode a pending
  signal of a process with a handler diverts it to the handler, with the signal number as argument; while
  the handler runs no further signal is delivered, whatever becomes pending; and when the handler, with
  whatever registers, calls \<open>sigreturn\<close>, the registers are those of the interruption, except that
  \<^verbatim>\<open>a0\<close> is the sign extension of its lower half.\<close>

theorem signal_roundtrip:
  assumes "held s = {}" "i < length (proc s)" "signal_registered (proc s ! i) \<noteq> 0" "signal_inflight (proc s ! i) = 0" "0 < pending_signal (proc s ! i)"
  shows "\<exists>u. signalcheck i s = Some u \<and>
    tf (proc u ! i) = (tf (proc s ! i))\<lparr>epc := signal_handler (proc s ! i), a0 := word_of_int (pending_signal (proc s ! i))\<rparr> \<and>
    (\<forall>n. signalcheck i (upd_p i (\<lambda>p. p\<lparr>pending_signal := n\<rparr>) u) = Some (upd_p i (\<lambda>p. p\<lparr>pending_signal := n\<rparr>) u)) \<and>
    (\<forall>f. a7 f = 23 \<longrightarrow> (\<exists>v x. syscall ops fc i (upd_p i (\<lambda>p. p\<lparr>tf := f\<rparr>) u) = Some (Done x, v) \<and>
       tf (proc v ! i) = (tf (proc s ! i))\<lparr>a0 := scast (ucast (a0 (tf (proc s ! i))) :: u32)\<rparr> \<and> signal_inflight (proc v ! i) = 0))"
proof -
  let ?p = "proc s ! i"
  let ?u = "upd_p i signalcheck_fields s"
  have q: "signalcheck_fields ?p = ?p\<lparr>signal_tf := tf ?p, signal_inflight := 1, active_signal := pending_signal ?p, pending_signal := 0,
      tf := (tf ?p)\<lparr>epc := signal_handler ?p, a0 := word_of_int (pending_signal ?p)\<rparr>\<rparr>"
    using assms(3-5) by (simp add: signalcheck_fields_def setupsignal_def)
  have u: "signalcheck i s = Some ?u" using assms(1) by (rule signalcheck_eq)
  have n: "signalcheck i (upd_p i (\<lambda>p. p\<lparr>pending_signal := n\<rparr>) ?u) = Some (upd_p i (\<lambda>p. p\<lparr>pending_signal := n\<rparr>) ?u)" for n
  proof -
    have "signalcheck_fields ((signalcheck_fields ?p)\<lparr>pending_signal := n\<rparr>) = (signalcheck_fields ?p)\<lparr>pending_signal := n\<rparr>"
      unfolding q by (simp add: signalcheck_fields_def)
    then have "upd_p i signalcheck_fields (upd_p i (\<lambda>p. p\<lparr>pending_signal := n\<rparr>) ?u) = upd_p i (\<lambda>p. p\<lparr>pending_signal := n\<rparr>) ?u"
      by (intro upd_p_id) (use assms(2) in simp)
    then show ?thesis using assms(1) by (simp add: signalcheck_eq del: upd_p_upd_p)
  qed
  have r: "\<exists>v x. syscall ops fc i (upd_p i (\<lambda>p. p\<lparr>tf := f\<rparr>) ?u) = Some (Done x, v) \<and>
      tf (proc v ! i) = (tf ?p)\<lparr>a0 := scast (ucast (a0 (tf ?p)) :: u32)\<rparr> \<and> signal_inflight (proc v ! i) = 0" if "a7 f = 23" for f
  proof -
    have "syscall_num (proc (upd_p i (\<lambda>p. p\<lparr>tf := f\<rparr>) ?u) ! i) = 23" using that assms(2) by (simp add: syscall_num_def)
    moreover have "word_of_int (sint (w :: u32)) = (scast w :: u64)" for w by (rule scast_eq [symmetric])
    ultimately show ?thesis using assms(1,2)
      by (simp add: syscall_def syscalls_def sys_sigreturn_def ret_def sigreturn_eq set_a0_def q)
  qed
  show ?thesis using u n r q assms(2) by (intro exI [of _ ?u]) simp
qed

definition demo_signal :: "unit kstate" where
  "demo_signal = upd_p 0 (\<lambda>p. p\<lparr>signal_registered := 1, signal_handler := 0x400, pending_signal := 14,
     tf := (tf p)\<lparr>a0 := 5, epc := 0x100\<rparr>\<rparr>) (demo small_mem)"

theorem signal_roundtrip_witness:
  "\<exists>u v x. signalcheck 0 demo_signal = Some u \<and> epc (tf (proc u ! 0)) = 0x400 \<and>
     syscall demo_ops demo_calls 0 (upd_p 0 (\<lambda>p. p\<lparr>tf := zero_trapframe\<lparr>a7 := 23\<rparr>\<rparr>) u) = Some (Done x, v) \<and> epc (tf (proc v ! 0)) = 0x100"
proof -
  have d: "proc demo_signal ! 0 = (demo_proc 1 None)\<lparr>signal_registered := 1, signal_handler := 0x400, pending_signal := 14,
      tf := (tf (demo_proc 1 None))\<lparr>a0 := 5, epc := 0x100\<rparr>\<rparr>" "held demo_signal = {}" "0 < length (proc demo_signal)"
    by (simp_all add: demo_signal_def NPROC_def)
  have "signal_inflight (proc demo_signal ! 0) = 0" by (simp add: d demo_proc_def zero_proc_def)
  from signal_roundtrip [OF d(2,3) _ this, of demo_ops demo_calls] obtain u where
    u: "signalcheck 0 demo_signal = Some u" "epc (tf (proc u ! 0)) = 0x400"
    "\<forall>f. a7 f = 23 \<longrightarrow> (\<exists>v x. syscall demo_ops demo_calls 0 (upd_p 0 (\<lambda>p. p\<lparr>tf := f\<rparr>) u) = Some (Done x, v) \<and> epc (tf (proc v ! 0)) = 0x100)"
    by (fastforce simp: d)
  have "a7 (zero_trapframe\<lparr>a7 := 23\<rparr>) = 23" by simp
  with u show ?thesis by blast
qed

lemma signaltick_counts:
  "0 < alarm_interval p \<Longrightarrow> signal_registered p \<noteq> 0 \<Longrightarrow> signal_inflight p = 0 \<Longrightarrow> pending_signal p = 0 \<Longrightarrow>
    signaltick_fields (p\<lparr>alarm_elapsed := e\<rparr>) =
      (if e + 1 < alarm_interval p then p\<lparr>alarm_elapsed := e + 1\<rparr> else p\<lparr>pending_signal := SIGALRM, alarm_elapsed := 0\<rparr>)"
  by (simp add: signaltick_fields_def)

text \<open>The alarm fires every \<open>n\<close> ticks: with an interval of \<open>n\<close> and no handler running, the first \<open>n - 1\<close> ticks
  only count, and the \<open>n\<close>-th makes \<^verbatim>\<open>SIGALRM\<close> pending and starts the count again. While a
  handler runs, ticks change nothing.\<close>

theorem alarm_period:
  assumes "0 < alarm_interval p" "signal_registered p \<noteq> 0" "signal_inflight p = 0" "pending_signal p = 0" "alarm_elapsed p = 0"
  shows "(\<forall>k. int k < alarm_interval p \<longrightarrow> (signaltick_fields ^^ k) p = p\<lparr>alarm_elapsed := int k\<rparr>) \<and>
    (signaltick_fields ^^ nat (alarm_interval p)) p = p\<lparr>pending_signal := SIGALRM\<rparr> \<and>
    (\<forall>q. signal_inflight q \<noteq> 0 \<longrightarrow> signaltick_fields q = q)"
proof -
  have few: "(signaltick_fields ^^ k) p = p\<lparr>alarm_elapsed := int k\<rparr>" if "int k < alarm_interval p" for k
    using that
  proof (induction k)
    case 0
    then show ?case using assms(5) by simp
  next
    case (Suc k)
    then have "(signaltick_fields ^^ k) p = p\<lparr>alarm_elapsed := int k\<rparr>" by simp
    then show ?case using Suc.prems assms(1-4) by (simp add: signaltick_counts add.commute)
  qed
  obtain n where n: "nat (alarm_interval p) = Suc n" using assms(1) by (metis gr0_implies_Suc zero_less_nat_eq)
  then have i: "alarm_interval p = int n + 1" by linarith
  have "(signaltick_fields ^^ n) p = p\<lparr>alarm_elapsed := int n\<rparr>" by (rule few) (simp add: i)
  then have "(signaltick_fields ^^ nat (alarm_interval p)) p = p\<lparr>pending_signal := SIGALRM\<rparr>"
    using assms i unfolding n by (simp add: signaltick_counts)
  moreover have "signaltick_fields q = q" if "signal_inflight q \<noteq> 0" for q using that by (simp add: signaltick_fields_def)
  ultimately show ?thesis using few by blast
qed

theorem alarm_period_witness:
  "pending_signal ((signaltick_fields ^^ 3) (zero_proc\<lparr>alarm_interval := 3, signal_registered := 1\<rparr>)) = SIGALRM \<and>
   pending_signal ((signaltick_fields ^^ 2) (zero_proc\<lparr>alarm_interval := 3, signal_registered := 1\<rparr>)) = 0"
proof -
  let ?p = "zero_proc\<lparr>alarm_interval := 3, signal_registered := 1\<rparr>"
  have a: "(\<forall>k. int k < alarm_interval ?p \<longrightarrow> (signaltick_fields ^^ k) ?p = ?p\<lparr>alarm_elapsed := int k\<rparr>) \<and>
    (signaltick_fields ^^ nat (alarm_interval ?p)) ?p = ?p\<lparr>pending_signal := SIGALRM\<rparr>"
    using alarm_period [of ?p] by (simp add: zero_proc_def)
  then have "(signaltick_fields ^^ 2) ?p = ?p\<lparr>alarm_elapsed := int 2\<rparr>" by simp
  with a show ?thesis by (simp add: zero_proc_def)
qed

subsection \<open>Time\<close>

text \<open>A clock tick on hart 0 charges every process for exactly what it is doing: a running process one tick of
  run time, a sleeping one of sleep time, a runnable one of waiting time, and the others nothing. The tick
  counter advances by one (wrapping), the processes asleep on it become runnable, and nothing else of any
  process changes. On the other harts nothing happens.\<close>

theorem clock_tick_accounts:
  assumes "held s = {}" "length (proc s) = NPROC" "cur < NPROC" "state (proc s ! cur) = RUNNING"
  shows "clockintr (Some cur) False s = Some s \<and>
    (\<exists>s'. clockintr (Some cur) True s = Some s' \<and> ticks s' = ticks s + 1 \<and> held s' = {} \<and>
      (\<forall>i < NPROC. proc s' ! i = (proc s ! i)\<lparr>
         rtime := rtime (proc s ! i) + (if state (proc s ! i) = RUNNING then 1 else 0),
         stime := stime (proc s ! i) + (if state (proc s ! i) = SLEEPING then 1 else 0),
         retime := retime (proc s ! i) + (if state (proc s ! i) = RUNNABLE then 1 else 0),
         state := (if state (proc s ! i) = SLEEPING \<and> chan (proc s ! i) = Some ChTicks then RUNNABLE else state (proc s ! i))\<rparr>))"
proof -
  have "proc (tick (Some cur) s) ! i = (proc s ! i)\<lparr>
         rtime := rtime (proc s ! i) + (if state (proc s ! i) = RUNNING then 1 else 0),
         stime := stime (proc s ! i) + (if state (proc s ! i) = SLEEPING then 1 else 0),
         retime := retime (proc s ! i) + (if state (proc s ! i) = RUNNABLE then 1 else 0),
         state := (if state (proc s ! i) = SLEEPING \<and> chan (proc s ! i) = Some ChTicks then RUNNABLE else state (proc s ! i))\<rparr>"
    if "i < NPROC" for i
    using that assms(2,4) by (auto simp: tick_def wake_nth wakeup_proc_def update_time_proc_def)
  then show ?thesis using assms(1,2) by (simp add: clockintr_eq) (simp add: tick_def)
qed

theorem clock_tick_accounts_witness:
  "\<exists>s'. clockintr (Some 0) True (demo small_mem) = Some s' \<and> ticks s' = 1 \<and> rtime (proc s' ! 0) = 1 \<and> stime (proc s' ! 0) = 0"
proof -
  have "0 < NPROC" by (simp add: NPROC_def)
  with clock_tick_accounts [of "demo small_mem" 0] show ?thesis by (auto simp: demo_proc_def zero_proc_def)
qed

subsection \<open>Semaphores\<close>

text \<open>C28. The kernel's semaphores refine their specification, a partial map from identifiers to values: on every
  branch, initialising, posting and waiting commute with the abstraction, return what the specification
  returns (-1 for a bad identifier, a negative start value or a semaphore that is not in use), and a wait
  on value 0 blocks without changing the map.\<close>

theorem semaphores_refine_map:
  assumes "held s = {}" "length (proc s) = NPROC" "length (semtable s) = NSEM" "cur < NPROC"
  shows "map_option (\<lambda>(r, s'). (r, sem_abs s')) (ksem_init cur sid v s) = Some (spec_init sid v (sem_abs s)) \<and>
    map_option (\<lambda>(r, s'). (r, sem_abs s')) (ksem_post cur sid s) = Some (spec_post sid (sem_abs s)) \<and>
    map_option (\<lambda>(r, s'). (r, sem_abs s')) (ksem_wait cur sid s) = Some (spec_wait sid (sem_abs s))"
proof -
  have r: "sems_ready s" using assms(1-3) by (simp add: sems_ready_def)
  show ?thesis by (intro conjI ksem_init_refines [OF r] ksem_post_refines [OF r] ksem_wait_refines [OF r assms(4)])
qed

theorem semaphores_refine_map_witness:
  "map_option (\<lambda>(r, s'). (r, sem_abs s')) (ksem_init 0 5 1 (demo small_mem)) = Some (0, [5 \<mapsto> 1]) \<and>
   map_option (\<lambda>(r, s'). (r, sem_abs s')) (ksem_post 0 5 (demo small_mem)) = Some (-1, Map.empty)"
proof -
  have "sem_abs (demo small_mem) = Map.empty" by (auto simp: sem_abs_def fun_eq_iff dest: semid_less)
  with semaphores_refine_map [of "demo small_mem" 0 5 1] show ?thesis
    by (simp add: spec_init_def spec_post_def semid_ok_def NSEM_def NPROC_def)
qed


definition demo_sem :: "unit kstate" where
  "demo_sem = upd_sem 5 (\<lambda>q. q\<lparr>used := 1, sem_value := 1\<rparr>) (demo small_mem)"


end
