(* ===== verification/Fs_Props.thy ===== *)
theory Fs_Props
  imports Fs_Trans Fs_Pipe Kern_Ipc_Props
begin

text \<open>
  Properties of the file system's lower layers and of pipes: a commit is atomic under crashes, the log has room
  for every operation that was let in, a pipe is a queue of bytes.
\<close>

subsection \<open>A concrete machine\<close>

definition fs_demo :: "nat \<Rightarrow> fsys" where
  "fs_demo n = \<lparr>bufs = binit (replicate (Suc NBUF) zero_buf),
     flog = \<lparr>log_start = 2, outstanding = int n, committing = 0, log_dev = 1, lh = \<lparr>lh_n = 0, lh_block = replicate LOGBLOCKS 0\<rparr>\<rparr>,
     sb = \<lparr>sb_magic = 0x10203040, sb_size = 2000, sb_nblocks = 1953, sb_ninodes = 200, sb_nlog = 31, sb_logstart = 2, sb_inodestart = 33, sb_bmapstart = 46\<rparr>,
     itable = [], ftable = [], pipes = (\<lambda>_. pipe_init (replicate PIPESIZE 0)), disk = (\<lambda>_. replicate BSIZE 0), written = [],
     cons = \<lparr>cbuf = replicate 128 0, c_r = 0, c_w = 0, c_e = 0\<rparr>, tx_busy = 0, tx_out = []\<rparr>"

definition fdemo :: "nat \<Rightarrow> pmem \<Rightarrow> u64 \<Rightarrow> fkstate" where
  "fdemo n m pt = (bss_state demo_syms m (fs_demo n))\<lparr>proc := replicate NPROC ((demo_proc 1 None)\<lparr>pagetable := pt\<rparr>)\<rparr>"

lemma fdemo_simps [simp]:
  "held (fdemo n m pt) = {}" "length (proc (fdemo n m pt)) = NPROC" "pm (fdemo n m pt) = m" "fs (fdemo n m pt) = fs_demo n"
  "i < NPROC \<Longrightarrow> proc (fdemo n m pt) ! i = (demo_proc 1 None)\<lparr>pagetable := pt\<rparr>"
  by (simp_all add: fdemo_def bss_state_def)

lemma demo_boot: "boot_state 0 1 (\<lambda>_. replicate BSIZE 0) (fdemo n m pt)"
  by (rule boot_cache) (simp_all add: fs_demo_def NPROC_def)

lemma zero_header: "header_ok start (replicate BSIZE 0)" "dec_head (replicate BSIZE 0) = []"
proof -
  have g: "get32 0 (replicate BSIZE 0) = 0" by (simp add: get32_def BSIZE_def)
  show "dec_head (replicate BSIZE 0) = []" by (simp add: dec_head_def g)
  then show "header_ok start (replicate BSIZE 0)" by (simp add: header_ok_def g homes_ok_def)
qed

subsection \<open>The log\<close>

text \<open>C3. A commit is atomic. It ends, and the disk then has the cached contents of every logged block and is
  unchanged elsewhere outside the log. If power is lost after any number of its block writes, and again
  after any number of the block writes that \<open>initlog\<close> makes in any number of recoveries, in their order, then the next complete recovery ends with
  either all of the logged blocks or none of them, and everything else outside the log unchanged.\<close>

theorem commit_survives_crashes:
  assumes "committable cur d start L s"
  shows "\<exists>t ws. commit cur s = Some t \<and> lh_n (lh (flog (fs t))) = 0 \<and> written (fs t) = rev ws @ written (fs s) \<and>
    (\<forall>m. home start m \<longrightarrow> disk (fs t) m = (if m \<in> set L then bview d (fs s) m else disk (fs s) m)) \<and>
    (\<forall>E cur' b sb0. crashed d start ws (disk (fs s)) E \<and> boot_state cur' d E b \<and> sb_logstart sb0 = start \<longrightarrow>
      (\<exists>u. initlog cur' d sb0 b = Some u \<and> lh_n (lh (flog (fs u))) = 0 \<and>
        ((\<forall>m. home start m \<longrightarrow> disk (fs u) m = disk (fs s) m) \<or>
         (\<forall>m. home start m \<longrightarrow> disk (fs u) m = (if m \<in> set L then bview d (fs s) m else disk (fs s) m)))))"
  by (rule commit_atomic [OF assms])

text \<open>One block changed in a transaction of the demonstration machine.\<close>

lemma demo_committable: "\<exists>s. committable 0 1 2 [50] s \<and> bview 1 (fs s) 50 = replicate BSIZE 7 \<and> disk (fs s) = (\<lambda>_. replicate BSIZE 0)"
proof -
  let ?s = "fdemo 1 small_mem 0" and ?D = "\<lambda>_. replicate BSIZE 0 :: block" and ?me = "mypid 0 (fdemo 1 small_mem 0)"
  let ?P = "\<lambda>m. replicate BSIZE (if m = 50 then 7 else 0)"
  obtain V W where c0: "cache_is 0 1 ?s V (\<lambda>_. 0) (\<lambda>_. None) ?D W" using demo_boot [of 1 small_mem 0] unfolding boot_state_def by blast
  have V: "V = ?D" using cache_is_clean [OF c0] by auto
  have l0: "log_is 1 2 [] ?s" by (simp add: log_is_def fs_demo_def)
  have nb: "card {m :: u32. 0 < (0 :: nat)} < NBUF" by (simp add: NBUF_def)
  obtain b s1 where 1: "bread 0 1 50 ?s = Some (b, s1)" "keeps 1 ?s s1" "holds 1 (fs s1) b 50"
    "cache_is 0 1 s1 ?D ((\<lambda>_. 0)(50 := Suc 0)) ((\<lambda>_. None)(50 := Some ?me)) ?D W"
    using bread_is [OF c0 [unfolded V], of 50] nb by auto
  let ?s2 = "set_data b (\<lambda>_. replicate BSIZE 7) s1"
  have 2: "cache_is 0 1 ?s2 (?D(50 := replicate BSIZE 7)) ((\<lambda>_. 0)(50 := Suc 0)) ((\<lambda>_. None)(50 := Some ?me)) ?D W" "holds 1 (fs ?s2) b 50"
    "keeps 1 s1 ?s2"
    using set_data_is [OF 1(4,3), of "\<lambda>_. replicate BSIZE 7"] 1(3) by auto
  have q: "flog (fs s1) = flog (fs_demo 1)" using quiet_log [OF keeps_quiet [OF 1(2)]] by simp
  have l2: "log_is 1 2 [] ?s2" "1 \<le> outstanding (flog (fs ?s2))" by (simp_all add: log_is_def q) (simp_all add: fs_demo_def)
  have k2: "mypid 0 ?s2 = ?me" using keeps_mypid [OF 1(2) c0] keeps_mypid [OF 2(3) 1(4)] by simp
  obtain s3 where 3: "log_write b ?s2 = Some s3" "log_is 1 2 [50] s3"
    "cache_is 0 1 s3 (?D(50 := replicate BSIZE 7)) ((\<lambda>_. 0)(50 := Suc (Suc 0))) ((\<lambda>_. None)(50 := Some ?me)) ?D W" "holds 1 (fs s3) b 50"
    "mypid 0 s3 = ?me"
    by (rule log_write_ok [OF 2(1) l2(1) 2(2)]) (use l2(2) 2(2) k2 in \<open>auto simp: LOGBLOCKS_def logged_def\<close>)
  have o3: "((\<lambda>_. None)(50 := Some ?me)) 50 = Some (mypid 0 s3)" using 3(5) by simp
  obtain s4 where 4: "keeps 1 s3 s4" "cache_is 0 1 s4 (?D(50 := replicate BSIZE 7)) ((\<lambda>_. 0)(50 := Suc 0)) (\<lambda>_. None) ?D W"
  proof (rule brelse_is [OF 3(3,4) o3])
    fix t assume t: "keeps 1 s3 t" "cache_is 0 1 t (?D(50 := replicate BSIZE 7))
        (((\<lambda>_. 0)(50 := Suc (Suc 0)))(50 := ((\<lambda>_. 0)(50 := Suc (Suc 0))) 50 - 1)) (((\<lambda>_. None)(50 := Some ?me))(50 := None)) ?D W"
    have "(((\<lambda>_. 0)(50 := Suc (Suc 0)))(50 := ((\<lambda>_. 0)(50 := Suc (Suc 0))) 50 - 1)) = ((\<lambda>_. 0)(50 := Suc 0) :: u32 \<Rightarrow> nat)"
      "((\<lambda>_. None)(50 := Some ?me))(50 := None) = (\<lambda>_. None)" by auto
    then show thesis using that [OF t(1)] t(2) by simp
  qed simp_all
  have l4: "log_is 1 2 [50] s4" using 3(2) log_is_quiet [OF keeps_quiet [OF 4(1)]] by simp
  have hm: "homes_ok 2 [50]"
  proof -
    have "log_slot 2 j \<noteq> 50" if "j < LOGBLOCKS" for j
    proof
      assume "log_slot 2 j = 50"
      then have "of_nat j + 3 = (50 :: u32)" by (simp add: log_slot_def algebra_simps)
      then have "(of_nat j :: u32) = 50 - 3" by (metis add_diff_cancel_right')
      then have "unat (of_nat j :: u32) = 47" by simp
      then show False using that by (simp add: unat_of_nat LOGBLOCKS_def take_bit_nat_eq_self)
    qed
    then show ?thesis by (auto simp: homes_ok_def LOGBLOCKS_def)
  qed
  have "{m. 0 < ((\<lambda>_. 0)(50 := Suc 0) :: u32 \<Rightarrow> nat) m} = {50}" by auto
  then have "committable 0 1 2 [50] s4"
    using 4(2) l4 hm zero_header homes_okD(2) [OF hm, of 0 0]
    by (simp add: committable_def cache_is_def NBUF_def BSIZE_def)
  then show ?thesis using 4(2) by (auto simp: cache_is_def)
qed

theorem commit_survives_crashes_witness:
  "\<exists>s t. commit 0 s = Some t \<and> disk (fs s) 50 = replicate BSIZE 0 \<and> disk (fs t) 50 = replicate BSIZE 7"
proof -
  obtain s where s: "committable 0 1 2 [50] s" "bview 1 (fs s) 50 = replicate BSIZE 7" "disk (fs s) = (\<lambda>_. replicate BSIZE 0)"
    using demo_committable by blast
  have "home 2 50" using s(1) homes_home [of 2 "[50]" 0] by (simp add: committable_def)
  then obtain t where "commit 0 s = Some t" "disk (fs t) 50 = bview 1 (fs s) 50"
    using commit_survives_crashes [OF s(1)] by auto
  then show ?thesis using s(2,3) by (intro exI [of _ s] exI [of _ t]) simp
qed

text \<open>C23. The log never overflows. In every state reached by operations that enter, log blocks and leave,
  each logging at most \<open>MAXOPBLOCKS\<close> new ones, at most \<open>LOGBLOCKS\<close> blocks are logged, and an
  operation that has not used up its share can log a block: neither panic of \<open>log_write\<close> happens.\<close>

theorem log_never_overflows:
  assumes "log_step\<^sup>*\<^sup>* (u, []) (s, ops)" "lh_n (lh (flog (fs u))) = 0" "outstanding (flog (fs u)) = 0"
  shows "lh_n (lh (flog (fs s))) + int (sum_list ops) \<le> int LOGBLOCKS \<and> outstanding (flog (fs s)) = int (length ops) \<and>
    (held s = {} \<longrightarrow> (\<exists>x \<in> set ops. 0 < x) \<longrightarrow> (\<forall>b. log_write b s \<noteq> None))"
proof -
  have "log_inv (u, [])" using assms(2,3) by (simp add: log_inv_def LOGBLOCKS_def)
  then have i: "log_inv (s, ops)" by (rule log_reach_inv [OF assms(1)])
  have "log_write b s \<noteq> None" if h: "held s = {}" and x: "x \<in> set ops" "0 < x" for b x
  proof -
    have "x \<le> sum_list ops" using x(1) by (intro member_le_sum_list) simp_all
    moreover have "0 < length ops" using x(1) by (cases ops) auto
    ultimately have "lh_n (lh (flog (fs s))) < int LOGBLOCKS" "1 \<le> outstanding (flog (fs s))"
      using i x(2) by (auto simp: log_inv_def Let_def Suc_le_eq)
    then show ?thesis using h by (simp add: log_write_def Let_def bpin_def set_head_def upd_log_def upd_buf_def insert_Diff_if)
  qed
  then show ?thesis using i by (auto simp: log_inv_def Let_def)
qed

theorem log_never_overflows_witness:
  "\<exists>t. begin_op 0 (fdemo 0 small_mem 0) = Some (Return (), t) \<and> (\<forall>b. log_write b t \<noteq> None)"
proof -
  let ?s = "fdemo 0 small_mem 0"
  define t where "t = upd_log (\<lambda>l. l\<lparr>outstanding := outstanding l + 1\<rparr>) ?s"
  have b: "begin_op 0 ?s = Some (Return (), t)"
    by (simp add: begin_op_def begin_op_turn_def Let_def fs_demo_def MAXOPBLOCKS_def LOGBLOCKS_def t_def upd_log_def)
  then have "log_step\<^sup>*\<^sup>* (?s, []) (t, [MAXOPBLOCKS])" using log_step.enter [OF b, of "[]"] by simp
  from log_never_overflows [OF this] have "\<forall>b. log_write b t \<noteq> None"
    by (simp add: fs_demo_def MAXOPBLOCKS_def) (simp add: t_def upd_log_def)
  then show ?thesis using b by blast
qed

subsection \<open>Pipes\<close>

lemma put_state_pagetable:
  "i < length (proc s) \<Longrightarrow> pagetable (proc (put_state w pa bs done s) ! i) = pagetable (proc s ! i)"
  by (auto simp: put_state_def Let_def wake_nth wakeup_proc_def upd_p_nth)

text \<open>C21. A pipe is a queue of bytes. A write of \<open>n\<close> bytes to an open pipe appends them in order, as many as
  fit: it returns \<open>n\<close> if all fit and otherwise sleeps after filling the ring. A read of \<open>k\<close> bytes
  then returns the first \<open>k\<close>, or all there are, copied to the reader's memory, and leaves the others in
  order. The counters may wrap around.\<close>

theorem pipe_is_queue:
  assumes "held s = {}" "writer_ok w pa a n s" "r < NPROC" "reader_ok r pa b k s" "pipe_content (pipe_of s pa) \<noteq> [] \<or> 0 < n"
    and "j = min n (PIPESIZE - length (pipe_content (pipe_of s pa)))"
    and "xs = pipe_content (pipe_of s pa) @ ubytes (pm s) (pagetable (proc s ! w)) a j"
  shows "\<exists>t u. pipewrite w pa (word_of_nat a) (int n) s = Some (if j = n then PwDone (int n) else PwSleep (int j), t) \<and>
    pipe_content (pipe_of t pa) = xs \<and>
    piperead r pa (word_of_nat b) (int k) t = Some (Return (int (min k (length xs))), u) \<and>
    ubytes (pm u) (pagetable (proc s ! r)) b (min k (length xs)) = take k xs \<and> pipe_content (pipe_of u pa) = drop k xs"
proof -
  let ?c = "pipe_content (pipe_of s pa)" and ?bs = "ubytes (pm s) (pagetable (proc s ! w)) a j"
  let ?t = "put_state w pa ?bs (j = n) s"
  have ok: "pipe_ok (pipe_of s pa)" using assms(2) by (simp add: writer_ok_def)
  note w = pipewrite_ok [OF assms(2,1,6)]
  have room: "length ?c + length ?bs \<le> PIPESIZE" using pipes.content_cap [OF ok] assms(6) by simp
  have x: "pipe_ok (pipe_of ?t pa)" "pipe_content (pipe_of ?t pa) = xs"
    using pipes.puts [OF ok room] assms(7) by (simp_all add: put_state_pipe)
  have pt: "pagetable (proc ?t ! r) = pagetable (proc s ! r)"
    using assms(3,4) by (intro put_state_pagetable) (simp add: reader_ok_def)
  have r: "reader_ok r pa b k ?t" using assms(4) x(1) by (simp add: reader_ok_def pt)
  have "xs \<noteq> []"
  proof (cases "?c = []")
    case True
    then have "0 < j" using assms(5,6) by (simp add: PIPESIZE_def)
    then show ?thesis using assms(7) by (simp add: ubytes_def)
  qed (simp add: assms(7))
  then have ne: "pipe_content (pipe_of ?t pa) \<noteq> [] \<or> writeopen (pipe_of ?t pa) = 0" using x(2) by simp
  obtain m where m: "piperead r pa (word_of_nat b) (int k) ?t = Some (Return (int (min k (length xs))), get_state r pa (min k (length xs)) m ?t)"
    "wrote (pm s) (pagetable (proc s ! r)) b (take (min k (length xs)) xs) m"
    using piperead_ok [OF r _ refl ne] by (auto simp: x(2) pt)
  let ?l = "length (take (min k (length xs)) xs)"
  have "ubytes m (pagetable (proc s ! r)) b ?l = take (min k (length xs)) xs"
    by (rule wrote_ubytes [OF m(2)]) (use assms(4) in \<open>auto simp: reader_ok_def writable_def\<close>)
  then have "ubytes m (pagetable (proc s ! r)) b (min k (length xs)) = take k xs" by (cases "k \<le> length xs") simp_all
  moreover have "pipe_content (pipe_of (get_state r pa (min k (length xs)) m ?t) pa) = drop k xs"
    using pipes.rests(2) [OF x(1), of "min k (length xs)"] x(2) by (auto simp: min_def)
  ultimately show ?thesis using w x(2) m(1) by (intro exI [of _ ?t] exI [of _ "get_state r pa (min k (length xs)) m ?t"]) simp
qed

theorem pipe_is_queue_witness:
  "\<exists>m pt t u. pipewrite 0 4096 0 3 (fdemo 0 m pt) = Some (PwDone 3, t) \<and> piperead 1 4096 100 5 t = Some (Return 3, u) \<and>
     ubytes (pm u) pt 100 3 = ubytes m pt 0 3"
proof -
  obtain m pt where m: "uspace m pt" "writable m pt 0" using small_space by metis
  let ?s = "fdemo 0 m pt"
  have p: "pipes (fs_demo 0) 4096 = pipe_init (replicate PIPESIZE 0)" by (simp add: fs_demo_def)
  have up: "upage m pt 0 \<noteq> 0" using m(2) by (simp add: writable_def)
  have w: "writer_ok 0 4096 0 3 ?s"
    using up by (simp add: writer_ok_def p pipe_ok_def pipe_init_def PIPESIZE_def NPROC_def demo_proc_def zero_proc_def)
  have r: "reader_ok 1 4096 100 5 ?s"
    using m by (simp add: reader_ok_def p pipe_ok_def pipe_init_def PIPESIZE_def NPROC_def)
  have c: "pipe_content (pipes (fs_demo 0) 4096) = []" by (simp add: p pipe_content_def pipe_init_def)
  have "\<exists>t u. pipewrite 0 4096 (word_of_nat 0) (int 3) ?s = Some (PwDone (int 3), t) \<and>
      piperead 1 4096 (word_of_nat 100) (int 5) t = Some (Return (int 3), u) \<and> ubytes (pm u) pt 100 3 = ubytes m pt 0 3"
    using pipe_is_queue [OF _ w _ r, of 3 "ubytes m pt 0 3"] by (simp add: c PIPESIZE_def NPROC_def) blast
  then show ?thesis by (intro exI [of _ m] exI [of _ pt]) simp
qed

end
