(* ===== verification/Fs_File_Props.thy ===== *)
theory Fs_File_Props
  imports Fs_Calls Fs_Props
begin

text \<open>
  Properties of files: a write changes exactly the bytes written and survives crashes as a whole, a read gets
  what was written, an allocation takes the first free block, an inode on disk is read as it was written.
\<close>

subsection \<open>An inode in a transaction\<close>

text \<open>The caller has locked the inode \<open>i\<close> in a transaction that has logged the blocks \<open>L\<close> and
  holds no buffer.\<close>

definition in_txn :: "nat \<Rightarrow> u32 \<Rightarrow> u32 list \<Rightarrow> nat \<Rightarrow> fkstate \<Rightarrow> bool" where
  "in_txn cur d L i s \<longleftrightarrow>
     file_state cur d (sb_logstart (super s)) (disk (fs s)) (super s) L (bview d (fs s)) i (inode_of s i) s \<and>
     file_ok (super s) (bview d (fs s)) (inode_of s i) \<and> 1 \<le> outstanding (flog (fs s))"

text \<open>The bytes of the file.\<close>

definition file_bytes :: "u32 \<Rightarrow> nat \<Rightarrow> fkstate \<Rightarrow> byte list" where
  "file_bytes d i s = contents (bview d (fs s)) (inode_of s i)"

text \<open>The bytes of the file with inode number \<open>n\<close> as they are on a disk.\<close>

definition bytes_on :: "superblock \<Rightarrow> (u32 \<Rightarrow> block) \<Rightarrow> nat \<Rightarrow> byte list" where
  "bytes_on v D n = contents D (load_inode (dec_dinode (n mod IPB) (D (IBLOCK n v))) zero_inode)"

lemma file_state_here:
  assumes "file_state cur d start D v L V i ip s"
  shows "D = disk (fs s)" "V = bview d (fs s)" "v = super s" "ip = inode_of s i" "start = sb_logstart (super s)"
  using assms by (auto simp: file_state_def txn_def cache_is_def)

lemma in_txn_intro:
  assumes "file_state cur d start D v L V i ip s" "file_ok v V ip" "1 \<le> outstanding (flog (fs s))"
  shows "in_txn cur d L i s"
  using assms file_state_here [OF assms(1)] by (simp add: in_txn_def)

lemma length_contents [simp]: "length (contents V ip) = unat (isize ip)"
  by (simp add: contents_def)

text \<open>What is on a disk that agrees with the cache outside the log.\<close>

lemma contents_own:
  assumes v: "file_ok v V ip" and D: "\<And>a. a \<in> own V ip \<Longrightarrow> D a = V a"
  shows "contents D ip = contents V ip"
proof -
  have b: "baddr D ip k = baddr V ip k" for k using D own_indirect [of ip V] by (auto simp: baddr_def)
  have "fbyte D ip p = fbyte V ip p" if p: "p < unat (isize ip)" for p
  proof -
    have k: "p div BSIZE < MAXFILE" "baddr V ip (p div BSIZE) \<noteq> 0"
      using v p by (auto simp: file_ok_def intro!: less_mult_imp_div_less)
    then show ?thesis using D [OF own_baddr [OF k]] by (simp add: fbyte_def fblock_def b)
  qed
  then show ?thesis by (simp add: contents_def fbytes_def)
qed

lemma contents_agree:
  assumes v: "layout_ok v" "ino_ok v V ip" "file_ok v V ip" and D: "\<And>n. home (sb_logstart v) n \<Longrightarrow> D n = V n"
  shows "contents D ip = contents V ip"
  by (rule contents_own [OF v(3)]) (use D home_data [OF v(1)] ino_okD(2) [OF v(2)] in blast)

lemma bytes_on_stored:
  assumes v: "layout_ok v" "ino_ok v V ip" "file_ok v V ip" "stored v V ip" and D: "\<And>n. home (sb_logstart v) n \<Longrightarrow> D n = V n"
  shows "bytes_on v D (unat (inum ip)) = contents V ip"
proof -
  have n: "unat (inum ip) < unat (sb_ninodes v)" using v(3) by (simp add: file_ok_def)
  have "home (sb_logstart v) (inode_block v ip)"
    unfolding inode_block_def using unat_IBLOCK(1) [OF v(1) n] by (intro home_behind [OF v(1)]) simp
  then have "dec_dinode (unat (inum ip) mod IPB) (D (IBLOCK (unat (inum ip)) v)) = of_inode ip"
    using v(4) D by (simp add: stored_def inode_block_def)
  then have e: "bytes_on v D (unat (inum ip)) = contents D (load_inode (of_inode ip) zero_inode)" by (simp add: bytes_on_def)
  let ?jp = "load_inode (of_inode ip) zero_inode"
  have "addrs ?jp = addrs ip" "isize ?jp = isize ip" by (simp_all add: load_inode_def of_inode_def)
  then have "contents D ?jp = contents D ip" using addrs_only(3) [of ?jp ip D] by (simp add: contents_def fbytes_def)
  then show ?thesis using contents_agree [OF v(1-3) D] e by simp
qed

text \<open>Such a transaction may commit.\<close>

lemma txn_committable:
  assumes t: "txn cur d start D L {} V s" and l: "length L < NBUF" "L \<noteq> []" and m: "map_ok v V"
    and h: "header_ok start (D start)" "dec_head (D start) = []"
  shows "committable cur d start L s"
proof -
  obtain W where c: "cache_is cur d s V (txn_refs L {}) (txn_owner (mypid cur s) {}) D W" and L: "log_is d start L s" "distinct L" "\<forall>n \<in> set L. home start n"
    using t by (auto simp: txn_def)
  have C: "caller cur d s" "bview d (fs s) = V" "refs d (fs s) = txn_refs L {}" "owner d (fs s) = txn_owner (mypid cur s) {}" "disk (fs s) = D"
    using c by (auto simp: cache_is_def)
  have "homes_ok start L" using L l by (auto simp: homes_ok_def home_def NBUF_def LOGBLOCKS_def)
  moreover have "card {m. 0 < txn_refs L {} m} < NBUF" by (rule txn_room) (use l in simp_all)
  ultimately show ?thesis using C L l m h by (simp add: committable_def txn_refs_def txn_owner_def map_ok_def)
qed

text \<open>A write in a transaction of the caller.\<close>

lemma write_in_txn:
  assumes t: "in_txn cur d L i s" and src: "src_ok cur src xs s" and off: "off \<le> isize (inode_of s i)"
    and n: "unat n = length xs" "unat off + length xs \<le> MAXFILE * BSIZE" and r: "length L + 6 * blocks_of (unat off) (length xs) + 1 < NBUF"
  obtains k t L' where "writei cur i src off n s = Some (int k, t)" "k \<le> length xs" "k < length xs \<longrightarrow> full (super t) (bview d (fs t))"
    "in_txn cur d L' i t" "stored (super t) (bview d (fs t)) (inode_of t i)" "file_bytes d i t = poke (unat off) (take k xs) (file_bytes d i s)"
    "length L' < NBUF" "L' \<noteq> []" "disk (fs t) = disk (fs s)" "super t = super s" "inum (inode_of t i) = inum (inode_of s i)"
    "\<forall>m. data_start (super s) \<le> unat m \<and> unat m < unat (sb_size (super s)) \<and> blk_used (super s) (bview d (fs s)) (unat m) \<and>
       m \<notin> own (bview d (fs s)) (inode_of s i) \<longrightarrow> bview d (fs t) m = bview d (fs s) m"
    "itable (fs t) = (itable (fs s))[i := inode_of t i]"
    "inode_of t i = (inode_of s i)\<lparr>addrs := addrs (inode_of t i), isize := isize (inode_of t i)\<rparr>"
proof -
  let ?v = "super s" and ?V = "bview d (fs s)" and ?ip = "inode_of s i" and ?D = "disk (fs s)" and ?start = "sb_logstart (super s)"
  have f: "file_state cur d ?start ?D ?v L ?V i ?ip s" "file_ok ?v ?V ?ip" "1 \<le> outstanding (flog (fs s))" using t by (simp_all add: in_txn_def)
  obtain k t L' V' ip' where W: "writei cur i src off n s = Some (int k, t)" "k \<le> length xs" "k < length xs \<longrightarrow> full ?v V'"
    "file_state cur d ?start ?D ?v L' V' i ip' t" "file_ok ?v V' ip'" "stored ?v V' ip'" "contents V' ip' = poke (unat off) (take k xs) (contents ?V ?ip)"
    "length L' \<le> length L + 6 * blocks_of (unat off) (length xs) + 1" "frame d {} (upd_inode i (\<lambda>_. ip') s) t" "L' \<noteq> []"
    "\<forall>m. data_start ?v \<le> unat m \<and> unat m < unat (sb_size ?v) \<and> blk_used ?v ?V (unat m) \<and> m \<notin> own ?V ?ip \<longrightarrow> V' m = ?V m"
    "ip' = ?ip\<lparr>addrs := addrs ip', isize := isize ip'\<rparr>"
    by (rule writei_ok [OF f(1,2,3) src off n r])
  note H = file_state_here [OF W(4)]
  have o: "1 \<le> outstanding (flog (fs t))" using frame_fields(7) [OF W(9)] f(3) by simp
  have n: "inum ip' = inum ?ip" using arg_cong [OF W(12), of inum] by simp
  have tb: "itable (fs t) = (itable (fs s))[i := inode_of t i]" using frame_fields(4) [OF W(9)] unfolding H(4) [symmetric] by simp
  show thesis
    by (rule that [OF W(1,2) _ in_txn_intro [OF W(4,5) o] _ _ _ _ _ _ _ _ tb W(12) [unfolded H(4)]])
      (use W(3,6,7,8,10,11) n r in \<open>simp_all add: file_bytes_def flip: H\<close>)
qed

subsection \<open>Writing\<close>

text \<open>C4. A write to a file survives power failures as a whole. In a fresh transaction \<open>writei\<close> writes all bytes,
  or fewer when the disk is full, and the commit ends. Afterwards the file on the disk has the new contents;
  if power is lost after any number of the commit's block writes, and again during any number of recoveries,
  the next complete recovery leaves the old contents or the new ones, with the inode that belongs to them.\<close>

theorem write_survives_crashes:
  assumes "in_txn cur d [] i s" "stored (super s) (bview d (fs s)) (inode_of s i)" "src_ok cur src xs s" "off \<le> isize (inode_of s i)"
    and "unat n = length xs" "unat off + length xs \<le> MAXFILE * BSIZE" "6 * blocks_of (unat off) (length xs) + 1 < NBUF"
    and "header_ok (sb_logstart (super s)) (disk (fs s) (sb_logstart (super s)))" "dec_head (disk (fs s) (sb_logstart (super s))) = []"
  shows "\<exists>k t u ws. writei cur i src off n s = Some (int k, t) \<and> commit cur t = Some u \<and> k \<le> length xs \<and>
    (k < length xs \<longrightarrow> full (super t) (bview d (fs t))) \<and>
    bytes_on (super s) (disk (fs s)) (unat (inum (inode_of s i))) = file_bytes d i s \<and>
    bytes_on (super s) (disk (fs u)) (unat (inum (inode_of s i))) = poke (unat off) (take k xs) (file_bytes d i s) \<and>
    written (fs u) = rev ws @ written (fs t) \<and>
    (\<forall>E cur' b sb0. crashed d (sb_logstart (super s)) ws (disk (fs s)) E \<and> boot_state cur' d E b \<and> sb_logstart sb0 = sb_logstart (super s) \<longrightarrow>
      (\<exists>w. initlog cur' d sb0 b = Some w \<and>
        (bytes_on (super s) (disk (fs w)) (unat (inum (inode_of s i))) = file_bytes d i s \<or>
         bytes_on (super s) (disk (fs w)) (unat (inum (inode_of s i))) = poke (unat off) (take k xs) (file_bytes d i s))))"
proof -
  let ?v = "super s" and ?V = "bview d (fs s)" and ?ip = "inode_of s i" and ?D = "disk (fs s)" and ?start = "sb_logstart (super s)"
  have r: "length ([] :: u32 list) + 6 * blocks_of (unat off) (length xs) + 1 < NBUF" using assms(7) by simp
  obtain k t L where W: "writei cur i src off n s = Some (int k, t)" "k \<le> length xs" "k < length xs \<longrightarrow> full (super t) (bview d (fs t))"
    "in_txn cur d L i t" "stored (super t) (bview d (fs t)) (inode_of t i)" "file_bytes d i t = poke (unat off) (take k xs) (file_bytes d i s)"
    "length L < NBUF" "L \<noteq> []" "disk (fs t) = ?D" "super t = ?v" "inum (inode_of t i) = inum ?ip"
    by (rule write_in_txn [OF assms(1,3-6) r])
  let ?V' = "bview d (fs t)" and ?ip' = "inode_of t i" and ?n = "unat (inum (inode_of s i))"
  have f: "file_state cur d ?start ?D ?v [] ?V i ?ip s" "file_ok ?v ?V ?ip" using assms(1) by (simp_all add: in_txn_def)
  have f': "file_state cur d ?start ?D ?v L ?V' i ?ip' t" "file_ok ?v ?V' ?ip'" using W(4,9,10) by (simp_all add: in_txn_def)
  note F = file_stateD [OF f(1)] and F' = file_stateD [OF f'(1)]
  have c: "committable cur d ?start L t" by (rule txn_committable [OF F'(1) W(7,8) F'(4) assms(8,9)])
  obtain u ws where u: "commit cur t = Some u" "written (fs u) = rev ws @ written (fs t)"
    "\<forall>m. home ?start m \<longrightarrow> disk (fs u) m = (if m \<in> set L then ?V' m else ?D m)"
    "\<forall>E cur' b sb0. crashed d ?start ws ?D E \<and> boot_state cur' d E b \<and> sb_logstart sb0 = ?start \<longrightarrow>
      (\<exists>w. initlog cur' d sb0 b = Some w \<and> ((\<forall>m. home ?start m \<longrightarrow> disk (fs w) m = ?D m) \<or>
         (\<forall>m. home ?start m \<longrightarrow> disk (fs w) m = (if m \<in> set L then ?V' m else ?D m))))"
    using commit_atomic [OF c] unfolding W(9) by blast
  have new: "(if m \<in> set L then ?V' m else ?D m) = ?V' m" for m using txn_clean [OF F'(1), of m] by simp
  have old: "?D m = ?V m" for m using txn_clean [OF F(1), of m] by simp
  have on_old: "bytes_on ?v E ?n = file_bytes d i s" if "\<And>m. home ?start m \<Longrightarrow> E m = ?D m" for E
    unfolding file_bytes_def by (rule bytes_on_stored [OF F(3,5) f(2) assms(2)]) (use that old in simp)
  have on_new: "bytes_on ?v E ?n = file_bytes d i t" if "\<And>m. home ?start m \<Longrightarrow> E m = ?V' m" for E
  proof -
    have "bytes_on ?v E (unat (inum ?ip')) = contents ?V' ?ip'"
      by (rule bytes_on_stored [OF F'(3,5) f'(2)]) (use W(5,10) that in simp_all)
    then show ?thesis by (simp only: W(11) file_bytes_def)
  qed
  have 1: "bytes_on ?v ?D ?n = file_bytes d i s" by (rule on_old) simp
  have 2: "bytes_on ?v (disk (fs u)) ?n = file_bytes d i t" by (rule on_new) (use u(3) new in simp)
  have 3: "\<exists>w. initlog cur' d sb0 b = Some w \<and> (bytes_on ?v (disk (fs w)) ?n = file_bytes d i s \<or> bytes_on ?v (disk (fs w)) ?n = file_bytes d i t)"
    if "crashed d ?start ws ?D E" "boot_state cur' d E b" "sb_logstart sb0 = ?start" for E cur' b sb0
    using u(4) that on_old on_new unfolding new by blast
  show ?thesis
    using W(1-3) u(1,2) 1 2 3 unfolding W(6) by blast
qed

subsection \<open>Reading what was written\<close>

text \<open>C22. What is written is read back, and nothing else changes. A write of \<open>xs\<close> at \<open>off\<close> stores a
  prefix of it, the whole of it unless the disk is full; every later read inside the file gets the bytes of the
  old contents with this prefix put over them (or behind them, when the file grows); and every other
  file on the disk that shares no block with this one keeps its contents.\<close>

theorem write_then_read:
  assumes "in_txn cur d L i s" "src_ok cur src xs s" "off \<le> isize (inode_of s i)"
    and "unat n = length xs" "unat off + length xs \<le> MAXFILE * BSIZE" "length L + 6 * blocks_of (unat off) (length xs) + 1 < NBUF"
  shows "\<exists>k t L'. writei cur i src off n s = Some (int k, t) \<and> in_txn cur d L' i t \<and> k \<le> length xs \<and>
    (k < length xs \<longrightarrow> full (super t) (bview d (fs t))) \<and>
    (\<forall>ro rn dst. unat ro + unat rn \<le> unat (isize (inode_of t i)) \<and> dst_ok cur dst (unat rn) t \<longrightarrow>
      (\<exists>dst' u. readi cur i dst ro rn t = Some (int (unat rn), dst', u) \<and> file_bytes d i u = file_bytes d i t \<and>
        gets (pm t) (pagetable (proc t ! cur)) dst (take (unat rn) (drop (unat ro) (poke (unat off) (take k xs) (file_bytes d i s)))) dst' (pm u))) \<and>
    (\<forall>jp. ino_ok (super s) (bview d (fs s)) jp \<and> file_ok (super s) (bview d (fs s)) jp \<and>
      own (bview d (fs s)) jp \<inter> own (bview d (fs s)) (inode_of s i) = {} \<longrightarrow> contents (bview d (fs t)) jp = contents (bview d (fs s)) jp)"
proof -
  obtain k t L' where W: "writei cur i src off n s = Some (int k, t)" "k \<le> length xs" "k < length xs \<longrightarrow> full (super t) (bview d (fs t))"
    "in_txn cur d L' i t" "file_bytes d i t = poke (unat off) (take k xs) (file_bytes d i s)" "length L' < NBUF" "super t = super s"
    "\<forall>m. data_start (super s) \<le> unat m \<and> unat m < unat (sb_size (super s)) \<and> blk_used (super s) (bview d (fs s)) (unat m) \<and>
       m \<notin> own (bview d (fs s)) (inode_of s i) \<longrightarrow> bview d (fs t) m = bview d (fs s) m"
    by (rule write_in_txn [OF assms])
  have f: "file_state cur d (sb_logstart (super t)) (disk (fs t)) (super t) L' (bview d (fs t)) i (inode_of t i) t"
    "file_ok (super t) (bview d (fs t)) (inode_of t i)" using W(4) by (simp_all add: in_txn_def)
  have read: "\<exists>dst' u. readi cur i dst ro rn t = Some (int (unat rn), dst', u) \<and> file_bytes d i u = file_bytes d i t \<and>
      gets (pm t) (pagetable (proc t ! cur)) dst (take (unat rn) (drop (unat ro) (poke (unat off) (take k xs) (file_bytes d i s)))) dst' (pm u)"
    if h: "unat ro + unat rn \<le> unat (isize (inode_of t i))" "dst_ok cur dst (unat rn) t" for ro rn dst
  proof -
    obtain dst' u m' where R: "readi cur i dst ro rn t = Some (int (unat rn), dst', u)"
      "file_state cur d (sb_logstart (super t)) (disk (fs t)) (super t) L' (bview d (fs t)) i (inode_of t i) u" "frame d {} (t\<lparr>pm := m'\<rparr>) u"
      "gets (pm t) (pagetable (proc t ! cur)) dst (take (unat rn) (drop (unat ro) (contents (bview d (fs t)) (inode_of t i)))) dst' m'"
      by (rule readi_ok [OF f W(6) h])
    have "pm u = m'" using frame_fields(2) [OF R(3)] by simp
    moreover have "file_bytes d i u = file_bytes d i t" using file_state_here(2,4) [OF R(2)] by (simp add: file_bytes_def)
    moreover have "contents (bview d (fs t)) (inode_of t i) = poke (unat off) (take k xs) (file_bytes d i s)"
      using W(5) by (simp add: file_bytes_def)
    ultimately show ?thesis using R(1,4) by metis
  qed
  have others: "contents (bview d (fs t)) jp = contents (bview d (fs s)) jp"
    if j: "ino_ok (super s) (bview d (fs s)) jp" "file_ok (super s) (bview d (fs s)) jp"
      "own (bview d (fs s)) jp \<inter> own (bview d (fs s)) (inode_of s i) = {}" for jp
    by (rule contents_own [OF j(2)]) (use W(8) ino_okD(2) [OF j(1)] j(3) in blast)
  show ?thesis using W(1-4) read others by (intro exI [of _ k] exI [of _ t] exI [of _ L']) blast
qed

subsection \<open>Allocation\<close>

definition alloc_state :: "nat \<Rightarrow> u32 \<Rightarrow> u32 list \<Rightarrow> fkstate \<Rightarrow> bool" where
  "alloc_state cur d L s \<longleftrightarrow> txn cur d (sb_logstart (super s)) (disk (fs s)) L {} (bview d (fs s)) s \<and> layout_ok (super s) \<and>
     map_ok (super s) (bview d (fs s)) \<and> 1 \<le> outstanding (flog (fs s))"

lemma txn_fields:
  assumes "txn cur d start D L H V s"
  shows "bview d (fs s) = V" "disk (fs s) = D"
  using assms by (auto simp: txn_def cache_is_def)

text \<open>C10. Allocation and freeing of disk blocks. \<open>balloc\<close> gives 0, and changes nothing, exactly when every block
  is in use; otherwise it gives the first free data block, zeroed, marks it and no other, and leaves the other
  data blocks alone. \<open>bfree\<close> then undoes the marking, and freeing the block once more panics.\<close>

theorem balloc_bfree:
  assumes "alloc_state cur d L s" "length L + 3 < NBUF"
  shows "\<exists>a t. balloc cur d s = Some (a, t) \<and>
    (if full (super s) (bview d (fs s)) then a = 0 \<and> bview d (fs t) = bview d (fs s)
     else fresh (super s) (bview d (fs s)) a \<and> (\<forall>b < unat a. blk_used (super s) (bview d (fs s)) b) \<and>
       bview d (fs t) a = replicate BSIZE 0 \<and>
       (\<forall>m. data_start (super s) \<le> unat m \<and> m \<noteq> a \<longrightarrow> bview d (fs t) m = bview d (fs s) m) \<and>
       (\<forall>b < unat (sb_size (super s)). blk_used (super s) (bview d (fs t)) b \<longleftrightarrow> b = unat a \<or> blk_used (super s) (bview d (fs s)) b) \<and>
       (\<exists>u. bfree cur d a t = Some u \<and> bfree cur d a u = None \<and>
         (\<forall>b < unat (sb_size (super s)). blk_used (super s) (bview d (fs u)) b \<longleftrightarrow> blk_used (super s) (bview d (fs s)) b)))"
proof -
  let ?v = "super s" and ?V = "bview d (fs s)" and ?start = "sb_logstart (super s)" and ?D = "disk (fs s)"
  have t: "txn cur d ?start ?D L {} ?V s" "layout_ok ?v" "map_ok ?v ?V" "1 \<le> outstanding (flog (fs s))" using assms(1) by (simp_all add: alloc_state_def)
  have lk: "locks_ok ?v ?V {}" and r: "length L + card ({} :: u32 set) + 1 < NBUF" using assms(2) by (simp_all add: locks_ok_def)
  show ?thesis
  proof (cases rule: balloc_is [OF refl t(2,3) lk r t(1) refl t(4)])
    case (1 u)
    then have "full ?v ?V" by (simp add: full_def)
    then show ?thesis using 1(1) txn_fields(1) [OF 1(2)] by auto
  next
    case (2 a u L')
    note B = after_balloc_is [OF t(2,3) 2(2)] and U = txn_fields [OF 2(6)]
    have nf: "\<not> full ?v ?V" using 2(2) by (auto simp: full_def fresh_def)
    have a: "unat a < unat (sb_size ?v)" "data_start ?v \<le> unat a" using 2(2) by (simp_all add: fresh_def)
    let ?V1 = "after_balloc ?v (unat a) ?V"
    have us: "blk_used ?v ?V1 (unat a)" using B(2) [OF a(1)] by simp
    have su: "super u = ?v" using frame_fields(3) [OF 2(7)] by simp
    have ou: "1 \<le> outstanding (flog (fs u))" using frame_fields(7) [OF 2(7)] t(4) by simp
    have r1: "length L' + card ({} :: u32 set) < NBUF" "finite ({} :: u32 set)" "BBLOCK (unat a) ?v \<notin> ({} :: u32 set)" using 2(4) assms(2) by simp_all
    obtain w where w: "bfree cur d a u = Some w" "txn cur d ?start ?D (logged (BBLOCK (unat a) ?v) L') {} (after_bfree ?v (unat a) ?V1) w" "frame d {} u w"
      by (rule bfree_ok [OF refl t(2) B(1) r1(2,3,1) 2(6) su ou us a(1)])
    have len: "length (?V1 (BBLOCK (unat a) ?v)) = BSIZE" using B(1) by (simp add: map_ok_def)
    have fr: "blk_used ?v (after_bfree ?v (unat a) ?V1) b \<longleftrightarrow> blk_used ?v ?V b" if "b < unat (sb_size ?v)" for b
      using used_upd(2) [where V = ?V1, OF t(2) a(1) that len] B(2) [OF that] 2(2) by (auto simp: after_bfree_def fresh_def)
    have m2: "map_ok ?v (after_bfree ?v (unat a) ?V1)"
      using fr t(2,3) B(1) by (auto simp: map_ok_def layout_ok_def after_bfree_def)
    have r2: "length (logged (BBLOCK (unat a) ?v) L') + card ({} :: u32 set) < NBUF" using length_logged [of "BBLOCK (unat a) ?v" L'] 2(4) assms(2) by simp
    have sw: "super w = ?v" using frame_fields(3) [OF w(3)] su by simp
    have nu: "\<not> blk_used ?v (after_bfree ?v (unat a) ?V1) (unat a)" using fr [OF a(1)] 2(2) by (simp add: fresh_def)
    have p: "bfree cur d a w = None" by (rule bfree_free_panics [OF m2 r1(2,3) r2 w(2) sw nu])
    show ?thesis
      using 2(1-3) nf B(2-4) [folded U(1)] fr [folded txn_fields(1) [OF w(2)]] w(1) p by (intro exI [of _ a] exI [of _ u]) auto
  qed
qed

subsection \<open>A file on the demonstration machine\<close>

text \<open>A file of type \<open>ty\<close> with inode number 1 and the bytes \<open>xs\<close>, in block 47; the disk is laid out as
  \<^verbatim>\<open>mkfs\<close> does it, all other data blocks are free, and one operation has begun.\<close>

definition demo_ino :: "int \<Rightarrow> byte list \<Rightarrow> inode" where
  "demo_ino ty xs = \<lparr>idev = 1, inum = 1, iref = 1, ilk = \<lparr>sl_locked = 1, sl_pid = 1\<rparr>, ivalid = 1, itype = ty, imajor = 0, iminor = 0,
     inlink = 1, isize = word_of_nat (length xs), addrs = 47 # replicate NDIRECT 0\<rparr>"

definition demo_map :: block where
  "demo_map = replicate 6 255 @ replicate 1018 0"

definition demo_disk :: "int \<Rightarrow> byte list \<Rightarrow> u32 \<Rightarrow> block" where
  "demo_disk ty xs n = (if n = 46 then demo_map else if n = 33 then enc_dinode 1 (of_inode (demo_ino ty xs)) (replicate BSIZE 0)
     else if n = 47 then xs @ replicate (BSIZE - length xs) 0 else replicate BSIZE 0)"

definition file_demo :: "int \<Rightarrow> byte list \<Rightarrow> fkstate" where
  "file_demo ty xs = upd_fs (\<lambda>v. v\<lparr>itable := demo_ino ty xs # replicate 49 zero_inode, disk := demo_disk ty xs\<rparr>) (fdemo 1 small_mem 0)"

lemma short_types: "short_of T_FILE = T_FILE" "short_of T_DIR = T_DIR"
  by (simp_all add: short_of_def T_FILE_def T_DIR_def)

lemma demo_shorts: "short_of ty = ty \<Longrightarrow> shorts_ok (of_inode (demo_ino ty xs))"
  by (simp add: shorts_ok_def of_inode_def demo_ino_def) (simp add: short_of_def)

lemma demo_disk_length: "short_of ty = ty \<Longrightarrow> length xs \<le> BSIZE \<Longrightarrow> length (demo_disk ty xs n) = BSIZE"
proof -
  assume ty: "short_of ty = ty" and xs: "length xs \<le> BSIZE"
  have "length (enc_dinode 1 (of_inode (demo_ino ty xs)) (replicate BSIZE 0)) = BSIZE"
    by (rule enc_get(3) [OF _ _ demo_shorts [OF ty], where j = 0]) (simp_all add: IPB_def BSIZE_def)
  then show ?thesis using xs by (simp add: demo_disk_def demo_map_def BSIZE_def)
qed

lemma demo_fs: "flog (fs (file_demo ty xs)) = flog (fs_demo 1)" "super (file_demo ty xs) = sb (fs_demo 1)" "disk (fs (file_demo ty xs)) = demo_disk ty xs"
  "itable (fs (file_demo ty xs)) = demo_ino ty xs # replicate 49 zero_inode" "inode_of (file_demo ty xs) 0 = demo_ino ty xs"
  by (simp_all add: file_demo_def fs_demo_def)

lemma demo_isize: "length xs \<le> BSIZE \<Longrightarrow> unat (isize (demo_ino ty xs)) = length xs"
  by (simp add: demo_ino_def BSIZE_def unat_of_nat take_bit_nat_eq_self)

lemma demo_baddr: "k < MAXFILE \<Longrightarrow> baddr V (demo_ino ty xs) k = (if k = 0 then 47 else 0)" "addrs (demo_ino ty xs) ! NDIRECT = 0"
  by (auto simp: baddr_def demo_ino_def NDIRECT_def nth_Cons')

lemma demo_cache:
  obtains W where "cache_is 0 1 (file_demo ty xs) (demo_disk ty xs) (\<lambda>_. 0) (\<lambda>_. None) (demo_disk ty xs) W"
proof -
  have "boot_state 0 1 (demo_disk ty xs) (file_demo ty xs)" by (rule boot_cache) (simp_all add: file_demo_def fs_demo_def NPROC_def)
  then obtain V W where c: "cache_is 0 1 (file_demo ty xs) V (\<lambda>_. 0) (\<lambda>_. None) (demo_disk ty xs) W" unfolding boot_state_def by blast
  have "V = demo_disk ty xs" using cache_is_clean [OF c] by auto
  then show thesis using c that by blast
qed

lemma demo_view: "bview 1 (fs (file_demo ty xs)) = demo_disk ty xs"
  by (rule demo_cache [of ty xs]) (simp add: cache_is_def)

lemma demo_used: "b < 48 \<Longrightarrow> blk_used (sb (fs_demo 1)) (demo_disk ty xs) b"
proof -
  assume b: "b < 48"
  have m: "list_all (\<lambda>b. \<not> bit_free b demo_map) [0..<48]" by code_simp
  have "BBLOCK b (sb (fs_demo 1)) = 46" "b mod BPB = b" using b by (simp_all add: BBLOCK_def fs_demo_def BPB_def BSIZE_def)
  then show ?thesis using b m by (simp add: blk_used_def demo_disk_def list_all_iff)
qed

lemma demo_in_txn:
  assumes ty: "short_of ty = ty" and xs: "length xs \<le> BSIZE"
  shows "in_txn 0 1 [] 0 (file_demo ty xs)" "stored (super (file_demo ty xs)) (bview 1 (fs (file_demo ty xs))) (inode_of (file_demo ty xs) 0)"
    "file_bytes 1 0 (file_demo ty xs) = xs"
proof -
  let ?s = "file_demo ty xs" and ?D = "demo_disk ty xs" and ?i = "demo_ino ty xs" and ?v = "sb (fs_demo 1)"
  obtain W where c: "cache_is 0 1 ?s ?D (\<lambda>_. 0) (\<lambda>_. None) ?D W" by (rule demo_cache)
  have b: "bview 1 (fs ?s) = ?D" by (rule demo_view)
  have l: "log_is 1 2 [] ?s" by (simp add: log_is_def demo_fs) (simp add: fs_demo_def)
  have e: "txn_refs [] {} = (\<lambda>_. 0)" "txn_owner (mypid 0 ?s) {} = (\<lambda>_. None)" by (simp_all add: txn_refs_def txn_owner_def fun_eq_iff)
  have t: "txn 0 1 2 ?D [] {} ?D ?s" using c l unfolding txn_def e by auto
  have lay: "layout_ok ?v" by (simp add: layout_ok_def data_start_def fs_demo_def LOGBLOCKS_def BPB_def IPB_def BSIZE_def)
  have ds: "data_start ?v = 47" by (simp add: data_start_def fs_demo_def BPB_def BSIZE_def)
  note us = demo_used [of _ ty xs]
  have mo: "map_ok ?v ?D" using us by (simp add: map_ok_def ds demo_disk_length [OF ty xs] del: One_nat_def)
  have "0 < MAXFILE" by (simp add: MAXFILE_def NDIRECT_def)
  then have "own ?D ?i = {47}" by (auto simp: own_def demo_baddr intro: exI [of _ 0] split: if_splits)
  then have io: "ino_ok ?v ?D ?i" using us [of 47] by (auto simp: ino_ok_def demo_baddr ds simp del: One_nat_def) (simp_all add: demo_ino_def fs_demo_def)
  have bz: "baddr ?D ?i (p div BSIZE) \<noteq> 0" if "p < length xs" for p
    using that xs demo_baddr(1) [of 0 ?D] by (simp add: MAXFILE_def NDIRECT_def)
  have "length xs \<le> MAXFILE * BSIZE" using xs by (simp add: MAXFILE_def NDIRECT_def BSIZE_def)
  then have fo: "file_ok ?v ?D ?i"
    using demo_shorts [OF ty] bz by (simp add: file_ok_def demo_isize [OF xs]) (simp add: demo_ino_def fs_demo_def)
  have "file_state 0 1 2 ?D ?v [] ?D 0 ?i ?s"
    using t lay mo io by (simp add: file_state_def demo_fs) (simp add: demo_ino_def fs_demo_def)
  then show "in_txn 0 1 [] 0 ?s" using fo unfolding in_txn_def demo_fs b by (simp add: fs_demo_def)
  have "dec_dinode 1 (enc_dinode 1 (of_inode ?i) (replicate BSIZE 0)) = of_inode ?i"
    by (subst dec_enc_dinode [OF _ _ demo_shorts [OF ty]]) (simp_all add: IPB_def BSIZE_def)
  moreover have "inode_block ?v ?i = 33" "unat (inum ?i) mod IPB = 1"
    by (simp_all add: inode_block_def IBLOCK_def demo_ino_def fs_demo_def IPB_def BSIZE_def)
  ultimately show "stored (super ?s) (bview 1 (fs ?s)) (inode_of ?s 0)" by (simp add: stored_def demo_fs b demo_disk_def)
  have b0: "baddr ?D ?i 0 = 47" using demo_baddr(1) [of 0 ?D] by (simp add: MAXFILE_def NDIRECT_def)
  show "file_bytes 1 0 ?s = xs"
    unfolding file_bytes_def demo_fs b
    by (rule nth_equalityI) (use xs in \<open>auto simp: contents_def demo_isize fbytes_def fbyte_def fblock_def b0 demo_disk_def BSIZE_def nth_append\<close>)
qed

lemma write_survives_crashes_witness:
  "\<exists>k t u ws. writei 0 0 (VarSrc [1, 2, 3]) 0 3 (file_demo T_FILE [9, 8, 7, 6]) = Some (int k, t) \<and> commit 0 t = Some u \<and> k \<le> 3 \<and>
    (k < 3 \<longrightarrow> full (super t) (bview 1 (fs t))) \<and>
    bytes_on (super (file_demo T_FILE [9, 8, 7, 6])) (disk (fs (file_demo T_FILE [9, 8, 7, 6]))) (unat (inum (inode_of (file_demo T_FILE [9, 8, 7, 6]) 0))) = file_bytes 1 0 (file_demo T_FILE [9, 8, 7, 6]) \<and>
    bytes_on (super (file_demo T_FILE [9, 8, 7, 6])) (disk (fs u)) (unat (inum (inode_of (file_demo T_FILE [9, 8, 7, 6]) 0))) = poke 0 (take k [1, 2, 3]) (file_bytes 1 0 (file_demo T_FILE [9, 8, 7, 6])) \<and>
    written (fs u) = rev ws @ written (fs t) \<and>
    (\<forall>E cur' b sb0. crashed 1 (sb_logstart (super (file_demo T_FILE [9, 8, 7, 6]))) ws (disk (fs (file_demo T_FILE [9, 8, 7, 6]))) E \<and> boot_state cur' 1 E b \<and> sb_logstart sb0 = sb_logstart (super (file_demo T_FILE [9, 8, 7, 6])) \<longrightarrow>
      (\<exists>w. initlog cur' 1 sb0 b = Some w \<and>
        (bytes_on (super (file_demo T_FILE [9, 8, 7, 6])) (disk (fs w)) (unat (inum (inode_of (file_demo T_FILE [9, 8, 7, 6]) 0))) = file_bytes 1 0 (file_demo T_FILE [9, 8, 7, 6]) \<or>
         bytes_on (super (file_demo T_FILE [9, 8, 7, 6])) (disk (fs w)) (unat (inum (inode_of (file_demo T_FILE [9, 8, 7, 6]) 0))) = poke 0 (take k [1, 2, 3]) (file_bytes 1 0 (file_demo T_FILE [9, 8, 7, 6])))))"
proof -
  have d: "disk (fs (file_demo T_FILE [9, 8, 7, 6])) (sb_logstart (super (file_demo T_FILE [9, 8, 7, 6]))) = replicate BSIZE 0"
    by (simp add: demo_fs) (simp add: fs_demo_def demo_disk_def)
  have xs: "length [9, 8, 7, 6 :: byte] \<le> BSIZE" by (simp add: BSIZE_def)
  let ?xs = "[1, 2, 3] :: byte list"
  have l: "length ?xs = 3" "unat (0 :: u32) = 0" by simp_all
  have b: "6 * blocks_of (unat (0 :: u32)) (length ?xs) + 1 < NBUF" by (simp add: blocks_of_def NBUF_def BSIZE_def)
  have m: "unat (0 :: u32) + length ?xs \<le> MAXFILE * BSIZE" by (simp add: MAXFILE_def NDIRECT_def NINDIRECT_def BSIZE_def)
  have u: "unat (3 :: u32) = length ?xs" "0 \<le> isize (inode_of (file_demo T_FILE [9, 8, 7, 6]) 0)" "src_ok 0 (VarSrc ?xs) ?xs (file_demo T_FILE [9, 8, 7, 6])" by simp_all
  show ?thesis
    using write_survives_crashes [OF demo_in_txn(1,2) [OF short_types(1) xs] u(3,2,1) m b] zero_header unfolding d l by simp
qed

lemma write_then_read_witness:
  "\<exists>k t. writei 0 0 (VarSrc [1, 2, 3]) 1 3 (file_demo T_FILE [9, 8, 7, 6]) = Some (int k, t) \<and>
    (unat (isize (inode_of t 0)) = 4 \<longrightarrow> (\<exists>u. readi 0 0 (VarDst []) 0 4 t = Some (4, VarDst (take 4 (poke 1 (take k [1, 2, 3]) [9, 8, 7, 6])), u)))"
proof -
  have xs: "length [9, 8, 7, 6 :: byte] \<le> BSIZE" by (simp add: BSIZE_def)
  let ?xs = "[1, 2, 3] :: byte list" and ?s = "file_demo T_FILE [9, 8, 7, 6]"
  note t = demo_in_txn [OF short_types(1) xs]
  have u: "unat (3 :: u32) = length ?xs" "src_ok 0 (VarSrc ?xs) ?xs ?s" "1 \<le> isize (inode_of ?s 0)"
    by (simp_all add: demo_fs) (simp add: demo_ino_def)
  have m: "unat (1 :: u32) + length ?xs \<le> MAXFILE * BSIZE" "length ([] :: u32 list) + 6 * blocks_of (unat (1 :: u32)) (length ?xs) + 1 < NBUF"
    by (simp_all add: MAXFILE_def NDIRECT_def NINDIRECT_def BSIZE_def blocks_of_def NBUF_def)
  obtain k t where w: "writei 0 0 (VarSrc ?xs) 1 3 ?s = Some (int k, t)"
    "\<forall>ro rn dst. unat ro + unat rn \<le> unat (isize (inode_of t 0)) \<and> dst_ok 0 dst (unat rn) t \<longrightarrow>
      (\<exists>dst' u. readi 0 0 dst ro rn t = Some (int (unat rn), dst', u) \<and> file_bytes 1 0 u = file_bytes 1 0 t \<and>
        gets (pm t) (pagetable (proc t ! 0)) dst (take (unat rn) (drop (unat ro) (poke (unat (1 :: u32)) (take k ?xs) (file_bytes 1 0 ?s)))) dst' (pm u))"
    using write_then_read [OF t(1) u(2,3,1) m] by blast
  have "\<exists>u. readi 0 0 (VarDst []) 0 4 t = Some (4, VarDst (take 4 (poke 1 (take k ?xs) [9, 8, 7, 6])), u)" if z: "unat (isize (inode_of t 0)) = 4"
    using w(2) [rule_format, of 0 4 "VarDst []"] z by (auto simp: t(3))
  then show ?thesis using w(1) by blast
qed

lemma balloc_bfree_witness:
  "\<exists>t. balloc 0 1 (file_demo T_FILE []) = Some (48, t) \<and> bview 1 (fs t) 48 = replicate BSIZE 0"
proof -
  let ?s = "file_demo T_FILE []"
  have l: "length ([] :: byte list) \<le> BSIZE" "length ([] :: u32 list) + 3 < NBUF" by (simp_all add: NBUF_def)
  note t = demo_in_txn(1) [OF short_types(1) l(1)]
  have b: "bview 1 (fs ?s) = demo_disk T_FILE []" by (rule demo_view)
  have a: "alloc_state 0 1 [] ?s" using t by (simp add: in_txn_def alloc_state_def file_state_def)
  have nu: "\<not> blk_used (super ?s) (bview 1 (fs ?s)) 48"
    by (simp add: b demo_fs blk_used_def BBLOCK_def demo_disk_def fs_demo_def BPB_def BSIZE_def) code_simp
  have sz: "unat (sb_size (super ?s)) = 2000" by (simp add: demo_fs fs_demo_def)
  have us: "blk_used (super ?s) (bview 1 (fs ?s)) c" if "c < 48" for c
    unfolding b demo_fs by (rule demo_used [OF that])
  have nf: "\<not> full (super ?s) (bview 1 (fs ?s))" using nu sz by (auto simp: full_def intro!: exI [of _ 48])
  obtain x u where x: "balloc 0 1 ?s = Some (x, u)" "fresh (super ?s) (bview 1 (fs ?s)) x" "\<forall>c < unat x. blk_used (super ?s) (bview 1 (fs ?s)) c"
    "bview 1 (fs u) x = replicate BSIZE 0"
    using balloc_bfree [OF a l(2)] nf by auto
  have "unat x = 48"
    using x(2,3) nu us by (metis fresh_def linorder_neqE_nat)
  then have "x = 48" by (simp add: word_unat_eq_iff)
  then show ?thesis using x(1,4) by blast
qed

end
