(* ===== verification/Fs_Dir.thy ===== *)
theory Fs_Dir
  imports Fs_File_Props
begin

text \<open>
  Directories as maps. The bytes of a directory are a list of entries of sixteen bytes; those in use give a
  partial map from names, cut at fourteen characters, to inode numbers. \<open>dirlookup\<close> looks a name up in it
  and \<open>dirlink\<close> adds one.
\<close>

subsection \<open>Names\<close>

definition cstr :: "byte list \<Rightarrow> byte list" where
  "cstr xs = takeWhile (\<lambda>b. b \<noteq> 0) (take DIRSIZ xs)"

lemma strncmp_zero:
  "strncmp m p q n = 0 \<longleftrightarrow>
    takeWhile (\<lambda>b. b \<noteq> 0) (map (\<lambda>i. m (p + i)) [0..<n]) = takeWhile (\<lambda>b. b \<noteq> 0) (map (\<lambda>i. m (q + i)) [0..<n])"
proof (induction n arbitrary: p q)
  case (Suc n)
  have e: "map (\<lambda>i. m (r + i)) [0..<Suc n] = m r # map (\<lambda>i. m (Suc r + i)) [0..<n]" for r
    by (simp add: upt_conv_Cons map_Suc_upt [symmetric] del: upt_Suc)
  show ?case using Suc [of "Suc p" "Suc q"] unfolding e by (auto simp: word_uint_eq_iff)
qed simp

lemma padded: "map (\<lambda>i. if i < length xs then xs ! i else 0) [0..<n] = take n xs @ replicate (n - length xs) 0"
  by (rule nth_equalityI) (auto simp: nth_append)

lemma takeWhile_padded: "takeWhile (\<lambda>b. b \<noteq> 0) (xs @ replicate n 0) = takeWhile (\<lambda>b. b \<noteq> (0 :: byte)) xs"
  by (induction xs) (auto simp: takeWhile_eq_Nil_iff intro: takeWhile_eq_Nil_iff [THEN iffD2])

lemma namecmp_zero: "namecmp xs ys = 0 \<longleftrightarrow> cstr xs = cstr ys"
proof -
  have "map (\<lambda>i. two_strings xs ys (0 + i)) [0..<DIRSIZ] = map (\<lambda>i. if i < length xs then xs ! i else 0) [0..<DIRSIZ]"
    "map (\<lambda>i. two_strings xs ys (256 + i)) [0..<DIRSIZ] = map (\<lambda>i. if i < length ys then ys ! i else 0) [0..<DIRSIZ]"
    by (auto simp: two_strings_def DIRSIZ_def)
  then show ?thesis by (simp only: namecmp_def strncmp_zero padded takeWhile_padded cstr_def)
qed

lemma name_field_eq:
  assumes "0 \<notin> set nm"
  shows "name_field nm = take DIRSIZ nm @ replicate (DIRSIZ - length nm) 0"
proof -
  let ?m = "two_strings [] nm"
  have "string_at ?m 256 (length nm)" using assms by (auto simp: string_at_def two_strings_def in_set_conv_nth)
  then have "strncpy ?m 0 256 (int DIRSIZ) a = (if a < length nm then nm ! a else 0)" if "a < DIRSIZ" for a
    using that by (simp add: strncpy_def strncpy_loop_eq DIRSIZ_def) (simp add: two_strings_def)
  then have "name_field nm = map (\<lambda>a. if a < length nm then nm ! a else 0) [0..<DIRSIZ]"
    unfolding name_field_def by (intro map_cong refl) simp
  then show ?thesis by (simp only: padded)
qed

lemma cstr_name_field:
  assumes "0 \<notin> set nm"
  shows "cstr (name_field nm) = cstr nm" "length (name_field nm) = DIRSIZ"
proof -
  show l: "length (name_field nm) = DIRSIZ" by (simp add: name_field_def)
  have "cstr (name_field nm) = takeWhile (\<lambda>b. b \<noteq> 0) (name_field nm)" by (simp add: cstr_def l)
  also have "\<dots> = cstr nm" unfolding name_field_eq [OF assms] takeWhile_padded by (simp add: cstr_def)
  finally show "cstr (name_field nm) = cstr nm" .
qed

subsection \<open>Entries\<close>

definition ent :: "byte list \<Rightarrow> nat \<Rightarrow> byte list" where
  "ent bs k = take 16 (drop (16 * k) bs)"

definition in_use :: "byte list \<Rightarrow> bool" where
  "in_use e \<longleftrightarrow> de_inum e \<noteq> 0"

definition dents :: "byte list \<Rightarrow> byte list list" where
  "dents bs = map (ent bs) [0..<length bs div 16]"

definition dir_list :: "byte list \<Rightarrow> (byte list \<times> 16 word) list" where
  "dir_list bs = map (\<lambda>e. (cstr (de_name e), de_inum e)) (filter in_use (dents bs))"

definition dir_map :: "byte list \<Rightarrow> byte list \<rightharpoonup> 16 word" where
  "dir_map bs = map_of (dir_list bs)"

text \<open>Whole entries, no name twice.\<close>

definition dir_ok :: "byte list \<Rightarrow> bool" where
  "dir_ok bs \<longleftrightarrow> 16 dvd length bs \<and> distinct (map fst (dir_list bs))"

definition dir_find :: "byte list \<Rightarrow> byte list \<Rightarrow> nat option" where
  "dir_find bs nm = find (\<lambda>k. in_use (ent bs k) \<and> cstr (de_name (ent bs k)) = cstr nm) [0..<length bs div 16]"

lemma map_of_find: "map_of (map (\<lambda>e. (f e, g e)) (filter P es)) key = map_option g (find (\<lambda>e. P e \<and> f e = key) es)"
  by (induction es) auto

lemma find_map: "find P (map f xs) = map_option f (find (P \<circ> f) xs)"
  by (induction xs) auto

lemma dir_map_find: "dir_map bs (cstr nm) = map_option (\<lambda>k. de_inum (ent bs k)) (dir_find bs nm)"
  by (simp add: dir_map_def dir_list_def map_of_find dents_def find_map dir_find_def comp_def option.map_comp)

lemma offs_whole: "16 dvd n \<Longrightarrow> dirent_offs n = map (\<lambda>k. 16 * k) [0..<n div 16]"
  by (auto simp: dirent_offs_def)

lemma dents_poke:
  assumes "16 dvd length bs" "length e = 16" "16 * k \<le> length bs"
  shows "dents (poke (16 * k) e bs) = take k (dents bs) @ e # drop (Suc k) (dents bs)"
proof -
  obtain n where n: "length bs = 16 * n" using assms(1) by auto
  have k: "k \<le> n" using assms(3) n by simp
  let ?b = "poke (16 * k) e bs"
  have lb: "length ?b = 16 * max n (Suc k)" using assms n k by (auto simp: poke_def max_def)
  have "ent ?b j = (if j = k then e else ent bs j)" if "j < max n (Suc k)" for j
  proof -
    consider "j = k" | "j < k" | "k < j" by linarith
    then show ?thesis
    proof cases
      case 1
      then show ?thesis using assms(2) n k by (simp add: ent_def poke_def)
    next
      case 2
      then have "16 * j + 16 \<le> 16 * k" by simp
      moreover have "length (take (16 * k) bs) = 16 * k" using n k by simp
      ultimately have "take 16 (drop (16 * j) (take (16 * k) bs @ e @ drop (16 * k + length e) bs)) = take 16 (drop (16 * j) (take (16 * k) bs))"
        by simp
      also have "\<dots> = take 16 (drop (16 * j) bs)" using \<open>16 * j + 16 \<le> 16 * k\<close> by (simp add: drop_take)
      finally show ?thesis using 2 by (simp add: ent_def poke_def)
    next
      case 3
      have "drop (16 * j) ?b = drop (16 * j - 16 * k - 16) (drop (16 * k + 16) bs)"
        using assms(2) n k 3 by (simp add: poke_def)
      also have "\<dots> = drop (16 * j) bs" using 3 by simp
      finally show ?thesis using 3 by (simp add: ent_def)
    qed
  qed
  then have "dents ?b = map (\<lambda>j. if j = k then e else ent bs j) [0..<max n (Suc k)]"
    unfolding dents_def lb by simp
  also have "\<dots> = take k (dents bs) @ e # drop (Suc k) (dents bs)"
    by (rule nth_equalityI) (use k n in \<open>auto simp: dents_def nth_append max_def nth_Cons' drop_map split: if_splits\<close>)
  finally show ?thesis .
qed

text \<open>Writing an entry into a free place or behind the last one adds a name, writing zeros removes one.\<close>

abbreviation pairs :: "byte list list \<Rightarrow> (byte list \<times> 16 word) list" where
  "pairs es \<equiv> map (\<lambda>e. (cstr (de_name e), de_inum e)) (filter in_use es)"

lemma dir_list_split:
  assumes "k < length bs div 16"
  shows "dir_list bs = pairs (take k (dents bs)) @ pairs [ent bs k] @ pairs (drop (Suc k) (dents bs))"
proof -
  have "dents bs = take k (dents bs) @ dents bs ! k # drop (Suc k) (dents bs)" "dents bs ! k = ent bs k"
    using id_take_nth_drop [of k "dents bs"] assms by (simp_all add: dents_def)
  then have "dents bs = take k (dents bs) @ [ent bs k] @ drop (Suc k) (dents bs)" by simp
  then have "pairs (dents bs) = pairs (take k (dents bs) @ [ent bs k] @ drop (Suc k) (dents bs))" by (rule arg_cong)
  then show ?thesis by (simp add: dir_list_def)
qed

lemma dir_list_poke:
  assumes "16 dvd length bs" "length e = 16" "16 * k \<le> length bs"
  shows "dir_list (poke (16 * k) e bs) = pairs (take k (dents bs)) @ pairs [e] @ pairs (drop (Suc k) (dents bs))"
    "16 dvd length (poke (16 * k) e bs)"
proof -
  show "dir_list (poke (16 * k) e bs) = pairs (take k (dents bs)) @ pairs [e] @ pairs (drop (Suc k) (dents bs))"
    unfolding dir_list_def dents_poke [OF assms] by simp
  obtain n where n: "length bs = 16 * n" using assms(1) by auto
  then have "length (poke (16 * k) e bs) = 16 * max n (Suc k)" using assms(2,3) by (auto simp: poke_def max_def)
  then show "16 dvd length (poke (16 * k) e bs)" by simp
qed

lemma map_of_insert:
  assumes "distinct (map fst (A @ B))" "map_of (A @ B) c = None"
  shows "distinct (map fst (A @ (c, n) # B))" "map_of (A @ (c, n) # B) = (map_of (A @ B))(c \<mapsto> n)"
proof -
  have c: "c \<notin> fst ` set A" "c \<notin> fst ` set B" using assms(2) by (auto simp: map_of_eq_None_iff)
  then show "distinct (map fst (A @ (c, n) # B))" using assms(1) by auto
  have "map_of A c = None" using c(1) by (simp add: map_of_eq_None_iff)
  then show "map_of (A @ (c, n) # B) = (map_of (A @ B))(c \<mapsto> n)"
    by (auto simp: fun_eq_iff map_add_def split: option.splits)
qed

lemma map_of_delete:
  assumes "distinct (map fst (A @ (c, n) # B))"
  shows "distinct (map fst (A @ B))" "map_of (A @ B) = (map_of (A @ (c, n) # B))(c := None)"
proof -
  show "distinct (map fst (A @ B))" using assms by auto
  have "map_of A c = None" "map_of B c = None" using assms by (auto simp: map_of_eq_None_iff)
  then show "map_of (A @ B) = (map_of (A @ (c, n) # B))(c := None)"
    by (auto simp: fun_eq_iff map_add_def split: option.splits)
qed

lemma dir_put:
  assumes ok: "dir_ok bs" and e: "length e = 16" "in_use e" and k: "k = length bs div 16 \<or> k < length bs div 16 \<and> \<not> in_use (ent bs k)"
    and new: "dir_map bs (cstr (de_name e)) = None"
  shows "dir_ok (poke (16 * k) e bs)" "dir_map (poke (16 * k) e bs) = (dir_map bs)(cstr (de_name e) \<mapsto> de_inum e)"
proof -
  let ?A = "pairs (take k (dents bs))" and ?B = "pairs (drop (Suc k) (dents bs))"
  have d: "16 dvd length bs" and k16: "16 * k \<le> length bs" using ok k by (auto simp: dir_ok_def)
  have old: "dir_list bs = ?A @ ?B"
  proof (cases "k = length bs div 16")
    case True
    then show ?thesis by (simp add: dir_list_def dents_def)
  next
    case False
    then show ?thesis using k dir_list_split [of k bs] by simp
  qed
  note p = dir_list_poke [OF d e(1) k16]
  have n: "dir_list (poke (16 * k) e bs) = ?A @ (cstr (de_name e), de_inum e) # ?B" using p(1) e(2) by simp
  have dis: "distinct (map fst (?A @ ?B))" and mo: "map_of (?A @ ?B) (cstr (de_name e)) = None"
    using ok new unfolding dir_ok_def dir_map_def old by blast+
  show "dir_ok (poke (16 * k) e bs)" unfolding dir_ok_def n using p(2) map_of_insert(1) [OF dis mo] by blast
  show "dir_map (poke (16 * k) e bs) = (dir_map bs)(cstr (de_name e) \<mapsto> de_inum e)"
    unfolding dir_map_def n old by (rule map_of_insert(2) [OF dis mo])
qed

lemma dir_find_bounds:
  assumes "dir_find bs nm = Some k"
  shows "k < length bs div 16" "in_use (ent bs k)" "cstr (de_name (ent bs k)) = cstr nm"
  using assms by (auto simp: dir_find_def find_Some_iff)

lemma dir_erase:
  assumes ok: "dir_ok bs" and f: "dir_find bs nm = Some k"
  shows "dir_ok (poke (16 * k) (replicate 16 0) bs)" "dir_map (poke (16 * k) (replicate 16 0) bs) = (dir_map bs)(cstr nm := None)"
proof -
  let ?A = "pairs (take k (dents bs))" and ?B = "pairs (drop (Suc k) (dents bs))" and ?z = "replicate 16 0 :: byte list"
  note b = dir_find_bounds [OF f]
  have d: "16 dvd length bs" and k16: "16 * k \<le> length bs" and l: "length ?z = 16" using ok b(1) by (auto simp: dir_ok_def)
  have z: "\<not> in_use ?z" by (simp add: in_use_def de_inum_def get16_def)
  have old: "dir_list bs = ?A @ (cstr nm, de_inum (ent bs k)) # ?B" using dir_list_split [OF b(1)] b(2,3) by simp
  note p = dir_list_poke [OF d l k16]
  have n: "dir_list (poke (16 * k) ?z bs) = ?A @ ?B" using p(1) z by simp
  have dis: "distinct (map fst (?A @ (cstr nm, de_inum (ent bs k)) # ?B))" using ok unfolding dir_ok_def old by blast
  show "dir_ok (poke (16 * k) ?z bs)" unfolding dir_ok_def n using p(2) map_of_delete(1) [OF dis] by blast
  show "dir_map (poke (16 * k) ?z bs) = (dir_map bs)(cstr nm := None)"
    unfolding dir_map_def n old by (rule map_of_delete(2) [OF dis])
qed

lemma dirent_bytes_fields:
  assumes "0 \<notin> set nm"
  shows "length (dirent_bytes n nm) = 16" "de_inum (dirent_bytes n nm) = ucast n" "cstr (de_name (dirent_bytes n nm)) = cstr nm"
proof -
  have p: "put16 0 w [0, 0] = [ucast w, ucast (drop_bit 8 w)]" for w by (simp add: put16_def)
  note f = cstr_name_field [OF assms]
  show "length (dirent_bytes n nm) = 16" using f(2) by (simp add: dirent_bytes_def p DIRSIZ_def)
  have "get16 0 [ucast w, ucast (drop_bit 8 w)] = w" for w :: "16 word"
    using get_put16 [of 0 "[0, 0]" w] by (simp add: p)
  then show "de_inum (dirent_bytes n nm) = ucast n" by (simp add: de_inum_def dirent_bytes_def p get16_def)
  show "cstr (de_name (dirent_bytes n nm)) = cstr nm"
    using f by (simp add: de_name_def dirent_bytes_def p)
qed

subsection \<open>The inode table\<close>

text \<open>\<open>iget\<close> finds a referenced entry with the device and number, or takes a free one.\<close>

definition get_ref :: "u32 \<Rightarrow> u32 \<Rightarrow> inode \<Rightarrow> inode" where
  "get_ref d n ip = (if 0 < iref ip then ip\<lparr>iref := iref ip + 1\<rparr> else ip\<lparr>idev := d, inum := n, iref := 1, ivalid := 0\<rparr>)"

lemma find_upt: "find P [0..<n] = Some k \<Longrightarrow> k < n \<and> P k" "find P [0..<n] = None \<longleftrightarrow> (\<forall>k<n. \<not> P k)"
  by (auto simp: find_Some_iff find_None_iff)

lemma upd_inode_held: "upd_inode i f (s\<lparr>held := H\<rparr>) = (upd_inode i f s)\<lparr>held := H\<rparr>"
  by (simp add: upd_inode_def)

lemma iget_ok:
  assumes h: "held t = {}" and room: "\<exists>j < NINODE. iref (inode_of t j) = 0"
  obtains j where "iget d n t = Some (j, upd_inode j (get_ref d n) t)" "j < NINODE"
    "0 < iref (inode_of t j) \<and> idev (inode_of t j) = d \<and> inum (inode_of t j) = n \<or> iref (inode_of t j) = 0"
    "iref (inode_of t j) = 0 \<longrightarrow> (\<forall>i < NINODE. 0 < iref (inode_of t i) \<longrightarrow> idev (inode_of t i) \<noteq> d \<or> inum (inode_of t i) \<noteq> n)"
proof -
  let ?P = "\<lambda>i. iref (inode_of t i) > 0 \<and> idev (inode_of t i) = d \<and> inum (inode_of t i) = n"
  have e: "(t\<lparr>held := {}\<rparr>) = t" using h by simp
  show thesis
  proof (cases "find ?P [0..<NINODE]")
    case (Some j)
    note P = find_upt(1) [OF Some]
    have "upd_inode j (\<lambda>ip. ip\<lparr>iref := iref ip + 1\<rparr>) t = upd_inode j (get_ref d n) t"
      using P by (simp add: upd_inode_def upd_fs_def get_ref_def)
    then have "iget d n t = Some (j, upd_inode j (get_ref d n) t)"
      using Some by (simp add: iget_def h upd_inode_held)
    then show thesis using that [of j] P by auto
  next
    case None
    let ?Q = "\<lambda>i. iref (inode_of t i) = 0"
    obtain j where j: "find ?Q [0..<NINODE] = Some j" using room find_upt(2) [of ?Q NINODE] by (cases "find ?Q [0..<NINODE]") auto
    note Q = find_upt(1) [OF j]
    have "upd_inode j (\<lambda>ip. ip\<lparr>idev := d, inum := n, iref := 1, ivalid := 0\<rparr>) t = upd_inode j (get_ref d n) t"
      using Q by (simp add: upd_inode_def upd_fs_def get_ref_def)
    then have "iget d n t = Some (j, upd_inode j (get_ref d n) t)"
      using None j by (simp add: iget_def h upd_inode_held)
    then show thesis using that [of j] Q None by (auto simp: find_None_iff)
  qed
qed

text \<open>At most one entry stands for an inode.\<close>

definition table_ok :: "fkstate \<Rightarrow> bool" where
  "table_ok s \<longleftrightarrow> length (itable (fs s)) = NINODE \<and> (\<forall>i < NINODE. 0 \<le> iref (inode_of s i)) \<and>
     (\<forall>i < NINODE. \<forall>j < NINODE. 0 < iref (inode_of s i) \<and> 0 < iref (inode_of s j) \<and> idev (inode_of s i) = idev (inode_of s j) \<and>
       inum (inode_of s i) = inum (inode_of s j) \<longrightarrow> i = j)"

text \<open>Dropping a reference to an inode that others refer to, or that was not read, only counts down.\<close>

lemma iput_plain:
  assumes "held u = {}" "1 < iref (inode_of u j) \<or> ivalid (inode_of u j) = 0"
  shows "iput cur j u = Some (upd_inode j (\<lambda>ip. ip\<lparr>iref := iref ip - 1\<rparr>) u)"
  using assms by (auto simp: iput_def upd_inode_held)

subsection \<open>Reading entries\<close>

lemma read_dirent_ok:
  assumes f: "file_state cur d start D v L V i ip s" and ok: "file_ok v V ip" and r: "length L < NBUF" and k: "16 * k + 16 \<le> unat (isize ip)"
  obtains t where "read_dirent cur i (16 * k) s = Some (ent (contents V ip) k, t)" "file_state cur d start D v L V i ip t" "frame d {} s t"
proof -
  have b: "16 * k < 2 ^ 32" using k unat_bound [of "isize ip"] by simp
  have u: "unat (word_of_nat (16 * k) :: u32) = 16 * k" "unat (16 :: u32) = 16"
    by (subst unat_of_nat) (use b in \<open>simp_all add: take_bit_eq_mod\<close>)
  have n: "unat (word_of_nat (16 * k) :: u32) + unat (16 :: u32) \<le> unat (isize ip)" using k unfolding u .
  obtain dst' t m' where t: "readi cur i (VarDst []) (word_of_nat (16 * k)) 16 s = Some (int (unat (16 :: u32)), dst', t)"
    "file_state cur d start D v L V i ip t" "frame d {} (s\<lparr>pm := m'\<rparr>) t"
    "gets (pm s) (pagetable (proc s ! cur)) (VarDst []) (take (unat (16 :: u32)) (drop (unat (word_of_nat (16 * k) :: u32)) (contents V ip))) dst' m'"
    by (rule readi_ok [OF f ok r n, of "VarDst []"]) simp
  have g: "dst' = VarDst (ent (contents V ip) k)" "m' = pm s" using t(4) unfolding u by (simp_all add: ent_def)
  show thesis using that t(1-3) by (simp add: g read_dirent_def)
qed

abbreviation match :: "byte list \<Rightarrow> byte list \<Rightarrow> nat \<Rightarrow> bool" where
  "match bs nm k \<equiv> in_use (ent bs k) \<and> cstr (de_name (ent bs k)) = cstr nm"

lemma dirlookup_from_ok:
  assumes "file_state cur d start D v L V i ip s" "file_ok v V ip" "length L < NBUF" "\<forall>k \<in> set ks. 16 * k + 16 \<le> unat (isize ip)"
  shows "\<exists>t. file_state cur d start D v L V i ip t \<and> frame d {} s t \<and>
    dirlookup_from cur i nm (map (\<lambda>k. 16 * k) ks) s = (case find (match (contents V ip) nm) ks of None \<Rightarrow> Some (None, t)
      | Some k \<Rightarrow> map_option (\<lambda>(j, u). (Some (j, 16 * k), u)) (iget d (ucast (de_inum (ent (contents V ip) k))) t))"
  using assms
proof (induction ks arbitrary: s)
  case Nil
  then show ?case by (auto intro: frame_refl)
next
  case (Cons k ks)
  have k: "16 * k + 16 \<le> unat (isize ip)" and ks: "\<forall>k \<in> set ks. 16 * k + 16 \<le> unat (isize ip)" using Cons.prems(4) by auto
  obtain t where t: "read_dirent cur i (16 * k) s = Some (ent (contents V ip) k, t)" "file_state cur d start D v L V i ip t" "frame d {} s t"
    by (rule read_dirent_ok [OF Cons.prems(1-3) k])
  show ?case
  proof (cases "match (contents V ip) nm k")
    case True
    have "idev (inode_of t i) = d" using file_stateD(7,8) [OF t(2)] by simp
    then have "dirlookup_from cur i nm (map (\<lambda>k. 16 * k) (k # ks)) s =
        map_option (\<lambda>(j, u). (Some (j, 16 * k), u)) (iget d (ucast (de_inum (ent (contents V ip) k))) t)"
      using True t(1) by (cases "iget d (ucast (de_inum (ent (contents V ip) k))) t") (auto simp: in_use_def namecmp_zero)
    then show ?thesis using True t(2,3) by (intro exI [of _ t]) simp
  next
    case False
    obtain u where u: "file_state cur d start D v L V i ip u" "frame d {} t u"
      "dirlookup_from cur i nm (map (\<lambda>k. 16 * k) ks) t = (case find (match (contents V ip) nm) ks of None \<Rightarrow> Some (None, u)
        | Some k \<Rightarrow> map_option (\<lambda>(j, u). (Some (j, 16 * k), u)) (iget d (ucast (de_inum (ent (contents V ip) k))) u))"
      using Cons.IH [OF t(2) Cons.prems(2,3) ks] by blast
    have e: "dirlookup_from cur i nm (map (\<lambda>k. 16 * k) (k # ks)) s = dirlookup_from cur i nm (map (\<lambda>k. 16 * k) ks) t"
      using False t(1) by (auto simp: in_use_def namecmp_zero)
    have fk: "find (match (contents V ip) nm) (k # ks) = find (match (contents V ip) nm) ks"
      using False by (simp only: find.simps if_False)
    show ?thesis using u(1) frame_trans [OF t(3) u(2)] e [unfolded u(3)] by (intro exI [of _ u] conjI) (simp_all only: fk)
  qed
qed

lemma empty_dirent_ok:
  assumes "file_state cur d start D v L V i ip s" "file_ok v V ip" "length L < NBUF" "\<forall>k \<in> set ks. 16 * k + 16 \<le> unat (isize ip)"
  shows "\<exists>t. file_state cur d start D v L V i ip t \<and> frame d {} s t \<and>
    empty_dirent cur i (map (\<lambda>k. 16 * k) ks) s = Some (map_option (\<lambda>k. 16 * k) (find (\<lambda>k. \<not> in_use (ent (contents V ip) k)) ks), t)"
  using assms
proof (induction ks arbitrary: s)
  case Nil
  then show ?case by (auto intro: frame_refl)
next
  case (Cons k ks)
  have k: "16 * k + 16 \<le> unat (isize ip)" and ks: "\<forall>k \<in> set ks. 16 * k + 16 \<le> unat (isize ip)" using Cons.prems(4) by auto
  obtain t where t: "read_dirent cur i (16 * k) s = Some (ent (contents V ip) k, t)" "file_state cur d start D v L V i ip t" "frame d {} s t"
    by (rule read_dirent_ok [OF Cons.prems(1-3) k])
  show ?case
  proof (cases "in_use (ent (contents V ip) k)")
    case False
    then show ?thesis using t by (intro exI [of _ t]) (simp add: in_use_def)
  next
    case True
    obtain u where u: "file_state cur d start D v L V i ip u" "frame d {} t u"
      "empty_dirent cur i (map (\<lambda>k. 16 * k) ks) t = Some (map_option (\<lambda>k. 16 * k) (find (\<lambda>k. \<not> in_use (ent (contents V ip) k)) ks), u)"
      using Cons.IH [OF t(2) Cons.prems(2,3) ks] by blast
    have "empty_dirent cur i (map (\<lambda>k. 16 * k) (k # ks)) s = empty_dirent cur i (map (\<lambda>k. 16 * k) ks) t"
      using True t(1) by (simp add: in_use_def)
    then show ?thesis using True u frame_trans [OF t(3) u(2)] by (intro exI [of _ u]) simp
  qed
qed

subsection \<open>A directory in a transaction\<close>

definition dir_state :: "nat \<Rightarrow> u32 \<Rightarrow> u32 list \<Rightarrow> nat \<Rightarrow> fkstate \<Rightarrow> bool" where
  "dir_state cur d L i s \<longleftrightarrow> in_txn cur d L i s \<and> itype (inode_of s i) = T_DIR \<and> dir_ok (file_bytes d i s) \<and>
     length (itable (fs s)) = NINODE \<and> 0 < iref (inode_of s i)"

definition dir_names :: "u32 \<Rightarrow> nat \<Rightarrow> fkstate \<Rightarrow> byte list \<rightharpoonup> 16 word" where
  "dir_names d i s = dir_map (file_bytes d i s)"

definition free_inode :: "fkstate \<Rightarrow> bool" where
  "free_inode s \<longleftrightarrow> (\<exists>j < NINODE. iref (inode_of s j) = 0)"

text \<open>References do not matter to the contents.\<close>

lemma upd_inode_fields [simp]: "disk (fs (upd_inode i f s)) = disk (fs s)" "bview d (fs (upd_inode i f s)) = bview d (fs s)"
proof -
  show d: "disk (fs (upd_inode i f s)) = disk (fs s)" by (simp add: upd_inode_def)
  show "bview d (fs (upd_inode i f s)) = bview d (fs s)" by (simp add: bview_def slot_def d fun_eq_iff split: option.split)
qed

lemma iref_irrelevant [simp]:
  "ino_ok v V (ip\<lparr>iref := x\<rparr>) = ino_ok v V ip" "file_ok v V (ip\<lparr>iref := x\<rparr>) = file_ok v V ip" "contents V (ip\<lparr>iref := x\<rparr>) = contents V ip"
  by (simp_all add: ino_ok_def own_def baddr_def file_ok_def contents_def fbytes_def fbyte_def fblock_def of_inode_def)

lemma dir_state_refs:
  assumes "dir_state cur d L i s" "inode_of (upd_inode j f s) i = (inode_of s i)\<lparr>iref := x\<rparr>" "0 < x"
  shows "dir_state cur d L i (upd_inode j f s)" "file_bytes d i (upd_inode j f s) = file_bytes d i s"
proof -
  show b: "file_bytes d i (upd_inode j f s) = file_bytes d i s"
    using assms(2) unfolding file_bytes_def by (simp del: upd_inode_simps(1))
  show "dir_state cur d L i (upd_inode j f s)"
    using assms b unfolding dir_state_def in_txn_def file_state_def by (simp del: upd_inode_simps(1)) (simp add: upd_inode_def)
qed

lemma dir_state_frame:
  assumes "dir_state cur d L i s" "file_state cur d (sb_logstart (super s)) (disk (fs s)) (super s) L (bview d (fs s)) i (inode_of s i) t" "frame d {} s t"
  shows "dir_state cur d L i t" "file_bytes d i t = file_bytes d i s" "super t = super s" "bview d (fs t) = bview d (fs s)" "itable (fs t) = itable (fs s)"
proof -
  note H = file_state_here [OF assms(2)]
  show T: "super t = super s" "bview d (fs t) = bview d (fs s)" "itable (fs t) = itable (fs s)" using H frame_fields(4) [OF assms(3)] by simp_all
  then show b: "file_bytes d i t = file_bytes d i s" by (simp add: file_bytes_def)
  have s: "file_ok (super s) (bview d (fs s)) (inode_of s i)" "1 \<le> outstanding (flog (fs s))" "itype (inode_of s i) = T_DIR"
    "dir_ok (file_bytes d i s)" "length (itable (fs s)) = NINODE" "0 < iref (inode_of s i)"
    using assms(1) by (simp_all add: dir_state_def in_txn_def)
  have "1 \<le> outstanding (flog (fs t))" using s(2) frame_fields(7) [OF assms(3)] by simp
  then have "in_txn cur d L i t" by (rule in_txn_intro [OF assms(2) s(1)])
  then show "dir_state cur d L i t" using s(3-6) b T(3) by (simp add: dir_state_def)
qed

lemma dir_scan:
  assumes "dir_state cur d L i s"
  shows "dirent_offs (unat (isize (inode_of s i))) = map (\<lambda>k. 16 * k) [0..<length (file_bytes d i s) div 16]"
    "\<forall>k \<in> set [0..<length (file_bytes d i s) div 16]. 16 * k + 16 \<le> unat (isize (inode_of s i))"
    "length (file_bytes d i s) = unat (isize (inode_of s i))"
proof -
  show l: "length (file_bytes d i s) = unat (isize (inode_of s i))" by (simp add: file_bytes_def)
  have d: "16 dvd unat (isize (inode_of s i))" using assms l by (simp add: dir_state_def dir_ok_def)
  show "dirent_offs (unat (isize (inode_of s i))) = map (\<lambda>k. 16 * k) [0..<length (file_bytes d i s) div 16]"
    unfolding l by (rule offs_whole [OF d])
  show "\<forall>k \<in> set [0..<length (file_bytes d i s) div 16]. 16 * k + 16 \<le> unat (isize (inode_of s i))"
    unfolding l using d by auto
qed

text \<open>\<open>dirlookup\<close> in terms of \<open>dir_find\<close>, the first entry of the name.\<close>

lemma dirlookup_ok:
  assumes s: "dir_state cur d L i s" and r: "length L < NBUF"
  obtains t where "dir_state cur d L i t" "frame d {} s t" "file_bytes d i t = file_bytes d i s" "super t = super s" "bview d (fs t) = bview d (fs s)"
    "itable (fs t) = itable (fs s)"
    "dirlookup cur i nm s = (case dir_find (file_bytes d i s) nm of None \<Rightarrow> Some (None, t)
      | Some k \<Rightarrow> map_option (\<lambda>(j, u). (Some (j, 16 * k), u)) (iget d (ucast (de_inum (ent (file_bytes d i s) k))) t))"
proof -
  have f: "file_state cur d (sb_logstart (super s)) (disk (fs s)) (super s) L (bview d (fs s)) i (inode_of s i) s"
    "file_ok (super s) (bview d (fs s)) (inode_of s i)" "itype (inode_of s i) = T_DIR"
    using s by (simp_all add: dir_state_def in_txn_def)
  note S = dir_scan [OF s]
  obtain t where t: "file_state cur d (sb_logstart (super s)) (disk (fs s)) (super s) L (bview d (fs s)) i (inode_of s i) t" "frame d {} s t"
    "dirlookup_from cur i nm (map (\<lambda>k. 16 * k) [0..<length (file_bytes d i s) div 16]) s =
      (case find (match (file_bytes d i s) nm) [0..<length (file_bytes d i s) div 16] of None \<Rightarrow> Some (None, t)
        | Some k \<Rightarrow> map_option (\<lambda>(j, u). (Some (j, 16 * k), u)) (iget d (ucast (de_inum (ent (file_bytes d i s) k))) t))"
    using dirlookup_from_ok [OF f(1,2) r S(2), of nm] unfolding file_bytes_def by blast
  note F = dir_state_frame [OF s t(1,2)]
  show thesis by (rule that [OF F(1) t(2) F(2,3,4,5)]) (simp add: dirlookup_def f(3) S(1) t(3) dir_find_def)
qed

lemma dir_find_names: "dir_names d i s (cstr nm) = map_option (\<lambda>k. de_inum (ent (file_bytes d i s) k)) (dir_find (file_bytes d i s) nm)"
  by (simp add: dir_names_def dir_map_find)

lemma dir_get:
  assumes s: "dir_state cur d L i t" and fi: "free_inode t"
  obtains j where "iget d n t = Some (j, upd_inode j (get_ref d n) t)" "j < NINODE" "dir_state cur d L i (upd_inode j (get_ref d n) t)"
    "file_bytes d i (upd_inode j (get_ref d n) t) = file_bytes d i t"
    "idev (inode_of (upd_inode j (get_ref d n) t) j) = d \<and> inum (inode_of (upd_inode j (get_ref d n) t) j) = n \<and> 0 < iref (inode_of (upd_inode j (get_ref d n) t) j)"
    "iput cur j (upd_inode j (get_ref d n) t) = Some (upd_inode j (\<lambda>ip. ip\<lparr>iref := iref ip - 1\<rparr>) (upd_inode j (get_ref d n) t))"
    "dir_state cur d L i (upd_inode j (\<lambda>ip. ip\<lparr>iref := iref ip - 1\<rparr>) (upd_inode j (get_ref d n) t))"
    "file_bytes d i (upd_inode j (\<lambda>ip. ip\<lparr>iref := iref ip - 1\<rparr>) (upd_inode j (get_ref d n) t)) = file_bytes d i t"
proof -
  have h: "held t = {}" using s file_stateD(1) txn_held unfolding dir_state_def in_txn_def by blast
  have l: "length (itable (fs t)) = NINODE" "0 < iref (inode_of t i)" using s by (simp_all add: dir_state_def)
  obtain j where j: "iget d n t = Some (j, upd_inode j (get_ref d n) t)" "j < NINODE"
    "0 < iref (inode_of t j) \<and> idev (inode_of t j) = d \<and> inum (inode_of t j) = n \<or> iref (inode_of t j) = 0"
    by (rule iget_ok [OF h fi [unfolded free_inode_def]])
  let ?u = "upd_inode j (get_ref d n) t"
  let ?w = "upd_inode j (\<lambda>ip. ip\<lparr>iref := iref ip - 1\<rparr>) ?u"
  have x: "inode_of ?u i = (inode_of t i)\<lparr>iref := iref (inode_of ?u i)\<rparr>" "0 < iref (inode_of ?u i)"
    using l j(2) by (cases "i = j"; simp add: get_ref_def)+
  note U = dir_state_refs [OF s x]
  have y: "inode_of ?w i = (inode_of ?u i)\<lparr>iref := iref (inode_of ?w i)\<rparr>" "0 < iref (inode_of ?w i)"
    using l j(2) by (cases "i = j"; simp add: get_ref_def)+
  note W = dir_state_refs [OF U(1) y]
  have "1 < iref (inode_of ?u j) \<or> ivalid (inode_of ?u j) = 0" using l j(2,3) by (auto simp: get_ref_def)
  then have p: "iput cur j ?u = Some ?w" using h by (intro iput_plain) simp_all
  have g: "idev (inode_of ?u j) = d \<and> inum (inode_of ?u j) = n \<and> 0 < iref (inode_of ?u j)" using l j(2,3) by (auto simp: get_ref_def)
  show thesis by (rule that [OF j(1,2) U g p W(1)]) (simp only: W(2) U(2))
qed

subsection \<open>Writing an entry\<close>

text \<open>A write inside one block is done as a whole or not at all; it fails only where \<open>bmap\<close> finds no block.\<close>

lemma writei_loop_one:
  assumes "writei_loop cur i (VarSrc xs) off 0 n s = Some (e, tot, t)" "off mod BSIZE + n \<le> BSIZE" "0 < n"
  shows "tot = n \<or> tot = 0 \<and> (\<exists>u. bmap cur i (off div BSIZE) s = Some (0, u))"
proof -
  have c: "chunk off n = n" using assms(2) by (simp add: chunk_def)
  have stop: "writei_loop cur i src (off + n) n 0 u = Some (off + n, n, u)" for src u by (subst writei_loop.simps) simp
  show ?thesis
    using assms(1,3) by (subst (asm) writei_loop.simps) (auto simp: Let_def c stop bind_eq_Some_conv split: if_splits)
qed

lemma writei_one:
  assumes "writei cur i (VarSrc xs) off n s = Some (int k, t)" "unat off mod BSIZE + unat n \<le> BSIZE" "0 < unat n"
  shows "k = unat n \<or> k = 0 \<and> (\<exists>u. bmap cur i (unat off div BSIZE) s = Some (0, u))"
proof -
  obtain e u where "writei_loop cur i (VarSrc xs) (unat off) 0 (unat n) s = Some (e, k, u)"
    using assms(1) by (auto simp: writei_def Let_def bind_eq_Some_conv split: if_splits)
  from writei_loop_one [OF this assms(2,3)] show ?thesis .
qed

lemma entry_in_block: "16 * k mod BSIZE + 16 \<le> BSIZE" "blocks_of (16 * k) 16 = 1"
proof -
  have "16 * k mod BSIZE = 16 * (k mod 64)" by (simp add: BSIZE_def mult_mod_right)
  moreover have "k mod 64 \<le> 63" by (simp add: less_Suc_eq_le [symmetric])
  ultimately have "16 * k mod BSIZE \<le> 1008" by simp
  then show "16 * k mod BSIZE + 16 \<le> BSIZE" "blocks_of (16 * k) 16 = 1" by (simp_all add: BSIZE_def blocks_of_def)
qed

lemma dir_write:
  assumes s: "dir_state cur d L i s" and e: "length e = 16" and k: "16 * k \<le> length (file_bytes d i s)" "16 * k + 16 \<le> MAXFILE * BSIZE"
    and r: "length L + 7 < NBUF"
  obtains w t L' where "writei cur i (VarSrc e) (word_of_nat (16 * k)) 16 s = Some (w, t)" "length L' < NBUF"
    "dir_ok (file_bytes d i t) \<longrightarrow> dir_state cur d L' i t"
    "w = 16 \<and> file_bytes d i t = poke (16 * k) e (file_bytes d i s) \<or>
     w = 0 \<and> file_bytes d i t = file_bytes d i s \<and> full (super t) (bview d (fs t)) \<and> length (file_bytes d i s) \<le> 16 * k"
proof -
  have b: "16 * k < 2 ^ 32" using k(2) by (simp add: MAXFILE_def NDIRECT_def NINDIRECT_def BSIZE_def)
  have u: "unat (word_of_nat (16 * k) :: u32) = 16 * k" "unat (16 :: u32) = length e"
    by (subst unat_of_nat) (use b e in \<open>simp_all add: take_bit_eq_mod\<close>)
  have f: "file_state cur d (sb_logstart (super s)) (disk (fs s)) (super s) L (bview d (fs s)) i (inode_of s i) s"
    "file_ok (super s) (bview d (fs s)) (inode_of s i)" and in0: "in_txn cur d L i s"
    using s by (simp_all add: dir_state_def in_txn_def)
  have le: "(word_of_nat (16 * k) :: u32) \<le> isize (inode_of s i)" using k(1) unfolding word_le_nat u(1) by (simp add: file_bytes_def)
  have m: "unat (word_of_nat (16 * k) :: u32) + length e \<le> MAXFILE * BSIZE" using k(2) e unfolding u(1) by simp
  have l: "length L + 6 * blocks_of (unat (word_of_nat (16 * k) :: u32)) (length e) + 1 < NBUF" using r unfolding u(1) e by (simp add: entry_in_block)
  have so: "src_ok cur (VarSrc e) e s" by simp
  obtain q t L' where W: "writei cur i (VarSrc e) (word_of_nat (16 * k)) 16 s = Some (int q, t)" "q \<le> length e" "q < length e \<longrightarrow> full (super t) (bview d (fs t))"
    "in_txn cur d L' i t" "file_bytes d i t = poke (unat (word_of_nat (16 * k) :: u32)) (take q e) (file_bytes d i s)" "length L' < NBUF"
    "itable (fs t) = (itable (fs s))[i := inode_of t i]"
    "inode_of t i = (inode_of s i)\<lparr>addrs := addrs (inode_of t i), isize := isize (inode_of t i)\<rparr>"
    by (rule write_in_txn [OF in0 so le u(2) m l])
  have q: "q = 16 \<or> q = 0 \<and> (\<exists>u. bmap cur i (16 * k div BSIZE) s = Some (0, u))"
    using writei_one [OF W(1)] entry_in_block(1) [of k] unfolding u e by simp
  have short: "length (file_bytes d i s) \<le> 16 * k" if z: "bmap cur i (16 * k div BSIZE) s = Some (0, y)" for y
  proof (rule ccontr)
    assume "\<not> length (file_bytes d i s) \<le> 16 * k"
    then have p: "16 * k < unat (isize (inode_of s i))" by (simp add: file_bytes_def)
    have kb: "16 * k div BSIZE < MAXFILE" using k(2) by (intro less_mult_imp_div_less) simp
    have nz: "baddr (bview d (fs s)) (inode_of s i) (16 * k div BSIZE) \<noteq> 0" using f(2) p by (simp add: file_ok_def)
    have "length L < NBUF" using r by simp
    then obtain y' where "bmap cur i (16 * k div BSIZE) s = Some (baddr (bview d (fs s)) (inode_of s i) (16 * k div BSIZE), y')"
      by (rule bmap_mapped [OF f(1) kb nz])
    then show False using z nz by simp
  qed
  have ds: "dir_ok (file_bytes d i t) \<longrightarrow> dir_state cur d L' i t"
  proof
    assume that: "dir_ok (file_bytes d i t)"
    have "itype (inode_of t i) = T_DIR" "0 < iref (inode_of t i)"
      using s arg_cong [OF W(8), of itype] arg_cong [OF W(8), of iref] by (simp_all add: dir_state_def)
    moreover have "length (itable (fs t)) = NINODE" using s arg_cong [OF W(7), of length] by (simp add: dir_state_def)
    ultimately show "dir_state cur d L' i t" using W(4) that by (simp add: dir_state_def)
  qed
  show thesis
  proof (cases "q = 16")
    case True
    then have "file_bytes d i t = poke (16 * k) e (file_bytes d i s)" using W(5) e by (simp only: u(1)) simp
    then show thesis using True by (intro that [OF W(1,6) ds]) simp_all
  next
    case False
    then have z: "q = 0" and sh: "length (file_bytes d i s) \<le> 16 * k" using q short by blast+
    have "file_bytes d i t = file_bytes d i s" using W(5) z by (simp add: poke_def)
    then show thesis using z sh W(3) e by (intro that [OF W(1,6) ds]) simp_all
  qed
qed

text \<open>A name that is there.\<close>

lemma dirlookup_found:
  assumes s: "dir_state cur d L i s" and r: "length L < NBUF" and fi: "free_inode s" and k: "dir_find (file_bytes d i s) nm = Some k"
  obtains j t where "dirlookup cur i nm s = Some (Some (j, 16 * k), t)" "dir_state cur d L i t" "file_bytes d i t = file_bytes d i s" "j < NINODE"
    "idev (inode_of t j) = d \<and> inum (inode_of t j) = ucast (de_inum (ent (file_bytes d i s) k)) \<and> 0 < iref (inode_of t j)"
proof -
  obtain t where t: "dir_state cur d L i t" "frame d {} s t" "file_bytes d i t = file_bytes d i s" "super t = super s" "bview d (fs t) = bview d (fs s)"
    "itable (fs t) = itable (fs s)"
    "dirlookup cur i nm s = (case dir_find (file_bytes d i s) nm of None \<Rightarrow> Some (None, t)
      | Some k \<Rightarrow> map_option (\<lambda>(j, u). (Some (j, 16 * k), u)) (iget d (ucast (de_inum (ent (file_bytes d i s) k))) t))"
    by (rule dirlookup_ok [OF s r])
  have ft: "free_inode t" using fi t(6) by (simp add: free_inode_def)
  let ?n = "ucast (de_inum (ent (file_bytes d i s) k)) :: u32"
  obtain j where j: "iget d ?n t = Some (j, upd_inode j (get_ref d ?n) t)" "j < NINODE" "dir_state cur d L i (upd_inode j (get_ref d ?n) t)"
    "file_bytes d i (upd_inode j (get_ref d ?n) t) = file_bytes d i t"
    "idev (inode_of (upd_inode j (get_ref d ?n) t) j) = d \<and> inum (inode_of (upd_inode j (get_ref d ?n) t) j) = ?n \<and>
     0 < iref (inode_of (upd_inode j (get_ref d ?n) t) j)"
    by (rule dir_get [OF t(1) ft])
  have "dirlookup cur i nm s = Some (Some (j, 16 * k), upd_inode j (get_ref d ?n) t)" using t(7) k j(1) by simp
  then show thesis by (rule that [OF _ j(3) _ j(2,5)]) (simp only: j(4) t(3))
qed

subsection \<open>The operations on the map\<close>

text \<open>A directory on the demonstration machine with one entry, \<^verbatim>\<open>a\<close> for inode 5.\<close>

definition dir_demo :: fkstate where
  "dir_demo = file_demo T_DIR (dirent_bytes 5 [97])"

lemma demo_entries: "dir_list (dirent_bytes 5 [97]) = [([97], 5)]" "length (dirent_bytes 5 [97]) = 16" "cstr [97] = [97]" "cstr [98] = [98]"
  "dir_find (dirent_bytes 5 [97]) [97] = Some 0"
  by code_simp+

lemma dir_demo_state: "dir_state 0 1 [] 0 dir_demo" "dir_names 1 0 dir_demo = [[97] \<mapsto> 5]" "file_bytes 1 0 dir_demo = dirent_bytes 5 [97]" "free_inode dir_demo"
proof -
  have l: "length (dirent_bytes 5 [97]) \<le> BSIZE" by (simp add: demo_entries BSIZE_def)
  note t = demo_in_txn [OF short_types(2) l]
  show b: "file_bytes 1 0 dir_demo = dirent_bytes 5 [97]" unfolding dir_demo_def by (rule t(3))
  show "dir_names 1 0 dir_demo = [[97] \<mapsto> 5]" by (simp add: dir_names_def b dir_map_def demo_entries)
  have "dir_ok (dirent_bytes 5 [97])" by (simp add: dir_ok_def demo_entries)
  then show "dir_state 0 1 [] 0 dir_demo"
    using t(1) b by (simp add: dir_state_def dir_demo_def demo_fs) (simp add: demo_ino_def NINODE_def)
  show "free_inode dir_demo" unfolding free_inode_def
    by (rule exI [of _ 1]) (simp add: dir_demo_def demo_fs NINODE_def zero_inode_def)
qed

text \<open>The inode table holds an inode once. \<open>iget\<close> gives the entry of the inode when one is referenced and
  counts the reference, and otherwise takes a free entry, marked as not read; no other entry changes, and a
  second \<open>iget\<close> of the same inode gives the same entry.\<close>

theorem iget_shares_entry:
  assumes "table_ok s" "free_inode s" "held s = {}"
  shows "\<exists>j t. iget d n s = Some (j, t) \<and> j < NINODE \<and> table_ok t \<and> idev (inode_of t j) = d \<and> inum (inode_of t j) = n \<and>
    (if \<exists>i < NINODE. 0 < iref (inode_of s i) \<and> idev (inode_of s i) = d \<and> inum (inode_of s i) = n
     then iref (inode_of t j) = iref (inode_of s j) + 1 \<and> 0 < iref (inode_of s j) \<and> ivalid (inode_of t j) = ivalid (inode_of s j)
     else iref (inode_of t j) = 1 \<and> iref (inode_of s j) = 0 \<and> ivalid (inode_of t j) = 0) \<and>
    (\<forall>i < NINODE. i \<noteq> j \<longrightarrow> inode_of t i = inode_of s i) \<and>
    (free_inode t \<longrightarrow> (\<exists>u. iget d n t = Some (j, u) \<and> iref (inode_of u j) = iref (inode_of t j) + 1))"
proof -
  have T: "length (itable (fs s)) = NINODE" "\<And>i. i < NINODE \<Longrightarrow> 0 \<le> iref (inode_of s i)"
    "\<And>i j. i < NINODE \<Longrightarrow> j < NINODE \<Longrightarrow> 0 < iref (inode_of s i) \<Longrightarrow> 0 < iref (inode_of s j) \<Longrightarrow> idev (inode_of s i) = idev (inode_of s j) \<Longrightarrow>
       inum (inode_of s i) = inum (inode_of s j) \<Longrightarrow> i = j"
    using assms(1) unfolding table_ok_def by blast+
  obtain j where j: "iget d n s = Some (j, upd_inode j (get_ref d n) s)" "j < NINODE"
    "0 < iref (inode_of s j) \<and> idev (inode_of s j) = d \<and> inum (inode_of s j) = n \<or> iref (inode_of s j) = 0"
    "iref (inode_of s j) = 0 \<longrightarrow> (\<forall>i < NINODE. 0 < iref (inode_of s i) \<longrightarrow> idev (inode_of s i) \<noteq> d \<or> inum (inode_of s i) \<noteq> n)"
    by (rule iget_ok [OF assms(3) assms(2) [unfolded free_inode_def]])
  let ?t = "upd_inode j (get_ref d n) s"
  have tj: "inode_of ?t j = get_ref d n (inode_of s j)" and ti: "\<And>i. i \<noteq> j \<Longrightarrow> inode_of ?t i = inode_of s i"
    using T(1) j(2) by simp_all
  have g: "idev (inode_of ?t j) = d" "inum (inode_of ?t j) = n" "0 < iref (inode_of ?t j)"
    using j(3) unfolding tj by (auto simp: get_ref_def)
  have only: "i = j" if "i < NINODE" "0 < iref (inode_of ?t i)" "idev (inode_of ?t i) = d" "inum (inode_of ?t i) = n" for i
    using that T(3) [of i j] j(2-4) ti [of i] by (cases "i = j") auto
  have "table_ok ?t"
    unfolding table_ok_def
  proof (intro conjI allI impI)
    show "length (itable (fs ?t)) = NINODE" using T(1) by simp
    show "0 \<le> iref (inode_of ?t i)" if "i < NINODE" for i using T(2) [OF that] ti [of i] g(3) by (cases "i = j") auto
    fix i k assume ik: "i < NINODE" "k < NINODE" "0 < iref (inode_of ?t i) \<and> 0 < iref (inode_of ?t k) \<and> idev (inode_of ?t i) = idev (inode_of ?t k) \<and>
      inum (inode_of ?t i) = inum (inode_of ?t k)"
    show "i = k"
    proof (cases "i = j \<or> k = j")
      case True
      then show ?thesis using only [of i] only [of k] ik g(1,2) by metis
    next
      case False
      then show ?thesis using T(3) [of i k] ik ti [of i] ti [of k] by simp
    qed
  qed
  moreover have "\<exists>u. iget d n ?t = Some (j, u) \<and> iref (inode_of u j) = iref (inode_of ?t j) + 1" if f: "free_inode ?t"
  proof -
    have h: "held ?t = {}" using assms(3) by simp
    obtain k where k: "iget d n ?t = Some (k, upd_inode k (get_ref d n) ?t)" "k < NINODE"
      "0 < iref (inode_of ?t k) \<and> idev (inode_of ?t k) = d \<and> inum (inode_of ?t k) = n \<or> iref (inode_of ?t k) = 0"
      "iref (inode_of ?t k) = 0 \<longrightarrow> (\<forall>i < NINODE. 0 < iref (inode_of ?t i) \<longrightarrow> idev (inode_of ?t i) \<noteq> d \<or> inum (inode_of ?t i) \<noteq> n)"
      by (rule iget_ok [OF h f [unfolded free_inode_def]])
    have "k = j" using k(2-4) only [of k] g j(2) by blast
    moreover have "inode_of (upd_inode j (get_ref d n) ?t) j = get_ref d n (inode_of ?t j)" using T(1) j(2) by simp
    ultimately show ?thesis using k(1) g(3) by (auto simp: get_ref_def)
  qed
  moreover have "(if \<exists>i < NINODE. 0 < iref (inode_of s i) \<and> idev (inode_of s i) = d \<and> inum (inode_of s i) = n
     then iref (inode_of ?t j) = iref (inode_of s j) + 1 \<and> 0 < iref (inode_of s j) \<and> ivalid (inode_of ?t j) = ivalid (inode_of s j)
     else iref (inode_of ?t j) = 1 \<and> iref (inode_of s j) = 0 \<and> ivalid (inode_of ?t j) = 0)"
    using j(2-4) unfolding tj by (auto simp: get_ref_def)
  ultimately show ?thesis using j(1,2) g ti by blast
qed

lemma iget_shares_entry_witness:
  "\<exists>t. iget 1 1 dir_demo = Some (0, t) \<and> iref (inode_of t 0) = 2"
proof -
  have e: "itable (fs dir_demo) = demo_ino T_DIR (dirent_bytes 5 [97]) # replicate 49 zero_inode" by (simp add: dir_demo_def demo_fs)
  have i0: "inode_of dir_demo 0 = demo_ino T_DIR (dirent_bytes 5 [97])" using e by simp
  have ii: "inode_of dir_demo i = zero_inode" if "0 < i" "i < NINODE" for i using that e by (simp add: nth_Cons' NINODE_def)
  have "i = 0" if "i < NINODE" "0 < iref (inode_of dir_demo i)" for i using that ii [of i] by (cases "i = 0") (auto simp: zero_inode_def)
  moreover have "0 \<le> iref (inode_of dir_demo i)" if "i < NINODE" for i
    using that ii [of i] i0 by (cases "i = 0") (simp_all add: zero_inode_def demo_ino_def)
  ultimately have t: "table_ok dir_demo" unfolding table_ok_def using e by (auto simp: NINODE_def)
  have h: "held dir_demo = {}" by (simp add: dir_demo_def file_demo_def)
  have r: "\<exists>i < NINODE. 0 < iref (inode_of dir_demo i) \<and> idev (inode_of dir_demo i) = 1 \<and> inum (inode_of dir_demo i) = 1"
    by (rule exI [of _ 0]) (simp add: i0 NINODE_def, simp add: demo_ino_def)
  obtain j t' where j: "iget 1 1 dir_demo = Some (j, t')" "j < NINODE" "iref (inode_of t' j) = iref (inode_of dir_demo j) + 1" "0 < iref (inode_of dir_demo j)"
    using iget_shares_entry [OF t dir_demo_state(4) h, of 1 1] r by auto
  have "j = 0" using j(2,4) ii [of j] by (cases "j = 0") (auto simp: zero_inode_def)
  then show ?thesis using j i0 by (auto simp: demo_ino_def)
qed

text \<open>\<open>dirlookup\<close> is lookup in the map of names. For a name that is there it yields a referenced inode with
  the number the map gives and the offset of the entry; for any other name it yields no inode. The directory
  stays as it is.\<close>

theorem dirlookup_is_lookup:
  assumes "dir_state cur d L i s" "length L < NBUF" "free_inode s"
  shows "\<exists>r t. dirlookup cur i nm s = Some (r, t) \<and> dir_state cur d L i t \<and> file_bytes d i t = file_bytes d i s \<and>
    (case dir_names d i s (cstr nm) of
       None \<Rightarrow> r = None
     | Some n \<Rightarrow> \<exists>j k. r = Some (j, 16 * k) \<and> dir_find (file_bytes d i s) nm = Some k \<and> j < NINODE \<and>
         idev (inode_of t j) = d \<and> inum (inode_of t j) = ucast n \<and> 0 < iref (inode_of t j))"
proof (cases "dir_find (file_bytes d i s) nm")
  case None
  obtain t where "dir_state cur d L i t" "file_bytes d i t = file_bytes d i s"
    "dirlookup cur i nm s = (case dir_find (file_bytes d i s) nm of None \<Rightarrow> Some (None, t)
      | Some k \<Rightarrow> map_option (\<lambda>(j, u). (Some (j, 16 * k), u)) (iget d (ucast (de_inum (ent (file_bytes d i s) k))) t))"
    by (rule dirlookup_ok [OF assms(1,2)])
  then show ?thesis using None by (simp add: dir_find_names)
next
  case (Some k)
  obtain j t where "dirlookup cur i nm s = Some (Some (j, 16 * k), t)" "dir_state cur d L i t" "file_bytes d i t = file_bytes d i s" "j < NINODE"
    "idev (inode_of t j) = d \<and> inum (inode_of t j) = ucast (de_inum (ent (file_bytes d i s) k)) \<and> 0 < iref (inode_of t j)"
    by (rule dirlookup_found [OF assms Some])
  then show ?thesis using Some by (simp add: dir_find_names)
qed

lemma dirlookup_is_lookup_witness:
  "\<exists>j k t. dirlookup 0 0 [97] dir_demo = Some (Some (j, 16 * k), t) \<and> inum (inode_of t j) = 5"
proof -
  have "length ([] :: u32 list) < NBUF" by (simp add: NBUF_def)
  from dirlookup_is_lookup [OF dir_demo_state(1) this dir_demo_state(4), of "[97]"]
  show ?thesis by (auto simp: dir_demo_state(2) demo_entries(3))
qed

text \<open>C11. \<open>dirlink\<close> is update of the map of names. A new name is added with its inode number and every other name
  keeps its own; a name that is there is refused, and on a full disk the call fails; in both cases the map
  stays as it is. No name is ever listed twice.\<close>

theorem dirlink_is_update:
  assumes "dir_state cur d L i s" "length L + 7 < NBUF" "free_inode s" "0 \<notin> set nm" "(ucast n :: 16 word) \<noteq> 0"
    and "length (file_bytes d i s) + 16 \<le> MAXFILE * BSIZE"
  shows "\<exists>r t L'. dirlink cur i nm n s = Some (r, t) \<and> dir_state cur d L' i t \<and>
    (dir_names d i s (cstr nm) \<noteq> None \<and> r = -1 \<and> dir_names d i t = dir_names d i s \<or>
     dir_names d i s (cstr nm) = None \<and> r = 0 \<and> dir_names d i t = (dir_names d i s)(cstr nm \<mapsto> ucast n) \<or>
     dir_names d i s (cstr nm) = None \<and> r = -1 \<and> dir_names d i t = dir_names d i s \<and> full (super t) (bview d (fs t)))"
proof -
  have r1: "length L < NBUF" using assms(2) by simp
  obtain t where t: "dir_state cur d L i t" "frame d {} s t" "file_bytes d i t = file_bytes d i s" "super t = super s" "bview d (fs t) = bview d (fs s)"
    "itable (fs t) = itable (fs s)"
    "dirlookup cur i nm s = (case dir_find (file_bytes d i s) nm of None \<Rightarrow> Some (None, t)
      | Some k \<Rightarrow> map_option (\<lambda>(j, u). (Some (j, 16 * k), u)) (iget d (ucast (de_inum (ent (file_bytes d i s) k))) t))"
    by (rule dirlookup_ok [OF assms(1) r1])
  show ?thesis
  proof (cases "dir_find (file_bytes d i s) nm")
    case (Some k)
    have fi: "free_inode t" using assms(3) t(6) by (simp add: free_inode_def)
    let ?n = "ucast (de_inum (ent (file_bytes d i s) k)) :: u32"
    obtain j where j: "iget d ?n t = Some (j, upd_inode j (get_ref d ?n) t)"
      "iput cur j (upd_inode j (get_ref d ?n) t) = Some (upd_inode j (\<lambda>ip. ip\<lparr>iref := iref ip - 1\<rparr>) (upd_inode j (get_ref d ?n) t))"
      "dir_state cur d L i (upd_inode j (\<lambda>ip. ip\<lparr>iref := iref ip - 1\<rparr>) (upd_inode j (get_ref d ?n) t))"
      "file_bytes d i (upd_inode j (\<lambda>ip. ip\<lparr>iref := iref ip - 1\<rparr>) (upd_inode j (get_ref d ?n) t)) = file_bytes d i t"
      by (rule dir_get [OF t(1) fi])
    let ?w = "upd_inode j (\<lambda>ip. ip\<lparr>iref := iref ip - 1\<rparr>) (upd_inode j (get_ref d ?n) t)"
    have "dirlink cur i nm n s = Some (-1, ?w)" using Some t(7) j(1,2) by (simp add: dirlink_def)
    moreover have "dir_names d i ?w = dir_names d i s" unfolding dir_names_def j(4) t(3) ..
    moreover have "dir_names d i s (cstr nm) \<noteq> None" using Some by (simp add: dir_find_names)
    ultimately show ?thesis using j(3) by blast
  next
    case None
    have new: "dir_names d i s (cstr nm) = None" using None by (simp add: dir_find_names)
    note S = dir_scan [OF t(1)]
    let ?bs = "file_bytes d i s" and ?e = "dirent_bytes n nm"
    let ?m = "length ?bs div 16"
    have ft: "file_state cur d (sb_logstart (super t)) (disk (fs t)) (super t) L (bview d (fs t)) i (inode_of t i) t"
      "file_ok (super t) (bview d (fs t)) (inode_of t i)"
      using t(1) by (simp_all add: dir_state_def in_txn_def)
    have fb: "contents (bview d (fs t)) (inode_of t i) = ?bs" using t(3) by (simp add: file_bytes_def)
    obtain u where u: "file_state cur d (sb_logstart (super t)) (disk (fs t)) (super t) L (bview d (fs t)) i (inode_of t i) u" "frame d {} t u"
      "empty_dirent cur i (map (\<lambda>k. 16 * k) [0..<?m]) t = Some (map_option (\<lambda>k. 16 * k) (find (\<lambda>k. \<not> in_use (ent ?bs k)) [0..<?m]), u)"
      using empty_dirent_ok [OF ft r1, of "[0..<?m]"] S(2) unfolding fb t(3) by blast
    note F = dir_state_frame [OF t(1) u(1,2)]
    define k where "k = (case find (\<lambda>k. \<not> in_use (ent ?bs k)) [0..<?m] of None \<Rightarrow> ?m | Some k \<Rightarrow> k)"
    have k: "k = ?m \<or> k < ?m \<and> \<not> in_use (ent ?bs k)"
      by (auto simp: k_def dest: find_upt(1) split: option.split)
    have d16: "16 dvd length ?bs" using assms(1) by (simp add: dir_state_def dir_ok_def)
    have k16: "16 * k \<le> length ?bs" using k by auto
    have bu: "file_bytes d i u = ?bs" using F(2) t(3) by simp
    note e = dirent_bytes_fields [OF assms(4), of n]
    have use: "in_use ?e" using e(2) assms(5) by (simp add: in_use_def)
    have kb: "16 * k \<le> length (file_bytes d i u)" and km: "16 * k + 16 \<le> MAXFILE * BSIZE" using bu k16 assms(6) by simp_all
    obtain w y L' where W: "writei cur i (VarSrc ?e) (word_of_nat (16 * k)) 16 u = Some (w, y)" "length L' < NBUF" "dir_ok (file_bytes d i y) \<longrightarrow> dir_state cur d L' i y"
      "w = 16 \<and> file_bytes d i y = poke (16 * k) ?e (file_bytes d i u) \<or>
       w = 0 \<and> file_bytes d i y = file_bytes d i u \<and> full (super y) (bview d (fs y)) \<and> length (file_bytes d i u) \<le> 16 * k"
      by (rule dir_write [OF F(1) e(1) kb km assms(2)])
    define E where "E = map_option (\<lambda>k. 16 * k) (find (\<lambda>k. \<not> in_use (ent ?bs k)) [0..<?m])"
    let ?offs = "dirent_offs (unat (isize (inode_of t i)))"
    have offs: "?offs = map (\<lambda>k. 16 * k) [0..<?m]" using S(1) unfolding t(3) .
    have uE: "empty_dirent cur i ?offs t = Some (E, u)" unfolding E_def offs by (rule u(3))
    have off: "(case E of None \<Rightarrow> 16 * length ?offs | Some off \<Rightarrow> off) = 16 * k"
      unfolding E_def offs by (simp add: k_def split: option.split)
    have res: "dirlink cur i nm n s = Some (if w \<noteq> 16 then -1 else 0, y)"
      using None t(7) uE off W(1) unfolding dirlink_def by (simp add: Let_def del: of_nat_mult)
    have ok: "dir_ok ?bs" using assms(1) by (simp add: dir_state_def)
    have nn: "dir_map ?bs (cstr (de_name ?e)) = None" using new e(3) by (simp add: dir_names_def)
    note P = dir_put [OF ok e(1) use k nn]
    from W(4) show ?thesis
    proof
      assume a: "w = 16 \<and> file_bytes d i y = poke (16 * k) ?e (file_bytes d i u)"
      then have "dir_state cur d L' i y" "dir_names d i y = (dir_names d i s)(cstr nm \<mapsto> ucast n)"
        using W(3) P e(2,3) bu by (simp_all add: dir_names_def)
      then show ?thesis using res a new by auto
    next
      assume a: "w = 0 \<and> file_bytes d i y = file_bytes d i u \<and> full (super y) (bview d (fs y)) \<and> length (file_bytes d i u) \<le> 16 * k"
      then have "dir_state cur d L' i y" "dir_names d i y = dir_names d i s" using W(3) ok bu by (simp_all add: dir_names_def)
      then show ?thesis using res a new by auto
    qed
  qed
qed

lemma dirlink_is_update_witness:
  "\<exists>r t. dirlink 0 0 [98] 7 dir_demo = Some (r, t) \<and>
    (r = 0 \<and> dir_names 1 0 t = [[97] \<mapsto> 5, [98] \<mapsto> 7] \<or> r = -1 \<and> full (super t) (bview 1 (fs t)))"
proof -
  have l: "length ([] :: u32 list) + 7 < NBUF" by (simp add: NBUF_def)
  have n: "0 \<notin> set [98 :: byte]" "(ucast (7 :: u32) :: 16 word) \<noteq> 0" by simp_all
  have m: "length (file_bytes 1 0 dir_demo) + 16 \<le> MAXFILE * BSIZE"
    by (simp add: dir_demo_state(3) demo_entries(2) MAXFILE_def NDIRECT_def NINDIRECT_def BSIZE_def)
  show ?thesis
    using dirlink_is_update [OF dir_demo_state(1) l dir_demo_state(4) n m] by (auto simp: dir_demo_state(2) demo_entries(4))
qed

lemma erase_entry:
  assumes s: "dir_state cur d L i s" and r: "length L + 7 < NBUF" and f: "dir_find (file_bytes d i s) nm = Some k"
  obtains t L' where "writei cur i (VarSrc (replicate 16 0)) (word_of_nat (16 * k)) 16 s = Some (16, t)" "dir_state cur d L' i t"
    "dir_names d i t = (dir_names d i s)(cstr nm := None)"
proof -
  let ?bs = "file_bytes d i s"
  have ok: "dir_ok ?bs" and ln: "length ?bs \<le> MAXFILE * BSIZE" using s by (simp_all add: dir_state_def in_txn_def file_ok_def file_bytes_def)
  have "16 * k + 16 \<le> length ?bs" using dir_find_bounds(1) [OF f] ok by (auto simp: dir_ok_def)
  then have k: "16 * k \<le> length ?bs" "16 * k + 16 \<le> MAXFILE * BSIZE" "\<not> length ?bs \<le> 16 * k" using ln by simp_all
  have l: "length (replicate 16 0 :: byte list) = 16" by simp
  obtain w t L' where W: "writei cur i (VarSrc (replicate 16 0)) (word_of_nat (16 * k)) 16 s = Some (w, t)" "length L' < NBUF" "dir_ok (file_bytes d i t) \<longrightarrow> dir_state cur d L' i t"
    "w = 16 \<and> file_bytes d i t = poke (16 * k) (replicate 16 0) ?bs \<or>
     w = 0 \<and> file_bytes d i t = ?bs \<and> full (super t) (bview d (fs t)) \<and> length ?bs \<le> 16 * k"
    by (rule dir_write [OF s l k(1,2) r])
  have "w = 16" "file_bytes d i t = poke (16 * k) (replicate 16 0) ?bs" using W(4) k(3) by blast+
  then show thesis using that [of t L'] W(1,3) dir_erase [OF ok f] by (simp add: dir_names_def)
qed

text \<open>How \<open>sys_unlink\<close> removes a name: \<open>dirlookup\<close> finds its entry, and writing zeros over it never fails
  and takes exactly this name out of the map.\<close>

theorem unlink_removes_name:
  assumes "dir_state cur d L i s" "length L + 7 < NBUF" "free_inode s" "dir_names d i s (cstr nm) \<noteq> None"
  shows "\<exists>j off t u L'. dirlookup cur i nm s = Some (Some (j, off), t) \<and>
    writei cur i (VarSrc (replicate 16 0)) (word_of_nat off) 16 t = Some (16, u) \<and> dir_state cur d L' i u \<and>
    dir_names d i u = (dir_names d i s)(cstr nm := None)"
proof -
  obtain k where k: "dir_find (file_bytes d i s) nm = Some k" using assms(4) by (auto simp: dir_find_names)
  have r: "length L < NBUF" using assms(2) by simp
  obtain j t where t: "dirlookup cur i nm s = Some (Some (j, 16 * k), t)" "dir_state cur d L i t" "file_bytes d i t = file_bytes d i s"
    by (rule dirlookup_found [OF assms(1) r assms(3) k])
  obtain u L' where "writei cur i (VarSrc (replicate 16 0)) (word_of_nat (16 * k)) 16 t = Some (16, u)" "dir_state cur d L' i u"
    "dir_names d i u = (dir_names d i t)(cstr nm := None)"
    by (rule erase_entry [OF t(2) assms(2)]) (use k t(3) in simp_all)
  then show ?thesis using t(1,3) by (auto simp: dir_names_def)
qed

lemma unlink_removes_name_witness:
  "\<exists>j off t u. dirlookup 0 0 [97] dir_demo = Some (Some (j, off), t) \<and>
    writei 0 0 (VarSrc (replicate 16 0)) (word_of_nat off) 16 t = Some (16, u) \<and> dir_names 1 0 u = Map.empty"
proof -
  have l: "length ([] :: u32 list) + 7 < NBUF" by (simp add: NBUF_def)
  have n: "dir_names 1 0 dir_demo (cstr [97]) \<noteq> None" by (simp add: dir_demo_state(2) demo_entries(3))
  have e: "([[97] \<mapsto> 5])(cstr [97] := None) = Map.empty" by (simp add: demo_entries(3))
  show ?thesis using unlink_removes_name [OF dir_demo_state(1) l dir_demo_state(4) n] unfolding dir_demo_state(2) e by blast
qed

subsection \<open>Path names\<close>

text \<open>The elements \<open>namex\<close> walks, and the reference: the parts of the path between its slashes.\<close>

function path_elems :: "byte list \<Rightarrow> byte list list" where
  "path_elems path = (case skipelem path of None \<Rightarrow> [] | Some (rest, elem) \<Rightarrow> elem # path_elems rest)"
  by pat_completeness auto
termination
  by (relation "measure length") (auto dest: skipelem_shorter)

declare path_elems.simps [simp del]

fun split_slash :: "byte list \<Rightarrow> byte list list" where
  "split_slash [] = [[]]"
| "split_slash (c # cs) = (if c = slash then [] # split_slash cs
     else (case split_slash cs of [] \<Rightarrow> [[c]] | x # xs \<Rightarrow> (c # x) # xs))"

definition components :: "byte list \<Rightarrow> byte list list" where
  "components path = filter (\<lambda>x. x \<noteq> []) (split_slash path)"

lemma components_slashes: "components (dropWhile (\<lambda>c. c = slash) path) = components path"
  by (induction path) (auto simp: components_def)

lemma split_word: "slash \<notin> set e \<Longrightarrow> split_slash (e @ p) = (e @ hd (split_slash p)) # tl (split_slash p)"
proof (induction e)
  case Nil
  have "split_slash p \<noteq> []" by (induction p) (auto split: list.splits)
  then show ?case by simp
qed auto

lemma components_word:
  assumes "slash \<notin> set e" "e \<noteq> []" "p = [] \<or> hd p = slash"
  shows "components (e @ p) = e # components p"
proof (cases p)
  case Nil
  then show ?thesis using split_word [OF assms(1), of "[]"] assms(2) by (simp add: components_def)
next
  case (Cons c q)
  then show ?thesis using split_word [OF assms(1), of p] assms by (auto simp: components_def)
qed

text \<open>The kernel walks a path element by element as the path is written: repeated \<open>skipelem\<close> gives the non-empty
  parts between the slashes, in order, each cut at fourteen characters.\<close>

theorem skipelem_splits_path:
  "path_elems path = map (take DIRSIZ) (components path)"
proof (induction path rule: length_induct)
  case (1 path)
  let ?p = "dropWhile (\<lambda>c. c = slash) path"
  let ?e = "takeWhile (\<lambda>c. c \<noteq> slash) ?p" and ?q = "dropWhile (\<lambda>c. c \<noteq> slash) ?p"
  show ?case
  proof (cases "?p = []")
    case True
    then have "components path = []" using components_slashes [of path, unfolded True] by (simp add: components_def)
    then show ?thesis using True by (simp add: path_elems.simps [of path] skipelem_def)
  next
    case False
    let ?r = "dropWhile (\<lambda>c. c = slash) ?q"
    have s: "skipelem path = Some (?r, take DIRSIZ ?e)" using False by (simp add: skipelem_def Let_def)
    have e: "slash \<notin> set ?e" by (auto dest: set_takeWhileD)
    have ne: "?e \<noteq> []" using False hd_dropWhile [OF False] by (cases ?p) auto
    have q: "?q = [] \<or> hd ?q = slash" using hd_dropWhile [of "\<lambda>c. c \<noteq> slash" ?p] by auto
    have "components path = components (?e @ ?q)" using components_slashes [of path] by simp
    also have "\<dots> = ?e # components ?q" by (rule components_word [OF e ne q])
    also have "components ?q = components ?r" by (rule components_slashes [symmetric])
    finally have c: "components path = ?e # components ?r" .
    have "path_elems ?r = map (take DIRSIZ) (components ?r)" using 1 skipelem_shorter [OF s] by blast
    then show ?thesis unfolding c by (simp add: path_elems.simps [of path] s)
  qed
qed

end
