(* ===== verification/Fs_File.thy ===== *)
theory Fs_File
  imports Fs_Name Fs_Pipe
begin

text \<open>
  Open files, \<^verbatim>\<open>kernel/file.c\<close>, with \<open>pipealloc\<close> of \<^verbatim>\<open>kernel/pipe.c\<close>. A file pointer is an
  index of the table. A call on a pipe that goes to sleep yields where it stands, for the resume functions of
  the pipe. The entries of \<^verbatim>\<open>devsw\<close>, which the device drivers fill in, are a parameter of the calls.
\<close>

definition NFILE :: nat where "NFILE = 100"
definition NDEV :: int where "NDEV = 10"
definition FtableLock :: lockid where "FtableLock = OtherLock 14"

abbreviation file_of :: "fkstate \<Rightarrow> nat \<Rightarrow> kfile" where
  "file_of s f \<equiv> ftable (fs s) ! f"

definition upd_file :: "nat \<Rightarrow> (kfile \<Rightarrow> kfile) \<Rightarrow> fkstate \<Rightarrow> fkstate" where
  "upd_file f g = upd_fs (\<lambda>v. v\<lparr>ftable := (ftable v)[f := g (ftable v ! f)]\<rparr>)"

subsection \<open>References\<close>

definition filealloc :: "fkstate \<Rightarrow> (nat option \<times> fkstate) option" where
  "filealloc s = do {
     s \<leftarrow> k_acquire FtableLock s;
     (case find (\<lambda>f. fref (file_of s f) = 0) [0..<NFILE] of
        Some f \<Rightarrow> do {
          s \<leftarrow> k_release FtableLock (upd_file f (\<lambda>x. x\<lparr>fref := 1\<rparr>) s);
          Some (Some f, s)
        }
      | None \<Rightarrow> do {
          s \<leftarrow> k_release FtableLock s;
          Some (None, s)
        })
   }"

definition filedup :: "nat \<Rightarrow> fkstate \<Rightarrow> fkstate option" where
  "filedup f s = do {
     s \<leftarrow> k_acquire FtableLock s;
     if fref (file_of s f) < 1 then None
     else k_release FtableLock (upd_file f (\<lambda>x. x\<lparr>fref := fref x + 1\<rparr>) s)
   }"

definition fileclose :: "nat \<Rightarrow> nat \<Rightarrow> fkstate \<Rightarrow> fkstate option" where
  "fileclose cur f s = do {
     s \<leftarrow> k_acquire FtableLock s;
     if fref (file_of s f) < 1 then None
     else do {
       let s = upd_file f (\<lambda>x. x\<lparr>fref := fref x - 1\<rparr>) s;
       if fref (file_of s f) > 0 then k_release FtableLock s
       else do {
         let ff = file_of s f;
         s \<leftarrow> k_release FtableLock (upd_file f (\<lambda>x. x\<lparr>fref := 0, fd_type := FD_NONE\<rparr>) s);
         if fd_type ff = FD_PIPE then pipeclose cur (fpipe ff) (fwritable ff \<noteq> 0) s
         else if fd_type ff = FD_INODE \<or> fd_type ff = FD_DEVICE then do {
           s \<leftarrow> take_op cur s;
           s \<leftarrow> iput cur (fip ff) s;
           end_op cur s
         }
         else Some s
       }
     }
   }"

text \<open>The two ends of a new pipe; the ring starts 24 bytes into the page, behind the spinlock.\<close>

definition pipealloc :: "nat \<Rightarrow> fkstate \<Rightarrow> ((nat \<times> nat) option \<times> fkstate) option" where
  "pipealloc cur s = do {
     (f0, s) \<leftarrow> filealloc s;
     (f1, s) \<leftarrow> (case f0 of None \<Rightarrow> Some (None, s) | Some _ \<Rightarrow> filealloc s);
     let (pa, m) = (case f1 of None \<Rightarrow> (0, pm s) | Some _ \<Rightarrow> kalloc (pm s));
     let s = s\<lparr>pm := m\<rparr>;
     (case (f0, f1, pa = 0) of
        (Some r, Some w, False) \<Rightarrow> do {
          let s = upd_pipe pa (\<lambda>_. pipe_init (read_page pa 24 PIPESIZE m)) s;
          let s = upd_file r (\<lambda>x. x\<lparr>fd_type := FD_PIPE, readable := 1, fwritable := 0, fpipe := pa\<rparr>) s;
          let s = upd_file w (\<lambda>x. x\<lparr>fd_type := FD_PIPE, readable := 0, fwritable := 1, fpipe := pa\<rparr>) s;
          Some (Some (r, w), s)
        }
      | _ \<Rightarrow> do {
          s \<leftarrow> (case f0 of Some f \<Rightarrow> fileclose cur f s | None \<Rightarrow> Some s);
          s \<leftarrow> (case f1 of Some f \<Rightarrow> fileclose cur f s | None \<Rightarrow> Some s);
          Some (None, s)
        })
   }"

subsection \<open>Reading, writing and metadata\<close>

text \<open>\<^verbatim>\<open>struct stat\<close> as it lies in memory; \<open>pad\<close> is what the four bytes of its padding hold.\<close>

definition half_bytes :: "int \<Rightarrow> byte list" where
  "half_bytes v = put16 0 (word_of_int v) [0, 0]"

definition quad_bytes :: "u64 \<Rightarrow> byte list" where
  "quad_bytes w = map (byte_of w) [0..<8]"

definition stat_bytes :: "byte list \<Rightarrow> kstat \<Rightarrow> byte list" where
  "stat_bytes pad st = word_bytes (st_dev st) @ word_bytes (st_ino st) @ half_bytes (st_type st) @ half_bytes (st_nlink st) @
     pad @ quad_bytes (st_size st)"

definition filestat :: "byte list \<Rightarrow> nat \<Rightarrow> nat \<Rightarrow> u64 \<Rightarrow> fkstate \<Rightarrow> (int \<times> fkstate) option" where
  "filestat pad cur f addr s =
     (if fd_type (file_of s f) = FD_INODE \<or> fd_type (file_of s f) = FD_DEVICE then do {
        let ip = fip (file_of s f);
        s \<leftarrow> ilock cur ip s;
        let st = stati ip s;
        s \<leftarrow> iunlock cur ip s;
        let p = proc s ! cur;
        (e, m) \<leftarrow> copyout (sz p) (pagetable p) (pagetable p) addr (stat_bytes pad st) (pm s);
        Some (if e < 0 then -1 else 0, s\<lparr>pm := m\<rparr>)
      }
      else Some (-1, s))"

text \<open>A device's functions: the process, the user address and the count give the result.\<close>

type_synonym devfun = "nat \<Rightarrow> u64 \<Rightarrow> int \<Rightarrow> fkstate \<Rightarrow> (int \<times> fkstate) option"

record devsw =
  dev_read :: "int \<Rightarrow> devfun option"
  dev_write :: "int \<Rightarrow> devfun option"

datatype fresult = FDone int | FReadSleeps u64 u64 int | FWriteSleeps u64 u64 int int

definition fileread :: "devsw \<Rightarrow> nat \<Rightarrow> nat \<Rightarrow> u64 \<Rightarrow> int \<Rightarrow> fkstate \<Rightarrow> (fresult \<times> fkstate) option" where
  "fileread dv cur f addr n s =
     (let x = file_of s f in
      if readable x = 0 then Some (FDone (-1), s)
      else (case fd_type x of
        FD_PIPE \<Rightarrow> do {
          (r, s) \<leftarrow> piperead cur (fpipe x) addr n s;
          Some (case r of Return v \<Rightarrow> FDone v | Blocked \<Rightarrow> FReadSleeps (fpipe x) addr n, s)
        }
      | FD_DEVICE \<Rightarrow>
          if fmajor x < 0 \<or> fmajor x \<ge> NDEV then Some (FDone (-1), s)
          else (case dev_read dv (fmajor x) of
            None \<Rightarrow> Some (FDone (-1), s)
          | Some rd \<Rightarrow> map_option (apfst FDone) (rd cur addr n s))
      | FD_INODE \<Rightarrow> do {
          s \<leftarrow> ilock cur (fip x) s;
          (r, _, s) \<leftarrow> readi cur (fip x) (UserDst addr) (foff (file_of s f)) (word_of_int n) s;
          let s = (if r > 0 then upd_file f (\<lambda>x. x\<lparr>foff := foff x + word_of_int r\<rparr>) s else s);
          s \<leftarrow> iunlock cur (fip x) s;
          Some (FDone r, s)
        }
      | FD_NONE \<Rightarrow> None))"

text \<open>The most bytes one transaction of a write takes, \<^verbatim>\<open>((MAXOPBLOCKS-1-1-2) / 2) * BSIZE\<close>.\<close>

definition FW_MAX :: int where
  "FW_MAX = (int MAXOPBLOCKS - 1 - 1 - 2) div 2 * int BSIZE"

lemma FW_MAX_eq: "FW_MAX = 3072"
  by (simp add: FW_MAX_def MAXOPBLOCKS_def BSIZE_def)

text \<open>The loop of \<open>filewrite\<close> for a file on disk: the value of \<open>i\<close> it ends with.\<close>

function filewrite_loop :: "nat \<Rightarrow> nat \<Rightarrow> u64 \<Rightarrow> int \<Rightarrow> int \<Rightarrow> fkstate \<Rightarrow> (int \<times> fkstate) option" where
  "filewrite_loop cur f addr n i s =
     (if i < n then do {
        let n1 = min (n - i) FW_MAX;
        let ip = fip (file_of s f);
        s \<leftarrow> take_op cur s;
        s \<leftarrow> ilock cur ip s;
        (r, s) \<leftarrow> writei cur ip (UserSrc (addr + word_of_int i)) (foff (file_of s f)) (word_of_int n1) s;
        let s = (if r > 0 then upd_file f (\<lambda>x. x\<lparr>foff := foff x + word_of_int r\<rparr>) s else s);
        s \<leftarrow> iunlock cur ip s;
        s \<leftarrow> end_op cur s;
        if r \<noteq> n1 then Some (i, s) else filewrite_loop cur f addr n (i + r) s
      }
      else Some (i, s))"
  by pat_completeness auto
termination
  by (relation "measure (\<lambda>(_, _, _, n, i, _). nat (n - i))") (auto simp: FW_MAX_eq min_def)

declare filewrite_loop.simps [simp del]

definition filewrite :: "devsw \<Rightarrow> nat \<Rightarrow> nat \<Rightarrow> u64 \<Rightarrow> int \<Rightarrow> fkstate \<Rightarrow> (fresult \<times> fkstate) option" where
  "filewrite dv cur f addr n s =
     (let x = file_of s f in
      if fwritable x = 0 then Some (FDone (-1), s)
      else (case fd_type x of
        FD_PIPE \<Rightarrow> do {
          (r, s) \<leftarrow> pipewrite cur (fpipe x) addr n s;
          Some (case r of PwDone v \<Rightarrow> FDone v | PwSleep i \<Rightarrow> FWriteSleeps (fpipe x) addr n i, s)
        }
      | FD_DEVICE \<Rightarrow>
          if fmajor x < 0 \<or> fmajor x \<ge> NDEV then Some (FDone (-1), s)
          else (case dev_write dv (fmajor x) of
            None \<Rightarrow> Some (FDone (-1), s)
          | Some wr \<Rightarrow> map_option (apfst FDone) (wr cur addr n s))
      | FD_INODE \<Rightarrow> do {
          (i, s) \<leftarrow> filewrite_loop cur f addr n 0 s;
          Some (FDone (if i = n then n else -1), s)
        }
      | FD_NONE \<Rightarrow> None))"

text \<open>The rest of a call that slept on a pipe.\<close>

fun file_wait :: "fresult \<Rightarrow> nat \<Rightarrow> fkstate \<Rightarrow> (fresult \<times> fkstate) option" where
  "file_wait (FDone v) cur s = Some (FDone v, s)"
| "file_wait (FReadSleeps pa addr n) cur s = do {
     (r, s) \<leftarrow> piperead_resume cur pa addr n s;
     Some (case r of Return v \<Rightarrow> FDone v | Blocked \<Rightarrow> FReadSleeps pa addr n, s)
   }"
| "file_wait (FWriteSleeps pa addr n i) cur s = do {
     (r, s) \<leftarrow> pipewrite_resume cur pa addr n i s;
     Some (case r of PwDone v \<Rightarrow> FDone v | PwSleep i \<Rightarrow> FWriteSleeps pa addr n i, s)
   }"

end
