(* ===== verification/Fs_Syscall.thy ===== *)
theory Fs_Syscall
  imports Fs_File Kern_Syscall
begin

unbundle bit_operations_syntax

text \<open>
  The file system calls, \<^verbatim>\<open>kernel/sysfile.c\<close>, apart from \<open>exec\<close>. A call yields the C result as an
  \<open>int\<close>; \<open>read\<close> and \<open>write\<close> yield a \<open>fresult\<close>, since a pipe may make them sleep. The
  jumps to a common exit are functions of their own.
\<close>

definition MAXPATH :: nat where "MAXPATH = 128"
definition O_RDONLY :: int where "O_RDONLY = 0"
definition O_WRONLY :: u32 where "O_WRONLY = 0x001"
definition O_RDWR :: u32 where "O_RDWR = 0x002"
definition O_CREATE :: u32 where "O_CREATE = 0x200"
definition O_TRUNC :: u32 where "O_TRUNC = 0x400"

subsection \<open>Descriptors\<close>

text \<open>The descriptor and the file of an argument, \<^const>\<open>None\<close> inside for the result -1.\<close>

definition argfd :: "nat \<Rightarrow> int \<Rightarrow> fkstate \<Rightarrow> (nat \<times> nat) option option" where
  "argfd cur n s = do {
     fd \<leftarrow> argint cur n s;
     Some (if fd < 0 \<or> fd \<ge> int NOFILE then None
           else map_option (\<lambda>f. (nat fd, f)) (ofile (proc s ! cur) ! nat fd))
   }"

definition set_ofile :: "nat \<Rightarrow> nat \<Rightarrow> nat option \<Rightarrow> fkstate \<Rightarrow> fkstate" where
  "set_ofile cur fd v = upd_p cur (\<lambda>p. p\<lparr>ofile := (ofile p)[fd := v]\<rparr>)"

definition fdalloc :: "nat \<Rightarrow> nat \<Rightarrow> fkstate \<Rightarrow> nat option \<times> fkstate" where
  "fdalloc cur f s =
     (case find (\<lambda>fd. ofile (proc s ! cur) ! fd = None) [0..<NOFILE] of
        Some fd \<Rightarrow> (Some fd, set_ofile cur fd (Some f) s)
      | None \<Rightarrow> (None, s))"

definition sys_dup :: "nat \<Rightarrow> fkstate \<Rightarrow> (int \<times> fkstate) option" where
  "sys_dup cur s = do {
     a \<leftarrow> argfd cur 0 s;
     (case a of
        None \<Rightarrow> Some (-1, s)
      | Some (_, f) \<Rightarrow>
          (case fdalloc cur f s of
             (None, s) \<Rightarrow> Some (-1, s)
           | (Some fd, s) \<Rightarrow> do { s \<leftarrow> filedup f s; Some (int fd, s) }))
   }"

definition sys_read :: "devsw \<Rightarrow> nat \<Rightarrow> fkstate \<Rightarrow> (fresult \<times> fkstate) option" where
  "sys_read dv cur s = do {
     p \<leftarrow> argaddr cur 1 s;
     n \<leftarrow> argint cur 2 s;
     a \<leftarrow> argfd cur 0 s;
     (case a of None \<Rightarrow> Some (FDone (-1), s) | Some (_, f) \<Rightarrow> fileread dv cur f p n s)
   }"

definition sys_write :: "devsw \<Rightarrow> nat \<Rightarrow> fkstate \<Rightarrow> (fresult \<times> fkstate) option" where
  "sys_write dv cur s = do {
     p \<leftarrow> argaddr cur 1 s;
     n \<leftarrow> argint cur 2 s;
     a \<leftarrow> argfd cur 0 s;
     (case a of None \<Rightarrow> Some (FDone (-1), s) | Some (_, f) \<Rightarrow> filewrite dv cur f p n s)
   }"

definition sys_close :: "nat \<Rightarrow> fkstate \<Rightarrow> (int \<times> fkstate) option" where
  "sys_close cur s = do {
     a \<leftarrow> argfd cur 0 s;
     (case a of
        None \<Rightarrow> Some (-1, s)
      | Some (fd, f) \<Rightarrow> do {
          s \<leftarrow> fileclose cur f (set_ofile cur fd None s);
          Some (0, s)
        })
   }"

definition sys_fstat :: "byte list \<Rightarrow> nat \<Rightarrow> fkstate \<Rightarrow> (int \<times> fkstate) option" where
  "sys_fstat pad cur s = do {
     st \<leftarrow> argaddr cur 1 s;
     a \<leftarrow> argfd cur 0 s;
     (case a of None \<Rightarrow> Some (-1, s) | Some (_, f) \<Rightarrow> filestat pad cur f st s)
   }"

subsection \<open>Links\<close>

text \<open>A path argument without its NUL, \<^const>\<open>None\<close> inside for the result -1.\<close>

definition argpath :: "nat \<Rightarrow> int \<Rightarrow> fkstate \<Rightarrow> byte list option option" where
  "argpath cur n s = do {
     (r, w) \<leftarrow> argstr cur n MAXPATH s;
     Some (if r < 0 then None else Some (take (nat r) w))
   }"

definition fail_op :: "nat \<Rightarrow> fkstate \<Rightarrow> (int \<times> fkstate) option" where
  "fail_op cur s = do { s \<leftarrow> end_op cur s; Some (-1, s) }"

definition put_fail_op :: "nat \<Rightarrow> nat \<Rightarrow> fkstate \<Rightarrow> (int \<times> fkstate) option" where
  "put_fail_op cur ip s = Option.bind (iunlockput cur ip s) (fail_op cur)"

definition add_link :: "nat \<Rightarrow> int \<Rightarrow> fkstate \<Rightarrow> fkstate" where
  "add_link ip d = upd_inode ip (\<lambda>x. x\<lparr>inlink := short_of (inlink x + d)\<rparr>)"

text \<open>The exit \<open>bad\<close> of \<open>sys_link\<close>.\<close>

definition link_undo :: "nat \<Rightarrow> nat \<Rightarrow> fkstate \<Rightarrow> (int \<times> fkstate) option" where
  "link_undo cur ip s = do {
     s \<leftarrow> ilock cur ip s;
     s \<leftarrow> iupdate cur ip (add_link ip (-1) s);
     put_fail_op cur ip s
   }"

definition sys_link :: "nat \<Rightarrow> fkstate \<Rightarrow> (int \<times> fkstate) option" where
  "sys_link cur s = do {
     old \<leftarrow> argpath cur 0 s;
     new \<leftarrow> (case old of None \<Rightarrow> Some None | Some _ \<Rightarrow> argpath cur 1 s);
     (case (old, new) of
        (Some old, Some new) \<Rightarrow> do {
          s \<leftarrow> take_op cur s;
          (r, s) \<leftarrow> namei cur old s;
          (case r of
             None \<Rightarrow> fail_op cur s
           | Some ip \<Rightarrow> do {
               s \<leftarrow> ilock cur ip s;
               if itype (inode_of s ip) = T_DIR then put_fail_op cur ip s
               else do {
                 s \<leftarrow> iupdate cur ip (add_link ip 1 s);
                 s \<leftarrow> iunlock cur ip s;
                 ((d, name), s) \<leftarrow> nameiparent cur new s;
                 (case d of
                    None \<Rightarrow> link_undo cur ip s
                  | Some dp \<Rightarrow> do {
                      s \<leftarrow> ilock cur dp s;
                      (e, s) \<leftarrow> (if idev (inode_of s dp) \<noteq> idev (inode_of s ip) then Some (-1, s)
                                else dirlink cur dp name (inum (inode_of s ip)) s);
                      s \<leftarrow> iunlockput cur dp s;
                      if e < 0 then link_undo cur ip s
                      else do {
                        s \<leftarrow> iput cur ip s;
                        s \<leftarrow> end_op cur s;
                        Some (0, s)
                      }
                    })
               }
             })
        }
      | _ \<Rightarrow> Some (-1, s))
   }"

fun isdirempty_from :: "nat \<Rightarrow> nat \<Rightarrow> nat list \<Rightarrow> fkstate \<Rightarrow> (bool \<times> fkstate) option" where
  "isdirempty_from cur dp [] s = Some (True, s)"
| "isdirempty_from cur dp (off # offs) s = do {
     (de, s) \<leftarrow> read_dirent cur dp off s;
     if de_inum de \<noteq> 0 then Some (False, s) else isdirempty_from cur dp offs s
   }"

definition isdirempty :: "nat \<Rightarrow> nat \<Rightarrow> fkstate \<Rightarrow> (bool \<times> fkstate) option" where
  "isdirempty cur dp s = isdirempty_from cur dp (drop 2 (dirent_offs (unat (isize (inode_of s dp))))) s"

abbreviation dot :: "byte list" where "dot \<equiv> [46]"
abbreviation dotdot :: "byte list" where "dotdot \<equiv> [46, 46]"

definition sys_unlink :: "nat \<Rightarrow> fkstate \<Rightarrow> (int \<times> fkstate) option" where
  "sys_unlink cur s = do {
     path \<leftarrow> argpath cur 0 s;
     (case path of
        None \<Rightarrow> Some (-1, s)
      | Some path \<Rightarrow> do {
          s \<leftarrow> take_op cur s;
          ((d, name), s) \<leftarrow> nameiparent cur path s;
          (case d of
             None \<Rightarrow> fail_op cur s
           | Some dp \<Rightarrow> do {
               s \<leftarrow> ilock cur dp s;
               if namecmp name dot = 0 \<or> namecmp name dotdot = 0 then put_fail_op cur dp s
               else do {
                 (r, s) \<leftarrow> dirlookup cur dp name s;
                 (case r of
                    None \<Rightarrow> put_fail_op cur dp s
                  | Some (ip, off) \<Rightarrow> do {
                      s \<leftarrow> ilock cur ip s;
                      if inlink (inode_of s ip) < 1 then None
                      else do {
                        (empt, s) \<leftarrow> (if itype (inode_of s ip) = T_DIR then isdirempty cur ip s else Some (True, s));
                        if \<not> empt then do {
                          s \<leftarrow> iunlockput cur ip s;
                          put_fail_op cur dp s
                        }
                        else do {
                          (w, s) \<leftarrow> writei cur dp (VarSrc (replicate 16 0)) (word_of_nat off) 16 s;
                          if w \<noteq> 16 then None
                          else do {
                            s \<leftarrow> (if itype (inode_of s ip) = T_DIR then iupdate cur dp (add_link dp (-1) s) else Some s);
                            s \<leftarrow> iunlockput cur dp s;
                            s \<leftarrow> iupdate cur ip (add_link ip (-1) s);
                            s \<leftarrow> iunlockput cur ip s;
                            s \<leftarrow> end_op cur s;
                            Some (0, s)
                          }
                        }
                      }
                    })
               }
             })
        })
   }"

subsection \<open>Creation\<close>

text \<open>The exit \<open>fail\<close> of \<open>create\<close>.\<close>

definition create_fail :: "nat \<Rightarrow> nat \<Rightarrow> nat \<Rightarrow> fkstate \<Rightarrow> (nat option \<times> fkstate) option" where
  "create_fail cur dp ip s = do {
     s \<leftarrow> iupdate cur ip (upd_inode ip (\<lambda>x. x\<lparr>inlink := 0\<rparr>) s);
     s \<leftarrow> iunlockput cur ip s;
     s \<leftarrow> iunlockput cur dp s;
     Some (None, s)
   }"

text \<open>The entries of a new directory for itself and its parent, in order, up to the first that fails.\<close>

definition link_dots :: "nat \<Rightarrow> nat \<Rightarrow> nat \<Rightarrow> fkstate \<Rightarrow> (int \<times> fkstate) option" where
  "link_dots cur dp ip s = do {
     (e, s) \<leftarrow> dirlink cur ip dot (inum (inode_of s ip)) s;
     if e < 0 then Some (e, s) else dirlink cur ip dotdot (inum (inode_of s dp)) s
   }"

definition create :: "nat \<Rightarrow> byte list \<Rightarrow> int \<Rightarrow> int \<Rightarrow> int \<Rightarrow> fkstate \<Rightarrow> (nat option \<times> fkstate) option" where
  "create cur path ty major minor s = do {
     ((d, name), s) \<leftarrow> nameiparent cur path s;
     (case d of
        None \<Rightarrow> Some (None, s)
      | Some dp \<Rightarrow> do {
          s \<leftarrow> ilock cur dp s;
          (r, s) \<leftarrow> dirlookup cur dp name s;
          (case r of
             Some (ip, _) \<Rightarrow> do {
               s \<leftarrow> iunlockput cur dp s;
               s \<leftarrow> ilock cur ip s;
               if ty = T_FILE \<and> (itype (inode_of s ip) = T_FILE \<or> itype (inode_of s ip) = T_DEVICE) then Some (Some ip, s)
               else do {
                 s \<leftarrow> iunlockput cur ip s;
                 Some (None, s)
               }
             }
           | None \<Rightarrow> do {
               (n, s) \<leftarrow> ialloc cur (idev (inode_of s dp)) ty s;
               (case n of
                  None \<Rightarrow> do { s \<leftarrow> iunlockput cur dp s; Some (None, s) }
                | Some ip \<Rightarrow> do {
                    s \<leftarrow> ilock cur ip s;
                    s \<leftarrow> iupdate cur ip (upd_inode ip (\<lambda>x. x\<lparr>imajor := major, iminor := minor, inlink := 1\<rparr>) s);
                    (e, s) \<leftarrow> (if ty = T_DIR then link_dots cur dp ip s else Some (0, s));
                    if e < 0 then create_fail cur dp ip s
                    else do {
                      (e, s) \<leftarrow> dirlink cur dp name (inum (inode_of s ip)) s;
                      if e < 0 then create_fail cur dp ip s
                      else do {
                        s \<leftarrow> (if ty = T_DIR then iupdate cur dp (add_link dp 1 s) else Some s);
                        s \<leftarrow> iunlockput cur dp s;
                        Some (Some ip, s)
                      }
                    }
                  })
             })
        })
   }"

text \<open>The file structure of \<open>open\<close>.\<close>

definition open_file :: "int \<Rightarrow> nat \<Rightarrow> inode \<Rightarrow> kfile \<Rightarrow> kfile" where
  "open_file omode ip x f =
     (let f = (if itype x = T_DEVICE then f\<lparr>fd_type := FD_DEVICE, fmajor := imajor x\<rparr> else f\<lparr>fd_type := FD_INODE, foff := 0\<rparr>);
          m = word_of_int omode :: u32 in
      f\<lparr>fip := ip, readable := (if m AND O_WRONLY = 0 then 1 else 0),
        fwritable := (if m AND O_WRONLY \<noteq> 0 \<or> m AND O_RDWR \<noteq> 0 then 1 else 0)\<rparr>)"

text \<open>\<open>sys_open\<close> from the point where the inode is locked.\<close>

definition open_inode :: "nat \<Rightarrow> int \<Rightarrow> nat \<Rightarrow> fkstate \<Rightarrow> (int \<times> fkstate) option" where
  "open_inode cur omode ip s =
     (if itype (inode_of s ip) = T_DEVICE \<and> (imajor (inode_of s ip) < 0 \<or> imajor (inode_of s ip) \<ge> NDEV) then put_fail_op cur ip s
      else do {
        (f, s) \<leftarrow> filealloc s;
        (case f of
           None \<Rightarrow> put_fail_op cur ip s
         | Some f \<Rightarrow>
             (case fdalloc cur f s of
                (None, s) \<Rightarrow> do {
                  s \<leftarrow> fileclose cur f s;
                  put_fail_op cur ip s
                }
              | (Some fd, s) \<Rightarrow> do {
                  let s = upd_file f (open_file omode ip (inode_of s ip)) s;
                  s \<leftarrow> (if word_of_int omode AND O_TRUNC \<noteq> 0 \<and> itype (inode_of s ip) = T_FILE then itrunc cur ip s else Some s);
                  s \<leftarrow> iunlock cur ip s;
                  s \<leftarrow> end_op cur s;
                  Some (int fd, s)
                }))
      })"

definition sys_open :: "nat \<Rightarrow> fkstate \<Rightarrow> (int \<times> fkstate) option" where
  "sys_open cur s = do {
     omode \<leftarrow> argint cur 1 s;
     path \<leftarrow> argpath cur 0 s;
     (case path of
        None \<Rightarrow> Some (-1, s)
      | Some path \<Rightarrow> do {
          s \<leftarrow> take_op cur s;
          if word_of_int omode AND O_CREATE \<noteq> 0 then do {
            (r, s) \<leftarrow> create cur path T_FILE 0 0 s;
            (case r of None \<Rightarrow> fail_op cur s | Some ip \<Rightarrow> open_inode cur omode ip s)
          }
          else do {
            (r, s) \<leftarrow> namei cur path s;
            (case r of
               None \<Rightarrow> fail_op cur s
             | Some ip \<Rightarrow> do {
                 s \<leftarrow> ilock cur ip s;
                 if itype (inode_of s ip) = T_DIR \<and> omode \<noteq> O_RDONLY then put_fail_op cur ip s
                 else open_inode cur omode ip s
               })
          }
        })
   }"

text \<open>\<open>mkdir\<close> and \<open>mknod\<close> after their arguments.\<close>

definition make_node :: "nat \<Rightarrow> byte list option \<Rightarrow> int \<Rightarrow> int \<Rightarrow> int \<Rightarrow> fkstate \<Rightarrow> (int \<times> fkstate) option" where
  "make_node cur path ty major minor s =
     (case path of
        None \<Rightarrow> fail_op cur s
      | Some path \<Rightarrow> do {
          (r, s) \<leftarrow> create cur path ty major minor s;
          (case r of
             None \<Rightarrow> fail_op cur s
           | Some ip \<Rightarrow> do {
               s \<leftarrow> iunlockput cur ip s;
               s \<leftarrow> end_op cur s;
               Some (0, s)
             })
        })"

definition sys_mkdir :: "nat \<Rightarrow> fkstate \<Rightarrow> (int \<times> fkstate) option" where
  "sys_mkdir cur s = do {
     s \<leftarrow> take_op cur s;
     path \<leftarrow> argpath cur 0 s;
     make_node cur path T_DIR 0 0 s
   }"

definition sys_mknod :: "nat \<Rightarrow> fkstate \<Rightarrow> (int \<times> fkstate) option" where
  "sys_mknod cur s = do {
     s \<leftarrow> take_op cur s;
     major \<leftarrow> argint cur 1 s;
     minor \<leftarrow> argint cur 2 s;
     path \<leftarrow> argpath cur 0 s;
     make_node cur path T_DEVICE (short_of major) (short_of minor) s
   }"

definition sys_chdir :: "nat \<Rightarrow> fkstate \<Rightarrow> (int \<times> fkstate) option" where
  "sys_chdir cur s = do {
     s \<leftarrow> take_op cur s;
     path \<leftarrow> argpath cur 0 s;
     (r, s) \<leftarrow> (case path of None \<Rightarrow> Some (None, s) | Some path \<Rightarrow> namei cur path s);
     (case r of
        None \<Rightarrow> fail_op cur s
      | Some ip \<Rightarrow> do {
          s \<leftarrow> ilock cur ip s;
          if itype (inode_of s ip) \<noteq> T_DIR then put_fail_op cur ip s
          else do {
            s \<leftarrow> iunlock cur ip s;
            s \<leftarrow> (case cwd (proc s ! cur) of None \<Rightarrow> None | Some c \<Rightarrow> iput cur c s);
            s \<leftarrow> end_op cur s;
            Some (0, upd_p cur (\<lambda>p. p\<lparr>cwd := Some ip\<rparr>) s)
          }
        })
   }"

subsection \<open>Pipes\<close>

definition close_ends :: "nat \<Rightarrow> nat \<Rightarrow> nat \<Rightarrow> fkstate \<Rightarrow> (int \<times> fkstate) option" where
  "close_ends cur r w s = do {
     s \<leftarrow> fileclose cur r s;
     s \<leftarrow> fileclose cur w s;
     Some (-1, s)
   }"

definition put_fd :: "nat \<Rightarrow> u64 \<Rightarrow> nat \<Rightarrow> fkstate \<Rightarrow> (int \<times> fkstate) option" where
  "put_fd cur addr fd s = do {
     let p = proc s ! cur;
     (e, m) \<leftarrow> copyout (sz p) (pagetable p) (pagetable p) addr (int_bytes (int fd)) (pm s);
     Some (e, s\<lparr>pm := m\<rparr>)
   }"

definition sys_pipe :: "nat \<Rightarrow> fkstate \<Rightarrow> (int \<times> fkstate) option" where
  "sys_pipe cur s = do {
     fdarray \<leftarrow> argaddr cur 0 s;
     (r, s) \<leftarrow> pipealloc cur s;
     (case r of
        None \<Rightarrow> Some (-1, s)
      | Some (re, we) \<Rightarrow>
          (case fdalloc cur re s of
             (None, s) \<Rightarrow> close_ends cur re we s
           | (Some fd0, s) \<Rightarrow>
               (case fdalloc cur we s of
                  (None, s) \<Rightarrow> close_ends cur re we (set_ofile cur fd0 None s)
                | (Some fd1, s) \<Rightarrow> do {
                    (e, s) \<leftarrow> put_fd cur fdarray fd0 s;
                    (e, s) \<leftarrow> (if e < 0 then Some (e, s) else put_fd cur (fdarray + 4) fd1 s);
                    if e < 0 then close_ends cur re we (set_ofile cur fd1 None (set_ofile cur fd0 None s))
                    else Some (0, s)
                  })))
   }"

end
