(* ===== verification/Fs_Exec.thy ===== *)
theory Fs_Exec
  imports Fs_Syscall
begin

unbundle bit_operations_syntax

text \<open>
  The program loader, \<^verbatim>\<open>kernel/exec.c\<close> with \<^verbatim>\<open>kernel/elf.h\<close>, and its system call in
  \<^verbatim>\<open>kernel/sysfile.c\<close>. The argument strings lie in pages of their own. Header fields are read at
  their offsets in the bytes of the file.
\<close>

definition ELF_MAGIC :: u32 where "ELF_MAGIC = 0x464C457F"
definition ELF_PROG_LOAD :: u32 where "ELF_PROG_LOAD = 1"
definition MAXARG :: nat where "MAXARG = 32"
definition USERSTACK :: u64 where "USERSTACK = 1"

definition get64 :: "nat \<Rightarrow> byte list \<Rightarrow> u64" where
  "get64 off bs = bytes_word (take 8 (drop off bs))"

record elfhdr =
  e_magic :: u32
  e_entry :: u64
  e_phoff :: u64
  e_phnum :: "16 word"

definition dec_elf :: "byte list \<Rightarrow> elfhdr" where
  "dec_elf bs = \<lparr>e_magic = get32 0 bs, e_entry = get64 24 bs, e_phoff = get64 32 bs, e_phnum = get16 28 bs\<rparr>"

record proghdr =
  p_type :: u32
  p_flags :: u32
  p_off :: u64
  p_vaddr :: u64
  p_filesz :: u64
  p_memsz :: u64

definition dec_ph :: "byte list \<Rightarrow> proghdr" where
  "dec_ph bs = \<lparr>p_type = get32 0 bs, p_flags = get32 1 bs, p_off = get64 8 bs, p_vaddr = get64 16 bs, p_filesz = get64 32 bs, p_memsz = get64 40 bs\<rparr>"

subsection \<open>Segments\<close>

definition flags2perm :: "u32 \<Rightarrow> u64" where
  "flags2perm flags =
     (let perm = (if flags AND 1 \<noteq> 0 then PTE_X else 0) in
      if flags AND 2 \<noteq> 0 then perm OR PTE_W else perm)"

text \<open>\<open>n\<close> bytes of an inode into a variable, \<^const>\<open>None\<close> inside when fewer can be read.\<close>

definition read_struct :: "nat \<Rightarrow> nat \<Rightarrow> u32 \<Rightarrow> nat \<Rightarrow> fkstate \<Rightarrow> (byte list option \<times> fkstate) option" where
  "read_struct cur ip off n s = do {
     (r, dst, s) \<leftarrow> readi cur ip (VarDst []) off (word_of_nat n) s;
     Some (if r \<noteq> int n then None else (case dst of VarDst bs \<Rightarrow> Some bs | _ \<Rightarrow> None), s)
   }"

text \<open>The loop of \<open>loadseg\<close> at the byte \<open>i\<close>, with \<open>left\<close> bytes to load.\<close>

function loadseg_from :: "nat \<Rightarrow> u64 \<Rightarrow> u64 \<Rightarrow> nat \<Rightarrow> u32 \<Rightarrow> nat \<Rightarrow> nat \<Rightarrow> fkstate \<Rightarrow> (int \<times> fkstate) option" where
  "loadseg_from cur pt va ip offset i left s =
     (if left = 0 then Some (0, s)
      else (let pa = walkaddr pt (va + word_of_nat i) (pm s) in
        if pa = 0 then None
        else (let n = min left 4096 in do {
          (r, _, s) \<leftarrow> readi cur ip (PageDst pa 0) (offset + word_of_nat i) (word_of_nat n) s;
          if r \<noteq> int n then Some (-1, s) else loadseg_from cur pt va ip offset (i + n) (left - n) s
        })))"
  by pat_completeness auto
termination
  by (relation "measure (\<lambda>(_, _, _, _, _, _, left, _). left)") auto

declare loadseg_from.simps [simp del]

definition loadseg :: "nat \<Rightarrow> u64 \<Rightarrow> u64 \<Rightarrow> nat \<Rightarrow> u32 \<Rightarrow> u32 \<Rightarrow> fkstate \<Rightarrow> (int \<times> fkstate) option" where
  "loadseg cur pt va ip offset n s = loadseg_from cur pt va ip offset 0 (unat n) s"

text \<open>The loop over the program headers, of which \<open>k\<close> are left: whether all were loaded, and the size of
  the image so far.\<close>

fun load_segments :: "nat \<Rightarrow> u64 \<Rightarrow> nat \<Rightarrow> u32 \<Rightarrow> nat \<Rightarrow> u64 \<Rightarrow> fkstate \<Rightarrow> ((bool \<times> u64) \<times> fkstate) option" where
  "load_segments cur pt ip off 0 n s = Some ((True, n), s)"
| "load_segments cur pt ip off (Suc k) n s = do {
     (r, s) \<leftarrow> read_struct cur ip off 56 s;
     (case r of
        None \<Rightarrow> Some ((False, n), s)
      | Some bs \<Rightarrow>
          (let ph = dec_ph bs in
           if p_type ph \<noteq> ELF_PROG_LOAD then load_segments cur pt ip (off + 56) k n s
           else if p_memsz ph < p_filesz ph \<or> p_vaddr ph + p_memsz ph < p_vaddr ph \<or> p_vaddr ph mod PGSIZE \<noteq> 0 then Some ((False, n), s)
           else do {
             (n1, m) \<leftarrow> uvmalloc pt n (p_vaddr ph + p_memsz ph) (flags2perm (p_flags ph)) (pm s);
             let s = s\<lparr>pm := m\<rparr>;
             if n1 = 0 then Some ((False, n), s)
             else do {
               (e, s) \<leftarrow> loadseg cur pt (p_vaddr ph) ip (ucast (p_off ph)) (ucast (p_filesz ph)) s;
               if e < 0 then Some ((False, n1), s) else load_segments cur pt ip (off + 56) k n1 s
             }
           }))
   }"

subsection \<open>The stack\<close>

text \<open>The argument strings, pushed one by one below \<open>spt\<close>; \<open>us\<close> are the addresses so far. The
  bytes of a string are those of its page up to the NUL.\<close>

fun push_args :: "nat \<Rightarrow> u64 \<Rightarrow> u64 \<Rightarrow> u64 list \<Rightarrow> u64 \<Rightarrow> u64 list \<Rightarrow> fkstate \<Rightarrow> ((u64 \<times> u64 list) option \<times> fkstate) option" where
  "push_args cur pt base [] spt us s = Some (Some (spt, us), s)"
| "push_args cur pt base (pg # pgs) spt us s =
     (if length us \<ge> MAXARG then Some (None, s)
      else do {
        n \<leftarrow> strlen (pages (pm s) pg) 0;
        let spt = spt - word_of_nat (n + 1);
        let spt = spt - spt mod 16;
        if spt < base then Some (None, s)
        else do {
          (e, m) \<leftarrow> copyout (sz (proc s ! cur)) (pagetable (proc s ! cur)) pt spt (map (pages (pm s) pg) [0..<Suc n]) (pm s);
          if e < 0 then Some (None, s\<lparr>pm := m\<rparr>) else push_args cur pt base pgs spt (us @ [spt]) (s\<lparr>pm := m\<rparr>)
        }
      })"

text \<open>The characters after the last slash.\<close>

definition prog_name :: "byte list \<Rightarrow> byte list" where
  "prog_name path = rev (takeWhile (\<lambda>c. c \<noteq> slash) (rev path))"

text \<open>\<open>safestrcpy\<close> into the 16 bytes of \<^verbatim>\<open>p->name\<close>.\<close>

definition name16 :: "byte list \<Rightarrow> string" where
  "name16 bs = map (\<lambda>b. char_of (unat b)) (take 15 bs)"

subsection \<open>Exec\<close>

text \<open>The exit \<open>bad\<close>: the new page table and the inode, where there are any.\<close>

definition exec_bad :: "nat \<Rightarrow> u64 \<Rightarrow> u64 \<Rightarrow> nat option \<Rightarrow> fkstate \<Rightarrow> (int \<times> fkstate) option" where
  "exec_bad cur pt n ip s = do {
     s \<leftarrow> (if pt \<noteq> 0 then map_option (\<lambda>m. s\<lparr>pm := m\<rparr>) (proc_freepagetable pt n (pm s)) else Some s);
     (case ip of None \<Rightarrow> Some (-1, s) | Some ip \<Rightarrow> put_fail_op cur ip s)
   }"

text \<open>From the stack to the new image.\<close>

definition exec_image :: "nat \<Rightarrow> byte list \<Rightarrow> u64 list \<Rightarrow> elfhdr \<Rightarrow> u64 \<Rightarrow> u64 \<Rightarrow> fkstate \<Rightarrow> (int \<times> fkstate) option" where
  "exec_image cur path argv elf pt n s =
     (let oldsz = sz (proc s ! cur); n = PGROUNDUP n in do {
        (n1, m) \<leftarrow> uvmalloc pt n (n + (USERSTACK + 1) * PGSIZE) PTE_W (pm s);
        let s = s\<lparr>pm := m\<rparr>;
        if n1 = 0 then exec_bad cur pt n None s
        else do {
          m \<leftarrow> uvmclear pt (n1 - (USERSTACK + 1) * PGSIZE) (pm s);
          let base = n1 - USERSTACK * PGSIZE;
          (r, s) \<leftarrow> push_args cur pt base argv n1 [] (s\<lparr>pm := m\<rparr>);
          (case r of
             None \<Rightarrow> exec_bad cur pt n1 None s
           | Some (spt, us) \<Rightarrow> do {
               let argc = length us;
               let spt = spt - (word_of_nat argc + 1) * 8;
               let spt = spt - spt mod 16;
               if spt < base then exec_bad cur pt n1 None s
               else do {
                 (e, m) \<leftarrow> copyout (sz (proc s ! cur)) (pagetable (proc s ! cur)) pt spt (concat (map quad_bytes (us @ [0]))) (pm s);
                 let s = s\<lparr>pm := m\<rparr>;
                 if e < 0 then exec_bad cur pt n1 None s
                 else do {
                   let oldpt = pagetable (proc s ! cur);
                   let s = upd_p cur (\<lambda>p. p\<lparr>pname := name16 (prog_name path), pagetable := pt, sz := n1,
                     tf := (tf p)\<lparr>a1 := spt, epc := e_entry elf, sp := spt\<rparr>\<rparr>) s;
                   m \<leftarrow> proc_freepagetable oldpt oldsz (pm s);
                   Some (int argc, s\<lparr>pm := m\<rparr>)
                 }
               }
             })
        }
      })"

definition kexec :: "nat \<Rightarrow> byte list \<Rightarrow> u64 list \<Rightarrow> fkstate \<Rightarrow> (int \<times> fkstate) option" where
  "kexec cur path argv s = do {
     s \<leftarrow> take_op cur s;
     (r, s) \<leftarrow> namei cur path s;
     (case r of
        None \<Rightarrow> fail_op cur s
      | Some ip \<Rightarrow> do {
          s \<leftarrow> ilock cur ip s;
          (h, s) \<leftarrow> read_struct cur ip 0 64 s;
          (case h of
             None \<Rightarrow> exec_bad cur 0 0 (Some ip) s
           | Some bs \<Rightarrow> do {
               let elf = dec_elf bs;
               if e_magic elf \<noteq> ELF_MAGIC then exec_bad cur 0 0 (Some ip) s
               else do {
                 (pt, m) \<leftarrow> proc_pagetable (trampoline (syms s)) (trapframe_pa (proc s ! cur)) (pm s);
                 let s = s\<lparr>pm := m\<rparr>;
                 if pt = 0 then exec_bad cur 0 0 (Some ip) s
                 else do {
                   ((ok, n), s) \<leftarrow> load_segments cur pt ip (ucast (e_phoff elf)) (unat (e_phnum elf)) 0 s;
                   if \<not> ok then exec_bad cur pt n (Some ip) s
                   else do {
                     s \<leftarrow> iunlockput cur ip s;
                     s \<leftarrow> end_op cur s;
                     exec_image cur path argv elf pt n s
                   }
                 }
               }
             })
        })
   }"

text \<open>The loop of \<open>sys_exec\<close> with \<open>k\<close> entries of \<open>argv\<close> left: whether the null pointer was
  reached, and the pages allocated.\<close>

fun exec_args :: "nat \<Rightarrow> u64 \<Rightarrow> nat \<Rightarrow> u64 list \<Rightarrow> fkstate \<Rightarrow> ((bool \<times> u64 list) \<times> fkstate) option" where
  "exec_args cur uargv 0 pgs s = Some ((False, pgs), s)"
| "exec_args cur uargv (Suc k) pgs s = do {
     (r, s) \<leftarrow> fetchaddr cur (uargv + 8 * word_of_nat (length pgs)) s;
     (case r of
        None \<Rightarrow> Some ((False, pgs), s)
      | Some uarg \<Rightarrow>
          if uarg = 0 then Some ((True, pgs), s)
          else (let (pg, m) = kalloc (pm s); s = s\<lparr>pm := m\<rparr> in
            if pg = 0 then Some ((False, pgs), s)
            else do {
              (e, w) \<leftarrow> fetchstr cur uarg 4096 s;
              let s = s\<lparr>pm := write_page pg 0 w (pm s)\<rparr>;
              if e < 0 then Some ((False, pgs @ [pg]), s) else exec_args cur uargv k (pgs @ [pg]) s
            }))
   }"

fun free_pages :: "u64 list \<Rightarrow> fkstate \<Rightarrow> fkstate option" where
  "free_pages [] s = Some s"
| "free_pages (pg # pgs) s = do {
     m \<leftarrow> kfree pg (pm s);
     free_pages pgs (s\<lparr>pm := m\<rparr>)
   }"

definition sys_exec :: "nat \<Rightarrow> fkstate \<Rightarrow> (int \<times> fkstate) option" where
  "sys_exec cur s = do {
     uargv \<leftarrow> argaddr cur 1 s;
     path \<leftarrow> argpath cur 0 s;
     (case path of
        None \<Rightarrow> Some (-1, s)
      | Some path \<Rightarrow> do {
          ((ok, pgs), s) \<leftarrow> exec_args cur uargv MAXARG [] s;
          (r, s) \<leftarrow> (if ok then kexec cur path pgs s else Some (-1, s));
          s \<leftarrow> free_pages pgs s;
          Some (r, s)
        })
   }"

end
