(* ===== verification/Dev_Print.thy ===== *)
theory Dev_Print
  imports "HOL-Library.Word" "HOL-Library.Monad_Syntax"
begin

text \<open>
  Numbers and formats as the bytes they print: \<^verbatim>\<open>kernel/printf.c\<close>, whose number printing and table of
  directives \<^verbatim>\<open>user/printf.c\<close> shares, with digits of its own (the argument \<open>ds\<close>) and its own way to print
  a character (\<open>ch\<close>). \<open>printint\<close> fills its buffer from the least digit and prints it backwards. \<open>format\<close> runs
  over the format string and the arguments; an argument that is missing or has another type, which C leaves
  undefined, is \<^const>\<open>None\<close>. The lock of \<open>printf\<close> only keeps the output of two calls apart.
\<close>

type_synonym printed = "8 word list"

definition text_bytes :: "string \<Rightarrow> printed" where
  "text_bytes cs = map of_char cs"

subsection \<open>Numbers\<close>

definition digits :: printed where
  "digits = text_bytes ''0123456789abcdef''"

text \<open>The loop \<^verbatim>\<open>do buf[i++] = digits[x % base]; while((x /= base) != 0)\<close>.\<close>

function digit_loop :: "printed \<Rightarrow> nat \<Rightarrow> nat \<Rightarrow> printed" where
  "digit_loop ds b x = ds ! (x mod b) # (if b < 2 \<or> x div b = 0 then [] else digit_loop ds b (x div b))"
  by pat_completeness auto
termination
  by (relation "measure (\<lambda>(_, _, x). x)") (auto simp: div_less_dividend intro!: div_less_dividend gr0I)

declare digit_loop.simps [simp del]

text \<open>The argument is the value of the \<^verbatim>\<open>long long\<close>; its negation wraps.\<close>

definition printint_buf :: "printed \<Rightarrow> int \<Rightarrow> nat \<Rightarrow> bool \<Rightarrow> printed" where
  "printint_buf ds xx b sg =
     (let neg = (sg \<and> xx < 0);
          x = word_of_int (if neg then - xx else xx) :: 64 word in
      digit_loop ds b (unat x) @ (if neg then [45] else []))"

definition printint :: "printed \<Rightarrow> int \<Rightarrow> nat \<Rightarrow> bool \<Rightarrow> printed" where
  "printint ds xx b sg = rev (printint_buf ds xx b sg)"

text \<open>The top four bits, sixteen times.\<close>

fun ptr_loop :: "printed \<Rightarrow> nat \<Rightarrow> 64 word \<Rightarrow> printed" where
  "ptr_loop ds 0 x = []"
| "ptr_loop ds (Suc k) x = ds ! unat (drop_bit 60 x) # ptr_loop ds k (push_bit 4 x)"

definition printptr :: "printed \<Rightarrow> 64 word \<Rightarrow> printed" where
  "printptr ds x = text_bytes ''0x'' @ ptr_loop ds 16 x"

subsection \<open>Formats\<close>

text \<open>What a directive prints; a number has its size in bits, its base and whether it is signed.\<close>

datatype conv = CvInt nat nat bool | CvPtr | CvChar | CvStr | CvPercent | CvUnknown

text \<open>The chain of tests on the three characters after a percent sign: the directive and the characters it
  takes besides the first.\<close>

definition directive :: "8 word \<Rightarrow> 8 word \<Rightarrow> 8 word \<Rightarrow> conv \<times> nat" where
  "directive c0 c1 c2 =
     (let d = of_char CHR ''d''; l = of_char CHR ''l''; u = of_char CHR ''u''; x = of_char CHR ''x'' in
      if c0 = d then (CvInt 32 10 True, 0)
      else if c0 = l \<and> c1 = d then (CvInt 64 10 True, 1)
      else if c0 = l \<and> c1 = l \<and> c2 = d then (CvInt 64 10 True, 2)
      else if c0 = u then (CvInt 32 10 False, 0)
      else if c0 = l \<and> c1 = u then (CvInt 64 10 False, 1)
      else if c0 = l \<and> c1 = l \<and> c2 = u then (CvInt 64 10 False, 2)
      else if c0 = x then (CvInt 32 16 False, 0)
      else if c0 = l \<and> c1 = x then (CvInt 64 16 False, 1)
      else if c0 = l \<and> c1 = l \<and> c2 = x then (CvInt 64 16 False, 2)
      else if c0 = of_char CHR ''p'' then (CvPtr, 0)
      else if c0 = of_char CHR ''c'' then (CvChar, 0)
      else if c0 = of_char CHR ''s'' then (CvStr, 0)
      else if c0 = of_char CHR ''%'' then (CvPercent, 0)
      else (CvUnknown, 0))"

text \<open>An argument: a register, or the string a pointer leads to, \<^const>\<open>None\<close> for the null pointer.\<close>

datatype parg = RegArg "64 word" | StrArg "printed option"

text \<open>The value \<open>va_arg\<close> gives to \<open>printint\<close>, converted to \<^verbatim>\<open>long long\<close>.\<close>

definition int_arg :: "nat \<Rightarrow> bool \<Rightarrow> 64 word \<Rightarrow> int" where
  "int_arg w sg x = (if w = 32 then (if sg then sint (ucast x :: 32 word) else uint (ucast x :: 32 word)) else sint x)"

fun print_conv :: "printed \<Rightarrow> (64 word \<Rightarrow> printed) \<Rightarrow> conv \<Rightarrow> 8 word \<Rightarrow> parg list \<Rightarrow> (printed \<times> parg list) option" where
  "print_conv ds ch (CvInt w b sg) c (RegArg x # ps) = Some (printint ds (int_arg w sg x) b sg, ps)"
| "print_conv ds ch CvPtr c (RegArg x # ps) = Some (printptr ds x, ps)"
| "print_conv ds ch CvChar c (RegArg x # ps) = Some (ch x, ps)"
| "print_conv ds ch CvStr c (StrArg (Some t) # ps) = Some (t, ps)"
| "print_conv ds ch CvStr c (StrArg None # ps) = Some (text_bytes ''(null)'', ps)"
| "print_conv ds ch CvPercent c ps = Some ([37], ps)"
| "print_conv ds ch CvUnknown c ps = Some ([37, c], ps)"
| "print_conv _ _ _ _ _ = None"

text \<open>The character at an offset, 0 past the end.\<close>

definition char_at :: "printed \<Rightarrow> nat \<Rightarrow> 8 word" where
  "char_at f k = (if k < length f then f ! k else 0)"

function format :: "printed \<Rightarrow> (64 word \<Rightarrow> printed) \<Rightarrow> printed \<Rightarrow> parg list \<Rightarrow> printed option" where
  "format ds ch [] ps = Some []"
| "format ds ch (c # f) ps =
     (if c \<noteq> 37 then map_option (\<lambda>out. c # out) (format ds ch f ps)
      else if f = [] then Some []
      else (let (cv, k) = directive (char_at f 0) (char_at f 1) (char_at f 2) in do {
        (out, ps) \<leftarrow> print_conv ds ch cv (char_at f 0) ps;
        rest \<leftarrow> format ds ch (drop (Suc k) f) ps;
        Some (out @ rest)
      }))"
  by pat_completeness auto
termination
  by (relation "measure (\<lambda>(_, _, f, _). length f)") auto

text \<open>\<open>consputc\<close> of a character argument takes 0x100 for a backspace.\<close>

definition char_arg :: "64 word \<Rightarrow> printed" where
  "char_arg x = (if (ucast x :: 32 word) = 0x100 then [8, 32, 8] else [ucast x])"

definition printf :: "string \<Rightarrow> parg list \<Rightarrow> printed option" where
  "printf fmt ps = format digits char_arg (text_bytes fmt) ps"

subsection \<open>Facts\<close>

lemma digit_loop_length:
  assumes "2 \<le> b" "x < b ^ Suc k"
  shows "length (digit_loop ds b x) \<le> Suc k"
  using assms(2)
proof (induction k arbitrary: x)
  case 0
  then show ?case by (subst digit_loop.simps) simp
next
  case (Suc k)
  have "x div b < b ^ Suc k" using Suc.prems assms(1) by (simp add: less_mult_imp_div_less mult.commute)
  then have "length (digit_loop ds b (x div b)) \<le> Suc k" by (rule Suc.IH)
  then show ?case by (subst digit_loop.simps) simp
qed

text \<open>The value of digits, the least first.\<close>

fun digit_sum :: "nat \<Rightarrow> nat list \<Rightarrow> nat" where
  "digit_sum b [] = 0"
| "digit_sum b (d # ds) = d + b * digit_sum b ds"

lemma digit_loop_value:
  assumes "2 \<le> b"
  shows "\<exists>vs. digit_loop ds b x = map ((!) ds) vs \<and> (\<forall>d \<in> set vs. d < b) \<and> digit_sum b vs = x \<and> vs \<noteq> []"
  using assms
proof (induction ds b x rule: digit_loop.induct)
  case (1 ds b x)
  note assms = 1(2)
  show ?case
  proof (cases "b < 2 \<or> x div b = 0")
    case True
    then have "x < b" using assms by (simp add: div_eq_0_iff)
    then have "digit_loop ds b x = [ds ! x]" by (subst digit_loop.simps) simp
    then show ?thesis using \<open>x < b\<close> by (intro exI [of _ "[x]"]) simp
  next
    case False
    then obtain vs where "digit_loop ds b (x div b) = map ((!) ds) vs" "\<forall>d \<in> set vs. d < b" "digit_sum b vs = x div b"
      using 1(1) [OF False assms] by metis
    then show ?thesis using False by (intro exI [of _ "x mod b # vs"]) (subst digit_loop.simps, simp)
  qed
qed

text \<open>The buffer of 20 bytes is enough.\<close>

lemma printint_buf_fits:
  assumes "b = 10 \<or> b = 16" "- (2 ^ 63) \<le> xx" "xx < 2 ^ 63"
  shows "length (printint_buf ds xx b sg) \<le> 20"
proof (cases "sg \<and> xx < 0")
  case True
  then have "uint (word_of_int (- xx) :: 64 word) = - xx" using assms by (simp add: uint_word_of_int del: word_of_int_minus of_int_minus)
  then have "unat (word_of_int (- xx) :: 64 word) < 10 ^ Suc 18" using assms by (simp add: unat_eq_nat_uint)
  moreover have "(10 :: nat) ^ Suc 18 \<le> b ^ Suc 18" using assms(1) by (intro power_mono) auto
  ultimately have "unat (word_of_int (- xx) :: 64 word) < b ^ Suc 18" by (rule less_le_trans)
  then have "length (digit_loop ds b (unat (word_of_int (- xx) :: 64 word))) \<le> Suc 18"
    using assms(1) by (intro digit_loop_length) auto
  then show ?thesis using True by (simp add: printint_buf_def)
next
  case False
  have "unat x < 10 ^ Suc 19" for x :: "64 word" using unsigned_less [of x, where ?'a = nat] by simp
  moreover have "(10 :: nat) ^ Suc 19 \<le> b ^ Suc 19" using assms(1) by (intro power_mono) auto
  ultimately have "unat (x :: 64 word) < b ^ Suc 19" for x by (meson less_le_trans)
  then have "length (digit_loop ds b (unat (x :: 64 word))) \<le> 20" for x
    using digit_loop_length [of b "unat x" 19 ds] assms(1) by auto
  then show ?thesis using False by (auto simp: printint_buf_def)
qed

end
