(* ===== verification/Dev_Console.thy ===== *)
theory Dev_Console
  imports Fs_File Dev_Print Kern_Trap
begin

text \<open>
  The console, \<^verbatim>\<open>kernel/console.c\<close>, over the serial port, \<^verbatim>\<open>kernel/uart.c\<close>: input is edited a line at a
  time, \<open>consoleread\<close> hands out whole lines. The port's registers are its contract: a byte that is written is
  transmitted, the transmitter becomes idle again, and an interrupt delivers the bytes that have come in. A call
  that sleeps yields where it stands, for its resume function.
\<close>

definition INPUT_BUF_SIZE :: nat where "INPUT_BUF_SIZE = 128"
definition CONSOLE :: int where "CONSOLE = 1"
definition BACKSPACE :: int where "BACKSPACE = 0x100"
definition ConsLock :: lockid where "ConsLock = OtherLock 18"
definition TxLock :: lockid where "TxLock = OtherLock 22"
definition ChCons :: channel where "ChCons = ChOther 6"
definition ChTx :: channel where "ChTx = ChOther 10"

abbreviation cons_of :: "fkstate \<Rightarrow> console" where
  "cons_of s \<equiv> cons (fs s)"

definition upd_cons :: "(console \<Rightarrow> console) \<Rightarrow> fkstate \<Rightarrow> fkstate" where
  "upd_cons f = upd_fs (\<lambda>v. v\<lparr>cons := f (cons v)\<rparr>)"

subsection \<open>The serial port\<close>

definition uartputc_sync :: "byte \<Rightarrow> fkstate \<Rightarrow> fkstate" where
  "uartputc_sync c = upd_fs (\<lambda>v. v\<lparr>tx_out := tx_out v @ [c]\<rparr>)"

datatype uwrite = TxDone | TxSleep "byte list"

text \<open>The loop of \<open>uartwrite\<close> over the bytes that are left.\<close>

fun uartwrite_loop :: "nat \<Rightarrow> byte list \<Rightarrow> fkstate \<Rightarrow> (uwrite \<times> fkstate) option" where
  "uartwrite_loop cur [] s = do { s \<leftarrow> k_release TxLock s; Some (TxDone, s) }"
| "uartwrite_loop cur (b # bs) s =
     (if tx_busy (fs s) \<noteq> 0 then do { s \<leftarrow> sleep cur ChTx TxLock s; Some (TxSleep (b # bs), s) }
      else uartwrite_loop cur bs (upd_fs (\<lambda>v. v\<lparr>tx_out := tx_out v @ [b], tx_busy := 1\<rparr>) s))"

definition uartwrite :: "nat \<Rightarrow> byte list \<Rightarrow> fkstate \<Rightarrow> (uwrite \<times> fkstate) option" where
  "uartwrite cur bs s = Option.bind (k_acquire TxLock s) (uartwrite_loop cur bs)"

definition uartwrite_resume :: "nat \<Rightarrow> byte list \<Rightarrow> fkstate \<Rightarrow> (uwrite \<times> fkstate) option" where
  "uartwrite_resume cur bs s = Option.bind (sleep_resume cur TxLock s) (uartwrite_loop cur bs)"

definition consputc :: "int \<Rightarrow> fkstate \<Rightarrow> fkstate" where
  "consputc c s = (if c = BACKSPACE then fold uartputc_sync [8, 32, 8] s else uartputc_sync (word_of_int c) s)"

text \<open>\<open>printf\<close> to the console.\<close>

definition kprintf :: "string \<Rightarrow> parg list \<Rightarrow> fkstate \<Rightarrow> fkstate option" where
  "kprintf fmt ps s = map_option (\<lambda>out. fold (\<lambda>c. consputc (uint c)) out s) (printf fmt ps)"

text \<open>The printing of \<open>procdump\<close>, line by line.\<close>

fun dump_lines :: "(int \<times> string \<times> string) list \<Rightarrow> fkstate \<Rightarrow> fkstate option" where
  "dump_lines [] s = Some s"
| "dump_lines ((p, st, nm) # ls) s = do {
     s \<leftarrow> kprintf ''%d %s %s'' [RegArg (word_of_int p), StrArg (Some (text_bytes st)), StrArg (Some (text_bytes nm))] s;
     s \<leftarrow> kprintf [CHR 0x0A] [] s;
     dump_lines ls s
   }"

definition print_procs :: "fkstate \<Rightarrow> fkstate option" where
  "print_procs s = do {
     s \<leftarrow> kprintf [CHR 0x0A] [] s;
     dump_lines (procdump s) s
   }"

subsection \<open>Writing\<close>

text \<open>The position \<open>i\<close> a write has reached; one that sleeps also has the rest of its batch.\<close>

datatype cwrite = CwDone int | CwSleep "byte list" ksrc int

function consolewrite_loop :: "nat \<Rightarrow> ksrc \<Rightarrow> int \<Rightarrow> int \<Rightarrow> fkstate \<Rightarrow> (cwrite \<times> fkstate) option" where
  "consolewrite_loop cur src n i s =
     (if i < n then do {
        let nn = min 32 (n - i);
        (bs, e, src, s) \<leftarrow> either_copyin cur src (nat nn) s;
        if e = -1 then Some (CwDone i, s)
        else do {
          (r, s) \<leftarrow> uartwrite cur bs s;
          (case r of
             TxDone \<Rightarrow> consolewrite_loop cur src n (i + nn) s
           | TxSleep left \<Rightarrow> Some (CwSleep left src (i + nn), s))
        }
      }
      else Some (CwDone i, s))"
  by pat_completeness auto
termination
  by (relation "measure (\<lambda>(_, _, n, i, _). nat (n - i))") auto

declare consolewrite_loop.simps [simp del]

definition consolewrite :: "nat \<Rightarrow> ksrc \<Rightarrow> int \<Rightarrow> fkstate \<Rightarrow> (cwrite \<times> fkstate) option" where
  "consolewrite cur src n s = consolewrite_loop cur src n 0 s"

definition consolewrite_resume :: "nat \<Rightarrow> byte list \<Rightarrow> ksrc \<Rightarrow> int \<Rightarrow> int \<Rightarrow> fkstate \<Rightarrow> (cwrite \<times> fkstate) option" where
  "consolewrite_resume cur left src n i s = do {
     (r, s) \<leftarrow> uartwrite_resume cur left s;
     (case r of
        TxDone \<Rightarrow> consolewrite_loop cur src n i s
      | TxSleep left \<Rightarrow> Some (CwSleep left src i, s))
   }"

subsection \<open>Reading\<close>

text \<open>The target and the count left of a read that sleeps.\<close>

datatype cread = CrDone int | CrSleep kdest int

definition read_end :: "int \<Rightarrow> int \<Rightarrow> fkstate \<Rightarrow> (cread \<times> fkstate) option" where
  "read_end target n s = do { s \<leftarrow> k_release ConsLock s; Some (CrDone (target - n), s) }"

function consoleread_loop :: "nat \<Rightarrow> kdest \<Rightarrow> int \<Rightarrow> int \<Rightarrow> fkstate \<Rightarrow> (cread \<times> fkstate) option" where
  "consoleread_loop cur dst target n s =
     (if n > 0 then
        if c_r (cons_of s) = c_w (cons_of s) then do {
          (k, s) \<leftarrow> is_killed cur s;
          if k \<noteq> 0 then do { s \<leftarrow> k_release ConsLock s; Some (CrDone (-1), s) }
          else do { s \<leftarrow> sleep cur ChCons ConsLock s; Some (CrSleep dst n, s) }
        }
        else do {
          let c = cbuf (cons_of s) ! (unat (c_r (cons_of s)) mod INPUT_BUF_SIZE);
          let s = upd_cons (\<lambda>x. x\<lparr>c_r := c_r x + 1\<rparr>) s;
          if c = 4 then read_end target n (if n < target then upd_cons (\<lambda>x. x\<lparr>c_r := c_r x - 1\<rparr>) s else s)
          else do {
            (e, dst, s) \<leftarrow> either_copyout cur dst [c] s;
            if e = -1 then read_end target n s
            else if c = 10 then read_end target (n - 1) s
            else consoleread_loop cur dst target (n - 1) s
          }
        }
      else read_end target n s)"
  by pat_completeness auto
termination
  by (relation "measure (\<lambda>(_, _, _, n, _). nat n)") auto

declare consoleread_loop.simps [simp del]

definition consoleread :: "nat \<Rightarrow> kdest \<Rightarrow> int \<Rightarrow> fkstate \<Rightarrow> (cread \<times> fkstate) option" where
  "consoleread cur dst n s = Option.bind (k_acquire ConsLock s) (consoleread_loop cur dst n n)"

definition consoleread_resume :: "nat \<Rightarrow> kdest \<Rightarrow> int \<Rightarrow> int \<Rightarrow> fkstate \<Rightarrow> (cread \<times> fkstate) option" where
  "consoleread_resume cur dst target n s = Option.bind (sleep_resume cur ConsLock s) (consoleread_loop cur dst target n)"

text \<open>The console in the table of devices; a call that would sleep is \<^const>\<open>None\<close> there.\<close>

definition console_devsw :: devsw where
  "console_devsw =
     \<lparr>dev_read = (\<lambda>m. if m = CONSOLE then Some (\<lambda>cur addr n s. Option.bind (consoleread cur (UserDst addr) n s)
        (\<lambda>(r, s). case r of CrDone v \<Rightarrow> Some (v, s) | CrSleep _ _ \<Rightarrow> None)) else None),
      dev_write = (\<lambda>m. if m = CONSOLE then Some (\<lambda>cur addr n s. Option.bind (consolewrite cur (UserSrc addr) n s)
        (\<lambda>(r, s). case r of CwDone v \<Rightarrow> Some (v, s) | CwSleep _ _ _ \<Rightarrow> None)) else None)\<rparr>"

subsection \<open>Input\<close>

definition edit_char :: "console \<Rightarrow> byte" where
  "edit_char c = cbuf c ! (unat (c_e c - 1) mod INPUT_BUF_SIZE)"

text \<open>The loop for control-u.\<close>

function kill_line :: "fkstate \<Rightarrow> fkstate" where
  "kill_line s =
     (if c_e (cons_of s) \<noteq> c_w (cons_of s) \<and> edit_char (cons_of s) \<noteq> 10
      then kill_line (consputc BACKSPACE (upd_cons (\<lambda>x. x\<lparr>c_e := c_e x - 1\<rparr>) s))
      else s)"
  by pat_completeness auto

lemma cons_consputc [simp]: "cons (fs (consputc c s)) = cons (fs s)"
  by (simp add: consputc_def uartputc_sync_def)

lemma cons_upd_cons [simp]: "cons (fs (upd_cons f s)) = f (cons (fs s))"
  by (simp add: upd_cons_def)

termination kill_line
proof (relation "measure (\<lambda>s. unat (c_e (cons_of s) - c_w (cons_of s)))")
  fix s :: fkstate
  assume "c_e (cons_of s) \<noteq> c_w (cons_of s) \<and> edit_char (cons_of s) \<noteq> 10"
  then have "c_e (cons_of s) - c_w (cons_of s) \<noteq> 0" by simp
  then have "unat (c_e (cons_of s) - c_w (cons_of s) - 1) < unat (c_e (cons_of s) - c_w (cons_of s))"
    by (simp add: unat_minus_one unat_gt_0)
  then show "(consputc BACKSPACE (upd_cons (\<lambda>x. x\<lparr>c_e := c_e x - 1\<rparr>) s), s) \<in> measure (\<lambda>s. unat (c_e (cons_of s) - c_w (cons_of s)))"
    by (simp add: diff_diff_eq add.commute)
qed simp

declare kill_line.simps [simp del]

definition store_char :: "byte \<Rightarrow> console \<Rightarrow> console" where
  "store_char c x = x\<lparr>cbuf := (cbuf x)[unat (c_e x) mod INPUT_BUF_SIZE := c], c_e := c_e x + 1\<rparr>"

definition input_full :: "console \<Rightarrow> bool" where
  "input_full x \<longleftrightarrow> c_e x - c_r x = word_of_nat INPUT_BUF_SIZE"

text \<open>One input character; \<open>cur\<close> is the process the interrupt stopped, if any.\<close>

definition consoleintr :: "nat option \<Rightarrow> byte \<Rightarrow> fkstate \<Rightarrow> fkstate option" where
  "consoleintr cur c s = do {
     s \<leftarrow> k_acquire ConsLock s;
     s \<leftarrow> (if c = 16 then print_procs s
           else if c = 21 then Some (kill_line s)
           else if c = 8 \<or> c = 0x7f then
             Some (if c_e (cons_of s) \<noteq> c_w (cons_of s) then consputc BACKSPACE (upd_cons (\<lambda>x. x\<lparr>c_e := c_e x - 1\<rparr>) s) else s)
           else if c \<noteq> 0 \<and> c_e (cons_of s) - c_r (cons_of s) < word_of_nat INPUT_BUF_SIZE then do {
             let c = (if c = 13 then 10 else c);
             let s = upd_cons (store_char c) (consputc (uint c) s);
             if c = 10 \<or> c = 4 \<or> input_full (cons_of s)
             then wakeup cur ChCons (upd_cons (\<lambda>x. x\<lparr>c_w := c_e x\<rparr>) s)
             else Some s
           }
           else Some s);
     k_release ConsLock s
   }"

text \<open>An interrupt of the port: whether the transmitter is idle, and the bytes that have come in.\<close>

fun console_input :: "nat option \<Rightarrow> byte list \<Rightarrow> fkstate \<Rightarrow> fkstate option" where
  "console_input cur [] s = Some s"
| "console_input cur (c # cs) s = Option.bind (consoleintr cur c s) (console_input cur cs)"

definition uartintr :: "nat option \<Rightarrow> bool \<Rightarrow> byte list \<Rightarrow> fkstate \<Rightarrow> fkstate option" where
  "uartintr cur idle cs s = do {
     s \<leftarrow> k_acquire TxLock s;
     s \<leftarrow> (if idle then wakeup cur ChTx (upd_fs (\<lambda>v. v\<lparr>tx_busy := 0\<rparr>) s) else Some s);
     s \<leftarrow> k_release TxLock s;
     console_input cur cs s
   }"

end
