(* ===== verification/Dev_Console_Props.thy ===== *)
theory Dev_Console_Props
  imports Dev_Console Fs_Calls Fs_Props
begin

text \<open>
  The console as two sequences of bytes: the committed input a reader may take, from \<^verbatim>\<open>cons.r\<close> to
  \<^verbatim>\<open>cons.w\<close>, and the line being edited, from \<^verbatim>\<open>cons.w\<close> to \<^verbatim>\<open>cons.e\<close>. \<open>edit\<close> and \<open>take_line\<close> say
  what a character of input and a read do to them.
\<close>

subsection \<open>Segments of the ring\<close>

definition ring_seg :: "byte list \<Rightarrow> 32 word \<Rightarrow> nat \<Rightarrow> byte list" where
  "ring_seg b a n = map (\<lambda>i. b ! (unat (a + word_of_nat i) mod INPUT_BUF_SIZE)) [0..<n]"

lemma seg_index: "unat (a + word_of_nat i :: 32 word) mod INPUT_BUF_SIZE = (unat a + i) mod INPUT_BUF_SIZE"
proof -
  have "unat (a + word_of_nat i) = (unat a + i mod 2 ^ 32) mod 2 ^ 32" by (simp add: unat_word_ariths unat_of_nat)
  moreover have "(unat a + i mod 2 ^ 32) mod 2 ^ 32 mod 128 = (unat a + i mod 2 ^ 32) mod 128" by (intro mod_mod_cancel) simp
  moreover have "i mod 2 ^ 32 mod 128 = i mod 128" by (intro mod_mod_cancel) simp
  then have "(unat a + i mod 2 ^ 32) mod 128 = (unat a + i) mod 128" by (metis mod_add_right_eq)
  ultimately show ?thesis by (simp add: INPUT_BUF_SIZE_def)
qed

lemma ring_seg_length [simp]: "length (ring_seg b a n) = n"
  by (simp add: ring_seg_def)

lemma ring_seg_0 [simp]: "ring_seg b a 0 = []"
  by (simp add: ring_seg_def)

lemma ring_seg_add: "ring_seg b a (m + n) = ring_seg b a m @ ring_seg b (a + word_of_nat m) n"
  by (intro nth_equalityI) (auto simp: ring_seg_def nth_append seg_index add.assoc add.left_commute)

lemma ring_seg_Suc: "ring_seg b a (Suc n) = ring_seg b a n @ [b ! (unat (a + word_of_nat n) mod INPUT_BUF_SIZE)]"
  by (simp add: ring_seg_def)

lemma ring_seg_Cons: "ring_seg b a (Suc n) = b ! (unat a mod INPUT_BUF_SIZE) # ring_seg b (a + 1) n"
  using ring_seg_add [of b a 1 n] by (simp add: ring_seg_Suc)

lemma ring_seg_update:
  assumes "n \<le> k" "k < INPUT_BUF_SIZE"
  shows "ring_seg (b[unat (a + word_of_nat k) mod INPUT_BUF_SIZE := c]) a n = ring_seg b a n"
proof -
  have "(unat a + i) mod INPUT_BUF_SIZE \<noteq> (unat a + k) mod INPUT_BUF_SIZE" if "i < n" for i
  proof
    assume "(unat a + i) mod INPUT_BUF_SIZE = (unat a + k) mod INPUT_BUF_SIZE"
    then have "INPUT_BUF_SIZE dvd (unat a + k) - (unat a + i)" using that assms(1) by (subst mod_eq_dvd_iff_nat [symmetric]) auto
    then show False using that assms by (auto dest: dvd_imp_le)
  qed
  then have "(unat a + k) mod INPUT_BUF_SIZE \<noteq> (unat a + i) mod INPUT_BUF_SIZE" if "i < n" for i using that by metis
  then show ?thesis by (simp add: ring_seg_def seg_index)
qed

subsection \<open>The two sequences\<close>

definition committed :: "console \<Rightarrow> byte list" where
  "committed x = ring_seg (cbuf x) (c_r x) (unat (c_w x - c_r x))"

definition edited :: "console \<Rightarrow> byte list" where
  "edited x = ring_seg (cbuf x) (c_w x) (unat (c_e x - c_w x))"

text \<open>The line being edited has no end of line and never fills the ring.\<close>

definition cons_ok :: "console \<Rightarrow> bool" where
  "cons_ok x \<longleftrightarrow> length (cbuf x) = INPUT_BUF_SIZE \<and> 10 \<notin> set (edited x) \<and> 4 \<notin> set (edited x) \<and>
     length (committed x) + length (edited x) \<le> INPUT_BUF_SIZE \<and>
     (edited x \<noteq> [] \<longrightarrow> length (committed x) + length (edited x) < INPUT_BUF_SIZE)"

definition edit :: "byte \<Rightarrow> byte list \<times> byte list \<Rightarrow> byte list \<times> byte list" where
  "edit c = (\<lambda>(P, L).
     if c = 21 then (P, [])
     else if c = 8 \<or> c = 0x7f then (P, butlast L)
     else if c = 0 \<or> c = 16 \<or> length P + length L = INPUT_BUF_SIZE then (P, L)
     else (let d = (if c = 13 then 10 else c) in
       if d = 10 \<or> d = 4 \<or> Suc (length P + length L) = INPUT_BUF_SIZE then (P @ L @ [d], []) else (P, L @ [d])))"

text \<open>What the terminal is sent.\<close>

definition echo :: "byte \<Rightarrow> byte list \<times> byte list \<Rightarrow> byte list" where
  "echo c = (\<lambda>(P, L).
     if c = 21 then concat (replicate (length L) [8, 32, 8])
     else if c = 8 \<or> c = 0x7f then (if L = [] then [] else [8, 32, 8])
     else if c = 0 \<or> length P + length L = INPUT_BUF_SIZE then []
     else [if c = 13 then 10 else c])"

lemma ends_apart:
  assumes "length (committed x) + length (edited x) \<le> INPUT_BUF_SIZE"
  shows "unat (c_e x - c_r x) = length (committed x) + length (edited x)"
    "c_w x = c_r x + word_of_nat (length (committed x))" "c_e x = c_w x + word_of_nat (length (edited x))"
proof -
  have "c_e x - c_r x = (c_w x - c_r x) + (c_e x - c_w x)" by simp
  moreover have "unat ((c_w x - c_r x) + (c_e x - c_w x)) = unat (c_w x - c_r x) + unat (c_e x - c_w x)"
    using assms by (intro unat_add_lem [THEN iffD1]) (simp add: committed_def edited_def INPUT_BUF_SIZE_def)
  ultimately show "unat (c_e x - c_r x) = length (committed x) + length (edited x)" by (simp add: committed_def edited_def)
qed (simp_all add: committed_def edited_def)

subsection \<open>The steps of the editor\<close>

lemma cons_okD:
  assumes "cons_ok x"
  shows "length (cbuf x) = INPUT_BUF_SIZE" "10 \<notin> set (edited x)" "4 \<notin> set (edited x)"
    "length (committed x) + length (edited x) \<le> INPUT_BUF_SIZE"
    "edited x \<noteq> [] \<Longrightarrow> length (committed x) + length (edited x) < INPUT_BUF_SIZE"
  using assms by (auto simp: cons_ok_def)

lemma edited_empty: "edited x = [] \<longleftrightarrow> c_e x = c_w x"
proof -
  have "edited x = [] \<longleftrightarrow> unat (c_e x - c_w x) = 0" by (metis edited_def length_0_conv ring_seg_length)
  then show ?thesis by (simp add: unat_eq_0)
qed

lemma committed_empty: "committed x = [] \<longleftrightarrow> c_r x = c_w x"
proof -
  have "committed x = [] \<longleftrightarrow> unat (c_w x - c_r x) = 0" by (metis committed_def length_0_conv ring_seg_length)
  then show ?thesis by (auto simp: unat_eq_0)
qed

lemma edit_back:
  assumes "c_e x \<noteq> c_w x"
  shows "edited (x\<lparr>c_e := c_e x - 1\<rparr>) = butlast (edited x)" "edit_char x = last (edited x)"
proof -
  define k where "k = unat (c_e x - c_w x) - 1"
  have "c_e x - c_w x \<noteq> 0" using assms by simp
  then have k: "unat (c_e x - c_w x) = Suc k" "unat (c_e x - c_w x - 1) = k" by (auto simp: k_def unat_minus_one unat_gt_0)
  have "word_of_nat (unat (c_e x - c_w x - 1)) = c_e x - c_w x - 1" by simp
  then have e: "c_w x + word_of_nat k = c_e x - 1" by (simp only: k(2)) simp
  have "c_e x - 1 - c_w x = c_e x - c_w x - 1" by simp
  then have "unat (c_e x - 1 - c_w x) = k" using k(2) by (simp only:)
  then show "edited (x\<lparr>c_e := c_e x - 1\<rparr>) = butlast (edited x)" using k by (simp add: edited_def ring_seg_Suc)
  show "edit_char x = last (edited x)" using k e by (simp add: edited_def ring_seg_Suc edit_char_def)
qed

lemma committed_e [simp]: "committed (x\<lparr>c_e := e\<rparr>) = committed x"
  by (simp add: committed_def)

lemma back_ok:
  assumes "cons_ok x" "c_e x \<noteq> c_w x"
  shows "cons_ok (x\<lparr>c_e := c_e x - 1\<rparr>)"
proof -
  have "edited x \<noteq> []" using assms(2) by (simp add: edited_empty)
  then have "length (committed x) + length (edited x) < INPUT_BUF_SIZE" using cons_okD(5) [OF assms(1)] by simp
  then show ?thesis using cons_okD [OF assms(1)] edit_back(1) [OF assms(2)] by (auto simp: cons_ok_def dest: in_set_butlastD)
qed

lemma store_edited:
  assumes "length (cbuf x) = INPUT_BUF_SIZE" "length (committed x) + length (edited x) < INPUT_BUF_SIZE"
  shows "edited (store_char c x) = edited x @ [c]" "committed (store_char c x) = committed x"
    "unat (c_e (store_char c x) - c_r (store_char c x)) = Suc (length (committed x) + length (edited x))"
proof -
  let ?P = "length (committed x)" and ?L = "length (edited x)"
  note E = ends_apart [OF less_imp_le [OF assms(2)]]
  have w: "c_e x + 1 - c_w x = word_of_nat (Suc ?L)" using E(3) by (simp add: algebra_simps)
  have lt: "Suc (?P + ?L) \<le> 128" using assms(2) by (simp add: INPUT_BUF_SIZE_def)
  then have n: "unat (word_of_nat (Suc ?L) :: 32 word) = Suc ?L" by (subst unat_of_nat) simp
  have u: "unat (c_e x + 1 - c_w x) = Suc ?L" using w n by (simp only:)
  have b: "ring_seg (cbuf (store_char c x)) (c_w x) ?L = ring_seg (cbuf x) (c_w x) ?L"
    using assms(2) unfolding store_char_def E(3) by (simp add: ring_seg_update)
  have l: "cbuf (store_char c x) ! (unat (c_w x + word_of_nat ?L) mod INPUT_BUF_SIZE) = c"
    using assms(1) E(3) by (simp add: store_char_def INPUT_BUF_SIZE_def)
  have "edited (store_char c x) = ring_seg (cbuf (store_char c x)) (c_w x) (Suc ?L)"
    unfolding u [symmetric] by (simp add: edited_def store_char_def)
  also have "\<dots> = ring_seg (cbuf x) (c_w x) ?L @ [c]" using b l by (simp add: ring_seg_Suc)
  also have "ring_seg (cbuf x) (c_w x) ?L = edited x" by (simp add: edited_def)
  finally show "edited (store_char c x) = edited x @ [c]" .
  have "c_e x = c_r x + word_of_nat (?P + ?L)" using E(2,3) by simp
  then have "cbuf (store_char c x) = (cbuf x)[unat (c_r x + word_of_nat (?P + ?L)) mod INPUT_BUF_SIZE := c]" by (simp add: store_char_def)
  then have "ring_seg (cbuf (store_char c x)) (c_r x) ?P = ring_seg (cbuf x) (c_r x) ?P"
    using assms(2) by (simp add: ring_seg_update del: of_nat_add)
  then show "committed (store_char c x) = committed x" by (simp add: committed_def store_char_def)
  have "c_e x + 1 - c_r x = word_of_nat (Suc (?P + ?L))" using E(2,3) by (simp add: algebra_simps)
  moreover have "unat (word_of_nat (Suc (?P + ?L)) :: 32 word) = Suc (?P + ?L)" using lt by (subst unat_of_nat) simp
  ultimately have "unat (c_e x + 1 - c_r x) = Suc (?P + ?L)" by (simp only:)
  then show "unat (c_e (store_char c x) - c_r (store_char c x)) = Suc (?P + ?L)" by (simp add: store_char_def)
qed

lemma commit_line:
  assumes "length (committed x) + length (edited x) \<le> INPUT_BUF_SIZE"
  shows "committed (x\<lparr>c_w := c_e x\<rparr>) = committed x @ edited x" "edited (x\<lparr>c_w := c_e x\<rparr>) = []"
proof -
  have "committed (x\<lparr>c_w := c_e x\<rparr>) = ring_seg (cbuf x) (c_r x) (length (committed x) + length (edited x))"
    using ends_apart(1) [OF assms] by (simp add: committed_def)
  also have "\<dots> = ring_seg (cbuf x) (c_r x) (length (committed x)) @ ring_seg (cbuf x) (c_w x) (length (edited x))"
    using ends_apart(2) [OF assms] by (simp add: ring_seg_add)
  finally show "committed (x\<lparr>c_w := c_e x\<rparr>) = committed x @ edited x" by (simp add: committed_def edited_def)
  show "edited (x\<lparr>c_w := c_e x\<rparr>) = []" by (simp add: edited_def)
qed

lemma upd_cons_simps [simp]:
  "held (upd_cons f s) = held s" "proc (upd_cons f s) = proc s" "pm (upd_cons f s) = pm s" "tx_out (fs (upd_cons f s)) = tx_out (fs s)"
  by (simp_all add: upd_cons_def)

lemma consputc_simps [simp]:
  "held (consputc c s) = held s" "proc (consputc c s) = proc s" "pm (consputc c s) = pm s"
  "tx_out (fs (consputc c s)) = tx_out (fs s) @ (if c = BACKSPACE then [8, 32, 8] else [word_of_int c])"
  by (simp_all add: consputc_def uartputc_sync_def)

text \<open>What only the output or the console has changed.\<close>

definition same_kernel :: "fkstate \<Rightarrow> fkstate \<Rightarrow> bool" where
  "same_kernel s t \<longleftrightarrow> held t = held s \<and> proc t = proc s \<and> pm t = pm s"

lemma kill_line_ok:
  assumes "cons_ok (cons_of s)"
  shows "cons_ok (cons_of (kill_line s)) \<and> committed (cons_of (kill_line s)) = committed (cons_of s) \<and>
    edited (cons_of (kill_line s)) = [] \<and> same_kernel s (kill_line s) \<and>
    tx_out (fs (kill_line s)) = tx_out (fs s) @ concat (replicate (length (edited (cons_of s))) [8, 32, 8])"
  using assms
proof (induction s rule: kill_line.induct)
  case (1 s)
  let ?x = "cons_of s" and ?s = "consputc BACKSPACE (upd_cons (\<lambda>x. x\<lparr>c_e := c_e x - 1\<rparr>) s)"
  show ?case
  proof (cases "c_e ?x = c_w ?x")
    case True
    then show ?thesis using 1(2) edited_empty [of ?x] by (subst (1 2 3 4 5) kill_line.simps) (simp add: same_kernel_def)
  next
    case False
    have ne: "edited ?x \<noteq> []" using False by (simp add: edited_empty)
    then have "edit_char ?x \<in> set (edited ?x)" using edit_back(2) [OF False] by simp
    then have c: "c_e ?x \<noteq> c_w ?x \<and> edit_char ?x \<noteq> 10" using cons_okD(2) [OF 1(2)] False by auto
    have k: "kill_line s = kill_line ?s" using c by (subst kill_line.simps) simp
    have l: "length (edited ?x) = Suc (length (butlast (edited ?x)))" using ne by simp
    have sk: "same_kernel s ?s" by (simp add: same_kernel_def)
    have ok: "cons_ok (cons_of ?s)" using back_ok [OF 1(2) False] by simp
    note IH = 1(1) [OF c ok]
    show ?thesis unfolding k using IH edit_back(1) [OF False] sk by (subst l) (simp add: same_kernel_def)
  qed
qed

lemma proc_line: "printf ''%d %s %s'' [RegArg x, StrArg (Some a), StrArg (Some b)] =
    Some (printint digits (int_arg 32 True x) 10 True @ [32] @ a @ [32] @ b)"
  by (simp add: printf_def text_bytes_def char_at_def directive_def Let_def)

lemma kprintf_simps:
  assumes "kprintf f ps s = Some t"
  shows "same_kernel s t" "cons_of t = cons_of s"
proof -
  have "same_kernel s (fold (\<lambda>c. consputc (uint c)) out s) \<and> cons_of (fold (\<lambda>c. consputc (uint c)) out s) = cons_of s" for out
    by (induction out arbitrary: s) (simp_all add: same_kernel_def)
  then show "same_kernel s t" "cons_of t = cons_of s" using assms by (auto simp: kprintf_def)
qed

lemma dump_lines_ok: "\<exists>t. dump_lines ls s = Some t \<and> same_kernel s t \<and> cons_of t = cons_of s"
proof (induction ls arbitrary: s)
  case Nil
  then show ?case by (simp add: same_kernel_def)
next
  case (Cons l ls)
  obtain p st nm where l: "l = (p, st, nm)" by (cases l)
  obtain t where t: "kprintf ''%d %s %s'' [RegArg (word_of_int p), StrArg (Some (text_bytes st)), StrArg (Some (text_bytes nm))] s = Some t"
    by (simp add: kprintf_def proc_line)
  obtain u where u: "kprintf [CHR 0x0A] [] t = Some u" by (simp add: kprintf_def printf_def text_bytes_def)
  obtain v where "dump_lines ls u = Some v" "same_kernel u v" "cons_of v = cons_of u" using Cons.IH by blast
  then show ?case using kprintf_simps [OF t] kprintf_simps [OF u] by (simp add: l t u same_kernel_def)
qed

lemma print_procs_ok: "\<exists>t. print_procs s = Some t \<and> same_kernel s t \<and> cons_of t = cons_of s"
proof -
  obtain u where u: "kprintf [CHR 0x0A] [] s = Some u" by (simp add: kprintf_def printf_def text_bytes_def)
  obtain v where "dump_lines (procdump u) u = Some v" "same_kernel u v" "cons_of v = cons_of u" using dump_lines_ok by blast
  then show ?thesis using kprintf_simps [OF u] by (simp add: print_procs_def u same_kernel_def)
qed

lemma uint_byte_not_BACKSPACE [simp]: "uint (d :: byte) \<noteq> BACKSPACE"
  using unsigned_less [of d, where ?'a = int] by (simp add: BACKSPACE_def)

lemma edited_ok:
  assumes "cons_ok x" "length (committed x) + length (edited x) < INPUT_BUF_SIZE" "d \<noteq> 10" "d \<noteq> 4"
    "Suc (length (committed x) + length (edited x)) \<noteq> INPUT_BUF_SIZE"
  shows "cons_ok (store_char d x)"
  using cons_okD [OF assms(1)] assms(2-5) store_edited(1,2) [OF _ assms(2), of d]
  by (auto simp: cons_ok_def store_char_def)

lemma stored_commit:
  fixes d :: byte
  assumes "cons_ok x" "length (committed x) + length (edited x) < INPUT_BUF_SIZE"
  defines "y \<equiv> (store_char d x)\<lparr>c_w := c_e (store_char d x)\<rparr>"
  shows "cons_ok y" "committed y = committed x @ edited x @ [d]" "edited y = []"
proof -
  note S = store_edited [OF cons_okD(1) [OF assms(1)] assms(2), of d]
  have "length (committed (store_char d x)) + length (edited (store_char d x)) \<le> INPUT_BUF_SIZE" using S(1,2) assms(2) by simp
  note C = commit_line [OF this]
  show "committed y = committed x @ edited x @ [d]" "edited y = []" using C S(1,2) by (simp_all add: y_def)
  then show "cons_ok y" using cons_okD(1) [OF assms(1)] assms(2) by (simp add: cons_ok_def) (simp add: y_def store_char_def)
qed

text \<open>One character: the two sequences become those of \<open>edit\<close>, the terminal gets the echo, and the readers are
  woken when something is committed.\<close>

definition takes_char :: "nat option \<Rightarrow> byte \<Rightarrow> fkstate \<Rightarrow> fkstate \<Rightarrow> bool" where
  "takes_char cur c s t \<longleftrightarrow>
     (let PL = (committed (cons_of s), edited (cons_of s)) in
      held t = held s \<and> pm t = pm s \<and> cons_ok (cons_of t) \<and>
      (committed (cons_of t), edited (cons_of t)) = edit c PL \<and> (c \<noteq> 16 \<longrightarrow> tx_out (fs t) = tx_out (fs s) @ echo c PL) \<and>
      proc t = (if fst (edit c PL) = fst PL then proc s else proc (wake cur ChCons s)))"

lemma consoleintr_char:
  assumes "ConsLock \<notin> held s" "\<forall>i. ProcLock i \<notin> held s" "length (proc s) = NPROC" "cons_ok (cons_of s)"
    "c \<noteq> 16" "c \<noteq> 21" "c \<noteq> 8" "c \<noteq> 0x7f"
  shows "\<exists>t. consoleintr cur c s = Some t \<and> takes_char cur c s t"
proof -
  let ?s = "s\<lparr>held := insert ConsLock (held s)\<rparr>" and ?x = "cons_of s"
  let ?n = "length (committed ?x) + length (edited ?x)" and ?PL = "(committed (cons_of s), edited (cons_of s))"
  have le: "?n \<le> INPUT_BUF_SIZE" using cons_okD(4) [OF assms(4)] .
  have room: "c_e ?x - c_r ?x < word_of_nat INPUT_BUF_SIZE \<longleftrightarrow> ?n < INPUT_BUF_SIZE"
    using ends_apart(1) [OF le] by (simp add: word_less_nat_alt INPUT_BUF_SIZE_def)
  show ?thesis
  proof (cases "c = 0 \<or> \<not> ?n < INPUT_BUF_SIZE")
    case True
    then show ?thesis using assms room le by (auto simp: consoleintr_def edit_def echo_def takes_char_def)
  next
    case False
    then have lt: "?n < INPUT_BUF_SIZE" by simp
    define d where "d = (if c = 13 then 10 else c)"
    let ?t = "upd_cons (store_char d) (consputc (uint d) ?s)"
    note S = store_edited [OF cons_okD(1) [OF assms(4)] lt, of d]
    have full: "input_full (cons_of ?t) \<longleftrightarrow> Suc ?n = INPUT_BUF_SIZE"
      using S(3) by (simp add: input_full_def word_unat_eq_iff INPUT_BUF_SIZE_def)
    show ?thesis
    proof (cases "d = 10 \<or> d = 4 \<or> Suc ?n = INPUT_BUF_SIZE")
      case True
      let ?u = "upd_cons (\<lambda>x. x\<lparr>c_w := c_e x\<rparr>) ?t"
      have w: "wakeup cur ChCons ?u = Some (wake cur ChCons ?u)"
        using assms(2,3) by (intro wakeup_eq) (auto simp: ConsLock_def)
      have "edit c ?PL = (committed ?x @ edited ?x @ [d], [])" "echo c ?PL = [d]"
        using assms True False by (auto simp: edit_def echo_def d_def Let_def)
      moreover have "consoleintr cur c s = Some ((wake cur ChCons ?u)\<lparr>held := held s\<rparr>)"
        using assms False room lt True full w by (simp add: consoleintr_def d_def Let_def)
      ultimately show ?thesis using stored_commit [OF assms(4) lt, of d] by (simp add: takes_char_def wake_def)
    next
      case F: False
      have "edit c ?PL = (committed ?x, edited ?x @ [d])" "echo c ?PL = [d]"
        using assms F False by (auto simp: edit_def echo_def d_def Let_def)
      moreover have "consoleintr cur c s = Some (?t\<lparr>held := held s\<rparr>)"
        using assms False room lt F full by (simp add: consoleintr_def d_def Let_def)
      ultimately show ?thesis using S(1,2) edited_ok [OF assms(4) lt, of d] F by (simp add: takes_char_def)
    qed
  qed
qed

lemma consoleintr_ok:
  assumes "ConsLock \<notin> held s" "\<forall>i. ProcLock i \<notin> held s" "length (proc s) = NPROC" "cons_ok (cons_of s)"
  shows "\<exists>t. consoleintr cur c s = Some t \<and> takes_char cur c s t"
proof -
  let ?s = "s\<lparr>held := insert ConsLock (held s)\<rparr>" and ?x = "cons_of s"
  have ok: "cons_ok (cons_of ?s)" using assms(4) by simp
  consider "c = 16" | "c = 21" | "c = 8 \<or> c = 0x7f" | "c \<noteq> 16" "c \<noteq> 21" "c \<noteq> 8" "c \<noteq> 0x7f" by blast
  then show ?thesis
  proof cases
    case 1
    obtain t where "print_procs ?s = Some t" "same_kernel ?s t" "cons_of t = cons_of ?s" using print_procs_ok by blast
    then show ?thesis using assms(1,4) 1 by (auto simp: consoleintr_def same_kernel_def edit_def takes_char_def)
  next
    case 2
    show ?thesis using assms(1) 2 kill_line_ok [OF ok]
      by (auto simp: consoleintr_def same_kernel_def edit_def echo_def takes_char_def)
  next
    case 3
    then show ?thesis using assms(1,4) edited_empty [of ?x] back_ok [OF assms(4)] edit_back(1) [of ?x]
      by (cases "c_e ?x = c_w ?x") (auto simp: consoleintr_def edit_def echo_def takes_char_def)
  next
    case 4
    then show ?thesis by (rule consoleintr_char [OF assms])
  qed
qed

lemma edit_appends: "\<exists>zs. fst (edit c PL) = fst PL @ zs"
  by (cases PL) (auto simp: edit_def Let_def)

lemma edits_append: "\<exists>zs. fst (fold edit cs PL) = fst PL @ zs"
proof (induction cs arbitrary: PL)
  case (Cons c cs)
  then show ?case using edit_appends [of c PL] by (metis append.assoc fold_simps(2))
qed simp

lemma wake_again: "proc t = proc (wake cur ch s) \<Longrightarrow> proc (wake cur ch t) = proc (wake cur ch s)"
  by (rule nth_equalityI) (auto simp: wake_nth wakeup_proc_def wake_def)

fun echoes :: "byte list \<Rightarrow> byte list \<times> byte list \<Rightarrow> byte list" where
  "echoes [] PL = []"
| "echoes (c # cs) PL = echo c PL @ echoes cs (edit c PL)"

text \<open>A kernel whose console holds the given committed input.\<close>

definition cons_demo :: "byte list \<Rightarrow> pmem \<Rightarrow> u64 \<Rightarrow> fkstate" where
  "cons_demo P m pt = upd_cons (\<lambda>_. \<lparr>cbuf = P @ replicate (INPUT_BUF_SIZE - length P) 0, c_r = 0, c_w = word_of_nat (length P),
     c_e = word_of_nat (length P)\<rparr>) (fdemo 0 m pt)"

lemma cons_demo_simps [simp]:
  "held (cons_demo P m pt) = {}" "proc (cons_demo P m pt) = proc (fdemo 0 m pt)" "pm (cons_demo P m pt) = m"
  "tx_out (fs (cons_demo P m pt)) = []"
  by (simp_all add: cons_demo_def fs_demo_def)

lemma cons_demo_ok:
  assumes "length P < INPUT_BUF_SIZE"
  shows "committed (cons_of (cons_demo P m pt)) = P" "edited (cons_of (cons_demo P m pt)) = []" "cons_ok (cons_of (cons_demo P m pt))"
proof -
  have "unat (word_of_nat (length P) :: 32 word) = length P" using assms by (subst unat_of_nat) (simp add: INPUT_BUF_SIZE_def)
  then show c: "committed (cons_of (cons_demo P m pt)) = P"
    using assms by (intro nth_equalityI) (simp_all add: cons_demo_def committed_def ring_seg_def unat_of_nat nth_append INPUT_BUF_SIZE_def)
  show e: "edited (cons_of (cons_demo P m pt)) = []" by (simp add: cons_demo_def edited_def)
  show "cons_ok (cons_of (cons_demo P m pt))" using assms unfolding cons_ok_def c e by (simp add: cons_demo_def)
qed

text \<open>C17. The console edits lines. Whatever characters arrive, the interrupt handler never fails; the committed input and
  the line being edited become what \<open>edit\<close> makes of them character by character: erasing never reaches into
  committed input, a line is committed by an end of line or when the ring is full, and a full ring drops input. The
  invariant of the ring is kept, the terminal gets exactly the echo, and a process that sleeps for input when
  something is committed is woken.\<close>

theorem console_edits_lines:
  assumes "ConsLock \<notin> held s" "\<forall>i. ProcLock i \<notin> held s" "length (proc s) = NPROC" "cons_ok (cons_of s)"
  defines "PL \<equiv> (committed (cons_of s), edited (cons_of s))"
  shows "\<exists>t. console_input cur cs s = Some t \<and> held t = held s \<and> cons_ok (cons_of t) \<and>
    (committed (cons_of t), edited (cons_of t)) = fold edit cs PL \<and>
    (16 \<notin> set cs \<longrightarrow> tx_out (fs t) = tx_out (fs s) @ echoes cs PL) \<and>
    proc t = (if fst (fold edit cs PL) = fst PL then proc s else proc (wake cur ChCons s))"
  unfolding PL_def using assms(1-4)
proof (induction cs arbitrary: s)
  case Nil
  then show ?case by simp
next
  case (Cons c cs)
  obtain t where t: "consoleintr cur c s = Some t" "takes_char cur c s t" using consoleintr_ok [OF Cons.prems] by blast
  have l: "length (proc t) = NPROC" using t(2) Cons.prems(3) by (auto simp: takes_char_def Let_def)
  let ?PL = "(committed (cons_of s), edited (cons_of s))"
  have T: "held t = held s" "(committed (cons_of t), edited (cons_of t)) = edit c ?PL" "cons_ok (cons_of t)"
    "c \<noteq> 16 \<longrightarrow> tx_out (fs t) = tx_out (fs s) @ echo c ?PL"
    "proc t = (if fst (edit c ?PL) = fst ?PL then proc s else proc (wake cur ChCons s))"
    using t(2) by (simp_all add: takes_char_def Let_def)
  obtain u where u: "console_input cur cs t = Some u" "held u = held t" "cons_ok (cons_of u)"
    "(committed (cons_of u), edited (cons_of u)) = fold edit cs (edit c ?PL)"
    "16 \<notin> set cs \<longrightarrow> tx_out (fs u) = tx_out (fs t) @ echoes cs (edit c ?PL)"
    "proc u = (if fst (fold edit cs (edit c ?PL)) = fst (edit c ?PL) then proc t else proc (wake cur ChCons t))"
    using Cons.IH [of t] Cons.prems l T(1-3) by auto
  obtain ys zs where "fst (edit c ?PL) = fst ?PL @ ys" "fst (fold edit cs (edit c ?PL)) = fst (edit c ?PL) @ zs"
    using edit_appends edits_append by metis
  then have "proc u = (if fst (fold edit cs (edit c ?PL)) = fst ?PL then proc s else proc (wake cur ChCons s))"
    using u(6) T(5) wake_again [of t cur ChCons s] by (auto simp: wake_def split: if_splits)
  then show ?case using t(1) T u by auto
qed

theorem console_edits_lines_witness:
  "\<forall>m pt. \<exists>t. console_input None [97, 98, 8, 99, 10, 100] (cons_demo [120, 10] m pt) = Some t \<and>
     (committed (cons_of t), edited (cons_of t)) = ([120, 10, 97, 99, 10], [100]) \<and> tx_out (fs t) = [97, 98, 8, 32, 8, 99, 10, 100]"
proof (intro allI)
  fix m pt
  let ?s = "cons_demo [120, 10] m pt"
  have c: "committed (cons_of ?s) = [120, 10]" "edited (cons_of ?s) = []" "cons_ok (cons_of ?s)"
    by (rule cons_demo_ok; simp add: INPUT_BUF_SIZE_def)+
  have "fold edit [97, 98, 8, 99, 10, 100] ([120, 10], []) = ([120, 10, 97, 99, 10], [100])"
    "echoes [97, 98, 8, 99, 10, 100] ([120, 10], []) = [97, 98, 8, 32, 8, 99, 10, 100]"
    by (simp_all add: edit_def echo_def INPUT_BUF_SIZE_def)
  then show "\<exists>t. console_input None [97, 98, 8, 99, 10, 100] ?s = Some t \<and>
     (committed (cons_of t), edited (cons_of t)) = ([120, 10, 97, 99, 10], [100]) \<and> tx_out (fs t) = [97, 98, 8, 32, 8, 99, 10, 100]"
    using console_edits_lines [of ?s None "[97, 98, 8, 99, 10, 100]"] c by auto
qed

subsection \<open>Reading\<close>

text \<open>What a read of \<open>n\<close> bytes takes from the committed input: the bytes up to an end of line or the count, and
  what it leaves. An end of file ends it, and is kept for the next read unless it comes first; without either the
  reader has to wait, and the last component is false.\<close>

fun take_line :: "nat \<Rightarrow> nat \<Rightarrow> byte list \<Rightarrow> byte list \<times> byte list \<times> bool" where
  "take_line tgt 0 P = ([], P, True)"
| "take_line tgt (Suc n) [] = ([], [], False)"
| "take_line tgt (Suc n) (c # P) =
     (if c = 4 then ([], if Suc n < tgt then c # P else P, True)
      else if c = 10 then ([c], P, True)
      else (let (xs, R, d) = take_line tgt n P in (c # xs, R, d)))"

lemma take_line_le: "take_line tgt n P = (xs, R, d) \<Longrightarrow> length xs \<le> n"
  by (induction tgt n P arbitrary: xs rule: take_line.induct) (auto simp: Let_def split: if_splits prod.splits)

lemma take_line_whole:
  assumes "10 \<notin> set l" "4 \<notin> set l" "length l < n"
  shows "take_line tgt n (l @ 10 # R) = (l @ [10], R, True)"
  using assms by (induction l arbitrary: n) (auto simp: gr0_conv_Suc less_Suc_eq_0_disj Suc_less_eq2)

lemma take_front:
  assumes "cons_ok x" "committed x = c # P"
  shows "cbuf x ! (unat (c_r x) mod INPUT_BUF_SIZE) = c" "committed (x\<lparr>c_r := c_r x + 1\<rparr>) = P"
    "edited (x\<lparr>c_r := c_r x + 1\<rparr>) = edited x" "cons_ok (x\<lparr>c_r := c_r x + 1\<rparr>)"
proof -
  have l: "length (committed x) = Suc (length P)" using assms(2) by simp
  then have k: "unat (c_w x - c_r x) = Suc (length P)" by (simp add: committed_def)
  have f: "committed x = cbuf x ! (unat (c_r x) mod INPUT_BUF_SIZE) # ring_seg (cbuf x) (c_r x + 1) (length P)"
    unfolding committed_def k by (rule ring_seg_Cons)
  then show "cbuf x ! (unat (c_r x) mod INPUT_BUF_SIZE) = c" using assms(2) by simp
  have "c_w x - c_r x \<noteq> 0" using k by auto
  then have "unat (c_w x - c_r x - 1) = length P" using k by (simp add: unat_minus_one)
  moreover have "c_w x - (c_r x + 1) = c_w x - c_r x - 1" by simp
  ultimately have "unat (c_w x - (c_r x + 1)) = length P" by (simp only:)
  then show c: "committed (x\<lparr>c_r := c_r x + 1\<rparr>) = P" using f assms(2) by (simp add: committed_def)
  show e: "edited (x\<lparr>c_r := c_r x + 1\<rparr>) = edited x" by (simp add: edited_def)
  show "cons_ok (x\<lparr>c_r := c_r x + 1\<rparr>)" using cons_okD [OF assms(1)] l unfolding cons_ok_def c e by auto
qed

lemma read_end_ok:
  assumes "held s = {ConsLock}"
  shows "read_end tgt n s = Some (CrDone (tgt - n), s\<lparr>held := {}\<rparr>)"
  using assms by (simp add: read_end_def)

text \<open>The end of a read: what reached the target, what is left in the ring, and the result; without a whole line
  the process sleeps.\<close>

definition read_out :: "bool \<Rightarrow> nat \<Rightarrow> nat \<Rightarrow> kdest \<Rightarrow> cread" where
  "read_out d tgt left dst = (if d then CrDone (int tgt - int left) else CrSleep dst (int left))"

definition asleep :: "nat \<Rightarrow> fkstate \<Rightarrow> fkstate" where
  "asleep cur = upd_p cur (\<lambda>p. p\<lparr>chan := Some ChCons, state := SLEEPING\<rparr>)"

definition reads :: "nat \<Rightarrow> kdest \<Rightarrow> byte list \<Rightarrow> byte list \<Rightarrow> bool \<Rightarrow> fkstate \<Rightarrow> kdest \<Rightarrow> fkstate \<Rightarrow> bool" where
  "reads cur dst xs R d s dst' t \<longleftrightarrow>
     gets (pm s) (pagetable (proc s ! cur)) dst xs dst' (pm t) \<and> committed (cons_of t) = R \<and>
     edited (cons_of t) = edited (cons_of s) \<and> cons_ok (cons_of t) \<and> held t = {} \<and>
     proc t = proc (if d then s else asleep cur s)"

definition read_result :: "nat \<Rightarrow> kdest \<Rightarrow> nat \<Rightarrow> nat \<Rightarrow> fkstate \<Rightarrow> (cread \<times> fkstate) option \<Rightarrow> bool" where
  "read_result cur dst tgt n s r \<longleftrightarrow>
     (case take_line tgt n (committed (cons_of s)) of (xs, R, d) \<Rightarrow>
      \<exists>dst' t. reads cur dst xs R d s dst' t \<and> r = Some (read_out d tgt (n - length xs) dst', t))"

lemmas read_defs = read_result_def reads_def read_out_def asleep_def

lemma gets_Nil: "dst_ok cur dst n s \<Longrightarrow> gets (pm s) (pagetable (proc s ! cur)) dst [] dst (pm s)"
  by (cases dst) (simp_all add: wrote_Nil)

lemma dst_ok_cons [simp]: "dst_ok cur dst n (upd_cons f s) = dst_ok cur dst n s"
  by (cases dst) simp_all

lemma dst_ok_held: "dst_ok cur dst n (s\<lparr>held := H\<rparr>) = dst_ok cur dst n s"
  by (cases dst) simp_all

lemma consoleread_loop_ok:
  assumes "held s = {ConsLock}" "cons_ok (cons_of s)" "dst_ok cur dst n s" "cur < length (proc s)" "killed (proc s ! cur) = 0"
  shows "read_result cur dst tgt n s (consoleread_loop cur dst (int tgt) (int n) s)"
  using assms
proof (induction n arbitrary: dst s)
  case 0
  have "consoleread_loop cur dst (int tgt) (int 0) s = Some (CrDone (int tgt), s\<lparr>held := {}\<rparr>)"
    using 0(1) by (subst consoleread_loop.simps) (simp add: read_end_ok)
  then show ?case using 0 gets_Nil [OF 0(3)] by (auto simp: read_defs intro!: exI [of _ dst])
next
  case (Suc n)
  let ?x = "cons_of s"
  show ?case
  proof (cases "committed ?x")
    case Nil
    have "consoleread_loop cur dst (int tgt) (int (Suc n)) s =
        Some (CrSleep dst (int (Suc n)), (upd_p cur (\<lambda>p. p\<lparr>chan := Some ChCons, state := SLEEPING\<rparr>) s)\<lparr>held := {}\<rparr>)"
      using Suc.prems Nil by (subst consoleread_loop.simps)
        (simp add: committed_empty is_killed_eq sleep_eq ConsLock_def)
    then show ?thesis using Suc.prems gets_Nil [OF Suc.prems(3)] Nil by (auto simp: read_defs intro!: exI [of _ dst])
  next
    case (Cons c P)
    let ?s = "upd_cons (\<lambda>x. x\<lparr>c_r := c_r x + 1\<rparr>) s"
    note F = take_front [OF Suc.prems(2) Cons]
    have ne: "c_r ?x \<noteq> c_w ?x" using Cons committed_empty [of ?x] by simp
    show ?thesis
    proof (cases "c = 4")
      case True
      let ?t = "(if Suc n < tgt then upd_cons (\<lambda>x. x\<lparr>c_r := c_r x - 1\<rparr>) ?s else ?s)\<lparr>held := {}\<rparr>"
      have "consoleread_loop cur dst (int tgt) (int (Suc n)) s = Some (CrDone (int tgt - int (Suc n)), ?t)"
        using Suc.prems ne F(1) True by (subst consoleread_loop.simps) (simp add: Let_def read_end_ok)
      moreover have "cons_of ?t = (if Suc n < tgt then ?x else ?x\<lparr>c_r := c_r ?x + 1\<rparr>)" by simp
      ultimately show ?thesis using Suc.prems F gets_Nil [OF Suc.prems(3)] True Cons
        by (auto simp: read_defs intro!: exI [of _ dst])
    next
      case not4: False
      have d: "dst_ok cur dst (Suc n) ?s" using Suc.prems(3) by simp
      obtain dst1 m1 where c: "either_copyout cur dst [c] ?s = Some (0, dst1, ?s\<lparr>pm := m1\<rparr>)"
        "gets (pm s) (pagetable (proc s ! cur)) dst [c] dst1 m1" "dst_ok cur dst1 n (?s\<lparr>pm := m1\<rparr>)"
        using copyout_dst [OF d, of "[c]"] by auto
      let ?u = "?s\<lparr>pm := m1\<rparr>"
      have step: "consoleread_loop cur dst (int tgt) (int (Suc n)) s =
          (if c = 10 then read_end (int tgt) (int n) ?u else consoleread_loop cur dst1 (int tgt) (int n) ?u)"
        using Suc.prems ne F(1) not4 c(1) by (subst consoleread_loop.simps) (simp add: Let_def)
      show ?thesis
      proof (cases "c = 10")
        case True
        then show ?thesis using step Suc.prems c(2) F Cons
          by (auto simp: read_defs read_end_ok intro!: exI [of _ dst1])
      next
        case False
        obtain xs R d where xs: "take_line tgt n P = (xs, R, d)" by (metis prod_cases3)
        have tl: "take_line tgt (Suc n) (committed ?x) = (c # xs, R, d)" using Cons not4 False xs by simp
        have "read_result cur dst1 tgt n ?u (consoleread_loop cur dst1 (int tgt) (int n) ?u)"
          by (rule Suc.IH) (use Suc.prems F(4) c(3) in simp_all)
        moreover have "take_line tgt n (committed (cons_of ?u)) = (xs, R, d)" using F(2) xs by simp
        moreover have "gets (pm s) (pagetable (proc s ! cur)) dst (c # xs) dst2 m2"
          if "gets m1 (pagetable (proc s ! cur)) dst1 xs dst2 m2" for dst2 m2
          using gets_append [OF c(2) that] Suc.prems(3) by (cases dst) auto
        moreover have "proc (if d then ?u else asleep cur ?u) = proc (if d then s else asleep cur s)" by (simp add: asleep_def upd_p_def)
        ultimately obtain dst2 t where t: "reads cur dst (c # xs) R d s dst2 t"
          "consoleread_loop cur dst1 (int tgt) (int n) ?u = Some (read_out d tgt (n - length xs) dst2, t)"
          using F(3) by (auto simp: read_result_def reads_def)
        show ?thesis unfolding read_result_def tl prod.case step
          by (intro exI [of _ dst2] exI [of _ t]) (use t False in simp)
      qed
    qed
  qed
qed

text \<open>C18. A read of the console takes what \<open>take_line\<close> says from the committed input: the first line up to the count
  (an end of file ends the read, and a read it ends early finds it again), stored for the reader, the rest left in
  order and the line being edited untouched. When the input has no whole line the bytes it has are delivered and the
  process sleeps for more, with the count that is left.\<close>

theorem console_read_takes_line:
  assumes "held s = {}" "cons_ok (cons_of s)" "dst_ok cur dst n s" "cur < length (proc s)" "killed (proc s ! cur) = 0"
    and "take_line n n (committed (cons_of s)) = (xs, R, d)"
  shows "\<exists>dst' t. consoleread cur dst (int n) s = Some (if d then CrDone (int (length xs)) else CrSleep dst' (int (n - length xs)), t) \<and>
    gets (pm s) (pagetable (proc s ! cur)) dst xs dst' (pm t) \<and> committed (cons_of t) = R \<and>
    edited (cons_of t) = edited (cons_of s) \<and> cons_ok (cons_of t) \<and> held t = {} \<and> proc t = proc (if d then s else asleep cur s)"
proof -
  let ?s = "s\<lparr>held := {ConsLock}\<rparr>"
  have "length xs \<le> n" using assms(6) by (rule take_line_le)
  then have n: "int n - int (n - length xs) = int (length xs)" by simp
  have "read_result cur dst n n ?s (consoleread_loop cur dst (int n) (int n) ?s)"
    by (rule consoleread_loop_ok) (use assms in \<open>auto simp: dst_ok_held\<close>)
  then obtain dst' t where t: "reads cur dst xs R d ?s dst' t" "consoleread_loop cur dst (int n) (int n) ?s = Some (read_out d n (n - length xs) dst', t)"
    using assms(6) by (auto simp: read_result_def)
  have "consoleread cur dst (int n) s = Some (read_out d n (n - length xs) dst', t)" using assms(1) t(2) by (simp add: consoleread_def)
  moreover have "proc (if d then ?s else asleep cur ?s) = proc (if d then s else asleep cur s)" by (simp add: asleep_def upd_p_def)
  ultimately show ?thesis using t(1) n by (intro exI [of _ dst'] exI [of _ t]) (auto simp: reads_def read_out_def)
qed

theorem console_read_takes_line_witness:
  "\<forall>m pt. \<exists>dst t. consoleread 0 (VarDst []) 10 (cons_demo [104, 105, 10, 106] m pt) = Some (CrDone 3, t) \<and>
     gets m pt (VarDst []) [104, 105, 10] dst (pm t) \<and> committed (cons_of t) = [106]"
proof (intro allI)
  fix m pt
  let ?s = "cons_demo [104, 105, 10, 106] m pt"
  have c: "committed (cons_of ?s) = [104, 105, 10, 106]" "cons_ok (cons_of ?s)"
    by (rule cons_demo_ok; simp add: INPUT_BUF_SIZE_def)+
  have "take_line 10 10 (committed (cons_of ?s)) = ([104, 105, 10], [106], True)" using take_line_whole [of "[104, 105]" 10 10 "[106]"] by (simp add: c)
  then show "\<exists>dst t. consoleread 0 (VarDst []) 10 ?s = Some (CrDone 3, t) \<and>
     gets m pt (VarDst []) [104, 105, 10] dst (pm t) \<and> committed (cons_of t) = [106]"
    using console_read_takes_line [of ?s 0 "VarDst []" 10 "[104, 105, 10]" "[106]" True] c
    by (auto simp: NPROC_def demo_proc_def zero_proc_def)
qed

end
