(* ===== verification/Dev_Disk.thy ===== *)
theory Dev_Disk
  imports Kern_Ops
begin

text \<open>
  The disk driver, \<^verbatim>\<open>kernel/virtio_disk.c\<close>. The descriptors, rings and book-keeping are records and maps from
  indices below \<^verbatim>\<open>NUM\<close>; an address a descriptor holds is the object it points to. The state is the kernel's with
  the driver's in place of the file system's. A call that sleeps ends its turn there and a resume function
  continues it. The names of
  \<^verbatim>\<open>kernel/virtio.h\<close> are kept without their prefixes.
\<close>

subsection \<open>The driver's state\<close>

definition NUM :: nat where "NUM = 8"
definition VDiskLock :: lockid where "VDiskLock = OtherLock 26"
definition ChFree :: channel where "ChFree = ChOther 14"
definition ChDisk :: "nat \<Rightarrow> channel" where "ChDisk b = ChOther (16 * b + 15)"

definition F_NEXT :: "16 word" where "F_NEXT = 1"
definition F_WRITE :: "16 word" where "F_WRITE = 2"
definition BLK_T_IN :: u32 where "BLK_T_IN = 0"
definition BLK_T_OUT :: u32 where "BLK_T_OUT = 1"

datatype vaddr = VNull | VReq nat | VData nat | VStatus nat

record vdesc =
  va :: vaddr
  vlen :: u32
  vflags :: "16 word"
  vnext :: "16 word"

record vreq =
  rtype :: u32
  rreserved :: u32
  rsector :: u64

text \<open>A buffer, as far as the driver goes.\<close>

record vbuf =
  vblockno :: u32
  vdisk :: int
  vdata :: "byte list"

record vdrv =
  desc :: "nat \<Rightarrow> vdesc"
  avail_ring :: "nat \<Rightarrow> 16 word"
  avail_idx :: "16 word"
  used_ring :: "nat \<Rightarrow> u32"
  used_end :: "16 word"
  dfree :: "nat \<Rightarrow> int"
  used_idx :: "16 word"
  info_b :: "nat \<Rightarrow> nat option"
  info_status :: "nat \<Rightarrow> byte"
  ops :: "nat \<Rightarrow> vreq"
  vbufs :: "nat \<Rightarrow> vbuf"
  platter :: "u64 \<Rightarrow> byte list"

type_synonym vkstate = "vdrv kstate"

definition upd_v :: "(vdrv \<Rightarrow> vdrv) \<Rightarrow> vkstate \<Rightarrow> vkstate" where
  "upd_v f s = s\<lparr>fs := f (fs s)\<rparr>"

definition set_desc :: "nat \<Rightarrow> vdesc \<Rightarrow> vdrv \<Rightarrow> vdrv" where
  "set_desc i x v = v\<lparr>desc := (desc v)(i := x)\<rparr>"

definition set_busy :: "nat \<Rightarrow> int \<Rightarrow> vdrv \<Rightarrow> vdrv" where
  "set_busy b d v = v\<lparr>vbufs := (vbufs v)(b := (vbufs v b)\<lparr>vdisk := d\<rparr>)\<rparr>"

subsection \<open>Initialisation\<close>

text \<open>What the device's registers answer.\<close>

record vregs =
  r_magic :: u32
  r_version :: u32
  r_device :: u32
  r_vendor :: u32
  r_features :: u32
  r_features_ok :: bool
  r_ready :: u32
  r_num_max :: u32

text \<open>The feature bits that are turned off.\<close>

definition refused :: "nat list" where
  "refused = [5, 7, 11, 12, 27, 29, 28]"

definition features :: "vregs \<Rightarrow> u64" where
  "features r = fold (\<lambda>k x. and x (not (push_bit k 1))) refused (ucast (r_features r))"

text \<open>The descriptor and ring pages are zero, so their maps are; the result has the features written to the device.\<close>

definition virtio_disk_init :: "vregs \<Rightarrow> vkstate \<Rightarrow> (u32 \<times> vkstate) option" where
  "virtio_disk_init r s =
     (if r_magic r \<noteq> 0x74726976 \<or> r_version r \<noteq> 2 \<or> r_device r \<noteq> 2 \<or> r_vendor r \<noteq> 0x554d4551 then None
      else if \<not> r_features_ok r then None
      else if r_ready r \<noteq> 0 then None
      else if r_num_max r = 0 then None
      else if r_num_max r < word_of_nat NUM then None
      else
        (let (d, m) = kalloc (pm s); (a, m) = kalloc m; (u, m) = kalloc m in
        if d = 0 \<or> a = 0 \<or> u = 0 then None
        else Some (ucast (features r),
          upd_v (\<lambda>v. v\<lparr>desc := (\<lambda>_. \<lparr>va = VNull, vlen = 0, vflags = 0, vnext = 0\<rparr>), avail_ring := (\<lambda>_. 0), avail_idx := 0,
            used_ring := (\<lambda>_. 0), used_end := 0, dfree := (\<lambda>i. if i < NUM then 1 else dfree v i)\<rparr>) (s\<lparr>pm := m\<rparr>))))"

subsection \<open>Descriptors\<close>

definition alloc_desc :: "vkstate \<Rightarrow> nat option \<times> vkstate" where
  "alloc_desc s =
     (case find (\<lambda>i. dfree (fs s) i \<noteq> 0) [0..<NUM] of
        Some i \<Rightarrow> (Some i, upd_v (\<lambda>v. v\<lparr>dfree := (dfree v)(i := 0)\<rparr>) s)
      | None \<Rightarrow> (None, s))"

definition free_desc :: "nat option \<Rightarrow> nat \<Rightarrow> vkstate \<Rightarrow> vkstate option" where
  "free_desc cur i s =
     (if i \<ge> NUM then None
      else if dfree (fs s) i \<noteq> 0 then None
      else wakeup cur ChFree
        (upd_v (\<lambda>v. set_desc i \<lparr>va = VNull, vlen = 0, vflags = 0, vnext = 0\<rparr> v\<lparr>dfree := (dfree v)(i := 1)\<rparr>) s))"

partial_function (option) free_chain :: "nat option \<Rightarrow> nat \<Rightarrow> vkstate \<Rightarrow> vkstate option" where
  "free_chain cur i s =
     (let x = desc (fs s) i in
      Option.bind (free_desc cur i s) (\<lambda>s.
        if and (vflags x) F_NEXT \<noteq> 0 then free_chain cur (unat (vnext x)) s else Some s))"

text \<open>The descriptors found so far are given back when one is missing.\<close>

fun free_all :: "nat option \<Rightarrow> nat list \<Rightarrow> vkstate \<Rightarrow> vkstate option" where
  "free_all cur [] s = Some s"
| "free_all cur (i # is) s = Option.bind (free_desc cur i s) (free_all cur is)"

fun alloc_descs :: "nat option \<Rightarrow> nat \<Rightarrow> nat list \<Rightarrow> vkstate \<Rightarrow> (nat list option \<times> vkstate) option" where
  "alloc_descs cur 0 idx s = Some (Some idx, s)"
| "alloc_descs cur (Suc k) idx s =
     (case alloc_desc s of
        (Some i, s) \<Rightarrow> alloc_descs cur k (idx @ [i]) s
      | (None, s) \<Rightarrow> map_option (\<lambda>s. (None, s)) (free_all cur idx s))"

definition alloc3_desc :: "nat option \<Rightarrow> vkstate \<Rightarrow> (nat list option \<times> vkstate) option" where
  "alloc3_desc cur s = alloc_descs cur 3 [] s"

subsection \<open>Requests\<close>

text \<open>The end of a turn: done, asleep for descriptors, or asleep for the request whose chain starts at an index.\<close>

datatype vrw = RwDone | RwNoDesc | RwWait nat

definition rw_wait :: "nat \<Rightarrow> nat \<Rightarrow> nat \<Rightarrow> vkstate \<Rightarrow> (vrw \<times> vkstate) option" where
  "rw_wait cur b i s =
     (if vdisk (vbufs (fs s) b) = 1 then do { s \<leftarrow> sleep cur (ChDisk b) VDiskLock s; Some (RwWait i, s) }
      else do {
        s \<leftarrow> free_chain (Some cur) i (upd_v (\<lambda>v. v\<lparr>info_b := (info_b v)(i := None)\<rparr>) s);
        s \<leftarrow> k_release VDiskLock s;
        Some (RwDone, s)
      })"

text \<open>The request in its three descriptors, and the entry in the ring of available requests. The block number of the
  locked buffer has not changed since the entry of the call, where the code computes the sector.\<close>

definition rw_format :: "nat \<Rightarrow> bool \<Rightarrow> nat list \<Rightarrow> vdrv \<Rightarrow> vdrv" where
  "rw_format b wr idx v =
     (let i0 = idx ! 0; i1 = idx ! 1; i2 = idx ! 2;
          sector = ucast (vblockno (vbufs v b) * 2) :: u64;
          v = v\<lparr>ops := (ops v)(i0 := \<lparr>rtype = (if wr then BLK_T_OUT else BLK_T_IN), rreserved = 0, rsector = sector\<rparr>)\<rparr>;
          v = set_desc i0 \<lparr>va = VReq i0, vlen = 16, vflags = F_NEXT, vnext = word_of_nat i1\<rparr> v;
          v = set_desc i1 \<lparr>va = VData b, vlen = 1024, vflags = or (if wr then 0 else F_WRITE) F_NEXT, vnext = word_of_nat i2\<rparr> v;
          v = v\<lparr>info_status := (info_status v)(i0 := 0xff)\<rparr>;
          v = set_desc i2 \<lparr>va = VStatus i0, vlen = 1, vflags = F_WRITE, vnext = 0\<rparr> v;
          v = set_busy b 1 v;
          v = v\<lparr>info_b := (info_b v)(i0 := Some b)\<rparr>;
          v = v\<lparr>avail_ring := (avail_ring v)(unat (avail_idx v) mod NUM := word_of_nat i0)\<rparr> in
      v\<lparr>avail_idx := avail_idx v + 1\<rparr>)"

definition rw_turn :: "nat \<Rightarrow> nat \<Rightarrow> bool \<Rightarrow> vkstate \<Rightarrow> (vrw \<times> vkstate) option" where
  "rw_turn cur b wr s = do {
     (r, s) \<leftarrow> alloc3_desc (Some cur) s;
     (case r of
        Some idx \<Rightarrow> rw_wait cur b (idx ! 0) (upd_v (rw_format b wr idx) s)
      | None \<Rightarrow> do { s \<leftarrow> sleep cur ChFree VDiskLock s; Some (RwNoDesc, s) })
   }"

definition virtio_disk_rw :: "nat \<Rightarrow> nat \<Rightarrow> bool \<Rightarrow> vkstate \<Rightarrow> (vrw \<times> vkstate) option" where
  "virtio_disk_rw cur b wr s = Option.bind (k_acquire VDiskLock s) (rw_turn cur b wr)"

text \<open>After the sleep for descriptors, and after the sleep for the request.\<close>

definition rw_retry :: "nat \<Rightarrow> nat \<Rightarrow> bool \<Rightarrow> vkstate \<Rightarrow> (vrw \<times> vkstate) option" where
  "rw_retry cur b wr s = Option.bind (sleep_resume cur VDiskLock s) (rw_turn cur b wr)"

definition rw_resume :: "nat \<Rightarrow> nat \<Rightarrow> nat \<Rightarrow> vkstate \<Rightarrow> (vrw \<times> vkstate) option" where
  "rw_resume cur b i s = Option.bind (sleep_resume cur VDiskLock s) (rw_wait cur b i)"

subsection \<open>Interrupts\<close>

function intr_loop :: "nat option \<Rightarrow> vkstate \<Rightarrow> vkstate option" where
  "intr_loop cur s =
     (let v = fs s in
      if used_idx v \<noteq> used_end v then
        (let i = unat (used_ring v (unat (used_idx v) mod NUM)) in
         if info_status v i \<noteq> 0 then None
         else (case info_b v i of
             None \<Rightarrow> None
           | Some b \<Rightarrow>
               (case wakeup cur (ChDisk b) (upd_v (set_busy b 0) s) of
                  None \<Rightarrow> None
                | Some s' \<Rightarrow> intr_loop cur (upd_v (\<lambda>_. (set_busy b 0 v)\<lparr>used_idx := used_idx v + 1\<rparr>) s'))))
      else Some s)"
  by pat_completeness auto
termination
proof (relation "measure (\<lambda>(_, s). unat (used_end (fs s) - used_idx (fs s)))", simp)
  fix cur s v i b and s' :: vkstate
  assume "v = fs (s :: vkstate)" "used_idx v \<noteq> used_end v"
  then have "used_end v - used_idx v \<noteq> 0" by simp
  then have "unat (used_end v - used_idx v - 1) < unat (used_end v - used_idx v)"
    by (simp add: unat_minus_one unat_gt_0)
  then show "((cur, upd_v (\<lambda>_. (set_busy b 0 v)\<lparr>used_idx := used_idx v + 1\<rparr>) s'), cur, s)
      \<in> measure (\<lambda>(_, s). unat (used_end (fs s) - used_idx (fs s)))"
    using \<open>v = fs s\<close> by (simp add: upd_v_def set_busy_def diff_diff_eq add.commute)
qed

declare intr_loop.simps [simp del]

definition disk_intr :: "nat option \<Rightarrow> vkstate \<Rightarrow> vkstate option" where
  "disk_intr cur s = do {
     s \<leftarrow> k_acquire VDiskLock s;
     s \<leftarrow> intr_loop cur s;
     k_release VDiskLock s
   }"

end
