(* ===== verification/Dev_Disk_Inv.thy ===== *)
theory Dev_Disk_Inv
  imports Dev_Disk
begin

text \<open>
  The requests in flight: each owns three descriptors, and is queued for the device, served by it, or noticed by
  the driver. The device fetches the heads of chains from one ring, carries the requests out in any order and
  returns them in the other. Every step of driver and device keeps the invariant \<open>vinv\<close>, and so does every operation of
  the driver, which the last part runs from a state that satisfies it.
\<close>

subsection \<open>The device\<close>

text \<open>What the driver relies on of the device, from the specification of virtio: it takes the chains in the order of the
  available ring, carries each out as its descriptors say, writes status 0 and enters its head in the used ring.\<close>

text \<open>The place it has reached in the ring of available requests, and the heads it is working on.\<close>

record dev =
  seen :: "16 word"
  taken_up :: "nat list"

definition dev_fetch :: "vdrv \<Rightarrow> dev \<Rightarrow> dev option" where
  "dev_fetch v d =
     (if seen d = avail_idx v then None
      else Some \<lparr>seen = seen d + 1, taken_up = taken_up d @ [unat (avail_ring v (unat (seen d) mod NUM))]\<rparr>)"

text \<open>A request is read from its chain, which must have the form the device expects; a refused one is \<^const>\<open>None\<close>.\<close>

definition dev_complete :: "nat \<Rightarrow> vdrv \<Rightarrow> vdrv option" where
  "dev_complete i v =
     (let d0 = desc v i; d1 = desc v (unat (vnext d0)); d2 = desc v (unat (vnext d1)) in
      if and (vflags d0) F_NEXT = 0 \<or> and (vflags d1) F_NEXT = 0 \<or> vlen d0 \<noteq> 16 \<or> vlen d1 \<noteq> 1024 \<or> vlen d2 \<noteq> 1 \<or> vflags d2 \<noteq> F_WRITE then None
      else (case (va d0, va d1, va d2) of
          (VReq k, VData b, VStatus j) \<Rightarrow>
            (let q = ops v k;
                 w = (if rtype q = BLK_T_OUT \<and> and (vflags d1) F_WRITE = 0 then Some (v\<lparr>platter := (platter v)(rsector q := vdata (vbufs v b))\<rparr>)
                      else if rtype q = BLK_T_IN \<and> and (vflags d1) F_WRITE \<noteq> 0 then
                        Some (v\<lparr>vbufs := (vbufs v)(b := (vbufs v b)\<lparr>vdata := platter v (rsector q)\<rparr>)\<rparr>)
                      else None) in
             map_option (\<lambda>w. w\<lparr>info_status := (info_status w)(j := 0),
               used_ring := (used_ring w)(unat (used_end w) mod NUM := word_of_nat i), used_end := used_end w + 1\<rparr>) w)
        | _ \<Rightarrow> None))"

subsection \<open>Segments of a ring\<close>

definition ring_part :: "(nat \<Rightarrow> 'b::len word) \<Rightarrow> 16 word \<Rightarrow> nat \<Rightarrow> nat list" where
  "ring_part f a n = map (\<lambda>j. unat (f (unat (a + word_of_nat j) mod NUM))) [0..<n]"

lemma seg_at: "unat (a + word_of_nat j :: 16 word) mod NUM = (unat a + j) mod NUM"
proof -
  have "unat (a + word_of_nat j) = (unat a + j mod 2 ^ 16) mod 2 ^ 16" by (simp add: unat_word_ariths unat_of_nat)
  moreover have "(unat a + j mod 2 ^ 16) mod 2 ^ 16 mod 8 = (unat a + j mod 2 ^ 16) mod 8" by (intro mod_mod_cancel) simp
  moreover have "j mod 2 ^ 16 mod 8 = j mod 8" by (intro mod_mod_cancel) simp
  then have "(unat a + j mod 2 ^ 16) mod 8 = (unat a + j) mod 8" by (metis mod_add_right_eq)
  ultimately show ?thesis by (simp add: NUM_def)
qed

lemma seg_length [simp]: "length (ring_part f a n) = n"
  by (simp add: ring_part_def)

lemma seg_put:
  assumes "n < NUM"
  shows "ring_part (f(unat (a + word_of_nat n) mod NUM := x)) a (Suc n) = ring_part f a n @ [unat x]"
proof -
  have "(unat a + j) mod NUM \<noteq> (unat a + n) mod NUM" if "j < n" for j
  proof
    assume "(unat a + j) mod NUM = (unat a + n) mod NUM"
    then have "NUM dvd (unat a + n) - (unat a + j)" using that by (subst mod_eq_dvd_iff_nat [symmetric]) auto
    then show False using that assms by (auto dest: dvd_imp_le)
  qed
  then show ?thesis by (simp add: ring_part_def seg_at)
qed

lemma seg_Cons: "ring_part f a (Suc n) = unat (f (unat a mod NUM)) # ring_part f (a + 1) n"
proof -
  have "unat (a + word_of_nat (Suc j)) mod NUM = unat (a + 1 + word_of_nat j) mod NUM" for j by (simp add: algebra_simps)
  moreover have "[0..<Suc n] = 0 # map Suc [0..<n]" by (simp add: map_Suc_upt upt_conv_Cons)
  ultimately show ?thesis by (simp add: ring_part_def o_def algebra_simps)
qed

lemma idx_step:
  assumes "unat (b - a :: 16 word) < 2 ^ 16 - 1"
  shows "unat (b + 1 - a) = Suc (unat (b - a))" "b = a + word_of_nat (unat (b - a))"
proof -
  have "b + 1 - a = (b - a) + 1" by simp
  moreover have "unat ((b - a) + 1) = Suc (unat (b - a))" using assms by (simp add: unat_word_ariths)
  ultimately show "unat (b + 1 - a) = Suc (unat (b - a))" by (simp only:)
qed simp

lemma idx_back:
  assumes "a \<noteq> (b :: 16 word)"
  shows "unat (b - a) = Suc (unat (b - (a + 1)))"
proof -
  have "b - (a + 1) = b - a - 1" by simp
  moreover have "b - a \<noteq> 0" using assms by simp
  ultimately have "unat (b - (a + 1)) = unat (b - a) - 1" by (simp only: unat_minus_one not_False_eq_True)
  moreover have "0 < unat (b - a)" using assms by (simp add: unat_gt_0)
  ultimately show ?thesis by simp
qed

subsection \<open>The invariant\<close>

datatype phase = Queued | Served | Noticed

record vrequest =
  q1 :: nat
  q2 :: nat
  qb :: nat
  qw :: bool
  qph :: phase

type_synonym requests = "nat \<Rightarrow> vrequest option"

definition chain :: "nat \<Rightarrow> vrequest \<Rightarrow> nat list" where
  "chain i q = [i, q1 q, q2 q]"

definition sector_of :: "vdrv \<Rightarrow> nat \<Rightarrow> u64" where
  "sector_of v b = ucast (vblockno (vbufs v b) * 2)"

definition request_ok :: "vdrv \<Rightarrow> nat \<Rightarrow> vrequest \<Rightarrow> bool" where
  "request_ok v i q \<longleftrightarrow>
     distinct (chain i q) \<and> set (chain i q) \<subseteq> {..<NUM} \<and>
     desc v i = \<lparr>va = VReq i, vlen = 16, vflags = F_NEXT, vnext = word_of_nat (q1 q)\<rparr> \<and>
     desc v (q1 q) = \<lparr>va = VData (qb q), vlen = 1024, vflags = or (if qw q then 0 else F_WRITE) F_NEXT, vnext = word_of_nat (q2 q)\<rparr> \<and>
     desc v (q2 q) = \<lparr>va = VStatus i, vlen = 1, vflags = F_WRITE, vnext = 0\<rparr> \<and>
     ops v i = \<lparr>rtype = (if qw q then BLK_T_OUT else BLK_T_IN), rreserved = 0, rsector = sector_of v (qb q)\<rparr> \<and>
     vdisk (vbufs v (qb q)) = (if qph q = Noticed then 0 else 1) \<and> (qph q = Served \<longrightarrow> info_status v i = 0)"

definition in_phase :: "phase \<Rightarrow> requests \<Rightarrow> nat set" where
  "in_phase ph R = {i. \<exists>q. R i = Some q \<and> qph q = ph}"

definition in_chains :: "requests \<Rightarrow> nat set" where
  "in_chains R = {j. \<exists>i q. R i = Some q \<and> j \<in> set (chain i q)}"

text \<open>Each request is in its descriptors, and no two share a descriptor or a buffer.\<close>

definition reqs_ok :: "requests \<Rightarrow> vdrv \<Rightarrow> bool" where
  "reqs_ok R v \<longleftrightarrow>
     (\<forall>i q. R i = Some q \<longrightarrow> request_ok v i q) \<and>
     (\<forall>i j q r. R i = Some q \<longrightarrow> R j = Some r \<longrightarrow> i \<noteq> j \<longrightarrow> set (chain i q) \<inter> set (chain j r) = {} \<and> qb q \<noteq> qb r) \<and>
     (\<forall>i. info_b v i = map_option qb (R i))"

text \<open>The descriptors \<open>X\<close> are taken and belong to no request yet, or no longer.\<close>

definition free_ok :: "nat set \<Rightarrow> requests \<Rightarrow> vdrv \<Rightarrow> bool" where
  "free_ok X R v \<longleftrightarrow> in_chains R \<inter> X = {} \<and> X \<subseteq> {..<NUM} \<and> (\<forall>i < NUM. dfree v i = 0 \<longleftrightarrow> i \<in> in_chains R \<union> X)"

text \<open>The queued requests are those the device has still to see and those it works on, each once; the served ones
  are those the driver has still to see.\<close>

definition to_device :: "dev \<Rightarrow> vdrv \<Rightarrow> nat list" where
  "to_device d v = taken_up d @ ring_part (avail_ring v) (seen d) (unat (avail_idx v - seen d))"

definition to_driver :: "vdrv \<Rightarrow> nat list" where
  "to_driver v = ring_part (used_ring v) (used_idx v) (unat (used_end v - used_idx v))"

definition rings_ok :: "requests \<Rightarrow> dev \<Rightarrow> vdrv \<Rightarrow> bool" where
  "rings_ok R d v \<longleftrightarrow>
     distinct (to_device d v) \<and> set (to_device d v) = in_phase Queued R \<and>
     distinct (to_driver v) \<and> set (to_driver v) = in_phase Served R"

definition vinv :: "nat set \<Rightarrow> requests \<Rightarrow> dev \<Rightarrow> vdrv \<Rightarrow> bool" where
  "vinv X R d v \<longleftrightarrow> reqs_ok R v \<and> free_ok X R v \<and> rings_ok R d v"

lemma reqs_okD:
  assumes "reqs_ok R v"
  shows "R i = Some q \<Longrightarrow> request_ok v i q"
    "R i = Some q \<Longrightarrow> R j = Some r \<Longrightarrow> i \<noteq> j \<Longrightarrow> set (chain i q) \<inter> set (chain j r) = {}"
    "R i = Some q \<Longrightarrow> R j = Some r \<Longrightarrow> i \<noteq> j \<Longrightarrow> qb q \<noteq> qb r"
    "info_b v i = map_option qb (R i)"
  using assms unfolding reqs_ok_def by blast+

lemma request_range: "reqs_ok R v \<Longrightarrow> R i = Some q \<Longrightarrow> set (chain i q) \<subseteq> {..<NUM}"
  using reqs_okD(1) [of R v i q] by (auto simp: request_ok_def)

lemma phase_range: "reqs_ok R v \<Longrightarrow> in_phase ph R \<subseteq> {..<NUM}"
  using request_range by (fastforce simp: in_phase_def chain_def)

lemma owned_head: "R i = Some q \<Longrightarrow> set (chain i q) \<subseteq> in_chains R"
  by (auto simp: in_chains_def)

lemma in_phase_owned: "i \<in> in_phase ph R \<Longrightarrow> i \<in> in_chains R"
  by (force simp: in_phase_def in_chains_def chain_def)

lemma owned_new:
  assumes "R i = None"
  shows "in_chains (R(i \<mapsto> q)) = in_chains R \<union> set (chain i q)"
proof (intro set_eqI iffI)
  fix j assume "j \<in> in_chains R \<union> set (chain i q)"
  then consider "j \<in> set (chain i q)" | k r where "R k = Some r" "j \<in> set (chain k r)" "k \<noteq> i"
    using assms unfolding in_chains_def by fastforce
  then show "j \<in> in_chains (R(i \<mapsto> q))" unfolding in_chains_def by cases auto
qed (auto simp: in_chains_def split: if_splits)

text \<open>A request may move to another phase.\<close>

lemma phase_change:
  assumes ok: "reqs_ok R v" and i: "R i = Some q" and info: "info_b w = info_b v"
    and r: "\<And>j r. (R(i \<mapsto> q\<lparr>qph := p\<rparr>)) j = Some r \<Longrightarrow> request_ok w j r"
  shows "reqs_ok (R(i \<mapsto> q\<lparr>qph := p\<rparr>)) w" "in_chains (R(i \<mapsto> q\<lparr>qph := p\<rparr>)) = in_chains R"
proof -
  let ?R = "R(i \<mapsto> q\<lparr>qph := p\<rparr>)"
  have b: "\<exists>r'. R j = Some r' \<and> chain j r = chain j r' \<and> qb r = qb r'" if "?R j = Some r" for j r
    using that i by (auto simp: chain_def split: if_splits)
  have f: "\<exists>r'. ?R j = Some r' \<and> chain j r = chain j r'" if "R j = Some r" for j r
    using that i by (auto simp: chain_def split: if_splits)
  show "in_chains ?R = in_chains R" 
  proof (intro set_eqI iffI)
    fix j assume "j \<in> in_chains ?R"
    then obtain k r where "?R k = Some r" "j \<in> set (chain k r)" by (force simp only: in_chains_def)
    then show "j \<in> in_chains R" using b [of k r] by (force simp only: in_chains_def)
  next
    fix j assume "j \<in> in_chains R"
    then obtain k r where "R k = Some r" "j \<in> set (chain k r)" by (force simp only: in_chains_def)
    then show "j \<in> in_chains ?R" using f [of k r] by (force simp only: in_chains_def)
  qed
  show "reqs_ok ?R w" unfolding reqs_ok_def
  proof (intro conjI allI impI)
    fix j k r t assume jk: "?R j = Some r" "?R k = Some t" "j \<noteq> k"
    obtain r' t' where *: "R j = Some r'" "chain j r = chain j r'" "qb r = qb r'" "R k = Some t'" "chain k t = chain k t'" "qb t = qb t'"
      using b [OF jk(1)] b [OF jk(2)] by blast
    show "set (chain j r) \<inter> set (chain k t) = {}" using reqs_okD(2) [OF ok *(1,4) jk(3)] *(2,5) by simp
    show "qb r \<noteq> qb t" using reqs_okD(3) [OF ok *(1,4) jk(3)] *(3,6) by simp
  qed (use r reqs_okD(4) [OF ok] i info in auto)
qed

lemma in_phase_upd: "in_phase ph (R(i \<mapsto> q)) = (if qph q = ph then insert i (in_phase ph R) else in_phase ph R - {i})"
  by (auto simp: in_phase_def)

lemma in_phase_del: "in_phase ph (R(i := None)) = in_phase ph R - {i}"
  by (auto simp: in_phase_def)

lemma short_list:
  assumes "distinct xs" "set xs \<subseteq> {..<NUM} - {i}" "i < NUM"
  shows "length xs < NUM"
proof -
  have "card (set xs) \<le> card ({..<NUM} - {i})" using assms(2) by (intro card_mono) auto
  then show ?thesis using assms(1,3) by (simp add: distinct_card)
qed

lemma unat_small: "i < NUM \<Longrightarrow> unat (word_of_nat i :: 16 word) = i" "i < NUM \<Longrightarrow> unat (word_of_nat i :: u32) = i"
  by (simp_all add: NUM_def unat_of_nat)

subsection \<open>Descriptors are taken and given back\<close>

lemma take_vinv:
  assumes "vinv X R d v" "i < NUM" "dfree v i \<noteq> 0"
  shows "vinv (insert i X) R d (v\<lparr>dfree := (dfree v)(i := 0)\<rparr>)" "i \<notin> X"
  using assms unfolding vinv_def reqs_ok_def free_ok_def rings_ok_def request_ok_def sector_of_def to_device_def to_driver_def by auto

definition cleared :: "nat \<Rightarrow> vdrv \<Rightarrow> vdrv" where
  "cleared i v = set_desc i \<lparr>va = VNull, vlen = 0, vflags = 0, vnext = 0\<rparr> v\<lparr>dfree := (dfree v)(i := 1)\<rparr>"

lemma cleared_vinv:
  assumes "vinv X R d v" "i \<in> X"
  shows "vinv (X - {i}) R d (cleared i v)"
proof -
  have "reqs_ok R v" "free_ok X R v" using assms by (simp_all add: vinv_def)
  then have "i \<notin> in_chains R" "i < NUM" using assms(2) by (auto simp: free_ok_def)
  have "request_ok (cleared i v) j q" if "R j = Some q" for j q
  proof -
    have "i \<notin> set (chain j q)" using owned_head [of R j q] that \<open>i \<notin> in_chains R\<close> by blast
    then show ?thesis using reqs_okD(1) [OF \<open>reqs_ok R v\<close> that]
      by (simp add: request_ok_def cleared_def set_desc_def chain_def sector_of_def)
  qed
  then have "reqs_ok R (cleared i v)" using \<open>reqs_ok R v\<close> unfolding reqs_ok_def by (simp add: cleared_def set_desc_def)
  moreover have "free_ok (X - {i}) R (cleared i v)" using \<open>free_ok X R v\<close> \<open>i \<notin> in_chains R\<close>
    unfolding free_ok_def by (auto simp: cleared_def set_desc_def)
  moreover have "rings_ok R d (cleared i v)" using assms(1)
    by (simp add: vinv_def rings_ok_def to_device_def to_driver_def cleared_def set_desc_def)
  ultimately show ?thesis by (simp add: vinv_def)
qed

subsection \<open>A request is queued\<close>

lemma format_vinv:
  assumes v: "vinv {i0, i1, i2} R d v" and idx: "distinct [i0, i1, i2]" and b: "\<And>i q. R i = Some q \<Longrightarrow> qb q \<noteq> b"
  shows "vinv {} (R(i0 \<mapsto> \<lparr>q1 = i1, q2 = i2, qb = b, qw = wr, qph = Queued\<rparr>)) d (rw_format b wr [i0, i1, i2] v)"
    (is "vinv {} ?R d ?v")
proof -
  let ?q = "\<lparr>q1 = i1, q2 = i2, qb = b, qw = wr, qph = Queued\<rparr>"
  have ok: "reqs_ok R v" "free_ok {i0, i1, i2} R v" "rings_ok R d v" using v by (simp_all add: vinv_def)
  have r: "i0 < NUM" "i1 < NUM" "i2 < NUM" "{i0, i1, i2} \<inter> in_chains R = {}" using ok(2) by (auto simp: free_ok_def)
  then have "R i0 = None" using owned_head [of R i0] by (auto simp: chain_def) (metis insert_iff option.exhaust)
  have new: "request_ok ?v i0 ?q" using idx r
    by (auto simp: request_ok_def rw_format_def Let_def set_desc_def set_busy_def chain_def sector_of_def)
  have old: "request_ok ?v j q" if "R j = Some q" for j q
  proof -
    have "set (chain j q) \<inter> {i0, i1, i2} = {}" using owned_head [of R j q] that r by blast
    then show ?thesis using reqs_okD(1) [OF ok(1) that] b [OF that]
      by (auto simp: request_ok_def rw_format_def Let_def set_desc_def set_busy_def chain_def sector_of_def)
  qed
  have "reqs_ok ?R ?v" unfolding reqs_ok_def
  proof (intro conjI allI impI)
    fix j q assume "?R j = Some q" then show "request_ok ?v j q" using new old by (auto split: if_splits)
  next
    fix i j q q' assume *: "?R i = Some q" "?R j = Some q'" "i \<noteq> j"
    have "set (chain k p) \<inter> {i0, i1, i2} = {}" if "R k = Some p" for k p using owned_head [of R k p] that r by blast
    moreover have "set (chain i0 ?q) = {i0, i1, i2}" by (simp add: chain_def)
    ultimately show "set (chain i q) \<inter> set (chain j q') = {}" using * reqs_okD(2) [OF ok(1), of i q j q']
      by (auto split: if_splits simp del: set_simps)
  next
    fix i j q q' assume *: "?R i = Some q" "?R j = Some q'" "i \<noteq> j"
    consider "i = i0" "R j = Some q'" | "j = i0" "R i = Some q" | "R i = Some q" "R j = Some q'" using * by (auto split: if_splits)
    then show "qb q \<noteq> qb q'" using * reqs_okD(3) [OF ok(1), of i q j q'] b [of i q] b [of j q'] by cases auto
  next
    fix i show "info_b ?v i = map_option qb (?R i)" using reqs_okD(4) [OF ok(1), of i]
      by (simp add: rw_format_def Let_def set_desc_def set_busy_def)
  qed
  moreover have own: "in_chains ?R = in_chains R \<union> {i0, i1, i2}" using owned_new [of R i0] \<open>R i0 = None\<close> by (simp add: chain_def)
  then have "free_ok {} ?R ?v" using ok(2) by (simp add: free_ok_def rw_format_def Let_def set_desc_def set_busy_def)
  moreover have "rings_ok ?R d ?v"
  proof -
    let ?n = "unat (avail_idx v - seen d)"
    have fresh: "i0 \<notin> in_phase ph R" for ph using \<open>R i0 = None\<close> by (simp add: in_phase_def)
    have dv: "distinct (to_device d v)" "set (to_device d v) = in_phase Queued R" using ok(3) by (simp_all add: rings_ok_def)
    then have "length (to_device d v) < NUM" using phase_range [OF ok(1)] fresh r(1) by (intro short_list [of _ i0]) auto
    then have n: "?n < NUM" "?n < 2 ^ 16 - 1" by (simp_all add: to_device_def NUM_def)
    have "avail_idx v = seen d + word_of_nat ?n" by simp
    then have "to_device d ?v = to_device d v @ [i0]"
      using seg_put [OF n(1), where f = "avail_ring v" and a = "seen d" and x = "word_of_nat i0"] idx_step(1) [OF n(2)] unat_small(1) [OF r(1)]
      by (simp add: to_device_def rw_format_def Let_def set_desc_def set_busy_def)
    moreover have "to_driver ?v = to_driver v" by (simp add: to_driver_def rw_format_def Let_def set_desc_def set_busy_def)
    ultimately show ?thesis using ok(3) fresh unfolding rings_ok_def by (simp add: in_phase_upd)
  qed
  ultimately show ?thesis by (simp add: vinv_def)
qed

subsection \<open>The device's steps\<close>

lemma fetch_vinv:
  assumes v: "vinv X R d v" and d': "dev_fetch v d = Some d'"
  shows "vinv X R d' v" "to_device d' v = to_device d v"
proof -
  have ne: "seen d \<noteq> avail_idx v" and d: "d' = \<lparr>seen = seen d + 1, taken_up = taken_up d @ [unat (avail_ring v (unat (seen d) mod NUM))]\<rparr>"
    using d' by (auto simp: dev_fetch_def split: if_splits)
  have "ring_part (avail_ring v) (seen d) (unat (avail_idx v - seen d)) =
      unat (avail_ring v (unat (seen d) mod NUM)) # ring_part (avail_ring v) (seen d + 1) (unat (avail_idx v - (seen d + 1)))"
    by (simp only: idx_back [OF ne] seg_Cons)
  then show "to_device d' v = to_device d v" by (simp add: to_device_def d)
  with v show "vinv X R d' v" by (simp add: vinv_def rings_ok_def)
qed

text \<open>What a completed request has done: its block has been copied, one way or the other.\<close>

definition transfer :: "nat \<Rightarrow> bool \<Rightarrow> vdrv \<Rightarrow> vdrv" where
  "transfer b wr v =
     (if wr then v\<lparr>platter := (platter v)(sector_of v b := vdata (vbufs v b))\<rparr>
      else v\<lparr>vbufs := (vbufs v)(b := (vbufs v b)\<lparr>vdata := platter v (sector_of v b)\<rparr>)\<rparr>)"

definition returned :: "nat \<Rightarrow> vdrv \<Rightarrow> vdrv" where
  "returned i v = v\<lparr>info_status := (info_status v)(i := 0),
     used_ring := (used_ring v)(unat (used_end v) mod NUM := word_of_nat i), used_end := used_end v + 1\<rparr>"

lemma complete_eq:
  assumes "request_ok v i q"
  shows "dev_complete i v = Some (returned i (transfer (qb q) (qw q) v))"
proof -
  have n: "unat (word_of_nat (q1 q) :: 16 word) = q1 q" "unat (word_of_nat (q2 q) :: 16 word) = q2 q"
    using assms by (auto simp: request_ok_def chain_def unat_small)
  have "BLK_T_IN \<noteq> BLK_T_OUT" by (simp add: BLK_T_IN_def BLK_T_OUT_def)
  then show ?thesis using assms
    by (cases "qw q") (simp_all add: F_NEXT_def F_WRITE_def request_ok_def dev_complete_def n Let_def transfer_def returned_def)
qed

lemma complete_vinv:
  assumes v: "vinv X R d v" and i: "R i = Some q" "i \<in> set (taken_up d)"
  shows "vinv X (R(i \<mapsto> q\<lparr>qph := Served\<rparr>)) (d\<lparr>taken_up := remove1 i (taken_up d)\<rparr>) (returned i (transfer (qb q) (qw q) v))"
    (is "vinv X ?R ?d ?v")
proof -
  have ok: "reqs_ok R v" "free_ok X R v" "rings_ok R d v" using v by (simp_all add: vinv_def)
  have "i \<in> set (to_device d v)" using i(2) by (simp add: to_device_def)
  then have ph: "qph q = Queued" "i \<in> in_phase Queued R" using ok(3) i(1) by (auto simp: rings_ok_def in_phase_def)
  have frame: "desc ?v = desc v" "ops ?v = ops v" "info_b ?v = info_b v" "dfree ?v = dfree v" "avail_ring ?v = avail_ring v"
    "avail_idx ?v = avail_idx v" "used_idx ?v = used_idx v" "vblockno (vbufs ?v b) = vblockno (vbufs v b)" "vdisk (vbufs ?v b) = vdisk (vbufs v b)" for b
    by (simp_all add: returned_def transfer_def)
  have st: "info_status ?v = (info_status v)(i := 0)" by (simp add: returned_def transfer_def)
  have r: "request_ok ?v j r" if "?R j = Some r" for j r
    using that reqs_okD(1) [OF ok(1), of j] i(1) ph(1) by (auto simp: request_ok_def frame st sector_of_def chain_def split: if_splits)
  have "reqs_ok ?R ?v" "in_chains ?R = in_chains R" using phase_change [OF ok(1) i(1) frame(3) r] by simp_all
  moreover from this have "free_ok X ?R ?v" using ok(2) by (simp add: free_ok_def frame)
  moreover have "rings_ok ?R ?d ?v"
  proof -
    let ?n = "unat (used_end v - used_idx v)"
    have ns: "i \<notin> in_phase Served R" using i(1) ph(1) by (simp add: in_phase_def)
    have dv: "distinct (to_driver v)" "set (to_driver v) = in_phase Served R" using ok(3) by (simp_all add: rings_ok_def)
    have iN: "i < NUM" using request_range [OF ok(1) i(1)] by (simp add: chain_def)
    have "length (to_driver v) < NUM" using dv phase_range [OF ok(1)] ns iN by (intro short_list [of _ i]) auto
    then have n: "?n < NUM" "?n < 2 ^ 16 - 1" by (simp_all add: to_driver_def NUM_def)
    have "used_end v = used_idx v + word_of_nat ?n" by simp
    then have "to_driver ?v = to_driver v @ [i]"
      using seg_put [OF n(1), where f = "used_ring v" and a = "used_idx v" and x = "word_of_nat i"] idx_step(1) [OF n(2)] unat_small(2) [OF iN]
      by (simp add: to_driver_def returned_def transfer_def)
    moreover have "distinct (to_device ?d ?v) \<and> set (to_device ?d ?v) = in_phase Queued R - {i}"
      using ok(3) i(2) by (auto simp: rings_ok_def to_device_def frame)
    ultimately show ?thesis using dv ns unfolding rings_ok_def by (simp add: in_phase_upd)
  qed
  ultimately show ?thesis by (simp add: vinv_def)
qed

subsection \<open>The driver notices a served request, and gives its descriptors back\<close>

definition noticed :: "nat \<Rightarrow> vdrv \<Rightarrow> vdrv" where
  "noticed b v = (set_busy b 0 v)\<lparr>used_idx := used_idx v + 1\<rparr>"

lemma notice_vinv:
  assumes v: "vinv X R d v" and ne: "used_idx v \<noteq> used_end v"
  defines "i \<equiv> unat (used_ring v (unat (used_idx v) mod NUM))"
  obtains q where "R i = Some q" "qph q = Served" "info_status v i = 0" "info_b v i = Some (qb q)"
    "vinv X (R(i \<mapsto> q\<lparr>qph := Noticed\<rparr>)) d (noticed (qb q) v)"
proof -
  have ok: "reqs_ok R v" "free_ok X R v" "rings_ok R d v" using v by (simp_all add: vinv_def)
  let ?rest = "ring_part (used_ring v) (used_idx v + 1) (unat (used_end v - (used_idx v + 1)))"
  have sp: "to_driver v = i # ?rest" by (simp only: to_driver_def idx_back [OF ne] seg_Cons i_def)
  then have ir: "i \<in> in_phase Served R" "distinct (i # ?rest)" "set (i # ?rest) = in_phase Served R" using ok(3) by (auto simp: rings_ok_def)
  then obtain q where q: "R i = Some q" "qph q = Served" by (auto simp: in_phase_def)
  let ?R = "R(i \<mapsto> q\<lparr>qph := Noticed\<rparr>)" and ?v = "noticed (qb q) v"
  have r: "request_ok ?v j r" if "?R j = Some r" for j r
  proof (cases "j = i")
    case True
    then have "r = q\<lparr>qph := Noticed\<rparr>" using that by simp
    with True show ?thesis using reqs_okD(1) [OF ok(1) q(1)] by (simp add: request_ok_def noticed_def set_busy_def chain_def sector_of_def)
  next
    case False
    then have "R j = Some r" "qb r \<noteq> qb q" using that reqs_okD(3) [OF ok(1), of j r i q] q(1) by auto
    then show ?thesis using reqs_okD(1) [OF ok(1), of j r] by (simp add: request_ok_def noticed_def set_busy_def sector_of_def)
  qed
  have "info_b ?v = info_b v" by (simp add: noticed_def set_busy_def)
  note * = phase_change [OF ok(1) q(1) this r]
  have "reqs_ok ?R ?v" "in_chains ?R = in_chains R" using * by simp_all
  moreover from this have "free_ok X ?R ?v" using ok(2) by (simp add: free_ok_def noticed_def set_busy_def)
  moreover have "to_driver ?v = ?rest" "to_device d ?v = to_device d v"
    by (simp_all add: to_driver_def to_device_def noticed_def set_busy_def)
  then have "rings_ok ?R d ?v" using ok(3) ir q unfolding rings_ok_def by (auto simp: in_phase_upd in_phase_def)
  ultimately have "vinv X ?R d ?v" by (simp add: vinv_def)
  moreover have "info_status v i = 0" "info_b v i = Some (qb q)"
    using reqs_okD(1) [OF ok(1) q(1)] reqs_okD(4) [OF ok(1), of i] q by (simp_all add: request_ok_def)
  ultimately show thesis using that q by blast
qed

lemma drop_vinv:
  assumes v: "vinv {} R d v" and q: "R i = Some q" "qph q = Noticed"
  shows "vinv (set (chain i q)) (R(i := None)) d (v\<lparr>info_b := (info_b v)(i := None)\<rparr>)" (is "vinv _ ?R d ?v")
proof -
  have ok: "reqs_ok R v" "free_ok {} R v" "rings_ok R d v" using v by (simp_all add: vinv_def)
  have r: "request_ok ?v j r" if "?R j = Some r" for j r
    using that reqs_okD(1) [OF ok(1), of j r] by (auto simp: request_ok_def sector_of_def split: if_splits)
  have "reqs_ok ?R ?v" unfolding reqs_ok_def
  proof (intro conjI allI impI)
    fix j k r t assume "?R j = Some r" "?R k = Some t" "j \<noteq> k"
    then show "set (chain j r) \<inter> set (chain k t) = {}" "qb r \<noteq> qb t"
      using reqs_okD(2,3) [OF ok(1), of j _ k] by (auto split: if_splits)
  qed (use r reqs_okD(4) [OF ok(1)] in auto)
  moreover have "in_chains R = in_chains ?R \<union> set (chain i q)" "in_chains ?R \<inter> set (chain i q) = {}"
    using q(1) reqs_okD(2) [OF ok(1), of _ _ i q] unfolding in_chains_def by (auto split: if_splits) (metis option.inject)+
  then have "free_ok (set (chain i q)) ?R ?v" using ok(2) request_range [OF ok(1) q(1)] unfolding free_ok_def by auto
  moreover have "rings_ok ?R d ?v" using ok(3) q unfolding rings_ok_def
    by (auto simp: in_phase_del to_device_def to_driver_def) (auto simp: in_phase_def)
  ultimately show ?thesis by (simp add: vinv_def)
qed

subsection \<open>The operations\<close>

text \<open>The rest of the kernel's state, and the blocks, are as before.\<close>

definition vsame :: "vkstate \<Rightarrow> vkstate \<Rightarrow> bool" where
  "vsame s t \<longleftrightarrow> held t = held s \<and> length (proc t) = length (proc s) \<and> platter (fs t) = platter (fs s) \<and>
     (\<forall>b. vdata (vbufs (fs t) b) = vdata (vbufs (fs s) b) \<and> vblockno (vbufs (fs t) b) = vblockno (vbufs (fs s) b))"

lemma vsame_refl [simp, intro]: "vsame s s"
  by (simp add: vsame_def)

lemma vsame_trans: "vsame r s \<Longrightarrow> vsame s t \<Longrightarrow> vsame r t"
  by (simp add: vsame_def)

lemma upd_v_simps [simp]: "fs (upd_v f s) = f (fs s)" "held (upd_v f s) = held s" "proc (upd_v f s) = proc s"
  "(upd_v f s)\<lparr>held := H\<rparr> = upd_v f (s\<lparr>held := H\<rparr>)"
  by (simp_all add: upd_v_def)

definition kernel_ok :: "vkstate \<Rightarrow> bool" where
  "kernel_ok s \<longleftrightarrow> (\<forall>i. ProcLock i \<notin> held s) \<and> length (proc s) = NPROC"

lemma kernel_ok_same: "kernel_ok s \<Longrightarrow> vsame s t \<Longrightarrow> kernel_ok t"
  by (simp add: kernel_ok_def vsame_def)

lemma alloc_desc_vinv:
  assumes "vinv X R d (fs s)"
  shows "alloc_desc s = (None, s) \<or>
    (\<exists>i t. alloc_desc s = (Some i, t) \<and> i \<notin> X \<and> vinv (insert i X) R d (fs t) \<and> vsame s t)"
proof (cases "find (\<lambda>i. dfree (fs s) i \<noteq> 0) [0..<NUM]")
  case (Some i)
  then have "i < NUM" "dfree (fs s) i \<noteq> 0" by (auto simp: find_Some_iff)
  with take_vinv [OF assms] Some show ?thesis by (simp add: alloc_desc_def vsame_def)
qed (simp add: alloc_desc_def)

lemma free_desc_vinv:
  assumes "vinv X R d (fs s)" "i \<in> X" "kernel_ok s"
  obtains t where "free_desc cur i s = Some t" "vinv (X - {i}) R d (fs t)" "vsame s t" "fs t = cleared i (fs s)"
proof -
  have "i < NUM" "dfree (fs s) i = 0" using assms(1,2) by (auto simp: vinv_def free_ok_def)
  then have "free_desc cur i s = Some (wake cur ChFree (upd_v (cleared i) s))"
    using assms(3) by (simp add: free_desc_def wakeup_eq kernel_ok_def cleared_def [abs_def])
  then show thesis using cleared_vinv [OF assms(1,2)] by (intro that) (auto simp: vsame_def cleared_def set_desc_def)
qed

lemma free_all_vinv:
  assumes "vinv X R d (fs s)" "distinct xs" "set xs \<subseteq> X" "kernel_ok s"
  obtains t where "free_all cur xs s = Some t" "vinv (X - set xs) R d (fs t)" "vsame s t"
  using assms
proof (induction xs arbitrary: s X thesis)
  case Nil
  then show ?case by simp
next
  case (Cons i xs)
  then have "i \<in> X" by simp
  with Cons.prems obtain t where t: "free_desc cur i s = Some t" "vinv (X - {i}) R d (fs t)" "vsame s t"
    by (blast elim: free_desc_vinv)
  have "distinct xs" "set xs \<subseteq> X - {i}" "kernel_ok t" using Cons.prems t(3) by (auto intro: kernel_ok_same)
  with t(2) Cons.IH obtain w where "free_all cur xs t = Some w" "vinv (X - {i} - set xs) R d (fs w)" "vsame t w" by blast
  then show ?case using t(1,3) by (intro Cons.prems(1) [of w]) (auto simp: Diff_insert2 [symmetric] intro: vsame_trans)
qed

lemma alloc_descs_vinv:
  assumes "vinv (set idx) R d (fs s)" "distinct idx" "kernel_ok s"
  obtains r t where "alloc_descs cur k idx s = Some (r, t)" "vsame s t"
    "case r of None \<Rightarrow> vinv {} R d (fs t) | Some js \<Rightarrow> vinv (set js) R d (fs t) \<and> distinct js \<and> length js = length idx + k"
  using assms
proof (induction k arbitrary: idx s thesis)
  case 0
  then show ?case by fastforce
next
  case (Suc k)
  consider "alloc_desc s = (None, s)"
    | i t where "alloc_desc s = (Some i, t)" "i \<notin> set idx" "vinv (insert i (set idx)) R d (fs t)" "vsame s t"
    using alloc_desc_vinv [OF Suc.prems(2)] by blast
  then show ?case
  proof cases
    case 1
    moreover obtain t where "free_all cur idx s = Some t" "vinv {} R d (fs t)" "vsame s t"
      using Suc.prems(2-4) by (fastforce elim!: free_all_vinv [where X = "set idx" and xs = idx])
    ultimately show ?thesis by (intro Suc.prems(1) [of None t]) simp_all
  next
    case (2 i t)
    moreover from this have "vinv (set (idx @ [i])) R d (fs t)" "distinct (idx @ [i])" "kernel_ok t"
      using Suc.prems(3,4) by (auto intro: kernel_ok_same)
    then obtain r w where "alloc_descs cur k (idx @ [i]) t = Some (r, w)" "vsame t w"
      "case r of None \<Rightarrow> vinv {} R d (fs w) | Some js \<Rightarrow> vinv (set js) R d (fs w) \<and> distinct js \<and> length js = length (idx @ [i]) + k"
      using Suc.IH by blast
    ultimately show ?thesis by (intro Suc.prems(1) [of r w]) (auto split: option.splits intro: vsame_trans)
  qed
qed

text \<open>A chain of three is given back one after the other.\<close>

lemma free_desc_desc: "free_desc cur i s = Some t \<Longrightarrow> kernel_ok s \<Longrightarrow> fs t = cleared i (fs s) \<and> kernel_ok t"
  by (auto simp: free_desc_def wakeup_eq kernel_ok_def cleared_def split: if_splits)

lemma free_chain_eq:
  assumes "request_ok (fs s) i q" "kernel_ok s"
  shows "free_chain cur i s = free_all cur (chain i q) s"
proof -
  have q: "i \<noteq> q1 q" "i \<noteq> q2 q" "q1 q \<noteq> q2 q" "unat (word_of_nat (q1 q) :: 16 word) = q1 q" "unat (word_of_nat (q2 q) :: 16 word) = q2 q"
    using assms(1) by (auto simp: request_ok_def chain_def unat_small)
  have fl: "and (vflags (desc (fs s) i)) F_NEXT \<noteq> 0" "unat (vnext (desc (fs s) i)) = q1 q"
    "and (vflags (desc (fs s) (q1 q))) F_NEXT \<noteq> 0" "unat (vnext (desc (fs s) (q1 q))) = q2 q" "and (vflags (desc (fs s) (q2 q))) F_NEXT = 0"
    using assms(1) q(4,5) by (simp_all add: request_ok_def F_NEXT_def F_WRITE_def)
  show ?thesis
  proof (cases "free_desc cur i s")
    case None then show ?thesis by (simp add: free_chain.simps [of cur i] chain_def Let_def)
  next
    case (Some t)
    note t = free_desc_desc [OF this assms(2)]
    have d: "desc (fs t) (q1 q) = desc (fs s) (q1 q)" "desc (fs t) (q2 q) = desc (fs s) (q2 q)" using t q by (auto simp: cleared_def set_desc_def)
    show ?thesis
    proof (cases "free_desc cur (q1 q) t")
      case None with Some fl d show ?thesis by (simp add: free_chain.simps [of cur i] free_chain.simps [of cur "q1 q"] chain_def Let_def)
    next
      case (Some u)
      have "desc (fs u) (q2 q) = desc (fs s) (q2 q)" using free_desc_desc [OF Some] t d q by (auto simp: cleared_def set_desc_def)
      with Some \<open>free_desc cur i s = Some t\<close> fl d show ?thesis
        by (simp add: free_chain.simps [of cur i] free_chain.simps [of cur "q1 q"] free_chain.simps [of cur "q2 q"] chain_def Let_def split: Option.bind_splits)
    qed
  qed
qed

subsection \<open>Callers and the interrupt handler\<close>

lemma rw_wait_busy:
  assumes "reqs_ok R (fs s)" "R i = Some q" "qph q \<noteq> Noticed" "held s = {VDiskLock}" "cur < length (proc s)"
  obtains t where "rw_wait cur (qb q) i s = Some (RwWait i, t)" "fs t = fs s" "vsame (s\<lparr>held := {}\<rparr>) t"
proof -
  have "vdisk (vbufs (fs s) (qb q)) = 1" using reqs_okD(1) [OF assms(1,2)] assms(3) by (simp add: request_ok_def)
  then show thesis using assms(4,5)
    by (intro that [of "(upd_p cur (\<lambda>p. p\<lparr>chan := Some (ChDisk (qb q)), state := SLEEPING\<rparr>) s)\<lparr>held := {}\<rparr>"])
      (simp_all add: rw_wait_def sleep_eq VDiskLock_def vsame_def upd_p_def)
qed

lemma rw_wait_done:
  assumes v: "vinv {} R d (fs s)" and q: "R i = Some q" "qph q = Noticed" and h: "held s = {VDiskLock}" "length (proc s) = NPROC"
  obtains t where "rw_wait cur (qb q) i s = Some (RwDone, t)" "vinv {} (R(i := None)) d (fs t)" "vsame (s\<lparr>held := {}\<rparr>) t"
proof -
  let ?s = "upd_v (\<lambda>v. v\<lparr>info_b := (info_b v)(i := None)\<rparr>) s"
  have ok: "request_ok (fs s) i q" using v q reqs_okD(1) [of R "fs s" i q] by (simp add: vinv_def)
  then have ok': "request_ok (fs ?s) i q" by (simp add: request_ok_def sector_of_def)
  have k: "kernel_ok ?s" using h by (simp add: kernel_ok_def VDiskLock_def)
  have "vinv (set (chain i q)) (R(i := None)) d (fs ?s)" using drop_vinv [OF v q] by simp
  moreover have "distinct (chain i q)" using ok by (simp add: request_ok_def)
  ultimately obtain t where t: "free_all (Some cur) (chain i q) ?s = Some t" "vinv {} (R(i := None)) d (fs t)" "vsame ?s t"
    using k by (fastforce elim!: free_all_vinv [where X = "set (chain i q)"])
  then have "held t = {VDiskLock}" using h(1) by (simp add: vsame_def)
  moreover have "vdisk (vbufs (fs s) (qb q)) \<noteq> 1" using ok q(2) by (simp add: request_ok_def)
  ultimately have "rw_wait cur (qb q) i s = Some (RwDone, t\<lparr>held := {}\<rparr>)"
    using t(1) by (simp add: rw_wait_def free_chain_eq [OF ok' k])
  then show thesis using t(2,3) by (intro that [of "t\<lparr>held := {}\<rparr>"]) (simp_all add: vsame_def)
qed

lemma rw_turn_vinv:
  assumes v: "vinv {} R d (fs s)" and b: "\<And>i q. R i = Some q \<Longrightarrow> qb q \<noteq> b"
    and h: "held s = {VDiskLock}" "length (proc s) = NPROC" "cur < NPROC"
  obtains t where "rw_turn cur b wr s = Some (RwNoDesc, t)" "vinv {} R d (fs t)" "vsame (s\<lparr>held := {}\<rparr>) t"
  | i q t where "rw_turn cur b wr s = Some (RwWait i, t)" "R i = None" "qb q = b" "qw q = wr" "qph q = Queued"
      "vinv {} (R(i \<mapsto> q)) d (fs t)" "vsame (s\<lparr>held := {}\<rparr>) t"
proof -
  have k: "kernel_ok s" using h by (simp add: kernel_ok_def VDiskLock_def)
  have e: "vinv (set []) R d (fs s)" "distinct ([] :: nat list)" using v by simp_all
  obtain r t where "alloc_descs (Some cur) 3 [] s = Some (r, t)" "vsame s t"
    "case r of None \<Rightarrow> vinv {} R d (fs t) | Some js \<Rightarrow> vinv (set js) R d (fs t) \<and> distinct js \<and> length js = length ([] :: nat list) + 3"
    by (rule alloc_descs_vinv [OF e k])
  then have t: "alloc3_desc (Some cur) s = Some (r, t)" "vsame s t"
    "case r of None \<Rightarrow> vinv {} R d (fs t) | Some js \<Rightarrow> vinv (set js) R d (fs t) \<and> distinct js \<and> length js = 3"
    by (simp_all add: alloc3_desc_def split: option.splits)
  then have ht: "held t = {VDiskLock}" "cur < length (proc t)" using h by (simp_all add: vsame_def)
  show thesis
  proof (cases r)
    case None
    with t ht show thesis
      by (intro that(1) [of "(upd_p cur (\<lambda>p. p\<lparr>chan := Some ChFree, state := SLEEPING\<rparr>) t)\<lparr>held := {}\<rparr>"])
        (simp_all add: rw_turn_def sleep_eq VDiskLock_def vsame_def upd_p_def)
  next
    case (Some js)
    then obtain i0 i1 i2 where js: "js = [i0, i1, i2]" "distinct [i0, i1, i2]" "vinv {i0, i1, i2} R d (fs t)"
      using t(3) by (auto simp: numeral_3_eq_3 length_Suc_conv)
    let ?q = "\<lparr>q1 = i1, q2 = i2, qb = b, qw = wr, qph = Queued\<rparr>" and ?t = "upd_v (rw_format b wr [i0, i1, i2]) t"
    have w: "vinv {} (R(i0 \<mapsto> ?q)) d (fs ?t)" using format_vinv [OF js(3,2) b] by simp
    have "i0 \<notin> in_chains R" using js(3) by (auto simp: vinv_def free_ok_def)
    then have n: "R i0 = None" using owned_head [of R i0] by (cases "R i0") (auto simp: chain_def)
    have "reqs_ok (R(i0 \<mapsto> ?q)) (fs ?t)" using w by (simp add: vinv_def)
    then obtain u where u: "rw_wait cur b i0 ?t = Some (RwWait i0, u)" "fs u = fs ?t" "vsame (?t\<lparr>held := {}\<rparr>) u"
      using rw_wait_busy [of "R(i0 \<mapsto> ?q)" ?t i0 ?q cur] ht by auto
    moreover have "vsame (s\<lparr>held := {}\<rparr>) (?t\<lparr>held := {}\<rparr>)" using t(2)
      by (simp add: vsame_def rw_format_def Let_def set_desc_def set_busy_def)
    ultimately show thesis using t(1) Some js(1) w n by (intro that(2) [of i0 u ?q]) (auto simp: rw_turn_def intro: vsame_trans)
  qed
qed

text \<open>The handler notices every request that has been served.\<close>

definition notice_all :: "requests \<Rightarrow> requests" where
  "notice_all R = (\<lambda>i. map_option (\<lambda>q. if qph q = Served then q\<lparr>qph := Noticed\<rparr> else q) (R i))"

lemma intr_loop_vinv:
  assumes "vinv {} R d (fs s)" "kernel_ok s"
  obtains t where "intr_loop cur s = Some t" "vinv {} (notice_all R) d (fs t)" "vsame s t"
  using assms
proof (induction cur s arbitrary: R thesis rule: intr_loop.induct)
  case (1 cur s)
  show ?case
  proof (cases "used_idx (fs s) = used_end (fs s)")
    case True
    then have "to_driver (fs s) = []" by (simp add: to_driver_def ring_part_def)
    then have "in_phase Served R = {}" using 1(3) by (simp add: vinv_def rings_ok_def)
    then have "notice_all R = R" by (intro ext; rename_tac i; case_tac "R i"; auto simp: notice_all_def in_phase_def)
    with True 1(2-4) show ?thesis by (simp add: intr_loop.simps)
  next
    case False
    let ?i = "unat (used_ring (fs s) (unat (used_idx (fs s)) mod NUM))"
    obtain q where q: "R ?i = Some q" "qph q = Served" "info_status (fs s) ?i = 0" "info_b (fs s) ?i = Some (qb q)"
      "vinv {} (R(?i \<mapsto> q\<lparr>qph := Noticed\<rparr>)) d (noticed (qb q) (fs s))" using notice_vinv [OF 1(3) False] by blast
    let ?s = "wake cur (ChDisk (qb q)) (upd_v (set_busy (qb q) 0) s)"
    let ?t = "upd_v (\<lambda>_. (set_busy (qb q) 0 (fs s))\<lparr>used_idx := used_idx (fs s) + 1\<rparr>) ?s"
    have w: "wakeup cur (ChDisk (qb q)) (upd_v (set_busy (qb q) 0) s) = Some ?s"
      using 1(4) by (intro wakeup_eq) (simp_all add: kernel_ok_def)
    have st: "vsame s ?t" by (simp add: vsame_def set_busy_def)
    have "vinv {} (R(?i \<mapsto> q\<lparr>qph := Noticed\<rparr>)) d (fs ?t)" using q(5) by (simp add: noticed_def)
    moreover have "notice_all (R(?i \<mapsto> q\<lparr>qph := Noticed\<rparr>)) = notice_all R" using q(1,2) by (auto simp: notice_all_def)
    ultimately obtain u where "intr_loop cur ?t = Some u" "vinv {} (notice_all R) d (fs u)" "vsame ?t u"
      using 1(1) [OF refl False refl _ q(4) w] q(3) kernel_ok_same [OF 1(4) st] by (metis (no_types, lifting))
    moreover have "intr_loop cur s = intr_loop cur ?t"
      using False q(3,4) w by (subst intr_loop.simps) (simp add: Let_def)
    ultimately show ?thesis using st by (intro 1(2) [of u]) (auto intro: vsame_trans)
  qed
qed

lemma disk_intr_vinv:
  assumes "vinv {} R d (fs s)" "held s = {}" "length (proc s) = NPROC"
  obtains t where "disk_intr cur s = Some t" "vinv {} (notice_all R) d (fs t)" "vsame s t"
proof -
  have "kernel_ok (s\<lparr>held := {VDiskLock}\<rparr>)" using assms(3) by (simp add: kernel_ok_def VDiskLock_def)
  then obtain t where t: "intr_loop cur (s\<lparr>held := {VDiskLock}\<rparr>) = Some t" "vinv {} (notice_all R) d (fs t)" "vsame (s\<lparr>held := {VDiskLock}\<rparr>) t"
    using assms(1) intr_loop_vinv [of R d "s\<lparr>held := {VDiskLock}\<rparr>" cur] by auto
  then have "disk_intr cur s = Some (t\<lparr>held := {}\<rparr>)" using assms(2) by (simp add: disk_intr_def vsame_def)
  then show thesis using t(2,3) assms(2) by (intro that [of "t\<lparr>held := {}\<rparr>"]) (simp_all add: vsame_def)
qed

end
