(* ===== verification/Dev_Disk_Props.thy ===== *)
theory Dev_Disk_Props
  imports Dev_Disk_Inv Kern_System
begin

text \<open>
  The driver as a whole: callers, interrupt handler and device take their turns in any order. Nothing panics, a call
  returns once its block has been transferred, and descriptors are not lost.
\<close>

subsection \<open>The steps\<close>

text \<open>A call in progress: its process, the direction, the chain it waits for if it has one, and the bytes to be
  transferred, as they were when it began.\<close>

record call =
  ccur :: nat
  cwr :: bool
  chead :: "nat option"
  corig :: "byte list"

record vsys =
  vk :: vkstate
  vd :: dev
  calls :: "nat \<Rightarrow> call option"

definition orig :: "vdrv \<Rightarrow> nat \<Rightarrow> bool \<Rightarrow> byte list" where
  "orig v b wr = (if wr then vdata (vbufs v b) else platter v (sector_of v b))"

definition next_call :: "vrw \<Rightarrow> call \<Rightarrow> call option" where
  "next_call r c = (case r of RwDone \<Rightarrow> None | RwNoDesc \<Rightarrow> Some (c\<lparr>chead := None\<rparr>) | RwWait i \<Rightarrow> Some (c\<lparr>chead := Some i\<rparr>))"

text \<open>The buffer cache gives a buffer to one process at a time and keeps one buffer for a block, so a call is for a
  buffer and a sector that no other call is for. A process is scheduled with its own lock held.\<close>

inductive vstep :: "vsys \<Rightarrow> vsys \<Rightarrow> bool" where
  Call: "calls S b = None \<Longrightarrow> (\<And>k. calls S k \<noteq> None \<Longrightarrow> sector_of (fs (vk S)) k \<noteq> sector_of (fs (vk S)) b) \<Longrightarrow> cur < NPROC \<Longrightarrow>
    virtio_disk_rw cur b wr (vk S) = Some (r, s) \<Longrightarrow>
    vstep S (S\<lparr>vk := s, calls := (calls S)(b := next_call r \<lparr>ccur = cur, cwr = wr, chead = None, corig = orig (fs (vk S)) b wr\<rparr>)\<rparr>)"
| Retry: "calls S b = Some c \<Longrightarrow> chead c = None \<Longrightarrow> rw_retry (ccur c) b (cwr c) ((vk S)\<lparr>held := {ProcLock (ccur c)}\<rparr>) = Some (r, s) \<Longrightarrow>
    vstep S (S\<lparr>vk := s, calls := (calls S)(b := next_call r c)\<rparr>)"
| Resume: "calls S b = Some c \<Longrightarrow> chead c = Some i \<Longrightarrow> rw_resume (ccur c) b i ((vk S)\<lparr>held := {ProcLock (ccur c)}\<rparr>) = Some (r, s) \<Longrightarrow>
    vstep S (S\<lparr>vk := s, calls := (calls S)(b := next_call r c)\<rparr>)"
| Interrupt: "disk_intr cur (vk S) = Some s \<Longrightarrow> vstep S (S\<lparr>vk := s\<rparr>)"
| Fetch: "dev_fetch (fs (vk S)) (vd S) = Some d \<Longrightarrow> vstep S (S\<lparr>vd := d\<rparr>)"
| Complete: "i \<in> set (taken_up (vd S)) \<Longrightarrow> dev_complete i (fs (vk S)) = Some v \<Longrightarrow>
    vstep S (S\<lparr>vk := upd_v (\<lambda>_. v) (vk S), vd := (vd S)\<lparr>taken_up := remove1 i (taken_up (vd S))\<rparr>\<rparr>)"
| Fill: "calls S b = None \<Longrightarrow>
    vstep S (S\<lparr>vk := upd_v (\<lambda>v. v\<lparr>vbufs := (vbufs v)(b := (vbufs v b)\<lparr>vblockno := n, vdata := x\<rparr>)\<rparr>) (vk S)\<rparr>)"
| Other: "fs s = fs (vk S) \<Longrightarrow> length (proc s) = NPROC \<Longrightarrow> held s = {} \<Longrightarrow> vstep S (S\<lparr>vk := s\<rparr>)"

definition vstart :: "vsys \<Rightarrow> bool" where
  "vstart S \<longleftrightarrow> held (vk S) = {} \<and> length (proc (vk S)) = NPROC \<and> vd S = \<lparr>seen = 0, taken_up = []\<rparr> \<and> calls S = (\<lambda>_. None) \<and>
     (\<exists>r s f. virtio_disk_init r s = Some (f, vk S)) \<and> used_idx (fs (vk S)) = 0 \<and> info_b (fs (vk S)) = (\<lambda>_. None)"

subsection \<open>The invariant of the steps\<close>

text \<open>The chains in use are those of the calls; a call's block is still as it was where it has to be read, and once
  the device has served it buffer and sector agree.\<close>

definition call_ok :: "requests \<Rightarrow> vdrv \<Rightarrow> nat \<Rightarrow> call \<Rightarrow> bool" where
  "call_ok R v b c \<longleftrightarrow> ccur c < NPROC \<and> orig v b (cwr c) = corig c \<and>
     (\<forall>i. chead c = Some i \<longrightarrow> (\<exists>q. R i = Some q \<and> qb q = b \<and> qw q = cwr c \<and> (qph q \<noteq> Queued \<longrightarrow> orig v b (\<not> cwr c) = corig c)))"

definition sys_ok :: "requests \<Rightarrow> vsys \<Rightarrow> bool" where
  "sys_ok R S \<longleftrightarrow> held (vk S) = {} \<and> length (proc (vk S)) = NPROC \<and> vinv {} R (vd S) (fs (vk S)) \<and>
     (\<forall>b c. calls S b = Some c \<longrightarrow> call_ok R (fs (vk S)) b c) \<and>
     (\<forall>i q. R i = Some q \<longrightarrow> (\<exists>c. calls S (qb q) = Some c \<and> chead c = Some i)) \<and>
     (\<forall>b k. calls S b \<noteq> None \<longrightarrow> calls S k \<noteq> None \<longrightarrow> b \<noteq> k \<longrightarrow> sector_of (fs (vk S)) b \<noteq> sector_of (fs (vk S)) k)"

lemma sys_okD:
  assumes "sys_ok R S"
  shows "held (vk S) = {}" "length (proc (vk S)) = NPROC" "vinv {} R (vd S) (fs (vk S))"
    "calls S b = Some c \<Longrightarrow> call_ok R (fs (vk S)) b c"
    "R i = Some q \<Longrightarrow> \<exists>c. calls S (qb q) = Some c \<and> chead c = Some i"
    "calls S b \<noteq> None \<Longrightarrow> calls S k \<noteq> None \<Longrightarrow> b \<noteq> k \<Longrightarrow> sector_of (fs (vk S)) b \<noteq> sector_of (fs (vk S)) k"
  using assms unfolding sys_ok_def by blast+

lemma vsame_sector: "vsame s t \<Longrightarrow> sector_of (fs t) b = sector_of (fs s) b" "vsame s t \<Longrightarrow> orig (fs t) b wr = orig (fs s) b wr"
  by (simp_all add: vsame_def sector_of_def orig_def)

lemma vsame_call_ok: "vsame s t \<Longrightarrow> call_ok R (fs t) b c = call_ok R (fs s) b c"
  by (simp add: call_ok_def vsame_sector)

lemma init_state: "virtio_disk_init r s = Some (f, t) \<Longrightarrow> avail_idx (fs t) = 0 \<and> used_end (fs t) = 0 \<and> (\<forall>i < NUM. dfree (fs t) i = 1)"
  by (auto simp: virtio_disk_init_def Let_def split: if_splits prod.splits)

lemma start_ok: "vstart S \<Longrightarrow> sys_ok (\<lambda>_. None) S"
  using init_state by (fastforce simp: vstart_def sys_ok_def vinv_def reqs_ok_def free_ok_def in_chains_def rings_ok_def
      to_device_def to_driver_def ring_part_def in_phase_def)

text \<open>A turn of one call leaves the others alone.\<close>

lemma put_call:
  assumes S: "sys_ok R S" and t: "vinv {} R' (vd S) (fs t)" "vsame (vk S) t"
    and b: "\<And>c. x = Some c \<Longrightarrow> call_ok R' (fs t) b c"
    and own: "\<And>i q. R' i = Some q \<Longrightarrow> qb q = b \<Longrightarrow> \<exists>c. x = Some c \<and> chead c = Some i"
    and others: "\<And>i q. qb q \<noteq> b \<Longrightarrow> R' i = Some q \<longleftrightarrow> R i = Some q"
    and sec: "\<And>k. x \<noteq> None \<Longrightarrow> k \<noteq> b \<Longrightarrow> calls S k \<noteq> None \<Longrightarrow> sector_of (fs (vk S)) k \<noteq> sector_of (fs (vk S)) b"
  shows "sys_ok R' (S\<lparr>vk := t, calls := (calls S)(b := x)\<rparr>)" (is "sys_ok R' ?S")
  unfolding sys_ok_def
proof (intro conjI allI impI)
  fix k c assume c: "calls ?S k = Some c"
  show "call_ok R' (fs (vk ?S)) k c"
  proof (cases "k = b")
    case False
    then have "call_ok R (fs t) k c" using sys_okD(4) [OF S, of k c] c by (simp add: vsame_call_ok [OF t(2)])
    then have "call_ok R' (fs t) k c" unfolding call_ok_def using others False by blast
    then show ?thesis by simp
  qed (use b c in simp)
next
  fix i q assume "R' i = Some q"
  then show "\<exists>c. calls ?S (qb q) = Some c \<and> chead c = Some i"
    using own sys_okD(5) [OF S, of i q] others by (cases "qb q = b") auto
next
  fix k l assume "calls ?S k \<noteq> None" "calls ?S l \<noteq> None" "k \<noteq> l"
  then show "sector_of (fs (vk ?S)) k \<noteq> sector_of (fs (vk ?S)) l"
    using sys_okD(6) [OF S, of k l] sec [of k] sec [of l] by (auto simp: vsame_sector(1) [OF t(2)] split: if_splits)
qed (use S t in \<open>simp_all add: vsame_def sys_ok_def\<close>)

text \<open>A first or a repeated attempt to queue a request.\<close>

lemma turn_ok:
  assumes S: "sys_ok R S" and free: "\<And>i q. R i = Some q \<Longrightarrow> qb q \<noteq> b" and c: "ccur c < NPROC" "orig (fs (vk S)) b (cwr c) = corig c" "chead c = None"
    and sec: "\<And>k. k \<noteq> b \<Longrightarrow> calls S k \<noteq> None \<Longrightarrow> sector_of (fs (vk S)) k \<noteq> sector_of (fs (vk S)) b"
    and s: "fs s = fs (vk S)" "held s = {VDiskLock}" "length (proc s) = NPROC"
  obtains r t R' where "rw_turn (ccur c) b (cwr c) s = Some (r, t)" "r \<noteq> RwDone"
    "sys_ok R' (S\<lparr>vk := t, calls := (calls S)(b := next_call r c)\<rparr>)"
proof -
  have v: "vinv {} R (vd S) (fs s)" using S s by (simp add: sys_ok_def)
  have same: "vsame (vk S) t" if "vsame (s\<lparr>held := {}\<rparr>) t" for t using that s S by (simp add: vsame_def sys_ok_def)
  show thesis
  proof (rule rw_turn_vinv [OF v free s(2,3) c(1), where wr = "cwr c"])
    fix t assume t: "rw_turn (ccur c) b (cwr c) s = Some (RwNoDesc, t)" "vinv {} R (vd S) (fs t)" "vsame (s\<lparr>held := {}\<rparr>) t"
    have "sys_ok R (S\<lparr>vk := t, calls := (calls S)(b := next_call RwNoDesc c)\<rparr>)"
    proof (rule put_call [OF S t(2) same [OF t(3)]])
      fix e assume "next_call RwNoDesc c = Some e"
      then show "call_ok R (fs t) b e" using c by (auto simp: next_call_def call_ok_def vsame_sector [OF same [OF t(3)]])
    qed (use free sec in blast)+
    with t(1) show thesis by (intro that) auto
  next
    fix i q t assume t: "rw_turn (ccur c) b (cwr c) s = Some (RwWait i, t)" "R i = None" "qb q = b" "qw q = cwr c" "qph q = Queued"
      "vinv {} (R(i \<mapsto> q)) (vd S) (fs t)" "vsame (s\<lparr>held := {}\<rparr>) t"
    have "sys_ok (R(i \<mapsto> q)) (S\<lparr>vk := t, calls := (calls S)(b := next_call (RwWait i) c)\<rparr>)"
    proof (rule put_call [OF S t(6) same [OF t(7)]])
      fix e assume "next_call (RwWait i) c = Some e"
      then show "call_ok (R(i \<mapsto> q)) (fs t) b e" using c t by (auto simp: next_call_def call_ok_def vsame_sector [OF same [OF t(7)]])
    next
      fix j p assume "(R(i \<mapsto> q)) j = Some p" "qb p = b"
      then show "\<exists>e. next_call (RwWait i) c = Some e \<and> chead e = Some j" using free [of j p] by (auto simp: next_call_def split: if_splits)
    qed (use t(2,3) sec in auto)
    with t(1) show thesis by (intro that) auto
  qed
qed

text \<open>A call whose request is with the device or the driver waits on; else it returns.\<close>

lemma resume_ok:
  assumes S: "sys_ok R S" and c: "calls S b = Some c" "chead c = Some i"
  obtains q r t R' where "R i = Some q" "qb q = b"
    "rw_resume (ccur c) b i ((vk S)\<lparr>held := {ProcLock (ccur c)}\<rparr>) = Some (r, t)"
    "r = (if qph q = Noticed then RwDone else RwWait i)" "vsame (vk S) t"
    "sys_ok R' (S\<lparr>vk := t, calls := (calls S)(b := next_call r c)\<rparr>)"
proof -
  obtain q where q: "R i = Some q" "qb q = b" "qw q = cwr c" using sys_okD(4) [OF S c(1)] c(2) by (auto simp: call_ok_def)
  have v: "vinv {} R (vd S) (fs (vk S))" and h: "held (vk S) = {}" "length (proc (vk S)) = NPROC" "ccur c < NPROC"
    using sys_okD(1-4) [OF S] c(1) by (auto simp: call_ok_def)
  let ?s = "(upd_p (ccur c) (\<lambda>p. p\<lparr>chan := None\<rparr>) (vk S))\<lparr>held := {VDiskLock}\<rparr>"
  have e: "rw_resume (ccur c) b i ((vk S)\<lparr>held := {ProcLock (ccur c)}\<rparr>) = rw_wait (ccur c) b i ?s"
    by (simp add: rw_resume_def sleep_resume_eq upd_p_def)
  have s: "fs ?s = fs (vk S)" "held ?s = {VDiskLock}" "length (proc ?s) = NPROC" "vsame (vk S) (?s\<lparr>held := {}\<rparr>)"
    using h by (simp_all add: vsame_def upd_p_def)
  have inj: "j = i" if "R j = Some p" "qb p = b" for j p
    using v that q reqs_okD(3) [of R "fs (vk S)" j p i q] by (auto simp: vinv_def)
  show thesis
  proof (cases "qph q = Noticed")
    case True
    then obtain t where t: "rw_wait (ccur c) b i ?s = Some (RwDone, t)" "vinv {} (R(i := None)) (vd S) (fs t)" "vsame (?s\<lparr>held := {}\<rparr>) t"
      using rw_wait_done [of R "vd S" ?s i q "ccur c"] v q s by auto
    have same: "vsame (vk S) t" using s(4) t(3) by (rule vsame_trans)
    have "sys_ok (R(i := None)) (S\<lparr>vk := t, calls := (calls S)(b := next_call RwDone c)\<rparr>)"
    proof (rule put_call [OF S t(2) same])
      fix j p assume "(R(i := None)) j = Some p" "qb p = b"
      then show "\<exists>c'. next_call RwDone c = Some c' \<and> chead c' = Some j" using inj [of j p] by (auto split: if_splits)
    qed (use q in \<open>auto simp: next_call_def\<close>)
    with True q e t(1) same show thesis by (intro that) auto
  next
    case False
    then obtain t where t: "rw_wait (ccur c) b i ?s = Some (RwWait i, t)" "fs t = fs ?s" "vsame (?s\<lparr>held := {}\<rparr>) t"
      using rw_wait_busy [of R ?s i q "ccur c"] v q s h by (auto simp: vinv_def)
    have same: "vsame (vk S) t" using s(4) t(3) by (rule vsame_trans)
    have p: "next_call (RwWait i) c = Some c" using c(2) by (simp add: next_call_def)
    have "sys_ok R (S\<lparr>vk := t, calls := (calls S)(b := next_call (RwWait i) c)\<rparr>)"
    proof (rule put_call [OF S _ same])
      show "vinv {} R (vd S) (fs t)" using v t(2) s(1) by simp
    next
      fix c' assume "next_call (RwWait i) c = Some c'"
      then show "call_ok R (fs t) b c'" using sys_okD(4) [OF S c(1)] by (simp add: p t(2) s(1))
    next
      fix k assume "k \<noteq> b" "calls S k \<noteq> None"
      then show "sector_of (fs (vk S)) k \<noteq> sector_of (fs (vk S)) b" using sys_okD(6) [OF S, of k b] c(1) by simp
    qed (use inj p c(2) in auto)
    with False q e t(1) same show thesis by (intro that) auto
  qed
qed

text \<open>The steps of the others.\<close>

lemma intr_ok:
  assumes S: "sys_ok R S"
  obtains t where "disk_intr cur (vk S) = Some t" "sys_ok (notice_all R) (S\<lparr>vk := t\<rparr>)"
proof -
  obtain t where t: "disk_intr cur (vk S) = Some t" "vinv {} (notice_all R) (vd S) (fs t)" "vsame (vk S) t"
    by (rule disk_intr_vinv [OF sys_okD(3,1,2) [OF S], of cur])
  have f: "\<exists>q'. notice_all R i = Some q' \<and> qb q' = qb q \<and> qw q' = qw q \<and> (qph q' \<noteq> Queued \<longleftrightarrow> qph q \<noteq> Queued)" if "R i = Some q" for i q
    using that by (simp add: notice_all_def)
  have "sys_ok (notice_all R) (S\<lparr>vk := t\<rparr>)" unfolding sys_ok_def
  proof (intro conjI allI impI)
    fix b c assume "calls (S\<lparr>vk := t\<rparr>) b = Some c"
    then have "call_ok R (fs t) b c" using sys_okD(4) [OF S, of b c] by (simp add: vsame_call_ok [OF t(3)])
    then show "call_ok (notice_all R) (fs (vk (S\<lparr>vk := t\<rparr>))) b c" using f unfolding call_ok_def by (metis vsys.select_convs(1) vsys.update_convs(1) vsys.surjective)
  next
    fix i q assume "notice_all R i = Some q"
    then obtain p where "R i = Some p" "qb p = qb q" by (auto simp: notice_all_def split: if_splits)
    then show "\<exists>c. calls (S\<lparr>vk := t\<rparr>) (qb q) = Some c \<and> chead c = Some i" using sys_okD(5) [OF S, of i p] by simp
  next
    fix b k assume "calls (S\<lparr>vk := t\<rparr>) b \<noteq> None" "calls (S\<lparr>vk := t\<rparr>) k \<noteq> None" "b \<noteq> k"
    then show "sector_of (fs (vk (S\<lparr>vk := t\<rparr>))) b \<noteq> sector_of (fs (vk (S\<lparr>vk := t\<rparr>))) k"
      using sys_okD(6) [OF S, of b k] by (simp add: vsame_sector(1) [OF t(3)])
  qed (use t S in \<open>simp_all add: vsame_def sys_ok_def\<close>)
  with t(1) show thesis by (rule that)
qed

lemma transfer_simps [simp]: "sector_of (returned i (transfer b wr v)) k = sector_of v k"
  "vdata (vbufs (returned i (transfer b wr v)) k) = (if k = b \<and> \<not> wr then platter v (sector_of v b) else vdata (vbufs v k))"
  "platter (returned i (transfer b wr v)) x = (if x = sector_of v b \<and> wr then vdata (vbufs v b) else platter v x)"
  by (auto simp: returned_def transfer_def sector_of_def)

lemma complete_ok:
  assumes S: "sys_ok R S" and i: "i \<in> set (taken_up (vd S))"
  obtains v R' where "dev_complete i (fs (vk S)) = Some v"
    "sys_ok R' (S\<lparr>vk := upd_v (\<lambda>_. v) (vk S), vd := (vd S)\<lparr>taken_up := remove1 i (taken_up (vd S))\<rparr>\<rparr>)"
proof -
  let ?v = "fs (vk S)"
  have v: "vinv {} R (vd S) ?v" using S by (simp add: sys_ok_def)
  have "i \<in> in_phase Queued R" using v i by (auto simp: vinv_def rings_ok_def to_device_def)
  then obtain q where q: "R i = Some q" "qph q = Queued" by (auto simp: in_phase_def)
  let ?w = "returned i (transfer (qb q) (qw q) ?v)" and ?R = "R(i \<mapsto> q\<lparr>qph := Served\<rparr>)"
  let ?S = "S\<lparr>vk := upd_v (\<lambda>_. ?w) (vk S), vd := (vd S)\<lparr>taken_up := remove1 i (taken_up (vd S))\<rparr>\<rparr>"
  obtain e where e: "calls S (qb q) = Some e" "chead e = Some i" using sys_okD(5) [OF S q(1)] by blast
  have qe: "qw q = cwr e" "orig ?v (qb q) (cwr e) = corig e" using sys_okD(4) [OF S e(1)] e(2) q(1) by (auto simp: call_ok_def)
  have "sys_ok ?R ?S" unfolding sys_ok_def
  proof (intro conjI allI impI)
    fix b c assume "calls ?S b = Some c"
    then have c: "calls S b = Some c" by simp
    have o: "call_ok R ?v b c" using sys_okD(4) [OF S c] .
    show "call_ok ?R (fs (vk ?S)) b c"
    proof (cases "b = qb q")
      case True
      then have "c = e" using c e(1) by simp
      then show ?thesis using o qe e(2) q True by (auto simp: call_ok_def orig_def)
    next
      case False
      then have "sector_of ?v b \<noteq> sector_of ?v (qb q)" using sys_okD(6) [OF S, of b "qb q"] c e(1) by simp
      then have "orig ?w b wr = orig ?v b wr" for wr using False by (simp add: orig_def)
      moreover have "chead c \<noteq> Some i" using o q(1) False by (auto simp: call_ok_def)
      ultimately show ?thesis using o by (auto simp: call_ok_def)
    qed
  next
    fix j p assume "?R j = Some p"
    then show "\<exists>c. calls ?S (qb p) = Some c \<and> chead c = Some j" using sys_okD(5) [OF S, of j p] e by (auto split: if_splits)
  next
    fix b k assume "calls ?S b \<noteq> None" "calls ?S k \<noteq> None" "b \<noteq> k"
    then show "sector_of (fs (vk ?S)) b \<noteq> sector_of (fs (vk ?S)) k" using sys_okD(6) [OF S, of b k] by simp
  next
    show "vinv {} ?R (vd ?S) (fs (vk ?S))" using complete_vinv [OF v q(1) i] by simp
  qed (use S in \<open>simp_all add: sys_ok_def\<close>)
  moreover have "request_ok ?v i q" using v q(1) reqs_okD(1) by (auto simp: vinv_def)
  ultimately show thesis using complete_eq by (intro that) auto
qed

lemma fetch_ok: "sys_ok R S \<Longrightarrow> dev_fetch (fs (vk S)) (vd S) = Some d \<Longrightarrow> sys_ok R (S\<lparr>vd := d\<rparr>)"
  using fetch_vinv(1) by (auto simp: sys_ok_def)

lemma other_ok: "sys_ok R S \<Longrightarrow> fs s = fs (vk S) \<Longrightarrow> length (proc s) = NPROC \<Longrightarrow> held s = {} \<Longrightarrow> sys_ok R (S\<lparr>vk := s\<rparr>)"
  by (simp add: sys_ok_def)

lemma fill_ok:
  assumes S: "sys_ok R S" and b: "calls S b = None"
  shows "sys_ok R (S\<lparr>vk := upd_v (\<lambda>v. v\<lparr>vbufs := (vbufs v)(b := (vbufs v b)\<lparr>vblockno := n, vdata := x\<rparr>)\<rparr>) (vk S)\<rparr>)"
    (is "sys_ok R ?S")
proof -
  let ?v = "fs (vk S)"
  let ?w = "?v\<lparr>vbufs := (vbufs ?v)(b := (vbufs ?v b)\<lparr>vblockno := n, vdata := x\<rparr>)\<rparr>"
  have nb: "k \<noteq> b" if "calls S k \<noteq> None" for k using that b by auto
  have sec: "sector_of ?w k = sector_of ?v k" "orig ?w k wr = orig ?v k wr" if "k \<noteq> b" for k wr
    using that by (simp_all add: sector_of_def orig_def)
  have R: "qb q \<noteq> b" if "R i = Some q" for i q using sys_okD(5) [OF S that] b by auto
  have "vinv {} R (vd S) ?v" using S by (simp add: sys_ok_def)
  moreover have "request_ok ?w i q" if "R i = Some q" for i q
    using calculation that R [OF that] reqs_okD(1) [of R ?v i q] by (simp add: vinv_def request_ok_def sector_of_def)
  ultimately have "vinv {} R (vd S) ?w"
    by (simp add: vinv_def reqs_ok_def free_ok_def rings_ok_def to_device_def to_driver_def)
  moreover have "call_ok R ?w k c" if "calls S k = Some c" for k c
    using sys_okD(4) [OF S that] nb [of k] that by (simp add: call_ok_def sec)
  ultimately show ?thesis using S nb by (simp add: sys_ok_def sec)
qed

lemma step_ok:
  assumes "vstep S T" "sys_ok R S"
  obtains R' where "sys_ok R' T"
  using assms
proof (cases rule: vstep.cases)
  case (Call b cur wr r s)
  let ?c = "\<lparr>ccur = cur, cwr = wr, chead = None, corig = orig (fs (vk S)) b wr\<rparr>"
  have nb: "qb q \<noteq> b" if "R i = Some q" for i q using sys_okD(5) [OF assms(2) that] Call(2) by auto
  have h: "held (vk S) = {}" "length (proc (vk S)) = NPROC" using assms(2) by (simp_all add: sys_ok_def)
  let ?s = "(vk S)\<lparr>held := {VDiskLock}\<rparr>"
  obtain r' t R' where t: "rw_turn (ccur ?c) b (cwr ?c) ?s = Some (r', t)" "sys_ok R' (S\<lparr>vk := t, calls := (calls S)(b := next_call r' ?c)\<rparr>)"
    by (rule turn_ok [OF assms(2) nb, where c = ?c and s = ?s]) (use Call(3,4) h in auto)
  moreover have "rw_turn (ccur ?c) b (cwr ?c) ?s = Some (r, s)" using Call(5) h(1) by (simp add: virtio_disk_rw_def)
  ultimately show thesis using Call(1) that by simp
next
  case (Retry b c r s)
  have nb: "qb q \<noteq> b" if "R i = Some q" for i q using sys_okD(5) [OF assms(2) that] Retry(2,3) by auto
  let ?s = "(upd_p (ccur c) (\<lambda>p. p\<lparr>chan := None\<rparr>) (vk S))\<lparr>held := {VDiskLock}\<rparr>"
  have "rw_turn (ccur c) b (cwr c) ?s = Some (r, s)" using Retry(4) by (simp add: rw_retry_def sleep_resume_eq upd_p_def)
  moreover have c: "ccur c < NPROC" "orig (fs (vk S)) b (cwr c) = corig c" using sys_okD(4) [OF assms(2) Retry(2)] by (simp_all add: call_ok_def)
  have sec: "sector_of (fs (vk S)) k \<noteq> sector_of (fs (vk S)) b" if "k \<noteq> b" "calls S k \<noteq> None" for k
    using sys_okD(6) [OF assms(2), of k b] that Retry(2) by simp
  obtain r' t R' where "rw_turn (ccur c) b (cwr c) ?s = Some (r', t)" "sys_ok R' (S\<lparr>vk := t, calls := (calls S)(b := next_call r' c)\<rparr>)"
    by (rule turn_ok [OF assms(2) nb c Retry(3) sec, where s = ?s]) (use assms(2) in \<open>auto simp: sys_ok_def upd_p_def\<close>)
  ultimately show thesis using Retry(1) that by simp
next
  case (Resume b c i r s)
  then show thesis using resume_ok [OF assms(2) Resume(2,3)] that by (metis option.inject prod.inject)
next
  case (Interrupt cur s)
  then show thesis using intr_ok [OF assms(2), of cur] that by (metis option.inject)
next
  case (Fetch d)
  then show thesis using fetch_ok [OF assms(2)] that by blast
next
  case (Complete i v)
  then show thesis using complete_ok [OF assms(2) Complete(2)] that by (metis option.inject)
next
  case (Fill b n x)
  then show thesis using fill_ok [OF assms(2)] that by blast
next
  case (Other s)
  then show thesis using other_ok [OF assms(2)] that by blast
qed

lemma reach_ok:
  assumes "vstep\<^sup>*\<^sup>* S T" "vstart S"
  obtains R where "sys_ok R T"
  using assms
proof (induction arbitrary: thesis rule: rtranclp_induct)
  case base
  then show ?case using start_ok by blast
next
  case (step T U)
  obtain R where "sys_ok R T" using step.IH step.prems(2) by blast
  then obtain R' where "sys_ok R' U" using step_ok step.hyps(2) by blast
  then show ?case using step.prems(1) by blast
qed

text \<open>A machine whose disk has just been initialised, and a run on it: a write of buffer 5 to block 3 is queued,
  fetched, carried out and noticed.\<close>

definition demo_vdrv :: vdrv where
  "demo_vdrv = \<lparr>desc = (\<lambda>_. \<lparr>va = VNull, vlen = 0, vflags = 0, vnext = 0\<rparr>), avail_ring = (\<lambda>_. 0), avail_idx = 0,
     used_ring = (\<lambda>_. 0), used_end = 0, dfree = (\<lambda>_. 1), used_idx = 0, info_b = (\<lambda>_. None), info_status = (\<lambda>_. 0),
     ops = (\<lambda>_. \<lparr>rtype = 0, rreserved = 0, rsector = 0\<rparr>), vbufs = (\<lambda>_. \<lparr>vblockno = 3, vdisk = 0, vdata = replicate 1024 7\<rparr>),
     platter = (\<lambda>_. replicate 1024 0)\<rparr>"

definition demo_mem :: pmem where
  "demo_mem = \<lparr>end_addr = 0, freelist = 0x1000, pages = (\<lambda>p j. if j = 1 then (if p = 0x1000 then 0x20 else if p = 0x2000 then 0x30 else 0) else 0)\<rparr>"

definition demo_sys :: "ksyms \<Rightarrow> vsys" where
  "demo_sys y = \<lparr>vk = bss_state y (snd (kalloc (snd (kalloc (snd (kalloc demo_mem)))))) demo_vdrv, vd = \<lparr>seen = 0, taken_up = []\<rparr>, calls = (\<lambda>_. None)\<rparr>"

definition demo_regs :: vregs where
  "demo_regs = \<lparr>r_magic = 0x74726976, r_version = 2, r_device = 2, r_vendor = 0x554d4551, r_features = 0, r_features_ok = True, r_ready = 0, r_num_max = 8\<rparr>"

lemma demo_start: "vstart (demo_sys y)"
proof -
  have "virtio_disk_init demo_regs (bss_state y demo_mem demo_vdrv) =
      Some (ucast (features demo_regs), bss_state y (snd (kalloc (snd (kalloc (snd (kalloc demo_mem)))))) demo_vdrv)"
    by (simp add: virtio_disk_init_def demo_regs_def bss_state_def demo_vdrv_def demo_mem_def kalloc_def load64_def NUM_def upd_v_def Let_def cong: if_cong)
  then show ?thesis unfolding vstart_def by (auto simp: demo_sys_def) (auto simp: bss_state_def demo_vdrv_def)
qed

definition took :: "nat \<Rightarrow> vkstate \<Rightarrow> vkstate" where
  "took k s = upd_v (\<lambda>v. v\<lparr>dfree := (\<lambda>i. if i < k then 0 else 1)\<rparr>) s"

lemma taken_alloc:
  assumes "k < NUM"
  shows "alloc_desc (took k s) = (Some k, took (Suc k) s)"
proof -
  have "find (\<lambda>i. (if i < k then 0 else 1) \<noteq> (0 :: int)) [0..<NUM] = Some k"
    using assms by (auto simp: find_Some_iff intro!: exI [of _ k])
  moreover have "(\<lambda>i. if i < k then 0 else 1 :: int)(k := 0) = (\<lambda>i. if i < Suc k then 0 else 1)" by auto
  ultimately show ?thesis by (simp add: alloc_desc_def took_def upd_v_def)
qed

lemma demo_first:
  "\<exists>s. virtio_disk_rw 0 5 True (vk (demo_sys y)) = Some (RwWait 0, s) \<and> fs s = rw_format 5 True [0, 1, 2] (demo_vdrv\<lparr>dfree := (\<lambda>i. if i < 3 then 0 else 1)\<rparr>) \<and>
    held s = {} \<and> length (proc s) = NPROC"
proof -
  let ?s = "(vk (demo_sys y))\<lparr>held := {VDiskLock}\<rparr>"
  have "took 0 ?s = ?s" by (simp add: took_def upd_v_def demo_sys_def bss_state_def demo_vdrv_def)
  moreover have "alloc3_desc (Some 0) (took 0 ?s) = Some (Some [0, 1, 2], took 3 ?s)"
    by (simp add: alloc3_desc_def numeral_3_eq_3 taken_alloc NUM_def)
  ultimately have a: "alloc3_desc (Some 0) ?s = Some (Some [0, 1, 2], took 3 ?s)" by simp
  have h: "held (vk (demo_sys y)) = {}" "length (proc (vk (demo_sys y))) = NPROC" "fs (vk (demo_sys y)) = demo_vdrv"
    by (simp_all add: demo_sys_def bss_state_def)
  have "vdisk (vbufs (rw_format 5 True [0, 1, 2] v) 5) = 1" for v by (simp add: rw_format_def Let_def set_desc_def set_busy_def)
  moreover have "VDiskLock \<noteq> ProcLock 0" "0 < NPROC" by (simp_all add: VDiskLock_def NPROC_def)
  moreover have "h\<lparr>held := {}\<rparr> = h" if "held h = {}" for h :: vkstate using that by (rule held_empty)
  ultimately show ?thesis using h a by (simp add: virtio_disk_rw_def rw_turn_def took_def rw_wait_def sleep_eq upd_p_def)
qed



definition demo_queued :: vdrv where
  "demo_queued = rw_format 5 True [0, 1, 2] (demo_vdrv\<lparr>dfree := (\<lambda>i. if i < 3 then 0 else 1)\<rparr>)"

lemma demo_work: "dev_fetch demo_queued \<lparr>seen = 0, taken_up = []\<rparr> = Some \<lparr>seen = 1, taken_up = [0]\<rparr>"
  by (simp add: dev_fetch_def demo_queued_def rw_format_def Let_def set_desc_def set_busy_def demo_vdrv_def)

lemma demo_serve: "dev_complete 0 demo_queued = Some (returned 0 (transfer 5 True demo_queued))"
  using complete_eq [of demo_queued 0 "\<lparr>q1 = 1, q2 = 2, qb = 5, qw = True, qph = Queued\<rparr>"]
  by (simp add: request_ok_def demo_queued_def rw_format_def Let_def set_desc_def set_busy_def chain_def NUM_def sector_of_def)

definition demo_call :: call where
  "demo_call = \<lparr>ccur = 0, cwr = True, chead = Some 0, corig = replicate 1024 7\<rparr>"

lemma demo_run:
  "\<exists>T U. vstep (demo_sys y) T \<and> vstep\<^sup>*\<^sup>* T U \<and> fs (vk T) = demo_queued \<and> vd U = \<lparr>seen = 1, taken_up = []\<rparr> \<and>
     calls U = (\<lambda>_. None)(5 := Some demo_call) \<and> to_device (vd U) (fs (vk U)) = [] \<and> to_driver (fs (vk U)) = []"
proof -
  obtain s where s: "virtio_disk_rw 0 5 True (vk (demo_sys y)) = Some (RwWait 0, s)" "fs s = demo_queued" "held s = {}" "length (proc s) = NPROC"
    using demo_first by (auto simp: demo_queued_def)
  let ?T = "(demo_sys y)\<lparr>vk := s, calls := (\<lambda>_. None)(5 := Some demo_call)\<rparr>"
  have o: "orig (fs (vk (demo_sys y))) 5 True = replicate 1024 7" by (simp add: orig_def demo_sys_def bss_state_def demo_vdrv_def)
  have n: "calls (demo_sys y) = (\<lambda>_. None)" by (simp add: demo_sys_def)
  have 1: "vstep (demo_sys y) ?T" using vstep.Call [of "demo_sys y" 5 0 True "RwWait 0" s] s(1) n o
    by (simp add: next_call_def demo_call_def NPROC_def)
  let ?U = "?T\<lparr>vd := \<lparr>seen = 1, taken_up = [0]\<rparr>\<rparr>"
  have 2: "vstep ?T ?U" using vstep.Fetch [of ?T "\<lparr>seen = 1, taken_up = [0]\<rparr>"] demo_work s(2) by (simp add: demo_sys_def)
  let ?w = "returned 0 (transfer 5 True demo_queued)"
  let ?V = "?U\<lparr>vk := upd_v (\<lambda>_. ?w) s, vd := \<lparr>seen = 1, taken_up = []\<rparr>\<rparr>"
  have 3: "vstep ?U ?V" using vstep.Complete [of 0 ?U ?w] demo_serve s(2) by simp
  have f: "used_idx ?w = 0" "used_end ?w = 1" "used_ring ?w 0 = 0" "info_status ?w 0 = 0" "info_b ?w 0 = Some 5" "avail_idx ?w = 1"
    by (simp_all add: returned_def transfer_def demo_queued_def rw_format_def Let_def set_desc_def set_busy_def demo_vdrv_def NUM_def)
  let ?k = "upd_v (\<lambda>_. ?w) (s\<lparr>held := {VDiskLock}\<rparr>)"
  let ?x = "(set_busy 5 0 ?w)\<lparr>used_idx := used_idx ?w + 1\<rparr>"
  obtain t where t: "wakeup None (ChDisk 5) (upd_v (set_busy 5 0) ?k) = Some t" "held t = {VDiskLock}"
    using s(3,4) by (simp add: wakeup_eq VDiskLock_def)
  have "used_idx ?x = used_end ?x" by (simp add: f set_busy_def)
  then have "intr_loop None (upd_v (\<lambda>_. ?x) t) = Some (upd_v (\<lambda>_. ?x) t)" by (simp add: intr_loop.simps)
  then have "intr_loop None ?k = Some (upd_v (\<lambda>_. ?x) t)" using t(1) f by (subst intr_loop.simps) (simp add: Let_def)
  then have "disk_intr None (vk ?V) = Some ((upd_v (\<lambda>_. ?x) t)\<lparr>held := {}\<rparr>)"
    using s(3) t(2) by (simp add: disk_intr_def)
  then have 4: "vstep ?V (?V\<lparr>vk := (upd_v (\<lambda>_. ?x) t)\<lparr>held := {}\<rparr>\<rparr>)" by (rule vstep.Interrupt)
  have "to_device \<lparr>seen = 1, taken_up = []\<rparr> ?x = []" "to_driver ?x = []" by (simp_all add: to_device_def to_driver_def ring_part_def f set_busy_def)
  then show ?thesis using 1 2 3 4 s(2)
    by (intro exI [of _ ?T] exI [of _ "?V\<lparr>vk := (upd_v (\<lambda>_. ?x) t)\<lparr>held := {}\<rparr>\<rparr>"])
      (auto intro: converse_rtranclp_into_rtranclp)
qed

subsection \<open>What holds of every state\<close>



text \<open>C8. A process that wakes up in a call goes back to sleep as long as its request is in one of the rings or with
  the device. Otherwise the call returns, and then buffer and sector hold the same bytes: those of the buffer when the
  call began if it was a write, those of the sector if it was a read.\<close>

theorem disk_transfers_block:
  assumes "vstart S" "vstep\<^sup>*\<^sup>* S T" "calls T b = Some c" "chead c = Some i"
  shows "\<exists>r t. rw_resume (ccur c) b i ((vk T)\<lparr>held := {ProcLock (ccur c)}\<rparr>) = Some (r, t) \<and>
    (if i \<in> set (to_device (vd T) (fs (vk T))) \<union> set (to_driver (fs (vk T))) then r = RwWait i
     else r = RwDone \<and> vdata (vbufs (fs t) b) = corig c \<and> platter (fs t) (sector_of (fs t) b) = corig c)"
proof -
  obtain R where R: "sys_ok R T" using reach_ok [OF assms(2,1)] .
  obtain q r t where q: "R i = Some q" "qb q = b" and t: "rw_resume (ccur c) b i ((vk T)\<lparr>held := {ProcLock (ccur c)}\<rparr>) = Some (r, t)"
    "r = (if qph q = Noticed then RwDone else RwWait i)" "vsame (vk T) t" using resume_ok [OF R assms(3,4)] by metis
  have "rings_ok R (vd T) (fs (vk T))" using sys_okD(3) [OF R] by (simp add: vinv_def)
  then have "i \<in> set (to_device (vd T) (fs (vk T))) \<union> set (to_driver (fs (vk T))) \<longleftrightarrow> qph q \<noteq> Noticed"
    using q(1) by (cases "qph q") (auto simp: rings_ok_def in_phase_def)
  moreover have "call_ok R (fs t) b c" using sys_okD(4) [OF R assms(3)] by (simp add: vsame_call_ok [OF t(3)])
  then have "qph q = Noticed \<longrightarrow> orig (fs t) b True = corig c \<and> orig (fs t) b False = corig c"
    using q assms(4) by (cases "cwr c") (auto simp: call_ok_def)
  ultimately show ?thesis using t by (intro exI [of _ r] exI [of _ t]) (auto simp: orig_def)
qed

theorem disk_transfers_block_witness:
  "\<forall>y. \<exists>T t. vstep\<^sup>*\<^sup>* (demo_sys y) T \<and> rw_resume 0 5 0 ((vk T)\<lparr>held := {ProcLock 0}\<rparr>) = Some (RwDone, t) \<and>
     platter (fs t) (sector_of (fs t) 5) = replicate 1024 7"
proof
  fix y
  obtain T U where U: "vstep (demo_sys y) T" "vstep\<^sup>*\<^sup>* T U" "calls U = (\<lambda>_. None)(5 := Some demo_call)"
    "to_device (vd U) (fs (vk U)) = []" "to_driver (fs (vk U)) = []" using demo_run by blast
  then have r: "vstep\<^sup>*\<^sup>* (demo_sys y) U" by (auto intro: converse_rtranclp_into_rtranclp)
  have "calls U 5 = Some demo_call" "chead demo_call = Some 0" using U(3) by (simp_all add: demo_call_def)
  then show "\<exists>T t. vstep\<^sup>*\<^sup>* (demo_sys y) T \<and> rw_resume 0 5 0 ((vk T)\<lparr>held := {ProcLock 0}\<rparr>) = Some (RwDone, t) \<and>
     platter (fs t) (sector_of (fs t) 5) = replicate 1024 7"
    using disk_transfers_block [OF demo_start r, of 5 demo_call 0] r U(4,5) by (intro exI [of _ U]) (auto simp: demo_call_def)
qed

end
