(* ===== verification/User_Lib.thy ===== *)
theory User_Lib
  imports Kern_String Dev_Print "HOL-Library.Monad_Syntax"
begin

text \<open>
  \<^verbatim>\<open>user/ulib.c\<close>. A string that is only read is the list of its bytes from the pointer on, its end standing for
  the NUL; the functions that write have the memory of \<^theory_text>\<open>Kern_String\<close>. A read is described by what it finds:
  pieces of input, \<^const>\<open>None\<close> for an error, and the end of file when nothing is left. The last part is
  \<^verbatim>\<open>user/printf.c\<close>.
\<close>

subsection \<open>Strings\<close>

fun ustrcmp :: "byte list \<Rightarrow> byte list \<Rightarrow> int" where
  "ustrcmp (p # ps) (q # qs) = (if p \<noteq> 0 \<and> p = q then ustrcmp ps qs else uint p - uint q)"
| "ustrcmp ps qs = uint (case ps of [] \<Rightarrow> 0 | p # _ \<Rightarrow> p) - uint (case qs of [] \<Rightarrow> 0 | q # _ \<Rightarrow> q)"

fun ustrlen_loop :: "byte list \<Rightarrow> nat \<Rightarrow> nat" where
  "ustrlen_loop [] n = n"
| "ustrlen_loop (s # ss) n = (if s \<noteq> 0 then ustrlen_loop ss (Suc n) else n)"

definition ustrlen :: "byte list \<Rightarrow> nat" where
  "ustrlen s = ustrlen_loop s 0"

text \<open>The offset of the character found.\<close>

fun strchr :: "byte list \<Rightarrow> byte \<Rightarrow> nat option" where
  "strchr [] c = None"
| "strchr (s # ss) c = (if s = 0 then None else if s = c then Some 0 else map_option Suc (strchr ss c))"

text \<open>The value so far and the digits left; an overflow of \<^verbatim>\<open>int\<close> is undefined.\<close>

fun atoi_loop :: "int \<Rightarrow> byte list \<Rightarrow> int option" where
  "atoi_loop n [] = Some n"
| "atoi_loop n (s # ss) =
     (if 48 \<le> s \<and> s \<le> 57 then
        (let n' = n * 10 + uint s - 48 in if n * 10 + uint s < 2 ^ 31 then atoi_loop n' ss else None)
      else Some n)"

definition atoi :: "byte list \<Rightarrow> int option" where
  "atoi s = atoi_loop 0 s"

subsection \<open>Memory\<close>

partial_function (option) ustrcpy :: "cmem \<Rightarrow> nat \<Rightarrow> nat \<Rightarrow> cmem option" where
  "ustrcpy m s t = (if m t \<noteq> 0 then ustrcpy (m(s := m t)) (Suc s) (Suc t) else Some (m(s := 0)))"

fun umemset_loop :: "cmem \<Rightarrow> nat \<Rightarrow> byte \<Rightarrow> nat \<Rightarrow> nat \<Rightarrow> cmem" where
  "umemset_loop m dst c i 0 = m"
| "umemset_loop m dst c i (Suc k) = umemset_loop (m(dst + i := c)) dst c (Suc i) k"

definition umemset :: "cmem \<Rightarrow> nat \<Rightarrow> int \<Rightarrow> nat \<Rightarrow> cmem" where
  "umemset m dst c n = umemset_loop m dst (word_of_int c) 0 n"

text \<open>The loops \<^verbatim>\<open>*dst++ = *src++\<close> and \<^verbatim>\<open>*--dst = *--src\<close>.\<close>

fun umove_up :: "cmem \<Rightarrow> nat \<Rightarrow> nat \<Rightarrow> nat \<Rightarrow> cmem" where
  "umove_up m d s 0 = m"
| "umove_up m d s (Suc n) = umove_up (m(d := m s)) (Suc d) (Suc s) n"

fun umove_down :: "cmem \<Rightarrow> nat \<Rightarrow> nat \<Rightarrow> nat \<Rightarrow> cmem" where
  "umove_down m d s 0 = m"
| "umove_down m d s (Suc n) = umove_down (m(d + n := m (s + n))) d s n"

definition umemmove :: "cmem \<Rightarrow> nat \<Rightarrow> nat \<Rightarrow> int \<Rightarrow> cmem" where
  "umemmove m dst src n = (if src > dst then umove_up m dst src (nat n) else umove_down m dst src (nat n))"

fun umemcmp :: "cmem \<Rightarrow> nat \<Rightarrow> nat \<Rightarrow> nat \<Rightarrow> int" where
  "umemcmp m p1 p2 0 = 0"
| "umemcmp m p1 p2 (Suc n) = (if m p1 \<noteq> m p2 then uint (m p1) - uint (m p2) else umemcmp m (Suc p1) (Suc p2) n)"

definition umemcpy :: "cmem \<Rightarrow> nat \<Rightarrow> nat \<Rightarrow> nat \<Rightarrow> cmem" where
  "umemcpy m dst src n = umemmove m dst src (sint (word_of_nat n :: 32 word))"

subsection \<open>Input\<close>

type_synonym input = "byte list option list"

text \<open>A read of at most \<open>k\<close> bytes: its result, the bytes, and what is left.\<close>

fun read_input :: "nat \<Rightarrow> input \<Rightarrow> int \<times> byte list \<times> input" where
  "read_input k [] = (0, [], [])"
| "read_input k (None # rs) = (-1, [], rs)"
| "read_input k (Some c # rs) = (int (length (take k c)), take k c, if length c \<le> k then rs else Some (drop k c) # rs)"

text \<open>The loop of \<open>gets\<close>: the bytes stored before the final NUL; \<open>left\<close> is \<^verbatim>\<open>max - 1 - i\<close>.\<close>

fun gets_loop :: "nat \<Rightarrow> input \<Rightarrow> byte list \<times> input" where
  "gets_loop 0 rs = ([], rs)"
| "gets_loop (Suc left) rs =
     (let (cc, bs, rs) = read_input 1 rs in
      if cc < 1 then ([], rs)
      else (let c = hd bs in
        if c = 10 \<or> c = 13 then ([c], rs) else (let (xs, rs) = gets_loop left rs in (c # xs, rs))))"

definition ugets :: "nat \<Rightarrow> input \<Rightarrow> byte list \<times> input" where
  "ugets mx rs = gets_loop (mx - 1) rs"

subsection \<open>Facts\<close>

definition input_size :: "input \<Rightarrow> nat" where
  "input_size rs = sum_list (map (\<lambda>r. Suc (case r of None \<Rightarrow> 0 | Some c \<Rightarrow> length c)) rs)"

lemma read_input_less:
  "read_input k rs = (n, c, rs') \<Longrightarrow> 0 < n \<Longrightarrow> input_size rs' < input_size rs"
  by (cases "(k, rs)" rule: read_input.cases) (auto simp: input_size_def split: if_splits)

lemma umove_up_spec: "d < s \<Longrightarrow> umove_up m d s n a = (if d \<le> a \<and> a < d + n then m (s + (a - d)) else m a)"
  by (induction n arbitrary: m d s) (auto simp: Suc_diff_Suc le_Suc_eq)

lemma umove_down_spec: "s \<le> d \<Longrightarrow> umove_down m d s n a = (if d \<le> a \<and> a < d + n then m (s + (a - d)) else m a)"
  by (induction n arbitrary: m) auto

lemma umemmove_copies:
  "umemmove m dst src n a = (if dst \<le> a \<and> a < dst + nat n then m (src + (a - dst)) else m a)"
  by (simp add: umemmove_def umove_up_spec umove_down_spec)

lemma strchr_None: "0 \<notin> set s \<Longrightarrow> strchr s c = None \<longleftrightarrow> c \<notin> set s"
  by (induction s) auto

lemma strchr_Some:
  assumes "strchr s c = Some k"
  shows "k < length s" "s ! k = c" "c \<notin> set (take k s)" "0 \<notin> set (take (Suc k) s)"
proof -
  have "k < length s \<and> s ! k = c \<and> c \<notin> set (take k s) \<and> 0 \<notin> set (take (Suc k) s)"
    using assms by (induction s arbitrary: k) (auto split: if_splits)
  then show "k < length s" "s ! k = c" "c \<notin> set (take k s)" "0 \<notin> set (take (Suc k) s)" by simp_all
qed

lemma input_size_None [simp]: "input_size (None # rs) = Suc (input_size rs)"
  by (simp add: input_size_def)

lemma gets_loop_le: "gets_loop n rs = (xs, rs') \<Longrightarrow> input_size rs' \<le> input_size rs \<and> (xs \<noteq> [] \<longrightarrow> input_size rs' < input_size rs)"
proof (induction n arbitrary: rs xs rs')
  case (Suc n)
  obtain cc bs rt where r: "read_input 1 rs = (cc, bs, rt)" by (metis prod_cases3)
  show ?case
  proof (cases "cc < 1")
    case True
    then show ?thesis using Suc.prems r by (cases rs rule: list.exhaust; cases "hd rs") (auto simp: input_size_def Let_def split: if_splits)
  next
    case False
    then have "input_size rt < input_size rs" using read_input_less [OF r] by simp
    then show ?thesis using Suc.prems r False Suc.IH [of rt] by (auto simp: Let_def split: if_splits prod.splits)
  qed
qed simp

subsection \<open>Formatted output\<close>

text \<open>\<^verbatim>\<open>user/printf.c\<close>. Its format loop keeps a state instead of looking ahead; it prints what the kernel's loop
  prints, with its own digits, and \<open>atoi\<close> reads back the numbers it prints.\<close>

definition user_digits :: printed where
  "user_digits = text_bytes ''0123456789ABCDEF''"

definition putc_arg :: "64 word \<Rightarrow> printed" where
  "putc_arg x = [ucast x]"

text \<open>The flag is the state: a percent sign has been seen.\<close>

function vprintf :: "bool \<Rightarrow> printed \<Rightarrow> parg list \<Rightarrow> printed option" where
  "vprintf st [] ps = Some []"
| "vprintf False (c # f) ps = (if c = 37 then vprintf True f ps else map_option (\<lambda>out. c # out) (vprintf False f ps))"
| "vprintf True (c # f) ps =
     (let (cv, k) = directive c (char_at f 0) (char_at f 1) in do {
        (out, ps) \<leftarrow> print_conv user_digits putc_arg cv c ps;
        rest \<leftarrow> vprintf False (drop k f) ps;
        Some (out @ rest)
      })"
  by pat_completeness auto
termination
  by (relation "measure (\<lambda>(_, f, _). length f)") auto

definition uprintf :: "string \<Rightarrow> parg list \<Rightarrow> printed option" where
  "uprintf fmt ps = vprintf False (text_bytes fmt) ps"

lemma char_at_Cons [simp]: "char_at (c # f) 0 = c" "char_at (c # f) (Suc k) = char_at f k" "char_at (c # f) (numeral n) = char_at f (pred_numeral n)"
  by (simp_all add: char_at_def numeral_eq_Suc)

text \<open>The user's loop and the kernel's are the same function of the format and the arguments.\<close>

lemma vprintf_is_format: "vprintf False f ps = format user_digits putc_arg f ps"
proof (induction f arbitrary: ps rule: length_induct)
  case (1 f)
  then show ?case
  proof (cases f)
    case (Cons c g)
    then show ?thesis
    proof (cases "c = 37 \<and> g \<noteq> []")
      case False
      then show ?thesis using 1 Cons by auto
    next
      case True
      then obtain d h where g: "g = d # h" by (cases g) auto
      obtain cv k where k: "directive d (char_at h 0) (char_at h (Suc 0)) = (cv, k)" by (metis surj_pair)
      have "vprintf False (drop k h) qs = format user_digits putc_arg (drop k h) qs" for qs
        using 1 Cons g by simp
      then show ?thesis using Cons True g k by simp
    qed
  qed simp
qed

subsection \<open>Numbers that are read back\<close>

lemma user_digit: "d < 10 \<Longrightarrow> user_digits ! d = word_of_nat (48 + d)"
proof -
  have "\<forall>d \<in> set [0..<10]. user_digits ! d = word_of_nat (48 + d)" by (simp add: user_digits_def text_bytes_def upt_rec)
  then show "d < 10 \<Longrightarrow> user_digits ! d = word_of_nat (48 + d)" by simp
qed

definition horner :: "int \<Rightarrow> nat list \<Rightarrow> int" where
  "horner n ds = foldl (\<lambda>n d. n * 10 + int d) n ds"

lemma horner_ge: "0 \<le> n \<Longrightarrow> n \<le> horner n ds"
proof (induction ds arbitrary: n)
  case (Cons d ds)
  have "n * 10 + int d \<le> horner (n * 10 + int d) ds" using Cons by simp
  then show ?case using Cons.prems by (simp add: horner_def)
qed (simp add: horner_def)

lemma atoi_horner:
  assumes "\<forall>d \<in> set ds. d < 10" "0 \<le> n" "horner n ds < 2 ^ 31 - 48"
  shows "atoi_loop n (map ((!) user_digits) ds) = Some (horner n ds)"
  using assms
proof (induction ds arbitrary: n)
  case (Cons d ds)
  have d: "d < 10" using Cons.prems(1) by simp
  have h: "horner n (d # ds) = horner (n * 10 + int d) ds" by (simp add: horner_def)
  have "unat (word_of_nat (48 + d) :: byte) = 48 + d" using d by (subst unat_of_nat) simp
  then have u: "uint (word_of_nat (48 + d) :: byte) = 48 + int d" by (simp add: uint_nat)
  have c: "48 \<le> (word_of_nat (48 + d) :: byte)" "(word_of_nat (48 + d) :: byte) \<le> 57"
    using d u by (simp_all add: word_le_def)
  have "n * 10 + int d < 2 ^ 31 - 48" using Cons.prems(2,3) horner_ge [of "n * 10 + int d" ds] h by simp
  then show ?case using Cons.IH [of "n * 10 + int d"] Cons.prems u c h
    by (simp add: user_digit [OF d] Let_def del: of_nat_add)
qed (simp add: horner_def)

lemma horner_digits: "horner 0 (rev ds) = int (digit_sum 10 ds)"
  by (induction ds) (simp_all add: horner_def)

text \<open>A non-negative number that \<open>printf\<close> prints in decimal is read back by \<open>atoi\<close>, up to the last few values of \<^verbatim>\<open>int\<close>,
  where adding the digit's character overflows before the offset is subtracted.\<close>

theorem atoi_reads_printed:
  assumes "0 \<le> n" "n < 2 ^ 31 - 48"
  shows "\<exists>out. uprintf ''%d'' [RegArg (word_of_int n)] = Some out \<and> atoi out = Some n"
proof -
  have n: "uint (word_of_int n :: 64 word) = n" "uint (word_of_int n :: 32 word) = n" using assms by (simp_all add: uint_word_of_int)
  have "sint (word_of_int n :: 32 word) = n" using assms by (simp add: sint_uint n(2) signed_take_bit_int_eq_self)
  then have a: "int_arg 32 True (word_of_int n) = n" by (simp add: int_arg_def ucast_eq n(1))
  have u: "unat (word_of_int n :: 64 word) = nat n" by (simp add: unat_eq_nat_uint n(1))
  obtain ds where ds: "digit_loop user_digits 10 (nat n) = map ((!) user_digits) ds" "\<forall>d \<in> set ds. d < 10" "digit_sum 10 ds = nat n"
    using digit_loop_value [of 10 user_digits "nat n"] by auto
  have "printint user_digits n 10 True = map ((!) user_digits) (rev ds)"
    using assms(1) by (simp add: printint_def printint_buf_def u ds(1) rev_map)
  moreover have "uprintf ''%d'' [RegArg (word_of_int n)] = Some (printint user_digits n 10 True)"
    by (simp add: uprintf_def text_bytes_def directive_def a)
  moreover have "atoi (map ((!) user_digits) (rev ds)) = Some n"
    unfolding atoi_def using atoi_horner [of "rev ds" 0] ds(2,3) assms by (simp add: horner_digits)
  ultimately show ?thesis by simp
qed

theorem atoi_reads_printed_witness: "\<exists>out. uprintf ''%d'' [RegArg 2025] = Some out \<and> atoi out = Some 2025"
  using atoi_reads_printed [of 2025] by simp

end
