(* ===== verification/User_Sh.thy ===== *)
theory User_Sh
  imports User_Lib
begin

text \<open>
  The parser of the shell, \<^verbatim>\<open>user/sh.c\<close>. A pointer into the line is the rest of the line from there on, so that the
  end pointer is the empty list. A panic is the left side of a result, with what it prints; the parse functions call
  each other with a depth, and \<^const>\<open>None\<close> says that it was too small, which \<open>parser_returns\<close> excludes. \<open>malloc\<close> is
  taken to succeed.
\<close>

type_synonym ptr = "byte list"
type_synonym 'a presult = "(byte list + 'a) option"

subsection \<open>Commands\<close>

text \<open>A word is \<open>'w\<close>: the two pointers of a token for the parser.\<close>

datatype 'w cmd = EXEC "'w list" | REDIR "'w cmd" 'w int int | PIPE "'w cmd" "'w cmd" | LIST "'w cmd" "'w cmd" | BACK "'w cmd"

type_synonym token = "ptr \<times> ptr"

definition MAXARGS :: nat where "MAXARGS = 10"

text \<open>\<^verbatim>\<open>O_RDONLY\<close>, \<^verbatim>\<open>O_WRONLY|O_CREATE|O_TRUNC\<close> and \<^verbatim>\<open>O_WRONLY|O_CREATE\<close>\<close>

definition in_mode :: int where "in_mode = 0"
definition out_mode :: int where "out_mode = or 0x001 (or 0x200 0x400)"
definition append_mode :: int where "append_mode = or 0x001 0x200"

text \<open>The assignment to \<open>argv\<close> and \<open>eargv\<close> through the pointer to the command inside the redirections.\<close>

fun add_arg :: "'w \<Rightarrow> 'w cmd \<Rightarrow> 'w cmd" where
  "add_arg a (EXEC as) = EXEC (as @ [a])"
| "add_arg a (REDIR c f m fd) = REDIR (add_arg a c) f m fd"
| "add_arg a c = c"

subsection \<open>Tokens\<close>

definition whitespace :: "byte list" where "whitespace = [32, 9, 13, 10, 11]"
definition symbols :: "byte list" where "symbols = text_bytes ''<|>&;()''"

definition is_space :: "byte \<Rightarrow> bool" where "is_space c \<longleftrightarrow> strchr whitespace c \<noteq> None"
definition is_symbol :: "byte \<Rightarrow> bool" where "is_symbol c \<longleftrightarrow> strchr symbols c \<noteq> None"

definition is_word :: "byte \<Rightarrow> bool" where "is_word c \<longleftrightarrow> \<not> is_space c \<and> \<not> is_symbol c"

definition skip :: "ptr \<Rightarrow> ptr" where "skip s = dropWhile is_space s"

text \<open>The switch of \<open>gettoken\<close>: the kind of the token and its end.\<close>

definition token_end :: "ptr \<Rightarrow> byte \<times> ptr" where
  "token_end s =
     (case s of
        [] \<Rightarrow> (0, [])
      | c # r \<Rightarrow>
          if c = 124 \<or> c = 40 \<or> c = 41 \<or> c = 59 \<or> c = 38 \<or> c = 60 then (c, r)
          else if c = 62 then (if r \<noteq> [] \<and> hd r = 62 then (43, tl r) else (62, r))
          else (97, dropWhile is_word s))"

text \<open>The result is the kind of the token, its start and end, and the rest.\<close>

definition gettoken :: "ptr \<Rightarrow> byte \<times> ptr \<times> ptr \<times> ptr" where
  "gettoken ps = (let s = skip ps; (ret, e) = token_end s in (ret, s, e, skip e))"

definition peek :: "string \<Rightarrow> ptr \<Rightarrow> ptr \<times> bool" where
  "peek toks ps = (let s = skip ps in (s, s \<noteq> [] \<and> strchr (text_bytes toks) (hd s) \<noteq> None))"

lemma skip_le: "length (skip s) \<le> length s"
  unfolding skip_def by (induction s) auto

lemma dropWhile_le: "length (dropWhile P s) \<le> length s"
  by (induction s) auto

lemma peek_le: "peek toks ps = (s, b) \<Longrightarrow> length s \<le> length ps"
  by (auto simp: peek_def Let_def skip_le)

lemma skip_hd: "skip s = c # r \<Longrightarrow> \<not> is_space c"
  unfolding skip_def by (metis dropWhile_eq_Cons_conv)

lemma is_symbol_iff: "is_symbol c \<longleftrightarrow> c \<in> {60, 124, 62, 38, 59, 40, 41}"
  by (auto simp: is_symbol_def symbols_def text_bytes_def)

lemma is_space_iff: "is_space c \<longleftrightarrow> c \<in> {32, 9, 13, 10, 11}"
  by (auto simp: is_space_def whitespace_def)

lemma token_end_less:
  assumes "token_end (c # r) = (ret, e)" "\<not> is_space c"
  shows "length e \<le> length r"
proof (cases "is_symbol c")
  case True
  then show ?thesis using assms by (auto simp: token_end_def is_symbol_iff split: if_splits)
next
  case False
  then have "e = dropWhile is_word r" using assms by (auto simp: token_end_def is_symbol_iff is_word_def split: if_splits)
  then show ?thesis by (simp add: dropWhile_le)
qed

lemma gettoken_less:
  assumes "gettoken s = (ret, q, e, s')" "skip s \<noteq> []"
  shows "length s' < length s"
proof -
  obtain c r where t: "skip s = c # r" using assms(2) by (cases "skip s") auto
  then have "token_end (c # r) = (ret, e)" "s' = skip e" using assms(1) by (auto simp: gettoken_def Let_def split: prod.splits)
  then show ?thesis using token_end_less [of c r ret e] skip_hd [OF t] skip_le [of e] skip_le [of s] t by simp
qed

lemma gettoken_zero: "gettoken s = (ret, q, e, s') \<Longrightarrow> ret \<noteq> 0 \<Longrightarrow> skip s \<noteq> []"
  by (auto simp: gettoken_def token_end_def Let_def)

lemma peek_less: "peek toks s = (s1, True) \<Longrightarrow> gettoken s1 = (ret, q, e, s') \<Longrightarrow> length s' < length s"
proof -
  assume a: "peek toks s = (s1, True)" "gettoken s1 = (ret, q, e, s')"
  then have s1: "s1 = skip s" "s1 \<noteq> []" by (auto simp: peek_def Let_def)
  then have "skip s1 = s1" by (simp add: skip_def)
  then show "length s' < length s" using gettoken_less [OF a(2)] s1 skip_le [of s] by simp
qed

subsection \<open>The parser\<close>

definition panic_text :: "string \<Rightarrow> byte list" where
  "panic_text m = text_bytes m @ [10]"

definition pbind :: "'a presult \<Rightarrow> ('a \<Rightarrow> 'b presult) \<Rightarrow> 'b presult" where
  "pbind r f = (case r of None \<Rightarrow> None | Some (Inl e) \<Rightarrow> Some (Inl e) | Some (Inr x) \<Rightarrow> f x)"

lemma pbind_simps [simp]:
  "pbind None f = None" "pbind (Some (Inl e)) f = Some (Inl e)" "pbind (Some (Inr x)) f = f x"
  by (simp_all add: pbind_def)

text \<open>The loop over the ampersands in \<open>parseline\<close>.\<close>

function back_loop :: "token cmd \<Rightarrow> ptr \<Rightarrow> token cmd \<times> ptr" where
  "back_loop c s =
     (let (s1, b) = peek ''&'' s in
      if b then (let (_, _, _, s2) = gettoken s1 in back_loop (BACK c) s2) else (c, s1))"
  by pat_completeness auto
termination
  by (relation "measure (\<lambda>(_, s). length s)") (auto dest: peek_less [OF sym sym])

declare back_loop.simps [simp del]

definition redir :: "byte \<Rightarrow> token cmd \<Rightarrow> token \<Rightarrow> token cmd" where
  "redir tok c f =
     (if tok = 60 then REDIR c f in_mode 0
      else if tok = 62 then REDIR c f out_mode 1
      else if tok = 43 then REDIR c f append_mode 1
      else c)"

function parseredirs :: "token cmd \<Rightarrow> ptr \<Rightarrow> byte list + token cmd \<times> ptr" where
  "parseredirs c s =
     (let (s1, b) = peek ''<>'' s in
      if b then
        (let (tok, _, _, s2) = gettoken s1; (k, q, e, s3) = gettoken s2 in
         if k \<noteq> 97 then Inl (panic_text ''missing file for redirection'') else parseredirs (redir tok c (q, e)) s3)
      else Inr (c, s1))"
  by pat_completeness auto
termination
proof (relation "measure (\<lambda>(_, s). length s)", goal_cases)
  case (2 c s p s1 b x tok y q1 z e1 s2 w k v q u e s3)
  then have "peek ''<>'' s = (s1, True)" "gettoken s1 = (tok, q1, e1, s2)" "gettoken s2 = (k, q, e, s3)" "k = 97" by simp_all
  then have "length s2 < length s" "length s3 < length s2"
    using peek_less [of "''<>''" s s1 tok q1 e1 s2] gettoken_less [of s2 k q e s3] gettoken_zero [of s2 k q e s3] by simp_all
  then show ?case by simp
qed simp

declare parseredirs.simps [simp del]

text \<open>The loop of \<open>parseexec\<close>; \<open>ret\<close> is the command with its redirections so far.\<close>

function exec_loop :: "token cmd \<Rightarrow> nat \<Rightarrow> ptr \<Rightarrow> byte list + token cmd \<times> ptr" where
  "exec_loop ret argc s =
     (let (s1, b) = peek ''|)&;'' s in
      if b then Inr (ret, s1)
      else
        (let (tok, q, e, s2) = gettoken s1 in
         if tok = 0 then Inr (ret, s2)
         else if tok \<noteq> 97 then Inl (panic_text ''syntax'')
         else if Suc argc \<ge> MAXARGS then Inl (panic_text ''too many args'')
         else
           (case parseredirs (add_arg (q, e) ret) s2 of
              Inl m \<Rightarrow> Inl m
            | Inr (ret', s3) \<Rightarrow> exec_loop ret' (Suc argc) s3)))"
  by pat_completeness auto
termination
  by (relation "measure (\<lambda>(_, argc, _). MAXARGS - argc)") auto

declare exec_loop.simps [simp del]

fun parseline :: "nat \<Rightarrow> ptr \<Rightarrow> (token cmd \<times> ptr) presult"
  and parsepipe :: "nat \<Rightarrow> ptr \<Rightarrow> (token cmd \<times> ptr) presult"
  and parseexec :: "nat \<Rightarrow> ptr \<Rightarrow> (token cmd \<times> ptr) presult"
  and parseblock :: "nat \<Rightarrow> ptr \<Rightarrow> (token cmd \<times> ptr) presult" where
  "parseline 0 s = None"
| "parseline (Suc k) s =
     pbind (parsepipe k s) (\<lambda>(c, s).
       (let (c, s) = back_loop c s; (s, b) = peek '';'' s in
        if b then (let (_, _, _, s) = gettoken s in pbind (parseline k s) (\<lambda>(d, s). Some (Inr (LIST c d, s))))
        else Some (Inr (c, s))))"
| "parsepipe 0 s = None"
| "parsepipe (Suc k) s =
     pbind (parseexec k s) (\<lambda>(c, s).
       (let (s, b) = peek ''|'' s in
        if b then (let (_, _, _, s) = gettoken s in pbind (parsepipe k s) (\<lambda>(d, s). Some (Inr (PIPE c d, s))))
        else Some (Inr (c, s))))"
| "parseexec 0 s = None"
| "parseexec (Suc k) s =
     (let (s, b) = peek ''('' s in
      if b then parseblock k s
      else pbind (Some (parseredirs (EXEC []) s)) (\<lambda>(c, s). Some (exec_loop c 0 s)))"
| "parseblock 0 s = None"
| "parseblock (Suc k) s =
     (let (s, b) = peek ''('' s in
      if \<not> b then Some (Inl (panic_text ''parseblock''))
      else
        (let (_, _, _, s) = gettoken s in pbind (parseline k s) (\<lambda>(c, s).
          (let (s, b) = peek '')'' s in
           if \<not> b then Some (Inl (panic_text ''syntax - missing )''))
           else (let (_, _, _, s) = gettoken s in Some (parseredirs c s))))))"

text \<open>The final NULs: the positions that are overwritten, and the line with its own NUL.\<close>

definition pos :: "byte list \<Rightarrow> ptr \<Rightarrow> nat" where
  "pos buf s = length buf - length s"

definition cut :: "byte list \<Rightarrow> token \<Rightarrow> byte list \<Rightarrow> byte list" where
  "cut buf w m = m[pos buf (snd w) := 0]"

fun nulterminate :: "byte list \<Rightarrow> token cmd \<Rightarrow> byte list \<Rightarrow> byte list" where
  "nulterminate buf (EXEC as) m = fold (cut buf) as m"
| "nulterminate buf (REDIR c f _ _) m = cut buf f (nulterminate buf c m)"
| "nulterminate buf (PIPE c d) m = nulterminate buf d (nulterminate buf c m)"
| "nulterminate buf (LIST c d) m = nulterminate buf d (nulterminate buf c m)"
| "nulterminate buf (BACK c) m = nulterminate buf c m"

text \<open>The command and the line it points into.\<close>

definition parsecmd :: "nat \<Rightarrow> byte list \<Rightarrow> (token cmd \<times> byte list) presult" where
  "parsecmd k buf =
     pbind (parseline k buf) (\<lambda>(c, s).
       (let (s, _) = peek '''' s in
        if s \<noteq> [] then Some (Inl (text_bytes ''leftovers: '' @ s @ [10] @ panic_text ''syntax''))
        else Some (Inr (c, nulterminate buf c (buf @ [0])))))"

text \<open>The string a pointer leads to.\<close>

definition word_at :: "byte list \<Rightarrow> byte list \<Rightarrow> token \<Rightarrow> byte list" where
  "word_at buf m w = takeWhile (\<lambda>c. c \<noteq> 0) (drop (pos buf (fst w)) m)"

end
