(* ===== verification/User_Sh_Props.thy ===== *)
theory User_Sh_Props
  imports User_Sh "HOL-Library.Sublist"
begin

text \<open>
  The shell's parser: it returns on every line; the words of the command it returns are strings of the line once
  the NULs are written; and it reads back every command that is printed.
\<close>

subsection \<open>Pointers into the line\<close>

text \<open>A word of the line: its bytes, and what follows it is not a byte of a word.\<close>

definition tok_ok :: "ptr \<Rightarrow> token \<Rightarrow> bool" where
  "tok_ok s t \<longleftrightarrow> suffix (fst t) s \<and> (\<exists>w. fst t = w @ snd t \<and> w \<noteq> [] \<and> (\<forall>c \<in> set w. is_word c)) \<and>
     (snd t \<noteq> [] \<longrightarrow> \<not> is_word (hd (snd t)))"

definition toks_ok :: "ptr \<Rightarrow> token cmd \<Rightarrow> bool" where
  "toks_ok s c \<longleftrightarrow> (\<forall>t \<in> set_cmd c. tok_ok s t)"

lemma tok_ok_mono: "tok_ok s t \<Longrightarrow> suffix s s' \<Longrightarrow> tok_ok s' t"
  by (auto simp: tok_ok_def intro: suffix_order.trans)

lemma toks_ok_mono: "toks_ok s c \<Longrightarrow> suffix s s' \<Longrightarrow> toks_ok s' c"
  by (auto simp: toks_ok_def intro: tok_ok_mono)

lemma toks_ok_simps [simp]:
  "toks_ok s (EXEC as) \<longleftrightarrow> (\<forall>t \<in> set as. tok_ok s t)" "toks_ok s (REDIR c f m fd) \<longleftrightarrow> toks_ok s c \<and> tok_ok s f"
  "toks_ok s (PIPE c d) \<longleftrightarrow> toks_ok s c \<and> toks_ok s d" "toks_ok s (LIST c d) \<longleftrightarrow> toks_ok s c \<and> toks_ok s d"
  "toks_ok s (BACK c) \<longleftrightarrow> toks_ok s c"
  by (auto simp: toks_ok_def)

lemma skip_Nil [simp]: "skip [] = []"
  by (simp add: skip_def)

lemma skip_suffix: "suffix (skip s) s"
  unfolding skip_def by (rule suffix_dropWhile)

lemma skip_skip [simp]: "skip (skip s) = skip s"
  by (simp add: skip_def)

lemma token_end_suffix: "token_end s = (ret, e) \<Longrightarrow> suffix e s"
proof (cases s)
  case (Cons c r)
  have "suffix (tl r) (c # r)" by (metis suffix_Cons suffix_tl)
  then show "token_end s = (ret, e) \<Longrightarrow> suffix e s" using Cons suffix_dropWhile [of is_word "c # r"]
    by (auto simp: token_end_def suffix_Cons split: if_splits)
qed (simp add: token_end_def)

lemma gettoken_suffix:
  assumes "gettoken s = (ret, q, e, s')"
  shows "suffix s' s" "ret = 97 \<Longrightarrow> tok_ok s (q, e)"
proof -
  have g: "token_end (skip s) = (ret, e)" "q = skip s" "s' = skip e" using assms by (auto simp: gettoken_def Let_def split: prod.splits)
  show "suffix s' s" using token_end_suffix [OF g(1)] skip_suffix g(3) by (metis suffix_order.trans)
  show "tok_ok s (q, e)" if "ret = 97"
  proof (cases "skip s")
    case Nil
    then show ?thesis using g(1) that by (simp add: token_end_def)
  next
    case (Cons c r)
    have e: "e = dropWhile is_word (c # r)" "\<not> is_symbol c"
      using g(1) that Cons by (auto simp: token_end_def is_symbol_iff split: if_splits)
    then have c: "is_word c" using skip_hd [OF Cons] by (simp add: is_word_def)
    have "q = takeWhile is_word (c # r) @ e" using g(2) Cons e by simp
    moreover have "suffix q s" using skip_suffix [of s] g(2) by simp
    moreover have "\<forall>c \<in> set (takeWhile is_word (c # r)). is_word c" by (auto dest: set_takeWhileD split: if_splits)
    moreover have "takeWhile is_word (c # r) \<noteq> []" using c by simp
    moreover have "e \<noteq> [] \<longrightarrow> \<not> is_word (hd e)" unfolding e(1) using hd_dropWhile [of is_word "c # r"] by blast
    ultimately show ?thesis unfolding tok_ok_def fst_conv snd_conv by blast
  qed
qed

lemma peek_suffix: "peek toks s = (s', b) \<Longrightarrow> suffix s' s"
  by (auto simp: peek_def Let_def skip_suffix)

lemma gettoken_toks: "toks_ok s' c \<Longrightarrow> gettoken s = (ret, q, e, s') \<Longrightarrow> toks_ok s c"
  by (rule toks_ok_mono [OF _ gettoken_suffix(1)])

lemma redir_toks [simp]: "toks_ok s c \<Longrightarrow> tok_ok s f \<Longrightarrow> toks_ok s (redir tok c f)"
  by (simp add: redir_def)

lemma add_arg_toks [simp]: "toks_ok s c \<Longrightarrow> tok_ok s a \<Longrightarrow> toks_ok s (add_arg a c)"
  by (induction a c rule: add_arg.induct) auto

text \<open>\<open>line\<close> is the whole line, \<open>s\<close> a pointer into it.\<close>

lemma back_loop_ok: "back_loop c s = (d, t) \<Longrightarrow> suffix t s \<and> (toks_ok line c \<longrightarrow> toks_ok line d)"
proof (induction c s arbitrary: d t rule: back_loop.induct)
  case (1 c s)
  obtain s1 b where p: "peek ''&'' s = (s1, b)" by (metis surj_pair)
  obtain tok q e s2 where g: "gettoken s1 = (tok, q, e, s2)" by (metis prod_cases4)
  have s: "suffix s1 s" "suffix s2 s"
    using suffix_order.trans [OF gettoken_suffix(1) [OF g] peek_suffix [OF p]] peek_suffix [OF p] by simp_all
  have "back_loop (BACK c) s2 = (d, t)" if b using 1(2) p g that by (subst (asm) back_loop.simps) simp
  moreover have "d = c \<and> t = s1" if "\<not> b" using 1(2) p g that by (subst (asm) back_loop.simps) simp
  ultimately show ?case using 1(1) [OF p [symmetric] refl _ g [symmetric] refl refl] s(1) suffix_order.trans [OF _ s(2), of t] by (cases b) auto
qed

lemma parseredirs_ok: "parseredirs c s = Inr (d, t) \<Longrightarrow> suffix t s \<and> (suffix s line \<longrightarrow> toks_ok line c \<longrightarrow> toks_ok line d)"
proof (induction c s arbitrary: d t rule: parseredirs.induct)
  case (1 c s)
  obtain s1 b where p: "peek ''<>'' s = (s1, b)" by (metis surj_pair)
  show ?case
  proof (cases b)
    case True
    obtain tok q e s2 where g: "gettoken s1 = (tok, q, e, s2)" by (metis prod_cases4)
    obtain k q' e' s3 where h: "gettoken s2 = (k, q', e', s3)" by (metis prod_cases4)
    have k: "k = 97" "parseredirs (redir tok c (q', e')) s3 = Inr (d, t)"
      using 1(2) p g h True by (subst (asm) parseredirs.simps, simp split: if_splits)+
    have s: "suffix s2 s" by (rule suffix_order.trans [OF gettoken_suffix(1) [OF g] peek_suffix [OF p]])
    have s3: "suffix s3 s" by (rule suffix_order.trans [OF gettoken_suffix(1) [OF h] s])
    have "suffix t s3 \<and> (suffix s3 line \<longrightarrow> toks_ok line (redir tok c (q', e')) \<longrightarrow> toks_ok line d)"
      using 1(1) p g h True k by simp
    moreover have "tok_ok line (q', e')" if "suffix s line"
      by (rule tok_ok_mono [OF gettoken_suffix(2) [OF h k(1)] suffix_order.trans [OF s that]])
    moreover have "suffix s3 line" if "suffix s line" by (rule suffix_order.trans [OF s3 that])
    ultimately show ?thesis using suffix_order.trans [OF _ s3, of t] redir_toks [of line c "(q', e')" tok] by metis
  next
    case False
    then show ?thesis using 1(2) p peek_suffix [OF p] by (subst (asm) parseredirs.simps) simp
  qed
qed

lemma exec_loop_ok: "exec_loop c n s = Inr (d, t) \<Longrightarrow> suffix t s \<and> (suffix s line \<longrightarrow> toks_ok line c \<longrightarrow> toks_ok line d)"
proof (induction c n s arbitrary: d t rule: exec_loop.induct)
  case (1 c n s)
  obtain s1 b where p: "peek ''|)&;'' s = (s1, b)" by (metis surj_pair)
  obtain tok q e s2 where g: "gettoken s1 = (tok, q, e, s2)" by (metis prod_cases4)
  have s: "suffix s1 s" "suffix s2 s"
    using suffix_order.trans [OF gettoken_suffix(1) [OF g] peek_suffix [OF p]] peek_suffix [OF p] by simp_all
  show ?case
  proof (cases "b \<or> tok = 0")
    case True
    then show ?thesis using 1(2) p g s by (subst (asm) exec_loop.simps) (auto split: if_splits)
  next
    case False
    then have k: "tok = 97" "\<not> Suc n \<ge> MAXARGS" using 1(2) p g by (subst (asm) exec_loop.simps, simp split: if_splits)+
    obtain c' s3 where r: "parseredirs (add_arg (q, e) c) s2 = Inr (c', s3)" "exec_loop c' (Suc n) s3 = Inr (d, t)"
      using 1(2) p g False k by (subst (asm) exec_loop.simps) (auto split: sum.splits)
    have i: "suffix t s3 \<and> (suffix s3 line \<longrightarrow> toks_ok line c' \<longrightarrow> toks_ok line d)"
      using 1(1) [OF p [symmetric] refl _ g [symmetric] refl refl refl _ _ _ r(1) refl r(2)] False k by simp
    note R = parseredirs_ok [OF r(1), of line]
    have s3: "suffix s3 s" using R suffix_order.trans [OF _ s(2)] by blast
    have "tok_ok line (q, e)" if "suffix s line"
      by (rule tok_ok_mono [OF gettoken_suffix(2) [OF g k(1)] suffix_order.trans [OF s(1) that]])
    moreover have "suffix s2 line" "suffix s3 line" if "suffix s line"
      by (rule suffix_order.trans [OF s(2) that], rule suffix_order.trans [OF s3 that])
    ultimately show ?thesis using i R suffix_order.trans [OF _ s3, of t] add_arg_toks [of line c "(q, e)"] by metis
  qed
qed

lemma pbind_Inr: "pbind r f = Some (Inr y) \<Longrightarrow> (\<And>x. r = Some (Inr x) \<Longrightarrow> f x = Some (Inr y) \<Longrightarrow> P) \<Longrightarrow> P"
  by (auto simp: pbind_def split: option.splits sum.splits)

lemma next_suffix: "peek toks s = (s1, b) \<Longrightarrow> gettoken s1 = (tok, q, e, s2) \<Longrightarrow> suffix s2 s"
  by (rule suffix_order.trans [OF gettoken_suffix(1) peek_suffix])

lemma parse_ok:
  "parseline k s = Some (Inr (d, t)) \<Longrightarrow> suffix t s \<and> toks_ok s d"
  "parsepipe k s = Some (Inr (d, t)) \<Longrightarrow> suffix t s \<and> toks_ok s d"
  "parseexec k s = Some (Inr (d, t)) \<Longrightarrow> suffix t s \<and> toks_ok s d"
  "parseblock k s = Some (Inr (d, t)) \<Longrightarrow> suffix t s \<and> toks_ok s d"
proof (induction k arbitrary: s d t)
  case (Suc k)
  note tr = suffix_order.trans
  {
    case 1
    then obtain c u where c: "parsepipe k s = Some (Inr (c, u))" by (auto elim!: pbind_Inr)
    obtain c' v where b: "back_loop c u = (c', v)" by (metis surj_pair)
    obtain w e where p: "peek '';'' v = (w, e)" by (metis surj_pair)
    obtain tok q e2 x where g: "gettoken w = (tok, q, e2, x)" by (metis prod_cases4)
    have P: "suffix u s" "toks_ok s c'" "suffix v s" using Suc.IH(2) [OF c] back_loop_ok [OF b, of s] tr [of v u s] by auto
    have x: "suffix w s" "suffix x s" using tr [OF peek_suffix [OF p] P(3)] tr [OF next_suffix [OF p g] P(3)] by simp_all
    show ?case
    proof (cases e)
      case True
      then obtain d' where d: "parseline k x = Some (Inr (d', t))" "d = LIST c' d'" using 1 c b p g by (auto elim!: pbind_Inr)
      then show ?thesis using Suc.IH(1) [OF d(1)] P(2) tr [OF _ x(2), of t] toks_ok_mono [OF _ x(2)] by auto
    next
      case False
      then show ?thesis using 1 c b p P x by auto
    qed
  next
    case 2
    then obtain c u where c: "parseexec k s = Some (Inr (c, u))" by (auto elim!: pbind_Inr)
    obtain w e where p: "peek ''|'' u = (w, e)" by (metis surj_pair)
    obtain tok q e2 x where g: "gettoken w = (tok, q, e2, x)" by (metis prod_cases4)
    have P: "suffix u s" "toks_ok s c" using Suc.IH(3) [OF c] by auto
    have x: "suffix w s" "suffix x s" using tr [OF peek_suffix [OF p] P(1)] tr [OF next_suffix [OF p g] P(1)] by simp_all
    show ?case
    proof (cases e)
      case True
      then obtain d' where d: "parsepipe k x = Some (Inr (d', t))" "d = PIPE c d'" using 2 c p g by (auto elim!: pbind_Inr)
      then show ?thesis using Suc.IH(2) [OF d(1)] P(2) tr [OF _ x(2), of t] toks_ok_mono [OF _ x(2)] by auto
    next
      case False
      then show ?thesis using 2 c p P x by auto
    qed
  next
    case 3
    obtain w e where p: "peek ''('' s = (w, e)" by (metis surj_pair)
    note w = peek_suffix [OF p]
    show ?case
    proof (cases e)
      case True
      then have "parseblock k w = Some (Inr (d, t))" using 3 p by simp
      then show ?thesis using Suc.IH(4) tr [OF _ w, of t] toks_ok_mono [OF _ w] by auto
    next
      case False
      then obtain c u where c: "parseredirs (EXEC []) w = Inr (c, u)" "exec_loop c 0 u = Inr (d, t)"
        using 3 p by (auto elim!: pbind_Inr)
      have P: "suffix u w" "toks_ok s c" using parseredirs_ok [OF c(1), of s] w by auto
      have "suffix u s" by (rule tr [OF P(1) w])
      then show ?thesis using exec_loop_ok [OF c(2), of s] P(2) tr [of t u s] by auto
    qed
  next
    case 4
    obtain w e where p: "peek ''('' s = (w, e)" by (metis surj_pair)
    obtain tok q e2 x where g: "gettoken w = (tok, q, e2, x)" by (metis prod_cases4)
    obtain c u where c: "parseline k x = Some (Inr (c, u))" using 4 p g by (auto elim!: pbind_Inr split: if_splits)
    obtain v e' where p': "peek '')'' u = (v, e')" by (metis surj_pair)
    obtain tok' q' e2' y where g': "gettoken v = (tok', q', e2', y)" by (metis prod_cases4)
    have d: "parseredirs c y = Inr (d, t)" using 4 p g c p' g' by (auto split: if_splits)
    have x: "suffix x s" by (rule next_suffix [OF p g])
    have P: "suffix u x" "toks_ok s c" using Suc.IH(1) [OF c] toks_ok_mono [OF _ x] by auto
    have y: "suffix y s" by (rule tr [OF next_suffix [OF p' g'] tr [OF P(1) x]])
    show ?case using parseredirs_ok [OF d, of s] y P(2) tr [OF _ y, of t] by auto
  }
qed simp_all

lemma parse_le:
  "parseline k s = Some (Inr (d, t)) \<Longrightarrow> length t \<le> length s"
  "parsepipe k s = Some (Inr (d, t)) \<Longrightarrow> length t \<le> length s"
  "parseexec k s = Some (Inr (d, t)) \<Longrightarrow> length t \<le> length s"
  using parse_ok suffix_length_le by blast+

lemma back_loop_le: "back_loop c s = (d, t) \<Longrightarrow> length t \<le> length s"
  using back_loop_ok suffix_length_le by blast

subsection \<open>It returns\<close>

lemma pbind_not_None: "r \<noteq> None \<Longrightarrow> (\<And>x. r = Some (Inr x) \<Longrightarrow> f x \<noteq> None) \<Longrightarrow> pbind r f \<noteq> None"
  by (auto simp: pbind_def split: option.splits sum.splits)

lemma pbind_returns: "(\<And>x. y = Inr x \<Longrightarrow> \<exists>z. f x = Some z) \<Longrightarrow> \<exists>z. pbind (Some y) f = Some z"
  by (cases y) auto

text \<open>Four levels for each byte are enough.\<close>

lemma parse_returns:
  "4 * length s + 4 \<le> k \<Longrightarrow> parseline k s \<noteq> None"
  "4 * length s + 3 \<le> k \<Longrightarrow> parsepipe k s \<noteq> None"
  "4 * length s + 2 \<le> k \<Longrightarrow> parseexec k s \<noteq> None"
  "4 * length s + 1 \<le> k \<Longrightarrow> parseblock k s \<noteq> None"
proof (induction k arbitrary: s)
  case (Suc k)
  {
    case 1
    show ?case unfolding parseline.simps
    proof (rule pbind_not_None, rule Suc.IH(2))
      fix x
      assume "parsepipe k s = Some (Inr x)"
      moreover obtain c t where x: "x = (c, t)" by (cases x)
      moreover obtain d u where b: "back_loop c t = (d, u)" by (metis surj_pair)
      moreover obtain v e where p: "peek '';'' u = (v, e)" by (metis surj_pair)
      moreover obtain tok q e2 w where g: "gettoken v = (tok, q, e2, w)" by (metis prod_cases4)
      ultimately have "parseline k w \<noteq> None" if e
        using Suc.IH(1) [of w] 1 that parse_le(2) [of k s c t] back_loop_le [OF b] peek_less [of "'';''" u v tok q e2 w] by simp
      then show "(case x of (c, s) \<Rightarrow> let (c, s) = back_loop c s; (s, b) = peek '';'' s in
          if b then (let (_, _, _, s) = gettoken s in pbind (parseline k s) (\<lambda>(d, s). Some (Inr (LIST c d, s)))) else Some (Inr (c, s))) \<noteq> None"
        by (auto simp: x b p g intro!: pbind_not_None pbind_returns)
    qed (use 1 in simp)
  next
    case 2
    show ?case unfolding parsepipe.simps
    proof (rule pbind_not_None, rule Suc.IH(3))
      fix x
      assume "parseexec k s = Some (Inr x)"
      moreover obtain c t where x: "x = (c, t)" by (cases x)
      moreover obtain v e where p: "peek ''|'' t = (v, e)" by (metis surj_pair)
      moreover obtain tok q e2 w where g: "gettoken v = (tok, q, e2, w)" by (metis prod_cases4)
      ultimately have "parsepipe k w \<noteq> None" if e
        using Suc.IH(2) [of w] 2 that parse_le(3) [of k s c t] peek_less [of "''|''" t v tok q e2 w] by simp
      then show "(case x of (c, s) \<Rightarrow> let (s, b) = peek ''|'' s in
          if b then (let (_, _, _, s) = gettoken s in pbind (parsepipe k s) (\<lambda>(d, s). Some (Inr (PIPE c d, s)))) else Some (Inr (c, s))) \<noteq> None"
        by (auto simp: x p g intro!: pbind_not_None pbind_returns)
    qed (use 2 in simp)
  next
    case 3
    obtain v e where p: "peek ''('' s = (v, e)" by (metis surj_pair)
    have "length v \<le> length s" by (rule peek_le [OF p])
    then have "parseblock k v \<noteq> None" using Suc.IH(4) [of v] 3 by simp
    then show ?case by (auto simp: p intro!: pbind_not_None pbind_returns)
  next
    case 4
    obtain v e where p: "peek ''('' s = (v, e)" by (metis surj_pair)
    obtain tok q e2 w where g: "gettoken v = (tok, q, e2, w)" by (metis prod_cases4)
    have "parseline k w \<noteq> None" if e
      using Suc.IH(1) [of w] 4 that peek_less [of "''(''" s v tok q e2 w] p g by simp
    then show ?case by (auto simp: p g split: prod.splits intro!: pbind_not_None pbind_returns)
  }
qed simp_all

lemma parsecmd_returns: "parsecmd (4 * length buf + 4) buf \<noteq> None"
  using parse_returns(1) [of buf "4 * length buf + 4"] by (auto simp: parsecmd_def split: prod.splits intro!: pbind_not_None pbind_returns)

subsection \<open>Its words\<close>

definition tok_word :: "token \<Rightarrow> byte list" where
  "tok_word t = take (length (fst t) - length (snd t)) (fst t)"

text \<open>The NULs go exactly to the ends of the words.\<close>

lemma cut_nth: "i < length m \<Longrightarrow> cut buf t m ! i = (if i = pos buf (snd t) then 0 else m ! i)"
  by (cases "pos buf (snd t) < length m") (auto simp: cut_def nth_list_update)

lemma cut_length [simp]: "length (cut buf t m) = length m"
  by (simp add: cut_def)

lemma nulterminate_nth:
  assumes "i < length m"
  shows "length (nulterminate buf c m) = length m \<and>
    nulterminate buf c m ! i = (if \<exists>t \<in> set_cmd c. i = pos buf (snd t) then 0 else m ! i)"
proof -
  have f: "length (fold (cut buf) ts m) = length m \<and>
      (i < length m \<longrightarrow> fold (cut buf) ts m ! i = (if \<exists>t \<in> set ts. i = pos buf (snd t) then 0 else m ! i))" for ts m
    by (induction ts arbitrary: m) (auto simp: cut_nth)
  have "length (nulterminate buf c m) = length m \<and>
      (i < length m \<longrightarrow> nulterminate buf c m ! i = (if \<exists>t \<in> set_cmd c. i = pos buf (snd t) then 0 else m ! i))"
    by (induction c arbitrary: m) (auto simp: f cut_nth)
  then show ?thesis using assms by blast
qed

lemma tok_bytes:
  assumes "tok_ok buf t"
  obtains p w e where "t = (w @ e, e)" "buf = p @ w @ e" "w \<noteq> []" "\<forall>c \<in> set w. is_word c" "e \<noteq> [] \<longrightarrow> \<not> is_word (hd e)"
    "tok_word t = w" "pos buf (fst t) = length p" "pos buf (snd t) = length p + length w"
proof -
  obtain w where w: "fst t = w @ snd t" "w \<noteq> []" "\<forall>c \<in> set w. is_word c" using assms by (auto simp: tok_ok_def)
  obtain p where "buf = p @ fst t" using assms by (auto simp: tok_ok_def suffix_def)
  then show thesis using that [of w "snd t" p] w assms by (cases t) (auto simp: tok_ok_def tok_word_def pos_def)
qed

lemma words_cut:
  assumes "toks_ok buf c" "0 \<notin> set buf" "t \<in> set_cmd c"
  shows "word_at buf (nulterminate buf c (buf @ [0])) t = tok_word t"
proof -
  let ?m = "nulterminate buf c (buf @ [0])"
  have "tok_ok buf t" using assms(1,3) by (simp add: toks_ok_def)
  then obtain p w e where t: "t = (w @ e, e)" "buf = p @ w @ e" "w \<noteq> []" "\<forall>c \<in> set w. is_word c"
    "tok_word t = w" "pos buf (fst t) = length p" "pos buf (snd t) = length p + length w"
    by (rule tok_bytes)
  have l: "length ?m = Suc (length buf)" using nulterminate_nth [of 0 "buf @ [0]" buf c] by simp
  have keep: "?m ! (length p + j) = w ! j" if j: "j < length w" for j
  proof -
    have b: "(buf @ [0]) ! (length p + j) = w ! j" using j t(2) by (simp add: nth_append)
    have "length p + j \<noteq> pos buf (snd u)" if u: "u \<in> set_cmd c" for u
    proof
      assume eq: "length p + j = pos buf (snd u)"
      have "tok_ok buf u" using assms(1) u by (simp add: toks_ok_def)
      then obtain p' w' e' where u: "buf = p' @ w' @ e'" "e' \<noteq> [] \<longrightarrow> \<not> is_word (hd e')" "pos buf (snd u) = length p' + length w'"
        by (rule tok_bytes) blast
      have "length p + j < length buf" using j t(2) by simp
      then have "e' \<noteq> []" using eq u by auto
      then have "buf ! (length p + j) = hd e'" using eq u(1,3) by (simp add: nth_append hd_conv_nth)
      moreover have "buf ! (length p + j) = w ! j" using j t(2) by (simp add: nth_append)
      ultimately show False using u(2) \<open>e' \<noteq> []\<close> t(4) j by (metis nth_mem)
    qed
    then show ?thesis using nulterminate_nth [of "length p + j" "buf @ [0]" buf c] j t(2) b by auto
  qed
  have "length p + length w < length (buf @ [0])" using t(2) by simp
  then have z: "?m ! (length p + length w) = 0" using nulterminate_nth [of "length p + length w" "buf @ [0]" buf c] assms(3) t(7) by auto
  have "take (length w) (drop (length p) ?m) = w"
    using l t(2) keep by (intro nth_equalityI) auto
  moreover have "drop (length p + length w) ?m = 0 # drop (Suc (length p + length w)) ?m"
    using l t(2) z by (metis Cons_nth_drop_Suc length_append_singleton \<open>length p + length w < length (buf @ [0])\<close>)
  ultimately have "drop (length p) ?m = w @ 0 # drop (Suc (length p + length w)) ?m"
    by (metis append_take_drop_id drop_drop add.commute)
  moreover have "takeWhile (\<lambda>c. c \<noteq> 0) (w @ 0 # r) = w" for r
    using assms(2) t(2) by (subst takeWhile_append2) auto
  ultimately show ?thesis by (simp add: word_at_def t(5,6))
qed

subsection \<open>It reads back what is printed\<close>

text \<open>A command as text, in the places of \<open>parseline\<close> (0), before an ampersand or semicolon (1), of \<open>parsepipe\<close> (2) and
  of \<open>parseexec\<close> (3), in parentheses where it needs them.\<close>

definition paren :: "bool \<Rightarrow> byte list \<Rightarrow> byte list" where
  "paren b t = (if b then [40] @ t @ [41] else t)"

definition redir_text :: "int \<Rightarrow> byte list" where
  "redir_text m = (if m = in_mode then [60] else if m = append_mode then [62, 62] else [62])"

fun unparse :: "nat \<Rightarrow> byte list cmd \<Rightarrow> byte list" where
  "unparse l (EXEC ws) = concat (map (\<lambda>w. w @ [32]) ws)"
| "unparse l (REDIR c f m fd) = unparse 3 c @ redir_text m @ f @ [32]"
| "unparse l (PIPE c d) = paren (l > 2) (unparse 3 c @ [124] @ unparse 2 d)"
| "unparse l (BACK c) = paren (l > 1) (unparse 1 c @ [38])"
| "unparse l (LIST c d) = paren (l > 0) (unparse 1 c @ [59] @ unparse 0 d)"

text \<open>The commands the shell has: words without separators, at most nine arguments, the three redirections.\<close>

definition word_ok :: "byte list \<Rightarrow> bool" where
  "word_ok w \<longleftrightarrow> w \<noteq> [] \<and> (\<forall>c \<in> set w. is_word c \<and> c \<noteq> 0)"

definition redir_ok :: "int \<Rightarrow> int \<Rightarrow> bool" where
  "redir_ok m fd \<longleftrightarrow> (m, fd) \<in> {(in_mode, 0), (out_mode, 1), (append_mode, 1)}"

fun cmd_ok :: "byte list cmd \<Rightarrow> bool" where
  "cmd_ok (EXEC ws) \<longleftrightarrow> (\<forall>w \<in> set ws. word_ok w) \<and> length ws < MAXARGS"
| "cmd_ok (REDIR c f m fd) \<longleftrightarrow> cmd_ok c \<and> word_ok f \<and> redir_ok m fd"
| "cmd_ok (PIPE c d) \<longleftrightarrow> cmd_ok c \<and> cmd_ok d"
| "cmd_ok (BACK c) \<longleftrightarrow> cmd_ok c"
| "cmd_ok (LIST c d) \<longleftrightarrow> cmd_ok c \<and> cmd_ok d"

definition wrap :: "(byte list \<times> int \<times> int) list \<Rightarrow> byte list cmd \<Rightarrow> byte list cmd" where
  "wrap rs c = fold (\<lambda>(f, m, fd) c. REDIR c f m fd) rs c"

definition redirs_text :: "(byte list \<times> int \<times> int) list \<Rightarrow> byte list" where
  "redirs_text rs = concat (map (\<lambda>(f, m, fd). redir_text m @ f @ [32]) rs)"

definition redirs_ok :: "(byte list \<times> int \<times> int) list \<Rightarrow> bool" where
  "redirs_ok rs \<longleftrightarrow> (\<forall>(f, m, fd) \<in> set rs. word_ok f \<and> redir_ok m fd)"

text \<open>The next byte that is not a space, 0 at the end.\<close>

definition first :: "ptr \<Rightarrow> byte" where
  "first s = (case skip s of [] \<Rightarrow> 0 | c # _ \<Rightarrow> c)"

text \<open>What may follow: the end or one of the given bytes.\<close>

definition follow :: "byte set \<Rightarrow> ptr \<Rightarrow> bool" where
  "follow F r \<longleftrightarrow> skip r = [] \<or> hd (skip r) \<in> F"

lemma peek_first: "0 \<notin> set (text_bytes toks) \<Longrightarrow> peek toks s = (skip s, first s \<in> set (text_bytes toks))"
  by (cases "skip s") (auto simp: peek_def first_def Let_def strchr_None)

lemma text_bytes_simps [simp]:
  "text_bytes [] = []" "text_bytes (c # cs) = of_char c # text_bytes cs"
  by (simp_all add: text_bytes_def)

lemma first_skip [simp]: "first (skip s) = first s"
  by (simp add: first_def)

lemma skip_id: "s \<noteq> [] \<Longrightarrow> \<not> is_space (hd s) \<Longrightarrow> skip s = s"
  by (cases s) (auto simp: skip_def)

lemma first_hd: "s \<noteq> [] \<Longrightarrow> \<not> is_space (hd s) \<Longrightarrow> first s = hd s"
  by (cases s) (auto simp: first_def skip_def)

lemma word_hd:
  assumes "word_ok w"
  shows "is_word (hd (w @ s))" "w @ s \<noteq> []" "first (w @ s) = hd (w @ s)" "skip (w @ s) = w @ s" "hd (w @ s) \<noteq> 0"
proof -
  have w: "is_word (hd (w @ s)) \<and> hd (w @ s) \<noteq> 0" "w @ s \<noteq> []" using assms by (cases w; auto simp: word_ok_def)+
  then show "is_word (hd (w @ s))" "w @ s \<noteq> []" "hd (w @ s) \<noteq> 0" by simp_all
  have "\<not> is_space (hd (w @ s))" using w by (simp add: is_word_def)
  then show "first (w @ s) = hd (w @ s)" "skip (w @ s) = w @ s" using w(2) first_hd skip_id by blast+
qed

lemma gettoken_word:
  assumes "word_ok w"
  shows "gettoken (w @ 32 # s) = (97, w @ 32 # s, 32 # s, skip s)" "tok_word (w @ 32 # s, 32 # s) = w"
proof -
  obtain c v where w: "w = c # v" using assms by (cases w) (auto simp: word_ok_def)
  have c: "is_word c" "\<forall>d \<in> set w. is_word d" using assms w by (auto simp: word_ok_def)
  have "\<not> is_symbol c" using c(1) by (simp add: is_word_def)
  moreover have "dropWhile is_word (w @ 32 # s) = 32 # s"
    using c(2) by (subst dropWhile_append2) (auto simp: is_word_def is_space_iff)
  ultimately have "token_end (w @ 32 # s) = (97, 32 # s)" by (simp add: token_end_def w is_symbol_iff)
  moreover have "skip (32 # s) = skip s" by (simp add: skip_def is_space_iff)
  ultimately show "gettoken (w @ 32 # s) = (97, w @ 32 # s, 32 # s, skip s)"
    using word_hd(4) [OF assms, of "32 # s"] by (simp add: gettoken_def Let_def)
  show "tok_word (w @ 32 # s, 32 # s) = w" by (simp add: tok_word_def)
qed

lemma skip_sym [simp]: "is_symbol c \<Longrightarrow> skip (c # s) = c # s" "is_symbol c \<Longrightarrow> first (c # s) = c"
proof -
  assume "is_symbol c"
  then have "\<not> is_space c" by (auto simp: is_symbol_iff is_space_iff)
  then show "skip (c # s) = c # s" "first (c # s) = c" by (simp_all add: skip_def first_def)
qed

lemma symbols_are [simp]: "is_symbol 124" "is_symbol 40" "is_symbol 41" "is_symbol 59" "is_symbol 38" "is_symbol 60" "is_symbol 62"
  by (simp_all add: is_symbol_iff)

lemma gettoken_sym: "c \<in> {124, 40, 41, 59, 38, 60} \<Longrightarrow> gettoken (c # s) = (c, c # s, s, skip s)"
  by (auto simp: gettoken_def token_end_def Let_def)

lemma gettoken_to: "hd (w @ s) \<noteq> 62 \<Longrightarrow> gettoken (62 # w @ s) = (62, 62 # w @ s, w @ s, skip (w @ s))"
  "gettoken (62 # 62 # s) = (43, 62 # 62 # s, s, skip s)"
  by (auto simp: gettoken_def token_end_def Let_def)

lemma parse_skip [simp]:
  "parseredirs c (skip s) = parseredirs c s" "exec_loop c n (skip s) = exec_loop c n s"
  "parseexec k (skip s) = parseexec k s" "parsepipe k (skip s) = parsepipe k s" "parseline k (skip s) = parseline k s"
proof -
  have p: "peek t (skip s) = peek t s" for t by (simp add: peek_def)
  show "parseredirs c (skip s) = parseredirs c s" by (subst (1 2) parseredirs.simps) (simp only: p)
  show "exec_loop c n (skip s) = exec_loop c n s" by (subst (1 2) exec_loop.simps) (simp only: p)
  show e: "parseexec k (skip s) = parseexec k s" for k by (cases k) (simp_all only: parseexec.simps p)
  show q: "parsepipe k (skip s) = parsepipe k s" for k by (cases k) (simp_all only: parsepipe.simps e)
  show "parseline k (skip s) = parseline k s" by (cases k) (simp_all only: parseline.simps q)
qed

lemma parseredirs_none: "first s \<noteq> 60 \<Longrightarrow> first s \<noteq> 62 \<Longrightarrow> parseredirs c s = Inr (c, skip s)"
  by (subst parseredirs.simps) (simp add: peek_first)

lemma word_not_symbol: "word_ok w \<Longrightarrow> \<not> is_symbol (hd (w @ s))"
  using word_hd(1) [of w s] by (simp add: is_word_def)

text \<open>One redirection.\<close>

lemma parseredirs_one:
  assumes "word_ok f" "redir_ok m fd"
  shows "parseredirs c (redir_text m @ f @ 32 # s) = parseredirs (REDIR c (f @ 32 # s, 32 # s) m fd) s"
proof -
  note w = word_hd [OF assms(1), of "32 # s"] gettoken_word [OF assms(1), of s]
  have h: "hd (f @ 32 # s) \<noteq> 62" using word_not_symbol [OF assms(1), of "32 # s"] by auto
  consider "m = in_mode" "fd = 0" | "m = out_mode" "fd = 1" | "m = append_mode" "fd = 1"
    using assms(2) by (auto simp: redir_ok_def)
  then show ?thesis
  proof cases
    case 1
    then show ?thesis using w by (subst parseredirs.simps) (simp add: redir_text_def peek_first gettoken_sym redir_def)
  next
    case 2
    have n: "m \<noteq> in_mode" "m \<noteq> append_mode" using 2 by (simp_all add: in_mode_def out_mode_def append_mode_def)
    show ?thesis using w 2 n gettoken_to(1) [OF h]
      by (subst parseredirs.simps) (simp add: redir_text_def peek_first redir_def)
  next
    case 3
    have n: "m \<noteq> in_mode" using 3 by (simp add: in_mode_def append_mode_def)
    show ?thesis using w 3 n
      by (subst parseredirs.simps) (simp add: redir_text_def peek_first redir_def gettoken_to(2))
  qed
qed

lemma parseredirs_reads:
  assumes "redirs_ok rs" "first r \<noteq> 60" "first r \<noteq> 62"
  shows "\<exists>d. parseredirs c (redirs_text rs @ r) = Inr (d, skip r) \<and> map_cmd tok_word d = wrap rs (map_cmd tok_word c)"
  using assms(1)
proof (induction rs arbitrary: c)
  case Nil
  then show ?case using assms(2,3) by (simp add: redirs_text_def wrap_def parseredirs_none)
next
  case (Cons x rs)
  obtain f m fd where x: "x = (f, m, fd)" by (cases x)
  have ok: "word_ok f" "redir_ok m fd" "redirs_ok rs" using Cons.prems by (auto simp: redirs_ok_def x)
  let ?t = "redirs_text rs @ r"
  have "parseredirs c (redirs_text (x # rs) @ r) = parseredirs (REDIR c (f @ 32 # ?t, 32 # ?t) m fd) ?t"
    using parseredirs_one [OF ok(1,2), of c ?t] by (simp add: redirs_text_def x)
  then show ?case using Cons.IH [OF ok(3), of "REDIR c (f @ 32 # ?t, 32 # ?t) m fd"] gettoken_word(2) [OF ok(1), of ?t]
    by (auto simp: wrap_def x)
qed

text \<open>The arguments and redirections of a simple command.\<close>

definition redirs_then_loop :: "token cmd \<Rightarrow> nat \<Rightarrow> ptr \<Rightarrow> byte list + token cmd \<times> ptr" where
  "redirs_then_loop c n s = (case parseredirs c s of Inl m \<Rightarrow> Inl m | Inr (d, t) \<Rightarrow> exec_loop d n t)"

lemma map_add_arg [simp]: "map_cmd g (add_arg a c) = add_arg (g a) (map_cmd g c)"
  by (induction a c rule: add_arg.induct) auto

lemma follow_first: "follow F r \<Longrightarrow> first r \<in> insert 0 F"
  by (auto simp: follow_def first_def split: list.splits)

lemma exec_loop_end:
  assumes "follow {124, 41, 38, 59} r"
  shows "exec_loop c n r = Inr (c, skip r)"
proof (cases "skip r = []")
  case True
  then have "gettoken (skip r) = (0, [], [], [])" by (simp add: gettoken_def token_end_def)
  then show ?thesis using True by (subst exec_loop.simps) (simp add: peek_first)
next
  case False
  then have "first r \<in> {124, 41, 38, 59}" using assms by (cases "skip r") (auto simp: follow_def first_def)
  then show ?thesis by (subst exec_loop.simps) (auto simp: peek_first)
qed

lemma redirs_then_loop_reads:
  assumes "follow {124, 41, 38, 59} r" "redirs_ok rs" "\<forall>w \<in> set ws. word_ok w" "n + length ws < MAXARGS"
  shows "\<exists>d. redirs_then_loop c n (concat (map (\<lambda>w. w @ [32]) ws) @ redirs_text rs @ r) = Inr (d, skip r) \<and>
    map_cmd tok_word d = wrap rs (fold add_arg ws (map_cmd tok_word c))"
  using assms(3,4)
proof (induction ws arbitrary: c n)
  case Nil
  have "first r \<noteq> 60" "first r \<noteq> 62" using follow_first [OF assms(1)] by auto
  then show ?case using parseredirs_reads [OF assms(2), of r c] exec_loop_end [OF assms(1)]
    by (auto simp: redirs_then_loop_def)
next
  case (Cons w ws)
  let ?t = "concat (map (\<lambda>w. w @ [32]) ws) @ redirs_text rs @ r"
  have ok: "word_ok w" using Cons.prems by simp
  let ?s = "w @ 32 # ?t" and ?c = "add_arg (w @ 32 # ?t, 32 # ?t) c"
  have f: "first ?s \<notin> {60, 62, 124, 41, 38, 59}" using word_not_symbol [OF ok, of "32 # ?t"] word_hd(3) [OF ok, of "32 # ?t"]
    by (auto simp: is_symbol_iff)
  have "redirs_then_loop c n ?s = exec_loop c n ?s"
    using f by (simp add: redirs_then_loop_def parseredirs_none)
  also have "\<dots> = redirs_then_loop ?c (Suc n) ?t"
    using f gettoken_word(1) [OF ok, of ?t] Cons.prems(2) word_hd(4) [OF ok, of "32 # ?t"]
    by (subst exec_loop.simps) (simp add: peek_first redirs_then_loop_def)
  finally have step: "redirs_then_loop c n ?s = redirs_then_loop ?c (Suc n) ?t" .
  have "\<exists>d. redirs_then_loop ?c (Suc n) ?t = Inr (d, skip r) \<and>
      map_cmd tok_word d = wrap rs (fold add_arg ws (map_cmd tok_word ?c))"
    using Cons.IH [of "Suc n" ?c] Cons.prems by simp
  then show ?case using step gettoken_word(2) [OF ok, of ?t] by simp
qed

lemma fold_add_arg: "fold add_arg ws (EXEC as) = EXEC (as @ ws)"
  by (induction ws arbitrary: as) auto

text \<open>What a parse function of each level does with a printed command. A level that returns gives the command;
  \<open>parse_returns\<close> says that it does.\<close>

definition exec_reads :: "byte list cmd \<Rightarrow> bool" where
  "exec_reads c \<longleftrightarrow> (\<forall>k rs r x. redirs_ok rs \<longrightarrow> follow {124, 41, 38, 59} r \<longrightarrow>
     parseexec k (unparse 3 c @ redirs_text rs @ r) = Some x \<longrightarrow> (\<exists>d. x = Inr (d, skip r) \<and> map_cmd tok_word d = wrap rs c))"

definition pipe_reads :: "byte list cmd \<Rightarrow> bool" where
  "pipe_reads c \<longleftrightarrow> (\<forall>k r x. follow {41, 38, 59} r \<longrightarrow>
     parsepipe k (unparse 2 c @ r) = Some x \<longrightarrow> (\<exists>d. x = Inr (d, skip r) \<and> map_cmd tok_word d = c))"

definition back_reads :: "byte list cmd \<Rightarrow> bool" where
  "back_reads c \<longleftrightarrow> (\<forall>k r x. follow {41, 38, 59} r \<longrightarrow> parsepipe k (unparse 1 c @ r) = Some x \<longrightarrow>
     (\<exists>d e s. x = Inr (e, s) \<and> back_loop e s = back_loop d (skip r) \<and> map_cmd tok_word d = c))"

definition line_reads :: "byte list cmd \<Rightarrow> bool" where
  "line_reads c \<longleftrightarrow> (\<forall>k r x. follow {41} r \<longrightarrow>
     parseline k (unparse 0 c @ r) = Some x \<longrightarrow> (\<exists>d. x = Inr (d, skip r) \<and> map_cmd tok_word d = c))"

lemma follow_mono: "follow F r \<Longrightarrow> F \<subseteq> G \<Longrightarrow> follow G r"
  by (auto simp: follow_def)

lemma not_first: "follow F r \<Longrightarrow> c \<notin> F \<Longrightarrow> c \<noteq> 0 \<Longrightarrow> first r \<noteq> c"
  using follow_first by blast

lemma pbind_SomeE:
  assumes "pbind r f = Some x"
  obtains e where "r = Some (Inl e)" "x = Inl e" | y where "r = Some (Inr y)" "f y = Some x"
  using assms by (auto simp: pbind_def split: option.splits sum.splits)

lemma redirs_ok_Nil: "redirs_ok []"
  by (simp add: redirs_ok_def)

lemma exec_to_pipe:
  assumes "exec_reads c" "unparse 2 c = unparse 3 c"
  shows "pipe_reads c"
  unfolding pipe_reads_def
proof (intro allI impI)
  fix k r x
  assume r: "follow {41, 38, 59} r" and p: "parsepipe k (unparse 2 c @ r) = Some x"
  then obtain k' where k: "k = Suc k'" by (cases k) auto
  obtain y where y: "parseexec k' (unparse 3 c @ redirs_text [] @ r) = Some y"
    using p by (auto simp: k assms(2) redirs_text_def elim: pbind_SomeE)
  have "follow {124, 41, 38, 59} r" by (rule follow_mono [OF r]) auto
  then have "\<exists>d. y = Inr (d, skip r) \<and> map_cmd tok_word d = wrap [] c"
    using assms(1) y unfolding exec_reads_def by (metis (no_types) redirs_ok_Nil)
  then obtain d where d: "y = Inr (d, skip r)" "map_cmd tok_word d = c" by (auto simp: wrap_def)
  have "first r \<noteq> 124" by (rule not_first [OF r]) auto
  then show "\<exists>d. x = Inr (d, skip r) \<and> map_cmd tok_word d = c"
    using p y d by (auto simp: k assms(2) redirs_text_def peek_first)
qed

lemma pipe_to_back:
  assumes "pipe_reads c" "unparse 1 c = unparse 2 c"
  shows "back_reads c"
  using assms unfolding pipe_reads_def back_reads_def by metis

lemma back_to_line:
  assumes "back_reads c" "unparse 0 c = unparse 1 c"
  shows "line_reads c"
  unfolding line_reads_def
proof (intro allI impI)
  fix k r x
  assume r: "follow {41} r" and p: "parseline k (unparse 0 c @ r) = Some x"
  then obtain k' where k: "k = Suc k'" by (cases k) auto
  obtain y where y: "parsepipe k' (unparse 1 c @ r) = Some y" using p by (auto simp: k assms(2) elim: pbind_SomeE)
  have "follow {41, 38, 59} r" by (rule follow_mono [OF r]) auto
  then obtain d e s where d: "y = Inr (e, s)" "back_loop e s = back_loop d (skip r)" "map_cmd tok_word d = c"
    using assms(1) y unfolding back_reads_def by blast
  have f: "first r \<noteq> 38" "first r \<noteq> 59" by (rule not_first [OF r]; simp)+
  then have "back_loop d (skip r) = (d, skip r)" by (subst back_loop.simps) (simp add: peek_first)
  then show "\<exists>d. x = Inr (d, skip r) \<and> map_cmd tok_word d = c"
    using p y d f by (auto simp: k assms(2) peek_first)
qed

lemma line_to_exec:
  assumes "line_reads c" "unparse 3 c = [40] @ unparse 0 c @ [41]"
  shows "exec_reads c"
  unfolding exec_reads_def
proof (intro allI impI)
  fix k rs r x
  assume rs: "redirs_ok rs" and r: "follow {124, 41, 38, 59} r" and p: "parseexec k (unparse 3 c @ redirs_text rs @ r) = Some x"
  then obtain k' where k: "k = Suc k'" by (cases k) auto
  let ?t = "redirs_text rs @ r"
  let ?u = "unparse 0 c @ 41 # ?t"
  have "parseblock k' (40 # ?u) = Some x" using p by (simp add: k assms(2) peek_first)
  then obtain k2 where k2: "k' = Suc k2" "parseblock (Suc k2) (40 # ?u) = Some x" by (cases k') auto
  obtain y where y: "parseline k2 ?u = Some y" using k2(2) by (auto simp: peek_first gettoken_sym elim: pbind_SomeE)
  have "follow {41} (41 # ?t)" by (simp add: follow_def)
  then obtain d where d: "y = Inr (d, 41 # ?t)" "map_cmd tok_word d = c"
    using assms(1) y unfolding line_reads_def by (metis skip_sym(1) symbols_are(3))
  have "first r \<noteq> 60" "first r \<noteq> 62" by (rule not_first [OF r]; simp)+
  then show "\<exists>d. x = Inr (d, skip r) \<and> map_cmd tok_word d = wrap rs c"
    using k2(2) y d parseredirs_reads [OF rs, of r d] by (auto simp: peek_first gettoken_sym)
qed

lemma exec_reads_EXEC:
  assumes "cmd_ok (EXEC ws)"
  shows "exec_reads (EXEC ws)"
  unfolding exec_reads_def
proof (intro allI impI)
  fix k rs r x
  assume rs: "redirs_ok rs" and r: "follow {124, 41, 38, 59} r" and p: "parseexec k (unparse 3 (EXEC ws) @ redirs_text rs @ r) = Some x"
  then obtain k' where k: "k = Suc k'" by (cases k) auto
  let ?s = "concat (map (\<lambda>w. w @ [32]) ws) @ redirs_text rs @ r"
  have "first ?s \<noteq> 40"
  proof (cases ws)
    case (Cons w ws')
    then show ?thesis using assms word_not_symbol [of w] word_hd(3) [of w] by (auto simp: is_symbol_iff)
  next
    case Nil
    have "redir_text m = 60 # tl (redir_text m) \<or> redir_text m = 62 # tl (redir_text m)" for m by (simp add: redir_text_def)
    then have "first (redir_text m @ t) = 60 \<or> first (redir_text m @ t) = 62" for m t by (metis append_Cons skip_sym(2) symbols_are(6,7))
    then have "first (redir_text m @ t) \<noteq> 40" for m t by (rule disjE [of "first (redir_text m @ t) = 60"]) simp_all
    then show ?thesis using Nil not_first [OF r, of 40] by (cases rs) (auto simp: redirs_text_def)
  qed
  then have "Some x = Some (redirs_then_loop (EXEC []) 0 ?s)"
    using p by (auto simp: k peek_first redirs_then_loop_def split: sum.splits prod.splits)
  then show "\<exists>d. x = Inr (d, skip r) \<and> map_cmd tok_word d = wrap rs (EXEC ws)"
    using redirs_then_loop_reads [OF r rs, of ws 0 "EXEC []"] assms by (simp add: fold_add_arg)
qed

lemma pipe_reads_PIPE:
  assumes "exec_reads c" "pipe_reads d"
  shows "pipe_reads (PIPE c d)"
  unfolding pipe_reads_def
proof (intro allI impI)
  fix k r x
  assume r: "follow {41, 38, 59} r" and p: "parsepipe k (unparse 2 (PIPE c d) @ r) = Some x"
  then obtain k' where k: "k = Suc k'" by (cases k) auto
  let ?u = "unparse 2 d @ r"
  have p': "parsepipe (Suc k') (unparse 3 c @ 124 # ?u) = Some x" using p by (simp add: k paren_def del: parsepipe.simps)
  obtain y where y: "parseexec k' (unparse 3 c @ redirs_text [] @ 124 # ?u) = Some y"
    using p' by (auto simp: redirs_text_def elim: pbind_SomeE)
  have "follow {124, 41, 38, 59} (124 # ?u)" by (simp add: follow_def)
  then have "\<exists>e. y = Inr (e, skip (124 # ?u)) \<and> map_cmd tok_word e = wrap [] c"
    using assms(1) y redirs_ok_Nil unfolding exec_reads_def by blast
  then obtain e where e: "y = Inr (e, 124 # ?u)" "map_cmd tok_word e = c" by (auto simp: wrap_def)
  have q: "pbind (parsepipe k' ?u) (\<lambda>(f, s). Some (Inr (PIPE e f, s))) = Some x"
    using p' y e by (simp add: redirs_text_def peek_first gettoken_sym)
  then obtain z where z: "parsepipe k' ?u = Some z" by (auto elim: pbind_SomeE)
  then obtain f where "z = Inr (f, skip r)" "map_cmd tok_word f = d" using assms(2) r unfolding pipe_reads_def by blast
  then show "\<exists>g. x = Inr (g, skip r) \<and> map_cmd tok_word g = PIPE c d" using q z e by auto
qed

lemma back_reads_BACK:
  assumes "back_reads c"
  shows "back_reads (BACK c)"
  unfolding back_reads_def
proof (intro allI impI)
  fix k r x
  assume r: "follow {41, 38, 59} r" and p: "parsepipe k (unparse 1 (BACK c) @ r) = Some x"
  have "parsepipe k (unparse 1 c @ 38 # r) = Some x" using p by (simp add: paren_def)
  moreover have "follow {41, 38, 59} (38 # r)" by (simp add: follow_def)
  ultimately obtain d e s where d: "x = Inr (e, s)" "back_loop e s = back_loop d (skip (38 # r))" "map_cmd tok_word d = c"
    using assms unfolding back_reads_def by blast
  have "back_loop d (skip (38 # r)) = back_loop (BACK d) (skip r)"
    by (subst back_loop.simps) (simp add: peek_first gettoken_sym)
  then show "\<exists>d e s. x = Inr (e, s) \<and> back_loop e s = back_loop d (skip r) \<and> map_cmd tok_word d = BACK c"
    using d by (intro exI [of _ "BACK d"] exI [of _ e] exI [of _ s]) simp
qed

lemma line_reads_LIST:
  assumes "back_reads c" "line_reads d"
  shows "line_reads (LIST c d)"
  unfolding line_reads_def
proof (intro allI impI)
  fix k r x
  assume r: "follow {41} r" and p: "parseline k (unparse 0 (LIST c d) @ r) = Some x"
  then obtain k' where k: "k = Suc k'" by (cases k) auto
  let ?u = "unparse 0 d @ r"
  have p': "parseline (Suc k') (unparse 1 c @ 59 # ?u) = Some x" using p by (simp add: k paren_def del: parseline.simps)
  obtain y where y: "parsepipe k' (unparse 1 c @ 59 # ?u) = Some y" using p' by (auto elim: pbind_SomeE)
  have "follow {41, 38, 59} (59 # ?u)" by (simp add: follow_def)
  then obtain e e' s where e: "y = Inr (e', s)" "back_loop e' s = back_loop e (skip (59 # ?u))" "map_cmd tok_word e = c"
    using assms(1) y unfolding back_reads_def by blast
  have "back_loop e (skip (59 # ?u)) = (e, 59 # ?u)" by (subst back_loop.simps) (simp add: peek_first)
  then have q: "pbind (parseline k' ?u) (\<lambda>(f, s). Some (Inr (LIST e f, s))) = Some x"
    using p' y e by (simp add: peek_first gettoken_sym)
  then obtain z where z: "parseline k' ?u = Some z" by (auto elim: pbind_SomeE)
  then obtain f where "z = Inr (f, skip r)" "map_cmd tok_word f = d" using assms(2) r unfolding line_reads_def by blast
  then show "\<exists>g. x = Inr (g, skip r) \<and> map_cmd tok_word g = LIST c d" using q z e by auto
qed

lemma exec_reads_REDIR:
  assumes "exec_reads c" "word_ok f" "redir_ok m fd"
  shows "exec_reads (REDIR c f m fd)"
  unfolding exec_reads_def
proof (intro allI impI)
  fix k rs r x
  assume rs: "redirs_ok rs" and r: "follow {124, 41, 38, 59} r" and p: "parseexec k (unparse 3 (REDIR c f m fd) @ redirs_text rs @ r) = Some x"
  have "redirs_ok ((f, m, fd) # rs)" using rs assms by (simp add: redirs_ok_def)
  moreover have "parseexec k (unparse 3 c @ redirs_text ((f, m, fd) # rs) @ r) = Some x" using p by (simp add: redirs_text_def)
  ultimately have "\<exists>d. x = Inr (d, skip r) \<and> map_cmd tok_word d = wrap ((f, m, fd) # rs) c"
    using assms(1) r unfolding exec_reads_def by blast
  then show "\<exists>d. x = Inr (d, skip r) \<and> map_cmd tok_word d = wrap rs (REDIR c f m fd)" by (simp add: wrap_def)
qed

lemma printed_reads: "cmd_ok c \<Longrightarrow> exec_reads c \<and> pipe_reads c \<and> back_reads c \<and> line_reads c"
proof (induction c)
  case (EXEC ws)
  then show ?case using exec_reads_EXEC exec_to_pipe pipe_to_back back_to_line by simp
next
  case (REDIR c f m fd)
  then have "exec_reads (REDIR c f m fd)" using exec_reads_REDIR by simp
  then show ?case using exec_to_pipe pipe_to_back back_to_line by simp
next
  case (PIPE c d)
  then have "pipe_reads (PIPE c d)" using pipe_reads_PIPE by simp
  then show ?case using pipe_to_back back_to_line line_to_exec by (simp add: paren_def)
next
  case (BACK c)
  then have "back_reads (BACK c)" using back_reads_BACK by simp
  then show ?case using back_to_line line_to_exec exec_to_pipe by (simp add: paren_def)
next
  case (LIST c d)
  then have "line_reads (LIST c d)" using line_reads_LIST by simp
  then show ?case using line_to_exec exec_to_pipe pipe_to_back by (simp add: paren_def)
qed

lemma printed_no_nul: "cmd_ok c \<Longrightarrow> 0 \<notin> set (unparse l c)"
  by (induction c arbitrary: l) (auto simp: paren_def word_ok_def redir_text_def)

text \<open>Every command the shell has, written as a line, is parsed, within the depth that is given,
  to that command: each of its words is the string its pointer leads to once the parser has written its NULs.\<close>

lemma parse_printed:
  assumes "cmd_ok c"
  shows "\<exists>d m. parsecmd (4 * length (unparse 0 c) + 4) (unparse 0 c) = Some (Inr (d, m)) \<and> map_cmd (word_at (unparse 0 c) m) d = c"
proof -
  let ?s = "unparse 0 c" and ?k = "4 * length (unparse 0 c) + 4"
  obtain x where x: "parseline ?k ?s = Some x" using parse_returns(1) [of ?s ?k] by auto
  have f: "follow {41} []" by (simp add: follow_def)
  obtain d where d: "x = Inr (d, [])" "map_cmd tok_word d = c"
    using printed_reads [OF assms] f x unfolding line_reads_def by (metis append_Nil2 skip_Nil)
  let ?m = "nulterminate ?s d (?s @ [0])"
  have ok: "toks_ok ?s d" using parse_ok(1) [of ?k ?s d "[]"] x d(1) by simp
  have "map_cmd (word_at ?s ?m) d = map_cmd tok_word d"
    by (rule cmd.map_cong0, rule words_cut [OF ok printed_no_nul [OF assms]])
  moreover have "parsecmd ?k ?s = Some (Inr (d, ?m))" using x d(1) by (simp add: parsecmd_def peek_def)
  ultimately show ?thesis using d(2) by (intro exI [of _ d] exI [of _ ?m]) simp
qed

text \<open>C38. The parser always returns: on every line, well formed or not, a depth of four levels for each byte is enough for a command
  or a panic; and each word of a command it returns is a string of the line made of bytes of words.\<close>

theorem parser_returns:
  "\<exists>x. parsecmd (4 * length buf + 4) buf = Some x \<and>
     (\<forall>c m. x = Inr (c, m) \<longrightarrow> 0 \<notin> set buf \<longrightarrow>
        (\<forall>t \<in> set_cmd c. word_at buf m t = tok_word t \<and> tok_word t \<noteq> [] \<and> (\<forall>b \<in> set (tok_word t). is_word b)))"
proof -
  obtain x where x: "parsecmd (4 * length buf + 4) buf = Some x" using parsecmd_returns [of buf] by auto
  have "word_at buf m t = tok_word t \<and> tok_word t \<noteq> [] \<and> (\<forall>b \<in> set (tok_word t). is_word b)"
    if c: "x = Inr (c, m)" "0 \<notin> set buf" "t \<in> set_cmd c" for c m t
  proof -
    obtain s where s: "parseline (4 * length buf + 4) buf = Some (Inr (c, s))" "m = nulterminate buf c (buf @ [0])"
      using x c(1) by (auto simp: parsecmd_def elim!: pbind_Inr split: prod.splits if_splits)
    have ok: "toks_ok buf c" using parse_ok(1) [OF s(1)] by simp
    then have "tok_ok buf t" using c(3) by (simp add: toks_ok_def)
    then show ?thesis using words_cut [OF ok c(2,3)] s(2) by (auto elim!: tok_bytes)
  qed
  then show ?thesis using x by blast
qed

theorem parser_returns_witness:
  "\<exists>x. parsecmd 16 [97, 32, 40] = Some x"
  using parser_returns [of "[97, 32, 40]"] by auto

end
