(* ===== verification/User_Sh_Run.thy ===== *)
theory User_Sh_Run
  imports User_Sh_Props
begin

text \<open>
  What the shell does with a command, \<open>runcmd\<close> and \<open>main\<close> of \<^verbatim>\<open>user/sh.c\<close>. A process is the tree of its system
  calls, a call that returns something having a branch for each result; \<open>execs\<close> follows such a tree and its
  children over their tables of descriptors, down to the programs they execute.
\<close>

subsection \<open>Processes\<close>

datatype uprog =
    Exit int
  | Close int uprog
  | Open "byte list" int "int \<Rightarrow> uprog"
  | Dup int uprog
  | Pipe "int \<Rightarrow> int \<Rightarrow> int \<Rightarrow> uprog"
  | Fork "int \<Rightarrow> uprog"
  | Wait uprog
  | Exec "byte list" "byte list list" uprog
  | Print int "byte list" uprog

text \<open>\<open>panic\<close> and \<open>fork1\<close>\<close>

definition sh_panic :: "byte list \<Rightarrow> uprog" where
  "sh_panic t = Print 2 t (Exit 1)"

definition fork1 :: "(int \<Rightarrow> uprog) \<Rightarrow> uprog" where
  "fork1 k = Fork (\<lambda>pid. if pid = -1 then sh_panic (panic_text ''fork'') else k pid)"

primrec runcmd :: "byte list cmd \<Rightarrow> uprog" where
  "runcmd (EXEC argv) =
     (case argv of
        [] \<Rightarrow> Exit 1
      | a # _ \<Rightarrow> Exec a argv (Print 2 (text_bytes ''exec '' @ a @ text_bytes '' failed'' @ [10]) (Exit 0)))"
| "runcmd (REDIR c f m fd) =
     Close fd (Open f m (\<lambda>r. if r < 0 then Print 2 (text_bytes ''open '' @ f @ text_bytes '' failed'' @ [10]) (Exit 1) else runcmd c))"
| "runcmd (LIST c d) = fork1 (\<lambda>pid. if pid = 0 then runcmd c else Wait (runcmd d))"
| "runcmd (PIPE c d) =
     Pipe (\<lambda>r p0 p1.
       if r < 0 then sh_panic (panic_text ''pipe'')
       else fork1 (\<lambda>pid.
         if pid = 0 then Close 1 (Dup p1 (Close p0 (Close p1 (runcmd c))))
         else fork1 (\<lambda>pid.
           if pid = 0 then Close 0 (Dup p0 (Close p0 (Close p1 (runcmd d))))
           else Close p0 (Close p1 (Wait (Wait (Exit 0)))))))"
| "runcmd (BACK c) = fork1 (\<lambda>pid. if pid = 0 then runcmd c else Exit 0)"

text \<open>The child that \<open>main\<close> forks for a line.\<close>

definition run_line :: "byte list \<Rightarrow> uprog" where
  "run_line s =
     (case parsecmd (4 * length s + 4) s of
        Some (Inr (c, m)) \<Rightarrow> runcmd (map_cmd (word_at s m) c)
      | Some (Inl t) \<Rightarrow> sh_panic t
      | None \<Rightarrow> Exit 1)"

subsection \<open>The loop\<close>

text \<open>What \<open>main\<close> does with a line of input: it changes directory itself, or runs a child.\<close>

datatype sh_act = ShChdir "byte list" | ShRun "byte list"

definition sh_line :: "byte list \<Rightarrow> sh_act option" where
  "sh_line buf =
     (let s = dropWhile (\<lambda>c. c = 32 \<or> c = 9) (takeWhile (\<lambda>c. c \<noteq> 0) buf) in
      if s \<noteq> [] \<and> hd s = 10 then None
      else if take 3 s = text_bytes ''cd '' then Some (ShChdir (drop 3 (butlast s)))
      else Some (ShRun s))"

function sh_main :: "input \<Rightarrow> sh_act list" where
  "sh_main rs =
     (let (buf, rs') = ugets 100 rs in
      if buf = [] \<or> hd buf = 0 then []
      else (case sh_line buf of None \<Rightarrow> [] | Some a \<Rightarrow> [a]) @ sh_main rs')"
  by pat_completeness auto
termination
  by (relation "measure input_size") (auto simp: ugets_def dest!: gets_loop_le [OF sym])

declare sh_main.simps [simp del]

subsection \<open>Descriptors\<close>

text \<open>What a descriptor refers to; a pipe is named after the process that made it.\<close>

datatype fobj = Inherited nat | Opened "byte list" int | ReadEnd "nat list" | WriteEnd "nat list"

type_synonym fdtab = "int \<Rightarrow> fobj option"

definition lowest :: "fdtab \<Rightarrow> int option" where
  "lowest t = find (\<lambda>d. t d = None) [0..15]"

text \<open>The programs a process and its children execute, each with the descriptors it gets. \<open>i\<close> names the process and
  \<open>op\<close> says which files can be opened; children are named 0 and the parent's next step 1.\<close>

primrec execs :: "uprog \<Rightarrow> (byte list \<Rightarrow> int \<Rightarrow> bool) \<Rightarrow> nat list \<Rightarrow> fdtab \<Rightarrow> (byte list list \<times> fdtab) list" where
  "execs (Exit st) op i t = []"
| "execs (Close fd k) op i t = execs k op i (t(fd := None))"
| "execs (Open f m k) op i t =
     (case lowest t of
        Some d \<Rightarrow> if op f m then execs (k d) op i (t(d := Some (Opened f m))) else execs (k (-1)) op i t
      | None \<Rightarrow> execs (k (-1)) op i t)"
| "execs (Dup fd k) op i t =
     execs k op i (case (t fd, lowest t) of (Some f, Some d) \<Rightarrow> t(d := Some f) | _ \<Rightarrow> t)"
| "execs (Pipe k) op i t =
     (case lowest t of
        None \<Rightarrow> execs (k (-1) 0 0) op i t
      | Some a \<Rightarrow>
          (case lowest (t(a := Some (ReadEnd i))) of
             None \<Rightarrow> execs (k (-1) 0 0) op i t
           | Some b \<Rightarrow> execs (k 0 a b) op i (t(a := Some (ReadEnd i), b := Some (WriteEnd i)))))"
| "execs (Fork k) op i t = execs (k 0) op (0 # i) t @ execs (k 1) op (1 # i) t"
| "execs (Wait k) op i t = execs k op i t"
| "execs (Exec f argv k) op i t = [(argv, t)]"
| "execs (Print fd x k) op i t = execs k op i t"

text \<open>What a command means.\<close>

fun jobs :: "(byte list \<Rightarrow> int \<Rightarrow> bool) \<Rightarrow> nat list \<Rightarrow> fdtab \<Rightarrow> byte list cmd \<Rightarrow> (byte list list \<times> fdtab) list" where
  "jobs op i t (EXEC ws) = (if ws = [] then [] else [(ws, t)])"
| "jobs op i t (REDIR c f m fd) = (if op f m then jobs op i (t(fd := Some (Opened f m))) c else [])"
| "jobs op i t (PIPE c d) = jobs op (0 # i) (t(1 := Some (WriteEnd i))) c @ jobs op (0 # 1 # i) (t(0 := Some (ReadEnd i))) d"
| "jobs op i t (LIST c d) = jobs op (0 # i) t c @ jobs op (1 # i) t d"
| "jobs op i t (BACK c) = jobs op (0 # i) t c"

lemma fds: "[0..15] = [0, 1, 2, 3, 4, 5, 6, 7, 8, 9, 10, 11, 12, 13, 14, 15 :: int]"
  by (simp add: upto_rec1)

lemma runcmd_jobs:
  assumes "dom t = {0, 1, 2}" "cmd_ok c"
  shows "execs (runcmd c) op i t = jobs op i t c"
  using assms
proof (induction c arbitrary: i t)
  case (EXEC ws)
  then show ?case by (cases ws) auto
next
  case (REDIR c f m fd)
  have t: "t 0 \<noteq> None" "t 1 \<noteq> None" "t 2 \<noteq> None" using REDIR.prems(1) by auto
  have fd: "fd = 0 \<or> fd = 1" using REDIR.prems(2) by (auto simp: redir_ok_def)
  then have l: "lowest (t(fd := None)) = Some fd" using t by (elim disjE) (simp_all add: lowest_def fds)
  have D: "dom (t(fd := Some (Opened f m))) = {0, 1, 2}" using fd REDIR.prems(1) by auto
  have "execs (runcmd c) op i (t(fd := Some (Opened f m))) = jobs op i (t(fd := Some (Opened f m))) c"
    by (rule REDIR.IH [OF D]) (use REDIR.prems(2) in simp)
  moreover have "(t(fd := None))(fd := Some (Opened f m)) = t(fd := Some (Opened f m))" by simp
  ultimately show ?case using fd l by (auto simp del: fun_upd_apply)
next
  case (PIPE c d)
  have t: "t 0 \<noteq> None" "t 1 \<noteq> None" "t 2 \<noteq> None" "t 3 = None" "t 4 = None"
    using PIPE.prems(1) domIff [of 3 t] domIff [of 4 t] by auto
  let ?p = "t(3 := Some (ReadEnd i), 4 := Some (WriteEnd i))"
  have l: "lowest t = Some 3" "lowest (t(3 := Some (ReadEnd i))) = Some 4" "lowest (?p(1 := None)) = Some 1" "lowest (?p(0 := None)) = Some 0"
    using t by (auto simp: lowest_def fds)
  have e: "t(1 := Some (WriteEnd i), 3 := None, 4 := None) = t(1 := Some (WriteEnd i))"
    "t(0 := Some (ReadEnd i), 3 := None, 4 := None) = t(0 := Some (ReadEnd i))"
    using t by (auto simp: fun_eq_iff)
  have p: "(?p(1 := None)) 4 = Some (WriteEnd i)" "(?p(0 := None)) 3 = Some (ReadEnd i)" by simp_all
  have D: "dom (t(1 := Some (WriteEnd i))) = {0, 1, 2}" "dom (t(0 := Some (ReadEnd i))) = {0, 1, 2}" using PIPE.prems(1) by auto
  have "cmd_ok c" "cmd_ok d" using PIPE.prems(2) by simp_all
  note jb = PIPE.IH(1) [OF D(1) this(1)] PIPE.IH(2) [OF D(2) this(2)]
  show ?case by (simp add: fork1_def l p e jb del: fun_upd_apply)
next
  case (LIST c d)
  then show ?case by (simp add: fork1_def)
next
  case (BACK c)
  then show ?case by (simp add: fork1_def)
qed

lemma jobs_descriptors:
  assumes "dom t = {0, 1, 2}" "cmd_ok c"
  shows "\<forall>(argv, t') \<in> set (jobs op i t c). argv \<noteq> [] \<and> dom t' = {0, 1, 2}"
  using assms
proof (induction c arbitrary: i t)
  case (REDIR c f m fd)
  then have D: "dom (t(fd := Some (Opened f m))) = {0, 1, 2}" by (auto simp: redir_ok_def)
  show ?case using REDIR.IH [OF D, of i] REDIR.prems(2) by (auto simp del: fun_upd_apply)
next
  case (PIPE c d)
  then have D: "dom (t(1 := Some (WriteEnd i))) = {0, 1, 2}" "dom (t(0 := Some (ReadEnd i))) = {0, 1, 2}" by auto
  show ?case using PIPE.IH(1) [OF D(1), of "0 # i"] PIPE.IH(2) [OF D(2), of "0 # 1 # i"] PIPE.prems(2)
    by (auto simp: ball_Un simp del: fun_upd_apply)
next
  case (LIST c d)
  then show ?case by (auto simp: ball_Un)
qed auto

text \<open>C7. From the line to the programs. A command written as a line is read back as that command, its words being the
  strings the parser leaves in the line, and the child that runs it executes exactly the programs the command means:
  each with its arguments and exactly three descriptors, those of the shell but for the files and the ends of pipes
  the command names, so that no program holds another end of a pipe.\<close>

theorem shell_runs_line:
  assumes "cmd_ok c" "dom t = {0, 1, 2}"
  shows "\<exists>d m. parsecmd (4 * length (unparse 0 c) + 4) (unparse 0 c) = Some (Inr (d, m)) \<and>
    map_cmd (word_at (unparse 0 c) m) d = c \<and>
    execs (run_line (unparse 0 c)) op i t = jobs op i t c \<and>
    (\<forall>(argv, t') \<in> set (execs (run_line (unparse 0 c)) op i t). argv \<noteq> [] \<and> dom t' = {0, 1, 2})"
proof -
  obtain d m where d: "parsecmd (4 * length (unparse 0 c) + 4) (unparse 0 c) = Some (Inr (d, m))"
    "map_cmd (word_at (unparse 0 c) m) d = c"
    using parse_printed [OF assms(1)] by blast
  then have e: "execs (run_line (unparse 0 c)) op i t = jobs op i t c" using runcmd_jobs [OF assms(2,1)] by (simp add: run_line_def)
  show ?thesis using d e jobs_descriptors [OF assms(2,1)] by (intro exI [of _ d] exI [of _ m]) auto
qed

theorem shell_runs_line_witness:
  "\<exists>c. unparse 0 c = text_bytes ''a b >f |c '' \<and>
     execs (run_line (unparse 0 c)) (\<lambda>_ _. True) [] ((\<lambda>_. None)(0 := Some (Inherited 0), 1 := Some (Inherited 1), 2 := Some (Inherited 2))) =
       [([[97], [98]], (\<lambda>_. None)(0 := Some (Inherited 0), 1 := Some (Opened [102] 0x601), 2 := Some (Inherited 2))),
        ([[99]], (\<lambda>_. None)(0 := Some (ReadEnd []), 1 := Some (Inherited 1), 2 := Some (Inherited 2)))]"
proof -
  define c :: "byte list cmd" where "c = PIPE (REDIR (EXEC [[97], [98]]) [102] out_mode 1) (EXEC [[99]])"
  let ?t = "(\<lambda>_. None)(0 := Some (Inherited 0), 1 := Some (Inherited 1), 2 := Some (Inherited 2)) :: fdtab"
  have "cmd_ok c" by (simp add: c_def word_ok_def is_word_def is_space_iff is_symbol_iff redir_ok_def MAXARGS_def)
  moreover have "dom ?t = {0, 1, 2}" by auto
  ultimately have "execs (run_line (unparse 0 c)) (\<lambda>_ _. True) [] ?t = jobs (\<lambda>_ _. True) [] ?t c"
    using shell_runs_line [of c ?t "\<lambda>_ _. True" "[]"] by blast
  moreover have "jobs (\<lambda>_ _. True) [] ?t c = [([[97], [98]], ?t(1 := Some (Opened [102] 0x601))), ([[99]], ?t(0 := Some (ReadEnd [])))]"
    by (simp add: c_def out_mode_def)
  moreover have "?t(1 := Some (Opened [102] 0x601)) = (\<lambda>_. None)(0 := Some (Inherited 0), 1 := Some (Opened [102] 0x601), 2 := Some (Inherited 2))"
    "?t(0 := Some (ReadEnd [])) = (\<lambda>_. None)(0 := Some (ReadEnd []), 1 := Some (Inherited 1), 2 := Some (Inherited 2))"
    by (simp_all add: fun_eq_iff)
  moreover have "unparse 0 c = text_bytes ''a b >f |c ''"
    by (simp add: c_def paren_def redir_text_def in_mode_def out_mode_def append_mode_def)
  ultimately show ?thesis by (intro exI [of _ c]) simp
qed

end
