(* ===== verification/User_Grep.thy ===== *)
theory User_Grep
  imports User_Lib
begin

text \<open>
  \<^verbatim>\<open>user/grep.c\<close>: the matcher and the loop that prints the matching lines. \<open>grep\<close> has the input as the pieces
  its reads find, whatever their sizes.
\<close>

subsection \<open>The matcher\<close>

definition CARET :: byte where "CARET = 94"
definition DOLLAR :: byte where "DOLLAR = 36"
definition STAR :: byte where "STAR = 42"
definition DOT :: byte where "DOT = 46"

lemmas meta_defs = CARET_def DOLLAR_def STAR_def DOT_def

function matchhere :: "byte list \<Rightarrow> byte list \<Rightarrow> bool"
  and matchstar :: "byte \<Rightarrow> byte list \<Rightarrow> byte list \<Rightarrow> bool" where
  "matchhere re text =
     (if re = [] then True
      else if tl re \<noteq> [] \<and> hd (tl re) = STAR then matchstar (hd re) (tl (tl re)) text
      else if hd re = DOLLAR \<and> tl re = [] then text = []
      else if text \<noteq> [] \<and> (hd re = DOT \<or> hd re = hd text) then matchhere (tl re) (tl text)
      else False)"
| "matchstar c re text =
     (if matchhere re text then True
      else if text \<noteq> [] \<and> (hd text = c \<or> c = DOT) then matchstar c re (tl text)
      else False)"
  by pat_completeness auto
termination
proof (relation "measure (\<lambda>x. case x of Inl (re, t) \<Rightarrow> 2 * length re + length t | Inr (c, re, t) \<Rightarrow> Suc (2 * length re + length t))", goal_cases)
  case (2 re t)
  then show ?case by (cases re; cases "tl re") auto
next
  case (3 re t)
  then show ?case by (cases re; cases t) auto
next
  case (5 c re t)
  then show ?case by (cases t) auto
qed auto

declare matchhere.simps [simp del] matchstar.simps [simp del]

text \<open>The loop of \<open>match\<close> over the suffixes of the text, the empty one included.\<close>

fun match_loop :: "byte list \<Rightarrow> byte list \<Rightarrow> bool" where
  "match_loop re [] = matchhere re []"
| "match_loop re (c # text) = (if matchhere re (c # text) then True else match_loop re text)"

definition gmatch :: "byte list \<Rightarrow> byte list \<Rightarrow> bool" where
  "gmatch re text = (if re \<noteq> [] \<and> hd re = CARET then matchhere (tl re) text else match_loop re text)"

subsection \<open>The lines\<close>

text \<open>The loop over the lines of the buffer from \<open>p\<close> on: what is printed, and what is left at the end.\<close>

lemma strchr_less: "strchr p c = Some k \<Longrightarrow> length p - Suc k < length p"
  using strchr_Some(1) [of p c k] by simp

function scan_lines :: "byte list \<Rightarrow> byte list \<Rightarrow> byte list \<times> byte list" where
  "scan_lines pat p =
     (case strchr p 10 of
        None \<Rightarrow> ([], p)
      | Some q \<Rightarrow> (let (out, rest) = scan_lines pat (drop (Suc q) p) in
          ((if gmatch pat (take q p) then take (Suc q) p else []) @ out, rest)))"
  by pat_completeness auto
termination
  by (relation "measure (\<lambda>(_, p). length p)") (auto dest: strchr_less)

declare scan_lines.simps [simp del]

definition GREP_BUF :: nat where "GREP_BUF = 1024"

text \<open>The \<open>m\<close> bytes kept from earlier reads, and the input.\<close>

function grep :: "byte list \<Rightarrow> byte list \<Rightarrow> input \<Rightarrow> byte list" where
  "grep pat buf rs =
     (let (n, c, rs') = read_input (GREP_BUF - length buf - 1) rs in
      if n > 0 then (let (out, rest) = scan_lines pat (buf @ c) in out @ grep pat rest rs')
      else [])"
  by pat_completeness auto
termination
  by (relation "measure (\<lambda>(_, _, rs). input_size rs)") (auto dest!: read_input_less [OF sym])

declare grep.simps [simp del]

text \<open>\<open>main\<close>: what is written to the terminal and the exit status. \<open>opens\<close> is what \<open>open\<close> finds for a file name.\<close>

fun grep_files :: "(byte list \<Rightarrow> input option) \<Rightarrow> byte list \<Rightarrow> byte list list \<Rightarrow> byte list \<times> int" where
  "grep_files opens pat [] = ([], 0)"
| "grep_files opens pat (f # files) =
     (case opens f of
        None \<Rightarrow> (text_bytes ''grep: cannot open '' @ f @ [10], 1)
      | Some rs \<Rightarrow> (let (out, st) = grep_files opens pat files in (grep pat [] rs @ out, st)))"

definition grep_main :: "(byte list \<Rightarrow> input option) \<Rightarrow> input \<Rightarrow> byte list list \<Rightarrow> byte list \<times> int" where
  "grep_main opens stdin argv =
     (if length argv \<le> 1 then (text_bytes ''usage: grep pattern [file ...]'' @ [10], 1)
      else if length argv \<le> 2 then (grep (argv ! 1) [] stdin, 0)
      else grep_files opens (argv ! 1) (drop 2 argv))"

subsection \<open>Regular expressions\<close>

text \<open>The usual semantics, to compare the matcher with.\<close>

datatype rexp = Eps | Chr byte | AnyChr | Cat rexp rexp | Rep rexp

inductive in_lang :: "rexp \<Rightarrow> byte list \<Rightarrow> bool" where
  "in_lang Eps []"
| "in_lang (Chr c) [c]"
| "in_lang AnyChr [c]"
| "in_lang r xs \<Longrightarrow> in_lang s ys \<Longrightarrow> in_lang (Cat r s) (xs @ ys)"
| "in_lang (Rep r) []"
| "in_lang r xs \<Longrightarrow> in_lang (Rep r) ys \<Longrightarrow> in_lang (Rep r) (xs @ ys)"

inductive_simps lang_Eps [simp]: "in_lang Eps xs"
inductive_simps lang_Chr [simp]: "in_lang (Chr c) xs"
inductive_simps lang_Any [simp]: "in_lang AnyChr xs"
inductive_simps lang_Cat: "in_lang (Cat r s) xs"

text \<open>A pattern after its caret: a regular expression, and whether a dollar sign ends it.\<close>

definition atom :: "byte \<Rightarrow> rexp" where
  "atom c = (if c = DOT then AnyChr else Chr c)"

fun regex_of :: "byte list \<Rightarrow> rexp \<times> bool" where
  "regex_of [] = (Eps, False)"
| "regex_of [c] = (if c = DOLLAR then (Eps, True) else (atom c, False))"
| "regex_of (c # d # re) =
     (if d = STAR then (case regex_of re of (r, e) \<Rightarrow> (Cat (Rep (atom c)) r, e))
      else (case regex_of (d # re) of (r, e) \<Rightarrow> (Cat (atom c) r, e)))"

lemma lang_atom: "in_lang (atom c) xs \<longleftrightarrow> (\<exists>d. xs = [d] \<and> (c = DOT \<or> c = d))"
  by (auto simp: atom_def)

lemma lang_Rep_atom: "in_lang (Rep (atom c)) xs \<longleftrightarrow> (\<forall>d \<in> set xs. d = c \<or> c = DOT)"
proof
  show "\<forall>d \<in> set xs. d = c \<or> c = DOT" if "in_lang (Rep (atom c)) xs"
    using that by (induction "Rep (atom c)" xs rule: in_lang.induct) (auto simp: lang_atom)
  show "in_lang (Rep (atom c)) xs" if "\<forall>d \<in> set xs. d = c \<or> c = DOT"
    using that
  proof (induction xs)
    case (Cons d xs)
    then have "in_lang (atom c) [d]" "in_lang (Rep (atom c)) xs" by (auto simp: lang_atom)
    then show ?case using in_lang.intros(6) [of "atom c" "[d]" xs] by simp
  qed (rule in_lang.intros)
qed

text \<open>A prefix of the text in the language, the whole text when a dollar sign ends the pattern.\<close>

definition accepts :: "rexp \<times> bool \<Rightarrow> byte list \<Rightarrow> bool" where
  "accepts re t \<longleftrightarrow> (\<exists>b c. t = b @ c \<and> in_lang (fst re) b \<and> (snd re \<longrightarrow> c = []))"

lemma accepts_Eps: "accepts (Eps, e) t \<longleftrightarrow> e \<longrightarrow> t = []"
  by (auto simp: accepts_def)

lemma accepts_Cat: "accepts (Cat r s, e) t \<longleftrightarrow> (\<exists>a u. t = a @ u \<and> in_lang r a \<and> accepts (s, e) u)"
proof
  assume "accepts (Cat r s, e) t"
  then obtain p c where "t = p @ c" "in_lang (Cat r s) p" "e \<longrightarrow> c = []" by (auto simp: accepts_def)
  then obtain a b where "t = (a @ b) @ c" "in_lang r a" "in_lang s b" "e \<longrightarrow> c = []" by (auto simp: lang_Cat)
  then show "\<exists>a u. t = a @ u \<and> in_lang r a \<and> accepts (s, e) u"
    by (intro exI [of _ a] exI [of _ "b @ c"]) (auto simp: accepts_def)
next
  assume "\<exists>a u. t = a @ u \<and> in_lang r a \<and> accepts (s, e) u"
  then obtain a b c where "t = a @ b @ c" "in_lang r a" "in_lang s b" "e \<longrightarrow> c = []" by (auto simp: accepts_def)
  then show "accepts (Cat r s, e) t" unfolding accepts_def
    by (intro exI [of _ "a @ b"] exI [of _ c]) (auto intro: in_lang.intros)
qed

lemma accepts_atom: "accepts (Cat (atom c) r, e) t \<longleftrightarrow> (\<exists>d u. t = d # u \<and> (c = DOT \<or> c = d) \<and> accepts (r, e) u)"
  by (simp add: accepts_Cat lang_atom) (metis append_Cons append_Nil)

lemma accepts_Rep: "accepts (Cat (Rep (atom c)) r, e) t \<longleftrightarrow> (\<exists>a u. t = a @ u \<and> (\<forall>d \<in> set a. d = c \<or> c = DOT) \<and> accepts (r, e) u)"
  by (simp add: accepts_Cat lang_Rep_atom)

lemma accepts_last: "accepts (atom c, e) t \<longleftrightarrow> accepts (Cat (atom c) Eps, e) t"
  by (simp add: accepts_def lang_Cat)

lemma matcher_accepts:
  "matchhere re t \<longleftrightarrow> accepts (regex_of re) t"
  "matchstar c pat w \<longleftrightarrow> (\<exists>a u. w = a @ u \<and> (\<forall>d \<in> set a. d = c \<or> c = DOT) \<and> accepts (regex_of pat) u)"
proof (induction re t and c pat w rule: matchhere_matchstar.induct)
  case (1 re w)
  show ?case
  proof (cases re rule: regex_of.cases [case_names Nil One Two])
    case Nil
    then show ?thesis by (subst matchhere.simps) (simp add: accepts_Eps)
  next
    case (One c)
    then show ?thesis using One "1.IH"
      by (subst matchhere.simps) (cases w; auto simp: accepts_Eps accepts_last accepts_atom)
  next
    case (Two c d re')
    show ?thesis
    proof (cases "d = STAR")
      case True
      then have "matchhere re w \<longleftrightarrow> matchstar c re' w" using Two by (subst matchhere.simps) simp
      moreover obtain r e where "regex_of re' = (r, e)" by (metis surj_pair)
      ultimately show ?thesis using "1.IH"(1) Two True accepts_Rep [of c r e w] by simp
    next
      case False
      obtain r e where "regex_of (d # re') = (r, e)" by (metis surj_pair)
      then show ?thesis using "1.IH"(2) Two False
        by (subst matchhere.simps) (cases w; auto simp: accepts_atom)
    qed
  qed
next
  case (2 c re w)
  have "(\<exists>a u. w = a @ u \<and> (\<forall>d \<in> set a. d = c \<or> c = DOT) \<and> accepts (regex_of re) u) \<longleftrightarrow>
      accepts (regex_of re) w \<or> (w \<noteq> [] \<and> (hd w = c \<or> c = DOT) \<and>
        (\<exists>a u. tl w = a @ u \<and> (\<forall>d \<in> set a. d = c \<or> c = DOT) \<and> accepts (regex_of re) u))" (is "?l \<longleftrightarrow> ?r")
  proof
    assume ?l
    then obtain a u where a: "w = a @ u" "\<forall>d \<in> set a. d = c \<or> c = DOT" "accepts (regex_of re) u" by blast
    show ?r by (cases a) (use a in auto)
  next
    assume r: ?r
    show ?l
    proof (cases "accepts (regex_of re) w")
      case True
      then show ?thesis by (intro exI [of _ "[]"] exI [of _ w]) simp
    next
      case False
      then obtain a u where "w \<noteq> []" "hd w = c \<or> c = DOT" "tl w = a @ u" "\<forall>d \<in> set a. d = c \<or> c = DOT" "accepts (regex_of re) u"
        using r by blast
      then show ?thesis by (intro exI [of _ "hd w # a"] exI [of _ u]) (cases w; auto)
    qed
  qed
  then show ?case using 2 by (subst matchstar.simps) auto
qed

lemma match_loop_suffix: "match_loop re t \<longleftrightarrow> (\<exists>a u. t = a @ u \<and> matchhere re u)"
proof (induction t)
  case (Cons c t)
  have "(\<exists>a u. c # t = a @ u \<and> matchhere re u) \<longleftrightarrow> matchhere re (c # t) \<or> (\<exists>a u. t = a @ u \<and> matchhere re u)"
    by (metis append_Cons append_Nil list.exhaust list.inject)
  then show ?case using Cons by simp
qed simp

text \<open>C24. The recursive matcher of \<open>grep\<close> agrees with the semantics of regular expressions: a pattern matches a text
  exactly if the text has a part in the language of the pattern's expression, which begins the text if the pattern
  begins with a caret and ends it if the pattern ends with a dollar sign.\<close>

theorem match_is_regex:
  "gmatch pat t \<longleftrightarrow>
     (let anchored = (pat \<noteq> [] \<and> hd pat = CARET); (r, ends) = regex_of (if anchored then tl pat else pat) in
      \<exists>a b c. t = a @ b @ c \<and> in_lang r b \<and> (anchored \<longrightarrow> a = []) \<and> (ends \<longrightarrow> c = []))"
proof (cases "pat \<noteq> [] \<and> hd pat = CARET")
  case True
  then show ?thesis by (auto simp: gmatch_def matcher_accepts accepts_def Let_def split: prod.splits)
next
  case False
  have "gmatch pat t = match_loop pat t" using False by (simp only: gmatch_def if_False)
  also have "\<dots> \<longleftrightarrow> (\<exists>a u. t = a @ u \<and> accepts (regex_of pat) u)" by (simp add: match_loop_suffix matcher_accepts)
  also have "\<dots> \<longleftrightarrow> (\<exists>a b c. t = a @ b @ c \<and> in_lang (fst (regex_of pat)) b \<and> (snd (regex_of pat) \<longrightarrow> c = []))"
    unfolding accepts_def by blast
  finally show ?thesis by (simp only: Let_def False if_False case_prod_beta HOL.simp_thms)
qed

theorem match_is_regex_witness: "gmatch [97, 42, 98] [99, 97, 97, 98]"
proof -
  have "in_lang (Cat (Rep (atom 97)) (atom 98)) ([97, 97] @ [98])"
    by (intro in_lang.intros) (auto simp: lang_Rep_atom lang_atom)
  moreover have "regex_of [97, 42, 98] = (Cat (Rep (atom 97)) (atom 98), False)" by (simp add: meta_defs)
  ultimately have "\<exists>a b c. [99, 97, 97, 98] = a @ b @ c \<and> in_lang (fst (regex_of [97, 42, 98])) b"
    by (intro exI [of _ "[99]"] exI [of _ "[97, 97, 98]"] exI [of _ "[]"]) simp
  then show ?thesis using match_is_regex [of "[97, 42, 98]" "[99, 97, 97, 98]"] by (simp add: meta_defs)
qed

subsection \<open>The printed lines\<close>

text \<open>The lines that an end of line ends, and what follows the last of them; \<open>acc\<close> is the line so far.\<close>

fun lines_acc :: "byte list \<Rightarrow> byte list \<Rightarrow> byte list list \<times> byte list" where
  "lines_acc acc [] = ([], acc)"
| "lines_acc acc (x # xs) = (if x = 10 then apfst (Cons acc) (lines_acc [] xs) else lines_acc (acc @ [x]) xs)"

definition input_bytes :: "input \<Rightarrow> byte list" where
  "input_bytes rs = concat (map (\<lambda>r. case r of None \<Rightarrow> [] | Some c \<Rightarrow> c) rs)"

definition print_lines :: "byte list \<Rightarrow> byte list list \<Rightarrow> byte list" where
  "print_lines pat ls = concat (map (\<lambda>l. l @ [10]) (filter (gmatch pat) ls))"

lemma lines_acc_append:
  "lines_acc acc (xs @ ys) = (fst (lines_acc acc xs) @ fst (lines_acc (snd (lines_acc acc xs)) ys), snd (lines_acc (snd (lines_acc acc xs)) ys))"
  by (induction acc xs rule: lines_acc.induct) auto

lemma lines_acc_plain: "10 \<notin> set xs \<Longrightarrow> lines_acc acc xs = ([], acc @ xs)"
  by (induction xs arbitrary: acc) auto

lemma lines_acc_set: "set (snd (lines_acc acc xs)) \<subseteq> set acc \<union> set xs"
  by (induction acc xs rule: lines_acc.induct) auto

lemma lines_acc_tail: "10 \<notin> set acc \<Longrightarrow> 10 \<notin> set (snd (lines_acc acc xs))"
  by (induction acc xs rule: lines_acc.induct) auto

lemma lines_acc_grow: "\<exists>l \<in> insert (snd (lines_acc acc xs)) (set (fst (lines_acc acc xs))). length acc \<le> length l"
proof (induction acc xs rule: lines_acc.induct)
  case (2 acc x xs)
  then show ?case by (cases "x = 10") fastforce+
qed simp

lemma scan_lines_prints:
  assumes "0 \<notin> set p"
  shows "scan_lines pat p = (print_lines pat (fst (lines_acc [] p)), snd (lines_acc [] p))"
  using assms
proof (induction pat p rule: scan_lines.induct)
  case (1 pat p)
  show ?case
  proof (cases "strchr p 10")
    case None
    then have "10 \<notin> set p" using strchr_None [OF 1(2)] by simp
    then show ?thesis using None by (subst scan_lines.simps) (simp add: lines_acc_plain print_lines_def)
  next
    case (Some q)
    note q = strchr_Some [OF Some]
    have p: "p = take q p @ 10 # drop (Suc q) p" using q(1,2) by (metis id_take_nth_drop)
    have "lines_acc [] (take q p @ 10 # drop (Suc q) p) = apfst (Cons (take q p)) (lines_acc [] (drop (Suc q) p))"
      using q(3) unfolding lines_acc_append by (simp add: lines_acc_plain prod_eq_iff)
    then have l: "lines_acc [] p = apfst (Cons (take q p)) (lines_acc [] (drop (Suc q) p))" using p by simp
    have "take (Suc q) p = take q p @ [10]" using q(1,2) by (simp add: take_Suc_conv_app_nth)
    moreover have "0 \<notin> set (drop (Suc q) p)" using 1(2) by (auto dest: in_set_dropD)
    ultimately show ?thesis using 1(1) [OF Some] Some l by (subst scan_lines.simps) (simp add: print_lines_def)
  qed
qed

text \<open>Input that \<open>grep\<close> can handle: no error, no NUL byte, and no line that the buffer cannot hold.\<close>

definition plain_input :: "input \<Rightarrow> bool" where
  "plain_input rs \<longleftrightarrow> None \<notin> set rs \<and> Some [] \<notin> set rs \<and> 0 \<notin> set (input_bytes rs)"

lemma read_plain:
  assumes "plain_input rs" "0 < k" "rs \<noteq> []"
  obtains c rs' where "read_input k rs = (int (length c), c, rs')" "c \<noteq> []" "input_bytes rs = c @ input_bytes rs'" "plain_input rs'"
proof -
  obtain r rs' where "rs = r # rs'" using assms(3) by (cases rs) auto
  then obtain c where r: "rs = Some c # rs'" "c \<noteq> []" using assms(1) by (cases r) (auto simp: plain_input_def)
  show thesis
    by (rule that [of "take k c" "if length c \<le> k then rs' else Some (drop k c) # rs'"])
      (use r assms in \<open>auto simp: plain_input_def input_bytes_def dest: in_set_takeD in_set_dropD\<close>)
qed

lemma grep_prints:
  assumes "plain_input rs" "0 \<notin> set buf" "10 \<notin> set buf" "length buf < GREP_BUF - 1"
    "\<forall>l \<in> insert (snd (lines_acc buf (input_bytes rs))) (set (fst (lines_acc buf (input_bytes rs)))). length l < GREP_BUF - 1"
  shows "grep pat buf rs = print_lines pat (fst (lines_acc buf (input_bytes rs)))"
  using assms
proof (induction pat buf rs rule: grep.induct)
  case (1 pat buf rs)
  show ?case
  proof (cases "rs = []")
    case True
    then show ?thesis by (subst grep.simps) (simp add: input_bytes_def print_lines_def)
  next
    case False
    have k: "0 < GREP_BUF - length buf - 1" using 1(5) by simp
    obtain c rs' where c: "read_input (GREP_BUF - length buf - 1) rs = (int (length c), c, rs')" "c \<noteq> []"
      "input_bytes rs = c @ input_bytes rs'" "plain_input rs'"
      by (rule read_plain [OF 1(2) k False])
    let ?L = "lines_acc buf c"
    have "0 \<notin> set (buf @ c)" using 1(2,3) c(3) by (auto simp: plain_input_def)
    then have s: "scan_lines pat (buf @ c) = (print_lines pat (fst ?L), snd ?L)"
      using scan_lines_prints [of "buf @ c" pat] lines_acc_append [of "[]" buf c] lines_acc_plain [OF 1(4), of "[]"] by simp
    have app: "lines_acc buf (input_bytes rs) = (fst ?L @ fst (lines_acc (snd ?L) (input_bytes rs')), snd (lines_acc (snd ?L) (input_bytes rs')))"
      unfolding c(3) by (rule lines_acc_append)
    have ih: "grep pat (snd ?L) rs' = print_lines pat (fst (lines_acc (snd ?L) (input_bytes rs')))"
    proof (rule 1(1) [OF c(1) [symmetric] refl refl _ s [symmetric] refl c(4)])
      show "0 \<notin> set (snd ?L)" using lines_acc_set [of buf c] \<open>0 \<notin> set (buf @ c)\<close> by auto
      show "length (snd ?L) < GREP_BUF - 1" using lines_acc_grow [of "snd ?L" "input_bytes rs'"] 1(6) unfolding app by (auto intro: le_less_trans)
    qed (use c(2) lines_acc_tail [OF 1(4)] 1(6) app in auto)
    show ?thesis using c(1,2) s ih by (subst grep.simps) (simp add: app print_lines_def)
  qed
qed

text \<open>A line that fills the buffer ends the loop, whatever input is left.\<close>

lemma grep_stops_on_long_line: "None \<notin> set rs \<Longrightarrow> length buf = GREP_BUF - 1 \<Longrightarrow> grep pat buf rs = []"
  by (subst grep.simps) (cases "(0 :: nat, rs)" rule: read_input.cases; auto)

text \<open>C25. \<open>grep\<close> prints exactly the lines that match, in order, each with its end of line, however the reads cut the input into
  pieces. The input must be free of errors and NUL bytes and each of its lines must leave room in the buffer; a rest
  without an end of line is never printed.\<close>

theorem grep_prints_matching_lines:
  assumes "plain_input rs"
    and "\<forall>l \<in> insert (snd (lines_acc [] (input_bytes rs))) (set (fst (lines_acc [] (input_bytes rs)))). length l < GREP_BUF - 1"
  shows "grep pat [] rs = concat (map (\<lambda>l. l @ [10]) (filter (gmatch pat) (fst (lines_acc [] (input_bytes rs)))))"
  using grep_prints [OF assms(1), of "[]" pat] assms(2) by (simp add: print_lines_def GREP_BUF_def)

theorem grep_prints_matching_lines_witness:
  "grep [94, 97] [] [Some [97, 98, 10, 98], Some [97, 10, 97, 10, 99]] = [97, 98, 10, 97, 10]"
proof -
  let ?rs = "[Some [97, 98, 10, 98], Some [97, 10, 97, 10, 99]] :: input"
  have i: "plain_input ?rs" "lines_acc [] (input_bytes ?rs) = ([[97, 98], [98, 97], [97]], [99])"
    by (simp_all add: plain_input_def input_bytes_def)
  have "gmatch [94, 97] [97, 98]" "\<not> gmatch [94, 97] [98, 97]" "gmatch [94, 97] [97]"
    by (simp_all add: gmatch_def meta_defs matchhere.simps)
  then show ?thesis using grep_prints_matching_lines [OF i(1), of "[94, 97]"] i(2) by (simp add: GREP_BUF_def)
qed

end
