(* ===== verification/User_Malloc.thy ===== *)
theory User_Malloc
  imports Kern_String "HOL-Library.Monad_Syntax"
begin

text \<open>
  The memory allocator \<^verbatim>\<open>user/umalloc.c\<close>: a ring of free blocks in the order of their addresses, each with a header
  of 16 bytes that has the next block and the size in units of headers. The memory is a map from the addresses of
  headers to headers; a null pointer is 0. The address of \<^verbatim>\<open>base\<close> is an argument, and so is the test by which the
  kernel grants or refuses more memory.
\<close>

subsection \<open>The allocator\<close>

record header =
  hptr :: u64
  hsize :: u32

record uheap =
  hdrs :: "u64 \<Rightarrow> header"
  freep :: u64
  brk :: u64

definition SBRK_ERROR :: u64 where "SBRK_ERROR = - 1"

definition set_ptr :: "u64 \<Rightarrow> u64 \<Rightarrow> uheap \<Rightarrow> uheap" where
  "set_ptr a q s = s\<lparr>hdrs := (hdrs s)(a := (hdrs s a)\<lparr>hptr := q\<rparr>)\<rparr>"

definition set_size :: "u64 \<Rightarrow> u32 \<Rightarrow> uheap \<Rightarrow> uheap" where
  "set_size a n s = s\<lparr>hdrs := (hdrs s)(a := (hdrs s a)\<lparr>hsize := n\<rparr>)\<rparr>"

text \<open>The header \<open>n\<close> units on.\<close>

definition plus_units :: "u64 \<Rightarrow> u32 \<Rightarrow> u64" where
  "plus_units a n = a + 16 * ucast n"

definition sbrk :: "(u64 \<Rightarrow> int \<Rightarrow> bool) \<Rightarrow> int \<Rightarrow> uheap \<Rightarrow> u64 \<times> uheap" where
  "sbrk grants n s = (if grants (brk s) n then (brk s, s\<lparr>brk := brk s + word_of_int n\<rparr>) else (SBRK_ERROR, s))"

partial_function (option) find_spot :: "u64 \<Rightarrow> u64 \<Rightarrow> uheap \<Rightarrow> u64 option" where
  "find_spot bp p s =
     (let q = hptr (hdrs s p) in
      if bp > p \<and> bp < q then Some p
      else if p \<ge> q \<and> (bp > p \<or> bp < q) then Some p
      else find_spot bp q s)"

text \<open>The block is joined to the next one, and to the one before it, where they are adjacent.\<close>

definition join_next :: "u64 \<Rightarrow> u64 \<Rightarrow> uheap \<Rightarrow> uheap" where
  "join_next bp p s =
     (if plus_units bp (hsize (hdrs s bp)) = hptr (hdrs s p) then
        (let s = set_size bp (hsize (hdrs s bp) + hsize (hdrs s (hptr (hdrs s p)))) s in
         set_ptr bp (hptr (hdrs s (hptr (hdrs s p)))) s)
      else set_ptr bp (hptr (hdrs s p)) s)"

definition join_prev :: "u64 \<Rightarrow> u64 \<Rightarrow> uheap \<Rightarrow> uheap" where
  "join_prev bp p s =
     (if plus_units p (hsize (hdrs s p)) = bp then
        (let s = set_size p (hsize (hdrs s p) + hsize (hdrs s bp)) s in set_ptr p (hptr (hdrs s bp)) s)
      else set_ptr p bp s)"

definition ufree :: "u64 \<Rightarrow> uheap \<Rightarrow> uheap option" where
  "ufree ap s = do {
     let bp = ap - 16;
     p \<leftarrow> find_spot bp (freep s) s;
     Some ((join_prev bp p (join_next bp p s))\<lparr>freep := p\<rparr>)
   }"

definition morecore :: "(u64 \<Rightarrow> int \<Rightarrow> bool) \<Rightarrow> u32 \<Rightarrow> uheap \<Rightarrow> (u64 \<times> uheap) option" where
  "morecore grants nu s =
     (let nu = (if nu < 4096 then 4096 else nu);
          (p, s) = sbrk grants (sint (ucast (ucast nu * 16 :: u64) :: u32)) s in
      if p = SBRK_ERROR then Some (0, s)
      else do {
        s \<leftarrow> ufree (p + 16) (set_size p nu s);
        Some (freep s, s)
      })"

text \<open>The block found, and its memory: all of it, or its end.\<close>

definition carve :: "u32 \<Rightarrow> u64 \<Rightarrow> u64 \<Rightarrow> uheap \<Rightarrow> u64 \<times> uheap" where
  "carve nunits prevp p s =
     (let (p, s) =
        (if hsize (hdrs s p) = nunits then (p, set_ptr prevp (hptr (hdrs s p)) s)
         else
           (let s = set_size p (hsize (hdrs s p) - nunits) s; p = plus_units p (hsize (hdrs s p)) in
            (p, set_size p nunits s))) in
      (p + 16, s\<lparr>freep := prevp\<rparr>))"

partial_function (option) malloc_loop :: "(u64 \<Rightarrow> int \<Rightarrow> bool) \<Rightarrow> u32 \<Rightarrow> u64 \<Rightarrow> u64 \<Rightarrow> uheap \<Rightarrow> (u64 \<times> uheap) option" where
  "malloc_loop grants nunits prevp p s =
     (if hsize (hdrs s p) \<ge> nunits then Some (carve nunits prevp p s)
      else if p = freep s then
        Option.bind (morecore grants nunits s) (\<lambda>(p, s).
          if p = 0 then Some (0, s) else malloc_loop grants nunits p (hptr (hdrs s p)) s)
      else malloc_loop grants nunits p (hptr (hdrs s p)) s)"

definition units_for :: "u32 \<Rightarrow> u32" where
  "units_for nbytes = ucast ((ucast nbytes + 16 - 1) div 16 + 1 :: u64)"

definition umalloc :: "u64 \<Rightarrow> (u64 \<Rightarrow> int \<Rightarrow> bool) \<Rightarrow> u32 \<Rightarrow> uheap \<Rightarrow> (u64 \<times> uheap) option" where
  "umalloc base grants nbytes s =
     (let s = (if freep s = 0 then set_size base 0 ((set_ptr base base s)\<lparr>freep := base\<rparr>) else s) in
      malloc_loop grants (units_for nbytes) (freep s) (hptr (hdrs s (freep s))) s)"

end
