(* ===== verification/User_Malloc_Inv.thy ===== *)
theory User_Malloc_Inv
  imports User_Malloc
begin

text \<open>
  The ring of free blocks as a list in the order of addresses, and what \<open>ufree\<close>, \<open>morecore\<close> and \<open>umalloc\<close> do to it.
\<close>

subsection \<open>Blocks\<close>

definition units :: "uheap \<Rightarrow> u64 \<Rightarrow> nat" where
  "units s a = unat (hsize (hdrs s a))"

definition next_hdr :: "uheap \<Rightarrow> u64 \<Rightarrow> u64" where
  "next_hdr s a = hptr (hdrs s a)"

text \<open>The addresses of a block of \<open>n\<close> units.\<close>

definition extent :: "u64 \<Rightarrow> nat \<Rightarrow> nat set" where
  "extent a n = {unat a ..< unat a + 16 * n}"

definition TOP :: nat where "TOP = 2 ^ 36"

lemma units_word: "unat (hsize (hdrs s a)) = units s a" "hptr (hdrs s a) = next_hdr s a"
  by (simp_all add: units_def next_hdr_def)

lemma unat_plus_units:
  assumes "unat a + 16 * unat n \<le> TOP"
  shows "unat (plus_units a n) = unat a + 16 * unat n"
proof -
  have n: "unat (ucast n :: u64) = unat n" by transfer simp
  have "unat (16 * ucast n :: u64) = 16 * unat n mod 2 ^ 64" by (simp add: unat_word_ariths n)
  moreover have b: "16 * unat n < 2 ^ 64" "unat a + 16 * unat n < 2 ^ 64" using assms by (simp_all add: TOP_def)
  ultimately have "unat (16 * ucast n :: u64) = 16 * unat n" by simp
  then show ?thesis using b(2) by (simp add: plus_units_def unat_word_ariths)
qed

lemma set_simps [simp]:
  "next_hdr (set_ptr a q s) b = (if b = a then q else next_hdr s b)" "units (set_ptr a q s) b = units s b"
  "next_hdr (set_size a n s) b = next_hdr s b" "units (set_size a n s) b = (if b = a then unat n else units s b)"
  "next_hdr (s\<lparr>freep := p\<rparr>) b = next_hdr s b" "units (s\<lparr>freep := p\<rparr>) b = units s b"
  "next_hdr (s\<lparr>brk := p\<rparr>) b = next_hdr s b" "units (s\<lparr>brk := p\<rparr>) b = units s b"
  "freep (set_ptr a q s) = freep s" "freep (set_size a n s) = freep s" "brk (set_ptr a q s) = brk s" "brk (set_size a n s) = brk s"
  by (simp_all add: set_ptr_def set_size_def next_hdr_def units_def)

subsection \<open>The ring\<close>

text \<open>\<open>bs\<close> are the free blocks above \<open>base\<close>, in order, no two of them adjacent.\<close>

definition chained :: "uheap \<Rightarrow> u64 list \<Rightarrow> bool" where
  "chained s xs \<longleftrightarrow> successively (\<lambda>x y. next_hdr s x = y) xs"

definition apart :: "uheap \<Rightarrow> u64 list \<Rightarrow> bool" where
  "apart s xs \<longleftrightarrow> successively (\<lambda>x y. unat x + 16 * units s x < unat y) xs"

definition ring :: "u64 \<Rightarrow> nat \<Rightarrow> uheap \<Rightarrow> u64 list \<Rightarrow> nat \<Rightarrow> bool" where
  "ring base lo s bs hi \<longleftrightarrow>
     chained s (base # bs @ [base]) \<and> apart s (base # bs) \<and> freep s \<in> set (base # bs) \<and> units s base = 0 \<and>
     unat base + 16 \<le> lo \<and> lo \<le> hi \<and> hi \<le> TOP \<and> (\<forall>a \<in> set bs. lo \<le> unat a \<and> 0 < units s a \<and> unat a + 16 * units s a \<le> hi)"

definition free_space :: "uheap \<Rightarrow> u64 list \<Rightarrow> nat set" where
  "free_space s bs = (\<Union>a \<in> set bs. extent a (units s a))"

lemma chained_simps [simp]: "chained s []" "chained s [x]" "chained s (x # y # zs) \<longleftrightarrow> next_hdr s x = y \<and> chained s (y # zs)"
  by (simp_all add: chained_def)

lemma chained_append: "chained s (xs @ y # ys) \<longleftrightarrow> chained s (xs @ [y]) \<and> chained s (y # ys)"
  by (cases ys) (auto simp: chained_def successively_append_iff)

lemma chained_prefix: "chained s (xs @ ys) \<Longrightarrow> chained s xs"
  by (simp add: chained_def successively_append_iff)

lemma apart_simps [simp]: "apart s []" "apart s [x]" "apart s (x # y # zs) \<longleftrightarrow> unat x + 16 * units s x < unat y \<and> apart s (y # zs)"
  by (simp_all add: apart_def)

lemma apart_append: "apart s (xs @ y # ys) \<longleftrightarrow> apart s (xs @ [y]) \<and> apart s (y # ys)"
  by (cases ys) (auto simp: apart_def successively_append_iff)

lemma chained_cong: "(\<And>x. x \<in> set (butlast xs) \<Longrightarrow> next_hdr t x = next_hdr s x) \<Longrightarrow> chained t xs = chained s xs"
  by (induction xs rule: induct_list012) auto

lemma apart_cong: "(\<And>x. x \<in> set (butlast xs) \<Longrightarrow> units t x = units s x) \<Longrightarrow> apart t xs = apart s xs"
  by (induction xs rule: induct_list012) auto

lemma apart_below: "apart s (x # xs) \<Longrightarrow> y \<in> set xs \<Longrightarrow> unat x + 16 * units s x < unat y"
proof (induction xs arbitrary: x)
  case (Cons z zs)
  then show ?case using Cons.IH [of z] by (cases "y = z") fastforce+
qed simp

lemma apart_sorted: "apart s xs \<Longrightarrow> sorted_wrt (<) xs"
proof (induction xs)
  case (Cons x xs)
  have "apart s xs" using Cons.prems by (cases xs) auto
  moreover have "x < y" if "y \<in> set xs" for y using apart_below [OF Cons.prems that] by (simp add: word_less_nat_alt)
  ultimately show ?case using Cons.IH by simp
qed simp

lemma apart_distinct: "apart s xs \<Longrightarrow> distinct xs"
  using apart_sorted strict_sorted_iff by blast

text \<open>The walk around the ring from any of its headers.\<close>

lemma ring_from:
  assumes "chained s (base # bs @ [base])" "base # bs = l1 @ p # l2"
  shows "chained s (p # l2 @ l1 @ [p])"
proof -
  have "chained s (l1 @ p # l2 @ [base])" using assms by (metis append_Cons append_assoc)
  then have a: "chained s (l1 @ [p])" "chained s (p # l2 @ [base])" using chained_append [of s l1 p "l2 @ [base]"] by simp_all
  show ?thesis
  proof (cases l1)
    case Nil
    with a(2) assms(2) show ?thesis by simp
  next
    case (Cons x l1')
    then have "x = base" using assms(2) by simp
    with a Cons show ?thesis using chained_append [of s "p # l2" base "l1' @ [p]"] by simp
  qed
qed

lemma ring_next:
  assumes "chained s (base # bs @ [base])" "base # bs = l1 @ x # l2"
  shows "next_hdr s x = hd (l2 @ [base])"
proof -
  have "chained s (l1 @ x # l2 @ [base])" using assms by (metis append_Cons append_assoc)
  then have "chained s (x # l2 @ [base])" using chained_append [of s l1 x "l2 @ [base]"] by simp
  then show ?thesis by (cases l2) auto
qed

subsection \<open>Finding the place of a block\<close>

definition stops :: "u64 \<Rightarrow> uheap \<Rightarrow> u64 \<Rightarrow> bool" where
  "stops bp s p \<longleftrightarrow> (bp > p \<and> bp < next_hdr s p) \<or> (p \<ge> next_hdr s p \<and> (bp > p \<or> bp < next_hdr s p))"

lemma find_spot_walk:
  assumes "chained s (p # xs)" "t \<in> set (p # xs)" "\<And>x. x \<in> set (p # xs) \<Longrightarrow> stops bp s x \<longleftrightarrow> x = t"
  shows "find_spot bp p s = Some t"
  using assms
proof (induction xs arbitrary: p)
  case Nil
  then have "p = t" "stops bp s p" by auto
  then show ?case by (subst find_spot.simps) (auto simp: stops_def Let_def next_hdr_def)
next
  case (Cons y xs)
  show ?case
  proof (cases "p = t")
    case True
    then have "stops bp s p" using Cons.prems by simp
    with True show ?thesis by (subst find_spot.simps) (auto simp: stops_def Let_def next_hdr_def)
  next
    case False
    then have "\<not> stops bp s p" "next_hdr s p = y" "find_spot bp y s = Some t" using Cons by auto
    then show ?thesis by (subst find_spot.simps) (auto simp: stops_def Let_def next_hdr_def)
  qed
qed

text \<open>The place is the last header below the block.\<close>

lemma find_spot_ring:
  assumes r: "ring base lo s bs hi" and sp: "base # bs = l1 @ t # l2" and t: "t < bp" and l2: "\<And>y. y \<in> set l2 \<Longrightarrow> bp < y"
  shows "find_spot bp (freep s) s = Some t"
proof -
  have l: "chained s (base # bs @ [base])" and srt: "sorted_wrt (<) (l1 @ t # l2)" using r sp by (auto simp: ring_def dest: apart_sorted)
  have base: "base \<le> x" if "x \<in> set (base # bs)" for x
  proof -
    have "sorted_wrt (<) (base # bs)" using srt sp by simp
    then show ?thesis using that by auto
  qed
  have tb: "base \<le> t" using base sp by (metis in_set_conv_decomp)
  have "stops bp s x \<longleftrightarrow> x = t" if x: "x \<in> set (base # bs)" for x
  proof -
    consider "x \<in> set l1" | "x = t" | "x \<in> set l2" using x sp by fastforce
    then show ?thesis
    proof cases
      case 1
      then obtain a b where ab: "l1 = a @ x # b" by (auto simp: in_set_conv_decomp)
      then have n: "next_hdr s x = hd (b @ t # l2 @ [base])" using ring_next [OF l, of a x "b @ t # l2"] sp by simp
      then have "x < next_hdr s x" "next_hdr s x \<le> t" using srt ab by (cases b; auto simp: sorted_wrt_append)+
      moreover have "x \<noteq> t" using srt 1 by (auto simp: sorted_wrt_append)
      ultimately show ?thesis using t by (auto simp: stops_def)
    next
      case 2
      have "next_hdr s t = hd (l2 @ [base])" using ring_next [OF l sp] .
      then have "bp < next_hdr s t \<or> next_hdr s t = base" using l2 by (cases l2) auto
      then show ?thesis using 2 t tb by (auto simp: stops_def)
    next
      case 3
      then obtain a b where ab: "l2 = a @ x # b" by (auto simp: in_set_conv_decomp)
      then have n: "next_hdr s x = hd (b @ [base])" using ring_next [OF l, of "l1 @ t # a" x b] sp by simp
      have "bp < x" using l2 3 by simp
      moreover from this have "x \<noteq> t" using t by auto
      moreover have "x < next_hdr s x \<or> next_hdr s x = base" using srt ab n by (cases b) (auto simp: sorted_wrt_append)
      moreover have "base < bp" using tb t by simp
      ultimately show ?thesis by (auto simp: stops_def)
    qed
  qed
  note stop = this
  have "freep s \<in> set (base # bs)" using r by (simp add: ring_def)
  then obtain m1 m2 where m: "base # bs = m1 @ freep s # m2" by (meson split_list)
  have "chained s ((freep s # m2 @ m1) @ [freep s])" using ring_from [OF l m] by simp
  then have w: "chained s (freep s # m2 @ m1)" by (rule chained_prefix)
  have e: "set (freep s # m2 @ m1) = set (base # bs)" unfolding m by auto
  have "t \<in> set (base # bs)" unfolding sp by simp
  then show ?thesis using stop unfolding e [symmetric] by (rule find_spot_walk [OF w])
qed

subsection \<open>A block is given back\<close>

lemma ring_split:
  assumes r: "ring base lo s bs hi" and bp: "lo \<le> unat bp" "bp \<notin> set bs"
  obtains l1 t l2 where "base # bs = l1 @ t # l2" "t < bp" "\<And>y. y \<in> set l2 \<Longrightarrow> bp < y"
proof -
  have srt: "sorted_wrt (<) (base # bs)" and b: "base < bp" using r bp(1) by (auto simp: ring_def word_less_nat_alt dest: apart_sorted)
  let ?f = "filter (\<lambda>x. x < bp) bs" and ?g = "filter (\<lambda>x. \<not> x < bp) bs"
  have "bs = ?f @ ?g" using srt
  proof (induction bs)
    case (Cons x xs)
    show ?case
    proof (cases "x < bp")
      case True with Cons show ?thesis by simp
    next
      case False
      then have "filter (\<lambda>x. x < bp) xs = []" using Cons.prems by (auto simp: filter_empty_conv)
      with False Cons show ?thesis by simp
    qed
  qed simp
  then have e: "base # bs = (base # ?f) @ ?g" by simp
  have "base # ?f = butlast (base # ?f) @ [last (base # ?f)]" by (rule append_butlast_last_id [symmetric]) simp
  then have "base # bs = butlast (base # ?f) @ last (base # ?f) # ?g" using e by (metis append.assoc append_Cons append_Nil)
  moreover have "last (base # ?f) \<in> set (base # ?f)" by (rule last_in_set) simp
  then have "last (base # ?f) < bp" using b by auto
  moreover have "bp < y" if "y \<in> set ?g" for y using that bp(2) by auto (metis linorder_neqE)
  ultimately show thesis by (rule that)
qed

text \<open>The sizes of blocks that lie in the heap do not overflow when they are joined.\<close>

lemma join_units:
  assumes "16 * (unat m + unat n) \<le> TOP - 16"
  shows "unat (m + n :: u32) = unat m + unat n"
  using assms by (simp add: unat_word_ariths TOP_def)

lemma extent_disjoint:
  assumes "extent a m \<inter> extent b n = {}" "0 < m" "0 < n" "unat a < unat b"
  shows "unat a + 16 * m \<le> unat b"
proof (rule ccontr)
  assume "\<not> ?thesis"
  then have "unat b \<in> extent a m \<inter> extent b n" using assms by (simp add: extent_def)
  with assms(1) show False by simp
qed

lemma extent_join: "unat b = unat a + 16 * m \<Longrightarrow> extent a m \<union> extent b n = extent a (m + n)"
  by (auto simp: extent_def)

lemma set_append_Cons: "set (xs @ y # ys) = insert y (set xs \<union> set ys)"
  by auto

text \<open>A block that fits into the heap and overlaps no free block, and its place in the ring.\<close>

definition fits :: "nat \<Rightarrow> uheap \<Rightarrow> u64 list \<Rightarrow> nat \<Rightarrow> u64 \<Rightarrow> bool" where
  "fits lo s bs hi bp \<longleftrightarrow> lo \<le> unat bp \<and> 0 < units s bp \<and> unat bp + 16 * units s bp \<le> hi \<and> extent bp (units s bp) \<inter> free_space s bs = {}"

lemma free_space_Cons: "free_space s (a # as) = extent a (units s a) \<union> free_space s as"
  "free_space s [] = {}"
  by (simp_all add: free_space_def)

lemma free_space_append: "free_space s (as @ bs) = free_space s as \<union> free_space s bs"
  by (simp add: free_space_def)

lemma free_space_cong: "(\<And>a. a \<in> set as \<Longrightarrow> units t a = units s a) \<Longrightarrow> free_space t as = free_space s as"
  by (simp add: free_space_def)

lemma fits_new: "ring base lo s bs hi \<Longrightarrow> fits lo s bs hi bp \<Longrightarrow> bp \<notin> set (base # bs)"
  by (fastforce simp: ring_def fits_def free_space_def extent_def)

lemma fits_below:
  assumes "ring base lo s bs hi" "fits lo s bs hi bp" "y \<in> set bs" "bp < y"
  shows "unat bp + 16 * units s bp \<le> unat y"
  using assms by (intro extent_disjoint [of bp _ y "units s y"]) (auto simp: ring_def fits_def free_space_def word_less_nat_alt)

lemma fits_above:
  assumes "ring base lo s bs hi" "fits lo s bs hi bp" "t \<in> set (base # bs)" "t < bp"
  shows "unat t + 16 * units s t \<le> unat bp"
proof (cases "t = base")
  case False
  then show ?thesis using assms by (intro extent_disjoint [of t _ bp "units s bp"]) (auto simp: ring_def fits_def free_space_def word_less_nat_alt)
qed (use assms in \<open>auto simp: ring_def fits_def\<close>)

lemma join_next_ok:
  assumes r: "ring base lo s bs hi" and f: "fits lo s bs hi bp" and sp: "base # bs = l1 @ t # l2" and l2: "\<And>y. y \<in> set l2 \<Longrightarrow> bp < y"
  obtains m n where "chained (join_next bp t s) (bp # m @ [base])" "apart (join_next bp t s) (bp # m)" "units (join_next bp t s) bp = n"
    "units s bp \<le> n" "unat bp + 16 * n \<le> hi" "extent bp n \<union> free_space s m = extent bp (units s bp) \<union> free_space s l2"
    "set m \<subseteq> set l2" "\<And>x. x \<noteq> bp \<Longrightarrow> hdrs (join_next bp t s) x = hdrs s x"
proof -
  let ?s = "join_next bp t s" and ?u = "units s bp"
  have l: "chained s (base # bs @ [base])" and ap: "apart s (base # bs)" using r by (simp_all add: ring_def)
  have fr: "hdrs ?s x = hdrs s x" if "x \<noteq> bp" for x using that by (simp add: join_next_def Let_def set_size_def set_ptr_def)
  then have frn: "next_hdr ?s x = next_hdr s x" "units ?s x = units s x" if "x \<noteq> bp" for x using that by (simp_all add: next_hdr_def units_def)
  have nx: "next_hdr s t = hd (l2 @ [base])" using ring_next [OF l sp] .
  have "chained s (l1 @ t # l2 @ [base])" using l sp by (metis append_Cons append_assoc)
  then have L: "chained s (t # l2 @ [base])" using chained_append [of s l1 t "l2 @ [base]"] by simp
  have A: "apart s (t # l2)" using ap sp apart_append [of s l1 t l2] by simp
  have in_bs: "y \<in> set bs" if "y \<in> set l2" for y
  proof -
    have "y \<in> set (base # bs)" using that sp by simp
    moreover have "y \<noteq> base" using l2 [OF that] r f by (auto simp: ring_def fits_def word_less_nat_alt)
    ultimately show ?thesis by simp
  qed
  have new: "bp \<notin> set (base # bs)" using fits_new [OF r f] .
  have pu: "unat (plus_units bp (hsize (hdrs s bp))) = unat bp + 16 * ?u"
    using unat_plus_units [of bp "hsize (hdrs s bp)"] r f by (simp add: ring_def fits_def units_def)
  show thesis
  proof (cases "plus_units bp (hsize (hdrs s bp)) = next_hdr s t")
    case True
    have "next_hdr s t \<noteq> base" using True pu r f by (auto simp: ring_def fits_def)
    then obtain q m where q: "l2 = q # m" "next_hdr s t = q" using nx by (cases l2) auto
    have q': "q \<in> set bs" "bp \<noteq> q" "unat q = unat bp + 16 * ?u" using in_bs q new True pu by auto
    have j: "16 * (?u + units s q) \<le> TOP - 16" "unat bp + 16 * (?u + units s q) \<le> hi" using q'(1,3) r f by (auto simp: ring_def fits_def)
    have u: "units ?s bp = ?u + units s q" "next_hdr ?s bp = next_hdr s q"
      using True q(2) q'(2) join_units [of "hsize (hdrs s bp)" "hsize (hdrs s q)"] j(1)
      by (simp_all add: join_next_def Let_def units_word)
    have nb: "bp \<notin> set m" using new q(1) in_bs by auto
    have 1: "chained ?s (bp # m @ [base])"
    proof -
      have "chained s (q # m @ [base])" using L q(1) by simp
      then have "next_hdr s q = hd (m @ [base]) \<and> chained s (m @ [base])" by (cases m) auto
      moreover have "chained ?s (m @ [base]) = chained s (m @ [base])" using nb by (intro chained_cong frn) auto
      ultimately show ?thesis using u(2) by (cases m) auto
    qed
    have 2: "apart ?s (bp # m)"
    proof -
      have "apart s (q # m)" using A q(1) by simp
      moreover have "apart ?s m = apart s m" using nb by (intro apart_cong frn) (auto dest: in_set_butlastD)
      ultimately show ?thesis using u(1) q'(3) by (cases m) auto
    qed
    have 3: "extent bp (?u + units s q) \<union> free_space s m = extent bp ?u \<union> free_space s l2"
      using extent_join [OF q'(3), of "units s q"] by (auto simp: q(1) free_space_Cons)
    show thesis by (rule that [OF 1 2 u(1) _ j(2) 3 _ fr]) (use q(1) in auto)
  next
    case False
    then have u: "units ?s bp = ?u" "next_hdr ?s bp = next_hdr s t"
      by (simp_all add: join_next_def units_word)
    have nb: "bp \<notin> set l2" using new in_bs by auto
    have 1: "chained ?s (bp # l2 @ [base])"
    proof -
      have "chained s (l2 @ [base])" using L by (cases l2) auto
      moreover have "chained ?s (l2 @ [base]) = chained s (l2 @ [base])" using nb by (intro chained_cong frn) auto
      ultimately show ?thesis using u(2) nx by (cases l2) auto
    qed
    have 2: "apart ?s (bp # l2)"
    proof (cases l2)
      case (Cons q m)
      have "apart s l2" using A Cons by simp
      moreover have "apart ?s l2 = apart s l2" using nb by (intro apart_cong frn) (auto dest: in_set_butlastD)
      moreover have "unat bp + 16 * ?u \<le> unat q" using fits_below [OF r f in_bs l2] Cons by simp
      moreover have "unat bp + 16 * ?u \<noteq> unat q" using False pu nx Cons by (metis append_Cons list.sel(1) unsigned_word_eqI)
      ultimately show ?thesis using u(1) Cons by simp
    qed simp
    show thesis by (rule that [OF 1 2 u(1) _ _ _ _ fr]) (use f in \<open>auto simp: fits_def\<close>)
  qed
qed

text \<open>The ring up to a header, and new links from there on.\<close>

lemma ring_build:
  assumes r: "ring base lo s bs hi" and sp: "base # bs = l1 @ p # l2" and cs: "base # cs = l1 @ p # rest"
    and t: "freep t \<in> set (base # cs)" "\<And>x. x \<in> set l1 \<Longrightarrow> hdrs t x = hdrs s x" "chained t (p # rest @ [base])" "apart t (p # rest)"
    and u: "p = base \<longrightarrow> units t p = 0" "p \<noteq> base \<longrightarrow> 0 < units t p \<and> unat p + 16 * units t p \<le> hi"
    and rest: "\<And>a. a \<in> set rest \<Longrightarrow> lo \<le> unat a \<and> 0 < units t a \<and> unat a + 16 * units t a \<le> hi"
  shows "ring base lo t cs hi"
proof -
  have same: "next_hdr t x = next_hdr s x" "units t x = units s x" if "x \<in> set l1" for x using t(2) [OF that] by (simp_all add: next_hdr_def units_def)
  have "chained s (l1 @ p # l2 @ [base])" "apart s (l1 @ p # l2)" using r sp unfolding ring_def by (metis append_Cons append_assoc, simp)
  then have "chained s (l1 @ [p])" "apart s (l1 @ [p])" using chained_append [of s l1 p "l2 @ [base]"] apart_append [of s l1 p l2] by simp_all
  moreover have "chained t (l1 @ [p]) = chained s (l1 @ [p])" "apart t (l1 @ [p]) = apart s (l1 @ [p])"
    using same by (intro chained_cong apart_cong; simp)+
  ultimately have "chained t (l1 @ p # rest @ [base])" "apart t (l1 @ p # rest)"
    using t(3,4) chained_append [of t l1 p "rest @ [base]"] apart_append [of t l1 p rest] by simp_all
  then have "chained t (base # cs @ [base])" "apart t (base # cs)" using cs by (metis append_Cons append_assoc, simp)
  moreover have "units t base = 0"
  proof (cases l1)
    case Nil then show ?thesis using sp u(1) by simp
  next
    case (Cons x xs) then show ?thesis using sp same(2) [of base] r by (simp add: ring_def)
  qed
  moreover have "lo \<le> unat a \<and> 0 < units t a \<and> unat a + 16 * units t a \<le> hi" if a: "a \<in> set cs" for a
  proof -
    have "base \<notin> set bs" "base \<notin> set cs" using r apart_distinct [of s "base # bs"] apart_distinct [OF \<open>apart t (base # cs)\<close>] by (auto simp: ring_def)
    then have "a \<noteq> base" using a by auto
    moreover have "a \<in> set (l1 @ p # rest)" using a cs by (metis list.set_intros(2))
    then consider "a \<in> set l1" | "a = p" | "a \<in> set rest" by auto
    then show ?thesis
    proof cases
      case 1
      then have "a \<in> set bs" using sp calculation by (metis Un_iff set_append set_ConsD)
      then show ?thesis using r same(2) [OF 1] by (simp add: ring_def)
    next
      case 2
      then have "p \<in> set bs" using sp calculation by (metis in_set_conv_decomp set_ConsD)
      then show ?thesis using 2 r u(2) calculation by (auto simp: ring_def)
    qed (use rest in simp)
  qed
  ultimately show ?thesis using r t(1) by (simp add: ring_def)
qed

text \<open>A block that has found its place: \<open>w\<close> is the state after the join with the next block, in which it has \<open>n\<close>
  units and is followed by \<open>m\<close>.\<close>

definition placed :: "u64 \<Rightarrow> nat \<Rightarrow> uheap \<Rightarrow> u64 list \<Rightarrow> nat \<Rightarrow> u64 \<Rightarrow> u64 list \<Rightarrow> u64 \<Rightarrow> u64 list \<Rightarrow> u64 list \<Rightarrow> nat \<Rightarrow> uheap \<Rightarrow> bool" where
  "placed base lo s bs hi bp l1 p l2 m n w \<longleftrightarrow>
     base # bs = l1 @ p # l2 \<and> chained w (bp # m @ [base]) \<and> apart w (bp # m) \<and> units w bp = n \<and> 0 < n \<and> units s bp \<le> n \<and>
     unat bp + 16 * n \<le> hi \<and> (\<forall>x. x \<noteq> bp \<longrightarrow> hdrs w x = hdrs s x) \<and> bp \<notin> set (p # m) \<and> p \<notin> set m \<and> set l1 \<inter> {p, bp} = {} \<and>
     (\<forall>a \<in> set m. lo \<le> unat a \<and> 0 < units s a \<and> unat a + 16 * units s a \<le> hi) \<and> unat p + 16 * units s p \<le> unat bp \<and>
     free_space s bs \<union> extent bp (units s bp) = free_space s (l1 @ [p]) \<union> (extent bp n \<union> free_space s m)"

lemma placedD:
  assumes "placed base lo s bs hi bp l1 p l2 m n w"
  shows "base # bs = l1 @ p # l2" "chained w (bp # m @ [base])" "apart w (bp # m)" "units w bp = n" "0 < n" "units s bp \<le> n" "unat bp + 16 * n \<le> hi"
    "x \<noteq> bp \<Longrightarrow> hdrs w x = hdrs s x" "bp \<notin> set (p # m)" "p \<notin> set m" "set l1 \<inter> {p, bp} = {}"
    "a \<in> set m \<Longrightarrow> lo \<le> unat a \<and> 0 < units s a \<and> unat a + 16 * units s a \<le> hi" "unat p + 16 * units s p \<le> unat bp"
    "free_space s bs \<union> extent bp (units s bp) = free_space s (l1 @ [p]) \<union> (extent bp n \<union> free_space s m)"
  using assms unfolding placed_def by simp_all

lemma place_block:
  assumes r: "ring base lo s bs hi" and f: "fits lo s bs hi bp"
  obtains l1 p l2 m n where "find_spot bp (freep s) s = Some p" "placed base lo s bs hi bp l1 p l2 m n (join_next bp p s)"
proof -
  have new: "bp \<notin> set bs" "bp \<noteq> base" using fits_new [OF r f] by auto
  obtain l1 p l2 where sp: "base # bs = l1 @ p # l2" "p < bp" "\<And>y. y \<in> set l2 \<Longrightarrow> bp < y"
    using ring_split [OF r _ new(1)] f by (auto simp: fits_def)
  let ?s = "join_next bp p s"
  obtain m n where m: "chained ?s (bp # m @ [base])" "apart ?s (bp # m)" "units ?s bp = n" "units s bp \<le> n" "unat bp + 16 * n \<le> hi"
    "extent bp n \<union> free_space s m = extent bp (units s bp) \<union> free_space s l2" "set m \<subseteq> set l2" "\<And>x. x \<noteq> bp \<Longrightarrow> hdrs ?s x = hdrs s x"
    using join_next_ok [OF r f sp(1,3)] by metis
  have srt: "sorted_wrt (<) (l1 @ p # l2)" and b0: "units s base = 0" "unat base < lo" using r apart_sorted [of s "base # bs"] by (auto simp: ring_def sp(1))
  have bb: "bp > base" using b0(2) f by (simp add: fits_def word_less_nat_alt)
  have bm: "bp \<notin> set (p # m)" "base \<notin> set m" using sp(2,3) m(7) bb by (auto, force)
  have pm: "p \<notin> set m" "p \<notin> set l1" using srt m(7) by (auto simp: sorted_wrt_append)
  have "set l1 \<subseteq> set (base # bs)" unfolding sp(1) by auto
  then have "set l1 \<inter> {p, bp} = {}" using fits_new [OF r f] pm(2) by auto
  moreover have "lo \<le> unat a \<and> 0 < units s a \<and> unat a + 16 * units s a \<le> hi" if "a \<in> set m" for a
  proof -
    have "a \<in> set (base # bs)" unfolding sp(1) using that m(7) by auto
    then show ?thesis using r bm(2) that by (auto simp: ring_def)
  qed
  moreover have "free_space s bs = free_space s (l1 @ [p]) \<union> free_space s l2"
  proof -
    have "free_space s bs = free_space s (base # bs)" using b0(1) by (simp add: free_space_Cons extent_def)
    then show ?thesis unfolding sp(1) by (auto simp: free_space_append free_space_Cons)
  qed
  then have "free_space s bs \<union> extent bp (units s bp) = free_space s (l1 @ [p]) \<union> (extent bp n \<union> free_space s m)" using m(6) by auto
  moreover have "unat p + 16 * units s p \<le> unat bp" using fits_above [OF r f _ sp(2)] sp(1) by simp
  moreover have "0 < n" using m(4) f by (simp add: fits_def)
  ultimately have "placed base lo s bs hi bp l1 p l2 m n ?s" using sp(1) m bm(1) pm(1) by (simp add: placed_def)
  moreover have "find_spot bp (freep s) s = Some p" by (rule find_spot_ring [OF r sp])
  ultimately show thesis by (rule that [rotated])
qed

text \<open>The second join changes one header only.\<close>

lemma join_prev_frame:
  assumes "placed base lo s bs hi bp l1 p l2 m n w"
  defines "t \<equiv> (join_prev bp p w)\<lparr>freep := p\<rparr>"
  shows "x \<noteq> p \<Longrightarrow> hdrs t x = hdrs w x" "x \<in> set l1 \<Longrightarrow> hdrs t x = hdrs s x" "x \<in> set (bp # m) \<Longrightarrow> next_hdr t x = next_hdr w x \<and> units t x = units w x"
    "free_space t l1 = free_space s l1" "free_space t m = free_space s m"
    "a \<in> set m \<Longrightarrow> lo \<le> unat a \<and> 0 < units t a \<and> unat a + 16 * units t a \<le> hi"
    "hi \<le> TOP \<Longrightarrow> plus_units p (hsize (hdrs w p)) = bp \<longleftrightarrow> unat p + 16 * units s p = unat bp" "units w p = units s p"
proof -
  note P = placedD [OF assms(1)]
  show t: "hdrs t x = hdrs w x" if "x \<noteq> p" for x using that by (simp add: t_def join_prev_def Let_def set_size_def set_ptr_def)
  show l: "hdrs t x = hdrs s x" if "x \<in> set l1" for x
  proof -
    have "x \<noteq> p" "x \<noteq> bp" using that P(11) by auto
    then show ?thesis using t P(8) by simp
  qed
  have m: "hdrs t x = hdrs s x" if "x \<in> set m" for x
  proof -
    have "x \<noteq> p" "x \<noteq> bp" using that P(9,10) by auto
    then show ?thesis using t P(8) by simp
  qed
  show "next_hdr t x = next_hdr w x \<and> units t x = units w x" if "x \<in> set (bp # m)"
  proof -
    have "x \<noteq> p" using that P(9,10) by auto
    then show ?thesis using t by (simp add: next_hdr_def units_def)
  qed
  show "free_space t l1 = free_space s l1" "free_space t m = free_space s m" using l m by (auto simp: units_def intro!: free_space_cong)
  show "lo \<le> unat a \<and> 0 < units t a \<and> unat a + 16 * units t a \<le> hi" if "a \<in> set m" using P(12) [OF that] m [OF that] by (simp add: units_def)
  have p: "hdrs w p = hdrs s p" using P(8,9) by auto
  then show "units w p = units s p" by (simp add: units_def)
  assume "hi \<le> TOP"
  then have "unat (plus_units p (hsize (hdrs s p))) = unat p + 16 * units s p"
    using unat_plus_units [of p "hsize (hdrs s p)"] P(7,13) by (simp add: units_def)
  then show "plus_units p (hsize (hdrs w p)) = bp \<longleftrightarrow> unat p + 16 * units s p = unat bp" unfolding p by (metis unsigned_word_eqI)
qed

lemma joined_ok:
  assumes r: "ring base lo s bs hi" and P: "placed base lo s bs hi bp l1 p l2 m n w" and e: "unat p + 16 * units s p = unat bp" and b: "lo \<le> unat bp"
  defines "t \<equiv> (join_prev bp p w)\<lparr>freep := p\<rparr>"
  obtains cs where "ring base lo t cs hi" "free_space t cs = free_space s bs \<union> extent bp (units s bp)" "\<exists>a \<in> set cs. units s bp \<le> units t a"
proof -
  note D = placedD [OF P] and F = join_prev_frame [OF P, folded t_def]
  have hi: "hi \<le> TOP" "lo \<ge> 16" and b0: "units s base = 0" "unat base < lo" using r by (auto simp: ring_def)
  have j: "plus_units p (hsize (hdrs w p)) = bp" using F(7) hi(1) e by simp
  have pb: "p \<noteq> base" using e b0 b by auto
  then obtain cs where cs: "base # cs = l1 @ p # m" using D(1) by (cases l1) auto
  have "16 * (units s p + n) \<le> TOP - 16" using e D(7) hi pb r D(1) by (cases l1) (auto simp: ring_def)
  then have "unat (hsize (hdrs w p) + hsize (hdrs w bp)) = units s p + n" using D(4) F(8) join_units by (simp add: units_def)
  then have t: "next_hdr t p = next_hdr w bp" "units t p = units s p + n" using j D(9) by (auto simp: t_def join_prev_def Let_def units_word)
  have R: "ring base lo t cs hi"
  proof (rule ring_build [OF r D(1) cs])
    show "freep t \<in> set (base # cs)" unfolding cs by (simp add: t_def)
    have "chained t (m @ [base]) = chained w (m @ [base])" by (rule chained_cong) (use F(3) in simp)
    moreover have "apart t m = apart w m" by (rule apart_cong) (use F(3) in \<open>auto dest: in_set_butlastD\<close>)
    ultimately show "chained t (p # m @ [base])" "apart t (p # m)" using D(2-4) t(1,2) e by (cases m; simp; fail)+
  qed (use F(2,6) pb t(2) e D(5,7) in auto)
  then have "units t base = 0" by (simp add: ring_def)
  then have "free_space t cs = free_space t (base # cs)" by (simp add: free_space_Cons extent_def)
  also have "\<dots> = free_space s l1 \<union> extent p (units s p + n) \<union> free_space s m" unfolding cs using F(4,5) t(2) by (auto simp: free_space_append free_space_Cons)
  also have "\<dots> = free_space s (l1 @ [p]) \<union> (extent bp n \<union> free_space s m)"
    using extent_join [OF e [symmetric], of n] by (auto simp: free_space_append free_space_Cons)
  finally have fs: "free_space t cs = free_space s bs \<union> extent bp (units s bp)" using D(14) by simp
  have "p \<in> set (base # cs)" unfolding cs by simp
  then have "\<exists>a \<in> set cs. units s bp \<le> units t a" using pb t(2) D(6) by (intro bexI [of _ p]) auto
  with R fs show thesis by (rule that)
qed

lemma separate_ok:
  assumes r: "ring base lo s bs hi" and P: "placed base lo s bs hi bp l1 p l2 m n w" and e: "unat p + 16 * units s p \<noteq> unat bp" and b: "lo \<le> unat bp"
  defines "t \<equiv> (join_prev bp p w)\<lparr>freep := p\<rparr>"
  obtains cs where "ring base lo t cs hi" "free_space t cs = free_space s bs \<union> extent bp (units s bp)" "\<exists>a \<in> set cs. units s bp \<le> units t a"
proof -
  note D = placedD [OF P] and F = join_prev_frame [OF P, folded t_def]
  have hi: "hi \<le> TOP" and b0: "units s base = 0" "unat base < lo" using r by (auto simp: ring_def)
  have "plus_units p (hsize (hdrs w p)) \<noteq> bp" using F(7) hi e by simp
  then have t: "next_hdr t p = bp" "units t p = units s p" using D(9) F(8) by (auto simp: t_def join_prev_def Let_def units_word)
  have tb: "units t bp = n" using F(3) [of bp] D(4) by simp
  obtain cs where cs: "base # cs = l1 @ p # bp # m" using D(1) by (cases l1) auto
  have R: "ring base lo t cs hi"
  proof (rule ring_build [OF r D(1) cs])
    show "freep t \<in> set (base # cs)" unfolding cs by (simp add: t_def)
    have "chained t (bp # m @ [base]) = chained w (bp # m @ [base])" by (rule chained_cong) (metis F(3) butlast_snoc append_Cons)
    moreover have "apart t (bp # m) = apart w (bp # m)" by (rule apart_cong) (metis F(3) in_set_butlastD)
    ultimately show "chained t (p # (bp # m) @ [base])" "apart t (p # bp # m)" using D(2,3,13) t(1,2) e by simp_all
    show "lo \<le> unat a \<and> 0 < units t a \<and> unat a + 16 * units t a \<le> hi" if a: "a \<in> set (bp # m)" for a
      using F(6) [of a] a tb D(5,7) b by auto
    show "p = base \<longrightarrow> units t p = 0" using t(2) b0(1) by (intro impI) simp
    have "p \<in> set (base # bs)" unfolding D(1) by simp
    then show "p \<noteq> base \<longrightarrow> 0 < units t p \<and> unat p + 16 * units t p \<le> hi" using r t(2) by (auto simp: ring_def)
  qed (rule F(2))
  then have "units t base = 0" by (simp add: ring_def)
  then have "free_space t cs = free_space t (base # cs)" by (simp add: free_space_Cons extent_def)
  also have "\<dots> = free_space s (l1 @ [p]) \<union> (extent bp n \<union> free_space s m)" unfolding cs using F(4,5) t(2) tb by (auto simp: free_space_append free_space_Cons)
  finally have fs: "free_space t cs = free_space s bs \<union> extent bp (units s bp)" using D(14) by simp
  have "bp \<in> set (base # cs)" unfolding cs by simp
  moreover have "bp \<noteq> base" using b b0(2) by auto
  ultimately have "\<exists>a \<in> set cs. units s bp \<le> units t a" using tb D(6) by (intro bexI [of _ bp]) auto
  with R fs show thesis by (rule that)
qed

text \<open>What a release does to the ring.\<close>

lemma ufree_ok:
  assumes r: "ring base lo s bs hi" and f: "fits lo s bs hi bp"
  obtains t cs where "ufree (bp + 16) s = Some t" "ring base lo t cs hi" "free_space t cs = free_space s bs \<union> extent bp (units s bp)"
    "brk t = brk s" "\<And>x. x \<notin> set (base # bs) \<Longrightarrow> x \<noteq> bp \<Longrightarrow> hdrs t x = hdrs s x" "\<exists>a \<in> set cs. units s bp \<le> units t a"
proof -
  obtain l1 p l2 m n where fs: "find_spot bp (freep s) s = Some p" and P: "placed base lo s bs hi bp l1 p l2 m n (join_next bp p s)"
    by (rule place_block [OF r f])
  let ?t = "(join_prev bp p (join_next bp p s))\<lparr>freep := p\<rparr>"
  have lo: "lo \<le> unat bp" using f by (simp add: fits_def)
  obtain cs where cs: "ring base lo ?t cs hi" "free_space ?t cs = free_space s bs \<union> extent bp (units s bp)" "\<exists>a \<in> set cs. units s bp \<le> units ?t a"
    by (cases "unat p + 16 * units s p = unat bp") (blast intro: joined_ok [OF r P _ lo] separate_ok [OF r P _ lo])+
  have "hdrs ?t x = hdrs s x" if "x \<notin> set (base # bs)" "x \<noteq> bp" for x
  proof -
    have "x \<noteq> p" using that(1) placedD(1) [OF P] by auto
    then show ?thesis using join_prev_frame(1) [OF P] placedD(8) [OF P that(2)] by simp
  qed
  moreover have "ufree (bp + 16) s = Some ?t" "brk ?t = brk s" using fs by (simp_all add: ufree_def join_prev_def join_next_def Let_def)
  ultimately show thesis using that [of ?t cs] cs by blast
qed

subsection \<open>A block is taken out\<close>

lemma apart_disjoint:
  assumes "apart s xs" "a \<in> set xs" "b \<in> set xs" "a \<noteq> b"
  shows "extent a (units s a) \<inter> extent b (units s b) = {}"
proof -
  have *: "extent x (units s x) \<inter> extent y (units s y) = {}" if xy: "x \<in> set xs" "y \<in> set xs" "x < y" for x y
  proof -
    obtain l1 l2 where l: "xs = l1 @ x # l2" using split_list [OF xy(1)] by blast
    have "y \<in> set l2" using xy apart_sorted [OF assms(1)] l by (auto simp: sorted_wrt_append)
    moreover have "apart s (x # l2)" using assms(1) l apart_append [of s l1 x l2] by simp
    ultimately have "unat x + 16 * units s x < unat y" by (rule apart_below [rotated])
    then show ?thesis by (auto simp: extent_def)
  qed
  show ?thesis using assms(2-4) * [of a b] * [of b a] by (cases a b rule: linorder_cases) auto
qed

lemma ring_distinct: "ring base lo s bs hi \<Longrightarrow> distinct (base # bs)"
  using apart_distinct [of s "base # bs"] unfolding ring_def by blast

text \<open>The header whose next one is given.\<close>

lemma ring_before:
  assumes r: "ring base lo s bs hi" and t: "t \<in> set (base # bs)" "next_hdr s t = y" "y \<in> set bs"
  obtains l1 b2 where "base # bs = l1 @ t # y # b2"
proof -
  have l: "chained s (base # bs @ [base])" and "distinct (base # bs)" using r ring_distinct by (auto simp only: ring_def)
  then have "y \<noteq> base" using t(3) by auto
  obtain l1 l2 where sp: "base # bs = l1 @ t # l2" using t(1) by (meson split_list)
  then have "hd (l2 @ [base]) = y" using ring_next [OF l sp] t(2) by simp
  then obtain b2 where "l2 = y # b2" using \<open>y \<noteq> base\<close> by (cases l2) auto
  with sp that show thesis by blast
qed

lemma ring_pair:
  assumes r: "ring base lo s bs hi" and t: "t \<in> set (base # bs)" "next_hdr s t = y" "y \<in> set bs"
  obtains l1 b2 where "base # bs = l1 @ t # y # b2" "distinct (l1 @ t # y # b2)" "chained s (y # b2 @ [base])"
    "unat t + 16 * units s t < unat y" "apart s (y # b2)" "set b2 \<subseteq> set bs"
    "free_space s bs = free_space s l1 \<union> extent t (units s t) \<union> extent y (units s y) \<union> free_space s b2"
    "extent y (units s y) \<inter> (free_space s l1 \<union> extent t (units s t) \<union> free_space s b2) = {}"
proof -
  obtain l1 b2 where sp: "base # bs = l1 @ t # y # b2" by (rule ring_before [OF r t])
  have l: "chained s (base # bs @ [base])" and ap: "apart s (l1 @ t # y # b2)" and d: "distinct (l1 @ t # y # b2)" and b0: "units s base = 0"
    using r ring_distinct [OF r] unfolding sp [symmetric] by (simp_all add: ring_def)
  have "chained s (l1 @ t # (y # b2) @ [base])" using l sp by (metis append_Cons append_assoc)
  then have "chained s (y # b2 @ [base])" using chained_append [of s l1 t "(y # b2) @ [base]"] by simp_all
  moreover have "unat t + 16 * units s t < unat y" "apart s (y # b2)" using ap apart_append [of s l1 t "y # b2"] by simp_all
  moreover have "free_space s bs = free_space s (base # bs)" using b0 by (simp add: free_space_Cons extent_def)
  then have "free_space s bs = free_space s l1 \<union> extent t (units s t) \<union> extent y (units s y) \<union> free_space s b2"
    unfolding sp by (auto simp: free_space_append free_space_Cons)
  moreover have "extent y (units s y) \<inter> (free_space s l1 \<union> extent t (units s t) \<union> free_space s b2) = {}"
    using apart_disjoint [OF ap, of y] d by (auto simp: free_space_def)
  moreover have "set b2 \<subseteq> set bs"
  proof
    fix b assume "b \<in> set b2"
    then have "b \<in> set (base # bs)" unfolding sp by simp
    moreover have "b \<noteq> base" using d sp \<open>b \<in> set b2\<close> by (cases l1) auto
    ultimately show "b \<in> set bs" by simp
  qed
  ultimately show thesis using sp d by (intro that)
qed

text \<open>What is said of a block taken out.\<close>

definition taken_out :: "u64 \<Rightarrow> nat \<Rightarrow> uheap \<Rightarrow> u64 list \<Rightarrow> nat \<Rightarrow> nat \<Rightarrow> u64 \<Rightarrow> uheap \<Rightarrow> u64 list \<Rightarrow> bool" where
  "taken_out base lo s bs hi n a u cs \<longleftrightarrow>
     ring base lo u cs hi \<and> extent a n \<subseteq> free_space s bs \<and> free_space u cs = free_space s bs - extent a n \<and> units u a = n \<and>
     lo \<le> unat a \<and> unat a + 16 * n \<le> hi \<and> brk u = brk s \<and> (\<forall>x. x \<notin> set (base # bs) \<longrightarrow> x \<noteq> a \<longrightarrow> hdrs u x = hdrs s x)"

lemma carve_all:
  assumes r: "ring base lo s bs hi" and t: "t \<in> set (base # bs)" "next_hdr s t = y" "y \<in> set bs"
  defines "u \<equiv> (set_ptr t (next_hdr s y) s)\<lparr>freep := t\<rparr>"
  obtains cs where "taken_out base lo s bs hi (units s y) y u cs"
proof -
  obtain l1 b2 where sp: "base # bs = l1 @ t # y # b2" "distinct (l1 @ t # y # b2)" "chained s (y # b2 @ [base])"
    "unat t + 16 * units s t < unat y" "apart s (y # b2)" "set b2 \<subseteq> set bs"
    and F: "free_space s bs = free_space s l1 \<union> extent t (units s t) \<union> extent y (units s y) \<union> free_space s b2"
    and dis: "extent y (units s y) \<inter> (free_space s l1 \<union> extent t (units s t) \<union> free_space s b2) = {}" by (rule ring_pair [OF r t])
  have bs: "lo \<le> unat a \<and> 0 < units s a \<and> unat a + 16 * units s a \<le> hi" if "a \<in> set bs" for a using r that by (simp add: ring_def)
  have b0: "units s base = 0" using r by (simp add: ring_def)
  have tb: "t \<noteq> base \<Longrightarrow> t \<in> set bs" using t(1) by auto
  obtain cs where cs: "base # cs = l1 @ t # b2" using sp(1) by (cases l1) auto
  have "chained s (b2 @ [base]) \<and> next_hdr s y = hd (b2 @ [base])" using sp(3) by (cases b2) auto
  moreover have "chained u (b2 @ [base]) = chained s (b2 @ [base])" using sp(2) by (intro chained_cong) (auto simp: u_def)
  ultimately have lu: "chained u (t # b2 @ [base])" by (cases b2) (auto simp: u_def)
  have un: "units u x = units s x" for x by (simp add: u_def)
  then have "apart u b2 = apart s b2" by (intro apart_cong)
  then have au: "apart u (t # b2)" using sp(4,5) un by (cases b2) auto
  have R: "ring base lo u cs hi"
  proof (rule ring_build [OF r sp(1) cs])
    show "freep u \<in> set (base # cs)" unfolding cs by (simp add: u_def)
    show "hdrs u x = hdrs s x" if "x \<in> set l1" for x using that sp(2) by (auto simp: u_def set_ptr_def)
  qed (use lu au bs sp(6) tb b0 in \<open>auto simp: u_def\<close>)
  have "free_space u cs = free_space u (base # cs)" using b0 by (simp add: u_def free_space_Cons extent_def)
  also have "\<dots> = free_space s l1 \<union> extent t (units s t) \<union> free_space s b2" unfolding cs
    by (auto simp: u_def free_space_append free_space_Cons) (auto simp: free_space_def)
  finally have "free_space u cs = free_space s bs - extent y (units s y)" using F dis by auto
  moreover have "extent y (units s y) \<subseteq> free_space s bs" using F by auto
  moreover have "hdrs u x = hdrs s x" if "x \<notin> set (base # bs)" for x using that t(1) by (auto simp: u_def set_ptr_def)
  ultimately have "taken_out base lo s bs hi (units s y) y u cs" using R bs [OF t(3)] by (auto simp: taken_out_def u_def)
  then show thesis by (rule that)
qed

text \<open>The end of a larger block.\<close>

lemma tail_outside:
  assumes r: "ring base lo s bs hi" and y: "y \<in> set bs" and a: "unat y < unat a" "unat a < unat y + 16 * units s y"
  shows "a \<notin> set (base # bs)"
proof
  assume in_ring: "a \<in> set (base # bs)"
  have bs: "lo \<le> unat x \<and> 0 < units s x" if "x \<in> set bs" for x using r that by (simp add: ring_def)
  have "a \<noteq> base" using a bs [OF y] r by (auto simp: ring_def)
  then have "a \<in> set bs" using in_ring by simp
  have "apart s (base # bs)" using r by (simp add: ring_def)
  then have "extent y (units s y) \<inter> extent a (units s a) = {}" by (rule apart_disjoint) (use y in_ring a in auto)
  moreover have "unat a \<in> extent y (units s y) \<inter> extent a (units s a)" using a bs [OF \<open>a \<in> set bs\<close>] by (auto simp: extent_def)
  ultimately show False by simp
qed

lemma carve_end:
  assumes r: "ring base lo s bs hi" and t: "t \<in> set (base # bs)" "next_hdr s t = y" "y \<in> set bs"
    and k: "0 < unat k" "unat k + unat n = units s y" "0 < unat n"
  defines "a \<equiv> plus_units y k"
  defines "u \<equiv> (set_size a n (set_size y k s))\<lparr>freep := t\<rparr>"
  shows "taken_out base lo s bs hi (unat n) a u bs"
proof -
  obtain l1 b2 where sp: "base # bs = l1 @ t # y # b2" "distinct (l1 @ t # y # b2)" "chained s (y # b2 @ [base])"
    "unat t + 16 * units s t < unat y" "apart s (y # b2)" "set b2 \<subseteq> set bs"
    and F: "free_space s bs = free_space s l1 \<union> extent t (units s t) \<union> extent y (units s y) \<union> free_space s b2"
    and dis: "extent y (units s y) \<inter> (free_space s l1 \<union> extent t (units s t) \<union> free_space s b2) = {}" by (rule ring_pair [OF r t])
  have bs: "lo \<le> unat x \<and> 0 < units s x \<and> unat x + 16 * units s x \<le> hi" if "x \<in> set bs" for x using r that by (simp add: ring_def)
  have b0: "units s base = 0" "base \<noteq> y" "hi \<le> TOP" using r ring_distinct [OF r] t(3) by (auto simp: ring_def)
  have "unat y + 16 * unat k \<le> TOP" using bs [OF t(3)] b0(3) k(2) by linarith
  then have a: "unat a = unat y + 16 * unat k" unfolding a_def by (rule unat_plus_units)
  have out: "a \<notin> set (base # bs)" by (rule tail_outside [OF r t(3)]) (use a k in auto)
  have same: "units u x = units s x" "next_hdr u x = next_hdr s x" "hdrs u x = hdrs s x" if x: "x \<in> set (base # bs)" "x \<noteq> y" for x
  proof -
    have "x \<noteq> a" using x(1) out by auto
    then show "units u x = units s x" "next_hdr u x = next_hdr s x" "hdrs u x = hdrs s x" using x(2) by (simp_all add: u_def) (simp add: set_size_def)
  qed
  have "y \<noteq> a" using out t(3) by auto
  then have uy: "units u y = unat k" "next_hdr u y = next_hdr s y" by (auto simp: u_def)
  have in_ring: "x \<in> set (base # bs)" "x \<noteq> y" if "x \<in> insert t (set l1 \<union> set b2)" for x using that sp(2) unfolding sp(1) by auto
  have sp': "base # bs = (l1 @ [t]) @ y # b2" using sp(1) by simp
  have R: "ring base lo u bs hi"
  proof (rule ring_build [OF r sp' sp'])
    show "freep u \<in> set (base # bs)" using t(1) by (simp add: u_def)
    show "hdrs u x = hdrs s x" if "x \<in> set (l1 @ [t])" for x by (rule same(3)) (use in_ring [of x] that in auto)
    have "apart u b2 = apart s b2" by (rule apart_cong, rule same(1)) (use in_ring in \<open>auto dest!: in_set_butlastD\<close>)
    then show "apart u (y # b2)" using sp(5) uy(1) k(2) by (cases b2) auto
    have "next_hdr u x = next_hdr s x" for x by (simp add: u_def)
    then have "chained u (y # b2 @ [base]) = chained s (y # b2 @ [base])" by (intro chained_cong)
    then show "chained u (y # b2 @ [base])" using sp(3) by simp
    show "y = base \<longrightarrow> units u y = 0" using b0(2) by simp
    show "y \<noteq> base \<longrightarrow> 0 < units u y \<and> unat y + 16 * units u y \<le> hi" using uy(1) k bs [OF t(3)] by simp
    show "lo \<le> unat b \<and> 0 < units u b \<and> unat b + 16 * units u b \<le> hi" if "b \<in> set b2" for b
      using same(1) [of b] bs [of b] in_ring [of b] sp(6) that by auto
  qed
  have "free_space u l1 = free_space s l1" by (rule free_space_cong, rule same(1)) (use in_ring in auto)
  moreover have "free_space u b2 = free_space s b2" by (rule free_space_cong, rule same(1)) (use in_ring in auto)
  moreover have "units u t = units s t" by (rule same(1)) (use in_ring in auto)
  moreover have "units u base = 0" using R by (simp add: ring_def)
  then have "free_space u bs = free_space u (base # bs)" by (simp add: free_space_Cons extent_def)
  ultimately have fu: "free_space u bs = free_space s l1 \<union> extent t (units s t) \<union> extent y (unat k) \<union> free_space s b2"
    unfolding sp(1) using uy(1) by (auto simp: free_space_append free_space_Cons)
  have e: "extent y (units s y) = extent y (unat k) \<union> extent a (unat n)" "extent y (unat k) \<inter> extent a (unat n) = {}"
    using extent_join [OF a, of "unat n"] k(2) a by (auto simp: extent_def)
  have "free_space u bs = free_space s bs - extent a (unat n)" "extent a (unat n) \<subseteq> free_space s bs" using fu F dis e by auto
  moreover have "hdrs u x = hdrs s x" if "x \<notin> set (base # bs)" "x \<noteq> a" for x using that t(3) by (auto simp: u_def set_size_def)
  moreover have "units u a = unat n" "brk u = brk s" by (simp_all add: u_def)
  ultimately show ?thesis using R a bs [OF t(3)] k(2) by (simp add: taken_out_def)
qed

lemma carve_ok:
  assumes r: "ring base lo s bs hi" and t: "t \<in> set (base # bs)" "next_hdr s t = y" "y \<in> set bs" and n: "0 < unat n" "unat n \<le> units s y"
  obtains a u cs where "carve n t y s = (a + 16, u)" "taken_out base lo s bs hi (unat n) a u cs"
proof (cases "hsize (hdrs s y) = n")
  case True
  then have "carve n t y s = (y + 16, (set_ptr t (next_hdr s y) s)\<lparr>freep := t\<rparr>)" "units s y = unat n"
    by (simp_all add: carve_def units_word) (simp add: units_def)
  then show thesis using carve_all [OF r t] that by metis
next
  case False
  let ?k = "hsize (hdrs s y) - n"
  have k: "unat ?k = units s y - unat n" using n(2) by (simp add: units_def unat_sub word_le_nat_alt)
  have lt: "unat n < units s y" using n(2) False by (metis le_neq_implies_less units_def unsigned_word_eqI)
  have "carve n t y s = (plus_units y ?k + 16, (set_size (plus_units y ?k) n (set_size y ?k s))\<lparr>freep := t\<rparr>)"
    using False by (simp add: carve_def Let_def set_size_def)
  then show thesis using carve_end [OF r t, of ?k n] k lt n that by fastforce
qed

end
