(* ===== verification/User_Malloc_Props.thy ===== *)
theory User_Malloc_Props
  imports User_Malloc_Inv
begin

text \<open>
  The allocator as its users see it: the heap is divided exactly into free space and the blocks handed out, whatever
  the order of \<open>malloc\<close>, \<open>free\<close> and stores into the blocks.
\<close>

subsection \<open>The search\<close>

lemma malloc_walk:
  assumes "chained s (p # zs @ [y])" "\<And>z. z \<in> set zs \<Longrightarrow> units s z < unat n \<and> z \<noteq> freep s"
  shows "malloc_loop g n p (hd (zs @ [y])) s = malloc_loop g n (last (p # zs)) y s"
  using assms
proof (induction zs arbitrary: p)
  case (Cons z zs)
  have "malloc_loop g n p z s = malloc_loop g n z (hptr (hdrs s z)) s"
    using Cons.prems(2) [of z] by (subst malloc_loop.simps) (simp add: units_def word_le_nat_alt)
  moreover have "hptr (hdrs s z) = hd (zs @ [y])" using Cons.prems(1) by (cases zs) (auto simp: next_hdr_def)
  moreover have "chained s (z # zs @ [y])" using Cons.prems(1) by simp
  ultimately show ?case using Cons.IH [of z] Cons.prems(2) by simp
qed simp

lemma malloc_finds:
  assumes r: "ring base lo s bs hi" and n: "0 < unat n" and big: "\<exists>a \<in> set bs. unat n \<le> units s a"
  obtains t y where "t \<in> set (base # bs)" "next_hdr s t = y" "y \<in> set bs" "unat n \<le> units s y"
    "malloc_loop g n (freep s) (next_hdr s (freep s)) s = Some (carve n t y s)"
proof -
  have l: "chained s (base # bs @ [base])" and b0: "units s base = 0" and "freep s \<in> set (base # bs)" using r by (simp_all add: ring_def)
  then obtain l1 l2 where sp: "base # bs = l1 @ freep s # l2" by (meson split_list)
  have L: "chained s (freep s # (l2 @ l1) @ [freep s])" using ring_from [OF l sp] by simp
  have d: "freep s \<notin> set (l2 @ l1)" using ring_distinct [OF r] unfolding sp by auto
  have all: "set ((l2 @ l1) @ [freep s]) = set (base # bs)" unfolding sp by auto
  have "\<exists>a \<in> set ((l2 @ l1) @ [freep s]). unat n \<le> units s a" unfolding all using big by auto
  then obtain zs y rest where w: "(l2 @ l1) @ [freep s] = zs @ y # rest" "unat n \<le> units s y" "\<forall>z \<in> set zs. \<not> unat n \<le> units s z"
    using split_list_first_prop [of "(l2 @ l1) @ [freep s]" "\<lambda>a. unat n \<le> units s a"] by blast
  have zs: "z \<noteq> freep s" if "z \<in> set zs" for z
  proof -
    have "z \<in> set (butlast (zs @ y # rest))" using that by (auto simp: butlast_append)
    then have "z \<in> set (l2 @ l1)" unfolding w(1) [symmetric] butlast_snoc .
    then show ?thesis using d by auto
  qed
  have L': "chained s ((freep s # zs @ [y]) @ rest)" using L w(1) by simp
  then have "chained s (freep s # zs @ [y])" by (rule chained_prefix)
  moreover from this have "next_hdr s (freep s) = hd (zs @ [y])" by (cases zs) auto
  ultimately have "malloc_loop g n (freep s) (next_hdr s (freep s)) s = malloc_loop g n (last (freep s # zs)) y s"
    using malloc_walk [of s "freep s" zs y n g] w(3) zs by (simp add: not_le)
  also have "\<dots> = Some (carve n (last (freep s # zs)) y s)" using w(2) by (subst malloc_loop.simps) (simp add: units_def word_le_nat_alt)
  finally have e: "malloc_loop g n (freep s) (next_hdr s (freep s)) s = Some (carve n (last (freep s # zs)) y s)" .
  have "freep s # zs = butlast (freep s # zs) @ [last (freep s # zs)]" by (metis append_butlast_last_id list.distinct(1))
  then have "chained s (butlast (freep s # zs) @ last (freep s # zs) # y # rest)" using L' by (metis append.assoc append_Cons append_Nil)
  then have nx: "next_hdr s (last (freep s # zs)) = y" using chained_append [of s "butlast (freep s # zs)" _ "y # rest"] by simp
  have "set (freep s # zs) \<subseteq> set ((l2 @ l1) @ [freep s])" unfolding w(1) using w(1) by (metis UnCI insert_subset list.set(2) set_append subsetI in_set_conv_decomp last_in_set snoc_eq_iff_butlast)
  then have t: "last (freep s # zs) \<in> set (base # bs)" using all last_in_set [of "freep s # zs"] by blast
  have "y \<in> set (base # bs)" unfolding all [symmetric] w(1) by simp
  then have "y \<in> set bs" using w(2) n b0 by auto
  with t nx w(2) e show thesis by (intro that)
qed

lemma malloc_misses:
  assumes r: "ring base lo s bs hi" and n: "0 < unat n" and small: "\<forall>a \<in> set bs. units s a < unat n"
  shows "malloc_loop g n (freep s) (next_hdr s (freep s)) s =
    Option.bind (morecore g n s) (\<lambda>(p, s). if p = 0 then Some (0, s) else malloc_loop g n p (next_hdr s p) s)"
proof -
  have l: "chained s (base # bs @ [base])" and b0: "units s base = 0" and f: "freep s \<in> set (base # bs)" using r by (simp_all add: ring_def)
  then obtain l1 l2 where sp: "base # bs = l1 @ freep s # l2" by (meson split_list)
  have L: "chained s (freep s # (l2 @ l1) @ [freep s])" using ring_from [OF l sp] by simp
  have d: "freep s \<notin> set (l2 @ l1)" using ring_distinct [OF r] unfolding sp by auto
  have lt: "units s z < unat n" if "z \<in> set (base # bs)" for z using that small b0 n by auto
  have *: "units s z < unat n \<and> z \<noteq> freep s" if "z \<in> set (l2 @ l1)" for z
  proof -
    have "z \<in> set (base # bs)" "z \<noteq> freep s" using that d unfolding sp by auto
    then show ?thesis using lt by blast
  qed
  have "next_hdr s (freep s) = hd ((l2 @ l1) @ [freep s])" using L by (cases "l2 @ l1") auto
  then have "malloc_loop g n (freep s) (next_hdr s (freep s)) s = malloc_loop g n (last (freep s # l2 @ l1)) (freep s) s"
    using malloc_walk [OF L *, of g] by simp
  also have "\<dots> = Option.bind (morecore g n s) (\<lambda>(p, s). if p = 0 then Some (0, s) else malloc_loop g n p (next_hdr s p) s)"
    using lt [OF f] by (subst malloc_loop.simps) (simp add: units_def word_le_nat_alt next_hdr_def cong: if_cong)
  finally show ?thesis .
qed

subsection \<open>More memory\<close>

text \<open>The kernel does not let a process grow past the end of the machine's memory.\<close>

definition bounded :: "(u64 \<Rightarrow> int \<Rightarrow> bool) \<Rightarrow> bool" where
  "bounded grants \<longleftrightarrow> (\<forall>b n. 0 < n \<longrightarrow> grants b n \<longrightarrow> unat b + nat n \<le> TOP)"

lemma grow_int:
  assumes "unat nu < 2 ^ 27"
  shows "sint (ucast (ucast (nu :: u32) * 16 :: u64) :: u32) = 16 * int (unat nu)"
proof -
  have e: "unat (ucast nu :: u64) = unat nu" by transfer simp
  have "unat (ucast nu * 16 :: u64) = 16 * unat nu" using assms by (simp add: unat_word_ariths e)
  then have "unat (ucast (ucast nu * 16 :: u64) :: u32) = 16 * unat nu mod 2 ^ 32" by (simp add: unsigned_ucast_eq take_bit_eq_mod)
  then have "unat (ucast (ucast nu * 16 :: u64) :: u32) = 16 * unat nu" using assms by simp
  moreover have i: "uint w = int (unat w)" for w :: u32 by simp
  ultimately have u: "uint (ucast (ucast nu * 16 :: u64) :: u32) = 16 * int (unat nu)" by (simp only: i of_nat_mult of_nat_numeral)
  have "unat nu < 134217728" using assms by simp
  then have "int (unat nu) < 134217728" by (simp only: of_nat_less_numeral_iff)
  then have "16 * int (unat nu) < 2 ^ 31" by simp
  moreover have "- (2 ^ 31) \<le> 16 * uint nu" by (rule order_trans [of _ 0]) simp_all
  ultimately have "signed_take_bit 31 (16 * uint nu) = 16 * uint nu" by (intro signed_take_bit_int_eq_self) simp_all
  with u show ?thesis by (simp add: sint_uint)
qed

lemma morecore_ok:
  assumes r: "ring base lo s bs (unat (brk s))" and n: "0 < unat nu" "unat nu < 2 ^ 27" and g: "bounded grants" and b: "base \<noteq> 0"
  defines "k \<equiv> max (unat nu) 4096"
  shows "morecore grants nu s = Some (0, s) \<and> \<not> grants (brk s) (16 * int k) \<or>
    (\<exists>t cs. morecore grants nu s = Some (freep t, t) \<and> freep t \<noteq> 0 \<and> ring base lo t cs (unat (brk t)) \<and> unat (brk t) = unat (brk s) + 16 * k \<and>
       free_space t cs = free_space s bs \<union> {unat (brk s) ..< unat (brk t)} \<and> (\<exists>a \<in> set cs. unat nu \<le> units t a) \<and>
       (\<forall>x. x \<notin> set (base # bs) \<longrightarrow> x \<noteq> brk s \<longrightarrow> hdrs t x = hdrs s x))"
proof -
  define m :: u32 where "m = (if nu < 4096 then 4096 else nu)"
  have m: "unat m = k" "unat m < 2 ^ 27" using n(2) by (auto simp: m_def k_def word_less_nat_alt)
  have top: "unat (brk s) \<le> TOP" using r by (simp add: ring_def)
  then have "brk s \<noteq> SBRK_ERROR" by (auto simp: SBRK_ERROR_def TOP_def unsigned_minus_1_eq_mask mask_eq_exp_minus_1)
  show ?thesis
  proof (cases "grants (brk s) (16 * int k)")
    case False
    then have "morecore grants nu s = Some (0, s)" using grow_int [OF m(2)] m(1)
      by (simp add: morecore_def m_def [symmetric] Let_def sbrk_def)
    with False show ?thesis by simp
  next
    case True
    let ?b = "brk s"
    have k: "0 < k" by (simp add: k_def)
    then have "unat ?b + nat (16 * int k) \<le> TOP" using g True unfolding bounded_def by simp
    then have tk: "unat ?b + 16 * k \<le> TOP" by (simp add: nat_mult_distrib)
    define w where "w = set_size ?b m (s\<lparr>brk := ?b + word_of_int (16 * int k)\<rparr>)"
    have bt: "unat (brk w) = unat ?b + 16 * k" using tk m(2) m(1)
      by (simp add: w_def unat_word_ariths TOP_def unat_of_nat flip: of_nat_mult)
    have out: "?b \<notin> set (base # bs)" using r by (fastforce simp: ring_def)
    have u: "units w a = (if a = ?b then k else units s a)" "next_hdr w a = next_hdr s a" "freep w = freep s" for a
      using m(1) by (simp_all add: w_def)
    have same: "units w a = units s a" if "a \<in> set (base # bs)" for a using that out u(1) by auto
    have r': "ring base lo w bs (unat (brk w))"
    proof -
      have "chained w (base # bs @ [base]) = chained s (base # bs @ [base])" by (rule chained_cong) (rule u(2))
      moreover have "apart w (base # bs) = apart s (base # bs)" by (rule apart_cong) (metis same in_set_butlastD)
      moreover have "lo \<le> unat a \<and> 0 < units w a \<and> unat a + 16 * units w a \<le> unat (brk w)" if "a \<in> set bs" for a
        using same [of a] that r bt by (auto simp: ring_def intro: trans_le_add1)
      ultimately show ?thesis using r bt tk same [of base] u(3) by (simp add: ring_def)
    qed
    have fw: "free_space w bs = free_space s bs" using same by (intro free_space_cong) auto
    moreover have "extent ?b k \<inter> free_space s bs = {}" using r by (fastforce simp: ring_def free_space_def extent_def)
    ultimately have f: "fits lo w bs (unat (brk w)) ?b" using r bt u(1) k by (simp add: fits_def ring_def)
    obtain t cs where t: "ufree (?b + 16) w = Some t" "ring base lo t cs (unat (brk w))" "free_space t cs = free_space w bs \<union> extent ?b (units w ?b)"
      "brk t = brk w" "\<And>x. x \<notin> set (base # bs) \<Longrightarrow> x \<noteq> ?b \<Longrightarrow> hdrs t x = hdrs w x" "\<exists>a \<in> set cs. units w ?b \<le> units t a"
      using ufree_ok [OF r' f] by metis
    have "morecore grants nu s = Some (freep t, t)" using grow_int [OF m(2)] m(1) True t(1) \<open>?b \<noteq> SBRK_ERROR\<close>
      by (simp add: morecore_def m_def [symmetric] Let_def sbrk_def w_def)
    moreover have "freep t \<noteq> 0"
    proof -
      have "unat base + 16 \<le> unat a" if "a \<in> set cs" for a using t(2) that by (auto simp: ring_def intro: order_trans)
      then have "a \<noteq> 0" if "a \<in> set (base # cs)" for a using that b by fastforce
      then show ?thesis using t(2) by (simp add: ring_def)
    qed
    moreover have "unat nu \<le> k" by (simp add: k_def)
    then have "\<exists>a \<in> set cs. unat nu \<le> units t a" using t(6) u(1) by (auto intro: order_trans)
    moreover have "extent ?b (units w ?b) = {unat ?b ..< unat (brk t)}" using u(1) bt t(4) by (simp add: extent_def)
    moreover have "hdrs t x = hdrs s x" if "x \<notin> set (base # bs)" "x \<noteq> ?b" for x using t(5) [OF that] that by (simp add: w_def set_size_def)
    ultimately show ?thesis using t(2-4) bt fw by (intro disjI2 exI [of _ t] exI [of _ cs]) simp
  qed
qed

subsection \<open>A request\<close>

text \<open>What a request of \<open>n\<close> units may find: a block from the free space or from new memory, or nothing.\<close>

definition served :: "u64 \<Rightarrow> nat \<Rightarrow> uheap \<Rightarrow> u64 list \<Rightarrow> nat \<Rightarrow> u64 \<Rightarrow> uheap \<Rightarrow> u64 list \<Rightarrow> bool" where
  "served base lo s bs n a u cs \<longleftrightarrow>
     (let space = free_space s bs \<union> {unat (brk s) ..< unat (brk u)} in
      ring base lo u cs (unat (brk u)) \<and> unat (brk s) \<le> unat (brk u) \<and> lo \<le> unat a \<and> unat a + 16 * n \<le> unat (brk u) \<and>
      extent a n \<subseteq> space \<and> free_space u cs = space - extent a n \<and> units u a = n \<and>
      (\<forall>x. unat x \<notin> space \<longrightarrow> x \<noteq> base \<longrightarrow> hdrs u x = hdrs s x))"

lemma ring_space: "ring base lo s bs hi \<Longrightarrow> x \<in> set bs \<Longrightarrow> unat x \<in> free_space s bs"
  by (fastforce simp: ring_def free_space_def extent_def)

lemma carve_served:
  assumes r: "ring base lo s bs (unat (brk s))" and t: "t \<in> set (base # bs)" "next_hdr s t = y" "y \<in> set bs" and n: "0 < unat n" "unat n \<le> units s y"
  obtains a u cs where "carve n t y s = (a + 16, u)" "served base lo s bs (unat n) a u cs"
proof -
  obtain a u cs where c: "carve n t y s = (a + 16, u)" "taken_out base lo s bs (unat (brk s)) (unat n) a u cs" using carve_ok [OF r t n] by metis
  then have "unat a \<in> free_space s bs" using n(1) by (auto simp: taken_out_def extent_def)
  then have "hdrs u x = hdrs s x" if "unat x \<notin> free_space s bs" "x \<noteq> base" for x
    using c(2) that ring_space [OF r, of x] by (auto simp: taken_out_def)
  with c show thesis by (intro that [of a u cs]) (auto simp: taken_out_def served_def Let_def)
qed

lemma malloc_loop_ok:
  assumes r: "ring base lo s bs (unat (brk s))" and n: "0 < unat n" "unat n < 2 ^ 27" and g: "bounded grants" and b: "base \<noteq> 0"
  shows "(malloc_loop grants n (freep s) (next_hdr s (freep s)) s = Some (0, s) \<and> (\<forall>a \<in> set bs. units s a < unat n) \<and>
      \<not> grants (brk s) (16 * int (max (unat n) 4096))) \<or>
    (\<exists>a u cs. malloc_loop grants n (freep s) (next_hdr s (freep s)) s = Some (a + 16, u) \<and> served base lo s bs (unat n) a u cs)"
proof (cases "\<exists>a \<in> set bs. unat n \<le> units s a")
  case True
  obtain t y where ty: "t \<in> set (base # bs)" "next_hdr s t = y" "y \<in> set bs" "unat n \<le> units s y"
    "malloc_loop grants n (freep s) (next_hdr s (freep s)) s = Some (carve n t y s)" using malloc_finds [OF r n(1) True] by metis
  then show ?thesis using carve_served [OF r ty(1-3) n(1) ty(4)] by metis
next
  case False
  then have small: "\<forall>a \<in> set bs. units s a < unat n" by auto
  note e = malloc_misses [OF r n(1) small, of grants]
  consider "morecore grants n s = Some (0, s)" "\<not> grants (brk s) (16 * int (max (unat n) 4096))"
    | t cs where "morecore grants n s = Some (freep t, t)" "freep t \<noteq> 0" "ring base lo t cs (unat (brk t))" "unat (brk s) \<le> unat (brk t)"
        "free_space t cs = free_space s bs \<union> {unat (brk s) ..< unat (brk t)}" "\<exists>a \<in> set cs. unat n \<le> units t a"
        "\<And>x. x \<notin> set (base # bs) \<Longrightarrow> x \<noteq> brk s \<Longrightarrow> hdrs t x = hdrs s x" "brk s \<noteq> brk t"
    using morecore_ok [OF r n g b] by (smt (verit) le_add1 less_add_same_cancel1 max.strict_coboundedI2 mult_pos_pos nat_less_le zero_less_numeral)
  then show ?thesis
  proof cases
    case 1
    then show ?thesis using e small by simp
  next
    case (2 t cs)
    obtain p y where py: "p \<in> set (base # cs)" "next_hdr t p = y" "y \<in> set cs" "unat n \<le> units t y"
      "malloc_loop grants n (freep t) (next_hdr t (freep t)) t = Some (carve n p y t)" using malloc_finds [OF 2(3) n(1) 2(6)] by metis
    obtain a u ds where c: "carve n p y t = (a + 16, u)" "served base lo t cs (unat n) a u ds" using carve_served [OF 2(3) py(1-3) n(1) py(4)] by metis
    have bu: "unat (brk t) \<le> unat (brk u)" using c(2) by (simp add: served_def Let_def)
    have sp: "free_space t cs \<union> {unat (brk t) ..< unat (brk u)} = free_space s bs \<union> {unat (brk s) ..< unat (brk u)}"
      unfolding 2(5) Un_assoc using 2(4) bu by (simp only: ivl_disj_un_two(3))
    have fr: "hdrs t x = hdrs s x" if "unat x \<notin> free_space s bs \<union> {unat (brk s) ..< unat (brk u)}" "x \<noteq> base" for x
    proof -
      have "x \<notin> set (base # bs)" using that ring_space [OF r, of x] by auto
      moreover have "unat (brk s) < unat (brk t)" using 2(4,8) by (metis nat_less_le unsigned_word_eqI)
      then have "x \<noteq> brk s" using that(1) bu by auto
      ultimately show ?thesis by (rule 2(7))
    qed
    note c' = c(2) [unfolded served_def Let_def sp]
    have "served base lo s bs (unat n) a u ds" unfolding served_def Let_def
    proof (intro conjI allI impI)
      fix x assume x: "unat x \<notin> free_space s bs \<union> {unat (brk s) ..< unat (brk u)}" "x \<noteq> base"
      then have "hdrs u x = hdrs t x" using c' by blast
      then show "hdrs u x = hdrs s x" using fr [OF x] by simp
    next
      show "unat (brk s) \<le> unat (brk u)" using 2(4) bu by simp
    qed (use c' in simp_all)
    then show ?thesis using e 2(1,2) py(5) c(1) by auto
  qed
qed

definition MALLOC_MAX :: nat where "MALLOC_MAX = 2 ^ 31 - 32"

lemma units_for_ok:
  assumes "unat nbytes \<le> MALLOC_MAX"
  shows "unat (units_for nbytes) = (unat nbytes + 15) div 16 + 1" "unat (units_for nbytes) < 2 ^ 27"
proof -
  have e: "unat (ucast nbytes :: u64) = unat nbytes" by transfer simp
  have n: "unat nbytes \<le> 2147483616" using assms by (simp add: MALLOC_MAX_def)
  have "unat (ucast nbytes + 15 :: u64) = unat nbytes + 15" using n by (simp add: unat_word_ariths e)
  then have "unat ((ucast nbytes + 15) div 16 + 1 :: u64) = (unat nbytes + 15) div 16 + 1" using n by (simp add: unat_word_ariths unat_div)
  moreover have "(unat nbytes + 15) div 16 + 1 < 2 ^ 27" using n by simp
  moreover have "ucast nbytes + 16 - 1 = (ucast nbytes + 15 :: u64)" by simp
  then have "unat (units_for nbytes) = unat ((ucast nbytes + 15) div 16 + 1 :: u64) mod 2 ^ 32"
    by (simp only: units_for_def unsigned_ucast_eq take_bit_eq_mod) simp
  ultimately show "unat (units_for nbytes) = (unat nbytes + 15) div 16 + 1" "unat (units_for nbytes) < 2 ^ 27" by simp_all
qed

subsection \<open>Programs that use the allocator\<close>

text \<open>A program has the blocks it was given, by the address of their headers. It stores what it likes into their
  memory, which may change what is read there as headers, and it moves the break by the allocator only.\<close>

definition payload :: "(u64 \<Rightarrow> nat option) \<Rightarrow> nat set" where
  "payload A = {x. \<exists>a n. A a = Some n \<and> unat a + 16 \<le> x \<and> x < unat a + 16 * n}"

definition used_space :: "(u64 \<Rightarrow> nat option) \<Rightarrow> nat set" where
  "used_space A = {x. \<exists>a n. A a = Some n \<and> x \<in> extent a n}"

inductive mstep :: "u64 \<Rightarrow> (u64 \<Rightarrow> int \<Rightarrow> bool) \<Rightarrow> uheap \<times> (u64 \<Rightarrow> nat option) \<Rightarrow> uheap \<times> (u64 \<Rightarrow> nat option) \<Rightarrow> bool"
  for base grants where
  Malloc: "unat nbytes \<le> MALLOC_MAX \<Longrightarrow> umalloc base grants nbytes s = Some (q, t) \<Longrightarrow>
    mstep base grants (s, A) (t, if q = 0 then A else A(q - 16 \<mapsto> unat (units_for nbytes)))"
| Free: "A a \<noteq> None \<Longrightarrow> ufree (a + 16) s = Some t \<Longrightarrow> mstep base grants (s, A) (t, A(a := None))"
| Store: "(\<And>x. {unat x ..< unat x + 16} \<inter> payload A = {} \<Longrightarrow> h x = hdrs s x) \<Longrightarrow> mstep base grants (s, A) (s\<lparr>hdrs := h\<rparr>, A)"

text \<open>The heap is divided into the free blocks and the blocks handed out.\<close>

definition divided :: "u64 \<Rightarrow> nat \<Rightarrow> uheap \<Rightarrow> u64 list \<Rightarrow> (u64 \<Rightarrow> nat option) \<Rightarrow> bool" where
  "divided base lo s bs A \<longleftrightarrow>
     ring base lo s bs (unat (brk s)) \<and>
     (\<forall>a n. A a = Some n \<longrightarrow> 0 < n \<and> lo \<le> unat a \<and> units s a = n \<and> extent a n \<inter> free_space s bs = {}) \<and>
     (\<forall>a b m n. A a = Some m \<longrightarrow> A b = Some n \<longrightarrow> a \<noteq> b \<longrightarrow> extent a m \<inter> extent b n = {}) \<and>
     free_space s bs \<union> used_space A = {lo ..< unat (brk s)}"

definition heap_ok :: "u64 \<Rightarrow> nat \<Rightarrow> uheap \<Rightarrow> (u64 \<Rightarrow> nat option) \<Rightarrow> bool" where
  "heap_ok base lo s A \<longleftrightarrow>
     (if freep s = 0 then A = (\<lambda>_. None) \<and> unat base + 16 \<le> lo \<and> unat (brk s) = lo \<and> lo \<le> TOP
      else \<exists>bs. divided base lo s bs A)"

lemma used_space_none [simp]: "used_space (\<lambda>_. None) = {}"
  by (simp add: used_space_def)

lemma used_space_add: "A a = None \<Longrightarrow> used_space (A(a \<mapsto> n)) = used_space A \<union> extent a n"
  by (auto simp: used_space_def split: if_splits) (metis option.distinct(1))

lemma used_space_del:
  assumes "A a = Some n"
  shows "used_space A = used_space (A(a := None)) \<union> extent a n"
  using assms by (auto simp: used_space_def split: if_splits) (metis option.inject)

lemma ring_freep: "ring base lo s bs hi \<Longrightarrow> base \<noteq> 0 \<Longrightarrow> freep s \<noteq> 0"
  by (fastforce simp: ring_def)

lemma dividedD:
  assumes "divided base lo s bs A"
  shows "ring base lo s bs (unat (brk s))" "A a = Some n \<Longrightarrow> 0 < n \<and> lo \<le> unat a \<and> units s a = n"
    "A a = Some n \<Longrightarrow> extent a n \<inter> free_space s bs = {}"
    "A a = Some m \<Longrightarrow> A b = Some n \<Longrightarrow> a \<noteq> b \<Longrightarrow> extent a m \<inter> extent b n = {}"
    "free_space s bs \<union> used_space A = {lo ..< unat (brk s)}"
    "A a = Some n \<Longrightarrow> extent a n \<subseteq> {lo ..< unat (brk s)}"
proof -
  show all: "free_space s bs \<union> used_space A = {lo ..< unat (brk s)}" using assms by (simp add: divided_def)
  show "A a = Some n \<Longrightarrow> extent a n \<subseteq> {lo ..< unat (brk s)}" unfolding all [symmetric] by (auto simp: used_space_def)
qed (use assms in \<open>simp_all add: divided_def\<close>)

text \<open>The first request makes the ring of \<^verbatim>\<open>base\<close> alone.\<close>

definition first_ring :: "u64 \<Rightarrow> uheap \<Rightarrow> uheap" where
  "first_ring base s = (if freep s = 0 then set_size base 0 ((set_ptr base base s)\<lparr>freep := base\<rparr>) else s)"

lemma first_ring_ok:
  assumes "heap_ok base lo s A" "base \<noteq> 0"
  obtains bs where "divided base lo (first_ring base s) bs A" "brk (first_ring base s) = brk s"
proof (cases "freep s = 0")
  case True
  then have "divided base lo (first_ring base s) [] A" using assms
    by (simp add: heap_ok_def first_ring_def divided_def ring_def free_space_def)
  moreover have "brk (first_ring base s) = brk s" by (simp add: first_ring_def)
  ultimately show thesis by (rule that)
next
  case False
  then show thesis using assms that by (auto simp: heap_ok_def first_ring_def)
qed

lemma umalloc_eq: "umalloc base grants nbytes s =
    (let s = first_ring base s in malloc_loop grants (units_for nbytes) (freep s) (next_hdr s (freep s)) s)"
  by (simp add: umalloc_def first_ring_def next_hdr_def Let_def)

lemma served_divided:
  assumes d: "divided base lo s bs A" and v: "served base lo s bs n a u cs" and n: "0 < n"
  shows "divided base lo u cs (A(a \<mapsto> n))" "A a = None" "\<And>b m. A b = Some m \<Longrightarrow> extent a n \<inter> extent b m = {}"
proof -
  let ?new = "free_space s bs \<union> {unat (brk s) ..< unat (brk u)}"
  note v' = v [unfolded served_def Let_def]
  have out: "extent b m \<inter> ?new = {}" if "A b = Some m" for b m
    using dividedD(3,6) [OF d that] by (auto simp: disjoint_iff)
  show dis: "extent a n \<inter> extent b m = {}" if "A b = Some m" for b m using out [OF that] v' by blast
  show none: "A a = None"
  proof (rule ccontr)
    assume "A a \<noteq> None"
    then obtain m where m: "A a = Some m" by auto
    then have "unat a \<in> extent a n \<inter> extent a m" using n dividedD(2) [OF d m] by (simp add: extent_def)
    then show False using dis [OF m] by simp
  qed
  have same: "units u b = m" if "A b = Some m" for b m
  proof -
    have "unat b \<in> extent b m" "b \<noteq> base" using dividedD(1) [OF d] dividedD(2) [OF d that] by (auto simp: extent_def ring_def)
    then have "hdrs u b = hdrs s b" using out [OF that] v' by blast
    then show ?thesis using dividedD(2) [OF d that] by (simp add: units_def)
  qed
  have "free_space u cs \<union> used_space (A(a \<mapsto> n)) = (free_space u cs \<union> extent a n) \<union> used_space A"
    using used_space_add [of A a n] none by auto
  also have "\<dots> = ?new \<union> used_space A" using v' by auto
  also have "\<dots> = {lo ..< unat (brk s)} \<union> {unat (brk s) ..< unat (brk u)}" using dividedD(5) [OF d] by auto
  also have "\<dots> = {lo ..< unat (brk u)}" using v' dividedD(1) [OF d] by (intro ivl_disj_un_two(3)) (auto simp: ring_def)
  finally have all: "free_space u cs \<union> used_space (A(a \<mapsto> n)) = {lo ..< unat (brk u)}" .
  show "divided base lo u cs (A(a \<mapsto> n))" unfolding divided_def
  proof (intro conjI allI impI)
    fix b m assume b: "(A(a \<mapsto> n)) b = Some m"
    show "0 < m" "lo \<le> unat b" "units u b = m" using b n v' same dividedD(2) [OF d] by (auto split: if_splits)
    show "extent b m \<inter> free_space u cs = {}" using b v' out by (auto split: if_splits)
  next
    fix b c k m assume "(A(a \<mapsto> n)) b = Some k" "(A(a \<mapsto> n)) c = Some m" "b \<noteq> c"
    then show "extent b k \<inter> extent c m = {}" using dis dividedD(4) [OF d] by (auto split: if_splits)
  next
    show "free_space u cs \<union> used_space (A(a \<mapsto> n)) = {lo ..< unat (brk u)}" by (rule all)
  qed (use v' in simp)
qed

lemma extent_le:
  assumes "extent a n \<subseteq> {lo ..< hi}" "0 < n"
  shows "unat a + 16 * n \<le> hi"
proof -
  have "unat a + 16 * n - 1 \<in> extent a n" using assms(2) by (auto simp: extent_def)
  then have "unat a + 16 * n - 1 < hi" using assms(1) by auto
  then show ?thesis using assms(2) by simp
qed

lemma free_divided:
  assumes d: "divided base lo s bs A" and a: "A a = Some n"
  obtains t cs where "ufree (a + 16) s = Some t" "divided base lo t cs (A(a := None))" "brk t = brk s"
proof -
  have r: "ring base lo s bs (unat (brk s))" using dividedD(1) [OF d] .
  have n: "0 < n" "lo \<le> unat a" "units s a = n" using dividedD(2) [OF d a] by auto
  have "extent a n \<subseteq> {lo ..< unat (brk s)}" using dividedD(6) [OF d a] .
  then have "unat a + 16 * n \<le> unat (brk s)" using n(1) by (rule extent_le)
  then have f: "fits lo s bs (unat (brk s)) a" using n dividedD(3) [OF d a] by (simp add: fits_def)
  obtain t cs where t: "ufree (a + 16) s = Some t" "ring base lo t cs (unat (brk s))" "free_space t cs = free_space s bs \<union> extent a (units s a)"
    "brk t = brk s" "\<And>x. x \<notin> set (base # bs) \<Longrightarrow> x \<noteq> a \<Longrightarrow> hdrs t x = hdrs s x" using ufree_ok [OF r f] by metis
  have same: "units t b = m" if b: "A b = Some m" "b \<noteq> a" for b m
  proof -
    have "unat b \<in> extent b m" "b \<noteq> base" using r dividedD(2) [OF d b(1)] by (auto simp: extent_def ring_def)
    then have "b \<notin> set (base # bs)" using dividedD(3) [OF d b(1)] ring_space [OF r, of b] by auto
    then show ?thesis using t(5) b(2) dividedD(2) [OF d b(1)] by (simp add: units_def)
  qed
  have "divided base lo t cs (A(a := None))" unfolding divided_def
  proof (intro conjI allI impI)
    fix b m assume b: "(A(a := None)) b = Some m"
    then have b': "A b = Some m" "b \<noteq> a" by (auto split: if_splits)
    show "0 < m" "lo \<le> unat b" "units t b = m" using dividedD(2) [OF d b'(1)] same [OF b'] by auto
    show "extent b m \<inter> free_space t cs = {}" using dividedD(3) [OF d b'(1)] dividedD(4) [OF d b'(1) a b'(2)] n(3) t(3) by auto
  next
    fix b c k m assume "(A(a := None)) b = Some k" "(A(a := None)) c = Some m" "b \<noteq> c"
    then show "extent b k \<inter> extent c m = {}" using dividedD(4) [OF d] by (metis fun_upd_apply option.distinct(1))
  next
    show "free_space t cs \<union> used_space (A(a := None)) = {lo ..< unat (brk t)}"
      using dividedD(5) [OF d] used_space_del [of A a n] a t(3,4) n(3) by auto
  qed (use t(2,4) in simp)
  with t(1,4) show thesis by (intro that)
qed

lemma store_divided:
  assumes d: "divided base lo s bs A" and h: "\<And>x. {unat x ..< unat x + 16} \<inter> payload A = {} \<Longrightarrow> h x = hdrs s x"
  shows "divided base lo (s\<lparr>hdrs := h\<rparr>) bs A"
proof -
  let ?t = "s\<lparr>hdrs := h\<rparr>"
  have r: "ring base lo s bs (unat (brk s))" using dividedD(1) [OF d] .
  have p: "\<exists>a n. A a = Some n \<and> x \<in> extent a n \<and> unat a + 16 \<le> x" if "x \<in> payload A" for x using that by (auto simp: payload_def extent_def) (metis add_leD1)
  have "h x = hdrs s x" if x: "x \<in> set (base # bs)" for x
  proof (rule h, rule ccontr)
    assume "{unat x ..< unat x + 16} \<inter> payload A \<noteq> {}"
    then obtain z a n where z: "unat x \<le> z" "z < unat x + 16" "A a = Some n" "z \<in> extent a n" using p by fastforce
    have zlo: "lo \<le> z" using dividedD(6) [OF d z(3)] z(4) by auto
    show False
    proof (cases "x = base")
      case True then show False using zlo z(2) r by (simp add: ring_def)
    next
      case False
      then have "x \<in> set bs" "0 < units s x" using x r by (auto simp: ring_def)
      then have "z \<in> free_space s bs" using z(1,2) by (auto simp: free_space_def extent_def intro!: bexI [of _ x])
      then show False using dividedD(3) [OF d z(3)] z(4) by auto
    qed
  qed
  then have ring_same: "next_hdr ?t x = next_hdr s x" "units ?t x = units s x" if "x \<in> set (base # bs)" for x using that by (simp_all add: next_hdr_def units_def)
  have used_same: "units ?t a = n" if a: "A a = Some n" for a n
  proof -
    have "h a = hdrs s a"
    proof (rule h, rule ccontr)
      assume "{unat a ..< unat a + 16} \<inter> payload A \<noteq> {}"
      then obtain z b m where z: "unat a \<le> z" "z < unat a + 16" "A b = Some m" "z \<in> extent b m" "unat b + 16 \<le> z" using p by fastforce
      then have "a \<noteq> b" by auto
      moreover have "z \<in> extent a n" using z(1,2) dividedD(2) [OF d a] by (auto simp: extent_def)
      ultimately show False using dividedD(4) [OF d a z(3)] z(4) by auto
    qed
    then show ?thesis using dividedD(2) [OF d a] by (simp add: units_def)
  qed
  have fs: "free_space ?t bs = free_space s bs" by (rule free_space_cong) (use ring_same in simp)
  have "chained ?t (base # bs @ [base]) = chained s (base # bs @ [base])" by (rule chained_cong) (use ring_same in simp)
  moreover have "apart ?t (base # bs) = apart s (base # bs)" by (rule apart_cong) (metis ring_same(2) in_set_butlastD)
  ultimately have "ring base lo ?t bs (unat (brk s))" using r ring_same(2) unfolding ring_def by simp
  then show ?thesis unfolding divided_def fs using dividedD(2-5) [OF d] used_same by auto
qed

lemma umalloc_ok:
  assumes hk: "heap_ok base lo s A" and g: "bounded grants" and b: "base \<noteq> 0" and m: "unat nbytes \<le> MALLOC_MAX"
  defines "n \<equiv> unat (units_for nbytes)"
  obtains t bs where "umalloc base grants nbytes s = Some (0, t)" "divided base lo t bs A" "\<forall>a \<in> set bs. units t a < n" "\<not> grants (brk s) (16 * int (max n 4096))"
  | a t bs where "umalloc base grants nbytes s = Some (a + 16, t)" "a + 16 \<noteq> 0" "divided base lo t bs (A(a \<mapsto> n))" "A a = None"
      "\<And>b m. A b = Some m \<Longrightarrow> extent a n \<inter> extent b m = {}"
proof -
  obtain bs where d: "divided base lo (first_ring base s) bs A" "brk (first_ring base s) = brk s" using first_ring_ok [OF hk b] .
  have n: "0 < n" "n < 2 ^ 27" using units_for_ok [OF m] by (simp_all add: n_def)
  note ok = malloc_loop_ok [OF dividedD(1) [OF d(1)] _ _ g b, of "units_for nbytes", folded n_def, OF n]
  show thesis
  proof (rule disjE [OF ok])
    assume *: "malloc_loop grants (units_for nbytes) (freep (first_ring base s)) (next_hdr (first_ring base s) (freep (first_ring base s))) (first_ring base s) =
        Some (0, first_ring base s) \<and> (\<forall>a \<in> set bs. units (first_ring base s) a < n) \<and> \<not> grants (brk (first_ring base s)) (16 * int (max n 4096))"
    then show thesis using d by (intro that(1) [of "first_ring base s" bs]) (simp_all add: umalloc_eq Let_def)
  next
    assume "\<exists>a u cs. malloc_loop grants (units_for nbytes) (freep (first_ring base s)) (next_hdr (first_ring base s) (freep (first_ring base s))) (first_ring base s) =
        Some (a + 16, u) \<and> served base lo (first_ring base s) bs n a u cs"
    then obtain a u cs where v: "malloc_loop grants (units_for nbytes) (freep (first_ring base s)) (next_hdr (first_ring base s) (freep (first_ring base s))) (first_ring base s) =
        Some (a + 16, u)" "served base lo (first_ring base s) bs n a u cs" by blast
    note dv = served_divided [OF d(1) v(2) n(1)]
    have "unat a + 16 \<le> TOP" using v(2) n(1) by (auto simp: served_def Let_def ring_def)
    then have "unat (a + 16) = unat a + 16" by (simp add: unat_word_ariths TOP_def)
    then have "a + 16 \<noteq> 0" by (metis add_is_0 unat_0 zero_neq_numeral)
    then show thesis using v(1) dv by (intro that(2) [of a u cs]) (simp_all add: umalloc_eq Let_def)
  qed
qed

lemma mstep_ok:
  assumes "mstep base grants (s, A) (t, B)" "heap_ok base lo s A" "bounded grants" "base \<noteq> 0"
  shows "heap_ok base lo t B"
proof -
  have D: "heap_ok base lo u C" if "divided base lo u cs C" for u cs C
    using that ring_freep [OF dividedD(1) [OF that] assms(4)] by (auto simp: heap_ok_def)
  show ?thesis using assms(1)
  proof cases
    case (Malloc nbytes q)
    show ?thesis
    proof (rule umalloc_ok [OF assms(2-4) Malloc(2)])
      fix u bs assume "umalloc base grants nbytes s = Some (0, u)" "divided base lo u bs A"
      then show ?thesis using Malloc D by simp
    next
      fix a u bs assume "umalloc base grants nbytes s = Some (a + 16, u)" "a + 16 \<noteq> 0" "divided base lo u bs (A(a \<mapsto> unat (units_for nbytes)))"
      then show ?thesis using Malloc D by simp
    qed
  next
    case (Free a)
    then obtain n where a: "A a = Some n" by auto
    then have "freep s \<noteq> 0" using assms(2) by (auto simp: heap_ok_def)
    then obtain bs where "divided base lo s bs A" using assms(2) by (auto simp: heap_ok_def)
    then show ?thesis using free_divided [of base lo s bs A a n] a Free D by (metis option.inject)
  next
    case (Store h)
    show ?thesis
    proof (cases "freep s = 0")
      case True
      then show ?thesis using Store assms(2) by (simp add: heap_ok_def)
    next
      case False
      then obtain bs where "divided base lo s bs A" using assms(2) by (auto simp: heap_ok_def)
      then show ?thesis using store_divided [OF _ Store(3)] Store(1,2) D by metis
    qed
  qed
qed

lemma reach_heap_ok:
  assumes "(mstep base grants)\<^sup>*\<^sup>* (s, \<lambda>_. None) (t, A)" "heap_ok base lo s (\<lambda>_. None)" "bounded grants" "base \<noteq> 0"
  shows "heap_ok base lo t A"
  using assms(1)
proof (induction "(t, A)" arbitrary: t A rule: rtranclp_induct)
  case base
  then show ?case using assms(2) by simp
next
  case (step y t A)
  then show ?case using mstep_ok [of base grants "fst y" "snd y" t A lo] assms(3,4) by (cases y) auto
qed

subsection \<open>What holds of every program\<close>

definition starts :: "u64 \<Rightarrow> uheap \<Rightarrow> bool" where
  "starts base s \<longleftrightarrow> base \<noteq> 0 \<and> freep s = 0 \<and> unat base + 16 \<le> unat (brk s) \<and> unat (brk s) \<le> TOP"

definition demo_grants :: "u64 \<Rightarrow> int \<Rightarrow> bool" where
  "demo_grants b n \<longleftrightarrow> unat b + nat n \<le> TOP"

definition demo_heap :: uheap where
  "demo_heap = \<lparr>hdrs = (\<lambda>_. \<lparr>hptr = 0, hsize = 0\<rparr>), freep = 0, brk = 0x5000\<rparr>"

lemma demo_ok: "bounded demo_grants" "starts 0x2000 demo_heap" "brk demo_heap = 0x5000" "demo_grants 0x5000 (16 * int (max 8 4096))"
  by (simp_all add: bounded_def demo_grants_def starts_def demo_heap_def TOP_def)

text \<open>C9. Whatever requests, releases and stores a program makes in any order, the memory it has got from the kernel is
  divided exactly into the blocks it holds and the free blocks of the ring: no byte is in two of them or in none, each
  held block still has its size in its header, and the free blocks are in order with no two adjacent.\<close>

theorem heap_divided:
  assumes "bounded grants" "starts base s" "(mstep base grants)\<^sup>*\<^sup>* (s, \<lambda>_. None) (t, A)" "freep t \<noteq> 0"
  shows "\<exists>bs. chained t (base # bs @ [base]) \<and> apart t (base # bs) \<and>
    free_space t bs \<union> used_space A = {unat (brk s) ..< unat (brk t)} \<and> free_space t bs \<inter> used_space A = {} \<and>
    (\<forall>a n. A a = Some n \<longrightarrow> units t a = n) \<and>
    (\<forall>a b m n. A a = Some m \<and> A b = Some n \<and> a \<noteq> b \<longrightarrow> extent a m \<inter> extent b n = {})"
proof -
  have "heap_ok base (unat (brk s)) s (\<lambda>_. None)" "base \<noteq> 0" using assms(2) by (auto simp: heap_ok_def starts_def)
  then have "heap_ok base (unat (brk s)) t A" using reach_heap_ok assms(1,3) by blast
  then obtain bs where d: "divided base (unat (brk s)) t bs A" using assms(4) by (auto simp: heap_ok_def)
  have "free_space t bs \<inter> used_space A = {}" using dividedD(3) [OF d] by (auto simp: used_space_def)
  moreover have "chained t (base # bs @ [base])" "apart t (base # bs)" using dividedD(1) [OF d] by (simp_all add: ring_def)
  ultimately show ?thesis using dividedD(2,4,5) [OF d] by blast
qed

theorem heap_divided_witness:
  "\<exists>t A bs. (mstep 0x2000 demo_grants)\<^sup>*\<^sup>* (demo_heap, \<lambda>_. None) (t, A) \<and> A \<noteq> (\<lambda>_. None) \<and>
     free_space t bs \<union> used_space A = {0x5000 ..< unat (brk t)} \<and> free_space t bs \<inter> used_space A = {}"
proof -
  have u: "unat (units_for 100) = 8" "unat (100 :: u32) \<le> MALLOC_MAX" using units_for_ok [of 100] by (simp_all add: MALLOC_MAX_def)
  have hk: "heap_ok 0x2000 0x5000 demo_heap (\<lambda>_. None)" by (simp add: heap_ok_def demo_heap_def TOP_def)
  obtain a t bs where t: "umalloc 0x2000 demo_grants 100 demo_heap = Some (a + 16, t)" "a + 16 \<noteq> 0" "divided 0x2000 0x5000 t bs ((\<lambda>_. None)(a \<mapsto> 8))"
    by (rule umalloc_ok [OF hk demo_ok(1) _ u(2), unfolded u(1)]) (use demo_ok(3,4) in auto)
  have "mstep 0x2000 demo_grants (demo_heap, \<lambda>_. None) (t, (\<lambda>_. None)(a \<mapsto> 8))" using mstep.Malloc [OF u(2) t(1), of "\<lambda>_. None"] t(2) u(1) by simp
  then have r: "(mstep 0x2000 demo_grants)\<^sup>*\<^sup>* (demo_heap, \<lambda>_. None) (t, (\<lambda>_. None)(a \<mapsto> 8))" by blast
  have "freep t \<noteq> 0" using ring_freep [OF dividedD(1) [OF t(3)]] by simp
  from heap_divided [OF demo_ok(1,2) r this] r show ?thesis
    by (intro exI [of _ t] exI [of _ "(\<lambda>_. None)(a \<mapsto> 8)"]) (auto simp: demo_ok(3) fun_upd_def dest: fun_cong [of _ _ a])
qed

text \<open>C16. In every state a program reaches, \<open>malloc\<close> of up to \<open>MALLOC_MAX\<close> bytes ends: with a block of at least that many
  bytes apart from all blocks held, or with 0 when the kernel refuses more memory and no free block is large
  enough; and \<open>free\<close> of a held block ends.\<close>

theorem malloc_and_free_return:
  assumes "bounded grants" "starts base s" "(mstep base grants)\<^sup>*\<^sup>* (s, \<lambda>_. None) (t, A)" "unat nbytes \<le> MALLOC_MAX"
  shows "(\<exists>q u. umalloc base grants nbytes t = Some (q, u) \<and>
      (if q = 0 then (\<exists>bs. chained u (base # bs @ [base]) \<and> (\<forall>a \<in> set bs. units u a < unat (units_for nbytes))) \<and>
         \<not> grants (brk t) (16 * int (max (unat (units_for nbytes)) 4096))
       else units u (q - 16) = unat (units_for nbytes) \<and> unat nbytes \<le> 16 * (unat (units_for nbytes) - 1) \<and>
         (\<forall>a n. A a = Some n \<longrightarrow> extent (q - 16) (unat (units_for nbytes)) \<inter> extent a n = {}))) \<and>
    (\<forall>a. A a \<noteq> None \<longrightarrow> ufree (a + 16) t \<noteq> None)"
proof -
  have "heap_ok base (unat (brk s)) s (\<lambda>_. None)" and b: "base \<noteq> 0" using assms(2) by (auto simp: heap_ok_def starts_def)
  then have hk: "heap_ok base (unat (brk s)) t A" using reach_heap_ok assms(1,3) by blast
  have n: "unat (units_for nbytes) = (unat nbytes + 15) div 16 + 1" using units_for_ok [OF assms(4)] by simp
  have "ufree (a + 16) t \<noteq> None" if h: "A a \<noteq> None" for a
  proof -
    obtain m where "A a = Some m" using h by auto
    moreover from this obtain bs where "divided base (unat (brk s)) t bs A" using hk by (auto simp: heap_ok_def split: if_splits)
    ultimately show ?thesis using free_divided [of base _ t bs A a m] by (metis option.distinct(1))
  qed
  moreover have "\<exists>q u. umalloc base grants nbytes t = Some (q, u) \<and>
      (if q = 0 then (\<exists>bs. chained u (base # bs @ [base]) \<and> (\<forall>a \<in> set bs. units u a < unat (units_for nbytes))) \<and>
         \<not> grants (brk t) (16 * int (max (unat (units_for nbytes)) 4096))
       else units u (q - 16) = unat (units_for nbytes) \<and> unat nbytes \<le> 16 * (unat (units_for nbytes) - 1) \<and>
         (\<forall>a n. A a = Some n \<longrightarrow> extent (q - 16) (unat (units_for nbytes)) \<inter> extent a n = {}))"
  proof (rule umalloc_ok [OF hk assms(1) b assms(4)])
    fix u bs assume u: "umalloc base grants nbytes t = Some (0, u)" "divided base (unat (brk s)) u bs A"
      "\<forall>a \<in> set bs. units u a < unat (units_for nbytes)" "\<not> grants (brk t) (16 * int (max (unat (units_for nbytes)) 4096))"
    have "chained u (base # bs @ [base])" using dividedD(1) [OF u(2)] by (simp add: ring_def)
    then show ?thesis using u(1,3,4) by (intro exI [of _ 0] exI [of _ u]) auto
  next
    fix a u bs assume u: "umalloc base grants nbytes t = Some (a + 16, u)" "a + 16 \<noteq> 0" "divided base (unat (brk s)) u bs (A(a \<mapsto> unat (units_for nbytes)))"
      "\<And>c m. A c = Some m \<Longrightarrow> extent a (unat (units_for nbytes)) \<inter> extent c m = {}"
    have "units u a = unat (units_for nbytes)" using dividedD(2) [OF u(3), of a] by simp
    moreover have "unat nbytes \<le> 16 * (unat (units_for nbytes) - 1)" using n by simp
    ultimately show ?thesis using u(1,2,4) by (intro exI [of _ "a + 16"] exI [of _ u]) simp
  qed
  ultimately show ?thesis by blast
qed

theorem malloc_and_free_return_witness:
  "\<exists>q u. umalloc 0x2000 demo_grants 100 demo_heap = Some (q, u) \<and> q \<noteq> 0 \<and> units u (q - 16) = 8"
proof -
  have u: "unat (units_for 100) = 8" "unat (100 :: u32) \<le> MALLOC_MAX" using units_for_ok [of 100] by (simp_all add: MALLOC_MAX_def)
  show ?thesis using malloc_and_free_return [OF demo_ok(1,2) rtranclp.rtrancl_refl u(2)] demo_ok(3,4) u(1) by (auto split: if_splits)
qed

text \<open>Beyond that the number of bytes asked from the kernel does not fit into the \<^verbatim>\<open>int\<close> of \<open>sbrk\<close>: of a block of 4 GiB
  the break is moved past the header only.\<close>

theorem malloc_huge_overruns:
  "\<exists>u. umalloc 0x2000 (\<lambda>_ _. True) 0xffffffff demo_heap = Some (0x5010, u) \<and> brk u = 0x5010 \<and> units u 0x5000 = 2 ^ 28 + 1"
proof -
  have n: "units_for 0xffffffff = 0x10000001" by (simp add: units_for_def)
  let ?s = "set_size 0x2000 0 ((set_ptr 0x2000 0x2000 demo_heap)\<lparr>freep := 0x2000\<rparr>)"
  let ?w = "set_size 0x5000 0x10000001 (?s\<lparr>brk := 0x5010\<rparr>)"
  let ?t = "(set_ptr 0x2000 0x5000 (set_ptr 0x5000 0x2000 ?w))\<lparr>freep := 0x2000\<rparr>"
  have "find_spot 0x5000 0x2000 ?w = Some 0x2000" by (subst find_spot.simps) (simp add: set_size_def set_ptr_def Let_def)
  then have "ufree 0x5010 ?w = Some ?t"
    by (simp add: ufree_def join_next_def join_prev_def plus_units_def) (simp add: set_size_def set_ptr_def)
  then have m: "morecore (\<lambda>_ _. True) 0x10000001 ?s = Some (0x2000, ?t)"
    by (simp add: morecore_def sbrk_def demo_heap_def SBRK_ERROR_def)
  have "malloc_loop (\<lambda>_ _. True) 0x10000001 0x2000 0x5000 ?t = Some (carve 0x10000001 0x2000 0x5000 ?t)"
    by (subst malloc_loop.simps) (simp add: set_size_def set_ptr_def)
  moreover have "malloc_loop (\<lambda>_ _. True) 0x10000001 0x2000 0x2000 ?s = malloc_loop (\<lambda>_ _. True) 0x10000001 0x2000 0x5000 ?t"
    using m by (subst malloc_loop.simps) (simp add: set_size_def set_ptr_def)
  moreover have "hptr (hdrs ?s 0x2000) = 0x2000" "freep demo_heap = 0" by (simp_all add: set_size_def set_ptr_def demo_heap_def)
  ultimately have "umalloc 0x2000 (\<lambda>_ _. True) 0xffffffff demo_heap = Some (carve 0x10000001 0x2000 0x5000 ?t)"
    using \<open>hptr (hdrs ?s 0x2000) = 0x2000\<close> \<open>freep demo_heap = 0\<close> by (simp add: umalloc_def n Let_def)
  then show ?thesis by (simp add: carve_def set_size_def set_ptr_def units_def)
qed

end
