(* ===== verification/Spec2Isabelle.thy ===== *)
theory Spec2Isabelle
  imports Sim_Props Fs_Dir Fs_Exec Dev_Console_Props Dev_Disk_Props User_Sh_Run User_Grep User_Malloc_Props
begin

text \<open>
  The repository holds two programs in C: a scheduling simulator (\<^verbatim>\<open>G20_Project2_2\<close>) and the kernel
  xv6 for RISC-V with system calls of its own (\<^verbatim>\<open>G20_Project1_xv6CustomizeSystemCalls\<close>). The
  development models both and shares a prelude. Paths below are relative to the directory of the program.

  \<^bold>\<open>Conventions.\<close> A struct is a record with the fields of the source, an enum a datatype, an \<^verbatim>\<open>int\<close> an
  \<open>int\<close> with its range written out where it can be left, an unsigned integer a word of its width. A pointer
  into a table is an index, a page is its physical address, a loop is a recursion or a \<open>fold\<close> over its index
  range. A kernel operation takes the state and yields \<open>Some\<close> of the result and the new state;
  \<^const>\<open>None\<close> is a panic, a loop that never ends (only the scans of \<^verbatim>\<open>strlen\<close> without a NUL), or, below a
  file system call, a wait for something another process holds (see ``Interleaving''). So a theorem that
  concludes \<open>f s = Some t\<close> shows that the operation ends and does not panic.

  \<^bold>\<open>The simulator.\<close> \<^verbatim>\<open>main.c\<close> reads the arguments, \<^verbatim>\<open>core/parser.c\<close> reads a workload,
  \<^verbatim>\<open>core/simulator.c\<close> runs it tick by tick under one of four policies behind the interface of
  \<^verbatim>\<open>scheduler.h\<close>, and \<^verbatim>\<open>core/report.c\<close> writes the results.
  \<^item> \<open>Sim_Types\<close>: the records of \<^verbatim>\<open>include/\<close>. \<open>C_String\<close>: what parser and report writer use of the C
    library, with the rounding of a quotient to a \<open>double\<close> and to decimals, and what reads the printed numbers back.
  \<^item> \<open>Ready_Queue\<close>: the array queue; its locale \<open>ready_queue\<close> states the contract the policies use.
  \<^item> \<open>Sched_Policy\<close>: the locales \<open>scheduling_policy\<close> and \<open>conserving_policy\<close>, what the engine needs of a
    policy; \<open>Sched_Mlfq\<close>, \<open>Sched_Lottery\<close>, \<open>Sched_Edf\<close> and \<open>Sched_Custom\<close> model \<^verbatim>\<open>schedulers/\<close> and
    interpret it, and so does the dispatching scheduler of \<open>Sched_Dispatch\<close>.
  \<^item> \<open>Simulator\<close>: the tick as the loops of \<open>run_simulation\<close> in their order. \<open>Sim_Inv\<close> and \<open>Sim_Tick\<close> have
    the invariant of a tick and what a tick adds up; \<open>Sim_Run\<close> lifts them to runs and has the variant that
    bounds the run.
  \<^item> \<open>Sim_Parser\<close>: lines to a workload. \<open>Sim_Report\<close>: \<^verbatim>\<open>core/report.c\<close>, the bytes of each file and the events
    of a run (\<open>out_event\<close>), and the files read back. \<open>Sim_Main\<close>: \<^verbatim>\<open>main.c\<close>, from the arguments to the events and
    the status.
  \<^item> \<open>Sim_Props\<close>: the properties. They hold for every workload, number of CPUs and policy. Run on the sample
    workload of the repository the model gives the table of its report for all four policies.
  The only fuel is the number of nodes an MLFQ level can hold (the loop \<open>mlfq_drain\<close> over a queue of bounded
  capacity); \<open>mlfq_boost\<close> shows that it is enough.

  \<^bold>\<open>The kernel: memory.\<close> \<open>Kern_Mem\<close> is the page allocator \<^verbatim>\<open>kernel/kalloc.c\<close>, with the free list inside
  the free pages; \<open>Kern_Vm\<close> is \<^verbatim>\<open>kernel/vm.c\<close>, with a page table as the 512 entries of a page;
  \<open>Kern_Pt\<close>, \<open>Kern_Map\<close> and \<open>Kern_Copy\<close> show that a page table is a map and that the copies to and from user
  memory act on the bytes it maps. \<open>freewalk\<close> recurs to depth 3, the number of levels. \<open>Kern_String\<close> is
  \<^verbatim>\<open>kernel/string.c\<close>. The properties are in \<open>Kern_Vm_Props\<close>.

  \<^bold>\<open>The kernel: processes.\<close> \<open>Kern_State\<close> has the process table, the semaphores and the state of the machine;
  \<open>Kern_Proc\<close> the life cycle, sleep and wakeup of \<^verbatim>\<open>kernel/proc.c\<close>; \<open>Kern_Ipc\<close> the custom calls
  (priorities, signals and alarms, semaphores, messages, accounting); \<open>Kern_Syscall\<close> and \<open>Kern_Trap\<close> are
  \<^verbatim>\<open>kernel/syscall.c\<close>, \<^verbatim>\<open>kernel/sysproc.c\<close> and \<^verbatim>\<open>kernel/trap.c\<close>. \<open>Kern_Ops\<close>, \<open>Kern_Life\<close>,
  \<open>Kern_Exit\<close> and \<open>Kern_Calls\<close> run each operation to its effect; \<open>Kern_Inv\<close> is the invariant of the table;
  \<open>Kern_System\<close> is the step relation \<open>kstep\<close> of the kernel over any sequence of traps, clock ticks and
  scheduling choices; \<open>Kern_Boot\<close> reaches its first state. \<open>Kern_Props\<close> and \<open>Kern_Ipc_Props\<close> hold the
  properties. \<open>Kern_Sem\<close> has the locale \<open>counting_semaphore\<close>, interpreted on the semaphore calls.

  \<^bold>\<open>The kernel: locks.\<close> \<open>Spinlock\<close> is \<^verbatim>\<open>kernel/spinlock.c\<close> on several harts, split where they
  interleave. The rest of the kernel uses a set of held locks; \<open>Kern_Lock\<close> states that interface as the locale
  \<open>lock_api\<close> and interprets it on both, so that the set is what one hart sees of the spinlocks.

  \<^bold>\<open>The kernel: file system.\<close> The file system state is the parameter type of the kernel state, so its
  operations run on the same process table, locks and memory.
  \<^item> \<open>Fs_State\<close>: buffers, log, inodes, files, pipes and the disk; the sleep locks. \<open>Fs_Bio\<close>: the buffer cache
    \<^verbatim>\<open>kernel/bio.c\<close>; \<open>Fs_Cache\<close>: its users' view, a map from block numbers to contents.
  \<^item> \<open>Fs_Log\<close>: \<^verbatim>\<open>kernel/log.c\<close>. \<open>Fs_Wal\<close> is the crash argument as the locale \<open>redo_log\<close>, interpreted on
    the header encoding of the code; \<open>Fs_Commit\<close>, \<open>Fs_Crash\<close> and \<open>Fs_Trans\<close> apply it to the block writes of
    commit and recovery. The disk driver is its contract: a block write is atomic, in the order issued.
  \<^item> \<open>Fs_Inode\<close> and \<open>Fs_Name\<close>: \<^verbatim>\<open>kernel/fs.c\<close>. \<open>Fs_Txn\<close> is the view of an operation inside a
    transaction, \<open>Fs_Alloc\<close> the free map as a set, \<open>Fs_Content\<close> and \<open>Fs_Rw\<close> the blocks and bytes of a file,
    \<open>Fs_Dinode\<close> the inodes of a block, \<open>Fs_Calls\<close> whole calls of \<open>readi\<close> and \<open>writei\<close>, \<open>Fs_Dir\<close> directories as
    maps from names to inode numbers, the inode table and path names, with their properties.
  \<^item> \<open>Fs_Pipe\<close>: \<^verbatim>\<open>kernel/pipe.c\<close>, with the locale \<open>bounded_fifo\<close> interpreted on its ring. \<open>Fs_File\<close>,
    \<open>Fs_Syscall\<close> and \<open>Fs_Exec\<close>: \<^verbatim>\<open>kernel/file.c\<close>, \<^verbatim>\<open>kernel/sysfile.c\<close> and \<^verbatim>\<open>kernel/exec.c\<close>.
  \<^item> \<open>Fs_Props\<close> and \<open>Fs_File_Props\<close>: the properties.

  \<^bold>\<open>The kernel: devices.\<close> \<open>Dev_Print\<close>: \<^verbatim>\<open>kernel/printf.c\<close> as the bytes it prints. \<open>Dev_Console\<close>:
  \<^verbatim>\<open>kernel/console.c\<close> over \<^verbatim>\<open>kernel/uart.c\<close>, on the state of the file system layer, where \<open>console_devsw\<close> is
  the entry the console has in \<open>devsw\<close>. \<open>Dev_Console_Props\<close> sees the ring as committed input and a line being
  edited, and shows what each input character and each read do to them. \<open>Dev_Disk\<close>: \<^verbatim>\<open>kernel/virtio_disk.c\<close>;
  \<open>Dev_Disk_Inv\<close> has the device by the specification of virtio and the invariant of descriptors, rings and requests that
  every operation keeps, \<open>Dev_Disk_Props\<close> the runs \<open>vstep\<close> of callers, interrupts and
  device steps in any order. There a call transfers its block (\<open>disk_transfers_block\<close>), as the file system assumes.

  \<^bold>\<open>User programs.\<close> They run above the kernel, so their input is what their reads find and their output the bytes
  they write.
  \<^item> \<open>User_Lib\<close>: \<^verbatim>\<open>user/ulib.c\<close> and \<^verbatim>\<open>user/printf.c\<close>, the same function as the kernel's but for its
    digits, and the numbers \<open>atoi\<close> reads back.
  \<^item> \<open>User_Malloc\<close>: \<^verbatim>\<open>user/umalloc.c\<close>. \<open>User_Malloc_Inv\<close> has its ring of free blocks as a list and what each
    operation does to it, \<open>User_Malloc_Props\<close> the steps \<open>mstep\<close> of a program that uses it.
  \<^item> \<open>User_Grep\<close>: \<^verbatim>\<open>user/grep.c\<close>, its matcher against regular expressions, its loop against the lines of the input.
  \<^item> \<open>User_Sh\<close>: the parser of \<^verbatim>\<open>user/sh.c\<close>, with pointers into the line as the rest of the line and a depth for its
    mutual recursion; four levels for each byte are enough (\<open>parse_returns\<close>). \<open>User_Sh_Props\<close>: it reads back
    every printed command, and its NULs leave the words. \<open>User_Sh_Run\<close>: \<open>runcmd\<close> as the tree of the system
    calls of a process, followed over the descriptors of the process and its children, and the loop of \<open>main\<close>.

  \<^bold>\<open>Interleaving.\<close> Between an \<^verbatim>\<open>acquire\<close> and its \<^verbatim>\<open>release\<close> an operation is one step, which
  \<open>spinlock_mutual_exclusion\<close> justifies. A process operation that sleeps ends its turn there and a resume function
  continues it, so other processes run in between; this covers wait, join, sleep, semaphores, messages, pipes,
  sleep locks, \<^verbatim>\<open>begin_op\<close> and the disk driver. Inside \<^verbatim>\<open>fs.c\<close>, a buffer, inode or transaction that would
  have to be waited for makes the call \<^const>\<open>None\<close>, so that layer is modelled between waits only.

  \<^bold>\<open>Parameters.\<close> In \<open>kstep\<close> the file system calls (\<open>fsops\<close>, \<open>filecalls\<close>) and the device interrupts
  (\<open>devops\<close>) are parameters with the contract that they keep the process table; \<open>devsw\<close> holds the functions
  the drivers install. In the simulator the contents of the input, which directories and files can be made and whether
  memory can be had are parameters. The addresses the linker gives (\<open>syms\<close>) are a parameter. Steps need \<open>nextpid < INT_MAX\<close>,
  since the counter of process numbers overflows there.

  \<^bold>\<open>Not modelled.\<close> Writes of the simulator that fail after a file was opened; the interrupt controller and the register set-up of
  the other devices; the assembly files and the register set-up at boot; memory
  ordering of the harts (steps are sequentially consistent); the test programs, demonstrations and small utilities
  of \<^verbatim>\<open>user/\<close>; the host tool \<^verbatim>\<open>mkfs\<close>.
\<close>

end
